(* ===== verification/Prelude.thy ===== *)
theory Prelude
  imports Main "HOL-Library.Word"
begin

text \<open>
  Shared vocabulary of the development.

  \<^item> The C++ failures the library can raise are values of \<open>cpp_error\<close>; an operation that
    may throw, abort or read outside its storage returns \<open>'a res\<close>, with \<open>Inl\<close> for the failure.
  \<^item> \<open>std::size_t\<close> is a natural number below \<open>SIZE_MOD = 2 ^ 64\<close>; every addition and
    subtraction of the source goes through \<open>szadd\<close> and \<open>szsub\<close>, which wrap.
  \<^item> Raw storage (\<open>std::vector<char>\<close>) is a list of bytes; \<open>mem_read\<close> and \<open>mem_write\<close> fail with
    \<open>Out_of_bounds\<close> where the source would touch memory it does not own, and \<open>vec_resize\<close>
    fails with \<open>Length_error\<close> beyond the vector's \<open>max_size\<close>.

  The collections \<open>size_arith\<close> and \<open>mem_simps\<close> carry the arithmetic and memory rules that the
  component proofs use.
\<close>

named_theorems size_arith "wrap-around arithmetic that does not wrap"
named_theorems mem_simps "reads and writes of raw storage"

section \<open>Machine types and failures\<close>

type_synonym byte = "8 word"
type_synonym u16 = "16 word"
type_synonym u32 = "32 word"
type_synonym u64 = "64 word"

datatype cpp_error =
    Runtime_error string
  | Logic_error string
  | Invalid_argument string
  | Length_error
  | Out_of_bounds
  | Fatal string

text \<open>\<^verbatim>\<open>NetError.h\<close>: the errors that asynchronous operations report.\<close>

datatype netError = PeerClosed | ConnectionReset | NotConnected | OpCancelled | TimedOut | ResolveFailed

type_synonym 'a res = "cpp_error + 'a"

definition bind_res :: "'a res \<Rightarrow> ('a \<Rightarrow> 'b res) \<Rightarrow> 'b res" where
  "bind_res r f = (case r of Inl e \<Rightarrow> Inl e | Inr x \<Rightarrow> f x)"

section \<open>size\_t arithmetic\<close>

definition SIZE_MOD :: nat where
  "SIZE_MOD = 2 ^ 64"

text \<open>\<open>std::vector<char>::max_size()\<close> is \<open>PTRDIFF_MAX\<close>.\<close>

definition VEC_MAX :: nat where
  "VEC_MAX = 2 ^ 63 - 1"

definition szadd :: "nat \<Rightarrow> nat \<Rightarrow> nat" where
  "szadd a b = (a + b) mod SIZE_MOD"

definition szsub :: "nat \<Rightarrow> nat \<Rightarrow> nat" where
  "szsub a b = (a + (SIZE_MOD - b)) mod SIZE_MOD"

section \<open>Raw storage\<close>

definition mem_read :: "nat \<Rightarrow> nat \<Rightarrow> byte list \<Rightarrow> byte list res" where
  "mem_read off n m = (if off + n \<le> length m then Inr (take n (drop off m)) else Inl Out_of_bounds)"

definition mem_write :: "nat \<Rightarrow> byte list \<Rightarrow> byte list \<Rightarrow> byte list res" where
  "mem_write off xs m =
     (if off + length xs \<le> length m then Inr (take off m @ xs @ drop (off + length xs) m)
      else Inl Out_of_bounds)"

definition vec_resize :: "nat \<Rightarrow> byte list \<Rightarrow> byte list res" where
  "vec_resize n v =
     (if n \<le> VEC_MAX then Inr (take n v @ replicate (n - length v) 0) else Inl Length_error)"

text \<open>Element access that shows an index out of range.\<close>

definition nth_opt :: "nat \<Rightarrow> 'a list \<Rightarrow> 'a option" where
  "nth_opt i xs = (if i < length xs then Some (xs ! i) else None)"

text \<open>\<open>std::to_string\<close> of a number that is not negative.\<close>

definition digit :: "nat \<Rightarrow> char" where
  "digit d = ''0123456789'' ! d"

fun to_string :: "nat \<Rightarrow> string" where
  "to_string n = (if n < 10 then [digit n] else to_string (n div 10) @ [digit (n mod 10)])"

declare to_string.simps [simp del]

section \<open>Rules\<close>

lemma digit_inj: "a < 10 \<Longrightarrow> b < 10 \<Longrightarrow> digit a = digit b \<longleftrightarrow> a = b"
  unfolding digit_def by (rule nth_eq_iff_index_eq) simp_all

lemma to_string_nonempty [simp]: "to_string n \<noteq> []" "[] \<noteq> to_string n"
  by (subst to_string.simps, simp)+

lemma to_string_inj: "to_string a = to_string b \<longleftrightarrow> a = b"
proof
  show "to_string a = to_string b \<Longrightarrow> a = b"
  proof (induction a arbitrary: b rule: to_string.induct)
    case (1 a)
    have eq: "(if a < 10 then [digit a] else to_string (a div 10) @ [digit (a mod 10)]) =
        (if b < 10 then [digit b] else to_string (b div 10) @ [digit (b mod 10)])"
      using "1.prems" by (metis to_string.simps)
    show ?case
    proof (cases "a < 10 \<or> b < 10")
      case True
      then show ?thesis using eq by (auto simp: digit_inj split: if_splits)
    next
      case False
      then have "to_string (a div 10) = to_string (b div 10)" "a mod 10 = b mod 10" using eq by (auto simp: digit_inj)
      then have "a div 10 = b div 10" "a mod 10 = b mod 10" using "1.IH" False by auto
      then show ?thesis by (metis div_mult_mod_eq)
    qed
  qed
qed simp

lemma bind_res_simps [simp]:
  "bind_res (Inl e) f = Inl e"
  "bind_res (Inr x) f = f x"
  by (simp_all add: bind_res_def)

lemma bind_res_Inr: "bind_res r f = Inr y \<longleftrightarrow> (\<exists>x. r = Inr x \<and> f x = Inr y)"
  by (cases r) simp_all

lemma bind_res_Inl: "bind_res r f = Inl e \<longleftrightarrow> r = Inl e \<or> (\<exists>x. r = Inr x \<and> f x = Inl e)"
  by (cases r) simp_all

lemma bind_res_cong [fundef_cong]:
  "r = r' \<Longrightarrow> (\<And>x. r' = Inr x \<Longrightarrow> f x = g x) \<Longrightarrow> bind_res r f = bind_res r' g"
  by (cases r') simp_all

lemma VEC_MAX_less_SIZE_MOD: "VEC_MAX < SIZE_MOD"
  by (simp add: VEC_MAX_def SIZE_MOD_def)

lemma szadd_exact [size_arith]: "a + b < SIZE_MOD \<Longrightarrow> szadd a b = a + b"
  by (simp add: szadd_def)

lemma szadd_vec [size_arith]: "a + b \<le> VEC_MAX \<Longrightarrow> szadd a b = a + b"
  by (rule szadd_exact) (use VEC_MAX_less_SIZE_MOD in linarith)

lemma szsub_exact [size_arith]: "b \<le> a \<Longrightarrow> a < SIZE_MOD \<Longrightarrow> szsub a b = a - b"
proof -
  assume "b \<le> a" "a < SIZE_MOD"
  then have "a + (SIZE_MOD - b) = (a - b) + SIZE_MOD" by simp
  moreover have "(a - b) mod SIZE_MOD = a - b" using \<open>a < SIZE_MOD\<close> by simp
  ultimately show ?thesis unfolding szsub_def by (simp only: mod_add_self2)
qed

lemma szsub_vec [size_arith]: "b \<le> a \<Longrightarrow> a \<le> VEC_MAX \<Longrightarrow> szsub a b = a - b"
  by (rule szsub_exact) (use VEC_MAX_less_SIZE_MOD in simp_all)

lemma szadd_bound: "szadd a b < SIZE_MOD"
  by (simp add: szadd_def SIZE_MOD_def)

lemma mem_read_ok [mem_simps]: "off + n \<le> length m \<Longrightarrow> mem_read off n m = Inr (take n (drop off m))"
  by (simp add: mem_read_def)

lemma mem_write_ok [mem_simps]:
  "off + length xs \<le> length m \<Longrightarrow> mem_write off xs m = Inr (take off m @ xs @ drop (off + length xs) m)"
  by (simp add: mem_write_def)

lemma mem_write_length: "mem_write off xs m = Inr m' \<Longrightarrow> length m' = length m"
  by (auto simp: mem_write_def split: if_splits)

lemma vec_resize_ok [mem_simps]:
  "n \<le> VEC_MAX \<Longrightarrow> vec_resize n v = Inr (take n v @ replicate (n - length v) 0)"
  by (simp add: vec_resize_def)

lemma take_drop_split: "a \<le> b \<Longrightarrow> b \<le> c \<Longrightarrow>
    take (c - a) (drop a xs) = take (b - a) (drop a xs) @ take (c - b) (drop b xs)"
proof -
  assume "a \<le> b" "b \<le> c"
  then have "take (c - a) (drop a xs) = take ((b - a) + (c - b)) (drop a xs)" by simp
  also have "\<dots> = take (b - a) (drop a xs) @ take (c - b) (drop (b - a) (drop a xs))"
    by (rule take_add)
  finally show ?thesis using \<open>a \<le> b\<close> by simp
qed

lemma sum_list_map_update:
  fixes f :: "'a \<Rightarrow> nat"
  shows "i < length xs \<Longrightarrow> sum_list (map f (xs[i := y])) + f (xs ! i) = sum_list (map f xs) + f y"
proof (induction xs arbitrary: i)
  case (Cons x xs)
  then show ?case by (cases i) auto
qed simp

end
