(* ===== verification/Packet_Framer.thy ===== *)
theory Packet_Framer
  imports Prelude
begin

unbundle bit_operations_syntax

text \<open>
  \<^verbatim>\<open>mini/net/framing/FrameType.h\<close>, \<^verbatim>\<open>PacketFramer.h\<close>, \<^verbatim>\<open>PacketFramer.cc\<close>: the length-prefixed frame
  format and its incremental decoder.

  A \<open>const char*\<close> with its length is a list of bytes; a \<open>string_view\<close> payload is the slice it shows.
  Output parameters are returned. Every read of the input goes through \<open>mem_read\<close>, so a read past
  the end would be the failure \<open>Out_of_bounds\<close>.
\<close>

section \<open>FrameType.h\<close>

definition kDefaultPacketMagic :: u16 where
  "kDefaultPacketMagic = 0x5046"

definition kFrameHeaderSize :: nat where
  "kFrameHeaderSize = 2 + 4 + 4 + 2 + 4"

definition kDefaultMaxPayloadSize :: nat where
  "kDefaultMaxPayloadSize = 64 * 1024"

record packet_header =
  magic :: u16
  payloadLen :: u32
  msgId :: u32
  flags :: u16
  seqNo :: u32

definition PacketHeader :: packet_header where
  "PacketHeader = \<lparr>magic = kDefaultPacketMagic, payloadLen = 0, msgId = 0, flags = 0, seqNo = 0\<rparr>"

datatype decode_state = kComplete | kNeedMore | kInvalid | kOverLimit

record packet =
  header :: packet_header
  payload :: "byte list"

definition Packet :: packet where
  "Packet = \<lparr>header = PacketHeader, payload = []\<rparr>"

section \<open>PacketFramer.cc\<close>

definition appendUint16 :: "byte list \<Rightarrow> u16 \<Rightarrow> byte list" where
  "appendUint16 out v = out @ [ucast (drop_bit 8 v AND 0xFF), ucast (v AND 0xFF)]"

definition appendUint32 :: "byte list \<Rightarrow> u32 \<Rightarrow> byte list" where
  "appendUint32 out v = out @ [ucast (drop_bit 24 v AND 0xFF), ucast (drop_bit 16 v AND 0xFF),
                               ucast (drop_bit 8 v AND 0xFF), ucast (v AND 0xFF)]"

definition readUint16 :: "nat \<Rightarrow> byte list \<Rightarrow> u16 res" where
  "readUint16 off data = bind_res (mem_read off 2 data) (\<lambda>b.
     Inr (push_bit 8 (ucast (b ! 0)) OR ucast (b ! 1)))"

definition readUint32 :: "nat \<Rightarrow> byte list \<Rightarrow> u32 res" where
  "readUint32 off data = bind_res (mem_read off 4 data) (\<lambda>b.
     Inr (push_bit 24 (ucast (b ! 0)) OR push_bit 16 (ucast (b ! 1)) OR
          push_bit 8 (ucast (b ! 2)) OR ucast (b ! 3)))"

definition parseHeader :: "byte list \<Rightarrow> packet_header res" where
  "parseHeader data =
     bind_res (readUint16 0 data) (\<lambda>m.
     bind_res (readUint32 2 data) (\<lambda>l.
     bind_res (readUint32 6 data) (\<lambda>i.
     bind_res (readUint16 10 data) (\<lambda>f.
     bind_res (readUint32 12 data) (\<lambda>s.
       Inr \<lparr>magic = m, payloadLen = l, msgId = i, flags = f, seqNo = s\<rparr>)))))"

definition encodeFrame :: "packet_header \<Rightarrow> byte list \<Rightarrow> nat \<Rightarrow> byte list" where
  "encodeFrame hdr pl maxPayload =
     (if maxPayload < length pl then []
      else let normalized = hdr\<lparr>payloadLen := word_of_nat (length pl)\<rparr>;
               frame = appendUint16 [] (magic normalized);
               frame = appendUint32 frame (payloadLen normalized);
               frame = appendUint32 frame (msgId normalized);
               frame = appendUint16 frame (flags normalized);
               frame = appendUint32 frame (seqNo normalized)
           in frame @ pl)"

text \<open>The result is the returned state, \<open>consumed\<close> and \<open>packet\<close>.\<close>

definition decodeFrame :: "byte list \<Rightarrow> packet \<Rightarrow> nat \<Rightarrow> u16 \<Rightarrow> (decode_state \<times> nat \<times> packet) res" where
  "decodeFrame data pkt maxPayload expectedMagic =
     (if length data < kFrameHeaderSize then Inr (kNeedMore, 0, pkt)
      else bind_res (parseHeader data) (\<lambda>hdr.
        if magic hdr \<noteq> expectedMagic then Inr (kInvalid, 0, pkt)
        else if maxPayload < unat (payloadLen hdr) then Inr (kOverLimit, 0, pkt)
        else let totalLen = kFrameHeaderSize + unat (payloadLen hdr)
             in if length data < totalLen then Inr (kNeedMore, 0, pkt)
                else bind_res (mem_read kFrameHeaderSize (unat (payloadLen hdr)) data) (\<lambda>pl.
                  Inr (kComplete, totalLen, \<lparr>header = hdr, payload = pl\<rparr>))))"

section \<open>PacketFramer.h\<close>

record packet_batch_result =
  batchStatus :: decode_state
  batchConsumed :: nat
  frameCount :: nat
  hitLimit :: bool

definition kDefaultMaxFramesPerBatch :: nat where
  "kDefaultMaxFramesPerBatch = 16"

record packet_framer =
  expectedMagic :: u16
  maxPayload :: nat

definition PacketFramer :: packet_framer where
  "PacketFramer = \<lparr>expectedMagic = kDefaultPacketMagic, maxPayload = kDefaultMaxPayloadSize\<rparr>"

definition encode :: "packet_framer \<Rightarrow> u32 \<Rightarrow> u16 \<Rightarrow> u32 \<Rightarrow> byte list \<Rightarrow> byte list" where
  "encode fr mid fl sq pl =
     encodeFrame \<lparr>magic = expectedMagic fr, payloadLen = 0, msgId = mid, flags = fl, seqNo = sq\<rparr> pl (maxPayload fr)"

definition decode :: "packet_framer \<Rightarrow> byte list \<Rightarrow> packet \<Rightarrow> (decode_state \<times> nat \<times> packet) res" where
  "decode fr data pkt = decodeFrame data pkt (maxPayload fr) (expectedMagic fr)"

text \<open>\<open>packets\<close> is the caller's array (\<open>None\<close>: the null pointer).\<close>

definition store_packet :: "packet list option \<Rightarrow> nat \<Rightarrow> packet \<Rightarrow> packet list option res" where
  "store_packet packets i p =
     (case packets of
        None \<Rightarrow> Inr None
      | Some arr \<Rightarrow> if i < length arr then Inr (Some (arr[i := p])) else Inl Out_of_bounds)"

function decodeBatch_loop :: "packet_framer \<Rightarrow> byte list \<Rightarrow> nat \<Rightarrow> packet list option \<Rightarrow> nat \<Rightarrow> nat \<Rightarrow>
    (packet_batch_result \<times> packet list option) res" where
  "decodeBatch_loop fr data frameBudget packets offset count =
     (if offset < length data \<and> count < frameBudget then
        bind_res (decodeFrame (drop offset data) Packet (maxPayload fr) (expectedMagic fr))
          (\<lambda>(state, consumed, pkt).
             if state \<noteq> kComplete then
               Inr (\<lparr>batchStatus = state, batchConsumed = offset, frameCount = count, hitLimit = False\<rparr>, packets)
             else bind_res (store_packet packets count pkt) (\<lambda>packets'.
                    decodeBatch_loop fr data frameBudget packets' (offset + consumed) (count + 1)))
      else if offset < length data then
        Inr (\<lparr>batchStatus = kNeedMore, batchConsumed = offset, frameCount = count,
              hitLimit = (count = frameBudget)\<rparr>, packets)
      else
        Inr (\<lparr>batchStatus = kComplete, batchConsumed = offset, frameCount = count, hitLimit = False\<rparr>, packets))"
  by pat_completeness auto
termination
  by (relation "measure (\<lambda>(fr, data, budget, packets, offset, count). budget - count)") auto

definition decodeBatch :: "packet_framer \<Rightarrow> byte list \<Rightarrow> packet list option \<Rightarrow> nat \<Rightarrow> nat \<Rightarrow>
    (packet_batch_result \<times> packet list option) res" where
  "decodeBatch fr data packets maxPackets maxFramesPerBatch =
     (if maxPackets = 0 then
        Inr (\<lparr>batchStatus = (if length data = 0 then kComplete else kNeedMore), batchConsumed = 0,
              frameCount = 0, hitLimit = (length data > 0)\<rparr>, packets)
      else
        let frameBudget = (if maxFramesPerBatch = 0 then maxPackets else min maxPackets maxFramesPerBatch)
        in decodeBatch_loop fr data frameBudget packets 0 0)"

declare decodeBatch_loop.simps [simp del]

section \<open>Big-endian integers\<close>

definition be16 :: "u16 \<Rightarrow> byte list" where
  "be16 v = appendUint16 [] v"

definition be32 :: "u32 \<Rightarrow> byte list" where
  "be32 v = appendUint32 [] v"

lemma be_length [simp]: "length (be16 v) = 2" "length (be32 w) = 4"
  by (simp_all add: be16_def be32_def appendUint16_def appendUint32_def)

lemma low_byte_mask: "(0xFF :: 'a::len word) = mask 8"
  by (simp add: mask_eq_exp_minus_1)

lemma low_byte: "ucast (w AND 0xFF) = (ucast w :: byte)"
  unfolding low_byte_mask by (rule bit_word_eqI) (auto simp: bit_simps dest: bit_imp_le_length)

lemma join16: "push_bit 8 (ucast (ucast (drop_bit 8 v) :: byte)) OR
    ucast (ucast v :: byte) = (v :: u16)" (is "?l = _")
proof (rule bit_word_eqI)
  fix n assume "n < LENGTH(16)"
  then show "bit ?l n = bit v n" by (cases "n < 8") (auto simp: bit_simps not_less)
qed

lemma join32: "push_bit 24 (ucast (ucast (drop_bit 24 v) :: byte)) OR
    push_bit 16 (ucast (ucast (drop_bit 16 v) :: byte)) OR
    push_bit 8 (ucast (ucast (drop_bit 8 v) :: byte)) OR
    ucast (ucast v :: byte) = (v :: u32)" (is "?l = _")
proof (rule bit_word_eqI)
  fix n assume n: "n < LENGTH(32)"
  consider "n < 8" | "8 \<le> n" "n < 16" | "16 \<le> n" "n < 24" | "24 \<le> n" by linarith
  then show "bit ?l n = bit v n"
    using n by cases (auto simp: bit_simps not_less)
qed

lemma split16:
  "(ucast (drop_bit 8 (push_bit 8 (ucast a) OR ucast b :: u16)) :: byte) = a"
  "(ucast (push_bit 8 (ucast a) OR ucast b :: u16) :: byte) = b"
  by (rule bit_word_eqI, auto simp: bit_simps dest: bit_imp_le_length)+

lemma split32:
  "(ucast (drop_bit 24 (push_bit 24 (ucast a) OR push_bit 16 (ucast b) OR push_bit 8 (ucast c) OR ucast d :: u32)) :: byte) = a"
  "(ucast (drop_bit 16 (push_bit 24 (ucast a) OR push_bit 16 (ucast b) OR push_bit 8 (ucast c) OR ucast d :: u32)) :: byte) = b"
  "(ucast (drop_bit 8 (push_bit 24 (ucast a) OR push_bit 16 (ucast b) OR push_bit 8 (ucast c) OR ucast d :: u32)) :: byte) = c"
  "(ucast (push_bit 24 (ucast a) OR push_bit 16 (ucast b) OR push_bit 8 (ucast c) OR ucast d :: u32) :: byte) = d"
  by (rule bit_word_eqI, auto simp: bit_simps dest: bit_imp_le_length)+

lemma readUint16_be16: "length xs = off \<Longrightarrow> readUint16 off (xs @ be16 v @ ys) = Inr v"
  by (simp add: readUint16_def mem_read_def be16_def appendUint16_def low_byte join16)

lemma readUint32_be32: "length xs = off \<Longrightarrow> readUint32 off (xs @ be32 v @ ys) = Inr v"
  by (simp add: readUint32_def mem_read_def be32_def appendUint32_def low_byte join32)

lemma be16_readUint16:
  assumes "off + 2 \<le> length data"
  obtains v where "readUint16 off data = Inr v" "take 2 (drop off data) = be16 v"
proof -
  obtain a b where ab: "take 2 (drop off data) = [a, b]"
    using assms by (auto simp: numeral_2_eq_2 take_Suc length_Suc_conv Cons_nth_drop_Suc [symmetric])
  show thesis
    by (rule that [of "push_bit 8 (ucast a) OR ucast b"])
      (use assms ab in \<open>simp_all add: readUint16_def mem_read_def be16_def appendUint16_def low_byte split16 del: drop_bit_or\<close>)
qed

lemma take4_list: "off + 4 \<le> length data \<Longrightarrow>
    take 4 (drop off data) = [data ! off, data ! (off + 1), data ! (off + 2), data ! (off + 3)]"
  by (simp add: list_eq_iff_nth_eq nth_Cons' less_Suc_eq numeral_eq_Suc)

lemma be32_readUint32:
  assumes "off + 4 \<le> length data"
  obtains v where "readUint32 off data = Inr v" "take 4 (drop off data) = be32 v"
proof -
  obtain a b c d where abcd: "take 4 (drop off data) = [a, b, c, d]"
    using take4_list [OF assms] by blast
  show thesis
    by (rule that [of "push_bit 24 (ucast a) OR push_bit 16 (ucast b) OR push_bit 8 (ucast c) OR ucast d"])
      (use assms abcd in \<open>simp_all add: readUint32_def mem_read_def be32_def appendUint32_def low_byte split32 del: drop_bit_or\<close>)
qed

section \<open>Headers\<close>

definition header_bytes :: "packet_header \<Rightarrow> byte list" where
  "header_bytes h = be16 (magic h) @ be32 (payloadLen h) @ be32 (msgId h) @ be16 (flags h) @ be32 (seqNo h)"

lemma length_header_bytes [simp]: "length (header_bytes h) = kFrameHeaderSize"
  by (simp add: header_bytes_def kFrameHeaderSize_def)

lemma encodeFrame_eq: "length pl \<le> mp \<Longrightarrow>
    encodeFrame h pl mp = header_bytes (h\<lparr>payloadLen := word_of_nat (length pl)\<rparr>) @ pl"
  by (simp add: encodeFrame_def header_bytes_def be16_def be32_def appendUint16_def appendUint32_def Let_def)

lemma parseHeader_header_bytes: "parseHeader (header_bytes h @ rest) = Inr h"
proof -
  let ?m = "be16 (magic h)" and ?l = "be32 (payloadLen h)" and ?i = "be32 (msgId h)"
    and ?f = "be16 (flags h)" and ?s = "be32 (seqNo h)"
  let ?d = "?m @ ?l @ ?i @ ?f @ ?s @ rest"
  have "readUint16 0 ?d = Inr (magic h)" "readUint32 2 ?d = Inr (payloadLen h)"
    "readUint32 6 ?d = Inr (msgId h)" "readUint16 10 ?d = Inr (flags h)" "readUint32 12 ?d = Inr (seqNo h)"
    using readUint16_be16 [of "[]"] readUint32_be32 [of ?m] readUint32_be32 [of "?m @ ?l"]
      readUint16_be16 [of "?m @ ?l @ ?i"] readUint32_be32 [of "?m @ ?l @ ?i @ ?f"] by simp_all
  then show ?thesis by (simp add: parseHeader_def header_bytes_def)
qed

lemma parseHeader_complete:
  assumes "kFrameHeaderSize \<le> length data"
  obtains h where "parseHeader data = Inr h" "take kFrameHeaderSize data = header_bytes h"
proof -
  have len: "16 \<le> length data" using assms by (simp add: kFrameHeaderSize_def)
  obtain m where m: "readUint16 0 data = Inr m" "take 2 (drop 0 data) = be16 m"
    using len by (elim be16_readUint16 [of 0 data, rotated]) simp
  obtain l where l: "readUint32 2 data = Inr l" "take 4 (drop 2 data) = be32 l"
    using len by (elim be32_readUint32 [of 2 data, rotated]) simp
  obtain i where i: "readUint32 6 data = Inr i" "take 4 (drop 6 data) = be32 i"
    using len by (elim be32_readUint32 [of 6 data, rotated]) simp
  obtain f where f: "readUint16 10 data = Inr f" "take 2 (drop 10 data) = be16 f"
    using len by (elim be16_readUint16 [of 10 data, rotated]) simp
  obtain s where s: "readUint32 12 data = Inr s" "take 4 (drop 12 data) = be32 s"
    using len by (elim be32_readUint32 [of 12 data, rotated]) simp
  have "take 16 data = take 2 (drop 0 data) @ take 4 (drop 2 data) @ take 4 (drop 6 data) @
      take 2 (drop 10 data) @ take 4 (drop 12 data)"
    using take_drop_split [of 0 2 16 data] take_drop_split [of 2 6 16 data]
      take_drop_split [of 6 10 16 data] take_drop_split [of 10 12 16 data] by simp
  then have "take 16 data = be16 m @ be32 l @ be32 i @ be16 f @ be32 s"
    by (simp only: m l i f s)
  then show thesis
    by (intro that [of "\<lparr>magic = m, payloadLen = l, msgId = i, flags = f, seqNo = s\<rparr>"])
      (simp_all add: m l i f s parseHeader_def header_bytes_def kFrameHeaderSize_def)
qed

section \<open>Single frames\<close>

lemma decodeFrame_header:
  "decodeFrame (header_bytes h @ rest) pkt mp em =
     (if magic h \<noteq> em then Inr (kInvalid, 0, pkt)
      else if mp < unat (payloadLen h) then Inr (kOverLimit, 0, pkt)
      else if length rest < unat (payloadLen h) then Inr (kNeedMore, 0, pkt)
      else Inr (kComplete, kFrameHeaderSize + unat (payloadLen h),
                \<lparr>header = h, payload = take (unat (payloadLen h)) rest\<rparr>))"
  by (simp add: decodeFrame_def parseHeader_header_bytes mem_read_def Let_def)

lemma decodeFrame_short: "length data < kFrameHeaderSize \<Longrightarrow> decodeFrame data pkt mp em = Inr (kNeedMore, 0, pkt)"
  by (simp add: decodeFrame_def)

lemma decodeFrame_cases:
  obtains (short) "length data < kFrameHeaderSize"
  | (header) h rest where "data = header_bytes h @ rest"
proof (cases "length data < kFrameHeaderSize")
  case False
  then obtain h where "take kFrameHeaderSize data = header_bytes h"
    using parseHeader_complete by (metis not_less)
  then have "data = header_bytes h @ drop kFrameHeaderSize data" by (metis append_take_drop_id)
  then show thesis by (rule header)
qed

lemma decodeFrame_total:
  obtains st c pkt' where "decodeFrame data pkt mp em = Inr (st, c, pkt')" "c \<le> length data"
    "st = kComplete \<Longrightarrow> kFrameHeaderSize \<le> c" "st \<noteq> kComplete \<Longrightarrow> c = 0 \<and> pkt' = pkt"
proof (cases data rule: decodeFrame_cases)
  case short
  then show thesis by (intro that) (auto simp: decodeFrame_short)
next
  case (header h rest)
  have "decodeFrame data pkt mp em \<in> Inr `
      {(st, c, pkt'). c \<le> length data \<and> (st = kComplete \<longrightarrow> kFrameHeaderSize \<le> c) \<and>
        (st \<noteq> kComplete \<longrightarrow> c = 0 \<and> pkt' = pkt)}"
    unfolding header decodeFrame_header by (simp split: if_split)
  then show thesis using that by auto
qed

text \<open>A frame that the encoder accepts and whose length field does not wrap.\<close>

definition encodable :: "packet_framer \<Rightarrow> packet \<Rightarrow> bool" where
  "encodable fr p \<longleftrightarrow> magic (header p) = expectedMagic fr \<and> length (payload p) \<le> maxPayload fr \<and>
     length (payload p) < 2 ^ 32 \<and> payloadLen (header p) = word_of_nat (length (payload p))"

definition frame_of :: "packet_framer \<Rightarrow> packet \<Rightarrow> byte list" where
  "frame_of fr p = encodeFrame (header p) (payload p) (maxPayload fr)"

lemma frame_of_eq: "encodable fr p \<Longrightarrow> frame_of fr p = header_bytes (header p) @ payload p"
  by (simp add: encodable_def frame_of_def encodeFrame_eq header_bytes_def)

lemma unat_length: "n < 2 ^ 32 \<Longrightarrow> unat (word_of_nat n :: u32) = n"
  by (simp add: unat_of_nat)

lemma decodeFrame_frame_of:
  assumes "encodable fr p"
  shows "decodeFrame (frame_of fr p @ rest) pkt (maxPayload fr) (expectedMagic fr) =
    Inr (kComplete, length (frame_of fr p), p)"
proof -
  have "unat (payloadLen (header p)) = length (payload p)"
    using assms unat_length by (simp add: encodable_def)
  then show ?thesis using assms
    by (simp add: frame_of_eq decodeFrame_header) (simp add: encodable_def)
qed

lemma decodeFrame_proper_prefix:
  assumes p: "encodable fr p" and pre: "frame_of fr p = xs @ ys" "ys \<noteq> []"
  shows "decodeFrame xs pkt (maxPayload fr) (expectedMagic fr) = Inr (kNeedMore, 0, pkt)"
proof (cases "length xs < kFrameHeaderSize")
  case False
  have eq: "xs @ ys = header_bytes (header p) @ payload p" using pre p by (simp add: frame_of_eq)
  have "take kFrameHeaderSize (xs @ ys) = header_bytes (header p)"
    and "drop kFrameHeaderSize (xs @ ys) = payload p" using eq by simp_all
  then have "take kFrameHeaderSize xs = header_bytes (header p)"
    and "payload p = drop kFrameHeaderSize xs @ ys" using False by simp_all
  then obtain us where us: "xs = header_bytes (header p) @ us" "payload p = us @ ys"
    by (metis append_take_drop_id)
  have "unat (payloadLen (header p)) = length (payload p)"
    using p unat_length by (simp add: encodable_def)
  then show ?thesis using p us pre(2)
    by (simp add: decodeFrame_header) (simp add: encodable_def)
qed (simp add: decodeFrame_short)

section \<open>Batches\<close>

lemma decodeBatch_loop_stop:
  "\<not> (offset < length data \<and> count < budget) \<Longrightarrow>
   decodeBatch_loop fr data budget packets offset count =
     Inr (\<lparr>batchStatus = (if offset < length data then kNeedMore else kComplete), batchConsumed = offset,
           frameCount = count, hitLimit = (offset < length data \<and> count = budget)\<rparr>, packets)"
  by (subst decodeBatch_loop.simps) simp

lemma decodeBatch_loop_frame:
  assumes p: "encodable fr p" and d: "drop offset data = frame_of fr p @ rest" and c: "count < budget"
    and arr: "count < length arr"
  shows "decodeBatch_loop fr data budget (Some arr) offset count =
    decodeBatch_loop fr data budget (Some (arr[count := p])) (offset + length (frame_of fr p)) (count + 1)"
proof -
  have "0 < length (frame_of fr p)" using p by (simp add: frame_of_eq kFrameHeaderSize_def)
  then have "drop offset data \<noteq> []" using d by auto
  then have "offset < length data" by simp
  then show ?thesis using p d c arr
    by (subst decodeBatch_loop.simps) (simp add: decodeFrame_frame_of store_packet_def)
qed

lemma decodeBatch_loop_tail:
  assumes "\<exists>q ys. encodable fr q \<and> frame_of fr q = rest @ ys \<and> ys \<noteq> []"
    and d: "drop offset data = rest" and off: "offset \<le> length data"
  shows "decodeBatch_loop fr data budget packets offset count =
    Inr (\<lparr>batchStatus = (if rest = [] then kComplete else kNeedMore), batchConsumed = offset,
          frameCount = count, hitLimit = (rest \<noteq> [] \<and> count = budget)\<rparr>, packets)"
proof (cases "offset < length data \<and> count < budget")
  case True
  then have "rest \<noteq> []" using d by auto
  moreover have "decodeFrame rest Packet (maxPayload fr) (expectedMagic fr) = Inr (kNeedMore, 0, Packet)"
    using assms(1) decodeFrame_proper_prefix by blast
  ultimately show ?thesis using True d
    by (subst decodeBatch_loop.simps) simp
next
  case False
  then show ?thesis using d off by (auto simp: decodeBatch_loop_stop)
qed

lemma decodeBatch_loop_frames:
  assumes tail: "\<exists>q ys. encodable fr q \<and> frame_of fr q = rest @ ys \<and> ys \<noteq> []"
  shows "list_all (encodable fr) ps \<Longrightarrow> drop offset data = concat (map (frame_of fr) ps) @ rest \<Longrightarrow>
    offset \<le> length data \<Longrightarrow> count + length ps \<le> budget \<Longrightarrow> budget \<le> length arr \<Longrightarrow>
    decodeBatch_loop fr data budget (Some arr) offset count =
    Inr (\<lparr>batchStatus = (if rest = [] then kComplete else kNeedMore),
          batchConsumed = offset + length (concat (map (frame_of fr) ps)),
          frameCount = count + length ps, hitLimit = (rest \<noteq> [] \<and> count + length ps = budget)\<rparr>,
         Some (take count arr @ ps @ drop (count + length ps) arr))"
proof (induction ps arbitrary: offset count arr)
  case Nil
  then show ?case using decodeBatch_loop_tail [OF tail] by simp
next
  case (Cons p ps)
  let ?n = "length (frame_of fr p)"
  have c: "count < length arr" and b: "count < budget" using Cons.prems by simp_all
  have step: "decodeBatch_loop fr data budget (Some arr) offset count =
      decodeBatch_loop fr data budget (Some (arr[count := p])) (offset + ?n) (count + 1)"
    using Cons.prems c b by (intro decodeBatch_loop_frame) auto
  have d: "drop (offset + ?n) data = concat (map (frame_of fr) ps) @ rest"
  proof -
    have "drop (offset + ?n) data = drop ?n (drop offset data)" by (simp add: add.commute)
    then show ?thesis using Cons.prems(2) by simp
  qed
  have "?n \<le> length (drop offset data)" using Cons.prems(2) by simp
  then have off: "offset + ?n \<le> length data" using Cons.prems(3) by simp
  have arr: "take (Suc count) (arr[count := p]) @ ps @ drop (Suc (count + length ps)) (arr[count := p])
      = take count arr @ (p # ps) @ drop (Suc (count + length ps)) arr"
    using c by (simp add: take_Suc_conv_app_nth)
  show ?case using Cons.IH [OF _ d off, of "count + 1" "arr[count := p]"] Cons.prems arr
    by (simp add: step)
qed

lemma decodeBatch_loop_safe:
  "offset \<le> length data \<Longrightarrow> count \<le> budget \<Longrightarrow>
   (\<forall>arr. packets = Some arr \<longrightarrow> budget \<le> length arr) \<Longrightarrow>
   \<exists>r packets'. decodeBatch_loop fr data budget packets offset count = Inr (r, packets') \<and>
     offset \<le> batchConsumed r \<and> batchConsumed r \<le> length data \<and> frameCount r \<le> budget \<and>
     (batchStatus r = kComplete \<longrightarrow> batchConsumed r = length data)"
proof (induction fr data budget packets offset count rule: decodeBatch_loop.induct)
  case (1 fr data budget packets offset count)
  show ?case
  proof (cases "offset < length data \<and> count < budget")
    case False
    then show ?thesis using "1.prems" by (simp add: decodeBatch_loop_stop)
  next
    case True
    obtain st c pkt where dec: "decodeFrame (drop offset data) Packet (maxPayload fr) (expectedMagic fr) = Inr (st, c, pkt)"
      and c: "c \<le> length (drop offset data)"
      by (rule decodeFrame_total)
    obtain packets' where st: "store_packet packets count pkt = Inr packets'"
      and cap: "\<forall>arr. packets' = Some arr \<longrightarrow> budget \<le> length arr"
      using "1.prems"(3) True by (cases packets) (auto simp: store_packet_def)
    show ?thesis
    proof (cases "st = kComplete")
      case False
      then show ?thesis using True dec "1.prems" by (subst decodeBatch_loop.simps) simp
    next
      case complete: True
      have off: "offset + c \<le> length data" using c True unfolding length_drop by linarith
      have eq: "decodeBatch_loop fr data budget packets offset count =
          decodeBatch_loop fr data budget packets' (offset + c) (count + 1)"
        using True dec complete st by (subst decodeBatch_loop.simps) simp
      show ?thesis
        using "1.IH" [OF True dec refl refl] complete st off cap True unfolding eq by fastforce
    qed
  qed
qed

lemma decodeFrame_complete:
  assumes "decodeFrame data pkt mp em = Inr (kComplete, c, p)"
  shows "c = kFrameHeaderSize + length (payload p)" and "take c data = header_bytes (header p) @ payload p"
    and "magic (header p) = em" and "length (payload p) \<le> mp" and "length (payload p) < 2 ^ 32"
    and "payloadLen (header p) = word_of_nat (length (payload p))"
proof -
  obtain h rest where d: "data = header_bytes h @ rest"
    using assms by (cases data rule: decodeFrame_cases) (simp_all add: decodeFrame_short)
  have b: "unat (payloadLen h) < 2 ^ 32" using unsigned_less [of "payloadLen h"] by simp
  from assms have "magic h = em" "unat (payloadLen h) \<le> mp" "unat (payloadLen h) \<le> length rest"
    "c = kFrameHeaderSize + unat (payloadLen h)"
    "p = \<lparr>header = h, payload = take (unat (payloadLen h)) rest\<rparr>"
    unfolding d decodeFrame_header by (simp_all split: if_splits)
  with b show "c = kFrameHeaderSize + length (payload p)" "take c data = header_bytes (header p) @ payload p"
    "magic (header p) = em" "length (payload p) \<le> mp" "length (payload p) < 2 ^ 32"
    "payloadLen (header p) = word_of_nat (length (payload p))"
    by (simp_all add: d)
qed

section \<open>Properties\<close>

text \<open>C5. Round trip, encoder side. A payload within the limit (and shorter than \<open>2 ^ 32\<close> bytes) that
  \<open>PacketFramer::encode\<close> puts on the wire is decoded, whatever bytes follow it, to the same message
  id, flags, sequence number and payload, and exactly the frame's bytes are consumed.\<close>

theorem encode_decode_roundtrip:
  assumes "length pl \<le> maxPayload fr" "length pl < 2 ^ 32"
  shows "decode fr (encode fr mid fl sq pl @ rest) pkt =
    Inr (kComplete, kFrameHeaderSize + length pl,
         \<lparr>header = \<lparr>magic = expectedMagic fr, payloadLen = word_of_nat (length pl), msgId = mid,
                    flags = fl, seqNo = sq\<rparr>, payload = pl\<rparr>)"
  using assms unat_length [OF assms(2)]
  by (simp add: decode_def encode_def encodeFrame_eq decodeFrame_header)

theorem encode_decode_roundtrip_witness:
  "decode PacketFramer (encode PacketFramer 7 1 42 [10, 20] @ [99]) Packet =
    Inr (kComplete, 18, \<lparr>header = \<lparr>magic = 0x5046, payloadLen = 2, msgId = 7, flags = 1, seqNo = 42\<rparr>,
                         payload = [10, 20]\<rparr>)"
  using encode_decode_roundtrip [of "[10, 20]" PacketFramer 7 1 42 "[99]" Packet]
  by (simp add: PacketFramer_def kDefaultMaxPayloadSize_def kFrameHeaderSize_def kDefaultPacketMagic_def)

text \<open>Round trip, decoder side. Whenever the decoder reports a complete packet, the consumed bytes
  are exactly what \<open>encodeFrame\<close> produces for that packet, so the decoder accepts only encodings:
  no two different byte strings decode to the same packet.\<close>

theorem decode_encode_roundtrip:
  assumes "decode fr data pkt = Inr (kComplete, c, p)"
  shows "take c data = encodeFrame (header p) (payload p) (maxPayload fr) \<and> c \<le> length data \<and>
    magic (header p) = expectedMagic fr"
proof -
  note dc = decodeFrame_complete [OF assms [unfolded decode_def]]
  have "length (take c data) = c" unfolding dc(2) by (simp add: dc(1))
  then have "c \<le> length data" by simp
  moreover have "header_bytes (header p\<lparr>payloadLen := word_of_nat (length (payload p))\<rparr>) = header_bytes (header p)"
    using dc(6) by (simp add: header_bytes_def)
  ultimately show ?thesis using dc by (simp add: encodeFrame_eq)
qed

theorem decode_encode_roundtrip_witness:
  "take 18 (encode PacketFramer 7 1 42 [10, 20] @ [99]) =
    encodeFrame \<lparr>magic = 0x5046, payloadLen = 2, msgId = 7, flags = 1, seqNo = 42\<rparr> [10, 20] 65536"
proof -
  have "decode PacketFramer (encode PacketFramer 7 1 42 [10, 20] @ [99]) Packet =
    Inr (kComplete, 18, \<lparr>header = \<lparr>magic = 0x5046, payloadLen = 2, msgId = 7, flags = 1, seqNo = 42\<rparr>,
                         payload = [10, 20]\<rparr>)"
    by (simp add: decode_def encode_def encodeFrame_eq decodeFrame_header PacketFramer_def
        kDefaultMaxPayloadSize_def kFrameHeaderSize_def kDefaultPacketMagic_def)
  from decode_encode_roundtrip [OF this] show ?thesis
    by (simp add: PacketFramer_def kDefaultMaxPayloadSize_def)
qed

text \<open>Half packets. Every proper prefix of a valid frame, of any length from no byte to all but
  one, is answered with \<open>kNeedMore\<close>, consumes nothing and leaves the caller's packet untouched.\<close>

theorem partial_frame_needs_more:
  assumes "encodable fr p" "n < length (frame_of fr p)"
  shows "decode fr (take n (frame_of fr p)) pkt = Inr (kNeedMore, 0, pkt)"
proof -
  have "frame_of fr p = take n (frame_of fr p) @ drop n (frame_of fr p)" by simp
  moreover have "drop n (frame_of fr p) \<noteq> []" using assms(2) by simp
  ultimately show ?thesis unfolding decode_def by (rule decodeFrame_proper_prefix [OF assms(1)])
qed

theorem partial_frame_needs_more_witness:
  "decode PacketFramer (take 17 (frame_of PacketFramer
      \<lparr>header = PacketHeader\<lparr>payloadLen := 2\<rparr>, payload = [10, 20]\<rparr>)) Packet = Inr (kNeedMore, 0, Packet)"
proof (rule partial_frame_needs_more)
  show enc: "encodable PacketFramer \<lparr>header = PacketHeader\<lparr>payloadLen := 2\<rparr>, payload = [10, 20]\<rparr>"
    by (simp add: encodable_def PacketFramer_def PacketHeader_def kDefaultMaxPayloadSize_def)
  show "17 < length (frame_of PacketFramer \<lparr>header = PacketHeader\<lparr>payloadLen := 2\<rparr>, payload = [10, 20]\<rparr>)"
    using frame_of_eq [OF enc] by (simp add: kFrameHeaderSize_def)
qed

text \<open>Sticky packets. If the input is the concatenation of valid frames followed by a proper prefix
  of another one, and the frames fit the batch budget, \<open>decodeBatch\<close> stores exactly these packets in
  order, consumes exactly their bytes, and reports \<open>kComplete\<close> when nothing is left over and
  \<open>kNeedMore\<close> otherwise (with \<open>hitLimit\<close> only when the budget is used up).\<close>

theorem decodeBatch_frames:
  assumes "list_all (encodable fr) ps" "encodable fr q" "frame_of fr q = rest @ ys" "ys \<noteq> []"
    and "length ps \<le> budget" "budget \<le> length arr" "0 < budget"
  shows "decodeBatch fr (concat (map (frame_of fr) ps) @ rest) (Some arr) budget 0 =
    Inr (\<lparr>batchStatus = (if rest = [] then kComplete else kNeedMore),
          batchConsumed = length (concat (map (frame_of fr) ps)), frameCount = length ps,
          hitLimit = (rest \<noteq> [] \<and> length ps = budget)\<rparr>,
         Some (ps @ drop (length ps) arr))"
proof -
  have tail: "\<exists>q ys. encodable fr q \<and> frame_of fr q = rest @ ys \<and> ys \<noteq> []" using assms(2-4) by blast
  show ?thesis
    using assms(1,5-7) decodeBatch_loop_frames [OF tail, of ps 0 "concat (map (frame_of fr) ps) @ rest" 0 budget arr]
    by (simp add: decodeBatch_def)
qed

theorem decodeBatch_frames_witness:
  "let p = \<lparr>header = PacketHeader\<lparr>payloadLen := 1\<rparr>, payload = [5]\<rparr>; f = frame_of PacketFramer p
   in decodeBatch PacketFramer (concat (map (frame_of PacketFramer) [p, p]) @ take 3 f) (Some [Packet, Packet]) 2 0 =
      Inr (\<lparr>batchStatus = kNeedMore, batchConsumed = 34, frameCount = 2, hitLimit = True\<rparr>, Some [p, p])"
proof -
  let ?p = "\<lparr>header = PacketHeader\<lparr>payloadLen := 1\<rparr>, payload = [5]\<rparr>"
  have enc: "encodable PacketFramer ?p"
    by (simp add: encodable_def PacketFramer_def PacketHeader_def kDefaultMaxPayloadSize_def)
  have len: "length (frame_of PacketFramer ?p) = 17"
    using frame_of_eq [OF enc] by (simp add: kFrameHeaderSize_def)
  have "drop 3 (frame_of PacketFramer ?p) \<noteq> []" "take 3 (frame_of PacketFramer ?p) \<noteq> []"
    using len by auto
  then show ?thesis
    using decodeBatch_frames [of PacketFramer "[?p, ?p]" ?p "take 3 (frame_of PacketFramer ?p)"
        "drop 3 (frame_of PacketFramer ?p)" 2 "[Packet, Packet]"] enc len by simp
qed

text \<open>Safety and termination of \<open>decodeBatch\<close> on arbitrary input bytes: it always returns, never
  reads outside the input nor writes outside the caller's array of \<open>maxPackets\<close> entries, never
  reports more consumed bytes than the input has nor more frames than the array holds, and reports
  \<open>kComplete\<close> only when the whole input was consumed.\<close>

theorem decodeBatch_safe:
  assumes "packets = None \<or> (\<exists>arr. packets = Some arr \<and> length arr = maxPackets)"
  shows "\<exists>r packets'. decodeBatch fr data packets maxPackets maxFrames = Inr (r, packets') \<and>
    batchConsumed r \<le> length data \<and> frameCount r \<le> maxPackets \<and>
    (batchStatus r = kComplete \<longrightarrow> batchConsumed r = length data)"
proof (cases "maxPackets = 0")
  case True
  then show ?thesis by (simp add: decodeBatch_def)
next
  case False
  define budget where "budget = (if maxFrames = 0 then maxPackets else min maxPackets maxFrames)"
  have "\<forall>arr. packets = Some arr \<longrightarrow> budget \<le> length arr" using assms by (auto simp: budget_def)
  moreover have "budget \<le> maxPackets" by (simp add: budget_def)
  ultimately show ?thesis
    using decodeBatch_loop_safe [of 0 data 0 budget packets fr] False
    by (fastforce simp: decodeBatch_def budget_def)
qed

theorem decodeBatch_safe_witness:
  "\<exists>r packets'. decodeBatch PacketFramer [1, 2, 3] (Some [Packet]) 1 16 = Inr (r, packets') \<and>
    batchConsumed r \<le> 3 \<and> frameCount r \<le> 1 \<and> (batchStatus r = kComplete \<longrightarrow> batchConsumed r = 3)"
  using decodeBatch_safe [of "Some [Packet]" 1 PacketFramer "[1, 2, 3]" 16]
  by (simp add: numeral_3_eq_3)

text \<open>C40. Truncation of the length field. When the configured limit admits payloads of \<open>2 ^ 32\<close>
  bytes or more, \<open>encodeFrame\<close> still emits a frame, with the length reduced modulo \<open>2 ^ 32\<close>: the
  decoder reports a complete packet that holds only the first \<open>k\<close> of \<open>2 ^ 32 + k\<close> bytes.\<close>

theorem encode_truncates_huge_payload:
  assumes "length pl = 2 ^ 32 + k" "k < 2 ^ 32" "length pl \<le> maxPayload fr"
  shows "decode fr (encode fr mid fl sq pl) pkt =
    Inr (kComplete, kFrameHeaderSize + k,
         \<lparr>header = \<lparr>magic = expectedMagic fr, payloadLen = word_of_nat k, msgId = mid,
                    flags = fl, seqNo = sq\<rparr>, payload = take k pl\<rparr>)"
proof -
  have w: "(word_of_nat (length pl) :: u32) = word_of_nat k"
    unfolding assms(1) by (simp add: word_of_nat_eq_iff take_bit_eq_mod)
  have d: "decode fr (header_bytes \<lparr>magic = expectedMagic fr, payloadLen = word_of_nat k, msgId = mid,
      flags = fl, seqNo = sq\<rparr> @ pl) pkt =
    Inr (kComplete, kFrameHeaderSize + k,
         \<lparr>header = \<lparr>magic = expectedMagic fr, payloadLen = word_of_nat k, msgId = mid,
                    flags = fl, seqNo = sq\<rparr>, payload = take k pl\<rparr>)"
    using assms unat_length [OF assms(2)] by (simp add: decode_def decodeFrame_header)
  show ?thesis using assms(3) d by (simp add: encode_def encodeFrame_eq w)
qed

theorem encode_truncates_huge_payload_witness:
  "decode \<lparr>expectedMagic = 1, maxPayload = 2 ^ 33\<rparr>
     (encode \<lparr>expectedMagic = 1, maxPayload = 2 ^ 33\<rparr> 0 0 0 (replicate (2 ^ 32 + 5) 9)) Packet =
   Inr (kComplete, 21, \<lparr>header = \<lparr>magic = 1, payloadLen = 5, msgId = 0, flags = 0, seqNo = 0\<rparr>,
                        payload = take 5 (replicate (2 ^ 32 + 5) 9)\<rparr>)"
proof -
  let ?fr = "\<lparr>expectedMagic = 1, maxPayload = 2 ^ 33\<rparr>" and ?pl = "replicate (2 ^ 32 + 5) (9 :: byte)"
  have "length ?pl = 2 ^ 32 + 5" "length ?pl \<le> maxPayload ?fr" by simp_all
  then show ?thesis
    using encode_truncates_huge_payload [of ?pl 5 ?fr 0 0 0 Packet]
    by (simp del: take_replicate replicate.simps add: kFrameHeaderSize_def)
qed

end
