(* ===== verification/Socket_Ops.thy ===== *)
theory Socket_Ops
  imports Prelude
begin

text \<open>
  \<^verbatim>\<open>platform/SocketsOps_linux.cc\<close> and \<^verbatim>\<open>Socket.cc\<close>: the classification of errors and the ownership of
  descriptors. \<open>fd_table\<close> holds the descriptors the modelled component has open; closing one it does
  not own (a double close) sets \<open>badClose\<close>, where the code logs the failure of \<open>close(2)\<close>. The system
  calls that create sockets are parameters of the components that use them.
\<close>

section \<open>Errors\<close>

definition EINTR_no :: int where "EINTR_no = 4"
definition EAGAIN :: int where "EAGAIN = 11"
definition EADDRINUSE :: int where "EADDRINUSE = 98"
definition EADDRNOTAVAIL :: int where "EADDRNOTAVAIL = 99"
definition ENETUNREACH :: int where "ENETUNREACH = 101"
definition EISCONN :: int where "EISCONN = 106"
definition ECONNREFUSED :: int where "ECONNREFUSED = 111"
definition EINPROGRESS :: int where "EINPROGRESS = 115"
definition EMSGSIZE :: int where "EMSGSIZE = 90"
definition EPIPE :: int where "EPIPE = 32"
definition ECONNRESET :: int where "ECONNRESET = 104"

text \<open>On Linux \<open>EWOULDBLOCK\<close> is \<open>EAGAIN\<close>.\<close>

definition isWouldBlock :: "int \<Rightarrow> bool" where
  "isWouldBlock error \<longleftrightarrow> error = EAGAIN"

definition isInterrupted :: "int \<Rightarrow> bool" where
  "isInterrupted error \<longleftrightarrow> error = EINTR_no"

definition isInProgress :: "int \<Rightarrow> bool" where
  "isInProgress error \<longleftrightarrow> error = EINPROGRESS \<or> error = EISCONN"

definition isConnectRetryable :: "int \<Rightarrow> bool" where
  "isConnectRetryable error \<longleftrightarrow>
     error = EAGAIN \<or> error = EADDRINUSE \<or> error = EADDRNOTAVAIL \<or> error = ECONNREFUSED \<or> error = ENETUNREACH"

definition isMessageSize :: "int \<Rightarrow> bool" where
  "isMessageSize error \<longleftrightarrow> error = EMSGSIZE"

section \<open>Descriptors\<close>

definition kInvalidSocket :: int where "kInvalidSocket = -1"

definition isValid :: "int \<Rightarrow> bool" where
  "isValid sockfd \<longleftrightarrow> sockfd \<noteq> kInvalidSocket"

record fd_table =
  openFds :: "int set"
  badClose :: bool

definition sockets_close :: "int \<Rightarrow> ('z) fd_table_scheme \<Rightarrow> ('z) fd_table_scheme" where
  "sockets_close sockfd t =
     (if \<not> isValid sockfd then t
      else if sockfd \<in> openFds t then t\<lparr>openFds := openFds t - {sockfd}\<rparr>
      else t\<lparr>badClose := True\<rparr>)"

text \<open>The owning wrapper \<open>Socket\<close>: its destructor closes the descriptor, \<open>releaseFd\<close> gives it up.\<close>

type_synonym socket = int

definition releaseFd :: "socket \<Rightarrow> int \<times> socket" where
  "releaseFd s = (s, kInvalidSocket)"

definition Socket_dtor :: "socket \<Rightarrow> ('z) fd_table_scheme \<Rightarrow> ('z) fd_table_scheme" where
  "Socket_dtor s t = sockets_close s t"

section \<open>Addresses of a socket\<close>

record sockaddr =
  ss_family :: int
  sin_port :: u16
  sin_addr :: "byte list"

definition AF_UNSPEC :: int where "AF_UNSPEC = 0"
definition AF_INET :: int where "AF_INET = 2"
definition AF_INET6 :: int where "AF_INET6 = 10"

lemma Socket_dtor_released [simp]: "Socket_dtor (snd (releaseFd s)) t = t"
  by (simp add: Socket_dtor_def releaseFd_def sockets_close_def isValid_def)

lemma sockets_close_invalid [simp]: "sockets_close kInvalidSocket t = t"
  by (simp add: sockets_close_def isValid_def)

lemma sockets_close_open:
  "fd \<in> openFds t \<Longrightarrow> isValid fd \<Longrightarrow> sockets_close fd t = t\<lparr>openFds := openFds t - {fd}\<rparr>"
  by (simp add: sockets_close_def)

end
