(* ===== verification/Inet_Address.thy ===== *)
theory Inet_Address
  imports Socket_Ops
begin

unbundle bit_operations_syntax

text \<open>
  \<^verbatim>\<open>net/InetAddress.h\<close>, \<^verbatim>\<open>net/InetAddress.cc\<close>: the address class over \<open>sockaddr_storage\<close>.

  The storage is its 128 bytes, so that the reinterpretation as \<open>sockaddr_in\<close> or \<open>sockaddr_in6\<close> is
  a read or a write at the offsets of the Linux ABI (little-endian host): family at 0, port at 2, IPv4 address at
  4, IPv6 address at 8. A \<open>sockaddr_in\<close> is its 16 bytes, a \<open>sockaddr_in6\<close> its 28 bytes. \<open>inet_pton\<close> and \<open>inet_ntop\<close>
  are parameters; \<open>inet_text\<close> is what their documentation promises. The theorems compare the class with
  the abstract \<open>endpoint\<close>.
\<close>

section \<open>Byte order\<close>

definition sa_family :: "int \<Rightarrow> u16" where
  "sa_family f = word_of_int f"

definition le16 :: "u16 \<Rightarrow> byte list" where
  "le16 v = [ucast v, ucast (drop_bit 8 v)]"

definition of_le16 :: "byte list \<Rightarrow> u16" where
  "of_le16 b = ucast (b ! 0) OR push_bit 8 (ucast (b ! 1))"

definition le32 :: "u32 \<Rightarrow> byte list" where
  "le32 v = [ucast v, ucast (drop_bit 8 v), ucast (drop_bit 16 v), ucast (drop_bit 24 v)]"

definition htons :: "u16 \<Rightarrow> u16" where
  "htons v = push_bit 8 v OR drop_bit 8 v"

definition ntohs :: "u16 \<Rightarrow> u16" where
  "ntohs v = htons v"

definition htonl :: "u32 \<Rightarrow> u32" where
  "htonl v = push_bit 24 v OR push_bit 8 (v AND 0xFF00) OR (drop_bit 8 v AND 0xFF00) OR drop_bit 24 v"

definition INADDR_ANY :: u32 where "INADDR_ANY = 0"
definition INADDR_LOOPBACK :: u32 where "INADDR_LOOPBACK = 0x7F000001"

definition in6addr_any :: "byte list" where
  "in6addr_any = replicate 16 0"

section \<open>InetAddress\<close>

type_synonym inet_pton = "u16 \<Rightarrow> string \<Rightarrow> byte list option"
type_synonym inet_ntop = "u16 \<Rightarrow> byte list \<Rightarrow> string option"

record inetAddress =
  ia_addr :: "byte list"
  ia_family :: u16

definition zero_storage :: "byte list" where
  "zero_storage = replicate 128 0"

text \<open>A \<open>std::string\<close> handed to C ends at its first NUL.\<close>

definition c_str :: "string \<Rightarrow> string" where
  "c_str s = takeWhile (\<lambda>c. c \<noteq> CHR 0x00) s"

definition InetAddress_any :: "u16 \<Rightarrow> bool \<Rightarrow> inetAddress res" where
  "InetAddress_any prt loopbackOnly =
     bind_res (mem_write 0 (le16 (sa_family AF_INET)) zero_storage) (\<lambda>m.
     bind_res (mem_write 4 (le32 (htonl (if loopbackOnly then INADDR_LOOPBACK else INADDR_ANY))) m) (\<lambda>m.
     bind_res (mem_write 2 (le16 (htons prt)) m) (\<lambda>m.
       Inr \<lparr>ia_addr = m, ia_family = sa_family AF_INET\<rparr>)))"

definition strip_brackets :: "string \<Rightarrow> string" where
  "strip_brackets s =
     (if 2 \<le> length s \<and> hd s = CHR ''['' \<and> last s = CHR '']'' then take (length s - 2) (drop 1 s) else s)"

text \<open>The IPv6 half that two constructors share: clear, fill in \<open>sin6_*\<close>, parse.\<close>

definition parse_ipv6 :: "inet_pton \<Rightarrow> string \<Rightarrow> u16 \<Rightarrow> string \<Rightarrow> inetAddress res" where
  "parse_ipv6 pton ip prt what =
     bind_res (mem_write 0 (le16 (sa_family AF_INET6)) zero_storage) (\<lambda>m.
     bind_res (mem_write 8 in6addr_any m) (\<lambda>m.
     bind_res (mem_write 2 (le16 (htons prt)) m) (\<lambda>m.
       case pton (sa_family AF_INET6) (c_str (strip_brackets ip)) of
         None \<Rightarrow> Inl (Runtime_error (what @ ip))
       | Some b \<Rightarrow> bind_res (mem_write 8 b m) (\<lambda>m.
           Inr \<lparr>ia_addr = m, ia_family = sa_family AF_INET6\<rparr>))))"

definition InetAddress_ip :: "inet_pton \<Rightarrow> string \<Rightarrow> u16 \<Rightarrow> inetAddress res" where
  "InetAddress_ip pton ip prt =
     bind_res (mem_write 0 (le16 (sa_family AF_INET)) zero_storage) (\<lambda>m.
     bind_res (mem_write 4 (le32 (htonl INADDR_ANY)) m) (\<lambda>m.
     bind_res (mem_write 2 (le16 (htons prt)) m) (\<lambda>m.
       case pton (sa_family AF_INET) (c_str ip) of
         Some b \<Rightarrow> bind_res (mem_write 4 b m) (\<lambda>m.
           Inr \<lparr>ia_addr = m, ia_family = sa_family AF_INET\<rparr>)
       | None \<Rightarrow> parse_ipv6 pton ip prt ''invalid IP address: '')))"

definition InetAddress_ipv6 :: "inet_pton \<Rightarrow> string \<Rightarrow> u16 \<Rightarrow> bool \<Rightarrow> inetAddress res" where
  "InetAddress_ipv6 pton ip prt ipv6 = parse_ipv6 pton ip prt ''invalid IPv6 address: ''"

definition InetAddress_in :: "byte list \<Rightarrow> inetAddress res" where
  "InetAddress_in sa =
     bind_res (mem_write 0 sa zero_storage) (\<lambda>m. Inr \<lparr>ia_addr = m, ia_family = sa_family AF_INET\<rparr>)"

definition InetAddress_in6 :: "byte list \<Rightarrow> inetAddress res" where
  "InetAddress_in6 sa =
     bind_res (mem_write 0 sa zero_storage) (\<lambda>m. Inr \<lparr>ia_addr = m, ia_family = sa_family AF_INET6\<rparr>)"

definition InetAddress_storage :: "byte list \<Rightarrow> inetAddress res" where
  "InetAddress_storage st =
     bind_res (mem_read 0 2 st) (\<lambda>f. Inr \<lparr>ia_addr = st, ia_family = of_le16 f\<rparr>)"

definition getSockAddrInet :: "inetAddress \<Rightarrow> byte list res" where
  "getSockAddrInet a = mem_read 0 16 (ia_addr a)"

definition setSockAddrInet :: "byte list \<Rightarrow> inetAddress \<Rightarrow> inetAddress res" where
  "setSockAddrInet sa a =
     bind_res (mem_write 0 sa zero_storage) (\<lambda>m. Inr (a\<lparr>ia_addr := m, ia_family := sa_family AF_INET\<rparr>))"

definition getSockAddrInet6 :: "inetAddress \<Rightarrow> byte list res" where
  "getSockAddrInet6 a = mem_read 0 28 (ia_addr a)"

definition setSockAddrInet6 :: "byte list \<Rightarrow> inetAddress \<Rightarrow> inetAddress res" where
  "setSockAddrInet6 sa a =
     bind_res (mem_write 0 sa zero_storage) (\<lambda>m. Inr (a\<lparr>ia_addr := m, ia_family := sa_family AF_INET6\<rparr>))"

definition getSockAddr :: "inetAddress \<Rightarrow> byte list" where
  "getSockAddr a = ia_addr a"

definition getSockAddrLen :: "inetAddress \<Rightarrow> nat" where
  "getSockAddrLen a = (if ia_family a = sa_family AF_INET6 then 28 else 16)"

definition family :: "inetAddress \<Rightarrow> u16" where
  "family a = ia_family a"

definition isIpv4 :: "inetAddress \<Rightarrow> bool" where
  "isIpv4 a \<longleftrightarrow> ia_family a = sa_family AF_INET"

definition isIpv6 :: "inetAddress \<Rightarrow> bool" where
  "isIpv6 a \<longleftrightarrow> ia_family a = sa_family AF_INET6"

text \<open>\<open>inet_ntop\<close> leaves the zeroed buffer as it is when it fails.\<close>

definition toIp :: "inet_ntop \<Rightarrow> inetAddress \<Rightarrow> string res" where
  "toIp ntop a =
     (if ia_family a = sa_family AF_INET6
      then bind_res (mem_read 8 16 (ia_addr a)) (\<lambda>b.
        Inr (case ntop (sa_family AF_INET6) b of Some s \<Rightarrow> s | None \<Rightarrow> []))
      else bind_res (mem_read 4 4 (ia_addr a)) (\<lambda>b.
        Inr (case ntop (sa_family AF_INET) b of Some s \<Rightarrow> s | None \<Rightarrow> [])))"

definition port :: "inetAddress \<Rightarrow> u16 res" where
  "port a =
     (if ia_family a = sa_family AF_INET6
      then bind_res (mem_read 2 2 (ia_addr a)) (\<lambda>b. Inr (ntohs (of_le16 b)))
      else bind_res (mem_read 2 2 (ia_addr a)) (\<lambda>b. Inr (ntohs (of_le16 b))))"

definition toIpPort :: "inet_ntop \<Rightarrow> inetAddress \<Rightarrow> string res" where
  "toIpPort ntop a =
     bind_res (toIp ntop a) (\<lambda>s. bind_res (port a) (\<lambda>p.
       Inr (if ia_family a = sa_family AF_INET6
            then ''['' @ s @ '']:'' @ to_string (unat p)
            else s @ '':'' @ to_string (unat p))))"

section \<open>Specification\<close>

text \<open>
  The documented behaviour of \<open>inet_pton\<close> and \<open>inet_ntop\<close>: the sizes of the addresses, the characters of
  the two text forms, and that text produced from an address parses to it.
\<close>

definition inet_text :: "inet_pton \<Rightarrow> inet_ntop \<Rightarrow> bool" where
  "inet_text pton ntop \<longleftrightarrow>
     (\<forall>s b. pton (sa_family AF_INET) s = Some b \<longrightarrow> length b = 4 \<and> set s \<subseteq> set ''0123456789.'') \<and>
     (\<forall>s b. pton (sa_family AF_INET6) s = Some b \<longrightarrow>
        length b = 16 \<and> CHR '':'' \<in> set s \<and> set s \<subseteq> set ''0123456789abcdefABCDEF:.'') \<and>
     (\<forall>b. length b = 4 \<longrightarrow>
        (\<exists>s. ntop (sa_family AF_INET) b = Some s \<and> pton (sa_family AF_INET) s = Some b)) \<and>
     (\<forall>b. length b = 16 \<longrightarrow>
        (\<exists>s. ntop (sa_family AF_INET6) b = Some s \<and> pton (sa_family AF_INET6) s = Some b))"

text \<open>An endpoint, and the bytes of the \<open>sockaddr\<close> that the kernel expects for it: the port in network order.\<close>

datatype endpoint = V4 "byte list" u16 | V6 "byte list" u16

definition be16 :: "u16 \<Rightarrow> byte list" where
  "be16 v = [ucast (drop_bit 8 v), ucast v]"

fun wire :: "endpoint \<Rightarrow> byte list" where
  "wire (V4 b p) = [2, 0] @ be16 p @ b @ replicate 8 0"
| "wire (V6 b p) = [10, 0] @ be16 p @ replicate 4 0 @ b @ replicate 4 0"

fun address_of :: "endpoint \<Rightarrow> inetAddress" where
  "address_of (V4 b p) = \<lparr>ia_addr = wire (V4 b p) @ replicate 112 0, ia_family = 2\<rparr>"
| "address_of (V6 b p) = \<lparr>ia_addr = wire (V6 b p) @ replicate 100 0, ia_family = 10\<rparr>"

fun endpoint_ok :: "endpoint \<Rightarrow> bool" where
  "endpoint_ok (V4 b p) \<longleftrightarrow> length b = 4"
| "endpoint_ok (V6 b p) \<longleftrightarrow> length b = 16"

text \<open>What a textual address denotes.\<close>

definition denotes :: "inet_pton \<Rightarrow> string \<Rightarrow> u16 \<Rightarrow> endpoint option" where
  "denotes pton ip p =
     (case pton (sa_family AF_INET) (c_str ip) of
        Some b \<Rightarrow> Some (V4 b p)
      | None \<Rightarrow> map_option (\<lambda>b. V6 b p) (pton (sa_family AF_INET6) (c_str (strip_brackets ip))))"

section \<open>Lemmas\<close>

lemma sa_family_simps [simp]: "sa_family AF_INET = 2" "sa_family AF_INET6 = 10"
  by (simp_all add: sa_family_def AF_INET_def AF_INET6_def)

lemma le16_htons: "le16 (htons v) = be16 v"
  unfolding le16_def htons_def be16_def
  by (auto intro!: bit_word_eqI simp: bit_simps)

lemma of_le16_be16: "ntohs (of_le16 (be16 v)) = v"
  unfolding ntohs_def htons_def of_le16_def be16_def
  by (auto intro!: bit_word_eqI simp: bit_simps)

lemma le16_family [simp]: "le16 2 = [2, 0]" "le16 10 = [10, 0]"
  by (simp_all add: le16_def)

lemma htonl_bytes [simp]:
  "le32 (htonl INADDR_ANY) = [0, 0, 0, 0]"
  "le32 (htonl INADDR_LOOPBACK) = [127, 0, 0, 1]"
  by (simp_all add: le32_def htonl_def INADDR_ANY_def INADDR_LOOPBACK_def)

lemma length_be16 [simp]: "length (be16 v) = 2"
  by (simp add: be16_def)

lemma inet_textD:
  assumes "inet_text pton ntop"
  shows "pton 2 s = Some b \<Longrightarrow> length b = 4 \<and> set s \<subseteq> set ''0123456789.''"
    and "pton 10 s = Some b \<Longrightarrow> length b = 16 \<and> CHR '':'' \<in> set s \<and> set s \<subseteq> set ''0123456789abcdefABCDEF:.''"
    and "length b = 4 \<Longrightarrow> \<exists>s. ntop 2 b = Some s \<and> pton 2 s = Some b"
    and "length b = 16 \<Longrightarrow> \<exists>s. ntop 10 b = Some s \<and> pton 10 s = Some b"
  using assms unfolding inet_text_def by simp_all

lemma storage_tail:
  "replicate 120 (0 :: byte) = replicate 8 0 @ replicate 112 0"
  "replicate 104 (0 :: byte) = replicate 4 0 @ replicate 100 0"
  using replicate_add[of 8 112 "0 :: byte"] replicate_add[of 4 100 "0 :: byte"] by simp_all

lemma parse_ipv6_spec:
  assumes "inet_text pton ntop"
  shows "parse_ipv6 pton ip p what =
     (case pton 10 (c_str (strip_brackets ip)) of
        None \<Rightarrow> Inl (Runtime_error (what @ ip)) | Some b \<Rightarrow> Inr (address_of (V6 b p)))"
  using inet_textD(2)[OF assms, of "c_str (strip_brackets ip)"]
  by (auto simp: parse_ipv6_def mem_write_ok zero_storage_def in6addr_any_def le16_htons be16_def
      storage_tail split: option.splits)

lemma InetAddress_ip_spec:
  assumes "inet_text pton ntop"
  shows "InetAddress_ip pton ip p =
     (case denotes pton ip p of
        None \<Rightarrow> Inl (Runtime_error (''invalid IP address: '' @ ip)) | Some e \<Rightarrow> Inr (address_of e))"
  using inet_textD(1)[OF assms, of "c_str ip"]
  by (auto simp: InetAddress_ip_def denotes_def parse_ipv6_spec[OF assms] mem_write_ok zero_storage_def le16_htons be16_def
      storage_tail split: option.splits)

lemma InetAddress_any_spec:
  "InetAddress_any p loopbackOnly = Inr (address_of (V4 (if loopbackOnly then [127, 0, 0, 1] else [0, 0, 0, 0]) p))"
  by (simp add: InetAddress_any_def mem_write_ok zero_storage_def le16_htons be16_def storage_tail)

lemma denotes_ok: "inet_text pton ntop \<Longrightarrow> denotes pton ip p = Some e \<Longrightarrow> endpoint_ok e"
  using inet_textD(1,2)[of pton ntop] by (fastforce simp: denotes_def split: option.splits)

fun ep_port :: "endpoint \<Rightarrow> u16" where
  "ep_port (V4 b p) = p"
| "ep_port (V6 b p) = p"

lemma denotes_port: "denotes pton ip p = Some e \<Longrightarrow> ep_port e = p"
  by (auto simp: denotes_def split: option.splits)

lemma port_address_of: "port (address_of e) = Inr (ep_port e)"
  by (cases e) (simp_all add: port_def mem_read_ok of_le16_be16 take_Cons' drop_Cons')

lemma sockaddr_address_of:
  "endpoint_ok e \<Longrightarrow> take (getSockAddrLen (address_of e)) (getSockAddr (address_of e)) = wire e"
  by (cases e) (simp_all add: getSockAddrLen_def getSockAddr_def)

text \<open>Text that \<open>inet_pton\<close> accepts has no NUL and no bracket, and the two forms are disjoint.\<close>

lemma accepted_text:
  assumes "inet_text pton ntop" "pton 2 s = Some b \<or> pton 10 s = Some b"
  shows "c_str s = s" "strip_brackets s = s" "CHR '']'' \<notin> set s"
proof -
  have s: "set s \<subseteq> set ''0123456789abcdefABCDEF:.''"
    using assms(2)
  proof
    assume "pton 2 s = Some b"
    from inet_textD(1)[OF assms(1) this] have "set s \<subseteq> set ''0123456789.''" by blast
    also have "\<dots> \<subseteq> set ''0123456789abcdefABCDEF:.''" by simp
    finally show ?thesis .
  next
    assume "pton 10 s = Some b"
    from inet_textD(2)[OF assms(1) this] show ?thesis by blast
  qed
  show "c_str s = s"
    unfolding c_str_def by (rule takeWhile_eq_all_conv[THEN iffD2]) (use s in auto)
  show "CHR '']'' \<notin> set s" using s by auto
  have "s \<noteq> [] \<Longrightarrow> hd s \<noteq> CHR ''[''" using s by (cases s) auto
  then show "strip_brackets s = s" by (cases s) (auto simp: strip_brackets_def)
qed

lemma forms_disjoint: "inet_text pton ntop \<Longrightarrow> pton 10 s = Some b \<Longrightarrow> pton 2 s = None"
  using inet_textD(1)[of pton ntop s] inet_textD(2)[of pton ntop s b] by (cases "pton 2 s") auto

lemma strip_bracketed: "strip_brackets (''['' @ s @ '']'') = s"
  by (simp add: strip_brackets_def)

lemma bracketed_not_v4:
  assumes "inet_text pton ntop"
  shows "pton 2 (c_str (''['' @ s)) = None"
  using inet_textD(1)[OF assms, of "c_str (''['' @ s)"] by (cases "pton 2 (c_str (''['' @ s))") (auto simp: c_str_def)

lemma denotes_text:
  assumes "inet_text pton ntop"
  shows "pton 2 s = Some b \<Longrightarrow> denotes pton s p = Some (V4 b p)"
    and "pton 10 s = Some b \<Longrightarrow> denotes pton s p = Some (V6 b p)"
    and "pton 10 s = Some b \<Longrightarrow> denotes pton (''['' @ s @ '']'') p = Some (V6 b p)"
  using accepted_text(1,2)[OF assms, of s b] forms_disjoint[OF assms, of s b] bracketed_not_v4[OF assms, of "s @ '']''"]
    strip_bracketed[of s]
  by (auto simp: denotes_def)

text \<open>The address and its text: \<open>text_of\<close> relates an endpoint to a text that denotes it.\<close>

definition text_of :: "inet_pton \<Rightarrow> endpoint \<Rightarrow> string \<Rightarrow> bool" where
  "text_of pton e s \<longleftrightarrow> (case e of V4 b p \<Rightarrow> pton 2 s = Some b | V6 b p \<Rightarrow> pton 10 s = Some b)"

lemma toIp_address_of:
  assumes "inet_text pton ntop" "endpoint_ok e"
  shows "\<exists>s. toIp ntop (address_of e) = Inr s \<and> text_of pton e s"
proof (cases e)
  case (V4 b p)
  with assms obtain s where "ntop 2 b = Some s" "pton 2 s = Some b" using inet_textD(3)[OF assms(1), of b] by auto
  then show ?thesis using V4 assms(2) by (simp add: toIp_def mem_read_ok text_of_def take_Cons' drop_Cons')
next
  case (V6 b p)
  with assms obtain s where "ntop 10 b = Some s" "pton 10 s = Some b" using inet_textD(4)[OF assms(1), of b] by auto
  then show ?thesis using V6 assms(2) by (simp add: toIp_def mem_read_ok text_of_def take_Cons' drop_Cons')
qed

lemma ia_family_address_of [simp]: "ia_family (address_of e) = (case e of V4 b p \<Rightarrow> 2 | V6 b p \<Rightarrow> 10)"
  by (cases e) simp_all

lemma denotes_text_of:
  assumes "inet_text pton ntop" "text_of pton e s"
  shows "denotes pton s (ep_port e) = Some e"
  using denotes_text[OF assms(1)] assms(2) by (cases e) (auto simp: text_of_def)

lemma append_sep:
  "c \<notin> set xs \<Longrightarrow> c \<notin> set ys \<Longrightarrow> xs @ c # us = ys @ c # vs \<longleftrightarrow> xs = ys \<and> us = vs"
proof (induction xs arbitrary: ys)
  case Nil
  then show ?case by (cases ys) auto
next
  case (Cons x xs)
  then show ?case by (cases ys) auto
qed

lemma toIpPort_form:
  assumes "toIp ntop (address_of e) = Inr s"
  shows "toIpPort ntop (address_of e) =
     Inr (case e of V4 b p \<Rightarrow> s @ '':'' @ to_string (unat p) | V6 b p \<Rightarrow> ''['' @ s @ '']:'' @ to_string (unat p))"
  using assms by (cases e) (simp_all add: toIpPort_def port_address_of del: address_of.simps)

lemma text4_chars:
  assumes "inet_text pton ntop" "pton 2 s = Some b"
  shows "CHR '':'' \<notin> set s" "CHR ''['' \<notin> set s"
  using inet_textD(1)[OF assms] by auto

lemma toIpPort_inj:
  assumes T: "inet_text pton ntop" and ok: "endpoint_ok e" "endpoint_ok e'"
    and eq: "toIpPort ntop (address_of e) = toIpPort ntop (address_of e')"
  shows "e = e'"
proof -
  obtain s where s: "toIp ntop (address_of e) = Inr s" "text_of pton e s" using toIp_address_of[OF T ok(1)] by blast
  obtain s' where s': "toIp ntop (address_of e') = Inr s'" "text_of pton e' s'" using toIp_address_of[OF T ok(2)] by blast
  note eq' = eq[unfolded toIpPort_form[OF s(1)] toIpPort_form[OF s'(1)]]
  have mixed: "t @ '':'' @ u \<noteq> ''['' @ v" if "pton 2 t = Some b" for t u v b
    using text4_chars(2)[OF T that] by (cases t) auto
  show ?thesis
  proof (cases e; cases e')
    fix b p b' p' assume e: "e = V4 b p" "e' = V4 b' p'"
    then show ?thesis using eq' s(2) s'(2) text4_chars(1)[OF T]
      by (auto simp: text_of_def append_sep to_string_inj intro: unsigned_word_eqI)
  next
    fix b p b' p' assume e: "e = V6 b p" "e' = V6 b' p'"
    then show ?thesis using eq' s(2) s'(2) accepted_text(3)[OF T disjI2]
      by (auto simp: text_of_def append_sep to_string_inj intro: unsigned_word_eqI)
  next
    fix b p b' p' assume "e = V4 b p" "e' = V6 b' p'"
    then show ?thesis using eq' s(2) mixed[of s b] by (simp add: text_of_def)
  next
    fix b p b' p' assume "e = V6 b p" "e' = V4 b' p'"
    then show ?thesis using eq' s'(2) mixed[of s' b'] by (simp add: text_of_def) metis
  qed
qed

lemma InetAddress_ip_Inr:
  "inet_text pton ntop \<Longrightarrow> InetAddress_ip pton ip p = Inr a \<longleftrightarrow> (\<exists>e. denotes pton ip p = Some e \<and> a = address_of e)"
  by (auto simp: InetAddress_ip_spec split: option.splits)

lemma built_from_text:
  assumes T: "inet_text pton ntop" and d: "denotes pton ip p = Some e"
  shows "\<exists>s. toIp ntop (address_of e) = Inr s \<and> InetAddress_ip pton s p = Inr (address_of e) \<and>
           (isIpv6 (address_of e) \<longrightarrow>
              InetAddress_ip pton (''['' @ s @ '']'') p = Inr (address_of e) \<and>
              InetAddress_ipv6 pton s p True = Inr (address_of e))"
proof -
  have ok: "endpoint_ok e" and p: "ep_port e = p" using denotes_ok[OF T d] denotes_port[OF d] by auto
  obtain s where s: "toIp ntop (address_of e) = Inr s" "text_of pton e s" using toIp_address_of[OF T ok] by blast
  have "InetAddress_ip pton (''['' @ s @ '']'') p = Inr (address_of e) \<and> InetAddress_ipv6 pton s p True = Inr (address_of e)"
    if "isIpv6 (address_of e)"
    using that s(2) p denotes_text(3)[OF T] accepted_text[OF T disjI2]
    by (cases e) (auto simp: text_of_def isIpv6_def InetAddress_ip_Inr[OF T] InetAddress_ipv6_def parse_ipv6_spec[OF T]
        simp del: address_of.simps)
  moreover have "InetAddress_ip pton s p = Inr (address_of e)"
    using denotes_text_of[OF T s(2)] p by (simp add: InetAddress_ip_spec[OF T])
  ultimately show ?thesis using s(1) by blast
qed

lemma family_of_endpoint: "ep_port e = p \<Longrightarrow> isIpv6 (address_of e) = (\<exists>b. e = V6 b p) \<and> isIpv4 (address_of e) = (\<exists>b. e = V4 b p)"
  by (cases e) (simp_all add: isIpv4_def isIpv6_def del: address_of.simps)

lemma toIpPort_identifies:
  assumes T: "inet_text pton ntop" and "InetAddress_ip pton ip p = Inr a" "InetAddress_ip pton ip' p' = Inr a'"
  shows "toIpPort ntop a = toIpPort ntop a' \<longleftrightarrow> a = a'"
proof -
  obtain e e' where "a = address_of e" "endpoint_ok e" "a' = address_of e'" "endpoint_ok e'"
    using assms denotes_ok[OF T] by (auto simp: InetAddress_ip_Inr[OF T])
  then show ?thesis using toIpPort_inj[OF T, of e e'] by auto
qed

section \<open>A concrete conversion\<close>

text \<open>
  Functions that satisfy \<open>inet_text\<close>: dotted decimals, and the uncompressed form of IPv6 with four hexadecimal digits
  per group.
\<close>

fun split_on :: "char \<Rightarrow> string \<Rightarrow> string list" where
  "split_on c [] = [[]]"
| "split_on c (x # xs) =
     (if x = c then [] # split_on c xs
      else case split_on c xs of [] \<Rightarrow> [[x]] | y # ys \<Rightarrow> (x # y) # ys)"

fun join_with :: "char \<Rightarrow> string list \<Rightarrow> string" where
  "join_with c [] = []"
| "join_with c [x] = x"
| "join_with c (x # y # ys) = x @ c # join_with c (y # ys)"

definition all_bytes :: "byte list" where
  "all_bytes = map word_of_nat [0..<256]"

definition dec_text :: "byte \<Rightarrow> string" where
  "dec_text w = to_string (unat w)"

definition hex_digits :: string where
  "hex_digits = ''0123456789abcdef''"

definition hex_text :: "byte \<Rightarrow> string" where
  "hex_text w = [hex_digits ! (unat w div 16), hex_digits ! (unat w mod 16)]"

definition read_with :: "(byte \<Rightarrow> string) \<Rightarrow> string \<Rightarrow> byte option" where
  "read_with f s = find (\<lambda>w. f w = s) all_bytes"

fun read_all :: "(string \<Rightarrow> byte list option) \<Rightarrow> string list \<Rightarrow> byte list option" where
  "read_all f [] = Some []"
| "read_all f (x # xs) = (case f x of None \<Rightarrow> None | Some y \<Rightarrow> map_option ((@) y) (read_all f xs))"

definition read_dec :: "string \<Rightarrow> byte list option" where
  "read_dec s = map_option (\<lambda>w. [w]) (read_with dec_text s)"

definition read_group :: "string \<Rightarrow> byte list option" where
  "read_group s =
     (case read_with hex_text (take 2 s) of
        None \<Rightarrow> None
      | Some a \<Rightarrow> map_option (\<lambda>b. [a, b]) (read_with hex_text (drop 2 s)))"

fun group_texts :: "byte list \<Rightarrow> string list" where
  "group_texts (a # b # r) = (hex_text a @ hex_text b) # group_texts r"
| "group_texts _ = []"

definition ref_pton :: inet_pton where
  "ref_pton af s =
     (if af = 2 \<and> length (split_on CHR ''.'' s) = 4 then read_all read_dec (split_on CHR ''.'' s)
      else if af = 10 \<and> length (split_on CHR '':'' s) = 8 then read_all read_group (split_on CHR '':'' s)
      else None)"

definition ref_ntop :: inet_ntop where
  "ref_ntop af b =
     (if af = 2 then Some (join_with CHR ''.'' (map dec_text b))
      else if af = 10 then Some (join_with CHR '':'' (group_texts b))
      else None)"

lemma split_on_none: "c \<notin> set s \<Longrightarrow> split_on c s = [s]"
  by (induction s) auto

lemma split_on_append: "c \<notin> set x \<Longrightarrow> split_on c (x @ c # s) = x # split_on c s"
  by (induction x) auto

lemma split_join: "xs \<noteq> [] \<Longrightarrow> (\<And>x. x \<in> set xs \<Longrightarrow> c \<notin> set x) \<Longrightarrow> split_on c (join_with c xs) = xs"
proof (induction c xs rule: join_with.induct)
  case (2 c x)
  then show ?case by (simp add: split_on_none)
qed (auto simp: split_on_append)

lemma set_split_on: "a \<in> set s \<Longrightarrow> a = c \<or> (\<exists>x \<in> set (split_on c s). a \<in> set x)"
proof (induction s)
  case (Cons b s)
  then show ?case by (cases "split_on c s") auto
qed simp

lemma read_all_parts: "read_all f xs = Some b \<Longrightarrow> x \<in> set xs \<Longrightarrow> \<exists>y. f x = Some y"
  by (induction xs arbitrary: b) (auto split: option.splits)

lemma read_all_length:
  "read_all f xs = Some b \<Longrightarrow> (\<And>x y. f x = Some y \<Longrightarrow> length y = k) \<Longrightarrow> length b = k * length xs"
  by (induction xs arbitrary: b) (auto split: option.splits)

lemma read_withD: "read_with f s = Some w \<Longrightarrow> f w = s"
  by (auto simp: read_with_def find_Some_iff)

lemma unat_byte: "unat (w :: byte) < 256"
proof -
  have "(unsigned w :: nat) < 2 ^ LENGTH(8)" by (rule unsigned_less)
  then show ?thesis by simp
qed

lemma set_all_bytes: "w \<in> set all_bytes"
proof -
  have "unat w < 256" by (rule unat_byte)
  then show ?thesis unfolding all_bytes_def by (auto intro!: image_eqI[of _ _ "unat w"])
qed

lemma read_with_inverse: "inj f \<Longrightarrow> read_with f (f w) = Some w"
proof -
  assume inj: "inj f"
  obtain v where "read_with f (f w) = Some v"
    using set_all_bytes[of w] by (cases "read_with f (f w)") (auto simp: read_with_def find_None_iff)
  with read_withD[OF this] inj show ?thesis by (auto dest: injD)
qed

lemma inj_dec_text: "inj dec_text"
  by (rule injI) (auto simp: dec_text_def to_string_inj intro: unsigned_word_eqI)

lemma hex_digit_inj: "a < 16 \<Longrightarrow> b < 16 \<Longrightarrow> hex_digits ! a = hex_digits ! b \<longleftrightarrow> a = b"
  by (rule nth_eq_iff_index_eq) (simp_all add: hex_digits_def)

lemma length_hex_text [simp]: "length (hex_text w) = 2"
  by (simp add: hex_text_def)

lemma byte_div_16: "unat (w :: byte) div 16 < 16"
  using unat_byte[of w] by (simp add: div_less_iff_less_mult)

lemma inj_hex_text: "inj hex_text"
proof (rule injI)
  fix v w assume "hex_text v = hex_text w"
  then have "unat v div 16 = unat w div 16" "unat v mod 16 = unat w mod 16"
    unfolding hex_text_def using hex_digit_inj[OF byte_div_16[of v] byte_div_16[of w]]
      hex_digit_inj[of "unat v mod 16" "unat w mod 16"] by simp_all
  then have "unat v = unat w" by (metis div_mult_mod_eq)
  then show "v = w" by (rule unsigned_word_eqI)
qed

lemma set_to_string: "set (to_string n) \<subseteq> set ''0123456789''"
proof (induction n rule: to_string.induct)
  case (1 n)
  have d: "digit k \<in> set ''0123456789''" if "k < 10" for k
    unfolding digit_def using that by (intro nth_mem) simp
  show ?case using 1 d[of n] d[of "n mod 10"] by (subst to_string.simps) (auto simp del: set_simps simp: list.set)
qed

lemma set_hex_text: "set (hex_text w) \<subseteq> set hex_digits"
proof -
  have "length hex_digits = 16" by (simp add: hex_digits_def)
  then have "hex_digits ! (unat w div 16) \<in> set hex_digits" "hex_digits ! (unat w mod 16) \<in> set hex_digits"
    using byte_div_16[of w] by (auto intro!: nth_mem)
  then show ?thesis by (simp add: hex_text_def)
qed

lemma read_dec_text: "read_dec s = Some y \<Longrightarrow> \<exists>w. y = [w] \<and> s = dec_text w"
  by (auto simp: read_dec_def dest: read_withD)

lemma read_group_text: "read_group s = Some y \<Longrightarrow> \<exists>a b. y = [a, b] \<and> s = hex_text a @ hex_text b"
  by (auto simp: read_group_def dest!: read_withD split: option.splits)

lemma parts_chars:
  assumes "read_all f (split_on c s) = Some b" "\<And>x y. f x = Some y \<Longrightarrow> set x \<subseteq> A" "c \<in> A"
  shows "set s \<subseteq> A"
  using assms set_split_on[of _ s c] read_all_parts[OF assms(1)] by blast

lemma ref_pton_v4:
  assumes "ref_pton 2 s = Some b"
  shows "length b = 4 \<and> set s \<subseteq> set ''0123456789.''"
proof -
  have r: "length (split_on CHR ''.'' s) = 4" "read_all read_dec (split_on CHR ''.'' s) = Some b"
    using assms by (auto simp: ref_pton_def split: if_splits)
  have "set x \<subseteq> set ''0123456789.''" if x: "read_dec x = Some y" for x y
  proof -
    have "set x \<subseteq> set ''0123456789''" using read_dec_text[OF x] set_to_string by (auto simp: dec_text_def)
    also have "\<dots> \<subseteq> set ''0123456789.''" by simp
    finally show ?thesis .
  qed
  then have "set s \<subseteq> set ''0123456789.''" by (rule parts_chars[OF r(2)]) simp_all
  moreover have "length b = 1 * length (split_on CHR ''.'' s)"
    by (rule read_all_length[OF r(2)]) (auto dest: read_dec_text)
  ultimately show ?thesis using r(1) by simp
qed

lemma ref_pton_v6:
  assumes "ref_pton 10 s = Some b"
  shows "length b = 16 \<and> CHR '':'' \<in> set s \<and> set s \<subseteq> set ''0123456789abcdefABCDEF:.''"
proof -
  have r: "length (split_on CHR '':'' s) = 8" "read_all read_group (split_on CHR '':'' s) = Some b"
    using assms by (auto simp: ref_pton_def split: if_splits)
  have "set x \<subseteq> set ''0123456789abcdefABCDEF:.''" if x: "read_group x = Some y" for x y
  proof -
    obtain a b where "x = hex_text a @ hex_text b" using read_group_text[OF x] by blast
    then have "set x \<subseteq> set hex_digits" using set_hex_text[of a] set_hex_text[of b] by simp
    also have "\<dots> \<subseteq> set ''0123456789abcdefABCDEF:.''" by (simp add: hex_digits_def)
    finally show ?thesis .
  qed
  then have "set s \<subseteq> set ''0123456789abcdefABCDEF:.''" by (rule parts_chars[OF r(2)]) simp_all
  moreover have "length b = 2 * length (split_on CHR '':'' s)"
    by (rule read_all_length[OF r(2)]) (auto dest: read_group_text)
  moreover have "CHR '':'' \<in> set s" using r(1) split_on_none[of "CHR '':''" s] by (cases "CHR '':'' \<in> set s") simp_all
  ultimately show ?thesis using r(1) by simp
qed

lemma read_dec_inverse: "read_all read_dec (map dec_text b) = Some b"
  by (induction b) (simp_all add: read_dec_def read_with_inverse[OF inj_dec_text])

lemma read_group_inverse: "even (length b) \<Longrightarrow> read_all read_group (group_texts b) = Some b"
  by (induction b rule: group_texts.induct)
     (simp_all add: read_group_def read_with_inverse[OF inj_hex_text])

lemma length_group_texts: "length (group_texts b) = length b div 2"
  by (induction b rule: group_texts.induct) simp_all

lemma group_texts_chars: "x \<in> set (group_texts b) \<Longrightarrow> set x \<subseteq> set hex_digits"
  by (induction b rule: group_texts.induct) (use set_hex_text in \<open>auto dest: subsetD[OF set_hex_text]\<close>)

lemma no_colon_in_group: "x \<in> set (group_texts b) \<Longrightarrow> CHR '':'' \<notin> set x"
  using group_texts_chars[of x b] by (auto simp: hex_digits_def)

lemma no_dot_in_dec: "CHR ''.'' \<notin> set (dec_text w)"
  using set_to_string[of "unat w"] by (auto simp: dec_text_def)

lemma ref_v4_inverse: "length b = 4 \<Longrightarrow> ref_pton 2 (join_with CHR ''.'' (map dec_text b)) = Some b"
proof -
  assume b: "length b = 4"
  have "split_on CHR ''.'' (join_with CHR ''.'' (map dec_text b)) = map dec_text b"
    by (rule split_join) (use b no_dot_in_dec in auto)
  then show ?thesis using b by (simp add: ref_pton_def read_dec_inverse)
qed

lemma ref_v6_inverse: "length b = 16 \<Longrightarrow> ref_pton 10 (join_with CHR '':'' (group_texts b)) = Some b"
proof -
  assume b: "length b = 16"
  have "split_on CHR '':'' (join_with CHR '':'' (group_texts b)) = group_texts b"
    by (rule split_join) (use b length_group_texts[of b] no_colon_in_group[of _ b] in auto)
  then show ?thesis using b by (simp add: ref_pton_def read_group_inverse length_group_texts)
qed

lemma ref_inet_text: "inet_text ref_pton ref_ntop"
  unfolding inet_text_def sa_family_simps using ref_pton_v4 ref_pton_v6 ref_v4_inverse ref_v6_inverse
  by (simp add: ref_ntop_def del: set_simps)

section \<open>Properties\<close>

text \<open>C39. 
  An address constructed from text is the endpoint the text denotes, IPv4 first and then IPv6 with or without brackets, and
  what it hands to the kernel is the \<open>sockaddr\<close> of that endpoint, with the port in network order; text that denotes nothing
  throws. Printing is inverse to construction: the printed address, and for IPv6 also its bracketed form, constructs
  the same object. \<open>toIpPort\<close> identifies the address: two of them print the same only when they are equal.
\<close>

theorem inet_address_roundtrip:
  assumes T: "inet_text pton ntop"
  shows "(denotes pton ip p = None \<longrightarrow> InetAddress_ip pton ip p = Inl (Runtime_error (''invalid IP address: '' @ ip))) \<and>
     (\<forall>e. denotes pton ip p = Some e \<longrightarrow> (\<exists>a s. InetAddress_ip pton ip p = Inr a \<and>
        take (getSockAddrLen a) (getSockAddr a) = wire e \<and> port a = Inr p \<and>
        isIpv6 a = (\<exists>b. e = V6 b p) \<and> isIpv4 a = (\<exists>b. e = V4 b p) \<and>
        toIp ntop a = Inr s \<and> InetAddress_ip pton s p = Inr a \<and>
        (isIpv6 a \<longrightarrow> InetAddress_ip pton (''['' @ s @ '']'') p = Inr a \<and> InetAddress_ipv6 pton s p True = Inr a) \<and>
        (\<forall>ip' p' a'. InetAddress_ip pton ip' p' = Inr a' \<longrightarrow> (toIpPort ntop a = toIpPort ntop a' \<longleftrightarrow> a = a'))))"
    (is "_ \<and> (\<forall>e. _ \<longrightarrow> ?built e)")
proof (intro conjI allI impI)
  assume "denotes pton ip p = None"
  then show "InetAddress_ip pton ip p = Inl (Runtime_error (''invalid IP address: '' @ ip))"
    by (simp add: InetAddress_ip_spec[OF T])
next
  fix e assume d: "denotes pton ip p = Some e"
  have a: "InetAddress_ip pton ip p = Inr (address_of e)" using d by (simp add: InetAddress_ip_spec[OF T])
  show "?built e"
    using a built_from_text[OF T d] sockaddr_address_of[OF denotes_ok[OF T d]] port_address_of[of e]
      denotes_port[OF d] family_of_endpoint[OF denotes_port[OF d]] toIpPort_identifies[OF T a] by metis
qed

text \<open>The loopback address in dotted form and an IPv6 address in brackets, with the concrete conversion.\<close>

theorem inet_address_roundtrip_witness:
  "inet_text ref_pton ref_ntop \<and> denotes ref_pton ''127.0.0.1'' 80 = Some (V4 [127, 0, 0, 1] 80) \<and>
   (\<exists>a. InetAddress_ip ref_pton ''127.0.0.1'' 80 = Inr a \<and> isIpv4 a \<and> port a = Inr 80 \<and>
      take 16 (getSockAddr a) = [2, 0, 0, 80, 127, 0, 0, 1, 0, 0, 0, 0, 0, 0, 0, 0])"
proof -
  have "dec_text 127 = ''127''" "dec_text 0 = ''0''" "dec_text 1 = ''1''"
    by (simp_all add: dec_text_def digit_def to_string.simps)
  then have t: "ref_pton 2 ''127.0.0.1'' = Some [127, 0, 0, 1]"
    using ref_v4_inverse[of "[127, 0, 0, 1]"] by simp
  have d: "denotes ref_pton ''127.0.0.1'' 80 = Some (V4 [127, 0, 0, 1] 80)"
    using denotes_text(1)[OF ref_inet_text t] .
  obtain a where "InetAddress_ip ref_pton ''127.0.0.1'' 80 = Inr a" "isIpv4 a" "port a = Inr 80"
      "take (getSockAddrLen a) (getSockAddr a) = wire (V4 [127, 0, 0, 1] 80)"
    using inet_address_roundtrip[OF ref_inet_text, of "''127.0.0.1''" 80] d by blast
  moreover have "wire (V4 [127, 0, 0, 1] 80) = [2, 0, 0, 80, 127, 0, 0, 1, 0, 0, 0, 0, 0, 0, 0, 0]" by code_simp
  moreover have "getSockAddrLen a = 16" using \<open>isIpv4 a\<close> by (simp add: isIpv4_def getSockAddrLen_def)
  ultimately show ?thesis using ref_inet_text d by auto
qed

text \<open>
  Every constructor and setter leaves 128 bytes of storage, and no accessor reads outside them, whatever the \<open>sockaddr\<close> structures
  contain and whatever family they name.
\<close>

definition storage_ok :: "inetAddress \<Rightarrow> bool" where
  "storage_ok a \<longleftrightarrow> length (ia_addr a) = 128"

lemma raw_constructors_ok:
  "length sa = 16 \<Longrightarrow> \<exists>a. InetAddress_in sa = Inr a \<and> storage_ok a \<and> isIpv4 a \<and> getSockAddrInet a = Inr sa"
  "length sa6 = 28 \<Longrightarrow> \<exists>a. InetAddress_in6 sa6 = Inr a \<and> storage_ok a \<and> isIpv6 a \<and> getSockAddrInet6 a = Inr sa6"
  "length st = 128 \<Longrightarrow> \<exists>a. InetAddress_storage st = Inr a \<and> storage_ok a \<and> getSockAddr a = st \<and> family a = of_le16 (take 2 st)"
  by (simp_all add: InetAddress_in_def InetAddress_in6_def InetAddress_storage_def mem_write_ok mem_read_ok zero_storage_def
      storage_ok_def getSockAddr_def getSockAddrInet_def getSockAddrInet6_def family_def isIpv4_def isIpv6_def)

lemma setters_ok:
  "length sa = 16 \<Longrightarrow> \<exists>a'. setSockAddrInet sa a = Inr a' \<and> storage_ok a' \<and> isIpv4 a' \<and> getSockAddrInet a' = Inr sa"
  "length sa6 = 28 \<Longrightarrow> \<exists>a'. setSockAddrInet6 sa6 a = Inr a' \<and> storage_ok a' \<and> isIpv6 a' \<and> getSockAddrInet6 a' = Inr sa6"
  by (simp_all add: setSockAddrInet_def setSockAddrInet6_def mem_write_ok mem_read_ok zero_storage_def
      storage_ok_def getSockAddrInet_def getSockAddrInet6_def isIpv4_def isIpv6_def)

lemma accessors_ok:
  assumes "storage_ok a"
  shows "\<exists>s p t. toIp ntop a = Inr s \<and> port a = Inr p \<and> toIpPort ntop a = Inr t \<and> getSockAddrLen a \<le> length (getSockAddr a)"
  using assms by (simp add: storage_ok_def toIp_def port_def toIpPort_def mem_read_ok getSockAddrLen_def getSockAddr_def)

text \<open>
  The constructor with an \<open>ipv6\<close> argument rejects every IPv4 address, and its result does not depend on the argument. The
  comment in the header says that it falls back to IPv4.
\<close>

theorem ipv6_constructor_rejects_v4:
  assumes T: "inet_text pton ntop" and v4: "pton (sa_family AF_INET) ip = Some b"
  shows "InetAddress_ipv6 pton ip p ipv6 = Inl (Runtime_error (''invalid IPv6 address: '' @ ip))"
proof -
  have "pton 2 ip = Some b" using v4 by simp
  then have "pton 10 ip = None" "c_str (strip_brackets ip) = ip"
    using forms_disjoint[OF T, of ip] accepted_text[OF T disjI1, of ip b] by (cases "pton 10 ip"; simp)+
  then show ?thesis by (simp add: InetAddress_ipv6_def parse_ipv6_spec[OF T])
qed

end
