(* ===== verification/Timer_Queue.thy ===== *)
theory Timer_Queue
  imports Prelude "HOL-Library.Product_Lexorder" "HOL-Library.Sublist"
begin

text \<open>
  \<^verbatim>\<open>mini/net/TimerQueue.h\<close>, \<^verbatim>\<open>TimerQueue.cc\<close> and \<^verbatim>\<open>TimerId.h\<close>: the poll-timeout driven timers of one loop.

  Time points and durations of the steady clock (nanoseconds) and sequence numbers (64 bits in the code) are unbounded integers. A \<open>shared_ptr<Timer>\<close> is
  the sequence number its object was created with, and \<open>theap\<close> holds the objects, so the two
  indexes and the vector of expired timers alias them as in the code. \<open>std::map\<close> is an association
  list in key order. \<open>timersById_\<close> is a partial map.

  A timer callback is user code. It reaches the queue only through \<open>addTimer\<close> and \<open>cancel\<close> (on the
  owner thread), so it is given by the parameter \<open>cb\<close>: for a callback and the queue it runs on, the
  list of these calls it makes. Callbacks that throw are not modelled.
\<close>

section \<open>The class\<close>

record 'c timer =
  callback :: 'c
  expiration :: int
  interval :: int
  sequence :: int
  canceled :: bool
  inQueue :: bool

definition Timer :: "'c \<Rightarrow> int \<Rightarrow> int \<Rightarrow> int \<Rightarrow> 'c timer" where
  "Timer c w i s = \<lparr>callback = c, expiration = w, interval = i, sequence = s, canceled = False, inQueue = True\<rparr>"

definition repeat :: "'c timer \<Rightarrow> bool" where
  "repeat t \<longleftrightarrow> interval t > 0"

type_synonym timer_key = "int \<times> int"

record 'c timer_queue =
  nextSequence :: int
  timers :: "(timer_key \<times> int) list"
  timersById :: "int \<rightharpoonup> int"
  theap :: "int \<rightharpoonup> 'c timer"

definition TimerQueue :: "'c timer_queue" where
  "TimerQueue = \<lparr>nextSequence = 1, timers = [], timersById = Map.empty, theap = Map.empty\<rparr>"

definition timer_id_valid :: "int \<Rightarrow> bool" where
  "timer_id_valid s \<longleftrightarrow> s \<noteq> 0"

definition INT_MAX :: int where
  "INT_MAX = 2 ^ 31 - 1"

definition INT64_MAX :: int where
  "INT64_MAX = 2 ^ 63 - 1"

definition ceilMilliseconds :: "int \<Rightarrow> int" where
  "ceilMilliseconds delay =
     (if delay \<le> 0 then 0
      else let millisecondsPart = delay div 1000000;
               millisecondsPart = (if millisecondsPart * 1000000 < delay then millisecondsPart + 1 else millisecondsPart);
               capped = min millisecondsPart INT_MAX
           in max 1 capped)"

text \<open>\<open>std::map::emplace\<close> (which keeps an existing entry) and \<open>erase\<close> by key.\<close>

fun map_emplace :: "'k::linorder \<Rightarrow> 'v \<Rightarrow> ('k \<times> 'v) list \<Rightarrow> ('k \<times> 'v) list" where
  "map_emplace k v [] = [(k, v)]"
| "map_emplace k v ((k', v') # xs) =
     (if k < k' then (k, v) # (k', v') # xs
      else if k = k' then (k', v') # xs
      else (k', v') # map_emplace k v xs)"

definition map_erase :: "'k \<Rightarrow> ('k \<times> 'v) list \<Rightarrow> ('k \<times> 'v) list" where
  "map_erase k xs = filter (\<lambda>(k', v). k' \<noteq> k) xs"

definition set_timer :: "int \<Rightarrow> ('c timer \<Rightarrow> 'c timer) \<Rightarrow> 'c timer_queue \<Rightarrow> 'c timer_queue" where
  "set_timer p f q = q\<lparr>theap := (theap q)(p := map_option f (theap q p))\<rparr>"

definition insert_timer :: "int \<Rightarrow> 'c timer_queue \<Rightarrow> bool \<times> 'c timer_queue" where
  "insert_timer p q =
     (case theap q p of
        None \<Rightarrow> (False, q)
      | Some t \<Rightarrow>
          let key = (expiration t, sequence t);
              earliestChanged = (case timers q of [] \<Rightarrow> True | (k, _) # _ \<Rightarrow> key < k);
              q = set_timer p (\<lambda>t. t\<lparr>inQueue := True, canceled := False\<rparr>) q;
              q = q\<lparr>timersById := (timersById q)(sequence t \<mapsto> p)\<rparr>
          in (earliestChanged, q\<lparr>timers := map_emplace key p (timers q)\<rparr>))"

definition addTimerInLoop :: "int \<Rightarrow> 'c timer_queue \<Rightarrow> 'c timer_queue" where
  "addTimerInLoop p q = snd (insert_timer p q)"

text \<open>\<open>addTimer\<close> on the calling thread: allocation with the next sequence number. On the owner thread
  \<open>addTimerInLoop\<close> follows at once (\<open>addTimer\<close>); on another thread it is posted to the loop.\<close>

definition newTimer :: "'c \<Rightarrow> int \<Rightarrow> int \<Rightarrow> 'c timer_queue \<Rightarrow> int \<times> 'c timer_queue" where
  "newTimer c w i q =
     (let s = nextSequence q
      in (s, q\<lparr>nextSequence := s + 1, theap := (theap q)(s \<mapsto> Timer c w i s)\<rparr>))"

definition addTimer :: "'c \<Rightarrow> int \<Rightarrow> int \<Rightarrow> 'c timer_queue \<Rightarrow> int \<times> 'c timer_queue" where
  "addTimer c w i q = (let (s, q1) = newTimer c w i q in (s, addTimerInLoop s q1))"

definition cancelInLoop :: "int \<Rightarrow> 'c timer_queue \<Rightarrow> 'c timer_queue" where
  "cancelInLoop s q =
     (case timersById q s of
        None \<Rightarrow> q
      | Some p \<Rightarrow>
          let q1 = set_timer p (\<lambda>t. t\<lparr>canceled := True\<rparr>) q
          in case theap q1 p of
               None \<Rightarrow> q1\<lparr>timersById := (timersById q1)(s := None)\<rparr>
             | Some t \<Rightarrow>
                 if inQueue t then
                   let q2 = q1\<lparr>timers := map_erase (expiration t, sequence t) (timers q1)\<rparr>;
                       q3 = set_timer p (\<lambda>t. t\<lparr>inQueue := False\<rparr>) q2
                   in q3\<lparr>timersById := (timersById q3)(s := None)\<rparr>
                 else q1\<lparr>timersById := (timersById q1)(s := None)\<rparr>)"

definition cancel :: "int \<Rightarrow> 'c timer_queue \<Rightarrow> 'c timer_queue" where
  "cancel s q = (if \<not> timer_id_valid s then q else cancelInLoop s q)"

text \<open>\<open>now\<close> is the clock reading inside the function.\<close>

definition pollTimeoutMs :: "int \<Rightarrow> int \<Rightarrow> 'c timer_queue \<Rightarrow> int" where
  "pollTimeoutMs now defaultTimeoutMs q =
     (case timers q of
        [] \<Rightarrow> defaultTimeoutMs
      | (k, p) # _ \<Rightarrow>
          (case theap q p of
             None \<Rightarrow> defaultTimeoutMs
           | Some t \<Rightarrow> min defaultTimeoutMs (ceilMilliseconds (expiration t - now))))"

fun mark_expired :: "int list \<Rightarrow> 'c timer_queue \<Rightarrow> 'c timer_queue" where
  "mark_expired [] q = q"
| "mark_expired (p # ps) q = mark_expired ps (set_timer p (\<lambda>t. t\<lparr>inQueue := False\<rparr>) q)"

definition getExpired :: "int \<Rightarrow> 'c timer_queue \<Rightarrow> int list \<times> 'c timer_queue" where
  "getExpired now q =
     (let sentry = (now, INT64_MAX);
          due = takeWhile (\<lambda>(k, p). \<not> sentry < k) (timers q);
          expired = map snd due
      in (expired, (mark_expired expired q)\<lparr>timers := drop (length due) (timers q)\<rparr>))"

text \<open>What a callback does with the queue.\<close>

datatype 'c timer_op = OAdd 'c int int | OCancel int

fun do_timer_op :: "'c timer_op \<Rightarrow> 'c timer_queue \<Rightarrow> 'c timer_queue" where
  "do_timer_op (OAdd c w i) q = snd (addTimer c w i q)"
| "do_timer_op (OCancel s) q = cancel s q"

definition run_script :: "'c timer_op list \<Rightarrow> 'c timer_queue \<Rightarrow> 'c timer_queue" where
  "run_script ops q = fold do_timer_op ops q"

text \<open>The log of a run: a timer was put into the queue, \<open>cancel\<close> ran for it on the owner thread, its callback was called. \<open>op_note\<close>
  and \<open>script_notes\<close> are what the calls of a callback add to it.\<close>

datatype timer_note = Added int | Cancelled int | Fired int

fun op_note :: "'c timer_op \<Rightarrow> 'c timer_queue \<Rightarrow> timer_note" where
  "op_note (OAdd c w i) q = Added (nextSequence q)"
| "op_note (OCancel s) q = Cancelled s"

fun script_notes :: "'c timer_op list \<Rightarrow> 'c timer_queue \<Rightarrow> timer_note list" where
  "script_notes [] q = []"
| "script_notes (a # as) q = op_note a q # script_notes as (do_timer_op a q)"

text \<open>The loop of \<open>handleExpired\<close> over the expired timers; the first component is the log.\<close>

fun run_expired :: "('c \<Rightarrow> 'c timer_queue \<Rightarrow> 'c timer_op list) \<Rightarrow> int list \<Rightarrow> 'c timer_queue \<Rightarrow>
    timer_note list \<times> 'c timer_queue" where
  "run_expired cb [] q = ([], q)"
| "run_expired cb (p # ps) q =
     (case theap q p of
        None \<Rightarrow> run_expired cb ps q
      | Some t \<Rightarrow>
          if \<not> canceled t
          then (let (log, q') = run_expired cb ps (run_script (cb (callback t) q) q)
                in (Fired p # script_notes (cb (callback t) q) q @ log, q'))
          else run_expired cb ps q)"

fun reset :: "int list \<Rightarrow> int \<Rightarrow> 'c timer_queue \<Rightarrow> 'c timer_queue" where
  "reset [] now q = q"
| "reset (p # ps) now q =
     (case theap q p of
        None \<Rightarrow> reset ps now q
      | Some t \<Rightarrow>
          if repeat t \<and> \<not> canceled t \<and> timersById q (sequence t) \<noteq> None
          then reset ps now
                 (snd (insert_timer p (set_timer p (\<lambda>t. t\<lparr>expiration := now + interval t\<rparr>) q)))
          else reset ps now (q\<lparr>timersById := (timersById q)(sequence t := None)\<rparr>))"

text \<open>\<open>now\<close> is the argument, \<open>later\<close> the clock reading after the callbacks.\<close>

definition handleExpired :: "('c \<Rightarrow> 'c timer_queue \<Rightarrow> 'c timer_op list) \<Rightarrow> int \<Rightarrow> int \<Rightarrow> 'c timer_queue \<Rightarrow>
    timer_note list \<times> 'c timer_queue" where
  "handleExpired cb now later q =
     (case timers q of
        [] \<Rightarrow> ([], q)
      | (k, p) # _ \<Rightarrow>
          (case theap q p of
             None \<Rightarrow> ([], q)
           | Some t \<Rightarrow>
               if expiration t > now then ([], q)
               else let (expired, q1) = getExpired now q;
                        (log, q2) = run_expired cb expired q1
                    in (log, reset expired later q2)))"

text \<open>The queue together with the functors other threads have posted to its loop. Each event is one
  step of the owner thread, or the part of \<open>addTimer\<close> or \<open>cancel\<close> that runs on another thread.\<close>

datatype posted_op = PAdd int | PCancel int

type_synonym 'c timer_sys = "'c timer_queue \<times> posted_op list"

datatype 'c timer_event =
    EAdd 'c int int
  | ECancel int
  | EForeignAdd 'c int int
  | EForeignCancel int
  | ERunPosted
  | EExpire int int

fun run_posted :: "posted_op \<Rightarrow> 'c timer_queue \<Rightarrow> 'c timer_queue" where
  "run_posted (PAdd p) q = addTimerInLoop p q"
| "run_posted (PCancel s) q = cancelInLoop s q"

fun posted_note :: "posted_op \<Rightarrow> timer_note" where
  "posted_note (PAdd p) = Added p"
| "posted_note (PCancel s) = Cancelled s"

fun timer_step :: "('c \<Rightarrow> 'c timer_queue \<Rightarrow> 'c timer_op list) \<Rightarrow> 'c timer_event \<Rightarrow> 'c timer_sys \<Rightarrow>
    timer_note list \<times> 'c timer_sys" where
  "timer_step cb (EAdd c w i) (q, posted) = ([op_note (OAdd c w i) q], snd (addTimer c w i q), posted)"
| "timer_step cb (ECancel s) (q, posted) = ([Cancelled s], cancel s q, posted)"
| "timer_step cb (EForeignAdd c w i) (q, posted) =
     (let (s, q1) = newTimer c w i q in ([], q1, posted @ [PAdd s]))"
| "timer_step cb (EForeignCancel s) (q, posted) =
     ([], q, if timer_id_valid s then posted @ [PCancel s] else posted)"
| "timer_step cb ERunPosted (q, posted) =
     (case posted of [] \<Rightarrow> ([], q, posted) | a # as \<Rightarrow> ([posted_note a], run_posted a q, as))"
| "timer_step cb (EExpire now later) (q, posted) =
     (let (log, q1) = handleExpired cb now later q in (log, q1, posted))"

fun timer_run :: "('c \<Rightarrow> 'c timer_queue \<Rightarrow> 'c timer_op list) \<Rightarrow> 'c timer_event list \<Rightarrow> 'c timer_sys \<Rightarrow>
    timer_note list \<times> 'c timer_sys" where
  "timer_run cb [] st = ([], st)"
| "timer_run cb (e # es) st =
     (let (f, st1) = timer_step cb e st; (fs, st2) = timer_run cb es st1 in (f @ fs, st2))"

text \<open>The timers whose callbacks ran.\<close>

fun fired_of :: "timer_note list \<Rightarrow> int list" where
  "fired_of [] = []"
| "fired_of (Fired p # log) = p # fired_of log"
| "fired_of (_ # log) = fired_of log"

lemma fired_of_append [simp]: "fired_of (xs @ ys) = fired_of xs @ fired_of ys"
  by (induction xs rule: fired_of.induct) simp_all

lemma fired_of_script [simp]: "fired_of (script_notes as q) = []"
proof (induction as arbitrary: q)
  case (Cons a as)
  then show ?case by (cases a) simp_all
qed simp

lemma fired_of_note [simp]: "fired_of [op_note a q] = []" "fired_of [posted_note b] = []"
  by (cases a; simp) (cases b; simp)

lemma set_fired_of: "p \<in> set (fired_of log) \<longleftrightarrow> Fired p \<in> set log"
  by (induction log rule: fired_of.induct) auto

section \<open>Poll timeouts\<close>

lemma ceilMilliseconds_nonpos: "d \<le> 0 \<Longrightarrow> ceilMilliseconds d = 0"
  by (simp add: ceilMilliseconds_def)

lemma ceilMilliseconds_pos:
  assumes "0 < d"
  shows "1 \<le> ceilMilliseconds d" "ceilMilliseconds d \<le> INT_MAX"
    and "ceilMilliseconds d < INT_MAX \<Longrightarrow> d \<le> ceilMilliseconds d * 1000000"
    and "ceilMilliseconds d * 1000000 < d + 1000000"
  using assms by (auto simp: ceilMilliseconds_def INT_MAX_def Let_def min_def max_def split: if_splits)


section \<open>The invariant of the two indexes\<close>

text \<open>\<open>F\<close> is the set of timers taken out by \<open>getExpired\<close> and not yet handled by \<open>reset\<close>.\<close>

definition heap_ok :: "'c timer_queue \<Rightarrow> bool" where
  "heap_ok q \<longleftrightarrow> (\<forall>p t. theap q p = Some t \<longrightarrow> sequence t = p \<and> 1 \<le> p \<and> p < nextSequence q)"

definition timers_ok :: "int set \<Rightarrow> 'c timer_queue \<Rightarrow> bool" where
  "timers_ok F q \<longleftrightarrow>
     sorted_wrt (<) (map fst (timers q)) \<and>
     (\<forall>k p. (k, p) \<in> set (timers q) \<longrightarrow>
        p \<notin> F \<and> timersById q p = Some p \<and>
        (\<exists>t. theap q p = Some t \<and> k = (expiration t, p) \<and> inQueue t \<and> \<not> canceled t))"

definition byId_ok :: "int set \<Rightarrow> 'c timer_queue \<Rightarrow> bool" where
  "byId_ok F q \<longleftrightarrow>
     (\<forall>s p. timersById q s = Some p \<longrightarrow>
        p = s \<and> (\<exists>t. theap q s = Some t \<and> \<not> canceled t \<and>
                     (s \<notin> F \<longrightarrow> ((expiration t, s), s) \<in> set (timers q))))"

definition firing_ok :: "int set \<Rightarrow> 'c timer_queue \<Rightarrow> bool" where
  "firing_ok F q \<longleftrightarrow>
     (\<forall>p \<in> F. \<exists>t. theap q p = Some t \<and> \<not> inQueue t \<and> (canceled t \<longleftrightarrow> timersById q p = None))"

definition tq_inv :: "int set \<Rightarrow> 'c timer_queue \<Rightarrow> bool" where
  "tq_inv F q \<longleftrightarrow> heap_ok q \<and> timers_ok F q \<and> byId_ok F q \<and> firing_ok F q \<and> 1 \<le> nextSequence q"

lemmas tq_inv_defs = tq_inv_def heap_ok_def timers_ok_def byId_ok_def firing_ok_def

lemma set_timer_simps [simp]:
  "nextSequence (set_timer p f q) = nextSequence q"
  "timers (set_timer p f q) = timers q"
  "timersById (set_timer p f q) = timersById q"
  "theap (set_timer p f q) r = (if r = p then map_option f (theap q p) else theap q r)"
  by (simp_all add: set_timer_def)

lemma set_map_emplace: "k \<notin> fst ` set xs \<Longrightarrow> set (map_emplace k v xs) = insert (k, v) (set xs)"
  by (induction k v xs rule: map_emplace.induct) auto

lemma fst_map_emplace: "fst ` set (map_emplace k v xs) = insert k (fst ` set xs)"
  by (induction k v xs rule: map_emplace.induct) auto

lemma sorted_map_emplace:
  "sorted_wrt (<) (map fst xs) \<Longrightarrow> sorted_wrt (<) (map fst (map_emplace k v xs))"
proof (induction k v xs rule: map_emplace.induct)
  case (2 k v k' v' xs)
  have eq: "set (map fst (map_emplace k v xs)) = insert k (set (map fst xs))"
    using fst_map_emplace[of k v xs] by simp
  show ?case
    using 2 eq by (auto dest: order.strict_trans)
qed simp

lemma set_map_erase: "(k, p) \<in> set (map_erase k' xs) \<longleftrightarrow> (k, p) \<in> set xs \<and> k \<noteq> k'"
  by (auto simp: map_erase_def)

lemma sorted_map_erase:
  "sorted_wrt (<) (map fst xs) \<Longrightarrow> sorted_wrt (<) (map fst (map_erase k xs))"
  by (induction xs) (auto simp: map_erase_def)

lemma TimerQueue_inv: "tq_inv {} TimerQueue"
  by (simp add: tq_inv_defs TimerQueue_def)


lemma tq_inv_key_unlinked:
  assumes "tq_inv F q" "\<And>k. (k, p) \<notin> set (timers q)"
  shows "(e, p) \<notin> fst ` set (timers q)"
  using assms by (force simp: tq_inv_def timers_ok_def)

lemma insert_timer_inv:
  assumes inv: "tq_inv F q" and t: "theap q p = Some t"
    and unl: "\<And>k. (k, p) \<notin> set (timers q)"
  shows "tq_inv (F - {p}) (snd (insert_timer p q))"
proof -
  have seq: "sequence t = p" using inv t by (simp add: tq_inv_defs)
  have new: "set (map_emplace (expiration t, p) p (timers q)) = insert ((expiration t, p), p) (set (timers q))"
    by (rule set_map_emplace) (rule tq_inv_key_unlinked[OF inv unl])
  show ?thesis
    using inv t seq unl
    by (auto simp: insert_timer_def Let_def tq_inv_defs new sorted_map_emplace)
qed

lemma newTimer_inv:
  assumes "tq_inv F q" "newTimer c w i q = (s, q')"
  shows "tq_inv F q'" and "s = nextSequence q" and "nextSequence q' = s + 1"
    and "theap q' = (theap q)(s \<mapsto> Timer c w i s)" and "timers q' = timers q" and "timersById q' = timersById q"
    and "theap q s = None" and "timersById q s = None" and "\<And>k. (k, s) \<notin> set (timers q)" and "s \<notin> F"
proof -
  show s: "s = nextSequence q" "nextSequence q' = s + 1" "theap q' = (theap q)(s \<mapsto> Timer c w i s)"
    "timers q' = timers q" "timersById q' = timersById q"
    using assms by (auto simp: newTimer_def Let_def)
  show h: "theap q s = None" using assms(1) s(1) by (cases "theap q s") (auto simp: tq_inv_defs)
  show "timersById q s = None" "\<And>k. (k, s) \<notin> set (timers q)" "s \<notin> F"
    using assms(1) h by (cases "timersById q s"; force simp: tq_inv_defs)+
  then show "tq_inv F q'"
    using assms(1) h unfolding tq_inv_defs s(2-) by (auto simp: s(1) Timer_def) fastforce+
qed

lemma addTimer_inv:
  assumes "tq_inv F q"
  shows "tq_inv F (snd (addTimer c w i q))"
proof -
  obtain s q1 where n: "newTimer c w i q = (s, q1)" by fastforce
  note N = newTimer_inv[OF assms n]
  have "tq_inv (F - {s}) (snd (insert_timer s q1))"
    by (rule insert_timer_inv[OF N(1)]) (use N in auto)
  then show ?thesis using N(10) n by (simp add: addTimer_def addTimerInLoop_def)
qed

lemma cancelInLoop_inv:
  assumes "tq_inv F q"
  shows "tq_inv F (cancelInLoop s q)"
proof (cases "timersById q s")
  case None
  then show ?thesis using assms by (simp add: cancelInLoop_def)
next
  case (Some p)
  obtain t where t: "p = s" "theap q s = Some t" "sequence t = s"
    using assms Some by (fastforce simp: tq_inv_defs)
  have "\<And>a b. ((a, b), s) \<in> set (timers q) \<Longrightarrow> s \<notin> F \<and> a = expiration t \<and> b = s \<and> inQueue t"
    using assms t(2) by (fastforce simp: tq_inv_defs)
  then show ?thesis
    using assms Some t by (cases "inQueue t") (auto simp: cancelInLoop_def Let_def tq_inv_defs set_map_erase sorted_map_erase)
qed


lemma do_timer_op_inv: "tq_inv F q \<Longrightarrow> tq_inv F (do_timer_op a q)"
  by (cases a) (simp_all add: addTimer_inv cancel_def cancelInLoop_inv)

lemma run_script_inv: "tq_inv F q \<Longrightarrow> tq_inv F (run_script as q)"
  unfolding run_script_def by (induction as arbitrary: q) (simp_all add: do_timer_op_inv)

lemma run_expired_inv: "tq_inv F q \<Longrightarrow> tq_inv F (snd (run_expired cb ps q))"
  by (induction cb ps q rule: run_expired.induct)
     (auto simp: run_script_inv Let_def split: option.splits prod.splits)

lemma mark_expired_simps [simp]:
  "nextSequence (mark_expired ps q) = nextSequence q"
  "timers (mark_expired ps q) = timers q"
  "timersById (mark_expired ps q) = timersById q"
  by (induction ps arbitrary: q) simp_all

lemma theap_mark_expired:
  "theap (mark_expired ps q) p = (if p \<in> set ps then map_option (\<lambda>t. t\<lparr>inQueue := False\<rparr>) (theap q p) else theap q p)"
  by (induction ps arbitrary: q) (auto simp: option.map_comp comp_def)

definition due :: "int \<Rightarrow> timer_key \<Rightarrow> bool" where
  "due now k \<longleftrightarrow> k \<le> (now, INT64_MAX)"

definition due_timers :: "int \<Rightarrow> 'c timer_queue \<Rightarrow> int list" where
  "due_timers now q = map snd (takeWhile (\<lambda>(k, p). due now k) (timers q))"

lemma timers_entryE:
  assumes "tq_inv F q" "(k, p) \<in> set (timers q)"
  obtains t where "theap q p = Some t" "k = (expiration t, p)" "inQueue t" "\<not> canceled t"
    "timersById q p = Some p" "p \<notin> F" "sequence t = p" "p < nextSequence q"
proof -
  have h: "heap_ok q" "timers_ok F q" using assms(1) by (simp_all add: tq_inv_def)
  obtain t where "theap q p = Some t" "k = (expiration t, p)" "inQueue t" "\<not> canceled t"
    "timersById q p = Some p" "p \<notin> F"
    using h(2) assms(2) unfolding timers_ok_def by blast
  with that h(1) show thesis unfolding heap_ok_def by blast
qed

lemma tq_inv_key_unique:
  "tq_inv F q \<Longrightarrow> (k, p) \<in> set (timers q) \<Longrightarrow> (k', p) \<in> set (timers q) \<Longrightarrow> k = k'"
  by (metis timers_entryE option.inject)

lemma tq_inv_distinct:
  assumes "tq_inv F q"
  shows "distinct (map snd (timers q))"
proof -
  have "distinct (map fst (timers q))"
    using assms by (simp add: tq_inv_defs strict_sorted_iff)
  moreover have "inj_on snd (set (timers q))"
    using tq_inv_key_unique[OF assms] by (auto simp: inj_on_def)
  ultimately show ?thesis by (simp add: distinct_map)
qed

lemma timers_seq_bound:
  assumes "tq_inv F q" "((e, s), p) \<in> set (timers q)"
  shows "s < nextSequence q" "s = p"
  using assms by (auto elim: timers_entryE)

lemma getExpired_due:
  "getExpired now q =
     (due_timers now q,
      (mark_expired (due_timers now q) q)\<lparr>timers := dropWhile (\<lambda>(k, p). due now k) (timers q)\<rparr>)"
  by (simp add: getExpired_def due_timers_def due_def not_less Let_def dropWhile_eq_drop)

lemma due_expiration: "due now (e, s) \<Longrightarrow> e \<le> now"
  by (auto simp: due_def less_eq_prod_def)

lemma expiration_due: "e \<le> now \<Longrightarrow> s \<le> INT64_MAX \<Longrightarrow> due now (e, s)"
  by (auto simp: due_def less_eq_prod_def)

lemma sorted_dropWhile_gt:
  assumes "sorted_wrt (<) (map fst (timers q))" "(k, p) \<in> set (dropWhile (\<lambda>(k, p). due now k) (timers q))"
  shows "\<not> due now k"
proof -
  obtain k0 p0 rest where d: "dropWhile (\<lambda>(k, p). due now k) (timers q) = (k0, p0) # rest" "\<not> due now k0"
    using assms(2) by (cases "dropWhile (\<lambda>(k, p). due now k) (timers q)") (auto simp: dropWhile_eq_Cons_conv)
  have "sorted_wrt (<) (map fst (dropWhile (\<lambda>(k, p). due now k) (timers q)))"
    using assms(1) by (metis map_append sorted_wrt_append takeWhile_dropWhile_id)
  then have "k0 \<le> k" using assms(2) d(1) by auto
  then show ?thesis using d(2) by (auto simp: due_def)
qed


lemma due_timers_iff:
  assumes "tq_inv F q"
  shows "p \<in> set (due_timers now q) \<longleftrightarrow> (\<exists>k. (k, p) \<in> set (timers q) \<and> due now k)"
proof
  assume "p \<in> set (due_timers now q)"
  then show "\<exists>k. (k, p) \<in> set (timers q) \<and> due now k"
    by (force simp: due_timers_def dest: set_takeWhileD)
next
  assume "\<exists>k. (k, p) \<in> set (timers q) \<and> due now k"
  then obtain k where k: "(k, p) \<in> set (timers q)" "due now k" by blast
  have "(k, p) \<notin> set (dropWhile (\<lambda>(k, p). due now k) (timers q))"
    using sorted_dropWhile_gt[of q k p now] assms k(2) by (auto simp: tq_inv_def timers_ok_def)
  then have "(k, p) \<in> set (takeWhile (\<lambda>(k, p). due now k) (timers q))"
    using k(1) by (metis Un_iff set_append takeWhile_dropWhile_id)
  then show "p \<in> set (due_timers now q)" by (force simp: due_timers_def)
qed

lemma getExpired_inv:
  assumes inv: "tq_inv {} q" and g: "getExpired now q = (ps, q1)"
  shows "ps = due_timers now q" "distinct ps" "tq_inv (set ps) q1" "timersById q1 = timersById q"
    and "nextSequence q1 = nextSequence q"
    and "theap q1 p = (if p \<in> set ps then map_option (\<lambda>t. t\<lparr>inQueue := False\<rparr>) (theap q p) else theap q p)"
proof -
  let ?rest = "dropWhile (\<lambda>(k, p). due now k) (timers q)"
  show ps: "ps = due_timers now q" using g by (simp add: getExpired_due)
  have q1: "q1 = (mark_expired ps q)\<lparr>timers := ?rest\<rparr>" using g by (auto simp: getExpired_due)
  show "distinct ps"
    using tq_inv_distinct[OF inv] unfolding ps due_timers_def
    by (metis distinct_append map_append takeWhile_dropWhile_id)
  show bi: "timersById q1 = timersById q" and ns: "nextSequence q1 = nextSequence q"
    and th: "theap q1 p = (if p \<in> set ps then map_option (\<lambda>t. t\<lparr>inQueue := False\<rparr>) (theap q p) else theap q p)" for p
    by (simp_all add: q1 theap_mark_expired)
  have sorted: "sorted_wrt (<) (map fst (timers q))" using inv by (simp add: tq_inv_def timers_ok_def)
  have rest: "(k, p) \<in> set ?rest \<longleftrightarrow> (k, p) \<in> set (timers q) \<and> p \<notin> set ps" for k p
  proof
    assume "(k, p) \<in> set ?rest"
    with sorted_dropWhile_gt[OF sorted this] show "(k, p) \<in> set (timers q) \<and> p \<notin> set ps"
      using due_timers_iff[OF inv, of p now] tq_inv_key_unique[OF inv] unfolding ps
      by (metis set_dropWhileD not_le)
  next
    assume "(k, p) \<in> set (timers q) \<and> p \<notin> set ps"
    then have "\<not> due now k" using due_timers_iff[OF inv, of p now] unfolding ps by blast
    with \<open>(k, p) \<in> set (timers q) \<and> p \<notin> set ps\<close> show "(k, p) \<in> set ?rest"
      by (metis (mono_tags, lifting) Un_iff case_prodD set_append set_takeWhileD takeWhile_dropWhile_id)
  qed
  have srest: "sorted_wrt (<) (map fst ?rest)"
    using sorted by (metis map_append sorted_wrt_append takeWhile_dropWhile_id)
  have tq1: "timers q1 = ?rest" by (simp add: q1)
  have t_ok: "timers_ok (set ps) q1"
    unfolding timers_ok_def tq1 bi
    using srest by (auto simp: rest th elim!: timers_entryE[OF inv])
  have b_ok: "byId_ok (set ps) q1"
    using inv unfolding byId_ok_def tq1 bi rest by (fastforce simp: th tq_inv_def byId_ok_def)
  have f_ok: "firing_ok (set ps) q1"
    unfolding firing_ok_def bi by (auto simp: th ps due_timers_iff[OF inv] elim!: timers_entryE[OF inv])
  have h_ok: "heap_ok q1"
    using inv ns by (auto simp: heap_ok_def th tq_inv_def)
  show "tq_inv (set ps) q1"
    using t_ok b_ok f_ok h_ok inv ns by (simp add: tq_inv_def)
qed

lemma set_expiration_inv:
  assumes "tq_inv F q" "p \<in> F"
  shows "tq_inv F (set_timer p (\<lambda>t. t\<lparr>expiration := e\<rparr>) q)"
  using assms by (auto simp: tq_inv_defs)

lemma firing_unlinked: "tq_inv F q \<Longrightarrow> p \<in> F \<Longrightarrow> (k, p) \<notin> set (timers q)"
  by (auto elim: timers_entryE)

lemma erase_firing_inv:
  assumes "tq_inv F q" "p \<in> F"
  shows "tq_inv (F - {p}) (q\<lparr>timersById := (timersById q)(p := None)\<rparr>)"
  using assms firing_unlinked[OF assms] by (auto simp: tq_inv_defs)


section \<open>What survives callbacks and re-arming\<close>

text \<open>The immutable part of an existing timer.\<close>

definition same_timer :: "'c timer \<Rightarrow> 'c timer \<Rightarrow> bool" where
  "same_timer t t' \<longleftrightarrow> callback t' = callback t \<and> expiration t' = expiration t \<and> interval t' = interval t"

definition dead :: "int \<Rightarrow> 'c timer_queue \<Rightarrow> bool" where
  "dead s q \<longleftrightarrow> timersById q s = None \<and> s < nextSequence q"

lemma insert_timer_frame:
  assumes "tq_inv F q"
  shows "nextSequence (snd (insert_timer p q)) = nextSequence q"
    and "r \<noteq> p \<Longrightarrow> theap (snd (insert_timer p q)) r = theap q r"
    and "r \<noteq> p \<Longrightarrow> timersById (snd (insert_timer p q)) r = timersById q r"
  using assms by (auto simp: insert_timer_def Let_def tq_inv_def heap_ok_def split: option.splits)

lemma addTimer_frame:
  assumes "tq_inv F q"
  shows "nextSequence (snd (addTimer c w i q)) = nextSequence q + 1"
    and "r \<noteq> nextSequence q \<Longrightarrow> theap (snd (addTimer c w i q)) r = theap q r"
    and "r \<noteq> nextSequence q \<Longrightarrow> timersById (snd (addTimer c w i q)) r = timersById q r"
proof -
  obtain s q1 where n: "newTimer c w i q = (s, q1)" by fastforce
  note N = newTimer_inv[OF assms n]
  have a: "snd (addTimer c w i q) = snd (insert_timer s q1)"
    by (simp add: n addTimer_def addTimerInLoop_def)
  show "nextSequence (snd (addTimer c w i q)) = nextSequence q + 1"
    "r \<noteq> nextSequence q \<Longrightarrow> theap (snd (addTimer c w i q)) r = theap q r"
    "r \<noteq> nextSequence q \<Longrightarrow> timersById (snd (addTimer c w i q)) r = timersById q r"
    using insert_timer_frame[OF N(1)] N by (simp_all add: a)
qed

lemma cancelInLoop_frame:
  assumes "tq_inv F q"
  shows "nextSequence (cancelInLoop s q) = nextSequence q"
    and "r \<noteq> s \<Longrightarrow> theap (cancelInLoop s q) r = theap q r"
    and "timersById (cancelInLoop s q) = (timersById q)(s := None)"
    and "theap q r = Some t \<Longrightarrow> \<exists>t'. theap (cancelInLoop s q) r = Some t' \<and> same_timer t t'"
proof -
  have p: "timersById q s = Some p \<Longrightarrow> p = s" for p using assms by (auto simp: tq_inv_def byId_ok_def)
  show "nextSequence (cancelInLoop s q) = nextSequence q"
    "r \<noteq> s \<Longrightarrow> theap (cancelInLoop s q) r = theap q r"
    "timersById (cancelInLoop s q) = (timersById q)(s := None)"
    "theap q r = Some t \<Longrightarrow> \<exists>t'. theap (cancelInLoop s q) r = Some t' \<and> same_timer t t'"
    using p by (auto simp: cancelInLoop_def Let_def same_timer_def fun_eq_iff split: option.splits)
qed

lemma do_timer_op_frame:
  assumes inv: "tq_inv F q"
  shows "theap q r = Some t \<Longrightarrow> \<exists>t'. theap (do_timer_op a q) r = Some t' \<and> same_timer t t'"
    and "dead s q \<Longrightarrow> dead s (do_timer_op a q)"
    and "theap q r = Some t \<Longrightarrow> \<forall>s. a \<noteq> OCancel s \<Longrightarrow>
           theap (do_timer_op a q) r = Some t \<and> timersById (do_timer_op a q) r = timersById q r"
    and "nextSequence q \<le> nextSequence (do_timer_op a q)"
proof -
  have r: "theap q r = Some t \<Longrightarrow> r \<noteq> nextSequence q" for r t using inv by (auto simp: tq_inv_def heap_ok_def)
  show "theap q r = Some t \<Longrightarrow> \<exists>t'. theap (do_timer_op a q) r = Some t' \<and> same_timer t t'"
    "dead s q \<Longrightarrow> dead s (do_timer_op a q)"
    "theap q r = Some t \<Longrightarrow> \<forall>s. a \<noteq> OCancel s \<Longrightarrow>
           theap (do_timer_op a q) r = Some t \<and> timersById (do_timer_op a q) r = timersById q r"
    "nextSequence q \<le> nextSequence (do_timer_op a q)"
    using r addTimer_frame[OF inv] cancelInLoop_frame[OF inv]
    by (cases a; auto simp: cancel_def dead_def same_timer_def)+
qed


lemma same_timer_trans: "same_timer a b \<Longrightarrow> same_timer b c \<Longrightarrow> same_timer a c"
  by (simp add: same_timer_def)

lemma same_timer_refl [simp]: "same_timer a a"
  by (simp add: same_timer_def)

definition no_cancel :: "'c timer_op list \<Rightarrow> bool" where
  "no_cancel as \<longleftrightarrow> (\<forall>s. OCancel s \<notin> set as)"

lemma run_script_Cons: "run_script (a # as) q = run_script as (do_timer_op a q)"
  by (simp add: run_script_def)

lemma run_script_same:
  "tq_inv F q \<Longrightarrow> theap q r = Some t \<Longrightarrow> \<exists>t'. theap (run_script as q) r = Some t' \<and> same_timer t t'"
proof (induction as arbitrary: q t)
  case (Cons a as)
  obtain t1 where "theap (do_timer_op a q) r = Some t1" "same_timer t t1"
    using do_timer_op_frame(1)[OF Cons.prems] by blast
  then show ?case
    using Cons.IH[OF do_timer_op_inv[OF Cons.prems(1)]] by (metis run_script_Cons same_timer_trans)
qed (simp add: run_script_def)

lemma run_script_dead: "tq_inv F q \<Longrightarrow> dead s q \<Longrightarrow> dead s (run_script as q)"
proof (induction as arbitrary: q)
  case (Cons a as)
  then show ?case
    using do_timer_op_frame(2)[OF Cons.prems] do_timer_op_inv by (metis run_script_Cons)
qed (simp add: run_script_def)

lemma run_script_no_cancel:
  "tq_inv F q \<Longrightarrow> theap q r = Some t \<Longrightarrow> no_cancel as \<Longrightarrow>
     theap (run_script as q) r = Some t \<and> timersById (run_script as q) r = timersById q r"
proof (induction as arbitrary: q)
  case (Cons a as)
  have "\<forall>s. a \<noteq> OCancel s" "no_cancel as" using Cons.prems(3) by (auto simp: no_cancel_def)
  with do_timer_op_frame(3)[OF Cons.prems(1,2)] Cons.IH[OF do_timer_op_inv[OF Cons.prems(1)]]
  show ?case by (simp add: run_script_Cons)
qed (simp add: run_script_def)

lemma run_script_next: "tq_inv F q \<Longrightarrow> nextSequence q \<le> nextSequence (run_script as q)"
proof (induction as arbitrary: q)
  case (Cons a as)
  then show ?case
    using do_timer_op_frame(4)[OF Cons.prems] do_timer_op_inv by (metis run_script_Cons order_trans)
qed (simp add: run_script_def)

lemma run_expired_subseq: "subseq (fired_of (fst (run_expired cb ps q))) ps"
  by (induction cb ps q rule: run_expired.induct) (auto simp: Let_def split: option.splits prod.splits)

lemma run_expired_frame:
  assumes "tq_inv F q" "theap q r = Some t"
  shows "\<exists>t'. theap (snd (run_expired cb ps q)) r = Some t' \<and> same_timer t t'"
  using assms
proof (induction cb ps q arbitrary: t rule: run_expired.induct)
  case (2 cb p ps q)
  show ?case
  proof (cases "theap q p")
    case None
    then show ?thesis using 2 by simp
  next
    case (Some tp)
    show ?thesis
    proof (cases "canceled tp")
      case True
      then show ?thesis using 2 Some by simp
    next
      case False
      obtain t1 where "theap (run_script (cb (callback tp) q) q) r = Some t1" "same_timer t t1"
        using run_script_same[OF 2(4,5)] by blast
      then show ?thesis
        using 2(2)[OF Some False run_script_inv[OF 2(4)]] Some False
        by (auto simp: Let_def split: prod.splits intro: same_timer_trans)
    qed
  qed
qed simp


lemma run_expired_cases:
  assumes "theap q p = Some t"
  shows "run_expired cb (p # ps) q =
     (if canceled t then run_expired cb ps q
      else (Fired p # script_notes (cb (callback t) q) q @ fst (run_expired cb ps (run_script (cb (callback t) q) q)),
            snd (run_expired cb ps (run_script (cb (callback t) q) q))))"
  using assms by (simp add: case_prod_beta Let_def)

lemma run_expired_dead:
  assumes "tq_inv F q" "set ps \<subseteq> F" "dead s q"
  shows "s \<notin> set (fired_of (fst (run_expired cb ps q))) \<and> dead s (snd (run_expired cb ps q))"
  using assms
proof (induction ps arbitrary: q)
  case (Cons p ps)
  obtain t where t: "theap q p = Some t" "canceled t \<longleftrightarrow> timersById q p = None"
    using Cons.prems(1,2) by (fastforce simp: tq_inv_def firing_ok_def)
  have "s \<noteq> p" if "\<not> canceled t" using that t(2) Cons.prems(3) by (auto simp: dead_def)
  then show ?case
    using Cons.IH[OF Cons.prems(1) _ Cons.prems(3)] Cons.prems(2)
      Cons.IH[OF run_script_inv[OF Cons.prems(1)] _ run_script_dead[OF Cons.prems(1,3)]]
    unfolding run_expired_cases[OF t(1)] by simp
qed simp

lemma run_expired_no_cancel:
  assumes "tq_inv F q" "\<And>c q. no_cancel (cb c q)" "\<forall>p \<in> set ps. \<exists>t. theap q p = Some t \<and> \<not> canceled t"
  shows "fired_of (fst (run_expired cb ps q)) = ps \<and>
     (\<forall>r t. theap q r = Some t \<longrightarrow> theap (snd (run_expired cb ps q)) r = Some t \<and>
        timersById (snd (run_expired cb ps q)) r = timersById q r)"
  using assms(1,3)
proof (induction ps arbitrary: q)
  case (Cons p ps)
  obtain t where t: "theap q p = Some t" "\<not> canceled t" using Cons.prems(2) by auto
  let ?q = "run_script (cb (callback t) q) q"
  have keep: "theap q r = Some t \<Longrightarrow> theap ?q r = Some t \<and> timersById ?q r = timersById q r" for r t
    using run_script_no_cancel[OF Cons.prems(1) _ assms(2)] by blast
  then have "\<forall>p \<in> set ps. \<exists>t. theap ?q p = Some t \<and> \<not> canceled t" using Cons.prems(2) by fastforce
  from Cons.IH[OF run_script_inv[OF Cons.prems(1)] this] show ?case
    using keep t(2) unfolding run_expired_cases[OF t(1)] by simp
qed simp

lemma run_expired_next: "tq_inv F q \<Longrightarrow> nextSequence q \<le> nextSequence (snd (run_expired cb ps q))"
proof (induction ps arbitrary: q)
  case (Cons p ps)
  then show ?case
    using run_script_next[OF Cons.prems] Cons.IH[OF run_script_inv[OF Cons.prems]]
    by (cases "theap q p") (auto simp: case_prod_beta Let_def intro: order_trans)
qed simp

text \<open>What \<open>reset\<close> makes of an expired timer: re-armed if it repeats and is still registered,
  unregistered otherwise.\<close>

definition rearmed :: "int \<Rightarrow> 'c timer_queue \<Rightarrow> 'c timer_queue \<Rightarrow> int \<Rightarrow> bool" where
  "rearmed now q q' p \<longleftrightarrow>
     (\<exists>t t'. theap q p = Some t \<and> theap q' p = Some t' \<and> callback t' = callback t \<and> interval t' = interval t \<and>
        (if repeat t \<and> timersById q p \<noteq> None
         then timersById q' p = Some p \<and> expiration t' = now + interval t
         else timersById q' p = None))"

definition reset_one :: "int \<Rightarrow> int \<Rightarrow> 'c timer_queue \<Rightarrow> 'c timer_queue" where
  "reset_one now p q =
     (case theap q p of None \<Rightarrow> q
      | Some t \<Rightarrow>
         if repeat t \<and> \<not> canceled t \<and> timersById q (sequence t) \<noteq> None
         then snd (insert_timer p (set_timer p (\<lambda>t. t\<lparr>expiration := now + interval t\<rparr>) q))
         else q\<lparr>timersById := (timersById q)(sequence t := None)\<rparr>)"

lemma reset_Cons: "reset (p # ps) now q = reset ps now (reset_one now p q)"
  by (auto simp: reset_one_def split: option.splits)

lemma reset_one_spec:
  assumes inv: "tq_inv F q" and pF: "p \<in> F"
  shows "tq_inv (F - {p}) (reset_one now p q)" and "nextSequence (reset_one now p q) = nextSequence q"
    and "r \<noteq> p \<Longrightarrow> theap (reset_one now p q) r = theap q r"
    and "r \<noteq> p \<Longrightarrow> timersById (reset_one now p q) r = timersById q r"
    and "rearmed now q (reset_one now p q) p"
proof -
  obtain t where t: "theap q p = Some t" "canceled t \<longleftrightarrow> timersById q p = None"
    using inv pF by (fastforce simp: tq_inv_def firing_ok_def)
  let ?q = "set_timer p (\<lambda>t. t\<lparr>expiration := now + interval t\<rparr>) q"
  have seq: "sequence t = p" using inv t by (auto simp: tq_inv_def heap_ok_def)
  have q: "?q = set_timer p (\<lambda>u. u\<lparr>expiration := now + interval t\<rparr>) q"
    using t by (simp add: set_timer_def)
  have i1: "tq_inv F ?q" unfolding q by (rule set_expiration_inv[OF inv pF])
  have i2: "tq_inv (F - {p}) (snd (insert_timer p ?q))"
    using insert_timer_inv[OF i1, of p] t firing_unlinked[OF inv pF] by auto
  note i3 = erase_firing_inv[OF inv pF]
  show "tq_inv (F - {p}) (reset_one now p q)" using i2 i3 t(1) by (simp add: reset_one_def seq)
  note fr = insert_timer_frame[OF i1, where p = p]
  show "nextSequence (reset_one now p q) = nextSequence q" using t(1) fr(1) by (simp add: reset_one_def)
  show "r \<noteq> p \<Longrightarrow> theap (reset_one now p q) r = theap q r"
    "r \<noteq> p \<Longrightarrow> timersById (reset_one now p q) r = timersById q r"
    using t(1) fr(2,3)[where r = r] by (simp_all add: reset_one_def seq)
  show "rearmed now q (reset_one now p q) p"
    using t by (auto simp: rearmed_def reset_one_def seq insert_timer_def Let_def)
qed

lemma reset_inv:
  "tq_inv (set ps) q \<Longrightarrow> distinct ps \<Longrightarrow>
     tq_inv {} (reset ps now q) \<and> nextSequence (reset ps now q) = nextSequence q"
proof (induction ps arbitrary: q)
  case (Cons p ps)
  have "set (p # ps) - {p} = set ps" using Cons.prems(2) by auto
  then show ?case
    using Cons.IH[of "reset_one now p q"] reset_one_spec(1,2)[OF Cons.prems(1), of p now] Cons.prems(2)
    by (simp add: reset_Cons del: reset.simps)
qed simp

lemma reset_other:
  "tq_inv (set ps) q \<Longrightarrow> distinct ps \<Longrightarrow> r \<notin> set ps \<Longrightarrow>
     theap (reset ps now q) r = theap q r \<and> timersById (reset ps now q) r = timersById q r"
proof (induction ps arbitrary: q)
  case (Cons p ps)
  have "set (p # ps) - {p} = set ps" using Cons.prems(2) by auto
  then show ?case
    using Cons.IH[of "reset_one now p q"] reset_one_spec(1)[OF Cons.prems(1), of p now]
      reset_one_spec(3,4)[OF Cons.prems(1), where p = p and now = now and r = r] Cons.prems(2,3)
    by (simp add: reset_Cons del: reset.simps)
qed simp

lemma rearmed_cong:
  "theap q1 p = theap q p \<Longrightarrow> timersById q1 p = timersById q p \<Longrightarrow> theap q1' p = theap q' p \<Longrightarrow>
     timersById q1' p = timersById q' p \<Longrightarrow> rearmed now q q' p \<Longrightarrow> rearmed now q1 q1' p"
  unfolding rearmed_def by (simp only:)

lemma reset_rearmed:
  "tq_inv (set ps) q \<Longrightarrow> distinct ps \<Longrightarrow> r \<in> set ps \<Longrightarrow> rearmed now q (reset ps now q) r"
proof (induction ps arbitrary: q)
  case (Cons p ps)
  have F: "set (p # ps) - {p} = set ps" using Cons.prems(2) by auto
  have i: "tq_inv (set ps) (reset_one now p q)" using reset_one_spec(1)[OF Cons.prems(1), of p now] F by simp
  show ?case
  proof (cases "r = p")
    case True
    then show ?thesis
      using reset_other[OF i, of r now] Cons.prems(2) reset_one_spec(5)[OF Cons.prems(1), of p now]
      unfolding reset_Cons by (auto intro: rearmed_cong)
  next
    case False
    then show ?thesis
      using Cons.IH[OF i] Cons.prems(2,3) reset_one_spec(3,4)[OF Cons.prems(1) _ False, where now = now]
      unfolding reset_Cons by (auto intro: rearmed_cong[rotated 4])
  qed
qed simp


section \<open>The whole pass over the expired timers\<close>

lemma handleExpired_eq:
  assumes inv: "tq_inv {} q"
  shows "handleExpired cb now later q =
     (let ps = due_timers now q; r = run_expired cb ps (snd (getExpired now q)) in (fst r, reset ps later (snd r)))"
proof (cases "timers q")
  case Nil
  then show ?thesis
    by (simp add: getExpired_due due_timers_def handleExpired_def)
next
  case (Cons e es)
  obtain k p where e: "e = (k, p)" by fastforce
  with Cons obtain t where t: "theap q p = Some t" "k = (expiration t, p)"
    using timers_entryE[OF inv, of k p] by auto
  show ?thesis
  proof (cases "expiration t > now")
    case True
    moreover from this have "\<not> due now (expiration t, p)" using due_expiration by fastforce
    ultimately show ?thesis using Cons t by (simp add: getExpired_due due_timers_def handleExpired_def e)
  next
    case False
    then show ?thesis using Cons t by (simp add: handleExpired_def getExpired_due e case_prod_beta Let_def)
  qed
qed

lemma handleExpired_parts:
  assumes inv: "tq_inv {} q"
    and h: "handleExpired cb now later q = (fired, q')"
  obtains q1 q2 where "getExpired now q = (due_timers now q, q1)" "tq_inv (set (due_timers now q)) q1"
    "distinct (due_timers now q)" "run_expired cb (due_timers now q) q1 = (fired, q2)"
    "tq_inv (set (due_timers now q)) q2" "q' = reset (due_timers now q) later q2"
    "timersById q1 = timersById q" "nextSequence q1 = nextSequence q"
    "\<And>p t. theap q p = Some t \<Longrightarrow> \<exists>t'. theap q1 p = Some t' \<and> same_timer t t' \<and> canceled t' = canceled t"
proof -
  obtain ps q1 where g: "getExpired now q = (ps, q1)" by fastforce
  note G = getExpired_inv[OF inv g]
  obtain f2 q2 where r: "run_expired cb ps q1 = (f2, q2)" by fastforce
  have i2: "tq_inv (set ps) q2" using run_expired_inv[OF G(3), of cb ps] r by simp
  have "f2 = fired" "q' = reset ps later q2"
    using h g r G(1) by (auto simp: handleExpired_eq[OF inv] Let_def)
  with that[of q1 q2] g r G i2 show thesis
    by (auto simp: same_timer_def)
qed

lemma handleExpired_inv:
  assumes "tq_inv {} q" "handleExpired cb now later q = (fired, q')"
  shows "tq_inv {} q'" and "nextSequence q \<le> nextSequence q'"
proof -
  obtain q1 q2 where *: "tq_inv (set (due_timers now q)) q1" "distinct (due_timers now q)"
    "run_expired cb (due_timers now q) q1 = (fired, q2)"
    "tq_inv (set (due_timers now q)) q2" "q' = reset (due_timers now q) later q2" "nextSequence q1 = nextSequence q"
    by (rule handleExpired_parts[OF assms])
  show "tq_inv {} q'" "nextSequence q \<le> nextSequence q'"
    using reset_inv[OF *(4,2), of later] run_expired_next[OF *(1), of cb "due_timers now q"] * by auto
qed

lemma handleExpired_dead:
  assumes inv: "tq_inv {} q" and "handleExpired cb now later q = (fired, q')" and d: "dead s q"
  shows "s \<notin> set (fired_of fired)" and "dead s q'" and "theap q s = Some t \<Longrightarrow> theap q' s \<noteq> None"
proof -
  obtain q1 q2 where *: "tq_inv (set (due_timers now q)) q1" "distinct (due_timers now q)"
    "run_expired cb (due_timers now q) q1 = (fired, q2)"
    "tq_inv (set (due_timers now q)) q2" "q' = reset (due_timers now q) later q2"
    "timersById q1 = timersById q" "nextSequence q1 = nextSequence q"
    "\<And>p t. theap q p = Some t \<Longrightarrow> \<exists>t'. theap q1 p = Some t' \<and> same_timer t t' \<and> canceled t' = canceled t"
    by (rule handleExpired_parts[OF assms(1,2)]) auto
  have nd: "s \<notin> set (due_timers now q)"
    using d by (auto simp: dead_def due_timers_iff[OF inv] elim: timers_entryE[OF inv])
  have d1: "dead s q1" using d * by (simp add: dead_def)
  have r: "s \<notin> set (fired_of fired) \<and> dead s q2"
    using run_expired_dead[OF *(1) subset_refl d1, of cb] *(3) by simp
  show "s \<notin> set (fired_of fired)" using r ..
  show "dead s q'"
    using r reset_other[OF *(4,2) nd, of later] reset_inv[OF *(4,2), of later] *(5) by (simp add: dead_def)
  show "theap q' s \<noteq> None" if "theap q s = Some t"
    using *(8)[OF that] run_expired_frame[OF *(1), of s _ cb "due_timers now q"] *(3)
      reset_other[OF *(4,2) nd, of later] *(5) by auto
qed

lemma handleExpired_rearmed:
  assumes inv: "tq_inv {} q" and "handleExpired cb now later q = (fired, q')"
    and p: "p \<in> set (due_timers now q)" "theap q p = Some t"
  obtains t' where "theap q' p = Some t'" "callback t' = callback t" "interval t' = interval t"
    "timersById q' p = None \<or> repeat t \<and> timersById q' p = Some p \<and> expiration t' = later + interval t"
    "(\<And>c q. no_cancel (cb c q)) \<Longrightarrow> repeat t \<Longrightarrow> timersById q' p = Some p"
proof -
  obtain q1 q2 where *: "tq_inv (set (due_timers now q)) q1" "distinct (due_timers now q)"
    "run_expired cb (due_timers now q) q1 = (fired, q2)"
    "tq_inv (set (due_timers now q)) q2" "q' = reset (due_timers now q) later q2"
    "timersById q1 = timersById q"
    "\<And>p t. theap q p = Some t \<Longrightarrow> \<exists>t'. theap q1 p = Some t' \<and> same_timer t t' \<and> canceled t' = canceled t"
    by (rule handleExpired_parts[OF assms(1,2)]) auto
  obtain t1 where t1: "theap q1 p = Some t1" "same_timer t t1" using *(7)[OF p(2)] by auto
  obtain t2 where t2: "theap q2 p = Some t2" "same_timer t1 t2"
    using run_expired_frame[OF *(1) t1(1), of cb "due_timers now q"] *(3) by auto
  have st: "same_timer t t2" by (rule same_timer_trans[OF t1(2) t2(2)])
  obtain t' where t': "theap q' p = Some t'" "callback t' = callback t2" "interval t' = interval t2"
      "if repeat t2 \<and> timersById q2 p \<noteq> None then timersById q' p = Some p \<and> expiration t' = later + interval t2
       else timersById q' p = None"
    using reset_rearmed[OF *(4,2) p(1), of later] t2(1) *(5) by (auto simp: rearmed_def)
  have keep: "timersById q2 p = Some p" if "\<And>c q. no_cancel (cb c q)"
  proof -
    have "\<forall>p \<in> set (due_timers now q). \<exists>t. theap q1 p = Some t \<and> \<not> canceled t"
      using *(7) by (fastforce simp: due_timers_iff[OF inv] elim: timers_entryE[OF inv])
    from run_expired_no_cancel[where cb = cb, OF *(1) that this] show ?thesis
      using *(3,6) t1(1) p(1) by (auto simp: due_timers_iff[OF inv] elim: timers_entryE[OF inv])
  qed
  show thesis
    by (rule that[OF t'(1)]) (use t' st keep in \<open>auto simp: same_timer_def repeat_def split: if_splits\<close>)
qed


section \<open>Runs with other threads\<close>

definition pending_adds :: "posted_op list \<Rightarrow> int list" where
  "pending_adds posted = concat (map (\<lambda>a. case a of PAdd p \<Rightarrow> [p] | PCancel s \<Rightarrow> []) posted)"

definition sys_inv :: "'c timer_sys \<Rightarrow> bool" where
  "sys_inv st \<longleftrightarrow>
     tq_inv {} (fst st) \<and> distinct (pending_adds (snd st)) \<and>
     (\<forall>p \<in> set (pending_adds (snd st)). dead p (fst st) \<and> theap (fst st) p \<noteq> None)"

text \<open>A timer that is not registered and not waiting to be registered.\<close>

definition gone :: "int \<Rightarrow> 'c timer_sys \<Rightarrow> bool" where
  "gone s st \<longleftrightarrow> dead s (fst st) \<and> s \<notin> set (pending_adds (snd st))"

lemma pending_adds_simps [simp]:
  "pending_adds [] = []"
  "pending_adds (PAdd p # as) = p # pending_adds as"
  "pending_adds (PCancel s # as) = pending_adds as"
  "pending_adds (as @ bs) = pending_adds as @ pending_adds bs"
  by (simp_all add: pending_adds_def)

lemma do_timer_op_keeps:
  assumes "tq_inv {} q" "dead p q \<and> theap q p \<noteq> None"
  shows "dead p (do_timer_op a q) \<and> theap (do_timer_op a q) p \<noteq> None"
  using do_timer_op_frame(1,2)[OF assms(1)] assms(2) by fastforce

lemma dead_unlinked: "tq_inv F q \<Longrightarrow> dead p q \<Longrightarrow> (k, p) \<notin> set (timers q)"
  by (auto simp: dead_def elim: timers_entryE)

lemma timer_step_inv:
  assumes "sys_inv st" "timer_step cb e st = (fired, st')"
  shows "sys_inv st' \<and> nextSequence (fst st) \<le> nextSequence (fst st')"
proof -
  obtain q posted where st: "st = (q, posted)" by fastforce
  have inv: "tq_inv {} q" and pend: "distinct (pending_adds posted)"
    "\<And>p. p \<in> set (pending_adds posted) \<Longrightarrow> dead p q \<and> theap q p \<noteq> None"
    using assms(1) by (auto simp: sys_inv_def st)
  note K = do_timer_op_keeps[OF inv] and I = do_timer_op_inv[OF inv] and M = do_timer_op_frame(4)[OF inv]
  show ?thesis
  proof (cases e)
    case (EAdd c w i)
    then show ?thesis
      using assms(2) pend K[where a = "OAdd c w i"] I[of "OAdd c w i"] M[of "OAdd c w i"] by (auto simp: st sys_inv_def)
  next
    case (ECancel s)
    then show ?thesis
      using assms(2) pend K[where a = "OCancel s"] I[of "OCancel s"] M[of "OCancel s"] by (auto simp: st sys_inv_def)
  next
    case (EForeignAdd c w i)
    obtain s q1 where n: "newTimer c w i q = (s, q1)" by fastforce
    note N = newTimer_inv[OF inv n]
    show ?thesis
      using assms(2) EForeignAdd n N pend by (auto simp: st sys_inv_def dead_def) fastforce+
  next
    case (EForeignCancel s)
    then show ?thesis using assms(1,2) by (auto simp: st sys_inv_def split: if_splits)
  next
    case ERunPosted
    show ?thesis
    proof (cases posted)
      case Nil
      then show ?thesis using assms(1,2) ERunPosted by (simp add: st)
    next
      case (Cons a as)
      show ?thesis
      proof (cases a)
        case (PAdd p)
        obtain t where t: "dead p q" "theap q p = Some t" using pend(2)[of p] PAdd Cons by auto
        show ?thesis
          using assms(2) ERunPosted Cons PAdd pend insert_timer_inv[OF inv t(2) dead_unlinked[OF inv t(1)]]
            insert_timer_frame[OF inv, where p = p]
          by (fastforce simp: st sys_inv_def addTimerInLoop_def dead_def)
      next
        case (PCancel s)
        then show ?thesis
          using assms(2) ERunPosted Cons pend cancelInLoop_inv[OF inv, of s] cancelInLoop_frame[OF inv, where s = s]
          by (fastforce simp: st sys_inv_def dead_def)
      qed
    qed
  next
    case (EExpire now later)
    obtain f q1 where h: "handleExpired cb now later q = (f, q1)" by fastforce
    show ?thesis
      using assms(2) EExpire h pend handleExpired_inv[OF inv h] handleExpired_dead(2,3)[OF inv h]
      by (fastforce simp: st sys_inv_def)
  qed
qed


lemma timer_step_gone:
  assumes "sys_inv st" "timer_step cb e st = (fired, st')" "gone s st"
  shows "s \<notin> set (fired_of fired) \<and> gone s st'"
proof -
  obtain q posted where st: "st = (q, posted)" by fastforce
  have inv: "tq_inv {} q" and g: "dead s q" "s \<notin> set (pending_adds posted)"
    using assms(1,3) by (auto simp: sys_inv_def gone_def st)
  note D = do_timer_op_frame(2)[OF inv g(1)]
  show ?thesis
  proof (cases e)
    case (EAdd c w i)
    then show ?thesis using assms(2) g D[of "OAdd c w i"] by (auto simp: st gone_def)
  next
    case (ECancel r)
    then show ?thesis using assms(2) g D[of "OCancel r"] by (auto simp: st gone_def)
  next
    case (EForeignAdd c w i)
    obtain r q1 where n: "newTimer c w i q = (r, q1)" by fastforce
    show ?thesis
      using assms(2) EForeignAdd n newTimer_inv(2,3,6)[OF inv n] g by (auto simp: st gone_def dead_def)
  next
    case (EForeignCancel r)
    then show ?thesis using assms(2) g by (auto simp: st gone_def split: if_splits)
  next
    case ERunPosted
    then show ?thesis
      using assms(2) g insert_timer_frame(1)[OF inv] insert_timer_frame(3)[OF inv, where r = s] cancelInLoop_frame(1,3)[OF inv]
      by (cases posted; cases "hd posted") (auto simp: st gone_def dead_def addTimerInLoop_def)
  next
    case (EExpire now later)
    obtain f q1 where h: "handleExpired cb now later q = (f, q1)" by fastforce
    show ?thesis
      using assms(2) EExpire h g(2) handleExpired_dead(1,2)[OF inv h g(1)] by (auto simp: st gone_def)
  qed
qed

lemma timer_run_Cons:
  assumes "timer_run cb (e # es) st = (fs, st')"
  obtains f st1 fs' where "timer_step cb e st = (f, st1)" "timer_run cb es st1 = (fs', st')" "fs = f @ fs'"
  using assms by (auto split: prod.splits)

lemma timer_run_sys_inv: "sys_inv st \<Longrightarrow> sys_inv (snd (timer_run cb es st))"
proof (induction es arbitrary: st)
  case (Cons e es)
  then show ?case using timer_step_inv[OF Cons.prems] by (auto split: prod.splits) (metis snd_conv)
qed simp

lemma timer_run_gone: "sys_inv st \<Longrightarrow> gone s st \<Longrightarrow> s \<notin> set (fired_of (fst (timer_run cb es st)))"
proof (induction es arbitrary: st)
  case (Cons e es)
  obtain f st1 where s: "timer_step cb e st = (f, st1)" by (meson surj_pair)
  show ?case
    using Cons.IH[of st1] timer_step_inv[OF Cons.prems(1) s] timer_step_gone[OF Cons.prems(1) s Cons.prems(2)] s
    by (auto simp: case_prod_beta)
qed simp


definition one_shot :: "int \<Rightarrow> 'c timer_queue \<Rightarrow> bool" where
  "one_shot s q \<longleftrightarrow> (\<exists>t. theap q s = Some t \<and> \<not> repeat t)"

lemma one_shot_same: "theap q s = Some t \<Longrightarrow> \<not> repeat t \<Longrightarrow> theap q' s = Some t' \<Longrightarrow> interval t' = interval t \<Longrightarrow> one_shot s q'"
  by (simp add: one_shot_def repeat_def)

lemma subseq_set_subset: "subseq xs ys \<Longrightarrow> set xs \<subseteq> set ys"
  by (auto elim: list_emb_set)

lemma subseq_distinct: "subseq xs ys \<Longrightarrow> distinct ys \<Longrightarrow> distinct xs"
  by (induction rule: list_emb.induct) (auto dest: subseq_set_subset)

lemma handleExpired_subseq:
  assumes "tq_inv {} q" "handleExpired cb now later q = (fired, q')"
  shows "subseq (fired_of fired) (due_timers now q)" and "distinct (fired_of fired)"
proof -
  obtain q1 q2 where *: "distinct (due_timers now q)" "run_expired cb (due_timers now q) q1 = (fired, q2)"
    by (rule handleExpired_parts[OF assms])
  show sub: "subseq (fired_of fired) (due_timers now q)" using run_expired_subseq[of cb "due_timers now q" q1] *(2) by simp
  show "distinct (fired_of fired)" using *(1) sub by (rule subseq_distinct[rotated])
qed


lemma one_shot_do_timer_op: "tq_inv F q \<Longrightarrow> one_shot s q \<Longrightarrow> one_shot s (do_timer_op a q)"
  using do_timer_op_frame(1) by (fastforce simp: one_shot_def same_timer_def repeat_def)

lemma handleExpired_one_shot:
  assumes inv: "tq_inv {} q" and h: "handleExpired cb now later q = (fired, q')" and o: "one_shot s q"
  shows "one_shot s q'" and "s \<in> set (fired_of fired) \<Longrightarrow> dead s q'"
proof -
  obtain t where t: "theap q s = Some t" "\<not> repeat t" using o by (auto simp: one_shot_def)
  have mono: "nextSequence q \<le> nextSequence q'" using handleExpired_inv[OF inv h] by simp
  have less: "s < nextSequence q" using inv t(1) by (auto simp: tq_inv_def heap_ok_def)
  have due: "one_shot s q' \<and> dead s q'" if m: "s \<in> set (due_timers now q)"
    by (rule handleExpired_rearmed[OF inv h m t(1)]) (use t(2) mono less in \<open>auto simp: one_shot_def repeat_def dead_def\<close>)
  show "one_shot s q'"
  proof (cases "s \<in> set (due_timers now q)")
    case False
    obtain q1 q2 where *: "tq_inv (set (due_timers now q)) q1" "distinct (due_timers now q)"
      "run_expired cb (due_timers now q) q1 = (fired, q2)"
      "tq_inv (set (due_timers now q)) q2" "q' = reset (due_timers now q) later q2"
      "\<And>p t. theap q p = Some t \<Longrightarrow> \<exists>t'. theap q1 p = Some t' \<and> same_timer t t' \<and> canceled t' = canceled t"
      by (rule handleExpired_parts[OF inv h]) auto
    obtain t1 where "theap q1 s = Some t1" "same_timer t t1" using *(6)[OF t(1)] by auto
    then show ?thesis
      using run_expired_frame[OF *(1), of s t1 cb "due_timers now q"] *(3) reset_other[OF *(4,2) False, of later] *(5) t(2)
      by (auto simp: one_shot_def same_timer_def repeat_def)
  qed (simp add: due)
  show "s \<in> set (fired_of fired) \<Longrightarrow> dead s q'"
    using subseq_set_subset[OF handleExpired_subseq(1)[OF inv h]] due by auto
qed

lemma timer_step_one_shot:
  assumes "sys_inv st" "timer_step cb e st = (fired, st')" "one_shot s (fst st)"
  shows "one_shot s (fst st') \<and> distinct (fired_of fired) \<and> (s \<in> set (fired_of fired) \<longrightarrow> gone s st')"
proof -
  obtain q posted where st: "st = (q, posted)" by fastforce
  have inv: "tq_inv {} q" and o: "one_shot s q" using assms(1,3) by (auto simp: sys_inv_def st)
  note D = one_shot_do_timer_op[OF inv o]
  show ?thesis
  proof (cases e)
    case (EForeignAdd c w i)
    obtain r q1 where n: "newTimer c w i q = (r, q1)" by fastforce
    show ?thesis
      using assms(2) EForeignAdd n newTimer_inv(4,7)[OF inv n] o by (auto simp: st one_shot_def)
  next
    case ERunPosted
    then show ?thesis
      using assms(2) o insert_timer_frame(2)[OF inv, where r = s] cancelInLoop_frame(4)[OF inv, where r = s]
      by (cases posted; cases "hd posted")
         (fastforce simp: st one_shot_def addTimerInLoop_def insert_timer_def Let_def repeat_def same_timer_def split: option.splits)+
  next
    case (EExpire now later)
    obtain f q1 where h: "handleExpired cb now later q = (f, q1)" by fastforce
    have "s \<in> set (fired_of f) \<Longrightarrow> s \<notin> set (pending_adds posted)"
      using assms(1) handleExpired_dead(1)[OF inv h] by (auto simp: st sys_inv_def)
    then show ?thesis
      using assms(2) EExpire h handleExpired_one_shot[OF inv h o] handleExpired_subseq(2)[OF inv h]
      by (auto simp: st gone_def)
  qed (use assms(2) o D[of "OAdd _ _ _"] D[of "OCancel _"] in \<open>auto simp: st\<close>)
qed

lemma count_list_distinct: "distinct xs \<Longrightarrow> count_list xs x \<le> 1"
  by (induction xs) auto

lemma timer_run_one_shot:
  "sys_inv st \<Longrightarrow> one_shot s (fst st) \<Longrightarrow> count_list (fired_of (fst (timer_run cb es st))) s \<le> 1"
proof (induction es arbitrary: st)
  case (Cons e es)
  obtain f st1 where s: "timer_step cb e st = (f, st1)" by (meson surj_pair)
  note S = timer_step_one_shot[OF Cons.prems(1) s Cons.prems(2)] and I = timer_step_inv[OF Cons.prems(1) s]
  have run: "fired_of (fst (timer_run cb (e # es) st)) = fired_of f @ fired_of (fst (timer_run cb es st1))"
    by (simp add: s case_prod_beta)
  show ?case
  proof (cases "s \<in> set (fired_of f)")
    case True
    then have "count_list (fired_of (fst (timer_run cb es st1))) s = 0"
      using timer_run_gone[of st1 s cb es] S I by (simp add: count_list_0_iff)
    moreover have "count_list (fired_of f) s \<le> 1" by (rule count_list_distinct) (use S in blast)
    ultimately show ?thesis unfolding run by simp
  next
    case False
    then show ?thesis using Cons.IH[of st1] S I unfolding run by simp
  qed
qed simp


section \<open>What the log says of one timer\<close>

text \<open>What the log tells of timer \<open>s\<close>: 0 nothing, 1 it was added, 2 it was cancelled after that. A log is quiet when \<open>s\<close> does not fire
  in the last case.\<close>

fun watch :: "int \<Rightarrow> nat \<Rightarrow> timer_note list \<Rightarrow> nat" where
  "watch s m [] = m"
| "watch s m (Added r # log) = watch s (if r = s \<and> m = 0 then 1 else m) log"
| "watch s m (Cancelled r # log) = watch s (if r = s \<and> m = 1 then 2 else m) log"
| "watch s m (Fired r # log) = watch s m log"

fun quiet :: "int \<Rightarrow> nat \<Rightarrow> timer_note list \<Rightarrow> bool" where
  "quiet s m [] = True"
| "quiet s m (Added r # log) = quiet s (if r = s \<and> m = 0 then 1 else m) log"
| "quiet s m (Cancelled r # log) = quiet s (if r = s \<and> m = 1 then 2 else m) log"
| "quiet s m (Fired r # log) = ((r = s \<longrightarrow> m \<noteq> 2) \<and> quiet s m log)"

lemma watch_append: "watch s m (xs @ ys) = watch s (watch s m xs) ys"
  by (induction s m xs rule: watch.induct) simp_all

lemma quiet_append: "quiet s m (xs @ ys) \<longleftrightarrow> quiet s m xs \<and> quiet s (watch s m xs) ys"
  by (induction s m xs rule: watch.induct) simp_all

lemma watch_mono: "m \<le> watch s m log"
  by (induction s m log rule: watch.induct) (auto split: if_splits)

lemma watch_bound: "m \<le> 2 \<Longrightarrow> watch s m log \<le> 2"
  by (induction s m log rule: watch.induct) auto

lemma watch_added: "Added s \<in> set log \<Longrightarrow> 1 \<le> watch s m log"
proof (induction s m log rule: watch.induct)
  case (2 s m r log)
  then show ?case using watch_mono[of 1 s log] watch_mono[of m s log] by (cases "r = s") auto
qed auto

lemma quiet_cancelled: "quiet s 2 log \<Longrightarrow> Fired s \<notin> set log"
proof (induction log)
  case (Cons n log)
  then show ?case by (cases n) auto
qed simp

text \<open>The queue agrees with the log; \<open>P\<close> are the timers whose registration is posted.\<close>

definition rel :: "int \<Rightarrow> nat \<Rightarrow> 'c timer_queue \<Rightarrow> int set \<Rightarrow> bool" where
  "rel s m q P \<longleftrightarrow> m \<le> 2 \<and> (m \<noteq> 0 \<longrightarrow> 1 \<le> s \<and> s < nextSequence q \<and> s \<notin> P) \<and> (m = 2 \<longrightarrow> timersById q s = None)"

lemma rel_init: "rel s 0 (TimerQueue :: 'c timer_queue) P"
  by (simp add: rel_def)

lemma rel_frame:
  "rel s m q P \<Longrightarrow> nextSequence q \<le> nextSequence q' \<Longrightarrow> (dead s q \<Longrightarrow> dead s q') \<Longrightarrow> rel s m q' P"
  by (auto simp: rel_def dead_def)

lemma do_timer_op_rel:
  assumes "tq_inv F q" "rel s m q P" "\<forall>p \<in> P. p < nextSequence q"
  shows "quiet s m [op_note a q] \<and> rel s (watch s m [op_note a q]) (do_timer_op a q) P"
proof (cases a)
  case (OAdd c w i)
  have "1 \<le> nextSequence q" using assms(1) by (simp add: tq_inv_def)
  then show ?thesis using OAdd assms addTimer_frame(1)[OF assms(1), of c w i] addTimer_frame(3)[OF assms(1), of s c w i] by (auto simp: rel_def)
next
  case (OCancel r)
  then show ?thesis using assms cancelInLoop_frame(1,3)[OF assms(1), of r]
    by (auto simp: rel_def cancel_def timer_id_valid_def)
qed

lemma run_script_rel:
  assumes "tq_inv F q" "rel s m q P" "\<forall>p \<in> P. p < nextSequence q"
  shows "quiet s m (script_notes as q) \<and> rel s (watch s m (script_notes as q)) (run_script as q) P"
  using assms
proof (induction as arbitrary: q m)
  case (Cons a as)
  note d = do_timer_op_rel[OF Cons.prems, of a]
  have "\<forall>p \<in> P. p < nextSequence (do_timer_op a q)" using Cons.prems(3) do_timer_op_frame(4)[OF Cons.prems(1), of a] by fastforce
  from Cons.IH[OF do_timer_op_inv[OF Cons.prems(1)] conjunct2[OF d] this] show ?case
    using d quiet_append[of s m "[op_note a q]" "script_notes as (do_timer_op a q)"]
      watch_append[of s m "[op_note a q]" "script_notes as (do_timer_op a q)"] by (simp add: run_script_Cons)
qed (simp add: run_script_def)

lemma run_expired_rel:
  assumes "tq_inv F q" "set ps \<subseteq> F" "rel s m q P" "\<forall>p \<in> P. p < nextSequence q"
  shows "quiet s m (fst (run_expired cb ps q)) \<and> rel s (watch s m (fst (run_expired cb ps q))) (snd (run_expired cb ps q)) P"
  using assms
proof (induction ps arbitrary: q m)
  case (Cons p ps)
  obtain t where t: "theap q p = Some t" "canceled t \<longleftrightarrow> timersById q p = None"
    using Cons.prems(1,2) by (fastforce simp: tq_inv_def firing_ok_def)
  let ?as = "cb (callback t) q"
  note d = run_script_rel[OF Cons.prems(1,3,4), of ?as]
  have n: "\<forall>p \<in> P. p < nextSequence (run_script ?as q)" using Cons.prems(4) run_script_next[OF Cons.prems(1), of ?as] by fastforce
  have "m \<noteq> 2" if "\<not> canceled t" "p = s" using that t(2) Cons.prems(3) by (auto simp: rel_def)
  then show ?case
    using Cons.IH[OF Cons.prems(1) _ Cons.prems(3,4)] Cons.prems(2)
      Cons.IH[OF run_script_inv[OF Cons.prems(1)] _ conjunct2[OF d] n] d
    unfolding run_expired_cases[OF t(1)] by (auto simp: quiet_append watch_append)
qed simp

lemma reset_unregistered:
  assumes "tq_inv (set ps) q" "distinct ps" "timersById q s = None"
  shows "timersById (reset ps now q) s = None"
proof (cases "s \<in> set ps")
  case True
  then show ?thesis using reset_rearmed[OF assms(1,2) True, of now] assms(3) by (auto simp: rearmed_def)
next
  case False
  then show ?thesis using reset_other[OF assms(1,2) False, of now] assms(3) by simp
qed

lemma handleExpired_rel:
  assumes inv: "tq_inv {} q" and h: "handleExpired cb now later q = (log, q')" and r: "rel s m q P" and P: "\<forall>p \<in> P. p < nextSequence q"
  shows "quiet s m log \<and> rel s (watch s m log) q' P"
proof -
  obtain q1 q2 where *: "tq_inv (set (due_timers now q)) q1" "distinct (due_timers now q)"
    "run_expired cb (due_timers now q) q1 = (log, q2)"
    "tq_inv (set (due_timers now q)) q2" "q' = reset (due_timers now q) later q2"
    "timersById q1 = timersById q" "nextSequence q1 = nextSequence q"
    by (rule handleExpired_parts[OF inv h]) auto
  have "rel s m q1 P" using r *(6,7) by (simp add: rel_def)
  then have "quiet s m log \<and> rel s (watch s m log) q2 P"
    using run_expired_rel[OF *(1) subset_refl, of s m P cb] P *(3,7) by simp
  then show ?thesis
    using reset_unregistered[OF *(4,2), of s later] reset_inv[OF *(4,2), of later] *(5) by (auto simp: rel_def)
qed

lemma timer_step_rel:
  assumes "sys_inv st" "timer_step cb e st = (log, st')" "rel s m (fst st) (set (pending_adds (snd st)))"
  shows "quiet s m log \<and> rel s (watch s m log) (fst st') (set (pending_adds (snd st')))"
proof -
  obtain q posted where st: "st = (q, posted)" by fastforce
  have inv: "tq_inv {} q" and r: "rel s m q (set (pending_adds posted))"
    and d: "distinct (pending_adds posted)" "\<And>p. p \<in> set (pending_adds posted) \<Longrightarrow> dead p q \<and> theap q p \<noteq> None"
    using assms(1,3) by (auto simp: sys_inv_def st)
  have P: "\<forall>p \<in> set (pending_adds posted). p < nextSequence q" using d(2) by (auto simp: dead_def)
  note D = do_timer_op_rel[OF inv r P]
  show ?thesis
  proof (cases e)
    case (EAdd c w i)
    then show ?thesis using assms(2) D[of "OAdd c w i"] by (auto simp: st)
  next
    case (ECancel a)
    then show ?thesis using assms(2) D[of "OCancel a"] by (auto simp: st)
  next
    case (EForeignAdd c w i)
    obtain a q1 where n: "newTimer c w i q = (a, q1)" by fastforce
    show ?thesis using assms(2) EForeignAdd n newTimer_inv(2,3,6)[OF inv n] r by (auto simp: st rel_def)
  next
    case (EForeignCancel a)
    then show ?thesis using assms(2) r by (auto simp: st split: if_splits)
  next
    case ERunPosted
    show ?thesis
    proof (cases posted)
      case Nil
      then show ?thesis using assms(2) ERunPosted r by (auto simp: st)
    next
      case (Cons a as)
      show ?thesis
      proof (cases a)
        case (PAdd p)
        obtain t where t: "dead p q" "theap q p = Some t" using d(2)[of p] PAdd Cons by auto
        have "1 \<le> p" using inv t(2) by (auto simp: tq_inv_def heap_ok_def)
        then show ?thesis
          using assms(2) ERunPosted Cons PAdd d(1) t(1) r insert_timer_frame(1)[OF inv, where p = p]
            insert_timer_frame(3)[OF inv, where p = p and r = s]
          by (cases "p = s") (auto simp: st rel_def addTimerInLoop_def dead_def)
      next
        case (PCancel b)
        then show ?thesis using assms(2) ERunPosted Cons r cancelInLoop_frame(1,3)[OF inv, of b] by (auto simp: st rel_def)
      qed
    qed
  next
    case (EExpire now later)
    obtain f q1 where h: "handleExpired cb now later q = (f, q1)" by fastforce
    show ?thesis using assms(2) EExpire h handleExpired_rel[OF inv h r P] by (auto simp: st)
  qed
qed

lemma timer_run_quiet:
  "sys_inv st \<Longrightarrow> rel s m (fst st) (set (pending_adds (snd st))) \<Longrightarrow> quiet s m (fst (timer_run cb es st))"
proof (induction es arbitrary: st m)
  case (Cons e es)
  obtain f st1 where s: "timer_step cb e st = (f, st1)" by (meson surj_pair)
  note R = timer_step_rel[OF Cons.prems(1) s Cons.prems(2)]
  show ?case
    using Cons.IH[of st1] timer_step_inv[OF Cons.prems(1) s] R s by (auto simp: case_prod_beta quiet_append)
qed simp

lemma registered_entry:
  "tq_inv {} q \<Longrightarrow> timersById q p = Some p \<Longrightarrow> theap q p = Some t \<Longrightarrow> ((expiration t, p), p) \<in> set (timers q)"
  by (fastforce simp: tq_inv_def byId_ok_def)

section \<open>Properties\<close>

lemma sys_inv_init: "sys_inv (TimerQueue, [])"
  by (simp add: sys_inv_def TimerQueue_inv)

text \<open>A queue for the examples: callback 0 cancels timer 2, every other callback adds a timer.\<close>

definition demo_cb :: "int \<Rightarrow> int timer_queue \<Rightarrow> int timer_op list" where
  "demo_cb c q = (if c = 0 then [OCancel 2] else [OAdd 7 0 0])"

definition demo_queue :: "int timer_queue" where
  "demo_queue = snd (addTimer 5 20 0 (snd (addTimer 3 10 0 (snd (addTimer 1 10 4 TimerQueue)))))"

lemma demo_queue_inv: "tq_inv {} demo_queue"
  unfolding demo_queue_def by (intro addTimer_inv TimerQueue_inv)

lemmas timer_eval = addTimer_def newTimer_def addTimerInLoop_def insert_timer_def set_timer_def Timer_def
  TimerQueue_def Let_def cancel_def cancelInLoop_def map_erase_def timer_id_valid_def due_timers_def due_def
  handleExpired_def getExpired_def run_script_def repeat_def INT64_MAX_def demo_queue_def demo_cb_def less_eq_prod_def
  less_prod_def

text \<open>Both indexes of the timer queue stay consistent in every run of the owner thread with any
  number of other threads, whatever the callbacks do: \<open>timers_\<close> is strictly ordered by (expiration,
  sequence) and holds exactly the registered timers, under their own key and marked as queued and not
  cancelled, and a posted registration is of an allocated timer that is in neither index.\<close>

theorem timer_run_consistent:
  "sys_inv (snd (timer_run cb es (TimerQueue, [])))"
  by (rule timer_run_sys_inv[OF sys_inv_init])

text \<open>One pass of \<open>handleExpired\<close> runs callbacks of due timers only (no timer early), each once,
  in the order of their expirations (the subsequence of the due part of the queue), and never a
  timer a callback has just added; afterwards a due timer is unregistered, or it repeats and is
  re-armed one interval after the clock reading that follows the callbacks.\<close>

theorem handleExpired_fires:
  assumes "tq_inv {} q" "handleExpired cb now later q = (fired, q')"
  shows "subseq (fired_of fired) (due_timers now q) \<and> distinct (fired_of fired) \<and>
     (\<forall>p \<in> set (due_timers now q). \<exists>t t'. theap q p = Some t \<and> expiration t \<le> now \<and> theap q' p = Some t' \<and>
        (timersById q' p = None \<or>
         repeat t \<and> expiration t' = later + interval t \<and> ((later + interval t, p), p) \<in> set (timers q')))"
proof (intro conjI ballI)
  fix p assume p: "p \<in> set (due_timers now q)"
  then obtain k where k: "(k, p) \<in> set (timers q)" "due now k" using due_timers_iff[OF assms(1)] by blast
  obtain t where t: "theap q p = Some t" "k = (expiration t, p)" by (rule timers_entryE[OF assms(1) k(1)])
  obtain t' where t': "theap q' p = Some t'" "interval t' = interval t"
    "timersById q' p = None \<or> repeat t \<and> timersById q' p = Some p \<and> expiration t' = later + interval t"
    by (rule handleExpired_rearmed[OF assms p t(1)])
  have "timersById q' p = Some p \<Longrightarrow> ((expiration t', p), p) \<in> set (timers q')"
    using registered_entry[OF handleExpired_inv(1)[OF assms] _ t'(1)] .
  then show "\<exists>t t'. theap q p = Some t \<and> expiration t \<le> now \<and> theap q' p = Some t' \<and>
        (timersById q' p = None \<or>
         repeat t \<and> expiration t' = later + interval t \<and> ((later + interval t, p), p) \<in> set (timers q'))"
    using t t' k(2) due_expiration by auto
qed (rule handleExpired_subseq[OF assms])+

theorem handleExpired_fires_witness:
  "fst (handleExpired demo_cb 15 16 demo_queue) = [Fired 1, Added 4, Fired 2, Added 5] \<and>
   subseq [1, 2] (due_timers 15 demo_queue)"
proof -
  have h: "handleExpired demo_cb 15 16 demo_queue =
      ([Fired 1, Added 4, Fired 2, Added 5], snd (handleExpired demo_cb 15 16 demo_queue))"
    by (simp add: timer_eval)
  show ?thesis using handleExpired_fires[OF demo_queue_inv h] h by (metis fired_of.simps fst_conv)
qed

text \<open>When no callback cancels a timer, \<open>handleExpired\<close> misses nothing: it runs every timer whose
  expiration is not after \<open>now\<close>, and every repeating one is registered again.\<close>

theorem handleExpired_complete:
  assumes "tq_inv {} q" "handleExpired cb now later q = (fired, q')" "\<forall>c q. no_cancel (cb c q)"
    and "timersById q p = Some p" "theap q p = Some t" "expiration t \<le> now" "p \<le> INT64_MAX"
  shows "p \<in> set (fired_of fired) \<and> timersById q' p = (if repeat t then Some p else None)"
proof -
  have nc: "\<And>c q. no_cancel (cb c q)" using assms(3) by blast
  have "((expiration t, p), p) \<in> set (timers q)"
    by (rule registered_entry[OF assms(1,4,5)])
  then have p: "p \<in> set (due_timers now q)"
    using due_timers_iff[OF assms(1)] expiration_due[OF assms(6,7)] by blast
  obtain q1 q2 where *: "tq_inv (set (due_timers now q)) q1"
    "run_expired cb (due_timers now q) q1 = (fired, q2)"
    "\<And>p t. theap q p = Some t \<Longrightarrow> \<exists>t'. theap q1 p = Some t' \<and> same_timer t t' \<and> canceled t' = canceled t"
    by (rule handleExpired_parts[OF assms(1,2)]) auto
  have "\<forall>p \<in> set (due_timers now q). \<exists>t. theap q1 p = Some t \<and> \<not> canceled t"
    using *(3) by (fastforce simp: due_timers_iff[OF assms(1)] elim: timers_entryE[OF assms(1)])
  from run_expired_no_cancel[where cb = cb, OF *(1) nc this] have "fired_of fired = due_timers now q" using *(2) by simp
  then show ?thesis
    using p by (auto intro: handleExpired_rearmed[OF assms(1,2) p assms(5)] simp: nc)
qed

theorem handleExpired_complete_witness:
  "2 \<in> set (fired_of (fst (handleExpired (\<lambda>c q. [OAdd 7 0 0]) 15 16 demo_queue))) \<and>
   timersById (snd (handleExpired (\<lambda>c q. [OAdd 7 0 0]) 15 16 demo_queue)) 2 = None"
proof -
  have "theap demo_queue 2 = Some (Timer 3 10 0 2)" "timersById demo_queue 2 = Some 2"
    by (simp_all add: timer_eval)
  then show ?thesis
    using handleExpired_complete[OF demo_queue_inv surjective_pairing, of "\<lambda>c q. [OAdd 7 0 0]" 2 "Timer 3 10 0 2" 15 16]
    by (simp add: no_cancel_def Timer_def repeat_def INT64_MAX_def)
qed

text \<open>C7. A cancelled timer never fires. The log of a run (owner thread, any number of posting threads, callbacks that add and
  cancel timers themselves) has a note when a timer is put into the queue, when \<open>cancel\<close> runs for it on the owner thread (called
  there, from a callback, even its own or one of the same pass, or posted by another thread), and when its callback is called.
  Once \<open>cancel\<close> has run for a timer that was put into the queue before, no later note is a call of its callback. The order
  matters: \<open>cancel\<close> called on the owner thread before the functor that another thread posted to add the timer has run does nothing
  (\<open>cancel_before_queued_add\<close>).\<close>

theorem cancelled_never_fires:
  assumes "fst (timer_run cb es (TimerQueue, [])) = before @ Cancelled s # after" "Added s \<in> set before"
  shows "Fired s \<notin> set after"
proof -
  have "quiet s 0 (before @ Cancelled s # after)"
    using timer_run_quiet[of "(TimerQueue, [])" s 0 cb es] assms(1) by (simp add: sys_inv_init rel_init)
  then have "quiet s (watch s 0 before) (Cancelled s # after)" by (simp add: quiet_append)
  moreover have "watch s 0 before = 1 \<or> watch s 0 before = 2"
    using watch_added[OF assms(2), of 0] watch_bound[of 0 s before] by auto
  ultimately show ?thesis using quiet_cancelled[of s after] by auto
qed

text \<open>A repeating timer whose callback cancels it: it fires once.\<close>

theorem cancelled_never_fires_witness:
  "fst (timer_run (\<lambda>c q. [OCancel 1]) [EAdd 4 10 3, EExpire 10 11, EExpire 20 21] (TimerQueue, [])) = [Added 1, Fired 1] @ [Cancelled 1] \<and>
   Fired 1 \<notin> set (drop 3 (fst (timer_run (\<lambda>c q. [OCancel 1]) [EAdd 4 10 3, EExpire 10 11, EExpire 20 21] (TimerQueue, []))))"
proof -
  have l: "fst (timer_run (\<lambda>c q. [OCancel 1]) [EAdd 4 10 3, EExpire 10 11, EExpire 20 21] (TimerQueue, [])) =
      [Added 1, Fired 1] @ Cancelled 1 # []"
    by (simp add: timer_eval)
  from cancelled_never_fires[OF this] show ?thesis unfolding l by simp
qed

text \<open>\<open>cancel\<close> of a timer that another thread has created and whose registration is still posted changes nothing, so
  the timer is registered later and fires.\<close>

theorem cancel_before_queued_add:
  assumes "timer_run cb es (TimerQueue, []) = (log, (q, posted))" "PAdd s \<in> set posted"
  shows "cancel s q = q"
proof -
  have "sys_inv (q, posted)" using timer_run_sys_inv[OF sys_inv_init, of cb es] assms(1) by simp
  moreover have "s \<in> set (pending_adds posted)" using assms(2) by (induction posted) (auto simp: pending_adds_def split: posted_op.splits)
  ultimately have "timersById q s = None" by (auto simp: sys_inv_def dead_def)
  then show ?thesis by (simp add: cancel_def cancelInLoop_def)
qed

text \<open>A one-shot timer fires at most once in every run.\<close>

theorem one_shot_fires_once:
  assumes "timer_run cb es (TimerQueue, []) = (fired1, st)" "theap (fst st) s = Some t" "interval t \<le> 0"
  shows "count_list (fired_of (fst (timer_run cb es' st))) s \<le> 1"
proof (rule timer_run_one_shot)
  show "sys_inv st" using timer_run_sys_inv[OF sys_inv_init, of cb es] assms(1) by simp
  show "one_shot s (fst st)" using assms(2,3) by (simp add: one_shot_def repeat_def)
qed

theorem one_shot_fires_once_witness:
  "count_list (fired_of (fst (timer_run demo_cb [EExpire 20 21, EExpire 30 31] (snd (addTimer 4 10 0 TimerQueue), [])))) 1 \<le> 1 \<and>
   fired_of (fst (timer_run demo_cb [EExpire 20 21] (snd (addTimer 4 10 0 TimerQueue), []))) = [1]"
proof -
  have "timer_run demo_cb [EAdd 4 10 0] (TimerQueue, []) = ([Added 1], snd (addTimer 4 10 0 TimerQueue), [])"
    by (simp add: TimerQueue_def)
  moreover have "theap (fst (snd (addTimer 4 10 0 TimerQueue) :: int timer_queue, [] :: posted_op list)) 1 = Some (Timer 4 10 0 1)"
    by (simp add: timer_eval)
  ultimately have "count_list (fired_of (fst (timer_run demo_cb [EExpire 20 21, EExpire 30 31] (snd (addTimer 4 10 0 TimerQueue), [])))) 1 \<le> 1"
    by (rule one_shot_fires_once) (simp_all add: Timer_def)
  then show ?thesis by (simp add: timer_eval)
qed

text \<open>The poll timeout never lets the loop oversleep a timer and never spins: it is at most the
  default, it is at least 1 ms while the earliest timer is in the future (for a positive default) and 0
  once it is due (for a non-negative default), and it ends less than 1 ms after the expiration.\<close>

theorem pollTimeoutMs_bounds:
  assumes "tq_inv F q" "timers q = (k, p) # rest" "0 < defaultTimeoutMs"
  shows "let ms = pollTimeoutMs now defaultTimeoutMs q in
     ms \<le> defaultTimeoutMs \<and> (fst k \<le> now \<longrightarrow> ms = 0) \<and>
     (now < fst k \<longrightarrow> 1 \<le> ms \<and> now + ms * 1000000 < fst k + 1000000 \<and>
        (ms < defaultTimeoutMs \<longrightarrow> ms < INT_MAX \<longrightarrow> fst k \<le> now + ms * 1000000))"
proof -
  have "(k, p) \<in> set (timers q)" using assms(2) by simp
  then obtain t where t: "theap q p = Some t" "fst k = expiration t"
    by (rule timers_entryE[OF assms(1)]) simp
  define c where "c = ceilMilliseconds (expiration t - now)"
  have ms: "pollTimeoutMs now defaultTimeoutMs q = min defaultTimeoutMs c"
    using assms(2) t(1) by (simp add: pollTimeoutMs_def c_def)
  show ?thesis
  proof (cases "expiration t \<le> now")
    case True
    then have "c = 0" by (simp add: c_def ceilMilliseconds_nonpos)
    then show ?thesis using assms(3) True by (simp add: ms t(2))
  next
    case False
    then have "1 \<le> c" "c < INT_MAX \<Longrightarrow> expiration t - now \<le> c * 1000000" "c * 1000000 < expiration t - now + 1000000"
      using ceilMilliseconds_pos[of "expiration t - now"] by (simp_all add: c_def)
    then show ?thesis using assms(3) False unfolding ms t(2) Let_def min_def by auto
  qed
qed


theorem pollTimeoutMs_bounds_witness:
  "let ms = pollTimeoutMs 3 10000 demo_queue in ms \<le> 10000 \<and> 1 \<le> ms \<and> 3 + ms * 1000000 < 10 + 1000000"
proof -
  have "timers demo_queue = ((10, 1), 1) # [((10, 2), 2), ((20, 3), 3)]" by (simp add: timer_eval)
  from pollTimeoutMs_bounds[OF demo_queue_inv this, of 10000 3] show ?thesis by (simp add: Let_def)
qed

end
