(* ===== verification/Channel_Poller.thy ===== *)
theory Channel_Poller
  imports Prelude
begin

unbundle bit_operations_syntax

text \<open>
  \<^verbatim>\<open>Channel.cc\<close>, \<^verbatim>\<open>Poller.cc\<close>, \<^verbatim>\<open>poller/EPollPoller.cc\<close>, \<^verbatim>\<open>poller/SelectPoller.cc\<close> and the
  channel side of \<^verbatim>\<open>EventLoop.cc\<close> (\<open>updateChannel\<close>, \<open>removeChannel\<close>, \<open>hasChannel\<close> and the dispatch
  part of \<open>loop\<close>).

  A \<open>Channel*\<close> is an address of the heap \<open>cheap\<close>; an access through an address without an object is
  \<open>Out_of_bounds\<close>. The record \<open>reactor\<close> holds the channels, the \<open>channels_\<close> map of the base class
  \<open>Poller\<close> and the dispatch state of the loop; the epoll back end extends it. The pollers are
  called through the virtual functions of \<open>Poller\<close>, so channel and loop operations take them as
  arguments, and the locale \<open>poller\<close> states what both back ends promise.

  The system calls are parameters: \<open>ctl\<close> is \<open>epoll_ctl\<close> on the interest list of the epoll instance,
  \<open>wait\<close> is \<open>epoll_wait\<close>, \<open>sel\<close> is \<open>select\<close>. \<open>LOG_SYSFATAL\<close> and \<open>LOG_FATAL\<close> are \<open>Fatal\<close>.
\<close>

section \<open>Channels and the reactor state\<close>

record 'c channel =
  ch_fd :: int
  ch_events :: u32
  ch_revents :: u32
  ch_index :: int
  ch_eventHandling :: bool
  ch_addedToLoop :: bool
  ch_tied :: bool
  ch_tie :: "nat option"
  readCallback :: "'c option"
  writeCallback :: "'c option"
  closeCallback :: "'c option"
  errorCallback :: "'c option"

definition kNoneEvent :: u32 where "kNoneEvent = 0"
definition kReadEvent :: u32 where "kReadEvent = 0x01"
definition kWriteEvent :: u32 where "kWriteEvent = 0x02"
definition kErrorEvent :: u32 where "kErrorEvent = 0x04"
definition kCloseEvent :: u32 where "kCloseEvent = 0x08"

definition Channel :: "int \<Rightarrow> 'c channel" where
  "Channel fd = \<lparr>ch_fd = fd, ch_events = kNoneEvent, ch_revents = 0, ch_index = -1, ch_eventHandling = False,
     ch_addedToLoop = False, ch_tied = False, ch_tie = None,
     readCallback = None, writeCallback = None, closeCallback = None, errorCallback = None\<rparr>"

record 'c reactor =
  cheap :: "nat \<rightharpoonup> 'c channel"
  channels :: "int \<rightharpoonup> nat"
  activeChannels :: "nat option list"
  currentActiveChannel :: "nat option"
  loopEventHandling :: bool

type_synonym ('c, 'z) world = "('c, 'z) reactor_scheme"
type_synonym ('c, 'z) poller_op = "nat \<Rightarrow> ('c, 'z) world \<Rightarrow> ('c, 'z) world res"

definition with_chan :: "nat \<Rightarrow> ('c, 'z) world \<Rightarrow> ('c channel \<Rightarrow> 'a res) \<Rightarrow> 'a res" where
  "with_chan p w f = (case cheap w p of None \<Rightarrow> Inl Out_of_bounds | Some c \<Rightarrow> f c)"

definition set_chan :: "nat \<Rightarrow> ('c channel \<Rightarrow> 'c channel) \<Rightarrow> ('c, 'z) world \<Rightarrow> ('c, 'z) world" where
  "set_chan p f w = w\<lparr>cheap := (cheap w)(p := map_option f (cheap w p))\<rparr>"

definition isNoneEvent :: "'c channel \<Rightarrow> bool" where
  "isNoneEvent c \<longleftrightarrow> ch_events c = kNoneEvent"

definition isWriting :: "'c channel \<Rightarrow> bool" where
  "isWriting c \<longleftrightarrow> ch_events c AND kWriteEvent \<noteq> 0"

definition isReading :: "'c channel \<Rightarrow> bool" where
  "isReading c \<longleftrightarrow> ch_events c AND kReadEvent \<noteq> 0"

definition tie :: "nat \<Rightarrow> 'c channel \<Rightarrow> 'c channel" where
  "tie obj c = c\<lparr>ch_tie := Some obj, ch_tied := True\<rparr>"

definition setReadCallback :: "'c \<Rightarrow> 'c channel \<Rightarrow> 'c channel" where
  "setReadCallback cb c = c\<lparr>readCallback := Some cb\<rparr>"

definition setWriteCallback :: "'c \<Rightarrow> 'c channel \<Rightarrow> 'c channel" where
  "setWriteCallback cb c = c\<lparr>writeCallback := Some cb\<rparr>"

definition setCloseCallback :: "'c \<Rightarrow> 'c channel \<Rightarrow> 'c channel" where
  "setCloseCallback cb c = c\<lparr>closeCallback := Some cb\<rparr>"

definition setErrorCallback :: "'c \<Rightarrow> 'c channel \<Rightarrow> 'c channel" where
  "setErrorCallback cb c = c\<lparr>errorCallback := Some cb\<rparr>"

section \<open>The channel side of the loop\<close>

text \<open>\<open>inLoop\<close> tells whether the calling thread is the owner thread of the loop.\<close>

definition assertInLoopThread :: "bool \<Rightarrow> unit res" where
  "assertInLoopThread inLoop =
     (if inLoop then Inr () else Inl (Runtime_error ''EventLoop used from a different thread''))"

definition EventLoop_updateChannel :: "bool \<Rightarrow> ('c, 'z) poller_op \<Rightarrow> ('c, 'z) poller_op" where
  "EventLoop_updateChannel inLoop upd p w = bind_res (assertInLoopThread inLoop) (\<lambda>_. upd p w)"

definition EventLoop_removeChannel :: "bool \<Rightarrow> ('c, 'z) poller_op \<Rightarrow> ('c, 'z) poller_op" where
  "EventLoop_removeChannel inLoop rem p w =
     bind_res (assertInLoopThread inLoop) (\<lambda>_.
     bind_res (rem p w) (\<lambda>w.
       Inr (if loopEventHandling w
            then w\<lparr>activeChannels := map (\<lambda>a. if a = Some p then None else a) (activeChannels w)\<rparr>
            else w)))"

definition hasChannel :: "nat \<Rightarrow> ('c, 'z) world \<Rightarrow> bool" where
  "hasChannel p w = (case cheap w p of None \<Rightarrow> False | Some c \<Rightarrow> channels w (ch_fd c) = Some p)"

section \<open>Operations of a channel\<close>

definition update :: "bool \<Rightarrow> ('c, 'z) poller_op \<Rightarrow> ('c, 'z) poller_op" where
  "update inLoop upd p w =
     with_chan p w (\<lambda>_. EventLoop_updateChannel inLoop upd p (set_chan p (\<lambda>c. c\<lparr>ch_addedToLoop := True\<rparr>) w))"

definition enableReading :: "bool \<Rightarrow> ('c, 'z) poller_op \<Rightarrow> ('c, 'z) poller_op" where
  "enableReading inLoop upd p w = update inLoop upd p (set_chan p (\<lambda>c. c\<lparr>ch_events := ch_events c OR kReadEvent\<rparr>) w)"

definition disableReading :: "bool \<Rightarrow> ('c, 'z) poller_op \<Rightarrow> ('c, 'z) poller_op" where
  "disableReading inLoop upd p w =
     update inLoop upd p (set_chan p (\<lambda>c. c\<lparr>ch_events := ch_events c AND NOT kReadEvent\<rparr>) w)"

definition enableWriting :: "bool \<Rightarrow> ('c, 'z) poller_op \<Rightarrow> ('c, 'z) poller_op" where
  "enableWriting inLoop upd p w = update inLoop upd p (set_chan p (\<lambda>c. c\<lparr>ch_events := ch_events c OR kWriteEvent\<rparr>) w)"

definition disableWriting :: "bool \<Rightarrow> ('c, 'z) poller_op \<Rightarrow> ('c, 'z) poller_op" where
  "disableWriting inLoop upd p w =
     update inLoop upd p (set_chan p (\<lambda>c. c\<lparr>ch_events := ch_events c AND NOT kWriteEvent\<rparr>) w)"

definition disableAll :: "bool \<Rightarrow> ('c, 'z) poller_op \<Rightarrow> ('c, 'z) poller_op" where
  "disableAll inLoop upd p w = update inLoop upd p (set_chan p (\<lambda>c. c\<lparr>ch_events := kNoneEvent\<rparr>) w)"

definition remove_chan :: "bool \<Rightarrow> ('c, 'z) poller_op \<Rightarrow> ('c, 'z) poller_op" where
  "remove_chan inLoop rem p w =
     with_chan p w (\<lambda>c.
       if \<not> isNoneEvent c then Inl (Runtime_error ''Channel::remove requires disableAll() first'')
       else EventLoop_removeChannel inLoop rem p (set_chan p (\<lambda>c. c\<lparr>ch_addedToLoop := False\<rparr>) w))"

text \<open>The destructor, and the release of the object.\<close>

definition destroy_chan :: "nat \<Rightarrow> ('c, 'z) world \<Rightarrow> ('c, 'z) world res" where
  "destroy_chan p w =
     with_chan p w (\<lambda>c.
       if ch_eventHandling c then Inl (Fatal ''Channel destroyed while handling events'')
       else if ch_addedToLoop c then Inl (Fatal ''Channel destroyed without remove-before-destroy'')
       else Inr (w\<lparr>cheap := (cheap w)(p := None)\<rparr>))"

text \<open>The four guarded calls of \<open>handleEventWithGuard\<close>; \<open>exec\<close> runs a callback. The fields of the
  channel are read again before each call.\<close>

definition call_back :: "('c \<Rightarrow> ('c, 'z) world \<Rightarrow> ('c, 'z) world res) \<Rightarrow> ('c channel \<Rightarrow> bool) \<Rightarrow>
    ('c channel \<Rightarrow> 'c option) \<Rightarrow> ('c, 'z) poller_op" where
  "call_back exec cond sel_cb p w =
     with_chan p w (\<lambda>c.
       if cond c then (case sel_cb c of None \<Rightarrow> Inr w | Some cb \<Rightarrow> exec cb w) else Inr w)"

definition handleEventWithGuard :: "('c \<Rightarrow> ('c, 'z) world \<Rightarrow> ('c, 'z) world res) \<Rightarrow> ('c, 'z) poller_op" where
  "handleEventWithGuard exec p w =
     with_chan p w (\<lambda>_.
     bind_res (call_back exec (\<lambda>c. ch_revents c AND kCloseEvent \<noteq> 0 \<and> ch_revents c AND kReadEvent = 0) closeCallback p
                 (set_chan p (\<lambda>c. c\<lparr>ch_eventHandling := True\<rparr>) w)) (\<lambda>w.
     bind_res (call_back exec (\<lambda>c. ch_revents c AND kErrorEvent \<noteq> 0) errorCallback p w) (\<lambda>w.
     bind_res (call_back exec (\<lambda>c. ch_revents c AND kReadEvent \<noteq> 0) readCallback p w) (\<lambda>w.
     bind_res (call_back exec (\<lambda>c. ch_revents c AND kWriteEvent \<noteq> 0) writeCallback p w) (\<lambda>w.
     with_chan p w (\<lambda>_. Inr (set_chan p (\<lambda>c. c\<lparr>ch_eventHandling := False\<rparr>) w)))))))"

text \<open>\<open>alive\<close> tells whether the object behind a weak pointer still exists when it is locked.\<close>

definition handleEvent :: "(nat option \<Rightarrow> bool) \<Rightarrow> ('c \<Rightarrow> ('c, 'z) world \<Rightarrow> ('c, 'z) world res) \<Rightarrow> ('c, 'z) poller_op" where
  "handleEvent alive exec p w =
     with_chan p w (\<lambda>c.
       if ch_tied c then (if alive (ch_tie c) then handleEventWithGuard exec p w else Inr w)
       else handleEventWithGuard exec p w)"

text \<open>The loop over \<open>activeChannels_\<close> in \<open>EventLoop::loop\<close>, by index, since a callback may clear entries
  of the vector; then the two resets that follow it.\<close>

function dispatch_from :: "(nat option \<Rightarrow> bool) \<Rightarrow> ('c \<Rightarrow> ('c, 'z) world \<Rightarrow> ('c, 'z) world res) \<Rightarrow> nat \<Rightarrow> nat \<Rightarrow>
    ('c, 'z) world \<Rightarrow> ('c, 'z) world res" where
  "dispatch_from alive exec n i w =
     (if i \<ge> n then Inr w
      else case nth_opt i (activeChannels w) of
             None \<Rightarrow> Inl Out_of_bounds
           | Some None \<Rightarrow> dispatch_from alive exec n (Suc i) w
           | Some (Some p) \<Rightarrow>
               bind_res (handleEvent alive exec p (w\<lparr>currentActiveChannel := Some p\<rparr>))
                 (\<lambda>w. dispatch_from alive exec n (Suc i) w))"
  by auto
termination by (relation "measure (\<lambda>(_, _, n, i, _). n - i)") auto

definition dispatch :: "(nat option \<Rightarrow> bool) \<Rightarrow> ('c \<Rightarrow> ('c, 'z) world \<Rightarrow> ('c, 'z) world res) \<Rightarrow>
    ('c, 'z) world \<Rightarrow> ('c, 'z) world res" where
  "dispatch alive exec w =
     bind_res (dispatch_from alive exec (length (activeChannels w)) 0 (w\<lparr>loopEventHandling := True\<rparr>))
       (\<lambda>w. Inr (w\<lparr>currentActiveChannel := None, loopEventHandling := False\<rparr>))"


section \<open>EPollPoller\<close>

definition kNew :: int where "kNew = -1"
definition kAdded :: int where "kAdded = 1"
definition kDeleted :: int where "kDeleted = 2"
definition kInitEventListSize :: nat where "kInitEventListSize = 16"

datatype epoll_ctl_op = EPOLL_CTL_ADD | EPOLL_CTL_DEL | EPOLL_CTL_MOD

definition EPOLLIN :: u32 where "EPOLLIN = 0x001"
definition EPOLLPRI :: u32 where "EPOLLPRI = 0x002"
definition EPOLLOUT :: u32 where "EPOLLOUT = 0x004"
definition EPOLLERR :: u32 where "EPOLLERR = 0x008"
definition EPOLLHUP :: u32 where "EPOLLHUP = 0x010"
definition EPOLLRDHUP :: u32 where "EPOLLRDHUP = 0x2000"

type_synonym epoll_interest = "int \<rightharpoonup> u32 \<times> nat"
type_synonym epoll_ctl_fun = "epoll_interest \<Rightarrow> epoll_ctl_op \<Rightarrow> int \<Rightarrow> u32 \<times> nat \<Rightarrow> int \<times> epoll_interest"

datatype wait_result = WEvents "(u32 \<times> nat) list" | WError int

definition EINTR :: int where "EINTR = 4"

record 'c epoll_reactor = "'c reactor" +
  interest :: epoll_interest
  eventListSize :: nat

type_synonym ('c, 'z) eworld = "('c, 'z) epoll_reactor_scheme"

text \<open>A reactor without channels, as \<open>EPollPoller::EPollPoller\<close> and the loop leave it.\<close>

definition EPollPoller :: "'c epoll_reactor" where
  "EPollPoller = \<lparr>cheap = Map.empty, channels = Map.empty, activeChannels = [], currentActiveChannel = None,
     loopEventHandling = False, interest = Map.empty, eventListSize = kInitEventListSize\<rparr>"

definition toEpollEvents :: "u32 \<Rightarrow> u32" where
  "toEpollEvents events =
     (let epollEvents = 0;
          epollEvents = (if events AND kReadEvent \<noteq> 0 then epollEvents OR (EPOLLIN OR EPOLLPRI) else epollEvents);
          epollEvents = (if events AND kWriteEvent \<noteq> 0 then epollEvents OR EPOLLOUT else epollEvents)
      in epollEvents)"

definition fromEpollEvents :: "u32 \<Rightarrow> u32" where
  "fromEpollEvents events =
     (let channelEvents = 0;
          channelEvents = (if events AND (EPOLLIN OR EPOLLPRI) \<noteq> 0 then channelEvents OR kReadEvent else channelEvents);
          channelEvents = (if events AND EPOLLOUT \<noteq> 0 then channelEvents OR kWriteEvent else channelEvents);
          channelEvents = (if events AND EPOLLERR \<noteq> 0 then channelEvents OR kErrorEvent else channelEvents);
          channelEvents = (if events AND (EPOLLHUP OR EPOLLRDHUP) \<noteq> 0 then channelEvents OR kCloseEvent else channelEvents)
      in channelEvents)"

definition epoll_update :: "epoll_ctl_fun \<Rightarrow> epoll_ctl_op \<Rightarrow> nat \<Rightarrow> ('c, 'z) eworld \<Rightarrow> ('c, 'z) eworld res" where
  "epoll_update ctl operation p w =
     with_chan p w (\<lambda>c.
       let event = (toEpollEvents (ch_events c), p);
           (r, ks) = ctl (interest w) operation (ch_fd c) event
       in if r < 0 then Inl (Fatal ''epoll_ctl'') else Inr (w\<lparr>interest := ks\<rparr>))"

definition epoll_updateChannel :: "epoll_ctl_fun \<Rightarrow> nat \<Rightarrow> ('c, 'z) eworld \<Rightarrow> ('c, 'z) eworld res" where
  "epoll_updateChannel ctl p w =
     with_chan p w (\<lambda>c.
       let index = ch_index c; fd = ch_fd c
       in if index = kNew \<or> index = kDeleted then
            let w = (if index = kNew then w\<lparr>channels := (channels w)(fd \<mapsto> p)\<rparr> else w);
                w = set_chan p (\<lambda>c. c\<lparr>ch_index := kAdded\<rparr>) w
            in epoll_update ctl EPOLL_CTL_ADD p w
          else if isNoneEvent c then
            bind_res (epoll_update ctl EPOLL_CTL_DEL p w) (\<lambda>w. Inr (set_chan p (\<lambda>c. c\<lparr>ch_index := kDeleted\<rparr>) w))
          else epoll_update ctl EPOLL_CTL_MOD p w)"

definition epoll_removeChannel :: "epoll_ctl_fun \<Rightarrow> nat \<Rightarrow> ('c, 'z) eworld \<Rightarrow> ('c, 'z) eworld res" where
  "epoll_removeChannel ctl p w =
     with_chan p w (\<lambda>c.
       let w = w\<lparr>channels := (channels w)(ch_fd c := None)\<rparr>
       in bind_res (if ch_index c = kAdded then epoll_update ctl EPOLL_CTL_DEL p w else Inr w)
            (\<lambda>w. Inr (set_chan p (\<lambda>c. c\<lparr>ch_index := kNew\<rparr>) w)))"

fun fillActiveChannels :: "(u32 \<times> nat) list \<Rightarrow> ('c, 'z) world \<Rightarrow> ('c, 'z) world res" where
  "fillActiveChannels [] w = Inr w"
| "fillActiveChannels ((ev, p) # evs) w =
     with_chan p w (\<lambda>_.
       let w = set_chan p (\<lambda>c. c\<lparr>ch_revents := fromEpollEvents ev\<rparr>) w
       in fillActiveChannels evs (w\<lparr>activeChannels := activeChannels w @ [Some p]\<rparr>))"

definition epoll_poll :: "(epoll_interest \<Rightarrow> nat \<Rightarrow> int \<Rightarrow> wait_result) \<Rightarrow> int \<Rightarrow> ('c, 'z) eworld \<Rightarrow> ('c, 'z) eworld res" where
  "epoll_poll wait timeoutMs w =
     (case wait (interest w) (eventListSize w) timeoutMs of
        WEvents evs \<Rightarrow>
          if length evs > 0
          then bind_res (fillActiveChannels evs w) (\<lambda>w.
                 Inr (if length evs = eventListSize w then w\<lparr>eventListSize := eventListSize w * 2\<rparr> else w))
          else Inr w
      | WError errno \<Rightarrow> if errno \<noteq> EINTR then Inl (Fatal ''epoll_wait'') else Inr w)"

text \<open>Documented behaviour of the two system calls (epoll\_ctl(2), epoll\_wait(2)): on a valid descriptor
  \<open>EPOLL_CTL_ADD\<close> registers one that is not registered, \<open>MOD\<close> and \<open>DEL\<close> act on a registered one; \<open>wait\<close>
  reports at most \<open>maxevents\<close> registered entries, each at most once, with requested events and the
  always reported \<open>EPOLLERR\<close> and \<open>EPOLLHUP\<close>.\<close>

definition epoll_ctl_spec :: "epoll_ctl_fun \<Rightarrow> bool" where
  "epoll_ctl_spec ctl \<longleftrightarrow>
     (\<forall>ks fd ev. ks fd = None \<longrightarrow> ctl ks EPOLL_CTL_ADD fd ev = (0, ks(fd \<mapsto> ev))) \<and>
     (\<forall>ks fd ev. ks fd \<noteq> None \<longrightarrow> ctl ks EPOLL_CTL_MOD fd ev = (0, ks(fd \<mapsto> ev))) \<and>
     (\<forall>ks fd ev. ks fd \<noteq> None \<longrightarrow> ctl ks EPOLL_CTL_DEL fd ev = (0, ks(fd := None))) \<and>
     (\<forall>ks fd ev. ks fd \<noteq> None \<longrightarrow> ctl ks EPOLL_CTL_ADD fd ev = (-1, ks))"

definition epoll_wait_spec :: "(epoll_interest \<Rightarrow> nat \<Rightarrow> int \<Rightarrow> wait_result) \<Rightarrow> bool" where
  "epoll_wait_spec wait \<longleftrightarrow>
     (\<forall>ks n timeoutMs evs. wait ks n timeoutMs = WEvents evs \<longrightarrow>
        length evs \<le> n \<and> distinct (map snd evs) \<and>
        (\<forall>(ev, p) \<in> set evs. \<exists>fd req. ks fd = Some (req, p) \<and> ev AND NOT (req OR EPOLLERR OR EPOLLHUP) = 0))"

text \<open>A kernel that behaves so.\<close>

definition epoll_ctl :: epoll_ctl_fun where
  "epoll_ctl ks operation fd ev =
     (case operation of
        EPOLL_CTL_ADD \<Rightarrow> if ks fd = None then (0, ks(fd \<mapsto> ev)) else (-1, ks)
      | EPOLL_CTL_MOD \<Rightarrow> if ks fd = None then (-1, ks) else (0, ks(fd \<mapsto> ev))
      | EPOLL_CTL_DEL \<Rightarrow> if ks fd = None then (-1, ks) else (0, ks(fd := None)))"

section \<open>SelectPoller\<close>

type_synonym fd_set = "int list"

datatype select_result = SReady fd_set fd_set fd_set | STimeout | SError int

definition FD_SETSIZE :: nat where "FD_SETSIZE = 1024"

text \<open>The seconds and microseconds of a \<open>timeval\<close>; C++ division truncates, and the operand is not
  negative.\<close>

definition toTimeval :: "int \<Rightarrow> int \<times> int" where
  "toTimeval timeoutMs =
     (let timeoutMs = (if timeoutMs < 0 then 0 else timeoutMs) in (timeoutMs div 1000, (timeoutMs mod 1000) * 1000))"

text \<open>The loop over \<open>channels_\<close>, in the order \<open>order\<close> of the hash table, that fills the three sets.\<close>

fun build_sets :: "int list \<Rightarrow> ('c, 'z) world \<Rightarrow> (fd_set \<times> fd_set \<times> fd_set) \<Rightarrow> (fd_set \<times> fd_set \<times> fd_set) res" where
  "build_sets [] w sets = Inr sets"
| "build_sets (fd # fds) w (rs, ws, es) =
     (case channels w fd of None \<Rightarrow> build_sets fds w (rs, ws, es)
      | Some p \<Rightarrow> with_chan p w (\<lambda>c.
          if ch_index c \<noteq> kAdded \<or> isNoneEvent c then build_sets fds w (rs, ws, es)
          else build_sets fds w
                 (if ch_events c AND kReadEvent \<noteq> 0 then fd # rs else rs,
                  if ch_events c AND kWriteEvent \<noteq> 0 then fd # ws else ws,
                  fd # es)))"

fun select_fillActiveChannels :: "int list \<Rightarrow> fd_set \<Rightarrow> fd_set \<Rightarrow> fd_set \<Rightarrow> ('c, 'z) world \<Rightarrow> ('c, 'z) world res" where
  "select_fillActiveChannels [] rs ws es w = Inr w"
| "select_fillActiveChannels (fd # fds) rs ws es w =
     (case channels w fd of None \<Rightarrow> select_fillActiveChannels fds rs ws es w
      | Some p \<Rightarrow>
         let revents = kNoneEvent;
             revents = (if fd \<in> set rs then revents OR kReadEvent else revents);
             revents = (if fd \<in> set ws then revents OR kWriteEvent else revents);
             revents = (if fd \<in> set es then revents OR kErrorEvent else revents)
         in if revents \<noteq> kNoneEvent
            then with_chan p w (\<lambda>_.
                   let w = set_chan p (\<lambda>c. c\<lparr>ch_revents := revents\<rparr>) w
                   in select_fillActiveChannels fds rs ws es (w\<lparr>activeChannels := activeChannels w @ [Some p]\<rparr>))
            else select_fillActiveChannels fds rs ws es w)"

definition select_poll :: "(fd_set \<Rightarrow> fd_set \<Rightarrow> fd_set \<Rightarrow> int \<times> int \<Rightarrow> select_result) \<Rightarrow> (int \<Rightarrow> bool) \<Rightarrow> int list \<Rightarrow> int \<Rightarrow>
    ('c, 'z) world \<Rightarrow> ('c, 'z) world res" where
  "select_poll sel isInterrupted order timeoutMs w =
     (if order = [] then Inr w
      else if length order > FD_SETSIZE then Inl (Fatal ''SelectPoller supports at most FD_SETSIZE channels'')
      else bind_res (build_sets order w ([], [], [])) (\<lambda>(rs, ws, es).
        case sel rs ws es (toTimeval timeoutMs) of
          SReady rs ws es \<Rightarrow> select_fillActiveChannels order rs ws es w
        | STimeout \<Rightarrow> Inr w
        | SError e \<Rightarrow> if \<not> isInterrupted e then Inl (Fatal ''select'') else Inr w))"

definition select_updateChannel :: "nat \<Rightarrow> ('c, 'z) world \<Rightarrow> ('c, 'z) world res" where
  "select_updateChannel p w =
     with_chan p w (\<lambda>c.
       let w = (if ch_index c = kNew then w\<lparr>channels := (channels w)(ch_fd c \<mapsto> p)\<rparr> else w)
       in if isNoneEvent c then Inr (set_chan p (\<lambda>c. c\<lparr>ch_index := kDeleted\<rparr>) w)
          else Inr (set_chan p (\<lambda>c. c\<lparr>ch_index := kAdded\<rparr>) w))"

definition select_removeChannel :: "nat \<Rightarrow> ('c, 'z) world \<Rightarrow> ('c, 'z) world res" where
  "select_removeChannel p w =
     with_chan p w (\<lambda>c. Inr (set_chan p (\<lambda>c. c\<lparr>ch_index := kNew\<rparr>) (w\<lparr>channels := (channels w)(ch_fd c := None)\<rparr>)))"


section \<open>Scripts over the public interface of Channel\<close>

text \<open>What the code above the reactor does with channels, on the owner thread: construction at a fresh
  address, the setters, the subscriptions, removal and destruction.\<close>

datatype 'c chan_op =
    NewChan nat int
  | SetRead nat 'c
  | SetWrite nat 'c
  | SetClose nat 'c
  | SetError nat 'c
  | Tie nat nat
  | EnableReading nat
  | DisableReading nat
  | EnableWriting nat
  | DisableWriting nat
  | DisableAll nat
  | RemoveChan nat
  | DestroyChan nat

fun do_chan_op :: "('c, 'z) poller_op \<Rightarrow> ('c, 'z) poller_op \<Rightarrow> 'c chan_op \<Rightarrow> ('c, 'z) world \<Rightarrow> ('c, 'z) world res" where
  "do_chan_op upd rem (NewChan p fd) w = Inr (w\<lparr>cheap := (cheap w)(p \<mapsto> Channel fd)\<rparr>)"
| "do_chan_op upd rem (SetRead p cb) w = with_chan p w (\<lambda>_. Inr (set_chan p (setReadCallback cb) w))"
| "do_chan_op upd rem (SetWrite p cb) w = with_chan p w (\<lambda>_. Inr (set_chan p (setWriteCallback cb) w))"
| "do_chan_op upd rem (SetClose p cb) w = with_chan p w (\<lambda>_. Inr (set_chan p (setCloseCallback cb) w))"
| "do_chan_op upd rem (SetError p cb) w = with_chan p w (\<lambda>_. Inr (set_chan p (setErrorCallback cb) w))"
| "do_chan_op upd rem (Tie p obj) w = with_chan p w (\<lambda>_. Inr (set_chan p (tie obj) w))"
| "do_chan_op upd rem (EnableReading p) w = enableReading True upd p w"
| "do_chan_op upd rem (DisableReading p) w = disableReading True upd p w"
| "do_chan_op upd rem (EnableWriting p) w = enableWriting True upd p w"
| "do_chan_op upd rem (DisableWriting p) w = disableWriting True upd p w"
| "do_chan_op upd rem (DisableAll p) w = disableAll True upd p w"
| "do_chan_op upd rem (RemoveChan p) w = remove_chan True rem p w"
| "do_chan_op upd rem (DestroyChan p) w = destroy_chan p w"

fun chan_run :: "('c, 'z) poller_op \<Rightarrow> ('c, 'z) poller_op \<Rightarrow> 'c chan_op list \<Rightarrow> ('c, 'z) world \<Rightarrow> ('c, 'z) world res" where
  "chan_run upd rem [] w = Inr w"
| "chan_run upd rem (a # as) w = bind_res (do_chan_op upd rem a w) (chan_run upd rem as)"

fun op_chan :: "'c chan_op \<Rightarrow> nat" where
  "op_chan (NewChan p fd) = p"
| "op_chan (SetRead p cb) = p"
| "op_chan (SetWrite p cb) = p"
| "op_chan (SetClose p cb) = p"
| "op_chan (SetError p cb) = p"
| "op_chan (Tie p obj) = p"
| "op_chan (EnableReading p) = p"
| "op_chan (DisableReading p) = p"
| "op_chan (EnableWriting p) = p"
| "op_chan (DisableWriting p) = p"
| "op_chan (DisableAll p) = p"
| "op_chan (RemoveChan p) = p"
| "op_chan (DestroyChan p) = p"

text \<open>The effect of an operation on the events of its channel, for the operations that subscribe.\<close>

fun op_events :: "'c chan_op \<Rightarrow> (u32 \<Rightarrow> u32) option" where
  "op_events (EnableReading p) = Some (\<lambda>e. e OR kReadEvent)"
| "op_events (DisableReading p) = Some (\<lambda>e. e AND NOT kReadEvent)"
| "op_events (EnableWriting p) = Some (\<lambda>e. e OR kWriteEvent)"
| "op_events (DisableWriting p) = Some (\<lambda>e. e AND NOT kWriteEvent)"
| "op_events (DisableAll p) = Some (\<lambda>e. kNoneEvent)"
| "op_events _ = None"

text \<open>The rules of use: a fresh address for a new channel, one registered channel per descriptor, no
  subscriptions left at removal, removal before destruction, and no destruction of a channel by its
  own callback.\<close>

definition op_ok :: "'c chan_op \<Rightarrow> ('c, 'z) world \<Rightarrow> bool" where
  "op_ok a w =
     (case a of
        NewChan p fd \<Rightarrow> cheap w p = None
      | _ \<Rightarrow> (case cheap w (op_chan a) of
               None \<Rightarrow> False
             | Some c \<Rightarrow>
                 (op_events a \<noteq> None \<longrightarrow> ch_index c = kNew \<longrightarrow> channels w (ch_fd c) = None) \<and>
                 (case a of
                    RemoveChan p \<Rightarrow> isNoneEvent c \<and> (channels w (ch_fd c) = None \<or> channels w (ch_fd c) = Some p)
                  | DestroyChan p \<Rightarrow> \<not> ch_eventHandling c \<and> \<not> ch_addedToLoop c
                  | _ \<Rightarrow> True)))"

fun ops_ok :: "('c, 'z) poller_op \<Rightarrow> ('c, 'z) poller_op \<Rightarrow> 'c chan_op list \<Rightarrow> ('c, 'z) world \<Rightarrow> bool" where
  "ops_ok upd rem [] w = True"
| "ops_ok upd rem (a # as) w =
     (op_ok a w \<and> (case do_chan_op upd rem a w of Inl e \<Rightarrow> True | Inr w' \<Rightarrow> ops_ok upd rem as w'))"

section \<open>What a poller promises\<close>

definition chan_ok :: "('c, 'z) world \<Rightarrow> nat \<Rightarrow> 'c channel \<Rightarrow> bool" where
  "chan_ok w p c \<longleftrightarrow>
     ch_index c \<in> {kNew, kAdded, kDeleted} \<and> (ch_index c \<noteq> kNew \<longleftrightarrow> channels w (ch_fd c) = Some p) \<and>
     (ch_addedToLoop c \<longleftrightarrow> ch_index c \<noteq> kNew) \<and> (ch_index c = kNew \<longrightarrow> ch_events c = kNoneEvent)"

definition reg_inv :: "('c, 'z) world \<Rightarrow> bool" where
  "reg_inv w \<longleftrightarrow>
     (\<forall>p c. cheap w p = Some c \<longrightarrow> chan_ok w p c) \<and>
     (\<forall>fd p. channels w fd = Some p \<longrightarrow> (\<exists>c. cheap w p = Some c \<and> ch_fd c = fd))"

definition same_reg :: "'c channel \<Rightarrow> 'c channel \<Rightarrow> bool" where
  "same_reg c c' \<longleftrightarrow> ch_fd c' = ch_fd c \<and> ch_events c' = ch_events c \<and> ch_index c' = ch_index c \<and>
     ch_addedToLoop c' = ch_addedToLoop c"

text \<open>The abstract state of a poller: which channel is registered for a descriptor, with which events.\<close>

definition registrations :: "('c, 'z) world \<Rightarrow> (int \<rightharpoonup> nat \<times> u32)" where
  "registrations w fd = (case channels w fd of None \<Rightarrow> None | Some p \<Rightarrow> map_option (\<lambda>c. (p, ch_events c)) (cheap w p))"

definition reg_op :: "'c chan_op \<Rightarrow> int \<Rightarrow> (int \<rightharpoonup> nat \<times> u32) \<Rightarrow> (int \<rightharpoonup> nat \<times> u32)" where
  "reg_op a fd r =
     (case op_events a of
        Some f \<Rightarrow> r(fd \<mapsto> (op_chan a, f (case r fd of None \<Rightarrow> kNoneEvent | Some (p, e) \<Rightarrow> e)))
      | None \<Rightarrow> (case a of RemoveChan p \<Rightarrow> r(fd := None) | _ \<Rightarrow> r))"

definition op_fd :: "'c chan_op \<Rightarrow> ('c, 'z) world \<Rightarrow> int" where
  "op_fd a w = (case cheap w (op_chan a) of None \<Rightarrow> 0 | Some c \<Rightarrow> ch_fd c)"

text \<open>During dispatch, every channel still to be visited is registered.\<close>

definition active_ok :: "('c, 'z) world \<Rightarrow> bool" where
  "active_ok w \<longleftrightarrow> (loopEventHandling w \<longrightarrow> (\<forall>p. Some p \<in> set (activeChannels w) \<longrightarrow> hasChannel p w))"

definition same_dispatch :: "('c, 'z) world \<Rightarrow> ('c, 'z) world \<Rightarrow> bool" where
  "same_dispatch w w' \<longleftrightarrow> activeChannels w' = activeChannels w \<and> loopEventHandling w' = loopEventHandling w \<and>
     currentActiveChannel w' = currentActiveChannel w"

definition keeps_handling :: "('c, 'z) world \<Rightarrow> ('c, 'z) world \<Rightarrow> bool" where
  "keeps_handling w w' \<longleftrightarrow>
     (\<forall>p c. cheap w p = Some c \<longrightarrow> ch_eventHandling c \<longrightarrow> (\<exists>c'. cheap w' p = Some c' \<and> ch_eventHandling c'))"

lemma keeps_handling_refl [simp]: "keeps_handling w w"
  by (simp add: keeps_handling_def)

lemma keeps_handling_trans: "keeps_handling w w1 \<Longrightarrow> keeps_handling w1 w2 \<Longrightarrow> keeps_handling w w2"
  unfolding keeps_handling_def by blast

lemma with_chan_Some [simp]: "cheap w p = Some c \<Longrightarrow> with_chan p w f = f c"
  by (simp add: with_chan_def)

lemma set_chan_Some: "cheap w p = Some c \<Longrightarrow> set_chan p f w = w\<lparr>cheap := (cheap w)(p \<mapsto> f c)\<rparr>"
  by (simp add: set_chan_def)

lemma set_chan_simps [simp]:
  "channels (set_chan p f w) = channels w"
  "activeChannels (set_chan p f w) = activeChannels w"
  "loopEventHandling (set_chan p f w) = loopEventHandling w"
  "currentActiveChannel (set_chan p f w) = currentActiveChannel w"
  "cheap (set_chan p f w) r = (if r = p then map_option f (cheap w p) else cheap w r)"
  by (simp_all add: set_chan_def)

lemma assertInLoopThread_True [simp]: "assertInLoopThread True = Inr ()"
  by (simp add: assertInLoopThread_def)

lemma do_chan_op_events:
  "op_events a = Some f \<Longrightarrow> do_chan_op upd rem a w =
     update True upd (op_chan a) (set_chan (op_chan a) (\<lambda>c. c\<lparr>ch_events := f (ch_events c)\<rparr>) w)"
  by (cases a) (auto simp: enableReading_def disableReading_def enableWriting_def disableWriting_def disableAll_def)

lemma registrations_reg:
  assumes "reg_inv w" "cheap w p = Some c"
  shows "registrations w (ch_fd c) = (if ch_index c = kNew then registrations w (ch_fd c) else Some (p, ch_events c))"
  using assms by (auto simp: reg_inv_def chan_ok_def registrations_def)

lemma hasChannel_iff: "hasChannel p w \<longleftrightarrow> (\<exists>c. cheap w p = Some c \<and> channels w (ch_fd c) = Some p)"
  by (simp add: hasChannel_def split: option.splits)

lemma registrations_cong:
  assumes "channels w' fd = channels w fd"
    and "\<And>p. channels w fd = Some p \<Longrightarrow> map_option ch_events (cheap w' p) = map_option ch_events (cheap w p)"
  shows "registrations w' fd = registrations w fd"
proof (cases "channels w fd")
  case (Some p)
  have "map_option (\<lambda>c. (p, ch_events c)) x = map_option (Pair p) (map_option ch_events x)" for x :: "('x channel) option"
    by (cases x) auto
  then show ?thesis using assms(1) assms(2)[OF Some] Some by (cases "cheap w p"; cases "cheap w' p") (auto simp: registrations_def)
qed (simp add: assms registrations_def)

lemma reg_fd_unique: "reg_inv w \<Longrightarrow> cheap w p = Some c \<Longrightarrow> channels w fd = Some p \<Longrightarrow> fd = ch_fd c"
  by (fastforce simp: reg_inv_def)

text \<open>The setters, as one class of operations.\<close>

fun op_setter :: "'c chan_op \<Rightarrow> ('c channel \<Rightarrow> 'c channel) option" where
  "op_setter (SetRead p cb) = Some (setReadCallback cb)"
| "op_setter (SetWrite p cb) = Some (setWriteCallback cb)"
| "op_setter (SetClose p cb) = Some (setCloseCallback cb)"
| "op_setter (SetError p cb) = Some (setErrorCallback cb)"
| "op_setter (Tie p obj) = Some (tie obj)"
| "op_setter _ = None"

lemma op_setterD:
  assumes "op_setter a = Some f"
  shows "do_chan_op upd rem a w = with_chan (op_chan a) w (\<lambda>_. Inr (set_chan (op_chan a) f w))"
    and "same_reg c (f c)" and "ch_eventHandling (f c) = ch_eventHandling c" and "op_events a = None"
    and "reg_op a fd r = r" and "op_ok a w \<longleftrightarrow> cheap w (op_chan a) \<noteq> None"
  using assms by (cases a; auto simp: same_reg_def setReadCallback_def setWriteCallback_def setCloseCallback_def
    setErrorCallback_def tie_def reg_op_def op_ok_def split: option.splits)+

lemma chan_op_cases:
  obtains (events) f where "op_events a = Some f"
  | (setter) f where "op_setter a = Some f"
  | (new) p fd where "a = NewChan p fd"
  | (remove) p where "a = RemoveChan p"
  | (destroy) p where "a = DestroyChan p"
  by (cases a) auto

locale poller =
  fixes upd :: "('c, 'z) poller_op" and rem :: "('c, 'z) poller_op" and pinv :: "('c, 'z) world \<Rightarrow> bool"
  assumes pinv_reg: "pinv w \<Longrightarrow> reg_inv w"
    and upd_law: "pinv w \<Longrightarrow> cheap w p = Some c \<Longrightarrow> (ch_index c = kNew \<Longrightarrow> channels w (ch_fd c) = None) \<Longrightarrow>
      \<exists>i w'. upd p (w\<lparr>cheap := (cheap w)(p \<mapsto> c\<lparr>ch_events := e, ch_addedToLoop := True\<rparr>)\<rparr>) = Inr w' \<and> pinv w' \<and>
        same_dispatch w w' \<and> channels w' = (channels w)(ch_fd c \<mapsto> p) \<and>
        cheap w' = (cheap w)(p \<mapsto> c\<lparr>ch_events := e, ch_addedToLoop := True, ch_index := i\<rparr>)"
    and rem_law: "pinv w \<Longrightarrow> cheap w p = Some c \<Longrightarrow> isNoneEvent c \<Longrightarrow>
      channels w (ch_fd c) = None \<or> channels w (ch_fd c) = Some p \<Longrightarrow>
      \<exists>w'. rem p (w\<lparr>cheap := (cheap w)(p \<mapsto> c\<lparr>ch_addedToLoop := False\<rparr>)\<rparr>) = Inr w' \<and> pinv w' \<and>
        same_dispatch w w' \<and> channels w' = (channels w)(ch_fd c := None) \<and>
        cheap w' = (cheap w)(p \<mapsto> c\<lparr>ch_addedToLoop := False, ch_index := kNew\<rparr>)"
    and new_law: "pinv w \<Longrightarrow> cheap w p = None \<Longrightarrow> pinv (w\<lparr>cheap := (cheap w)(p \<mapsto> Channel fd)\<rparr>)"
    and destroy_law: "pinv w \<Longrightarrow> cheap w p = Some c \<Longrightarrow> ch_index c = kNew \<Longrightarrow> pinv (w\<lparr>cheap := (cheap w)(p := None)\<rparr>)"
    and set_law: "pinv w \<Longrightarrow> cheap w p = Some c \<Longrightarrow> same_reg c c' \<Longrightarrow> pinv (w\<lparr>cheap := (cheap w)(p \<mapsto> c')\<rparr>)"
    and dispatch_law: "pinv w \<Longrightarrow>
      pinv (w\<lparr>activeChannels := acs\<rparr>) \<and> pinv (w\<lparr>currentActiveChannel := cur\<rparr>) \<and> pinv (w\<lparr>loopEventHandling := b\<rparr>)"
begin

text \<open>One operation that follows the rules succeeds, keeps the invariants and acts on the registrations
  as the abstract operation.\<close>

definition op_result :: "'c chan_op \<Rightarrow> ('c, 'z) world \<Rightarrow> ('c, 'z) world \<Rightarrow> bool" where
  "op_result a w w' \<longleftrightarrow> pinv w' \<and> active_ok w' \<and> registrations w' = reg_op a (op_fd a w) (registrations w) \<and>
     loopEventHandling w' = loopEventHandling w \<and> length (activeChannels w') = length (activeChannels w) \<and>
     keeps_handling w w'"

lemma events_result:
  assumes inv: "pinv w" "active_ok w" and ok: "op_ok a w" and f: "op_events a = Some f"
  shows "\<exists>w'. do_chan_op upd rem a w = Inr w' \<and> op_result a w w'"
proof -
  let ?p = "op_chan a"
  obtain c where c: "cheap w ?p = Some c" "ch_index c = kNew \<Longrightarrow> channels w (ch_fd c) = None"
    using ok f by (cases a) (auto simp: op_ok_def split: option.splits)
  have reg: "reg_inv w" by (rule pinv_reg[OF inv(1)])
  obtain i w' where w': "upd ?p (w\<lparr>cheap := (cheap w)(?p \<mapsto> c\<lparr>ch_events := f (ch_events c), ch_addedToLoop := True\<rparr>)\<rparr>) = Inr w'"
    "pinv w'" "same_dispatch w w'" "channels w' = (channels w)(ch_fd c \<mapsto> ?p)"
    "cheap w' = (cheap w)(?p \<mapsto> c\<lparr>ch_events := f (ch_events c), ch_addedToLoop := True, ch_index := i\<rparr>)"
    using upd_law[OF inv(1) c] by blast
  have run: "do_chan_op upd rem a w = Inr w'"
    using c(1) w'(1) by (simp add: do_chan_op_events[OF f] update_def EventLoop_updateChannel_def set_chan_Some)
  have old: "(case registrations w (ch_fd c) of None \<Rightarrow> kNoneEvent | Some (p, e) \<Rightarrow> e) = ch_events c"
    using reg c by (cases "ch_index c = kNew") (auto simp: reg_inv_def chan_ok_def registrations_def)
  have "registrations w' = reg_op a (op_fd a w) (registrations w)"
  proof
    fix fd
    show "registrations w' fd = reg_op a (op_fd a w) (registrations w) fd"
    proof (cases "fd = ch_fd c")
      case True
      then show ?thesis using c(1) old by (simp add: registrations_def[of w'] w'(4,5) reg_op_def f op_fd_def)
    next
      case False
      then have "registrations w' fd = registrations w fd"
        using reg_fd_unique[OF reg c(1)] by (intro registrations_cong) (auto simp: w'(4,5))
      then show ?thesis using False c(1) by (simp add: reg_op_def f op_fd_def)
    qed
  qed
  moreover have "active_ok w'"
  proof -
    have "channels w (ch_fd c) = None \<or> channels w (ch_fd c) = Some ?p"
      using c reg by (cases "ch_index c = kNew") (auto simp: reg_inv_def chan_ok_def)
    then have "hasChannel r w \<Longrightarrow> hasChannel r w'" for r
      using c(1) by (cases "r = ?p") (auto simp: hasChannel_iff w'(4,5), (metis option.distinct(1) option.inject)+)
    then show ?thesis using inv(2) w'(3) by (simp add: active_ok_def same_dispatch_def)
  qed
  moreover have "keeps_handling w w'" using c(1) by (auto simp: keeps_handling_def w'(5))
  ultimately show ?thesis using run w'(2,3) by (auto simp: op_result_def same_dispatch_def)
qed

lemma setter_result:
  assumes inv: "pinv w" "active_ok w" and ok: "op_ok a w" and f: "op_setter a = Some f"
  shows "\<exists>w'. do_chan_op upd rem a w = Inr w' \<and> op_result a w w'"
proof -
  note F = op_setterD[OF f]
  obtain c where c: "cheap w (op_chan a) = Some c" using ok F(6) by auto
  let ?w = "w\<lparr>cheap := (cheap w)(op_chan a \<mapsto> f c)\<rparr>"
  have s: "same_reg c (f c)" by (rule F(2))
  have "pinv ?w" by (rule set_law[OF inv(1) c s])
  moreover have "registrations ?w = registrations w"
    using c s by (intro ext registrations_cong) (auto simp: same_reg_def)
  moreover have "active_ok ?w" using inv(2) c s by (auto simp: active_ok_def hasChannel_iff same_reg_def)
  ultimately show ?thesis
    using c F(3) by (auto simp: F(1,5) op_result_def set_chan_Some keeps_handling_def)
qed

lemma new_result:
  assumes inv: "pinv w" "active_ok w" and ok: "op_ok (NewChan p fd) w"
  shows "op_result (NewChan p fd) w (w\<lparr>cheap := (cheap w)(p \<mapsto> Channel fd)\<rparr>)"
proof -
  have c: "cheap w p = None" using ok by (simp add: op_ok_def)
  then have "channels w fd \<noteq> Some p" for fd using pinv_reg[OF inv(1)] by (fastforce simp: reg_inv_def)
  then have "registrations (w\<lparr>cheap := (cheap w)(p \<mapsto> Channel fd)\<rparr>) = registrations w"
    by (intro ext registrations_cong) auto
  moreover have "active_ok (w\<lparr>cheap := (cheap w)(p \<mapsto> Channel fd)\<rparr>)"
    using inv(2) c by (fastforce simp: active_ok_def hasChannel_iff)
  ultimately show ?thesis
    using new_law[OF inv(1) c] c by (auto simp: op_result_def reg_op_def keeps_handling_def)
qed

lemma remove_result:
  assumes inv: "pinv w" "active_ok w" and ok: "op_ok (RemoveChan p) w"
  shows "\<exists>w'. do_chan_op upd rem (RemoveChan p) w = Inr w' \<and> op_result (RemoveChan p) w w'"
proof -
  obtain c where c: "cheap w p = Some c" "isNoneEvent c" "channels w (ch_fd c) = None \<or> channels w (ch_fd c) = Some p"
    using ok by (auto simp: op_ok_def split: option.splits)
  have reg: "reg_inv w" by (rule pinv_reg[OF inv(1)])
  obtain w1 where w1: "rem p (w\<lparr>cheap := (cheap w)(p \<mapsto> c\<lparr>ch_addedToLoop := False\<rparr>)\<rparr>) = Inr w1" "pinv w1" "same_dispatch w w1"
    "channels w1 = (channels w)(ch_fd c := None)" "cheap w1 = (cheap w)(p \<mapsto> c\<lparr>ch_addedToLoop := False, ch_index := kNew\<rparr>)"
    using rem_law[OF inv(1) c] by blast
  define w' where "w' = (if loopEventHandling w1
      then w1\<lparr>activeChannels := map (\<lambda>a. if a = Some p then None else a) (activeChannels w1)\<rparr> else w1)"
  have run: "do_chan_op upd rem (RemoveChan p) w = Inr w'"
    using c w1(1) by (simp add: remove_chan_def EventLoop_removeChannel_def set_chan_Some w'_def)
  have other: "r \<noteq> p \<Longrightarrow> hasChannel r w \<Longrightarrow> hasChannel r w1" for r
    using c by (auto simp: hasChannel_iff w1(4,5)) (metis option.distinct(1) option.inject)+
  have "registrations w1 fd = reg_op (RemoveChan p) (op_fd (RemoveChan p) w) (registrations w) fd" for fd
  proof (cases "fd = ch_fd c")
    case False
    then have "registrations w1 fd = registrations w fd"
      using reg_fd_unique[OF reg c(1)] by (intro registrations_cong) (auto simp: w1(4,5))
    then show ?thesis using False c(1) by (simp add: reg_op_def op_fd_def)
  qed (simp add: c(1) reg_op_def op_fd_def registrations_def[of w1] w1(4))
  moreover have "registrations w' = registrations w1" by (intro ext registrations_cong) (simp_all add: w'_def)
  moreover have "active_ok w'"
    using inv(2) other w1(3)
    by (auto simp: w'_def active_ok_def same_dispatch_def hasChannel_iff split: if_splits)
  moreover have "pinv w'" using w1(2) dispatch_law by (simp add: w'_def)
  moreover have "keeps_handling w w'" using c(1) by (auto simp: keeps_handling_def w'_def w1(5))
  ultimately show ?thesis using run w1(3) by (auto simp: op_result_def same_dispatch_def w'_def)
qed

lemma destroy_result:
  assumes inv: "pinv w" "active_ok w" and ok: "op_ok (DestroyChan p) w"
  shows "\<exists>w'. do_chan_op upd rem (DestroyChan p) w = Inr w' \<and> op_result (DestroyChan p) w w'"
proof -
  obtain c where c: "cheap w p = Some c" "\<not> ch_eventHandling c" "\<not> ch_addedToLoop c"
    using ok by (auto simp: op_ok_def split: option.splits)
  let ?w = "w\<lparr>cheap := (cheap w)(p := None)\<rparr>"
  have reg: "reg_inv w" by (rule pinv_reg[OF inv(1)])
  then have new: "ch_index c = kNew" using c by (auto simp: reg_inv_def chan_ok_def)
  have unr: "channels w fd \<noteq> Some p" for fd
    using reg c new by (fastforce simp: reg_inv_def chan_ok_def)
  have "registrations ?w = registrations w"
    using unr by (intro ext registrations_cong) auto
  moreover have "active_ok ?w" using inv(2) c unr by (auto simp: active_ok_def hasChannel_iff)
  ultimately show ?thesis
    using c destroy_law[OF inv(1) c(1) new] by (auto simp: destroy_chan_def op_result_def reg_op_def keeps_handling_def)
qed

lemma op_correct:
  assumes "pinv w" "active_ok w" "op_ok a w"
  shows "\<exists>w'. do_chan_op upd rem a w = Inr w' \<and> op_result a w w'"
  using assms new_result remove_result destroy_result events_result setter_result
  by (cases a rule: chan_op_cases) auto

text \<open>Scripts: the run succeeds.\<close>

lemma run_correct:
  assumes "pinv w" "active_ok w" "ops_ok upd rem as w"
  shows "\<exists>w'. chan_run upd rem as w = Inr w' \<and> pinv w' \<and> active_ok w' \<and> loopEventHandling w' = loopEventHandling w \<and>
     length (activeChannels w') = length (activeChannels w) \<and> keeps_handling w w'"
  using assms
proof (induction as arbitrary: w)
  case (Cons a as)
  have ok: "op_ok a w" using Cons.prems(3) by simp
  obtain w1 where w1: "do_chan_op upd rem a w = Inr w1" "op_result a w w1" using op_correct[OF Cons.prems(1,2) ok] by blast
  have i1: "pinv w1" "active_ok w1" "ops_ok upd rem as w1" using w1 Cons.prems(3) by (auto simp: op_result_def)
  show ?case
    using Cons.IH[OF i1] w1 by (auto simp: op_result_def intro: keeps_handling_trans)
qed simp

text \<open>Dispatch. \<open>exec\<close> is good when every callback succeeds from a state that keeps the invariants, and
  keeps them.\<close>

definition exec_ok :: "('c \<Rightarrow> ('c, 'z) world \<Rightarrow> ('c, 'z) world res) \<Rightarrow> bool" where
  "exec_ok exec \<longleftrightarrow> (\<forall>cb w. pinv w \<longrightarrow> active_ok w \<longrightarrow>
     (\<exists>w'. exec cb w = Inr w' \<and> pinv w' \<and> active_ok w' \<and> loopEventHandling w' = loopEventHandling w \<and>
        length (activeChannels w') = length (activeChannels w) \<and> keeps_handling w w'))"

definition handling_state :: "nat \<Rightarrow> nat \<Rightarrow> ('c, 'z) world \<Rightarrow> bool" where
  "handling_state n p w \<longleftrightarrow> pinv w \<and> active_ok w \<and> loopEventHandling w \<and> length (activeChannels w) = n \<and>
     (\<exists>c. cheap w p = Some c \<and> ch_eventHandling c)"

lemma call_back_ok:
  assumes "exec_ok exec" "handling_state n p w"
  shows "\<exists>w'. call_back exec cond sel_cb p w = Inr w' \<and> handling_state n p w'"
proof -
  obtain c where c: "cheap w p = Some c" "ch_eventHandling c" using assms(2) by (auto simp: handling_state_def)
  show ?thesis
  proof (cases "cond c \<and> sel_cb c \<noteq> None")
    case True
    then obtain cb where "call_back exec cond sel_cb p w = exec cb w" using c by (auto simp: call_back_def)
    moreover obtain w' where "exec cb w = Inr w'" "pinv w'" "active_ok w'" "loopEventHandling w' = loopEventHandling w"
      "length (activeChannels w') = length (activeChannels w)" "keeps_handling w w'"
      using assms unfolding exec_ok_def handling_state_def by blast
    ultimately show ?thesis using assms(2) c by (auto simp: handling_state_def keeps_handling_def)
  next
    case False
    then have "call_back exec cond sel_cb p w = Inr w" using c by (auto simp: call_back_def)
    then show ?thesis using assms(2) by simp
  qed
qed

lemma handleEventWithGuard_ok:
  assumes e: "exec_ok exec" and w: "pinv w" "active_ok w" "loopEventHandling w" "hasChannel p w"
  shows "\<exists>w'. handleEventWithGuard exec p w = Inr w' \<and> pinv w' \<and> active_ok w' \<and> loopEventHandling w' \<and>
     length (activeChannels w') = length (activeChannels w)"
proof -
  obtain c where c: "cheap w p = Some c" using w(4) by (auto simp: hasChannel_iff)
  let ?n = "length (activeChannels w)"
  let ?w0 = "set_chan p (\<lambda>c. c\<lparr>ch_eventHandling := True\<rparr>) w"
  have "pinv ?w0" using set_law[OF w(1) c] by (simp add: set_chan_Some[OF c] same_reg_def)
  moreover have "active_ok ?w0" using w(2) c by (auto simp: active_ok_def hasChannel_iff)
  ultimately have h0: "handling_state ?n p ?w0" using w(3) c by (simp add: handling_state_def)
  note cb = call_back_ok[OF e]
  obtain w1 where w1: "call_back exec (\<lambda>c. ch_revents c AND kCloseEvent \<noteq> 0 \<and> ch_revents c AND kReadEvent = 0) closeCallback p ?w0 = Inr w1"
    "handling_state ?n p w1" using cb[OF h0] by blast
  obtain w2 where w2: "call_back exec (\<lambda>c. ch_revents c AND kErrorEvent \<noteq> 0) errorCallback p w1 = Inr w2" "handling_state ?n p w2"
    using cb[OF w1(2)] by blast
  obtain w3 where w3: "call_back exec (\<lambda>c. ch_revents c AND kReadEvent \<noteq> 0) readCallback p w2 = Inr w3" "handling_state ?n p w3"
    using cb[OF w2(2)] by blast
  obtain w4 where w4: "call_back exec (\<lambda>c. ch_revents c AND kWriteEvent \<noteq> 0) writeCallback p w3 = Inr w4" "handling_state ?n p w4"
    using cb[OF w3(2)] by blast
  obtain c4 where c4: "cheap w4 p = Some c4" using w4(2) by (auto simp: handling_state_def)
  let ?w5 = "set_chan p (\<lambda>c. c\<lparr>ch_eventHandling := False\<rparr>) w4"
  have "pinv ?w5" using set_law[OF _ c4] w4(2) by (simp add: set_chan_Some[OF c4] same_reg_def handling_state_def)
  moreover have "active_ok ?w5" using w4(2) c4 by (auto simp: active_ok_def hasChannel_iff handling_state_def)
  moreover have "handleEventWithGuard exec p w = Inr ?w5"
    unfolding handleEventWithGuard_def with_chan_Some[OF c] w1(1) bind_res_simps w2(1) w3(1) w4(1) with_chan_Some[OF c4] ..
  ultimately show ?thesis using w4(2) by (auto simp: handling_state_def)
qed

lemma handleEvent_ok:
  assumes "exec_ok exec" "pinv w" "active_ok w" "loopEventHandling w" "hasChannel p w"
  shows "\<exists>w'. handleEvent alive exec p w = Inr w' \<and> pinv w' \<and> active_ok w' \<and> loopEventHandling w' \<and>
     length (activeChannels w') = length (activeChannels w)"
proof -
  obtain c where c: "cheap w p = Some c" using assms(5) by (auto simp: hasChannel_iff)
  then have "handleEvent alive exec p w = handleEventWithGuard exec p w \<or> handleEvent alive exec p w = Inr w"
    by (simp add: handleEvent_def)
  then show ?thesis using handleEventWithGuard_ok[OF assms] assms by auto
qed

lemma dispatch_from_ok:
  assumes e: "exec_ok exec"
  shows "pinv w \<Longrightarrow> active_ok w \<Longrightarrow> loopEventHandling w \<Longrightarrow> length (activeChannels w) = n \<Longrightarrow>
     \<exists>w'. dispatch_from alive exec n i w = Inr w' \<and> pinv w'"
proof (induction "n - i" arbitrary: i w)
  case (Suc k)
  then have nth: "nth_opt i (activeChannels w) = Some (activeChannels w ! i)" "k = n - Suc i" "i < n"
    by (auto simp: nth_opt_def)
  show ?case
  proof (cases "activeChannels w ! i")
    case None
    then show ?thesis using Suc.hyps(1)[OF nth(2) Suc.prems] nth by simp
  next
    case (Some p)
    let ?w = "w\<lparr>currentActiveChannel := Some p\<rparr>"
    have "hasChannel p w" using Suc.prems nth(3) Some unfolding active_ok_def by (metis nth_mem)
    then have "pinv ?w" "active_ok ?w" "loopEventHandling ?w" "hasChannel p ?w"
      using Suc.prems dispatch_law by (auto simp: active_ok_def hasChannel_iff)
    then obtain w' where w': "handleEvent alive exec p ?w = Inr w'" "pinv w'" "active_ok w'" "loopEventHandling w'"
      "length (activeChannels w') = n"
      using handleEvent_ok[OF e, of ?w p alive] Suc.prems(4) by auto
    then show ?thesis using Suc.hyps(1)[OF nth(2) w'(2-)] nth(1,3) Some by simp
  qed
qed simp

lemma dispatch_ok:
  assumes "exec_ok exec" "pinv w" "\<And>p. Some p \<in> set (activeChannels w) \<Longrightarrow> hasChannel p w"
  shows "\<exists>w'. dispatch alive exec w = Inr w' \<and> pinv w'"
proof -
  let ?w = "w\<lparr>loopEventHandling := True\<rparr>"
  have "active_ok ?w" using assms(3) by (auto simp: active_ok_def hasChannel_iff)
  then obtain w' where w': "dispatch_from alive exec (length (activeChannels w)) 0 ?w = Inr w'" "pinv w'"
    using dispatch_from_ok[OF assms(1), of ?w "length (activeChannels w)" alive 0] dispatch_law[OF assms(2)]
    by (auto simp del: dispatch_from.simps)
  have "pinv (w'\<lparr>currentActiveChannel := None, loopEventHandling := False\<rparr>)"
    using dispatch_law[OF dispatch_law[OF w'(2), THEN conjunct2, THEN conjunct1]] by simp
  then show ?thesis using w'(1) unfolding dispatch_def by (simp del: dispatch_from.simps)
qed

lemma exec_scripts_ok:
  assumes "\<And>cb w. pinv w \<Longrightarrow> active_ok w \<Longrightarrow> ops_ok upd rem (script cb w) w"
  shows "exec_ok (\<lambda>cb w. chan_run upd rem (script cb w) w)"
  unfolding exec_ok_def using run_correct assms by blast

end

section \<open>SelectPoller keeps the contract\<close>

definition select_inv :: "('c, 'z) world \<Rightarrow> bool" where
  "select_inv w \<longleftrightarrow> reg_inv w \<and>
     (\<forall>p c. cheap w p = Some c \<longrightarrow> ch_index c \<noteq> kNew \<longrightarrow> (ch_index c = kAdded \<longleftrightarrow> ch_events c \<noteq> kNoneEvent))"

lemma index_distinct [simp]: "kNew \<noteq> kAdded" "kAdded \<noteq> kNew" "kNew \<noteq> kDeleted" "kDeleted \<noteq> kNew" "kAdded \<noteq> kDeleted" "kDeleted \<noteq> kAdded"
  by (simp_all add: kNew_def kAdded_def kDeleted_def)

lemma Channel_simps [simp]: "ch_index (Channel fd) = kNew" "ch_events (Channel fd) = kNoneEvent" "\<not> ch_addedToLoop (Channel fd)"
  "ch_fd (Channel fd) = fd"
  by (simp_all add: Channel_def kNew_def)

lemma reg_inv_unregistered: "reg_inv w \<Longrightarrow> cheap w p = None \<Longrightarrow> channels w fd \<noteq> Some p"
  by (fastforce simp: reg_inv_def)

lemma reg_inv_set:
  assumes reg: "reg_inv w" and c: "cheap w p = Some c" and q: "channels w (ch_fd c) = None \<or> channels w (ch_fd c) = Some p"
    and w': "channels w' = (channels w)(ch_fd c := r)" "cheap w' = (cheap w)(p \<mapsto> c')" and fd: "ch_fd c' = ch_fd c"
    and r: "r = None \<or> r = Some p" and ok: "chan_ok w' p c'"
  shows "reg_inv w'"
  unfolding reg_inv_def
proof (intro conjI allI impI)
  fix a d assume d: "cheap w' a = Some d"
  show "chan_ok w' a d"
  proof (cases "a = p")
    case True
    then show ?thesis using d ok w'(2) by simp
  next
    case False
    then have "cheap w a = Some d" using d w'(2) by simp
    then have o: "chan_ok w a d" using reg by (simp add: reg_inv_def)
    have "channels w' (ch_fd d) = Some a \<longleftrightarrow> channels w (ch_fd d) = Some a"
      using q r False by (auto simp: w'(1))
    then show ?thesis using o by (simp add: chan_ok_def)
  qed
next
  fix g a assume g: "channels w' g = Some a"
  show "\<exists>d. cheap w' a = Some d \<and> ch_fd d = g"
  proof (cases "a = p")
    case True
    then show ?thesis using g reg_fd_unique[OF reg c] fd w' by (auto split: if_splits)
  next
    case False
    then have "channels w g = Some a" using g r w'(1) by (auto split: if_splits)
    then show ?thesis using reg False w'(2) by (auto simp: reg_inv_def)
  qed
qed

lemma reg_chan: "reg_inv w \<Longrightarrow> cheap w p = Some c \<Longrightarrow> chan_ok w p c"
  by (simp add: reg_inv_def)

lemma reg_fd_free:
  assumes "reg_inv w" "cheap w p = Some c" "ch_index c = kNew \<Longrightarrow> channels w (ch_fd c) = None"
  shows "channels w (ch_fd c) = None \<or> channels w (ch_fd c) = Some p"
  using assms(3) reg_chan[OF assms(1,2)] by (cases "ch_index c = kNew") (auto simp: chan_ok_def)

lemma reg_inv_upd:
  assumes "reg_inv w" "cheap w p = Some c" "ch_index c = kNew \<Longrightarrow> channels w (ch_fd c) = None" "i \<in> {kAdded, kDeleted}"
    and "channels w' = (channels w)(ch_fd c \<mapsto> p)"
    and "cheap w' = (cheap w)(p \<mapsto> c\<lparr>ch_events := e, ch_addedToLoop := True, ch_index := i\<rparr>)"
  shows "reg_inv w'"
  by (rule reg_inv_set[OF assms(1,2) reg_fd_free[OF assms(1-3)] assms(5,6)])
     (use assms(4) in \<open>auto simp: chan_ok_def assms(5)\<close>)

lemma reg_inv_rem:
  assumes "reg_inv w" "cheap w p = Some c" "isNoneEvent c" "channels w (ch_fd c) = None \<or> channels w (ch_fd c) = Some p"
    and "channels w' = (channels w)(ch_fd c := None)"
    and "cheap w' = (cheap w)(p \<mapsto> c\<lparr>ch_addedToLoop := False, ch_index := kNew\<rparr>)"
  shows "reg_inv w'"
  by (rule reg_inv_set[OF assms(1,2,4,5,6)]) (use assms(3) in \<open>auto simp: chan_ok_def assms(5) isNoneEvent_def\<close>)

lemma reg_inv_new:
  assumes "reg_inv w" "cheap w p = None"
  shows "reg_inv (w\<lparr>cheap := (cheap w)(p \<mapsto> Channel fd)\<rparr>)"
  using assms reg_inv_unregistered[OF assms] unfolding reg_inv_def chan_ok_def by auto

lemma reg_inv_destroy:
  assumes "reg_inv w" "cheap w p = Some c" "ch_index c = kNew"
  shows "reg_inv (w\<lparr>cheap := (cheap w)(p := None)\<rparr>)"
proof -
  have "channels w fd \<noteq> Some p" for fd
    using reg_fd_unique[OF assms(1,2), of fd] reg_chan[OF assms(1,2)] assms(3) by (auto simp: chan_ok_def)
  then show ?thesis using assms(1) unfolding reg_inv_def chan_ok_def by auto
qed

lemma reg_inv_same:
  assumes "reg_inv w" "cheap w p = Some c" "same_reg c c'"
  shows "reg_inv (w\<lparr>cheap := (cheap w)(p \<mapsto> c')\<rparr>)"
  using assms unfolding reg_inv_def chan_ok_def same_reg_def by (fastforce split: if_splits)

lemma reg_inv_dispatch: "reg_inv w \<Longrightarrow> reg_inv (w\<lparr>activeChannels := acs\<rparr>) \<and> reg_inv (w\<lparr>currentActiveChannel := cur\<rparr>) \<and>
    reg_inv (w\<lparr>loopEventHandling := b\<rparr>)"
  by (simp add: reg_inv_def chan_ok_def)


lemma select_upd:
  assumes "select_inv w" and c: "cheap w p = Some c" and free: "ch_index c = kNew \<Longrightarrow> channels w (ch_fd c) = None"
  shows "\<exists>i w'. select_updateChannel p (w\<lparr>cheap := (cheap w)(p \<mapsto> c\<lparr>ch_events := e, ch_addedToLoop := True\<rparr>)\<rparr>) = Inr w' \<and>
     select_inv w' \<and> same_dispatch w w' \<and> channels w' = (channels w)(ch_fd c \<mapsto> p) \<and>
     cheap w' = (cheap w)(p \<mapsto> c\<lparr>ch_events := e, ch_addedToLoop := True, ch_index := i\<rparr>)"
proof -
  have reg: "reg_inv w" using assms(1) by (simp add: select_inv_def)
  define i where "i = (if e = kNoneEvent then kDeleted else kAdded)"
  define w' where "w' = w\<lparr>cheap := (cheap w)(p \<mapsto> c\<lparr>ch_events := e, ch_addedToLoop := True, ch_index := i\<rparr>),
     channels := (channels w)(ch_fd c \<mapsto> p)\<rparr>"
  have "ch_index c \<noteq> kNew \<Longrightarrow> (channels w)(ch_fd c \<mapsto> p) = channels w"
    using reg_chan[OF reg c] by (auto simp: chan_ok_def)
  then have run: "select_updateChannel p (w\<lparr>cheap := (cheap w)(p \<mapsto> c\<lparr>ch_events := e, ch_addedToLoop := True\<rparr>)\<rparr>) = Inr w'"
    by (auto simp: select_updateChannel_def with_chan_def set_chan_def isNoneEvent_def w'_def i_def Let_def)
  have "reg_inv w'" by (rule reg_inv_upd[OF reg c free]) (auto simp: w'_def i_def)
  then have "select_inv w'" using assms(1) by (auto simp: select_inv_def w'_def i_def)
  then show ?thesis using run by (intro exI[of _ i] exI[of _ w']) (simp add: w'_def same_dispatch_def)
qed

lemma select_rem:
  assumes "select_inv w" and c: "cheap w p = Some c" "isNoneEvent c"
    and q: "channels w (ch_fd c) = None \<or> channels w (ch_fd c) = Some p"
  shows "\<exists>w'. select_removeChannel p (w\<lparr>cheap := (cheap w)(p \<mapsto> c\<lparr>ch_addedToLoop := False\<rparr>)\<rparr>) = Inr w' \<and>
     select_inv w' \<and> same_dispatch w w' \<and> channels w' = (channels w)(ch_fd c := None) \<and>
     cheap w' = (cheap w)(p \<mapsto> c\<lparr>ch_addedToLoop := False, ch_index := kNew\<rparr>)"
proof -
  have reg: "reg_inv w" using assms(1) by (simp add: select_inv_def)
  define w' where "w' = w\<lparr>cheap := (cheap w)(p \<mapsto> c\<lparr>ch_addedToLoop := False, ch_index := kNew\<rparr>),
     channels := (channels w)(ch_fd c := None)\<rparr>"
  have run: "select_removeChannel p (w\<lparr>cheap := (cheap w)(p \<mapsto> c\<lparr>ch_addedToLoop := False\<rparr>)\<rparr>) = Inr w'"
    by (simp add: select_removeChannel_def with_chan_def set_chan_def w'_def)
  have "reg_inv w'" by (rule reg_inv_rem[OF reg c q]) (simp_all add: w'_def)
  then have "select_inv w'" using assms(1) by (auto simp: select_inv_def w'_def)
  then show ?thesis using run by (simp add: w'_def same_dispatch_def)
qed

interpretation select: poller select_updateChannel select_removeChannel select_inv
proof unfold_locales
  fix w :: "('c, 'z) world" and p c c' fd e acs cur b
  show "select_inv w \<Longrightarrow> reg_inv w" by (simp add: select_inv_def)
  show "select_inv w \<Longrightarrow> cheap w p = None \<Longrightarrow> select_inv (w\<lparr>cheap := (cheap w)(p \<mapsto> Channel fd)\<rparr>)"
    by (auto simp: select_inv_def reg_inv_new)
  show "select_inv w \<Longrightarrow> cheap w p = Some c \<Longrightarrow> ch_index c = kNew \<Longrightarrow> select_inv (w\<lparr>cheap := (cheap w)(p := None)\<rparr>)"
    by (auto simp: select_inv_def reg_inv_destroy)
  show "select_inv w \<Longrightarrow> cheap w p = Some c \<Longrightarrow> same_reg c c' \<Longrightarrow> select_inv (w\<lparr>cheap := (cheap w)(p \<mapsto> c')\<rparr>)"
    by (simp add: select_inv_def reg_inv_same) (simp add: same_reg_def)
  show "select_inv w \<Longrightarrow> select_inv (w\<lparr>activeChannels := acs\<rparr>) \<and> select_inv (w\<lparr>currentActiveChannel := cur\<rparr>) \<and>
      select_inv (w\<lparr>loopEventHandling := b\<rparr>)"
    by (simp add: select_inv_def reg_inv_dispatch)
qed (fact select_upd, fact select_rem)

section \<open>EPollPoller keeps the contract\<close>

text \<open>The interest list of the kernel holds exactly the channels in state \<open>kAdded\<close>, under their
  descriptor, with the translation of their current events and their address.\<close>

definition epoll_inv :: "('c, 'z) eworld \<Rightarrow> bool" where
  "epoll_inv w \<longleftrightarrow> reg_inv w \<and>
     (\<forall>fd ev p. interest w fd = Some (ev, p) \<longleftrightarrow>
        (\<exists>c. cheap w p = Some c \<and> ch_fd c = fd \<and> ch_index c = kAdded \<and> ev = toEpollEvents (ch_events c)))"


lemma epoll_interest_iff:
  "epoll_inv w \<Longrightarrow> interest w fd = Some (ev, p) \<longleftrightarrow>
     (\<exists>c. cheap w p = Some c \<and> ch_fd c = fd \<and> ch_index c = kAdded \<and> ev = toEpollEvents (ch_events c))"
  by (simp add: epoll_inv_def)

lemma epoll_interest_own:
  assumes inv: "epoll_inv w" and c: "cheap w p = Some c"
    and q: "channels w (ch_fd c) = None \<or> channels w (ch_fd c) = Some p"
  shows "interest w (ch_fd c) = (if ch_index c = kAdded then Some (toEpollEvents (ch_events c), p) else None)"
proof (cases "interest w (ch_fd c)")
  case None
  then show ?thesis using epoll_interest_iff[OF inv, of "ch_fd c" "toEpollEvents (ch_events c)" p] c by auto
next
  case (Some x)
  obtain ev r where x: "x = (ev, r)" by fastforce
  obtain d where d: "cheap w r = Some d" "ch_fd d = ch_fd c" "ch_index d = kAdded" "ev = toEpollEvents (ch_events d)"
    using epoll_interest_iff[OF inv, of "ch_fd c" ev r] Some x by auto
  have "channels w (ch_fd d) = Some r" using reg_chan[OF _ d(1)] inv d(3) by (auto simp: chan_ok_def epoll_inv_def)
  then have "r = p" using q d(2) by auto
  then show ?thesis using d c Some x by simp
qed

lemma epoll_inv_set:
  assumes inv: "epoll_inv w" and c: "cheap w p = Some c"
    and q: "channels w (ch_fd c) = None \<or> channels w (ch_fd c) = Some p"
    and reg: "reg_inv w'" and ch: "cheap w' = (cheap w)(p \<mapsto> c')" and fd: "ch_fd c' = ch_fd c"
    and i: "interest w' = (interest w)(ch_fd c := if ch_index c' = kAdded then Some (toEpollEvents (ch_events c'), p) else None)"
  shows "epoll_inv w'"
proof -
  note own = epoll_interest_own[OF inv c q]
  have "interest w' g = Some (ev, r) \<longleftrightarrow>
      (\<exists>d. cheap w' r = Some d \<and> ch_fd d = g \<and> ch_index d = kAdded \<and> ev = toEpollEvents (ch_events d))" for g ev r
  proof (cases "r = p")
    case True
    have "g \<noteq> ch_fd c \<Longrightarrow> interest w g \<noteq> Some (ev, p)" using epoll_interest_iff[OF inv, of g ev p] c by auto
    then show ?thesis using True by (auto simp: i ch fd)
  next
    case False
    then have "interest w' g = Some (ev, r) \<longleftrightarrow> interest w g = Some (ev, r)"
      using own by (auto simp: i)
    then show ?thesis using epoll_interest_iff[OF inv, of g ev r] False by (simp add: ch)
  qed
  then show ?thesis using reg by (simp add: epoll_inv_def)
qed

locale epoll_kernel =
  fixes ctl :: epoll_ctl_fun
  assumes ctl: "epoll_ctl_spec ctl"
begin

lemma ctl_simps:
  "ks fd = None \<Longrightarrow> ctl ks EPOLL_CTL_ADD fd ev = (0, ks(fd \<mapsto> ev))"
  "ks fd = Some x \<Longrightarrow> ctl ks EPOLL_CTL_MOD fd ev = (0, ks(fd \<mapsto> ev))"
  "ks fd = Some x \<Longrightarrow> ctl ks EPOLL_CTL_DEL fd ev = (0, ks(fd := None))"
  "ks fd = Some x \<Longrightarrow> ctl ks EPOLL_CTL_ADD fd ev = (-1, ks)"
  using ctl by (auto simp: epoll_ctl_spec_def simp del: split_paired_All split_paired_Ex)

lemma epoll_upd:
  assumes inv: "epoll_inv w" and c: "cheap w p = Some c" and free: "ch_index c = kNew \<Longrightarrow> channels w (ch_fd c) = None"
  shows "\<exists>i w'. epoll_updateChannel ctl p (w\<lparr>cheap := (cheap w)(p \<mapsto> c\<lparr>ch_events := e, ch_addedToLoop := True\<rparr>)\<rparr>) = Inr w' \<and>
     epoll_inv w' \<and> same_dispatch w w' \<and> channels w' = (channels w)(ch_fd c \<mapsto> p) \<and>
     cheap w' = (cheap w)(p \<mapsto> c\<lparr>ch_events := e, ch_addedToLoop := True, ch_index := i\<rparr>)"
proof -
  have reg: "reg_inv w" using inv by (simp add: epoll_inv_def)
  have q: "channels w (ch_fd c) = None \<or> channels w (ch_fd c) = Some p" by (rule reg_fd_free[OF reg c free])
  note own = epoll_interest_own[OF inv c q]
  define i where "i = (if ch_index c = kAdded \<and> e = kNoneEvent then kDeleted else kAdded)"
  define c' where "c' = c\<lparr>ch_events := e, ch_addedToLoop := True, ch_index := i\<rparr>"
  define w' where "w' = w\<lparr>cheap := (cheap w)(p \<mapsto> c'), channels := (channels w)(ch_fd c \<mapsto> p),
     interest := (interest w)(ch_fd c := if ch_index c' = kAdded then Some (toEpollEvents (ch_events c'), p) else None)\<rparr>"
  have idx: "ch_index c = kNew \<or> ch_index c = kDeleted \<or> ch_index c = kAdded" using reg_chan[OF reg c] by (auto simp: chan_ok_def)
  have same: "ch_index c \<noteq> kNew \<Longrightarrow> (channels w)(ch_fd c \<mapsto> p) = channels w"
    using reg_chan[OF reg c] by (auto simp: chan_ok_def)
  have run: "epoll_updateChannel ctl p (w\<lparr>cheap := (cheap w)(p \<mapsto> c\<lparr>ch_events := e, ch_addedToLoop := True\<rparr>)\<rparr>) = Inr w'"
  proof (cases "ch_index c = kAdded \<and> e \<noteq> kNoneEvent")
    case True
    then have "c' = c\<lparr>ch_events := e, ch_addedToLoop := True\<rparr>" by (cases c) (simp add: c'_def i_def)
    then show ?thesis using True own same
      by (simp add: epoll_updateChannel_def epoll_update_def with_chan_def isNoneEvent_def ctl_simps w'_def Let_def)
  next
    case False
    then show ?thesis using idx own same c
      by (auto simp: epoll_updateChannel_def epoll_update_def with_chan_def set_chan_def isNoneEvent_def ctl_simps
          w'_def c'_def i_def Let_def)
  qed
  have "reg_inv w'" by (rule reg_inv_upd[OF reg c free, where i = i and e = e]) (auto simp: w'_def c'_def i_def)
  then have "epoll_inv w'" by (rule epoll_inv_set[OF inv c q, where c' = c']) (simp_all add: w'_def c'_def)
  then show ?thesis using run by (intro exI[of _ i] exI[of _ w']) (simp add: w'_def c'_def same_dispatch_def)
qed

lemma epoll_rem:
  assumes inv: "epoll_inv w" and c: "cheap w p = Some c" "isNoneEvent c"
    and q: "channels w (ch_fd c) = None \<or> channels w (ch_fd c) = Some p"
  shows "\<exists>w'. epoll_removeChannel ctl p (w\<lparr>cheap := (cheap w)(p \<mapsto> c\<lparr>ch_addedToLoop := False\<rparr>)\<rparr>) = Inr w' \<and>
     epoll_inv w' \<and> same_dispatch w w' \<and> channels w' = (channels w)(ch_fd c := None) \<and>
     cheap w' = (cheap w)(p \<mapsto> c\<lparr>ch_addedToLoop := False, ch_index := kNew\<rparr>)"
proof -
  have reg: "reg_inv w" using inv by (simp add: epoll_inv_def)
  note own = epoll_interest_own[OF inv c(1) q]
  define c' where "c' = c\<lparr>ch_addedToLoop := False, ch_index := kNew\<rparr>"
  define w' where "w' = w\<lparr>cheap := (cheap w)(p \<mapsto> c'), channels := (channels w)(ch_fd c := None),
     interest := (interest w)(ch_fd c := None)\<rparr>"
  have run: "epoll_removeChannel ctl p (w\<lparr>cheap := (cheap w)(p \<mapsto> c\<lparr>ch_addedToLoop := False\<rparr>)\<rparr>) = Inr w'"
    using own c by (auto simp: epoll_removeChannel_def epoll_update_def with_chan_def set_chan_def ctl_simps
        w'_def c'_def Let_def fun_upd_idem)
  have "reg_inv w'" by (rule reg_inv_rem[OF reg c q]) (auto simp: w'_def c'_def)
  then have "epoll_inv w'" by (rule epoll_inv_set[OF inv c(1) q, where c' = c']) (simp_all add: w'_def c'_def)
  then show ?thesis using run by (intro exI[of _ w']) (simp add: w'_def c'_def same_dispatch_def)
qed

end


sublocale epoll_kernel \<subseteq> poller "epoll_updateChannel ctl" "epoll_removeChannel ctl" epoll_inv
proof unfold_locales
  fix w :: "('c, 'z) eworld" and p c c' fd e acs cur b
  show "epoll_inv w \<Longrightarrow> reg_inv w" by (simp add: epoll_inv_def)
  show "epoll_inv w \<Longrightarrow> cheap w p = None \<Longrightarrow> epoll_inv (w\<lparr>cheap := (cheap w)(p \<mapsto> Channel fd)\<rparr>)"
    by (auto simp: epoll_inv_def reg_inv_new)
  show "epoll_inv w \<Longrightarrow> cheap w p = Some c \<Longrightarrow> ch_index c = kNew \<Longrightarrow> epoll_inv (w\<lparr>cheap := (cheap w)(p := None)\<rparr>)"
    by (auto simp: epoll_inv_def reg_inv_destroy)
  show "epoll_inv w \<Longrightarrow> cheap w p = Some c \<Longrightarrow> same_reg c c' \<Longrightarrow> epoll_inv (w\<lparr>cheap := (cheap w)(p \<mapsto> c')\<rparr>)"
    by (simp add: epoll_inv_def reg_inv_same) (auto simp: same_reg_def)
  show "epoll_inv w \<Longrightarrow> epoll_inv (w\<lparr>activeChannels := acs\<rparr>) \<and> epoll_inv (w\<lparr>currentActiveChannel := cur\<rparr>) \<and>
      epoll_inv (w\<lparr>loopEventHandling := b\<rparr>)"
    by (simp add: epoll_inv_def reg_inv_dispatch)
qed (fact epoll_upd, fact epoll_rem)

context epoll_kernel
begin

lemma epoll_op_correct:
  assumes "epoll_inv w" "active_ok w" "op_ok a w"
  shows "\<exists>w'. do_chan_op (epoll_updateChannel ctl) (epoll_removeChannel ctl) a w = Inr w' \<and> epoll_inv w' \<and>
     active_ok w' \<and> registrations w' = reg_op a (op_fd a w) (registrations w)"
  using op_correct[OF assms] unfolding op_result_def by blast

lemma epoll_dispatch_ok:
  assumes "epoll_inv w" "\<And>p. Some p \<in> set (activeChannels w) \<Longrightarrow> hasChannel p w"
    and "\<And>cb w. epoll_inv w \<Longrightarrow> active_ok w \<Longrightarrow> ops_ok (epoll_updateChannel ctl) (epoll_removeChannel ctl) (script cb w) w"
  shows "\<exists>w'. dispatch alive (\<lambda>cb w. chan_run (epoll_updateChannel ctl) (epoll_removeChannel ctl) (script cb w) w) w = Inr w' \<and>
     epoll_inv w'"
  by (rule dispatch_ok[OF exec_scripts_ok[OF assms(3)] assms(1,2)])

end

lemma epoll_ctl_ok: "epoll_ctl_spec epoll_ctl"
  by (simp add: epoll_ctl_spec_def epoll_ctl_def)

interpretation linux: epoll_kernel epoll_ctl
  by unfold_locales (rule epoll_ctl_ok)


section \<open>Polling\<close>

lemmas event_masks = kReadEvent_def kWriteEvent_def kErrorEvent_def kCloseEvent_def kNoneEvent_def
  EPOLLIN_def EPOLLPRI_def EPOLLOUT_def EPOLLERR_def EPOLLHUP_def EPOLLRDHUP_def

lemma masked_out:
  fixes ev m x :: u32
  assumes "ev AND NOT m = 0" "m AND x = 0"
  shows "ev AND x = 0"
  using assms by (auto simp: bit_eq_iff bit_simps)

lemma fromEpollEvents_bits:
  "fromEpollEvents ev AND kReadEvent \<noteq> 0 \<longleftrightarrow> ev AND (EPOLLIN OR EPOLLPRI) \<noteq> 0"
  "fromEpollEvents ev AND kWriteEvent \<noteq> 0 \<longleftrightarrow> ev AND EPOLLOUT \<noteq> 0"
  "fromEpollEvents ev AND kErrorEvent \<noteq> 0 \<longleftrightarrow> ev AND EPOLLERR \<noteq> 0"
  "fromEpollEvents ev AND kCloseEvent \<noteq> 0 \<longleftrightarrow> ev AND (EPOLLHUP OR EPOLLRDHUP) \<noteq> 0"
  by (simp_all add: fromEpollEvents_def Let_def event_masks)


lemma reported_events:
  assumes "ev AND NOT (toEpollEvents e OR EPOLLERR OR EPOLLHUP) = 0"
  shows "fromEpollEvents ev AND kReadEvent \<noteq> 0 \<Longrightarrow> e AND kReadEvent \<noteq> 0"
    and "fromEpollEvents ev AND kWriteEvent \<noteq> 0 \<Longrightarrow> e AND kWriteEvent \<noteq> 0"
proof -
  show "fromEpollEvents ev AND kReadEvent \<noteq> 0 \<Longrightarrow> e AND kReadEvent \<noteq> 0"
    using masked_out[OF assms, of "EPOLLIN OR EPOLLPRI"] unfolding fromEpollEvents_bits
    by (cases "e AND kWriteEvent = 0"; cases "e AND kReadEvent = 0") (simp_all add: toEpollEvents_def Let_def event_masks)
  show "fromEpollEvents ev AND kWriteEvent \<noteq> 0 \<Longrightarrow> e AND kWriteEvent \<noteq> 0"
    using masked_out[OF assms, of EPOLLOUT] unfolding fromEpollEvents_bits
    by (cases "e AND kWriteEvent = 0"; cases "e AND kReadEvent = 0") (simp_all add: toEpollEvents_def Let_def event_masks)
qed

lemma set_revents_inv:
  assumes "epoll_inv w" "cheap w p = Some c"
  shows "epoll_inv ((set_chan p (\<lambda>c. c\<lparr>ch_revents := r\<rparr>) w)\<lparr>activeChannels := acs\<rparr>)"
proof -
  have "epoll_inv (set_chan p (\<lambda>c. c\<lparr>ch_revents := r\<rparr>) w)"
    using linux.set_law[OF assms, of "c\<lparr>ch_revents := r\<rparr>"] by (simp add: set_chan_Some[OF assms(2)] same_reg_def)
  then show ?thesis using linux.dispatch_law by blast
qed

lemma fillActiveChannels_ok:
  assumes "epoll_inv w" "\<forall>(ev, p) \<in> set evs. hasChannel p w" "distinct (map snd evs)"
  shows "\<exists>w'. fillActiveChannels evs w = Inr w' \<and> epoll_inv w' \<and>
     activeChannels w' = activeChannels w @ map (\<lambda>(ev, p). Some p) evs \<and>
     (\<forall>p. p \<notin> snd ` set evs \<longrightarrow> cheap w' p = cheap w p) \<and>
     (\<forall>(ev, p) \<in> set evs. cheap w' p = map_option (\<lambda>c. c\<lparr>ch_revents := fromEpollEvents ev\<rparr>) (cheap w p)) \<and>
     channels w' = channels w \<and> interest w' = interest w \<and> eventListSize w' = eventListSize w"
  using assms
proof (induction evs arbitrary: w)
  case (Cons x evs)
  obtain ev p where x: "x = (ev, p)" by fastforce
  obtain c where c: "cheap w p = Some c" using Cons.prems(2) by (auto simp: x hasChannel_iff)
  let ?w = "(set_chan p (\<lambda>c. c\<lparr>ch_revents := fromEpollEvents ev\<rparr>) w)\<lparr>activeChannels := activeChannels w @ [Some p]\<rparr>"
  have has: "\<forall>(ev, r) \<in> set evs. hasChannel r ?w"
    using Cons.prems(2) c by (auto simp: hasChannel_iff)
  have d: "distinct (map snd evs)" "p \<notin> snd ` set evs" using Cons.prems(3) by (auto simp: x)
  have keep: "interest ?w = interest w" "eventListSize ?w = eventListSize w" by (simp_all add: set_chan_def)
  obtain w' where w': "fillActiveChannels evs ?w = Inr w'" "epoll_inv w'"
    "activeChannels w' = activeChannels ?w @ map (\<lambda>(ev, p). Some p) evs"
    "\<forall>r. r \<notin> snd ` set evs \<longrightarrow> cheap w' r = cheap ?w r"
    "\<forall>(ev, r) \<in> set evs. cheap w' r = map_option (\<lambda>c. c\<lparr>ch_revents := fromEpollEvents ev\<rparr>) (cheap ?w r)"
    "channels w' = channels ?w" "interest w' = interest ?w" "eventListSize w' = eventListSize ?w"
    using Cons.IH[OF set_revents_inv[OF Cons.prems(1) c] has d(1)] by blast
  have "fillActiveChannels (x # evs) w = Inr w'" using w'(1) c by (simp add: x Let_def)
  moreover have "\<forall>(ev, r) \<in> set (x # evs). cheap w' r = map_option (\<lambda>c. c\<lparr>ch_revents := fromEpollEvents ev\<rparr>) (cheap w r)"
  proof (intro ballI, clarify)
    fix ev' r assume r: "(ev', r) \<in> set (x # evs)"
    show "cheap w' r = map_option (\<lambda>c. c\<lparr>ch_revents := fromEpollEvents ev'\<rparr>) (cheap w r)"
    proof (cases "(ev', r) = x")
      case True
      then show ?thesis using w'(4) d(2) by (simp add: x)
    next
      case False
      then have "(ev', r) \<in> set evs" using r by simp
      then have "r \<noteq> p" "cheap w' r = map_option (\<lambda>c. c\<lparr>ch_revents := fromEpollEvents ev'\<rparr>) (cheap ?w r)"
        using d(2) w'(5) by force+
      then show ?thesis by simp
    qed
  qed
  moreover have "\<forall>r. r \<notin> snd ` set (x # evs) \<longrightarrow> cheap w' r = cheap w r" using w'(4) by (auto simp: x)
  ultimately show ?case using w'(2,3,6,7,8) keep by (simp add: x)
qed simp


section \<open>Properties\<close>

lemma EPollPoller_inv: "epoll_inv EPollPoller" "active_ok EPollPoller"
  by (simp_all add: EPollPoller_def epoll_inv_def reg_inv_def active_ok_def)

definition SelectPoller :: "'c reactor" where
  "SelectPoller = \<lparr>cheap = Map.empty, channels = Map.empty, activeChannels = [], currentActiveChannel = None,
     loopEventHandling = False\<rparr>"

lemma SelectPoller_inv: "select_inv SelectPoller" "active_ok SelectPoller"
  by (simp_all add: SelectPoller_def select_inv_def reg_inv_def active_ok_def)

lemmas chan_eval = enableReading_def disableReading_def enableWriting_def disableWriting_def disableAll_def remove_chan_def
  destroy_chan_def update_def EventLoop_updateChannel_def EventLoop_removeChannel_def with_chan_def set_chan_def Channel_def
  isNoneEvent_def epoll_updateChannel_def epoll_removeChannel_def epoll_update_def epoll_ctl_def Let_def
  EPollPoller_def SelectPoller_def kNew_def kAdded_def kDeleted_def event_masks setReadCallback_def

text \<open>C9. With an epoll instance that behaves as documented, every channel operation that follows the
  rules of use succeeds: \<open>epoll_ctl\<close> never fails, so the process is not aborted. It keeps the bookkeeping
  consistent (the interest list of the kernel holds exactly the channels in state \<open>kAdded\<close> with the
  translation of their current events) and refines the abstract table of registrations: a
  subscription writes the entry of the descriptor, \<open>remove\<close> erases it, nothing else changes it.\<close>

theorem epoll_op_refines:
  assumes "epoll_ctl_spec ctl" "epoll_inv w" "active_ok w" "op_ok a w"
  shows "\<exists>w'. do_chan_op (epoll_updateChannel ctl) (epoll_removeChannel ctl) a w = Inr w' \<and> epoll_inv w' \<and>
     active_ok w' \<and> registrations w' = reg_op a (op_fd a w) (registrations w)"
  by (rule epoll_kernel.epoll_op_correct[OF epoll_kernel.intro[OF assms(1)] assms(2-4)])

definition demo_reactor :: "nat epoll_reactor" where
  "demo_reactor = EPollPoller\<lparr>cheap := [1 \<mapsto> Channel 7]\<rparr>"

lemma demo_reactor_inv: "epoll_inv demo_reactor" "active_ok demo_reactor"
  using linux.new_law[OF EPollPoller_inv(1), of 1 7] by (simp_all add: demo_reactor_def EPollPoller_def active_ok_def)

theorem epoll_op_refines_witness:
  "\<exists>w'. do_chan_op (epoll_updateChannel epoll_ctl) (epoll_removeChannel epoll_ctl) (EnableReading 1) demo_reactor = Inr w' \<and>
     epoll_inv w' \<and> registrations w' 7 = Some (1, kReadEvent)"
proof -
  have "op_ok (EnableReading 1) demo_reactor" by (simp add: op_ok_def demo_reactor_def EPollPoller_def)
  moreover have "op_fd (EnableReading 1) demo_reactor = 7" "registrations demo_reactor = Map.empty"
    by (auto simp: op_fd_def demo_reactor_def registrations_def EPollPoller_def)
  ultimately show ?thesis
    using epoll_op_refines[OF epoll_ctl_ok demo_reactor_inv, of "EnableReading 1"] by (auto simp: reg_op_def event_masks)
qed

text \<open>The select back end refines the same table of registrations: both pollers give the same answer
  to \<open>hasChannel\<close> and hold the same events for a descriptor after the same operations.\<close>

theorem select_op_refines:
  assumes "select_inv w" "active_ok w" "op_ok a w"
  shows "\<exists>w'. do_chan_op select_updateChannel select_removeChannel a w = Inr w' \<and> select_inv w' \<and>
     active_ok w' \<and> registrations w' = reg_op a (op_fd a w) (registrations w)"
  using select.op_correct[OF assms] unfolding select.op_result_def by blast

theorem select_op_refines_witness:
  "\<exists>w'. do_chan_op select_updateChannel select_removeChannel (NewChan 3 9) SelectPoller = Inr w' \<and> select_inv w'"
proof -
  have "op_ok (NewChan 3 9) SelectPoller" by (simp add: op_ok_def SelectPoller_def)
  from select_op_refines[OF SelectPoller_inv this] show ?thesis by blast
qed

text \<open>C36. Dispatch never touches a destroyed channel: when every polled channel is registered and
  the callbacks use channels by the rules (they may remove and destroy any other channel of the same
  batch), the pass over the active channels completes without an access through a dangling pointer,
  and the bookkeeping is consistent afterwards.\<close>

theorem dispatch_safe:
  assumes "epoll_ctl_spec ctl" "epoll_inv w" "\<forall>p. Some p \<in> set (activeChannels w) \<longrightarrow> hasChannel p w"
    and "\<forall>cb w. epoll_inv w \<longrightarrow> active_ok w \<longrightarrow> ops_ok (epoll_updateChannel ctl) (epoll_removeChannel ctl) (script cb w) w"
  shows "\<exists>w'. dispatch alive (\<lambda>cb w. chan_run (epoll_updateChannel ctl) (epoll_removeChannel ctl) (script cb w) w) w = Inr w' \<and>
     epoll_inv w'"
  by (rule epoll_kernel.epoll_dispatch_ok[OF epoll_kernel.intro[OF assms(1)]]) (use assms in blast)+

definition demo_script :: "nat \<Rightarrow> nat epoll_reactor \<Rightarrow> nat chan_op list" where
  "demo_script cb w = (if op_ok (RemoveChan 2) w then [RemoveChan 2] else [])"

theorem dispatch_safe_witness:
  "\<exists>w w'. chan_run (epoll_updateChannel epoll_ctl) (epoll_removeChannel epoll_ctl)
       [NewChan 1 7, SetRead 1 0, EnableReading 1, NewChan 2 8, EnableReading 2, DisableAll 2] (EPollPoller :: nat epoll_reactor) = Inr w \<and>
     dispatch (\<lambda>_. True) (\<lambda>cb w. chan_run (epoll_updateChannel epoll_ctl) (epoll_removeChannel epoll_ctl) (demo_script cb w) w)
       (w\<lparr>activeChannels := [Some 1, Some 2]\<rparr>) = Inr w' \<and> epoll_inv w'"
proof -
  let ?ops = "[NewChan 1 7, SetRead 1 0, EnableReading 1, NewChan 2 8, EnableReading 2, DisableAll 2] :: nat chan_op list"
  have "ops_ok (epoll_updateChannel epoll_ctl) (epoll_removeChannel epoll_ctl) ?ops EPollPoller"
    by (simp add: chan_eval op_ok_def)
  then obtain w where w: "chan_run (epoll_updateChannel epoll_ctl) (epoll_removeChannel epoll_ctl) ?ops EPollPoller = Inr w"
    "epoll_inv w"
    using linux.run_correct[OF EPollPoller_inv] by blast
  have "hasChannel 1 w" "hasChannel 2 w"
    using w(1) by (auto simp: chan_eval hasChannel_iff)
  then show ?thesis
    using w dispatch_safe[OF epoll_ctl_ok linux.dispatch_law[OF w(2), THEN conjunct1], of "[Some 1, Some 2]" demo_script "\<lambda>_. True"]
    by (auto simp: demo_script_def hasChannel_iff simp del: chan_run.simps split: sum.splits)
qed

text \<open>Polling reports only registered channels and only subscribed events: with \<open>epoll_ctl\<close> and
  \<open>epoll_wait\<close> as documented, \<open>poll\<close> succeeds unless \<open>epoll_wait\<close> fails with something else than \<open>EINTR\<close>,
  appends the reported channels, which are all registered, and a channel with \<open>kReadEvent\<close>
  (\<open>kWriteEvent\<close>) in \<open>revents_\<close> is subscribed to reading (writing).\<close>

theorem epoll_poll_sound:
  assumes "epoll_wait_spec wait" "epoll_inv w" "wait (interest w) (eventListSize w) t = WEvents evs"
  shows "\<exists>w'. epoll_poll wait t w = Inr w' \<and> epoll_inv w' \<and>
     activeChannels w' = activeChannels w @ map (\<lambda>(ev, p). Some p) evs \<and>
     (\<forall>(ev, p) \<in> set evs. \<exists>c. cheap w' p = Some c \<and> hasChannel p w' \<and>
        (ch_revents c AND kReadEvent \<noteq> 0 \<longrightarrow> isReading c) \<and> (ch_revents c AND kWriteEvent \<noteq> 0 \<longrightarrow> isWriting c)) \<and>
     eventListSize w' = (if 0 < length evs \<and> length evs = eventListSize w then 2 * eventListSize w else eventListSize w)"
proof -
  have evs: "distinct (map snd evs)"
    "\<And>x. x \<in> set evs \<Longrightarrow> \<exists>fd req. interest w fd = Some (req, snd x) \<and> fst x AND NOT (req OR EPOLLERR OR EPOLLHUP) = 0"
    using assms(1,3) unfolding epoll_wait_spec_def by (blast, fastforce)
  have reg: "reg_inv w" using assms(2) by (simp add: epoll_inv_def)
  have chan: "\<exists>c. cheap w p = Some c \<and> channels w (ch_fd c) = Some p \<and>
      ev AND NOT (toEpollEvents (ch_events c) OR EPOLLERR OR EPOLLHUP) = 0" if m: "(ev, p) \<in> set evs" for ev p
  proof -
    obtain fd req where i: "interest w fd = Some (req, p)" "ev AND NOT (req OR EPOLLERR OR EPOLLHUP) = 0" using evs(2)[OF m] by auto
    then obtain c where "cheap w p = Some c" "ch_index c = kAdded" "req = toEpollEvents (ch_events c)"
      using epoll_interest_iff[OF assms(2), of fd req p] by auto
    then show ?thesis using i reg_chan[OF reg, of p c] by (auto simp: chan_ok_def)
  qed
  have "\<forall>(ev, p) \<in> set evs. hasChannel p w" using chan by (fastforce simp: hasChannel_iff)
  from fillActiveChannels_ok[OF assms(2) this evs(1)]
  obtain w1 where w1: "fillActiveChannels evs w = Inr w1" "epoll_inv w1"
     "activeChannels w1 = activeChannels w @ map (\<lambda>(ev, p). Some p) evs"
     "\<forall>(ev, p) \<in> set evs. cheap w1 p = map_option (\<lambda>c. c\<lparr>ch_revents := fromEpollEvents ev\<rparr>) (cheap w p)"
     "channels w1 = channels w" "eventListSize w1 = eventListSize w" by blast
  define w' where "w' = (if 0 < length evs \<and> length evs = eventListSize w then w1\<lparr>eventListSize := eventListSize w * 2\<rparr> else w1)"
  have run: "epoll_poll wait t w = Inr w'" using assms(3) w1(1,6) by (cases evs) (auto simp: epoll_poll_def w'_def)
  have inv: "epoll_inv w'" using w1(2) by (simp add: w'_def epoll_inv_def reg_inv_def chan_ok_def)
  have "\<exists>c. cheap w' p = Some c \<and> hasChannel p w' \<and>
        (ch_revents c AND kReadEvent \<noteq> 0 \<longrightarrow> isReading c) \<and> (ch_revents c AND kWriteEvent \<noteq> 0 \<longrightarrow> isWriting c)"
    if m: "(ev, p) \<in> set evs" for ev p
  proof -
    obtain c where c: "cheap w p = Some c" "channels w (ch_fd c) = Some p"
      "ev AND NOT (toEpollEvents (ch_events c) OR EPOLLERR OR EPOLLHUP) = 0" using chan[OF m] by blast
    have "cheap w' p = Some (c\<lparr>ch_revents := fromEpollEvents ev\<rparr>)" "channels w' = channels w"
      using w1(4,5) m c(1) by (auto simp: w'_def)
    then show ?thesis
      using c(2) reported_events[OF c(3)] by (auto simp: hasChannel_iff isReading_def isWriting_def)
  qed
  then show ?thesis using run inv w1(3,6) by (auto simp: w'_def)
qed


lemma mask_sub: "(req AND x) AND NOT req AND NOT y AND NOT z = (0 :: u32)"
  by (auto simp: bit_eq_iff bit_simps)

text \<open>A kernel that reports the descriptor 7 as readable when it is watched.\<close>

definition demo_wait :: "epoll_interest \<Rightarrow> nat \<Rightarrow> int \<Rightarrow> wait_result" where
  "demo_wait ks n t = (case ks 7 of None \<Rightarrow> WEvents [] | Some (req, p) \<Rightarrow> if n = 0 then WEvents [] else WEvents [(req AND EPOLLIN, p)])"

theorem epoll_poll_sound_witness:
  "\<exists>w w'. chan_run (epoll_updateChannel epoll_ctl) (epoll_removeChannel epoll_ctl) [NewChan 1 7, EnableReading 1]
       (EPollPoller :: nat epoll_reactor) = Inr w \<and>
     epoll_poll demo_wait 10 w = Inr w' \<and> activeChannels w' = [Some 1]"
proof -
  have spec: "epoll_wait_spec demo_wait"
    unfolding epoll_wait_spec_def demo_wait_def
    by (auto split: option.splits if_splits) (metis mask_sub)
  have "ops_ok (epoll_updateChannel epoll_ctl) (epoll_removeChannel epoll_ctl) [NewChan 1 7, EnableReading 1] (EPollPoller :: nat epoll_reactor)"
    by (simp add: chan_eval op_ok_def)
  then obtain w where w: "chan_run (epoll_updateChannel epoll_ctl) (epoll_removeChannel epoll_ctl) [NewChan 1 7, EnableReading 1]
      (EPollPoller :: nat epoll_reactor) = Inr w" "epoll_inv w"
    using linux.run_correct[OF EPollPoller_inv] by blast
  have "interest w 7 = Some (EPOLLIN OR EPOLLPRI, 1)" "eventListSize w = 16" "activeChannels w = []"
    using w(1) by (auto simp: chan_eval toEpollEvents_def kInitEventListSize_def)
  then show ?thesis
    using epoll_poll_sound[OF spec w(2), of 10 "[((EPOLLIN OR EPOLLPRI) AND EPOLLIN, 1)]"] w(1)
    by (auto simp: demo_wait_def simp del: chan_run.simps)
qed

end
