(* ===== verification/Event_Loop.thy ===== *)
theory Event_Loop
  imports Timer_Queue Channel_Poller
begin

text \<open>
  \<^verbatim>\<open>EventLoop.cc\<close>, \<^verbatim>\<open>LoopHandle.cc\<close> and \<^verbatim>\<open>platform/Wakeup_linux.cc\<close>: the task queue of a loop, its wakeup
  descriptor, the phases of \<open>loop()\<close> and the posting handle that other threads use.

  The first part has the operations as functions on the record \<open>loop\<close>. The second part interleaves
  them: the owner thread walks through the phases of \<open>loop()\<close>, user code running on it may post and
  quit at any point of a callback, and any number of other threads post (directly or through a
  \<open>LoopHandle\<close>) and quit, with the steps of \<open>queuePrepared\<close> and \<open>quit\<close> (store, then wakeup) and
  the two mutexes kept apart. A section under \<open>mutex_\<close> is one step. The channel and timer phases are
  modelled in \<open>Channel_Poller\<close> and \<open>Timer_Queue\<close>; here they only run user code. Callbacks that throw
  are not modelled.
\<close>

section \<open>Operations\<close>

record 'f pending =
  task :: 'f
  enqueuedAt :: int

record 'f loop =
  looping :: bool
  quit_flag :: bool
  callingPendingFunctors :: bool
  pendingFunctors :: "'f pending list"
  pendingFunctorPeak :: nat
  wakeupCount :: u64
  wakeupCounter :: nat
  postingLoop :: bool

text \<open>\<open>wakeupCounter\<close> is the counter of the eventfd, \<open>postingLoop\<close> tells whether \<open>state_->loop\<close> of the posting
  handle is not null. The constructor rejects a second loop in a thread.\<close>

definition EventLoop :: "bool \<Rightarrow> 'f loop res" where
  "EventLoop loopInThisThread =
     (if loopInThisThread then Inl (Runtime_error ''another EventLoop already exists in this thread'')
      else Inr \<lparr>looping = False, quit_flag = False, callingPendingFunctors = False, pendingFunctors = [],
                pendingFunctorPeak = 0, wakeupCount = 0, wakeupCounter = 0, postingLoop = True\<rparr>)"

definition loop_dtor :: "bool \<Rightarrow> 'f loop \<Rightarrow> 'f loop res" where
  "loop_dtor inLoop l =
     (if \<not> inLoop then Inl (Fatal ''EventLoop destroyed from non-owner thread'')
      else if looping l then Inl (Fatal ''EventLoop destroyed while loop() is still running'')
      else Inr (l\<lparr>postingLoop := False\<rparr>))"

definition writeWakeup :: "'f loop \<Rightarrow> 'f loop" where
  "writeWakeup l = l\<lparr>wakeupCounter := wakeupCounter l + 1\<rparr>"

definition drainWakeup :: "'f loop \<Rightarrow> 'f loop" where
  "drainWakeup l = l\<lparr>wakeupCounter := 0\<rparr>"

definition wakeup :: "'f loop \<Rightarrow> 'f loop" where
  "wakeup l = writeWakeup (l\<lparr>wakeupCount := wakeupCount l + 1\<rparr>)"

definition handleRead :: "'f loop \<Rightarrow> 'f loop" where
  "handleRead l = drainWakeup l"

text \<open>The compare-and-exchange loop stores the maximum; it runs under \<open>mutex_\<close>.\<close>

definition push_pending :: "'f pending \<Rightarrow> 'f loop \<Rightarrow> 'f loop" where
  "push_pending f l =
     (let l = l\<lparr>pendingFunctors := pendingFunctors l @ [f]\<rparr>;
          pendingSize = length (pendingFunctors l)
      in if pendingSize > pendingFunctorPeak l then l\<lparr>pendingFunctorPeak := pendingSize\<rparr> else l)"

definition needs_wakeup :: "bool \<Rightarrow> 'f loop \<Rightarrow> bool" where
  "needs_wakeup inLoop l \<longleftrightarrow> \<not> inLoop \<or> callingPendingFunctors l \<or> \<not> looping l"

definition queuePrepared :: "bool \<Rightarrow> 'f pending \<Rightarrow> 'f loop \<Rightarrow> 'f loop" where
  "queuePrepared inLoop f l =
     (let l = push_pending f l in if needs_wakeup inLoop l then wakeup l else l)"

definition queueInLoop :: "bool \<Rightarrow> int \<Rightarrow> 'f \<Rightarrow> 'f loop \<Rightarrow> 'f loop" where
  "queueInLoop inLoop now f l = queuePrepared inLoop \<lparr>task = f, enqueuedAt = now\<rparr> l"

definition runInLoop :: "('f \<Rightarrow> 'f loop \<Rightarrow> 'f loop) \<Rightarrow> bool \<Rightarrow> int \<Rightarrow> 'f \<Rightarrow> 'f loop \<Rightarrow> 'f loop" where
  "runInLoop exec inLoop now f l = (if inLoop then exec f l else queueInLoop inLoop now f l)"

definition quit :: "bool \<Rightarrow> 'f loop \<Rightarrow> 'f loop" where
  "quit inLoop l = (let l = l\<lparr>quit_flag := True\<rparr> in if \<not> inLoop then wakeup l else l)"

text \<open>\<open>LoopHandle::queue\<close>; \<open>None\<close> as the callback is an empty \<open>std::function\<close>, \<open>None\<close> as the loop a handle
  without state.\<close>

definition LoopHandle_queue :: "bool \<Rightarrow> int \<Rightarrow> 'f option \<Rightarrow> 'f loop option \<Rightarrow> (bool \<times> 'f loop option) res" where
  "LoopHandle_queue inLoop now fn l =
     (case fn of
        None \<Rightarrow> Inl (Invalid_argument ''LoopHandle::queue requires a callback'')
      | Some f \<Rightarrow>
          (case l of
             None \<Rightarrow> Inr (False, None)
           | Some l \<Rightarrow>
               if \<not> postingLoop l then Inr (False, Some l)
               else Inr (True, Some (queuePrepared inLoop \<lparr>task = f, enqueuedAt = now\<rparr> l))))"

record metric_sample =
  sampleFunctors :: nat
  samplePeak :: nat
  sampleWakeups :: u64
  oldestPendingLatency :: int

definition swap_pending :: "'f loop \<Rightarrow> 'f pending list \<times> nat \<times> 'f loop" where
  "swap_pending l =
     (pendingFunctors l, pendingFunctorPeak l,
      l\<lparr>callingPendingFunctors := True, pendingFunctors := [], pendingFunctorPeak := 0\<rparr>)"

definition drained_sample :: "int \<Rightarrow> 'f pending list \<Rightarrow> nat \<Rightarrow> 'f loop \<Rightarrow> metric_sample option" where
  "drained_sample now fs pendingPeak l =
     (case fs of
        [] \<Rightarrow> None
      | f # _ \<Rightarrow> Some \<lparr>sampleFunctors = length fs, samplePeak = max pendingPeak (length fs),
                       sampleWakeups = wakeupCount l, oldestPendingLatency = now - enqueuedAt f\<rparr>)"

text \<open>\<open>exec\<close> runs one functor on the loop (it may queue, also through the handle, and quit).\<close>

definition doPendingFunctors :: "('f \<Rightarrow> 'f loop \<Rightarrow> 'f loop) \<Rightarrow> int \<Rightarrow> 'f loop \<Rightarrow> metric_sample option \<times> 'f loop" where
  "doPendingFunctors exec now l =
     (let (fs, pendingPeak, l) = swap_pending l;
          sample = drained_sample now fs pendingPeak l;
          l = fold (exec \<circ> task) fs l
      in (sample, l\<lparr>callingPendingFunctors := False\<rparr>))"

definition runAt :: "'c \<Rightarrow> int \<Rightarrow> 'c timer_queue \<Rightarrow> int \<times> 'c timer_queue" where
  "runAt cb time q = addTimer cb time 0 q"

definition runAfter :: "int \<Rightarrow> int \<Rightarrow> 'c \<Rightarrow> 'c timer_queue \<Rightarrow> int \<times> 'c timer_queue" where
  "runAfter now delay cb q = addTimer cb (now + delay) 0 q"

definition runEvery :: "int \<Rightarrow> int \<Rightarrow> 'c \<Rightarrow> 'c timer_queue \<Rightarrow> (int \<times> 'c timer_queue) res" where
  "runEvery now period cb q =
     (if period \<le> 0 then Inl (Invalid_argument ''runEvery interval must be positive'')
      else Inr (addTimer cb (now + period) period q))"


section \<open>Interleavings\<close>

text \<open>Phases of the owner thread. \<open>Dispatch True\<close> has the wakeup channel among the active channels still to
  be handled; \<open>Swap\<close> and \<open>Batch\<close> are the parts of \<open>doPendingFunctors\<close>, with \<open>True\<close> in the final drain.\<close>

datatype 'f phase =
    Idle | Check | Poll | Dispatch bool | Timers | Swap bool | Batch bool "'f pending list" | FinalCheck | Done | Destroyed

text \<open>What another thread has still to do: the wakeup after a store into the queue (directly, or through
  a handle and so with the posting mutex held) or after setting \<open>quit_\<close>.\<close>

datatype poster = TDirect | THandle | TQuit

text \<open>Every task is tagged with how it was posted: \<open>True\<close> for a \<open>LoopHandle\<close>. \<open>accepted\<close> and \<open>executed\<close>
  record the tasks in the order they were stored and started.\<close>

type_synonym 'f tagged = "'f \<times> bool"

record 'f lsys =
  lp :: "'f tagged loop"
  phase :: "'f tagged phase"
  holder :: "nat option"
  posters :: "nat \<rightharpoonup> poster"
  accepted :: "'f tagged list"
  executed :: "'f tagged list"

definition user_code :: "'f phase \<Rightarrow> bool" where
  "user_code ph = (case ph of Idle \<Rightarrow> True | Dispatch _ \<Rightarrow> True | Timers \<Rightarrow> True | Batch _ _ \<Rightarrow> True | Done \<Rightarrow> True | _ \<Rightarrow> False)"

definition mk_task :: "'f \<Rightarrow> bool \<Rightarrow> int \<Rightarrow> 'f tagged pending" where
  "mk_task f h now = \<lparr>task = (f, h), enqueuedAt = now\<rparr>"

definition linit :: "'f lsys" where
  "linit = \<lparr>lp = (case EventLoop False of Inr l \<Rightarrow> l), phase = Idle, holder = None, posters = Map.empty,
     accepted = [], executed = []\<rparr>"

inductive lstep :: "'f lsys \<Rightarrow> 'f lsys \<Rightarrow> bool" where
  start: "phase s = Idle \<or> phase s = Done \<Longrightarrow>
    lstep s (s\<lparr>lp := (lp s)\<lparr>looping := True\<rparr>, phase := Check\<rparr>)"
| check_poll: "phase s = Check \<Longrightarrow> \<not> quit_flag (lp s) \<Longrightarrow> lstep s (s\<lparr>phase := Poll\<rparr>)"
| check_quit: "phase s = Check \<Longrightarrow> quit_flag (lp s) \<Longrightarrow> lstep s (s\<lparr>phase := FinalCheck\<rparr>)"
| poll_woken: "phase s = Poll \<Longrightarrow> wakeupCounter (lp s) > 0 \<Longrightarrow> lstep s (s\<lparr>phase := Dispatch True\<rparr>)"
| poll_other: "phase s = Poll \<Longrightarrow> lstep s (s\<lparr>phase := Dispatch False\<rparr>)"
| dispatch_wakeup: "phase s = Dispatch True \<Longrightarrow> lstep s (s\<lparr>lp := handleRead (lp s), phase := Dispatch False\<rparr>)"
| dispatch_done: "phase s = Dispatch False \<Longrightarrow> lstep s (s\<lparr>phase := Timers\<rparr>)"
| timers_done: "phase s = Timers \<Longrightarrow> lstep s (s\<lparr>phase := Swap False\<rparr>)"
| swap: "phase s = Swap fin \<Longrightarrow>
    lstep s (s\<lparr>lp := snd (snd (swap_pending (lp s))), phase := Batch fin (fst (swap_pending (lp s)))\<rparr>)"
| run: "phase s = Batch fin (f # fs) \<Longrightarrow> lstep s (s\<lparr>phase := Batch fin fs, executed := executed s @ [task f]\<rparr>)"
| batch_done: "phase s = Batch fin [] \<Longrightarrow>
    lstep s (s\<lparr>lp := (lp s)\<lparr>callingPendingFunctors := False\<rparr>, phase := if fin then FinalCheck else Check\<rparr>)"
| final_more: "phase s = FinalCheck \<Longrightarrow> holder s = None \<Longrightarrow> pendingFunctors (lp s) \<noteq> [] \<Longrightarrow>
    lstep s (s\<lparr>phase := Swap True\<rparr>)"
| final_close: "phase s = FinalCheck \<Longrightarrow> holder s = None \<Longrightarrow> pendingFunctors (lp s) = [] \<Longrightarrow>
    lstep s (s\<lparr>lp := (lp s)\<lparr>postingLoop := False, looping := False\<rparr>, phase := Done\<rparr>)"
| destroy: "phase s = Idle \<or> phase s = Done \<Longrightarrow> holder s = None \<Longrightarrow> \<forall>t. posters s t \<noteq> Some TDirect \<and> posters s t \<noteq> Some TQuit \<Longrightarrow>
    loop_dtor True (lp s) = Inr l \<Longrightarrow> lstep s (s\<lparr>lp := l, phase := Destroyed\<rparr>)"
| owner_queue: "user_code (phase s) \<Longrightarrow>
    lstep s (s\<lparr>lp := queuePrepared True (mk_task f False now) (lp s), accepted := accepted s @ [(f, False)]\<rparr>)"
| owner_handle: "user_code (phase s) \<Longrightarrow> holder s = None \<Longrightarrow> postingLoop (lp s) \<Longrightarrow>
    lstep s (s\<lparr>lp := queuePrepared True (mk_task f True now) (lp s), accepted := accepted s @ [(f, True)]\<rparr>)"
| owner_quit: "user_code (phase s) \<Longrightarrow> lstep s (s\<lparr>lp := quit True (lp s)\<rparr>)"
| post_direct: "phase s \<noteq> Destroyed \<Longrightarrow> posters s t = None \<Longrightarrow>
    lstep s (s\<lparr>lp := push_pending (mk_task f False now) (lp s), accepted := accepted s @ [(f, False)],
               posters := (posters s)(t \<mapsto> TDirect)\<rparr>)"
| post_handle: "holder s = None \<Longrightarrow> postingLoop (lp s) \<Longrightarrow> posters s t = None \<Longrightarrow>
    lstep s (s\<lparr>lp := push_pending (mk_task f True now) (lp s), accepted := accepted s @ [(f, True)],
               holder := Some t, posters := (posters s)(t \<mapsto> THandle)\<rparr>)"
| post_quit: "phase s \<noteq> Destroyed \<Longrightarrow> posters s t = None \<Longrightarrow>
    lstep s (s\<lparr>lp := (lp s)\<lparr>quit_flag := True\<rparr>, posters := (posters s)(t \<mapsto> TQuit)\<rparr>)"
| post_wakeup: "posters s t = Some p \<Longrightarrow>
    lstep s (s\<lparr>lp := Event_Loop.wakeup (lp s), posters := (posters s)(t := None),
               holder := if p = THandle then None else holder s\<rparr>)"

inductive lreach :: "'f lsys \<Rightarrow> bool" where
  lreach_init: "lreach linit"
| lreach_step: "lreach s \<Longrightarrow> lstep s s' \<Longrightarrow> lreach s'"

section \<open>Invariants of the interleavings\<close>

definition batch :: "'f phase \<Rightarrow> 'f pending list" where
  "batch ph = (case ph of Batch _ fs \<Rightarrow> fs | _ \<Rightarrow> [])"

definition outstanding :: "'f lsys \<Rightarrow> bool" where
  "outstanding s \<longleftrightarrow> (\<exists>t. posters s t = Some TDirect \<or> posters s t = Some THandle)"

definition before_swap :: "'f phase \<Rightarrow> bool" where
  "before_swap ph = (case ph of Dispatch _ \<Rightarrow> True | Timers \<Rightarrow> True | Swap _ \<Rightarrow> True | FinalCheck \<Rightarrow> True | _ \<Rightarrow> False)"

definition flags_inv :: "'f lsys \<Rightarrow> bool" where
  "flags_inv s \<longleftrightarrow>
     (looping (lp s) \<longleftrightarrow> phase s \<noteq> Idle \<and> phase s \<noteq> Done \<and> phase s \<noteq> Destroyed) \<and>
     (callingPendingFunctors (lp s) \<longleftrightarrow> (\<exists>fin fs. phase s = Batch fin fs))"

definition queue_inv :: "'f lsys \<Rightarrow> bool" where
  "queue_inv s \<longleftrightarrow>
     executed s @ map task (batch (phase s)) @ map task (pendingFunctors (lp s)) = accepted s \<and>
     pendingFunctorPeak (lp s) = length (pendingFunctors (lp s))"

definition handle_inv :: "'f lsys \<Rightarrow> bool" where
  "handle_inv s \<longleftrightarrow>
     (\<forall>t. posters s t = Some THandle \<longleftrightarrow> holder s = Some t) \<and>
     (holder s \<noteq> None \<longrightarrow> postingLoop (lp s)) \<and>
     (\<not> postingLoop (lp s) \<longrightarrow>
        (phase s = Destroyed \<or> (\<forall>f \<in> set (batch (phase s)) \<union> set (pendingFunctors (lp s)). \<not> snd (task f)))) \<and>
     (phase s = Done \<or> phase s = Destroyed \<longrightarrow> \<not> postingLoop (lp s))"

definition wakeup_inv :: "'f lsys \<Rightarrow> bool" where
  "wakeup_inv s \<longleftrightarrow>
     (pendingFunctors (lp s) \<noteq> [] \<longrightarrow> wakeupCounter (lp s) > 0 \<or> outstanding s \<or> before_swap (phase s)) \<and>
     (phase s = Poll \<and> quit_flag (lp s) \<longrightarrow> wakeupCounter (lp s) > 0 \<or> (\<exists>t. posters s t = Some TQuit))"

lemmas loop_simps = push_pending_def queuePrepared_def needs_wakeup_def wakeup_def writeWakeup_def drainWakeup_def
  handleRead_def quit_def swap_pending_def loop_dtor_def mk_task_def Let_def


lemma flags_step: "lstep s s' \<Longrightarrow> flags_inv s \<Longrightarrow> flags_inv s'"
  by (induction rule: lstep.induct) (auto simp: flags_inv_def loop_simps split: if_splits)

lemma queue_step: "lstep s s' \<Longrightarrow> queue_inv s \<Longrightarrow> queue_inv s'"
  by (induction rule: lstep.induct)
     (auto simp: queue_inv_def loop_simps batch_def user_code_def split: phase.splits if_splits)

lemma wakeup_step: "lstep s s' \<Longrightarrow> flags_inv s \<Longrightarrow> wakeup_inv s \<Longrightarrow> wakeup_inv s'"
  by (induction rule: lstep.induct)
     (auto simp: wakeup_inv_def flags_inv_def loop_simps before_swap_def user_code_def outstanding_def
       split: phase.splits if_splits, (metis option.distinct(1))+)

lemma handle_step: "lstep s s' \<Longrightarrow> handle_inv s \<Longrightarrow> handle_inv s'"
  by (induction rule: lstep.induct)
     (auto simp: handle_inv_def loop_simps batch_def user_code_def split: phase.splits if_splits,
      (metis option.distinct(1) option.inject)+)

lemma lreach_inv: "lreach s \<Longrightarrow> flags_inv s \<and> queue_inv s \<and> handle_inv s \<and> wakeup_inv s"
proof (induction rule: lreach.induct)
  case lreach_init
  then show ?case
    by (simp add: linit_def EventLoop_def flags_inv_def queue_inv_def handle_inv_def wakeup_inv_def batch_def)
next
  case (lreach_step s s')
  then show ?case using flags_step queue_step handle_step wakeup_step by blast
qed

text \<open>Two concrete interleavings: a handle posts while the loop is in \<open>poll\<close>, and a complete run of \<open>loop()\<close>
  with one task, during which the owner quits.\<close>

lemma linit_eq: "linit = \<lparr>lp = \<lparr>looping = False, quit_flag = False, callingPendingFunctors = False, pendingFunctors = [],
    pendingFunctorPeak = 0, wakeupCount = 0, wakeupCounter = 0, postingLoop = True\<rparr>, phase = Idle, holder = None,
    posters = Map.empty, accepted = [], executed = []\<rparr>"
  by (simp add: linit_def EventLoop_def)

lemma demo_posting:
  "\<exists>s :: nat lsys. lreach s \<and> phase s = Poll \<and> posters s = [1 \<mapsto> THandle] \<and> holder s = Some 1 \<and>
     lp s = \<lparr>looping = True, quit_flag = False, callingPendingFunctors = False, pendingFunctors = [mk_task 5 True 0],
       pendingFunctorPeak = 1, wakeupCount = 0, wakeupCounter = 0, postingLoop = True\<rparr> \<and>
     accepted s = [(5, True)] \<and> executed s = []"
proof -
  note r0 = lreach_init[unfolded linit_eq]
  note r1 = lreach_step[OF r0 lstep.start, simplified]
  note r2 = lreach_step[OF r1 lstep.check_poll, simplified]
  note r3 = lreach_step[OF r2 lstep.post_handle[where t = 1 and f = "5 :: nat" and now = 0], simplified]
  show ?thesis by (rule exI, rule conjI[OF r3]) (simp add: loop_simps)
qed

lemma demo_finished:
  "\<exists>s :: nat lsys. lreach s \<and> phase s = Done \<and> accepted s = [(5, True)] \<and> executed s = [(5, True)]"
proof -
  obtain s :: "nat lsys" where s: "lreach s" "phase s = Poll" "posters s = [1 \<mapsto> THandle]" "holder s = Some 1"
     "lp s = \<lparr>looping = True, quit_flag = False, callingPendingFunctors = False, pendingFunctors = [mk_task 5 True 0],
       pendingFunctorPeak = 1, wakeupCount = 0, wakeupCounter = 0, postingLoop = True\<rparr>"
     "accepted s = [(5, True)]" "executed s = []"
    using demo_posting by blast
  note r1 = lreach_step[OF s(1) lstep.post_wakeup[where t = 1 and p = THandle], simplified s, simplified]
  note r2 = lreach_step[OF r1 lstep.poll_woken, simplified s loop_simps, simplified]
  note r3 = lreach_step[OF r2 lstep.dispatch_wakeup, simplified loop_simps, simplified]
  note r4 = lreach_step[OF r3 lstep.dispatch_done, simplified]
  note r5 = lreach_step[OF r4 lstep.timers_done, simplified]
  note r6 = lreach_step[OF r5 lstep.swap[where fin = False], simplified loop_simps, simplified]
  note r7 = lreach_step[OF r6 lstep.run[where fin = False and f = "\<lparr>task = (5, True), enqueuedAt = 0\<rparr>" and fs = "[]"], simplified s, simplified]
  note r8 = lreach_step[OF r7 lstep.owner_quit, simplified user_code_def loop_simps, simplified]
  note r9 = lreach_step[OF r8 lstep.batch_done[where fin = False], simplified]
  note r10 = lreach_step[OF r9 lstep.check_quit, simplified]
  note r11 = lreach_step[OF r10 lstep.final_close, simplified]
  show ?thesis by (rule exI, rule conjI[OF r11]) (simp add: s mk_task_def)
qed

section \<open>Properties\<close>

text \<open>C6. No lost wakeup. In every interleaving with any number of posting threads: when the loop is
  about to block in \<open>poll\<close> and a task is pending or \<open>quit\<close> was requested, either the wakeup descriptor is
  readable, so \<open>poll\<close> returns, or a thread is still between its store and its wakeup, which is its next step.\<close>

theorem no_lost_wakeup:
  assumes "lreach s" "phase s = Poll" "pendingFunctors (lp s) \<noteq> [] \<or> quit_flag (lp s)"
  shows "wakeupCounter (lp s) > 0 \<or> (\<exists>t. posters s t \<noteq> None)"
  using lreach_inv[OF assms(1)] assms(2,3) by (auto simp: wakeup_inv_def outstanding_def before_swap_def)

theorem no_lost_wakeup_witness:
  "\<exists>s :: nat lsys. phase s = Poll \<and> pendingFunctors (lp s) \<noteq> [] \<and> wakeupCounter (lp s) = 0 \<and> (\<exists>t. posters s t \<noteq> None)"
proof -
  obtain s :: "nat lsys" where s: "lreach s" "phase s = Poll" "pendingFunctors (lp s) \<noteq> []" "wakeupCounter (lp s) = 0"
    using demo_posting by fastforce
  then show ?thesis using no_lost_wakeup[OF s(1,2)] by auto
qed

text \<open>The tasks of a loop run in the order they were queued, each at most once: what has been
  started, followed by the rest of the current batch and the queue, is the list of all tasks ever
  accepted, in order. The recorded peak is the length of the queue.\<close>

theorem tasks_fifo:
  assumes "lreach s"
  shows "executed s @ map task (batch (phase s)) @ map task (pendingFunctors (lp s)) = accepted s \<and>
     pendingFunctorPeak (lp s) = length (pendingFunctors (lp s))"
  using lreach_inv[OF assms] by (simp add: queue_inv_def)

theorem tasks_fifo_witness:
  "\<exists>s :: nat lsys. phase s = Done \<and> executed s = [(5, True)] \<and> pendingFunctorPeak (lp s) = length (pendingFunctors (lp s))"
proof -
  obtain s :: "nat lsys" where s: "lreach s" "phase s = Done" "executed s = [(5, True)]" using demo_finished by blast
  then show ?thesis using tasks_fifo[OF s(1)] by auto
qed

text \<open>Accepted work is not dropped: when \<open>loop()\<close> has returned, every task that a \<open>LoopHandle\<close> ever
  accepted has run, and from then on the handle answers \<open>false\<close> and leaves the loop alone.\<close>

theorem handle_accepted_runs:
  assumes "lreach s" "phase s = Done"
  shows "(\<forall>f. (f, True) \<in> set (accepted s) \<longrightarrow> (f, True) \<in> set (executed s)) \<and>
     LoopHandle_queue inLoop now (Some g) (Some (lp s)) = Inr (False, Some (lp s))"
proof
  have inv: "queue_inv s" "handle_inv s" using lreach_inv[OF assms(1)] by auto
  have closed: "\<not> postingLoop (lp s)" using inv(2) assms(2) by (simp add: handle_inv_def)
  then have "\<forall>f \<in> set (pendingFunctors (lp s)). \<not> snd (task f)"
    using inv(2) assms(2) by (auto simp: handle_inv_def)
  moreover have "accepted s = executed s @ map task (pendingFunctors (lp s))"
    using inv(1) assms(2) by (simp add: queue_inv_def batch_def)
  ultimately show "\<forall>f. (f, True) \<in> set (accepted s) \<longrightarrow> (f, True) \<in> set (executed s)" by auto (metis snd_conv)
  show "LoopHandle_queue inLoop now (Some g) (Some (lp s)) = Inr (False, Some (lp s))"
    using closed by (simp add: LoopHandle_queue_def)
qed

theorem handle_accepted_runs_witness:
  "\<exists>s :: nat lsys. accepted s = [(5, True)] \<and> (5, True) \<in> set (executed s) \<and>
     LoopHandle_queue True 0 (Some (7, True)) (Some (lp s)) = Inr (False, Some (lp s))"
proof -
  obtain s :: "nat lsys" where s: "lreach s" "phase s = Done" "accepted s = [(5, True)]" using demo_finished by blast
  then show ?thesis using handle_accepted_runs[OF s(1,2), of True 0 "(7, True)"] by auto
qed

text \<open>A handle never touches a destroyed loop: while a thread is inside the accepting part of
  \<open>LoopHandle::queue\<close>, up to its wakeup, the loop is not destroyed and its posting state is open.\<close>

theorem handle_loop_alive:
  assumes "lreach s" "posters s t = Some THandle"
  shows "phase s \<noteq> Destroyed \<and> phase s \<noteq> Done \<and> postingLoop (lp s)"
  using lreach_inv[OF assms(1)] assms(2) by (auto simp: handle_inv_def)


theorem handle_loop_alive_witness:
  "\<exists>s :: nat lsys. posters s 1 = Some THandle \<and> phase s \<noteq> Destroyed \<and> postingLoop (lp s)"
proof -
  obtain s :: "nat lsys" where s: "lreach s" "posters s 1 = Some THandle" using demo_posting by fastforce
  then show ?thesis using handle_loop_alive[OF s] by blast
qed

end
