(* ===== verification/Loop_Thread.thy ===== *)
theory Loop_Thread
  imports Event_Loop
begin

text \<open>
  \<^verbatim>\<open>EventLoopThread.cc\<close>: the life of one worker thread and of the \<open>EventLoop\<close> on its stack.

  Two threads meet here. The worker runs \<open>threadFunc\<close>; a controller, the holder of \<open>controlMutex_\<close>, runs
  \<open>startLoop\<close> or \<open>stop\<close>. \<open>wpc\<close> and \<open>cpc\<close> are their program counters; a section under \<open>mutex_\<close> is one step. A wait
  on \<open>condition_\<close> is a loop under the mutex: a thread that finds its predicate false goes to sleep (\<open>c_asleep\<close>, \<open>w_asleep\<close>) and
  has no step of its own until \<open>notify_all\<close> wakes it; it may also wake for no reason, and then tests again. \<open>worker_loop\<close> is the stack object, \<open>loop_ptr\<close> tells whether
  the member \<open>loop_\<close> points to it. A use of \<open>loop_\<close> after the object is gone sets \<open>dangling\<close>. User code on the
  worker (the initialiser, and everything \<open>loop()\<close> dispatches) may call \<open>stop\<close> and \<open>quit\<close>; a thread that
  has the loop's address may call \<open>quit\<close>.
\<close>

section \<open>State\<close>

datatype etState = ET_Idle | ET_Starting | ET_Running | ET_Exited | ET_Stopping | ET_Stopped | ET_Failed

datatype wpc =
    WNone | WConstruct | WPublish | WInit | WRun | WLoop | WAfter | WWait | WUnpublish | WDestroy | WFinal | WDone

datatype cpc =
    CFree | CStartReq | CStartJoin | CStartInit | CSpawn | CWait | CFailJoin | CStopReq | CStopJoin

record loop_thread =
  et_state :: etState
  loop_ptr :: bool
  workerId :: bool
  failure :: "cpp_error option"
  joinable :: bool
  worker :: wpc
  worker_loop :: "unit loop option"
  worker_failure :: "cpp_error option"
  control :: cpc
  control_failure :: "cpp_error option"
  dangling :: bool
  c_asleep :: bool
  w_asleep :: bool

definition EventLoopThread :: loop_thread where
  "EventLoopThread =
     \<lparr>et_state = ET_Idle, loop_ptr = False, workerId = False, failure = None, joinable = False, worker = WNone,
      worker_loop = None, worker_failure = None, control = CFree, control_failure = None, dangling = False, c_asleep = False, w_asleep = False\<rparr>"

text \<open>\<open>condition_.notify_all()\<close>.\<close>

definition notify_all :: "loop_thread \<Rightarrow> loop_thread" where
  "notify_all s = s\<lparr>c_asleep := False, w_asleep := False\<rparr>"

section \<open>Sections under the state mutex\<close>

text \<open>A call through \<open>loop_\<close>.\<close>

definition loop_quit :: "bool \<Rightarrow> loop_thread \<Rightarrow> loop_thread" where
  "loop_quit inLoop s =
     (if loop_ptr s
      then case worker_loop s of
             None \<Rightarrow> s\<lparr>dangling := True\<rparr>
           | Some l \<Rightarrow> s\<lparr>worker_loop := Some (quit inLoop l)\<rparr>
      else s)"

definition requestStopLocked :: "bool \<Rightarrow> loop_thread \<Rightarrow> loop_thread" where
  "requestStopLocked inLoop s =
     (let s = (if et_state s = ET_Starting \<or> et_state s = ET_Running \<or> et_state s = ET_Exited
               then s\<lparr>et_state := ET_Stopping\<rparr> else s)
      in notify_all (loop_quit inLoop s))"

definition requestStop :: "bool \<Rightarrow> loop_thread \<Rightarrow> loop_thread" where
  "requestStop inLoop s = requestStopLocked inLoop s"

text \<open>\<open>running\<close> dereferences \<open>loop_\<close> once the state says \<open>Running\<close>; \<open>None\<close> is a dangling or null pointer.\<close>

definition worker_running :: "loop_thread \<Rightarrow> bool option" where
  "worker_running s =
     (if et_state s = ET_Running
      then if loop_ptr s then map_option (\<lambda>l. \<not> quit_flag l) (worker_loop s) else None
      else Some False)"

text \<open>\<open>startLoop\<close> and \<open>stop\<close> called on the managed thread take no \<open>controlMutex_\<close>.\<close>

definition startLoop_managed :: "loop_thread \<Rightarrow> bool res" where
  "startLoop_managed s =
     (if et_state s = ET_Running then Inr (loop_ptr s)
      else Inl (Logic_error ''startLoop cannot re-enter during startup or stop''))"

definition stop_managed :: "loop_thread \<Rightarrow> loop_thread" where
  "stop_managed s = requestStop True s"

text \<open>The last section of \<open>threadFunc\<close>.\<close>

definition thread_exit :: "loop_thread \<Rightarrow> loop_thread" where
  "thread_exit s =
     notify_all (s\<lparr>loop_ptr := False, workerId := False, failure := worker_failure s,
       et_state := if worker_failure s = None then ET_Stopped else ET_Failed, worker := WDone\<rparr>)"

definition start_failure :: "cpp_error option \<Rightarrow> cpp_error" where
  "start_failure f = (case f of Some e \<Rightarrow> e | None \<Rightarrow> Runtime_error ''EventLoopThread stopped before startup completed'')"

definition startup_done :: "etState \<Rightarrow> bool" where
  "startup_done st \<longleftrightarrow> st = ET_Running \<or> st = ET_Exited \<or> st = ET_Stopped \<or> st = ET_Failed"

section \<open>Steps\<close>

text \<open>\<open>Ret_start\<close> carries what \<open>startLoop\<close> returns: an exception, or whether the pointer is not null.\<close>

datatype thread_label = By_worker | By_control | By_user | Ret_start "bool res" | Ret_stop

inductive tstep :: "loop_thread \<Rightarrow> thread_label \<Rightarrow> loop_thread \<Rightarrow> bool" where
  w_construct: "worker s = WConstruct \<Longrightarrow> EventLoop False = Inr l \<Longrightarrow>
    tstep s By_worker (s\<lparr>worker_loop := Some l, worker := WPublish\<rparr>)"
| w_construct_fail: "worker s = WConstruct \<Longrightarrow>
    tstep s By_worker (s\<lparr>worker_failure := Some e, worker := WFinal\<rparr>)"
| w_publish: "worker s = WPublish \<Longrightarrow>
    tstep s By_worker (s\<lparr>workerId := True, loop_ptr := True, worker := WInit\<rparr>)"
| w_init_throw: "worker s = WInit \<Longrightarrow>
    tstep s By_worker (s\<lparr>worker_failure := Some e, worker := WUnpublish\<rparr>)"
| w_init_quit: "worker s = WInit \<Longrightarrow> worker_loop s = Some l \<Longrightarrow> quit_flag l \<Longrightarrow>
    tstep s By_worker (s\<lparr>worker_failure := Some (Runtime_error ''EventLoopThread initializer requested quit''),
                        worker := WUnpublish\<rparr>)"
| w_init_ok: "worker s = WInit \<Longrightarrow> worker_loop s = Some l \<Longrightarrow> \<not> quit_flag l \<Longrightarrow>
    tstep s By_worker (s\<lparr>worker := WRun\<rparr>)"
| w_running: "worker s = WRun \<Longrightarrow> worker_loop s = Some l \<Longrightarrow>
    tstep s By_worker (notify_all (s\<lparr>et_state := ET_Running, worker_loop := Some (l\<lparr>looping := True\<rparr>), worker := WLoop\<rparr>))"
| w_loop_exit: "worker s = WLoop \<Longrightarrow> worker_loop s = Some l \<Longrightarrow> quit_flag l \<Longrightarrow>
    tstep s By_worker (s\<lparr>worker_loop := Some (l\<lparr>looping := False, postingLoop := False\<rparr>), worker := WAfter\<rparr>)"
| w_after_stopping: "worker s = WAfter \<Longrightarrow> et_state s = ET_Stopping \<Longrightarrow>
    tstep s By_worker (s\<lparr>worker := WUnpublish\<rparr>)"
| w_after_exited: "worker s = WAfter \<Longrightarrow> et_state s \<noteq> ET_Stopping \<Longrightarrow>
    tstep s By_worker (notify_all (s\<lparr>et_state := ET_Exited, worker := WWait\<rparr>))"
| w_sleep: "worker s = WWait \<Longrightarrow> \<not> w_asleep s \<Longrightarrow> et_state s \<noteq> ET_Stopping \<Longrightarrow>
    tstep s By_worker (s\<lparr>w_asleep := True\<rparr>)"
| w_wait: "worker s = WWait \<Longrightarrow> \<not> w_asleep s \<Longrightarrow> et_state s = ET_Stopping \<Longrightarrow>
    tstep s By_worker (s\<lparr>worker := WUnpublish\<rparr>)"
| w_unpublish: "worker s = WUnpublish \<Longrightarrow>
    tstep s By_worker (s\<lparr>loop_ptr := False, worker := WDestroy\<rparr>)"
| w_destroy: "worker s = WDestroy \<Longrightarrow> worker_loop s = Some l \<Longrightarrow> loop_dtor True l = Inr l' \<Longrightarrow>
    tstep s By_worker (s\<lparr>worker_loop := None, worker := WFinal\<rparr>)"
| w_final: "worker s = WFinal \<Longrightarrow> tstep s By_worker (thread_exit s)"
| u_stop: "worker s = WInit \<or> worker s = WLoop \<Longrightarrow> tstep s By_user (stop_managed s)"
| u_quit: "worker s = WInit \<or> worker s = WLoop \<Longrightarrow> worker_loop s = Some l \<Longrightarrow>
    tstep s By_user (s\<lparr>worker_loop := Some (quit True l)\<rparr>)"
| x_quit: "workerId s \<Longrightarrow> worker_loop s = Some l \<Longrightarrow>
    tstep s By_user (s\<lparr>worker_loop := Some (quit False l)\<rparr>)"
| spurious_c: "c_asleep s \<Longrightarrow> tstep s By_user (s\<lparr>c_asleep := False\<rparr>)"
| spurious_w: "w_asleep s \<Longrightarrow> tstep s By_user (s\<lparr>w_asleep := False\<rparr>)"
| x_request: "control s = CFree \<Longrightarrow> tstep s By_user (requestStop False s)"
| c_start_running: "control s = CFree \<Longrightarrow> et_state s = ET_Running \<Longrightarrow> tstep s (Ret_start (Inr (loop_ptr s))) s"
| c_start: "control s = CFree \<Longrightarrow> et_state s \<noteq> ET_Running \<Longrightarrow> tstep s By_user (s\<lparr>control := CStartReq\<rparr>)"
| c_start_req: "control s = CStartReq \<Longrightarrow> tstep s By_control ((requestStop False s)\<lparr>control := CStartJoin\<rparr>)"
| c_start_join: "control s = CStartJoin \<Longrightarrow> \<not> joinable s \<or> worker s = WDone \<Longrightarrow>
    tstep s By_control (s\<lparr>joinable := False, worker := WNone, control := CStartInit\<rparr>)"
| c_start_init: "control s = CStartInit \<Longrightarrow>
    tstep s By_control (s\<lparr>et_state := ET_Starting, failure := None, control := CSpawn\<rparr>)"
| c_spawn: "control s = CSpawn \<Longrightarrow>
    tstep s By_control (s\<lparr>joinable := True, worker := WConstruct, worker_failure := None, control := CWait\<rparr>)"
| c_spawn_fail: "control s = CSpawn \<Longrightarrow>
    tstep s (Ret_start (Inl e)) (s\<lparr>et_state := ET_Failed, failure := Some e, control := CFree\<rparr>)"
| c_sleep: "control s = CWait \<Longrightarrow> \<not> c_asleep s \<Longrightarrow> \<not> startup_done (et_state s) \<Longrightarrow>
    tstep s By_control (s\<lparr>c_asleep := True\<rparr>)"
| c_wait: "control s = CWait \<Longrightarrow> \<not> c_asleep s \<Longrightarrow> startup_done (et_state s) \<Longrightarrow> et_state s = ET_Running \<or> et_state s = ET_Exited \<Longrightarrow>
    tstep s (Ret_start (Inr (loop_ptr s))) (s\<lparr>control := CFree\<rparr>)"
| c_wait_fail: "control s = CWait \<Longrightarrow> \<not> c_asleep s \<Longrightarrow> startup_done (et_state s) \<Longrightarrow> et_state s \<noteq> ET_Running \<Longrightarrow> et_state s \<noteq> ET_Exited \<Longrightarrow>
    tstep s By_control (s\<lparr>control_failure := failure s, control := CFailJoin\<rparr>)"
| c_fail_join: "control s = CFailJoin \<Longrightarrow> worker s = WDone \<Longrightarrow>
    tstep s (Ret_start (Inl (start_failure (control_failure s)))) (s\<lparr>joinable := False, worker := WNone, control := CFree\<rparr>)"
| c_stop: "control s = CFree \<Longrightarrow> tstep s By_user (s\<lparr>control := CStopReq\<rparr>)"
| c_stop_req: "control s = CStopReq \<Longrightarrow> tstep s By_control ((requestStop False s)\<lparr>control := CStopJoin\<rparr>)"
| c_stop_join: "control s = CStopJoin \<Longrightarrow> \<not> joinable s \<or> worker s = WDone \<Longrightarrow>
    tstep s Ret_stop (s\<lparr>joinable := False, worker := WNone, control := CFree\<rparr>)"

inductive treach :: "loop_thread \<Rightarrow> bool" where
  treach_init: "treach EventLoopThread"
| treach_step: "treach s \<Longrightarrow> tstep s a s' \<Longrightarrow> treach s'"

section \<open>Invariant\<close>

definition published :: "wpc \<Rightarrow> bool" where
  "published w \<longleftrightarrow> w \<in> {WInit, WRun, WLoop, WAfter, WWait, WUnpublish}"

definition constructed :: "wpc \<Rightarrow> bool" where
  "constructed w \<longleftrightarrow> published w \<or> w = WPublish \<or> w = WDestroy"

definition object_inv :: "loop_thread \<Rightarrow> bool" where
  "object_inv s \<longleftrightarrow>
     (loop_ptr s \<longleftrightarrow> published (worker s)) \<and>
     (worker_loop s \<noteq> None \<longleftrightarrow> constructed (worker s)) \<and>
     (\<forall>l. worker_loop s = Some l \<longrightarrow> (looping l \<longleftrightarrow> worker s = WLoop)) \<and>
     (joinable s \<longleftrightarrow> worker s \<noteq> WNone) \<and> \<not> dangling s"

text \<open>What the state says at each point of the worker; \<open>q\<close> is the quit flag.\<close>

fun state_inv :: "wpc \<Rightarrow> cpc \<Rightarrow> etState \<Rightarrow> bool \<Rightarrow> bool \<Rightarrow> bool" where
  "state_inv WNone c st q f \<longleftrightarrow>
     (if c = CSpawn then st = ET_Starting else c \<noteq> CWait \<and> c \<noteq> CFailJoin \<and> (st = ET_Idle \<or> st = ET_Stopped \<or> st = ET_Failed))"
| "state_inv WConstruct c st q f \<longleftrightarrow> c = CWait \<and> st = ET_Starting \<and> \<not> f"
| "state_inv WPublish c st q f \<longleftrightarrow> c = CWait \<and> st = ET_Starting \<and> \<not> f"
| "state_inv WInit c st q f \<longleftrightarrow> c = CWait \<and> (st = ET_Starting \<or> st = ET_Stopping \<and> q) \<and> \<not> f"
| "state_inv WRun c st q f \<longleftrightarrow> c = CWait \<and> st = ET_Starting \<and> \<not> f"
| "state_inv WLoop c st q f \<longleftrightarrow> \<not> f \<and> (st = ET_Stopping \<and> q \<or> st = ET_Running \<and> c \<notin> {CStartJoin, CStopJoin}) \<and> c \<notin> {CStartInit, CSpawn, CFailJoin}"
| "state_inv WAfter c st q f \<longleftrightarrow> \<not> f \<and> (st = ET_Stopping \<or> st = ET_Running \<and> c \<notin> {CStartJoin, CStopJoin}) \<and> c \<notin> {CStartInit, CSpawn, CFailJoin}"
| "state_inv WWait c st q f \<longleftrightarrow> \<not> f \<and> (st = ET_Stopping \<or> st = ET_Exited \<and> c \<notin> {CStartJoin, CStopJoin}) \<and> c \<notin> {CStartInit, CSpawn, CFailJoin}"
| "state_inv WUnpublish c st q f \<longleftrightarrow>
     (if f then c = CWait \<and> (st = ET_Starting \<or> st = ET_Stopping) else st = ET_Stopping \<and> c \<notin> {CStartInit, CSpawn, CFailJoin})"
| "state_inv WDestroy c st q f \<longleftrightarrow>
     (if f then c = CWait \<and> (st = ET_Starting \<or> st = ET_Stopping) else st = ET_Stopping \<and> c \<notin> {CStartInit, CSpawn, CFailJoin})"
| "state_inv WFinal c st q f \<longleftrightarrow>
     (if f then c = CWait \<and> (st = ET_Starting \<or> st = ET_Stopping) else st = ET_Stopping \<and> c \<notin> {CStartInit, CSpawn, CFailJoin})"
| "state_inv WDone c st q f \<longleftrightarrow> c \<noteq> CStartInit \<and> c \<noteq> CSpawn \<and> st = (if f then ET_Failed else ET_Stopped)"

definition quit_of :: "loop_thread \<Rightarrow> bool" where
  "quit_of s \<longleftrightarrow> (\<exists>l. worker_loop s = Some l \<and> quit_flag l)"

text \<open>A thread sleeps only while its predicate is false: no notification was missed.\<close>

definition wait_inv :: "loop_thread \<Rightarrow> bool" where
  "wait_inv s \<longleftrightarrow>
     (c_asleep s \<longrightarrow> control s = CWait \<and> \<not> startup_done (et_state s)) \<and>
     (w_asleep s \<longrightarrow> worker s = WWait \<and> et_state s \<noteq> ET_Stopping)"

definition thread_inv :: "loop_thread \<Rightarrow> bool" where
  "thread_inv s \<longleftrightarrow>
     object_inv s \<and> wait_inv s \<and> state_inv (worker s) (control s) (et_state s) (quit_of s) (worker_failure s \<noteq> None)"


lemmas thread_ops = requestStop_def requestStopLocked_def loop_quit_def notify_all_def stop_managed_def thread_exit_def quit_def
  Event_Loop.wakeup_def writeWakeup_def Let_def

lemma quit_flag_quit [simp]: "quit_flag (quit b l)" "looping (quit b l) = looping l"
  by (simp_all add: quit_def Event_Loop.wakeup_def writeWakeup_def Let_def)

lemma thread_inv_init: "thread_inv EventLoopThread"
  by (simp add: thread_inv_def object_inv_def wait_inv_def EventLoopThread_def published_def constructed_def)

lemma published_facts [simp]:
  "published WInit" "published WRun" "published WLoop" "published WAfter" "published WWait" "published WUnpublish"
  "\<not> published WNone" "\<not> published WConstruct" "\<not> published WPublish" "\<not> published WDestroy" "\<not> published WFinal"
  "\<not> published WDone"
  by (simp_all add: published_def)

lemma constructed_facts [simp]:
  "constructed WInit" "constructed WRun" "constructed WLoop" "constructed WAfter" "constructed WWait" "constructed WUnpublish"
  "constructed WPublish" "constructed WDestroy"
  "\<not> constructed WNone" "\<not> constructed WConstruct" "\<not> constructed WFinal" "\<not> constructed WDone"
  by (simp_all add: constructed_def)

text \<open>\<open>requestStop\<close> as an update of the state and of the loop.\<close>

lemma requestStop_eq:
  assumes "object_inv s"
  shows "requestStop b s =
    s\<lparr>et_state := if et_state s = ET_Starting \<or> et_state s = ET_Running \<or> et_state s = ET_Exited then ET_Stopping else et_state s,
      worker_loop := if published (worker s) then map_option (quit b) (worker_loop s) else worker_loop s,
      c_asleep := False, w_asleep := False\<rparr>"
  using assms by (cases "worker_loop s") (auto simp: requestStop_def requestStopLocked_def loop_quit_def notify_all_def object_inv_def
      constructed_def Let_def)

lemma state_inv_spawn: "state_inv w CSpawn st q f \<Longrightarrow> w = WNone"
  by (cases w) (auto split: if_splits)

lemma object_step:
  "tstep s a s' \<Longrightarrow> object_inv s \<Longrightarrow> control s = CSpawn \<longrightarrow> worker s = WNone \<Longrightarrow> object_inv s'"
  by (induction rule: tstep.induct)
     (auto simp: object_inv_def requestStop_eq stop_managed_def thread_exit_def notify_all_def EventLoop_def constructed_def
        loop_dtor_def split: if_splits)

lemma quit_of_request:
  "object_inv s \<Longrightarrow> quit_of (requestStop b s) \<longleftrightarrow> quit_of s \<or> published (worker s)"
  by (auto simp: requestStop_eq quit_of_def object_inv_def constructed_def)

lemma et_state_request:
  "et_state (requestStop b s) =
     (if et_state s = ET_Starting \<or> et_state s = ET_Running \<or> et_state s = ET_Exited then ET_Stopping else et_state s)"
  by (auto simp: requestStop_def requestStopLocked_def loop_quit_def notify_all_def Let_def split: option.splits)

lemma state_request:
  assumes "object_inv s" "state_inv (worker s) c (et_state s) (quit_of s) f" "c = CWait \<longrightarrow> worker s \<in> {WInit, WLoop}"
    "c \<noteq> CSpawn"
  shows "state_inv (worker s) c (et_state (requestStop b s)) (quit_of (requestStop b s)) f"
  using assms by (cases "worker s") (auto simp: quit_of_request et_state_request)

text \<open>A stop request that the controller follows by a join.\<close>

lemma state_request_join:
  assumes "object_inv s" "state_inv (worker s) c (et_state s) (quit_of s) f" "c \<in> {CStartReq, CStopReq}"
    "c' \<in> {CStartJoin, CStopJoin}"
  shows "state_inv (worker s) c' (et_state (requestStop b s)) (quit_of (requestStop b s)) f"
  using assms by (cases "worker s") (auto simp: quit_of_request et_state_request)

lemma requestStop_keeps [simp]:
  "worker (requestStop b s) = worker s" "control (requestStop b s) = control s"
  "worker_failure (requestStop b s) = worker_failure s" "joinable (requestStop b s) = joinable s"
  "\<not> c_asleep (requestStop b s)" "\<not> w_asleep (requestStop b s)"
  by (auto simp: requestStop_def requestStopLocked_def loop_quit_def notify_all_def Let_def split: option.splits)

lemma quit_of_update [simp]:
  "quit_of (s\<lparr>worker_loop := Some l\<rparr>) = quit_flag l" "quit_of (s\<lparr>worker_loop := None\<rparr>) = False"
  "quit_of (s\<lparr>worker := w\<rparr>) = quit_of s" "quit_of (s\<lparr>control := c\<rparr>) = quit_of s"
  "quit_of (s\<lparr>et_state := st\<rparr>) = quit_of s" "quit_of (s\<lparr>joinable := j\<rparr>) = quit_of s"
  "quit_of (s\<lparr>loop_ptr := j\<rparr>) = quit_of s" "quit_of (s\<lparr>workerId := j\<rparr>) = quit_of s"
  "quit_of (s\<lparr>failure := e\<rparr>) = quit_of s" "quit_of (s\<lparr>worker_failure := e\<rparr>) = quit_of s"
  "quit_of (s\<lparr>control_failure := e\<rparr>) = quit_of s" "quit_of (notify_all s) = quit_of s"
  "quit_of (s\<lparr>c_asleep := b\<rparr>) = quit_of s" "quit_of (s\<lparr>w_asleep := b\<rparr>) = quit_of s"
  by (simp_all add: quit_of_def notify_all_def)

lemma notify_all_simps [simp]:
  "worker (notify_all s) = worker s" "control (notify_all s) = control s" "et_state (notify_all s) = et_state s"
  "worker_failure (notify_all s) = worker_failure s" "worker_loop (notify_all s) = worker_loop s"
  "\<not> c_asleep (notify_all s)" "\<not> w_asleep (notify_all s)"
  by (simp_all add: notify_all_def)

lemma state_step:
  assumes "tstep s a s'" "object_inv s"
    "state_inv (worker s) (control s) (et_state s) (quit_of s) (worker_failure s \<noteq> None)"
  shows "state_inv (worker s') (control s') (et_state s') (quit_of s') (worker_failure s' \<noteq> None)"
  using assms
proof (induction rule: tstep.induct)
  case (x_request s)
  then show ?case using state_request[of s "control s"] by simp
next
  case (u_stop s)
  then show ?case by (auto simp: stop_managed_def quit_of_request et_state_request)
next
  case (c_start_req s)
  then show ?case using state_request_join[of s CStartReq] by simp
next
  case (c_stop_req s)
  then show ?case using state_request_join[of s CStopReq] by simp
next
  case (c_start s)
  then show ?case by (cases "worker s") (simp_all split: if_splits)
next
  case (c_stop s)
  then show ?case by (cases "worker s") (simp_all split: if_splits)
next
  case (c_start_join s)
  then show ?case by (cases "worker s") (auto simp: object_inv_def)
next
  case (c_stop_join s)
  then show ?case by (cases "worker s") (auto simp: object_inv_def)
next
  case (x_quit s l)
  then show ?case by (cases "worker s") (auto split: if_splits)
next
  case (c_wait s)
  then show ?case by (cases "worker s") (auto split: if_splits)
next
  case (c_start_init s)
  then show ?case by (cases "worker s") (auto split: if_splits)
next
  case (c_spawn s)
  then show ?case by (cases "worker s") (auto split: if_splits)
next
  case (c_spawn_fail s)
  then show ?case by (cases "worker s") (auto split: if_splits)
next
  case (c_wait_fail s)
  then show ?case by (cases "worker s") (auto simp: startup_done_def split: if_splits)
qed (auto simp: thread_exit_def quit_of_def split: if_splits)

lemma wait_step:
  assumes "tstep s a s'" "object_inv s" "wait_inv s"
    "state_inv (worker s) (control s) (et_state s) (quit_of s) (worker_failure s \<noteq> None)"
  shows "wait_inv s'"
  using assms by (induction rule: tstep.induct) (auto simp: wait_inv_def stop_managed_def thread_exit_def object_inv_def)

lemma thread_inv_step: "tstep s a s' \<Longrightarrow> thread_inv s \<Longrightarrow> thread_inv s'"
  using object_step state_step wait_step state_inv_spawn by (metis (full_types) thread_inv_def)

lemma treach_inv: "treach s \<Longrightarrow> thread_inv s"
  by (induction rule: treach.induct) (auto intro: thread_inv_init thread_inv_step)


section \<open>Progress\<close>

fun worker_rank :: "wpc \<Rightarrow> nat" where
  "worker_rank WNone = 0" | "worker_rank WDone = 1" | "worker_rank WFinal = 2" | "worker_rank WDestroy = 3"
| "worker_rank WUnpublish = 4" | "worker_rank WWait = 5" | "worker_rank WAfter = 6" | "worker_rank WLoop = 7"
| "worker_rank WRun = 8" | "worker_rank WInit = 9" | "worker_rank WPublish = 10" | "worker_rank WConstruct = 11"

fun control_rank :: "cpc \<Rightarrow> nat" where
  "control_rank CFree = 0" | "control_rank CFailJoin = 1" | "control_rank CStopJoin = 1" | "control_rank CStopReq = 2"
| "control_rank CWait = 2" | "control_rank CSpawn = 3" | "control_rank CStartInit = 4" | "control_rank CStartJoin = 5"
| "control_rank CStartReq = 6"

definition steps_left :: "loop_thread \<Rightarrow> nat" where
  "steps_left s = 12 * control_rank (control s) + worker_rank (worker s)"

text \<open>Each thread that is awake may still go to sleep once.\<close>

definition awake :: "loop_thread \<Rightarrow> nat" where
  "awake s = of_bool (\<not> c_asleep s) + of_bool (\<not> w_asleep s)"

definition internal :: "thread_label \<Rightarrow> bool" where
  "internal a \<longleftrightarrow> a \<noteq> By_user"

text \<open>A step that does not just put its thread to sleep.\<close>

definition moves :: "loop_thread \<Rightarrow> thread_label \<Rightarrow> bool" where
  "moves s a \<longleftrightarrow> (a = By_worker \<longrightarrow> worker s = WWait \<longrightarrow> et_state s = ET_Stopping) \<and>
     (a = By_control \<longrightarrow> control s = CWait \<longrightarrow> startup_done (et_state s))"

lemma move_decreases:
  "tstep s a s' \<Longrightarrow> control s \<noteq> CFree \<Longrightarrow> internal a \<Longrightarrow> moves s a \<Longrightarrow> thread_inv s \<Longrightarrow> steps_left s' < steps_left s"
proof (induction rule: tstep.induct)
  case (c_start_join s)
  then show ?case by (auto simp: steps_left_def thread_inv_def object_inv_def)
next
  case (c_stop_join s)
  then show ?case by (auto simp: steps_left_def thread_inv_def object_inv_def)
qed (auto simp: steps_left_def internal_def moves_def thread_exit_def)

lemma sleep_decreases:
  "tstep s a s' \<Longrightarrow> internal a \<Longrightarrow> control s \<noteq> CFree \<Longrightarrow> \<not> moves s a \<Longrightarrow> steps_left s' = steps_left s \<and> awake s' < awake s"
  by (induction rule: tstep.induct) (auto simp: internal_def moves_def steps_left_def awake_def)

lemma awake_bound: "awake s \<le> 2"
  by (simp add: awake_def)

lemma worker_enabled:
  assumes "thread_inv s" "worker s \<notin> {WNone, WDone}" "worker s \<in> {WLoop, WAfter, WWait} \<longrightarrow> et_state s = ET_Stopping"
  shows "moves s By_worker \<and> (\<exists>s'. tstep s By_worker s')"
proof -
  have o: "object_inv s" and st: "state_inv (worker s) (control s) (et_state s) (quit_of s) (worker_failure s \<noteq> None)"
    and wi: "wait_inv s"
    using assms(1) by (auto simp: thread_inv_def)
  have dtor: "\<exists>l'. loop_dtor True l = Inr l'" if "worker s = WDestroy" "worker_loop s = Some l" for l
    using o that by (simp add: object_inv_def loop_dtor_def)
  obtain l0 :: "unit loop" where l0: "EventLoop False = Inr l0" by (simp add: EventLoop_def)
  have "\<exists>s'. tstep s By_worker s'"
  proof (cases "worker s")
    case WConstruct then show ?thesis using l0 by (blast intro: w_construct)
  next
    case WInit then show ?thesis using o by (auto simp: object_inv_def intro: w_init_throw)
  next
    case WRun then show ?thesis using o by (auto simp: object_inv_def intro: w_running)
  next
    case WLoop then show ?thesis using o st assms(3) by (auto simp: object_inv_def quit_of_def intro: w_loop_exit)
  next
    case WDestroy
    then obtain l where "worker_loop s = Some l" using o by (auto simp: object_inv_def)
    then show ?thesis using WDestroy dtor by (blast intro: w_destroy)
  next
    case WWait then show ?thesis using assms(3) wi by (auto simp: wait_inv_def intro: w_wait)
  qed (use assms in \<open>auto intro: w_publish w_after_stopping w_unpublish w_final\<close>)
  then show ?thesis using assms(3) by (auto simp: moves_def)
qed

lemma control_enabled:
  assumes "thread_inv s" "control s \<noteq> CFree"
  shows "\<exists>a s'. internal a \<and> moves s a \<and> tstep s a s'"
proof -
  have w: "\<exists>a s'. internal a \<and> moves s a \<and> tstep s a s'" if "moves s By_worker \<and> (\<exists>s'. tstep s By_worker s')"
    using that by (auto simp: internal_def)
  have o: "object_inv s" and st: "state_inv (worker s) (control s) (et_state s) (quit_of s) (worker_failure s \<noteq> None)"
    and wi: "wait_inv s"
    using assms(1) by (auto simp: thread_inv_def)
  have join: "moves s By_worker \<and> (\<exists>s'. tstep s By_worker s')" if "control s \<in> {CStartJoin, CStopJoin}" "joinable s" "worker s \<noteq> WDone"
    using that o st by (intro worker_enabled assms(1)) (auto simp: object_inv_def)
  have c: "moves s a" if "internal a" "a \<noteq> By_worker" "control s \<noteq> CWait \<or> startup_done (et_state s)" for a
    using that by (auto simp: moves_def)
  show ?thesis
  proof (cases "control s")
    case CWait
    show ?thesis
    proof (cases "startup_done (et_state s)")
      case True
      then have "\<not> c_asleep s" using wi by (auto simp: wait_inv_def)
      then obtain a s' where "internal a" "a \<noteq> By_worker" "tstep s a s'" using CWait True
        by (cases "et_state s = ET_Running \<or> et_state s = ET_Exited") (auto simp: internal_def dest: c_wait c_wait_fail)
      then show ?thesis using c True by blast
    next
      case False
      then have "worker s \<notin> {WNone, WDone} \<and> (worker s \<in> {WLoop, WAfter, WWait} \<longrightarrow> et_state s = ET_Stopping)"
        using st CWait by (cases "worker s") (simp_all add: startup_done_def split: if_splits)
      then show ?thesis using worker_enabled[OF assms(1)] w by blast
    qed
  next
    case CFailJoin then show ?thesis using st
      by (cases "worker s") (auto simp: internal_def moves_def split: if_splits intro: c_fail_join)
  next
    case CStartJoin then show ?thesis using join w by (auto simp: internal_def moves_def intro: c_start_join)
  next
    case CStopJoin then show ?thesis using join w by (auto simp: internal_def moves_def intro: c_stop_join)
  qed (use assms(2) in \<open>auto simp: internal_def moves_def intro: c_start_req c_start_init c_spawn c_stop_req\<close>)
qed

lemma user_keeps: "tstep s a s' \<Longrightarrow> a = By_user \<Longrightarrow> control s \<noteq> CFree \<Longrightarrow> steps_left s' = steps_left s \<and> control s' = control s"
  by (induction rule: tstep.induct) (auto simp: steps_left_def stop_managed_def)


section \<open>What the calls return\<close>

inductive_cases Ret_startE: "tstep s (Ret_start (Inr p)) s'"
inductive_cases Ret_stopE: "tstep s Ret_stop s'"

lemma running_alive: "thread_inv s \<Longrightarrow> worker_running s \<noteq> None"
  by (cases "worker s") (auto simp: thread_inv_def object_inv_def worker_running_def split: if_splits)

lemma dtor_ok: "thread_inv s \<Longrightarrow> worker s = WDestroy \<Longrightarrow> \<exists>l l'. worker_loop s = Some l \<and> loop_dtor True l = Inr l'"
  by (auto simp: thread_inv_def object_inv_def loop_dtor_def)

lemma published_running:
  "thread_inv s \<Longrightarrow> et_state s = ET_Running \<or> et_state s = ET_Exited \<Longrightarrow> loop_ptr s \<and> worker_loop s \<noteq> None"
  by (cases "worker s") (auto simp: thread_inv_def object_inv_def split: if_splits)

lemma start_alive: "thread_inv s \<Longrightarrow> tstep s (Ret_start (Inr p)) s' \<Longrightarrow> p \<and> worker_loop s' \<noteq> None"
  by (erule Ret_startE) (use published_running in fastforce)+

lemma stop_clean:
  "thread_inv s \<Longrightarrow> tstep s Ret_stop s' \<Longrightarrow>
     \<not> joinable s' \<and> \<not> loop_ptr s' \<and> worker_loop s' = None \<and> et_state s' \<in> {ET_Idle, ET_Stopped, ET_Failed}"
  by (erule Ret_stopE) (auto simp: thread_inv_def object_inv_def split: if_splits)

section \<open>Example\<close>

text \<open>A step whose target is known up to simplification.\<close>

lemma treach_to: "treach s \<Longrightarrow> tstep s a s' \<Longrightarrow> s' = t \<Longrightarrow> treach t"
  by (auto intro: treach_step)

lemma demo_spawned:
  "treach (EventLoopThread\<lparr>et_state := ET_Starting, joinable := True, worker := WConstruct, control := CWait\<rparr>)"
proof -
  have "treach (EventLoopThread\<lparr>control := CStartReq\<rparr>)"
    by (rule treach_to[OF treach_init c_start]) (simp_all add: EventLoopThread_def)
  then have "treach (EventLoopThread\<lparr>control := CStartJoin\<rparr>)"
    by (rule treach_to[OF _ c_start_req]) (simp_all add: EventLoopThread_def thread_ops)
  then have "treach (EventLoopThread\<lparr>control := CStartInit\<rparr>)"
    by (rule treach_to[OF _ c_start_join]) (simp_all add: EventLoopThread_def)
  then have "treach (EventLoopThread\<lparr>et_state := ET_Starting, control := CSpawn\<rparr>)"
    by (rule treach_to[OF _ c_start_init]) (simp_all add: EventLoopThread_def)
  then show ?thesis
    by (rule treach_to[OF _ c_spawn]) (simp_all add: EventLoopThread_def)
qed

definition demo_asleep :: loop_thread where
  "demo_asleep = EventLoopThread\<lparr>et_state := ET_Starting, joinable := True, worker := WConstruct, control := CWait, c_asleep := True\<rparr>"

lemma demo_asleep_reach: "treach demo_asleep"
  by (rule treach_to[OF demo_spawned c_sleep]) (simp_all add: demo_asleep_def EventLoopThread_def startup_done_def)

definition fresh_loop :: "unit loop" where
  "fresh_loop = \<lparr>looping = False, quit_flag = False, callingPendingFunctors = False, pendingFunctors = [],
     pendingFunctorPeak = 0, wakeupCount = 0, wakeupCounter = 0, postingLoop = True\<rparr>"

definition demo_loop :: loop_thread where
  "demo_loop = EventLoopThread\<lparr>et_state := ET_Running, joinable := True, worker := WLoop, control := CWait,
     loop_ptr := True, workerId := True, worker_loop := Some (fresh_loop\<lparr>looping := True\<rparr>)\<rparr>"

lemma demo_running: "treach demo_loop"
proof -
  have "treach (EventLoopThread\<lparr>et_state := ET_Starting, joinable := True, worker := WPublish, control := CWait,
      worker_loop := Some fresh_loop\<rparr>)"
    by (rule treach_to[OF demo_spawned w_construct]) (simp_all add: EventLoopThread_def EventLoop_def fresh_loop_def)
  then have "treach (EventLoopThread\<lparr>et_state := ET_Starting, joinable := True, worker := WInit, control := CWait,
      worker_loop := Some fresh_loop, workerId := True, loop_ptr := True\<rparr>)"
    by (rule treach_to[OF _ w_publish]) (simp_all add: EventLoopThread_def)
  then have "treach (EventLoopThread\<lparr>et_state := ET_Starting, joinable := True, worker := WRun, control := CWait,
      worker_loop := Some fresh_loop, workerId := True, loop_ptr := True\<rparr>)"
    by (rule treach_to[OF _ w_init_ok[where l = fresh_loop]]) (simp_all add: EventLoopThread_def fresh_loop_def)
  then show ?thesis unfolding demo_loop_def
    by (rule treach_to[OF _ w_running]) (simp_all add: EventLoopThread_def notify_all_def)
qed

section \<open>Properties\<close>

text \<open>C28. The call \<open>startLoop\<close> or \<open>stop\<close> that holds \<open>controlMutex_\<close> always returns. No notification is missed: a thread sleeps
  on the condition variable only while what it waits for is false. While the call is in progress some step of it or of the worker
  is possible that lowers \<open>steps_left\<close> (so neither the condition variable nor a join can block both threads); every step of the two
  lowers \<open>steps_left\<close>, or puts an awake thread to sleep and leaves it; calls that user code or other threads make meanwhile, and
  spurious wake-ups, do not raise it. The worker's own callbacks and its \<open>loop()\<close> are taken to return, the latter once the quit
  flag is set (\<open>Event_Loop\<close> shows that \<open>quit\<close> wakes it).\<close>

theorem control_call_returns:
  assumes "treach s" "control s \<noteq> CFree"
  shows "(c_asleep s \<longrightarrow> \<not> startup_done (et_state s)) \<and> (w_asleep s \<longrightarrow> et_state s \<noteq> ET_Stopping) \<and>
    (\<exists>a s'. internal a \<and> tstep s a s' \<and> steps_left s' < steps_left s) \<and>
    (\<forall>a s'. internal a \<and> tstep s a s' \<longrightarrow>
       steps_left s' < steps_left s \<or> steps_left s' = steps_left s \<and> awake s' < awake s) \<and>
    (\<forall>s'. tstep s By_user s' \<longrightarrow> steps_left s' = steps_left s \<and> control s' = control s)"
proof -
  have inv: "thread_inv s" by (rule treach_inv[OF assms(1)])
  then have "(c_asleep s \<longrightarrow> \<not> startup_done (et_state s)) \<and> (w_asleep s \<longrightarrow> et_state s \<noteq> ET_Stopping)"
    by (auto simp: thread_inv_def wait_inv_def)
  then show ?thesis
    using control_enabled[OF inv assms(2)] move_decreases[OF _ assms(2) _ _ inv] sleep_decreases[OF _ _ assms(2)]
      user_keeps[OF _ _ assms(2)] by blast
qed

text \<open>The starter sleeps until the worker announces \<open>Running\<close>.\<close>

theorem control_call_returns_witness:
  "(\<exists>a s'. internal a \<and> tstep demo_asleep a s' \<and> steps_left s' < 35) \<and> c_asleep demo_asleep \<and> control demo_asleep = CWait"
proof -
  have "control demo_asleep \<noteq> CFree" "steps_left demo_asleep = 35" "c_asleep demo_asleep" "control demo_asleep = CWait"
    by (simp_all add: demo_asleep_def EventLoopThread_def steps_left_def)
  then show ?thesis using control_call_returns[OF demo_asleep_reach] by simp
qed

text \<open>C29. The member \<open>loop_\<close> never dangles: \<open>requestStop\<close> and \<open>running\<close> reach a live loop or none, a loop is not
  destroyed while it runs, a successful \<open>startLoop\<close> returns a pointer that is not null to a loop that is still
  alive, and once \<open>stop\<close> has returned no thread is left and nothing is published.\<close>

theorem loop_never_dangles:
  assumes "treach s"
  shows "\<not> dangling s \<and> worker_running s \<noteq> None \<and>
    (loop_ptr s \<longrightarrow> worker_loop s \<noteq> None) \<and>
    (worker s = WDestroy \<longrightarrow> (\<exists>l l'. worker_loop s = Some l \<and> loop_dtor True l = Inr l')) \<and>
    (\<forall>p s'. tstep s (Ret_start (Inr p)) s' \<longrightarrow> p \<and> worker_loop s' \<noteq> None) \<and>
    (\<forall>s'. tstep s Ret_stop s' \<longrightarrow> \<not> joinable s' \<and> \<not> loop_ptr s' \<and> worker_loop s' = None \<and> et_state s' \<in> {ET_Idle, ET_Stopped, ET_Failed})"
proof -
  have inv: "thread_inv s" by (rule treach_inv[OF assms])
  then have "\<not> dangling s \<and> (loop_ptr s \<longrightarrow> worker_loop s \<noteq> None)"
    by (auto simp: thread_inv_def object_inv_def constructed_def)
  then show ?thesis using running_alive[OF inv] dtor_ok[OF inv] start_alive[OF inv] stop_clean[OF inv] by blast
qed

theorem loop_never_dangles_witness:
  "worker_running demo_loop = Some True \<and> loop_ptr demo_loop \<and> worker_loop demo_loop \<noteq> None"
  using loop_never_dangles[OF demo_running] by (simp add: demo_loop_def EventLoopThread_def worker_running_def fresh_loop_def)

end
