(* ===== verification/Thread_Pool.thy ===== *)
theory Thread_Pool
  imports Loop_Thread
begin

text \<open>
  \<^verbatim>\<open>EventLoopThreadPool.cc\<close>: the pool of worker loops of a server.

  A worker is known by its index in the run of \<open>start\<close> that made it. What its \<open>EventLoopThread\<close> answers is
  a parameter: \<open>starts i\<close> is the exception \<open>startLoop\<close> throws for worker \<open>i\<close>, \<open>running i\<close> the answer of
  \<open>running()\<close> (\<open>Loop_Thread\<close> shows that both return). \<open>history\<close> records the calls the pool makes on its
  workers. The initialiser runs on the base loop only when there are no workers; it is then a list of calls
  of the pool's own interface, the first of which that throws ends it.
\<close>

section \<open>State\<close>

datatype poolState = PStopped | PStarting | PRunning | PStopping

datatype loop_ref = Base_loop | Worker_loop nat

datatype worker_call = Started nat | Stop_requested nat | Joined nat

record pool =
  p_state :: poolState
  numThreads :: int
  next_loop :: int
  threads :: "nat list"
  loops :: "loop_ref list"
  history :: "worker_call list"

type_synonym 'a pool_op = "pool \<Rightarrow> 'a res \<times> pool"

definition EventLoopThreadPool :: "bool \<Rightarrow> pool res" where
  "EventLoopThreadPool baseLoop =
     (if \<not> baseLoop then Inl (Invalid_argument ''thread pool requires a base loop'')
      else Inr \<lparr>p_state = PStopped, numThreads = 0, next_loop = 0, threads = [], loops = [], history = []\<rparr>)"

section \<open>Operations\<close>

definition setThreadNum :: "int \<Rightarrow> unit pool_op" where
  "setThreadNum n p =
     (if n < 0 then (Inl (Invalid_argument ''worker count must be non-negative''), p)
      else if p_state p \<noteq> PStopped then (Inl (Logic_error ''worker count can only change while stopped''), p)
      else (Inr (), p\<lparr>numThreads := n\<rparr>))"

definition in_transition :: "pool \<Rightarrow> bool" where
  "in_transition p \<longleftrightarrow> p_state p = PStarting \<or> p_state p = PStopping"

text \<open>\<open>assertInLoopThread\<close> and then \<open>assertStable\<close>: what the public calls begin with.\<close>

definition assertStable :: "bool \<Rightarrow> pool \<Rightarrow> cpp_error option" where
  "assertStable inLoop p =
     (if \<not> inLoop then Some (Runtime_error ''EventLoop used from a different thread'')
      else if in_transition p then Some (Logic_error ''thread pool control/selection cannot re-enter a transition'')
      else None)"

definition stopWorkers :: "nat list \<Rightarrow> pool \<Rightarrow> pool" where
  "stopWorkers ts p = p\<lparr>history := history p @ map Stop_requested ts @ map Joined ts\<rparr>"

text \<open>The loop that starts the workers \<open>i, i + 1, \<dots>\<close>; \<open>n\<close> counts those still to start. It gives the threads
  started so far and the exception that ended it.\<close>

fun start_workers :: "(nat \<Rightarrow> cpp_error option) \<Rightarrow> nat \<Rightarrow> nat \<Rightarrow> nat list \<Rightarrow> pool \<Rightarrow> (cpp_error option \<times> nat list) \<times> pool" where
  "start_workers starts i 0 ts p = ((None, ts), p)"
| "start_workers starts i (Suc n) ts p =
     (case starts i of
        Some e \<Rightarrow> ((Some e, ts), p)
      | None \<Rightarrow> start_workers starts (Suc i) n (ts @ [i]) (p\<lparr>history := history p @ [Started i]\<rparr>))"

definition start_failed :: "cpp_error \<Rightarrow> nat list \<Rightarrow> unit pool_op" where
  "start_failed e ts p =
     (let p = p\<lparr>p_state := PStopping\<rparr>;
          p = stopWorkers ts p;
          p = p\<lparr>p_state := PStopped\<rparr>
      in (Inl e, p))"

definition pool_start :: "unit pool_op option \<Rightarrow> (nat \<Rightarrow> cpp_error option) \<Rightarrow> bool \<Rightarrow> unit pool_op" where
  "pool_start init starts inLoop p =
     (case assertStable inLoop p of
        Some e \<Rightarrow> (Inl e, p)
      | None \<Rightarrow>
          if p_state p = PRunning then (Inr (), p)
          else
            let p = p\<lparr>p_state := PStarting\<rparr>
            in case start_workers starts 0 (nat (numThreads p)) [] p of
                 ((Some e, ts), p) \<Rightarrow> start_failed e ts p
               | ((None, ts), p) \<Rightarrow>
                   (case (if numThreads p = 0 then case init of Some cb \<Rightarrow> cb p | None \<Rightarrow> (Inr (), p) else (Inr (), p)) of
                      (Inl e, p) \<Rightarrow> start_failed e ts p
                    | (Inr _, p) \<Rightarrow>
                        (Inr (), p\<lparr>threads := ts, loops := map Worker_loop ts, next_loop := 0, p_state := PRunning\<rparr>)))"

definition pool_stop :: "bool \<Rightarrow> unit pool_op" where
  "pool_stop inLoop p =
     (case assertStable inLoop p of
        Some e \<Rightarrow> (Inl e, p)
      | None \<Rightarrow>
          let p = p\<lparr>p_state := PStopping\<rparr>;
              p = (stopWorkers (threads p) p)\<lparr>threads := []\<rparr>;
              p = p\<lparr>loops := []\<rparr>;
              p = p\<lparr>p_state := PStopped\<rparr>
          in (Inr (), p\<lparr>next_loop := 0\<rparr>))"

text \<open>\<open>std::vector\<close> subscripts: \<open>Out_of_bounds\<close> where the code would read outside the vector.\<close>

definition getNextLoop :: "(nat \<Rightarrow> bool) \<Rightarrow> bool \<Rightarrow> loop_ref pool_op" where
  "getNextLoop running inLoop p =
     (case assertStable inLoop p of
        Some e \<Rightarrow> (Inl e, p)
      | None \<Rightarrow>
          if loops p = [] then (Inr Base_loop, p)
          else case (nth_opt (nat (next_loop p)) (threads p), nth_opt (nat (next_loop p)) (loops p)) of
                 (Some t, Some l) \<Rightarrow>
                   if \<not> running t then (Inl (Runtime_error ''selected worker has stopped dispatching''), p)
                   else let p = p\<lparr>next_loop := next_loop p + 1\<rparr>;
                            p = (if next_loop p \<ge> int (length (loops p)) then p\<lparr>next_loop := 0\<rparr> else p)
                        in (Inr l, p)
               | _ \<Rightarrow> (Inl Out_of_bounds, p))"

definition getAllLoops :: "bool \<Rightarrow> pool \<Rightarrow> loop_ref list res" where
  "getAllLoops inLoop p =
     (case assertStable inLoop p of
        Some e \<Rightarrow> Inl e
      | None \<Rightarrow> Inr (if loops p = [] then [Base_loop] else loops p))"

text \<open>The destructor, on a thread that is (\<open>managed\<close>) or is not one of the workers.\<close>

definition pool_dtor :: "bool \<Rightarrow> pool \<Rightarrow> pool res" where
  "pool_dtor managed p =
     (if managed then Inl (Fatal ''EventLoopThreadPool destroyed from one of its workers'')
      else Inr ((stopWorkers (threads p) (p\<lparr>p_state := PStopping\<rparr>))\<lparr>threads := []\<rparr>))"

section \<open>Runs\<close>

datatype pool_api = PSetNum int | PStart "pool_api list option" | PStop | PNext | PAll

text \<open>One call from the base loop. A nested \<open>start\<close> throws before it reaches its callback, so the callback's
  own calls are run with no further callback.\<close>

definition lift_op :: "'a res \<times> pool \<Rightarrow> unit res \<times> pool" where
  "lift_op rp = (case rp of (Inl e, p) \<Rightarrow> (Inl e, p) | (Inr _, p) \<Rightarrow> (Inr (), p))"

definition pool_call :: "unit pool_op option \<Rightarrow> (nat \<Rightarrow> cpp_error option) \<Rightarrow> (nat \<Rightarrow> bool) \<Rightarrow> pool_api \<Rightarrow> unit pool_op" where
  "pool_call cb starts running a p =
     (case a of
        PSetNum n \<Rightarrow> setThreadNum n p
      | PStart _ \<Rightarrow> pool_start cb starts True p
      | PStop \<Rightarrow> pool_stop True p
      | PNext \<Rightarrow> lift_op (getNextLoop running True p)
      | PAll \<Rightarrow> lift_op (getAllLoops True p, p))"

fun run_script :: "(nat \<Rightarrow> cpp_error option) \<Rightarrow> (nat \<Rightarrow> bool) \<Rightarrow> pool_api list \<Rightarrow> unit pool_op" where
  "run_script starts running [] p = (Inr (), p)"
| "run_script starts running (a # as) p =
     (case pool_call None starts running a p of
        (Inl e, p) \<Rightarrow> (Inl e, p)
      | (Inr _, p) \<Rightarrow> run_script starts running as p)"

definition pool_do :: "(nat \<Rightarrow> cpp_error option) \<Rightarrow> (nat \<Rightarrow> bool) \<Rightarrow> pool_api \<Rightarrow> unit pool_op" where
  "pool_do starts running a p =
     pool_call (case a of PStart (Some as) \<Rightarrow> Some (run_script starts running as) | _ \<Rightarrow> None) starts running a p"

inductive preach :: "pool \<Rightarrow> bool" where
  preach_init: "EventLoopThreadPool True = Inr p \<Longrightarrow> preach p"
| preach_call: "preach p \<Longrightarrow> pool_do starts running a p = (r, p') \<Longrightarrow> preach p'"

section \<open>Invariant\<close>

text \<open>The workers whose thread has been started and not joined, in starting order.\<close>

fun live_step :: "nat list \<Rightarrow> worker_call \<Rightarrow> nat list" where
  "live_step ws (Started i) = ws @ [i]"
| "live_step ws (Stop_requested i) = ws"
| "live_step ws (Joined i) = remove1 i ws"

definition live_workers :: "pool \<Rightarrow> nat list" where
  "live_workers p = foldl live_step [] (history p)"

definition pool_inv :: "pool \<Rightarrow> bool" where
  "pool_inv p \<longleftrightarrow>
     \<not> in_transition p \<and> numThreads p \<ge> 0 \<and>
     threads p = (if p_state p = PRunning then [0..<nat (numThreads p)] else []) \<and>
     loops p = map Worker_loop (threads p) \<and> live_workers p = threads p \<and>
     0 \<le> next_loop p \<and> (if loops p = [] then next_loop p = 0 else next_loop p < int (length (loops p)))"

lemma foldl_requests [simp]: "foldl live_step ws (map Stop_requested ts) = ws"
  by (induction ts arbitrary: ws) simp_all

lemma foldl_joins [simp]: "foldl live_step ts (map Joined ts) = []"
  by (induction ts) simp_all

lemma start_workers_eq:
  "start_workers starts i n ts p = ((err, ts'), p') \<Longrightarrow> live_workers p = ts \<Longrightarrow>
     live_workers p' = ts' \<and> p' = p\<lparr>history := history p'\<rparr> \<and>
     (if err = None then ts' = ts @ [i..<i + n] \<and> (\<forall>j. i \<le> j \<and> j < i + n \<longrightarrow> starts j = None)
      else \<exists>j. i \<le> j \<and> j < i + n \<and> starts j = err \<and> ts' = ts @ [i..<j])"
proof (induction starts i n ts p arbitrary: err ts' p' rule: start_workers.induct)
  case (1 starts i ts p)
  then show ?case by auto
next
  case (2 starts i n ts p)
  show ?case
  proof (cases "starts i")
    case (Some e)
    then have "err = Some e" "ts' = ts" "p' = p" using 2(2) by simp_all
    then show ?thesis using 2(3) Some by auto
  next
    case None
    let ?p = "p\<lparr>history := history p @ [Started i]\<rparr>"
    have live: "live_workers ?p = ts @ [i]" using 2(3) by (simp add: live_workers_def)
    have run: "start_workers starts (Suc i) n (ts @ [i]) ?p = ((err, ts'), p')" using 2(2) None by simp
    note ih = 2(1)[OF None run live]
    have h: "p' = p\<lparr>history := history p'\<rparr>" using ih by (metis (no_types, lifting) pool.surjective pool.update_convs(6))
    show ?thesis
    proof (cases err)
      case None
      then have ts': "ts' = (ts @ [i]) @ [Suc i..<Suc i + n]"
        and all: "\<forall>j. Suc i \<le> j \<and> j < Suc i + n \<longrightarrow> starts j = None" using ih by auto
      have "starts j = None" if "i \<le> j" "j < i + Suc n" for j
        using that all \<open>starts i = None\<close> by (cases "j = i") auto
      moreover have "ts' = ts @ [i..<i + Suc n]" using ts' by (simp add: upt_rec)
      ultimately show ?thesis using ih h None by simp
    next
      case (Some e)
      then obtain j where "Suc i \<le> j" "j < Suc i + n" "starts j = err" "ts' = (ts @ [i]) @ [Suc i..<j]" using ih by auto
      then have "i \<le> j \<and> j < i + Suc n \<and> starts j = err \<and> ts' = ts @ [i..<j]" by (simp add: upt_conv_Cons)
      then show ?thesis using ih h Some by auto
    qed
  qed
qed

lemma live_stopWorkers: "live_workers p = ts \<Longrightarrow> live_workers (stopWorkers ts p) = []"
  by (simp add: live_workers_def stopWorkers_def)

text \<open>No call gets through while the pool is starting or stopping.\<close>

lemma call_refused:
  "in_transition p \<Longrightarrow> \<exists>e. pool_call cb starts running a p = (Inl e, p)"
  by (cases a) (auto simp: pool_call_def setThreadNum_def pool_start_def pool_stop_def getNextLoop_def
      getAllLoops_def assertStable_def lift_op_def in_transition_def)

lemma script_in_transition: "in_transition p \<Longrightarrow> \<exists>r. run_script starts running as p = (r, p)"
proof (induction as)
  case (Cons a as)
  obtain e where "pool_call None starts running a p = (Inl e, p)" using call_refused Cons.prems by blast
  then show ?case by simp
qed simp



definition harmless :: "unit pool_op option \<Rightarrow> bool" where
  "harmless cb \<longleftrightarrow> (\<forall>c q. cb = Some c \<and> in_transition q \<longrightarrow> (\<exists>r. c q = (r, q)))"

lemma harmless_do: "harmless (case a of PStart (Some as) \<Rightarrow> Some (run_script starts running as) | _ \<Rightarrow> None)"
  using script_in_transition by (auto simp: harmless_def split: pool_api.splits option.splits)

text \<open>The initialiser part of \<open>start\<close>.\<close>

lemma init_keeps:
  assumes "harmless cb" "in_transition q"
  shows "\<exists>r. (if numThreads q = 0 then case cb of Some c \<Rightarrow> c q | None \<Rightarrow> (Inr (), q) else (Inr (), q)) = (r, q)"
  using assms by (auto simp: harmless_def split: option.split)

definition stopped_clean :: "pool \<Rightarrow> pool \<Rightarrow> bool" where
  "stopped_clean p p' \<longleftrightarrow>
     p_state p' = PStopped \<and> live_workers p' = [] \<and> threads p' = [] \<and> loops p' = [] \<and> numThreads p' = numThreads p"

definition started_all :: "pool \<Rightarrow> pool \<Rightarrow> bool" where
  "started_all p p' \<longleftrightarrow>
     p_state p' = PRunning \<and> live_workers p' = threads p' \<and> threads p' = [0..<nat (numThreads p)] \<and>
     loops p' = map Worker_loop (threads p') \<and> next_loop p' = 0 \<and> numThreads p' = numThreads p"

lemma live_other [simp]:
  "live_workers (p\<lparr>p_state := st\<rparr>) = live_workers p" "live_workers (p\<lparr>threads := ts\<rparr>) = live_workers p"
  "live_workers (p\<lparr>loops := ls\<rparr>) = live_workers p" "live_workers (p\<lparr>next_loop := i\<rparr>) = live_workers p"
  "live_workers (p\<lparr>numThreads := i\<rparr>) = live_workers p"
  by (simp_all add: live_workers_def)

lemma start_failed_clean:
  assumes "live_workers q = ts" "threads q = []" "loops q = []"
  shows "start_failed e ts q = (Inl e, snd (start_failed e ts q)) \<and> stopped_clean q (snd (start_failed e ts q)) \<and>
    next_loop (snd (start_failed e ts q)) = next_loop q"
  using assms live_stopWorkers[of "q\<lparr>p_state := PStopping\<rparr>" ts]
  by (simp add: start_failed_def stopped_clean_def stopWorkers_def live_workers_def)

lemma pool_start_stopped:
  assumes inv: "pool_inv p" and st: "p_state p = PStopped" and cb: "harmless cb"
    and run: "pool_start cb starts True p = (r, p')"
  shows "case r of
      Inl e \<Rightarrow> stopped_clean p p' \<and> next_loop p' = next_loop p \<and> (numThreads p > 0 \<longrightarrow> (\<exists>j < nat (numThreads p). starts j = Some e))
    | Inr _ \<Rightarrow> started_all p p' \<and> (\<forall>j < nat (numThreads p). starts j = None)"
proof -
  let ?q = "p\<lparr>p_state := PStarting\<rparr>"
  obtain err ts q where sw: "start_workers starts 0 (nat (numThreads p)) [] ?q = ((err, ts), q)"
    by (metis prod.exhaust)
  have nil: "live_workers ?q = []" "threads p = []" "loops p = []" "numThreads p \<ge> 0"
    using inv st by (auto simp: pool_inv_def)
  note f = start_workers_eq[OF sw nil(1)]
  then have live: "live_workers q = ts" and q: "q = ?q\<lparr>history := history q\<rparr>" by blast+
  have qf: "in_transition q" "threads q = []" "loops q = []" "numThreads q = numThreads p" "next_loop q = next_loop p"
    using nil by (subst q, simp add: in_transition_def)+
  have stable: "assertStable True p = None" using st by (simp add: assertStable_def in_transition_def)
  obtain ir where ir: "(if numThreads q = 0 then case cb of Some c \<Rightarrow> c q | None \<Rightarrow> (Inr (), q) else (Inr (), q)) = (ir, q)"
    using init_keeps[OF cb qf(1)] by blast
  show ?thesis
  proof (cases err)
    case (Some e)
    then have "r = Inl e \<and> p' = snd (start_failed e ts q)"
      using run start_failed_clean[OF live qf(2,3), of e] by (simp add: pool_start_def stable st sw)
    moreover have "\<exists>j < nat (numThreads p). starts j = Some e" using f Some by auto
    ultimately show ?thesis using start_failed_clean[OF live qf(2,3), of e] qf by (simp add: stopped_clean_def)
  next
    case None
    then have ts: "ts = [0..<nat (numThreads p)]" "\<forall>j < nat (numThreads p). starts j = None" using f by auto
    show ?thesis
    proof (cases ir)
      case (Inl e)
      have "r = Inl e \<and> p' = snd (start_failed e ts q)"
        using run start_failed_clean[OF live qf(2,3), of e] None ir Inl by (simp add: pool_start_def stable st sw)
      moreover have "numThreads p = 0" using ir Inl qf(4) by (auto split: if_splits)
      ultimately show ?thesis using start_failed_clean[OF live qf(2,3), of e] qf by (simp add: stopped_clean_def)
    next
      case (Inr u)
      have "r = Inr () \<and> p' = q\<lparr>threads := ts, loops := map Worker_loop ts, next_loop := 0, p_state := PRunning\<rparr>"
        using run None ir Inr by (simp add: pool_start_def stable st sw)
      then show ?thesis using live qf ts by (simp add: started_all_def)
    qed
  qed
qed


lemma stable_inv: "pool_inv p \<Longrightarrow> assertStable True p = None"
  by (simp add: pool_inv_def assertStable_def)

lemma pool_stop_clean:
  assumes "pool_inv p"
  shows "pool_stop True p = (Inr (), snd (pool_stop True p)) \<and> stopped_clean p (snd (pool_stop True p)) \<and>
    next_loop (snd (pool_stop True p)) = 0"
proof -
  have "live_workers p = threads p" using assms by (simp add: pool_inv_def)
  then have "live_workers (stopWorkers (threads p) (p\<lparr>p_state := PStopping\<rparr>)) = []"
    using live_stopWorkers[of "p\<lparr>p_state := PStopping\<rparr>" "threads p"] by simp
  then show ?thesis by (simp add: pool_stop_def stable_inv[OF assms] stopped_clean_def stopWorkers_def Let_def live_workers_def)
qed

lemma pool_index:
  "pool_inv p \<Longrightarrow> loops p \<noteq> [] \<Longrightarrow> 0 \<le> next_loop p \<and> next_loop p < int (length (loops p)) \<and> length (threads p) = length (loops p)"
  unfolding pool_inv_def by (metis length_map)

lemma stopped_clean_inv: "stopped_clean p p' \<Longrightarrow> numThreads p \<ge> 0 \<Longrightarrow> next_loop p' = 0 \<Longrightarrow> pool_inv p'"
  by (simp add: stopped_clean_def pool_inv_def in_transition_def)

lemma started_all_inv: "started_all p p' \<Longrightarrow> numThreads p \<ge> 0 \<Longrightarrow> pool_inv p'"
  by (simp add: started_all_def pool_inv_def in_transition_def)

text \<open>\<open>getNextLoop\<close> on a consistent pool.\<close>

lemma getNextLoop_eq:
  assumes "pool_inv p"
  shows "getNextLoop running True p =
    (if loops p = [] then (Inr Base_loop, p)
     else if \<not> running (threads p ! nat (next_loop p)) then (Inl (Runtime_error ''selected worker has stopped dispatching''), p)
     else (Inr (loops p ! nat (next_loop p)), p\<lparr>next_loop := (next_loop p + 1) mod int (length (loops p))\<rparr>))"
proof -
  have len: "length (threads p) = length (loops p)" using assms by (simp add: pool_inv_def)
  have ring: "(if next_loop p + 1 \<ge> int (length (loops p)) then 0 else next_loop p + 1) = (next_loop p + 1) mod int (length (loops p))"
    if "loops p \<noteq> []"
  proof (cases "next_loop p + 1 = int (length (loops p))")
    case False
    then have "next_loop p + 1 < int (length (loops p))" "0 \<le> next_loop p" using pool_index[OF assms that] by linarith+
    then show ?thesis by simp
  qed simp
  have idx: "nat (next_loop p) < length (loops p)" if "loops p \<noteq> []"
    using pool_index[OF assms that] by (simp add: nat_less_iff)
  show ?thesis
  proof (cases "loops p = []")
    case True
    then show ?thesis using stable_inv[OF assms] by (simp add: getNextLoop_def)
  next
    case False
    then show ?thesis using stable_inv[OF assms] idx[OF False] len ring[OF False, symmetric]
      by (simp add: getNextLoop_def nth_opt_def Let_def)
  qed
qed

lemma getNextLoop_inv: "pool_inv p \<Longrightarrow> getNextLoop running True p = (r, p') \<Longrightarrow> pool_inv p'"
  by (auto simp: getNextLoop_eq pool_inv_def in_transition_def live_workers_def split: if_splits)

lemma pool_do_inv:
  assumes "pool_inv p" "pool_do starts running a p = (r, p')"
  shows "pool_inv p'"
proof (cases a)
  case (PSetNum n)
  then show ?thesis using assms by (auto simp: pool_do_def pool_call_def setThreadNum_def pool_inv_def in_transition_def split: if_splits)
next
  case (PStart cb)
  let ?cb = "case a of PStart (Some as) \<Rightarrow> Some (run_script starts running as) | _ \<Rightarrow> None"
  have run: "pool_start ?cb starts True p = (r, p')" using assms(2) PStart by (simp add: pool_do_def pool_call_def)
  have n: "numThreads p \<ge> 0" using assms(1) by (simp add: pool_inv_def)
  show ?thesis
  proof (cases "p_state p = PStopped")
    case True
    have "next_loop p = 0" using assms(1) True by (simp add: pool_inv_def)
    then show ?thesis using pool_start_stopped[OF assms(1) True harmless_do run] n stopped_clean_inv started_all_inv
      by (auto split: sum.splits)
  next
    case False
    then have "p_state p = PRunning" using assms(1) by (cases "p_state p") (auto simp: pool_inv_def in_transition_def)
    then show ?thesis using run assms(1) stable_inv[OF assms(1)] by (simp add: pool_start_def)
  qed
next
  case PStop
  then have "pool_stop True p = (r, p')" using assms(2) by (simp add: pool_do_def pool_call_def)
  moreover have "numThreads p \<ge> 0" using assms(1) by (simp add: pool_inv_def)
  ultimately show ?thesis using pool_stop_clean[OF assms(1)] stopped_clean_inv by auto
next
  case PNext
  then show ?thesis using assms getNextLoop_inv[OF assms(1), of running]
    by (auto simp: pool_do_def pool_call_def lift_op_def split: prod.splits sum.splits)
next
  case PAll
  then show ?thesis using assms by (auto simp: pool_do_def pool_call_def lift_op_def split: sum.splits)
qed

lemma preach_inv: "preach p \<Longrightarrow> pool_inv p"
proof (induction rule: preach.induct)
  case (preach_init p)
  then show ?case by (auto simp: EventLoopThreadPool_def pool_inv_def in_transition_def live_workers_def)
next
  case (preach_call p starts running a r p')
  then show ?case using pool_do_inv by blast
qed

section \<open>Rotation\<close>

text \<open>The results of \<open>k\<close> calls of \<open>getNextLoop\<close> in a row.\<close>

fun next_loops :: "(nat \<Rightarrow> bool) \<Rightarrow> nat \<Rightarrow> pool \<Rightarrow> loop_ref res list" where
  "next_loops running 0 p = []"
| "next_loops running (Suc k) p = (case getNextLoop running True p of (r, p') \<Rightarrow> r # next_loops running k p')"

lemma next_loops_ring:
  assumes "pool_inv p" "loops p \<noteq> []" "\<forall>t \<in> set (threads p). running t"
  shows "next_loops running k p =
    map (\<lambda>j. Inr (loops p ! ((nat (next_loop p) + j) mod length (loops p)))) [0..<k]"
  using assms
proof (induction k arbitrary: p)
  case (Suc k)
  let ?n = "length (loops p)" and ?i = "nat (next_loop p)"
  let ?p = "p\<lparr>next_loop := (next_loop p + 1) mod int ?n\<rparr>"
  have i: "?i < ?n" "next_loop p \<ge> 0" "length (threads p) = ?n"
    using pool_index[OF Suc.prems(1,2)] by (simp_all add: nat_less_iff)
  then have run: "running (threads p ! ?i)" using Suc.prems(3) by simp
  have step: "getNextLoop running True p = (Inr (loops p ! ?i), ?p)"
    using getNextLoop_eq[OF Suc.prems(1)] Suc.prems(2) run by simp
  have ih: "next_loops running k ?p = map (\<lambda>j. Inr (loops p ! ((nat (next_loop ?p) + j) mod ?n))) [0..<k]"
    using Suc.IH[OF getNextLoop_inv[OF Suc.prems(1) step]] Suc.prems by simp
  have "nat (next_loop ?p) = Suc ?i mod ?n"
    using i(2) by (simp add: nat_mod_distrib Suc_nat_eq_nat_zadd1 add.commute)
  then have "next_loops running k ?p = map (\<lambda>j. Inr (loops p ! ((?i + Suc j) mod ?n))) [0..<k]"
    using ih by (simp add: mod_simps)
  moreover have "[0..<Suc k] = 0 # map Suc [0..<k]" by (simp add: upt_conv_Cons map_Suc_upt)
  ultimately show ?case using step i by (simp add: comp_def)
qed simp


section \<open>Example\<close>

definition demo_pool :: "pool" where
  "demo_pool = \<lparr>p_state = PStopped, numThreads = 3, next_loop = 0, threads = [], loops = [], history = []\<rparr>"

lemma demo_pool_reach: "preach demo_pool"
proof -
  let ?p = "demo_pool\<lparr>numThreads := 0\<rparr>"
  have "preach ?p" by (rule preach_init) (simp add: EventLoopThreadPool_def demo_pool_def)
  moreover have "pool_do (\<lambda>_. None) (\<lambda>_. True) (PSetNum 3) ?p = (Inr (), demo_pool)"
    by (simp add: pool_do_def pool_call_def setThreadNum_def demo_pool_def)
  ultimately show ?thesis by (rule preach_call)
qed

lemmas pool_eval = demo_pool_def pool_do_def pool_call_def pool_start_def assertStable_def
  in_transition_def start_failed_def stopWorkers_def

definition demo_workers :: "pool" where
  "demo_workers = \<lparr>p_state = PRunning, numThreads = 3, next_loop = 0, threads = [0, 1, 2],
     loops = [Worker_loop 0, Worker_loop 1, Worker_loop 2], history = [Started 0, Started 1, Started 2]\<rparr>"

lemma demo_workers_eq: "pool_do (\<lambda>_. None) (\<lambda>_. True) (PStart None) demo_pool = (Inr (), demo_workers)"
  by (simp add: pool_eval demo_workers_def eval_nat_numeral)

lemma demo_workers_reach: "preach demo_workers"
  by (rule preach_call[OF demo_pool_reach demo_workers_eq])




section \<open>Properties\<close>



text \<open>Rotation. In every state the interface can bring about the index into the vectors of workers is in
  range, and while the workers run, \<open>k\<close> calls of \<open>getNextLoop\<close> return the loops in turn, starting at \<open>next_\<close>; a pool
  with no workers gives the base loop. A worker that has stopped dispatching is never handed out.\<close>

theorem pool_rotation:
  assumes "preach p"
  shows "(\<forall>running. fst (getNextLoop running True p) \<noteq> Inl Out_of_bounds) \<and>
    (\<forall>running t p'. getNextLoop running True p = (Inr (Worker_loop t), p') \<longrightarrow> running t \<and> t \<in> set (live_workers p)) \<and>
    (\<forall>running k. (\<forall>t \<in> set (threads p). running t) \<longrightarrow>
       next_loops running k p =
         (if loops p = [] then replicate k (Inr Base_loop)
          else map (\<lambda>j. Inr (loops p ! ((nat (next_loop p) + j) mod length (loops p)))) [0..<k]))"
proof -
  have inv: "pool_inv p" by (rule preach_inv[OF assms])
  have base: "next_loops running k p = replicate k (Inr Base_loop)" if "loops p = []" for running k
    using that by (induction k) (simp_all add: getNextLoop_eq[OF inv])
  have handed: "running t \<and> t \<in> set (live_workers p)"
    if r: "getNextLoop running True p = (Inr (Worker_loop t), p')" for running t p'
  proof -
    have ne: "loops p \<noteq> []" using r getNextLoop_eq[OF inv, of running] by auto
    then have i: "nat (next_loop p) < length (threads p)" using pool_index[OF inv ne] by (simp add: nat_less_iff)
    have "loops p ! nat (next_loop p) = Worker_loop (threads p ! nat (next_loop p))"
      using inv i by (metis nth_map pool_inv_def)
    then have "running (threads p ! nat (next_loop p)) \<and> t = threads p ! nat (next_loop p)"
      using r ne getNextLoop_eq[OF inv, of running] by (simp split: if_splits)
    moreover have "live_workers p = threads p" using inv by (simp add: pool_inv_def)
    ultimately show ?thesis using nth_mem[OF i] by simp
  qed
  have "fst (getNextLoop running True p) \<noteq> Inl Out_of_bounds" for running
    by (simp add: getNextLoop_eq[OF inv])
  moreover have "next_loops running k p =
         (if loops p = [] then replicate k (Inr Base_loop)
          else map (\<lambda>j. Inr (loops p ! ((nat (next_loop p) + j) mod length (loops p)))) [0..<k])"
    if "\<forall>t \<in> set (threads p). running t" for running k
    using base next_loops_ring[OF inv _ that] by simp
  ultimately show ?thesis using handed by blast
qed

theorem pool_rotation_witness:
  "next_loops (\<lambda>_. True) 4 demo_workers = [Inr (Worker_loop 0), Inr (Worker_loop 1), Inr (Worker_loop 2), Inr (Worker_loop 0)]"
proof -
  have "next_loops (\<lambda>_. True) 4 demo_workers =
      (if loops demo_workers = [] then replicate 4 (Inr Base_loop)
       else map (\<lambda>j. Inr (loops demo_workers ! ((nat (next_loop demo_workers) + j) mod length (loops demo_workers)))) [0..<4])"
    by (rule pool_rotation[OF demo_workers_reach, THEN conjunct2, THEN conjunct2, rule_format]) simp
  then show ?thesis by (simp add: demo_workers_def upt_rec)
qed

end
