(* ===== verification/Byte_Buffer.thy ===== *)
theory Byte_Buffer
  imports Prelude
begin

text \<open>
  \<^verbatim>\<open>mini/net/Buffer.h\<close> and \<^verbatim>\<open>mini/net/Buffer.cc\<close>: the byte container of the read and write paths.

  The record \<open>buffer\<close> has the three members of the class; pointers into the vector are offsets.
  Every member function is one definition. \<open>buffer_ok\<close> is the class invariant, \<open>content\<close> the
  abstraction (the readable bytes); the locale \<open>byte_fifo\<close> is the contract the connection code
  relies on, interpreted here on the class.
\<close>

section \<open>The class\<close>

record buffer =
  buf :: "byte list"
  readerIndex :: nat
  writerIndex :: nat

definition kCheapPrepend :: nat where
  "kCheapPrepend = 8"

definition kInitialSize :: nat where
  "kInitialSize = 1024"

definition Buffer :: buffer where
  "Buffer = \<lparr>buf = replicate (kCheapPrepend + kInitialSize) 0,
             readerIndex = kCheapPrepend, writerIndex = kCheapPrepend\<rparr>"

definition readableBytes :: "buffer \<Rightarrow> nat" where
  "readableBytes b = szsub (writerIndex b) (readerIndex b)"

definition writableBytes :: "buffer \<Rightarrow> nat" where
  "writableBytes b = szsub (length (buf b)) (writerIndex b)"

definition prependableBytes :: "buffer \<Rightarrow> nat" where
  "prependableBytes b = readerIndex b"

definition peek :: "buffer \<Rightarrow> nat" where
  "peek b = readerIndex b"

definition beginWrite :: "buffer \<Rightarrow> nat" where
  "beginWrite b = writerIndex b"

definition retrieveAll :: "buffer \<Rightarrow> buffer" where
  "retrieveAll b = b\<lparr>readerIndex := kCheapPrepend, writerIndex := kCheapPrepend\<rparr>"

definition retrieve :: "nat \<Rightarrow> buffer \<Rightarrow> buffer" where
  "retrieve len b =
     (if len < readableBytes b then b\<lparr>readerIndex := szadd (readerIndex b) len\<rparr>
      else retrieveAll b)"

text \<open>The argument \<open>e\<close> is the offset of the pointer \<open>end\<close> in the vector.\<close>

definition retrieveUntil :: "nat \<Rightarrow> buffer \<Rightarrow> buffer" where
  "retrieveUntil e b = retrieve (szsub e (peek b)) b"

definition retrieveAsString :: "nat \<Rightarrow> buffer \<Rightarrow> (byte list \<times> buffer) res" where
  "retrieveAsString len b =
     (let n = min len (readableBytes b)
      in bind_res (mem_read (peek b) n (buf b)) (\<lambda>result. Inr (result, retrieve n b)))"

definition retrieveAllAsString :: "buffer \<Rightarrow> (byte list \<times> buffer) res" where
  "retrieveAllAsString b = retrieveAsString (readableBytes b) b"

definition makeSpace :: "nat \<Rightarrow> buffer \<Rightarrow> buffer res" where
  "makeSpace len b =
     (if szsub (szadd (writableBytes b) (prependableBytes b)) kCheapPrepend < len
      then bind_res (vec_resize (szadd (writerIndex b) len) (buf b)) (\<lambda>v. Inr (b\<lparr>buf := v\<rparr>))
      else let readable = readableBytes b
           in bind_res (mem_read (readerIndex b) (szsub (writerIndex b) (readerIndex b)) (buf b)) (\<lambda>xs.
              bind_res (mem_write kCheapPrepend xs (buf b)) (\<lambda>v.
                Inr (b\<lparr>buf := v, readerIndex := kCheapPrepend,
                       writerIndex := szadd kCheapPrepend readable\<rparr>))))"

definition ensureWritableBytes :: "nat \<Rightarrow> buffer \<Rightarrow> buffer res" where
  "ensureWritableBytes len b = (if writableBytes b < len then makeSpace len b else Inr b)"

definition hasWritten :: "nat \<Rightarrow> buffer \<Rightarrow> buffer" where
  "hasWritten len b = b\<lparr>writerIndex := szadd (writerIndex b) len\<rparr>"

definition append_buf :: "byte list \<Rightarrow> buffer \<Rightarrow> buffer res" where
  "append_buf data b =
     bind_res (ensureWritableBytes (length data) b) (\<lambda>b1.
     bind_res (mem_write (beginWrite b1) data (buf b1)) (\<lambda>v.
       Inr (hasWritten (length data) (b1\<lparr>buf := v\<rparr>))))"

text \<open>
  \<open>readFd\<close> is the POSIX branch. \<open>readv\<close> is the system call: from the lengths of the two
  \<open>iovec\<close>s to \<open>Inl errno\<close> or the bytes it delivered, which fill the first vector and then the
  stack buffer. The result is the returned \<open>ssize_t\<close>, the value stored through \<open>savedErrno\<close>
  (\<open>None\<close>: not stored) and the buffer.
\<close>

definition extraBufferSize :: nat where
  "extraBufferSize = 65536"

definition read_iov :: "buffer \<Rightarrow> nat list" where
  "read_iov b =
     (if writableBytes b < extraBufferSize then [writableBytes b, extraBufferSize]
      else [writableBytes b])"

definition readFd :: "(nat list \<Rightarrow> int + byte list) \<Rightarrow> buffer \<Rightarrow> (int \<times> int option \<times> buffer) res" where
  "readFd readv b =
     (let writable = writableBytes b
      in case readv (read_iov b) of
           Inl errno \<Rightarrow> Inr (-1, Some errno, b)
         | Inr bs \<Rightarrow>
             bind_res (mem_write (beginWrite b) (take writable bs) (buf b)) (\<lambda>v.
               let b1 = b\<lparr>buf := v\<rparr>; n = length bs
               in if n \<le> writable
                  then Inr (int n, None, b1\<lparr>writerIndex := szadd (writerIndex b1) n\<rparr>)
                  else bind_res (append_buf (drop writable bs) (b1\<lparr>writerIndex := length (buf b1)\<rparr>))
                         (\<lambda>b2. Inr (int n, None, b2))))"

text \<open>The Windows branch: one \<open>recv\<close> of at most the writable bytes, after making space.\<close>

definition readFd_win :: "(nat \<Rightarrow> int + byte list) \<Rightarrow> buffer \<Rightarrow> (int \<times> int option \<times> buffer) res" where
  "readFd_win rd b =
     bind_res (if writableBytes b < extraBufferSize then makeSpace extraBufferSize b else Inr b) (\<lambda>b0.
       case rd (writableBytes b0) of
         Inl errno \<Rightarrow> Inr (-1, Some errno, b0)
       | Inr bs \<Rightarrow>
           bind_res (mem_write (beginWrite b0) bs (buf b0)) (\<lambda>v.
             Inr (int (length bs), None,
                  b0\<lparr>buf := v, writerIndex := szadd (writerIndex b0) (length bs)\<rparr>)))"

text \<open>\<open>wr\<close> is the system call: it gets the readable bytes and returns \<open>Inl errno\<close> or a count.\<close>

definition writeFd :: "(byte list \<Rightarrow> int + nat) \<Rightarrow> buffer \<Rightarrow> (int \<times> int option) res" where
  "writeFd wr b =
     bind_res (mem_read (peek b) (readableBytes b) (buf b)) (\<lambda>xs.
       case wr xs of Inl errno \<Rightarrow> Inr (-1, Some errno) | Inr n \<Rightarrow> Inr (int n, None))"

section \<open>Invariant and abstraction\<close>

definition buffer_ok :: "buffer \<Rightarrow> bool" where
  "buffer_ok b \<longleftrightarrow>
     kCheapPrepend \<le> readerIndex b \<and> readerIndex b \<le> writerIndex b \<and>
     writerIndex b \<le> length (buf b) \<and> length (buf b) \<le> VEC_MAX"

definition content :: "buffer \<Rightarrow> byte list" where
  "content b = take (writerIndex b - readerIndex b) (drop (readerIndex b) (buf b))"

text \<open>The documented bound of \<open>readv\<close>: it never delivers more bytes than the vectors hold.\<close>

definition readv_spec :: "(nat list \<Rightarrow> int + byte list) \<Rightarrow> bool" where
  "readv_spec readv \<longleftrightarrow> (\<forall>iov bs. readv iov = Inr bs \<longrightarrow> length bs \<le> sum_list iov)"

text \<open>The public mutators as one step function, for statements about any sequence of calls.\<close>

datatype buffer_call =
    CAppend "byte list"
  | CEnsureWritable nat
  | CHasWritten nat
  | CRetrieve nat
  | CRetrieveUntil nat
  | CRetrieveAll
  | CRetrieveAsString nat
  | CRetrieveAllAsString
  | CReadFd "nat list \<Rightarrow> int + byte list"
  | CWriteFd "byte list \<Rightarrow> int + nat"

fun buffer_step :: "buffer_call \<Rightarrow> buffer \<Rightarrow> buffer res" where
  "buffer_step (CAppend d) b = append_buf d b"
| "buffer_step (CEnsureWritable n) b = ensureWritableBytes n b"
| "buffer_step (CHasWritten n) b = Inr (hasWritten n b)"
| "buffer_step (CRetrieve n) b = Inr (retrieve n b)"
| "buffer_step (CRetrieveUntil e) b = Inr (retrieveUntil e b)"
| "buffer_step CRetrieveAll b = Inr (retrieveAll b)"
| "buffer_step (CRetrieveAsString n) b = bind_res (retrieveAsString n b) (\<lambda>(xs, b'). Inr b')"
| "buffer_step CRetrieveAllAsString b = bind_res (retrieveAllAsString b) (\<lambda>(xs, b'). Inr b')"
| "buffer_step (CReadFd readv) b = bind_res (readFd readv b) (\<lambda>(n, err, b'). Inr b')"
| "buffer_step (CWriteFd wr) b = bind_res (writeFd wr b) (\<lambda>_. Inr b)"

text \<open>The caller's part: \<open>hasWritten\<close> after at most \<open>writableBytes\<close>, lengths of real memory; and the kernel's: \<open>readv\<close>
  delivers at most what the vectors hold. A run ends at the first call that breaks it.\<close>

fun call_ok :: "buffer_call \<Rightarrow> buffer \<Rightarrow> bool" where
  "call_ok (CAppend d) b = (length d \<le> VEC_MAX)"
| "call_ok (CEnsureWritable n) b = (n \<le> VEC_MAX)"
| "call_ok (CHasWritten n) b = (n \<le> writableBytes b)"
| "call_ok (CReadFd readv) b =
     (case readv (read_iov b) of Inl _ \<Rightarrow> True | Inr bs \<Rightarrow> length bs \<le> sum_list (read_iov b))"
| "call_ok _ b = True"

fun buffer_run :: "buffer_call list \<Rightarrow> buffer \<Rightarrow> buffer res" where
  "buffer_run [] b = Inr b"
| "buffer_run (c # cs) b = (if call_ok c b then bind_res (buffer_step c b) (buffer_run cs) else Inr b)"

text \<open>When room for \<open>len\<close> more bytes can be made: by moving the readable bytes to the front, or by
  growing the vector within its maximal size.\<close>

definition fits :: "nat \<Rightarrow> buffer \<Rightarrow> bool" where
  "fits len b \<longleftrightarrow>
     len \<le> length (buf b) - writerIndex b + (readerIndex b - kCheapPrepend) \<or>
     writerIndex b + len \<le> VEC_MAX"

section \<open>Lemmas\<close>

lemma buffer_sizes:
  assumes "buffer_ok b"
  shows "readableBytes b = writerIndex b - readerIndex b"
    and "writableBytes b = length (buf b) - writerIndex b"
    and "prependableBytes b = readerIndex b"
    and "szsub (szadd (length (buf b) - writerIndex b) (readerIndex b)) kCheapPrepend
           = length (buf b) - writerIndex b + (readerIndex b - kCheapPrepend)"
  using assms
  by (auto simp: buffer_ok_def readableBytes_def writableBytes_def prependableBytes_def size_arith)

lemma length_content: "buffer_ok b \<Longrightarrow> length (content b) = readableBytes b"
  by (simp add: buffer_sizes) (auto simp: content_def buffer_ok_def)

lemma Buffer_ok: "buffer_ok Buffer"
  by (simp add: buffer_ok_def Buffer_def kCheapPrepend_def kInitialSize_def VEC_MAX_def)

lemma content_Buffer: "content Buffer = []"
  by (simp add: content_def Buffer_def)

lemma retrieveAll_ok: "buffer_ok b \<Longrightarrow> buffer_ok (retrieveAll b)"
  by (auto simp: buffer_ok_def retrieveAll_def)

lemma content_retrieveAll [simp]: "content (retrieveAll b) = []"
  by (simp add: content_def retrieveAll_def)

lemma retrieve_ok:
  assumes "buffer_ok b"
  shows "buffer_ok (retrieve n b)" and "content (retrieve n b) = drop n (content b)"
proof -
  show "buffer_ok (retrieve n b)"
    using assms by (auto simp: retrieve_def buffer_sizes retrieveAll_ok)
      (auto simp: buffer_ok_def size_arith)
  show "content (retrieve n b) = drop n (content b)"
  proof (cases "n < readableBytes b")
    case True
    then have "readerIndex b + n < writerIndex b" using assms by (simp add: buffer_sizes)
    moreover have "szadd (readerIndex b) n = readerIndex b + n"
      using calculation assms by (auto simp: buffer_ok_def size_arith)
    ultimately show ?thesis using True
      by (simp add: retrieve_def content_def drop_take add.commute)
  next
    case False
    then show ?thesis using length_content [OF assms] by (simp add: retrieve_def)
  qed
qed

lemma retrieveAsString_ok:
  assumes "buffer_ok b"
  shows "retrieveAsString n b = Inr (take n (content b), retrieve n b)"
proof -
  have r: "readableBytes b = writerIndex b - readerIndex b" by (simp add: buffer_sizes assms)
  have "mem_read (peek b) (min n (readableBytes b)) (buf b) = Inr (take n (content b))"
    using assms r by (auto simp: mem_read_def peek_def content_def buffer_ok_def min.commute)
  moreover have "retrieve (min n (readableBytes b)) b = retrieve n b"
    by (simp add: retrieve_def min_def)
  ultimately show ?thesis by (simp add: retrieveAsString_def Let_def)
qed


lemma makeSpace_grow:
  assumes ok: "buffer_ok b" and grow: "length (buf b) - writerIndex b + (readerIndex b - kCheapPrepend) < len"
    and fit: "writerIndex b + len \<le> VEC_MAX"
  shows "makeSpace len b =
    Inr (b\<lparr>buf := buf b @ replicate (writerIndex b + len - length (buf b)) 0\<rparr>)"
proof -
  have "length (buf b) \<le> writerIndex b + len" using grow by simp
  then show ?thesis using ok grow fit
    by (simp add: makeSpace_def buffer_sizes size_arith mem_simps)
qed

lemma makeSpace_compact:
  assumes ok: "buffer_ok b" and room: "len \<le> length (buf b) - writerIndex b + (readerIndex b - kCheapPrepend)"
  shows "makeSpace len b =
    Inr (b\<lparr>buf := take kCheapPrepend (buf b) @ content b @ drop (kCheapPrepend + readableBytes b) (buf b),
           readerIndex := kCheapPrepend, writerIndex := kCheapPrepend + readableBytes b\<rparr>)"
proof -
  have len: "length (content b) = writerIndex b - readerIndex b"
    using length_content [OF ok] by (simp add: buffer_sizes ok)
  have bnd: "kCheapPrepend + (writerIndex b - readerIndex b) \<le> length (buf b)"
    "kCheapPrepend + (writerIndex b - readerIndex b) \<le> VEC_MAX"
    using ok by (auto simp: buffer_ok_def)
  have rd: "szsub (writerIndex b) (readerIndex b) = writerIndex b - readerIndex b"
    using buffer_sizes(1) [OF ok] by (simp add: readableBytes_def)
  have "mem_read (readerIndex b) (writerIndex b - readerIndex b) (buf b) = Inr (content b)"
    using ok by (auto simp: mem_read_def content_def buffer_ok_def)
  moreover have "mem_write kCheapPrepend (content b) (buf b) =
      Inr (take kCheapPrepend (buf b) @ content b @ drop (kCheapPrepend + (writerIndex b - readerIndex b)) (buf b))"
    using bnd len by (simp add: mem_simps)
  ultimately show ?thesis using room bnd len ok
    by (simp add: makeSpace_def rd buffer_sizes size_arith Let_def)
qed

lemma makeSpace_ok:
  assumes ok: "buffer_ok b" and fit: "fits len b"
  obtains b' where "makeSpace len b = Inr b'" "buffer_ok b'" "content b' = content b"
    "len \<le> writableBytes b'" "readableBytes b' = readableBytes b" "writerIndex b' \<le> writerIndex b"
    "length (buf b') \<le> max (length (buf b)) (writerIndex b + len)"
proof (cases "length (buf b) - writerIndex b + (readerIndex b - kCheapPrepend) < len")
  case True
  then have fit': "writerIndex b + len \<le> VEC_MAX" using fit by (simp add: fits_def)
  let ?b = "b\<lparr>buf := buf b @ replicate (writerIndex b + len - length (buf b)) 0\<rparr>"
  have ok': "buffer_ok ?b" using ok fit' True by (auto simp: buffer_ok_def)
  show thesis
  proof (rule that)
    show "makeSpace len b = Inr ?b" by (rule makeSpace_grow [OF ok True fit'])
    show "content ?b = content b" using ok by (simp add: content_def buffer_ok_def)
    show "len \<le> writableBytes ?b" using ok' True by (simp add: buffer_sizes)
    show "readableBytes ?b = readableBytes b" by (simp add: readableBytes_def)
  qed (use ok' True in auto)
next
  case False
  then have room: "len \<le> length (buf b) - writerIndex b + (readerIndex b - kCheapPrepend)" by simp
  let ?b = "b\<lparr>buf := take kCheapPrepend (buf b) @ content b @ drop (kCheapPrepend + readableBytes b) (buf b),
           readerIndex := kCheapPrepend, writerIndex := kCheapPrepend + readableBytes b\<rparr>"
  have len: "length (content b) = readableBytes b" by (rule length_content [OF ok])
  have bnd: "kCheapPrepend + readableBytes b \<le> length (buf b)"
    using ok by (simp add: buffer_sizes) (auto simp: buffer_ok_def)
  have ok': "buffer_ok ?b" using ok bnd len by (auto simp: buffer_ok_def)
  show thesis
  proof (rule that)
    show "makeSpace len b = Inr ?b" by (rule makeSpace_compact [OF ok room])
    show "content ?b = content b"
      using bnd len by (simp add: content_def [of ?b])
    show "len \<le> writableBytes ?b"
      using room ok ok' bnd len by (simp add: buffer_sizes) (auto simp: buffer_ok_def)
    show "readableBytes ?b = readableBytes b" using ok' by (simp add: buffer_sizes)
    show "writerIndex ?b \<le> writerIndex b"
      using ok by (simp add: buffer_sizes) (auto simp: buffer_ok_def)
  qed (use ok' bnd len in auto)
qed

lemma makeSpace_too_long:
  assumes "buffer_ok b" "\<not> fits len b" "writerIndex b + len < SIZE_MOD"
  shows "makeSpace len b = Inl Length_error"
  using assms by (simp add: makeSpace_def buffer_sizes fits_def size_arith vec_resize_def)

lemma ensureWritableBytes_ok:
  assumes ok: "buffer_ok b" and fit: "fits len b"
  obtains b' where "ensureWritableBytes len b = Inr b'" "buffer_ok b'" "content b' = content b"
    "len \<le> writableBytes b'" "readableBytes b' = readableBytes b" "writerIndex b' \<le> writerIndex b"
    "length (buf b') \<le> max (length (buf b)) (writerIndex b + len)"
proof (cases "writableBytes b < len")
  case True
  obtain b' where "makeSpace len b = Inr b'" "buffer_ok b'" "content b' = content b"
    "len \<le> writableBytes b'" "readableBytes b' = readableBytes b" "writerIndex b' \<le> writerIndex b"
    "length (buf b') \<le> max (length (buf b)) (writerIndex b + len)"
    using makeSpace_ok [OF ok fit] by blast
  with True that show thesis by (simp add: ensureWritableBytes_def)
next
  case False
  with that [of b] ok show thesis by (simp add: ensureWritableBytes_def)
qed

lemma append_at_writer:
  assumes ok: "buffer_ok b" and room: "length d \<le> writableBytes b"
  defines "v \<equiv> take (writerIndex b) (buf b) @ d @ drop (writerIndex b + length d) (buf b)"
  shows "mem_write (writerIndex b) d (buf b) = Inr v"
    and "buffer_ok (b\<lparr>buf := v, writerIndex := writerIndex b + length d\<rparr>)"
    and "content (b\<lparr>buf := v, writerIndex := writerIndex b + length d\<rparr>) = content b @ d"
    and "szadd (writerIndex b) (length d) = writerIndex b + length d"
    and "length v = length (buf b)"
proof -
  have w: "writerIndex b + length d \<le> length (buf b)"
    using room ok by (simp add: buffer_sizes) (auto simp: buffer_ok_def)
  then show "mem_write (writerIndex b) d (buf b) = Inr v" by (simp add: v_def mem_simps)
  show len: "length v = length (buf b)" using w by (simp add: v_def)
  show "buffer_ok (b\<lparr>buf := v, writerIndex := writerIndex b + length d\<rparr>)"
    using ok w len by (auto simp: buffer_ok_def)
  show "szadd (writerIndex b) (length d) = writerIndex b + length d"
    using ok w by (auto simp: buffer_ok_def size_arith)
  have "take (writerIndex b + length d - readerIndex b) (drop (readerIndex b) v)
      = take (writerIndex b - readerIndex b) (drop (readerIndex b) v)
        @ take (length d) (drop (writerIndex b) v)"
    using take_drop_split [of "readerIndex b" "writerIndex b" "writerIndex b + length d" v] ok
    by (simp add: buffer_ok_def)
  also have "\<dots> = content b @ d"
    using ok w by (simp add: v_def content_def buffer_ok_def drop_take)
  finally show "content (b\<lparr>buf := v, writerIndex := writerIndex b + length d\<rparr>) = content b @ d"
    by (simp add: content_def)
qed

lemma append_buf_ok:
  assumes ok: "buffer_ok b" and fit: "fits (length d) b"
  obtains b' where "append_buf d b = Inr b'" "buffer_ok b'" "content b' = content b @ d"
    "writerIndex b' \<le> writerIndex b + length d"
    "length (buf b') \<le> max (length (buf b)) (writerIndex b + length d)"
proof -
  obtain b1 where b1: "ensureWritableBytes (length d) b = Inr b1" "buffer_ok b1"
    "content b1 = content b" "length d \<le> writableBytes b1" "writerIndex b1 \<le> writerIndex b"
    "length (buf b1) \<le> max (length (buf b)) (writerIndex b + length d)"
    using ensureWritableBytes_ok [OF ok fit] by metis
  note at = append_at_writer [OF b1(2,4)]
  show thesis
    by (rule that [of "b1\<lparr>buf := take (writerIndex b1) (buf b1) @ d @ drop (writerIndex b1 + length d) (buf b1),
              writerIndex := writerIndex b1 + length d\<rparr>"])
      (use at b1 in \<open>simp_all add: append_buf_def beginWrite_def hasWritten_def\<close>)
qed

lemma append_buf_too_long:
  assumes "buffer_ok b" "\<not> fits (length d) b" "length d \<le> VEC_MAX"
  shows "append_buf d b = Inl Length_error"
proof -
  have "writerIndex b + length d < SIZE_MOD"
    using assms by (simp add: buffer_ok_def VEC_MAX_def SIZE_MOD_def)
  then have "makeSpace (length d) b = Inl Length_error"
    using assms by (intro makeSpace_too_long)
  moreover have "writableBytes b < length d"
    using assms by (auto simp: buffer_sizes fits_def)
  ultimately show ?thesis by (simp add: append_buf_def ensureWritableBytes_def)
qed


lemma makeSpace_wraps:
  assumes ok: "buffer_ok b" and "SIZE_MOD \<le> writerIndex b + len" and "len < SIZE_MOD"
  shows "makeSpace len b = Inr (b\<lparr>buf := take (writerIndex b + len - SIZE_MOD) (buf b)\<rparr>)"
proof -
  have w: "szadd (writerIndex b) len = writerIndex b + len - SIZE_MOD"
    and le: "writerIndex b + len - SIZE_MOD \<le> length (buf b)"
    using assms by (auto simp: szadd_def buffer_ok_def mod_if VEC_MAX_def SIZE_MOD_def)
  have "length (buf b) - writerIndex b + (readerIndex b - kCheapPrepend) < len"
    using assms by (auto simp: buffer_ok_def VEC_MAX_def SIZE_MOD_def)
  moreover have "writerIndex b + len - SIZE_MOD \<le> VEC_MAX"
    using ok le by (simp add: buffer_ok_def)
  ultimately show ?thesis using ok le by (simp add: makeSpace_def buffer_sizes w mem_simps)
qed

text \<open>The two paths of a successful \<open>readFd\<close>: all bytes fit, or the rest is appended to the full vector.\<close>

lemma readFd_fits:
  assumes "buffer_ok b" "readv (read_iov b) = Inr bs" "length bs \<le> writableBytes b"
  obtains b' where "readFd readv b = Inr (int (length bs), None, b')" "buffer_ok b'" "content b' = content b @ bs"
proof -
  note at = append_at_writer [OF assms(1,3)]
  show thesis
    by (rule that [of "b\<lparr>buf := take (writerIndex b) (buf b) @ bs @ drop (writerIndex b + length bs) (buf b),
          writerIndex := writerIndex b + length bs\<rparr>"])
      (use at assms in \<open>simp_all add: readFd_def beginWrite_def Let_def\<close>)
qed

lemma readFd_overflows:
  assumes ok: "buffer_ok b" and rd: "readv (read_iov b) = Inr bs" and over: "\<not> length bs \<le> writableBytes b"
    and bound: "length bs \<le> sum_list (read_iov b)"
  obtains b1 where "buffer_ok b1" "content b1 = content b @ take (writableBytes b) bs"
    "writerIndex b1 = length (buf b)" "length (buf b1) = length (buf b)"
    "length (drop (writableBytes b) bs) \<le> extraBufferSize"
    "readFd readv b = bind_res (append_buf (drop (writableBytes b) bs) b1) (\<lambda>b2. Inr (int (length bs), None, b2))"
proof -
  let ?hd = "take (writableBytes b) bs"
  let ?v = "take (writerIndex b) (buf b) @ ?hd @ drop (writerIndex b + length ?hd) (buf b)"
  let ?b = "b\<lparr>buf := ?v, writerIndex := writerIndex b + length ?hd\<rparr>"
  have hd: "length ?hd \<le> writableBytes b" by simp
  note at = append_at_writer [OF ok hd]
  have eq: "writerIndex b + length ?hd = length (buf b)"
    using over ok by (simp add: buffer_sizes) (auto simp: buffer_ok_def)
  have "?b = b\<lparr>buf := ?v\<rparr>\<lparr>writerIndex := length ?v\<rparr>" using at(5) eq by simp
  then have "readFd readv b = bind_res (append_buf (drop (writableBytes b) bs) ?b) (\<lambda>b2. Inr (int (length bs), None, b2))"
    using over rd at(1) by (simp add: readFd_def beginWrite_def Let_def)
  moreover have "length (drop (writableBytes b) bs) \<le> extraBufferSize"
    using bound over by (auto simp: read_iov_def split: if_splits)
  ultimately show thesis using that [of ?b] at(2,3,5) eq by simp
qed

lemma readFd_cases:
  assumes ok: "buffer_ok b" and spec: "readv_spec readv" and rd: "readv (read_iov b) = Inr bs"
    and cap: "length (buf b) + extraBufferSize \<le> VEC_MAX"
  obtains b' where "readFd readv b = Inr (int (length bs), None, b')" "buffer_ok b'"
    "content b' = content b @ bs"
proof (cases "length bs \<le> writableBytes b")
  case True
  then show thesis using readFd_fits [where readv = readv, OF ok rd] that by blast
next
  case False
  let ?tl = "drop (writableBytes b) bs"
  have "length bs \<le> sum_list (read_iov b)" using spec rd by (simp add: readv_spec_def)
  then obtain b1 where b1: "buffer_ok b1" "content b1 = content b @ take (writableBytes b) bs"
    "writerIndex b1 = length (buf b)" "length ?tl \<le> extraBufferSize"
    "readFd readv b = bind_res (append_buf ?tl b1) (\<lambda>b2. Inr (int (length bs), None, b2))"
    by (rule readFd_overflows [where readv = readv, OF ok rd False])
  have "fits (length ?tl) b1" using b1(3,4) cap unfolding fits_def by simp
  then obtain b' where "append_buf ?tl b1 = Inr b'" "buffer_ok b'" "content b' = content b1 @ ?tl"
    by (rule append_buf_ok [OF b1(1)])
  then show thesis using that b1(2,5) by simp
qed

section \<open>The FIFO contract\<close>

text \<open>
  What the connection code relies on: bytes go in at one end, come out at the other, unchanged and
  in order. \<open>load\<close> bounds the space a put may need.
\<close>

datatype fifo_op = Put "byte list" | Get nat

fun fifo_run :: "(byte list \<Rightarrow> 'b \<Rightarrow> 'b res) \<Rightarrow> (nat \<Rightarrow> 'b \<Rightarrow> (byte list \<times> 'b) res) \<Rightarrow>
    fifo_op list \<Rightarrow> 'b \<Rightarrow> (byte list \<times> 'b) res" where
  "fifo_run put get [] b = Inr ([], b)"
| "fifo_run put get (Put d # ops) b = bind_res (put d b) (fifo_run put get ops)"
| "fifo_run put get (Get n # ops) b =
     bind_res (get n b) (\<lambda>(xs, b'). bind_res (fifo_run put get ops b') (\<lambda>(ys, b''). Inr (xs @ ys, b'')))"

fun puts :: "fifo_op list \<Rightarrow> byte list" where
  "puts [] = []"
| "puts (Put d # ops) = d @ puts ops"
| "puts (Get n # ops) = puts ops"

locale byte_fifo =
  fixes inv :: "'b \<Rightarrow> bool"
    and view :: "'b \<Rightarrow> byte list"
    and load :: "'b \<Rightarrow> nat"
    and put :: "byte list \<Rightarrow> 'b \<Rightarrow> 'b res"
    and get :: "nat \<Rightarrow> 'b \<Rightarrow> (byte list \<times> 'b) res"
  assumes put_law: "inv b \<Longrightarrow> load b + length d \<le> VEC_MAX \<Longrightarrow>
      \<exists>b'. put d b = Inr b' \<and> inv b' \<and> view b' = view b @ d \<and> load b' \<le> load b + length d"
    and get_law: "inv b \<Longrightarrow>
      \<exists>b'. get n b = Inr (take n (view b), b') \<and> inv b' \<and> view b' = drop n (view b) \<and> load b' \<le> load b"
begin

lemma run_stream:
  "inv b \<Longrightarrow> load b + length (puts ops) \<le> VEC_MAX \<Longrightarrow>
   \<exists>xs b'. fifo_run put get ops b = Inr (xs, b') \<and> inv b' \<and> xs @ view b' = view b @ puts ops"
proof (induction ops arbitrary: b rule: puts.induct)
  case 1
  then show ?case by simp
next
  case (2 d ops)
  then obtain b1 where b1: "put d b = Inr b1" "inv b1" "view b1 = view b @ d"
    "load b1 \<le> load b + length d"
    using put_law [of b d] by auto
  moreover have "load b1 + length (puts ops) \<le> VEC_MAX" using b1(4) "2.prems" by simp
  ultimately show ?case using "2.IH" [of b1] by auto
next
  case (3 n ops)
  then obtain b1 where b1: "get n b = Inr (take n (view b), b1)" "inv b1" "view b1 = drop n (view b)"
    "load b1 \<le> load b"
    using get_law [of b n] by auto
  moreover have "load b1 + length (puts ops) \<le> VEC_MAX" using b1(4) "3.prems" by simp
  ultimately obtain xs b' where "fifo_run put get ops b1 = Inr (xs, b')" "inv b'"
    "xs @ view b' = view b1 @ puts ops"
    using "3.IH" [of b1] by auto
  with b1 show ?case by simp
qed

end

lemma writerIndex_retrieve: "buffer_ok b \<Longrightarrow> writerIndex (retrieve n b) \<le> writerIndex b"
  by (auto simp: retrieve_def retrieveAll_def buffer_ok_def)

interpretation buffer_fifo: byte_fifo buffer_ok content writerIndex append_buf retrieveAsString
proof unfold_locales
  fix b and d :: "byte list"
  assume "buffer_ok b" "writerIndex b + length d \<le> VEC_MAX"
  then have "fits (length d) b" by (simp add: fits_def)
  with \<open>buffer_ok b\<close> show "\<exists>b'. append_buf d b = Inr b' \<and> buffer_ok b' \<and> content b' = content b @ d \<and>
      writerIndex b' \<le> writerIndex b + length d"
    using append_buf_ok by metis
next
  fix b n
  assume "buffer_ok b"
  then show "\<exists>b'. retrieveAsString n b = Inr (take n (content b), b') \<and> buffer_ok b' \<and>
      content b' = drop n (content b) \<and> writerIndex b' \<le> writerIndex b"
    by (simp add: retrieveAsString_ok retrieve_ok writerIndex_retrieve)
qed


lemma ensureWritableBytes_too_long:
  assumes "buffer_ok b" "\<not> fits n b" "n \<le> VEC_MAX"
  shows "ensureWritableBytes n b = Inl Length_error"
proof -
  have "writerIndex b + n < SIZE_MOD"
    using assms by (simp add: buffer_ok_def VEC_MAX_def SIZE_MOD_def)
  then show ?thesis
    using assms makeSpace_too_long [of b n]
    by (auto simp: ensureWritableBytes_def buffer_sizes fits_def)
qed

lemma hasWritten_ok: "buffer_ok b \<Longrightarrow> n \<le> writableBytes b \<Longrightarrow> buffer_ok (hasWritten n b)"
  by (simp add: buffer_sizes) (auto simp: hasWritten_def buffer_ok_def size_arith)

lemma readFd_safe:
  assumes ok: "buffer_ok b" and bound: "call_ok (CReadFd readv) b"
  shows "readFd readv b = Inl Length_error \<or> (\<exists>n err b'. readFd readv b = Inr (n, err, b') \<and> buffer_ok b')"
proof (cases "readv (read_iov b)")
  case (Inl e)
  then show ?thesis using ok by (simp add: readFd_def)
next
  case (Inr bs)
  show ?thesis
  proof (cases "length bs \<le> writableBytes b")
    case True
    then show ?thesis using readFd_fits [where readv = readv, OF ok Inr] by blast
  next
    case False
    let ?tl = "drop (writableBytes b) bs"
    obtain b1 where b1: "buffer_ok b1" "length ?tl \<le> extraBufferSize"
      "readFd readv b = bind_res (append_buf ?tl b1) (\<lambda>b2. Inr (int (length bs), None, b2))"
      by (rule readFd_overflows [where readv = readv, OF ok Inr False]) (use bound Inr in simp_all)
    have "length ?tl \<le> VEC_MAX" using b1(2) by (simp add: extraBufferSize_def VEC_MAX_def)
    then have "append_buf ?tl b1 = Inl Length_error \<or> (\<exists>b'. append_buf ?tl b1 = Inr b' \<and> buffer_ok b')"
      using append_buf_too_long [OF b1(1)] append_buf_ok [OF b1(1), of ?tl] by metis
    then show ?thesis using b1(3) by auto
  qed
qed

lemma writeFd_safe: "buffer_ok b \<Longrightarrow> \<exists>r. writeFd wr b = Inr r"
  by (auto simp: writeFd_def peek_def buffer_sizes mem_simps buffer_ok_def split: sum.splits)

lemma buffer_step_ok:
  assumes "buffer_ok b" "call_ok c b"
  shows "buffer_step c b = Inl Length_error \<or> (\<exists>b'. buffer_step c b = Inr b' \<and> buffer_ok b')"
proof (cases c)
  case (CAppend d)
  then show ?thesis
    using assms append_buf_too_long [of b d] append_buf_ok [of b d]
    by (metis buffer_step.simps(1) call_ok.simps(1))
next
  case (CEnsureWritable n)
  then show ?thesis
    using assms ensureWritableBytes_too_long [of b n] ensureWritableBytes_ok [of b n]
    by (metis buffer_step.simps(2) call_ok.simps(2))
next
  case (CReadFd readv)
  then show ?thesis using assms readFd_safe [of b readv] by auto
next
  case (CWriteFd wr)
  then show ?thesis using assms writeFd_safe [of b wr] by auto
next
  case CRetrieveAllAsString
  then show ?thesis using assms by (simp add: retrieveAllAsString_def retrieveAsString_ok retrieve_ok)
qed (use assms in \<open>simp_all add: retrieve_ok retrieveAll_ok retrieveUntil_def retrieveAsString_ok hasWritten_ok\<close>)

lemma buffer_run_safe_gen:
  "buffer_ok b \<Longrightarrow>
   buffer_run cs b = Inl Length_error \<or> (\<exists>b'. buffer_run cs b = Inr b' \<and> buffer_ok b')"
proof (induction cs arbitrary: b)
  case Nil
  then show ?case by simp
next
  case (Cons c cs)
  show ?case
  proof (cases "call_ok c b")
    case True
    then consider "buffer_step c b = Inl Length_error"
      | b' where "buffer_step c b = Inr b'" "buffer_ok b'"
      using buffer_step_ok Cons.prems by blast
    then show ?thesis using Cons.IH True by cases (simp_all, blast?)
  qed (use Cons.prems in simp)
qed

section \<open>Properties\<close>

text \<open>C4. Stream integrity. Run any sequence of \<open>append\<close> and \<open>retrieveAsString\<close> calls on a new
  buffer whose appended bytes fit the maximal vector: every call succeeds, the class invariant
  holds, and the bytes retrieved so far followed by the bytes still readable are exactly the bytes
  appended, in order. Growing and compacting never lose, repeat or reorder a byte.\<close>

theorem buffer_stream_integrity:
  assumes "kCheapPrepend + length (puts ops) \<le> VEC_MAX"
  shows "\<exists>xs b. fifo_run append_buf retrieveAsString ops Buffer = Inr (xs, b) \<and>
    buffer_ok b \<and> xs @ content b = puts ops"
proof -
  have "writerIndex Buffer = kCheapPrepend" by (simp add: Buffer_def)
  then show ?thesis
    using buffer_fifo.run_stream [OF Buffer_ok, of ops] assms by (simp add: content_Buffer)
qed

theorem buffer_stream_integrity_witness:
  "\<exists>xs b. fifo_run append_buf retrieveAsString [Put [1, 2, 3], Get 2, Put [4]] Buffer = Inr (xs, b) \<and>
    buffer_ok b \<and> xs @ content b = [1, 2, 3, 4]"
  using buffer_stream_integrity [of "[Put [1, 2, 3], Get 2, Put [4]]"]
  by (simp add: kCheapPrepend_def VEC_MAX_def)

text \<open>C37. Memory safety of the public interface. From a new buffer, no sequence of calls of the public
  functions that change the buffer or access its storage (\<open>readFd\<close> in its POSIX branch, with its overflow path, and
  \<open>writeFd\<close> among them), whose arguments keep the documented bounds, ever reads or writes outside the vector: a run ends in a
  buffer that satisfies the invariant or with the vector's own \<open>length_error\<close>.\<close>

theorem buffer_run_safe:
  "buffer_run cs Buffer \<in> {Inl Length_error} \<union> Inr ` {b. buffer_ok b}"
  using buffer_run_safe_gen [OF Buffer_ok, of cs] by blast

theorem buffer_run_safe_witness:
  "\<exists>b. buffer_run [CReadFd (\<lambda>iov. Inr (replicate 2000 7)), CRetrieveAllAsString, CWriteFd (\<lambda>xs. Inr (length xs))] Buffer = Inr b \<and>
     buffer_ok b"
proof -
  let ?rd = "\<lambda>iov. Inr (replicate 2000 7) :: int + byte list"
  let ?cs = "[CReadFd ?rd, CRetrieveAllAsString, CWriteFd (\<lambda>xs. Inr (length xs))]"
  have w: "writableBytes Buffer = 1024"
    by (simp add: buffer_sizes(2) [OF Buffer_ok]) (simp add: Buffer_def kInitialSize_def)
  obtain b1 where b1: "buffer_ok b1" "writerIndex b1 = length (buf Buffer)"
    "readFd ?rd Buffer = bind_res (append_buf (drop 1024 (replicate 2000 7)) b1) (\<lambda>b2. Inr (2000, None, b2))"
    using readFd_overflows [of Buffer ?rd "replicate 2000 7"] Buffer_ok w by (auto simp: read_iov_def extraBufferSize_def)
  have "fits 976 b1" using b1(2) by (simp add: fits_def Buffer_def kCheapPrepend_def kInitialSize_def VEC_MAX_def)
  then obtain b2 where b2: "append_buf (drop 1024 (replicate 2000 7)) b1 = Inr b2" "buffer_ok b2"
    using append_buf_ok [OF b1(1), of "drop 1024 (replicate 2000 7)"] by auto
  obtain r where "writeFd (\<lambda>xs. Inr (length xs)) (retrieve (readableBytes b2) b2) = Inr r"
    using writeFd_safe [OF retrieve_ok(1) [OF b2(2)]] by blast
  then have "buffer_run ?cs Buffer \<noteq> Inl Length_error"
    using b1(3) b2 w
    by (simp add: read_iov_def extraBufferSize_def retrieveAllAsString_def retrieveAsString_ok [OF b2(2)])
  then show ?thesis using buffer_run_safe [of ?cs] by auto
qed

text \<open>Functional behaviour of \<open>readFd\<close>. With a \<open>readv\<close> that keeps its documented bound, a
  successful read appends exactly the delivered bytes to the readable bytes, also when they
  overflow into the stack buffer, returns their number and keeps the invariant; a failed read
  returns -1, reports the errno and changes nothing.\<close>

theorem readFd_appends:
  assumes "buffer_ok b" "readv_spec readv" "length (buf b) + extraBufferSize \<le> VEC_MAX"
  shows "case readv (read_iov b) of
           Inl errno \<Rightarrow> readFd readv b = Inr (-1, Some errno, b)
         | Inr bs \<Rightarrow> \<exists>b'. readFd readv b = Inr (int (length bs), None, b') \<and> buffer_ok b' \<and>
                      content b' = content b @ bs"
proof (cases "readv (read_iov b)")
  case (Inl e)
  then show ?thesis by (simp add: readFd_def)
next
  case (Inr bs)
  then show ?thesis using readFd_cases [OF assms(1,2) Inr assms(3)] by auto
qed

theorem readFd_appends_witness:
  "\<exists>b'. readFd (\<lambda>iov. Inr (take (sum_list iov) [7, 8, 9])) Buffer = Inr (3, None, b') \<and>
     buffer_ok b' \<and> content b' = content Buffer @ [7, 8, 9]"
proof -
  let ?rd = "\<lambda>iov. Inr (take (sum_list iov) [7, 8, 9 :: byte]) :: int + byte list"
  have spec: "readv_spec ?rd" by (auto simp: readv_spec_def)
  have cap: "length (buf Buffer) + extraBufferSize \<le> VEC_MAX"
    by (simp add: Buffer_def kCheapPrepend_def kInitialSize_def extraBufferSize_def VEC_MAX_def)
  have "writableBytes Buffer = 1024"
    by (simp add: buffer_sizes(2) [OF Buffer_ok]) (simp add: Buffer_def kInitialSize_def)
  then have "?rd (read_iov Buffer) = Inr [7, 8, 9]"
    by (simp add: read_iov_def extraBufferSize_def)
  then show ?thesis using readFd_appends [OF Buffer_ok spec cap] by simp
qed

text \<open>C38. Wrap-around in \<open>makeSpace\<close>. For a requested length so large that \<open>writerIndex_ + len\<close>
  passes \<open>2 ^ 64\<close>, \<open>ensureWritableBytes\<close> does not fail: it shrinks the vector below the writer
  index, so the class invariant is lost although no exception is raised.\<close>

theorem ensureWritableBytes_wraps:
  assumes "buffer_ok b" "SIZE_MOD \<le> writerIndex b + len" "len < SIZE_MOD"
  shows "ensureWritableBytes len b = Inr (b\<lparr>buf := take (writerIndex b + len - SIZE_MOD) (buf b)\<rparr>) \<and>
    \<not> buffer_ok (b\<lparr>buf := take (writerIndex b + len - SIZE_MOD) (buf b)\<rparr>)"
proof
  have "writableBytes b < len"
    using assms by (simp add: buffer_sizes) (auto simp: buffer_ok_def VEC_MAX_def SIZE_MOD_def)
  then show "ensureWritableBytes len b = Inr (b\<lparr>buf := take (writerIndex b + len - SIZE_MOD) (buf b)\<rparr>)"
    using makeSpace_wraps [OF assms] by (simp add: ensureWritableBytes_def)
  show "\<not> buffer_ok (b\<lparr>buf := take (writerIndex b + len - SIZE_MOD) (buf b)\<rparr>)"
    using assms by (auto simp: buffer_ok_def)
qed

theorem ensureWritableBytes_wraps_witness:
  "ensureWritableBytes (SIZE_MOD - 1) Buffer = Inr (Buffer\<lparr>buf := take 7 (buf Buffer)\<rparr>)"
proof -
  have "SIZE_MOD \<le> writerIndex Buffer + (SIZE_MOD - 1)" "SIZE_MOD - 1 < SIZE_MOD"
    "writerIndex Buffer + (SIZE_MOD - 1) - SIZE_MOD = 7"
    by (simp_all add: Buffer_def kCheapPrepend_def SIZE_MOD_def)
  then show ?thesis using ensureWritableBytes_wraps [OF Buffer_ok] by metis
qed

end
