(* ===== verification/Owned_Channel.thy ===== *)
theory Owned_Channel
  imports Channel_Poller
begin

text \<open>
  A channel as the object that owns it sees it. A connection holds its channel through a
  \<open>unique_ptr\<close> and calls it on the loop thread; what it can observe afterwards are the fields of the
  channel. The operations here are the calls of \<^verbatim>\<open>Channel.cc\<close> on that view; the lemmas \<open>owner_update\<close> and
  \<open>owner_remove\<close> of the locale \<open>poller\<close> prove that the call on the full reactor has this effect, with either
  back end, up to the index that only the poller reads.
\<close>

section \<open>Operations\<close>

definition ch_enableReading :: "'c channel \<Rightarrow> 'c channel" where
  "ch_enableReading c = c\<lparr>ch_events := ch_events c OR kReadEvent, ch_addedToLoop := True\<rparr>"

definition ch_disableReading :: "'c channel \<Rightarrow> 'c channel" where
  "ch_disableReading c = c\<lparr>ch_events := ch_events c AND NOT kReadEvent, ch_addedToLoop := True\<rparr>"

definition ch_enableWriting :: "'c channel \<Rightarrow> 'c channel" where
  "ch_enableWriting c = c\<lparr>ch_events := ch_events c OR kWriteEvent, ch_addedToLoop := True\<rparr>"

definition ch_disableWriting :: "'c channel \<Rightarrow> 'c channel" where
  "ch_disableWriting c = c\<lparr>ch_events := ch_events c AND NOT kWriteEvent, ch_addedToLoop := True\<rparr>"

definition ch_disableAll :: "'c channel \<Rightarrow> 'c channel" where
  "ch_disableAll c = c\<lparr>ch_events := kNoneEvent, ch_addedToLoop := True\<rparr>"

definition ch_remove :: "'c channel \<Rightarrow> 'c channel res" where
  "ch_remove c =
     (if \<not> isNoneEvent c then Inl (Runtime_error ''Channel::remove requires disableAll() first'')
      else Inr (c\<lparr>ch_addedToLoop := False\<rparr>))"

fun owner_op :: "'d chan_op \<Rightarrow> ('c channel \<Rightarrow> 'c channel) option" where
  "owner_op (EnableReading p) = Some ch_enableReading"
| "owner_op (DisableReading p) = Some ch_disableReading"
| "owner_op (EnableWriting p) = Some ch_enableWriting"
| "owner_op (DisableWriting p) = Some ch_disableWriting"
| "owner_op (DisableAll p) = Some ch_disableAll"
| "owner_op _ = None"

lemmas owner_defs = ch_enableReading_def ch_disableReading_def ch_enableWriting_def ch_disableWriting_def
  ch_disableAll_def

section \<open>Event masks\<close>

lemma mask_bits:
  "(kWriteEvent :: u32) = 2" "(kReadEvent :: u32) = 1" "(kNoneEvent :: u32) = 0"
  by (simp_all add: kWriteEvent_def kReadEvent_def kNoneEvent_def)

lemma isWriting_bit: "isWriting c \<longleftrightarrow> bit (ch_events c) 1"
  using and_exp_eq_0_iff_not_bit[of "ch_events c" 1] by (simp add: isWriting_def mask_bits)

lemma isReading_bit: "isReading c \<longleftrightarrow> bit (ch_events c) 0"
  using and_exp_eq_0_iff_not_bit[of "ch_events c" 0] by (simp add: isReading_def mask_bits)

lemma owner_writing [simp]:
  "isWriting (ch_enableWriting c)" "\<not> isWriting (ch_disableWriting c)" "\<not> isWriting (ch_disableAll c)"
  "isWriting (ch_enableReading c) = isWriting c" "isWriting (ch_disableReading c) = isWriting c"
  by (simp_all add: isWriting_bit owner_defs mask_bits bit_or_iff bit_and_iff bit_not_iff bit_1_iff bit_2_iff)

lemma owner_reading [simp]:
  "isReading (ch_enableReading c)" "\<not> isReading (ch_disableReading c)" "\<not> isReading (ch_disableAll c)"
  "isReading (ch_enableWriting c) = isReading c" "isReading (ch_disableWriting c) = isReading c"
  by (simp_all add: isReading_bit owner_defs mask_bits bit_or_iff bit_and_iff bit_not_iff bit_1_iff bit_2_iff)

lemma owner_none [simp]: "ch_events (ch_disableAll c) = kNoneEvent"
  by (simp add: owner_defs)

lemma owner_added [simp]:
  "ch_addedToLoop (ch_enableReading c)" "ch_addedToLoop (ch_disableReading c)" "ch_addedToLoop (ch_enableWriting c)"
  "ch_addedToLoop (ch_disableWriting c)" "ch_addedToLoop (ch_disableAll c)"
  by (simp_all add: owner_defs)

lemma none_idle: "ch_events c = kNoneEvent \<Longrightarrow> \<not> isWriting c \<and> \<not> isReading c"
  by (simp add: isWriting_bit isReading_bit mask_bits)

section \<open>Agreement with the reactor\<close>

lemma owner_op_events:
  "owner_op a = Some g \<Longrightarrow> \<exists>f. op_events a = Some f \<and> (\<forall>c. g c = c\<lparr>ch_events := f (ch_events c), ch_addedToLoop := True\<rparr>)"
  by (cases a) (auto simp: owner_defs)

context poller
begin

lemma owner_update:
  assumes inv: "pinv w" and ok: "op_ok a w" and g: "owner_op a = Some g" and c: "cheap w (op_chan a) = Some c"
  shows "\<exists>w' i. do_chan_op upd rem a w = Inr w' \<and> pinv w' \<and> cheap w' (op_chan a) = Some ((g c)\<lparr>ch_index := i\<rparr>)"
proof -
  obtain f where f: "op_events a = Some f" and g': "g c = c\<lparr>ch_events := f (ch_events c), ch_addedToLoop := True\<rparr>"
    using owner_op_events[OF g] by blast
  have new: "ch_index c = kNew \<Longrightarrow> channels w (ch_fd c) = None"
    using ok f c by (cases a) (auto simp: op_ok_def)
  obtain i w' where w': "upd (op_chan a) (w\<lparr>cheap := (cheap w)(op_chan a \<mapsto> c\<lparr>ch_events := f (ch_events c), ch_addedToLoop := True\<rparr>)\<rparr>) = Inr w'"
    "pinv w'" "cheap w' = (cheap w)(op_chan a \<mapsto> c\<lparr>ch_events := f (ch_events c), ch_addedToLoop := True, ch_index := i\<rparr>)"
    using upd_law[OF inv c new] by blast
  have "do_chan_op upd rem a w = Inr w'"
    using c w'(1) by (simp add: do_chan_op_events[OF f] update_def EventLoop_updateChannel_def set_chan_Some)
  moreover have "cheap w' (op_chan a) = Some ((g c)\<lparr>ch_index := i\<rparr>)" by (simp add: w'(3) g')
  ultimately show ?thesis using w'(2) by blast
qed

lemma owner_remove:
  assumes inv: "pinv w" and ok: "op_ok (RemoveChan p) w" and c: "cheap w p = Some c"
  shows "\<exists>w' c'. do_chan_op upd rem (RemoveChan p) w = Inr w' \<and> pinv w' \<and> ch_remove c = Inr c' \<and>
    cheap w' p = Some (c'\<lparr>ch_index := kNew\<rparr>)"
proof -
  have o: "isNoneEvent c" "channels w (ch_fd c) = None \<or> channels w (ch_fd c) = Some p"
    using ok c by (auto simp: op_ok_def)
  obtain w' where w': "rem p (w\<lparr>cheap := (cheap w)(p \<mapsto> c\<lparr>ch_addedToLoop := False\<rparr>)\<rparr>) = Inr w'" "pinv w'"
    "cheap w' = (cheap w)(p \<mapsto> c\<lparr>ch_addedToLoop := False, ch_index := kNew\<rparr>)"
    using rem_law[OF inv c o] by blast
  show ?thesis
    using w' o(1) c dispatch_law[OF w'(2)]
    by (simp add: remove_chan_def with_chan_def EventLoop_removeChannel_def set_chan_Some ch_remove_def assertInLoopThread_def)
qed

end

end
