(* ===== verification/Transport.thy ===== *)
theory Transport
  imports Byte_Buffer Owned_Channel Socket_Ops
begin

text \<open>
  \<^verbatim>\<open>detail/ConnectionTransport\<close>: the plain and the TLS byte transport of a connection.

  The answers of the kernel and of OpenSSL are inputs: the record \<open>transport\<close> holds, next to the fields of
  the class, the sequences of results that the next calls will return, so a statement for every
  \<open>transport\<close> is a statement for every behaviour of the network. A call at the end of its sequence is
  answered with "would block". What is documented of the calls is built in: \<open>write\<close> and \<open>SSL_write\<close> take a prefix of
  at most the bytes offered, \<open>readv\<close> and \<open>SSL_read\<close> deliver at most the room offered, and an
  answer of OpenSSL without bytes comes with a code for \<open>SSL_get_error\<close> and an \<open>errno\<close>. \<open>wire\<close> is the sequence of
  bytes handed over for sending, \<open>fins\<close> counts the calls of \<open>shutdown(SHUT_WR)\<close>.
  \<open>built_tls\<close> is the build option \<^verbatim>\<open>MINI_ENABLE_TLS\<close>; \<open>ssl\<close> tells that \<open>ssl_\<close> is not null.
\<close>

section \<open>State\<close>

datatype tls_state = kTlsNone | kTlsHandshaking | kTlsEstablished | kTlsShuttingDown

datatype status = kOk | kWouldBlock | kPeerClosed | kError

record io_result =
  io_status :: status
  io_bytes :: nat
  io_errno :: int

record hs_result =
  hs_completed :: bool
  hs_failed :: bool
  hs_errno :: int

record transport =
  built_tls :: bool
  ssl :: bool
  tlsContext :: bool
  tlsState :: tls_state
  write_answers :: "(int + nat) list"
  read_answers :: "(int + byte list) list"
  ssl_write_answers :: "(nat \<times> int \<times> int) list"
  ssl_read_answers :: "(byte list \<times> int \<times> int) list"
  handshake_answers :: "(bool \<times> int \<times> int) list"
  wire :: "byte list"
  fins :: nat
  ssl_shutdowns :: nat
  ssl_allocated :: nat

type_synonym 'c io = "(io_result \<times> buffer \<times> 'c channel \<times> transport) res"

definition SSL_ERROR_WANT_READ :: int where "SSL_ERROR_WANT_READ = 2"
definition SSL_ERROR_WANT_WRITE :: int where "SSL_ERROR_WANT_WRITE = 3"
definition SSL_ERROR_ZERO_RETURN :: int where "SSL_ERROR_ZERO_RETURN = 6"
definition ENOTSUP :: int where "ENOTSUP = 95"
definition INT_MAX :: int where "INT_MAX = 2147483647"

definition unsupportedTransportError :: int where
  "unsupportedTransportError = ENOTSUP"

definition io_ok :: "nat \<Rightarrow> io_result" where
  "io_ok n = \<lparr>io_status = kOk, io_bytes = n, io_errno = 0\<rparr>"

definition io_would_block :: io_result where
  "io_would_block = \<lparr>io_status = kWouldBlock, io_bytes = 0, io_errno = 0\<rparr>"

definition io_peer_closed :: io_result where
  "io_peer_closed = \<lparr>io_status = kPeerClosed, io_bytes = 0, io_errno = 0\<rparr>"

definition io_error :: "int \<Rightarrow> io_result" where
  "io_error e = \<lparr>io_status = kError, io_bytes = 0, io_errno = e\<rparr>"

section \<open>System calls\<close>

definition sys_write :: "byte list \<Rightarrow> transport \<Rightarrow> (int + nat) \<times> transport" where
  "sys_write data t =
     (case write_answers t of
        [] \<Rightarrow> (Inl EAGAIN, t)
      | Inl e # as \<Rightarrow> (Inl e, t\<lparr>write_answers := as\<rparr>)
      | Inr n # as \<Rightarrow> (Inr (min n (length data)), t\<lparr>write_answers := as, wire := wire t @ take n data\<rparr>))"

definition sys_readv :: "nat list \<Rightarrow> transport \<Rightarrow> int + byte list" where
  "sys_readv iov t =
     (case read_answers t of [] \<Rightarrow> Inl EAGAIN | Inl e # as \<Rightarrow> Inl e | Inr bs # as \<Rightarrow> Inr (take (sum_list iov) bs))"

text \<open>The length argument of \<open>SSL_write\<close> is \<open>static_cast<int>\<close> of a \<open>size_t\<close>; a length that is not positive sends nothing.\<close>

definition ssl_num :: "nat \<Rightarrow> int" where
  "ssl_num n = (let m = int n mod 2 ^ 32 in if m < 2 ^ 31 then m else m - 2 ^ 32)"

definition SSL_write :: "byte list \<Rightarrow> transport \<Rightarrow> (nat \<times> int \<times> int) \<times> transport" where
  "SSL_write data t =
     (case ssl_write_answers t of
        [] \<Rightarrow> ((0, SSL_ERROR_WANT_WRITE, 0), t)
      | (n, err, errno) # as \<Rightarrow>
          let k = min n (nat (ssl_num (length data)))
          in ((k, err, errno), t\<lparr>ssl_write_answers := as, wire := wire t @ take k data\<rparr>))"

definition ssl_read_size :: nat where "ssl_read_size = 16384"

section \<open>Set-up and handshake\<close>

definition resetTls :: "transport \<Rightarrow> transport" where
  "resetTls t =
     (let t = (if built_tls t \<and> ssl t then t\<lparr>ssl := False, ssl_allocated := ssl_allocated t - 1\<rparr> else t)
      in t\<lparr>tlsContext := False, tlsState := kTlsNone\<rparr>)"

text \<open>\<open>created\<close> tells whether \<open>SSL_new\<close> returned an object.\<close>

definition enableTls :: "bool \<Rightarrow> int \<Rightarrow> transport \<Rightarrow> bool \<times> transport" where
  "enableTls created fd t =
     (if \<not> built_tls t then (False, t)
      else let t = resetTls t; t = t\<lparr>tlsContext := True\<rparr>
           in if \<not> created then (False, t\<lparr>tlsContext := False\<rparr>)
              else let t = t\<lparr>ssl := True, ssl_allocated := ssl_allocated t + 1\<rparr>
                   in if fd > INT_MAX then (False, resetTls t)
                      else (True, t\<lparr>tlsState := kTlsHandshaking\<rparr>))"

definition handshakePending :: "transport \<Rightarrow> bool" where
  "handshakePending t \<longleftrightarrow> ssl t \<and> tlsState t = kTlsHandshaking"

definition isTlsEstablished :: "transport \<Rightarrow> bool" where
  "isTlsEstablished t \<longleftrightarrow> tlsState t = kTlsEstablished"

definition hs_done :: hs_result where "hs_done = \<lparr>hs_completed = True, hs_failed = False, hs_errno = 0\<rparr>"
definition hs_again :: hs_result where "hs_again = \<lparr>hs_completed = False, hs_failed = False, hs_errno = 0\<rparr>"
definition hs_fail :: "int \<Rightarrow> hs_result" where "hs_fail e = \<lparr>hs_completed = False, hs_failed = True, hs_errno = e\<rparr>"

definition advanceHandshake :: "'c channel \<Rightarrow> transport \<Rightarrow> hs_result \<times> 'c channel \<times> transport" where
  "advanceHandshake ch t =
     (if \<not> built_tls t \<or> \<not> ssl t \<or> tlsState t \<noteq> kTlsHandshaking then (hs_done, ch, t)
      else case (case handshake_answers t of [] \<Rightarrow> (False, SSL_ERROR_WANT_READ, 0) | a # as \<Rightarrow> a) of
             (ok, err, errno) \<Rightarrow>
               let t = t\<lparr>handshake_answers := tl (handshake_answers t)\<rparr>
               in if ok then (hs_done, ch_disableWriting ch, t\<lparr>tlsState := kTlsEstablished\<rparr>)
                  else if err = SSL_ERROR_WANT_READ
                    then (hs_again, if \<not> isReading ch then ch_enableReading ch else ch, t)
                  else if err = SSL_ERROR_WANT_WRITE then (hs_again, ch_enableWriting ch, t)
                  else (hs_fail errno, ch, t))"

section \<open>Reading\<close>

definition read_total :: "nat \<Rightarrow> io_result" where
  "read_total tot = (if tot > 0 then io_ok tot else io_would_block)"

text \<open>The loop of \<open>sslReadIntoBuffer\<close>, over the answers of \<open>SSL_read\<close>; it returns the answers left.\<close>

fun ssl_read_loop :: "(byte list \<times> int \<times> int) list \<Rightarrow> nat \<Rightarrow> buffer \<Rightarrow> 'c channel \<Rightarrow>
    (io_result \<times> buffer \<times> 'c channel \<times> (byte list \<times> int \<times> int) list) res" where
  "ssl_read_loop [] tot b ch = Inr (read_total tot, b, ch, [])"
| "ssl_read_loop ((bs, err, errno) # as) tot b ch =
     (let d = take ssl_read_size bs
      in if d \<noteq> [] then bind_res (append_buf d b) (\<lambda>b. ssl_read_loop as (tot + length d) b ch)
         else if err = SSL_ERROR_WANT_READ then Inr (read_total tot, b, ch, as)
         else if err = SSL_ERROR_WANT_WRITE then Inr (read_total tot, b, ch_enableWriting ch, as)
         else if err = SSL_ERROR_ZERO_RETURN
           then Inr (if tot > 0 then read_total tot else io_peer_closed, b, ch, as)
         else Inr (if tot > 0 then read_total tot else io_error errno, b, ch, as))"

definition sslReadIntoBuffer :: "buffer \<Rightarrow> 'c channel \<Rightarrow> transport \<Rightarrow> 'c io" where
  "sslReadIntoBuffer b ch t =
     (if \<not> built_tls t then Inr (io_error unsupportedTransportError, b, ch, t)
      else bind_res (ssl_read_loop (ssl_read_answers t) 0 b ch) (\<lambda>(r, b, ch, as).
             Inr (r, b, ch, t\<lparr>ssl_read_answers := as\<rparr>)))"

definition readInto :: "buffer \<Rightarrow> 'c channel \<Rightarrow> transport \<Rightarrow> 'c io" where
  "readInto b ch t =
     (if ssl t then sslReadIntoBuffer b ch t
      else bind_res (readFd (\<lambda>iov. sys_readv iov t) b) (\<lambda>(n, saved, b').
             let t = t\<lparr>read_answers := tl (read_answers t)\<rparr>;
                 savedErrno = (case saved of None \<Rightarrow> 0 | Some e \<Rightarrow> e)
             in Inr (if n > 0 then io_ok (nat n)
                     else if n = 0 then io_peer_closed
                     else if isWouldBlock savedErrno then io_would_block
                     else io_error savedErrno, b', ch, t)))"

section \<open>Writing\<close>

definition sslWriteRaw :: "byte list \<Rightarrow> 'c channel \<Rightarrow> transport \<Rightarrow> io_result \<times> 'c channel \<times> transport" where
  "sslWriteRaw data ch t =
     (if \<not> built_tls t then (io_error unsupportedTransportError, ch, t)
      else case SSL_write data t of
             ((n, err, errno), t) \<Rightarrow>
               if n > 0 then (io_ok n, ch, t)
               else if err = SSL_ERROR_WANT_WRITE then (io_would_block, ch, t)
               else if err = SSL_ERROR_WANT_READ then (io_would_block, ch_enableReading ch, t)
               else (io_error errno, ch, t))"

definition writeRaw :: "byte list \<Rightarrow> 'c channel \<Rightarrow> transport \<Rightarrow> io_result \<times> 'c channel \<times> transport" where
  "writeRaw data ch t =
     (if ssl t then sslWriteRaw data ch t
      else case sys_write data t of
             (Inr n, t) \<Rightarrow> (io_ok n, ch, t)
           | (Inl error, t) \<Rightarrow> (if isWouldBlock error then io_would_block else io_error error, ch, t))"

text \<open>The loop of \<open>sslWriteFromBuffer\<close>, over the answers of \<open>SSL_write\<close>; it returns the answers left and the bytes sent.\<close>

fun ssl_write_loop :: "(nat \<times> int \<times> int) list \<Rightarrow> nat \<Rightarrow> buffer \<Rightarrow> 'c channel \<Rightarrow> byte list \<Rightarrow>
    (io_result \<times> buffer \<times> 'c channel \<times> (nat \<times> int \<times> int) list \<times> byte list) res" where
  "ssl_write_loop [] tot b ch w = Inr (read_total tot, b, ch, [], w)"
| "ssl_write_loop ((m, err, errno) # as) tot b ch w =
     (if readableBytes b = 0 then Inr (read_total tot, b, ch, (m, err, errno) # as, w)
      else bind_res (mem_read (peek b) (readableBytes b) (buf b)) (\<lambda>xs.
             let n = min m (nat (ssl_num (length xs)))
             in if n > 0 then ssl_write_loop as (tot + n) (retrieve n b) ch (w @ take n xs)
                else if err = SSL_ERROR_WANT_WRITE then Inr (read_total tot, b, ch, as, w)
                else if err = SSL_ERROR_WANT_READ then Inr (read_total tot, b, ch_enableReading ch, as, w)
                else Inr (if tot > 0 then read_total tot else io_error errno, b, ch, as, w)))"

definition sslWriteFromBuffer :: "buffer \<Rightarrow> 'c channel \<Rightarrow> transport \<Rightarrow> 'c io" where
  "sslWriteFromBuffer b ch t =
     (if \<not> built_tls t then Inr (io_error unsupportedTransportError, b, ch, t)
      else bind_res (ssl_write_loop (ssl_write_answers t) 0 b ch (wire t)) (\<lambda>(r, b, ch, as, w).
             Inr (r, b, ch, t\<lparr>ssl_write_answers := as, wire := w\<rparr>)))"

text \<open>The branch of \<open>writeFromBuffer\<close> without TLS.\<close>

definition plainWriteFromBuffer :: "buffer \<Rightarrow> 'c channel \<Rightarrow> transport \<Rightarrow> 'c io" where
  "plainWriteFromBuffer b ch t =
     bind_res (writeFd (\<lambda>xs. fst (sys_write xs t)) b) (\<lambda>(n, saved).
       let t = snd (sys_write (content b) t);
           savedErrno = (case saved of None \<Rightarrow> 0 | Some e \<Rightarrow> e)
       in Inr (if n > 0 then (io_ok (nat n), retrieve (nat n) b, ch, t)
               else (if isWouldBlock savedErrno then io_would_block else io_error savedErrno, b, ch, t)))"

definition writeFromBuffer :: "buffer \<Rightarrow> 'c channel \<Rightarrow> transport \<Rightarrow> 'c io" where
  "writeFromBuffer b ch t = (if ssl t then sslWriteFromBuffer b ch t else plainWriteFromBuffer b ch t)"

definition transport_shutdownWrite :: "transport \<Rightarrow> transport" where
  "transport_shutdownWrite t =
     (let t = (if built_tls t \<and> ssl t \<and> tlsState t = kTlsEstablished
               then t\<lparr>tlsState := kTlsShuttingDown, ssl_shutdowns := ssl_shutdowns t + 1\<rparr> else t)
      in t\<lparr>fins := fins t + 1\<rparr>)"

section \<open>What is kept\<close>

text \<open>The fields that reading and writing never change.\<close>

definition same_mode :: "transport \<Rightarrow> transport \<Rightarrow> bool" where
  "same_mode t t' \<longleftrightarrow> built_tls t' = built_tls t \<and> ssl t' = ssl t \<and> tlsContext t' = tlsContext t \<and> tlsState t' = tlsState t \<and>
     fins t' = fins t \<and> ssl_shutdowns t' = ssl_shutdowns t \<and> ssl_allocated t' = ssl_allocated t"

lemma append_buf_Inr:
  assumes "buffer_ok b" "append_buf d b = Inr b'"
  shows "buffer_ok b' \<and> content b' = content b @ d"
proof (cases "length d \<le> VEC_MAX")
  case True
  then have "fits (length d) b" using assms append_buf_too_long by fastforce
  then show ?thesis using append_buf_ok[OF assms(1), of d] assms(2) by (metis sum.inject(2))
next
  case False
  obtain b1 v where b1: "ensureWritableBytes (length d) b = Inr b1" "mem_write (beginWrite b1) d (buf b1) = Inr v"
    using assms(2) by (auto simp: append_buf_def bind_res_Inr)
  have "length (buf b1) \<le> VEC_MAX"
    using b1(1) assms(1)
    by (auto simp: ensureWritableBytes_def makeSpace_def Let_def bind_res_Inr vec_resize_def buffer_ok_def
        dest!: mem_write_length split: if_splits)
  then show ?thesis using False b1(2) by (simp add: mem_write_def split: if_splits)
qed

lemma ssl_read_loop_ok:
  "ssl_read_loop as tot b ch = Inr (r, b', ch', as') \<Longrightarrow> buffer_ok b \<Longrightarrow>
     buffer_ok b' \<and> (\<exists>d. content b' = content b @ d) \<and> isReading ch' = isReading ch"
proof (induction as tot b ch rule: ssl_read_loop.induct)
  case (2 bs err errno as tot b ch)
  let ?d = "take ssl_read_size bs"
  show ?case
  proof (cases "?d = []")
    case True
    then show ?thesis using 2(2,3) by (auto simp: Let_def split: if_splits)
  next
    case False
    then obtain b1 where b1: "append_buf ?d b = Inr b1" "ssl_read_loop as (tot + length ?d) b1 ch = Inr (r, b', ch', as')"
      using 2(2) by (auto simp: Let_def bind_res_Inr)
    have a: "buffer_ok b1" "content b1 = content b @ ?d" using append_buf_Inr[OF 2(3) b1(1)] by simp_all
    have IH: "buffer_ok b' \<and> (\<exists>d. content b' = content b1 @ d) \<and> isReading ch' = isReading ch"
      by (rule 2(1)[OF refl False b1 a(1)])
    then obtain d where "content b' = content b1 @ d" by blast
    then have "content b' = content b @ (?d @ d)" using a(2) by simp
    with IH show ?thesis by blast
  qed
qed auto

lemma readFd_Inr:
  assumes "buffer_ok b" "readFd (\<lambda>iov. sys_readv iov t) b = Inr (n, e, b')"
  shows "buffer_ok b' \<and> (\<exists>d. content b' = content b @ d)"
proof (cases "sys_readv (read_iov b) t")
  case (Inl e)
  then show ?thesis using assms by (auto simp: readFd_def Let_def)
next
  case (Inr bs)
  let ?w = "writableBytes b" and ?hd = "take (writableBytes b) bs"
  have hd: "length ?hd \<le> ?w" by simp
  note at = append_at_writer[OF assms(1) hd]
  show ?thesis
  proof (cases "length bs \<le> ?w")
    case True
    then have eq: "?hd = bs" by simp
    show ?thesis using assms(2) True at Inr
      by (auto simp: readFd_def Let_def beginWrite_def eq)
  next
    case False
    let ?v = "take (writerIndex b) (buf b) @ ?hd @ drop (writerIndex b + length ?hd) (buf b)"
    have len: "writerIndex b + length ?hd = length (buf b)"
      using False assms(1) by (simp add: buffer_sizes) (auto simp: buffer_ok_def)
    have "length ?v = length (buf b)" using at(5) by simp
    moreover have lv: "min (length (buf b)) (writerIndex b) + (?w + (length (buf b) - (writerIndex b + ?w))) = writerIndex b + ?w"
      using len False by simp
    ultimately have b1: "b\<lparr>buf := ?v\<rparr>\<lparr>writerIndex := length ?v\<rparr> = b\<lparr>buf := ?v, writerIndex := writerIndex b + length ?hd\<rparr>"
      using len by simp
    have "append_buf (drop ?w bs) (b\<lparr>buf := ?v, writerIndex := writerIndex b + length ?hd\<rparr>) = Inr b'"
      using assms(2) False at(1) Inr by (auto simp: readFd_def Let_def beginWrite_def bind_res_Inr lv)
    from append_buf_Inr[OF at(2) this] at(3) show ?thesis by auto
  qed
qed

lemma readInto_ok:
  assumes "readInto b ch t = Inr (r, b', ch', t')" "buffer_ok b"
  shows "buffer_ok b'" "\<exists>d. content b' = content b @ d" "isReading ch' = isReading ch" "same_mode t t'" "wire t' = wire t"
    "\<not> ssl t \<Longrightarrow> ch' = ch"
proof -
  have "buffer_ok b' \<and> (\<exists>d. content b' = content b @ d) \<and> isReading ch' = isReading ch \<and> same_mode t t' \<and> wire t' = wire t \<and>
    (\<not> ssl t \<longrightarrow> ch' = ch)"
  proof (cases "ssl t")
    case True
    then show ?thesis using assms ssl_read_loop_ok[of "ssl_read_answers t" 0 b ch r b' ch']
      by (auto simp: readInto_def sslReadIntoBuffer_def bind_res_Inr same_mode_def split: if_splits)
  next
    case False
    then show ?thesis using assms readFd_Inr[of b t]
      by (auto simp: readInto_def bind_res_Inr same_mode_def Let_def split: if_splits)
  qed
  then show "buffer_ok b'" "\<exists>d. content b' = content b @ d" "isReading ch' = isReading ch" "same_mode t t'"
    "wire t' = wire t" "\<not> ssl t \<Longrightarrow> ch' = ch" by simp_all
qed

lemma ssl_num_le: "nat (ssl_num n) \<le> n"
proof -
  have "int n mod 2 ^ 32 \<le> int n" by (rule zmod_le_nonneg_dividend) simp
  then show ?thesis unfolding ssl_num_def Let_def by (auto intro!: nat_le_iff[THEN iffD2])
qed

lemma writeRaw_ok:
  assumes "writeRaw data ch t = (r, ch', t')"
  shows "wire t' = wire t @ take (io_bytes r) data" "io_bytes r \<le> length data" "same_mode t t'"
    "isWriting ch' = isWriting ch" "\<not> ssl t \<Longrightarrow> ch' = ch" "io_status r = kError \<Longrightarrow> io_bytes r = 0"
    "ch_addedToLoop ch \<Longrightarrow> ch_addedToLoop ch'"
  using assms ssl_num_le[of "length data"]
  by (auto simp: writeRaw_def sslWriteRaw_def sys_write_def SSL_write_def io_ok_def io_would_block_def io_error_def
      same_mode_def Let_def min_def take_all split: if_splits list.splits sum.splits prod.splits)

section \<open>Draining a buffer\<close>

text \<open>What the connection relies on when it drains its output buffer, for either transport: the bytes leave in order,
  each exactly once.\<close>

locale stream_writer =
  fixes wr :: "buffer \<Rightarrow> 'c channel \<Rightarrow> transport \<Rightarrow> 'c io"
  assumes wr_stream: "wr b ch t = Inr (r, b', ch', t') \<Longrightarrow> buffer_ok b \<Longrightarrow>
      buffer_ok b' \<and> wire t' @ content b' = wire t @ content b"
    and wr_grow: "wr b ch t = Inr (r, b', ch', t') \<Longrightarrow> \<exists>x. wire t' = wire t @ x"
    and wr_status: "wr b ch t = Inr (r, b', ch', t') \<Longrightarrow> buffer_ok b \<Longrightarrow> io_status r \<noteq> kOk \<Longrightarrow> content b' = content b"
    and wr_mode: "wr b ch t = Inr (r, b', ch', t') \<Longrightarrow> same_mode t t' \<and> isWriting ch' = isWriting ch \<and>
      (ch_addedToLoop ch \<longrightarrow> ch_addedToLoop ch')"
begin

lemma not_ok_keeps:
  assumes "wr b ch t = Inr (r, b', ch', t')" "buffer_ok b" "io_status r \<noteq> kOk"
  shows "content b' = content b" "wire t' = wire t"
  using wr_stream[OF assms(1,2)] wr_status[OF assms] by simp_all

end

lemma buffer_mem_read: "buffer_ok b \<Longrightarrow> mem_read (peek b) (readableBytes b) (buf b) = Inr (content b)"
  by (auto simp: mem_read_def peek_def content_def buffer_sizes buffer_ok_def)

lemma ssl_write_loop_ok:
  "ssl_write_loop as tot b ch w = Inr (r, b', ch', as', w') \<Longrightarrow> buffer_ok b \<Longrightarrow>
     buffer_ok b' \<and> w' @ content b' = w @ content b \<and>
     (io_status r \<noteq> kOk \<longrightarrow> content b' = content b \<and> tot = 0)"
proof (induction as tot b ch w rule: ssl_write_loop.induct)
  case (2 m err errno as tot b ch w)
  let ?n = "min m (nat (ssl_num (length (content b))))"
  show ?case
  proof (cases "readableBytes b \<noteq> 0 \<and> ?n > 0")
    case True
    have rd: "mem_read (peek b) (readableBytes b) (buf b) = Inr (content b)" by (rule buffer_mem_read[OF 2(3)])
    have eq: "ssl_write_loop as (tot + ?n) (retrieve ?n b) ch (w @ take ?n (content b)) = Inr (r, b', ch', as', w')"
      using 2(2) True rd by (simp add: Let_def)
    have "buffer_ok b' \<and> w' @ content b' = (w @ take ?n (content b)) @ content (retrieve ?n b) \<and>
      (io_status r \<noteq> kOk \<longrightarrow> content b' = content (retrieve ?n b) \<and> tot + ?n = 0)"
      by (rule 2(1)[OF _ rd refl _ eq retrieve_ok(1)[OF 2(3)]]) (use True in simp_all)
    then show ?thesis using retrieve_ok(2)[OF 2(3), of ?n] True by simp
  next
    case False
    then show ?thesis using 2(2,3) buffer_mem_read[OF 2(3)]
      by (auto simp: Let_def read_total_def io_ok_def split: if_splits)
  qed
qed (auto simp: read_total_def io_ok_def split: if_splits)

lemma ssl_write_loop_chan:
  "ssl_write_loop as tot b ch w = Inr (r, b', ch', as', w') \<Longrightarrow>
     isWriting ch' = isWriting ch \<and> (ch_addedToLoop ch \<longrightarrow> ch_addedToLoop ch') \<and> (\<exists>x. w' = w @ x)"
proof (induction as tot b ch w rule: ssl_write_loop.induct)
  case (2 m err errno as tot b ch w)
  show ?case
  proof (cases "readableBytes b = 0")
    case False
    then obtain xs where rd: "mem_read (peek b) (readableBytes b) (buf b) = Inr xs"
      using 2(2) by (auto simp: bind_res_Inr)
    let ?n = "min m (nat (ssl_num (length xs)))"
    show ?thesis
    proof (cases "0 < ?n")
      case True
      then have "ssl_write_loop as (tot + ?n) (retrieve ?n b) ch (w @ take ?n xs) = Inr (r, b', ch', as', w')"
        using 2(2) False rd by (simp add: Let_def)
      from 2(1)[OF False rd refl True this] show ?thesis by auto
    next
      case n0: False
      then show ?thesis using 2(2) False rd by (simp add: Let_def split: if_splits) auto
    qed
  qed (use 2(2) in simp)
qed auto

interpretation tls_out: stream_writer sslWriteFromBuffer
  by unfold_locales
    (auto simp: sslWriteFromBuffer_def bind_res_Inr same_mode_def dest: ssl_write_loop_ok ssl_write_loop_chan split: if_splits)

lemma plain_write_cases:
  assumes "plainWriteFromBuffer b ch t = Inr (r, b', ch', t')"
  shows "same_mode t t'" "ch' = ch" "\<exists>x. wire t' = wire t @ x"
  using assms by (auto simp: plainWriteFromBuffer_def bind_res_Inr same_mode_def sys_write_def Let_def split: list.splits sum.splits if_splits)

interpretation plain_out: stream_writer plainWriteFromBuffer
proof unfold_locales
  fix b :: buffer and ch ch' :: "'c channel" and t t' :: transport and r :: io_result and b' :: buffer
  assume w: "plainWriteFromBuffer b ch t = Inr (r, b', ch', t')"
  show "same_mode t t' \<and> isWriting ch' = isWriting ch \<and> (ch_addedToLoop ch \<longrightarrow> ch_addedToLoop ch')"
    using plain_write_cases[OF w] by simp
  show "\<exists>x. wire t' = wire t @ x" using plain_write_cases(3)[OF w] .
  assume ok: "buffer_ok b"
  note rd = buffer_mem_read[OF ok]
  show "buffer_ok b' \<and> wire t' @ content b' = wire t @ content b"
    using w ok retrieve_ok[OF ok] rd
    by (auto simp: plainWriteFromBuffer_def writeFd_def sys_write_def Let_def min_def split: list.splits sum.splits if_splits)
  show "io_status r \<noteq> kOk \<Longrightarrow> content b' = content b"
    using w rd by (auto simp: plainWriteFromBuffer_def writeFd_def sys_write_def Let_def io_ok_def split: list.splits sum.splits if_splits)
qed

lemma writeFromBuffer_ok:
  assumes "writeFromBuffer b ch t = Inr (r, b', ch', t')" "buffer_ok b"
  shows "buffer_ok b'" "wire t' @ content b' = wire t @ content b" "same_mode t t'" "isWriting ch' = isWriting ch"
    "io_status r \<noteq> kOk \<Longrightarrow> content b' = content b" "\<not> ssl t \<Longrightarrow> ch' = ch"
    "ch_addedToLoop ch \<Longrightarrow> ch_addedToLoop ch'" "\<exists>x. wire t' = wire t @ x"
  using assms tls_out.wr_grow[of b ch t r b' ch' t'] plain_out.wr_grow[of b ch t r b' ch' t'] tls_out.wr_stream[of b ch t r b' ch' t'] plain_out.wr_stream[of b ch t r b' ch' t']
    tls_out.wr_status[of b ch t r b' ch' t'] plain_out.wr_status[of b ch t r b' ch' t']
    tls_out.wr_mode[of b ch t r b' ch' t'] plain_out.wr_mode[of b ch t r b' ch' t'] plain_write_cases(2)[of b ch t r b' ch' t']
  by (auto simp: writeFromBuffer_def split: if_splits)

end
