(* ===== verification/Backpressure.thy ===== *)
theory Backpressure
  imports Owned_Channel
begin

text \<open>
  \<^verbatim>\<open>detail/ConnectionBackpressureController\<close>: reading is paused when the output buffer reaches the high
  water mark and resumed when it has drained to the low water mark. Every operation that may fire the hook fires it
  as its last action, so the operations return the call (the event and the number of buffered
  bytes) to their caller, \<^verbatim>\<open>TcpConnection\<close>, which runs it at once. \<open>bp_hook\<close> tells that a hook and the
  connection are set.
\<close>

section \<open>State and operations\<close>

datatype bp_event = ReadPaused | ReadResumed

record backpressure =
  bp_highWaterMark :: nat
  bp_lowWaterMark :: nat
  bp_active :: bool
  bp_readingEnabled :: bool
  bp_hook :: bool

type_synonym 'c bp_result = "'c channel \<times> backpressure \<times> (bp_event \<times> nat) option"

definition ConnectionBackpressureController :: backpressure where
  "ConnectionBackpressureController =
     \<lparr>bp_highWaterMark = 0, bp_lowWaterMark = 0, bp_active = False, bp_readingEnabled = True, bp_hook = False\<rparr>"

definition validateThresholds :: "nat \<Rightarrow> nat \<Rightarrow> unit res" where
  "validateThresholds high low =
     (if high = 0
      then (if low \<noteq> 0 then Inl (Invalid_argument ''backpressure low water mark requires a non-zero high water mark'')
            else Inr ())
      else if low \<ge> high then Inl (Invalid_argument ''backpressure low water mark must be smaller than high water mark'')
      else Inr ())"

definition bp_fire :: "backpressure \<Rightarrow> bp_event \<Rightarrow> nat \<Rightarrow> (bp_event \<times> nat) option" where
  "bp_fire bp e n = (if bp_hook bp then Some (e, n) else None)"

definition bp_apply :: "nat \<Rightarrow> 'c channel \<Rightarrow> bool \<Rightarrow> backpressure \<Rightarrow> 'c bp_result" where
  "bp_apply n ch active bp =
     (if \<not> active then (ch, bp, None)
      else if bp_highWaterMark bp = 0
        then (if \<not> bp_readingEnabled bp then (ch_enableReading ch, bp\<lparr>bp_readingEnabled := True\<rparr>, None)
              else (ch, bp, None))
      else if bp_readingEnabled bp \<and> n \<ge> bp_highWaterMark bp
        then (ch_disableReading ch, bp\<lparr>bp_readingEnabled := False\<rparr>, bp_fire bp ReadPaused n)
      else if \<not> bp_readingEnabled bp \<and> n \<le> bp_lowWaterMark bp
        then (ch_enableReading ch, bp\<lparr>bp_readingEnabled := True\<rparr>, bp_fire bp ReadResumed n)
      else (ch, bp, None))"

definition configure :: "nat \<Rightarrow> nat \<Rightarrow> nat \<Rightarrow> 'c channel \<Rightarrow> backpressure \<Rightarrow> 'c bp_result" where
  "configure high low n ch bp =
     (let bp = bp\<lparr>bp_highWaterMark := high, bp_lowWaterMark := low\<rparr> in bp_apply n ch (bp_active bp) bp)"

definition onConnectionEstablished :: "nat \<Rightarrow> 'c channel \<Rightarrow> backpressure \<Rightarrow> 'c bp_result" where
  "onConnectionEstablished n ch bp =
     (let bp = bp\<lparr>bp_active := True, bp_readingEnabled := True\<rparr> in bp_apply n ch (bp_active bp) bp)"

definition onBufferedBytesChanged :: "nat \<Rightarrow> 'c channel \<Rightarrow> backpressure \<Rightarrow> 'c bp_result" where
  "onBufferedBytesChanged n ch bp = bp_apply n ch (bp_active bp) bp"

definition onClosed :: "backpressure \<Rightarrow> backpressure" where
  "onClosed bp = bp\<lparr>bp_active := False, bp_readingEnabled := False\<rparr>"

section \<open>Hysteresis\<close>

text \<open>The reference: a flag that goes down at the high mark, up at the low mark, and stays between them.\<close>

definition hysteresis :: "nat \<Rightarrow> nat \<Rightarrow> nat \<Rightarrow> bool \<Rightarrow> bool" where
  "hysteresis high low n reading = (if n \<ge> high then False else if n \<le> low then True else reading)"

definition bp_thresholds :: "backpressure \<Rightarrow> bool" where
  "bp_thresholds bp \<longleftrightarrow> bp_highWaterMark bp = 0 \<and> bp_lowWaterMark bp = 0 \<or> bp_lowWaterMark bp < bp_highWaterMark bp"

text \<open>What a live connection with \<open>n\<close> bytes waiting for the network keeps.\<close>

definition bp_inv :: "nat \<Rightarrow> 'c channel \<Rightarrow> backpressure \<Rightarrow> bool" where
  "bp_inv n ch bp \<longleftrightarrow> bp_thresholds bp \<and>
     (bp_active bp \<longrightarrow>
        (isReading ch \<longleftrightarrow> bp_readingEnabled bp) \<and>
        (bp_highWaterMark bp = 0 \<longrightarrow> bp_readingEnabled bp) \<and>
        (bp_highWaterMark bp \<noteq> 0 \<longrightarrow> bp_readingEnabled bp \<longrightarrow> n < bp_highWaterMark bp) \<and>
        (bp_highWaterMark bp \<noteq> 0 \<longrightarrow> \<not> bp_readingEnabled bp \<longrightarrow> bp_lowWaterMark bp < n))"

lemma bp_apply_frame:
  assumes "bp_apply n ch a bp = (ch', bp', ev)"
  shows "isWriting ch' = isWriting ch" "bp_active bp' = bp_active bp" "bp_highWaterMark bp' = bp_highWaterMark bp"
    "bp_lowWaterMark bp' = bp_lowWaterMark bp" "bp_hook bp' = bp_hook bp"
    "ch_addedToLoop ch \<Longrightarrow> ch_addedToLoop ch'"
    "\<not> a \<Longrightarrow> ch' = ch \<and> bp' = bp \<and> ev = None"
  using assms by (auto simp: bp_apply_def split: if_splits)

lemma bp_apply_inv:
  assumes "bp_apply n ch (bp_active bp) bp = (ch', bp', ev)" "bp_thresholds bp"
    and "bp_active bp \<Longrightarrow> isReading ch \<longleftrightarrow> bp_readingEnabled bp"
  shows "bp_inv n ch' bp'"
  using assms by (auto simp: bp_apply_def bp_inv_def bp_thresholds_def split: if_splits)

lemma bp_inv_reading: "bp_inv n ch bp \<Longrightarrow> bp_active bp \<Longrightarrow> isReading ch \<longleftrightarrow> bp_readingEnabled bp"
  by (simp add: bp_inv_def)

lemma validateThresholds_ok: "validateThresholds high low = Inr u \<longleftrightarrow> (high = 0 \<and> low = 0 \<or> low < high)"
  by (auto simp: validateThresholds_def)

lemma configure_inv:
  assumes "configure high low n ch bp = (ch', bp', ev)" "validateThresholds high low = Inr u"
    and "bp_active bp \<Longrightarrow> isReading ch \<longleftrightarrow> bp_readingEnabled bp"
  shows "bp_inv n ch' bp'"
proof -
  let ?bp = "bp\<lparr>bp_highWaterMark := high, bp_lowWaterMark := low\<rparr>"
  have "bp_apply n ch (bp_active ?bp) ?bp = (ch', bp', ev)" using assms(1) by (simp add: configure_def)
  then show ?thesis
    by (rule bp_apply_inv) (use assms(2,3) in \<open>auto simp: bp_thresholds_def validateThresholds_ok\<close>)
qed

lemma established_inv:
  assumes "onConnectionEstablished n ch bp = (ch', bp', ev)" "bp_thresholds bp" "isReading ch"
  shows "bp_inv n ch' bp'"
proof -
  let ?bp = "bp\<lparr>bp_active := True, bp_readingEnabled := True\<rparr>"
  have "bp_apply n ch (bp_active ?bp) ?bp = (ch', bp', ev)" using assms(1) by (simp add: onConnectionEstablished_def)
  then show ?thesis by (rule bp_apply_inv) (use assms(2,3) in \<open>auto simp: bp_thresholds_def\<close>)
qed

lemma closed_inv: "bp_thresholds bp \<Longrightarrow> bp_inv n ch (onClosed bp)"
  by (simp add: bp_inv_def onClosed_def bp_thresholds_def)

lemma bp_apply_hysteresis:
  assumes "bp_inv m ch bp" "bp_active bp" "bp_highWaterMark bp \<noteq> 0" "bp_apply n ch (bp_active bp) bp = (ch', bp', ev)"
  shows "bp_readingEnabled bp' = hysteresis (bp_highWaterMark bp) (bp_lowWaterMark bp) n (bp_readingEnabled bp)"
  using assms by (auto simp: bp_apply_def bp_inv_def bp_thresholds_def hysteresis_def split: if_splits)

section \<open>Runs of the controller\<close>

text \<open>The controller and its channel in the hands of a connection: \<open>connectEstablished\<close> enables
  reading before it calls the controller, \<open>runCloseSequence\<close> disables the channel after it, and
  \<open>setBackpressurePolicy\<close> checks the thresholds first.\<close>

datatype bp_call = BpConfigure nat nat | BpEstablished | BpBuffered nat | BpClosed | BpSetHook

record 'c bp_state =
  bp_chan :: "'c channel"
  bp_ctl :: backpressure
  bp_bytes :: nat
  bp_fired :: "(bp_event \<times> nat) list"

definition bp_store :: "'c bp_result \<Rightarrow> 'c bp_state \<Rightarrow> 'c bp_state" where
  "bp_store r s = (case r of (ch, bp, ev) \<Rightarrow>
     s\<lparr>bp_chan := ch, bp_ctl := bp, bp_fired := bp_fired s @ (case ev of None \<Rightarrow> [] | Some e \<Rightarrow> [e])\<rparr>)"

fun bp_step :: "bp_call \<Rightarrow> 'c bp_state \<Rightarrow> 'c bp_state" where
  "bp_step (BpConfigure high low) s =
     (case validateThresholds high low of
        Inl e \<Rightarrow> s
      | Inr u \<Rightarrow> bp_store (configure high low (bp_bytes s) (bp_chan s) (bp_ctl s)) s)"
| "bp_step BpEstablished s =
     bp_store (onConnectionEstablished (bp_bytes s) (ch_enableReading (bp_chan s)) (bp_ctl s)) s"
| "bp_step (BpBuffered n) s = bp_store (onBufferedBytesChanged n (bp_chan s) (bp_ctl s)) (s\<lparr>bp_bytes := n\<rparr>)"
| "bp_step BpClosed s = s\<lparr>bp_ctl := onClosed (bp_ctl s), bp_chan := ch_disableAll (bp_chan s)\<rparr>"
| "bp_step BpSetHook s = s\<lparr>bp_ctl := (bp_ctl s)\<lparr>bp_hook := True\<rparr>\<rparr>"

definition bp_start :: "int \<Rightarrow> 'c bp_state" where
  "bp_start fd = \<lparr>bp_chan = Channel fd, bp_ctl = ConnectionBackpressureController, bp_bytes = 0, bp_fired = []\<rparr>"

definition bp_state_ok :: "'c bp_state \<Rightarrow> bool" where
  "bp_state_ok s \<longleftrightarrow> bp_inv (bp_bytes s) (bp_chan s) (bp_ctl s)"

lemma bp_store_ok: "(\<And>ch bp ev. r = (ch, bp, ev) \<Longrightarrow> bp_inv (bp_bytes s) ch bp) \<Longrightarrow> bp_state_ok (bp_store r s)"
  by (cases r) (auto simp: bp_store_def bp_state_ok_def)

lemma bp_inv_thresholds: "bp_inv n ch bp \<Longrightarrow> bp_thresholds bp"
  by (simp add: bp_inv_def)

lemma bp_step_ok: "bp_state_ok s \<Longrightarrow> bp_state_ok (bp_step a s)"
proof (cases a)
  case (BpConfigure high low)
  assume s: "bp_state_ok s"
  show ?thesis
  proof (cases "validateThresholds high low")
    case (Inr u)
    have "bp_state_ok (bp_store (configure high low (bp_bytes s) (bp_chan s) (bp_ctl s)) s)"
      by (rule bp_store_ok, erule configure_inv[OF _ Inr]) (use s in \<open>simp add: bp_state_ok_def bp_inv_reading\<close>)
    then show ?thesis by (simp add: BpConfigure Inr)
  qed (simp add: BpConfigure s)
next
  case BpEstablished
  assume s: "bp_state_ok s"
  show ?thesis unfolding BpEstablished bp_step.simps
    by (rule bp_store_ok, erule established_inv) (use s in \<open>simp_all add: bp_state_ok_def bp_inv_thresholds\<close>)
next
  case (BpBuffered n)
  assume s: "bp_state_ok s"
  show ?thesis unfolding BpBuffered bp_step.simps onBufferedBytesChanged_def
    by (rule bp_store_ok, simp, erule bp_apply_inv)
      (use s in \<open>simp_all add: bp_state_ok_def bp_inv_thresholds bp_inv_reading\<close>)
next
  case BpClosed
  assume s: "bp_state_ok s"
  then show ?thesis by (simp add: BpClosed bp_state_ok_def closed_inv bp_inv_thresholds)
next
  case BpSetHook
  assume s: "bp_state_ok s"
  then show ?thesis by (simp add: BpSetHook bp_state_ok_def bp_inv_def bp_thresholds_def)
qed

lemma bp_run_ok: "bp_state_ok s \<Longrightarrow> bp_state_ok (fold bp_step as s)"
  by (induction as arbitrary: s) (simp_all add: bp_step_ok)

lemma bp_start_ok: "bp_state_ok (bp_start fd)"
  by (simp add: bp_state_ok_def bp_start_def bp_inv_def bp_thresholds_def ConnectionBackpressureController_def)

lemma buffered_step:
  assumes ok: "bp_state_ok s" and a: "bp_active (bp_ctl s)" "bp_highWaterMark (bp_ctl s) \<noteq> 0"
  shows "bp_readingEnabled (bp_ctl (bp_step (BpBuffered n) s)) =
      hysteresis (bp_highWaterMark (bp_ctl s)) (bp_lowWaterMark (bp_ctl s)) n (bp_readingEnabled (bp_ctl s))"
    and "isReading (bp_chan (bp_step (BpBuffered n) s)) = bp_readingEnabled (bp_ctl (bp_step (BpBuffered n) s))"
proof -
  obtain ch bp ev where r: "onBufferedBytesChanged n (bp_chan s) (bp_ctl s) = (ch, bp, ev)" by (metis surj_pair)
  note r' = r[unfolded onBufferedBytesChanged_def]
  have s': "bp_step (BpBuffered n) s = bp_store (ch, bp, ev) (s\<lparr>bp_bytes := n\<rparr>)" by (simp add: r)
  have inv: "bp_inv (bp_bytes s) (bp_chan s) (bp_ctl s)" using ok by (simp add: bp_state_ok_def)
  show "bp_readingEnabled (bp_ctl (bp_step (BpBuffered n) s)) =
      hysteresis (bp_highWaterMark (bp_ctl s)) (bp_lowWaterMark (bp_ctl s)) n (bp_readingEnabled (bp_ctl s))"
    using bp_apply_hysteresis[OF inv a r'] by (simp only: s') (simp add: bp_store_def)
  have "bp_inv n ch bp" using bp_apply_inv[OF r' bp_inv_thresholds[OF inv] bp_inv_reading[OF inv]] .
  then show "isReading (bp_chan (bp_step (BpBuffered n) s)) = bp_readingEnabled (bp_ctl (bp_step (BpBuffered n) s))"
    using bp_apply_frame(2)[OF r'] a(1) by (simp only: s') (simp add: bp_store_def bp_inv_reading)
qed

text \<open>C35. After any sequence of calls the pause state obeys the thresholds: on a live connection the
  channel is subscribed to reads exactly when the controller says so; with a policy, reading implies that
  fewer bytes than the high mark are buffered and a pause implies that more than the low mark are;
  without a policy reading is never paused. The next change of the buffered bytes acts as the
  hysteresis flag.\<close>

theorem backpressure_hysteresis:
  "let s = fold bp_step as (bp_start fd); ctl = bp_ctl s; s' = bp_step (BpBuffered n) s
   in bp_inv (bp_bytes s) (bp_chan s) ctl \<and>
      (bp_active ctl \<and> bp_highWaterMark ctl \<noteq> 0 \<longrightarrow>
         bp_readingEnabled (bp_ctl s') = hysteresis (bp_highWaterMark ctl) (bp_lowWaterMark ctl) n (bp_readingEnabled ctl) \<and>
         isReading (bp_chan s') = bp_readingEnabled (bp_ctl s'))"
  unfolding Let_def by (intro conjI impI buffered_step bp_run_ok bp_start_ok bp_run_ok[OF bp_start_ok, unfolded bp_state_ok_def]) simp_all

theorem backpressure_hysteresis_witness:
  "let s = fold bp_step [BpEstablished, BpConfigure 10 2, BpBuffered 12] (bp_start 5 :: nat bp_state)
   in \<not> isReading (bp_chan s) \<and> bp_readingEnabled (bp_ctl (bp_step (BpBuffered 2) s))"
  using backpressure_hysteresis[of "[BpEstablished, BpConfigure 10 2, BpBuffered 12]" 5 2]
  by (simp add: Let_def bp_start_def ConnectionBackpressureController_def validateThresholds_def configure_def
      bp_apply_def onConnectionEstablished_def onBufferedBytesChanged_def bp_store_def bp_fire_def hysteresis_def bp_inv_def)

end
