(* ===== verification/Awaiter_Registry.thy ===== *)
theory Awaiter_Registry
  imports Prelude
begin

text \<open>
  \<^verbatim>\<open>detail/ConnectionAwaiterRegistry\<close>: the read, write and close waiter of a connection. A waiter is a
  shared object; \<open>waiters\<close> is the heap of them, by address, and a slot of the registry holds an
  address. \<open>loopTasks\<close> are the functors queued in the owner loop: \<open>Resume w\<close> is the lambda of
  \<open>queueResume\<close>, \<open>Other u\<close> a functor of another component, which the registry never reads.
  \<open>handle.resume()\<close> is recorded in \<open>resumed\<close>; what the coroutine does then is modelled where the
  registry is used.
\<close>

section \<open>State\<close>

datatype wphase = Unarmed | Pending | Queued | Completed | Abandoned

datatype woutcome = Ready | Cancelled | Failed

record awaiter =
  aw_phase :: wphase
  aw_outcome :: woutcome
  aw_handle :: "nat option"
  aw_registration :: bool
  aw_failure :: "cpp_error option"

datatype 'u task = Resume nat | Other 'u

record 'u registry =
  waiters :: "nat \<Rightarrow> awaiter"
  readWaiter :: "nat option"
  writeWaiter :: "nat option"
  closeWaiter :: "nat option"
  minReadBytes :: nat
  loopTasks :: "'u task list"
  resumed :: "nat list"

type_synonym ('u, 'z) reg = "('u, 'z) registry_scheme"

definition ConnectionAwaiterState :: awaiter where
  "ConnectionAwaiterState =
     \<lparr>aw_phase = Unarmed, aw_outcome = Ready, aw_handle = None, aw_registration = False, aw_failure = None\<rparr>"

definition ConnectionAwaiterRegistry :: "'u registry" where
  "ConnectionAwaiterRegistry =
     \<lparr>waiters = \<lambda>_. ConnectionAwaiterState, readWaiter = None, writeWaiter = None, closeWaiter = None,
      minReadBytes = 1, loopTasks = [], resumed = []\<rparr>"

definition upd_waiter :: "nat \<Rightarrow> (awaiter \<Rightarrow> awaiter) \<Rightarrow> ('u, 'z) reg \<Rightarrow> ('u, 'z) reg" where
  "upd_waiter w f r = r\<lparr>waiters := (waiters r)(w := f (waiters r w))\<rparr>"

section \<open>Operations\<close>

definition reg_queueInLoop :: "'u task \<Rightarrow> ('u, 'z) reg \<Rightarrow> ('u, 'z) reg" where
  "reg_queueInLoop t r = r\<lparr>loopTasks := loopTasks r @ [t]\<rparr>"

definition hasReadWaiter :: "('u, 'z) reg \<Rightarrow> bool" where
  "hasReadWaiter r \<longleftrightarrow> readWaiter r \<noteq> None"

definition queueResume :: "nat option \<Rightarrow> ('u, 'z) reg \<Rightarrow> ('u, 'z) reg" where
  "queueResume waiter r =
     (case waiter of
        None \<Rightarrow> r
      | Some w \<Rightarrow>
          if aw_phase (waiters r w) \<noteq> Pending then r
          else reg_queueInLoop (Resume w) (upd_waiter w (\<lambda>a. a\<lparr>aw_phase := Queued\<rparr>) r))"

text \<open>The queued lambda; the flag tells that \<open>handle.resume()\<close> was called on a coroutine.\<close>

definition resume_functor :: "nat \<Rightarrow> ('u, 'z) reg \<Rightarrow> bool \<times> ('u, 'z) reg" where
  "resume_functor w r =
     (if aw_phase (waiters r w) \<noteq> Queued then (False, r)
      else let h = aw_handle (waiters r w);
               r = upd_waiter w (\<lambda>a. a\<lparr>aw_phase := Completed, aw_handle := None, aw_registration := False\<rparr>) r
           in (case h of None \<Rightarrow> (False, r) | Some c \<Rightarrow> (True, r\<lparr>resumed := resumed r @ [c]\<rparr>)))"

definition armReadWaiter :: "nat \<Rightarrow> nat \<Rightarrow> bool \<Rightarrow> ('u, 'z) reg \<Rightarrow> ('u, 'z) reg res" where
  "armReadWaiter w minBytes readyNow r =
     (if readWaiter r \<noteq> None then Inl (Logic_error ''only one read waiter is allowed per TcpConnection'')
      else let r = r\<lparr>readWaiter := Some w, minReadBytes := minBytes\<rparr>
           in Inr (if readyNow then queueResume (Some w) r else r))"

definition armWriteWaiter :: "nat \<Rightarrow> bool \<Rightarrow> ('u, 'z) reg \<Rightarrow> ('u, 'z) reg res" where
  "armWriteWaiter w readyNow r =
     (if writeWaiter r \<noteq> None then Inl (Logic_error ''only one write waiter is allowed per TcpConnection'')
      else let r = r\<lparr>writeWaiter := Some w\<rparr> in Inr (if readyNow then queueResume (Some w) r else r))"

definition armCloseWaiter :: "nat \<Rightarrow> bool \<Rightarrow> ('u, 'z) reg \<Rightarrow> ('u, 'z) reg res" where
  "armCloseWaiter w readyNow r =
     (if closeWaiter r \<noteq> None then Inl (Logic_error ''only one close waiter is allowed per TcpConnection'')
      else let r = r\<lparr>closeWaiter := Some w\<rparr> in Inr (if readyNow then queueResume (Some w) r else r))"

definition resumeReadWaiterIfSatisfied :: "nat \<Rightarrow> ('u, 'z) reg \<Rightarrow> ('u, 'z) reg" where
  "resumeReadWaiterIfSatisfied readable r = (if readable \<ge> minReadBytes r then queueResume (readWaiter r) r else r)"

definition resumeWriteWaiterIfNeeded :: "('u, 'z) reg \<Rightarrow> ('u, 'z) reg" where
  "resumeWriteWaiterIfNeeded r = queueResume (writeWaiter r) r"

definition resumeAllOnClose :: "('u, 'z) reg \<Rightarrow> ('u, 'z) reg" where
  "resumeAllOnClose r =
     (let r = queueResume (readWaiter r) r;
          r = queueResume (writeWaiter r) r
      in queueResume (closeWaiter r) r)"

definition cancelWaiter :: "nat \<Rightarrow> ('u, 'z) reg \<Rightarrow> bool \<times> ('u, 'z) reg" where
  "cancelWaiter w r =
     (if aw_phase (waiters r w) \<noteq> Pending then (False, r)
      else (True, queueResume (Some w) (upd_waiter w (\<lambda>a. a\<lparr>aw_outcome := Cancelled\<rparr>) r)))"

definition failWaiter :: "nat \<Rightarrow> cpp_error \<Rightarrow> ('u, 'z) reg \<Rightarrow> ('u, 'z) reg" where
  "failWaiter w failure r =
     queueResume (Some w) (upd_waiter w (\<lambda>a. a\<lparr>aw_failure := Some failure, aw_outcome := Failed\<rparr>) r)"

definition unregisterWaiter :: "nat \<Rightarrow> ('u, 'z) reg \<Rightarrow> ('u, 'z) reg" where
  "unregisterWaiter w r =
     (let r = (if readWaiter r = Some w then r\<lparr>readWaiter := None\<rparr> else r);
          r = (if writeWaiter r = Some w then r\<lparr>writeWaiter := None\<rparr> else r);
          r = (if closeWaiter r = Some w then r\<lparr>closeWaiter := None\<rparr> else r);
          r = (if aw_phase (waiters r w) = Pending \<or> aw_phase (waiters r w) = Queued
               then upd_waiter w (\<lambda>a. a\<lparr>aw_phase := Abandoned, aw_handle := None\<rparr>) r else r)
      in upd_waiter w (\<lambda>a. a\<lparr>aw_registration := False\<rparr>) r)"

text \<open>The first half of \<open>TcpConnection::armWaiter\<close>: the coroutine \<open>w\<close> publishes its handle.\<close>

definition publishWaiter :: "nat \<Rightarrow> ('u, 'z) reg \<Rightarrow> ('u, 'z) reg res" where
  "publishWaiter w r =
     (if aw_phase (waiters r w) \<noteq> Unarmed then Inl (Logic_error ''a TCP awaitable can only be awaited once'')
      else Inr (upd_waiter w (\<lambda>a. a\<lparr>aw_handle := Some w, aw_phase := Pending\<rparr>) r))"

section \<open>Runs\<close>

datatype aw_call =
    AwPublish nat
  | AwArmRead nat nat bool
  | AwArmWrite nat bool
  | AwArmClose nat bool
  | AwReadable nat
  | AwWritten
  | AwClose
  | AwCancel nat
  | AwFail nat cpp_error
  | AwUnregister nat
  | AwRunTask

definition or_keep :: "'a \<Rightarrow> 'a res \<Rightarrow> 'a" where
  "or_keep r x = (case x of Inl e \<Rightarrow> r | Inr r' \<Rightarrow> r')"

fun aw_step :: "aw_call \<Rightarrow> ('u, 'z) reg \<Rightarrow> ('u, 'z) reg" where
  "aw_step (AwPublish w) r = or_keep r (publishWaiter w r)"
| "aw_step (AwArmRead w n b) r = or_keep r (armReadWaiter w n b r)"
| "aw_step (AwArmWrite w b) r = or_keep r (armWriteWaiter w b r)"
| "aw_step (AwArmClose w b) r = or_keep r (armCloseWaiter w b r)"
| "aw_step (AwReadable n) r = resumeReadWaiterIfSatisfied n r"
| "aw_step AwWritten r = resumeWriteWaiterIfNeeded r"
| "aw_step AwClose r = resumeAllOnClose r"
| "aw_step (AwCancel w) r = snd (cancelWaiter w r)"
| "aw_step (AwFail w e) r = failWaiter w e r"
| "aw_step (AwUnregister w) r = unregisterWaiter w r"
| "aw_step AwRunTask r =
     (case loopTasks r of
        [] \<Rightarrow> r
      | Resume w # ts \<Rightarrow> snd (resume_functor w (r\<lparr>loopTasks := ts\<rparr>))
      | Other u # ts \<Rightarrow> r\<lparr>loopTasks := ts\<rparr>)"

section \<open>Invariant\<close>

text \<open>Per waiter, from its phase: how many functors are queued for it, how often it was resumed, whether its handle is set.\<close>

definition waiter_ok :: "wphase \<Rightarrow> nat \<Rightarrow> nat \<Rightarrow> nat option \<Rightarrow> nat \<Rightarrow> bool" where
  "waiter_ok ph queued runs h w =
     (case ph of
        Unarmed \<Rightarrow> queued = 0 \<and> runs = 0 \<and> h = None
      | Pending \<Rightarrow> queued = 0 \<and> runs = 0 \<and> h = Some w
      | Queued \<Rightarrow> queued = 1 \<and> runs = 0 \<and> h = Some w
      | Completed \<Rightarrow> queued = 0 \<and> runs = 1 \<and> h = None
      | Abandoned \<Rightarrow> queued \<le> 1 \<and> runs = 0 \<and> h = None)"

definition aw_inv :: "('u, 'z) reg \<Rightarrow> bool" where
  "aw_inv r \<longleftrightarrow> (\<forall>w. waiter_ok (aw_phase (waiters r w)) (count_list (loopTasks r) (Resume w)) (count_list (resumed r) w)
                    (aw_handle (waiters r w)) w)"

text \<open>Updates that neither the phase, the handle, the queue nor the log sees.\<close>

lemma aw_inv_frame [simp]:
  "aw_inv (r\<lparr>readWaiter := x\<rparr>) = aw_inv r" "aw_inv (r\<lparr>writeWaiter := x\<rparr>) = aw_inv r"
  "aw_inv (r\<lparr>closeWaiter := x\<rparr>) = aw_inv r" "aw_inv (r\<lparr>minReadBytes := n\<rparr>) = aw_inv r"
  by (simp_all add: aw_inv_def)

lemma aw_inv_upd_frame:
  "(\<And>a. aw_phase (f a) = aw_phase a) \<Longrightarrow> (\<And>a. aw_handle (f a) = aw_handle a) \<Longrightarrow> aw_inv (upd_waiter w f r) = aw_inv r"
  unfolding aw_inv_def upd_waiter_def by (intro all_cong1) simp

lemma aw_inv_queue_other [simp]: "aw_inv (reg_queueInLoop (Other u) r) = aw_inv r"
  by (simp add: aw_inv_def reg_queueInLoop_def)

lemma count_list_snoc [simp]: "count_list (xs @ [x]) y = count_list xs y + (if x = y then 1 else 0)"
  by simp

lemma queueResume_inv: "aw_inv r \<Longrightarrow> aw_inv (queueResume waiter r)"
  unfolding aw_inv_def queueResume_def reg_queueInLoop_def upd_waiter_def
  by (cases waiter) (auto simp: waiter_ok_def split: wphase.splits)

lemma resume_functor_inv:
  assumes "aw_inv r" "loopTasks r = Resume w # ts"
  shows "aw_inv (snd (resume_functor w (r\<lparr>loopTasks := ts\<rparr>)))"
  unfolding aw_inv_def
proof
  fix v
  have v: "waiter_ok (aw_phase (waiters r v)) (count_list (loopTasks r) (Resume v)) (count_list (resumed r) v) (aw_handle (waiters r v)) v"
    and w: "waiter_ok (aw_phase (waiters r w)) (count_list (loopTasks r) (Resume w)) (count_list (resumed r) w) (aw_handle (waiters r w)) w"
    using assms(1) by (simp_all add: aw_inv_def)
  show "waiter_ok (aw_phase (waiters (snd (resume_functor w (r\<lparr>loopTasks := ts\<rparr>))) v))
      (count_list (loopTasks (snd (resume_functor w (r\<lparr>loopTasks := ts\<rparr>)))) (Resume v))
      (count_list (resumed (snd (resume_functor w (r\<lparr>loopTasks := ts\<rparr>)))) v)
      (aw_handle (waiters (snd (resume_functor w (r\<lparr>loopTasks := ts\<rparr>))) v)) v"
    using v w assms(2)
    by (cases "aw_phase (waiters r w)"; cases "v = w") (auto simp: resume_functor_def upd_waiter_def waiter_ok_def Let_def)
qed

lemma publishWaiter_inv: "aw_inv r \<Longrightarrow> publishWaiter w r = Inr r' \<Longrightarrow> aw_inv r'"
  unfolding aw_inv_def publishWaiter_def upd_waiter_def
  by (auto simp: waiter_ok_def split: wphase.splits if_splits)

lemma abandon_inv:
  "aw_inv r \<Longrightarrow> aw_phase (waiters r w) = Pending \<or> aw_phase (waiters r w) = Queued \<Longrightarrow>
     aw_inv (upd_waiter w (\<lambda>a. a\<lparr>aw_phase := Abandoned, aw_handle := None\<rparr>) r)"
  unfolding aw_inv_def upd_waiter_def by (auto simp: waiter_ok_def split: wphase.splits)

lemma unregisterWaiter_inv: "aw_inv r \<Longrightarrow> aw_inv (unregisterWaiter w r)"
  by (simp add: unregisterWaiter_def Let_def aw_inv_upd_frame abandon_inv)

lemma arm_inv:
  "aw_inv r \<Longrightarrow> armReadWaiter w n b r = Inr r' \<Longrightarrow> aw_inv r'"
  "aw_inv r \<Longrightarrow> armWriteWaiter w b r = Inr r' \<Longrightarrow> aw_inv r'"
  "aw_inv r \<Longrightarrow> armCloseWaiter w b r = Inr r' \<Longrightarrow> aw_inv r'"
  by (auto simp: armReadWaiter_def armWriteWaiter_def armCloseWaiter_def Let_def queueResume_inv split: if_splits)

lemma cancelWaiter_inv: "aw_inv r \<Longrightarrow> aw_inv (snd (cancelWaiter w r))"
  by (simp add: cancelWaiter_def queueResume_inv aw_inv_upd_frame)

lemma failWaiter_inv: "aw_inv r \<Longrightarrow> aw_inv (failWaiter w e r)"
  by (simp add: failWaiter_def queueResume_inv aw_inv_upd_frame)

lemma resume_if_inv:
  "aw_inv r \<Longrightarrow> aw_inv (resumeReadWaiterIfSatisfied n r)" "aw_inv r \<Longrightarrow> aw_inv (resumeWriteWaiterIfNeeded r)"
  "aw_inv r \<Longrightarrow> aw_inv (resumeAllOnClose r)"
  by (simp_all add: resumeReadWaiterIfSatisfied_def resumeWriteWaiterIfNeeded_def resumeAllOnClose_def Let_def queueResume_inv)

lemma or_keep_inv: "aw_inv r \<Longrightarrow> (\<And>r'. x = Inr r' \<Longrightarrow> aw_inv r') \<Longrightarrow> aw_inv (or_keep r x)"
  by (cases x) (simp_all add: or_keep_def)

lemma other_task_inv: "aw_inv r \<Longrightarrow> loopTasks r = Other u # ts \<Longrightarrow> aw_inv (r\<lparr>loopTasks := ts\<rparr>)"
  by (simp add: aw_inv_def)

lemma aw_step_inv: "aw_inv r \<Longrightarrow> aw_inv (aw_step a r)"
  by (cases a)
    (auto intro: or_keep_inv publishWaiter_inv arm_inv resume_if_inv cancelWaiter_inv failWaiter_inv
      unregisterWaiter_inv resume_functor_inv other_task_inv split: list.splits task.splits)

lemma aw_run_inv: "aw_inv r \<Longrightarrow> aw_inv (fold aw_step as r)"
  by (induction as arbitrary: r) (simp_all add: aw_step_inv)

lemma registry_inv: "aw_inv ConnectionAwaiterRegistry"
  by (simp add: aw_inv_def ConnectionAwaiterRegistry_def ConnectionAwaiterState_def waiter_ok_def)

section \<open>Finished waiters\<close>

definition aw_done :: "nat \<Rightarrow> ('u, 'z) reg \<Rightarrow> bool" where
  "aw_done w r \<longleftrightarrow> aw_phase (waiters r w) = Abandoned \<or> aw_phase (waiters r w) = Completed"

lemma queueResume_done: "aw_done w r \<Longrightarrow> aw_phase (waiters (queueResume x r) w) = aw_phase (waiters r w)"
  by (cases x) (auto simp: queueResume_def aw_done_def reg_queueInLoop_def upd_waiter_def)

lemma aw_done_frame [simp]:
  "aw_done w (r\<lparr>readWaiter := x\<rparr>) = aw_done w r" "aw_done w (r\<lparr>writeWaiter := x\<rparr>) = aw_done w r"
  "aw_done w (r\<lparr>closeWaiter := x\<rparr>) = aw_done w r" "aw_done w (r\<lparr>minReadBytes := n\<rparr>) = aw_done w r"
  "aw_done w (r\<lparr>loopTasks := ts\<rparr>) = aw_done w r"
  "aw_done w (queueResume x r) = (if aw_done w r then True else aw_done w (queueResume x r))"
  by (auto simp: aw_done_def queueResume_done[unfolded aw_done_def])

lemma upd_phase_frame:
  "(\<And>a. aw_phase (f a) = aw_phase a) \<Longrightarrow> aw_phase (waiters (upd_waiter v f r) w) = aw_phase (waiters r w)"
  by (simp add: upd_waiter_def)

lemma resume_functor_done: "aw_done w r \<Longrightarrow> aw_phase (waiters (snd (resume_functor v r)) w) = aw_phase (waiters r w)"
  by (auto simp: resume_functor_def aw_done_def upd_waiter_def Let_def split: option.splits)

lemma unregister_done: "aw_done w r \<Longrightarrow> aw_phase (waiters (unregisterWaiter v r) w) = aw_phase (waiters r w)"
  by (auto simp: unregisterWaiter_def aw_done_def upd_waiter_def Let_def)

lemma aw_done_upd: "(\<And>a. aw_phase (f a) = aw_phase a) \<Longrightarrow> aw_done w (upd_waiter v f r) = aw_done w r"
  by (simp add: aw_done_def upd_phase_frame)

lemma aw_step_done: "aw_done w r \<Longrightarrow> aw_phase (waiters (aw_step a r) w) = aw_phase (waiters r w)"
proof (cases a)
  case (AwPublish v)
  assume "aw_done w r"
  then show ?thesis by (auto simp: AwPublish or_keep_def publishWaiter_def aw_done_def upd_waiter_def)
next
  case AwRunTask
  assume "aw_done w r"
  then show ?thesis by (auto simp: AwRunTask resume_functor_done split: list.splits task.splits)
qed (simp_all add: or_keep_def armReadWaiter_def armWriteWaiter_def armCloseWaiter_def Let_def queueResume_done
    resumeReadWaiterIfSatisfied_def resumeWriteWaiterIfNeeded_def resumeAllOnClose_def cancelWaiter_def failWaiter_def
    unregister_done upd_phase_frame aw_done_upd)

lemma aw_run_done: "aw_done w r \<Longrightarrow> aw_phase (waiters (fold aw_step as r) w) = aw_phase (waiters r w)"
proof (induction as arbitrary: r)
  case (Cons a as)
  then have "aw_done w (aw_step a r)" using aw_step_done[OF Cons.prems, of a] by (simp add: aw_done_def)
  then show ?case using Cons.IH[of "aw_step a r"] aw_step_done[OF Cons.prems, of a] by simp
qed simp

lemma aw_inv_runs:
  assumes "aw_inv r"
  shows "count_list (resumed r) w = (if aw_phase (waiters r w) = Completed then 1 else 0)"
  using assms[unfolded aw_inv_def, rule_format, of w]
  by (cases "aw_phase (waiters r w)") (simp_all add: waiter_ok_def)

lemma unregister_finishes: "aw_phase (waiters r w) \<noteq> Unarmed \<Longrightarrow> aw_done w (unregisterWaiter w r)"
  by (cases "aw_phase (waiters r w)") (auto simp: unregisterWaiter_def aw_done_def upd_waiter_def Let_def)

section \<open>Resumption\<close>

lemma run_task_queued:
  assumes "aw_inv r" "aw_phase (waiters r w) = Queued" "loopTasks r = t # ts"
  shows "aw_phase (waiters (aw_step AwRunTask r) w) = (if t = Resume w then Completed else Queued)"
    and "loopTasks (aw_step AwRunTask r) = ts"
proof -
  have h: "aw_handle (waiters r w) = Some w"
    using assms(1,2) unfolding aw_inv_def by (auto simp: waiter_ok_def dest!: spec[of _ w])
  show "aw_phase (waiters (aw_step AwRunTask r) w) = (if t = Resume w then Completed else Queued)"
    using assms(2,3) h by (cases t) (auto simp: resume_functor_def upd_waiter_def Let_def split: option.splits)
  show "loopTasks (aw_step AwRunTask r) = ts"
    using assms(3) by (cases t) (auto simp: resume_functor_def upd_waiter_def Let_def split: option.splits)
qed

lemma drain_resumes:
  "aw_inv r \<Longrightarrow> loopTasks r = ts \<Longrightarrow> aw_phase (waiters r w) = Queued \<Longrightarrow>
     aw_phase (waiters (fold aw_step (replicate (length ts) AwRunTask) r) w) = Completed"
proof (induction ts arbitrary: r)
  case Nil
  then show ?case unfolding aw_inv_def by (auto simp: waiter_ok_def dest!: spec[of _ w])
next
  case (Cons t ts)
  let ?r = "aw_step AwRunTask r"
  note q = run_task_queued[OF Cons.prems(1,3,2)]
  have inv: "aw_inv ?r" by (rule aw_step_inv[OF Cons.prems(1)])
  show ?case
  proof (cases "t = Resume w")
    case True
    then have "aw_done w ?r" using q(1) by (simp add: aw_done_def)
    then show ?thesis using aw_run_done[of w ?r "replicate (length ts) AwRunTask"] q(1) True
      by (simp del: aw_step.simps)
  next
    case False
    then show ?thesis using Cons.IH[OF inv q(2)] q(1) by (simp del: aw_step.simps)
  qed
qed

lemma queueResume_phase:
  "aw_phase (waiters (queueResume x r) w) =
     (if x = Some w \<and> aw_phase (waiters r w) = Pending then Queued else aw_phase (waiters r w))"
  by (cases x) (auto simp: queueResume_def reg_queueInLoop_def upd_waiter_def)

lemma queueResume_slots [simp]:
  "readWaiter (queueResume x r) = readWaiter r" "writeWaiter (queueResume x r) = writeWaiter r"
  "closeWaiter (queueResume x r) = closeWaiter r" "minReadBytes (queueResume x r) = minReadBytes r"
  "resumed (queueResume x r) = resumed r"
  by (cases x; simp add: queueResume_def reg_queueInLoop_def upd_waiter_def)+

lemma close_queues:
  assumes "Some w \<in> {readWaiter r, writeWaiter r, closeWaiter r}"
    and "aw_phase (waiters r w) = Pending \<or> aw_phase (waiters r w) = Queued"
  shows "aw_phase (waiters (resumeAllOnClose r) w) = Queued"
  using assms by (auto simp: resumeAllOnClose_def Let_def queueResume_phase)

section \<open>Properties\<close>

text \<open>C34. Whatever the order of arming, readiness, closing, cancellation, failure and destruction of
  awaitables, no coroutine is resumed twice for one awaitable; and once a waiter was unregistered (its
  awaitable finished or was destroyed) its coroutine is never resumed again, even if its functor was queued already
  and runs later.\<close>

theorem waiter_resumed_once:
  assumes "r = fold aw_step as ConnectionAwaiterRegistry" "aw_phase (waiters r w) \<noteq> Unarmed"
  shows "count_list (resumed r) v \<le> 1 \<and>
     count_list (resumed (fold aw_step bs (aw_step (AwUnregister w) r))) w = count_list (resumed r) w"
proof
  let ?u = "aw_step (AwUnregister w) r"
  have inv: "aw_inv r" unfolding assms(1) by (rule aw_run_inv[OF registry_inv])
  then have u: "aw_inv ?u" by (rule aw_step_inv)
  show "count_list (resumed r) v \<le> 1" by (simp add: aw_inv_runs[OF inv])
  have "aw_phase (waiters (fold aw_step bs ?u) w) = aw_phase (waiters ?u w)"
    using unregister_finishes[OF assms(2)] by (intro aw_run_done) simp
  moreover have "count_list (resumed ?u) w = count_list (resumed r) w"
    by (simp add: unregisterWaiter_def upd_waiter_def Let_def)
  ultimately show "count_list (resumed (fold aw_step bs ?u)) w = count_list (resumed r) w"
    using aw_inv_runs[OF aw_run_inv[OF u]] aw_inv_runs[OF u] by metis
qed

lemmas registry_defs = ConnectionAwaiterRegistry_def ConnectionAwaiterState_def or_keep_def publishWaiter_def
  armReadWaiter_def armWriteWaiter_def armCloseWaiter_def upd_waiter_def queueResume_def reg_queueInLoop_def Let_def
  resumeReadWaiterIfSatisfied_def resumeAllOnClose_def unregisterWaiter_def resume_functor_def

theorem waiter_resumed_once_witness:
  "count_list (resumed (fold aw_step [AwRunTask] (aw_step (AwUnregister 4)
     (fold aw_step [AwPublish 4, AwArmRead 4 1 False, AwReadable 3] (ConnectionAwaiterRegistry :: nat registry))))) 4 = 0"
  using waiter_resumed_once[OF refl, where as = "[AwPublish 4, AwArmRead 4 1 False, AwReadable 3]" and w = 4 and v = 4
    and bs = "[AwRunTask]"]
  by (simp add: registry_defs)

text \<open>Closing the connection resumes every coroutine that waits in a slot: when the loop has run the
  functors queued by then, each of them was resumed exactly once.\<close>

theorem close_resumes_all:
  assumes "r = fold aw_step as ConnectionAwaiterRegistry"
    and "Some w \<in> {readWaiter r, writeWaiter r, closeWaiter r}"
    and "aw_phase (waiters r w) = Pending \<or> aw_phase (waiters r w) = Queued"
  shows "count_list (resumed (fold aw_step (replicate (length (loopTasks (resumeAllOnClose r))) AwRunTask)
           (aw_step AwClose r))) w = 1"
proof -
  have inv: "aw_inv (resumeAllOnClose r)" unfolding assms(1) by (intro resume_if_inv aw_run_inv registry_inv)
  from drain_resumes[OF inv refl close_queues[OF assms(2,3)]]
  show ?thesis unfolding aw_step.simps by (subst aw_inv_runs[OF aw_run_inv[OF inv]]) (simp only: if_True refl)
qed

theorem close_resumes_all_witness:
  "resumed (fold aw_step [AwRunTask, AwRunTask] (aw_step AwClose (fold aw_step
     [AwPublish 4, AwArmRead 4 1 False, AwPublish 5, AwArmClose 5 False] (ConnectionAwaiterRegistry :: nat registry)))) = [4, 5] \<and>
   count_list (resumed (fold aw_step [AwRunTask, AwRunTask] (aw_step AwClose (fold aw_step
     [AwPublish 4, AwArmRead 4 1 False, AwPublish 5, AwArmClose 5 False] (ConnectionAwaiterRegistry :: nat registry))))) 5 = 1"
  using close_resumes_all[OF refl, where as = "[AwPublish 4, AwArmRead 4 1 False, AwPublish 5, AwArmClose 5 False]" and w = 5]
  by (simp add: registry_defs numeral_2_eq_2)

end
