(* ===== verification/Tcp_Connection.thy ===== *)
theory Tcp_Connection
  imports Transport Backpressure Awaiter_Registry
begin

text \<open>
  \<^verbatim>\<open>TcpConnection.cc\<close>, \<^verbatim>\<open>TcpConnection.h\<close> and \<^verbatim>\<open>detail/ConnectionCallbackDispatcher\<close>: one connection on its loop.

  The record \<open>conn\<close> has the fields of \<open>TcpConnection::Impl\<close>; its collaborators are the models of the
  other theories: the channel as its owner sees it, the two buffers, the backpressure controller, the
  waiters with the functors queued in the loop, and the transport with the answers of the network. \<open>called\<close> logs the
  user callbacks that were called, \<open>accepted\<close> is a history variable: the bytes \<open>sendInLoop\<close> has taken over.

  Operations named \<open>...InLoop\<close>, \<open>handle...\<close> and the queued functors run on the loop thread, where
  \<open>assertInLoopThread\<close> succeeds; the public operations that may be called from any thread take the flag \<open>inLoop\<close>, and
  off the loop \<open>runInLoop\<close> only queues. An operation that calls back into user code takes \<open>exec\<close>, which runs the
  user code of a callback; \<open>exec_at\<close> below builds it from the calls of the public interface that each callback makes,
  nested to any depth. \<open>Inl\<close> is a failure that ends the run: \<open>std::length_error\<close> of a buffer beyond its maximal
  size.
\<close>

section \<open>State\<close>

datatype stateE = kConnecting | kConnected | kDisconnecting | kDisconnected

datatype closeReasonE = CloseNone | ClosePeerClosed | CloseError

datatype awaitKind = AwaitRead | AwaitWrite | AwaitClose

datatype await_result = ReadDone "byte list" | WriteDone | CloseDone | NetErr netError | Threw cpp_error

datatype tlsEvent = HandshakeStarted | HandshakeCompleted | HandshakeFailed

text \<open>A call of user code: the callbacks, the hooks, and the continuation of a resumed coroutine. The connection
  callback carries what \<open>connected()\<close> answers when it is called.\<close>

datatype cb_note =
    NConnected bool
  | NDisconnected
  | NMessage
  | NWriteComplete
  | NHighWater nat
  | NClose
  | NBackpressure bp_event nat
  | NTls tlsEvent
  | NResumed nat await_result

datatype ctask =
    TSend "byte list"
  | TShutdown
  | TForceClose
  | TSetBackpressure nat nat
  | TWriteComplete
  | THighWater nat
  | TArm nat awaitKind bool nat "byte list"
  | TCancel nat

record callbacks =
  cb_connection :: bool
  cb_message :: bool
  cb_highWater :: bool
  cb_writeComplete :: bool
  cb_close :: bool
  cb_highWaterMark :: nat
  cb_tls :: bool

record conn =
  c_state :: stateE
  c_chan :: "unit channel"
  inputBuffer :: buffer
  outputBuffer :: buffer
  c_cbs :: callbacks
  c_bp :: backpressure
  c_reg :: "ctask registry"
  c_tr :: transport
  closeReason :: closeReasonE
  c_await :: "nat \<Rightarrow> awaitKind \<times> nat"
  token_requested :: "nat list"
  accepted :: "byte list"
  called :: "cb_note list"

type_synonym exec = "cb_note \<Rightarrow> conn \<Rightarrow> conn res"

definition ConnectionCallbackDispatcher :: callbacks where
  "ConnectionCallbackDispatcher =
     \<lparr>cb_connection = False, cb_message = False, cb_highWater = False, cb_writeComplete = False, cb_close = False,
      cb_highWaterMark = 0, cb_tls = False\<rparr>"

definition TcpConnection :: "int \<Rightarrow> transport \<Rightarrow> conn" where
  "TcpConnection sockfd tr =
     \<lparr>c_state = kConnecting,
      c_chan = setErrorCallback () (setCloseCallback () (setWriteCallback () (setReadCallback () (Channel sockfd)))),
      inputBuffer = Buffer, outputBuffer = Buffer, c_cbs = ConnectionCallbackDispatcher,
      c_bp = ConnectionBackpressureController, c_reg = ConnectionAwaiterRegistry, c_tr = tr,
      closeReason = CloseNone, c_await = \<lambda>_. (AwaitClose, 1), token_requested = [], accepted = [], called = []\<rparr>"

definition queueFunctor :: "ctask \<Rightarrow> conn \<Rightarrow> conn" where
  "queueFunctor t c = c\<lparr>c_reg := reg_queueInLoop (Other t) (c_reg c)\<rparr>"

section \<open>Callback dispatcher\<close>

definition call_user :: "exec \<Rightarrow> cb_note \<Rightarrow> conn \<Rightarrow> conn res" where
  "call_user exec n c = exec n (c\<lparr>called := called c @ [n]\<rparr>)"

definition notifyConnected :: "exec \<Rightarrow> conn \<Rightarrow> conn res" where
  "notifyConnected exec c = (if cb_connection (c_cbs c) then call_user exec (NConnected (c_state c = kConnected)) c else Inr c)"

definition notifyDisconnected :: "exec \<Rightarrow> conn \<Rightarrow> conn res" where
  "notifyDisconnected exec c = (if cb_connection (c_cbs c) then call_user exec NDisconnected c else Inr c)"

definition notifyMessage :: "exec \<Rightarrow> bool \<Rightarrow> conn \<Rightarrow> conn res" where
  "notifyMessage exec suppressed c =
     (if cb_message (c_cbs c) \<and> \<not> suppressed then call_user exec NMessage c else Inr c)"

definition queueWriteComplete :: "conn \<Rightarrow> conn" where
  "queueWriteComplete c = (if \<not> cb_writeComplete (c_cbs c) then c else queueFunctor TWriteComplete c)"

definition queueHighWaterMark :: "nat \<Rightarrow> nat \<Rightarrow> conn \<Rightarrow> conn" where
  "queueHighWaterMark oldLen newLen c =
     (let mark = cb_highWaterMark (c_cbs c)
      in if \<not> cb_highWater (c_cbs c) \<or> mark = 0 then c
         else if oldLen \<ge> mark \<or> newLen < mark then c
         else queueFunctor (THighWater newLen) c)"

definition notifyClose :: "exec \<Rightarrow> conn \<Rightarrow> conn res" where
  "notifyClose exec c = (if cb_close (c_cbs c) then call_user exec NClose c else Inr c)"

section \<open>Closing\<close>

definition runCloseSequence :: "exec \<Rightarrow> bool \<Rightarrow> conn \<Rightarrow> conn res" where
  "runCloseSequence exec notifyCloseCallback c =
     (let c = c\<lparr>c_state := kDisconnected\<rparr>;
          c = c\<lparr>c_bp := onClosed (c_bp c)\<rparr>;
          c = c\<lparr>c_chan := ch_disableAll (c_chan c)\<rparr>;
          c = c\<lparr>c_reg := resumeAllOnClose (c_reg c)\<rparr>
      in bind_res (notifyDisconnected exec c) (\<lambda>c.
           if notifyCloseCallback then notifyClose exec c else Inr c))"

definition handleClose :: "exec \<Rightarrow> conn \<Rightarrow> conn res" where
  "handleClose exec c =
     (if c_state c = kDisconnected then Inr c
      else let c = (if closeReason c = CloseNone then c\<lparr>closeReason := ClosePeerClosed\<rparr> else c)
           in runCloseSequence exec True c)"

definition handleError :: "exec \<Rightarrow> conn \<Rightarrow> conn res" where
  "handleError exec c =
     (let c = c\<lparr>closeReason := CloseError\<rparr>
      in if c_state c \<noteq> kDisconnected then handleClose exec c else Inr c)"

definition forceCloseInLoop :: "exec \<Rightarrow> conn \<Rightarrow> conn res" where
  "forceCloseInLoop exec c =
     (if c_state c = kConnected \<or> c_state c = kDisconnecting then handleClose exec c else Inr c)"

section \<open>Backpressure\<close>

definition bp_result_of :: "exec \<Rightarrow> unit bp_result \<Rightarrow> conn \<Rightarrow> conn res" where
  "bp_result_of exec r c =
     (case r of (ch, bp, ev) \<Rightarrow>
        let c = c\<lparr>c_chan := ch, c_bp := bp\<rparr>
        in case ev of None \<Rightarrow> Inr c | Some (e, n) \<Rightarrow> call_user exec (NBackpressure e n) c)"

definition applyBackpressurePolicy :: "exec \<Rightarrow> conn \<Rightarrow> conn res" where
  "applyBackpressurePolicy exec c =
     bp_result_of exec (onBufferedBytesChanged (readableBytes (outputBuffer c)) (c_chan c) (c_bp c)) c"

definition setBackpressurePolicyInLoop :: "exec \<Rightarrow> nat \<Rightarrow> nat \<Rightarrow> conn \<Rightarrow> conn res" where
  "setBackpressurePolicyInLoop exec high low c =
     bp_result_of exec (configure high low (readableBytes (outputBuffer c)) (c_chan c) (c_bp c)) c"

section \<open>Sending\<close>

definition shutdownInLoop :: "conn \<Rightarrow> conn" where
  "shutdownInLoop c =
     (if \<not> isWriting (c_chan c) then c\<lparr>c_tr := transport_shutdownWrite (c_tr c)\<rparr> else c)"

definition finishPendingWrite :: "conn \<Rightarrow> conn" where
  "finishPendingWrite c =
     (let c = queueWriteComplete c;
          c = c\<lparr>c_reg := resumeWriteWaiterIfNeeded (c_reg c)\<rparr>
      in if c_state c = kDisconnecting then shutdownInLoop c else c)"

definition send_rest :: "exec \<Rightarrow> byte list \<Rightarrow> conn \<Rightarrow> conn res" where
  "send_rest exec rest c =
     (if rest = [] then Inr c
      else let oldLen = readableBytes (outputBuffer c)
           in bind_res (append_buf rest (outputBuffer c)) (\<lambda>b.
                let c = c\<lparr>outputBuffer := b\<rparr>;
                    c = (if \<not> isWriting (c_chan c) then c\<lparr>c_chan := ch_enableWriting (c_chan c)\<rparr> else c);
                    newLen = readableBytes (outputBuffer c);
                    c = queueHighWaterMark oldLen newLen c
                in applyBackpressurePolicy exec c))"

definition sendInLoop :: "exec \<Rightarrow> byte list \<Rightarrow> conn \<Rightarrow> conn res" where
  "sendInLoop exec data c =
     (if c_state c = kDisconnected then Inr c
      else if \<not> isWriting (c_chan c) \<and> readableBytes (outputBuffer c) = 0
        then (case writeRaw data (c_chan c) (c_tr c) of
                (r, ch, tr) \<Rightarrow>
                  let c = c\<lparr>c_chan := ch, c_tr := tr\<rparr>
                  in if io_status r = kError then handleError exec c
                     else let c = c\<lparr>accepted := accepted c @ data\<rparr>;
                              rest = drop (io_bytes r) data
                          in if rest = [] then Inr (finishPendingWrite c) else send_rest exec rest c)
      else send_rest exec data (c\<lparr>accepted := accepted c @ data\<rparr>))"

section \<open>Events of the channel\<close>

definition advanceTransportHandshake :: "exec \<Rightarrow> conn \<Rightarrow> conn res" where
  "advanceTransportHandshake exec c =
     (case advanceHandshake (c_chan c) (c_tr c) of
        (r, ch, tr) \<Rightarrow>
          let c = c\<lparr>c_chan := ch, c_tr := tr\<rparr>
          in if hs_failed r
             then bind_res (if cb_tls (c_cbs c) then call_user exec (NTls HandshakeFailed) c else Inr c) (handleError exec)
             else if hs_completed r
             then bind_res (if cb_tls (c_cbs c) then call_user exec (NTls HandshakeCompleted) c else Inr c) (notifyConnected exec)
             else Inr c)"

definition handleRead :: "exec \<Rightarrow> conn \<Rightarrow> conn res" where
  "handleRead exec c =
     (if handshakePending (c_tr c) then advanceTransportHandshake exec c
      else let waiting = hasReadWaiter (c_reg c)
           in bind_res (readInto (inputBuffer c) (c_chan c) (c_tr c)) (\<lambda>(r, b, ch, tr).
                let c = c\<lparr>inputBuffer := b, c_chan := ch, c_tr := tr\<rparr>
                in case io_status r of
                     kOk \<Rightarrow>
                       let c = c\<lparr>c_reg := resumeReadWaiterIfSatisfied (readableBytes (inputBuffer c)) (c_reg c)\<rparr>
                       in notifyMessage exec waiting c
                   | kPeerClosed \<Rightarrow> handleClose exec c
                   | kError \<Rightarrow> handleError exec c
                   | kWouldBlock \<Rightarrow> Inr c))"

definition handleWrite :: "exec \<Rightarrow> conn \<Rightarrow> conn res" where
  "handleWrite exec c =
     (if handshakePending (c_tr c) then advanceTransportHandshake exec c
      else if \<not> isWriting (c_chan c) then Inr c
      else bind_res (writeFromBuffer (outputBuffer c) (c_chan c) (c_tr c)) (\<lambda>(r, b, ch, tr).
             let c = c\<lparr>outputBuffer := b, c_chan := ch, c_tr := tr\<rparr>
             in case io_status r of
                  kError \<Rightarrow> handleError exec c
                | kOk \<Rightarrow>
                    bind_res (applyBackpressurePolicy exec c) (\<lambda>c.
                      Inr (if readableBytes (outputBuffer c) = 0
                           then finishPendingWrite (c\<lparr>c_chan := ch_disableWriting (c_chan c)\<rparr>) else c))
                | _ \<Rightarrow> Inr c))"

section \<open>Life cycle\<close>

definition connectEstablished :: "exec \<Rightarrow> conn \<Rightarrow> conn res" where
  "connectEstablished exec c =
     (let c = c\<lparr>c_state := kConnected\<rparr>;
          c = c\<lparr>closeReason := CloseNone\<rparr>;
          c = c\<lparr>c_chan := ch_enableReading (tie 0 (c_chan c))\<rparr>
      in bind_res (bp_result_of exec (onConnectionEstablished (readableBytes (outputBuffer c)) (c_chan c) (c_bp c)) c) (\<lambda>c.
           if handshakePending (c_tr c) then advanceTransportHandshake exec c else notifyConnected exec c))"

definition connectDestroyed :: "exec \<Rightarrow> conn \<Rightarrow> conn res" where
  "connectDestroyed exec c =
     bind_res (if c_state c = kConnected
               then runCloseSequence exec False
                      (if closeReason c = CloseNone then c\<lparr>closeReason := ClosePeerClosed\<rparr> else c)
               else Inr c) (\<lambda>c.
       let c = (if ch_events (c_chan c) \<noteq> kNoneEvent then c\<lparr>c_chan := ch_disableAll (c_chan c)\<rparr> else c)
       in bind_res (ch_remove (c_chan c)) (\<lambda>ch. Inr (c\<lparr>c_chan := ch\<rparr>)))"

definition startTls :: "bool \<Rightarrow> conn \<Rightarrow> conn" where
  "startTls created c = c\<lparr>c_tr := snd (enableTls created (ch_fd (c_chan c)) (c_tr c))\<rparr>"

section \<open>Awaiting\<close>

definition canReadImmediately :: "nat \<Rightarrow> conn \<Rightarrow> bool" where
  "canReadImmediately minBytes c \<longleftrightarrow> readableBytes (inputBuffer c) \<ge> minBytes \<or> c_state c \<noteq> kConnected"

definition consumeReadableBytes :: "nat \<Rightarrow> conn \<Rightarrow> (byte list \<times> conn) res" where
  "consumeReadableBytes minBytes c =
     (if readableBytes (inputBuffer c) = 0 then Inr ([], c)
      else if readableBytes (inputBuffer c) < minBytes \<and> c_state c = kConnected then Inr ([], c)
      else bind_res (retrieveAllAsString (inputBuffer c)) (\<lambda>(xs, b). Inr (xs, c\<lparr>inputBuffer := b\<rparr>)))"

definition close_error :: "conn \<Rightarrow> netError" where
  "close_error c = (if closeReason c = CloseError then ConnectionReset else PeerClosed)"

definition resumeReadAwait :: "nat \<Rightarrow> conn \<Rightarrow> (await_result \<times> conn) res" where
  "resumeReadAwait minBytes c =
     (if c_state c = kDisconnected \<and> readableBytes (inputBuffer c) = 0 then Inr (NetErr (close_error c), c)
      else bind_res (consumeReadableBytes minBytes c) (\<lambda>(xs, c). Inr (ReadDone xs, c)))"

definition resumeWriteAwait :: "conn \<Rightarrow> await_result" where
  "resumeWriteAwait c = (if c_state c = kDisconnected then NetErr (close_error c) else WriteDone)"

definition resumeCloseAwait :: await_result where
  "resumeCloseAwait = CloseDone"

text \<open>\<open>finishWaiter\<close> and the three \<open>await_resume\<close> functions.\<close>

definition finishWaiter :: "nat \<Rightarrow> conn \<Rightarrow> cpp_error option \<times> conn" where
  "finishWaiter w c =
     (let c = c\<lparr>c_reg := unregisterWaiter w (c_reg c)\<rparr> in (aw_failure (waiters (c_reg c) w), c))"

definition await_resume :: "nat \<Rightarrow> conn \<Rightarrow> (await_result \<times> conn) res" where
  "await_resume w c =
     (case finishWaiter w c of
        (Some e, c) \<Rightarrow> Inr (Threw e, c)
      | (None, c) \<Rightarrow>
          if aw_outcome (waiters (c_reg c) w) = Cancelled then Inr (NetErr OpCancelled, c)
          else case c_await c w of
                 (AwaitRead, minBytes) \<Rightarrow> resumeReadAwait minBytes c
               | (AwaitWrite, _) \<Rightarrow> Inr (resumeWriteAwait c, c)
               | (AwaitClose, _) \<Rightarrow> Inr (resumeCloseAwait, c))"

definition abandonWaiter :: "nat \<Rightarrow> conn \<Rightarrow> conn" where
  "abandonWaiter w c =
     (if aw_phase (waiters (c_reg c) w) = Pending \<or> aw_phase (waiters (c_reg c) w) = Queued
      then c\<lparr>c_reg := unregisterWaiter w (c_reg c)\<rparr> else c)"

text \<open>The \<open>catch\<close> block of \<open>armWaiter\<close>: on the loop thread the exception is thrown on to the awaiting coroutine.\<close>

definition arm_catch :: "bool \<Rightarrow> nat \<Rightarrow> cpp_error \<Rightarrow> conn \<Rightarrow> conn" where
  "arm_catch synchronous w e c =
     (if synchronous then c\<lparr>c_reg := unregisterWaiter w (c_reg c)\<rparr>
      else c\<lparr>c_reg := failWaiter w e (c_reg c)\<rparr>)"

text \<open>The \<open>switch\<close> over the kind of the awaitable, with that \<open>catch\<close> block.\<close>

definition arm_switch :: "exec \<Rightarrow> bool \<Rightarrow> nat \<Rightarrow> awaitKind \<Rightarrow> nat \<Rightarrow> byte list \<Rightarrow> conn \<Rightarrow> conn res" where
  "arm_switch exec synchronous w kind minBytes data c =
     (case kind of
        AwaitRead \<Rightarrow>
          (case armReadWaiter w minBytes (canReadImmediately minBytes c) (c_reg c) of
             Inl e \<Rightarrow> Inr (arm_catch synchronous w e c)
           | Inr r \<Rightarrow> Inr (c\<lparr>c_reg := r\<rparr>))
      | AwaitWrite \<Rightarrow>
          (let ready = (data = [] \<or> c_state c = kDisconnected)
           in case armWriteWaiter w ready (c_reg c) of
                Inl e \<Rightarrow> Inr (arm_catch synchronous w e c)
              | Inr r \<Rightarrow>
                  let c = c\<lparr>c_reg := r\<rparr>
                  in if ready then Inr c
                     else bind_res (sendInLoop exec data c) (\<lambda>c.
                            Inr (if \<not> isWriting (c_chan c) \<and> readableBytes (outputBuffer c) = 0
                                 then c\<lparr>c_reg := resumeWriteWaiterIfNeeded (c_reg c)\<rparr> else c)))
      | AwaitClose \<Rightarrow>
          (case armCloseWaiter w (c_state c = kDisconnected) (c_reg c) of
             Inl e \<Rightarrow> Inr (arm_catch synchronous w e c)
           | Inr r \<Rightarrow> Inr (c\<lparr>c_reg := r\<rparr>)))"

definition arm_functor :: "exec \<Rightarrow> bool \<Rightarrow> nat \<Rightarrow> awaitKind \<Rightarrow> bool \<Rightarrow> nat \<Rightarrow> byte list \<Rightarrow> conn \<Rightarrow> conn res" where
  "arm_functor exec synchronous w kind token minBytes data c =
     (if aw_phase (waiters (c_reg c) w) \<noteq> Pending then Inr c
      else if token \<and> w \<in> set (token_requested c) then Inr (c\<lparr>c_reg := snd (cancelWaiter w (c_reg c))\<rparr>)
      else arm_switch exec synchronous w kind minBytes data
             (if token then c\<lparr>c_reg := upd_waiter w (\<lambda>a. a\<lparr>aw_registration := True\<rparr>) (c_reg c)\<rparr> else c))"

definition armWaiter :: "exec \<Rightarrow> bool \<Rightarrow> nat \<Rightarrow> awaitKind \<Rightarrow> bool \<Rightarrow> nat \<Rightarrow> byte list \<Rightarrow> conn \<Rightarrow> conn res" where
  "armWaiter exec inLoop w kind token minBytes data c =
     (case publishWaiter w (c_reg c) of
        Inl e \<Rightarrow> Inr c
      | Inr r \<Rightarrow>
          let c = c\<lparr>c_reg := r, c_await := (c_await c)(w := (kind, minBytes))\<rparr>
          in if inLoop then arm_functor exec True w kind token minBytes data c
             else Inr (queueFunctor (TArm w kind token minBytes data) c))"

section \<open>Public interface\<close>

definition send :: "exec \<Rightarrow> bool \<Rightarrow> byte list \<Rightarrow> conn \<Rightarrow> conn res" where
  "send exec inLoop data c =
     (if c_state c \<noteq> kConnected then Inr c
      else if inLoop then sendInLoop exec data c
      else Inr (queueFunctor (TSend data) c))"

definition shutdown :: "bool \<Rightarrow> conn \<Rightarrow> conn" where
  "shutdown inLoop c =
     (if c_state c = kConnected
      then let c = c\<lparr>c_state := kDisconnecting\<rparr>
           in if inLoop then shutdownInLoop c else queueFunctor TShutdown c
      else c)"

definition forceClose :: "exec \<Rightarrow> bool \<Rightarrow> conn \<Rightarrow> conn res" where
  "forceClose exec inLoop c = (if inLoop then forceCloseInLoop exec c else Inr (queueFunctor TForceClose c))"

definition setBackpressurePolicy :: "exec \<Rightarrow> bool \<Rightarrow> nat \<Rightarrow> nat \<Rightarrow> conn \<Rightarrow> conn res" where
  "setBackpressurePolicy exec inLoop high low c =
     (case validateThresholds high low of
        Inl e \<Rightarrow> Inr c
      | Inr u \<Rightarrow>
          if inLoop then setBackpressurePolicyInLoop exec high low c
          else Inr (queueFunctor (TSetBackpressure high low) c))"

datatype setter = SConnection bool | SMessage bool | SHighWater bool nat | SWriteComplete bool | SClose bool | SBackpressure bool | STls bool

fun set_callback :: "setter \<Rightarrow> conn \<Rightarrow> conn" where
  "set_callback (SConnection b) c = c\<lparr>c_cbs := (c_cbs c)\<lparr>cb_connection := b\<rparr>\<rparr>"
| "set_callback (SMessage b) c = c\<lparr>c_cbs := (c_cbs c)\<lparr>cb_message := b\<rparr>\<rparr>"
| "set_callback (SHighWater b n) c = c\<lparr>c_cbs := (c_cbs c)\<lparr>cb_highWater := b, cb_highWaterMark := n\<rparr>\<rparr>"
| "set_callback (SWriteComplete b) c = c\<lparr>c_cbs := (c_cbs c)\<lparr>cb_writeComplete := b\<rparr>\<rparr>"
| "set_callback (SClose b) c = c\<lparr>c_cbs := (c_cbs c)\<lparr>cb_close := b\<rparr>\<rparr>"
| "set_callback (SBackpressure b) c = c\<lparr>c_bp := (c_bp c)\<lparr>bp_hook := b\<rparr>\<rparr>"
| "set_callback (STls b) c = c\<lparr>c_cbs := (c_cbs c)\<lparr>cb_tls := b\<rparr>\<rparr>"

text \<open>What user code may do: the public interface, the buffer of the message callback, awaiting and destroying an
  awaitable, and destroying a connection that is connected or closed (the owner, from its close callback). Where the
  code throws (a second waiter, invalid thresholds), the user code handles the exception.\<close>

datatype api =
    ASend "byte list"
  | AShutdown
  | AForceClose
  | ASetBackpressure nat nat
  | ASet setter
  | ARetrieve nat
  | AArm nat awaitKind bool nat "byte list"
  | AAbandon nat
  | ADestroy

fun do_api :: "exec \<Rightarrow> bool \<Rightarrow> api \<Rightarrow> conn \<Rightarrow> conn res" where
  "do_api exec inLoop (ASend data) c = send exec inLoop data c"
| "do_api exec inLoop AShutdown c = Inr (shutdown inLoop c)"
| "do_api exec inLoop AForceClose c = forceClose exec inLoop c"
| "do_api exec inLoop (ASetBackpressure high low) c = setBackpressurePolicy exec inLoop high low c"
| "do_api exec inLoop (ASet s) c = (if inLoop then Inr (set_callback s c) else Inr c)"
| "do_api exec inLoop (ARetrieve n) c =
     (if inLoop then Inr (c\<lparr>inputBuffer := retrieve n (inputBuffer c)\<rparr>) else Inr c)"
| "do_api exec inLoop (AArm w kind token minBytes data) c = armWaiter exec inLoop w kind token minBytes data c"
| "do_api exec inLoop (AAbandon w) c = (if inLoop then Inr (abandonWaiter w c) else Inr c)"
| "do_api exec inLoop ADestroy c =
     (if inLoop \<and> (c_state c = kConnected \<or> c_state c = kDisconnected) then connectDestroyed exec c else Inr c)"

fun run_apis :: "exec \<Rightarrow> api list \<Rightarrow> conn \<Rightarrow> conn res" where
  "run_apis exec [] c = Inr c"
| "run_apis exec (a # as) c = bind_res (do_api exec True a c) (run_apis exec as)"

text \<open>User code that nests callbacks at most \<open>k\<close> deep: \<open>user n c\<close> are the calls it makes for the callback \<open>n\<close>.\<close>

primrec exec_at :: "(cb_note \<Rightarrow> conn \<Rightarrow> api list) \<Rightarrow> nat \<Rightarrow> exec" where
  "exec_at user 0 = (\<lambda>n c. Inr c)"
| "exec_at user (Suc k) = (\<lambda>n c. run_apis (exec_at user k) (user n c) c)"

section \<open>The functors queued in the loop\<close>

fun run_ctask :: "exec \<Rightarrow> ctask \<Rightarrow> conn \<Rightarrow> conn res" where
  "run_ctask exec (TSend data) c = sendInLoop exec data c"
| "run_ctask exec TShutdown c = Inr (shutdownInLoop c)"
| "run_ctask exec TForceClose c = forceCloseInLoop exec c"
| "run_ctask exec (TSetBackpressure high low) c = setBackpressurePolicyInLoop exec high low c"
| "run_ctask exec TWriteComplete c = call_user exec NWriteComplete c"
| "run_ctask exec (THighWater n) c = call_user exec (NHighWater n) c"
| "run_ctask exec (TArm w kind token minBytes data) c = arm_functor exec False w kind token minBytes data c"
| "run_ctask exec (TCancel w) c = Inr (c\<lparr>c_reg := snd (cancelWaiter w (c_reg c))\<rparr>)"

definition run_resume :: "exec \<Rightarrow> nat \<Rightarrow> conn \<Rightarrow> conn res" where
  "run_resume exec w c =
     (case resume_functor w (c_reg c) of
        (False, r) \<Rightarrow> Inr (c\<lparr>c_reg := r\<rparr>)
      | (True, r) \<Rightarrow> bind_res (await_resume w (c\<lparr>c_reg := r\<rparr>)) (\<lambda>(res, c). call_user exec (NResumed w res) c))"

definition run_task :: "exec \<Rightarrow> conn \<Rightarrow> conn res" where
  "run_task exec c =
     (case loopTasks (c_reg c) of
        [] \<Rightarrow> Inr c
      | t # ts \<Rightarrow>
          let c = c\<lparr>c_reg := (c_reg c)\<lparr>loopTasks := ts\<rparr>\<rparr>
          in case t of Resume w \<Rightarrow> run_resume exec w c | Other u \<Rightarrow> run_ctask exec u c)"

section \<open>Runs\<close>

text \<open>What happens to a connection, in any order: its owner establishes it once and may set up TLS before; the loop
  reports events of the channel and runs queued functors; any thread calls the public interface; a cancellation source
  requests cancellation for a waiter.\<close>

datatype conn_event = EvStartTls bool | EvEstablish | EvRead | EvWrite | EvClose | EvError | EvTask | EvApi bool api | EvCancel nat

fun tcp_step :: "exec \<Rightarrow> conn_event \<Rightarrow> conn \<Rightarrow> conn res" where
  "tcp_step exec (EvStartTls created) c = Inr (if c_state c = kConnecting \<and> \<not> ssl (c_tr c) then startTls created c else c)"
| "tcp_step exec EvEstablish c = (if c_state c = kConnecting then connectEstablished exec c else Inr c)"
| "tcp_step exec EvRead c = handleRead exec c"
| "tcp_step exec EvWrite c = handleWrite exec c"
| "tcp_step exec EvClose c = handleClose exec c"
| "tcp_step exec EvError c = handleError exec c"
| "tcp_step exec EvTask c = run_task exec c"
| "tcp_step exec (EvApi inLoop a) c = do_api exec inLoop a c"
| "tcp_step exec (EvCancel w) c =
     (let c = c\<lparr>token_requested := w # token_requested c\<rparr>
      in Inr (if aw_registration (waiters (c_reg c) w) then queueFunctor (TCancel w) c else c))"

fun tcp_run :: "exec \<Rightarrow> conn_event list \<Rightarrow> conn \<Rightarrow> conn res" where
  "tcp_run exec [] c = Inr c"
| "tcp_run exec (e # es) c = bind_res (tcp_step exec e c) (tcp_run exec es)"

end
