(* ===== verification/Tcp_Server.thy ===== *)
theory Tcp_Server
  imports Thread_Pool Tcp_Connection Socket_Ops
begin

text \<open>
  \<^verbatim>\<open>TcpServer.cc\<close>, \<^verbatim>\<open>TcpServerOptions.h\<close> and \<^verbatim>\<open>Acceptor.cc\<close>: accepting connections, handing them to the loops of
  the pool, and taking them down again.

  The server owns a table of descriptors (\<open>fd_table\<close>), the map of connections, the pool and the acceptor. Each
  connection is an object of \<open>Tcp_Connection\<close>, known by its name. \<open>queues l\<close> are the functors the server has posted
  to loop \<open>l\<close> and \<open>armed l\<close> the one-shot timers registered with it (\<open>Timer_Queue\<close> proves that such a timer fires at
  most once and never after it was cancelled). The callbacks the server installs on a connection wrap those of the
  application; their own effects (idle timer, connection events, the post of the close callback) are applied in
  the order of the calls that the connection recorded in \<open>called\<close>.

  What comes from outside is in \<open>env\<close>: the application's callbacks per connection, the network, whether a TLS session
  could be created, and the order in which the unordered map is traversed. The counter of connections (\<open>int\<close> in the code) is
  unbounded. Descriptors come from the answers
  of \<open>accept\<close>. Application code on the base loop calls the server between steps, not from inside a connection's callback.
\<close>

section \<open>Options\<close>

record options =
  opt_numThreads :: int
  opt_idleTimeout :: int
  opt_highWater :: nat
  opt_lowWater :: nat

definition TcpServerOptions :: options where
  "TcpServerOptions = \<lparr>opt_numThreads = 1, opt_idleTimeout = 0, opt_highWater = 0, opt_lowWater = 0\<rparr>"

definition validateBackpressure :: "nat \<Rightarrow> nat \<Rightarrow> unit res" where
  "validateBackpressure highWaterMark lowWaterMark =
     (if highWaterMark = 0
      then if lowWaterMark \<noteq> 0
           then Inl (Invalid_argument ''TcpServerOptions: backpressureLowWaterMark requires a non-zero backpressureHighWaterMark'')
           else Inr ()
      else if lowWaterMark \<ge> highWaterMark
           then Inl (Invalid_argument ''TcpServerOptions: backpressureLowWaterMark must be smaller than backpressureHighWaterMark'')
           else Inr ())"

definition validate :: "options \<Rightarrow> unit res" where
  "validate opts =
     (if opt_numThreads opts < 0 then Inl (Invalid_argument ''TcpServerOptions: numThreads must be >= 0'')
      else if opt_idleTimeout opts < 0 then Inl (Invalid_argument ''TcpServerOptions: idleTimeout must be non-negative'')
      else validateBackpressure (opt_highWater opts) (opt_lowWater opts))"

section \<open>State\<close>

record acceptor =
  acceptSocket :: socket
  acceptChannel :: "unit channel"
  listening :: bool
  newConnectionCallback :: bool

record idle_state =
  idleTimerId :: int
  generation :: u64

record sobj =
  o_conn :: conn
  o_loop :: loop_ref
  o_fd :: int
  o_idle :: "idle_state option"

datatype sfun =
    FEstablish string "bool option"
  | FDestroy string
  | FForceClose string
  | FDtor string
  | FRemove string

datatype stimer = DrainTimer | IdleTimer string u64

datatype connEvent = Ev_Connected | Ev_Disconnected | Ev_IdleTimeout | Ev_ForceClosed

record server = fd_table +
  started :: bool
  stopped :: bool
  draining :: bool
  lifetime :: bool
  srv_name :: string
  nextConnId :: nat
  highWaterMark :: nat
  highWaterMarkCallback :: bool
  backpressureHighWaterMark :: nat
  backpressureLowWaterMark :: nat
  idleTimeout :: int
  backpressureHook :: bool
  tlsHook :: bool
  tlsContext :: bool
  srv_acceptor :: acceptor
  threadPool :: pool
  connections :: "string list"
  objects :: "string \<rightharpoonup> sobj"
  queues :: "loop_ref \<Rightarrow> sfun list"
  armed :: "loop_ref \<Rightarrow> (int \<rightharpoonup> stimer)"
  nextTimer :: int
  drainTimerId :: int
  conn_events :: "(string \<times> connEvent) list"
  destroyed :: "string list"
  abandoned :: "int set"

text \<open>\<open>connections\<close> are the keys of \<open>connections_\<close>, each bound to the object of that name; \<open>destroyed\<close> records the
  calls of \<open>connectDestroyed\<close> and \<open>abandoned\<close> the descriptors that an exception in \<open>newConnection\<close> leaves behind.\<close>

record server_env =
  user_exec :: "string \<Rightarrow> exec"
  network :: "string \<Rightarrow> transport"
  tls_created :: "string \<Rightarrow> bool"
  iteration :: "string list \<Rightarrow> string list"

section \<open>Timers\<close>

definition run_after :: "loop_ref \<Rightarrow> stimer \<Rightarrow> server \<Rightarrow> int \<times> server" where
  "run_after l t s =
     (nextTimer s, s\<lparr>nextTimer := nextTimer s + 1, armed := (armed s)(l := (armed s l)(nextTimer s \<mapsto> t))\<rparr>)"

definition cancel_timer :: "loop_ref \<Rightarrow> int \<Rightarrow> server \<Rightarrow> server" where
  "cancel_timer l i s = s\<lparr>armed := (armed s)(l := (armed s l)(i := None))\<rparr>"

definition set_idle :: "string \<Rightarrow> idle_state \<Rightarrow> server \<Rightarrow> server" where
  "set_idle n st s = s\<lparr>objects := (objects s)(n := map_option (\<lambda>x. x\<lparr>o_idle := Some st\<rparr>) (objects s n))\<rparr>"

text \<open>A connection has an idle state only when the timeout is positive.\<close>

definition cancelIdleTimer :: "string \<Rightarrow> server \<Rightarrow> server" where
  "cancelIdleTimer n s =
     (case objects s n of
        None \<Rightarrow> s
      | Some x \<Rightarrow>
          (case o_idle x of
             None \<Rightarrow> s
           | Some st \<Rightarrow>
               let st = st\<lparr>generation := generation st + 1\<rparr>
               in if timer_id_valid (idleTimerId st)
                  then set_idle n (st\<lparr>idleTimerId := 0\<rparr>) (cancel_timer (o_loop x) (idleTimerId st) s)
                  else set_idle n st s))"

definition refreshIdleTimer :: "string \<Rightarrow> server \<Rightarrow> server" where
  "refreshIdleTimer n s =
     (let s = cancelIdleTimer n s
      in case objects s n of
           None \<Rightarrow> s
         | Some x \<Rightarrow>
             (case o_idle x of
                None \<Rightarrow> s
              | Some st \<Rightarrow>
                  (case run_after (o_loop x) (IdleTimer n (generation st)) s of
                     (i, s) \<Rightarrow> set_idle n (st\<lparr>idleTimerId := i\<rparr>) s)))"

section \<open>The callbacks installed on a connection\<close>

definition post_base :: "sfun \<Rightarrow> server \<Rightarrow> server" where
  "post_base f s = s\<lparr>queues := (queues s)(Base_loop := queues s Base_loop @ [f])\<rparr>"

fun wrapper :: "string \<Rightarrow> cb_note \<Rightarrow> server \<Rightarrow> server" where
  "wrapper n (NConnected True) s = (refreshIdleTimer n s)\<lparr>conn_events := conn_events s @ [(n, Ev_Connected)]\<rparr>"
| "wrapper n (NConnected False) s = (cancelIdleTimer n s)\<lparr>conn_events := conn_events s @ [(n, Ev_Disconnected)]\<rparr>"
| "wrapper n NDisconnected s = (cancelIdleTimer n s)\<lparr>conn_events := conn_events s @ [(n, Ev_Disconnected)]\<rparr>"
| "wrapper n NMessage s = refreshIdleTimer n s"
| "wrapper n NWriteComplete s = refreshIdleTimer n s"
| "wrapper n NClose s = post_base (FRemove n) (cancelIdleTimer n s)"
| "wrapper n _ s = s"

definition conn_op :: "string \<Rightarrow> (conn \<Rightarrow> conn res) \<Rightarrow> server \<Rightarrow> server res" where
  "conn_op n f s =
     (case objects s n of
        None \<Rightarrow> Inl Out_of_bounds
      | Some x \<Rightarrow>
          bind_res (f (o_conn x)) (\<lambda>c.
            Inr (fold (wrapper n) (drop (length (called (o_conn x))) (called c))
                  (s\<lparr>objects := (objects s)(n \<mapsto> x\<lparr>o_conn := c\<rparr>)\<rparr>))))"

section \<open>Functors run on the loop of a connection\<close>

definition connect_destroyed :: "server_env \<Rightarrow> string \<Rightarrow> server \<Rightarrow> server res" where
  "connect_destroyed env n s =
     bind_res (conn_op n (connectDestroyed (user_exec env n)) s) (\<lambda>s. Inr (s\<lparr>destroyed := destroyed s @ [n]\<rparr>))"

definition note_force_closed :: "string \<Rightarrow> server \<Rightarrow> server" where
  "note_force_closed n s =
     (case objects s n of
        Some x \<Rightarrow> if c_state (o_conn x) = kConnected then s\<lparr>conn_events := conn_events s @ [(n, Ev_ForceClosed)]\<rparr> else s
      | None \<Rightarrow> s)"

definition start_tls_functor :: "exec \<Rightarrow> bool option \<Rightarrow> conn \<Rightarrow> conn res" where
  "start_tls_functor exec tls c =
     (case tls of
        None \<Rightarrow> Inr c
      | Some created \<Rightarrow>
          bind_res (if cb_tls (c_cbs c) then call_user exec (NTls HandshakeStarted) c else Inr c) (\<lambda>c.
            Inr (startTls created c)))"

fun conn_functor :: "server_env \<Rightarrow> sfun \<Rightarrow> server \<Rightarrow> server res" where
  "conn_functor env (FEstablish n tls) s =
     conn_op n (\<lambda>c. bind_res (start_tls_functor (user_exec env n) tls c) (connectEstablished (user_exec env n))) s"
| "conn_functor env (FDestroy n) s = connect_destroyed env n s"
| "conn_functor env (FForceClose n) s =
     bind_res (conn_op n (\<lambda>c. Inr (set_callback (SClose False) c)) s) (\<lambda>s.
       let s = note_force_closed n s
       in bind_res (conn_op n (forceClose (user_exec env n) True) s) (connect_destroyed env n))"
| "conn_functor env (FDtor n) s =
     bind_res (conn_op n (\<lambda>c. Inr (set_callback (SClose False) c)) s) (connect_destroyed env n)"
| "conn_functor env (FRemove n) s = Inr s"

fun conn_functors :: "server_env \<Rightarrow> sfun list \<Rightarrow> server \<Rightarrow> server res" where
  "conn_functors env [] s = Inr s"
| "conn_functors env (f # fs) s = bind_res (conn_functor env f s) (conn_functors env fs)"

definition run_in_loop :: "server_env \<Rightarrow> loop_ref \<Rightarrow> sfun \<Rightarrow> server \<Rightarrow> server res" where
  "run_in_loop env l f s =
     (if l = Base_loop then conn_functor env f s
      else Inr (s\<lparr>queues := (queues s)(l := queues s l @ [f])\<rparr>))"

text \<open>\<open>getLoop()\<close> of a connection of the map.\<close>

definition owner_of :: "server \<Rightarrow> string \<Rightarrow> loop_ref" where
  "owner_of s n = (case objects s n of Some x \<Rightarrow> o_loop x | None \<Rightarrow> Base_loop)"

text \<open>The loop over the moved map, in the order of the traversal.\<close>

fun for_connections :: "server_env \<Rightarrow> (string \<Rightarrow> sfun) \<Rightarrow> string list \<Rightarrow> server \<Rightarrow> server res" where
  "for_connections env F [] s = Inr s"
| "for_connections env F (n # ns) s = bind_res (run_in_loop env (owner_of s n) (F n) s) (for_connections env F ns)"

text \<open>Stopping the pool joins the workers, and a worker runs what is queued in its loop before its thread ends
  (\<open>Event_Loop\<close>); the timers of its loop go with it.\<close>

fun finish_workers :: "server_env \<Rightarrow> loop_ref list \<Rightarrow> server \<Rightarrow> server res" where
  "finish_workers env [] s = Inr s"
| "finish_workers env (l # ls) s =
     bind_res (conn_functors env (queues s l) (s\<lparr>queues := (queues s)(l := [])\<rparr>)) (\<lambda>s.
       finish_workers env ls (s\<lparr>armed := (armed s)(l := Map.empty)\<rparr>))"

definition stop_pool :: "server_env \<Rightarrow> server \<Rightarrow> server res" where
  "stop_pool env s =
     bind_res (finish_workers env (loops (threadPool s)) s) (\<lambda>s.
       case pool_stop True (threadPool s) of
         (Inl e, _) \<Rightarrow> Inl e
       | (Inr _, p) \<Rightarrow> Inr (s\<lparr>threadPool := p\<rparr>))"


section \<open>Closing all connections\<close>

definition forceCloseAllConnections :: "server_env \<Rightarrow> server \<Rightarrow> server res" where
  "forceCloseAllConnections env s =
     (let conns = connections s
      in for_connections env FForceClose (iteration env conns) (s\<lparr>connections := []\<rparr>))"

text \<open>The last part of \<open>removeConnectionInLoop\<close>.\<close>

definition finish_drain :: "server_env \<Rightarrow> server \<Rightarrow> server res" where
  "finish_drain env s =
     (if draining s \<and> connections s = []
      then let s = s\<lparr>draining := False\<rparr>;
               s = (if timer_id_valid (drainTimerId s)
                    then (cancel_timer Base_loop (drainTimerId s) s)\<lparr>drainTimerId := 0\<rparr> else s)
           in stop_pool env s
      else Inr s)"

definition removeConnectionInLoop :: "server_env \<Rightarrow> string \<Rightarrow> server \<Rightarrow> server res" where
  "removeConnectionInLoop env n s =
     (if n \<notin> set (connections s) then Inr s
      else let s = s\<lparr>connections := filter (\<lambda>m. m \<noteq> n) (connections s)\<rparr>
           in bind_res (run_in_loop env (owner_of s n) (FDestroy n) s) (finish_drain env))"

section \<open>Acceptor\<close>

definition Acceptor :: "int \<Rightarrow> acceptor" where
  "Acceptor fd = \<lparr>acceptSocket = fd, acceptChannel = setReadCallback () (Channel fd), listening = False,
     newConnectionCallback = False\<rparr>"

definition setNewConnectionCallback :: "bool \<Rightarrow> server \<Rightarrow> server" where
  "setNewConnectionCallback b s = s\<lparr>srv_acceptor := (srv_acceptor s)\<lparr>newConnectionCallback := b\<rparr>\<rparr>"

definition acceptor_listen :: "server \<Rightarrow> server" where
  "acceptor_listen s =
     (let a = srv_acceptor s; a = a\<lparr>listening := True\<rparr>
      in s\<lparr>srv_acceptor := a\<lparr>acceptChannel := ch_enableReading (acceptChannel a)\<rparr>\<rparr>)"

definition acceptor_unregister :: "acceptor \<Rightarrow> acceptor res" where
  "acceptor_unregister a =
     bind_res (ch_remove (ch_disableAll (acceptChannel a))) (\<lambda>ch. Inr (a\<lparr>acceptChannel := ch\<rparr>))"

definition acceptor_stop :: "server \<Rightarrow> server res" where
  "acceptor_stop s =
     (if \<not> listening (srv_acceptor s) then Inr s
      else bind_res (acceptor_unregister ((srv_acceptor s)\<lparr>listening := False\<rparr>)) (\<lambda>a.
             case releaseFd (acceptSocket a) of
               (fd, sock) \<Rightarrow>
                 let s = s\<lparr>srv_acceptor := a\<lparr>acceptSocket := sock\<rparr>\<rparr>
                 in Inr (if isValid fd then sockets_close fd s else s)))"

definition acceptor_dtor :: "server \<Rightarrow> server res" where
  "acceptor_dtor s =
     bind_res (if listening (srv_acceptor s) then acceptor_unregister (srv_acceptor s) else Inr (srv_acceptor s)) (\<lambda>a.
       Inr (Socket_dtor (acceptSocket a) (s\<lparr>srv_acceptor := a\<lparr>acceptSocket := kInvalidSocket\<rparr>\<rparr>)))"

section \<open>New connections\<close>

text \<open>\<open>env\<close> gives the network of the new connection; \<open>running\<close> is what the workers answer to \<open>getNextLoop\<close>. The result
  carries the exception, if one leaves the function.\<close>

definition conn_name :: "string \<Rightarrow> nat \<Rightarrow> string" where
  "conn_name base i = base @ ''#'' @ to_string i"

definition configure_conn :: "server_env \<Rightarrow> string \<Rightarrow> loop_ref \<Rightarrow> server \<Rightarrow> conn \<Rightarrow> conn res" where
  "configure_conn env n ioLoop s c =
     (let c = set_callback (SConnection True) c;
          c = set_callback (SMessage True) c
      in bind_res (if backpressureHighWaterMark s > 0
                   then setBackpressurePolicy (user_exec env n) (ioLoop = Base_loop)
                          (backpressureHighWaterMark s) (backpressureLowWaterMark s) c
                   else Inr c) (\<lambda>c.
           let c = (if highWaterMarkCallback s \<and> highWaterMark s > 0 then set_callback (SHighWater True (highWaterMark s)) c else c);
               c = set_callback (SWriteComplete True) c;
               c = (if backpressureHook s then set_callback (SBackpressure True) c else c);
               c = (if tlsHook s then set_callback (STls True) c else c)
           in Inr (set_callback (SClose True) c)))"

definition newConnection :: "server_env \<Rightarrow> (nat \<Rightarrow> bool) \<Rightarrow> int \<Rightarrow> server \<Rightarrow> (cpp_error option \<times> server) res" where
  "newConnection env running sockfd s =
     (if stopped s then Inr (None, sockets_close sockfd s)
      else case getNextLoop running True (threadPool s) of
             (Inl e, p) \<Rightarrow> Inr (Some e, s\<lparr>threadPool := p, abandoned := insert sockfd (abandoned s)\<rparr>)
           | (Inr ioLoop, p) \<Rightarrow>
               let s = s\<lparr>threadPool := p\<rparr>;
                   n = conn_name (srv_name s) (nextConnId s);
                   s = s\<lparr>nextConnId := nextConnId s + 1\<rparr>;
                   x = \<lparr>o_conn = TcpConnection sockfd (network env n), o_loop = ioLoop, o_fd = sockfd,
                        o_idle = (if idleTimeout s > 0 then Some \<lparr>idleTimerId = 0, generation = 0\<rparr> else None)\<rparr>;
                   s = s\<lparr>objects := (objects s)(n \<mapsto> x),
                         connections := filter (\<lambda>m. m \<noteq> n) (connections s) @ [n]\<rparr>
               in bind_res (conn_op n (configure_conn env n ioLoop s) s) (\<lambda>s.
                    bind_res (run_in_loop env ioLoop
                        (FEstablish n (if tlsContext s then Some (tls_created env n) else None)) s) (\<lambda>s.
                      Inr (None, s))))"

text \<open>\<open>Acceptor::handleRead\<close>: the answers of \<open>accept\<close>, \<open>Inl\<close> for an error; no further answer means that the call would
  block. The kernel never hands out a descriptor that is open.\<close>

fun acceptor_handleRead ::
    "server_env \<Rightarrow> (nat \<Rightarrow> bool) \<Rightarrow> (int + int) list \<Rightarrow> server \<Rightarrow> (cpp_error option \<times> server) res" where
  "acceptor_handleRead env running [] s = Inr (None, s)"
| "acceptor_handleRead env running (Inr connfd # as) s =
     (if \<not> isValid connfd \<or> connfd \<in> openFds s then Inr (None, s)
      else let s = s\<lparr>openFds := insert connfd (openFds s)\<rparr>
           in if newConnectionCallback (srv_acceptor s)
              then bind_res (newConnection env running connfd s) (\<lambda>(err, s).
                     case err of
                       Some e \<Rightarrow> Inr (Some e, s)
                     | None \<Rightarrow> acceptor_handleRead env running as s)
              else acceptor_handleRead env running as (sockets_close connfd s))"
| "acceptor_handleRead env running (Inl error # as) s =
     (if isWouldBlock error then Inr (None, s)
      else if isInterrupted error then acceptor_handleRead env running as s
      else Inr (None, s))"

section \<open>Life cycle of the server\<close>

text \<open>The member initialisers.\<close>

definition server_members :: "int \<Rightarrow> string \<Rightarrow> options \<Rightarrow> pool \<Rightarrow> server" where
  "server_members listenFd name opts p =
     \<lparr>openFds = {listenFd}, badClose = False, started = False, stopped = False, draining = False, lifetime = True,
      srv_name = name, nextConnId = 1, highWaterMark = 0, highWaterMarkCallback = False,
      backpressureHighWaterMark = opt_highWater opts, backpressureLowWaterMark = opt_lowWater opts,
      idleTimeout = opt_idleTimeout opts, backpressureHook = False, tlsHook = False, tlsContext = False,
      srv_acceptor = Acceptor listenFd, threadPool = p, connections = [], objects = Map.empty,
      queues = (\<lambda>_. []), armed = (\<lambda>_. Map.empty), nextTimer = 1, drainTimerId = 0, conn_events = [],
      destroyed = [], abandoned = {}\<rparr>"

definition TcpServer :: "int \<Rightarrow> string \<Rightarrow> options \<Rightarrow> server res" where
  "TcpServer listenFd name opts =
     bind_res (EventLoopThreadPool True) (\<lambda>p.
     bind_res (validate opts) (\<lambda>_.
     bind_res (fst (setThreadNum (opt_numThreads opts) p)) (\<lambda>_.
     bind_res (if opt_highWater opts > 0 \<or> opt_lowWater opts > 0
               then validateBackpressure (opt_highWater opts) (opt_lowWater opts) else Inr ()) (\<lambda>_.
       Inr (setNewConnectionCallback True
              (server_members listenFd name opts (snd (setThreadNum (opt_numThreads opts) p))))))))"

text \<open>Configuration. Each setter gives the exception it throws.\<close>

datatype config =
    CThreadNum int | CIdleTimeout int | CBackpressure nat nat | CHighWater bool nat | CBackpressureHook bool
  | CTlsHook bool | CTls bool

definition setIdleTimeout :: "int \<Rightarrow> server \<Rightarrow> cpp_error option \<times> server" where
  "setIdleTimeout timeout s =
     (if timeout < 0 then (Some (Invalid_argument ''idle timeout must be non-negative''), s)
      else (None, s\<lparr>idleTimeout := timeout\<rparr>))"

definition server_setThreadNum :: "int \<Rightarrow> server \<Rightarrow> cpp_error option \<times> server" where
  "server_setThreadNum n s =
     (if n < 0 then (Some (Invalid_argument ''worker thread count must be non-negative''), s)
      else case setThreadNum n (threadPool s) of
             (Inl e, p) \<Rightarrow> (Some e, s\<lparr>threadPool := p\<rparr>)
           | (Inr _, p) \<Rightarrow> (None, s\<lparr>threadPool := p\<rparr>))"

definition server_setBackpressurePolicy :: "nat \<Rightarrow> nat \<Rightarrow> server \<Rightarrow> cpp_error option \<times> server" where
  "server_setBackpressurePolicy high low s =
     (if high = 0 \<and> low \<noteq> 0
      then (Some (Invalid_argument ''backpressure low water mark requires a non-zero high water mark''), s)
      else if high \<noteq> 0 \<and> low \<ge> high
      then (Some (Invalid_argument ''backpressure low water mark must be smaller than high water mark''), s)
      else (None, s\<lparr>backpressureHighWaterMark := high, backpressureLowWaterMark := low\<rparr>))"

fun server_config :: "config \<Rightarrow> server \<Rightarrow> cpp_error option \<times> server" where
  "server_config (CThreadNum n) s = server_setThreadNum n s"
| "server_config (CIdleTimeout t) s = setIdleTimeout t s"
| "server_config (CBackpressure high low) s = server_setBackpressurePolicy high low s"
| "server_config (CHighWater b n) s = (None, s\<lparr>highWaterMarkCallback := b, highWaterMark := n\<rparr>)"
| "server_config (CBackpressureHook b) s = (None, s\<lparr>backpressureHook := b\<rparr>)"
| "server_config (CTlsHook b) s = (None, s\<lparr>tlsHook := b\<rparr>)"
| "server_config (CTls b) s = (None, s\<lparr>tlsContext := b\<rparr>)"

definition server_start ::
    "server_env \<Rightarrow> pool_api list option \<Rightarrow> (nat \<Rightarrow> cpp_error option) \<Rightarrow> server \<Rightarrow> (cpp_error option \<times> server) res" where
  "server_start env init starts s =
     (if started s then Inr (None, s)
      else let s = s\<lparr>started := True, stopped := False\<rparr>
           in case pool_do starts (\<lambda>_. True) (PStart init) (threadPool s) of
                (Inl e, p) \<Rightarrow>
                  bind_res (stop_pool env (s\<lparr>threadPool := p\<rparr>)) (\<lambda>s.
                    Inr (Some e, s\<lparr>started := False, stopped := False\<rparr>))
              | (Inr _, p) \<Rightarrow> Inr (None, acceptor_listen (s\<lparr>threadPool := p\<rparr>)))"

definition stop_accepting :: "server \<Rightarrow> server res" where
  "stop_accepting s =
     (if listening (srv_acceptor s) then acceptor_stop (setNewConnectionCallback False s) else Inr s)"

definition server_stop :: "server_env \<Rightarrow> server \<Rightarrow> server res" where
  "server_stop env s =
     (if stopped s then Inr s
      else let s = s\<lparr>stopped := True, draining := False\<rparr>
           in bind_res (stop_accepting s) (\<lambda>s.
              bind_res (forceCloseAllConnections env s) (stop_pool env)))"

definition server_stop_drain :: "server_env \<Rightarrow> server \<Rightarrow> server res" where
  "server_stop_drain env s =
     (if stopped s then Inr s
      else let s = s\<lparr>stopped := True, draining := True\<rparr>
           in bind_res (stop_accepting s) (\<lambda>s.
              if connections s = [] then stop_pool env (s\<lparr>draining := False\<rparr>)
              else case run_after Base_loop DrainTimer s of (i, s) \<Rightarrow> Inr (s\<lparr>drainTimerId := i\<rparr>)))"

definition onDrainTimeout :: "server_env \<Rightarrow> server \<Rightarrow> server res" where
  "onDrainTimeout env s =
     (let s = s\<lparr>drainTimerId := 0\<rparr>
      in if \<not> draining s then Inr s
         else bind_res (forceCloseAllConnections env (s\<lparr>draining := False\<rparr>)) (stop_pool env))"

definition server_dtor :: "server_env \<Rightarrow> server \<Rightarrow> server res" where
  "server_dtor env s =
     (let s = setNewConnectionCallback False (s\<lparr>stopped := True, draining := False, lifetime := False\<rparr>)
      in bind_res (if listening (srv_acceptor s) then acceptor_stop s else Inr s) (\<lambda>s.
           let s = (if timer_id_valid (drainTimerId s) then cancel_timer Base_loop (drainTimerId s) s else s);
               conns = connections s
           in bind_res (for_connections env FDtor (iteration env conns) (s\<lparr>connections := []\<rparr>)) (\<lambda>s.
              bind_res (stop_pool env s) acceptor_dtor)))"

section \<open>Runs\<close>

text \<open>The callback of an idle timer.\<close>

definition idle_fire :: "server_env \<Rightarrow> string \<Rightarrow> u64 \<Rightarrow> server \<Rightarrow> server res" where
  "idle_fire env n g s =
     (case objects s n of
        None \<Rightarrow> Inr s
      | Some x \<Rightarrow>
          (case o_idle x of
             None \<Rightarrow> Inr s
           | Some st \<Rightarrow>
               if generation st \<noteq> g then Inr s
               else let s = set_idle n (st\<lparr>idleTimerId := 0\<rparr>) s
                    in if c_state (o_conn x) \<noteq> kConnected then Inr s
                       else conn_op n (forceClose (user_exec env n) True)
                              (s\<lparr>conn_events := conn_events s @ [(n, Ev_IdleTimeout)]\<rparr>)))"

definition run_functor :: "server_env \<Rightarrow> sfun \<Rightarrow> server \<Rightarrow> server res" where
  "run_functor env f s =
     (case f of
        FRemove n \<Rightarrow> if lifetime s then removeConnectionInLoop env n s else Inr s
      | _ \<Rightarrow> conn_functor env f s)"

definition run_timer :: "server_env \<Rightarrow> stimer \<Rightarrow> server \<Rightarrow> server res" where
  "run_timer env t s =
     (case t of
        DrainTimer \<Rightarrow> if lifetime s then onDrainTimeout env s else Inr s
      | IdleTimer n g \<Rightarrow> idle_fire env n g s)"

text \<open>What the loop and the application do to a connection; establishing and destroying it is the server's part.\<close>

fun app_event :: "conn_event \<Rightarrow> bool" where
  "app_event (EvStartTls _) = False"
| "app_event EvEstablish = False"
| "app_event (EvApi _ ADestroy) = False"
| "app_event _ = True"

datatype server_event =
    SvConfig config
  | SvStart "pool_api list option" "nat \<Rightarrow> cpp_error option"
  | SvAccept "nat \<Rightarrow> bool" "(int + int) list"
  | SvRun loop_ref
  | SvTimer loop_ref int
  | SvConn string conn_event
  | SvStop
  | SvStopDrain
  | SvRelease string
  | SvDtor

text \<open>\<open>SvRelease n\<close> drops the last reference to a destroyed connection, whose \<open>Socket\<close> then closes the descriptor.\<close>

fun server_step :: "server_env \<Rightarrow> server_event \<Rightarrow> server \<Rightarrow> server res" where
  "server_step env (SvConfig c) s = Inr (if lifetime s then snd (server_config c s) else s)"
| "server_step env (SvStart init starts) s =
     (if lifetime s then bind_res (server_start env init starts s) (\<lambda>(e, s). Inr s) else Inr s)"
| "server_step env (SvAccept running as) s =
     (if lifetime s \<and> listening (srv_acceptor s)
      then bind_res (acceptor_handleRead env running as s) (\<lambda>(e, s). Inr s) else Inr s)"
| "server_step env (SvRun l) s =
     (case queues s l of
        [] \<Rightarrow> Inr s
      | f # fs \<Rightarrow> run_functor env f (s\<lparr>queues := (queues s)(l := fs)\<rparr>))"
| "server_step env (SvTimer l i) s =
     (case armed s l i of
        None \<Rightarrow> Inr s
      | Some t \<Rightarrow> run_timer env t (cancel_timer l i s))"
| "server_step env (SvConn n ev) s =
     (if app_event ev \<and> objects s n \<noteq> None then conn_op n (tcp_step (user_exec env n) ev) s else Inr s)"
| "server_step env SvStop s = (if lifetime s then server_stop env s else Inr s)"
| "server_step env SvStopDrain s = (if lifetime s then server_stop_drain env s else Inr s)"
| "server_step env (SvRelease n) s =
     (case objects s n of
        Some x \<Rightarrow> if n \<in> set (destroyed s) then Inr (Socket_dtor (o_fd x) (s\<lparr>objects := (objects s)(n := None)\<rparr>)) else Inr s
      | None \<Rightarrow> Inr s)"
| "server_step env SvDtor s = (if lifetime s then server_dtor env s else Inr s)"

fun server_run :: "server_env \<Rightarrow> server_event list \<Rightarrow> server \<Rightarrow> server res" where
  "server_run env [] s = Inr s"
| "server_run env (e # es) s = bind_res (server_step env e s) (server_run env es)"

end
