(* ===== verification/Tcp_Server_Proofs.thy ===== *)
theory Tcp_Server_Proofs
  imports Tcp_Server
begin

text \<open>
  The invariant of the server model and its properties. The invariant has four parts, each about a few fields:
  who is responsible for a connection object (\<open>own\<close>), which descriptors are open (\<open>fd_inv\<close>), how far a stop has come
  (\<open>life_inv\<close>) and which timers are armed (\<open>timer_inv\<close>). Whatever runs on a connection changes the server only within
  \<open>frame\<close>; the lemmas about the operations are stated over it.
\<close>

section \<open>Responsibility for the objects\<close>

fun doom :: "sfun \<Rightarrow> string list" where
  "doom (FDestroy n) = [n]"
| "doom (FForceClose n) = [n]"
| "doom (FDtor n) = [n]"
| "doom _ = []"

fun establishes :: "sfun \<Rightarrow> string list" where
  "establishes (FEstablish n _) = [n]"
| "establishes _ = []"

fun removes :: "sfun \<Rightarrow> bool" where
  "removes (FRemove n) = True"
| "removes _ = False"

definition doomed :: "sfun list \<Rightarrow> string list" where
  "doomed q = concat (map doom q)"

definition establishing :: "sfun list \<Rightarrow> string list" where
  "establishing q = concat (map establishes q)"

text \<open>No connection is established after its destruction was queued.\<close>

fun ordered :: "sfun list \<Rightarrow> bool" where
  "ordered [] = True"
| "ordered (f # fs) = (set (doom f) \<inter> set (establishing fs) = {} \<and> ordered fs)"

type_synonym shape = "string \<Rightarrow> (loop_ref \<times> int) option"

text \<open>\<open>L\<close> are the connections of the map, or those a traversal of the moved map has still to reach.\<close>

definition queue_ok :: "string set \<Rightarrow> shape \<Rightarrow> string set \<Rightarrow> loop_ref \<Rightarrow> sfun list \<Rightarrow> bool" where
  "queue_ok L sh D l fs \<longleftrightarrow>
     distinct (doomed fs) \<and> ordered fs \<and>
     (\<forall>n \<in> set (doomed fs). map_option fst (sh n) = Some l \<and> n \<notin> L \<and> n \<notin> D) \<and>
     (\<forall>n \<in> set (establishing fs). map_option fst (sh n) = Some l \<and> n \<notin> D) \<and>
     (\<forall>f \<in> set fs. removes f \<longleftrightarrow> l = Base_loop)"

definition covered :: "string set \<Rightarrow> shape \<Rightarrow> (loop_ref \<Rightarrow> sfun list) \<Rightarrow> string set \<Rightarrow> bool" where
  "covered L sh q D \<longleftrightarrow>
     (\<forall>n p. sh n = Some p \<longrightarrow> n \<in> L \<or> n \<in> set (doomed (q (fst p))) \<or> n \<in> D) \<and>
     (\<forall>n \<in> L. sh n \<noteq> None \<and> n \<notin> D)"

definition own :: "string set \<Rightarrow> shape \<Rightarrow> (loop_ref \<Rightarrow> sfun list) \<Rightarrow> string list \<Rightarrow> bool" where
  "own L sh q d \<longleftrightarrow> distinct d \<and> (\<forall>l. queue_ok L sh (set d) l (q l)) \<and> covered L sh q (set d)"

lemma doomed_simps [simp]:
  "doomed [] = []" "doomed (f # fs) = doom f @ doomed fs" "doomed (fs @ gs) = doomed fs @ doomed gs"
  by (simp_all add: doomed_def)

lemma establishing_simps [simp]:
  "establishing [] = []" "establishing (f # fs) = establishes f @ establishing fs"
  "establishing (fs @ gs) = establishing fs @ establishing gs"
  by (simp_all add: establishing_def)

lemma removes_nothing [simp]: "removes f \<Longrightarrow> doom f = [] \<and> establishes f = []"
  by (cases f) simp_all

lemma FRemoves [simp]: "doomed (map FRemove ns) = []" "establishing (map FRemove ns) = []"
  by (induction ns) simp_all

lemma ordered_append: "ordered (fs @ gs) \<longleftrightarrow> ordered fs \<and> ordered gs \<and> set (doomed fs) \<inter> set (establishing gs) = {}"
  by (induction fs) auto

lemma ordered_FRemoves [simp]: "ordered (map FRemove ns)"
  by (induction ns) simp_all

lemma base_nothing: "\<forall>f \<in> set fs. removes f \<Longrightarrow> doomed fs = [] \<and> establishing fs = []"
  by (induction fs) simp_all

lemma ownI:
  "distinct d \<Longrightarrow> (\<And>l. queue_ok L sh (set d) l (q l)) \<Longrightarrow> covered L sh q (set d) \<Longrightarrow> own L sh q d"
  by (simp add: own_def)

lemma ownD: "own L sh q d \<Longrightarrow> distinct d \<and> queue_ok L sh (set d) l (q l) \<and> covered L sh q (set d)"
  by (simp add: own_def)

lemma covered_loop: "covered L sh q D \<Longrightarrow> sh n = Some (l, fd) \<Longrightarrow> n \<in> L \<or> n \<in> set (doomed (q l)) \<or> n \<in> D"
  unfolding covered_def by fastforce

lemma queue_base: "queue_ok L sh D Base_loop fs \<Longrightarrow> doomed fs = [] \<and> establishing fs = []"
  by (simp add: queue_ok_def base_nothing)

lemma queue_ok_more:
  assumes "queue_ok L sh D k fs" "\<forall>n \<in> N. map_option fst (sh n) = Some l" "k \<noteq> l"
  shows "queue_ok L sh (D \<union> N) k fs"
proof -
  have "n \<notin> N" if "map_option fst (sh n) = Some k" for n using that assms(2,3) by force
  then show ?thesis using assms(1) unfolding queue_ok_def by simp
qed

lemma own_post:
  assumes "own L sh q d"
  shows "own L sh (q(Base_loop := q Base_loop @ map FRemove ns)) d"
proof (rule ownI)
  show "queue_ok L sh (set d) l ((q(Base_loop := q Base_loop @ map FRemove ns)) l)" for l
    using ownD[OF assms, of l] by (cases "l = Base_loop") (auto simp: queue_ok_def ordered_append)
  show "covered L sh (q(Base_loop := q Base_loop @ map FRemove ns)) (set d)"
    using ownD[OF assms, of Base_loop] by (auto simp: covered_def)
qed (use ownD[OF assms] in blast)

lemma own_new:
  assumes "own L sh q d" "sh n = None" "n \<notin> set d"
  shows "own (insert n L) (sh(n \<mapsto> (l, fd))) q d"
proof (rule ownI)
  show "queue_ok (insert n L) (sh(n \<mapsto> (l, fd))) (set d) k (q k)" for k
    using ownD[OF assms(1), of k] assms(2) by (auto simp: queue_ok_def)
  show "covered (insert n L) (sh(n \<mapsto> (l, fd))) q (set d)"
    using ownD[OF assms(1)] assms(2,3) by (auto simp: covered_def)
qed (use ownD[OF assms(1)] in blast)

lemma own_establish:
  assumes "own L sh q d" "n \<in> L" "sh n = Some (l, fd)" "l \<noteq> Base_loop"
  shows "own L sh (q(l := q l @ [FEstablish n t])) d"
proof (rule ownI)
  have n: "n \<notin> set d" using ownD[OF assms(1)] assms(2) by (auto simp: covered_def)
  show "queue_ok L sh (set d) k ((q(l := q l @ [FEstablish n t])) k)" for k
    using ownD[OF assms(1), of k] assms(2-4) n by (auto simp: queue_ok_def ordered_append)
  show "covered L sh (q(l := q l @ [FEstablish n t])) (set d)"
    using ownD[OF assms(1)] by (auto simp: covered_def)
qed (use ownD[OF assms(1)] in blast)

lemma own_retire_later:
  assumes "own (insert n L) sh q d" "n \<notin> L" "sh n = Some (l, fd)" "l \<noteq> Base_loop" "doom f = [n]" "establishes f = []" "\<not> removes f"
  shows "own L sh (q(l := q l @ [f])) d"
proof (rule ownI)
  have n: "n \<notin> set d" using ownD[OF assms(1)] by (auto simp: covered_def)
  show "queue_ok L sh (set d) k ((q(l := q l @ [f])) k)" for k
    using ownD[OF assms(1), of k] assms(2-7) n by (auto simp: queue_ok_def ordered_append)
  show "covered L sh (q(l := q l @ [f])) (set d)"
    using ownD[OF assms(1), of l] assms(3,5) by (fastforce simp: covered_def)
qed (use ownD[OF assms(1)] in blast)

lemma own_retire_now:
  assumes "own (insert n L) sh q d" "n \<notin> L" "sh n = Some (Base_loop, fd)"
  shows "own L sh q (d @ [n])"
proof (rule ownI)
  have n: "n \<notin> set d" using ownD[OF assms(1)] by (auto simp: covered_def)
  then show "distinct (d @ [n])" using ownD[OF assms(1)] by auto
  show "queue_ok L sh (set (d @ [n])) k (q k)" for k
  proof (cases "k = Base_loop")
    case True
    then have "doomed (q k) = [] \<and> establishing (q k) = []" using queue_base ownD[OF assms(1), of Base_loop] by blast
    then show ?thesis using ownD[OF assms(1), of k] by (simp add: queue_ok_def)
  next
    case False
    then have "queue_ok (insert n L) sh (set d \<union> {n}) k (q k)"
      using queue_ok_more[of "insert n L" sh "set d" k "q k" "{n}" Base_loop] ownD[OF assms(1), of k] assms(3) by simp
    then show ?thesis by (auto simp: queue_ok_def)
  qed
  show "covered L sh q (set (d @ [n]))"
    using ownD[OF assms(1), of Base_loop] assms(2) by (fastforce simp: covered_def)
qed

lemma own_run:
  assumes "own L sh (q(l := f # fs)) d"
  shows "own L sh (q(l := fs)) (d @ doom f)"
proof (rule ownI)
  have l: "queue_ok L sh (set d) l (f # fs)" using ownD[OF assms, of l] by simp
  then show "distinct (d @ doom f)" using ownD[OF assms] by (auto simp: queue_ok_def)
  show "queue_ok L sh (set (d @ doom f)) k ((q(l := fs)) k)" for k
  proof (cases "k = l")
    case True
    then show ?thesis using l by (auto simp: queue_ok_def)
  next
    case False
    have "\<forall>n \<in> set (doom f). map_option fst (sh n) = Some l" using l by (simp add: queue_ok_def)
    then show ?thesis using queue_ok_more[of L sh "set d" k "q k" "set (doom f)" l] ownD[OF assms, of k] False by simp
  qed
  show "covered L sh (q(l := fs)) (set (d @ doom f))"
  proof -
    have c: "covered L sh (q(l := f # fs)) (set d)" using ownD[OF assms] by blast
    have "n \<in> L \<or> n \<in> set (doomed ((q(l := fs)) (fst p))) \<or> n \<in> set (d @ doom f)" if "sh n = Some p" for n p
    proof -
      have "n \<in> L \<or> n \<in> set (doomed ((q(l := f # fs)) (fst p))) \<or> n \<in> set d" using c that unfolding covered_def by blast
      then show ?thesis by (auto split: if_splits)
    qed
    moreover have "sh n \<noteq> None \<and> n \<notin> set (d @ doom f)" if "n \<in> L" for n
      using c l that unfolding covered_def queue_ok_def by auto
    ultimately show ?thesis unfolding covered_def by blast
  qed
qed

lemma own_release:
  assumes "own L sh q d" "n \<in> set d"
  shows "own L (sh(n := None)) q d"
proof (rule ownI)
  show "queue_ok L (sh(n := None)) (set d) k (q k)" for k
    using ownD[OF assms(1), of k] assms(2) by (auto simp: queue_ok_def)
  show "covered L (sh(n := None)) q (set d)"
    using ownD[OF assms(1), of Base_loop] assms(2) by (fastforce simp: covered_def)
qed (use ownD[OF assms(1)] in blast)


section \<open>What runs on a connection\<close>

definition shape_of :: "server \<Rightarrow> shape" where
  "shape_of s = (\<lambda>n. map_option (\<lambda>x. (o_loop x, o_fd x)) (objects s n))"

text \<open>The fields that no functor, callback or event of a connection changes.\<close>

definition core :: "server \<Rightarrow> server" where
  "core s = s\<lparr>objects := Map.empty, queues := \<lambda>_. [], armed := \<lambda>_. Map.empty, nextTimer := 0, conn_events := [], destroyed := []\<rparr>"

lemma core_fields:
  assumes "core s' = core s"
  shows "openFds s' = openFds s" "badClose s' = badClose s" "started s' = started s" "stopped s' = stopped s"
    "draining s' = draining s" "lifetime s' = lifetime s" "srv_name s' = srv_name s" "nextConnId s' = nextConnId s"
    "srv_acceptor s' = srv_acceptor s" "threadPool s' = threadPool s" "connections s' = connections s"
    "drainTimerId s' = drainTimerId s" "abandoned s' = abandoned s"
  using assms unfolding core_def by (cases s; cases s'; simp)+

lemma core_updates [simp]:
  "core (s\<lparr>objects := ob\<rparr>) = core s" "core (s\<lparr>queues := q\<rparr>) = core s" "core (s\<lparr>armed := a\<rparr>) = core s"
  "core (s\<lparr>nextTimer := i\<rparr>) = core s" "core (s\<lparr>conn_events := es\<rparr>) = core s" "core (s\<lparr>destroyed := d\<rparr>) = core s"
  by (simp_all add: core_def)

lemma core_pool: "core (s\<lparr>threadPool := p\<rparr>) = (core s)\<lparr>threadPool := p\<rparr>"
  by (simp add: core_def)

definition frame :: "string list \<Rightarrow> server \<Rightarrow> server \<Rightarrow> bool" where
  "frame D s s' \<longleftrightarrow>
     core s' = core s \<and> shape_of s' = shape_of s \<and> destroyed s' = destroyed s @ D \<and>
     (\<exists>ns. queues s' = (queues s)(Base_loop := queues s Base_loop @ map FRemove ns))"

lemma frame_refl [simp]: "frame [] s s"
  by (auto simp: frame_def intro!: exI[of _ "[]"])

lemma frame_trans: "frame D s s1 \<Longrightarrow> frame E s1 s2 \<Longrightarrow> frame (D @ E) s s2"
  unfolding frame_def by (auto simp: map_append[symmetric] simp del: map_append)

lemma frame_trans': "frame [] s s1 \<Longrightarrow> frame E s1 s2 \<Longrightarrow> frame E s s2"
  using frame_trans[of "[]" s s1 E s2] by simp

lemma shape_idle [simp]: "shape_of (set_idle n st s) = shape_of s"
  by (cases "objects s n") (auto simp: shape_of_def set_idle_def fun_eq_iff)

lemma shape_updates [simp]:
  "shape_of (s\<lparr>queues := q\<rparr>) = shape_of s" "shape_of (s\<lparr>armed := a\<rparr>) = shape_of s"
  "shape_of (s\<lparr>nextTimer := i\<rparr>) = shape_of s" "shape_of (s\<lparr>conn_events := es\<rparr>) = shape_of s"
  "shape_of (s\<lparr>destroyed := d\<rparr>) = shape_of s" "shape_of (s\<lparr>connections := c\<rparr>) = shape_of s"
  by (simp_all add: shape_of_def)

lemma frame_idle:
  "frame [] s (cancelIdleTimer n s)" "frame [] s (refreshIdleTimer n s)"
proof -
  have set: "frame [] s (set_idle n st t)" if "frame [] s t" for s t st
    using that shape_idle[of n st t] unfolding frame_def by (simp add: set_idle_def)
  have can: "frame [] s (cancel_timer l i s)" for s l i
    by (auto simp: frame_def cancel_timer_def intro!: exI[of _ "[]"])
  have aft: "frame [] s (snd (run_after l t s))" for s l t
    by (auto simp: frame_def run_after_def intro!: exI[of _ "[]"])
  show c: "frame [] s (cancelIdleTimer n s)" for s
    by (auto simp: cancelIdleTimer_def Let_def set can split: option.splits)
  show "frame [] s (refreshIdleTimer n s)"
    using c[of s] aft
    by (auto simp: refreshIdleTimer_def Let_def run_after_def split: option.splits
        intro!: set frame_trans'[OF c[of s]])
qed


section \<open>Timers\<close>

definition is_idle_of :: "string \<Rightarrow> sobj \<Rightarrow> loop_ref \<Rightarrow> int \<Rightarrow> u64 \<Rightarrow> bool" where
  "is_idle_of n x l i g \<longleftrightarrow> o_loop x = l \<and> (\<exists>st. o_idle x = Some st \<and> idleTimerId st = i \<and> generation st = g)"

definition timer_inv :: "server \<Rightarrow> bool" where
  "timer_inv s \<longleftrightarrow> nextTimer s \<ge> 1 \<and>
     (\<forall>l i t. armed s l i = Some t \<longrightarrow> 1 \<le> i \<and> i < nextTimer s) \<and>
     (\<forall>n x st. objects s n = Some x \<longrightarrow> o_idle x = Some st \<longrightarrow> idleTimerId st \<noteq> 0 \<longrightarrow>
        1 \<le> idleTimerId st \<and> idleTimerId st < nextTimer s \<and>
        (armed s (o_loop x) (idleTimerId st) = None \<or> armed s (o_loop x) (idleTimerId st) = Some (IdleTimer n (generation st)))) \<and>
     (\<forall>l i n g x. armed s l i = Some (IdleTimer n g) \<longrightarrow> objects s n = Some x \<longrightarrow> is_idle_of n x l i g) \<and>
     (\<forall>l i n g. armed s l i = Some (IdleTimer n g) \<longrightarrow> (\<exists>k < nextConnId s. n = conn_name (srv_name s) k))"

definition drains :: "server \<Rightarrow> int set" where
  "drains s = {i. armed s Base_loop i = Some DrainTimer}"

lemma timer_ids: "timer_inv s \<Longrightarrow> armed s l i = Some t \<Longrightarrow> 1 \<le> i \<and> i < nextTimer s"
  unfolding timer_inv_def by blast

lemma timer_mine:
  "timer_inv s \<Longrightarrow> objects s n = Some x \<Longrightarrow> o_idle x = Some st \<Longrightarrow> idleTimerId st \<noteq> 0 \<Longrightarrow>
     1 \<le> idleTimerId st \<and> idleTimerId st < nextTimer s \<and>
     (armed s (o_loop x) (idleTimerId st) = None \<or> armed s (o_loop x) (idleTimerId st) = Some (IdleTimer n (generation st)))"
  unfolding timer_inv_def by blast

lemma timer_back: "timer_inv s \<Longrightarrow> armed s l i = Some (IdleTimer n g) \<Longrightarrow> objects s n = Some x \<Longrightarrow> is_idle_of n x l i g"
  unfolding timer_inv_def by blast

lemma timer_named: "timer_inv s \<Longrightarrow> armed s l i = Some (IdleTimer n g) \<Longrightarrow> \<exists>k < nextConnId s. n = conn_name (srv_name s) k"
  unfolding timer_inv_def by blast

lemma timer_pos: "timer_inv s \<Longrightarrow> 1 \<le> nextTimer s"
  unfolding timer_inv_def by blast

lemma timer_invI:
  assumes "1 \<le> nextTimer s" "\<And>l i t. armed s l i = Some t \<Longrightarrow> 1 \<le> i \<and> i < nextTimer s"
    "\<And>n x st. objects s n = Some x \<Longrightarrow> o_idle x = Some st \<Longrightarrow> idleTimerId st \<noteq> 0 \<Longrightarrow>
       1 \<le> idleTimerId st \<and> idleTimerId st < nextTimer s \<and>
       (armed s (o_loop x) (idleTimerId st) = None \<or> armed s (o_loop x) (idleTimerId st) = Some (IdleTimer n (generation st)))"
    "\<And>l i n g x. armed s l i = Some (IdleTimer n g) \<Longrightarrow> objects s n = Some x \<Longrightarrow> is_idle_of n x l i g"
    "\<And>l i n g. armed s l i = Some (IdleTimer n g) \<Longrightarrow> \<exists>k < nextConnId s. n = conn_name (srv_name s) k"
  shows "timer_inv s"
  unfolding timer_inv_def using assms by blast

text \<open>Cancelling the idle timer of a connection; an identifier of \<open>0\<close> is armed nowhere.\<close>

lemma idle_cancelled:
  assumes inv: "timer_inv s" and x: "objects s n = Some x" "o_idle x = Some st"
    and s'_def: "s' = set_idle n (st\<lparr>generation := g, idleTimerId := 0\<rparr>) (cancel_timer (o_loop x) (idleTimerId st) s)"
  shows "timer_inv s' \<and> drains s' = drains s \<and> (\<forall>l i h. armed s' l i \<noteq> Some (IdleTimer n h))"
proof -
  have arm: "armed s' l i = (if l = o_loop x \<and> i = idleTimerId st then None else armed s l i)" for l i
    by (simp add: s'_def set_idle_def cancel_timer_def)
  have obj: "objects s' m = (if m = n then Some (x\<lparr>o_idle := Some (st\<lparr>generation := g, idleTimerId := 0\<rparr>)\<rparr>) else objects s m)" for m
    by (simp add: s'_def set_idle_def cancel_timer_def x)
  have flds: "nextTimer s' = nextTimer s" "nextConnId s' = nextConnId s" "srv_name s' = srv_name s"
    by (simp_all add: s'_def set_idle_def cancel_timer_def)
  have gone: "armed s' l i \<noteq> Some (IdleTimer n h)" for l i h
    using timer_back[OF inv _ x(1), of l i h] x(2) by (auto simp: arm is_idle_of_def)
  have "armed s (o_loop x) (idleTimerId st) \<noteq> Some DrainTimer"
    using timer_mine[OF inv x] timer_ids[OF inv, of "o_loop x" "idleTimerId st" DrainTimer] by (cases "idleTimerId st = 0") auto
  then have "drains s' = drains s" by (auto simp: drains_def arm split: if_splits)
  moreover have "timer_inv s'"
  proof (rule timer_invI, unfold flds)
    fix l i m h y assume a: "armed s' l i = Some (IdleTimer m h)" "objects s' m = Some y"
    then have "m \<noteq> n" using gone by blast
    then have "armed s l i = Some (IdleTimer m h)" "objects s m = Some y" using a by (auto simp: arm obj split: if_splits)
    then show "is_idle_of m y l i h" by (rule timer_back[OF inv])
  next
    fix m y st' assume a: "objects s' m = Some y" "o_idle y = Some st'" "idleTimerId st' \<noteq> 0"
    then have "objects s m = Some y" by (auto simp: obj split: if_splits)
    from timer_mine[OF inv this a(2,3)] show "1 \<le> idleTimerId st' \<and> idleTimerId st' < nextTimer s \<and>
      (armed s' (o_loop y) (idleTimerId st') = None \<or> armed s' (o_loop y) (idleTimerId st') = Some (IdleTimer m (generation st')))"
      by (simp add: arm)
  next
    show "1 \<le> nextTimer s" by (rule timer_pos[OF inv])
  next
    fix l i t assume "armed s' l i = Some t"
    then show "1 \<le> i \<and> i < nextTimer s" using timer_ids[OF inv, of l i t] by (simp add: arm split: if_splits)
  next
    fix l i m h assume "armed s' l i = Some (IdleTimer m h)"
    then show "\<exists>k < nextConnId s. m = conn_name (srv_name s) k" using timer_named[OF inv, of l i m h] by (simp add: arm split: if_splits)
  qed
  ultimately show ?thesis using gone by blast
qed


lemma cancelIdleTimer_eq:
  assumes "timer_inv s" "objects s n = Some x" "o_idle x = Some st"
  shows "cancelIdleTimer n s =
    set_idle n (st\<lparr>generation := generation st + 1, idleTimerId := 0\<rparr>) (cancel_timer (o_loop x) (idleTimerId st) s)"
proof (cases "idleTimerId st = 0")
  case True
  then have "armed s (o_loop x) 0 = None"
    using timer_ids[OF assms(1), of "o_loop x" 0] by (cases "armed s (o_loop x) 0") auto
  then have "cancel_timer (o_loop x) 0 s = s" by (simp add: cancel_timer_def fun_upd_idem)
  then show ?thesis using True assms(2,3) by (cases st) (simp add: cancelIdleTimer_def timer_id_valid_def Let_def)
next
  case False
  then show ?thesis using assms(2,3) by (simp add: cancelIdleTimer_def timer_id_valid_def Let_def)
qed

text \<open>Arming the idle timer of a connection that has none.\<close>

lemma idle_armed:
  assumes inv: "timer_inv s" and x: "objects s n = Some x" "o_idle x = Some st"
    and none: "\<forall>l i h. armed s l i \<noteq> Some (IdleTimer n h)" and name: "\<exists>k < nextConnId s. n = conn_name (srv_name s) k"
    and s'_def: "s' = set_idle n (st\<lparr>idleTimerId := nextTimer s\<rparr>) (snd (run_after (o_loop x) (IdleTimer n (generation st)) s))"
  shows "timer_inv s' \<and> drains s' = drains s"
proof -
  have arm: "armed s' l i = (if l = o_loop x \<and> i = nextTimer s then Some (IdleTimer n (generation st)) else armed s l i)" for l i
    by (simp add: s'_def set_idle_def run_after_def)
  have obj: "objects s' m = (if m = n then Some (x\<lparr>o_idle := Some (st\<lparr>idleTimerId := nextTimer s\<rparr>)\<rparr>) else objects s m)" for m
    by (simp add: s'_def set_idle_def run_after_def x)
  have flds: "nextTimer s' = nextTimer s + 1" "nextConnId s' = nextConnId s" "srv_name s' = srv_name s"
    by (simp_all add: s'_def set_idle_def run_after_def)
  have fresh: "armed s l (nextTimer s) = None" for l
    using timer_ids[OF inv, of l "nextTimer s"] by (cases "armed s l (nextTimer s)") auto
  have one: "nextTimer s \<ge> 1" using inv by (simp add: timer_inv_def)
  have "drains s' = drains s" using fresh by (auto simp: drains_def arm split: if_splits)
  moreover have "timer_inv s'"
  proof (rule timer_invI, unfold flds)
    fix l i m h y assume a: "armed s' l i = Some (IdleTimer m h)" "objects s' m = Some y"
    show "is_idle_of m y l i h"
    proof (cases "m = n")
      case True
      then have "l = o_loop x" "i = nextTimer s" "h = generation st" using a(1) none by (auto simp: arm split: if_splits)
      then show ?thesis using a(2) True by (auto simp: obj is_idle_of_def)
    next
      case False
      then have "armed s l i = Some (IdleTimer m h)" "objects s m = Some y" using a by (auto simp: arm obj split: if_splits)
      then show ?thesis by (rule timer_back[OF inv])
    qed
  next
    fix m y st' assume a: "objects s' m = Some y" "o_idle y = Some st'" "idleTimerId st' \<noteq> 0"
    show "1 \<le> idleTimerId st' \<and> idleTimerId st' < nextTimer s + 1 \<and>
      (armed s' (o_loop y) (idleTimerId st') = None \<or> armed s' (o_loop y) (idleTimerId st') = Some (IdleTimer m (generation st')))"
    proof (cases "m = n")
      case True
      then show ?thesis using a one by (auto simp: obj arm)
    next
      case False
      then have "objects s m = Some y" using a(1) by (simp add: obj)
      from timer_mine[OF inv this a(2,3)] show ?thesis by (auto simp: arm)
    qed
  next
    show "1 \<le> nextTimer s + 1" using one by simp
  next
    fix l i t assume "armed s' l i = Some t"
    then show "1 \<le> i \<and> i < nextTimer s + 1" using timer_ids[OF inv, of l i t] one by (auto simp: arm split: if_splits)
  next
    fix l i m h assume "armed s' l i = Some (IdleTimer m h)"
    then show "\<exists>k < nextConnId s. m = conn_name (srv_name s) k"
      using timer_named[OF inv, of l i m h] name by (auto simp: arm split: if_splits)
  qed
  ultimately show ?thesis by blast
qed


text \<open>A step keeps the timers in order and leaves the drain timer alone. A connection's name is one the server has given
  out.\<close>

definition named :: "string \<Rightarrow> server \<Rightarrow> bool" where
  "named n s \<longleftrightarrow> (\<exists>k < nextConnId s. n = conn_name (srv_name s) k)"

definition keeps_timers :: "server \<Rightarrow> server \<Rightarrow> bool" where
  "keeps_timers s s' \<longleftrightarrow> (timer_inv s \<longrightarrow> timer_inv s' \<and> drains s' = drains s)"

lemma keeps_refl [simp]: "keeps_timers s s"
  by (simp add: keeps_timers_def)

lemma keeps_trans: "keeps_timers s t \<Longrightarrow> keeps_timers t u \<Longrightarrow> keeps_timers s u"
  by (simp add: keeps_timers_def)

lemma keeps_same:
  assumes "armed s' = armed s" "nextTimer s' = nextTimer s" "nextConnId s' = nextConnId s" "srv_name s' = srv_name s"
    "\<And>n y. objects s' n = Some y \<Longrightarrow> \<exists>x. objects s n = Some x \<and> o_loop y = o_loop x \<and> o_idle y = o_idle x"
  shows "keeps_timers s s'"
proof -
  have "timer_inv s'" if inv: "timer_inv s"
  proof (rule timer_invI, unfold assms(1-4))
    fix n y st assume a: "objects s' n = Some y" "o_idle y = Some st" "idleTimerId st \<noteq> 0"
    then obtain x where x: "objects s n = Some x" "o_loop y = o_loop x" "o_idle x = Some st" using assms(5) by metis
    from timer_mine[OF inv x(1,3) a(3)] x(2) show "1 \<le> idleTimerId st \<and> idleTimerId st < nextTimer s \<and>
      (armed s (o_loop y) (idleTimerId st) = None \<or> armed s (o_loop y) (idleTimerId st) = Some (IdleTimer n (generation st)))"
      by simp
  next
    fix l i n g y assume a: "armed s l i = Some (IdleTimer n g)" "objects s' n = Some y"
    then obtain x where x: "objects s n = Some x" "o_loop y = o_loop x" "o_idle y = o_idle x" using assms(5) by metis
    from timer_back[OF inv a(1) x(1)] x(2,3) show "is_idle_of n y l i g" by (simp add: is_idle_of_def)
  qed (use timer_ids[OF inv] timer_named[OF inv] timer_pos[OF inv] in blast)+
  then show ?thesis by (simp add: keeps_timers_def drains_def assms(1))
qed

lemma keeps_updates [simp]:
  "keeps_timers s (s\<lparr>queues := q\<rparr>)" "keeps_timers s (s\<lparr>conn_events := es\<rparr>)" "keeps_timers s (s\<lparr>destroyed := d\<rparr>)"
  "keeps_timers s (s\<lparr>connections := c\<rparr>)" "keeps_timers s (s\<lparr>draining := b\<rparr>)" "keeps_timers s (s\<lparr>threadPool := p\<rparr>)"
  "keeps_timers s (s\<lparr>drainTimerId := i\<rparr>)" "keeps_timers s (s\<lparr>stopped := b\<rparr>)" "keeps_timers s (s\<lparr>srv_acceptor := ac\<rparr>)"
  "keeps_timers s (s\<lparr>objects := (objects s)(n := None)\<rparr>)"
  by (rule keeps_same; simp split: if_splits)+

lemma keeps_cancelIdle: "keeps_timers s (cancelIdleTimer n s)"
proof (cases "objects s n")
  case None
  then show ?thesis by (simp add: cancelIdleTimer_def)
next
  case (Some x)
  show ?thesis
  proof (cases "o_idle x")
    case None
    then show ?thesis using Some by (simp add: cancelIdleTimer_def)
  next
    case st: (Some st)
    show ?thesis unfolding keeps_timers_def
      using idle_cancelled[OF _ Some st refl] cancelIdleTimer_eq[OF _ Some st] by simp
  qed
qed

lemma keeps_refreshIdle:
  assumes "named n s"
  shows "keeps_timers s (refreshIdleTimer n s)"
proof (cases "objects s n")
  case None
  then show ?thesis by (simp add: refreshIdleTimer_def cancelIdleTimer_def)
next
  case (Some x)
  show ?thesis
  proof (cases "o_idle x")
    case None
    then show ?thesis using Some by (simp add: refreshIdleTimer_def cancelIdleTimer_def)
  next
    case st: (Some st)
    let ?st = "st\<lparr>generation := generation st + 1, idleTimerId := 0\<rparr>"
    let ?s = "cancelIdleTimer n s"
    let ?x = "x\<lparr>o_idle := Some ?st\<rparr>"
    show ?thesis unfolding keeps_timers_def
    proof (rule impI)
      assume inv: "timer_inv s"
      note eq = cancelIdleTimer_eq[OF inv Some st]
      note c = idle_cancelled[OF inv Some st eq]
      have x: "objects ?s n = Some ?x" using Some by (simp add: eq set_idle_def cancel_timer_def)
      have nm: "\<exists>k < nextConnId ?s. n = conn_name (srv_name ?s) k"
        using assms by (simp add: eq set_idle_def cancel_timer_def named_def)
      have "refreshIdleTimer n s = set_idle n (?st\<lparr>idleTimerId := nextTimer ?s\<rparr>) (snd (run_after (o_loop ?x) (IdleTimer n (generation ?st)) ?s))"
        using x by (simp add: refreshIdleTimer_def Let_def run_after_def)
      from idle_armed[OF _ x _ _ nm this] c show "timer_inv (refreshIdleTimer n s) \<and> drains (refreshIdleTimer n s) = drains s"
        by simp
    qed
  qed
qed


section \<open>The effect of running code on a connection\<close>

definition effect :: "string list \<Rightarrow> server \<Rightarrow> server \<Rightarrow> bool" where
  "effect D s s' \<longleftrightarrow> frame D s s' \<and> keeps_timers s s'"

lemma effect_refl [simp]: "effect [] s s"
  by (simp add: effect_def)

lemma effect_trans: "effect D s t \<Longrightarrow> effect E t u \<Longrightarrow> effect (D @ E) s u"
  unfolding effect_def using frame_trans keeps_trans by blast

lemma effect_trans': "effect [] s t \<Longrightarrow> effect E t u \<Longrightarrow> effect E s u"
  using effect_trans[of "[]" s t E u] by simp

lemma frame_named: "frame D s s' \<Longrightarrow> named n s' = named n s"
  using core_fields(7,8)[of s' s] by (simp add: frame_def named_def)

lemma effect_named: "effect D s s' \<Longrightarrow> named n s' = named n s"
  by (auto simp: effect_def dest: frame_named)

lemma effect_events: "effect [] s (s\<lparr>conn_events := es\<rparr>)"
  by (auto simp: effect_def frame_def intro!: exI[of _ "[]"])

lemma effect_post: "effect [] s (post_base (FRemove n) s)"
  by (auto simp: effect_def frame_def post_base_def intro!: exI[of _ "[n]"])

lemma effect_idle: "effect [] s (cancelIdleTimer n s)" "named n s \<Longrightarrow> effect [] s (refreshIdleTimer n s)"
  using frame_idle keeps_cancelIdle keeps_refreshIdle by (simp_all add: effect_def)

lemma effect_wrapper: "named n s \<Longrightarrow> effect [] s (wrapper n nt s)"
  by (induction n nt s rule: wrapper.induct) (auto intro: effect_idle effect_trans'[OF effect_idle(1) effect_post]
      effect_trans'[OF effect_idle(1) effect_events] effect_trans'[OF effect_idle(2) effect_events])

lemma effect_wrappers: "named n s \<Longrightarrow> effect [] s (fold (wrapper n) nts s)"
proof (induction nts arbitrary: s)
  case (Cons nt nts)
  have "effect [] s (wrapper n nt s)" by (rule effect_wrapper[OF Cons.prems])
  moreover from this have "named n (wrapper n nt s)" using Cons.prems effect_named by blast
  ultimately show ?case using Cons.IH effect_trans' by (metis fold_simps(2))
qed simp

lemma effect_object:
  assumes "objects s n = Some x" "o_loop y = o_loop x" "o_fd y = o_fd x" "o_idle y = o_idle x"
  shows "effect [] s (s\<lparr>objects := (objects s)(n \<mapsto> y)\<rparr>)"
proof -
  have "shape_of (s\<lparr>objects := (objects s)(n \<mapsto> y)\<rparr>) = shape_of s"
    using assms by (auto simp: shape_of_def fun_eq_iff)
  moreover have "keeps_timers s (s\<lparr>objects := (objects s)(n \<mapsto> y)\<rparr>)"
    by (rule keeps_same) (use assms in \<open>auto split: if_splits\<close>)
  ultimately show ?thesis by (auto simp: effect_def frame_def intro!: exI[of _ "[]"])
qed

lemma effect_conn_op:
  assumes "conn_op n f s = Inr s'" "named n s"
  shows "effect [] s s'"
proof -
  obtain x c where x: "objects s n = Some x" and
    s': "s' = fold (wrapper n) (drop (length (called (o_conn x))) (called c)) (s\<lparr>objects := (objects s)(n \<mapsto> x\<lparr>o_conn := c\<rparr>)\<rparr>)"
    using assms(1) by (auto simp: conn_op_def bind_res_Inr split: option.splits)
  have "effect [] s (s\<lparr>objects := (objects s)(n \<mapsto> x\<lparr>o_conn := c\<rparr>)\<rparr>)" by (rule effect_object[OF x]) simp_all
  moreover from this have "named n (s\<lparr>objects := (objects s)(n \<mapsto> x\<lparr>o_conn := c\<rparr>)\<rparr>)" using assms(2) effect_named by blast
  ultimately show ?thesis using effect_wrappers effect_trans' s' by blast
qed

lemma effect_destroyed: "effect [n] s (s\<lparr>destroyed := destroyed s @ [n]\<rparr>)"
  by (auto simp: effect_def frame_def intro!: exI[of _ "[]"])

lemma effect_connect_destroyed: "connect_destroyed env n s = Inr s' \<Longrightarrow> named n s \<Longrightarrow> effect [n] s s'"
  by (auto simp: connect_destroyed_def bind_res_Inr intro: effect_trans'[OF effect_conn_op effect_destroyed])

lemma effect_force_note: "effect [] s (note_force_closed n s)"
  by (auto simp: note_force_closed_def intro: effect_events split: option.split)

text \<open>The connections a functor acts on.\<close>

definition touched :: "sfun \<Rightarrow> string list" where
  "touched f = doom f @ establishes f"

lemma effect_functor:
  assumes "conn_functor env f s = Inr s'" "\<forall>n \<in> set (touched f). named n s"
  shows "effect (doom f) s s'"
proof (cases f)
  case (FEstablish n t)
  then show ?thesis using assms by (simp add: touched_def) (rule effect_conn_op)
next
  case (FDestroy n)
  then show ?thesis using assms by (simp add: touched_def) (rule effect_connect_destroyed)
next
  case (FForceClose n)
  then obtain s1 s2 where s1: "conn_op n (\<lambda>c. Inr (set_callback (SClose False) c)) s = Inr s1"
    and s2: "conn_op n (forceClose (user_exec env n) True) (note_force_closed n s1) = Inr s2"
    and s3: "connect_destroyed env n s2 = Inr s'" using assms(1) by (auto simp: bind_res_Inr Let_def)
  have n: "named n s" using assms(2) FForceClose by (simp add: touched_def)
  have e1: "effect [] s s1" by (rule effect_conn_op[OF s1 n])
  have e2: "effect [] s (note_force_closed n s1)" by (rule effect_trans'[OF e1 effect_force_note])
  have e3: "effect [] s s2" by (rule effect_trans'[OF e2 effect_conn_op[OF s2]]) (use e2 effect_named n in blast)
  show ?thesis using effect_trans'[OF e3 effect_connect_destroyed[OF s3]] e3 effect_named n FForceClose by simp
next
  case (FDtor n)
  then obtain s1 where s1: "conn_op n (\<lambda>c. Inr (set_callback (SClose False) c)) s = Inr s1"
    and s3: "connect_destroyed env n s1 = Inr s'" using assms(1) by (auto simp: bind_res_Inr)
  have n: "named n s" using assms(2) FDtor by (simp add: touched_def)
  have e1: "effect [] s s1" by (rule effect_conn_op[OF s1 n])
  show ?thesis using effect_trans'[OF e1 effect_connect_destroyed[OF s3]] e1 effect_named n FDtor by simp
next
  case (FRemove n)
  then show ?thesis using assms(1) by simp
qed


section \<open>Descriptors\<close>

definition acceptor_fds :: "acceptor \<Rightarrow> int set" where
  "acceptor_fds a = (if isValid (acceptSocket a) then {acceptSocket a} else {})"

definition object_fds :: "shape \<Rightarrow> int set" where
  "object_fds sh = {fd. \<exists>n l. sh n = Some (l, fd)}"

definition fd_ok :: "int set \<Rightarrow> int set \<Rightarrow> bool \<Rightarrow> shape \<Rightarrow> int set \<Rightarrow> bool" where
  "fd_ok acc opn bad sh ab \<longleftrightarrow>
     \<not> bad \<and> opn = acc \<union> object_fds sh \<union> ab \<and> acc \<inter> object_fds sh = {} \<and> acc \<inter> ab = {} \<and> object_fds sh \<inter> ab = {} \<and>
     (\<forall>fd \<in> opn. isValid fd) \<and> (\<forall>n m l k fd. sh n = Some (l, fd) \<longrightarrow> sh m = Some (k, fd) \<longrightarrow> n = m)"

section \<open>The invariant of the objects\<close>

definition placed :: "loop_ref list \<Rightarrow> string set \<Rightarrow> shape \<Rightarrow> (loop_ref \<Rightarrow> sfun list) \<Rightarrow> bool" where
  "placed ls L sh q \<longleftrightarrow>
     (\<forall>l. l \<noteq> Base_loop \<longrightarrow> l \<notin> set ls \<longrightarrow> q l = []) \<and>
     (\<forall>n \<in> L. \<forall>l fd. sh n = Some (l, fd) \<longrightarrow> l = Base_loop \<or> l \<in> set ls)"

definition base_inv :: "string set \<Rightarrow> server \<Rightarrow> bool" where
  "base_inv L s \<longleftrightarrow>
     own L (shape_of s) (queues s) (destroyed s) \<and> placed (loops (threadPool s)) L (shape_of s) (queues s) \<and>
     (\<forall>n. shape_of s n \<noteq> None \<or> n \<in> set (destroyed s) \<longrightarrow> named n s) \<and> timer_inv s \<and>
     fd_ok (acceptor_fds (srv_acceptor s)) (openFds s) (badClose s) (shape_of s) (abandoned s) \<and> pool_inv (threadPool s)"

definition still :: "server \<Rightarrow> server \<Rightarrow> bool" where
  "still s s' \<longleftrightarrow> core s' = core s \<and> drains s' = drains s"

lemma still_refl [simp]: "still s s"
  by (simp add: still_def)

lemma still_trans: "still s t \<Longrightarrow> still t u \<Longrightarrow> still s u"
  by (simp add: still_def)

lemma queued_named:
  assumes "base_inv L s" "f \<in> set (queues s l)" "n \<in> set (touched f)"
  shows "named n s"
proof -
  have "queue_ok L (shape_of s) (set (destroyed s)) l (queues s l)"
    using assms(1) ownD unfolding base_inv_def by blast
  moreover have "n \<in> set (doomed (queues s l)) \<or> n \<in> set (establishing (queues s l))"
    using assms(2,3) by (auto simp: doomed_def establishing_def touched_def)
  ultimately have "map_option fst (shape_of s n) = Some l" unfolding queue_ok_def by blast
  then show ?thesis using assms(1) unfolding base_inv_def by (metis option.simps(3) option.simps(8))
qed

lemma effect_still: "effect D s s' \<Longrightarrow> timer_inv s \<Longrightarrow> still s s'"
  by (simp add: effect_def frame_def keeps_timers_def still_def)

text \<open>Running code on a connection that stays where it is.\<close>

lemma base_effect:
  assumes inv: "base_inv L s" and eff: "effect [] s s'"
  shows "base_inv L s' \<and> still s s'"
proof -
  obtain ns where q: "queues s' = (queues s)(Base_loop := queues s Base_loop @ map FRemove ns)"
    and fr: "core s' = core s" "shape_of s' = shape_of s" "destroyed s' = destroyed s"
    using eff by (auto simp: effect_def frame_def)
  note c = core_fields[OF fr(1)]
  have "timer_inv s'" using inv eff by (simp add: base_inv_def effect_def keeps_timers_def)
  moreover have "own L (shape_of s') (queues s') (destroyed s')"
    using inv own_post unfolding base_inv_def q fr(2,3) by blast
  moreover have "placed (loops (threadPool s')) L (shape_of s') (queues s')"
    using inv by (simp add: base_inv_def placed_def q fr c)
  ultimately show ?thesis using inv effect_still[OF eff] effect_named[OF eff] by (simp add: base_inv_def fr c)
qed

text \<open>Running a functor of a worker's queue.\<close>

lemma base_functor:
  assumes inv: "base_inv L (s\<lparr>queues := (queues s)(l := f # fs)\<rparr>)" and l: "l \<noteq> Base_loop"
    and run: "conn_functor env f s = Inr s'"
  shows "base_inv L (s'\<lparr>queues := (queues s')(l := fs)\<rparr>) \<and> still s s' \<and> queues s' = (queues s)(Base_loop := queues s' Base_loop)"
proof -
  have nm: "\<forall>n \<in> set (touched f). named n s"
    using queued_named[OF inv, of f l] by (simp add: named_def)
  note eff = effect_functor[OF run nm]
  obtain ns where q: "queues s' = (queues s)(Base_loop := queues s Base_loop @ map FRemove ns)"
    and fr: "core s' = core s" "shape_of s' = shape_of s" "destroyed s' = destroyed s @ doom f"
    using eff by (auto simp: effect_def frame_def)
  note c = core_fields[OF fr(1)]
  have tinv: "timer_inv s" using inv keeps_updates(1)[of "s\<lparr>queues := (queues s)(l := f # fs)\<rparr>" "queues s"]
    by (simp add: base_inv_def keeps_timers_def)
  then have tinv': "timer_inv s'" using eff by (simp add: effect_def keeps_timers_def)
  have "own L (shape_of s) ((queues s)(l := fs)) (destroyed s @ doom f)"
    using own_run inv by (simp add: base_inv_def)
  from own_post[OF this, of ns] have "own L (shape_of s) ((queues s')(l := fs)) (destroyed s @ doom f)"
    using l by (simp add: q fun_upd_twist)
  moreover have "placed (loops (threadPool s)) L (shape_of s) ((queues s')(l := fs))"
    using inv l by (auto simp: base_inv_def placed_def q split: if_splits)
  moreover have "\<forall>n. shape_of s n \<noteq> None \<or> n \<in> set (destroyed s @ doom f) \<longrightarrow> named n s"
    using inv nm by (auto simp: base_inv_def named_def touched_def)
  moreover have "timer_inv (s'\<lparr>queues := (queues s')(l := fs)\<rparr>)" using tinv' keeps_updates(1) unfolding keeps_timers_def by blast
  moreover have "named n (s'\<lparr>queues := (queues s')(l := fs)\<rparr>) = named n s" for n using effect_named[OF eff, of n] by (simp add: named_def)
  ultimately show ?thesis using inv effect_still[OF eff tinv] by (simp add: base_inv_def fr c q)
qed


lemma queue_same [simp]: "s\<lparr>queues := (queues s)(l := queues s l)\<rparr> = s"
  by simp

lemma base_functors:
  "base_inv L (s\<lparr>queues := (queues s)(l := fs)\<rparr>) \<Longrightarrow> l \<noteq> Base_loop \<Longrightarrow> conn_functors env fs s = Inr s' \<Longrightarrow>
     base_inv L (s'\<lparr>queues := (queues s')(l := [])\<rparr>) \<and> still s s' \<and> queues s' = (queues s)(Base_loop := queues s' Base_loop)"
proof (induction fs arbitrary: s)
  case (Cons f fs)
  then obtain s1 where s1: "conn_functor env f s = Inr s1" "conn_functors env fs s1 = Inr s'" by (auto simp: bind_res_Inr)
  note b = base_functor[OF Cons.prems(1,2) s1(1)]
  have "queues s' = (queues s1)(Base_loop := queues s' Base_loop)" using Cons.IH[OF _ Cons.prems(2) s1(2)] b by blast
  also have "\<dots> = (queues s)(Base_loop := queues s' Base_loop)" using b by (metis fun_upd_upd)
  finally show ?case using Cons.IH[OF _ Cons.prems(2) s1(2)] b still_trans by blast
qed auto

text \<open>The worker's loop is gone with its timers.\<close>

lemma clear_timers:
  assumes "base_inv L s" "l \<noteq> Base_loop"
  shows "base_inv L (s\<lparr>armed := (armed s)(l := Map.empty)\<rparr>) \<and> still s (s\<lparr>armed := (armed s)(l := Map.empty)\<rparr>)"
proof -
  let ?s = "s\<lparr>armed := (armed s)(l := Map.empty)\<rparr>"
  have inv: "timer_inv s" using assms(1) by (simp add: base_inv_def)
  have "timer_inv ?s"
  proof (rule timer_invI)
    fix k i n g x assume a: "armed ?s k i = Some (IdleTimer n g)" "objects ?s n = Some x"
    then show "is_idle_of n x k i g" using timer_back[OF inv, of k i n g x] by (auto split: if_splits)
  next
    fix n x st assume a: "objects ?s n = Some x" "o_idle x = Some st" "idleTimerId st \<noteq> 0"
    then show "1 \<le> idleTimerId st \<and> idleTimerId st < nextTimer ?s \<and>
       (armed ?s (o_loop x) (idleTimerId st) = None \<or> armed ?s (o_loop x) (idleTimerId st) = Some (IdleTimer n (generation st)))"
      using timer_mine[OF inv, of n x st] by auto
  qed (use timer_ids[OF inv] timer_named[OF inv] timer_pos[OF inv] in \<open>auto split: if_splits\<close>)
  moreover have "named n ?s = named n s" for n by (simp add: named_def)
  moreover have "still s ?s" using assms(2) by (simp add: still_def drains_def)
  ultimately show ?thesis using assms(1) by (simp add: base_inv_def)
qed

lemma base_finish:
  "base_inv L s \<Longrightarrow> Base_loop \<notin> set ls \<Longrightarrow> finish_workers env ls s = Inr s' \<Longrightarrow>
     base_inv L s' \<and> still s s' \<and> (\<forall>l. l \<noteq> Base_loop \<longrightarrow> (l \<in> set ls \<or> queues s l = []) \<longrightarrow> queues s' l = [])"
proof (induction ls arbitrary: s)
  case (Cons l ls)
  let ?s = "s\<lparr>queues := (queues s)(l := [])\<rparr>"
  obtain s1 where s1: "conn_functors env (queues s l) ?s = Inr s1"
    "finish_workers env ls (s1\<lparr>armed := (armed s1)(l := Map.empty)\<rparr>) = Inr s'" using Cons.prems(3) by (auto simp: bind_res_Inr)
  have l: "l \<noteq> Base_loop" using Cons.prems(2) by auto
  have "base_inv L (?s\<lparr>queues := (queues ?s)(l := queues s l)\<rparr>)" using Cons.prems(1) by simp
  note b = base_functors[OF this l s1(1)]
  then have qq: "queues s1 = (queues ?s)(Base_loop := queues s1 Base_loop)" by blast
  have "queues s1 l = ((queues ?s)(Base_loop := queues s1 Base_loop)) l" by (rule fun_cong[OF qq])
  then have q: "queues s1 l = []" using l by simp
  have "base_inv L s1" using b q by (metis queue_same)
  note c = clear_timers[OF this l]
  have st: "still s s1" using b by (simp add: still_def drains_def)
  have ih: "base_inv L s' \<and> still (s1\<lparr>armed := (armed s1)(l := Map.empty)\<rparr>) s' \<and>
      (\<forall>k. k \<noteq> Base_loop \<longrightarrow> (k \<in> set ls \<or> queues s1 k = []) \<longrightarrow> queues s' k = [])"
    using Cons.IH[OF conjunct1[OF c] _ s1(2)] Cons.prems(2) by simp
  have "queues s1 k = []" if "k \<noteq> Base_loop" "k = l \<or> queues s k = []" for k
    using fun_cong[OF qq, of k] that by (auto split: if_splits)
  moreover have "still s s'" using st c ih still_trans by blast
  ultimately show ?case using ih by (metis set_ConsD)
qed simp

lemma no_base_loops: "pool_inv p \<Longrightarrow> Base_loop \<notin> set (loops p)"
  by (auto simp: pool_inv_def)

lemma stop_poolE:
  assumes "stop_pool env s = Inr s'"
  obtains s1 p where "finish_workers env (loops (threadPool s)) s = Inr s1" "pool_stop True (threadPool s1) = (Inr (), p)"
    "s' = s1\<lparr>threadPool := p\<rparr>"
proof -
  obtain s1 where s1: "finish_workers env (loops (threadPool s)) s = Inr s1"
    "(case pool_stop True (threadPool s1) of (Inl e, _) \<Rightarrow> Inl e | (Inr _, p) \<Rightarrow> Inr (s1\<lparr>threadPool := p\<rparr>)) = Inr s'"
    using assms by (auto simp: stop_pool_def bind_res_Inr)
  obtain r p where "pool_stop True (threadPool s1) = (r, p)" by (metis prod.exhaust)
  then show thesis using that s1 by (cases r) auto
qed

lemma base_stop_pool:
  assumes inv: "base_inv {} s" and run: "stop_pool env s = Inr s'"
  shows "base_inv {} s' \<and> core s' = core (s\<lparr>threadPool := threadPool s'\<rparr>) \<and> drains s' = drains s \<and>
    p_state (threadPool s') = PStopped \<and> loops (threadPool s') = []"
proof -
  obtain s1 p where s1: "finish_workers env (loops (threadPool s)) s = Inr s1"
    and p: "pool_stop True (threadPool s1) = (Inr (), p)" and s': "s' = s1\<lparr>threadPool := p\<rparr>"
    by (rule stop_poolE[OF run])
  have pinv: "pool_inv (threadPool s)" using inv by (simp add: base_inv_def)
  note f = base_finish[OF inv no_base_loops[OF pinv] s1]
  have b1: "base_inv {} s1" using f by blast
  have tp: "threadPool s1 = threadPool s" using f core_fields(10)[of s1 s] unfolding still_def by blast
  have clean: "stopped_clean (threadPool s) p" "next_loop p = 0" "numThreads (threadPool s) \<ge> 0"
    using pool_stop_clean[OF pinv] p tp pinv[unfolded pool_inv_def] by simp_all
  have q: "queues s1 l = []" if "l \<noteq> Base_loop" for l
  proof -
    have "l \<in> set (loops (threadPool s)) \<or> queues s l = []"
      using inv that unfolding base_inv_def placed_def by blast
    then show ?thesis using f that by blast
  qed
  have "placed (loops p) {} (shape_of s1) (queues s1)" using q by (simp add: placed_def)
  moreover have "pool_inv p" using clean stopped_clean_inv by blast
  moreover have "timer_inv s'" using b1 keeps_updates(6)[of s1 p] by (simp add: base_inv_def keeps_timers_def s')
  moreover have "named n s' = named n s1" "shape_of s' = shape_of s1" for n by (simp_all add: s' named_def shape_of_def)
  ultimately have "base_inv {} s'" using b1 by (simp add: base_inv_def s')
  moreover have "core s' = core (s\<lparr>threadPool := p\<rparr>)" using f by (simp add: still_def core_pool s')
  moreover have "drains s' = drains s" using f by (simp add: still_def drains_def s')
  ultimately show ?thesis using clean(1) by (simp add: s' stopped_clean_def)
qed

text \<open>Handing a connection that has left the map to its loop.\<close>

definition retires :: "(string \<Rightarrow> sfun) \<Rightarrow> bool" where
  "retires F \<longleftrightarrow> (\<forall>n. doom (F n) = [n] \<and> establishes (F n) = [] \<and> \<not> removes (F n))"

lemma retires_functors [simp]: "retires FDestroy" "retires FForceClose" "retires FDtor"
  by (simp_all add: retires_def)

lemma base_retire:
  assumes inv: "base_inv (insert n L) s" and n: "n \<notin> L" and F: "retires F"
    and run: "run_in_loop env (owner_of s n) (F n) s = Inr s'"
  shows "base_inv L s' \<and> still s s'"
proof -
  have o: "own (insert n L) (shape_of s) (queues s) (destroyed s)" and pl: "placed (loops (threadPool s)) (insert n L) (shape_of s) (queues s)"
    and tinv: "timer_inv s" using inv by (simp_all add: base_inv_def)
  have "shape_of s n \<noteq> None" using ownD[OF o] by (auto simp: covered_def)
  then obtain l fd where sh: "shape_of s n = Some (l, fd)" by auto
  then have l: "owner_of s n = l" by (auto simp: shape_of_def owner_of_def)
  have nm: "named n s" using inv sh by (simp add: base_inv_def)
  show ?thesis
  proof (cases "l = Base_loop")
    case True
    then have r: "conn_functor env (F n) s = Inr s'" using run l by (simp add: run_in_loop_def)
    have "effect [n] s s'" using effect_functor[OF r] F nm by (simp add: retires_def touched_def)
    then obtain ns where q: "queues s' = (queues s)(Base_loop := queues s Base_loop @ map FRemove ns)"
      and fr: "core s' = core s" "shape_of s' = shape_of s" "destroyed s' = destroyed s @ [n]" and t: "timer_inv s'"
      and st: "still s s'" and nms: "\<And>m. named m s' = named m s"
      using tinv effect_still effect_named by (fastforce simp: effect_def frame_def keeps_timers_def)
    note c = core_fields[OF fr(1)]
    have "own L (shape_of s') (queues s') (destroyed s')"
      using own_post[OF own_retire_now[OF o n, of fd]] sh True by (simp add: q fr)
    moreover have "placed (loops (threadPool s')) L (shape_of s') (queues s')"
      using pl by (simp add: placed_def q fr c)
    ultimately show ?thesis using inv t st nms nm by (auto simp: base_inv_def fr c)
  next
    case False
    then have s': "s' = s\<lparr>queues := (queues s)(l := queues s l @ [F n])\<rparr>" using run l by (simp add: run_in_loop_def)
    have "own L (shape_of s') (queues s') (destroyed s')"
      using own_retire_later[OF o n sh False] F by (simp add: s' retires_def)
    moreover have "l \<in> set (loops (threadPool s))" using pl sh False unfolding placed_def by blast
    then have "placed (loops (threadPool s')) L (shape_of s') (queues s')"
      using pl by (auto simp: placed_def s')
    moreover have "timer_inv s'" using tinv keeps_updates(1) s' unfolding keeps_timers_def by blast
    moreover have "still s s'" by (simp add: s' still_def drains_def)
    moreover have "named m s' = named m s" for m by (simp add: s' named_def)
    ultimately show ?thesis using inv by (simp add: base_inv_def s')
  qed
qed

lemma base_for:
  "base_inv (set ns) s \<Longrightarrow> distinct ns \<Longrightarrow> retires F \<Longrightarrow> for_connections env F ns s = Inr s' \<Longrightarrow> base_inv {} s' \<and> still s s'"
proof (induction ns arbitrary: s)
  case (Cons n ns)
  then obtain s1 where s1: "run_in_loop env (owner_of s n) (F n) s = Inr s1" "for_connections env F ns s1 = Inr s'"
    by (auto simp: bind_res_Inr)
  have "base_inv (set ns) s1 \<and> still s s1"
    by (rule base_retire[where n = n and F = F, OF _ _ Cons.prems(3) s1(1)]) (use Cons.prems in auto)
  then show ?case using Cons.IH[OF _ _ Cons.prems(3) s1(2)] Cons.prems(2) still_trans by auto
qed simp


section \<open>The invariant of the server\<close>

definition life_inv :: "server \<Rightarrow> bool" where
  "life_inv s \<longleftrightarrow>
     (draining s \<longrightarrow> stopped s \<and> connections s \<noteq> [] \<and> drainTimerId s \<in> drains s) \<and>
     (stopped s \<and> \<not> draining s \<longrightarrow> connections s = [] \<and> p_state (threadPool s) = PStopped) \<and>
     (\<not> started s \<longrightarrow> connections s = [] \<and> p_state (threadPool s) = PStopped \<and> \<not> listening (srv_acceptor s)) \<and>
     (stopped s \<longrightarrow> \<not> listening (srv_acceptor s)) \<and> 
     (\<not> lifetime s \<longrightarrow> stopped s \<and> \<not> draining s \<and> acceptor_fds (srv_acceptor s) = {})"

definition srv_inv :: "server \<Rightarrow> bool" where
  "srv_inv s \<longleftrightarrow> base_inv (set (connections s)) s \<and> distinct (connections s) \<and> life_inv s"

definition env_ok :: "server_env \<Rightarrow> bool" where
  "env_ok env \<longleftrightarrow> (\<forall>xs. set (iteration env xs) = set xs \<and> (distinct xs \<longrightarrow> distinct (iteration env xs)))"

lemma timer_inv_cong:
  assumes "armed s' = armed s" "nextTimer s' = nextTimer s" "nextConnId s' = nextConnId s" "srv_name s' = srv_name s" "objects s' = objects s"
  shows "timer_inv s' = timer_inv s"
  unfolding timer_inv_def assms ..

lemma base_inv_cong:
  assumes "armed s' = armed s" "nextTimer s' = nextTimer s" "nextConnId s' = nextConnId s" "srv_name s' = srv_name s"
    "objects s' = objects s" "queues s' = queues s" "destroyed s' = destroyed s" "threadPool s' = threadPool s"
    "srv_acceptor s' = srv_acceptor s" "openFds s' = openFds s" "badClose s' = badClose s" "abandoned s' = abandoned s"
  shows "base_inv L s' = base_inv L s"
  unfolding base_inv_def shape_of_def named_def timer_inv_cong[OF assms(1-5)] assms ..

lemma base_updates [simp]:
  "base_inv L (s\<lparr>started := b\<rparr>) = base_inv L s" "base_inv L (s\<lparr>stopped := b\<rparr>) = base_inv L s"
  "base_inv L (s\<lparr>draining := b\<rparr>) = base_inv L s" "base_inv L (s\<lparr>lifetime := b\<rparr>) = base_inv L s"
  "base_inv L (s\<lparr>connections := c\<rparr>) = base_inv L s" "base_inv L (s\<lparr>drainTimerId := i\<rparr>) = base_inv L s"
  "base_inv L (s\<lparr>conn_events := es\<rparr>) = base_inv L s" "base_inv L (s\<lparr>idleTimeout := t\<rparr>) = base_inv L s"
  "base_inv L (s\<lparr>highWaterMark := n\<rparr>) = base_inv L s" "base_inv L (s\<lparr>highWaterMarkCallback := b\<rparr>) = base_inv L s"
  "base_inv L (s\<lparr>backpressureHighWaterMark := n\<rparr>) = base_inv L s" "base_inv L (s\<lparr>backpressureLowWaterMark := n\<rparr>) = base_inv L s"
  "base_inv L (s\<lparr>backpressureHook := b\<rparr>) = base_inv L s" "base_inv L (s\<lparr>tlsHook := b\<rparr>) = base_inv L s"
  "base_inv L (s\<lparr>tlsContext := b\<rparr>) = base_inv L s"
  by (rule base_inv_cong; simp)+

lemma drains_updates [simp]:
  "drains (s\<lparr>stopped := b\<rparr>) = drains s" "drains (s\<lparr>draining := b\<rparr>) = drains s" "drains (s\<lparr>connections := c\<rparr>) = drains s"
  "drains (s\<lparr>started := b\<rparr>) = drains s" "drains (s\<lparr>drainTimerId := i\<rparr>) = drains s" "drains (s\<lparr>threadPool := p\<rparr>) = drains s"
  "drains (s\<lparr>queues := q\<rparr>) = drains s"
  by (simp_all add: drains_def)

text \<open>A step that leaves the fields of \<open>core\<close> alone keeps the whole invariant.\<close>

lemma srv_still:
  assumes "srv_inv s" "base_inv (set (connections s)) s'" "still s s'"
  shows "srv_inv s'"
  using assms core_fields[of s' s] by (simp add: srv_inv_def life_inv_def still_def)

lemma srv_effect: "srv_inv s \<Longrightarrow> effect [] s s' \<Longrightarrow> srv_inv s'"
  using srv_still base_effect unfolding srv_inv_def by blast

section \<open>Taking connections down\<close>

lemma forceClose_all:
  assumes "env_ok env" "base_inv (set (connections s)) s" "distinct (connections s)" "forceCloseAllConnections env s = Inr s'"
  shows "base_inv {} s' \<and> still (s\<lparr>connections := []\<rparr>) s'"
proof -
  let ?ns = "iteration env (connections s)"
  have "base_inv (set ?ns) (s\<lparr>connections := []\<rparr>)" "distinct ?ns" using assms(1-3) by (simp_all add: env_ok_def)
  then show ?thesis by (rule base_for) (use assms(4) in \<open>simp_all add: forceCloseAllConnections_def\<close>)
qed

text \<open>The end of a stop: no connection is left in the map and the pool is stopped.\<close>

lemma stop_pool_life:
  assumes "base_inv {} s" "connections s = []" "stop_pool env s = Inr s'" "\<not> draining s"
    "stopped s \<longrightarrow> \<not> listening (srv_acceptor s)" "\<not> started s \<longrightarrow> \<not> listening (srv_acceptor s)"
    "\<not> lifetime s \<longrightarrow> stopped s \<and> acceptor_fds (srv_acceptor s) = {}"
  shows "srv_inv s' \<and> p_state (threadPool s') = PStopped \<and> core s' = core (s\<lparr>threadPool := threadPool s'\<rparr>)"
proof -
  note b = base_stop_pool[OF assms(1,3)]
  then have c: "core s' = core (s\<lparr>threadPool := threadPool s'\<rparr>)" by blast
  show ?thesis using b assms core_fields[OF c] by (simp add: srv_inv_def life_inv_def)
qed

text \<open>Dropping a registered timer.\<close>

lemma timer_drop:
  assumes inv: "timer_inv s"
  shows "timer_inv (cancel_timer l i s)"
proof (rule timer_invI)
  fix k j n g x assume "armed (cancel_timer l i s) k j = Some (IdleTimer n g)" "objects (cancel_timer l i s) n = Some x"
  then show "is_idle_of n x k j g" using timer_back[OF inv, of k j n g x] by (auto simp: cancel_timer_def split: if_splits)
next
  fix n x st assume "objects (cancel_timer l i s) n = Some x" "o_idle x = Some st" "idleTimerId st \<noteq> 0"
  then show "1 \<le> idleTimerId st \<and> idleTimerId st < nextTimer (cancel_timer l i s) \<and>
     (armed (cancel_timer l i s) (o_loop x) (idleTimerId st) = None \<or>
      armed (cancel_timer l i s) (o_loop x) (idleTimerId st) = Some (IdleTimer n (generation st)))"
    using timer_mine[OF inv, of n x st] by (auto simp: cancel_timer_def)
qed (use timer_ids[OF inv] timer_named[OF inv] timer_pos[OF inv] in \<open>auto simp: cancel_timer_def split: if_splits\<close>)

lemma base_drop_timer: "base_inv L s \<Longrightarrow> base_inv L (cancel_timer l i s)"
  using timer_drop[of s l i] by (simp add: base_inv_def cancel_timer_def shape_of_def named_def)

lemma finish_drain_inv:
  assumes base: "base_inv (set (connections s)) s" and d: "distinct (connections s)"
    and life: "connections s \<noteq> [] \<Longrightarrow> life_inv s" "\<not> draining s \<Longrightarrow> life_inv s"
    and l: "stopped s \<longrightarrow> \<not> listening (srv_acceptor s)" "\<not> started s \<longrightarrow> \<not> listening (srv_acceptor s)"
      "\<not> lifetime s \<longrightarrow> stopped s \<and> acceptor_fds (srv_acceptor s) = {}"
    and run: "finish_drain env s = Inr s'"
  shows "srv_inv s'"
proof (cases "draining s \<and> connections s = []")
  case False
  then have "s' = s" using run unfolding finish_drain_def by (simp only: if_False sum.inject)
  then show ?thesis using False base d life by (auto simp: srv_inv_def)
next
  case True
  define t where "t = (if timer_id_valid (drainTimerId s)
    then (cancel_timer Base_loop (drainTimerId s) (s\<lparr>draining := False\<rparr>))\<lparr>drainTimerId := 0\<rparr> else s\<lparr>draining := False\<rparr>)"
  have run: "stop_pool env t = Inr s'" using run True by (cases "timer_id_valid (drainTimerId s)") (simp_all add: finish_drain_def t_def Let_def)
  have "base_inv {} (s\<lparr>draining := False\<rparr>)" using base True by simp
  then have "base_inv {} t" unfolding t_def by (simp add: base_drop_timer)
  moreover have "connections t = []" "\<not> draining t" "stopped t = stopped s" "started t = started s" "lifetime t = lifetime s"
    "srv_acceptor t = srv_acceptor s" using True by (simp_all add: t_def cancel_timer_def)
  ultimately show ?thesis using stop_pool_life[OF _ _ run] l by simp
qed

lemma removeConnection_inv:
  assumes inv: "srv_inv s" and run: "removeConnectionInLoop env n s = Inr s'"
  shows "srv_inv s'"
proof (cases "n \<in> set (connections s)")
  case False
  then show ?thesis using inv run by (simp add: removeConnectionInLoop_def)
next
  case True
  let ?s = "s\<lparr>connections := filter (\<lambda>m. m \<noteq> n) (connections s)\<rparr>"
  let ?L = "set (filter (\<lambda>m. m \<noteq> n) (connections s))"
  obtain s1 where s1: "run_in_loop env (owner_of ?s n) (FDestroy n) ?s = Inr s1" and s': "finish_drain env s1 = Inr s'"
    using run True by (auto simp: removeConnectionInLoop_def bind_res_Inr Let_def)
  have L: "set (connections s) = insert n ?L" using True by auto
  have "base_inv (insert n ?L) ?s" using inv unfolding srv_inv_def base_updates L[symmetric] by blast
  from base_retire[OF this _ retires_functors(1) s1] have b: "base_inv ?L s1" and st: "still ?s s1" by auto
  note c = core_fields[OF conjunct1[OF st[unfolded still_def]]]
  have d: "drains s1 = drains s" using st by (simp add: still_def)
  have life: "life_inv s" and dist: "distinct (connections s)" using inv by (simp_all add: srv_inv_def)
  show ?thesis
  proof (rule finish_drain_inv[OF _ _ _ _ _ _ _ s'])
    show "base_inv (set (connections s1)) s1" using b c by simp
    show "distinct (connections s1)" using dist c by simp
    show "life_inv s1" if "connections s1 \<noteq> []" using life that c d True unfolding life_inv_def by auto
    show "life_inv s1" if "\<not> draining s1" using life that c d True unfolding life_inv_def by auto
  qed (use life c in \<open>simp_all add: life_inv_def\<close>)
qed


section \<open>Descriptors of the acceptor and of new connections\<close>

lemma base_fds:
  assumes "base_inv L s" "fd_ok (acceptor_fds a) op (badClose s) (shape_of s) ab"
  shows "base_inv L (s\<lparr>srv_acceptor := a, openFds := op, abandoned := ab\<rparr>)"
proof -
  let ?s = "s\<lparr>srv_acceptor := a, openFds := op, abandoned := ab\<rparr>"
  have "timer_inv ?s = timer_inv s" by (rule timer_inv_cong) simp_all
  moreover have "shape_of ?s = shape_of s" "named n ?s = named n s" for n by (simp_all add: shape_of_def named_def)
  ultimately show ?thesis using assms by (simp add: base_inv_def)
qed

lemma close_open:
  assumes "fd \<in> openFds s" "isValid fd"
  shows "sockets_close fd s = s\<lparr>openFds := openFds s - {fd}\<rparr>"
  using assms by (rule sockets_close_open)

text \<open>Giving up the listening socket.\<close>

lemma fd_release_acceptor:
  "fd_ok (acceptor_fds a) op bad sh ab \<Longrightarrow> isValid (acceptSocket a) \<Longrightarrow>
     acceptSocket a \<in> op \<and> fd_ok {} (op - {acceptSocket a}) bad sh ab"
  unfolding fd_ok_def acceptor_fds_def by auto

lemma acceptor_fds_invalid [simp]: "acceptor_fds (a\<lparr>acceptSocket := kInvalidSocket\<rparr>) = {}"
  by (simp add: acceptor_fds_def isValid_def)

lemma unregister_eq: "acceptor_unregister a = Inr (a\<lparr>acceptChannel := (ch_disableAll (acceptChannel a))\<lparr>ch_addedToLoop := False\<rparr>\<rparr>)"
  by (simp add: acceptor_unregister_def ch_remove_def isNoneEvent_def)

text \<open>An operation that changes at most the acceptor, the open descriptors and its callback flag.\<close>

definition acceptor_step :: "server \<Rightarrow> server \<Rightarrow> bool" where
  "acceptor_step s s' \<longleftrightarrow> (\<exists>a op. s' = s\<lparr>srv_acceptor := a, openFds := op\<rparr>)"

lemma acceptor_step_refl: "acceptor_step s s"
  unfolding acceptor_step_def by (intro exI[of _ "srv_acceptor s"] exI[of _ "openFds s"]) simp

lemma acceptor_stop_base:
  assumes base: "base_inv L s" and run: "acceptor_stop s = Inr s'"
  shows "base_inv L s' \<and> acceptor_step s s' \<and> \<not> listening (srv_acceptor s')"
proof (cases "listening (srv_acceptor s)")
  case False
  then show ?thesis using base run by (auto simp: acceptor_stop_def acceptor_step_refl)
next
  case True
  let ?a = "(srv_acceptor s)\<lparr>listening := False, acceptChannel := (ch_disableAll (acceptChannel (srv_acceptor s)))\<lparr>ch_addedToLoop := False\<rparr>, acceptSocket := kInvalidSocket\<rparr>"
  let ?fd = "acceptSocket (srv_acceptor s)"
  have ok: "fd_ok (acceptor_fds (srv_acceptor s)) (openFds s) (badClose s) (shape_of s) (abandoned s)" using base by (simp add: base_inv_def)
  define op where "op = (if isValid ?fd then openFds s - {?fd} else openFds s)"
  have op: "fd_ok (acceptor_fds ?a) op (badClose s) (shape_of s) (abandoned s)"
    using ok fd_release_acceptor[OF ok] by (auto simp: op_def acceptor_fds_def isValid_def kInvalidSocket_def split: if_splits)
  have "s' = s\<lparr>srv_acceptor := ?a, openFds := op\<rparr>"
    using run True fd_release_acceptor[OF ok]
    by (auto simp: acceptor_stop_def unregister_eq releaseFd_def op_def close_open Let_def split: if_splits)
  then show ?thesis using base_fds[OF base op] by (auto simp: acceptor_step_def)
qed

lemma base_callback: "base_inv L (setNewConnectionCallback b s) = base_inv L s"
proof -
  have "timer_inv (setNewConnectionCallback b s) = timer_inv s"
    by (rule timer_inv_cong) (simp_all add: setNewConnectionCallback_def)
  moreover have "shape_of (setNewConnectionCallback b s) = shape_of s" "named n (setNewConnectionCallback b s) = named n s" for n
    by (simp_all add: setNewConnectionCallback_def shape_of_def named_def)
  ultimately show ?thesis by (simp add: base_inv_def) (simp add: setNewConnectionCallback_def acceptor_fds_def)
qed

lemma stop_accepting_base:
  assumes "base_inv L s" "stop_accepting s = Inr s'"
  shows "base_inv L s' \<and> acceptor_step s s' \<and> \<not> listening (srv_acceptor s')"
proof (cases "listening (srv_acceptor s)")
  case True
  then have "acceptor_stop (setNewConnectionCallback False s) = Inr s'" using assms(2) by (simp add: stop_accepting_def)
  from acceptor_stop_base[OF _ this, of L] assms(1) base_callback show ?thesis
    by (auto simp: acceptor_step_def setNewConnectionCallback_def)
next
  case False
  then show ?thesis using assms by (auto simp: stop_accepting_def acceptor_step_refl)
qed

lemma acceptor_step_fields:
  "acceptor_step s s' \<Longrightarrow> stopped s' = stopped s \<and> draining s' = draining s \<and> started s' = started s \<and> lifetime s' = lifetime s \<and>
     connections s' = connections s \<and> threadPool s' = threadPool s \<and> drainTimerId s' = drainTimerId s \<and> drains s' = drains s"
  by (auto simp: acceptor_step_def drains_def)


section \<open>New connections\<close>

lemma conn_name_inj: "conn_name b i = conn_name b j \<longleftrightarrow> i = j"
  by (simp add: conn_name_def to_string_inj)

lemma next_name_fresh: "\<not> named (conn_name (srv_name s) (nextConnId s)) s"
  by (simp add: named_def conn_name_inj)

definition accepted_fd :: "int \<Rightarrow> server \<Rightarrow> server" where
  "accepted_fd fd s = s\<lparr>openFds := insert fd (openFds s)\<rparr>"

lemma fd_new_object:
  assumes "fd_ok acc op bad sh ab" "isValid fd" "fd \<notin> op" "sh n = None"
  shows "fd_ok acc (insert fd op) bad (sh(n \<mapsto> (l, fd))) ab"
proof -
  have o: "object_fds (sh(n \<mapsto> (l, fd))) = insert fd (object_fds sh)"
    using assms(4) by (auto simp: object_fds_def split: if_splits) (metis option.distinct(1))
  have new: "sh m \<noteq> Some (k, fd)" for m k using assms(1,3) by (auto simp: fd_ok_def object_fds_def)
  have old: "m = m'" if "sh m = Some (k, f)" "sh m' = Some (k', f)" for m m' k k' f
    using assms(1) that unfolding fd_ok_def by blast
  have inj: "\<forall>m m' k k' f. (sh(n \<mapsto> (l, fd))) m = Some (k, f) \<longrightarrow> (sh(n \<mapsto> (l, fd))) m' = Some (k', f) \<longrightarrow> m = m'"
  proof (intro allI impI)
    fix m m' k k' f assume a: "(sh(n \<mapsto> (l, fd))) m = Some (k, f)" "(sh(n \<mapsto> (l, fd))) m' = Some (k', f)"
    show "m = m'"
    proof (cases "m = n \<or> m' = n")
      case True
      then have "f = fd" using a by auto
      then show ?thesis using a new[of m k] new[of m' k'] by (auto split: if_splits)
    next
      case False
      then show ?thesis using a old[of m k f m' k'] by simp
    qed
  qed
  have f: "\<not> bad" "op = acc \<union> object_fds sh \<union> ab" "acc \<inter> object_fds sh = {}" "acc \<inter> ab = {}" "object_fds sh \<inter> ab = {}"
    "\<forall>fd \<in> op. isValid fd" using assms(1) unfolding fd_ok_def by blast+
  then have "insert fd op = acc \<union> insert fd (object_fds sh) \<union> ab" "acc \<inter> insert fd (object_fds sh) = {}"
    "insert fd (object_fds sh) \<inter> ab = {}" "\<forall>fd \<in> insert fd op. isValid fd" using assms(2,3) by blast+
  then show ?thesis using f(1,4) inj unfolding fd_ok_def o by blast
qed

lemma fd_abandon:
  "fd_ok acc op bad sh ab \<Longrightarrow> isValid fd \<Longrightarrow> fd \<notin> op \<Longrightarrow> fd_ok acc (insert fd op) bad sh (insert fd ab)"
  unfolding fd_ok_def by auto

text \<open>The state with the new object in the map.\<close>

lemma base_new_object:
  assumes base: "base_inv L s" and fd: "isValid fd" "fd \<notin> openFds s" and l: "l = Base_loop \<or> l \<in> set (loops p)"
    and p: "pool_inv p" "loops p = loops (threadPool s)"
    and n: "n = conn_name (srv_name s) (nextConnId s)"
    and x: "o_loop x = l" "o_fd x = fd" "\<And>st. o_idle x = Some st \<Longrightarrow> idleTimerId st = 0"
  shows "base_inv (insert n L) (s\<lparr>openFds := insert fd (openFds s), threadPool := p, nextConnId := nextConnId s + 1,
      objects := (objects s)(n \<mapsto> x), connections := c\<rparr>)"
proof -
  let ?s = "s\<lparr>openFds := insert fd (openFds s), threadPool := p, nextConnId := nextConnId s + 1, objects := (objects s)(n \<mapsto> x), connections := c\<rparr>"
  have fresh: "\<not> named n s" using next_name_fresh n by blast
  then have sh: "shape_of s n = None" "n \<notin> set (destroyed s)" using base unfolding base_inv_def by blast+
  have sh': "shape_of ?s = (shape_of s)(n \<mapsto> (l, fd))" using x by (auto simp: shape_of_def)
  have nm: "named m ?s \<longleftrightarrow> named m s \<or> m = n" for m using n by (auto simp: named_def less_Suc_eq)
  have tinv: "timer_inv s" using base by (simp add: base_inv_def)
  have none: "armed s k i \<noteq> Some (IdleTimer n g)" for k i g using timer_named[OF tinv, of k i n g] fresh by (auto simp: named_def)
  have "timer_inv ?s"
  proof (rule timer_invI)
    fix k i m g y assume a: "armed ?s k i = Some (IdleTimer m g)" "objects ?s m = Some y"
    then have "m \<noteq> n" using none by auto
    then show "is_idle_of m y k i g" using a timer_back[OF tinv, of k i m g y] by simp
  next
    fix m y st' assume a: "objects ?s m = Some y" "o_idle y = Some st'" "idleTimerId st' \<noteq> 0"
    then have "m \<noteq> n" using x(3)[of st'] by auto
    then show "1 \<le> idleTimerId st' \<and> idleTimerId st' < nextTimer ?s \<and>
       (armed ?s (o_loop y) (idleTimerId st') = None \<or> armed ?s (o_loop y) (idleTimerId st') = Some (IdleTimer m (generation st')))"
      using a timer_mine[OF tinv, of m y st'] by simp
  next
    fix k i m g assume "armed ?s k i = Some (IdleTimer m g)"
    then show "\<exists>j < nextConnId ?s. m = conn_name (srv_name ?s) j" using timer_named[OF tinv, of k i m g] by (auto intro: less_SucI)
  qed (use timer_ids[OF tinv] timer_pos[OF tinv] in auto)
  moreover have "own (insert n L) (shape_of ?s) (queues s) (destroyed s)"
    unfolding sh' by (rule own_new) (use base sh in \<open>simp_all add: base_inv_def\<close>)
  moreover have "placed (loops p) (insert n L) (shape_of ?s) (queues s)"
    using base l p(2) unfolding sh' by (auto simp: base_inv_def placed_def)
  moreover have "fd_ok (acceptor_fds (srv_acceptor s)) (insert fd (openFds s)) (badClose s) (shape_of ?s) (abandoned s)"
    unfolding sh' by (rule fd_new_object) (use base fd sh in \<open>simp_all add: base_inv_def\<close>)
  moreover have "\<forall>m. shape_of ?s m \<noteq> None \<or> m \<in> set (destroyed s) \<longrightarrow> named m s \<or> m = n"
    using base unfolding sh' base_inv_def by auto
  ultimately show ?thesis using p(1) nm by (simp add: base_inv_def)
qed


text \<open>Establishing it on its loop.\<close>

lemma base_establish:
  assumes base: "base_inv L s" and n: "n \<in> L" and run: "run_in_loop env (owner_of s n) (FEstablish n t) s = Inr s'"
  shows "base_inv L s' \<and> still s s'"
proof -
  have o: "own L (shape_of s) (queues s) (destroyed s)" and pl: "placed (loops (threadPool s)) L (shape_of s) (queues s)"
    using base by (simp_all add: base_inv_def)
  have "shape_of s n \<noteq> None" using ownD[OF o] n by (auto simp: covered_def)
  then obtain l fd where sh: "shape_of s n = Some (l, fd)" by auto
  then have l: "owner_of s n = l" by (auto simp: shape_of_def owner_of_def)
  show ?thesis
  proof (cases "l = Base_loop")
    case True
    then have r: "conn_functor env (FEstablish n t) s = Inr s'" using run l by (simp add: run_in_loop_def)
    have "named n s" using base sh by (simp add: base_inv_def)
    then have "effect [] s s'" using effect_functor[OF r] by (simp add: touched_def)
    then show ?thesis by (rule base_effect[OF base])
  next
    case False
    then have s': "s' = s\<lparr>queues := (queues s)(l := queues s l @ [FEstablish n t])\<rparr>" using run l by (simp add: run_in_loop_def)
    have "own L (shape_of s') (queues s') (destroyed s')" using own_establish[OF o n sh False] by (simp add: s')
    moreover have "l \<in> set (loops (threadPool s))" using pl sh False n unfolding placed_def by blast
    then have "placed (loops (threadPool s')) L (shape_of s') (queues s')" using pl by (auto simp: placed_def s')
    moreover have "timer_inv s' = timer_inv s" by (rule timer_inv_cong) (simp_all add: s')
    moreover have "still s s'" by (simp add: s' still_def)
    moreover have "named m s' = named m s" for m by (simp add: s' named_def)
    ultimately show ?thesis using base by (simp add: base_inv_def s')
  qed
qed

lemma nextLoop_member:
  assumes "pool_inv p" "getNextLoop running True p = (Inr l, p')"
  shows "(l = Base_loop \<or> l \<in> set (loops p')) \<and> loops p' = loops p \<and> p_state p' = p_state p \<and> pool_inv p'"
proof -
  have "pool_inv p'" using getNextLoop_inv assms by blast
  moreover have "(l = Base_loop \<or> l \<in> set (loops p')) \<and> loops p' = loops p \<and> p_state p' = p_state p"
  proof (cases "loops p = []")
    case True
    then show ?thesis using assms getNextLoop_eq[OF assms(1), of running] by simp
  next
    case False
    then have "loops p ! nat (next_loop p) \<in> set (loops p)" using pool_index[OF assms(1)] by (simp add: nat_less_iff)
    then show ?thesis using assms(2) False getNextLoop_eq[OF assms(1), of running] by (auto split: if_splits)
  qed
  ultimately show ?thesis by blast
qed

lemma nextLoop_error: "pool_inv p \<Longrightarrow> getNextLoop running True p = (Inl e, p') \<Longrightarrow> p' = p"
  by (auto simp: getNextLoop_eq split: if_splits)

lemma newConnection_inv:
  assumes inv: "srv_inv s" and st: "started s" and fd: "isValid fd" "fd \<notin> openFds s"
    and run: "newConnection env running fd (s\<lparr>openFds := insert fd (openFds s)\<rparr>) = Inr (err, s')"
  shows "srv_inv s' \<and> started s'"
proof -
  let ?s = "s\<lparr>openFds := insert fd (openFds s)\<rparr>"
  have base: "base_inv (set (connections s)) s" and life: "life_inv s" and dist: "distinct (connections s)" using inv by (simp_all add: srv_inv_def)
  have pinv: "pool_inv (threadPool s)" using base by (simp add: base_inv_def)
  show ?thesis
  proof (cases "stopped s")
    case True
    have "sockets_close fd ?s = s" using close_open[of fd ?s] fd by simp
    then show ?thesis using run True inv st by (simp add: newConnection_def)
  next
    case False
    obtain r p where gn: "getNextLoop running True (threadPool s) = (r, p)" by (metis prod.exhaust)
    show ?thesis
    proof (cases r)
      case (Inl e)
      then have p: "p = threadPool s" using nextLoop_error[OF pinv] gn by blast
      then have s': "s' = s\<lparr>srv_acceptor := srv_acceptor s, openFds := insert fd (openFds s), abandoned := insert fd (abandoned s)\<rparr>"
        using run False gn Inl by (simp add: newConnection_def)
      have "fd_ok (acceptor_fds (srv_acceptor s)) (insert fd (openFds s)) (badClose s) (shape_of s) (insert fd (abandoned s))"
        using fd_abandon fd base by (simp add: base_inv_def)
      from base_fds[OF base this] show ?thesis using s' dist life st by (simp add: srv_inv_def life_inv_def drains_def)
    next
      case (Inr l)
      define n where "n = conn_name (srv_name s) (nextConnId s)"
      define x where "x = \<lparr>o_conn = TcpConnection fd (network env n), o_loop = l, o_fd = fd,
        o_idle = (if idleTimeout s > 0 then Some \<lparr>idleTimerId = 0, generation = 0\<rparr> else None)\<rparr>"
      define t where "t = s\<lparr>openFds := insert fd (openFds s), threadPool := p, nextConnId := nextConnId s + 1, objects := (objects s)(n \<mapsto> x),
        connections := filter (\<lambda>m. m \<noteq> n) (connections s) @ [n]\<rparr>"
      note pl = nextLoop_member[OF pinv gn[unfolded Inr]]
      obtain s1 tls where s1: "conn_op n (configure_conn env n l t) t = Inr s1" and s2: "run_in_loop env l (FEstablish n tls) s1 = Inr s'"
        using run False gn Inr by (auto simp: newConnection_def bind_res_Inr Let_def t_def x_def n_def)
      have bt: "base_inv (insert n (set (connections s))) t" unfolding t_def
        by (rule base_new_object[OF base fd]) (use pl in \<open>auto simp: x_def n_def split: if_splits\<close>)
      have "named n t" by (auto simp: named_def t_def n_def)
      note e = base_effect[OF bt effect_conn_op[OF s1 this]]
      have "owner_of s1 n = l"
      proof -
        have "shape_of s1 = shape_of t" using effect_conn_op[OF s1 \<open>named n t\<close>] by (simp add: effect_def frame_def)
        then have "shape_of s1 n = Some (l, fd)" by (simp add: t_def x_def shape_of_def)
        then show ?thesis by (auto simp: shape_of_def owner_of_def)
      qed
      then have "base_inv (insert n (set (connections s))) s' \<and> still s1 s'"
        using base_establish[of "insert n (set (connections s))" s1 n] e s2 by simp
      then have b: "base_inv (insert n (set (connections s))) s'" and still: "still t s'" using e still_trans by blast+
      note c = core_fields[OF conjunct1[OF still[unfolded still_def]]]
      have "drains s' = drains s" using still by (simp add: still_def t_def drains_def)
      have "n \<notin> set (connections s)"
        using base next_name_fresh[of s] ownD unfolding base_inv_def covered_def n_def by blast
      then have cn: "connections s' = connections s @ [n]" using c(11) by (simp add: t_def) (metis (mono_tags, lifting) filter_True)
      then have "life_inv s'" using life False st c \<open>drains s' = drains s\<close> by (simp add: life_inv_def t_def)
      then show ?thesis using b cn dist \<open>n \<notin> set (connections s)\<close> st c by (simp add: srv_inv_def t_def)
    qed
  qed
qed


lemma accept_inv:
  "srv_inv s \<Longrightarrow> started s \<Longrightarrow> acceptor_handleRead env running as s = Inr (err, s') \<Longrightarrow> srv_inv s'"
proof (induction env running as s arbitrary: s' rule: acceptor_handleRead.induct)
  case (2 env running connfd as s)
  let ?s = "s\<lparr>openFds := insert connfd (openFds s)\<rparr>"
  show ?case
  proof (cases "\<not> isValid connfd \<or> connfd \<in> openFds s")
    case True
    then have "s' = s" using 2(5) by (simp only: acceptor_handleRead.simps if_True sum.inject prod.inject)
    then show ?thesis using 2(3) by simp
  next
    case False
    then have fd: "isValid connfd" "connfd \<notin> openFds s" by auto
    show ?thesis
    proof (cases "newConnectionCallback (srv_acceptor ?s)")
      case cb: True
      obtain e s1 where s1: "newConnection env running connfd ?s = Inr (e, s1)"
        and r: "(case e of Some e \<Rightarrow> Inr (Some e, s1) | None \<Rightarrow> acceptor_handleRead env running as s1) = Inr (err, s')"
        using 2(5) False cb by (auto simp: bind_res_Inr Let_def)
      have i: "srv_inv s1" "started s1" using newConnection_inv[OF 2(3,4) fd s1] by auto
      show ?thesis
      proof (cases e)
        case None
        then show ?thesis using 2(1)[OF False refl cb s1 refl None i] r by simp
      qed (use r i in simp)
    next
      case cb: False
      have "sockets_close connfd ?s = s" using close_open[of connfd ?s] fd by simp
      then show ?thesis using 2(2)[OF False refl cb] 2(3-5) False cb by (simp add: Let_def)
    qed
  qed
qed (auto split: if_splits)

lemma config_inv: "srv_inv s \<Longrightarrow> srv_inv (snd (server_config c s))"
proof (cases c)
  case (CThreadNum n)
  assume inv: "srv_inv s"
  let ?p = "snd (setThreadNum n (threadPool s))"
  have p: "pool_inv (threadPool s)" using inv by (simp add: srv_inv_def base_inv_def)
  have "pool_do (\<lambda>_. None) (\<lambda>_. True) (PSetNum n) (threadPool s) = (fst (setThreadNum n (threadPool s)), ?p)"
    by (simp add: pool_do_def pool_call_def)
  then have p': "pool_inv ?p" using pool_do_inv[OF p] by blast
  have same: "loops ?p = loops (threadPool s)" "p_state ?p = p_state (threadPool s)" by (auto simp: setThreadNum_def)
  have "snd (server_config c s) = s \<or> snd (server_config c s) = s\<lparr>threadPool := ?p\<rparr>"
    by (auto simp: CThreadNum server_setThreadNum_def split: prod.splits sum.splits)
  moreover have "srv_inv (s\<lparr>threadPool := ?p\<rparr>)"
  proof -
    have "timer_inv (s\<lparr>threadPool := ?p\<rparr>) = timer_inv s" by (rule timer_inv_cong) simp_all
    moreover have "shape_of (s\<lparr>threadPool := ?p\<rparr>) = shape_of s" "named m (s\<lparr>threadPool := ?p\<rparr>) = named m s" for m
      by (simp_all add: shape_of_def named_def)
    ultimately show ?thesis using inv p' same by (simp add: srv_inv_def base_inv_def life_inv_def)
  qed
  ultimately show ?thesis using inv by auto
qed (auto simp: srv_inv_def life_inv_def setIdleTimeout_def server_setBackpressurePolicy_def drains_def)

text \<open>\<open>start\<close>.\<close>

lemma stopped_pool_queues:
  assumes "base_inv {} s" "loops (threadPool s) = []" "pool_inv p"
  shows "base_inv {} (s\<lparr>threadPool := p\<rparr>)"
proof -
  have "timer_inv (s\<lparr>threadPool := p\<rparr>) = timer_inv s" by (rule timer_inv_cong) simp_all
  moreover have "shape_of (s\<lparr>threadPool := p\<rparr>) = shape_of s" "named m (s\<lparr>threadPool := p\<rparr>) = named m s" for m
    by (simp_all add: shape_of_def named_def)
  moreover have "placed (loops p) {} (shape_of s) (queues s)" using assms(1,2) by (simp add: base_inv_def placed_def)
  ultimately show ?thesis using assms by (simp add: base_inv_def)
qed

lemma stopped_loops: "pool_inv p \<Longrightarrow> p_state p = PStopped \<Longrightarrow> loops p = []"
  unfolding pool_inv_def by (elim conjE) simp

lemma listen_base: "base_inv L (acceptor_listen s) = base_inv L s"
proof -
  have "timer_inv (acceptor_listen s) = timer_inv s" by (rule timer_inv_cong) (simp_all add: acceptor_listen_def Let_def)
  moreover have "shape_of (acceptor_listen s) = shape_of s" "named m (acceptor_listen s) = named m s" for m
    by (simp_all add: acceptor_listen_def shape_of_def named_def Let_def)
  ultimately show ?thesis by (simp add: base_inv_def) (simp add: acceptor_listen_def acceptor_fds_def Let_def)
qed

lemma server_start_inv:
  assumes inv: "srv_inv s" and run: "server_start env init starts s = Inr (err, s')" and alive: "lifetime s"
  shows "srv_inv s'"
proof (cases "started s")
  case True
  then show ?thesis using inv run by (simp add: server_start_def)
next
  case False
  let ?s = "s\<lparr>started := True, stopped := False\<rparr>"
  have l: "connections s = []" "p_state (threadPool s) = PStopped" "\<not> listening (srv_acceptor s)" "\<not> draining s"
    using inv False by (auto simp: srv_inv_def life_inv_def)
  have base: "base_inv {} s" and p: "pool_inv (threadPool s)" using inv l by (simp_all add: srv_inv_def base_inv_def)
  obtain r q where pd: "pool_do starts (\<lambda>_. True) (PStart init) (threadPool s) = (r, q)" by (metis prod.exhaust)
  have q: "pool_inv q" by (rule pool_do_inv[OF p pd])
  have b: "base_inv {} (?s\<lparr>threadPool := q\<rparr>)"
    using stopped_pool_queues[of ?s q] base q stopped_loops[OF p l(2)] by simp
  show ?thesis
  proof (cases r)
    case (Inl e)
    then obtain s1 where s1: "stop_pool env (?s\<lparr>threadPool := q\<rparr>) = Inr s1" "s' = s1\<lparr>started := False, stopped := False\<rparr>"
      using run False pd by (auto simp: server_start_def bind_res_Inr Let_def)
    have h: "srv_inv s1 \<and> p_state (threadPool s1) = PStopped \<and> core s1 = core (?s\<lparr>threadPool := q, threadPool := threadPool s1\<rparr>)"
      by (rule stop_pool_life[OF b _ s1(1)]) (use l alive in simp_all)
    note c = core_fields[of s1 "?s\<lparr>threadPool := threadPool s1\<rparr>"]
    have "connections s1 = []" "\<not> draining s1" "lifetime s1" "srv_acceptor s1 = srv_acceptor s" using h c l alive by simp_all
    then show ?thesis using h l s1(2) by (simp add: srv_inv_def life_inv_def)
  next
    case (Inr u)
    then have s': "s' = acceptor_listen (?s\<lparr>threadPool := q\<rparr>)"
      using run False pd by (simp add: server_start_def Let_def)
    have "base_inv {} s'" using b listen_base s' by simp
    then show ?thesis using l alive s' by (simp add: srv_inv_def life_inv_def acceptor_listen_def Let_def)
  qed
qed


section \<open>Stopping\<close>

text \<open>The common end of \<open>stop\<close> and \<open>onDrainTimeout\<close>.\<close>

lemma close_all_inv:
  assumes env: "env_ok env" and base: "base_inv (set (connections s)) s" and dist: "distinct (connections s)"
    and l: "\<not> draining s" "\<not> listening (srv_acceptor s)" "stopped s" "lifetime s"
    and run: "bind_res (forceCloseAllConnections env s) (stop_pool env) = Inr s'"
  shows "srv_inv s' \<and> stopped s' \<and> \<not> draining s'"
proof -
  obtain s1 where s1: "forceCloseAllConnections env s = Inr s1" "stop_pool env s1 = Inr s'" using run by (auto simp: bind_res_Inr)
  note f = forceClose_all[OF env base dist s1(1)]
  have c: "core s1 = core (s\<lparr>connections := []\<rparr>)" using f by (simp add: still_def)
  note c1 = core_fields[OF c]
  have h: "srv_inv s' \<and> p_state (threadPool s') = PStopped \<and> core s' = core (s1\<lparr>threadPool := threadPool s'\<rparr>)"
    by (rule stop_pool_life[OF _ _ s1(2)]) (use f c1 l in simp_all)
  then have "core s' = core (s1\<lparr>threadPool := threadPool s'\<rparr>)" by blast
  note c2 = core_fields[OF this]
  show ?thesis using h c1 c2 l by simp
qed

lemma server_stop_inv:
  assumes env: "env_ok env" and inv: "srv_inv s" and run: "server_stop env s = Inr s'"
  shows "srv_inv s' \<and> stopped s' \<and> (\<not> stopped s \<longrightarrow> \<not> draining s')"
proof (cases "stopped s")
  case True
  then show ?thesis using inv run by (simp add: server_stop_def)
next
  case False
  let ?s = "s\<lparr>stopped := True, draining := False\<rparr>"
  obtain s1 where s1: "stop_accepting ?s = Inr s1" "bind_res (forceCloseAllConnections env s1) (stop_pool env) = Inr s'"
    using run False by (auto simp: server_stop_def bind_res_Inr Let_def)
  have "base_inv (set (connections s)) ?s" using inv by (simp add: srv_inv_def)
  note a = stop_accepting_base[OF this s1(1)]
  note c = acceptor_step_fields[OF conjunct1[OF conjunct2[OF a]]]
  have alive: "lifetime s" using inv False by (auto simp: srv_inv_def life_inv_def)
  have "srv_inv s' \<and> stopped s' \<and> \<not> draining s'"
    by (rule close_all_inv[OF env _ _ _ _ _ _ s1(2)]) (use a c inv alive in \<open>simp_all add: srv_inv_def\<close>)
  then show ?thesis by blast
qed

lemma drain_timeout_inv:
  assumes env: "env_ok env" and base: "base_inv (set (connections s)) s" and dist: "distinct (connections s)"
    and dr: "draining s \<Longrightarrow> stopped s \<and> \<not> listening (srv_acceptor s) \<and> lifetime s" and nd: "\<not> draining s \<Longrightarrow> life_inv s"
    and run: "onDrainTimeout env s = Inr s'"
  shows "srv_inv s' \<and> \<not> draining s'"
proof (cases "draining s")
  case False
  then show ?thesis using run base dist nd by (auto simp: onDrainTimeout_def srv_inv_def life_inv_def)
next
  case True
  have r: "bind_res (forceCloseAllConnections env (s\<lparr>drainTimerId := 0, draining := False\<rparr>)) (stop_pool env) = Inr s'"
    using run True by (simp add: onDrainTimeout_def Let_def)
  have "srv_inv s' \<and> stopped s' \<and> \<not> draining s'"
    by (rule close_all_inv[OF env _ _ _ _ _ _ r]) (use base dist dr True in simp_all)
  then show ?thesis by blast
qed

lemma base_arm_drain:
  assumes base: "base_inv L s"
  shows "base_inv L (snd (run_after Base_loop DrainTimer s)) \<and>
    drains (snd (run_after Base_loop DrainTimer s)) = insert (nextTimer s) (drains s)"
proof -
  let ?s = "snd (run_after Base_loop DrainTimer s)"
  have tinv: "timer_inv s" using base by (simp add: base_inv_def)
  have fresh: "armed s l (nextTimer s) = None" for l
    using timer_ids[OF tinv, of l "nextTimer s"] by (cases "armed s l (nextTimer s)") auto
  have "timer_inv ?s"
  proof (rule timer_invI)
    fix k i m g y assume a: "armed ?s k i = Some (IdleTimer m g)" "objects ?s m = Some y"
    then show "is_idle_of m y k i g" using timer_back[OF tinv, of k i m g y] by (auto simp: run_after_def split: if_splits)
  next
    fix m y st' assume a: "objects ?s m = Some y" "o_idle y = Some st'" "idleTimerId st' \<noteq> 0"
    then show "1 \<le> idleTimerId st' \<and> idleTimerId st' < nextTimer ?s \<and>
       (armed ?s (o_loop y) (idleTimerId st') = None \<or> armed ?s (o_loop y) (idleTimerId st') = Some (IdleTimer m (generation st')))"
      using timer_mine[OF tinv, of m y st'] by (auto simp: run_after_def)
  next
    fix l i t assume "armed ?s l i = Some t"
    then show "1 \<le> i \<and> i < nextTimer ?s" using timer_ids[OF tinv, of l i t] timer_pos[OF tinv]
      by (auto simp: run_after_def split: if_splits)
  next
    fix k i m g assume "armed ?s k i = Some (IdleTimer m g)"
    then show "\<exists>j < nextConnId ?s. m = conn_name (srv_name ?s) j"
      using timer_named[OF tinv, of k i m g] by (auto simp: run_after_def split: if_splits)
  qed (use timer_pos[OF tinv] in \<open>simp add: run_after_def\<close>)
  moreover have "shape_of ?s = shape_of s" "named m ?s = named m s" for m by (simp_all add: run_after_def shape_of_def named_def)
  ultimately have "base_inv L ?s" using base by (simp add: base_inv_def) (simp add: run_after_def)
  moreover have "drains ?s = insert (nextTimer s) (drains s)" by (auto simp: drains_def run_after_def split: if_splits)
  ultimately show ?thesis by blast
qed

lemma stop_drain_inv:
  assumes env: "env_ok env" and inv: "srv_inv s" and run: "server_stop_drain env s = Inr s'"
  shows "srv_inv s' \<and> stopped s'"
proof (cases "stopped s")
  case True
  then show ?thesis using inv run by (simp add: server_stop_drain_def)
next
  case False
  let ?s = "s\<lparr>stopped := True, draining := True\<rparr>"
  have alive: "lifetime s" using inv False by (auto simp: srv_inv_def life_inv_def)
  obtain s1 where s1: "stop_accepting ?s = Inr s1" and r: "(if connections s1 = [] then stop_pool env (s1\<lparr>draining := False\<rparr>)
      else case run_after Base_loop DrainTimer s1 of (i, s) \<Rightarrow> Inr (s\<lparr>drainTimerId := i\<rparr>)) = Inr s'"
    using run False by (auto simp: server_stop_drain_def bind_res_Inr Let_def)
  have "base_inv (set (connections s)) ?s" and dist: "distinct (connections s)" using inv by (simp_all add: srv_inv_def)
  note a = stop_accepting_base[OF this(1) s1]
  note c = acceptor_step_fields[OF conjunct1[OF conjunct2[OF a]]]
  have b1: "base_inv (set (connections s1)) s1" using a c by simp
  show ?thesis
  proof (cases "connections s1 = []")
    case True
    then have r: "stop_pool env (s1\<lparr>draining := False\<rparr>) = Inr s'" using r by simp
    have h: "srv_inv s' \<and> p_state (threadPool s') = PStopped \<and> core s' = core (s1\<lparr>draining := False, threadPool := threadPool s'\<rparr>)"
      by (rule stop_pool_life[OF _ _ r]) (use b1 True a c alive in simp_all)
    then show ?thesis using core_fields(4)[of s' "s1\<lparr>draining := False, threadPool := threadPool s'\<rparr>"] c by simp
  next
    case ne: False
    then have s': "s' = (snd (run_after Base_loop DrainTimer s1))\<lparr>drainTimerId := nextTimer s1\<rparr>"
      using r by (simp add: run_after_def)
    note d = base_arm_drain[OF b1]
    have started: "started s" using inv ne c by (auto simp: srv_inv_def life_inv_def)
    have f: "connections s' = connections s1" "stopped s'" "draining s'" "started s'" "lifetime s'" "\<not> listening (srv_acceptor s')"
      "drainTimerId s' = nextTimer s1"
      using c a started alive by (simp_all add: s' run_after_def)
    have "base_inv (set (connections s')) s'" using d f(1) by (simp add: s')
    moreover have "drainTimerId s' \<in> drains s'" using d by (simp add: s')
    ultimately show ?thesis using f ne dist c by (simp add: srv_inv_def life_inv_def)
  qed
qed


section \<open>Destruction\<close>

lemma acceptor_dtor_base:
  assumes base: "base_inv L s" and run: "acceptor_dtor s = Inr s'" and nl: "\<not> listening (srv_acceptor s)"
  shows "base_inv L s' \<and> acceptor_step s s' \<and> \<not> listening (srv_acceptor s') \<and> acceptor_fds (srv_acceptor s') = {}"
proof -
  let ?a = "(srv_acceptor s)\<lparr>acceptSocket := kInvalidSocket\<rparr>"
  let ?fd = "acceptSocket (srv_acceptor s)"
  have ok: "fd_ok (acceptor_fds (srv_acceptor s)) (openFds s) (badClose s) (shape_of s) (abandoned s)" using base by (simp add: base_inv_def)
  define op where "op = (if isValid ?fd then openFds s - {?fd} else openFds s)"
  have op: "fd_ok (acceptor_fds ?a) op (badClose s) (shape_of s) (abandoned s)"
    using ok fd_release_acceptor[OF ok] by (auto simp: op_def acceptor_fds_def isValid_def split: if_splits)
  have s': "s' = s\<lparr>srv_acceptor := ?a, openFds := op\<rparr>"
    using run nl fd_release_acceptor[OF ok]
    by (cases "isValid ?fd") (auto simp: acceptor_dtor_def Socket_dtor_def op_def close_open sockets_close_def)
  then show ?thesis using base_fds[OF base op] nl by (auto simp: acceptor_step_def acceptor_fds_def isValid_def)
qed

definition drop_drain :: "server \<Rightarrow> server" where
  "drop_drain s = (if timer_id_valid (drainTimerId s) then cancel_timer Base_loop (drainTimerId s) s else s)"

lemma dtor_inv:
  assumes env: "env_ok env" and inv: "srv_inv s" and run: "server_dtor env s = Inr s'"
  shows "srv_inv s' \<and> acceptor_fds (srv_acceptor s') = {} \<and> \<not> lifetime s'"
proof -
  let ?s = "setNewConnectionCallback False (s\<lparr>stopped := True, draining := False, lifetime := False\<rparr>)"
  have dist: "distinct (connections s)" and b0: "base_inv (set (connections s)) ?s"
    using inv by (simp_all add: srv_inv_def base_callback)
  have f0: "connections ?s = connections s" "stopped ?s" "\<not> draining ?s" "\<not> lifetime ?s" "started ?s = started s"
    by (simp_all add: setNewConnectionCallback_def)
  obtain s1 where s1: "(if listening (srv_acceptor ?s) then acceptor_stop ?s else Inr ?s) = Inr s1"
    and r1: "bind_res (for_connections env FDtor (iteration env (connections (drop_drain s1))) ((drop_drain s1)\<lparr>connections := []\<rparr>))
         (\<lambda>s. bind_res (stop_pool env s) acceptor_dtor) = Inr s'"
    using run unfolding server_dtor_def Let_def drop_drain_def[symmetric] bind_res_Inr[where r = "if _ then _ else _"] by blast
  have "base_inv (set (connections s)) s1 \<and> acceptor_step ?s s1 \<and> \<not> listening (srv_acceptor s1)"
    using s1 acceptor_stop_base[OF b0, of s1] b0 acceptor_step_refl[of ?s] by (auto split: if_splits)
  then have b1: "base_inv (set (connections s)) s1" and nl: "\<not> listening (srv_acceptor s1)" and as: "acceptor_step ?s s1" by auto
  note c1 = acceptor_step_fields[OF as]
  define t where "t = drop_drain s1"
  have bt: "base_inv (set (connections s)) t" unfolding t_def drop_drain_def using b1 by (simp add: base_drop_timer)
  have ft: "connections t = connections s" "stopped t" "\<not> draining t" "\<not> lifetime t" "\<not> listening (srv_acceptor t)"
    using c1 f0 nl by (simp_all add: t_def drop_drain_def cancel_timer_def)
  obtain s2 s3 where s2: "for_connections env FDtor (iteration env (connections t)) (t\<lparr>connections := []\<rparr>) = Inr s2"
    and s3: "stop_pool env s2 = Inr s3" and s': "acceptor_dtor s3 = Inr s'"
    using r1 by (auto simp: t_def[symmetric] bind_res_Inr)
  have b2: "base_inv {} s2 \<and> still (t\<lparr>connections := []\<rparr>) s2"
    by (rule base_for[OF _ _ _ s2]) (use bt ft dist env in \<open>simp_all add: env_ok_def\<close>)
  then have "core s2 = core (t\<lparr>connections := []\<rparr>)" by (simp add: still_def)
  note c2 = core_fields[OF this]
  have h: "base_inv {} s3 \<and> core s3 = core (s2\<lparr>threadPool := threadPool s3\<rparr>) \<and> p_state (threadPool s3) = PStopped"
    using base_stop_pool[OF conjunct1[OF b2] s3] by blast
  note c3 = core_fields[of s3 "s2\<lparr>threadPool := threadPool s3\<rparr>"]
  have f3: "connections s3 = []" "stopped s3" "\<not> draining s3" "\<not> lifetime s3" "\<not> listening (srv_acceptor s3)"
    using h c3 c2 ft by simp_all
  have b3: "base_inv (set (connections s3)) s3" using h f3(1) by simp
  note d = acceptor_dtor_base[OF b3 s' f3(5)]
  note c4 = acceptor_step_fields[OF conjunct1[OF conjunct2[OF d]]]
  have "base_inv {} s'" using d f3 by simp
  then show ?thesis using d c4 f3 h by (simp add: srv_inv_def life_inv_def)
qed

section \<open>Steps\<close>

lemma srv_drop_timer:
  assumes "srv_inv s" "draining s \<longrightarrow> l \<noteq> Base_loop \<or> armed s l i \<noteq> Some DrainTimer"
  shows "srv_inv (cancel_timer l i s)"
proof -
  have "draining s \<longrightarrow> drainTimerId s \<in> drains s" using assms(1) by (simp add: srv_inv_def life_inv_def)
  then have "draining s \<longrightarrow> drainTimerId s \<in> drains (cancel_timer l i s)"
    using assms(2) by (auto simp: drains_def cancel_timer_def)
  moreover have "base_inv (set (connections s)) (cancel_timer l i s)" using assms(1) base_drop_timer by (simp add: srv_inv_def)
  ultimately show ?thesis using assms(1) by (simp add: srv_inv_def life_inv_def) (simp add: cancel_timer_def)
qed

lemma keeps_idle_zero:
  assumes "objects s n = Some x" "o_idle x = Some st" "\<forall>l i g. armed s l i \<noteq> Some (IdleTimer n g)"
  shows "effect [] s (set_idle n (st\<lparr>idleTimerId := 0\<rparr>) s)"
proof -
  let ?s = "set_idle n (st\<lparr>idleTimerId := 0\<rparr>) s"
  have obj: "objects ?s m = (if m = n then Some (x\<lparr>o_idle := Some (st\<lparr>idleTimerId := 0\<rparr>)\<rparr>) else objects s m)" for m
    using assms(1) by (simp add: set_idle_def)
  have flds: "armed ?s = armed s" "nextTimer ?s = nextTimer s" "nextConnId ?s = nextConnId s" "srv_name ?s = srv_name s"
    by (simp_all add: set_idle_def)
  have "timer_inv ?s" if inv: "timer_inv s"
  proof (rule timer_invI, unfold flds)
    fix k i m g y assume a: "armed s k i = Some (IdleTimer m g)" "objects ?s m = Some y"
    then have "m \<noteq> n" using assms(3) by blast
    then show "is_idle_of m y k i g" using a timer_back[OF inv a(1), of y] by (simp add: obj)
  next
    fix m y st' assume a: "objects ?s m = Some y" "o_idle y = Some st'" "idleTimerId st' \<noteq> 0"
    then have "objects s m = Some y" by (auto simp: obj split: if_splits)
    then show "1 \<le> idleTimerId st' \<and> idleTimerId st' < nextTimer s \<and>
       (armed s (o_loop y) (idleTimerId st') = None \<or> armed s (o_loop y) (idleTimerId st') = Some (IdleTimer m (generation st')))"
      using timer_mine[OF inv _ a(2,3)] by blast
  qed (use timer_ids[OF inv] timer_named[OF inv] timer_pos[OF inv] in blast)+
  then have "keeps_timers s ?s" by (simp add: keeps_timers_def drains_def flds)
  moreover have "frame [] s ?s" by (auto simp: frame_def set_idle_def core_def intro!: exI[of _ "[]"])
     (use shape_idle[of n "st\<lparr>idleTimerId := 0\<rparr>" s] in \<open>simp add: set_idle_def\<close>)
  ultimately show ?thesis by (simp add: effect_def)
qed

lemma idle_fire_inv:
  assumes inv: "srv_inv s" and arm: "armed s l i = Some (IdleTimer n g)" and run: "idle_fire env n g (cancel_timer l i s) = Inr s'"
  shows "srv_inv s'"
proof -
  let ?s = "cancel_timer l i s"
  have i1: "srv_inv ?s" by (rule srv_drop_timer[OF inv]) (simp add: arm)
  have tinv: "timer_inv s" using inv by (simp add: srv_inv_def base_inv_def)
  have nm: "named n ?s" using timer_named[OF tinv arm] by (simp add: named_def cancel_timer_def)
  show ?thesis
  proof (cases "objects ?s n")
    case None
    then show ?thesis using run i1 by (simp add: idle_fire_def)
  next
    case (Some x)
    then have x: "objects s n = Some x" by (simp add: cancel_timer_def)
    obtain st where st: "o_idle x = Some st" "idleTimerId st = i" "generation st = g" "o_loop x = l"
      using timer_back[OF tinv arm x] by (auto simp: is_idle_of_def)
    have only: "armed ?s k j \<noteq> Some (IdleTimer n h)" for k j h
      using timer_back[OF tinv, of k j n h x] x st by (auto simp: cancel_timer_def is_idle_of_def)
    have e: "effect [] ?s (set_idle n (st\<lparr>idleTimerId := 0\<rparr>) ?s)" by (rule keeps_idle_zero[OF Some st(1)]) (use only in blast)
    let ?t = "set_idle n (st\<lparr>idleTimerId := 0\<rparr>) ?s"
    show ?thesis
    proof (cases "c_state (o_conn x) = kConnected")
      case False
      then show ?thesis using run Some st srv_effect[OF i1 e] by (simp add: idle_fire_def Let_def)
    next
      case True
      then have r: "conn_op n (forceClose (user_exec env n) True) (?t\<lparr>conn_events := conn_events ?t @ [(n, Ev_IdleTimeout)]\<rparr>) = Inr s'"
        using run Some st by (simp add: idle_fire_def Let_def)
      have e2: "effect [] ?s (?t\<lparr>conn_events := conn_events ?t @ [(n, Ev_IdleTimeout)]\<rparr>)" by (rule effect_trans'[OF e effect_events])
      have "effect [] ?s s'" by (rule effect_trans'[OF e2 effect_conn_op[OF r]]) (use e2 effect_named nm in blast)
      then show ?thesis by (rule srv_effect[OF i1])
    qed
  qed
qed


lemma srv_pop_base:
  assumes inv: "srv_inv s" and q: "queues s Base_loop = f # fs"
  shows "(\<exists>n. f = FRemove n) \<and> srv_inv (s\<lparr>queues := (queues s)(Base_loop := fs)\<rparr>)"
proof -
  let ?s = "s\<lparr>queues := (queues s)(Base_loop := fs)\<rparr>"
  have base: "base_inv (set (connections s)) s" using inv by (simp add: srv_inv_def)
  then have o: "own (set (connections s)) (shape_of s) ((queues s)(Base_loop := f # fs)) (destroyed s)"
    using q by (simp add: base_inv_def fun_upd_idem)
  have "queue_ok (set (connections s)) (shape_of s) (set (destroyed s)) Base_loop (f # fs)" using ownD[OF o, of Base_loop] by simp
  then have f: "removes f" by (simp add: queue_ok_def)
  then obtain n where n: "f = FRemove n" by (cases f) simp_all
  have "own (set (connections s)) (shape_of s) (queues ?s) (destroyed s)" using own_run[OF o] n by simp
  moreover have "placed (loops (threadPool s)) (set (connections s)) (shape_of s) (queues ?s)"
    using base by (simp add: base_inv_def placed_def)
  moreover have "timer_inv ?s = timer_inv s" by (rule timer_inv_cong) simp_all
  moreover have "named m ?s = named m s" for m by (simp add: named_def)
  ultimately have "base_inv (set (connections s)) ?s" using base by (simp add: base_inv_def)
  then show ?thesis using inv n by (simp add: srv_inv_def life_inv_def)
qed

lemma fd_release_object:
  assumes ok: "fd_ok acc op bad sh ab" and n: "sh n = Some (l, fd)"
  shows "fd \<in> op \<and> isValid fd \<and> fd_ok acc (op - {fd}) bad (sh(n := None)) ab"
proof -
  have f: "\<not> bad" "op = acc \<union> object_fds sh \<union> ab" "acc \<inter> object_fds sh = {}" "acc \<inter> ab = {}" "object_fds sh \<inter> ab = {}"
    "\<forall>fd \<in> op. isValid fd" and inj: "\<forall>n m l k fd. sh n = Some (l, fd) \<longrightarrow> sh m = Some (k, fd) \<longrightarrow> n = m"
    using ok unfolding fd_ok_def by blast+
  have o: "object_fds (sh(n := None)) = object_fds sh - {fd}"
  proof (rule set_eqI, rule iffI)
    fix f assume "f \<in> object_fds (sh(n := None))"
    then obtain m k where m: "(sh(n := None)) m = Some (k, f)" unfolding object_fds_def by blast
    then have "m \<noteq> n" "sh m = Some (k, f)" by (auto split: if_splits)
    then show "f \<in> object_fds sh - {fd}" using inj n unfolding object_fds_def by blast
  next
    fix f assume "f \<in> object_fds sh - {fd}"
    then obtain m k where m: "sh m = Some (k, f)" "f \<noteq> fd" unfolding object_fds_def by blast
    then have "(sh(n := None)) m = Some (k, f)" using n by auto
    then show "f \<in> object_fds (sh(n := None))" unfolding object_fds_def by blast
  qed
  have "fd \<in> object_fds sh" using n by (auto simp: object_fds_def)
  moreover have "\<forall>n' m l k fd. (sh(n := None)) n' = Some (l, fd) \<longrightarrow> (sh(n := None)) m = Some (k, fd) \<longrightarrow> n' = m"
    using inj by (metis fun_upd_apply option.distinct(1))
  ultimately show ?thesis using f unfolding fd_ok_def o by blast
qed

lemma release_inv:
  assumes inv: "srv_inv s" and x: "objects s n = Some x" and d: "n \<in> set (destroyed s)"
  shows "srv_inv (Socket_dtor (o_fd x) (s\<lparr>objects := (objects s)(n := None)\<rparr>))"
proof -
  let ?t = "s\<lparr>objects := (objects s)(n := None)\<rparr>"
  let ?s = "?t\<lparr>openFds := openFds s - {o_fd x}\<rparr>"
  have base: "base_inv (set (connections s)) s" using inv by (simp add: srv_inv_def)
  have sh: "shape_of s n = Some (o_loop x, o_fd x)" using x by (simp add: shape_of_def)
  have sh': "shape_of ?s = (shape_of s)(n := None)" by (auto simp: shape_of_def)
  have fd: "fd_ok (acceptor_fds (srv_acceptor s)) (openFds s) (badClose s) (shape_of s) (abandoned s)" using base by (simp add: base_inv_def)
  note r = fd_release_object[OF fd sh]
  have "Socket_dtor (o_fd x) ?t = ?s" using close_open[of "o_fd x" ?t] r by (simp add: Socket_dtor_def)
  moreover have "own (set (connections s)) (shape_of ?s) (queues s) (destroyed s)"
    unfolding sh' by (rule own_release) (use base d in \<open>simp_all add: base_inv_def\<close>)
  moreover have "placed (loops (threadPool s)) (set (connections s)) (shape_of ?s) (queues s)"
    using base unfolding sh' by (auto simp: base_inv_def placed_def)
  moreover have "timer_inv ?t" using base keeps_updates(10)[of s n] by (simp add: base_inv_def keeps_timers_def)
  then have "timer_inv ?s" by (subst timer_inv_cong[of ?s ?t]) simp_all
  moreover have "named m ?s = named m s" for m by (simp add: named_def)
  moreover have "\<forall>m. shape_of ?s m \<noteq> None \<or> m \<in> set (destroyed s) \<longrightarrow> named m s"
    using base unfolding sh' base_inv_def by auto
  ultimately have "base_inv (set (connections s)) ?s" using base r sh' by (simp add: base_inv_def)
  then show ?thesis using inv \<open>Socket_dtor (o_fd x) ?t = ?s\<close> by (simp add: srv_inv_def life_inv_def drains_def)
qed

lemma object_named: "srv_inv s \<Longrightarrow> objects s n \<noteq> None \<Longrightarrow> named n s"
  by (auto simp: srv_inv_def base_inv_def shape_of_def)

lemma run_inv:
  assumes inv: "srv_inv s" and q: "queues s l = f # fs" and run: "run_functor env f (s\<lparr>queues := (queues s)(l := fs)\<rparr>) = Inr s'"
  shows "srv_inv s'"
proof (cases "l = Base_loop")
  case True
  let ?s = "s\<lparr>queues := (queues s)(Base_loop := fs)\<rparr>"
  obtain n where n: "f = FRemove n" and i: "srv_inv ?s" using srv_pop_base[OF inv] q True by auto
  show ?thesis using run n i removeConnection_inv[OF i, of env n s'] True by (auto simp: run_functor_def split: if_splits)
next
  case False
  let ?s = "s\<lparr>queues := (queues s)(l := fs)\<rparr>"
  have base: "base_inv (set (connections s)) s" using inv by (simp add: srv_inv_def)
  then have "own (set (connections s)) (shape_of s) (queues s) (destroyed s)" by (simp add: base_inv_def)
  then have "queue_ok (set (connections s)) (shape_of s) (set (destroyed s)) l (f # fs)" using ownD[of _ _ _ _ l] q by metis
  then have "\<not> removes f" using False by (simp add: queue_ok_def)
  then have r: "conn_functor env f ?s = Inr s'" using run by (cases f) (simp_all add: run_functor_def)
  have "base_inv (set (connections s)) (?s\<lparr>queues := (queues ?s)(l := f # fs)\<rparr>)" using base q by (simp add: fun_upd_idem)
  note b = base_functor[OF this False r]
  then have "queues s' = (queues ?s)(Base_loop := queues s' Base_loop)" by blast
  from fun_cong[OF this, of l] have "queues s' l = fs" using False by simp
  then have "s'\<lparr>queues := (queues s')(l := fs)\<rparr> = s'" by (simp add: fun_upd_idem)
  moreover have "still s s'" using b by (simp add: still_def)
  ultimately show ?thesis using srv_still[OF inv] b by simp
qed

lemma step_inv:
  assumes env: "env_ok env" and inv: "srv_inv s" and run: "server_step env e s = Inr s'"
  shows "srv_inv s'"
proof (cases e)
  case (SvConfig c)
  then show ?thesis using run inv config_inv by (auto split: if_splits)
next
  case (SvStart init starts)
  then show ?thesis using run inv server_start_inv[OF inv] by (auto simp: bind_res_Inr split: if_splits)
next
  case (SvAccept running as)
  have "started s" if "listening (srv_acceptor s)" using inv that by (auto simp: srv_inv_def life_inv_def)
  then show ?thesis using run inv SvAccept accept_inv[OF inv] by (auto simp: bind_res_Inr split: if_splits)
next
  case (SvRun l)
  then show ?thesis using run inv run_inv[OF inv] by (auto split: list.splits)
next
  case (SvTimer l i)
  show ?thesis
  proof (cases "armed s l i")
    case None
    then show ?thesis using run inv SvTimer by simp
  next
    case (Some t)
    then have r: "run_timer env t (cancel_timer l i s) = Inr s'" using run SvTimer by simp
    show ?thesis
    proof (cases t)
      case (IdleTimer n g)
      then show ?thesis using idle_fire_inv[OF inv, of l i n g env s'] Some r by (simp add: run_timer_def)
    next
      case DrainTimer
      let ?s = "cancel_timer l i s"
      have b: "base_inv (set (connections ?s)) ?s" using inv base_drop_timer by (simp add: srv_inv_def cancel_timer_def)
      have nd: "life_inv ?s" if "\<not> draining s" using inv that by (auto simp: srv_inv_def life_inv_def cancel_timer_def)
      show ?thesis
      proof (cases "lifetime s")
        case True
        then have r: "onDrainTimeout env ?s = Inr s'" using r DrainTimer by (simp add: run_timer_def cancel_timer_def)
        have "srv_inv s' \<and> \<not> draining s'"
          by (rule drain_timeout_inv[OF env b _ _ _ r]) (use inv nd in \<open>auto simp: cancel_timer_def srv_inv_def life_inv_def\<close>)
        then show ?thesis by blast
      next
        case False
        then have "\<not> draining s" using inv by (simp add: srv_inv_def life_inv_def)
        then have "srv_inv ?s" using b nd inv by (simp add: srv_inv_def cancel_timer_def)
        then show ?thesis using r False DrainTimer by (simp add: run_timer_def cancel_timer_def)
      qed
    qed
  qed
next
  case (SvConn n ev)
  show ?thesis
  proof (cases "app_event ev \<and> objects s n \<noteq> None")
    case True
    then have "conn_op n (tcp_step (user_exec env n) ev) s = Inr s'" using run SvConn by simp
    then show ?thesis using srv_effect[OF inv effect_conn_op] object_named[OF inv] True by blast
  next
    case False
    then have "s' = s" using run SvConn by (simp only: server_step.simps if_False sum.inject)
    then show ?thesis using inv by simp
  qed
next
  case SvStop
  then show ?thesis using run inv server_stop_inv[OF env inv] by (auto split: if_splits)
next
  case SvStopDrain
  then show ?thesis using run inv stop_drain_inv[OF env inv] by (auto split: if_splits)
next
  case (SvRelease n)
  then show ?thesis using run inv release_inv[OF inv] by (auto split: option.splits if_splits)
next
  case SvDtor
  then show ?thesis using run inv dtor_inv[OF env inv] by (auto split: if_splits)
qed


lemma init_inv:
  assumes "TcpServer fd name opts = Inr s" "isValid fd"
  shows "srv_inv s"
proof -
  obtain p q where p: "EventLoopThreadPool True = Inr p" "setThreadNum (opt_numThreads opts) p = (Inr (), q)"
    and s: "s = setNewConnectionCallback True (server_members fd name opts q)"
    using assms(1) by (auto simp: TcpServer_def bind_res_Inr) (metis prod.collapse)
  have pinv: "pool_inv q" "p_state q = PStopped"
  proof -
    have "pool_inv p" by (rule preach_inv[OF preach_init[OF p(1)]])
    moreover have "pool_do (\<lambda>_. None) (\<lambda>_. True) (PSetNum (opt_numThreads opts)) p = (Inr (), q)" using p(2) by (simp add: pool_do_def pool_call_def)
    ultimately show "pool_inv q" using pool_do_inv by blast
    show "p_state q = PStopped" using p by (auto simp: EventLoopThreadPool_def setThreadNum_def split: if_splits)
  qed
  have sh: "shape_of s = (\<lambda>_. None)" by (simp add: s setNewConnectionCallback_def server_members_def shape_of_def)
  have f: "queues s = (\<lambda>_. [])" "destroyed s = []" "threadPool s = q" "openFds s = {fd}" "badClose s = False" "abandoned s = {}"
    "srv_acceptor s = (Acceptor fd)\<lparr>newConnectionCallback := True\<rparr>" "connections s = []" "\<not> draining s" "\<not> stopped s" "lifetime s" "\<not> started s"
    by (simp_all add: s setNewConnectionCallback_def server_members_def)
  have "own {} (shape_of s) (queues s) (destroyed s)" by (simp add: own_def queue_ok_def covered_def f sh)
  moreover have "timer_inv s" by (rule timer_invI) (simp_all add: s setNewConnectionCallback_def server_members_def)
  moreover have "fd_ok (acceptor_fds (srv_acceptor s)) (openFds s) (badClose s) (shape_of s) (abandoned s)"
    using assms(2) by (simp add: fd_ok_def f sh object_fds_def acceptor_fds_def Acceptor_def)
  ultimately have "base_inv {} s" using pinv by (simp add: base_inv_def placed_def f sh)
  then show ?thesis using pinv by (simp add: srv_inv_def life_inv_def f Acceptor_def)
qed

lemma server_run_inv: "env_ok env \<Longrightarrow> srv_inv s \<Longrightarrow> server_run env es s = Inr s' \<Longrightarrow> srv_inv s'"
proof (induction es arbitrary: s)
  case (Cons e es)
  then obtain s1 where s1: "server_step env e s = Inr s1" "server_run env es s1 = Inr s'" by (auto simp: bind_res_Inr)
  show ?case by (rule Cons.IH[OF Cons.prems(1) step_inv[OF Cons.prems(1,2) s1(1)] s1(2)])
qed simp

text \<open>A server in some state that its constructor and a sequence of events bring about.\<close>

definition server_reach :: "server_env \<Rightarrow> server \<Rightarrow> bool" where
  "server_reach env s \<longleftrightarrow> env_ok env \<and>
     (\<exists>fd name opts es s0. isValid fd \<and> TcpServer fd name opts = Inr s0 \<and> server_run env es s0 = Inr s)"

lemma server_reach_inv: "server_reach env s \<Longrightarrow> srv_inv s"
  unfolding server_reach_def using init_inv server_run_inv by blast

section \<open>Descriptors that an exception leaves behind\<close>

lemma abandoned_idle [simp]:
  "abandoned (cancelIdleTimer n s) = abandoned s" "abandoned (refreshIdleTimer n s) = abandoned s"
  using frame_idle[of s n] core_fields(13) unfolding frame_def by blast+

lemma abandoned_wrapper [simp]: "abandoned (wrapper n nt s) = abandoned s"
  by (induction n nt s rule: wrapper.induct) (simp_all add: post_base_def)

lemma abandoned_wrappers [simp]: "abandoned (fold (wrapper n) nts s) = abandoned s"
  by (induction nts arbitrary: s) simp_all

lemma abandoned_conn_op: "conn_op n f s = Inr s' \<Longrightarrow> abandoned s' = abandoned s"
  by (auto simp: conn_op_def bind_res_Inr split: option.splits)

lemma abandoned_destroyed: "connect_destroyed env n s = Inr s' \<Longrightarrow> abandoned s' = abandoned s"
  by (auto simp: connect_destroyed_def bind_res_Inr dest: abandoned_conn_op)

lemma abandoned_note [simp]: "abandoned (note_force_closed n s) = abandoned s"
  by (simp add: note_force_closed_def split: option.split)

lemma abandoned_functor: "conn_functor env f s = Inr s' \<Longrightarrow> abandoned s' = abandoned s"
  by (cases f) (auto simp: bind_res_Inr Let_def dest!: abandoned_conn_op abandoned_destroyed)

lemma abandoned_functors: "conn_functors env fs s = Inr s' \<Longrightarrow> abandoned s' = abandoned s"
  by (induction fs arbitrary: s) (auto simp: bind_res_Inr dest: abandoned_functor)

lemma abandoned_in_loop: "run_in_loop env l f s = Inr s' \<Longrightarrow> abandoned s' = abandoned s"
  by (auto simp: run_in_loop_def dest: abandoned_functor split: if_splits)

lemma abandoned_for: "for_connections env F ns s = Inr s' \<Longrightarrow> abandoned s' = abandoned s"
  by (induction ns arbitrary: s) (auto simp: bind_res_Inr dest: abandoned_in_loop)

lemma abandoned_finish: "finish_workers env ls s = Inr s' \<Longrightarrow> abandoned s' = abandoned s"
proof (induction ls arbitrary: s)
  case (Cons l ls)
  then obtain s1 where s1: "conn_functors env (queues s l) (s\<lparr>queues := (queues s)(l := [])\<rparr>) = Inr s1"
    "finish_workers env ls (s1\<lparr>armed := (armed s1)(l := Map.empty)\<rparr>) = Inr s'" by (auto simp: bind_res_Inr)
  then show ?case using Cons.IH[OF s1(2)] abandoned_functors[OF s1(1)] by simp
qed simp

lemma abandoned_stop_pool: "stop_pool env s = Inr s' \<Longrightarrow> abandoned s' = abandoned s"
  by (erule stop_poolE) (simp add: abandoned_finish)

lemma abandoned_close [simp]: "abandoned (sockets_close fd s) = abandoned s"
  by (simp add: sockets_close_def)

lemma abandoned_acceptor_stop:
  assumes "acceptor_stop s = Inr s'"
  shows "abandoned s' = abandoned s"
proof (cases "listening (srv_acceptor s)")
  case True
  define t where "t = s\<lparr>srv_acceptor := (srv_acceptor s)\<lparr>listening := False,
    acceptChannel := (ch_disableAll (acceptChannel (srv_acceptor s)))\<lparr>ch_addedToLoop := False\<rparr>, acceptSocket := kInvalidSocket\<rparr>\<rparr>"
  have "s' = (if isValid (acceptSocket (srv_acceptor s)) then sockets_close (acceptSocket (srv_acceptor s)) t else t)"
    using assms True by (cases "isValid (acceptSocket (srv_acceptor s))") (simp_all add: acceptor_stop_def unregister_eq releaseFd_def Let_def t_def)
  then show ?thesis by (simp add: t_def)
qed (use assms in \<open>simp add: acceptor_stop_def\<close>)

lemma abandoned_acceptor: "stop_accepting s = Inr s' \<Longrightarrow> abandoned s' = abandoned s"
  using abandoned_acceptor_stop[of "setNewConnectionCallback False s" s']
  by (cases "listening (srv_acceptor s)") (simp_all add: stop_accepting_def, simp add: setNewConnectionCallback_def)

lemma abandoned_acceptor_dtor: "acceptor_dtor s = Inr s' \<Longrightarrow> abandoned s' = abandoned s"
  by (cases "listening (srv_acceptor s)") (auto simp: acceptor_dtor_def unregister_eq Socket_dtor_def)

lemma abandoned_finish_drain:
  assumes "finish_drain env s = Inr s'"
  shows "abandoned s' = abandoned s"
proof (cases "draining s \<and> connections s = []")
  case True
  define t where "t = (if timer_id_valid (drainTimerId s)
    then (cancel_timer Base_loop (drainTimerId s) (s\<lparr>draining := False\<rparr>))\<lparr>drainTimerId := 0\<rparr> else s\<lparr>draining := False\<rparr>)"
  have "stop_pool env t = Inr s'" using assms True by (cases "timer_id_valid (drainTimerId s)") (simp_all add: finish_drain_def t_def Let_def)
  from abandoned_stop_pool[OF this] show ?thesis by (simp add: t_def cancel_timer_def)
next
  case False
  then show ?thesis using assms unfolding finish_drain_def by (simp only: if_False sum.inject)
qed

lemma abandoned_remove: "removeConnectionInLoop env n s = Inr s' \<Longrightarrow> abandoned s' = abandoned s"
  by (cases "n \<in> set (connections s)")
    (auto simp: removeConnectionInLoop_def Let_def bind_res_Inr dest!: abandoned_in_loop abandoned_finish_drain)

lemma abandoned_all: "forceCloseAllConnections env s = Inr s' \<Longrightarrow> abandoned s' = abandoned s"
  unfolding forceCloseAllConnections_def Let_def by (drule abandoned_for) simp

lemma abandoned_stop:
  assumes "server_stop env s = Inr s'"
  shows "abandoned s' = abandoned s"
proof (cases "stopped s")
  case False
  then obtain s1 s2 where r: "stop_accepting (s\<lparr>stopped := True, draining := False\<rparr>) = Inr s1"
    "forceCloseAllConnections env s1 = Inr s2" "stop_pool env s2 = Inr s'"
    using assms unfolding server_stop_def Let_def by (auto simp: bind_res_Inr)
  then show ?thesis using abandoned_acceptor[OF r(1)] abandoned_all[OF r(2)] abandoned_stop_pool[OF r(3)] by simp
qed (use assms in \<open>simp add: server_stop_def\<close>)

lemma abandoned_drain:
  assumes "server_stop_drain env s = Inr s'"
  shows "abandoned s' = abandoned s"
proof (cases "stopped s")
  case False
  then obtain s1 where s1: "stop_accepting (s\<lparr>stopped := True, draining := True\<rparr>) = Inr s1"
    and r: "(if connections s1 = [] then stop_pool env (s1\<lparr>draining := False\<rparr>)
      else case run_after Base_loop DrainTimer s1 of (i, s) \<Rightarrow> Inr (s\<lparr>drainTimerId := i\<rparr>)) = Inr s'"
    using assms unfolding server_stop_drain_def Let_def by (auto simp: bind_res_Inr)
  have "abandoned s' = abandoned s1"
    using r abandoned_stop_pool[of env "s1\<lparr>draining := False\<rparr>" s'] by (auto simp: run_after_def split: if_splits)
  then show ?thesis using abandoned_acceptor[OF s1] by simp
qed (use assms in \<open>simp add: server_stop_drain_def\<close>)

lemma abandoned_timeout:
  assumes "onDrainTimeout env s = Inr s'"
  shows "abandoned s' = abandoned s"
proof (cases "draining s")
  case True
  then obtain s1 where r: "forceCloseAllConnections env (s\<lparr>drainTimerId := 0, draining := False\<rparr>) = Inr s1" "stop_pool env s1 = Inr s'"
    using assms unfolding onDrainTimeout_def Let_def by (auto simp: bind_res_Inr)
  then show ?thesis using abandoned_all[OF r(1)] abandoned_stop_pool[OF r(2)] by simp
next
  case False
  then have "s' = s\<lparr>drainTimerId := 0\<rparr>" using assms by (simp add: onDrainTimeout_def Let_def)
  then show ?thesis by simp
qed

lemma abandoned_dtor:
  assumes "server_dtor env s = Inr s'"
  shows "abandoned s' = abandoned s"
proof -
  let ?s = "setNewConnectionCallback False (s\<lparr>stopped := True, draining := False, lifetime := False\<rparr>)"
  obtain s1 where s1: "(if listening (srv_acceptor ?s) then acceptor_stop ?s else Inr ?s) = Inr s1"
    and r1: "bind_res (for_connections env FDtor (iteration env (connections (drop_drain s1))) ((drop_drain s1)\<lparr>connections := []\<rparr>))
         (\<lambda>s. bind_res (stop_pool env s) acceptor_dtor) = Inr s'"
    using assms unfolding server_dtor_def Let_def drop_drain_def[symmetric] bind_res_Inr[where r = "if _ then _ else _"] by blast
  obtain s2 s3 where s2: "for_connections env FDtor (iteration env (connections (drop_drain s1))) ((drop_drain s1)\<lparr>connections := []\<rparr>) = Inr s2"
    "stop_pool env s2 = Inr s3" "acceptor_dtor s3 = Inr s'" using r1 by (auto simp: bind_res_Inr)
  have "abandoned s1 = abandoned s"
    using s1 abandoned_acceptor_stop[of ?s s1] by (auto simp: setNewConnectionCallback_def split: if_splits)
  then show ?thesis using abandoned_for[OF s2(1)] abandoned_stop_pool[OF s2(2)] abandoned_acceptor_dtor[OF s2(3)]
    by (simp add: drop_drain_def cancel_timer_def split: if_splits)
qed


lemma abandoned_idle_fire:
  assumes "idle_fire env n g s = Inr s'"
  shows "abandoned s' = abandoned s"
proof (cases "objects s n")
  case (Some x)
  show ?thesis
  proof (cases "o_idle x")
    case st: (Some st)
    show ?thesis
    proof (cases "generation st = g \<and> c_state (o_conn x) = kConnected")
      case True
      let ?s = "set_idle n (st\<lparr>idleTimerId := 0\<rparr>) s"
      have "conn_op n (forceClose (user_exec env n) True) (?s\<lparr>conn_events := conn_events ?s @ [(n, Ev_IdleTimeout)]\<rparr>) = Inr s'"
        using assms Some st True by (simp add: idle_fire_def Let_def)
      from abandoned_conn_op[OF this] show ?thesis by (simp add: set_idle_def)
    next
      case False
      then have "s' = s \<or> s' = set_idle n (st\<lparr>idleTimerId := 0\<rparr>) s"
        using assms Some st by (auto simp: idle_fire_def Let_def split: if_splits)
      then show ?thesis by (auto simp: set_idle_def)
    qed
  qed (use assms Some in \<open>simp add: idle_fire_def\<close>)
qed (use assms in \<open>simp add: idle_fire_def\<close>)

lemma abandoned_run:
  assumes "run_functor env f s = Inr s'"
  shows "abandoned s' = abandoned s"
proof (cases "removes f")
  case True
  then obtain n where "f = FRemove n" by (cases f) simp_all
  then show ?thesis using assms abandoned_remove[of env n s s'] by (cases "lifetime s") (simp_all add: run_functor_def)
next
  case False
  then have "conn_functor env f s = Inr s'" using assms by (cases f) (simp_all add: run_functor_def)
  then show ?thesis by (rule abandoned_functor)
qed

lemma abandoned_timer:
  assumes "run_timer env t s = Inr s'"
  shows "abandoned s' = abandoned s"
proof (cases t)
  case DrainTimer
  then show ?thesis using assms abandoned_timeout[of env s s'] by (cases "lifetime s") (simp_all add: run_timer_def)
next
  case (IdleTimer n g)
  then show ?thesis using assms abandoned_idle_fire[of env n g s s'] by (simp add: run_timer_def)
qed

lemma abandoned_start:
  assumes "server_start env init starts s = Inr (err, s')"
  shows "abandoned s' = abandoned s"
proof (cases "started s")
  case False
  let ?s = "s\<lparr>started := True, stopped := False\<rparr>"
  obtain r q where pd: "pool_do starts (\<lambda>_. True) (PStart init) (threadPool s) = (r, q)" by (metis prod.exhaust)
  show ?thesis
  proof (cases r)
    case (Inl e)
    then obtain s1 where s1: "stop_pool env (?s\<lparr>threadPool := q\<rparr>) = Inr s1" "s' = s1\<lparr>started := False, stopped := False\<rparr>"
      using assms False pd by (auto simp: server_start_def bind_res_Inr Let_def)
    then show ?thesis using abandoned_stop_pool[OF s1(1)] by simp
  next
    case (Inr u)
    then have "s' = acceptor_listen (?s\<lparr>threadPool := q\<rparr>)" using assms False pd by (simp add: server_start_def Let_def)
    then show ?thesis by (simp add: acceptor_listen_def Let_def)
  qed
qed (use assms in \<open>simp add: server_start_def\<close>)

lemma abandoned_config [simp]: "abandoned (snd (server_config c s)) = abandoned s"
  by (cases c) (auto simp: server_setThreadNum_def setIdleTimeout_def server_setBackpressurePolicy_def split: prod.splits sum.splits)

text \<open>With every worker dispatching, \<open>getNextLoop\<close> does not throw.\<close>

lemma abandoned_new:
  assumes "newConnection env running fd s = Inr (err, s')" "pool_inv (threadPool s)" "\<forall>t. running t"
  shows "abandoned s' = abandoned s"
proof (cases "stopped s")
  case True
  then show ?thesis using assms(1) by (auto simp: newConnection_def)
next
  case False
  have ok: "getNextLoop running True (threadPool s) = (Inl e, p) \<Longrightarrow> False" for e p
    using assms(2,3) by (auto simp: getNextLoop_eq split: if_splits)
  obtain l p where g: "getNextLoop running True (threadPool s) = (Inr l, p)"
    using ok by (metis prod.exhaust sum.exhaust)
  then show ?thesis using assms(1) False
    by (auto simp: newConnection_def bind_res_Inr Let_def dest!: abandoned_conn_op abandoned_in_loop)
qed

lemma abandoned_accept:
  "acceptor_handleRead env running as s = Inr (err, s') \<Longrightarrow> srv_inv s \<Longrightarrow> started s \<Longrightarrow> \<forall>t. running t \<Longrightarrow> abandoned s' = abandoned s"
proof (induction env running as s arbitrary: s' rule: acceptor_handleRead.induct)
  case (2 env running connfd as s)
  let ?s = "s\<lparr>openFds := insert connfd (openFds s)\<rparr>"
  show ?case
  proof (cases "\<not> isValid connfd \<or> connfd \<in> openFds s")
    case True
    then have "s' = s" using 2(3) by (simp only: acceptor_handleRead.simps if_True sum.inject prod.inject)
    then show ?thesis by simp
  next
    case False
    then have fd: "isValid connfd" "connfd \<notin> openFds s" by auto
    show ?thesis
    proof (cases "newConnectionCallback (srv_acceptor ?s)")
      case cb: True
      obtain e s1 where s1: "newConnection env running connfd ?s = Inr (e, s1)"
        and r: "(case e of Some e \<Rightarrow> Inr (Some e, s1) | None \<Rightarrow> acceptor_handleRead env running as s1) = Inr (err, s')"
        using 2(3) False cb by (auto simp: bind_res_Inr Let_def)
      have i: "srv_inv s1" "started s1" using newConnection_inv[OF 2(4,5) fd s1] by auto
      have a: "abandoned s1 = abandoned s" using abandoned_new[OF s1] 2(4,6) by (simp add: srv_inv_def base_inv_def)
      show ?thesis
      proof (cases e)
        case None
        then show ?thesis using 2(1)[OF False refl cb s1 refl None _ i 2(6)] r a by simp
      qed (use r a in simp)
    next
      case cb: False
      have "sockets_close connfd ?s = s" using close_open[of connfd ?s] fd by simp
      then show ?thesis using 2(2)[OF False refl cb] 2(3-6) False cb by (simp add: Let_def)
    qed
  qed
qed (auto split: if_splits)

definition workers_dispatch :: "server_event \<Rightarrow> bool" where
  "workers_dispatch e \<longleftrightarrow> (\<forall>running as. e = SvAccept running as \<longrightarrow> (\<forall>t. running t))"

lemma abandoned_step:
  assumes inv: "srv_inv s" and run: "server_step env e s = Inr s'" and ok: "workers_dispatch e"
  shows "abandoned s' = abandoned s"
proof (cases e)
  case (SvConfig c)
  then show ?thesis using run by (auto split: if_splits)
next
  case (SvStart init starts)
  then show ?thesis using run abandoned_start by (fastforce simp: bind_res_Inr split: if_splits)
next
  case (SvAccept running as)
  have "started s" if "listening (srv_acceptor s)" using inv that by (auto simp: srv_inv_def life_inv_def)
  then show ?thesis using run ok SvAccept abandoned_accept[OF _ inv] by (auto simp: bind_res_Inr workers_dispatch_def split: if_splits)
next
  case (SvRun l)
  then show ?thesis using run abandoned_run[of env _ "s\<lparr>queues := _\<rparr>"] by (auto split: list.splits)
next
  case (SvTimer l i)
  then show ?thesis using run abandoned_timer[of env _ "cancel_timer l i s"] by (auto simp: cancel_timer_def split: option.splits)
next
  case (SvConn n ev)
  then show ?thesis using run abandoned_conn_op by (simp split: if_splits)
next
  case SvStop
  then show ?thesis using run abandoned_stop by (simp split: if_splits)
next
  case SvStopDrain
  then show ?thesis using run abandoned_drain by (simp split: if_splits)
next
  case (SvRelease n)
  then show ?thesis using run by (auto simp: Socket_dtor_def split: option.splits if_splits)
next
  case SvDtor
  then show ?thesis using run abandoned_dtor by (simp split: if_splits)
qed

lemma abandoned_server_run:
  "env_ok env \<Longrightarrow> srv_inv s \<Longrightarrow> server_run env es s = Inr s' \<Longrightarrow> \<forall>e \<in> set es. workers_dispatch e \<Longrightarrow> abandoned s' = abandoned s"
proof (induction es arbitrary: s)
  case (Cons e es)
  then obtain s1 where s1: "server_step env e s = Inr s1" "server_run env es s1 = Inr s'" by (auto simp: bind_res_Inr)
  have "srv_inv s1" by (rule step_inv[OF Cons.prems(1,2) s1(1)])
  then show ?case using Cons.IH[OF Cons.prems(1) _ s1(2)] abandoned_step[OF Cons.prems(2) s1(1)] Cons.prems(4) by simp
qed simp

section \<open>Example\<close>

definition quiet_net :: transport where
  "quiet_net = \<lparr>built_tls = True, ssl = False, tlsContext = False, tlsState = kTlsNone, write_answers = [], read_answers = [],
     ssl_write_answers = [], ssl_read_answers = [], handshake_answers = [(False, SSL_ERROR_WANT_READ, 0), (True, 0, 0)],
     wire = [], fins = 0, ssl_shutdowns = 0, ssl_allocated = 0\<rparr>"

definition demo_env :: server_env where
  "demo_env = \<lparr>user_exec = (\<lambda>_. exec_at (\<lambda>n c. []) 1), network = (\<lambda>_. quiet_net), tls_created = (\<lambda>_. True), iteration = rev\<rparr>"

definition demo_opts :: options where
  "demo_opts = TcpServerOptions\<lparr>opt_idleTimeout := 5\<rparr>"

definition demo_events :: "server_event list" where
  "demo_events = [SvStart None (\<lambda>_. None), SvAccept (\<lambda>_. True) [Inr 7, Inl EAGAIN], SvStopDrain]"

lemma demo_env_ok: "env_ok demo_env"
  by (simp add: env_ok_def demo_env_def)

lemmas server_eval = TcpServer_def server_members_def EventLoopThreadPool_def demo_opts_def TcpServerOptions_def validate_def validateBackpressure_def
  setThreadNum_def setNewConnectionCallback_def Acceptor_def demo_events_def server_start_def pool_do_def pool_call_def
  pool_start_def assertStable_def in_transition_def acceptor_listen_def server_stop_drain_def stop_accepting_def
  acceptor_stop_def unregister_eq releaseFd_def isValid_def kInvalidSocket_def newConnection_def getNextLoop_def nth_opt_def
  conn_name_def conn_op_def configure_conn_def TcpConnection_def run_in_loop_def run_after_def sockets_close_def
  isWouldBlock_def EAGAIN_def Let_def

definition demo_start :: server where
  "demo_start = (case TcpServer 3 ''srv'' demo_opts of Inr s \<Rightarrow> s)"

lemma demo_start_eq: "TcpServer 3 ''srv'' demo_opts = Inr demo_start"
  by (simp add: demo_start_def server_eval)

lemma demo_server_run:
  "\<exists>s x. server_run demo_env demo_events demo_start = Inr s \<and>
     connections s = [''srv#1''] \<and> objects s ''srv#1'' = Some x \<and> o_loop x = Worker_loop 0 \<and> o_fd x = 7 \<and>
     draining s \<and> openFds s = {7} \<and> queues s (Worker_loop 0) = [FEstablish ''srv#1'' None]"
  by (simp add: demo_start_def server_eval) (auto simp: server_eval to_string.simps digit_def)


text \<open>When \<open>getNextLoop\<close> throws, the descriptor just accepted has no owner: it stays open for good.\<close>

lemma newConnection_leaks_descriptor:
  "\<exists>s. server_run demo_env [SvStart None (\<lambda>_. None), SvAccept (\<lambda>_. False) [Inr 7], SvDtor] demo_start = Inr s \<and>
     \<not> lifetime s \<and> connections s = [] \<and> objects s = Map.empty \<and> openFds s = {7}"
  by (simp add: demo_start_def server_eval)
    (auto simp: server_eval server_dtor_def stop_pool_def pool_stop_def stopWorkers_def timer_id_valid_def demo_env_def acceptor_dtor_def Socket_dtor_def)

lemma demo_reach:
  assumes "server_run demo_env es demo_start = Inr s"
  shows "server_reach demo_env s"
proof -
  have "isValid 3" by (simp add: isValid_def kInvalidSocket_def)
  then show ?thesis unfolding server_reach_def using demo_env_ok demo_start_eq assms by blast
qed

definition idle_events :: "server_event list" where
  "idle_events = [SvStart None (\<lambda>_. None), SvAccept (\<lambda>_. True) [Inr 7, Inl EAGAIN], SvRun (Worker_loop 0)]"

lemmas idle_eval = start_tls_functor_def run_functor_def set_callback.simps connectEstablished_def bp_result_of_def onConnectionEstablished_def handshakePending_def
  notifyConnected_def call_user_def refreshIdleTimer_def cancelIdleTimer_def set_idle_def timer_id_valid_def demo_env_def
  quiet_net_def run_apis.simps bp_apply_def ConnectionCallbackDispatcher_def ConnectionBackpressureController_def

lemma demo_idle_run:
  "\<exists>s x. server_run demo_env idle_events demo_start = Inr s \<and> objects s ''srv#1'' = Some x \<and>
     armed s (Worker_loop 0) 1 = Some (IdleTimer ''srv#1'' 1)"
  by (simp add: demo_start_def server_eval idle_events_def)
    (auto simp: server_eval to_string.simps digit_def idle_eval)

section \<open>Properties\<close>

text \<open>C1. Responsibility for connections, in every state a server can reach (any interleaving of its loops, with any
  application code on the connections): every connection object is in the map, or has its destruction queued on its own
  loop, or was destroyed, and exactly one of these holds; \<open>connectDestroyed\<close> is called at most once per connection; queued
  functors refer to objects that are alive, and none establishes a connection after its destruction was queued.\<close>

theorem server_connection_lifecycle:
  assumes "server_reach env s"
  shows "distinct (connections s) \<and> distinct (destroyed s) \<and>
    (\<forall>n x. objects s n = Some x \<longrightarrow>
      count_list [n \<in> set (connections s), n \<in> set (doomed (queues s (o_loop x))), n \<in> set (destroyed s)] True = 1) \<and>
    (\<forall>l. distinct (doomed (queues s l)) \<and> ordered (queues s l) \<and>
      (\<forall>n \<in> set (doomed (queues s l)) \<union> set (establishing (queues s l)). \<exists>x. objects s n = Some x \<and> o_loop x = l)) \<and>
    (\<forall>n \<in> set (connections s). objects s n \<noteq> None)"
proof -
  have inv: "srv_inv s" by (rule server_reach_inv[OF assms])
  let ?L = "set (connections s)"
  have o: "own ?L (shape_of s) (queues s) (destroyed s)" using inv by (simp add: srv_inv_def base_inv_def)
  have q: "queue_ok ?L (shape_of s) (set (destroyed s)) l (queues s l)" for l using ownD[OF o] by blast
  have c: "covered ?L (shape_of s) (queues s) (set (destroyed s))" and dd: "distinct (destroyed s)" using ownD[OF o] by blast+
  have one: "count_list [n \<in> ?L, n \<in> set (doomed (queues s (o_loop x))), n \<in> set (destroyed s)] True = 1"
    if x: "objects s n = Some x" for n x
  proof -
    have "n \<in> ?L \<or> n \<in> set (doomed (queues s (o_loop x))) \<or> n \<in> set (destroyed s)"
      using covered_loop[OF c, of n "o_loop x" "o_fd x"] x by (simp add: shape_of_def)
    moreover have "n \<in> set (doomed (queues s (o_loop x))) \<Longrightarrow> n \<notin> ?L \<and> n \<notin> set (destroyed s)"
      using q[of "o_loop x"] unfolding queue_ok_def by blast
    moreover have "n \<in> ?L \<Longrightarrow> n \<notin> set (destroyed s)" using c unfolding covered_def by blast
    ultimately show ?thesis by auto
  qed
  have alive: "\<exists>x. objects s n = Some x \<and> o_loop x = l" if "map_option fst (shape_of s n) = Some l" for n l
    using that by (auto simp: shape_of_def)
  have "\<forall>n \<in> set (doomed (queues s l)) \<union> set (establishing (queues s l)). \<exists>x. objects s n = Some x \<and> o_loop x = l" for l
    using q[of l] alive unfolding queue_ok_def by blast
  moreover have "distinct (doomed (queues s l)) \<and> ordered (queues s l)" for l using q[of l] unfolding queue_ok_def by blast
  moreover have "\<forall>n \<in> ?L. objects s n \<noteq> None" using c by (auto simp: covered_def shape_of_def)
  ultimately show ?thesis using one dd inv by (simp only: srv_inv_def) blast
qed

theorem server_connection_lifecycle_witness:
  "\<exists>s x. server_run demo_env demo_events demo_start = Inr s \<and> objects s ''srv#1'' = Some x \<and>
     count_list [''srv#1'' \<in> set (connections s), ''srv#1'' \<in> set (doomed (queues s (o_loop x))), ''srv#1'' \<in> set (destroyed s)] True = 1"
proof -
  obtain s x where s: "server_run demo_env demo_events demo_start = Inr s" "objects s ''srv#1'' = Some x" using demo_server_run by blast
  have "\<forall>n x. objects s n = Some x \<longrightarrow>
      count_list [n \<in> set (connections s), n \<in> set (doomed (queues s (o_loop x))), n \<in> set (destroyed s)] True = 1"
    using server_connection_lifecycle[OF demo_reach[OF s(1)]] by blast
  then show ?thesis using s by blast
qed

text \<open>C11. Descriptors of the server: nothing is closed twice, and the open descriptors are the listening socket, those
  of the connection objects that still exist (each its own), and those abandoned by an exception of \<open>newConnection\<close>. There are
  none of the last kind as long as the workers that \<open>getNextLoop\<close> selects are dispatching, and after the destructor
  the listening socket is closed.\<close>

theorem server_descriptors:
  assumes "env_ok env" "isValid fd" "TcpServer fd name opts = Inr s0" "server_run env es s0 = Inr s"
  shows "\<not> badClose s \<and>
    openFds s = acceptor_fds (srv_acceptor s) \<union> {f. \<exists>n x. objects s n = Some x \<and> o_fd x = f} \<union> abandoned s \<and>
    (\<forall>n m x y. objects s n = Some x \<and> objects s m = Some y \<and> o_fd x = o_fd y \<longrightarrow> n = m) \<and>
    (\<forall>n x. objects s n = Some x \<longrightarrow> o_fd x \<notin> acceptor_fds (srv_acceptor s) \<union> abandoned s) \<and>
    ((\<forall>e \<in> set es. workers_dispatch e) \<longrightarrow> abandoned s = {}) \<and>
    (\<not> lifetime s \<longrightarrow> acceptor_fds (srv_acceptor s) = {})"
proof -
  have i0: "srv_inv s0" by (rule init_inv[OF assms(3,2)])
  have inv: "srv_inv s" by (rule server_run_inv[OF assms(1) i0 assms(4)])
  have fd: "fd_ok (acceptor_fds (srv_acceptor s)) (openFds s) (badClose s) (shape_of s) (abandoned s)"
    using inv by (simp add: srv_inv_def base_inv_def)
  have o: "object_fds (shape_of s) = {f. \<exists>n x. objects s n = Some x \<and> o_fd x = f}"
    by (auto simp: object_fds_def shape_of_def)
  have inj: "n = m" if "objects s n = Some x" "objects s m = Some y" "o_fd x = o_fd y" for n m x y
  proof -
    have "shape_of s n = Some (o_loop x, o_fd x)" "shape_of s m = Some (o_loop y, o_fd x)" using that by (simp_all add: shape_of_def)
    then show ?thesis using fd unfolding fd_ok_def by blast
  qed
  have "abandoned s0 = {}" using assms(3) by (auto simp: TcpServer_def bind_res_Inr setNewConnectionCallback_def server_members_def)
  then have ab: "(\<forall>e \<in> set es. workers_dispatch e) \<longrightarrow> abandoned s = {}"
    using abandoned_server_run[OF assms(1) i0 assms(4)] by simp
  have gone: "\<not> lifetime s \<longrightarrow> acceptor_fds (srv_acceptor s) = {}" using inv by (simp add: srv_inv_def life_inv_def)
  have "\<not> badClose s" "openFds s = acceptor_fds (srv_acceptor s) \<union> object_fds (shape_of s) \<union> abandoned s"
    "object_fds (shape_of s) \<inter> (acceptor_fds (srv_acceptor s) \<union> abandoned s) = {}" using fd unfolding fd_ok_def by blast+
  then show ?thesis using o inj ab gone by blast
qed

theorem server_descriptors_witness:
  "\<exists>s. server_run demo_env demo_events demo_start = Inr s \<and> openFds s = {7} \<and> abandoned s = {} \<and> \<not> badClose s"
proof -
  obtain s where s: "server_run demo_env demo_events demo_start = Inr s" "openFds s = {7}" using demo_server_run by blast
  have "isValid 3" by (simp add: isValid_def kInvalidSocket_def)
  note d = server_descriptors[OF demo_env_ok this demo_start_eq s(1)]
  moreover have "\<forall>e \<in> set demo_events. workers_dispatch e" by (auto simp: demo_events_def workers_dispatch_def)
  ultimately show ?thesis using s by blast
qed

text \<open>C10. Stopping. In every reachable state a stop has either finished or can finish: when \<open>stopped_\<close> is set and no
  drain is in progress, the map is empty, the pool is stopped with every worker thread joined, no functor is left in a worker's
  queue and the acceptor does not listen; while draining there is a connection in the map and the drain timer is
  armed, and when the handler of its expiry returns the drain has ended and the server is in the finished state (a removal that
  empties the map ends the drain too: no reachable state drains with an empty map).\<close>

theorem server_stop_completes:
  assumes "server_reach env s"
  shows "(draining s \<longrightarrow> stopped s \<and> connections s \<noteq> [] \<and> armed s Base_loop (drainTimerId s) = Some DrainTimer) \<and>
    (stopped s \<and> \<not> draining s \<longrightarrow> connections s = [] \<and> p_state (threadPool s) = PStopped \<and> live_workers (threadPool s) = [] \<and>
       (\<forall>l. l \<noteq> Base_loop \<longrightarrow> queues s l = [])) \<and>
    (stopped s \<longrightarrow> \<not> listening (srv_acceptor s)) \<and>
    (\<forall>s'. draining s \<and> server_step env (SvTimer Base_loop (drainTimerId s)) s = Inr s' \<longrightarrow> \<not> draining s' \<and> stopped s' \<and> connections s' = [])"
proof -
  have inv: "srv_inv s" and env: "env_ok env" using server_reach_inv[OF assms] assms by (simp_all add: server_reach_def)
  have life: "life_inv s" using inv by (simp add: srv_inv_def)
  have fin: "\<not> draining s' \<and> stopped s' \<and> connections s' = []"
    if d: "draining s" and r: "server_step env (SvTimer Base_loop (drainTimerId s)) s = Inr s'" for s'
  proof -
    let ?s = "cancel_timer Base_loop (drainTimerId s) s"
    have "armed s Base_loop (drainTimerId s) = Some DrainTimer" "lifetime s" using life d by (auto simp: life_inv_def drains_def)
    then have r': "onDrainTimeout env ?s = Inr s'" using r by (simp add: run_timer_def cancel_timer_def)
    have b: "base_inv (set (connections ?s)) ?s" using inv base_drop_timer by (simp add: srv_inv_def cancel_timer_def)
    then have b': "base_inv (set (connections ?s)) (?s\<lparr>drainTimerId := 0, draining := False\<rparr>)" by simp
    have "bind_res (forceCloseAllConnections env (?s\<lparr>drainTimerId := 0, draining := False\<rparr>)) (stop_pool env) = Inr s'"
      using r' d by (simp add: onDrainTimeout_def Let_def cancel_timer_def)
    note all = close_all_inv[OF env _ _ _ _ _ _ this]
    have "distinct (connections s)" "\<not> listening (srv_acceptor s)" "stopped s" "lifetime s"
      using inv d unfolding srv_inv_def life_inv_def by blast+
    then have "srv_inv s' \<and> stopped s' \<and> \<not> draining s'" by (intro all) (use b' in \<open>simp_all add: cancel_timer_def\<close>)
    then show ?thesis unfolding srv_inv_def life_inv_def by blast
  qed
  have stop: "live_workers (threadPool s) = [] \<and> (\<forall>l. l \<noteq> Base_loop \<longrightarrow> queues s l = [])" if "p_state (threadPool s) = PStopped"
  proof -
    have p: "pool_inv (threadPool s)" and pl: "placed (loops (threadPool s)) (set (connections s)) (shape_of s) (queues s)"
      using inv by (simp_all add: srv_inv_def base_inv_def)
    have "loops (threadPool s) = []" by (rule stopped_loops[OF p that])
    moreover have "live_workers (threadPool s) = []" using p that by (simp add: pool_inv_def)
    ultimately show ?thesis using pl by (simp add: placed_def)
  qed
  show ?thesis using life fin stop by (auto simp: life_inv_def drains_def)
qed

theorem server_stop_completes_witness:
  "\<exists>s. server_run demo_env demo_events demo_start = Inr s \<and> draining s \<and> connections s = [''srv#1''] \<and>
     armed s Base_loop (drainTimerId s) = Some DrainTimer"
proof -
  obtain s where s: "server_run demo_env demo_events demo_start = Inr s" "draining s" "connections s = [''srv#1'']" using demo_server_run by blast
  show ?thesis using server_stop_completes[OF demo_reach[OF s(1)]] s by blast
qed

text \<open>Idle timers: while a connection object exists, at most one idle timer is armed for it, on its own loop, and it
  carries the current generation; so the timer that fires is the one set by the latest activity, and one whose connection was
  refreshed, disconnected or closed can no longer force it closed.\<close>

theorem server_idle_timer_current:
  assumes "server_reach env s" "armed s l i = Some (IdleTimer n g)" "objects s n = Some x"
  shows "o_loop x = l \<and> o_idle x = Some \<lparr>idleTimerId = i, generation = g\<rparr> \<and>
    (\<forall>l' i' g'. armed s l' i' = Some (IdleTimer n g') \<longrightarrow> l' = l \<and> i' = i \<and> g' = g) \<and>
    (\<forall>l' i' g'. armed (cancelIdleTimer n s) l' i' \<noteq> Some (IdleTimer n g')) \<and>
    armed (refreshIdleTimer n s) l i = None"
proof -
  have inv: "timer_inv s" using server_reach_inv[OF assms(1)] by (simp add: srv_inv_def base_inv_def)
  have mine: "o_loop x = l' \<and> o_idle x = Some \<lparr>idleTimerId = i', generation = g'\<rparr>" if "armed s l' i' = Some (IdleTimer n g')" for l' i' g'
    using timer_back[OF inv that assms(3)] by (auto simp: is_idle_of_def)
  have st: "o_idle x = Some \<lparr>idleTimerId = i, generation = g\<rparr>" and l: "o_loop x = l" using mine[OF assms(2)] by auto
  note eq = cancelIdleTimer_eq[OF inv assms(3) st]
  have gone: "armed (cancelIdleTimer n s) l' i' \<noteq> Some (IdleTimer n g')" for l' i' g'
    using idle_cancelled[OF inv assms(3) st eq] by blast
  have "i < nextTimer s" using timer_ids[OF inv assms(2)] by simp
  then have "armed (refreshIdleTimer n s) l i = None"
    using assms(3) l by (simp add: refreshIdleTimer_def eq set_idle_def cancel_timer_def run_after_def)
  then show ?thesis using mine[OF assms(2)] mine gone by fastforce
qed

theorem server_idle_timer_current_witness:
  "\<exists>s x. server_run demo_env idle_events demo_start = Inr s \<and> objects s ''srv#1'' = Some x \<and>
     o_idle x = Some \<lparr>idleTimerId = 1, generation = 1\<rparr> \<and> armed (refreshIdleTimer ''srv#1'' s) (Worker_loop 0) 1 = None"
proof -
  obtain s x where s: "server_run demo_env idle_events demo_start = Inr s" "objects s ''srv#1'' = Some x"
    "armed s (Worker_loop 0) 1 = Some (IdleTimer ''srv#1'' 1)" using demo_idle_run by blast
  show ?thesis using server_idle_timer_current[OF demo_reach[OF s(1)] s(3) s(2)] s by blast
qed

end
