(* ===== verification/Connector_Model.thy ===== *)
theory Connector_Model
  imports Socket_Ops
begin

text \<open>
  \<^verbatim>\<open>Connector.cc\<close>, \<^verbatim>\<open>Connector.h\<close> and \<^verbatim>\<open>ConnectorOptions.h\<close>: outgoing connection attempts with retry,
  backoff and timeout, on the owner thread.

  The record \<open>connector\<close> has the fields of the class and what the class keeps in its environment: the
  descriptors it has open (\<open>fd_table\<close>), its timers and queued functors in the loop, the events it has
  emitted and the descriptors it has handed to the new-connection callback. \<open>channel_\<close> is the descriptor
  of the registered channel with the generation its callbacks captured. The \<open>uint64_t\<close> generation is a
  natural number: it would take \<open>2 ^ 64\<close> starts and stops for it to wrap.

  User callbacks are given by parameters: \<open>ecb\<close> is the event hook and \<open>ncb\<close> the new-connection callback, each as
  the calls of the public interface (\<open>start\<close>, \<open>stop\<close>, \<open>restart\<close>) it makes. The outcomes of system
  calls are arguments of the event that makes them.
\<close>

section \<open>State\<close>

datatype cphase = CIdle | StartQueued | Connecting | Connected | RetryWaiting

datatype cevent = ConnectAttempt | ConnectSuccess | ConnectFailed | RetryScheduled | SelfConnectDetected | ConnectTimeout

datatype ctimer = TRetry nat | TConnect nat

datatype ctask = QStart nat | QRetire int

datatype cop = OpStart | OpStop | OpRestart

record options =
  initRetryDelay :: int
  maxRetryDelay :: int
  connectTimeoutOpt :: int
  enableRetry :: bool

record connector = fd_table +
  cphase_of :: cphase
  generation :: nat
  retryEnabled :: bool
  initialRetryDelay :: int
  retryDelayMs :: int
  maxRetryDelayMs :: int
  connectTimeout :: int
  cchannel :: "(int \<times> nat) option"
  retryTimerId :: int
  connectTimeoutTimerId :: int
  ctimers :: "int \<rightharpoonup> int \<times> ctimer"
  nextTimer :: int
  ctasks :: "ctask list"
  emitted :: "cevent list"
  handed :: "int list"
  nullChannel :: bool

type_synonym event_hook = "connector \<Rightarrow> cevent \<Rightarrow> cop list"
type_synonym newconn_hook = "(connector \<Rightarrow> int \<Rightarrow> cop list) option"

section \<open>Construction\<close>

definition ConnectorOptions :: options where
  "ConnectorOptions = \<lparr>initRetryDelay = 500000000, maxRetryDelay = 30000000000, connectTimeoutOpt = 0, enableRetry = False\<rparr>"

definition options_validate :: "options \<Rightarrow> unit res" where
  "options_validate opts =
     (if initRetryDelay opts \<le> 0 then Inl (Invalid_argument ''ConnectorOptions: initRetryDelay must be positive'')
      else if maxRetryDelay opts < initRetryDelay opts
        then Inl (Invalid_argument ''ConnectorOptions: maxRetryDelay must be >= initRetryDelay'')
      else if connectTimeoutOpt opts < 0 then Inl (Invalid_argument ''ConnectorOptions: connectTimeout must be non-negative'')
      else Inr ())"

definition Connector :: "options \<Rightarrow> connector res" where
  "Connector opts =
     bind_res (options_validate opts) (\<lambda>_.
       Inr \<lparr>openFds = {}, badClose = False, cphase_of = CIdle, generation = 0, retryEnabled = enableRetry opts,
            initialRetryDelay = initRetryDelay opts, retryDelayMs = initRetryDelay opts,
            maxRetryDelayMs = maxRetryDelay opts, connectTimeout = connectTimeoutOpt opts, cchannel = None,
            retryTimerId = 0, connectTimeoutTimerId = 0, ctimers = Map.empty, nextTimer = 1, ctasks = [],
            emitted = [], handed = [], nullChannel = False\<rparr>)"

definition setRetryDelay :: "int \<Rightarrow> int \<Rightarrow> connector \<Rightarrow> connector res" where
  "setRetryDelay initial max_delay w =
     (if initial \<le> 0 \<or> max_delay < initial
      then Inl (Invalid_argument ''Connector retry delays require 0 < initial <= max'')
      else Inr (w\<lparr>initialRetryDelay := initial, retryDelayMs := initial, maxRetryDelayMs := max_delay\<rparr>))"

datatype stateE = kDisconnected | kConnecting | kConnected

definition state :: "connector \<Rightarrow> stateE" where
  "state w = (if cphase_of w = Connecting then kConnecting else if cphase_of w = Connected then kConnected else kDisconnected)"

section \<open>Operations\<close>

definition queueInLoop :: "ctask \<Rightarrow> connector \<Rightarrow> connector" where
  "queueInLoop t w = w\<lparr>ctasks := ctasks w @ [t]\<rparr>"

definition runAfter :: "int \<Rightarrow> ctimer \<Rightarrow> connector \<Rightarrow> int \<times> connector" where
  "runAfter delay t w =
     (nextTimer w, w\<lparr>ctimers := (ctimers w)(nextTimer w \<mapsto> (delay, t)), nextTimer := nextTimer w + 1\<rparr>)"

definition cancelTimers :: "connector \<Rightarrow> connector" where
  "cancelTimers w =
     (let w = (if retryTimerId w \<noteq> 0
               then w\<lparr>ctimers := (ctimers w)(retryTimerId w := None), retryTimerId := 0\<rparr> else w)
      in if connectTimeoutTimerId w \<noteq> 0
         then w\<lparr>ctimers := (ctimers w)(connectTimeoutTimerId w := None), connectTimeoutTimerId := 0\<rparr> else w)"

definition removeAndResetChannel :: "connector \<Rightarrow> int \<times> connector" where
  "removeAndResetChannel w =
     (case cchannel w of
        None \<Rightarrow> (kInvalidSocket, w\<lparr>nullChannel := True\<rparr>)
      | Some (fd, g) \<Rightarrow> (fd, queueInLoop (QRetire fd) (w\<lparr>cchannel := None\<rparr>)))"

definition start :: "connector \<Rightarrow> connector" where
  "start w =
     (if cphase_of w \<noteq> CIdle then w
      else let w = w\<lparr>cphase_of := StartQueued, generation := generation w + 1\<rparr>
           in queueInLoop (QStart (generation w)) w)"

definition stop :: "connector \<Rightarrow> connector" where
  "stop w =
     (let w = w\<lparr>generation := generation w + 1, cphase_of := CIdle\<rparr>;
          w = cancelTimers w
      in if cchannel w \<noteq> None
         then (let (fd, w) = removeAndResetChannel w in sockets_close fd w) else w)"

definition restart :: "connector \<Rightarrow> connector" where
  "restart w = (let w = stop w; w = w\<lparr>retryDelayMs := initialRetryDelay w\<rparr> in start w)"

fun do_cop :: "cop \<Rightarrow> connector \<Rightarrow> connector" where
  "do_cop OpStart w = start w"
| "do_cop OpStop w = stop w"
| "do_cop OpRestart w = restart w"

definition emitEvent :: "event_hook \<Rightarrow> cevent \<Rightarrow> connector \<Rightarrow> connector" where
  "emitEvent ecb e w = (let w = w\<lparr>emitted := emitted w @ [e]\<rparr> in fold do_cop (ecb w e) w)"

definition next_delay :: "int \<Rightarrow> int \<Rightarrow> int" where
  "next_delay delay max_delay = (if delay > max_delay - delay then max_delay else delay * 2)"

definition scheduleRetry :: "event_hook \<Rightarrow> nat \<Rightarrow> connector \<Rightarrow> connector" where
  "scheduleRetry ecb gen w =
     (let w = w\<lparr>cphase_of := RetryWaiting\<rparr>;
          (tid, w) = runAfter (retryDelayMs w) (TRetry gen) w;
          w = w\<lparr>retryTimerId := tid\<rparr>;
          w = w\<lparr>retryDelayMs := next_delay (retryDelayMs w) (maxRetryDelayMs w)\<rparr>
      in emitEvent ecb RetryScheduled w)"

definition fail :: "event_hook \<Rightarrow> int \<Rightarrow> cevent \<Rightarrow> nat \<Rightarrow> bool \<Rightarrow> connector \<Rightarrow> connector" where
  "fail ecb sockfd e gen retryable w =
     (let w = cancelTimers w;
          w = sockets_close sockfd w;
          w = w\<lparr>cphase_of := CIdle\<rparr>;
          w = emitEvent ecb e w
      in if generation w = gen \<and> cphase_of w = CIdle \<and> retryEnabled w \<and> retryable
         then scheduleRetry ecb gen w else w)"

definition connecting :: "int \<Rightarrow> nat \<Rightarrow> connector \<Rightarrow> connector" where
  "connecting sockfd gen w =
     (let w = (if cchannel w \<noteq> None then w\<lparr>nullChannel := True\<rparr> else w);
          w = w\<lparr>cchannel := Some (sockfd, gen)\<rparr>
      in if connectTimeout w > 0
         then (let (tid, w) = runAfter (connectTimeout w) (TConnect gen) w in w\<lparr>connectTimeoutTimerId := tid\<rparr>)
         else w)"

text \<open>The outcome of \<open>createNonblocking\<close> (\<open>Inl\<close> the error, \<open>Inr\<close> the descriptor) and, for a descriptor, the
  error of \<open>connect\<close> (0: none). \<open>nullChannel\<close> records a failed \<open>assert(!channel_)\<close> too.\<close>

definition startInLoop :: "event_hook \<Rightarrow> int + int \<Rightarrow> int \<Rightarrow> nat \<Rightarrow> connector \<Rightarrow> connector" where
  "startInLoop ecb created connect_error gen w =
     (if generation w \<noteq> gen \<or> cphase_of w \<noteq> StartQueued then w
      else let w = w\<lparr>cphase_of := Connecting\<rparr>;
               w = emitEvent ecb ConnectAttempt w
           in if generation w \<noteq> gen \<or> cphase_of w \<noteq> Connecting then w
              else case created of
                Inl err \<Rightarrow> fail ecb kInvalidSocket ConnectFailed gen (isConnectRetryable err) w
              | Inr sockfd \<Rightarrow>
                  let w = w\<lparr>openFds := insert sockfd (openFds w)\<rparr>
                  in if connect_error = 0 \<or> isInProgress connect_error \<or> isInterrupted connect_error
                     then connecting sockfd gen w
                     else fail ecb sockfd ConnectFailed gen (isConnectRetryable connect_error) w)"

definition selfConnect :: "sockaddr \<Rightarrow> sockaddr \<Rightarrow> bool" where
  "selfConnect localAddr peerAddr \<longleftrightarrow>
     ss_family localAddr = ss_family peerAddr \<and> sin_port localAddr = sin_port peerAddr \<and> sin_addr localAddr = sin_addr peerAddr"

definition handleWrite :: "event_hook \<Rightarrow> newconn_hook \<Rightarrow> int \<Rightarrow> sockaddr \<Rightarrow> sockaddr \<Rightarrow> nat \<Rightarrow> connector \<Rightarrow> connector" where
  "handleWrite ecb ncb err localAddr peerAddr gen w =
     (if generation w \<noteq> gen \<or> cphase_of w \<noteq> Connecting then w
      else let w = cancelTimers w;
               (socket, w) = removeAndResetChannel w
           in if err \<noteq> 0 then fail ecb socket ConnectFailed gen True w
              else if selfConnect localAddr peerAddr then fail ecb socket SelfConnectDetected gen True w
              else let w = w\<lparr>cphase_of := Connected\<rparr>;
                       w = emitEvent ecb ConnectSuccess w
                   in if generation w \<noteq> gen \<or> cphase_of w \<noteq> Connected then Socket_dtor socket w
                      else case ncb of
                             Some cb \<Rightarrow>
                               let (fd, socket) = releaseFd socket;
                                   w = w\<lparr>openFds := openFds w - {fd}, handed := handed w @ [fd]\<rparr>;
                                   w = fold do_cop (cb w fd) w
                               in Socket_dtor socket w
                           | None \<Rightarrow> Socket_dtor socket (w\<lparr>cphase_of := CIdle\<rparr>))"

definition handleError :: "event_hook \<Rightarrow> nat \<Rightarrow> connector \<Rightarrow> connector" where
  "handleError ecb gen w =
     (if generation w \<noteq> gen \<or> cphase_of w \<noteq> Connecting then w
      else let (sockfd, w) = removeAndResetChannel w in fail ecb sockfd ConnectFailed gen True w)"

definition handleConnectTimeout :: "event_hook \<Rightarrow> nat \<Rightarrow> connector \<Rightarrow> connector" where
  "handleConnectTimeout ecb gen w =
     (if generation w \<noteq> gen \<or> cphase_of w \<noteq> Connecting then w
      else let w = w\<lparr>connectTimeoutTimerId := 0\<rparr>;
               (sockfd, w) = removeAndResetChannel w
           in fail ecb sockfd ConnectTimeout gen True w)"

definition retry_callback :: "nat \<Rightarrow> connector \<Rightarrow> connector" where
  "retry_callback gen w =
     (if generation w \<noteq> gen \<or> cphase_of w \<noteq> RetryWaiting then w
      else start (w\<lparr>retryTimerId := 0, cphase_of := CIdle\<rparr>))"

definition Connector_dtor :: "connector \<Rightarrow> connector" where
  "Connector_dtor w =
     (if cchannel w \<noteq> None \<or> retryTimerId w \<noteq> 0 \<or> connectTimeoutTimerId w \<noteq> 0
      then let w = cancelTimers w
           in if cchannel w \<noteq> None then (let (fd, w) = removeAndResetChannel w in sockets_close fd w) else w
      else w)"

section \<open>Events\<close>

text \<open>One turn of the owner thread: the next queued functor, a callback of a channel with the generation
  it captured (also of a channel that was removed but is still on the dispatch stack), a timer of the
  loop, or a call of the public interface.\<close>

datatype conn_event =
    EvTask "int + int" int
  | EvWrite nat int sockaddr sockaddr
  | EvError nat
  | EvTimer int
  | EvOp cop

fun conn_step :: "event_hook \<Rightarrow> newconn_hook \<Rightarrow> conn_event \<Rightarrow> connector \<Rightarrow> connector" where
  "conn_step ecb ncb (EvTask created err) w =
     (case ctasks w of
        [] \<Rightarrow> w
      | QStart g # ts \<Rightarrow> startInLoop ecb created err g (w\<lparr>ctasks := ts\<rparr>)
      | QRetire fd # ts \<Rightarrow> w\<lparr>ctasks := ts\<rparr>)"
| "conn_step ecb ncb (EvWrite g err localAddr peerAddr) w = handleWrite ecb ncb err localAddr peerAddr g w"
| "conn_step ecb ncb (EvError g) w = handleError ecb g w"
| "conn_step ecb ncb (EvTimer i) w =
     (case ctimers w i of
        None \<Rightarrow> w
      | Some (d, TRetry g) \<Rightarrow> retry_callback g (w\<lparr>ctimers := (ctimers w)(i := None)\<rparr>)
      | Some (d, TConnect g) \<Rightarrow> handleConnectTimeout ecb g (w\<lparr>ctimers := (ctimers w)(i := None)\<rparr>))"
| "conn_step ecb ncb (EvOp a) w = do_cop a w"

definition conn_run :: "event_hook \<Rightarrow> newconn_hook \<Rightarrow> conn_event list \<Rightarrow> connector \<Rightarrow> connector" where
  "conn_run ecb ncb es w = fold (conn_step ecb ncb) es w"


section \<open>Invariant\<close>

text \<open>\<open>E\<close> are the descriptors a running operation holds in a local \<open>Socket\<close>.\<close>

definition chan_fds :: "connector \<Rightarrow> int set" where
  "chan_fds w = (case cchannel w of None \<Rightarrow> {} | Some (fd, g) \<Rightarrow> {fd})"

definition fds_inv :: "int set \<Rightarrow> connector \<Rightarrow> bool" where
  "fds_inv E w \<longleftrightarrow> \<not> badClose w \<and> \<not> nullChannel w \<and> openFds w = chan_fds w \<union> E \<and> chan_fds w \<inter> E = {} \<and>
     (\<forall>fd g. cchannel w = Some (fd, g) \<longrightarrow> isValid fd \<and> g = generation w \<and> cphase_of w = Connecting)"

definition timers_inv :: "connector \<Rightarrow> bool" where
  "timers_inv w \<longleftrightarrow> 1 \<le> nextTimer w \<and>
     (\<forall>i d t. ctimers w i = Some (d, t) \<longrightarrow> i \<noteq> 0 \<and> i < nextTimer w \<and>
        (i = retryTimerId w \<and> t = TRetry (generation w) \<or> i = connectTimeoutTimerId w \<and> t = TConnect (generation w))) \<and>
     (retryTimerId w \<noteq> 0 \<longleftrightarrow> cphase_of w = RetryWaiting) \<and>
     (retryTimerId w \<noteq> 0 \<longrightarrow> ctimers w (retryTimerId w) \<noteq> None) \<and>
     (connectTimeoutTimerId w \<noteq> 0 \<longrightarrow> cphase_of w = Connecting)"

definition delays_inv :: "connector \<Rightarrow> bool" where
  "delays_inv w \<longleftrightarrow> 0 < initialRetryDelay w \<and> initialRetryDelay w \<le> retryDelayMs w \<and> retryDelayMs w \<le> maxRetryDelayMs w"

definition cinv0 :: "int set \<Rightarrow> connector \<Rightarrow> bool" where
  "cinv0 E w \<longleftrightarrow> fds_inv E w \<and> timers_inv w \<and> delays_inv w"

definition cinv :: "int set \<Rightarrow> connector \<Rightarrow> bool" where
  "cinv E w \<longleftrightarrow> cinv0 E w \<and> (cphase_of w = Connecting \<longrightarrow> cchannel w \<noteq> None)"

lemmas cinv_defs = cinv_def cinv0_def fds_inv_def timers_inv_def delays_inv_def chan_fds_def

lemma inv_frame [simp]:
  "fds_inv E (w\<lparr>retryDelayMs := d\<rparr>) = fds_inv E w" "timers_inv (w\<lparr>retryDelayMs := d\<rparr>) = timers_inv w"
  "fds_inv E (w\<lparr>emitted := es\<rparr>) = fds_inv E w" "timers_inv (w\<lparr>emitted := es\<rparr>) = timers_inv w"
  "delays_inv (w\<lparr>emitted := es\<rparr>) = delays_inv w"
  "fds_inv E (w\<lparr>ctasks := ts\<rparr>) = fds_inv E w" "timers_inv (w\<lparr>ctasks := ts\<rparr>) = timers_inv w"
  "delays_inv (w\<lparr>ctasks := ts\<rparr>) = delays_inv w"
  "fds_inv E (w\<lparr>handed := hs\<rparr>) = fds_inv E w" "timers_inv (w\<lparr>handed := hs\<rparr>) = timers_inv w"
  "delays_inv (w\<lparr>handed := hs\<rparr>) = delays_inv w"
  "timers_inv (w\<lparr>openFds := fds\<rparr>) = timers_inv w" "delays_inv (w\<lparr>openFds := fds\<rparr>) = delays_inv w"
  by (simp_all add: fds_inv_def timers_inv_def delays_inv_def chan_fds_def)

lemma cancelTimers_simps [simp]:
  "openFds (cancelTimers w) = openFds w" "badClose (cancelTimers w) = badClose w"
  "cphase_of (cancelTimers w) = cphase_of w" "generation (cancelTimers w) = generation w"
  "cchannel (cancelTimers w) = cchannel w" "nullChannel (cancelTimers w) = nullChannel w"
  "retryTimerId (cancelTimers w) = 0" "connectTimeoutTimerId (cancelTimers w) = 0"
  "nextTimer (cancelTimers w) = nextTimer w" "handed (cancelTimers w) = handed w"
  "initialRetryDelay (cancelTimers w) = initialRetryDelay w" "retryDelayMs (cancelTimers w) = retryDelayMs w"
  "maxRetryDelayMs (cancelTimers w) = maxRetryDelayMs w" "retryEnabled (cancelTimers w) = retryEnabled w"
  "ctasks (cancelTimers w) = ctasks w"
  by (simp_all add: cancelTimers_def Let_def)

lemma cancelTimers_empty:
  assumes "\<forall>i d t. ctimers w i = Some (d, t) \<longrightarrow> i \<noteq> 0 \<and> (i = retryTimerId w \<or> i = connectTimeoutTimerId w)"
  shows "ctimers (cancelTimers w) = Map.empty"
proof
  fix i
  show "ctimers (cancelTimers w) i = None"
  proof (cases "ctimers w i")
    case (Some x)
    then have "i \<noteq> 0 \<and> (i = retryTimerId w \<or> i = connectTimeoutTimerId w)" using assms by (cases x) auto
    then show ?thesis by (auto simp: cancelTimers_def Let_def)
  qed (auto simp: cancelTimers_def Let_def)
qed

lemma timers_inv_empty: "timers_inv w \<Longrightarrow> ctimers (cancelTimers w) = Map.empty"
  by (rule cancelTimers_empty) (auto simp: timers_inv_def)

lemma timers_inv_none:
  assumes "timers_inv w" "retryTimerId w = 0" "connectTimeoutTimerId w = 0"
  shows "ctimers w = Map.empty"
proof
  fix i show "ctimers w i = None" using assms by (cases "ctimers w i") (auto simp: timers_inv_def)
qed

lemma stop_inv:
  assumes "cinv0 E w"
  shows "cinv E (stop w) \<and> generation (stop w) = generation w + 1 \<and> cphase_of (stop w) = CIdle \<and> cchannel (stop w) = None \<and>
     handed (stop w) = handed w"
proof -
  let ?w = "w\<lparr>generation := generation w + 1, cphase_of := CIdle\<rparr>"
  have t: "timers_inv w" and f: "fds_inv E w" and d: "delays_inv w" using assms by (simp_all add: cinv0_def)
  have e: "ctimers (cancelTimers ?w) = Map.empty"
    by (rule cancelTimers_empty) (use t in \<open>auto simp: timers_inv_def\<close>)
  show ?thesis
  proof (cases "cchannel w")
    case None
    then show ?thesis using t f d e by (simp add: stop_def Let_def cinv_defs)
  next
    case (Some x)
    obtain fd g where x: "x = (fd, g)" by fastforce
    have o: "fd \<in> openFds w" "isValid fd" "openFds w - {fd} = E" using f Some x by (auto simp: fds_inv_def chan_fds_def)
    have "stop w = (queueInLoop (QRetire fd) ((cancelTimers ?w)\<lparr>cchannel := None\<rparr>))\<lparr>openFds := E\<rparr>"
      using Some x o by (simp add: stop_def Let_def removeAndResetChannel_def queueInLoop_def sockets_close_def)
    then show ?thesis using t f d e Some x by (simp add: queueInLoop_def cinv_defs)
  qed
qed

lemma start_inv:
  assumes "cinv0 E w"
  shows "start w = w \<or>
     cinv E (start w) \<and> generation (start w) = generation w + 1 \<and> cphase_of (start w) = StartQueued \<and> handed (start w) = handed w"
proof (cases "cphase_of w = CIdle")
  case True
  have "cchannel w = None" using True assms by (cases "cchannel w") (auto simp: cinv0_def fds_inv_def)
  moreover have "ctimers w = Map.empty"
    by (rule timers_inv_none) (use True assms in \<open>simp add: cinv0_def\<close>, use True assms in \<open>simp_all add: cinv0_def timers_inv_def\<close>)
  ultimately show ?thesis using assms True by (simp add: start_def Let_def queueInLoop_def cinv_defs)
qed (simp add: start_def)


lemma restart_inv:
  assumes "cinv0 E w"
  shows "cinv E (restart w) \<and> generation w < generation (restart w) \<and> handed (restart w) = handed w"
proof -
  let ?w = "(stop w)\<lparr>retryDelayMs := initialRetryDelay (stop w)\<rparr>"
  note s = stop_inv[OF assms]
  have c: "cinv E ?w" using s by (simp add: cinv_def cinv0_def delays_inv_def)
  then have "cinv0 E ?w" by (simp add: cinv_def)
  from start_inv[OF this] s c show ?thesis unfolding restart_def Let_def by (elim disjE) simp_all
qed

text \<open>What user code can do in a hook: nothing that counts, or it moved the connector to a new generation.\<close>

lemma ops_inv:
  "cinv0 E w \<Longrightarrow> handed (fold do_cop ops w) = handed w \<and>
     (fold do_cop ops w = w \<or> cinv E (fold do_cop ops w) \<and> generation w < generation (fold do_cop ops w))"
proof (induction ops arbitrary: w)
  case (Cons a ops)
  have a: "handed (do_cop a w) = handed w \<and> (do_cop a w = w \<or> cinv E (do_cop a w) \<and> generation w < generation (do_cop a w))"
    using start_inv[OF Cons.prems] stop_inv[OF Cons.prems] restart_inv[OF Cons.prems] by (cases a) auto
  then show ?case using Cons.IH[of w] Cons.IH[of "do_cop a w"] Cons.prems by (auto simp: cinv_def)
qed simp

lemma emitEvent_inv:
  assumes "cinv0 E w"
  shows "handed (emitEvent ecb e w) = handed w \<and>
     (emitEvent ecb e w = w\<lparr>emitted := emitted w @ [e]\<rparr> \<or>
      cinv E (emitEvent ecb e w) \<and> generation w < generation (emitEvent ecb e w))"
proof -
  have "cinv0 E (w\<lparr>emitted := emitted w @ [e]\<rparr>)" using assms by (simp add: cinv0_def)
  from ops_inv[OF this, of "ecb (w\<lparr>emitted := emitted w @ [e]\<rparr>) e"] show ?thesis by (simp add: emitEvent_def Let_def)
qed

lemma emitted_inv: "cinv E (w\<lparr>emitted := es\<rparr>) = cinv E w" "cinv0 E (w\<lparr>emitted := es\<rparr>) = cinv0 E w"
  by (simp_all add: cinv_def cinv0_def)

lemma next_delay_bounds:
  assumes "0 < d" "d \<le> m"
  shows "d \<le> next_delay d m" "next_delay d m \<le> m"
  using assms by (auto simp: next_delay_def)

lemma scheduleRetry_inv:
  assumes "cinv E w" "cphase_of w = CIdle" "generation w = gen"
  shows "cinv E (scheduleRetry ecb gen w) \<and> handed (scheduleRetry ecb gen w) = handed w \<and> gen \<le> generation (scheduleRetry ecb gen w)"
proof -
  have f: "fds_inv E w" "timers_inv w" "delays_inv w" using assms(1) by (simp_all add: cinv_def cinv0_def)
  have ch: "cchannel w = None" using f(1) assms(2) by (auto simp: fds_inv_def)
  have ids: "retryTimerId w = 0" "connectTimeoutTimerId w = 0" using f(2) assms(2) by (auto simp: timers_inv_def)
  have tm: "ctimers w = Map.empty" by (rule timers_inv_none[OF f(2) ids])
  define w1 where "w1 = w\<lparr>cphase_of := RetryWaiting, ctimers := [nextTimer w \<mapsto> (retryDelayMs w, TRetry gen)],
     nextTimer := nextTimer w + 1, retryTimerId := nextTimer w,
     retryDelayMs := next_delay (retryDelayMs w) (maxRetryDelayMs w)\<rparr>"
  have "cinv E w1"
    using f ch ids assms(3) next_delay_bounds[of "retryDelayMs w" "maxRetryDelayMs w"]
    by (auto simp: cinv_defs w1_def)
  moreover have "scheduleRetry ecb gen w = emitEvent ecb RetryScheduled w1"
    using tm by (simp add: scheduleRetry_def runAfter_def w1_def Let_def)
  moreover have "generation w1 = gen" "handed w1 = handed w" using assms(3) by (simp_all add: w1_def)
  ultimately show ?thesis
    using emitEvent_inv[of E w1 ecb RetryScheduled] by (auto simp: cinv_def emitted_inv)
qed

text \<open>\<open>fail\<close> is called with the descriptor it closes in a local \<open>Socket\<close> and no registered channel.\<close>

lemma fail_inv:
  assumes f: "fds_inv ({fd} - {kInvalidSocket}) w" and t: "timers_inv w \<or> (ctimers w = Map.empty \<and> 1 \<le> nextTimer w)"
    and d: "delays_inv w" and ch: "cchannel w = None" and gen: "generation w = gen"
  shows "cinv {} (fail ecb fd e gen r w) \<and> handed (fail ecb fd e gen r w) = handed w \<and> gen \<le> generation (fail ecb fd e gen r w)"
proof -
  define w1 where "w1 = (sockets_close fd (cancelTimers w))\<lparr>cphase_of := CIdle\<rparr>"
  have e1: "ctimers (cancelTimers w) = Map.empty"
    using t timers_inv_empty[of w] by (auto simp: cancelTimers_def Let_def)
  have t1: "1 \<le> nextTimer w" using t by (auto simp: timers_inv_def)
  have cl: "sockets_close fd (cancelTimers w) = (cancelTimers w)\<lparr>openFds := {}\<rparr>"
    using f ch by (cases "fd = kInvalidSocket") (auto simp: fds_inv_def chan_fds_def sockets_close_def isValid_def)
  have i1: "cinv {} w1" using f e1 t1 d ch by (simp add: w1_def cl cinv_defs)
  define w2 where "w2 = emitEvent ecb e w1"
  have w1s: "handed w1 = handed w" "generation w1 = gen" "cphase_of w1 = CIdle" using gen by (simp_all add: w1_def cl)
  have w2s: "handed w2 = handed w" "cinv {} w2" "gen \<le> generation w2"
    using emitEvent_inv[of "{}" w1 ecb e] i1 w1s by (auto simp: w2_def cinv_def emitted_inv)
  have fl: "fail ecb fd e gen r w = (if generation w2 = gen \<and> cphase_of w2 = CIdle \<and> retryEnabled w2 \<and> r then scheduleRetry ecb gen w2 else w2)"
    by (simp add: fail_def w2_def w1_def Let_def)
  show ?thesis
    using scheduleRetry_inv[OF w2s(2), of gen ecb] w2s unfolding fl by auto
qed


text \<open>The result of a handler that started in a state with the invariant: the invariant again, nothing
  handed out but what is stated, and no earlier generation.\<close>

definition step_ok :: "connector \<Rightarrow> int list \<Rightarrow> connector \<Rightarrow> bool" where
  "step_ok w hs w' \<longleftrightarrow> cinv {} w' \<and> handed w' = handed w @ hs \<and> generation w \<le> generation w'"

lemma connecting_inv:
  assumes "fds_inv {fd} w" "timers_inv w" "delays_inv w" "cchannel w = None" "isValid fd" "generation w = gen"
    and "cphase_of w = Connecting" "connectTimeoutTimerId w = 0"
  shows "cinv {} (connecting fd gen w) \<and> handed (connecting fd gen w) = handed w \<and> generation (connecting fd gen w) = gen"
proof -
  have r: "retryTimerId w = 0" using assms(2,7) by (simp add: timers_inv_def)
  have e: "ctimers w = Map.empty" by (rule timers_inv_none[OF assms(2) r assms(8)])
  show ?thesis
    using assms e r by (auto simp: connecting_def runAfter_def Let_def cinv_defs)
qed

lemma startInLoop_ok:
  assumes "cinv {} w" and v: "\<forall>fd. created = Inr fd \<longrightarrow> isValid fd"
  shows "step_ok w [] (startInLoop ecb created err gen w)"
proof (cases "generation w \<noteq> gen \<or> cphase_of w \<noteq> StartQueued")
  case True
  then show ?thesis using assms(1) by (auto simp: startInLoop_def step_ok_def)
next
  case False
  define w1 where "w1 = w\<lparr>cphase_of := Connecting\<rparr>"
  have i: "fds_inv {} w" "timers_inv w" "delays_inv w" using assms(1) by (simp_all add: cinv_def cinv0_def)
  have ch: "cchannel w = None" using i(1) False by (cases "cchannel w") (auto simp: fds_inv_def)
  have ids: "retryTimerId w = 0" "connectTimeoutTimerId w = 0" using i(2) False by (simp_all add: timers_inv_def)
  have tm: "ctimers w = Map.empty" by (rule timers_inv_none[OF i(2) ids])
  have w1: "fds_inv {} w1" "timers_inv w1" "delays_inv w1" "cchannel w1 = None" "handed w1 = handed w"
    "generation w1 = gen" "generation w = gen" "cphase_of w1 = Connecting" "connectTimeoutTimerId w1 = 0"
    using i ch ids tm False by (simp_all add: w1_def fds_inv_def timers_inv_def delays_inv_def chan_fds_def)
  define w2 where "w2 = emitEvent ecb ConnectAttempt w1"
  have em: "handed w2 = handed w1 \<and> (w2 = w1\<lparr>emitted := emitted w1 @ [ConnectAttempt]\<rparr> \<or> cinv {} w2 \<and> generation w1 < generation w2)"
    unfolding w2_def by (rule emitEvent_inv) (simp add: cinv0_def w1)
  have run: "startInLoop ecb created err gen w =
      (if generation w2 \<noteq> gen \<or> cphase_of w2 \<noteq> Connecting then w2
       else case created of Inl e \<Rightarrow> fail ecb kInvalidSocket ConnectFailed gen (isConnectRetryable e) w2
          | Inr fd \<Rightarrow> (let w3 = w2\<lparr>openFds := insert fd (openFds w2)\<rparr> in
              if err = 0 \<or> isInProgress err \<or> isInterrupted err then connecting fd gen w3
              else fail ecb fd ConnectFailed gen (isConnectRetryable err) w3))"
    using False unfolding startInLoop_def w2_def w1_def Let_def by simp
  show ?thesis
  proof (cases "generation w2 \<noteq> gen \<or> cphase_of w2 \<noteq> Connecting")
    case True
    then show ?thesis using em w1 unfolding run by (auto simp: step_ok_def)
  next
    case False
    then have w2: "w2 = w1\<lparr>emitted := emitted w1 @ [ConnectAttempt]\<rparr>" using em w1(6) by auto
    show ?thesis
    proof (cases created)
      case (Inl e)
      then show ?thesis
        using False w1 fail_inv[of kInvalidSocket w2 gen ecb ConnectFailed "isConnectRetryable e"]
        unfolding run by (simp add: step_ok_def w2)
    next
      case (Inr fd)
      define w3 where "w3 = w2\<lparr>openFds := insert fd (openFds w2)\<rparr>"
      have vf: "isValid fd" "{fd} - {kInvalidSocket} = {fd}" using v Inr by (auto simp: isValid_def)
      have w3: "fds_inv {fd} w3" "timers_inv w3" "delays_inv w3" "cchannel w3 = None" "generation w3 = gen"
        "cphase_of w3 = Connecting" "connectTimeoutTimerId w3 = 0" "handed w3 = handed w"
        using w1 by (simp_all add: w3_def w2) (simp add: fds_inv_def chan_fds_def)
      have f: "step_ok w [] (fail ecb fd ConnectFailed gen r w3)" for r
        using fail_inv[of fd w3 gen ecb ConnectFailed r] w3 vf w1(7) by (simp add: step_ok_def)
      have c: "step_ok w [] (connecting fd gen w3)"
        using connecting_inv[OF w3(1-4) vf(1) w3(5-7)] w3 w1(7) by (simp add: step_ok_def)
      show ?thesis using False Inr f c unfolding run by (simp add: w3_def[symmetric] Let_def)
    qed
  qed
qed


text \<open>Taking the channel out leaves its descriptor to the running operation.\<close>

lemma remove_channel_inv:
  assumes "cinv {} w" "cphase_of w = Connecting"
  obtains fd where "cchannel w = Some (fd, generation w)" "isValid fd" "{fd} - {kInvalidSocket} = {fd}"
    "removeAndResetChannel w = (fd, queueInLoop (QRetire fd) (w\<lparr>cchannel := None\<rparr>))"
    "fds_inv {fd} (queueInLoop (QRetire fd) (w\<lparr>cchannel := None\<rparr>))"
    "timers_inv (queueInLoop (QRetire fd) (w\<lparr>cchannel := None\<rparr>))"
    "delays_inv (queueInLoop (QRetire fd) (w\<lparr>cchannel := None\<rparr>))"
proof -
  obtain fd g where c: "cchannel w = Some (fd, g)" using assms by (auto simp: cinv_def)
  have i: "fds_inv {} w" "timers_inv w" "delays_inv w" using assms(1) by (simp_all add: cinv_def cinv0_def)
  have g: "g = generation w" "isValid fd" using i(1) c by (auto simp: fds_inv_def)
  show thesis
  proof (rule that[of fd])
    show "cchannel w = Some (fd, generation w)" "isValid fd" "{fd} - {kInvalidSocket} = {fd}"
      using c g by (auto simp: isValid_def)
    show "removeAndResetChannel w = (fd, queueInLoop (QRetire fd) (w\<lparr>cchannel := None\<rparr>))"
      using c by (simp add: removeAndResetChannel_def)
    show "fds_inv {fd} (queueInLoop (QRetire fd) (w\<lparr>cchannel := None\<rparr>))"
      using i(1) c by (simp add: fds_inv_def chan_fds_def queueInLoop_def)
    show "timers_inv (queueInLoop (QRetire fd) (w\<lparr>cchannel := None\<rparr>))" "delays_inv (queueInLoop (QRetire fd) (w\<lparr>cchannel := None\<rparr>))"
      using i(2,3) by (simp_all add: timers_inv_def delays_inv_def queueInLoop_def)
  qed
qed

lemma handleError_ok:
  assumes "cinv {} w"
  shows "step_ok w [] (handleError ecb gen w)"
proof (cases "generation w \<noteq> gen \<or> cphase_of w \<noteq> Connecting")
  case True
  then show ?thesis using assms by (auto simp: handleError_def step_ok_def)
next
  case False
  then obtain fd where r: "{fd} - {kInvalidSocket} = {fd}" "removeAndResetChannel w = (fd, queueInLoop (QRetire fd) (w\<lparr>cchannel := None\<rparr>))"
    "fds_inv {fd} (queueInLoop (QRetire fd) (w\<lparr>cchannel := None\<rparr>))" "timers_inv (queueInLoop (QRetire fd) (w\<lparr>cchannel := None\<rparr>))"
    "delays_inv (queueInLoop (QRetire fd) (w\<lparr>cchannel := None\<rparr>))"
    using remove_channel_inv[OF assms] by blast
  have "handleError ecb gen w = fail ecb fd ConnectFailed gen True (queueInLoop (QRetire fd) (w\<lparr>cchannel := None\<rparr>))"
    using False r(2) by (simp add: handleError_def)
  then show ?thesis
    using fail_inv[of fd "queueInLoop (QRetire fd) (w\<lparr>cchannel := None\<rparr>)" gen ecb ConnectFailed True] r False
    by (simp add: step_ok_def queueInLoop_def)
qed

text \<open>A connect timeout fires when its timer has left the loop.\<close>

lemma handleConnectTimeout_ok:
  assumes "cinv {} w" "ctimers w i = Some (d, TConnect gen)"
  shows "step_ok w [] (handleConnectTimeout ecb gen (w\<lparr>ctimers := (ctimers w)(i := None)\<rparr>))"
proof -
  have i: "fds_inv {} w" "timers_inv w" "delays_inv w" using assms(1) by (simp_all add: cinv_def cinv0_def)
  have id: "i = connectTimeoutTimerId w" "i \<noteq> 0" "gen = generation w" using i(2) assms(2) by (auto simp: timers_inv_def)
  then have ph: "cphase_of w = Connecting" using i(2) by (simp add: timers_inv_def)
  then have rt: "retryTimerId w = 0" using i(2) by (simp add: timers_inv_def)
  define w1 where "w1 = w\<lparr>ctimers := (ctimers w)(i := None), connectTimeoutTimerId := 0\<rparr>"
  have em: "ctimers w1 = Map.empty"
  proof
    fix j show "ctimers w1 j = None"
      using i(2) rt id(1) unfolding timers_inv_def w1_def by (cases "ctimers w j") auto
  qed
  have "cinv {} w1" using assms(1) em rt ph by (simp add: cinv_defs w1_def)
  then obtain fd where r: "{fd} - {kInvalidSocket} = {fd}" "removeAndResetChannel w1 = (fd, queueInLoop (QRetire fd) (w1\<lparr>cchannel := None\<rparr>))"
    "fds_inv {fd} (queueInLoop (QRetire fd) (w1\<lparr>cchannel := None\<rparr>))" "timers_inv (queueInLoop (QRetire fd) (w1\<lparr>cchannel := None\<rparr>))"
    "delays_inv (queueInLoop (QRetire fd) (w1\<lparr>cchannel := None\<rparr>))"
    using remove_channel_inv[of w1] ph by (auto simp: w1_def)
  have "handleConnectTimeout ecb gen (w\<lparr>ctimers := (ctimers w)(i := None)\<rparr>) =
      fail ecb fd ConnectTimeout gen True (queueInLoop (QRetire fd) (w1\<lparr>cchannel := None\<rparr>))"
    using ph id(3) r(2) by (simp add: handleConnectTimeout_def w1_def)
  then show ?thesis
    using fail_inv[of fd "queueInLoop (QRetire fd) (w1\<lparr>cchannel := None\<rparr>)" gen ecb ConnectTimeout True] r id(3)
    by (simp add: step_ok_def queueInLoop_def w1_def)
qed


lemma cancelTimers_inv:
  assumes "cinv {} w"
  shows "cinv {} (cancelTimers w) \<or> cphase_of w = RetryWaiting" and "cphase_of w \<noteq> RetryWaiting \<Longrightarrow> cinv {} (cancelTimers w)"
proof -
  have i: "timers_inv w" using assms by (simp add: cinv_def cinv0_def)
  have "cphase_of w \<noteq> RetryWaiting \<Longrightarrow> cinv {} (cancelTimers w)"
    using assms timers_inv_empty[OF i] by (simp add: cinv_defs)
  then show "cinv {} (cancelTimers w) \<or> cphase_of w = RetryWaiting" "cphase_of w \<noteq> RetryWaiting \<Longrightarrow> cinv {} (cancelTimers w)"
    by auto
qed

lemma ops_full_inv:
  assumes "cinv E w"
  shows "cinv E (fold do_cop ops w) \<and> handed (fold do_cop ops w) = handed w \<and> generation w \<le> generation (fold do_cop ops w)"
  using ops_inv[of E w ops] assms by (auto simp: cinv_def)

lemma Socket_dtor_invalid [simp]: "Socket_dtor kInvalidSocket t = t"
  by (simp add: Socket_dtor_def)

lemma Socket_dtor_inv:
  assumes "cinv {fd} w" "isValid fd"
  shows "cinv {} (Socket_dtor fd w)"
proof -
  have "openFds w - {fd} = chan_fds w" "fd \<in> openFds w" using assms(1) by (auto simp: cinv_def cinv0_def fds_inv_def)
  then have eq: "Socket_dtor fd w = w\<lparr>openFds := chan_fds w\<rparr>"
    using assms(2) by (simp add: Socket_dtor_def sockets_close_def)
  show ?thesis using assms(1) unfolding eq by (simp add: cinv_defs)
qed

lemma Socket_dtor_simps [simp]:
  "handed (Socket_dtor fd w) = handed w" "generation (Socket_dtor fd w) = generation w"
  by (simp_all add: Socket_dtor_def sockets_close_def)

lemma handleWrite_ok:
  assumes "cinv {} w"
  shows "\<exists>hs. step_ok w hs (handleWrite ecb ncb err localAddr peerAddr gen w) \<and>
     (hs \<noteq> [] \<longrightarrow> generation w = gen \<and> cphase_of w = Connecting \<and> err = 0 \<and> \<not> selfConnect localAddr peerAddr \<and>
        (\<exists>fd. cchannel w = Some (fd, gen) \<and> hs = [fd]))"
proof (cases "generation w \<noteq> gen \<or> cphase_of w \<noteq> Connecting")
  case True
  then show ?thesis using assms by (intro exI[of _ "[]"]) (auto simp: handleWrite_def step_ok_def)
next
  case False
  have gen: "generation w = gen" using False by simp
  have "cinv {} (cancelTimers w)" using cancelTimers_inv(2)[OF assms] False by simp
  then obtain fd where fd: "cchannel w = Some (fd, gen)" "isValid fd" "{fd} - {kInvalidSocket} = {fd}"
    "removeAndResetChannel (cancelTimers w) = (fd, queueInLoop (QRetire fd) ((cancelTimers w)\<lparr>cchannel := None\<rparr>))"
    "fds_inv {fd} (queueInLoop (QRetire fd) ((cancelTimers w)\<lparr>cchannel := None\<rparr>))"
    "timers_inv (queueInLoop (QRetire fd) ((cancelTimers w)\<lparr>cchannel := None\<rparr>))"
    "delays_inv (queueInLoop (QRetire fd) ((cancelTimers w)\<lparr>cchannel := None\<rparr>))"
    using remove_channel_inv[of "cancelTimers w"] False by auto
  define w1 where "w1 = queueInLoop (QRetire fd) ((cancelTimers w)\<lparr>cchannel := None\<rparr>)"
  note i1 = fd(5-7)[folded w1_def]
  have w1: "cchannel w1 = None" "generation w1 = gen" "handed w1 = handed w" "retryTimerId w1 = 0" "connectTimeoutTimerId w1 = 0"
    using gen by (simp_all add: w1_def queueInLoop_def)
  have failed: "step_ok w [] (fail ecb fd e gen True w1)" for e
    using fail_inv[of fd w1 gen ecb e True] i1 w1 fd(3) gen by (simp add: step_ok_def)
  define w2 where "w2 = w1\<lparr>cphase_of := Connected\<rparr>"
  have em: "ctimers w1 = Map.empty" by (rule timers_inv_none[OF i1(2) w1(4,5)])
  have i2: "cinv {fd} w2" using i1 w1 em by (simp add: w2_def cinv_defs)
  define w3 where "w3 = emitEvent ecb ConnectSuccess w2"
  have w3: "cinv {fd} w3" "handed w3 = handed w" "gen \<le> generation w3"
    "generation w3 = gen \<Longrightarrow> w3 = w2\<lparr>emitted := emitted w2 @ [ConnectSuccess]\<rparr>"
    using emitEvent_inv[of "{fd}" w2 ecb ConnectSuccess] i2 w1
    by (auto simp: w3_def cinv_def emitted_inv) (auto simp: w2_def)
  have dropped: "step_ok w [] (Socket_dtor fd w3)"
    using Socket_dtor_inv[OF w3(1) fd(2)] w3 gen by (simp add: step_ok_def)
  have run: "handleWrite ecb ncb err localAddr peerAddr gen w =
     (if err \<noteq> 0 then fail ecb fd ConnectFailed gen True w1
      else if selfConnect localAddr peerAddr then fail ecb fd SelfConnectDetected gen True w1
      else if generation w3 \<noteq> gen \<or> cphase_of w3 \<noteq> Connected then Socket_dtor fd w3
      else case ncb of
             Some cb \<Rightarrow> fold do_cop (cb (w3\<lparr>openFds := openFds w3 - {fd}, handed := handed w3 @ [fd]\<rparr>) fd)
                 (w3\<lparr>openFds := openFds w3 - {fd}, handed := handed w3 @ [fd]\<rparr>)
           | None \<Rightarrow> Socket_dtor fd (w3\<lparr>cphase_of := CIdle\<rparr>))"
    using False fd(4)
    by (simp add: handleWrite_def w3_def w2_def w1_def Let_def releaseFd_def split: option.splits)
  show ?thesis
  proof (cases "err \<noteq> 0 \<or> selfConnect localAddr peerAddr \<or> generation w3 \<noteq> gen \<or> cphase_of w3 \<noteq> Connected")
    case True
    then show ?thesis unfolding run using failed dropped by (intro exI[of _ "[]"]) auto
  next
    case False
    then have eq: "w3 = w2\<lparr>emitted := emitted w2 @ [ConnectSuccess]\<rparr>" using w3(4) by simp
    have op: "openFds w3 = {fd}" "cchannel w3 = None" "cphase_of w3 = Connected"
      using w3(1) False w1 by (auto simp: cinv_def cinv0_def fds_inv_def chan_fds_def eq w2_def)
    show ?thesis
    proof (cases ncb)
      case None
      have "cinv {fd} (w3\<lparr>cphase_of := CIdle\<rparr>)"
        using w3(1) op(2,3) em by (simp add: cinv_defs eq w2_def)
      then have "step_ok w [] (Socket_dtor fd (w3\<lparr>cphase_of := CIdle\<rparr>))"
        using Socket_dtor_inv[OF _ fd(2)] w3 gen by (simp add: step_ok_def)
      then show ?thesis unfolding run using None False by (intro exI[of _ "[]"]) auto
    next
      case (Some cb)
      let ?w = "w3\<lparr>openFds := openFds w3 - {fd}, handed := handed w3 @ [fd]\<rparr>"
      have "cinv {} ?w" using w3(1) op by (simp add: cinv_def cinv0_def) (simp add: fds_inv_def chan_fds_def)
      then have "step_ok w [fd] (fold do_cop (cb ?w fd) ?w)"
        using ops_full_inv[of "{}" ?w "cb ?w fd"] w3 gen by (simp add: step_ok_def)
      then show ?thesis unfolding run using Some False gen fd(1) \<open>\<not> (generation w \<noteq> gen \<or> cphase_of w \<noteq> Connecting)\<close>
        by (intro exI[of _ "[fd]"]) auto
    qed
  qed
qed


lemma retry_callback_ok:
  assumes "cinv {} w" "ctimers w i = Some (d, TRetry gen)"
  shows "step_ok w [] (retry_callback gen (w\<lparr>ctimers := (ctimers w)(i := None)\<rparr>))"
proof -
  have i: "fds_inv {} w" "timers_inv w" "delays_inv w" using assms(1) by (simp_all add: cinv_def cinv0_def)
  have id: "i = retryTimerId w" "i \<noteq> 0" "gen = generation w" using i(2) assms(2) by (auto simp: timers_inv_def)
  then have ph: "cphase_of w = RetryWaiting" using i(2) by (simp add: timers_inv_def)
  then have ct: "connectTimeoutTimerId w = 0" using i(2) by (simp add: timers_inv_def)
  have ch: "cchannel w = None" using i(1) ph by (cases "cchannel w") (auto simp: fds_inv_def)
  define w1 where "w1 = w\<lparr>ctimers := (ctimers w)(i := None), retryTimerId := 0, cphase_of := CIdle\<rparr>"
  have em: "ctimers w1 = Map.empty"
  proof
    fix j show "ctimers w1 j = None"
      using i(2) ct id(1) unfolding timers_inv_def w1_def by (cases "ctimers w j") auto
  qed
  have "cinv0 {} w1" using i em ct ch by (simp add: cinv_defs w1_def)
  moreover have "retry_callback gen (w\<lparr>ctimers := (ctimers w)(i := None)\<rparr>) = start w1"
    using ph id(3) by (simp add: retry_callback_def w1_def)
  moreover have "start w1 \<noteq> w1"
  proof -
    have "generation (start w1) \<noteq> generation w1" by (simp add: start_def w1_def Let_def queueInLoop_def)
    then show ?thesis by metis
  qed
  ultimately show ?thesis using start_inv[of "{}" w1] by (auto simp: step_ok_def) (simp_all add: w1_def)
qed

text \<open>The assumption on system calls: a descriptor that \<open>socket\<close> returns is not \<open>kInvalidSocket\<close>.\<close>

definition event_ok :: "conn_event \<Rightarrow> bool" where
  "event_ok e = (case e of EvTask (Inr fd) err \<Rightarrow> isValid fd | _ \<Rightarrow> True)"

definition delivers :: "conn_event \<Rightarrow> connector \<Rightarrow> int \<Rightarrow> bool" where
  "delivers e w fd \<longleftrightarrow> (\<exists>localAddr peerAddr. e = EvWrite (generation w) 0 localAddr peerAddr \<and> \<not> selfConnect localAddr peerAddr \<and>
     cphase_of w = Connecting \<and> cchannel w = Some (fd, generation w))"

lemma conn_step_ok:
  assumes inv: "cinv {} w" and ok: "event_ok e"
  shows "\<exists>hs. step_ok w hs (conn_step ecb ncb e w) \<and> (hs \<noteq> [] \<longrightarrow> (\<exists>fd. hs = [fd] \<and> delivers e w fd))"
proof (cases e)
  case (EvTask created err)
  have t: "cinv {} (w\<lparr>ctasks := ts\<rparr>)" for ts using inv by (simp add: cinv_def cinv0_def)
  have v: "\<forall>fd. created = Inr fd \<longrightarrow> isValid fd" using ok EvTask by (auto simp: event_ok_def split: sum.splits)
  show ?thesis
  proof (cases "ctasks w")
    case Nil
    then show ?thesis using inv EvTask by (intro exI[of _ "[]"]) (simp add: step_ok_def)
  next
    case (Cons q ts)
    then show ?thesis
      using startInLoop_ok[OF t v, of ts ecb err] t[of ts] EvTask
      by (intro exI[of _ "[]"]) (cases q; simp add: step_ok_def)
  qed
next
  case (EvWrite g err localAddr peerAddr)
  then show ?thesis using handleWrite_ok[OF inv, of ecb ncb err localAddr peerAddr g] by (auto simp: delivers_def)
next
  case (EvError g)
  then show ?thesis using handleError_ok[OF inv, of ecb g] by (intro exI[of _ "[]"]) simp
next
  case (EvTimer i)
  then show ?thesis
    using handleConnectTimeout_ok[OF inv, of i _ _ ecb] retry_callback_ok[OF inv, of i] inv
    by (intro exI[of _ "[]"]) (auto simp: step_ok_def split: option.splits ctimer.splits)
next
  case (EvOp a)
  then show ?thesis
    using ops_full_inv[OF inv, of "[a]"] by (intro exI[of _ "[]"]) (simp add: step_ok_def)
qed

lemma conn_run_Cons: "conn_run ecb ncb (e # es) w = conn_run ecb ncb es (conn_step ecb ncb e w)"
  by (simp add: conn_run_def)

lemma conn_run_inv:
  "cinv {} w \<Longrightarrow> \<forall>e \<in> set es. event_ok e \<Longrightarrow> cinv {} (conn_run ecb ncb es w)"
proof (induction es arbitrary: w)
  case (Cons e es)
  then show ?case using conn_step_ok[OF Cons.prems(1), of e ecb ncb] by (auto simp: conn_run_Cons step_ok_def)
qed (simp add: conn_run_def)

lemma Connector_inv: "Connector opts = Inr w \<Longrightarrow> cinv {} w"
  by (auto simp: Connector_def bind_res_Inr options_validate_def cinv_defs split: if_splits)


section \<open>Stopping\<close>

definition no_start :: "conn_event \<Rightarrow> bool" where
  "no_start e \<longleftrightarrow> e \<noteq> EvOp OpStart \<and> e \<noteq> EvOp OpRestart"

definition stopped :: "connector \<Rightarrow> bool" where
  "stopped w \<longleftrightarrow> cinv {} w \<and> cphase_of w = CIdle"

lemma stopped_timers: "stopped w \<Longrightarrow> ctimers w = Map.empty"
proof -
  assume "stopped w"
  then have t: "timers_inv w" "cphase_of w = CIdle" by (simp_all add: stopped_def cinv_def cinv0_def)
  then have "retryTimerId w = 0" "connectTimeoutTimerId w = 0" by (simp_all add: timers_inv_def)
  with t(1) show "ctimers w = Map.empty" by (rule timers_inv_none)
qed

lemma stopped_step:
  assumes "stopped w" "no_start e"
  shows "stopped (conn_step ecb ncb e w) \<and> handed (conn_step ecb ncb e w) = handed w \<and>
     emitted (conn_step ecb ncb e w) = emitted w"
proof (cases e)
  case (EvTask created err)
  then show ?thesis
    using assms(1) by (cases "ctasks w"; cases "hd (ctasks w)")
      (auto simp: startInLoop_def stopped_def cinv_def cinv0_def)
next
  case (EvWrite g err localAddr peerAddr)
  then show ?thesis using assms(1) by (simp add: handleWrite_def stopped_def)
next
  case (EvError g)
  then show ?thesis using assms(1) by (simp add: handleError_def stopped_def)
next
  case (EvTimer i)
  then show ?thesis using assms(1) stopped_timers[OF assms(1)] by simp
next
  case (EvOp a)
  then have a: "a = OpStop" using assms(2) by (cases a) (auto simp: no_start_def)
  have "cinv0 {} w" using assms(1) by (simp add: stopped_def cinv_def)
  moreover have "cchannel w = None"
    using assms(1) by (cases "cchannel w") (auto simp: stopped_def cinv_def cinv0_def fds_inv_def)
  ultimately show ?thesis
    using stop_inv[of "{}" w] EvOp a by (auto simp: stopped_def) (simp add: stop_def cancelTimers_def Let_def)
qed

lemma stopped_run:
  "stopped w \<Longrightarrow> \<forall>e \<in> set es. no_start e \<Longrightarrow>
     stopped (conn_run ecb ncb es w) \<and> handed (conn_run ecb ncb es w) = handed w \<and> emitted (conn_run ecb ncb es w) = emitted w"
proof (induction es arbitrary: w)
  case (Cons e es)
  then show ?case using stopped_step[OF Cons.prems(1), of e ecb ncb] by (auto simp: conn_run_Cons)
qed (simp add: conn_run_def)

lemma stop_emitted: "emitted (stop w) = emitted w"
  by (simp add: stop_def cancelTimers_def Let_def removeAndResetChannel_def queueInLoop_def sockets_close_def split: option.splits)

section \<open>Properties\<close>

definition demo_connector :: connector where
  "demo_connector = (case Connector (ConnectorOptions\<lparr>enableRetry := True\<rparr>) of Inr w \<Rightarrow> w)"

lemma demo_connector: "Connector (ConnectorOptions\<lparr>enableRetry := True\<rparr>) = Inr demo_connector"
  by (simp add: demo_connector_def Connector_def options_validate_def ConnectorOptions_def)

definition demo_hook :: event_hook where
  "demo_hook w e = (if e = RetryScheduled then [OpRestart] else [])"

definition demo_addr :: "u16 \<Rightarrow> sockaddr" where
  "demo_addr p = \<lparr>ss_family = AF_INET, sin_port = p, sin_addr = [127, 0, 0, 1]\<rparr>"

text \<open>C8. Resources of a connector. In every run, whatever the hooks do (they may stop and restart the
  connector from inside its callbacks): no descriptor is closed twice or closed without being owned, the
  channel is never dereferenced when absent, the only descriptor the connector has open is that of its
  registered channel, there is a channel exactly in phase \<open>Connecting\<close>, a retry timer exactly in phase
  \<open>RetryWaiting\<close>, every timer in the loop is of the current generation, and the destructor leaves no
  descriptor open and no timer behind.\<close>

theorem connector_resources:
  assumes "Connector opts = Inr w0" "\<forall>e \<in> set es. event_ok e" "w = conn_run ecb ncb es w0"
  shows "\<not> badClose w \<and> \<not> nullChannel w \<and> openFds w = chan_fds w \<and>
     (cphase_of w = Connecting \<longleftrightarrow> cchannel w \<noteq> None) \<and> (cphase_of w = RetryWaiting \<longleftrightarrow> retryTimerId w \<noteq> 0) \<and>
     (\<forall>i d t. ctimers w i = Some (d, t) \<longrightarrow> t = TRetry (generation w) \<or> t = TConnect (generation w)) \<and>
     openFds (Connector_dtor w) = {} \<and> ctimers (Connector_dtor w) = Map.empty \<and> \<not> badClose (Connector_dtor w)"
proof -
  have inv: "cinv {} w" unfolding assms(3) by (rule conn_run_inv[OF Connector_inv[OF assms(1)] assms(2)])
  then have i: "fds_inv {} w" "timers_inv w" by (simp_all add: cinv_def cinv0_def)
  have em: "ctimers (cancelTimers w) = Map.empty" by (rule timers_inv_empty[OF i(2)])
  have dtor: "openFds (Connector_dtor w) = {} \<and> ctimers (Connector_dtor w) = Map.empty \<and> \<not> badClose (Connector_dtor w)"
  proof (cases "cchannel w")
    case None
    then show ?thesis
      using i(1) em timers_inv_none[OF i(2)] by (auto simp: Connector_dtor_def Let_def fds_inv_def chan_fds_def)
  next
    case (Some x)
    then show ?thesis
      using i(1) em by (cases x)
        (auto simp: Connector_dtor_def Let_def removeAndResetChannel_def queueInLoop_def sockets_close_def fds_inv_def chan_fds_def)
  qed
  have "cphase_of w = Connecting \<longleftrightarrow> cchannel w \<noteq> None" using inv i(1) by (auto simp: cinv_def fds_inv_def)
  moreover have "\<forall>j d t. ctimers w j = Some (d, t) \<longrightarrow> t = TRetry (generation w) \<or> t = TConnect (generation w)"
    using i(2) unfolding timers_inv_def by blast
  ultimately show ?thesis using i dtor by (simp add: fds_inv_def timers_inv_def)
qed


theorem connector_resources_witness:
  "let w = conn_run demo_hook None [EvOp OpStart, EvTask (Inr 5) ECONNREFUSED, EvTask (Inr 6) EINPROGRESS] demo_connector
   in \<not> badClose w \<and> openFds w = {6} \<and> cphase_of w = Connecting \<and> openFds (Connector_dtor w) = {}"
proof -
  let ?es = "[EvOp OpStart, EvTask (Inr 5) ECONNREFUSED, EvTask (Inr 6) EINPROGRESS]"
  have ok: "\<forall>e \<in> set ?es. event_ok e" by (simp add: event_ok_def isValid_def kInvalidSocket_def)
  have run: "cchannel (conn_run demo_hook None ?es demo_connector) = Some (6, 3)"
    by (simp add: conn_run_def demo_connector_def Connector_def options_validate_def ConnectorOptions_def start_def queueInLoop_def
        startInLoop_def emitEvent_def demo_hook_def fail_def cancelTimers_def sockets_close_def isValid_def kInvalidSocket_def
        isInProgress_def isInterrupted_def isConnectRetryable_def ECONNREFUSED_def EINPROGRESS_def EISCONN_def EINTR_no_def
        EAGAIN_def scheduleRetry_def runAfter_def restart_def stop_def next_delay_def connecting_def Let_def)
  show ?thesis
    using connector_resources[OF demo_connector ok refl, of demo_hook None] run by (simp add: Let_def chan_fds_def)
qed

text \<open>After \<open>stop\<close> the connector is silent: until somebody calls \<open>start\<close> or \<open>restart\<close> again, no queued
  functor, no callback of a removed channel and no timer of an earlier attempt makes it emit an event,
  hand out a descriptor, open a socket or leave the disconnected state.\<close>

theorem stop_silences:
  assumes "Connector opts = Inr w0" "\<forall>e \<in> set es. event_ok e" "w = conn_run ecb ncb es w0"
    and "\<forall>e \<in> set es'. no_start e" "w' = conn_run ecb ncb es' (stop w)"
  shows "emitted w' = emitted w \<and> handed w' = handed w \<and> openFds w' = {} \<and> state w' = kDisconnected"
proof -
  have "cinv0 {} w"
    unfolding assms(3) using conn_run_inv[OF Connector_inv[OF assms(1)] assms(2), of ecb ncb] by (simp add: cinv_def)
  note s = stop_inv[OF this]
  then have "stopped (stop w)" by (simp add: stopped_def)
  from stopped_run[OF this assms(4), of ecb ncb]
  have r: "stopped w'" "handed w' = handed (stop w)" "emitted w' = emitted (stop w)" by (simp_all add: assms(5))
  have "cchannel w' = None" "openFds w' = chan_fds w'"
    using r(1) by (cases "cchannel w'"; auto simp: stopped_def cinv_def cinv0_def fds_inv_def)+
  then show ?thesis using r s by (simp add: state_def stopped_def chan_fds_def stop_emitted)
qed

theorem stop_silences_witness:
  "let w = conn_run demo_hook None [EvOp OpStart, EvTask (Inr 6) EINPROGRESS] demo_connector;
       w' = conn_run demo_hook None [EvWrite 1 0 (demo_addr 1) (demo_addr 2), EvError 1] (stop w)
   in emitted w' = emitted w \<and> handed w' = [] \<and> openFds w' = {} \<and> state w' = kDisconnected"
proof -
  let ?es = "[EvOp OpStart, EvTask (Inr 6) EINPROGRESS]"
  let ?es' = "[EvWrite 1 0 (demo_addr 1) (demo_addr 2), EvError 1]"
  have ok: "\<forall>e \<in> set ?es. event_ok e" by (simp add: event_ok_def isValid_def kInvalidSocket_def)
  have ns: "\<forall>e \<in> set ?es'. no_start e" by (simp add: no_start_def)
  have h: "handed (conn_run demo_hook None ?es demo_connector) = []"
    by (simp add: conn_run_def demo_connector_def Connector_def options_validate_def ConnectorOptions_def start_def queueInLoop_def
        startInLoop_def emitEvent_def demo_hook_def connecting_def isInProgress_def Let_def)
  show ?thesis
    using stop_silences[OF demo_connector ok refl ns refl, of demo_hook None] h by (simp add: Let_def)
qed

text \<open>Hand-over of descriptors. One turn hands out at most one descriptor, and only when the write
  callback of the current attempt sees no socket error and no self-connect; it is the descriptor of the
  current channel, and the connector does not own it afterwards unless the kernel reuses the number.\<close>

theorem handover_exclusive:
  assumes "Connector opts = Inr w0" "\<forall>e \<in> set es. event_ok e" "w = conn_run ecb ncb es w0" "event_ok e"
  shows "handed (conn_step ecb ncb e w) = handed w \<or>
     (\<exists>fd. handed (conn_step ecb ncb e w) = handed w @ [fd] \<and> delivers e w fd \<and> fd \<in> openFds w \<and>
        openFds (conn_step ecb ncb e w) = chan_fds (conn_step ecb ncb e w))"
proof -
  have inv: "cinv {} w" unfolding assms(3) by (rule conn_run_inv[OF Connector_inv[OF assms(1)] assms(2)])
  obtain hs where hs: "step_ok w hs (conn_step ecb ncb e w)" "hs \<noteq> [] \<Longrightarrow> \<exists>fd. hs = [fd] \<and> delivers e w fd"
    using conn_step_ok[OF inv assms(4), of ecb ncb] by blast
  have o: "openFds (conn_step ecb ncb e w) = chan_fds (conn_step ecb ncb e w)"
    using hs(1) by (simp add: step_ok_def cinv_def cinv0_def fds_inv_def)
  have own: "delivers e w fd \<Longrightarrow> fd \<in> openFds w" for fd
  proof -
    assume "delivers e w fd"
    then have "cchannel w = Some (fd, generation w)" by (auto simp: delivers_def)
    moreover have "openFds w = chan_fds w" using inv by (simp add: cinv_def cinv0_def fds_inv_def)
    ultimately show "fd \<in> openFds w" by (simp add: chan_fds_def)
  qed
  show ?thesis
  proof (cases "hs = []")
    case True
    then show ?thesis using hs(1) by (simp add: step_ok_def)
  next
    case False
    then show ?thesis using hs own o by (auto simp: step_ok_def)
  qed
qed

theorem handover_exclusive_witness:
  "let w = conn_run demo_hook (Some (\<lambda>w fd. [])) [EvOp OpStart, EvTask (Inr 6) EINPROGRESS] demo_connector;
       w' = conn_step demo_hook (Some (\<lambda>w fd. [])) (EvWrite 1 0 (demo_addr 1) (demo_addr 2)) w
   in handed w' = [6] \<and> (\<exists>fd. handed w' = handed w @ [fd] \<and> fd \<in> openFds w)"
proof -
  let ?ncb = "Some (\<lambda>w fd. []) :: newconn_hook"
  let ?es = "[EvOp OpStart, EvTask (Inr 6) EINPROGRESS]"
  let ?e = "EvWrite 1 0 (demo_addr 1) (demo_addr 2)"
  have ok: "\<forall>e \<in> set ?es. event_ok e" "event_ok ?e" by (simp_all add: event_ok_def isValid_def kInvalidSocket_def)
  have h: "handed (conn_run demo_hook ?ncb ?es demo_connector) = []"
    "handed (conn_step demo_hook ?ncb ?e (conn_run demo_hook ?ncb ?es demo_connector)) = [6]"
    by (simp_all add: conn_run_def demo_connector_def Connector_def options_validate_def ConnectorOptions_def start_def queueInLoop_def
        startInLoop_def emitEvent_def demo_hook_def connecting_def isInProgress_def handleWrite_def removeAndResetChannel_def
        cancelTimers_def selfConnect_def demo_addr_def releaseFd_def Let_def)
  show ?thesis
    using handover_exclusive[OF demo_connector ok(1) refl ok(2), of demo_hook ?ncb] h by (simp add: Let_def)
qed

text \<open>Backoff. The delay of the n-th retry in a row is the initial delay doubled n times and cut at the
  maximum, and the computation stays in the range of the 64-bit duration, also for a maximum close to
  its end.\<close>

theorem backoff_sequence:
  assumes "0 < initial" "initial \<le> max_delay" "max_delay < 2 ^ 63"
  shows "((\<lambda>d. next_delay d max_delay) ^^ n) initial = min max_delay (initial * 2 ^ n) \<and>
     (let d = ((\<lambda>d. next_delay d max_delay) ^^ n) initial
      in 0 \<le> max_delay - d \<and> max_delay - d < 2 ^ 63 \<and> (d \<le> max_delay - d \<longrightarrow> d * 2 < 2 ^ 63))"
proof -
  have seq: "((\<lambda>d. next_delay d max_delay) ^^ n) initial = min max_delay (initial * 2 ^ n)"
  proof (induction n)
    case (Suc n)
    have "initial * 1 \<le> initial * 2 ^ n" by (rule mult_left_mono) (use assms(1) in simp_all)
    then show ?case using Suc assms by (auto simp: next_delay_def min_def)
  qed (use assms in simp)
  define x where "x = initial * 2 ^ n"
  have "0 < x" using assms(1) by (simp add: x_def)
  then show ?thesis using assms unfolding seq x_def[symmetric] Let_def min_def by (simp split: if_splits)
qed

theorem backoff_sequence_witness:
  "((\<lambda>d. next_delay d 30000000000) ^^ 3) 500000000 = 4000000000"
  using backoff_sequence[of 500000000 30000000000 3] by simp

end
