(* ===== verification/Tcp_Client.thy ===== *)
theory Tcp_Client
  imports Connector_Model Tcp_Connection
begin

text \<open>
  \<^verbatim>\<open>TcpClient.cc\<close> and \<^verbatim>\<open>TcpClientOptions.h\<close>: a client that resolves, connects, and reconnects, over the models of the
  connector and of the connection.

  A client makes a new \<open>Connector\<close> for every attempt; \<open>attempts\<close> are all of them, each with the generation its callbacks
  captured, and \<open>cl_connector\<close> is the member \<open>connector_\<close>. The callbacks run inside a step of the connector, which goes on
  afterwards with what they have done to it. \<open>connector_step\<close> therefore runs the connector with hooks that compute, from the
  events emitted so far, what the client does to this very connector (\<open>cops\<close>), and then takes over the client's own
  state. Connections are objects of \<open>Tcp_Connection\<close>; what the client's wrappers do is applied in the order of the calls the
  connection recorded, and \<open>k_gone\<close> is the answer of \<open>disconnected()\<close> at that moment.

  The application is given by \<open>env\<close>: the callbacks of a connection, the calls to the client made in the connector hook and
  in the connection callbacks (\<open>connect\<close>, \<open>stop\<close> and the retry flag; \<open>disconnect\<close> in a callback is \<open>stop\<close> here and
  \<open>shutdown\<close> in the code of the connection). The resolver answers each request at most once (\<open>Dns_Resolver\<close>);
  \<open>resolving\<close> holds the generations captured by the requests without answer. The generation is a natural number: it would
  take \<open>2 ^ 64\<close> calls for it to wrap. A failed \<open>assert\<close> sets \<open>cl_assert\<close>, an exception of the connector's constructor \<open>cl_threw\<close>.
\<close>

section \<open>State\<close>

datatype connectPhase = Ph_Idle | Ph_Resolving | Ph_Connecting | Ph_Connected

datatype capi = CConnect | CStop | CRetry bool

datatype cltask = QApi capi | QDisconnect | QReconnect nat | QAdvance nat nat | QDestroy string

record attempt =
  at_conn :: connector
  at_gen :: nat

record cobj =
  k_conn :: conn
  k_fd :: int
  k_gone :: bool

record client = fd_table +
  cl_phase :: connectPhase
  cl_gen :: nat
  cl_connect :: bool
  cl_retry :: bool
  cl_lifetime :: bool
  cl_name :: string
  cl_nextConnId :: nat
  cl_tlsHook :: bool
  cl_tlsContext :: bool
  fixedAddress :: "sockaddr option"
  connectorOptions :: Connector_Model.options
  candidates :: "sockaddr list"
  nextCandidate :: nat
  cl_connector :: "nat option"
  attempts :: "attempt list"
  cl_connection :: "string option"
  cl_objects :: "string \<rightharpoonup> cobj"
  cl_tasks :: "cltask list"
  resolving :: "nat list"
  running :: "nat option"
  cops :: "cop list"
  cl_destroyed :: "string list"
  cl_assert :: bool
  cl_threw :: bool

record client_env =
  cl_exec :: "string \<Rightarrow> exec"
  cl_network :: "string \<Rightarrow> transport"
  cl_tls_created :: "string \<Rightarrow> bool"
  connector_hook :: "client \<Rightarrow> cevent \<Rightarrow> capi list"
  connection_hook :: "string \<Rightarrow> cb_note \<Rightarrow> client \<Rightarrow> capi list"

definition client_members :: "string \<Rightarrow> bool \<Rightarrow> sockaddr option \<Rightarrow> Connector_Model.options \<Rightarrow> client" where
  "client_members name retry fixed opts =
     \<lparr>openFds = {}, badClose = False, cl_phase = Ph_Idle, cl_gen = 0, cl_connect = False, cl_retry = retry, cl_lifetime = True,
      cl_name = name, cl_nextConnId = 1, cl_tlsHook = False, cl_tlsContext = False, fixedAddress = fixed, connectorOptions = opts,
      candidates = [], nextCandidate = 0, cl_connector = None, attempts = [], cl_connection = None, cl_objects = Map.empty,
      cl_tasks = [], resolving = [], running = None, cops = [], cl_destroyed = [], cl_assert = False, cl_threw = False\<rparr>"

text \<open>The constructor with options and the one for a host name.\<close>

definition TcpClient :: "sockaddr \<Rightarrow> string \<Rightarrow> bool \<Rightarrow> Connector_Model.options \<Rightarrow> client res" where
  "TcpClient serverAddr name retry opts =
     bind_res (options_validate opts) (\<lambda>_. Inr (client_members name retry (Some serverAddr) opts))"

definition TcpClient_hostname :: "string \<Rightarrow> client" where
  "TcpClient_hostname name = client_members name False None ConnectorOptions"

section \<open>Connectors\<close>

text \<open>A call on a connector. The one that is running its callbacks gets it when the hook returns its calls.\<close>

definition call_connector :: "nat \<Rightarrow> cop \<Rightarrow> client \<Rightarrow> client" where
  "call_connector a op s =
     (if running s = Some a then s\<lparr>cops := cops s @ [op]\<rparr>
      else s\<lparr>attempts := (attempts s)[a := (attempts s ! a)\<lparr>at_conn := do_cop op (at_conn (attempts s ! a))\<rparr>]\<rparr>)"

text \<open>\<open>if (auto previous = std::move(connector_)) { previous->stop(); }\<close>\<close>

definition stop_previous :: "client \<Rightarrow> client" where
  "stop_previous s =
     (case cl_connector s of
        None \<Rightarrow> s
      | Some a \<Rightarrow> call_connector a OpStop (s\<lparr>cl_connector := None\<rparr>))"

text \<open>\<open>initConnector\<close> followed by \<open>connector_->start()\<close>. Whether the address of a candidate can be connected shows in the system
  calls of the connector.\<close>

definition initConnector :: "Connector_Model.options \<Rightarrow> client \<Rightarrow> client" where
  "initConnector opts s =
     (case Connector opts of
        Inl e \<Rightarrow> s\<lparr>cl_threw := True\<rparr>
      | Inr w \<Rightarrow>
          s\<lparr>attempts := attempts s @ [\<lparr>at_conn = w, at_gen = cl_gen s\<rparr>], cl_connector := Some (length (attempts s))\<rparr>)"

definition start_connector :: "client \<Rightarrow> client" where
  "start_connector s = (case cl_connector s of Some a \<Rightarrow> call_connector a OpStart s | None \<Rightarrow> s)"

definition resolveAndConnect :: "client \<Rightarrow> client" where
  "resolveAndConnect s = s\<lparr>cl_phase := Ph_Resolving, resolving := resolving s @ [cl_gen s]\<rparr>"

definition startNextCandidate :: "client \<Rightarrow> client" where
  "startNextCandidate s =
     (let s = stop_previous s
      in if nextCandidate s = length (candidates s)
         then s\<lparr>candidates := [], nextCandidate := 0, cl_phase := Ph_Idle\<rparr>
         else let s = s\<lparr>cl_phase := Ph_Connecting\<rparr>;
                  options = (connectorOptions s)\<lparr>enableRetry := False\<rparr>;
                  s = initConnector options (s\<lparr>nextCandidate := nextCandidate s + 1\<rparr>)
              in start_connector s)"

section \<open>Connecting and stopping\<close>

text \<open>\<open>disconnected()\<close> of the current connection.\<close>

definition connection_gone :: "client \<Rightarrow> bool" where
  "connection_gone s =
     (case cl_connection s of
        None \<Rightarrow> False
      | Some n \<Rightarrow> (case cl_objects s n of Some x \<Rightarrow> k_gone x | None \<Rightarrow> False))"

definition queue_task :: "cltask \<Rightarrow> client \<Rightarrow> client" where
  "queue_task t s = s\<lparr>cl_tasks := cl_tasks s @ [t]\<rparr>"

definition connectInLoop :: "client \<Rightarrow> client" where
  "connectInLoop s =
     (let s = s\<lparr>cl_connect := True\<rparr>
      in if cl_phase s = Ph_Connected
         then if connection_gone s then queue_task (QReconnect (cl_gen s)) s else s
         else if cl_phase s \<noteq> Ph_Idle then s
         else let s = s\<lparr>cl_gen := cl_gen s + 1, candidates := [], nextCandidate := 0\<rparr>;
                  s = stop_previous s
              in if fixedAddress s = None then resolveAndConnect s
                 else start_connector (initConnector (connectorOptions s) (s\<lparr>cl_phase := Ph_Connecting\<rparr>)))"

definition stopInLoop :: "client \<Rightarrow> client" where
  "stopInLoop s =
     (let s = s\<lparr>cl_connect := False, cl_gen := cl_gen s + 1, candidates := [], nextCandidate := 0\<rparr>;
          s = (if cl_phase s \<noteq> Ph_Connected then s\<lparr>cl_phase := Ph_Idle\<rparr> else s)
      in stop_previous s)"

fun do_capi :: "capi \<Rightarrow> client \<Rightarrow> client" where
  "do_capi CConnect s = connectInLoop s"
| "do_capi CStop s = stopInLoop s"
| "do_capi (CRetry b) s = s\<lparr>cl_retry := b\<rparr>"

section \<open>The callbacks of a connection\<close>

definition removeConnection :: "string \<Rightarrow> client \<Rightarrow> client" where
  "removeConnection n s =
     (let s = (if cl_connection s \<noteq> Some n then s\<lparr>cl_assert := True\<rparr> else s);
          s = s\<lparr>cl_connection := None\<rparr>;
          s = queue_task (QDestroy n) s;
          s = s\<lparr>cl_phase := Ph_Idle\<rparr>
      in if cl_retry s \<and> cl_connect s then connectInLoop s else s)"

definition set_gone :: "string \<Rightarrow> bool \<Rightarrow> client \<Rightarrow> client" where
  "set_gone n b s = s\<lparr>cl_objects := (cl_objects s)(n := map_option (\<lambda>x. x\<lparr>k_gone := b\<rparr>) (cl_objects s n))\<rparr>"

fun client_note :: "client_env \<Rightarrow> string \<Rightarrow> cb_note \<Rightarrow> client \<Rightarrow> client" where
  "client_note env n NClose s = (if cl_lifetime s then removeConnection n s else s)"
| "client_note env n note s =
     (let s = (if note = NDisconnected then set_gone n True s else s)
      in if cl_lifetime s then fold do_capi (connection_hook env n note s) s else s)"

definition conn_do :: "client_env \<Rightarrow> string \<Rightarrow> (conn \<Rightarrow> conn res) \<Rightarrow> client \<Rightarrow> client res" where
  "conn_do env n f s =
     (case cl_objects s n of
        None \<Rightarrow> Inl Out_of_bounds
      | Some x \<Rightarrow>
          bind_res (f (k_conn x)) (\<lambda>c.
            Inr (set_gone n (c_state c = Tcp_Connection.kDisconnected)
                  (fold (client_note env n) (drop (length (called (k_conn x))) (called c))
                    (s\<lparr>cl_objects := (cl_objects s)(n \<mapsto> x\<lparr>k_conn := c\<rparr>)\<rparr>)))))"

definition client_connName :: "client \<Rightarrow> string" where
  "client_connName s = cl_name s @ ''#'' @ to_string (cl_nextConnId s)"

definition client_callbacks :: "client \<Rightarrow> conn \<Rightarrow> conn" where
  "client_callbacks s c =
     (let c = set_callback (SConnection True) c;
          c = set_callback (SMessage True) c;
          c = set_callback (SWriteComplete True) c;
          c = set_callback (SClose True) c
      in if cl_tlsHook s then set_callback (STls True) c else c)"

definition client_establish :: "exec \<Rightarrow> bool \<Rightarrow> bool \<Rightarrow> conn \<Rightarrow> conn res" where
  "client_establish exec tls created c =
     bind_res (if tls
               then bind_res (if cb_tls (c_cbs c) then call_user exec (NTls HandshakeStarted) c else Inr c) (\<lambda>c.
                      Inr (startTls created c))
               else Inr c) (connectEstablished exec)"

definition client_newConnection :: "client_env \<Rightarrow> int \<Rightarrow> client \<Rightarrow> client res" where
  "client_newConnection env sockfd s =
     (let n = client_connName s;
          s = s\<lparr>cl_nextConnId := cl_nextConnId s + 1\<rparr>;
          c = client_callbacks s (TcpConnection sockfd (cl_network env n));
          s = s\<lparr>cl_objects := (cl_objects s)(n \<mapsto> \<lparr>k_conn = c, k_fd = sockfd, k_gone = False\<rparr>), cl_connection := Some n,
                cl_phase := Ph_Connected, candidates := [], nextCandidate := 0\<rparr>
      in conn_do env n (client_establish (cl_exec env n) (cl_tlsContext s) (cl_tls_created env n)) s)"

section \<open>The callbacks of a connector\<close>

definition is_failure :: "cevent \<Rightarrow> bool" where
  "is_failure e \<longleftrightarrow> e = ConnectFailed \<or> e = ConnectTimeout \<or> e = SelfConnectDetected"

definition handleConnectorEvent :: "client_env \<Rightarrow> nat \<Rightarrow> cevent \<Rightarrow> client \<Rightarrow> client" where
  "handleConnectorEvent env a e s =
     (let s = (if is_failure e \<and> fixedAddress s = None
               then let s = (if nextCandidate s = length (candidates s) then s\<lparr>cl_phase := Ph_Idle\<rparr> else s)
                    in queue_task (QAdvance (cl_gen s) a) s
               else if is_failure e then s\<lparr>cl_phase := Ph_Idle\<rparr>
               else if e = ConnectAttempt \<or> e = RetryScheduled then s\<lparr>cl_phase := Ph_Connecting\<rparr>
               else s)
      in fold do_capi (connector_hook env s e) s)"

text \<open>The two callbacks installed by \<open>initConnector\<close>, for attempt \<open>a\<close>.\<close>

definition on_event :: "client_env \<Rightarrow> nat \<Rightarrow> cevent \<Rightarrow> client \<Rightarrow> client" where
  "on_event env a e s =
     (if \<not> cl_lifetime s \<or> at_gen (attempts s ! a) \<noteq> cl_gen s then s
      else if cl_connector s \<noteq> Some a then s
      else handleConnectorEvent env a e s)"

definition on_connected :: "client_env \<Rightarrow> nat \<Rightarrow> int \<Rightarrow> client \<Rightarrow> client res" where
  "on_connected env a sockfd s =
     (let s = s\<lparr>openFds := insert sockfd (openFds s)\<rparr>
      in if \<not> cl_lifetime s \<or> at_gen (attempts s ! a) \<noteq> cl_gen s \<or> \<not> cl_connect s then Inr (sockets_close sockfd s)
         else if cl_connector s \<noteq> Some a then Inr (sockets_close sockfd s)
         else client_newConnection env sockfd s)"

text \<open>The hooks of the connector of attempt \<open>a\<close>, whose step began in client state \<open>s0\<close> with \<open>n\<close> events emitted.\<close>

definition event_calls :: "client_env \<Rightarrow> nat \<Rightarrow> client \<Rightarrow> nat \<Rightarrow> event_hook" where
  "event_calls env a s0 n w e =
     (let s = fold (on_event env a) (butlast (drop n (emitted w))) s0
      in drop (length (cops s)) (cops (on_event env a e s)))"

definition connected_calls :: "client_env \<Rightarrow> nat \<Rightarrow> client \<Rightarrow> nat \<Rightarrow> connector \<Rightarrow> int \<Rightarrow> cop list" where
  "connected_calls env a s0 n w fd =
     (let s = fold (on_event env a) (drop n (emitted w)) s0
      in case on_connected env a fd s of Inr s' \<Rightarrow> drop (length (cops s)) (cops s') | Inl e \<Rightarrow> [])"

definition connector_step :: "client_env \<Rightarrow> nat \<Rightarrow> Connector_Model.conn_event \<Rightarrow> client \<Rightarrow> client res" where
  "connector_step env a ev s =
     (let w = at_conn (attempts s ! a);
          n = length (emitted w);
          s0 = s\<lparr>running := Some a, cops := []\<rparr>;
          w' = conn_step (event_calls env a s0 n) (Some (connected_calls env a s0 n)) ev w;
          s = fold (on_event env a) (drop n (emitted w')) s0
      in bind_res (case drop (length (handed w)) (handed w') of
                     [] \<Rightarrow> Inr s
                   | fd # fds \<Rightarrow> on_connected env a fd s) (\<lambda>s.
           Inr (s\<lparr>attempts := (attempts s)[a := (attempts s ! a)\<lparr>at_conn := w'\<rparr>], running := None, cops := []\<rparr>)))"

section \<open>Steps\<close>

definition resolved :: "nat \<Rightarrow> sockaddr list option \<Rightarrow> client \<Rightarrow> client" where
  "resolved gen addrs s =
     (if \<not> cl_lifetime s \<or> gen \<noteq> cl_gen s \<or> \<not> cl_connect s then s
      else case addrs of
             None \<Rightarrow> s\<lparr>cl_phase := Ph_Idle\<rparr>
           | Some as \<Rightarrow> startNextCandidate (s\<lparr>candidates := as, nextCandidate := 0\<rparr>))"

definition disconnectInLoop :: "client_env \<Rightarrow> client \<Rightarrow> client res" where
  "disconnectInLoop env s =
     (let s = stopInLoop s
      in case cl_connection s of
           None \<Rightarrow> Inr s
         | Some n \<Rightarrow> conn_do env n (\<lambda>c. Inr (shutdown True c)) s)"

definition destroy_connection :: "client_env \<Rightarrow> string \<Rightarrow> client \<Rightarrow> client res" where
  "destroy_connection env n s =
     bind_res (conn_do env n (connectDestroyed (cl_exec env n)) s) (\<lambda>s. Inr (s\<lparr>cl_destroyed := cl_destroyed s @ [n]\<rparr>))"

fun run_cltask :: "client_env \<Rightarrow> cltask \<Rightarrow> client \<Rightarrow> client res" where
  "run_cltask env (QApi a) s = Inr (if cl_lifetime s then do_capi a s else s)"
| "run_cltask env QDisconnect s = (if cl_lifetime s then disconnectInLoop env s else Inr s)"
| "run_cltask env (QReconnect gen) s =
     Inr (if \<not> cl_lifetime s \<or> gen \<noteq> cl_gen s \<or> \<not> cl_connect s then s else connectInLoop s)"
| "run_cltask env (QAdvance gen a) s =
     Inr (if \<not> cl_lifetime s \<or> gen \<noteq> cl_gen s \<or> \<not> cl_connect s then s
          else if cl_connector s \<noteq> Some a then s
          else startNextCandidate s)"
| "run_cltask env (QDestroy n) s = destroy_connection env n s"

definition client_dtor :: "client_env \<Rightarrow> client \<Rightarrow> client res" where
  "client_dtor env s =
     (let s = (stopInLoop s)\<lparr>cl_lifetime := False\<rparr>
      in case cl_connection s of
           None \<Rightarrow> Inr s
         | Some n \<Rightarrow>
             bind_res (conn_do env n (\<lambda>c. Inr (set_callback (SClose False) (set_callback (SConnection False) c))) s)
               (destroy_connection env n))"

text \<open>What the loop and the application do to a connection; establishing and destroying it is the client's part.\<close>

fun client_app_event :: "Tcp_Connection.conn_event \<Rightarrow> bool" where
  "client_app_event (EvStartTls _) = False"
| "client_app_event EvEstablish = False"
| "client_app_event (EvApi _ ADestroy) = False"
| "client_app_event _ = True"

datatype client_event =
    ClApi capi
  | ClDisconnect
  | ClPost cltask
  | ClTask
  | ClConnector nat Connector_Model.conn_event
  | ClResolved nat "sockaddr list option"
  | ClConn string Tcp_Connection.conn_event
  | ClEnableSsl
  | ClRelease string
  | ClDtor

text \<open>What other threads post; the events of a connector that come from its loop, with a descriptor that is not open.\<close>

fun postable :: "cltask \<Rightarrow> bool" where
  "postable (QApi (CRetry b)) = False"
| "postable (QApi a) = True"
| "postable QDisconnect = True"
| "postable t = False"

definition all_fds :: "client \<Rightarrow> int set" where
  "all_fds s = openFds s \<union> \<Union> (openFds ` at_conn ` set (attempts s))"

fun loop_event :: "client \<Rightarrow> Connector_Model.conn_event \<Rightarrow> bool" where
  "loop_event s (EvOp a) = False"
| "loop_event s (Connector_Model.EvTask (Inr fd) err) = (isValid fd \<and> fd \<notin> all_fds s)"
| "loop_event s _ = True"

fun client_step :: "client_env \<Rightarrow> client_event \<Rightarrow> client \<Rightarrow> client res" where
  "client_step env (ClApi a) s = Inr (if cl_lifetime s then do_capi a s else s)"
| "client_step env ClDisconnect s = (if cl_lifetime s then disconnectInLoop env s else Inr s)"
| "client_step env (ClPost t) s = Inr (if cl_lifetime s \<and> postable t then queue_task t s else s)"
| "client_step env ClTask s =
     (case cl_tasks s of [] \<Rightarrow> Inr s | t # ts \<Rightarrow> run_cltask env t (s\<lparr>cl_tasks := ts\<rparr>))"
| "client_step env (ClConnector a ev) s =
     (if a < length (attempts s) \<and> loop_event s ev then connector_step env a ev s else Inr s)"
| "client_step env (ClResolved i addrs) s =
     (if i < length (resolving s)
      then Inr (resolved (resolving s ! i) addrs (s\<lparr>resolving := take i (resolving s) @ drop (i + 1) (resolving s)\<rparr>))
      else Inr s)"
| "client_step env (ClConn n ev) s =
     (if client_app_event ev \<and> cl_objects s n \<noteq> None then conn_do env n (tcp_step (cl_exec env n) ev) s else Inr s)"
| "client_step env ClEnableSsl s = Inr (s\<lparr>cl_tlsContext := True\<rparr>)"
| "client_step env (ClRelease n) s =
     (case cl_objects s n of
        Some x \<Rightarrow> if n \<in> set (cl_destroyed s) then Inr (Socket_dtor (k_fd x) (s\<lparr>cl_objects := (cl_objects s)(n := None)\<rparr>)) else Inr s
      | None \<Rightarrow> Inr s)"
| "client_step env ClDtor s = (if cl_lifetime s then client_dtor env s else Inr s)"

fun client_run :: "client_env \<Rightarrow> client_event list \<Rightarrow> client \<Rightarrow> client res" where
  "client_run env [] s = Inr s"
| "client_run env (e # es) s = bind_res (client_step env e s) (client_run env es)"

end
