(* ===== verification/Tcp_Connection_Proofs.thy ===== *)
theory Tcp_Connection_Proofs
  imports Tcp_Connection
begin

text \<open>
  The invariant of a connection and the properties of its runs. Every operation that may call user code is proved
  \<open>good\<close>: from a state with the invariant it ends in one, and it makes \<open>progress\<close> (the state only advances, the byte
  streams only grow, a closed connection notifies no more), provided the user code it calls is good; \<open>exec_at_ok\<close> closes
  the circle by induction on the nesting depth. Between an operation and the invariant there are intermediate
  states (bytes appended but the backpressure policy not yet applied, a waiter published but not yet armed); the
  parameters of \<open>cinv\<close> describe them.
\<close>

section \<open>Invariant\<close>

definition slot_set :: "'u registry \<Rightarrow> nat set" where
  "slot_set r = {w. readWaiter r = Some w \<or> writeWaiter r = Some w \<or> closeWaiter r = Some w}"

definition arm_queued :: "nat \<Rightarrow> ctask registry \<Rightarrow> bool" where
  "arm_queued w r \<longleftrightarrow> (\<exists>k tk n d. Other (TArm w k tk n d) \<in> set (loopTasks r))"

definition phase_of :: "'u registry \<Rightarrow> nat \<Rightarrow> wphase" where
  "phase_of r w = aw_phase (waiters r w)"

text \<open>Waiters and slots; the waiters in \<open>X\<close> are about to be armed. A pending waiter sits in a slot or its functor is
  queued, and when the connection is closed no waiter in a slot is pending.\<close>

definition slots_inv :: "nat set \<Rightarrow> stateE \<Rightarrow> ctask registry \<Rightarrow> bool" where
  "slots_inv X st r \<longleftrightarrow>
     (\<forall>w\<in>slot_set r. phase_of r w \<noteq> Unarmed) \<and>
     (st = kDisconnected \<longrightarrow> (\<forall>w\<in>slot_set r. phase_of r w \<noteq> Pending)) \<and>
     (\<forall>w. phase_of r w = Pending \<longrightarrow> w \<in> slot_set r \<or> arm_queued w r \<or> w \<in> X) \<and>
     (\<forall>h l. Other (TSetBackpressure h l) \<in> set (loopTasks r) \<longrightarrow> validateThresholds h l = Inr ())"

text \<open>On a plain transport a pending write waiter implies that the loop will report writability.\<close>

definition slot_write :: "bool \<Rightarrow> stateE \<Rightarrow> unit channel \<Rightarrow> ctask registry \<Rightarrow> bool" where
  "slot_write tls st ch r \<longleftrightarrow>
     (\<not> tls \<and> st \<noteq> kDisconnected \<longrightarrow> (\<forall>w. writeWaiter r = Some w \<longrightarrow> phase_of r w = Pending \<longrightarrow> isWriting ch))"

definition chan_inv :: "bool \<Rightarrow> stateE \<Rightarrow> unit channel \<Rightarrow> buffer \<Rightarrow> bool" where
  "chan_inv tls st ch out \<longleftrightarrow>
     (\<not> tls \<longrightarrow> (st \<noteq> kDisconnected \<longrightarrow> content out \<noteq> [] \<longrightarrow> isWriting ch) \<and> (st = kDisconnected \<longrightarrow> ch_events ch = kNoneEvent))"

definition bp_weak :: "bool \<Rightarrow> stateE \<Rightarrow> unit channel \<Rightarrow> backpressure \<Rightarrow> bool" where
  "bp_weak tls st ch bp \<longleftrightarrow> bp_thresholds bp \<and> (bp_active bp \<longleftrightarrow> st = kConnected \<or> st = kDisconnecting) \<and>
     (\<not> tls \<and> bp_active bp \<longrightarrow> (isReading ch \<longleftrightarrow> bp_readingEnabled bp))"

definition bp_full :: "bool \<Rightarrow> unit channel \<Rightarrow> buffer \<Rightarrow> backpressure \<Rightarrow> bool" where
  "bp_full tls ch out bp \<longleftrightarrow> (\<not> tls \<longrightarrow> bp_inv (readableBytes out) ch bp)"

definition notes_inv :: "stateE \<Rightarrow> cb_note list \<Rightarrow> bool" where
  "notes_inv st ns \<longleftrightarrow> count_list ns NDisconnected \<le> 1 \<and> count_list ns NClose \<le> 1 \<and>
     (st \<noteq> kDisconnected \<longrightarrow> NDisconnected \<notin> set ns \<and> NClose \<notin> set ns)"

text \<open>The flags tell whether the write slot and the thresholds are settled; they are not in the middle of an operation.\<close>

definition cinv :: "nat set \<Rightarrow> bool \<Rightarrow> bool \<Rightarrow> conn \<Rightarrow> bool" where
  "cinv X wr bp c \<longleftrightarrow> buffer_ok (inputBuffer c) \<and> buffer_ok (outputBuffer c) \<and>
     accepted c = wire (c_tr c) @ content (outputBuffer c) \<and> aw_inv (c_reg c) \<and>
     slots_inv X (c_state c) (c_reg c) \<and> (wr \<longrightarrow> slot_write (ssl (c_tr c)) (c_state c) (c_chan c) (c_reg c)) \<and>
     chan_inv (ssl (c_tr c)) (c_state c) (c_chan c) (outputBuffer c) \<and>
     bp_weak (ssl (c_tr c)) (c_state c) (c_chan c) (c_bp c) \<and>
     (bp \<longrightarrow> bp_full (ssl (c_tr c)) (c_chan c) (outputBuffer c) (c_bp c)) \<and>
     notes_inv (c_state c) (called c)"

abbreviation conn_inv :: "conn \<Rightarrow> bool" where
  "conn_inv \<equiv> cinv {} True True"

text \<open>On a plain transport: the channel asks for writability only while bytes wait.\<close>

definition quiet :: "conn \<Rightarrow> bool" where
  "quiet c \<longleftrightarrow> (\<not> ssl (c_tr c) \<longrightarrow> isWriting (c_chan c) \<longrightarrow> content (outputBuffer c) \<noteq> [])"

fun rank :: "stateE \<Rightarrow> nat" where
  "rank kConnecting = 0"
| "rank kConnected = 1"
| "rank kDisconnecting = 2"
| "rank kDisconnected = 3"

definition closings :: "conn \<Rightarrow> nat \<times> nat" where
  "closings c = (count_list (called c) NDisconnected, count_list (called c) NClose)"

definition progress :: "conn \<Rightarrow> conn \<Rightarrow> bool" where
  "progress c c' \<longleftrightarrow> rank (c_state c) \<le> rank (c_state c') \<and> (\<exists>x. accepted c' = accepted c @ x) \<and>
     (\<exists>x. wire (c_tr c') = wire (c_tr c) @ x) \<and> (\<exists>x. called c' = called c @ x) \<and> (c_state c = kDisconnected \<longrightarrow> closings c' = closings c) \<and>
     (quiet c \<longrightarrow> quiet c')"

definition good :: "(conn \<Rightarrow> conn res) \<Rightarrow> bool" where
  "good f \<longleftrightarrow> (\<forall>c c'. conn_inv c \<longrightarrow> f c = Inr c' \<longrightarrow> conn_inv c' \<and> progress c c')"

definition exec_ok :: "exec \<Rightarrow> bool" where
  "exec_ok exec \<longleftrightarrow> (\<forall>n. good (exec n))"

lemma progress_refl [simp]: "progress c c"
  by (simp add: progress_def)

lemma rank_Disconnected [simp]: "3 \<le> rank st \<longleftrightarrow> st = kDisconnected"
  by (cases st) simp_all

lemma progress_trans: "progress a b \<Longrightarrow> progress b c \<Longrightarrow> progress a c"
  unfolding progress_def
proof (elim conjE exE, intro conjI impI)
  assume "rank (c_state a) \<le> rank (c_state b)" "rank (c_state b) \<le> rank (c_state c)"
  then show "rank (c_state a) \<le> rank (c_state c)" by (rule order_trans)
next
  assume "rank (c_state a) \<le> rank (c_state b)" "c_state a = kDisconnected"
  then have "c_state b = kDisconnected" by (metis rank.simps(4) rank_Disconnected)
  moreover assume "c_state b = kDisconnected \<longrightarrow> closings c = closings b" "c_state a = kDisconnected \<longrightarrow> closings b = closings a"
  ultimately show "closings c = closings a" using \<open>c_state a = kDisconnected\<close> by simp
next
  fix x y assume "accepted b = accepted a @ x" "accepted c = accepted b @ y"
  then show "\<exists>x. accepted c = accepted a @ x" by simp
next
  fix x y assume "wire (c_tr b) = wire (c_tr a) @ x" "wire (c_tr c) = wire (c_tr b) @ y"
  then show "\<exists>x. wire (c_tr c) = wire (c_tr a) @ x" by simp
next
  fix x y assume "called b = called a @ x" "called c = called b @ y"
  then show "\<exists>x. called c = called a @ x" by simp
qed blast

lemma goodI: "(\<And>c c'. conn_inv c \<Longrightarrow> f c = Inr c' \<Longrightarrow> conn_inv c' \<and> progress c c') \<Longrightarrow> good f"
  unfolding good_def by blast

lemma goodD: "good f \<Longrightarrow> conn_inv c \<Longrightarrow> f c = Inr c' \<Longrightarrow> conn_inv c' \<and> progress c c'"
  unfolding good_def by blast

lemma good_bind: "good f \<Longrightarrow> good g \<Longrightarrow> good (\<lambda>c. bind_res (f c) g)"
  unfolding good_def
proof (intro allI impI)
  fix c c'
  assume f: "\<forall>c c'. conn_inv c \<longrightarrow> f c = Inr c' \<longrightarrow> conn_inv c' \<and> progress c c'"
    and g: "\<forall>c c'. conn_inv c \<longrightarrow> g c = Inr c' \<longrightarrow> conn_inv c' \<and> progress c c'"
    and c: "conn_inv c" "bind_res (f c) g = Inr c'"
  obtain d where d: "f c = Inr d" "g d = Inr c'" using c(2) by (auto simp only: bind_res_Inr)
  have d': "conn_inv d \<and> progress c d" by (rule f[rule_format, OF c(1) d(1)])
  then have "conn_inv c' \<and> progress d c'" using g d(2) by blast
  with d' show "conn_inv c' \<and> progress c c'" using progress_trans by blast
qed

lemma good_Inr [simp]: "good Inr"
  by (simp add: good_def)

lemma good_if: "good f \<Longrightarrow> good g \<Longrightarrow> good (\<lambda>c. if b c then f c else g c)"
  by (rule goodI) (metis goodD)

text \<open>Steps from a state to the point where user code runs.\<close>

lemma user_call:
  assumes "exec_ok exec" "call_user exec n c = Inr c'" "conn_inv (c\<lparr>called := called c @ [n]\<rparr>)"
  shows "conn_inv c' \<and> progress (c\<lparr>called := called c @ [n]\<rparr>) c'"
  by (rule goodD[of "exec n", OF _ assms(3) assms(2)[unfolded call_user_def]]) (use assms(1) in \<open>simp add: exec_ok_def\<close>)

lemma called_inv: "n \<noteq> NDisconnected \<Longrightarrow> n \<noteq> NClose \<Longrightarrow> cinv X wr bp (c\<lparr>called := called c @ [n]\<rparr>) = cinv X wr bp c"
  by (simp add: cinv_def notes_inv_def)

lemma called_progress: "n \<noteq> NDisconnected \<Longrightarrow> n \<noteq> NClose \<Longrightarrow> progress c (c\<lparr>called := called c @ [n]\<rparr>)"
  by (simp add: progress_def closings_def quiet_def)

lemma call_user_good: "exec_ok exec \<Longrightarrow> n \<noteq> NDisconnected \<Longrightarrow> n \<noteq> NClose \<Longrightarrow> good (call_user exec n)"
  unfolding good_def
proof (intro allI impI)
  fix c c'
  assume e: "exec_ok exec" and n: "n \<noteq> NDisconnected" "n \<noteq> NClose" and c: "conn_inv c" and r: "call_user exec n c = Inr c'"
  have "conn_inv c' \<and> progress (c\<lparr>called := called c @ [n]\<rparr>) c'"
    by (rule user_call[OF e r]) (simp only: called_inv[OF n] c)
  then show "conn_inv c' \<and> progress c c'" using called_progress[OF n] progress_trans by blast
qed

section \<open>Waiters\<close>

lemma phase_queueResume:
  "phase_of (queueResume x r) w = (if x = Some w \<and> phase_of r w = Pending then Queued else phase_of r w)"
  by (simp add: phase_of_def queueResume_phase)

lemma slot_set_queueResume [simp]: "slot_set (queueResume x r) = slot_set r"
  by (simp add: slot_set_def)

lemma tasks_queueResume: "\<exists>rs. loopTasks (queueResume x r) = loopTasks r @ map Resume rs"
proof (cases x)
  case (Some w)
  show ?thesis
  proof (cases "aw_phase (waiters r w) = Pending")
    case True
    then have "loopTasks (queueResume x r) = loopTasks r @ map Resume [w]"
      by (simp add: Some queueResume_def reg_queueInLoop_def upd_waiter_def)
    then show ?thesis by blast
  next
    case False
    then have "loopTasks (queueResume x r) = loopTasks r @ map Resume []" by (simp add: Some queueResume_def)
    then show ?thesis by blast
  qed
next
  case None
  then have "loopTasks (queueResume x r) = loopTasks r @ map Resume []" by (simp add: queueResume_def)
  then show ?thesis by blast
qed

lemma other_queueResume [simp]: "Other u \<in> set (loopTasks (queueResume x r)) \<longleftrightarrow> Other u \<in> set (loopTasks r)"
  using tasks_queueResume[of x r] by auto

lemma arm_queueResume [simp]: "arm_queued w (queueResume x r) = arm_queued w r"
  by (simp add: arm_queued_def)

lemma slots_queueResume: "slots_inv X st r \<Longrightarrow> slots_inv X st (queueResume x r)"
  unfolding slots_inv_def by (simp add: phase_queueResume)

lemma slot_write_queueResume: "slot_write tls st ch r \<Longrightarrow> slot_write tls st ch (queueResume x r)"
  by (auto simp: slot_write_def phase_queueResume)

lemma slot_write_resumed: "slot_write tls st ch (resumeWriteWaiterIfNeeded r)"
  by (auto simp: slot_write_def resumeWriteWaiterIfNeeded_def phase_queueResume)

lemma phase_resumeAll:
  "phase_of (resumeAllOnClose r) w = (if w \<in> slot_set r \<and> phase_of r w = Pending then Queued else phase_of r w)"
  by (auto simp: resumeAllOnClose_def Let_def phase_queueResume slot_set_def)

lemma slots_close: "slots_inv X st r \<Longrightarrow> slots_inv X kDisconnected (resumeAllOnClose r)"
proof -
  assume s: "slots_inv X st r"
  have "slots_inv X st (resumeAllOnClose r)"
    using s by (simp add: resumeAllOnClose_def Let_def slots_queueResume)
  moreover have "\<forall>w\<in>slot_set (resumeAllOnClose r). phase_of (resumeAllOnClose r) w \<noteq> Pending"
    by (auto simp: phase_resumeAll) (auto simp: resumeAllOnClose_def Let_def)
  ultimately show ?thesis by (simp add: slots_inv_def)
qed

section \<open>Closing\<close>

definition prog0 :: "conn \<Rightarrow> conn \<Rightarrow> bool" where
  "prog0 c c' \<longleftrightarrow> rank (c_state c) \<le> rank (c_state c') \<and> (\<exists>x. accepted c' = accepted c @ x) \<and>
     (\<exists>x. wire (c_tr c') = wire (c_tr c) @ x) \<and> (\<exists>x. called c' = called c @ x) \<and> (quiet c \<longrightarrow> quiet c')"

lemma progress_iff: "progress c c' \<longleftrightarrow> prog0 c c' \<and> (c_state c = kDisconnected \<longrightarrow> closings c' = closings c)"
  unfolding progress_def prog0_def by blast

lemma prog0_trans: "prog0 a b \<Longrightarrow> prog0 b c \<Longrightarrow> prog0 a c"
  unfolding prog0_def by (elim conjE exE, intro conjI) (simp, simp, simp, simp, blast)

lemma prog0_called: "prog0 c (c\<lparr>called := called c @ ns\<rparr>)"
  by (simp add: prog0_def quiet_def)

definition closed_conn :: "conn \<Rightarrow> conn" where
  "closed_conn c = c\<lparr>c_state := kDisconnected, c_bp := onClosed (c_bp c), c_chan := ch_disableAll (c_chan c),
     c_reg := resumeAllOnClose (c_reg c)\<rparr>"

lemma closed_conn_simps [simp]:
  "c_state (closed_conn c) = kDisconnected" "called (closed_conn c) = called c" "accepted (closed_conn c) = accepted c"
  "c_tr (closed_conn c) = c_tr c" "c_cbs (closed_conn c) = c_cbs c"
  by (simp_all add: closed_conn_def)

lemma closed_conn_inv: "cinv X wr bp c \<Longrightarrow> cinv X True True (closed_conn c)"
  using slots_close[of X "c_state c" "c_reg c"] unfolding cinv_def closed_conn_def
  by (simp add: resume_if_inv slots_close slot_write_def chan_inv_def bp_weak_def bp_full_def closed_inv notes_inv_def)
    (simp add: onClosed_def bp_thresholds_def)

lemma closed_conn_prog: "prog0 c (closed_conn c)"
  by (cases "c_state c") (simp_all add: prog0_def quiet_def closed_conn_def)

lemma inv_closings: "cinv X wr bp c \<Longrightarrow> c_state c \<noteq> kDisconnected \<Longrightarrow> closings c = (0, 0)"
  by (auto simp: cinv_def notes_inv_def closings_def count_list_0_iff)

lemma called_close_inv:
  assumes "conn_inv c" "c_state c = kDisconnected" "closings c = (d, e)"
  shows "d = 0 \<Longrightarrow> conn_inv (c\<lparr>called := called c @ [NDisconnected]\<rparr>)" "e = 0 \<Longrightarrow> conn_inv (c\<lparr>called := called c @ [NClose]\<rparr>)"
  using assms by (simp_all add: cinv_def notes_inv_def closings_def)

lemma notifyDisconnected_ok:
  assumes e: "exec_ok exec" and c: "conn_inv c" "c_state c = kDisconnected" "closings c = (0, 0)"
    and r: "notifyDisconnected exec c = Inr c'"
  shows "conn_inv c' \<and> prog0 c c' \<and> c_state c' = kDisconnected \<and> snd (closings c') = 0"
proof (cases "cb_connection (c_cbs c)")
  case True
  let ?c = "c\<lparr>called := called c @ [NDisconnected]\<rparr>"
  have "call_user exec NDisconnected c = Inr c'" using r True by (simp add: notifyDisconnected_def)
  from user_call[OF e this called_close_inv(1)[OF c refl]]
  have u: "conn_inv c' \<and> progress ?c c'" .
  then have "closings c' = closings ?c" "c_state c' = kDisconnected"
    using c(2) by (simp_all add: progress_def)
  moreover have "snd (closings ?c) = 0" using c(3) by (simp add: closings_def)
  ultimately show ?thesis using u by (auto simp: progress_iff intro: prog0_trans[OF prog0_called])
qed (use r c in \<open>auto simp: notifyDisconnected_def prog0_def\<close>)

lemma notifyClose_ok:
  assumes e: "exec_ok exec" and c: "conn_inv c" "c_state c = kDisconnected" "snd (closings c) = 0"
    and r: "notifyClose exec c = Inr c'"
  shows "conn_inv c' \<and> prog0 c c'"
proof (cases "cb_close (c_cbs c)")
  case True
  let ?c = "c\<lparr>called := called c @ [NClose]\<rparr>"
  have "closings c = (fst (closings c), 0)" using c(3) by (simp add: prod_eq_iff)
  from called_close_inv(2)[OF c(1,2) this refl] have "conn_inv ?c" .
  moreover have "call_user exec NClose c = Inr c'" using r True by (simp add: notifyClose_def)
  ultimately have "conn_inv c' \<and> progress ?c c'" using user_call[OF e] by blast
  then show ?thesis by (auto simp: progress_iff intro: prog0_trans[OF prog0_called])
qed (use r c in \<open>auto simp: notifyClose_def prog0_def\<close>)

lemma runCloseSequence_ok:
  assumes e: "exec_ok exec" and c: "cinv {} wr bp c" "c_state c \<noteq> kDisconnected" and r: "runCloseSequence exec b c = Inr c'"
  shows "conn_inv c'" "progress c c'" "c_state c' = kDisconnected"
proof -
  obtain c2 where c2: "notifyDisconnected exec (closed_conn c) = Inr c2" "(if b then notifyClose exec c2 else Inr c2) = Inr c'"
    using r by (auto simp: runCloseSequence_def closed_conn_def Let_def bind_res_Inr)
  have cl: "closings (closed_conn c) = (0, 0)" using inv_closings[OF c] by (simp add: closings_def)
  have d: "conn_inv c2 \<and> prog0 (closed_conn c) c2 \<and> c_state c2 = kDisconnected \<and> snd (closings c2) = 0"
    by (rule notifyDisconnected_ok[OF e closed_conn_inv[OF c(1)] _ cl c2(1)]) simp
  have "conn_inv c' \<and> prog0 c2 c'"
  proof (cases b)
    case True
    then show ?thesis using notifyClose_ok[OF e, of c2 c'] d c2(2) by simp
  qed (use c2(2) d in \<open>simp add: prog0_def\<close>)
  then have p: "prog0 c c'" "conn_inv c'" "prog0 c2 c'" using d closed_conn_prog[of c] prog0_trans by blast+
  show "conn_inv c'" by (rule p(2))
  show "progress c c'" using p(1) c(2) by (simp add: progress_iff)
  show "c_state c' = kDisconnected" using p(3) d by (simp add: prog0_def)
qed

lemma closeReason_inv [simp]: "cinv X wr bp (c\<lparr>closeReason := x\<rparr>) = cinv X wr bp c"
  by (simp add: cinv_def)

lemma closeReason_prog: "progress c (c\<lparr>closeReason := x\<rparr>)" "prog0 c (c\<lparr>closeReason := x\<rparr>)"
  by (simp_all add: progress_def prog0_def closings_def quiet_def)

lemma handleClose_ok:
  assumes e: "exec_ok exec" and c: "cinv {} wr bp c" "c_state c \<noteq> kDisconnected" and r: "handleClose exec c = Inr c'"
  shows "conn_inv c' \<and> progress c c'"
proof -
  let ?c = "if closeReason c = CloseNone then c\<lparr>closeReason := ClosePeerClosed\<rparr> else c"
  have r': "runCloseSequence exec True ?c = Inr c'" using r c(2) by (simp add: handleClose_def Let_def)
  have i: "cinv {} wr bp ?c" using c(1) by simp
  have s: "c_state ?c \<noteq> kDisconnected" using c(2) by simp
  have "progress c ?c" by (simp add: closeReason_prog)
  with runCloseSequence_ok[OF e i s r'] show ?thesis using progress_trans by blast
qed

lemma tcp_handleError_ok:
  assumes e: "exec_ok exec" and c: "cinv {} wr bp c" "c_state c \<noteq> kDisconnected" and r: "handleError exec c = Inr c'"
  shows "conn_inv c' \<and> progress c c'"
proof -
  have "handleClose exec (c\<lparr>closeReason := CloseError\<rparr>) = Inr c'" using r c(2) by (simp add: handleError_def Let_def)
  from handleClose_ok[OF e _ _ this, of wr bp] c
  have "conn_inv c' \<and> progress (c\<lparr>closeReason := CloseError\<rparr>) c'" by simp
  then show ?thesis using closeReason_prog(1) progress_trans by blast
qed

lemma handleClose_good: "exec_ok exec \<Longrightarrow> good (handleClose exec)"
proof (rule goodI)
  fix c c' assume "exec_ok exec" "conn_inv c" "handleClose exec c = Inr c'"
  then show "conn_inv c' \<and> progress c c'"
    by (cases "c_state c = kDisconnected") (auto simp: handleClose_def[of exec c] dest: handleClose_ok)
qed

lemma handleError_good: "exec_ok exec \<Longrightarrow> good (handleError exec)"
proof (rule goodI)
  fix c c' assume *: "exec_ok exec" "conn_inv c" "handleError exec c = Inr c'"
  show "conn_inv c' \<and> progress c c'"
  proof (cases "c_state c = kDisconnected")
    case True
    then have "c' = c\<lparr>closeReason := CloseError\<rparr>" using *(3) by (simp add: handleError_def)
    then show ?thesis using *(2) by (simp add: closeReason_prog)
  qed (use * tcp_handleError_ok in blast)
qed

lemma forceCloseInLoop_good: "exec_ok exec \<Longrightarrow> good (forceCloseInLoop exec)"
  unfolding forceCloseInLoop_def by (intro good_if handleClose_good good_Inr)

section \<open>Backpressure and sending\<close>

lemma bp_result_ok:
  assumes "exec_ok exec" "bp_result_of exec (ch, bp, ev) c = Inr c'" "conn_inv (c\<lparr>c_chan := ch, c_bp := bp\<rparr>)"
  shows "conn_inv c' \<and> progress (c\<lparr>c_chan := ch, c_bp := bp\<rparr>) c'"
proof (cases ev)
  case None
  then show ?thesis using assms by (simp add: bp_result_of_def)
next
  case (Some p)
  then obtain e n where "ev = Some (e, n)" by (cases p) simp
  then have "call_user exec (NBackpressure e n) (c\<lparr>c_chan := ch, c_bp := bp\<rparr>) = Inr c'"
    using assms(2) by (simp add: bp_result_of_def Let_def)
  then show ?thesis using goodD[OF call_user_good[OF assms(1)] assms(3)] by blast
qed

lemma bp_apply_conn:
  assumes "cinv {} True False c" "bp_apply (readableBytes (outputBuffer c)) (c_chan c) (bp_active (c_bp c)) (c_bp c) = (ch, bp, ev)"
  shows "conn_inv (c\<lparr>c_chan := ch, c_bp := bp\<rparr>) \<and> progress c (c\<lparr>c_chan := ch, c_bp := bp\<rparr>)"
proof -
  note fr = bp_apply_frame[OF assms(2)]
  have th: "bp_thresholds (c_bp c)" "bp_active (c_bp c) \<longleftrightarrow> c_state c = kConnected \<or> c_state c = kDisconnecting"
    "\<not> ssl (c_tr c) \<Longrightarrow> bp_active (c_bp c) \<Longrightarrow> isReading (c_chan c) \<longleftrightarrow> bp_readingEnabled (c_bp c)"
    using assms(1) by (simp_all add: cinv_def bp_weak_def)
  have full: "\<not> ssl (c_tr c) \<Longrightarrow> bp_inv (readableBytes (outputBuffer c)) ch bp"
    using bp_apply_inv[OF assms(2) th(1) th(3)] .
  have "bp_weak (ssl (c_tr c)) (c_state c) ch bp"
    using th(1,2) fr full by (auto simp: bp_weak_def bp_thresholds_def bp_inv_def)
  moreover have "chan_inv (ssl (c_tr c)) (c_state c) ch (outputBuffer c)"
    using assms(1) fr th(2) by (auto simp: cinv_def chan_inv_def)
  moreover have "slot_write (ssl (c_tr c)) (c_state c) ch (c_reg c)"
    using assms(1) fr(1) by (simp add: cinv_def slot_write_def)
  ultimately have "conn_inv (c\<lparr>c_chan := ch, c_bp := bp\<rparr>)"
    using assms(1) full by (simp add: cinv_def bp_full_def)
  moreover have "progress c (c\<lparr>c_chan := ch, c_bp := bp\<rparr>)"
    using fr(1) by (simp add: progress_def quiet_def closings_def)
  ultimately show ?thesis by blast
qed

lemma bp_apply_ok:
  assumes e: "exec_ok exec" and c: "cinv {} True False c"
    and r: "bp_result_of exec (bp_apply (readableBytes (outputBuffer c)) (c_chan c) (bp_active (c_bp c)) (c_bp c)) c = Inr c'"
  shows "conn_inv c' \<and> progress c c'"
proof -
  obtain ch bp ev where a: "bp_apply (readableBytes (outputBuffer c)) (c_chan c) (bp_active (c_bp c)) (c_bp c) = (ch, bp, ev)"
    by (metis surj_pair)
  note i = bp_apply_conn[OF c a]
  show ?thesis using bp_result_ok[OF e r[unfolded a]] i progress_trans by blast
qed

lemma applyBackpressurePolicy_ok:
  "exec_ok exec \<Longrightarrow> cinv {} True False c \<Longrightarrow> applyBackpressurePolicy exec c = Inr c' \<Longrightarrow> conn_inv c' \<and> progress c c'"
  unfolding applyBackpressurePolicy_def onBufferedBytesChanged_def by (rule bp_apply_ok)

lemma cinv_weaken: "cinv X True True c \<Longrightarrow> cinv X wr bp c"
  by (simp add: cinv_def)

lemma bp_result_overwrite: "bp_result_of exec r (c\<lparr>c_bp := b\<rparr>) = bp_result_of exec r c"
  by (cases r) (simp add: bp_result_of_def)

lemma setBackpressurePolicyInLoop_ok:
  assumes e: "exec_ok exec" and v: "validateThresholds high low = Inr ()" and c: "conn_inv c"
    and r: "setBackpressurePolicyInLoop exec high low c = Inr c'"
  shows "conn_inv c' \<and> progress c c'"
proof -
  let ?bp = "(c_bp c)\<lparr>bp_highWaterMark := high, bp_lowWaterMark := low\<rparr>"
  let ?c = "c\<lparr>c_bp := ?bp\<rparr>"
  have i: "cinv {} True False ?c"
    using c v by (auto simp: cinv_def bp_weak_def bp_thresholds_def validateThresholds_ok)
  have "bp_result_of exec (bp_apply (readableBytes (outputBuffer ?c)) (c_chan ?c) (bp_active (c_bp ?c)) (c_bp ?c)) ?c = Inr c'"
    using r by (simp add: setBackpressurePolicyInLoop_def configure_def Let_def bp_result_overwrite)
  from bp_apply_ok[OF e i this] have "conn_inv c' \<and> progress ?c c'" .
  moreover have "progress c ?c" by (simp add: progress_def quiet_def closings_def)
  ultimately show ?thesis using progress_trans by blast
qed

lemma shutdown_mode [simp]:
  "ssl (transport_shutdownWrite t) = ssl t" "wire (transport_shutdownWrite t) = wire t"
  by (simp_all add: transport_shutdownWrite_def Let_def)

lemma shutdownInLoop_ok [simp]:
  "cinv X wr bp (shutdownInLoop c) = cinv X wr bp c" "progress c (shutdownInLoop c)" "quiet (shutdownInLoop c) = quiet c"
  by (simp_all add: shutdownInLoop_def cinv_def progress_def quiet_def closings_def)

lemma queued_frame [simp]:
  "phase_of (reg_queueInLoop t r) w = phase_of r w" "slot_set (reg_queueInLoop t r) = slot_set r"
  "writeWaiter (reg_queueInLoop t r) = writeWaiter r" "set (loopTasks (reg_queueInLoop t r)) = insert t (set (loopTasks r))"
  by (simp_all add: reg_queueInLoop_def phase_of_def slot_set_def)

lemma arm_queued_mono: "arm_queued w r \<Longrightarrow> arm_queued w (reg_queueInLoop t r)"
  by (auto simp: arm_queued_def)

lemma queueFunctor_reg:
  "slots_inv X st r \<Longrightarrow> (\<And>h l. u = TSetBackpressure h l \<Longrightarrow> validateThresholds h l = Inr ()) \<Longrightarrow>
     slots_inv X st (reg_queueInLoop (Other u) r)"
  "slot_write tls st ch (reg_queueInLoop (Other u) r) = slot_write tls st ch r"
  by (auto simp: slots_inv_def slot_write_def intro: arm_queued_mono)

lemma queueFunctor_ok:
  assumes "\<And>h l. u = TSetBackpressure h l \<Longrightarrow> validateThresholds h l = Inr ()"
  shows "cinv X wr bp c \<Longrightarrow> cinv X wr bp (queueFunctor u c)" "progress c (queueFunctor u c)"
  using queueFunctor_reg(1)[of X "c_state c" "c_reg c" u, OF _ assms]
  by (simp_all add: cinv_def queueFunctor_def queueFunctor_reg(2) progress_def closings_def quiet_def)

lemma queue_callbacks_ok:
  "cinv X wr bp c \<Longrightarrow> cinv X wr bp (queueWriteComplete c)" "progress c (queueWriteComplete c)"
  "cinv X wr bp c \<Longrightarrow> cinv X wr bp (queueHighWaterMark m n c)" "progress c (queueHighWaterMark m n c)"
  by (auto simp: queueWriteComplete_def queueHighWaterMark_def Let_def intro!: queueFunctor_ok)

lemma queueWriteComplete_frame [simp]:
  "c_state (queueWriteComplete c) = c_state c" "c_chan (queueWriteComplete c) = c_chan c"
  "outputBuffer (queueWriteComplete c) = outputBuffer c" "c_tr (queueWriteComplete c) = c_tr c"
  by (simp_all add: queueWriteComplete_def queueFunctor_def)

lemma resumeWrite_ok:
  "cinv X wr bp c \<Longrightarrow> cinv X True bp (c\<lparr>c_reg := resumeWriteWaiterIfNeeded (c_reg c)\<rparr>)"
  "progress c (c\<lparr>c_reg := resumeWriteWaiterIfNeeded (c_reg c)\<rparr>)"
  by (simp_all add: cinv_def slot_write_resumed resume_if_inv progress_def closings_def quiet_def)
    (simp add: resumeWriteWaiterIfNeeded_def slots_queueResume)

lemma finishPendingWrite_ok:
  assumes "cinv X wr bp c"
  shows "cinv X True bp (finishPendingWrite c)" "progress c (finishPendingWrite c)"
proof -
  let ?c = "(queueWriteComplete c)\<lparr>c_reg := resumeWriteWaiterIfNeeded (c_reg (queueWriteComplete c))\<rparr>"
  have i: "cinv X True bp ?c" by (rule resumeWrite_ok(1)[OF queue_callbacks_ok(1)[OF assms]])
  have p: "progress c ?c" using queue_callbacks_ok(2) resumeWrite_ok(2) progress_trans by blast
  show "cinv X True bp (finishPendingWrite c)" using i by (simp add: finishPendingWrite_def Let_def)
  show "progress c (finishPendingWrite c)"
    using p progress_trans[OF p shutdownInLoop_ok(2)] by (simp add: finishPendingWrite_def Let_def)
qed

lemma readable_content: "buffer_ok b \<Longrightarrow> readableBytes b = 0 \<longleftrightarrow> content b = []"
  using length_content[of b] by auto

lemma inv_readable: "cinv X wr bp c \<Longrightarrow> readableBytes (outputBuffer c) = 0 \<longleftrightarrow> content (outputBuffer c) = []"
  by (rule readable_content) (simp add: cinv_def)

lemma send_rest_ok:
  assumes e: "exec_ok exec" and c: "cinv {} False True c" "c_state c \<noteq> kDisconnected" and rest: "rest \<noteq> []"
    and r: "send_rest exec rest (c\<lparr>accepted := accepted c @ rest\<rparr>) = Inr c'"
  shows "conn_inv c' \<and> progress c c'"
proof -
  obtain b where b: "append_buf rest (outputBuffer c) = Inr b" using r rest by (auto simp: send_rest_def Let_def bind_res_Inr)
  define ch where "ch = (if \<not> isWriting (c_chan c) then ch_enableWriting (c_chan c) else c_chan c)"
  define c1 where "c1 = c\<lparr>accepted := accepted c @ rest, outputBuffer := b, c_chan := ch\<rparr>"
  have ab: "buffer_ok b" "content b = content (outputBuffer c) @ rest"
    using append_buf_Inr[OF _ b] c(1) by (simp_all add: cinv_def)
  have ch: "isWriting ch" "isReading ch = isReading (c_chan c)" by (simp_all add: ch_def)
  have i1: "cinv {} True False c1"
    using c ab ch rest by (simp add: c1_def cinv_def slot_write_def chan_inv_def bp_weak_def)
  have p1: "progress c c1"
    using rest ab(2) by (simp add: c1_def progress_def quiet_def closings_def)
  let ?c2 = "queueHighWaterMark (readableBytes (outputBuffer c)) (readableBytes b) c1"
  have "applyBackpressurePolicy exec ?c2 = Inr c'"
    using r rest b by (simp add: send_rest_def Let_def c1_def ch_def split: if_splits)
  from applyBackpressurePolicy_ok[OF e queue_callbacks_ok(3)[OF i1] this]
  show ?thesis using p1 queue_callbacks_ok(4) progress_trans by blast
qed

lemma sendInLoop_ok:
  assumes e: "exec_ok exec" and c: "cinv {} False True c" and r: "sendInLoop exec data c = Inr c'"
    and wr: "slot_write (ssl (c_tr c)) (c_state c) (c_chan c) (c_reg c) \<or> data \<noteq> []"
  shows "conn_inv c' \<and> progress c c'"
proof -
  have out: "buffer_ok (outputBuffer c)" using c by (simp add: cinv_def)
  consider (disc) "c_state c = kDisconnected"
    | (direct) "c_state c \<noteq> kDisconnected" "\<not> isWriting (c_chan c)" "readableBytes (outputBuffer c) = 0"
    | (queued) "c_state c \<noteq> kDisconnected" "\<not> (\<not> isWriting (c_chan c) \<and> readableBytes (outputBuffer c) = 0)" by metis
  then show ?thesis
  proof cases
    case disc
    then show ?thesis using r c by (simp add: sendInLoop_def cinv_def slot_write_def)
  next
    case direct
    obtain res ch tr where w: "writeRaw data (c_chan c) (c_tr c) = (res, ch, tr)" by (metis surj_pair)
    note ok = writeRaw_ok[OF w]
    have empty: "content (outputBuffer c) = []" using readable_content[OF out] direct(3) by simp
    let ?c1 = "c\<lparr>c_chan := ch, c_tr := tr\<rparr>"
    let ?c2 = "c\<lparr>c_chan := ch, c_tr := tr, accepted := accepted c @ take (io_bytes res) data\<rparr>"
    have m: "ssl tr = ssl (c_tr c)" using ok(3) by (simp add: same_mode_def)
    have i2: "cinv {} False True ?c2"
      using c empty ok(1,4,5) direct(1) m
      by (auto simp: cinv_def chan_inv_def bp_weak_def bp_full_def)
    have p2: "progress c ?c2"
      using ok(1,4) direct(2) by (simp add: progress_def quiet_def closings_def)
    show ?thesis
    proof (cases "io_status res = kError")
      case True
      then have "handleError exec ?c1 = Inr c'" using r direct w by (simp add: sendInLoop_def Let_def)
      moreover have "?c2 = ?c1" using ok(6)[OF True] by simp
      ultimately show ?thesis using tcp_handleError_ok[OF e i2, of c'] direct(1) p2 progress_trans by auto
    next
      case False
      let ?rest = "drop (io_bytes res) data"
      have acc: "?c1\<lparr>accepted := accepted c @ data\<rparr> = ?c2\<lparr>accepted := accepted ?c2 @ ?rest\<rparr>" by simp
      show ?thesis
      proof (cases "?rest = []")
        case True
        then have d: "take (io_bytes res) data = data" by simp
        have "c' = finishPendingWrite ?c2" using r direct w False True by (simp add: sendInLoop_def Let_def d)
        then show ?thesis using finishPendingWrite_ok[OF i2] p2 progress_trans by blast
      next
        case rest: False
        have "send_rest exec ?rest (?c2\<lparr>accepted := accepted ?c2 @ ?rest\<rparr>) = Inr c'"
          using r direct w False rest by (simp add: sendInLoop_def Let_def)
        from send_rest_ok[OF e i2 _ rest this] direct(1) show ?thesis using p2 progress_trans by auto
      qed
    qed
  next
    case queued
    show ?thesis
    proof (cases "data = []")
      case True
      then show ?thesis using r queued c wr by (simp add: sendInLoop_def send_rest_def cinv_def)
    next
      case False
      have "send_rest exec data (c\<lparr>accepted := accepted c @ data\<rparr>) = Inr c'"
        using r queued by (auto simp: sendInLoop_def)
      then show ?thesis using send_rest_ok[OF e c queued(1) False] by blast
    qed
  qed
qed

lemma sendInLoop_good: "exec_ok exec \<Longrightarrow> good (sendInLoop exec data)"
  by (rule goodI, rule sendInLoop_ok) (auto simp: cinv_def)

section \<open>Events\<close>

lemma advanceHandshake_mode:
  "advanceHandshake ch t = (r, ch', t') \<Longrightarrow> ssl t' = ssl t \<and> wire t' = wire t"
  by (auto simp: advanceHandshake_def Let_def split: if_splits list.splits prod.splits)

lemma tls_chan_ok:
  assumes "cinv X wr bp c" "ssl (c_tr c)" "ssl tr" "wire tr = wire (c_tr c)"
  shows "cinv X wr bp (c\<lparr>c_chan := ch, c_tr := tr\<rparr>) \<and> progress c (c\<lparr>c_chan := ch, c_tr := tr\<rparr>)"
  using assms by (simp add: cinv_def slot_write_def chan_inv_def bp_weak_def bp_full_def progress_def quiet_def closings_def)

lemma notifyConnected_good: "exec_ok exec \<Longrightarrow> good (notifyConnected exec)"
  by (rule goodI) (use goodD[OF call_user_good[of exec "NConnected _"]] in \<open>auto simp: notifyConnected_def split: if_splits\<close>)

lemma notifyMessage_good: "exec_ok exec \<Longrightarrow> good (notifyMessage exec b)"
  unfolding notifyMessage_def by (intro good_if call_user_good good_Inr) simp_all

lemma tls_hook_good: "exec_ok exec \<Longrightarrow> good (\<lambda>c. if cb_tls (c_cbs c) then call_user exec (NTls e) c else Inr c)"
  by (intro good_if call_user_good good_Inr) simp_all

lemma handshake_ok:
  assumes e: "exec_ok exec" and c: "conn_inv c" and p: "handshakePending (c_tr c)"
    and r: "advanceTransportHandshake exec c = Inr c'"
  shows "conn_inv c' \<and> progress c c'"
proof -
  obtain h ch tr where a: "advanceHandshake (c_chan c) (c_tr c) = (h, ch, tr)" by (metis surj_pair)
  let ?c = "c\<lparr>c_chan := ch, c_tr := tr\<rparr>"
  have i: "conn_inv ?c \<and> progress c ?c"
    by (rule tls_chan_ok[OF c]) (use advanceHandshake_mode[OF a] p in \<open>simp_all add: handshakePending_def\<close>)
  have "good (\<lambda>c. bind_res (if cb_tls (c_cbs c) then call_user exec (NTls HandshakeFailed) c else Inr c) (handleError exec))"
    "good (\<lambda>c. bind_res (if cb_tls (c_cbs c) then call_user exec (NTls HandshakeCompleted) c else Inr c) (notifyConnected exec))"
    by (rule good_bind[OF tls_hook_good[OF e] handleError_good[OF e]] good_bind[OF tls_hook_good[OF e] notifyConnected_good[OF e]])+
  note g = this[THEN goodD, OF conjunct1[OF i]]
  have "conn_inv c' \<and> progress ?c c'"
    using r g i by (auto simp: advanceTransportHandshake_def a Let_def split: if_splits simp del: bind_res_simps)
  then show ?thesis using i progress_trans by blast
qed

lemma reg_upd_ok:
  assumes "cinv X wr bp c" "aw_inv r" "slots_inv Y (c_state c) r" "wr' \<Longrightarrow> slot_write (ssl (c_tr c)) (c_state c) (c_chan c) r"
  shows "cinv Y wr' bp (c\<lparr>c_reg := r\<rparr>) \<and> progress c (c\<lparr>c_reg := r\<rparr>)"
  using assms by (simp add: cinv_def progress_def closings_def quiet_def)

lemma queueResume_ok:
  assumes "cinv X True bp c"
  shows "cinv X True bp (c\<lparr>c_reg := queueResume x (c_reg c)\<rparr>) \<and> progress c (c\<lparr>c_reg := queueResume x (c_reg c)\<rparr>)"
  by (rule reg_upd_ok[OF assms])
    (use assms in \<open>simp_all add: cinv_def queueResume_inv slots_queueResume slot_write_queueResume\<close>)

lemma resumeRead_ok:
  assumes "cinv X True bp c"
  shows "cinv X True bp (c\<lparr>c_reg := resumeReadWaiterIfSatisfied n (c_reg c)\<rparr>) \<and>
    progress c (c\<lparr>c_reg := resumeReadWaiterIfSatisfied n (c_reg c)\<rparr>)"
  using queueResume_ok[OF assms, of "readWaiter (c_reg c)"] assms by (auto simp: resumeReadWaiterIfSatisfied_def)

lemma handleRead_good:
  assumes e: "exec_ok exec"
  shows "good (handleRead exec)"
proof (rule goodI)
  fix c c' assume c: "conn_inv c" and r: "handleRead exec c = Inr c'"
  show "conn_inv c' \<and> progress c c'"
  proof (cases "handshakePending (c_tr c)")
    case True
    then show ?thesis using r handshake_ok[OF e c True] by (simp add: handleRead_def)
  next
    case False
    obtain res b ch tr where w: "readInto (inputBuffer c) (c_chan c) (c_tr c) = Inr (res, b, ch, tr)"
      using r False by (auto simp: handleRead_def Let_def bind_res_Inr)
    have "buffer_ok (inputBuffer c)" using c by (simp add: cinv_def)
    note ok = readInto_ok[OF w this]
    let ?c = "c\<lparr>inputBuffer := b, c_chan := ch, c_tr := tr\<rparr>"
    have i: "conn_inv ?c \<and> progress c ?c"
      using c ok by (auto simp: cinv_def same_mode_def slot_write_def chan_inv_def bp_weak_def bp_full_def progress_def quiet_def closings_def)
    let ?d = "?c\<lparr>c_reg := resumeReadWaiterIfSatisfied (readableBytes b) (c_reg c)\<rparr>"
    have d: "conn_inv ?d \<and> progress ?c ?d" using resumeRead_ok[of "{}" True ?c "readableBytes b"] i by simp
    show ?thesis
    proof (cases "io_status res")
      case kOk
      then have "notifyMessage exec (hasReadWaiter (c_reg c)) ?d = Inr c'" using r False w by (simp add: handleRead_def Let_def)
      from goodD[OF notifyMessage_good[OF e] conjunct1[OF d] this] show ?thesis using i d progress_trans by blast
    next
      case kWouldBlock
      then show ?thesis using r False w i by (simp add: handleRead_def Let_def)
    next
      case kPeerClosed
      then have "handleClose exec ?c = Inr c'" using r False w by (simp add: handleRead_def Let_def)
      from goodD[OF handleClose_good[OF e] conjunct1[OF i] this] show ?thesis using i progress_trans by blast
    next
      case kError
      then have "handleError exec ?c = Inr c'" using r False w by (simp add: handleRead_def Let_def)
      from goodD[OF handleError_good[OF e] conjunct1[OF i] this] show ?thesis using i progress_trans by blast
    qed
  qed
qed

lemma disableWriting_none: "ch_events ch = kNoneEvent \<Longrightarrow> ch_events (ch_disableWriting ch) = kNoneEvent"
  by (simp add: owner_defs mask_bits)

lemma bp_inv_disableWriting [simp]: "bp_inv n (ch_disableWriting ch) bp = bp_inv n ch bp"
  by (simp add: bp_inv_def)

lemma drained_ok:
  assumes "conn_inv c" "readableBytes (outputBuffer c) = 0"
  shows "conn_inv (finishPendingWrite (c\<lparr>c_chan := ch_disableWriting (c_chan c)\<rparr>)) \<and>
    progress c (finishPendingWrite (c\<lparr>c_chan := ch_disableWriting (c_chan c)\<rparr>))"
    and "quiet (finishPendingWrite (c\<lparr>c_chan := ch_disableWriting (c_chan c)\<rparr>))"
proof -
  let ?c = "c\<lparr>c_chan := ch_disableWriting (c_chan c)\<rparr>"
  have "content (outputBuffer c) = []" using assms readable_content by (simp add: cinv_def)
  then have i: "cinv {} False True ?c" "progress c ?c" "quiet ?c"
    using assms(1) disableWriting_none[of "c_chan c"]
    by (auto simp: cinv_def chan_inv_def bp_weak_def bp_full_def progress_def quiet_def closings_def)
  then show "conn_inv (finishPendingWrite ?c) \<and> progress c (finishPendingWrite ?c)"
    using finishPendingWrite_ok[OF i(1)] progress_trans by blast
  show "quiet (finishPendingWrite ?c)" using finishPendingWrite_ok(2)[OF i(1)] i(3) by (simp add: progress_def)
qed

lemma handleWrite_good:
  assumes e: "exec_ok exec"
  shows "good (handleWrite exec)"
proof (rule goodI)
  fix c c' assume c: "conn_inv c" and r: "handleWrite exec c = Inr c'"
  show "conn_inv c' \<and> progress c c'"
  proof (cases "handshakePending (c_tr c) \<or> \<not> isWriting (c_chan c)")
    case True
    then show ?thesis using r handshake_ok[OF e c] c by (auto simp: handleWrite_def split: if_splits)
  next
    case False
    obtain res b ch tr where w: "writeFromBuffer (outputBuffer c) (c_chan c) (c_tr c) = Inr (res, b, ch, tr)"
      using r False by (auto simp: handleWrite_def Let_def bind_res_Inr)
    have "buffer_ok (outputBuffer c)" using c by (simp add: cinv_def)
    note ok = writeFromBuffer_ok[OF w this]
    let ?c = "c\<lparr>outputBuffer := b, c_chan := ch, c_tr := tr\<rparr>"
    have i: "cinv {} True False ?c"
      using c ok False by (auto simp: cinv_def same_mode_def slot_write_def chan_inv_def bp_weak_def)
    have q: "io_status res \<noteq> kOk \<Longrightarrow> conn_inv ?c \<and> progress c ?c"
      using c ok i length_content[of b] length_content[of "outputBuffer c"]
      by (auto simp: cinv_def same_mode_def bp_full_def progress_def quiet_def closings_def)
    show ?thesis
    proof (cases "io_status res = kOk")
      case True
      then obtain d where d: "applyBackpressurePolicy exec ?c = Inr d"
        and c': "c' = (if readableBytes (outputBuffer d) = 0 then finishPendingWrite (d\<lparr>c_chan := ch_disableWriting (c_chan d)\<rparr>) else d)"
        using r False w by (auto simp: handleWrite_def Let_def bind_res_Inr)
      have i1: "conn_inv d \<and> progress ?c d" by (rule applyBackpressurePolicy_ok[OF e i d])
      have i2: "conn_inv c' \<and> progress d c' \<and> quiet c'"
      proof (cases "readableBytes (outputBuffer d) = 0")
        case False
        then have "content (outputBuffer d) \<noteq> []" using inv_readable[OF conjunct1[OF i1]] by simp
        then show ?thesis using i1 c' False by (simp add: quiet_def)
      qed (use drained_ok[of d] i1 c' in simp)
      have "progress ?c c'" using i1 i2 progress_trans by blast
      then show ?thesis using i2 ok(8) by (auto simp: progress_def closings_def)
    next
      case False
      note i' = q[OF this]
      have "handleError exec ?c = Inr c' \<or> c' = ?c"
        using r \<open>\<not> (handshakePending (c_tr c) \<or> \<not> isWriting (c_chan c))\<close> w False
        by (auto simp: handleWrite_def Let_def split: status.splits)
      then show ?thesis using goodD[OF handleError_good[OF e] conjunct1[OF i']] i' progress_trans by blast
    qed
  qed
qed

lemma connectEstablished_ok:
  assumes e: "exec_ok exec" and c: "conn_inv c" "c_state c = kConnecting" and r: "connectEstablished exec c = Inr c'"
  shows "conn_inv c' \<and> progress c c'"
proof -
  let ?bp = "(c_bp c)\<lparr>bp_active := True, bp_readingEnabled := True\<rparr>"
  let ?c0 = "c\<lparr>c_state := kConnected, closeReason := CloseNone, c_chan := ch_enableReading (tie 0 (c_chan c))\<rparr>"
  let ?c = "?c0\<lparr>c_bp := ?bp\<rparr>"
  have tie: "isWriting (tie 0 ch) = isWriting ch" for ch :: "unit channel" by (simp add: tie_def isWriting_def)
  have i: "cinv {} True False ?c"
    using c by (auto simp: cinv_def slots_inv_def slot_write_def chan_inv_def bp_weak_def bp_thresholds_def notes_inv_def tie)
  have p: "progress c ?c" using c(2) by (simp add: progress_def quiet_def closings_def tie)
  obtain d where d: "bp_result_of exec (bp_apply (readableBytes (outputBuffer ?c)) (c_chan ?c) (bp_active (c_bp ?c)) (c_bp ?c)) ?c = Inr d"
    and c': "(if handshakePending (c_tr d) then advanceTransportHandshake exec d else notifyConnected exec d) = Inr c'"
    using r by (auto simp: connectEstablished_def onConnectionEstablished_def Let_def bind_res_Inr bp_result_overwrite)
  have i1: "conn_inv d \<and> progress ?c d" by (rule bp_apply_ok[OF e i d])
  have "conn_inv c' \<and> progress d c'"
    using c' handshake_ok[OF e conjunct1[OF i1]] goodD[OF notifyConnected_good[OF e] conjunct1[OF i1]] by (auto split: if_splits)
  then show ?thesis using p i1 progress_trans by blast
qed

lemma isWriting_added [simp]: "isWriting (ch\<lparr>ch_addedToLoop := b\<rparr>) = isWriting ch" "isReading (ch\<lparr>ch_addedToLoop := b\<rparr>) = isReading ch"
  by (simp_all add: isWriting_def isReading_def)

lemma connectDestroyed_ok:
  assumes e: "exec_ok exec" and c: "conn_inv c" "c_state c = kConnected \<or> c_state c = kDisconnected"
    and r: "connectDestroyed exec c = Inr c'"
  shows "conn_inv c' \<and> progress c c'"
proof -
  let ?c = "if closeReason c = CloseNone then c\<lparr>closeReason := ClosePeerClosed\<rparr> else c"
  obtain d where d: "(if c_state c = kConnected then runCloseSequence exec False ?c else Inr c) = Inr d"
    and c': "\<exists>ch. ch_remove (if ch_events (c_chan d) \<noteq> kNoneEvent then ch_disableAll (c_chan d) else c_chan d) = Inr ch \<and>
      c' = d\<lparr>c_chan := ch\<rparr>"
    using r unfolding connectDestroyed_def bind_res_Inr by (auto simp: Let_def bind_res_Inr split: if_splits)
  have i: "conn_inv d \<and> progress c d \<and> c_state d = kDisconnected"
  proof (cases "c_state c = kConnected")
    case True
    have "conn_inv ?c" "c_state ?c \<noteq> kDisconnected" "progress c ?c" using c True by (simp_all add: closeReason_prog)
    note cs = this
    have "runCloseSequence exec False ?c = Inr d" using d True by simp
    from runCloseSequence_ok[OF e cs(1,2) this] show ?thesis using progress_trans[OF cs(3)] by blast
  qed (use d c in simp)
  obtain ch where ch: "c' = d\<lparr>c_chan := ch\<rparr>" "ch_events ch = kNoneEvent"
    using c' by (auto simp: ch_remove_def isNoneEvent_def split: if_splits)
  have d': "conn_inv d" "c_state d = kDisconnected" "progress c d" using i by blast+
  have "conn_inv (d\<lparr>c_chan := ch\<rparr>)"
    using d'(1,2) ch(2) by (simp add: cinv_def slot_write_def chan_inv_def bp_weak_def bp_full_def bp_inv_def)
  moreover have "progress d (d\<lparr>c_chan := ch\<rparr>)"
    using none_idle[OF ch(2)] by (simp add: progress_def quiet_def closings_def)
  ultimately show ?thesis using progress_trans[OF d'(3)] by (simp only: ch(1))
qed

section \<open>Awaiting\<close>

lemma startTls_ok:
  assumes "conn_inv c" "\<not> ssl (c_tr c)"
  shows "conn_inv (startTls b c) \<and> progress c (startTls b c)"
proof -
  let ?t = "snd (enableTls b (ch_fd (c_chan c)) (c_tr c))"
  have "wire ?t = wire (c_tr c)"
    using assms(2) by (simp add: enableTls_def resetTls_def Let_def)
  then show ?thesis using assms
    by (cases "ssl ?t") (simp_all add: startTls_def cinv_def slot_write_def chan_inv_def bp_weak_def bp_full_def
        progress_def quiet_def closings_def)
qed

lemma slots_drop: "slots_inv {w} st r \<Longrightarrow> phase_of r w \<noteq> Pending \<Longrightarrow> slots_inv {} st r"
  unfolding slots_inv_def by blast

lemma phase_upd_waiter:
  "phase_of (upd_waiter w f r) v = (if v = w then aw_phase (f (waiters r w)) else phase_of r v)"
  by (simp add: phase_of_def upd_waiter_def)

lemma upd_waiter_frame [simp]:
  "slot_set (upd_waiter w f r) = slot_set r" "loopTasks (upd_waiter w f r) = loopTasks r"
  "writeWaiter (upd_waiter w f r) = writeWaiter r" "arm_queued v (upd_waiter w f r) = arm_queued v r"
  by (simp_all add: upd_waiter_def slot_set_def arm_queued_def)

text \<open>Updates of a waiter that keep its phase.\<close>

lemma upd_same_phase:
  assumes "\<And>a. aw_phase (f a) = aw_phase a"
  shows "slots_inv X st (upd_waiter w f r) = slots_inv X st r" "slot_write tls st ch (upd_waiter w f r) = slot_write tls st ch r"
    "phase_of (upd_waiter w f r) v = phase_of r v"
proof -
  have p: "phase_of (upd_waiter w f r) = phase_of r" by (rule ext) (simp only: phase_upd_waiter assms, simp add: phase_of_def)
  show "slots_inv X st (upd_waiter w f r) = slots_inv X st r" "slot_write tls st ch (upd_waiter w f r) = slot_write tls st ch r"
    "phase_of (upd_waiter w f r) v = phase_of r v"
    by (simp_all add: slots_inv_def slot_write_def p)
qed

lemma unregister_slots:
  "phase_of (unregisterWaiter w r) v =
     (if v = w \<and> (phase_of r w = Pending \<or> phase_of r w = Queued) then Abandoned else phase_of r v)"
  "slot_set (unregisterWaiter w r) = slot_set r - {w}" "loopTasks (unregisterWaiter w r) = loopTasks r"
  "writeWaiter (unregisterWaiter w r) = (if writeWaiter r = Some w then None else writeWaiter r)"
  by (auto simp: unregisterWaiter_def Let_def upd_waiter_def phase_of_def slot_set_def)

lemma unregister_ok:
  assumes "slots_inv {w} st r"
  shows "slots_inv {} st (unregisterWaiter w r)"
proof -
  have "arm_queued v (unregisterWaiter w r) = arm_queued v r" for v by (simp add: arm_queued_def unregister_slots)
  then show ?thesis using assms unfolding slots_inv_def unregister_slots by auto
qed

lemma unregister_write: "slot_write tls st ch r \<Longrightarrow> slot_write tls st ch (unregisterWaiter w r)"
  by (auto simp: slot_write_def unregister_slots split: if_splits)

lemma slots_mono: "slots_inv {} st r \<Longrightarrow> slots_inv X st r"
  by (auto simp: slots_inv_def)

lemma publish_slots:
  assumes "publishWaiter w r = Inr r'" "slots_inv {} st r"
  shows "slots_inv {w} st r'" "phase_of r' w = Pending" "slot_write tls st ch r \<Longrightarrow> slot_write tls st ch r'"
proof -
  have u: "phase_of r w = Unarmed" "r' = upd_waiter w (\<lambda>a. a\<lparr>aw_handle := Some w, aw_phase := Pending\<rparr>) r"
    using assms(1) by (auto simp: publishWaiter_def phase_of_def split: if_splits)
  then have n: "w \<notin> slot_set r" using assms(2) by (auto simp: slots_inv_def)
  then have "writeWaiter r \<noteq> Some w" by (auto simp: slot_set_def)
  with n show "slots_inv {w} st r'" "phase_of r' w = Pending" "slot_write tls st ch r \<Longrightarrow> slot_write tls st ch r'"
    using assms(2) u(2) by (auto simp: slots_inv_def slot_write_def phase_upd_waiter)
qed

lemma queue_settles:
  assumes "slots_inv {w} st r"
  shows "slots_inv {} st (queueResume (Some w) r)"
  by (rule slots_drop[OF slots_queueResume[OF assms]]) (simp add: phase_queueResume)

lemma cancel_slots: "slots_inv {w} st r \<Longrightarrow> slots_inv {} st (snd (cancelWaiter w r))"
  by (auto simp: cancelWaiter_def phase_of_def intro!: queue_settles elim: slots_drop simp: upd_same_phase)

lemma cancel_write: "slot_write tls st ch r \<Longrightarrow> slot_write tls st ch (snd (cancelWaiter w r))"
  by (simp add: cancelWaiter_def slot_write_queueResume upd_same_phase)

lemma fail_slots: "slots_inv {w} st r \<Longrightarrow> slots_inv {} st (failWaiter w e r)"
  by (auto simp: failWaiter_def intro!: queue_settles simp: upd_same_phase)

lemma fail_write: "slot_write tls st ch r \<Longrightarrow> slot_write tls st ch (failWaiter w e r)"
  by (simp add: failWaiter_def slot_write_queueResume upd_same_phase)

text \<open>Putting a pending waiter into a slot.\<close>

lemma slot_entry:
  assumes "slots_inv {w} st r" "phase_of r w = Pending" "slot_set r' = insert w (slot_set r) \<or> w \<in> slot_set r' \<and> slot_set r' \<subseteq> insert w (slot_set r) \<and> slot_set r - {w} \<subseteq> slot_set r'"
    and "loopTasks r' = loopTasks r" "waiters r' = waiters r"
  shows "slots_inv {} st (if ready then queueResume (Some w) r' else r') \<or> st = kDisconnected \<and> \<not> ready"
proof -
  have p: "phase_of r' = phase_of r" by (rule ext) (simp add: phase_of_def assms(5))
  have q: "arm_queued v r' = arm_queued v r" for v by (simp add: arm_queued_def assms(4))
  have "slots_inv {w} kConnected r'"
    using assms(1,2,3) unfolding slots_inv_def p q assms(4) by auto
  then have c: "slots_inv {} kConnected r'" using assms(3) unfolding slots_inv_def by auto
  show ?thesis
  proof (cases "st = kDisconnected")
    case False
    then show ?thesis using c slots_queueResume[OF c] by (auto simp: slots_inv_def)
  next
    case True
    have "slots_inv {} st (queueResume (Some w) r')"
      using slots_queueResume[OF c, of "Some w"] assms(1,3) True unfolding slots_inv_def
      by (auto simp: phase_queueResume p)
    then show ?thesis using True by auto
  qed
qed

lemma arm_slots:
  assumes "slots_inv {w} st r" "phase_of r w = Pending" "st = kDisconnected \<Longrightarrow> ready"
  shows "armReadWaiter w n ready r = Inr r' \<Longrightarrow> slots_inv {} st r'"
    and "armWriteWaiter w ready r = Inr r' \<Longrightarrow> slots_inv {} st r'"
    and "armCloseWaiter w ready r = Inr r' \<Longrightarrow> slots_inv {} st r'"
proof -
  show "armReadWaiter w n ready r = Inr r' \<Longrightarrow> slots_inv {} st r'"
    using slot_entry[OF assms(1,2), of "r\<lparr>readWaiter := Some w, minReadBytes := n\<rparr>" ready] assms(3)
    by (auto simp: armReadWaiter_def Let_def slot_set_def split: if_splits)
  show "armWriteWaiter w ready r = Inr r' \<Longrightarrow> slots_inv {} st r'"
    using slot_entry[OF assms(1,2), of "r\<lparr>writeWaiter := Some w\<rparr>" ready] assms(3)
    by (auto simp: armWriteWaiter_def Let_def slot_set_def split: if_splits)
  show "armCloseWaiter w ready r = Inr r' \<Longrightarrow> slots_inv {} st r'"
    using slot_entry[OF assms(1,2), of "r\<lparr>closeWaiter := Some w\<rparr>" ready] assms(3)
    by (auto simp: armCloseWaiter_def Let_def slot_set_def split: if_splits)
qed

lemma slot_write_frame:
  assumes "writeWaiter r' = writeWaiter r" "waiters r' = waiters r"
  shows "slot_write tls st ch r' = slot_write tls st ch r"
  by (simp add: slot_write_def phase_of_def assms)

lemma arm_write:
  assumes "slot_write tls st ch r"
  shows "armReadWaiter w n ready r = Inr r' \<Longrightarrow> slot_write tls st ch r'"
    and "armCloseWaiter w ready r = Inr r' \<Longrightarrow> slot_write tls st ch r'"
    and "armWriteWaiter w True r = Inr r' \<Longrightarrow> slot_write tls st ch r'"
proof -
  show "armReadWaiter w n ready r = Inr r' \<Longrightarrow> slot_write tls st ch r'"
    using slot_write_frame[of "r\<lparr>readWaiter := Some w, minReadBytes := n\<rparr>" r tls st ch] assms
    by (auto simp: armReadWaiter_def Let_def slot_write_queueResume split: if_splits)
  show "armCloseWaiter w ready r = Inr r' \<Longrightarrow> slot_write tls st ch r'"
    using slot_write_frame[of "r\<lparr>closeWaiter := Some w\<rparr>" r tls st ch] assms
    by (auto simp: armCloseWaiter_def Let_def slot_write_queueResume split: if_splits)
  show "armWriteWaiter w True r = Inr r' \<Longrightarrow> slot_write tls st ch r'"
    by (auto simp: armWriteWaiter_def Let_def slot_write_def phase_queueResume split: if_splits)
qed

lemma cinv_parts:
  assumes "cinv X wr bp c"
  shows "aw_inv (c_reg c)" "slots_inv X (c_state c) (c_reg c)" "wr \<Longrightarrow> slot_write (ssl (c_tr c)) (c_state c) (c_chan c) (c_reg c)"
    "buffer_ok (inputBuffer c)" "buffer_ok (outputBuffer c)"
  using assms by (simp_all add: cinv_def)

lemma unregister_conn_ok:
  assumes "cinv {w} True True c"
  shows "conn_inv (c\<lparr>c_reg := unregisterWaiter w (c_reg c)\<rparr>) \<and> progress c (c\<lparr>c_reg := unregisterWaiter w (c_reg c)\<rparr>)"
  using cinv_parts[OF assms]
  by (intro reg_upd_ok[OF assms] unregisterWaiter_inv unregister_ok unregister_write) auto

lemma cancel_conn_ok:
  assumes "cinv {w} True True c"
  shows "conn_inv (c\<lparr>c_reg := snd (cancelWaiter w (c_reg c))\<rparr>) \<and> progress c (c\<lparr>c_reg := snd (cancelWaiter w (c_reg c))\<rparr>)"
  using cinv_parts[OF assms] by (intro reg_upd_ok[OF assms] cancelWaiter_inv cancel_slots cancel_write) auto

lemma fail_conn_ok:
  assumes "cinv {w} True True c"
  shows "conn_inv (c\<lparr>c_reg := failWaiter w e (c_reg c)\<rparr>) \<and> progress c (c\<lparr>c_reg := failWaiter w e (c_reg c)\<rparr>)"
  using cinv_parts[OF assms] by (intro reg_upd_ok[OF assms] failWaiter_inv fail_slots fail_write) auto

lemma arm_catch_ok: "cinv {w} True True c \<Longrightarrow> conn_inv (arm_catch b w e c) \<and> progress c (arm_catch b w e c)"
  by (simp add: arm_catch_def unregister_conn_ok fail_conn_ok)

lemma registration_ok:
  assumes "cinv X wr bp c"
  shows "cinv X wr bp (c\<lparr>c_reg := upd_waiter w (\<lambda>a. a\<lparr>aw_registration := b\<rparr>) (c_reg c)\<rparr>) \<and>
    progress c (c\<lparr>c_reg := upd_waiter w (\<lambda>a. a\<lparr>aw_registration := b\<rparr>) (c_reg c)\<rparr>)"
  using cinv_parts[OF assms]
  by (intro reg_upd_ok[OF assms]) (simp_all add: upd_same_phase aw_inv_upd_frame)

lemma arm_write_ok:
  assumes e: "exec_ok exec" and c: "cinv {w} True True c" "phase_of (c_reg c) w = Pending" and r: "armWriteWaiter w ready (c_reg c) = Inr r'"
    and ready: "ready = (data = [] \<or> c_state c = kDisconnected)"
    and res: "(if ready then Inr (c\<lparr>c_reg := r'\<rparr>) else bind_res (sendInLoop exec data (c\<lparr>c_reg := r'\<rparr>)) (\<lambda>c.
        Inr (if \<not> isWriting (c_chan c) \<and> readableBytes (outputBuffer c) = 0
             then c\<lparr>c_reg := resumeWriteWaiterIfNeeded (c_reg c)\<rparr> else c))) = Inr c'"
  shows "conn_inv c' \<and> progress c c'"
proof -
  note cp = cinv_parts[OF c(1)]
  have r': "aw_inv r'" "slots_inv {} (c_state c) r'"
    using arm_inv(2)[OF cp(1) r] arm_slots(2)[OF cp(2) c(2) _ r] ready by auto
  have i: "cinv {} False True (c\<lparr>c_reg := r'\<rparr>)" "progress c (c\<lparr>c_reg := r'\<rparr>)"
    using reg_upd_ok[OF c(1) r', of False] by simp_all
  show ?thesis
  proof (cases ready)
    case True
    then have "slot_write (ssl (c_tr c)) (c_state c) (c_chan c) r'" using arm_write(3)[OF cp(3)] r by simp
    from reg_upd_ok[OF c(1) r', of True, OF this] show ?thesis using res True by simp
  next
    case False
    then obtain d where d: "sendInLoop exec data (c\<lparr>c_reg := r'\<rparr>) = Inr d"
      and c': "c' = (if \<not> isWriting (c_chan d) \<and> readableBytes (outputBuffer d) = 0
             then d\<lparr>c_reg := resumeWriteWaiterIfNeeded (c_reg d)\<rparr> else d)"
      using res by (auto simp: bind_res_Inr)
    have "conn_inv d \<and> progress (c\<lparr>c_reg := r'\<rparr>) d" by (rule sendInLoop_ok[OF e i(1) d]) (use False ready in simp)
    moreover from this have "conn_inv c' \<and> progress d c'" unfolding c' using resumeWrite_ok(1)[of "{}" True True d] resumeWrite_ok(2)[of d] by simp
    ultimately show ?thesis using i(2) progress_trans by blast
  qed
qed

lemma arm_switch_ok:
  assumes e: "exec_ok exec" and c: "cinv {w} True True c" and p: "phase_of (c_reg c) w = Pending"
    and r: "arm_switch exec b w kind n data c = Inr c'"
  shows "conn_inv c' \<and> progress c c'"
proof (cases kind)
  note cp = cinv_parts[OF c]
  case AwaitRead
  show ?thesis
  proof (cases "armReadWaiter w n (canReadImmediately n c) (c_reg c)")
    case (Inr r')
    have "slots_inv {} (c_state c) r'"
      by (rule arm_slots(1)[OF cp(2) p _ Inr]) (simp add: canReadImmediately_def)
    with reg_upd_ok[OF c arm_inv(1)[OF cp(1) Inr]] arm_write(1)[OF cp(3) Inr] r show ?thesis
      by (simp add: AwaitRead arm_switch_def Inr)
  qed (use r arm_catch_ok[OF c] in \<open>auto simp: AwaitRead arm_switch_def\<close>)
next
  note cp = cinv_parts[OF c]
  case AwaitClose
  show ?thesis
  proof (cases "armCloseWaiter w (c_state c = kDisconnected) (c_reg c)")
    case (Inr r')
    have "slots_inv {} (c_state c) r'" by (rule arm_slots(3)[OF cp(2) p _ Inr])
    with reg_upd_ok[OF c arm_inv(3)[OF cp(1) Inr]] arm_write(2)[OF cp(3) Inr] r show ?thesis
      by (simp add: AwaitClose arm_switch_def Inr)
  qed (use r arm_catch_ok[OF c] in \<open>auto simp: AwaitClose arm_switch_def\<close>)
next
  case AwaitWrite
  show ?thesis
  proof (cases "armWriteWaiter w (data = [] \<or> c_state c = kDisconnected) (c_reg c)")
    case (Inr r')
    show ?thesis by (rule arm_write_ok[OF e c p Inr refl]) (use r Inr in \<open>simp add: AwaitWrite arm_switch_def Let_def\<close>)
  qed (use r arm_catch_ok[OF c] in \<open>auto simp: AwaitWrite arm_switch_def\<close>)
qed

lemma arm_functor_ok:
  assumes e: "exec_ok exec" and c: "cinv {w} True True c" and r: "arm_functor exec b w kind token n data c = Inr c'"
  shows "conn_inv c' \<and> progress c c'"
proof -
  let ?c = "if token then c\<lparr>c_reg := upd_waiter w (\<lambda>a. a\<lparr>aw_registration := True\<rparr>) (c_reg c)\<rparr> else c"
  consider (gone) "phase_of (c_reg c) w \<noteq> Pending" | (cancelled) "phase_of (c_reg c) w = Pending" "token \<and> w \<in> set (token_requested c)"
    | (arm) "phase_of (c_reg c) w = Pending" "\<not> (token \<and> w \<in> set (token_requested c))" by blast
  then show ?thesis
  proof cases
    case gone
    then have "c' = c" using r by (simp add: arm_functor_def phase_of_def)
    moreover have "conn_inv c" using c slots_drop[OF cinv_parts(2)[OF c] gone] by (simp add: cinv_def)
    ultimately show ?thesis by simp
  next
    case cancelled
    then have "c' = c\<lparr>c_reg := snd (cancelWaiter w (c_reg c))\<rparr>" using r by (simp add: arm_functor_def phase_of_def)
    then show ?thesis using cancel_conn_ok[OF c] by simp
  next
    case arm
    have i: "cinv {w} True True ?c" "progress c ?c" using registration_ok[OF c, of w True] c by simp_all
    have p: "phase_of (c_reg ?c) w = Pending" using arm(1) by (simp add: upd_same_phase)
    have "arm_switch exec b w kind n data ?c = Inr c'"
      using r arm by (simp only: arm_functor_def phase_of_def simp_thms if_False if_True)
    from arm_switch_ok[OF e i(1) p this] show ?thesis using i(2) progress_trans by blast
  qed
qed

lemma armWaiter_good:
  assumes e: "exec_ok exec"
  shows "good (armWaiter exec b w kind token n data)"
proof (rule goodI)
  fix c c' assume c: "conn_inv c" and r: "armWaiter exec b w kind token n data c = Inr c'"
  note cp = cinv_parts[OF c]
  show "conn_inv c' \<and> progress c c'"
  proof (cases "publishWaiter w (c_reg c)")
    case (Inr q)
    let ?d = "c\<lparr>c_reg := q\<rparr>" and ?c = "c\<lparr>c_reg := q, c_await := (c_await c)(w := (kind, n))\<rparr>"
    have "cinv {w} True True ?d \<and> progress c ?d"
      using cp publish_slots[OF Inr cp(2)] publishWaiter_inv[OF cp(1) Inr] by (intro reg_upd_ok[OF c]) auto
    then have i: "cinv {w} True True ?c" "progress c ?c" by (simp_all add: cinv_def progress_def quiet_def closings_def)
    show ?thesis
    proof (cases b)
      case True
      then have "arm_functor exec True w kind token n data ?c = Inr c'" using r Inr by (simp add: armWaiter_def Let_def)
      from arm_functor_ok[OF e i(1) this] show ?thesis using i(2) progress_trans by blast
    next
      case False
      then have c': "c' = queueFunctor (TArm w kind token n data) ?c" using r Inr by (simp add: armWaiter_def Let_def)
      have q: "cinv {w} True True c'" "progress ?c c'" unfolding c' by (rule queueFunctor_ok; simp add: i)+
      have "arm_queued w (c_reg c')" by (auto simp: c' queueFunctor_def arm_queued_def)
      then have "conn_inv c'" using q(1) by (auto simp: cinv_def slots_inv_def)
      then show ?thesis using q(2) i(2) progress_trans by blast
    qed
  qed (use r c in \<open>simp add: armWaiter_def\<close>)
qed

section \<open>User code\<close>

lemma good_pure: "(\<And>c. conn_inv c \<Longrightarrow> conn_inv (f c) \<and> progress c (f c)) \<Longrightarrow> good (\<lambda>c. Inr (f c))"
  by (rule goodI) auto

lemma good_queue: "(\<And>h l. u = TSetBackpressure h l \<Longrightarrow> validateThresholds h l = Inr ()) \<Longrightarrow> good (\<lambda>c. Inr (queueFunctor u c))"
  by (rule good_pure) (blast intro: queueFunctor_ok)

lemma shutdown_good: "good (\<lambda>c. Inr (shutdown b c))"
proof (rule good_pure)
  fix c assume c: "conn_inv c"
  let ?c = "c\<lparr>c_state := kDisconnecting\<rparr>"
  have "conn_inv (shutdown b c) \<and> progress c (shutdown b c)" if k: "c_state c = kConnected"
  proof -
    have i: "conn_inv ?c" using c k by (simp add: cinv_def slots_inv_def slot_write_def chan_inv_def bp_weak_def notes_inv_def)
    have p: "progress c ?c" using k by (simp add: progress_def quiet_def closings_def)
    show ?thesis
      using k i p progress_trans[OF p shutdownInLoop_ok(2)] queueFunctor_ok(1)[of TShutdown "{}" True True ?c]
        progress_trans[OF p queueFunctor_ok(2)[of TShutdown]]
      by (cases b) (simp_all add: shutdown_def Let_def)
  qed
  then show "conn_inv (shutdown b c) \<and> progress c (shutdown b c)"
    using c by (cases "c_state c = kConnected") (simp_all add: shutdown_def)
qed

lemma setBackpressurePolicy_good:
  assumes e: "exec_ok exec"
  shows "good (setBackpressurePolicy exec b high low)"
proof (cases "validateThresholds high low")
  case (Inl x)
  then show ?thesis by (simp add: good_def setBackpressurePolicy_def)
next
  case (Inr u)
  then have v: "validateThresholds high low = Inr ()" by simp
  have "good (setBackpressurePolicyInLoop exec high low)"
    by (rule goodI) (rule setBackpressurePolicyInLoop_ok[OF e v])
  moreover have "good (\<lambda>c. Inr (queueFunctor (TSetBackpressure high low) c))" by (rule good_queue) (simp add: v)
  ultimately have "good (\<lambda>c. if b then setBackpressurePolicyInLoop exec high low c else Inr (queueFunctor (TSetBackpressure high low) c))"
    by (rule good_if)
  then show ?thesis by (simp add: setBackpressurePolicy_def v good_def)
qed

lemma set_callback_ok: "conn_inv c \<Longrightarrow> conn_inv (set_callback s c) \<and> progress c (set_callback s c)"
  by (cases s) (simp_all add: cinv_def bp_weak_def bp_full_def bp_inv_def bp_thresholds_def progress_def quiet_def closings_def)

lemma retrieve_input_ok:
  assumes "conn_inv c"
  shows "conn_inv (c\<lparr>inputBuffer := retrieve n (inputBuffer c)\<rparr>) \<and> progress c (c\<lparr>inputBuffer := retrieve n (inputBuffer c)\<rparr>)"
  using assms retrieve_ok(1)[of "inputBuffer c" n] by (simp add: cinv_def progress_def quiet_def closings_def)

lemma conn_inv_mono: "conn_inv c \<Longrightarrow> cinv X True True c"
  by (auto simp: cinv_def intro: slots_mono)

lemma abandonWaiter_ok: "conn_inv c \<Longrightarrow> conn_inv (abandonWaiter w c) \<and> progress c (abandonWaiter w c)"
  using unregister_conn_ok[OF conn_inv_mono] by (simp add: abandonWaiter_def)

lemma do_api_good:
  assumes e: "exec_ok exec"
  shows "good (do_api exec b a)"
proof (cases a)
  case (ASend data)
  have "good (\<lambda>c. if c_state c \<noteq> kConnected then Inr c else if b then sendInLoop exec data c else Inr (queueFunctor (TSend data) c))"
    by (intro good_if good_Inr sendInLoop_good[OF e] good_queue) simp
  then show ?thesis by (simp add: ASend send_def good_def)
next
  case AShutdown
  then show ?thesis using shutdown_good by (simp add: good_def)
next
  case AForceClose
  have "good (\<lambda>c. if b then forceCloseInLoop exec c else Inr (queueFunctor TForceClose c))"
    by (intro good_if forceCloseInLoop_good[OF e] good_queue) simp
  then show ?thesis by (simp add: AForceClose forceClose_def good_def)
next
  case (ASetBackpressure high low)
  then show ?thesis using setBackpressurePolicy_good[OF e] by (simp add: good_def)
next
  case (ASet s)
  have "good (\<lambda>c. if b then Inr (set_callback s c) else Inr c)"
    by (intro good_if good_Inr good_pure set_callback_ok)
  then show ?thesis by (simp add: ASet good_def)
next
  case (ARetrieve n)
  have "good (\<lambda>c. if b then Inr (c\<lparr>inputBuffer := retrieve n (inputBuffer c)\<rparr>) else Inr c)"
    by (intro good_if good_Inr good_pure retrieve_input_ok)
  then show ?thesis by (simp add: ARetrieve good_def)
next
  case (AArm w kind token n data)
  then show ?thesis using armWaiter_good[OF e] by (simp add: good_def)
next
  case (AAbandon w)
  have "good (\<lambda>c. if b then Inr (abandonWaiter w c) else Inr c)"
    by (intro good_if good_Inr good_pure abandonWaiter_ok)
  then show ?thesis by (simp add: AAbandon good_def)
next
  case ADestroy
  show ?thesis
  proof (rule goodI)
    fix c c' assume "conn_inv c" "do_api exec b a c = Inr c'"
    then show "conn_inv c' \<and> progress c c'"
      using connectDestroyed_ok[OF e, of c c'] by (auto simp: ADestroy split: if_splits)
  qed
qed

lemma run_apis_good: "exec_ok exec \<Longrightarrow> good (run_apis exec as)"
proof (induction as)
  case Nil
  then show ?case by (simp add: good_def)
next
  case (Cons a as)
  have "good (\<lambda>c. bind_res (do_api exec True a c) (run_apis exec as))"
    by (rule good_bind[OF do_api_good[OF Cons.prems] Cons.IH[OF Cons.prems]])
  then show ?case by (simp add: good_def)
qed

lemma exec_at_ok: "exec_ok (exec_at user k)"
proof (induction k)
  case 0
  then show ?case by (simp add: exec_ok_def good_def)
next
  case (Suc k)
  show ?case unfolding exec_ok_def
  proof
    fix n
    show "good (exec_at user (Suc k) n)"
      by (rule goodI) (use goodD[OF run_apis_good[OF Suc]] in \<open>simp add: exec_at.simps\<close>)
  qed
qed

section \<open>Functors and runs\<close>

fun armed_by :: "ctask task \<Rightarrow> nat set" where
  "armed_by (Other (TArm w k tk n d)) = {w}"
| "armed_by _ = {}"

lemma pop_reg:
  assumes "loopTasks r = t # ts"
  shows "slots_inv {} st r \<Longrightarrow> slots_inv (armed_by t) st (r\<lparr>loopTasks := ts\<rparr>)"
    and "slot_write tls st ch (r\<lparr>loopTasks := ts\<rparr>) = slot_write tls st ch r"
proof -
  have q: "arm_queued w r \<longleftrightarrow> w \<in> armed_by t \<or> arm_queued w (r\<lparr>loopTasks := ts\<rparr>)" for w
  proof -
    have "(\<exists>k tk n d. Other (TArm w k tk n d) = t) \<longleftrightarrow> w \<in> armed_by t" by (cases t rule: armed_by.cases) auto
    then show ?thesis unfolding arm_queued_def assms by auto
  qed
  show "slots_inv {} st r \<Longrightarrow> slots_inv (armed_by t) st (r\<lparr>loopTasks := ts\<rparr>)"
    unfolding slots_inv_def by (auto simp: q phase_of_def slot_set_def assms)
  show "slot_write tls st ch (r\<lparr>loopTasks := ts\<rparr>) = slot_write tls st ch r"
    by (simp add: slot_write_def phase_of_def)
qed

lemma resume_functor_reg:
  assumes "snd (resume_functor w r) = r'"
  shows "slots_inv {} st r \<Longrightarrow> slots_inv {} st r'" "slot_write tls st ch r \<Longrightarrow> slot_write tls st ch r'"
proof -
  have p: "phase_of r' v = (if v = w \<and> phase_of r w = Queued then Completed else phase_of r v)" for v
    using assms by (auto simp: resume_functor_def Let_def phase_of_def upd_waiter_def split: option.splits)
  have f: "slot_set r' = slot_set r" "loopTasks r' = loopTasks r" "writeWaiter r' = writeWaiter r"
    unfolding assms[symmetric] resume_functor_def Let_def upd_waiter_def slot_set_def by (auto split: option.split)
  have q: "arm_queued v r' = arm_queued v r" for v by (simp add: arm_queued_def f)
  show "slots_inv {} st r \<Longrightarrow> slots_inv {} st r'" unfolding slots_inv_def p f q by auto
  show "slot_write tls st ch r \<Longrightarrow> slot_write tls st ch r'" unfolding slot_write_def p f by auto
qed

lemma consume_ok:
  assumes "conn_inv c" "consumeReadableBytes n c = Inr (xs, c')"
  shows "conn_inv c' \<and> progress c c'"
  using assms retrieveAsString_ok[OF cinv_parts(4)[OF assms(1)]] retrieve_input_ok[OF assms(1)]
  by (auto simp: consumeReadableBytes_def retrieveAllAsString_def split: if_splits)

lemma await_resume_ok:
  assumes c: "conn_inv c" and r: "await_resume w c = Inr (res, c')"
  shows "conn_inv c' \<and> progress c c'"
proof -
  let ?c = "c\<lparr>c_reg := unregisterWaiter w (c_reg c)\<rparr>"
  have i: "conn_inv ?c \<and> progress c ?c" by (rule unregister_conn_ok[OF conn_inv_mono[OF c]])
  have "c' = ?c \<or> (\<exists>n xs. consumeReadableBytes n ?c = Inr (xs, c'))"
    using r by (auto simp: await_resume_def finishWaiter_def Let_def resumeReadAwait_def bind_res_Inr
        split: option.splits prod.splits awaitKind.splits if_splits)
  then show ?thesis using i consume_ok[OF conjunct1[OF i]] progress_trans by blast
qed

lemma run_resume_ok:
  assumes e: "exec_ok exec" and c: "conn_inv c" "loopTasks (c_reg c) = Resume w # ts"
    and r: "run_resume exec w (c\<lparr>c_reg := (c_reg c)\<lparr>loopTasks := ts\<rparr>\<rparr>) = Inr c'"
  shows "conn_inv c' \<and> progress c c'"
proof -
  obtain b q where q: "resume_functor w ((c_reg c)\<lparr>loopTasks := ts\<rparr>) = (b, q)" by (metis surj_pair)
  note cp = cinv_parts[OF c(1)] and pop = pop_reg[OF c(2)]
  let ?c = "c\<lparr>c_reg := q\<rparr>"
  have q': "snd (resume_functor w ((c_reg c)\<lparr>loopTasks := ts\<rparr>)) = q" by (simp add: q)
  have i: "conn_inv ?c \<and> progress c ?c"
  proof (rule reg_upd_ok[OF c(1)])
    show "aw_inv q" using resume_functor_inv[OF cp(1) c(2)] by (simp add: q)
    show "slots_inv {} (c_state c) q" using resume_functor_reg(1)[OF q'] pop(1)[OF cp(2)] by simp
    show "slot_write (ssl (c_tr c)) (c_state c) (c_chan c) q" using resume_functor_reg(2)[OF q'] pop(2) cp(3) by simp
  qed
  show ?thesis
  proof (cases b)
    case True
    then obtain res d where d: "await_resume w ?c = Inr (res, d)" "call_user exec (NResumed w res) d = Inr c'"
      using r q by (auto simp: run_resume_def bind_res_Inr)
    have "conn_inv d \<and> progress ?c d" by (rule await_resume_ok[OF conjunct1[OF i] d(1)])
    moreover have "good (call_user exec (NResumed w res))" by (rule call_user_good[OF e]) simp_all
    ultimately show ?thesis using goodD[of "call_user exec (NResumed w res)" d c'] d(2) i progress_trans by blast
  next
    case False
    then show ?thesis using r q i by (simp add: run_resume_def)
  qed
qed

lemma run_ctask_ok:
  assumes e: "exec_ok exec" and c: "cinv (armed_by (Other u)) True True c" and r: "run_ctask exec u c = Inr c'"
    and v: "\<And>h l. u = TSetBackpressure h l \<Longrightarrow> validateThresholds h l = Inr ()"
  shows "conn_inv c' \<and> progress c c'"
proof (cases u)
  case (TArm w kind token n data)
  then show ?thesis using arm_functor_ok[OF e, of w c] c r by simp
next
  case (TSetBackpressure h l)
  then show ?thesis using setBackpressurePolicyInLoop_ok[OF e v] c r by simp
next
  case (TSend data)
  then show ?thesis using goodD[OF sendInLoop_good[OF e]] c r by simp
next
  case TForceClose
  then show ?thesis using goodD[OF forceCloseInLoop_good[OF e]] c r by simp
next
  case TWriteComplete
  then show ?thesis using goodD[OF call_user_good[OF e, of NWriteComplete]] c r by simp
next
  case (THighWater n)
  then show ?thesis using goodD[OF call_user_good[OF e, of "NHighWater n"]] c r by simp
next
  case (TCancel w)
  then have "c' = c\<lparr>c_reg := snd (cancelWaiter w (c_reg c))\<rparr>" "conn_inv c" using c r by simp_all
  then show ?thesis using cancel_conn_ok[OF conn_inv_mono] by simp
next
  case TShutdown
  then have "c' = shutdownInLoop c" "conn_inv c" using c r by simp_all
  then show ?thesis by simp
qed

lemma run_task_good:
  assumes e: "exec_ok exec"
  shows "good (run_task exec)"
proof (rule goodI)
  fix c c' assume c: "conn_inv c" and r: "run_task exec c = Inr c'"
  note cp = cinv_parts[OF c]
  show "conn_inv c' \<and> progress c c'"
  proof (cases "loopTasks (c_reg c)")
    case Nil
    then show ?thesis using c r by (simp add: run_task_def)
  next
    case (Cons t ts)
    let ?c = "c\<lparr>c_reg := (c_reg c)\<lparr>loopTasks := ts\<rparr>\<rparr>"
    note pop = pop_reg[OF Cons]
    show ?thesis
    proof (cases t)
      case (Resume w)
      then show ?thesis using run_resume_ok[OF e c, of w ts] r Cons by (simp add: run_task_def)
    next
      case (Other u)
      have i: "cinv (armed_by t) True True ?c \<and> progress c ?c"
        by (rule reg_upd_ok[OF c]) (use other_task_inv[OF cp(1)] Cons Other pop(1)[OF cp(2)] pop(2) cp(3) in simp_all)
      have u: "run_ctask exec u ?c = Inr c'" using r Cons Other by (simp add: run_task_def)
      have "validateThresholds h l = Inr ()" if "u = TSetBackpressure h l" for h l
        using cp(2) Cons Other that by (auto simp: slots_inv_def)
      then have "conn_inv c' \<and> progress ?c c'" using run_ctask_ok[OF e _ u] i Other by blast
      then show ?thesis using i progress_trans by blast
    qed
  qed
qed

lemma tcp_step_good:
  assumes e: "exec_ok exec"
  shows "good (tcp_step exec ev)"
proof (rule goodI)
  fix c c' assume c: "conn_inv c" and r: "tcp_step exec ev c = Inr c'"
  show "conn_inv c' \<and> progress c c'"
  proof (cases ev)
    case (EvStartTls b)
    then show ?thesis using c r startTls_ok[OF c] by (auto split: if_splits)
  next
    case EvEstablish
    then show ?thesis using c r connectEstablished_ok[OF e c] by (simp split: if_splits)
  next
    case EvRead
    then show ?thesis using goodD[OF handleRead_good[OF e] c] r by simp
  next
    case EvWrite
    then show ?thesis using goodD[OF handleWrite_good[OF e] c] r by simp
  next
    case EvClose
    then show ?thesis using goodD[OF handleClose_good[OF e] c] r by simp
  next
    case EvError
    then show ?thesis using goodD[OF handleError_good[OF e] c] r by simp
  next
    case EvTask
    then show ?thesis using goodD[OF run_task_good[OF e] c] r by simp
  next
    case (EvApi b a)
    then show ?thesis using goodD[OF do_api_good[OF e] c] r by simp
  next
    case (EvCancel w)
    let ?c = "c\<lparr>token_requested := w # token_requested c\<rparr>"
    have i: "conn_inv ?c" "progress c ?c" using c by (simp_all add: cinv_def progress_def quiet_def closings_def)
    have "c' = ?c \<or> c' = queueFunctor (TCancel w) ?c" using r by (auto simp: EvCancel Let_def split: if_splits)
    moreover have "conn_inv (queueFunctor (TCancel w) ?c)" "progress ?c (queueFunctor (TCancel w) ?c)"
      by (rule queueFunctor_ok; simp add: i)+
    ultimately show ?thesis using i progress_trans by blast
  qed
qed

lemma tcp_run_good: "exec_ok exec \<Longrightarrow> good (tcp_run exec es)"
proof (induction es)
  case Nil
  then show ?case by (simp add: good_def)
next
  case (Cons a as)
  have "good (\<lambda>c. bind_res (tcp_step exec a c) (tcp_run exec as))"
    by (rule good_bind[OF tcp_step_good[OF Cons.prems] Cons.IH[OF Cons.prems]])
  then show ?case by (simp add: good_def)
qed

lemma TcpConnection_inv: "wire tr = [] \<Longrightarrow> conn_inv (TcpConnection fd tr) \<and> quiet (TcpConnection fd tr)"
  by (simp add: TcpConnection_def cinv_def quiet_def Buffer_ok content_Buffer registry_inv slots_inv_def slot_write_def chan_inv_def
      bp_weak_def bp_full_def bp_inv_def bp_thresholds_def notes_inv_def ConnectionBackpressureController_def
      Channel_def setErrorCallback_def setCloseCallback_def setWriteCallback_def setReadCallback_def isWriting_def isReading_def mask_bits)
    (simp add: slot_set_def phase_of_def ConnectionAwaiterRegistry_def ConnectionAwaiterState_def)

lemma reachable_inv:
  assumes "wire tr = []" "tcp_run (exec_at user k) evs (TcpConnection fd tr) = Inr c"
  shows "conn_inv c" "quiet c"
proof -
  note i = TcpConnection_inv[OF assms(1), of fd]
  have "conn_inv c \<and> progress (TcpConnection fd tr) c"
    by (rule goodD[OF tcp_run_good[OF exec_at_ok] conjunct1[OF i] assms(2)])
  then show "conn_inv c" "quiet c" using i by (simp_all add: progress_def)
qed

section \<open>Properties\<close>

text \<open>The conclusions that the properties state, from the invariant.\<close>

lemma inv_flow:
  assumes "conn_inv c" "quiet c" "\<not> ssl (c_tr c)" "c_state c \<noteq> kDisconnected"
  shows "isWriting (c_chan c) \<longleftrightarrow> content (outputBuffer c) \<noteq> []"
    and "writeWaiter (c_reg c) = Some w \<Longrightarrow> aw_phase (waiters (c_reg c) w) = Pending \<Longrightarrow> content (outputBuffer c) \<noteq> []"
proof -
  show w: "isWriting (c_chan c) \<longleftrightarrow> content (outputBuffer c) \<noteq> []"
    using assms by (auto simp: cinv_def chan_inv_def quiet_def)
  show "writeWaiter (c_reg c) = Some w \<Longrightarrow> aw_phase (waiters (c_reg c) w) = Pending \<Longrightarrow> content (outputBuffer c) \<noteq> []"
    using assms w by (auto simp: cinv_def slot_write_def phase_of_def)
qed

definition demo_net :: transport where
  "demo_net = \<lparr>built_tls = True, ssl = False, tlsContext = False, tlsState = kTlsNone, write_answers = [Inr 3], read_answers = [],
     ssl_write_answers = [], ssl_read_answers = [], handshake_answers = [(False, SSL_ERROR_WANT_READ, 0), (True, 0, 0)],
     wire = [], fins = 0, ssl_shutdowns = 0, ssl_allocated = 0\<rparr>"

definition demo_evs :: "conn_event list" where
  "demo_evs = [EvEstablish, EvApi True (ASend [1, 2, 3]), EvApi False AShutdown, EvTask, EvClose]"

lemma Buffer_empty [simp]: "readableBytes Buffer = 0"
  using readable_content[OF Buffer_ok] content_Buffer by simp

lemma fresh_channel [simp]:
  "isWriting (Channel fd) = False" "isReading (Channel fd) = False" "ch_fd (Channel fd) = fd"
  by (simp_all add: Channel_def isWriting_def isReading_def mask_bits)

lemma callbacks_channel [simp]:
  "isWriting (setErrorCallback x ch) = isWriting ch" "isWriting (setCloseCallback x ch) = isWriting ch"
  "isWriting (setWriteCallback x ch) = isWriting ch" "isWriting (setReadCallback x ch) = isWriting ch" "isWriting (tie n ch) = isWriting ch"
  "ch_fd (setErrorCallback x ch) = ch_fd ch" "ch_fd (setCloseCallback x ch) = ch_fd ch"
  "ch_fd (setWriteCallback x ch) = ch_fd ch" "ch_fd (setReadCallback x ch) = ch_fd ch"
  by (simp_all add: setErrorCallback_def setCloseCallback_def setWriteCallback_def setReadCallback_def tie_def isWriting_def)

lemmas tcp_eval = TcpConnection_def ConnectionCallbackDispatcher_def ConnectionBackpressureController_def Let_def
  connectEstablished_def onConnectionEstablished_def bp_apply_def bp_result_of_def handshakePending_def notifyConnected_def
  send_def sendInLoop_def writeRaw_def sys_write_def io_ok_def finishPendingWrite_def queueWriteComplete_def
  shutdown_def shutdownInLoop_def queueFunctor_def reg_queueInLoop_def run_task_def resumeWriteWaiterIfNeeded_def
  transport_shutdownWrite_def handleClose_def runCloseSequence_def notifyDisconnected_def notifyClose_def
  ConnectionAwaiterRegistry_def queueResume_def resumeAllOnClose_def closed_conn_def

lemma demo_run:
  "\<exists>c. tcp_run (exec_at (\<lambda>n c. []) 2) demo_evs (TcpConnection 5 demo_net) = Inr c \<and> wire (c_tr c) = [1, 2, 3] \<and>
     fins (c_tr c) = 1 \<and> c_state c = kDisconnected \<and> \<not> ssl (c_tr c)"
  by (simp add: demo_evs_def demo_net_def tcp_eval)

text \<open>C2. No byte handed to a connection is lost, duplicated or reordered: in every run, with any user code in
  the callbacks and any behaviour of the network, on a plain or a TLS transport, the bytes handed to the
  network followed by the bytes in the output buffer are the bytes that \<open>sendInLoop\<close> took over, in order; and no
  step takes back what was handed to the network.\<close>

theorem conn_stream_integrity:
  assumes "wire tr = []" "tcp_run (exec_at user k) evs (TcpConnection fd tr) = Inr c"
  shows "accepted c = wire (c_tr c) @ content (outputBuffer c) \<and>
    (\<forall>ev c'. tcp_step (exec_at user k) ev c = Inr c' \<longrightarrow>
       (\<exists>x. wire (c_tr c') = wire (c_tr c) @ x) \<and> (\<exists>x. accepted c' = accepted c @ x))"
proof (intro conjI allI impI)
  note i = reachable_inv[OF assms]
  show "accepted c = wire (c_tr c) @ content (outputBuffer c)" using i(1) by (simp add: cinv_def)
  fix ev c' assume "tcp_step (exec_at user k) ev c = Inr c'"
  from goodD[OF tcp_step_good[OF exec_at_ok] i(1) this]
  show "\<exists>x. wire (c_tr c') = wire (c_tr c) @ x" "\<exists>x. accepted c' = accepted c @ x" by (simp_all add: progress_def)
qed

theorem conn_stream_integrity_witness:
  "\<exists>c. tcp_run (exec_at (\<lambda>n c. []) 2) demo_evs (TcpConnection 5 demo_net) = Inr c \<and>
     [1, 2, 3] @ content (outputBuffer c) = accepted c"
proof -
  obtain c where c: "tcp_run (exec_at (\<lambda>n c. []) 2) demo_evs (TcpConnection 5 demo_net) = Inr c" "wire (c_tr c) = [1, 2, 3]"
    using demo_run by blast
  have "wire demo_net = []" by (simp add: demo_net_def)
  from conn_stream_integrity[OF this c(1)] c show ?thesis by auto
qed

text \<open>C31. Flow control of a plain connection, between any two events: while it is not closed the channel asks for
  writability exactly when bytes wait in the output buffer, a coroutine waits for a write only while bytes wait
  (so it cannot hang), and reading is paused and resumed by the thresholds on the bytes that really wait; when it
  is closed the channel asks for nothing.\<close>

theorem conn_flow_control:
  assumes "wire tr = []" "tcp_run (exec_at user k) evs (TcpConnection fd tr) = Inr c" "\<not> ssl (c_tr c)"
  shows "(c_state c = kDisconnected \<longrightarrow> ch_events (c_chan c) = kNoneEvent) \<and>
    (c_state c \<noteq> kDisconnected \<longrightarrow>
      (isWriting (c_chan c) \<longleftrightarrow> content (outputBuffer c) \<noteq> []) \<and>
      (\<forall>w. writeWaiter (c_reg c) = Some w \<and> aw_phase (waiters (c_reg c) w) = Pending \<longrightarrow> content (outputBuffer c) \<noteq> [])) \<and>
    bp_inv (length (content (outputBuffer c))) (c_chan c) (c_bp c) \<and>
    (bp_active (c_bp c) \<longleftrightarrow> c_state c = kConnected \<or> c_state c = kDisconnecting)"
proof -
  note i = reachable_inv[OF assms(1,2)]
  have "ch_events (c_chan c) = kNoneEvent" if "c_state c = kDisconnected"
    using i(1) assms(3) that by (simp add: cinv_def chan_inv_def)
  moreover have "bp_inv (length (content (outputBuffer c))) (c_chan c) (c_bp c)"
    using i(1) assms(3) length_content[OF cinv_parts(5)[OF i(1)]] by (simp add: cinv_def bp_full_def)
  moreover have "bp_active (c_bp c) \<longleftrightarrow> c_state c = kConnected \<or> c_state c = kDisconnecting"
    using i(1) by (simp add: cinv_def bp_weak_def)
  ultimately show ?thesis using inv_flow[OF i assms(3)] by blast
qed

theorem conn_flow_control_witness:
  "\<exists>c. tcp_run (exec_at (\<lambda>n c. []) 2) demo_evs (TcpConnection 5 demo_net) = Inr c \<and> ch_events (c_chan c) = kNoneEvent"
proof -
  obtain c where c: "tcp_run (exec_at (\<lambda>n c. []) 2) demo_evs (TcpConnection 5 demo_net) = Inr c" "c_state c = kDisconnected" "\<not> ssl (c_tr c)"
    using demo_run by blast
  have "wire demo_net = []" by (simp add: demo_net_def)
  from conn_flow_control[OF this c(1,3)] c show ?thesis by blast
qed

text \<open>C3. A connection closes once: the disconnect notification and the close callback each run at most once, not
  before the connection is closed, and no later event, re-entrant call or stale functor runs them again or leaves the
  closed state. After the close no coroutine is left waiting: a waiter still pending is one whose arming functor is
  queued.\<close>

theorem conn_closes_once:
  assumes "wire tr = []" "tcp_run (exec_at user k) evs (TcpConnection fd tr) = Inr c" "tcp_step (exec_at user k) ev c = Inr c'"
  shows "count_list (called c) NDisconnected \<le> 1 \<and> count_list (called c) NClose \<le> 1 \<and>
    (c_state c \<noteq> kDisconnected \<longrightarrow> NDisconnected \<notin> set (called c) \<and> NClose \<notin> set (called c)) \<and>
    rank (c_state c) \<le> rank (c_state c') \<and>
    (c_state c = kDisconnected \<longrightarrow> closings c' = closings c \<and>
      (\<forall>w. aw_phase (waiters (c_reg c) w) = Pending \<longrightarrow> arm_queued w (c_reg c)))"
proof -
  note i = reachable_inv[OF assms(1,2)]
  have p: "progress c c'" using goodD[OF tcp_step_good[OF exec_at_ok] i(1) assms(3)] by simp
  have "notes_inv (c_state c) (called c)" "slots_inv {} (c_state c) (c_reg c)" using i(1) by (simp_all add: cinv_def)
  then show ?thesis using p unfolding notes_inv_def slots_inv_def progress_def phase_of_def by blast
qed

theorem conn_closes_once_witness:
  "\<exists>c c'. tcp_run (exec_at (\<lambda>n c. []) 2) demo_evs (TcpConnection 5 demo_net) = Inr c \<and>
     tcp_step (exec_at (\<lambda>n c. []) 2) EvClose c = Inr c' \<and> closings c' = closings c"
proof -
  obtain c where c: "tcp_run (exec_at (\<lambda>n c. []) 2) demo_evs (TcpConnection 5 demo_net) = Inr c" "c_state c = kDisconnected"
    using demo_run by blast
  have s: "tcp_step (exec_at (\<lambda>n c. []) 2) EvClose c = Inr c" using c(2) by (simp add: handleClose_def)
  have "wire demo_net = []" by (simp add: demo_net_def)
  from conn_closes_once[OF this c(1) s] c s show ?thesis by blast
qed

lemma plain_write_all:
  assumes ok: "buffer_ok b" and ne: "content b \<noteq> []" and t: "\<not> ssl t" "write_answers t = Inr n # as" "length (content b) \<le> n"
  shows "writeFromBuffer b ch t = Inr (io_ok (length (content b)), retrieve (length (content b)) b, ch,
     t\<lparr>write_answers := as, wire := wire t @ content b\<rparr>)"
  using t ne buffer_mem_read[OF ok]
  by (simp add: writeFromBuffer_def plainWriteFromBuffer_def writeFd_def sys_write_def Let_def min_def)

lemma no_hook_apply:
  assumes "\<not> bp_hook (c_bp c)"
  shows "\<exists>ch bp. applyBackpressurePolicy exec c = Inr (c\<lparr>c_chan := ch, c_bp := bp\<rparr>)"
proof -
  obtain ch bp ev where r: "onBufferedBytesChanged (readableBytes (outputBuffer c)) (c_chan c) (c_bp c) = (ch, bp, ev)"
    by (metis surj_pair)
  then have "ev = None" using assms by (auto simp: onBufferedBytesChanged_def bp_apply_def bp_fire_def split: if_splits)
  then have "applyBackpressurePolicy exec c = Inr (c\<lparr>c_chan := ch, c_bp := bp\<rparr>)"
    by (simp add: applyBackpressurePolicy_def bp_result_of_def r)
  then show ?thesis by blast
qed

lemma finish_disconnecting:
  assumes "c_state c = kDisconnecting" "\<not> isWriting (c_chan c)"
  shows "c_tr (finishPendingWrite c) = transport_shutdownWrite (c_tr c)"
    "outputBuffer (finishPendingWrite c) = outputBuffer c" "accepted (finishPendingWrite c) = accepted c"
  using assms by (simp_all add: finishPendingWrite_def shutdownInLoop_def queueWriteComplete_def queueFunctor_def Let_def)

lemma fins_shutdown [simp]: "fins (transport_shutdownWrite t) = fins t + 1"
  by (simp add: transport_shutdownWrite_def Let_def)

lemma finish_outcome:
  assumes "rank kDisconnecting \<le> rank (c_state d)" "\<not> isWriting (c_chan d)"
  shows "wire (c_tr (finishPendingWrite d)) = wire (c_tr d) \<and>
    (0 < fins (c_tr (finishPendingWrite d)) \<or> c_state (finishPendingWrite d) = kDisconnected)"
  using assms by (cases "c_state d")
    (simp_all add: finishPendingWrite_def shutdownInLoop_def queueWriteComplete_def queueFunctor_def transport_shutdownWrite_def Let_def)

text \<open>The write event that takes every waiting byte, with any user code in the backpressure hook.\<close>

lemma drain_any_hook:
  assumes e: "exec_ok exec" and c: "conn_inv c" "\<not> ssl (c_tr c)" "c_state c = kDisconnecting" "isWriting (c_chan c)"
    and ne: "content (outputBuffer c) \<noteq> []" and a: "write_answers (c_tr c) = Inr n # as" "length (content (outputBuffer c)) \<le> n"
    and r: "handleWrite exec c = Inr c'"
  shows "(\<exists>x. wire (c_tr c') = wire (c_tr c) @ content (outputBuffer c) @ x) \<and>
    (0 < fins (c_tr c') \<or> content (outputBuffer c') \<noteq> [] \<or> c_state c' = kDisconnected)"
proof -
  let ?t = "(c_tr c)\<lparr>write_answers := as, wire := wire (c_tr c) @ content (outputBuffer c)\<rparr>"
  let ?b = "retrieve (length (content (outputBuffer c))) (outputBuffer c)"
  let ?c = "c\<lparr>outputBuffer := ?b, c_chan := c_chan c, c_tr := ?t\<rparr>"
  have b: "buffer_ok (outputBuffer c)" using c(1) by (simp add: cinv_def)
  note w = plain_write_all[OF b ne c(2) a, of "c_chan c"]
  note ok = writeFromBuffer_ok[OF w b]
  have i: "cinv {} True False ?c"
    using c(1,4) ok by (auto simp: cinv_def same_mode_def slot_write_def chan_inv_def bp_weak_def)
  obtain d where d: "applyBackpressurePolicy exec ?c = Inr d"
    and c': "c' = (if readableBytes (outputBuffer d) = 0 then finishPendingWrite (d\<lparr>c_chan := ch_disableWriting (c_chan d)\<rparr>) else d)"
    using r w c(2,4) by (auto simp: handleWrite_def handshakePending_def io_ok_def Let_def bind_res_Inr)
  have i1: "conn_inv d \<and> progress ?c d" by (rule applyBackpressurePolicy_ok[OF e i d])
  then obtain x where x: "wire (c_tr d) = wire (c_tr c) @ content (outputBuffer c) @ x" by (auto simp: progress_def)
  have rk: "rank kDisconnecting \<le> rank (c_state d)" using i1 c(3) by (simp add: progress_def)
  show ?thesis
  proof (cases "readableBytes (outputBuffer d) = 0")
    case True
    then show ?thesis using c' x rk finish_outcome[of "d\<lparr>c_chan := ch_disableWriting (c_chan d)\<rparr>"] by auto
  next
    case False
    then have "content (outputBuffer d) \<noteq> []" using inv_readable[OF conjunct1[OF i1]] by simp
    then show ?thesis using c' False x by auto
  qed
qed

text \<open>C32. Graceful shutdown of a plain connection: \<open>shutdownInLoop\<close> half-closes the socket exactly when no byte
  waits, and then every accepted byte is on the wire; otherwise it does nothing. The write event that drains the
  buffer of a connection in \<open>kDisconnecting\<close> puts all accepted bytes on the wire, whatever the backpressure hook does during
  the event; without a hook it then half-closes the socket. With one, the socket is half-closed unless the hook closed
  the connection or wrote more (by awaiting a write), and then bytes wait again.\<close>

theorem graceful_shutdown:
  assumes "wire tr = []" "tcp_run (exec_at user k) evs (TcpConnection fd tr) = Inr c" "\<not> ssl (c_tr c)" "c_state c = kDisconnecting"
  shows "(content (outputBuffer c) = [] \<longrightarrow> fins (c_tr (shutdownInLoop c)) = fins (c_tr c) + 1 \<and> wire (c_tr c) = accepted c) \<and>
    (content (outputBuffer c) \<noteq> [] \<longrightarrow> shutdownInLoop c = c \<and>
      (\<forall>n as. write_answers (c_tr c) = Inr n # as \<and> length (content (outputBuffer c)) \<le> n \<longrightarrow>
        (\<not> bp_hook (c_bp c) \<longrightarrow>
          (\<exists>c'. handleWrite (exec_at user k) c = Inr c' \<and> wire (c_tr c') = accepted c \<and> content (outputBuffer c') = [] \<and>
             fins (c_tr c') = fins (c_tr c) + 1)) \<and>
        (\<forall>c'. handleWrite (exec_at user k) c = Inr c' \<longrightarrow>
          (\<exists>x. wire (c_tr c') = accepted c @ x) \<and>
          (0 < fins (c_tr c') \<or> content (outputBuffer c') \<noteq> [] \<or> c_state c' = kDisconnected))))"
proof -
  note i = reachable_inv[OF assms(1,2)]
  have live: "c_state c \<noteq> kDisconnected" using assms(4) by simp
  have w: "isWriting (c_chan c) \<longleftrightarrow> content (outputBuffer c) \<noteq> []" by (rule inv_flow(1)[OF i assms(3) live])
  have acc: "accepted c = wire (c_tr c) @ content (outputBuffer c)" using i(1) by (simp add: cinv_def)
  have drain: "\<exists>c'. handleWrite (exec_at user k) c = Inr c' \<and> wire (c_tr c') = accepted c \<and> content (outputBuffer c') = [] \<and>
      fins (c_tr c') = fins (c_tr c) + 1"
    if ne: "content (outputBuffer c) \<noteq> []" and a: "write_answers (c_tr c) = Inr n # as" "length (content (outputBuffer c)) \<le> n"
      and h: "\<not> bp_hook (c_bp c)" for n as
  proof -
    let ?t = "(c_tr c)\<lparr>write_answers := as, wire := wire (c_tr c) @ content (outputBuffer c)\<rparr>"
    let ?b = "retrieve (length (content (outputBuffer c))) (outputBuffer c)"
    let ?c = "c\<lparr>outputBuffer := ?b, c_chan := c_chan c, c_tr := ?t\<rparr>"
    note b = cinv_parts(5)[OF i(1)]
    have e: "content ?b = []" "readableBytes ?b = 0" using retrieve_ok[OF b] readable_content by simp_all
    have nh: "\<not> bp_hook (c_bp ?c)" using h by simp
    obtain ch bp where p: "applyBackpressurePolicy (exec_at user k) ?c = Inr (?c\<lparr>c_chan := ch, c_bp := bp\<rparr>)"
      using no_hook_apply[OF nh] by blast
    let ?d = "?c\<lparr>c_bp := bp, c_chan := ch_disableWriting ch\<rparr>"
    have "handleWrite (exec_at user k) c = Inr (finishPendingWrite ?d)"
      using plain_write_all[OF b ne assms(3) a, of "c_chan c"] p e(2) w ne assms(3)
      by (simp add: handleWrite_def handshakePending_def io_ok_def)
    moreover note finish_disconnecting[of ?d]
    ultimately show ?thesis using assms(4) e(1) acc by auto
  qed
  have any: "(\<exists>x. wire (c_tr c') = accepted c @ x) \<and> (0 < fins (c_tr c') \<or> content (outputBuffer c') \<noteq> [] \<or> c_state c' = kDisconnected)"
    if "content (outputBuffer c) \<noteq> []" "write_answers (c_tr c) = Inr n # as" "length (content (outputBuffer c)) \<le> n"
      "handleWrite (exec_at user k) c = Inr c'" for n as c'
    using drain_any_hook[OF exec_at_ok i(1) assms(3,4) _ that] w that(1) acc by simp
  show ?thesis using w acc drain any by (auto simp: shutdownInLoop_def)
qed

theorem graceful_shutdown_witness:
  "\<exists>c. tcp_run (exec_at (\<lambda>n c. []) 2) [EvEstablish, EvApi True (ASend [1, 2, 3]), EvApi False AShutdown] (TcpConnection 5 demo_net) = Inr c \<and>
     fins (c_tr (shutdownInLoop c)) = 1 \<and> accepted c = [1, 2, 3]"
proof -
  obtain c where c: "tcp_run (exec_at (\<lambda>n c. []) 2) [EvEstablish, EvApi True (ASend [1, 2, 3]), EvApi False AShutdown] (TcpConnection 5 demo_net) = Inr c"
    "\<not> ssl (c_tr c)" "c_state c = kDisconnecting" "outputBuffer c = Buffer" "fins (c_tr c) = 0" "wire (c_tr c) = [1, 2, 3]"
    by (simp add: demo_net_def tcp_eval)
  have "wire demo_net = []" by (simp add: demo_net_def)
  from graceful_shutdown[OF this c(1,2,3)] c show ?thesis by (auto simp: content_Buffer)
qed

text \<open>C33. On a TLS transport that guarantee fails for bytes sent before the handshake has finished: they are accepted
  and buffered (the state is already \<open>kConnected\<close>), but completing the handshake disables writing without flushing,
  so the channel never asks for writability, and a shutdown half-closes the socket with the bytes still in the
  buffer.\<close>

theorem tls_handshake_strands_data:
  assumes "built_tls tr" "\<not> ssl tr" "wire tr = []" "ssl_write_answers tr = []" "fd \<le> INT_MAX" "fins tr = 0"
    and "handshake_answers tr = [(False, SSL_ERROR_WANT_READ, 0), (True, 0, 0)]" "data \<noteq> []" "length data \<le> kInitialSize"
  shows "\<exists>c. tcp_run (exec_at user 0) [EvStartTls True, EvEstablish, EvApi True (ASend data), EvRead] (TcpConnection fd tr) = Inr c \<and>
     c_state c = kConnected \<and> isTlsEstablished (c_tr c) \<and> content (outputBuffer c) = data \<and> \<not> isWriting (c_chan c) \<and>
     wire (c_tr (shutdown True c)) = [] \<and> fins (c_tr (shutdown True c)) = 1"
proof -
  have "fits (length data) Buffer" using assms(9) by (simp add: fits_def Buffer_def kCheapPrepend_def kInitialSize_def VEC_MAX_def)
  then obtain b where b: "append_buf data Buffer = Inr b" "content b = data"
    using append_buf_ok[OF Buffer_ok] content_Buffer by (metis append_Nil)
  show ?thesis using assms(1-8) b
    by (simp add: tcp_eval startTls_def enableTls_def resetTls_def advanceTransportHandshake_def advanceHandshake_def hs_again_def
        hs_done_def sslWriteRaw_def SSL_write_def SSL_ERROR_WANT_WRITE_def io_would_block_def send_rest_def queueHighWaterMark_def
        applyBackpressurePolicy_def onBufferedBytesChanged_def handleRead_def isTlsEstablished_def)
qed

theorem tls_handshake_strands_data_witness:
  "\<exists>c. tcp_run (exec_at (\<lambda>n c. []) 0) [EvStartTls True, EvEstablish, EvApi True (ASend [7]), EvRead] (TcpConnection 5 demo_net) = Inr c \<and>
     content (outputBuffer c) = [7] \<and> \<not> isWriting (c_chan c)"
proof -
  have "built_tls demo_net" "\<not> ssl demo_net" "wire demo_net = []" "ssl_write_answers demo_net = []" "(5 :: int) \<le> INT_MAX"
    "fins demo_net = 0" "handshake_answers demo_net = [(False, SSL_ERROR_WANT_READ, 0), (True, 0, 0)]" "[7 :: byte] \<noteq> []"
    "length [7 :: byte] \<le> kInitialSize"
    by (simp_all add: demo_net_def INT_MAX_def kInitialSize_def)
  from tls_handshake_strands_data[OF this, of "\<lambda>n c. []"] show ?thesis by blast
qed

end
