(* ===== verification/Tcp_Client_Proofs.thy ===== *)
theory Tcp_Client_Proofs
  imports Tcp_Client Tcp_Connection_Proofs
begin

text \<open>
  The invariant of a client and its properties. \<open>link_inv\<close> relates the phase of the client to its connectors, \<open>obj_inv\<close> its
  connection objects to the member \<open>connection_\<close> and the queued functors, \<open>fd_inv\<close> accounts for descriptors. While a connector
  runs its callbacks (\<open>running\<close>), \<open>w\<close> is its state with the calls made so far applied.
\<close>

section \<open>Connectors and phases\<close>

definition matches :: "connectPhase \<Rightarrow> connector \<Rightarrow> bool \<Rightarrow> bool" where
  "matches ph w advance \<longleftrightarrow>
     (ph = Ph_Idle \<or> ph = Ph_Connected \<longrightarrow> cphase_of w = CIdle \<or> cphase_of w = Connected) \<and>
     (ph = Ph_Connecting \<longrightarrow>
        cphase_of w \<in> {StartQueued, Connecting, RetryWaiting} \<or> cphase_of w = CIdle \<and> advance) \<and>
     (advance \<longrightarrow> cphase_of w = CIdle \<and> ph \<noteq> Ph_Connected)"

text \<open>A connector that waits for its start has the functor queued.\<close>

definition queued :: "connector \<Rightarrow> bool" where
  "queued w \<longleftrightarrow> (cphase_of w = StartQueued \<longrightarrow> QStart (generation w) \<in> set (ctasks w))"

definition ready :: "connector \<Rightarrow> bool" where
  "ready w \<longleftrightarrow> Connector_Model.cinv {} w \<and> queued w"

definition attempts_inv :: "nat option \<Rightarrow> nat option \<Rightarrow> attempt list \<Rightarrow> bool" where
  "attempts_inv run cur as \<longleftrightarrow>
     (\<forall>a < length as. run \<noteq> Some a \<longrightarrow>
        ready (at_conn (as ! a)) \<and> (cur \<noteq> Some a \<longrightarrow> cphase_of (at_conn (as ! a)) = CIdle))"

definition resolve_inv :: "connectPhase \<Rightarrow> nat \<Rightarrow> nat list \<Rightarrow> bool" where
  "resolve_inv ph gen rs \<longleftrightarrow> (ph = Ph_Resolving \<longleftrightarrow> gen \<in> set rs) \<and> distinct rs \<and> (\<forall>g \<in> set rs. g \<le> gen)"

definition phase_inv :: "client \<Rightarrow> bool" where
  "phase_inv s \<longleftrightarrow>
     (cl_lifetime s \<longrightarrow> (cl_phase s = Ph_Connected \<longleftrightarrow> cl_connection s \<noteq> None)) \<and>
     (cl_phase s = Ph_Resolving \<longrightarrow> cl_connector s = None \<and> cl_connect s) \<and> resolve_inv (cl_phase s) (cl_gen s) (resolving s) \<and>
     (cl_phase s = Ph_Connecting \<longrightarrow> cl_connector s \<noteq> None) \<and> (cl_connector s = None \<or> cl_connect s \<and> cl_lifetime s) \<and>
     (cl_lifetime s \<or> cl_phase s = Ph_Idle \<or> cl_phase s = Ph_Connected) \<and>
     options_validate (connectorOptions s) = Inr () \<and> \<not> cl_threw s \<and> nextCandidate s \<le> length (candidates s)"

definition current_inv :: "client \<Rightarrow> bool" where
  "current_inv s \<longleftrightarrow> (\<forall>a. cl_connector s = Some a \<longrightarrow> a < length (attempts s) \<and> at_gen (attempts s ! a) = cl_gen s \<and>
     (running s \<noteq> Some a \<longrightarrow> matches (cl_phase s) (at_conn (attempts s ! a)) (QAdvance (cl_gen s) a \<in> set (cl_tasks s)) \<and>
        (fixedAddress s = None \<longrightarrow> \<not> retryEnabled (at_conn (attempts s ! a)))))"

text \<open>The attempts that the queued advances were made for.\<close>

definition advance_inv :: "nat \<Rightarrow> cltask list \<Rightarrow> bool" where
  "advance_inv k ts \<longleftrightarrow> (\<forall>g a. QAdvance g a \<in> set ts \<longrightarrow> a < k)"

lemma advance_mono: "advance_inv k ts \<Longrightarrow> k \<le> l \<Longrightarrow> \<forall>g a. QAdvance g a \<in> set us \<longrightarrow> QAdvance g a \<in> set ts \<Longrightarrow> advance_inv l us"
  unfolding advance_inv_def by (meson less_le_trans)

definition running_inv :: "connector \<Rightarrow> client \<Rightarrow> bool" where
  "running_inv w s \<longleftrightarrow> (\<forall>a. running s = Some a \<longrightarrow> a < length (attempts s) \<and> (cl_connector s \<noteq> Some a \<longrightarrow> cphase_of w = CIdle))"

definition link_inv :: "connector \<Rightarrow> client \<Rightarrow> bool" where
  "link_inv w s \<longleftrightarrow> attempts_inv (running s) (cl_connector s) (attempts s) \<and> phase_inv s \<and> current_inv s \<and> running_inv w s \<and>
     advance_inv (length (attempts s)) (cl_tasks s)"

lemma resolve_next: "resolve_inv ph gen rs \<Longrightarrow> ph' \<noteq> Ph_Resolving \<Longrightarrow> resolve_inv ph' (Suc gen) rs"
  by (auto simp: resolve_inv_def)

lemma resolve_other: "resolve_inv ph gen rs \<Longrightarrow> ph \<noteq> Ph_Resolving \<Longrightarrow> ph' \<noteq> Ph_Resolving \<Longrightarrow> resolve_inv ph' gen rs"
  by (simp add: resolve_inv_def)

lemma resolve_asked: "resolve_inv ph gen rs \<Longrightarrow> ph \<noteq> Ph_Resolving \<Longrightarrow> resolve_inv Ph_Resolving gen (rs @ [gen])"
  by (auto simp: resolve_inv_def)

lemma phase_next: "phase_inv s \<Longrightarrow> ph' \<noteq> Ph_Resolving \<Longrightarrow> resolve_inv ph' (Suc (cl_gen s)) (resolving s)"
  using resolve_next unfolding phase_inv_def by blast

lemma link_invD:
  assumes "link_inv w s"
  shows "attempts_inv (running s) (cl_connector s) (attempts s)" "phase_inv s" "current_inv s" "running_inv w s"
    "advance_inv (length (attempts s)) (cl_tasks s)"
  using assms by (simp_all add: link_inv_def)

text \<open>The state of the running connector after the calls of an operation on the client.\<close>

definition after_calls :: "client \<Rightarrow> client \<Rightarrow> connector \<Rightarrow> connector" where
  "after_calls s s' w = fold do_cop (drop (length (cops s)) (cops s')) w"

definition older :: "attempt \<Rightarrow> attempt \<Rightarrow> bool" where
  "older x y \<longleftrightarrow> at_gen y = at_gen x \<and> openFds (at_conn y) \<subseteq> openFds (at_conn x)"

definition grown :: "attempt list \<Rightarrow> attempt list \<Rightarrow> bool" where
  "grown as as' \<longleftrightarrow> (\<exists>bs cs. as' = bs @ cs \<and> list_all2 older as bs \<and> (\<forall>x \<in> set cs. openFds (at_conn x) = {}))"

definition extends :: "client \<Rightarrow> client \<Rightarrow> bool" where
  "extends s s' \<longleftrightarrow> (\<exists>k. cops s' = cops s @ replicate k OpStop) \<and> running s' = running s \<and> grown (attempts s) (attempts s')"

lemma older_refl [simp]: "older x x"
  by (simp add: older_def)

lemma grown_new: "\<forall>x \<in> set cs. openFds (at_conn x) = {} \<Longrightarrow> grown as (as @ cs)"
  unfolding grown_def by (intro exI[of _ as] exI[of _ cs]) (simp add: list_all2_refl)

lemma grown_refl [simp]: "grown as as"
  using grown_new[of "[]" as] by simp

lemma grown_older: "list_all2 older as bs \<Longrightarrow> grown as bs"
  unfolding grown_def by (intro exI[of _ bs] exI[of _ "[]"]) simp

lemma older_empty: "list_all2 older as bs \<Longrightarrow> \<forall>x \<in> set as. openFds (at_conn x) = {} \<Longrightarrow> \<forall>x \<in> set bs. openFds (at_conn x) = {}"
  unfolding older_def by (induction rule: list_all2_induct) (simp, metis list.set_intros set_ConsD subset_empty)

lemma grown_trans:
  assumes "grown as bs" "grown bs cs"
  shows "grown as cs"
proof -
  obtain b1 b2 where b: "bs = b1 @ b2" "list_all2 older as b1" "\<forall>x \<in> set b2. openFds (at_conn x) = {}"
    using assms(1) unfolding grown_def by blast
  obtain c1 c2 where c: "cs = c1 @ c2" "list_all2 older bs c1" "\<forall>x \<in> set c2. openFds (at_conn x) = {}"
    using assms(2) unfolding grown_def by blast
  obtain d1 d2 where d: "c1 = d1 @ d2" "list_all2 older b1 d1" "list_all2 older b2 d2"
    using c(2) b(1) by (auto simp: list_all2_append1)
  have "list_all2 older as d1" by (rule list_all2_trans[OF _ b(2) d(2)]) (auto simp: older_def)
  moreover have "\<forall>x \<in> set d2. openFds (at_conn x) = {}" by (rule older_empty[OF d(3) b(3)])
  ultimately show ?thesis unfolding grown_def using c(1,3) d(1) by (intro exI[of _ d1] exI[of _ "d2 @ c2"]) auto
qed

lemma grown_nth: "grown as bs \<Longrightarrow> a < length as \<Longrightarrow> a < length bs \<and> older (as ! a) (bs ! a)"
  by (auto simp: grown_def nth_append list_all2_conv_all_nth)

lemma grown_beyond: "grown as bs \<Longrightarrow> length as \<le> a \<Longrightarrow> a < length bs \<Longrightarrow> openFds (at_conn (bs ! a)) = {}"
  by (auto simp: grown_def nth_append list_all2_conv_all_nth)

lemma extends_refl [simp]: "extends s s"
  by (auto simp: extends_def intro!: exI[of _ 0])

lemma extends_trans:
  assumes "extends s t" "extends t u"
  shows "extends s u"
proof -
  have "\<exists>k. cops u = cops s @ replicate k OpStop"
    using assms unfolding extends_def by (metis append_assoc replicate_add)
  then show ?thesis using assms grown_trans unfolding extends_def by metis
qed

lemma extends_gen: "extends s t \<Longrightarrow> a < length (attempts s) \<Longrightarrow> a < length (attempts t) \<and> at_gen (attempts t ! a) = at_gen (attempts s ! a)"
  using grown_nth by (auto simp: extends_def older_def)

lemma after_calls_trans:
  assumes "extends s t" "extends t u"
  shows "after_calls s u w = after_calls t u (after_calls s t w)"
proof -
  obtain cs ds where "cops t = cops s @ cs" "cops u = cops t @ ds" using assms unfolding extends_def by blast
  then show ?thesis by (simp add: after_calls_def)
qed

lemma after_calls_same [simp]: "cops t = cops s \<Longrightarrow> after_calls s t w = w"
  by (simp add: after_calls_def)

lemma nth_update_if: "xs[i := x] ! j = (if i = j \<and> i < length xs then x else xs ! j)"
  by (cases "i < length xs") (simp_all add: nth_list_update list_update_beyond)

lemma stop_idle [simp]: "cphase_of (Connector_Model.stop w) = CIdle"
  by (simp add: Connector_Model.stop_def Let_def removeAndResetChannel_def Connector_Model.queueInLoop_def sockets_close_def split: option.split)

lemma stop_fds: "openFds (Connector_Model.stop w) \<subseteq> openFds w"
  by (auto simp: Connector_Model.stop_def Let_def removeAndResetChannel_def Connector_Model.queueInLoop_def sockets_close_def split: option.split)

text \<open>\<open>stop_previous\<close>: afterwards no connector is current, and the former one is idle.\<close>

lemma stop_previous_fields [simp]:
  "cl_connector (stop_previous s) = None" "running (stop_previous s) = running s" "cl_phase (stop_previous s) = cl_phase s"
  "cl_gen (stop_previous s) = cl_gen s" "cl_connect (stop_previous s) = cl_connect s" "cl_lifetime (stop_previous s) = cl_lifetime s"
  "fixedAddress (stop_previous s) = fixedAddress s" "connectorOptions (stop_previous s) = connectorOptions s"
  "candidates (stop_previous s) = candidates s" "nextCandidate (stop_previous s) = nextCandidate s"
  "cl_connection (stop_previous s) = cl_connection s" "cl_objects (stop_previous s) = cl_objects s" "cl_tasks (stop_previous s) = cl_tasks s"
  "resolving (stop_previous s) = resolving s" "cl_threw (stop_previous s) = cl_threw s" "cl_assert (stop_previous s) = cl_assert s"
  "cl_retry (stop_previous s) = cl_retry s" "cl_destroyed (stop_previous s) = cl_destroyed s" "openFds (stop_previous s) = openFds s"
  "badClose (stop_previous s) = badClose s" "length (attempts (stop_previous s)) = length (attempts s)"
  by (simp_all add: stop_previous_def call_connector_def split: option.split)

lemma stop_previous_extends: "extends s (stop_previous s)"
proof (cases "cl_connector s")
  case (Some a)
  show ?thesis
  proof (cases "running s = Some a")
    case False
    let ?as = "(attempts s)[a := (attempts s ! a)\<lparr>at_conn := do_cop OpStop (at_conn (attempts s ! a))\<rparr>]"
    have "attempts (stop_previous s) = ?as" "cops (stop_previous s) = cops s" using Some False by (simp_all add: stop_previous_def call_connector_def)
    moreover have "list_all2 older (attempts s) ?as" by (simp add: list_all2_conv_all_nth nth_update_if older_def stop_fds)
    ultimately show ?thesis
      unfolding extends_def by (intro conjI exI[of _ 0]) (simp_all add: grown_older)
  qed (use Some in \<open>auto simp: stop_previous_def call_connector_def extends_def intro!: exI[of _ 1]\<close>)
qed (simp add: stop_previous_def)

lemma stop_previous_attempts:
  assumes "attempts_inv (running s) (cl_connector s) (attempts s)"
  shows "attempts_inv (running s) None (attempts (stop_previous s))"
proof (cases "cl_connector s")
  case (Some a)
  have i: "ready w \<Longrightarrow> ready (Connector_Model.stop w)" for w
    using Connector_Model.stop_inv[of "{}" w] by (simp add: ready_def queued_def Connector_Model.cinv_def)
  show ?thesis
  proof (cases "running s = Some a")
    case False
    then have "attempts (stop_previous s) = (attempts s)[a := (attempts s ! a)\<lparr>at_conn := Connector_Model.stop (at_conn (attempts s ! a))\<rparr>]"
      using Some by (simp add: stop_previous_def call_connector_def)
    then show ?thesis using assms i False Some by (auto simp: attempts_inv_def nth_update_if)
  qed (use Some assms in \<open>auto simp: stop_previous_def call_connector_def attempts_inv_def\<close>)
qed (use assms in \<open>simp add: stop_previous_def\<close>)

lemma stop_previous_running:
  assumes "running_inv w s"
  shows "running_inv (after_calls s (stop_previous s) w) (stop_previous s)"
proof (cases "cl_connector s")
  case (Some a)
  then show ?thesis using assms
    by (cases "running s = Some a") (auto simp: running_inv_def stop_previous_def call_connector_def after_calls_def)
qed (use assms in \<open>simp add: stop_previous_def\<close>)

lemma link_stop_previous:
  assumes "attempts_inv (running s) (cl_connector s) (attempts s)" "running_inv w s" "phase_inv (s\<lparr>cl_connector := None\<rparr>)"
    "advance_inv (length (attempts s)) (cl_tasks s)"
  shows "link_inv (after_calls s (stop_previous s) w) (stop_previous s)"
proof -
  have "phase_inv (stop_previous s)" using assms(3) by (simp add: phase_inv_def)
  then show ?thesis
    using stop_previous_attempts[OF assms(1)] stop_previous_running[OF assms(2)] assms(4) by (simp add: link_inv_def current_inv_def)
qed

text \<open>Starting a new connector, when none is current.\<close>

definition new_attempt :: "Connector_Model.options \<Rightarrow> client \<Rightarrow> client" where
  "new_attempt opts s = start_connector (initConnector opts s)"

lemma new_attempt_eq:
  assumes "options_validate opts = Inr ()" "running s \<noteq> Some (length (attempts s))"
  obtains w where "new_attempt opts s = s\<lparr>attempts := attempts s @ [\<lparr>at_conn = w, at_gen = cl_gen s\<rparr>], cl_connector := Some (length (attempts s))\<rparr>"
    "ready w" "cphase_of w = StartQueued" "openFds w = {}" "retryEnabled w = enableRetry opts"
proof -
  obtain w0 where w0: "Connector opts = Inr w0" "cphase_of w0 = CIdle" "openFds w0 = {}" "retryEnabled w0 = enableRetry opts" using assms(1) by (simp add: Connector_def)
  let ?w = "Connector_Model.start w0"
  have c: "Connector_Model.cinv {} w0" by (rule Connector_inv[OF w0(1)])
  have st: "cphase_of ?w = StartQueued" "openFds ?w = {}" "retryEnabled ?w = enableRetry opts"
    using w0 by (simp_all add: Connector_Model.start_def Let_def Connector_Model.queueInLoop_def)
  then have "Connector_Model.cinv {} ?w" using Connector_Model.start_inv[of "{}" w0] c w0(2) by (auto simp: Connector_Model.cinv_def)
  moreover have "queued ?w" using w0(2) by (simp add: queued_def Connector_Model.start_def Let_def Connector_Model.queueInLoop_def)
  ultimately have "ready ?w" by (simp add: ready_def)
  moreover have "new_attempt opts s = s\<lparr>attempts := attempts s @ [\<lparr>at_conn = ?w, at_gen = cl_gen s\<rparr>], cl_connector := Some (length (attempts s))\<rparr>"
    using w0(1) assms(2) by (simp add: new_attempt_def initConnector_def start_connector_def call_connector_def list_update_append)
  ultimately show thesis using that st by blast
qed

lemma new_attempt_link:
  assumes "link_inv w s" "cl_connector s = None" "options_validate opts = Inr ()" "cl_connect s" "cl_connection s = None" "cl_lifetime s"
    "cl_phase s \<noteq> Ph_Resolving" "fixedAddress s = None \<longrightarrow> \<not> enableRetry opts"
  shows "link_inv w (new_attempt opts (s\<lparr>cl_phase := Ph_Connecting\<rparr>)) \<and> extends s (new_attempt opts (s\<lparr>cl_phase := Ph_Connecting\<rparr>)) \<and>
    cops (new_attempt opts (s\<lparr>cl_phase := Ph_Connecting\<rparr>)) = cops s"
proof -
  note i = link_invD[OF assms(1)]
  have r: "running (s\<lparr>cl_phase := Ph_Connecting\<rparr>) \<noteq> Some (length (attempts (s\<lparr>cl_phase := Ph_Connecting\<rparr>)))"
    using i(4) by (auto simp: running_inv_def)
  let ?n = "length (attempts s)"
  obtain v where v: "new_attempt opts (s\<lparr>cl_phase := Ph_Connecting\<rparr>) =
      s\<lparr>cl_phase := Ph_Connecting, attempts := attempts s @ [\<lparr>at_conn = v, at_gen = cl_gen s\<rparr>], cl_connector := Some ?n\<rparr>"
    "ready v" "cphase_of v = StartQueued" "openFds v = {}" "retryEnabled v = enableRetry opts"
    using new_attempt_eq[OF assms(3) r] by auto
  have "attempts_inv (running s) (Some ?n) (attempts s @ [\<lparr>at_conn = v, at_gen = cl_gen s\<rparr>])"
    using i(1) v(2) assms(2) by (auto simp: attempts_inv_def nth_append less_Suc_eq)
  moreover have "QAdvance (cl_gen s) ?n \<notin> set (cl_tasks s)" using i(5) by (auto simp: advance_inv_def)
  then have "matches Ph_Connecting v (QAdvance (cl_gen s) ?n \<in> set (cl_tasks s))" using v(3) by (simp add: matches_def)
  moreover have "advance_inv (Suc ?n) (cl_tasks s)" by (rule advance_mono[OF i(5)]) simp_all
  moreover have "cphase_of w = CIdle \<or> running s = None" using i(4) assms(2) by (cases "running s") (auto simp: running_inv_def)
  ultimately have "link_inv w (new_attempt opts (s\<lparr>cl_phase := Ph_Connecting\<rparr>))"
    using i(2,4) assms(2,4-8) v(5) r resolve_other[of "cl_phase s" "cl_gen s" "resolving s" Ph_Connecting] unfolding v(1)
    by (auto simp: link_inv_def phase_inv_def current_inv_def running_inv_def nth_append)
  moreover have "grown (attempts s) (attempts s @ [\<lparr>at_conn = v, at_gen = cl_gen s\<rparr>])" by (rule grown_new) (simp add: v(4))
  ultimately show ?thesis by (simp add: v(1) extends_def)
qed

text \<open>Operations of the client: they keep the link, and what they change is one of two things: nothing that counts for the
  running connector \<open>a\<close>, or it is stopped and not current any more.\<close>

definition kept :: "client \<Rightarrow> client \<Rightarrow> bool" where
  "kept s s' \<longleftrightarrow> cl_gen s' = cl_gen s \<and> fixedAddress s' = fixedAddress s \<and> (\<forall>g a. QAdvance g a \<in> set (cl_tasks s') \<longleftrightarrow> QAdvance g a \<in> set (cl_tasks s)) \<and>
     (cl_phase s' = cl_phase s \<or> cl_phase s = Ph_Connected \<and> cl_phase s' = Ph_Idle)"

lemma kept_refl [simp]: "kept s s"
  by (simp add: kept_def)

lemma kept_trans: "kept s t \<Longrightarrow> kept t u \<Longrightarrow> kept s u"
  unfolding kept_def by (elim conjE, intro conjI) (simp, simp, blast, auto)

definition op_ok :: "connector \<Rightarrow> client \<Rightarrow> client \<Rightarrow> bool" where
  "op_ok w s s' \<longleftrightarrow> link_inv (after_calls s s' w) s' \<and> extends s s' \<and> cl_lifetime s' = cl_lifetime s \<and>
     (\<forall>a < length (attempts s). cl_connector s' = Some a \<longrightarrow> cl_connector s = Some a \<and> cops s' = cops s \<and> kept s s') \<and>
     (\<forall>a. running s = Some a \<and> cl_connector s = Some a \<and> cl_connector s' \<noteq> Some a \<longrightarrow> cops s' \<noteq> cops s)"

lemma op_okD:
  assumes "op_ok w s s'"
  shows "link_inv (after_calls s s' w) s'" "extends s s'" "cl_lifetime s' = cl_lifetime s"
    "\<And>a. a < length (attempts s) \<Longrightarrow> cl_connector s' = Some a \<Longrightarrow> cl_connector s = Some a \<and> cops s' = cops s \<and> kept s s'"
    "\<And>a. running s = Some a \<Longrightarrow> cl_connector s = Some a \<Longrightarrow> cl_connector s' \<noteq> Some a \<Longrightarrow> cops s' \<noteq> cops s"
  using assms by (simp_all add: op_ok_def)

lemma op_ok_refl: "link_inv w s \<Longrightarrow> op_ok w s s"
  by (simp add: op_ok_def)

lemma op_ok_trans:
  assumes "op_ok w s t" "op_ok (after_calls s t w) t u"
  shows "op_ok w s u"
proof -
  note a = op_okD[OF assms(1)] and b = op_okD[OF assms(2)]
  have "cl_connector s = Some c \<and> cops u = cops s \<and> kept s u" if c: "c < length (attempts s)" "cl_connector u = Some c" for c
  proof -
    have "cl_connector t = Some c \<and> cops u = cops t \<and> kept t u" using b(4)[of c] extends_gen[OF a(2) c(1)] c(2) by simp
    then show ?thesis using a(4)[OF c(1)] kept_trans by auto
  qed
  moreover have "cops u \<noteq> cops s" if c: "running s = Some c" "cl_connector s = Some c" "cl_connector u \<noteq> Some c" for c
  proof (cases "cl_connector t = Some c")
    case True
    have "running t = Some c" using a(2) c(1) by (simp add: extends_def)
    then have "cops u \<noteq> cops t" using b(5) True c(3) by blast
    then show ?thesis using a(2) b(2) by (auto simp: extends_def)
  next
    case False
    then have "cops t \<noteq> cops s" using a(5) c by blast
    then show ?thesis using a(2) b(2) by (auto simp: extends_def)
  qed
  ultimately show ?thesis
    using b(1,3) a(3) after_calls_trans[OF a(2) b(2), of w] extends_trans[OF a(2) b(2)] by (simp add: op_ok_def)
qed

text \<open>The part of the state that the link does not read.\<close>

lemma link_frame [simp]:
  "link_inv w (s\<lparr>cl_retry := b\<rparr>) = link_inv w s" "link_inv w (s\<lparr>cl_objects := m\<rparr>) = link_inv w s"
  "link_inv w (s\<lparr>cl_destroyed := ds\<rparr>) = link_inv w s" "link_inv w (s\<lparr>cl_assert := b\<rparr>) = link_inv w s"
  "link_inv w (s\<lparr>openFds := fs\<rparr>) = link_inv w s" "link_inv w (s\<lparr>badClose := b\<rparr>) = link_inv w s"
  "link_inv w (s\<lparr>cl_nextConnId := k\<rparr>) = link_inv w s" "link_inv w (s\<lparr>cl_tlsContext := b\<rparr>) = link_inv w s"
  by (simp_all add: link_inv_def phase_inv_def current_inv_def running_inv_def)

lemma link_tasks:
  "link_inv w s \<Longrightarrow> \<forall>g a. QAdvance g a \<in> set ts \<longleftrightarrow> QAdvance g a \<in> set (cl_tasks s) \<Longrightarrow> link_inv w (s\<lparr>cl_tasks := ts\<rparr>)"
  by (simp add: link_inv_def phase_inv_def current_inv_def running_inv_def advance_inv_def)

lemma link_connect: "link_inv w s \<Longrightarrow> link_inv w (s\<lparr>cl_connect := True\<rparr>)"
  by (auto simp: link_inv_def phase_inv_def current_inv_def running_inv_def)

lemma stop_previous_op:
  assumes i: "attempts_inv (running s) (cl_connector s) (attempts s)" "running_inv w s" "advance_inv (length (attempts s)) (cl_tasks s)"
    and t: "running t = running s" "cl_connector t = cl_connector s" "attempts t = attempts s" "cops t = cops s"
      "cl_lifetime t = cl_lifetime s" "cl_tasks t = cl_tasks s"
    and ph: "phase_inv (t\<lparr>cl_connector := None\<rparr>)"
  shows "op_ok w s (stop_previous t)"
proof -
  have r: "running_inv w t" using i(2) t by (simp add: running_inv_def)
  have "link_inv (after_calls t (stop_previous t) w) (stop_previous t)"
    by (rule link_stop_previous[OF _ r ph]) (use i(1,3) t in simp_all)
  moreover have "after_calls s (stop_previous t) w = after_calls t (stop_previous t) w" using t by (simp add: after_calls_def)
  moreover have "extends s (stop_previous t)" using stop_previous_extends[of t] t by (simp add: extends_def)
  moreover have "cops (stop_previous t) \<noteq> cops s" if "running s = Some a" "cl_connector s = Some a" for a
    using that t by (simp add: stop_previous_def call_connector_def)
  ultimately show ?thesis using t by (simp add: op_ok_def)
qed

lemma new_attempt_op:
  assumes "link_inv w s" "cl_connector s = None" "options_validate opts = Inr ()" "cl_connect s" "cl_connection s = None" "cl_lifetime s"
    "cl_phase s \<noteq> Ph_Resolving" "fixedAddress s = None \<longrightarrow> \<not> enableRetry opts"
  shows "op_ok w s (new_attempt opts (s\<lparr>cl_phase := Ph_Connecting\<rparr>))"
proof -
  note n = new_attempt_link[OF assms]
  have r: "running (s\<lparr>cl_phase := Ph_Connecting\<rparr>) \<noteq> Some (length (attempts (s\<lparr>cl_phase := Ph_Connecting\<rparr>)))"
    using link_invD(4)[OF assms(1)] by (auto simp: running_inv_def)
  have "cl_connector (new_attempt opts (s\<lparr>cl_phase := Ph_Connecting\<rparr>)) = Some (length (attempts s)) \<and>
      cl_lifetime (new_attempt opts (s\<lparr>cl_phase := Ph_Connecting\<rparr>)) = cl_lifetime s" by (rule new_attempt_eq[OF assms(3) r]) simp
  then show ?thesis using n assms(2) by (simp add: op_ok_def)
qed

lemma phase_quit:
  assumes "phase_inv s" "ph = (if cl_phase s = Ph_Connected then Ph_Connected else Ph_Idle)"
  shows "phase_inv (s\<lparr>cl_connect := b, cl_gen := cl_gen s + 1, candidates := [], nextCandidate := 0, cl_phase := ph, cl_connector := None\<rparr>)"
proof -
  have r: "resolve_inv ph (cl_gen s + 1) (resolving s)" using phase_next[OF assms(1), of ph] assms(2) by (cases "cl_phase s = Ph_Connected") simp_all
  show ?thesis
  proof (cases "cl_phase s = Ph_Connected")
    case True
    then show ?thesis using assms r by (simp add: phase_inv_def)
  next
    case False
    then show ?thesis using assms r by (simp add: phase_inv_def)
  qed
qed

lemma phase_same: "cl_phase s = ph \<Longrightarrow> s\<lparr>cl_phase := ph\<rparr> = s"
  by (cases s) simp

lemma stopInLoop_op:
  assumes "link_inv w s"
  shows "op_ok w s (stopInLoop s)"
proof -
  define ph where "ph = (if cl_phase s = Ph_Connected then Ph_Connected else Ph_Idle)"
  have eq: "stopInLoop s = stop_previous (s\<lparr>cl_connect := False, cl_gen := cl_gen s + 1, candidates := [], nextCandidate := 0, cl_phase := ph\<rparr>)"
    by (cases "cl_phase s = Ph_Connected") (simp_all add: stopInLoop_def Let_def ph_def phase_same)
  show ?thesis unfolding eq
    by (rule stop_previous_op[OF link_invD(1,4,5)[OF assms]])
      (simp, simp, simp, simp, simp, simp, use phase_quit[OF link_invD(2)[OF assms] ph_def, of False] in simp)
qed

lemma resolveAndConnect_op:
  assumes "link_inv w s" "cl_connector s = None" "cl_connect s" "cl_connection s = None" "cl_lifetime s" "cl_phase s \<noteq> Ph_Resolving"
  shows "op_ok w s (resolveAndConnect s)"
proof -
  have "link_inv w (resolveAndConnect s)"
    using assms resolve_asked[of "cl_phase s" "cl_gen s" "resolving s"]
    by (simp add: resolveAndConnect_def link_inv_def phase_inv_def current_inv_def running_inv_def)
  then show ?thesis using assms(2) by (auto simp: op_ok_def resolveAndConnect_def extends_def)
qed

lemma connectInLoop_op:
  assumes inv: "link_inv w s" and life: "cl_lifetime s"
  shows "op_ok w s (connectInLoop s)"
proof (cases "cl_phase s = Ph_Idle")
  case False
  have "link_inv w (s\<lparr>cl_connect := True\<rparr>)" by (rule link_connect[OF inv])
  moreover have "link_inv w (queue_task t (s\<lparr>cl_connect := True\<rparr>))"
    if "\<And>g a. t \<noteq> QAdvance g a" for t unfolding queue_task_def by (rule link_tasks[OF link_connect[OF inv]]) (use that in auto)
  ultimately have "link_inv w (connectInLoop s)" using False by (simp add: connectInLoop_def Let_def)
  moreover have "extends s (connectInLoop s)" "cops (connectInLoop s) = cops s" "cl_lifetime (connectInLoop s) = cl_lifetime s"
    "cl_connector (connectInLoop s) = cl_connector s" "kept s (connectInLoop s)"
    using False by (auto simp: connectInLoop_def Let_def queue_task_def extends_def kept_def)
  ultimately show ?thesis by (simp add: op_ok_def)
next
  case True
  let ?t = "s\<lparr>cl_connect := True, cl_gen := cl_gen s + 1, candidates := [], nextCandidate := 0\<rparr>"
  note i = link_invD[OF inv]
  have conn: "cl_connection s = None" using i(2) True life by (auto simp: phase_inv_def)
  have p: "op_ok w s (stop_previous ?t)"
    by (rule stop_previous_op[OF link_invD(1,4,5)[OF inv]]) (simp, simp, simp, simp, simp, simp, use phase_quit[OF i(2) refl, of True] True in \<open>simp add: phase_inv_def\<close>)
  note l = op_okD(1)[OF p]
  show ?thesis
  proof (cases "fixedAddress s")
    case None
    have "op_ok (after_calls s (stop_previous ?t) w) (stop_previous ?t) (resolveAndConnect (stop_previous ?t))"
      by (rule resolveAndConnect_op[OF l]) (use conn life True in simp_all)
    moreover have "connectInLoop s = resolveAndConnect (stop_previous ?t)" using True None by (simp add: connectInLoop_def Let_def)
    ultimately show ?thesis using op_ok_trans[OF p] by simp
  next
    case (Some adr)
    have "op_ok (after_calls s (stop_previous ?t) w) (stop_previous ?t)
        (new_attempt (connectorOptions s) ((stop_previous ?t)\<lparr>cl_phase := Ph_Connecting\<rparr>))"
      by (rule new_attempt_op[OF l]) (use i(2) conn life True Some in \<open>simp_all add: phase_inv_def\<close>)
    moreover have "connectInLoop s = new_attempt (connectorOptions s) ((stop_previous ?t)\<lparr>cl_phase := Ph_Connecting\<rparr>)"
      using True Some by (simp add: connectInLoop_def Let_def new_attempt_def)
    ultimately show ?thesis using op_ok_trans[OF p] by simp
  qed
qed

lemma do_capi_op: "link_inv w s \<Longrightarrow> cl_lifetime s \<Longrightarrow> op_ok w s (do_capi c s)"
proof (cases c)
  case (CRetry b)
  assume "link_inv w s" "cl_lifetime s"
  then show ?thesis using CRetry by (auto simp: op_ok_def extends_def kept_def)
qed (simp_all add: connectInLoop_op stopInLoop_op)

lemma capis_op: "link_inv w s \<Longrightarrow> cl_lifetime s \<Longrightarrow> op_ok w s (fold do_capi cs s)"
proof (induction cs arbitrary: w s)
  case Nil
  then show ?case by (simp add: op_ok_refl)
next
  case (Cons c cs)
  note a = do_capi_op[OF Cons.prems, of c]
  have "op_ok (after_calls s (do_capi c s) w) (do_capi c s) (fold do_capi cs (do_capi c s))"
    by (rule Cons.IH) (use op_okD[OF a] Cons.prems in auto)
  then show ?case using op_ok_trans[OF a] by simp
qed

section \<open>Connections\<close>

text \<open>What the calls to a client leave alone: everything about connections but the queued functors that are not \<open>connectDestroyed\<close>.\<close>

fun destroys :: "cltask \<Rightarrow> string list" where
  "destroys (QDestroy n) = [n]"
| "destroys t = []"

definition doomed :: "cltask list \<Rightarrow> string list" where
  "doomed ts = concat (map destroys ts)"

lemma client_doomed_simps [simp]: "doomed [] = []" "doomed (t # ts) = destroys t @ doomed ts" "doomed (ts @ us) = doomed ts @ doomed us"
  by (simp_all add: doomed_def)

lemma doomed_iff: "n \<in> set (doomed ts) \<longleftrightarrow> QDestroy n \<in> set ts"
proof (induction ts)
  case (Cons t ts)
  then show ?case by (cases t) auto
qed simp

definition same_conns :: "client \<Rightarrow> client \<Rightarrow> bool" where
  "same_conns s s' \<longleftrightarrow> cl_connection s' = cl_connection s \<and> cl_objects s' = cl_objects s \<and> cl_destroyed s' = cl_destroyed s \<and>
     openFds s' = openFds s \<and> badClose s' = badClose s \<and> cl_assert s' = cl_assert s \<and> cl_nextConnId s' = cl_nextConnId s \<and>
     cl_name s' = cl_name s \<and> cl_lifetime s' = cl_lifetime s \<and> doomed (cl_tasks s') = doomed (cl_tasks s) \<and> fixedAddress s' = fixedAddress s"

lemma same_conns_refl [simp]: "same_conns s s"
  by (simp add: same_conns_def)

lemma same_conns_trans: "same_conns s t \<Longrightarrow> same_conns t u \<Longrightarrow> same_conns s u"
  by (simp add: same_conns_def)

lemma same_stop_previous: "same_conns s (stop_previous s)"
  by (simp add: same_conns_def stop_previous_def call_connector_def split: option.split)

lemma same_new_attempt: "same_conns s (start_connector (initConnector opts s))"
  by (simp add: same_conns_def start_connector_def initConnector_def call_connector_def split: option.split sum.split)

lemma same_stopInLoop: "same_conns s (stopInLoop s)"
  using same_stop_previous[of "s\<lparr>cl_connect := False, cl_gen := cl_gen s + 1, candidates := [], nextCandidate := 0\<rparr>"]
    same_stop_previous[of "s\<lparr>cl_connect := False, cl_gen := cl_gen s + 1, candidates := [], nextCandidate := 0, cl_phase := Ph_Idle\<rparr>"]
  by (auto simp: stopInLoop_def Let_def same_conns_def)

lemma same_connectInLoop: "same_conns s (connectInLoop s)"
proof (cases "cl_phase s = Ph_Idle")
  case True
  let ?t = "stop_previous (s\<lparr>cl_connect := True, cl_gen := cl_gen s + 1, candidates := [], nextCandidate := 0\<rparr>)"
  have t: "same_conns s ?t" using same_stop_previous[of "s\<lparr>cl_connect := True, cl_gen := cl_gen s + 1, candidates := [], nextCandidate := 0\<rparr>"]
    by (simp add: same_conns_def)
  have "same_conns s (start_connector (initConnector opts (?t\<lparr>cl_phase := Ph_Connecting\<rparr>)))" for opts
    using same_new_attempt[of "?t\<lparr>cl_phase := Ph_Connecting\<rparr>" opts] t by (simp add: same_conns_def)
  moreover have "same_conns s (resolveAndConnect ?t)" using t by (simp add: same_conns_def resolveAndConnect_def)
  ultimately show ?thesis using True by (simp add: connectInLoop_def Let_def)
qed (auto simp: connectInLoop_def Let_def same_conns_def queue_task_def)

lemma same_capi: "same_conns s (do_capi c s)"
  using same_stopInLoop same_connectInLoop by (cases c) (simp_all add: same_conns_def)

lemma same_capis: "same_conns s (fold do_capi cs s)"
  by (induction cs arbitrary: s) (auto intro: same_conns_trans[OF same_capi])

text \<open>The close callback, when it comes from the current connection.\<close>

lemma removeConnection_op:
  assumes inv: "link_inv w s" and life: "cl_lifetime s" and cur: "cl_connection s = Some n"
  shows "op_ok w s (removeConnection n s) \<and> cl_connection (removeConnection n s) = None"
proof -
  let ?s = "s\<lparr>cl_connection := None, cl_tasks := cl_tasks s @ [QDestroy n], cl_phase := Ph_Idle\<rparr>"
  note i = link_invD[OF inv]
  have ph: "cl_phase s = Ph_Connected" using i(2) life cur by (simp add: phase_inv_def)
  have "phase_inv ?s"
    using i(2) ph resolve_other[of Ph_Connected "cl_gen s" "resolving s" Ph_Idle] by (simp add: phase_inv_def)
  moreover have "current_inv ?s" using i(3) ph by (simp add: current_inv_def matches_def)
  moreover have "running_inv w ?s" using i(4) by (simp add: running_inv_def)
  moreover have "advance_inv (length (attempts s)) (cl_tasks s @ [QDestroy n])" by (rule advance_mono[OF i(5)]) simp_all
  ultimately have l: "link_inv w ?s" using i(1) by (simp add: link_inv_def)
  then have o: "op_ok w s ?s" using ph by (auto simp: op_ok_def extends_def kept_def)
  have "op_ok w s (connectInLoop ?s)" using op_ok_trans[OF o, of "connectInLoop ?s"] connectInLoop_op[of w ?s] l life by simp
  moreover have "cl_connection (connectInLoop ?s) = None" using same_connectInLoop[of ?s] by (simp add: same_conns_def)
  moreover have "removeConnection n s = (if cl_retry s \<and> cl_connect s then connectInLoop ?s else ?s)"
    using cur by (simp add: removeConnection_def queue_task_def Let_def)
  ultimately show ?thesis using o by simp
qed

definition shape :: "client \<Rightarrow> string \<Rightarrow> (conn \<times> int) option" where
  "shape s n = map_option (\<lambda>x. (k_conn x, k_fd x)) (cl_objects s n)"

text \<open>The effect of callbacks of connection \<open>n\<close> on what the client keeps of connections; \<open>b\<close> tells whether it was closed.\<close>

definition moved :: "string \<Rightarrow> bool \<Rightarrow> client \<Rightarrow> client \<Rightarrow> bool" where
  "moved n b s s' \<longleftrightarrow> shape s' = shape s \<and> cl_destroyed s' = cl_destroyed s \<and> openFds s' = openFds s \<and> badClose s' = badClose s \<and>
     cl_assert s' = cl_assert s \<and> cl_nextConnId s' = cl_nextConnId s \<and> cl_name s' = cl_name s \<and> cl_lifetime s' = cl_lifetime s \<and>
     (if b then cl_connection s = Some n \<and> cl_connection s' = None \<and> doomed (cl_tasks s') = doomed (cl_tasks s) @ [n]
      else cl_connection s' = cl_connection s \<and> doomed (cl_tasks s') = doomed (cl_tasks s))"

lemma moved_same: "same_conns s s' \<Longrightarrow> moved n False s s'"
  by (simp add: moved_def same_conns_def shape_def fun_eq_iff)

lemma moved_trans: "moved n b s t \<Longrightarrow> moved n c t u \<Longrightarrow> \<not> (b \<and> c) \<Longrightarrow> moved n (b \<or> c) s u"
  by (auto simp: moved_def split: if_splits)

lemma set_gone_frame: "moved n False s (set_gone m b s)" "link_inv w (set_gone m b s) = link_inv w s"
  by (auto simp: set_gone_def moved_def shape_def fun_eq_iff option.map_comp comp_def)

lemma set_gone_op: "link_inv w s \<Longrightarrow> op_ok w s (set_gone m b s)"
  using set_gone_frame(2)[of w m b s] by (auto simp: op_ok_def extends_def kept_def set_gone_def)

lemma removeConnection_moved:
  assumes "cl_connection s = Some n"
  shows "moved n True s (removeConnection n s)"
proof -
  let ?s = "s\<lparr>cl_connection := None, cl_tasks := cl_tasks s @ [QDestroy n], cl_phase := Ph_Idle\<rparr>"
  have "moved n True s ?s" using assms by (simp add: moved_def shape_def fun_eq_iff)
  moreover have "moved n False ?s (connectInLoop ?s)" by (rule moved_same[OF same_connectInLoop])
  moreover have "removeConnection n s = (if cl_retry s \<and> cl_connect s then connectInLoop ?s else ?s)"
    using assms by (simp add: removeConnection_def queue_task_def Let_def)
  ultimately show ?thesis using moved_trans[of n True s ?s False] by auto
qed

lemma client_note_ok:
  assumes "link_inv w s" "nt = NClose \<Longrightarrow> cl_lifetime s \<Longrightarrow> cl_connection s = Some n"
  shows "op_ok w s (client_note env n nt s)" "moved n (nt = NClose \<and> cl_lifetime s) s (client_note env n nt s)"
proof -
  show "op_ok w s (client_note env n nt s)"
  proof (cases "nt = NClose")
    case True
    then show ?thesis using assms removeConnection_op[of w s n] by (auto simp: op_ok_refl)
  next
    case False
    define t where "t = (if nt = NDisconnected then set_gone n True s else s)"
    have t: "op_ok w s t" "link_inv w t" "cl_lifetime t = cl_lifetime s"
      using assms(1) set_gone_op op_ok_refl set_gone_frame(2)[of w n True s] by (simp_all add: t_def set_gone_def)
    have "op_ok w s (fold do_capi cs t)" if "cl_lifetime s" for cs
      using op_ok_trans[OF t(1), of "fold do_capi cs t"] capis_op[OF t(2)] t(3) that by (simp add: t_def set_gone_def)
    moreover have "client_note env n nt s = (if cl_lifetime s then fold do_capi (connection_hook env n nt t) t else t)"
      using False t(3) by (cases nt) (simp_all add: t_def Let_def)
    ultimately show ?thesis using t(1) by simp
  qed
  show "moved n (nt = NClose \<and> cl_lifetime s) s (client_note env n nt s)"
  proof (cases "nt = NClose")
    case True
    then show ?thesis using assms(2) removeConnection_moved[of s n] moved_same[OF same_conns_refl] by auto
  next
    case False
    define t where "t = (if nt = NDisconnected then set_gone n True s else s)"
    have t: "moved n False s t" "cl_lifetime t = cl_lifetime s"
      using set_gone_frame(1)[of n s n True] moved_same[OF same_conns_refl] by (simp_all add: t_def set_gone_def)
    have "moved n False s (fold do_capi cs t)" for cs
      using moved_trans[OF t(1) moved_same[OF same_capis]] by simp
    moreover have "client_note env n nt s = (if cl_lifetime s then fold do_capi (connection_hook env n nt t) t else t)"
      using False t(2) by (cases nt) (simp_all add: t_def Let_def)
    ultimately show ?thesis using False t(1) by simp
  qed
qed

lemma client_notes_ok:
  "link_inv w s \<Longrightarrow> (NClose \<in> set nts \<longrightarrow> cl_lifetime s \<longrightarrow> cl_connection s = Some n \<and> count_list nts NClose \<le> 1) \<Longrightarrow>
   op_ok w s (fold (client_note env n) nts s) \<and> moved n (NClose \<in> set nts \<and> cl_lifetime s) s (fold (client_note env n) nts s)"
proof (induction nts arbitrary: w s)
  case Nil
  then show ?case by (simp add: op_ok_refl moved_same)
next
  case (Cons nt nts)
  let ?t = "client_note env n nt s"
  have o: "op_ok w s ?t" and m: "moved n (nt = NClose \<and> cl_lifetime s) s ?t"
    by (rule client_note_ok[OF Cons.prems(1)]; use Cons.prems(2) in simp)+
  have l: "cl_lifetime ?t = cl_lifetime s" using m by (simp add: moved_def)
  have once: "NClose \<in> set nts \<Longrightarrow> cl_lifetime s \<Longrightarrow> nt \<noteq> NClose"
    using Cons.prems(2) by (auto simp: count_list_0_iff)
  have c: "nt \<noteq> NClose \<Longrightarrow> cl_connection ?t = cl_connection s" using m by (simp add: moved_def)
  have "op_ok (after_calls s ?t w) ?t (fold (client_note env n) nts ?t) \<and>
      moved n (NClose \<in> set nts \<and> cl_lifetime ?t) ?t (fold (client_note env n) nts ?t)"
    by (rule Cons.IH[OF op_okD(1)[OF o]]) (use Cons.prems(2) once c l in \<open>auto split: if_splits\<close>)
  then have "op_ok w s (fold (client_note env n) nts ?t)"
      "moved n (nt = NClose \<and> cl_lifetime s \<or> NClose \<in> set nts \<and> cl_lifetime ?t) s (fold (client_note env n) nts ?t)"
    using op_ok_trans[OF o] moved_trans[OF m] once l by blast+
  moreover have "(nt = NClose \<and> cl_lifetime s \<or> NClose \<in> set nts \<and> cl_lifetime ?t) = (NClose \<in> set (nt # nts) \<and> cl_lifetime s)"
    using l by auto
  ultimately show ?case by simp
qed

section \<open>Accounts of connections\<close>

definition conns_inv :: "client \<Rightarrow> bool" where
  "conns_inv s \<longleftrightarrow> (\<forall>n c fd. shape s n = Some (c, fd) \<longrightarrow> conn_inv c \<and> (cl_connection s = Some n \<longleftrightarrow> NClose \<notin> set (called c)))"

lemma conns_invD: "conns_inv s \<Longrightarrow> shape s n = Some (c, fd) \<Longrightarrow> conn_inv c \<and> (cl_connection s = Some n \<longleftrightarrow> NClose \<notin> set (called c))"
  unfolding conns_inv_def by blast

definition live :: "client \<Rightarrow> string list" where
  "live s = (if cl_lifetime s then case cl_connection s of None \<Rightarrow> [] | Some n \<Rightarrow> [n] else [])"

definition conn_name_of :: "string \<Rightarrow> nat \<Rightarrow> string" where
  "conn_name_of name k = name @ ''#'' @ to_string k"

definition names :: "client \<Rightarrow> string list" where
  "names s = map (conn_name_of (cl_name s)) [1..<cl_nextConnId s]"

text \<open>Every connection made so far is in exactly one place: it is the current one, its \<open>connectDestroyed\<close> is queued, or it has run.\<close>

definition books :: "string list \<Rightarrow> string list \<Rightarrow> string list \<Rightarrow> string list \<Rightarrow> string set \<Rightarrow> bool" where
  "books l d z ns objs \<longleftrightarrow> distinct (l @ d @ z) \<and> set (l @ d @ z) = set ns \<and> objs \<subseteq> set ns \<and> set (l @ d) \<subseteq> objs"

definition acct :: "client \<Rightarrow> bool" where
  "acct s \<longleftrightarrow> books (live s) (doomed (cl_tasks s)) (cl_destroyed s) (names s) (dom (shape s)) \<and> \<not> cl_assert s \<and> 1 \<le> cl_nextConnId s"

lemma books_close: "books [n] d z ns objs \<Longrightarrow> books [] (d @ [n]) z ns objs"
  by (auto simp: books_def)

definition fds_acct :: "client \<Rightarrow> bool" where
  "fds_acct s \<longleftrightarrow> \<not> badClose s \<and> openFds s = {fd. \<exists>n c. shape s n = Some (c, fd)} \<and>
     (\<forall>n m fd. (\<exists>c. shape s n = Some (c, fd)) \<longrightarrow> (\<exists>c. shape s m = Some (c, fd)) \<longrightarrow> n = m) \<and> (\<forall>fd \<in> openFds s. isValid fd)"

definition obj_inv :: "client \<Rightarrow> bool" where
  "obj_inv s \<longleftrightarrow> (cl_lifetime s \<longrightarrow> conns_inv s) \<and> acct s \<and> fds_acct s"

lemma moved_books:
  assumes "moved n b s s'" "b \<Longrightarrow> cl_lifetime s"
  shows "acct s \<Longrightarrow> acct s'" "fds_acct s \<Longrightarrow> fds_acct s'"
proof -
  have nm: "names s' = names s" "dom (shape s') = dom (shape s)" "cl_destroyed s' = cl_destroyed s" "cl_assert s' = cl_assert s"
    "cl_nextConnId s' = cl_nextConnId s"
    using assms(1) by (simp_all add: moved_def names_def)
  show "acct s \<Longrightarrow> acct s'"
  proof (cases b)
    case True
    then have "live s = [n]" "live s' = []" "doomed (cl_tasks s') = doomed (cl_tasks s) @ [n]" using assms by (simp_all add: moved_def live_def)
    then show "acct s \<Longrightarrow> acct s'" using nm books_close[of n] by (simp add: acct_def)
  next
    case False
    then have "live s' = live s" "doomed (cl_tasks s') = doomed (cl_tasks s)" using assms by (simp_all add: moved_def live_def)
    then show "acct s \<Longrightarrow> acct s'" using nm by (simp add: acct_def)
  qed
  show "fds_acct s \<Longrightarrow> fds_acct s'" using assms(1) by (simp add: fds_acct_def moved_def)
qed

lemma shape_object: "shape (s\<lparr>cl_objects := (cl_objects s)(n \<mapsto> x)\<rparr>) = (shape s)(n \<mapsto> (k_conn x, k_fd x))"
  by (auto simp: shape_def fun_eq_iff)

lemma object_books:
  assumes "cl_objects s n = Some x" "k_fd y = k_fd x"
  shows "acct (s\<lparr>cl_objects := (cl_objects s)(n \<mapsto> y)\<rparr>) = acct s" "fds_acct (s\<lparr>cl_objects := (cl_objects s)(n \<mapsto> y)\<rparr>) = fds_acct s"
proof -
  have x: "shape s n = Some (k_conn x, k_fd x)" using assms(1) by (simp add: shape_def)
  have d: "dom ((shape s)(n \<mapsto> (k_conn y, k_fd y))) = dom (shape s)" using x by auto
  show "acct (s\<lparr>cl_objects := (cl_objects s)(n \<mapsto> y)\<rparr>) = acct s"
    unfolding acct_def shape_object d by (simp add: live_def names_def)
  have e: "(\<exists>c. ((shape s)(n \<mapsto> (k_conn y, k_fd y))) m = Some (c, fd)) = (\<exists>c. shape s m = Some (c, fd))" for m fd
    using x assms(2) by auto
  show "fds_acct (s\<lparr>cl_objects := (cl_objects s)(n \<mapsto> y)\<rparr>) = fds_acct s"
    unfolding fds_acct_def shape_object e by simp
qed

lemma conn_do_moved:
  assumes r: "conn_do env n f s = Inr s'" and link: "link_inv w s" and obj: "cl_lifetime s \<Longrightarrow> conns_inv s"
    and f: "\<And>c c'. shape s n \<noteq> None \<Longrightarrow> cl_lifetime s \<Longrightarrow> conn_inv c \<Longrightarrow> f c = Inr c' \<Longrightarrow> c = fst (the (shape s n)) \<Longrightarrow> conn_inv c' \<and> progress c c'"
  shows "op_ok w s s' \<and> (cl_lifetime s' \<longrightarrow> conns_inv s') \<and> (\<exists>x y b. cl_objects s n = Some x \<and> k_fd y = k_fd x \<and>
    moved n b (s\<lparr>cl_objects := (cl_objects s)(n \<mapsto> y)\<rparr>) s' \<and> (b \<longrightarrow> cl_lifetime s))"
proof -
  obtain x c where x: "cl_objects s n = Some x" and c: "f (k_conn x) = Inr c"
    and s': "s' = set_gone n (c_state c = kDisconnected) (fold (client_note env n) (drop (length (called (k_conn x))) (called c))
                    (s\<lparr>cl_objects := (cl_objects s)(n \<mapsto> x\<lparr>k_conn := c\<rparr>)\<rparr>))"
    using r by (auto simp: conn_do_def bind_res_Inr split: option.splits)
  define nts where "nts = drop (length (called (k_conn x))) (called c)"
  define t where "t = s\<lparr>cl_objects := (cl_objects s)(n \<mapsto> x\<lparr>k_conn := c\<rparr>)\<rparr>"
  define u where "u = fold (client_note env n) nts t"
  have sh: "shape s n = Some (k_conn x, k_fd x)" using x by (simp add: shape_def)
  have t: "link_inv w t" "cl_lifetime t = cl_lifetime s" "cl_connection t = cl_connection s" "op_ok w s t"
    using link by (auto simp: t_def op_ok_def extends_def kept_def)
  have cn: "conn_inv c \<and> progress (k_conn x) c \<and> (cl_connection s = Some n \<longleftrightarrow> NClose \<notin> set (called (k_conn x)))" if "cl_lifetime s"
  proof -
    have i: "conn_inv (k_conn x) \<and> (cl_connection s = Some n \<longleftrightarrow> NClose \<notin> set (called (k_conn x)))"
      by (rule conns_invD[OF obj[OF that] sh])
    have "conn_inv c \<and> progress (k_conn x) c" by (rule f[OF _ that conjunct1[OF i] c]) (simp_all add: sh)
    then show ?thesis using conjunct2[OF i] by blast
  qed
  have nts: "called c = called (k_conn x) @ nts" "count_list (called c) NClose \<le> 1" if "cl_lifetime s"
    using cn[OF that] by (auto simp: nts_def progress_def cinv_def notes_inv_def)
  have pre: "NClose \<in> set nts \<longrightarrow> cl_lifetime t \<longrightarrow> cl_connection t = Some n \<and> count_list nts NClose \<le> 1"
  proof (intro impI)
    assume a: "NClose \<in> set nts" "cl_lifetime t"
    have "count_list nts NClose \<noteq> 0" using a(1) by (simp add: count_list_0_iff)
    then have "count_list (called (k_conn x)) NClose = 0 \<and> count_list nts NClose \<le> 1" using nts a(2) t(2) by simp
    then show "cl_connection t = Some n \<and> count_list nts NClose \<le> 1" using cn a(2) t(2,3) by (simp add: count_list_0_iff)
  qed
  have o: "op_ok w t u" and m: "moved n (NClose \<in> set nts \<and> cl_lifetime t) t u"
    using client_notes_ok[OF t(1) pre, of env] by (simp_all add: u_def)
  have tu: "op_ok w s u" using op_ok_trans[OF t(4), of u] o by (simp add: t_def)
  have "op_ok (after_calls s u w) u s'" unfolding s' nts_def[symmetric] t_def[symmetric] u_def[symmetric]
    by (rule set_gone_op[OF op_okD(1)[OF tu]])
  then have op: "op_ok w s s'" by (rule op_ok_trans[OF tu])
  have m': "moved n (NClose \<in> set nts \<and> cl_lifetime t) t s'"
    using moved_trans[OF m set_gone_frame(1)[of n u n "c_state c = kDisconnected"]]
    by (simp add: s' nts_def[symmetric] t_def[symmetric] u_def[symmetric])
  have con: "cl_connection s' = (if NClose \<in> set nts \<and> cl_lifetime s then None else cl_connection s)"
    using m' t(2,3) by (simp add: moved_def)
  have "conns_inv s'" if "cl_lifetime s'"
  proof -
    have life: "cl_lifetime s" using that m' t(2) by (simp add: moved_def)
    have sh': "shape s' = (shape s)(n \<mapsto> (c, k_fd x))" using m' by (simp add: moved_def t_def shape_object)
    have n: "conn_inv c \<and> (cl_connection s' = Some n \<longleftrightarrow> NClose \<notin> set (called c))"
      using cn[OF life] con nts(1)[OF life] life by simp
    have other: "conn_inv d \<and> (cl_connection s' = Some k \<longleftrightarrow> NClose \<notin> set (called d))" if k: "k \<noteq> n" "shape s k = Some (d, fd)" for k d fd
    proof -
      have "cl_connection s' = Some k \<longleftrightarrow> cl_connection s = Some k" using con pre t(2,3) life k(1) by simp
      moreover have "conn_inv d \<and> (cl_connection s = Some k \<longleftrightarrow> NClose \<notin> set (called d))"
        by (rule conns_invD[OF obj[OF life] k(2)])
      ultimately show ?thesis by simp
    qed
    show ?thesis unfolding conns_inv_def
    proof (intro allI impI)
      fix k d fd assume a: "shape s' k = Some (d, fd)"
      show "conn_inv d \<and> (cl_connection s' = Some k \<longleftrightarrow> NClose \<notin> set (called d))"
      proof (cases "k = n")
        case True
        then have "d = c" using a sh' by simp
        then show ?thesis using n True by blast
      next
        case False
        then have "shape s k = Some (d, fd)" using a sh' by simp
        from other[OF False this] show ?thesis .
      qed
    qed
  qed
  moreover have "\<exists>x y b. cl_objects s n = Some x \<and> k_fd y = k_fd x \<and> moved n b (s\<lparr>cl_objects := (cl_objects s)(n \<mapsto> y)\<rparr>) s' \<and> (b \<longrightarrow> cl_lifetime s)"
    using m' x t(2) by (intro exI[of _ x] exI[of _ "x\<lparr>k_conn := c\<rparr>"] exI[of _ "NClose \<in> set nts \<and> cl_lifetime t"]) (simp add: t_def)
  ultimately show ?thesis using op by blast
qed

lemma conn_do_ok:
  assumes r: "conn_do env n f s = Inr s'" and link: "link_inv w s" and obj: "obj_inv s"
    and f: "\<And>c c'. shape s n \<noteq> None \<Longrightarrow> cl_lifetime s \<Longrightarrow> conn_inv c \<Longrightarrow> f c = Inr c' \<Longrightarrow> c = fst (the (shape s n)) \<Longrightarrow> conn_inv c' \<and> progress c c'"
  shows "op_ok w s s' \<and> obj_inv s' \<and> openFds s' = openFds s"
proof -
  have "cl_lifetime s \<Longrightarrow> conns_inv s" using obj by (simp add: obj_inv_def)
  from conn_do_moved[OF r link this f]
  obtain x y b where c: "op_ok w s s'" "cl_lifetime s' \<longrightarrow> conns_inv s'" "cl_objects s n = Some x" "k_fd y = k_fd x"
    "moved n b (s\<lparr>cl_objects := (cl_objects s)(n \<mapsto> y)\<rparr>) s'" "b \<longrightarrow> cl_lifetime s" by blast
  have "acct (s\<lparr>cl_objects := (cl_objects s)(n \<mapsto> y)\<rparr>)" "fds_acct (s\<lparr>cl_objects := (cl_objects s)(n \<mapsto> y)\<rparr>)"
    using object_books[OF c(3,4)] obj by (simp_all add: obj_inv_def)
  then have "acct s'" "fds_acct s'" using moved_books[OF c(5)] c(6) by simp_all
  moreover have "openFds s' = openFds s" using c(5) by (simp add: moved_def)
  ultimately show ?thesis using c(1,2) by (simp add: obj_inv_def)
qed

section \<open>New connections\<close>

text \<open>The application: callbacks act through the interface of the connection, the TLS hook does nothing to it before it is
  established, and a new socket has sent nothing and has no TLS session.\<close>

definition env_ok :: "client_env \<Rightarrow> bool" where
  "env_ok env \<longleftrightarrow> (\<forall>n. exec_ok (cl_exec env n) \<and> (\<forall>c. cl_exec env n (NTls HandshakeStarted) c = Inr c) \<and>
     wire (cl_network env n) = [] \<and> \<not> ssl (cl_network env n))"

lemma client_callbacks_ok:
  assumes "wire tr = []" "\<not> ssl tr"
  shows "conn_inv (client_callbacks s (TcpConnection fd tr))" "c_state (client_callbacks s (TcpConnection fd tr)) = kConnecting"
    "\<not> ssl (c_tr (client_callbacks s (TcpConnection fd tr)))" "called (client_callbacks s (TcpConnection fd tr)) = []"
proof -
  have i: "conn_inv (TcpConnection fd tr)" using TcpConnection_inv[OF assms(1)] by blast
  show "conn_inv (client_callbacks s (TcpConnection fd tr))"
    unfolding client_callbacks_def Let_def using i set_callback_ok by (cases "cl_tlsHook s") (simp_all only: if_True if_False)
  show "c_state (client_callbacks s (TcpConnection fd tr)) = kConnecting" "\<not> ssl (c_tr (client_callbacks s (TcpConnection fd tr)))"
    "called (client_callbacks s (TcpConnection fd tr)) = []"
    using assms(2) by (simp_all add: client_callbacks_def Let_def TcpConnection_def)
qed

lemma client_establish_ok:
  assumes env: "exec_ok exec" "\<And>c. exec (NTls HandshakeStarted) c = Inr c"
    and c: "conn_inv c" "c_state c = kConnecting" "\<not> ssl (c_tr c)" and r: "client_establish exec tls created c = Inr c'"
  shows "conn_inv c' \<and> progress c c'"
proof -
  define d where "d = (if tls then startTls created (if cb_tls (c_cbs c) then c\<lparr>called := called c @ [NTls HandshakeStarted]\<rparr> else c) else c)"
  have d: "connectEstablished exec d = Inr c'"
    using r env(2) by (cases tls; cases "cb_tls (c_cbs c)") (simp_all add: client_establish_def d_def call_user_def)
  let ?c = "c\<lparr>called := called c @ [NTls HandshakeStarted]\<rparr>"
  have h: "conn_inv ?c" "progress c ?c" "\<not> ssl (c_tr ?c)" "c_state ?c = kConnecting"
    using c called_inv[of "NTls HandshakeStarted"] called_progress[of "NTls HandshakeStarted"] by simp_all
  have st: "c_state (startTls created e) = c_state e" for e by (simp add: startTls_def)
  have "conn_inv d \<and> progress c d \<and> c_state d = kConnecting"
    unfolding d_def using c h startTls_ok[OF c(1,3), of created] startTls_ok[OF h(1,3), of created] st progress_trans[OF h(2)] by simp
  then show ?thesis using connectEstablished_ok[OF env(1) _ _ d] progress_trans by blast
qed

lemma conn_name_fresh:
  assumes "acct s"
  shows "client_connName s \<notin> set (names s)" "shape s (client_connName s) = None"
proof -
  show n: "client_connName s \<notin> set (names s)"
    using to_string_inj by (auto simp: client_connName_def names_def conn_name_of_def)
  show "shape s (client_connName s) = None" using assms n by (auto simp: acct_def books_def)
qed

lemma books_new: "books [] d z ns objs \<Longrightarrow> n \<notin> set ns \<Longrightarrow> books [n] d z (ns @ [n]) (insert n objs)"
  by (auto simp: books_def)

text \<open>The state in which \<open>newConnection\<close> has registered the connection.\<close>

definition registered :: "client_env \<Rightarrow> int \<Rightarrow> client \<Rightarrow> client" where
  "registered env fd s =
     (let n = client_connName s; c = client_callbacks s (TcpConnection fd (cl_network env n))
      in s\<lparr>openFds := insert fd (openFds s), cl_nextConnId := cl_nextConnId s + 1, cl_objects := (cl_objects s)(n \<mapsto> \<lparr>k_conn = c, k_fd = fd, k_gone = False\<rparr>),
           cl_connection := Some n, cl_phase := Ph_Connected, candidates := [], nextCandidate := 0\<rparr>)"

lemma registered_books:
  assumes acct: "acct s" and life: "cl_lifetime s" and none: "cl_connection s = None"
  shows "acct (registered env fd s)"
proof -
  let ?n = "client_connName s" and ?t = "registered env fd s"
  have "live s = []" "live ?t = [?n]" "doomed (cl_tasks ?t) = doomed (cl_tasks s)" "cl_destroyed ?t = cl_destroyed s"
    "cl_assert ?t = cl_assert s" "cl_nextConnId ?t = cl_nextConnId s + 1"
    using life none by (simp_all add: live_def registered_def Let_def)
  moreover have "names ?t = names s @ [?n]" using acct by (simp add: names_def registered_def Let_def acct_def client_connName_def conn_name_of_def)
  moreover have "dom (shape ?t) = insert ?n (dom (shape s))" by (auto simp: shape_def registered_def Let_def)
  ultimately show ?thesis using acct books_new[OF _ conn_name_fresh(1)[OF acct]] by (simp add: acct_def)
qed

lemma registered_shape: "shape (registered env fd s) = (shape s)(client_connName s \<mapsto>
    (client_callbacks s (TcpConnection fd (cl_network env (client_connName s))), fd))"
  by (simp add: shape_def registered_def Let_def fun_eq_iff)

lemma registered_fds:
  assumes "fds_acct s" "acct s" "fd \<notin> openFds s" "isValid fd"
  shows "fds_acct (registered env fd s)"
proof -
  let ?n = "client_connName s"
  have n: "shape s ?n = None" by (rule conn_name_fresh(2)[OF assms(2)])
  have e: "(\<exists>c. shape (registered env fd s) m = Some (c, fd')) \<longleftrightarrow> (m = ?n \<and> fd' = fd) \<or> (\<exists>c. shape s m = Some (c, fd'))" for m fd'
    using n by (auto simp: registered_shape)
  have o: "openFds (registered env fd s) = insert fd (openFds s)" "badClose (registered env fd s) = badClose s" by (simp_all add: registered_def Let_def)
  have f: "openFds s = {fd. \<exists>n c. shape s n = Some (c, fd)}" using assms(1) by (simp add: fds_acct_def)
  then have no: "shape s m \<noteq> Some (c, fd)" for m c using assms(3) by blast
  have "insert fd (openFds s) = {fd'. \<exists>m. (m = ?n \<and> fd' = fd) \<or> (\<exists>c. shape s m = Some (c, fd'))}" unfolding f by blast
  moreover have "\<forall>m k fd'. (m = ?n \<and> fd' = fd) \<or> (\<exists>c. shape s m = Some (c, fd')) \<longrightarrow>
      (k = ?n \<and> fd' = fd) \<or> (\<exists>c. shape s k = Some (c, fd')) \<longrightarrow> m = k"
    using assms(1) no unfolding fds_acct_def by blast
  moreover have "\<not> badClose s" "\<forall>x \<in> insert fd (openFds s). isValid x" using assms(1,4) by (simp_all add: fds_acct_def)
  ultimately show ?thesis unfolding fds_acct_def e o by blast
qed

lemma registered_conns:
  assumes env: "env_ok env" and inv: "conns_inv s" "acct s" and none: "cl_connection s = None"
  shows "conns_inv (registered env fd s)"
  unfolding conns_inv_def
proof (intro allI impI)
  let ?n = "client_connName s"
  fix k d e assume a: "shape (registered env fd s) k = Some (d, e)"
  have c: "cl_connection (registered env fd s) = Some ?n" by (simp add: registered_def Let_def)
  show "conn_inv d \<and> (cl_connection (registered env fd s) = Some k \<longleftrightarrow> NClose \<notin> set (called d))"
  proof (cases "k = ?n")
    case True
    then have d: "d = client_callbacks s (TcpConnection fd (cl_network env ?n))" using a by (auto simp: registered_shape)
    have "wire (cl_network env ?n) = []" "\<not> ssl (cl_network env ?n)" using env by (simp_all add: env_ok_def)
    from client_callbacks_ok[OF this] show ?thesis using True d c by simp
  next
    case False
    then have "shape s k = Some (d, e)" using a by (simp add: registered_shape)
    from conns_invD[OF inv(1) this] show ?thesis using False c none by simp
  qed
qed

lemma registered_link:
  assumes "link_inv w s" "running s = Some a" "cl_connector s = Some a" "cl_phase s = Ph_Connecting"
  shows "link_inv w (registered env fd s)"
proof -
  note i = link_invD[OF assms(1)]
  have "phase_inv (registered env fd s)"
    using i(2) assms(3,4) resolve_other[of Ph_Connecting "cl_gen s" "resolving s" Ph_Connected]
    by (simp add: phase_inv_def registered_def Let_def)
  then show ?thesis using i(1,3,4,5) assms(2,3) by (simp add: link_inv_def current_inv_def running_inv_def registered_def Let_def)
qed

text \<open>The result of a callback of the running connector \<open>a\<close>, which is current: it stays current, or it was told to stop.\<close>

definition answers :: "nat \<Rightarrow> connector \<Rightarrow> client \<Rightarrow> client \<Rightarrow> bool" where
  "answers a w s s' \<longleftrightarrow> link_inv (after_calls s s' w) s' \<and> extends s s' \<and> cl_lifetime s' = cl_lifetime s \<and> obj_inv s' \<and>
     (cl_connector s' = Some a \<longrightarrow> cops s' = cops s) \<and> (cl_connector s' \<noteq> Some a \<longrightarrow> cops s' \<noteq> cops s)"

lemma on_connected_ok:
  assumes env: "env_ok env" and inv: "link_inv w s" "obj_inv s" and cur: "running s = Some a" "cl_connector s = Some a" "cl_phase s = Ph_Connecting"
    and fd: "fd \<notin> openFds s" "isValid fd" and r: "on_connected env a fd s = Inr s'"
  shows "answers a w s s' \<and> openFds s' = insert fd (openFds s) \<and> (cl_connector s' = Some a \<longrightarrow>
    (cl_phase s' = Ph_Connected \<or> cl_phase s' = Ph_Idle) \<and> fixedAddress s' = fixedAddress s \<and> (QAdvance (cl_gen s') a \<in> set (cl_tasks s') \<longleftrightarrow> QAdvance (cl_gen s) a \<in> set (cl_tasks s)))"
proof -
  note i = link_invD[OF inv(1)]
  have p: "cl_lifetime s" "cl_connect s" "cl_connection s = None" using i(2) cur(2,3) by (auto simp: phase_inv_def)
  have a: "a < length (attempts s)" "at_gen (attempts s ! a) = cl_gen s" using i(3) cur(2) by (auto simp: current_inv_def)
  let ?n = "client_connName s" and ?t = "registered env fd s"
  let ?f = "client_establish (cl_exec env ?n) (cl_tlsContext s) (cl_tls_created env ?n)"
  have "on_connected env a fd s = conn_do env ?n ?f ?t"
    using p a cur(2) by (simp add: on_connected_def client_newConnection_def registered_def Let_def client_connName_def client_callbacks_def)
  then have c: "conn_do env ?n ?f ?t = Inr s'" using r by simp
  have o: "conns_inv s" "acct s" "fds_acct s" using inv(2) p(1) by (simp_all add: obj_inv_def)
  have t: "link_inv w ?t" by (rule registered_link[OF inv(1) cur])
  have ob: "obj_inv ?t"
    using registered_conns[OF env o(1,2) p(3)] registered_books[OF o(2) p(1,3)] registered_fds[OF o(3,2) fd] by (simp add: obj_inv_def)
  have e: "wire (cl_network env ?n) = []" "\<not> ssl (cl_network env ?n)" "exec_ok (cl_exec env ?n)"
    "\<And>c. cl_exec env ?n (NTls HandshakeStarted) c = Inr c" using env by (simp_all add: env_ok_def)
  note cc = client_callbacks_ok[OF e(1,2), of s fd]
  have d: "op_ok w ?t s' \<and> obj_inv s' \<and> openFds s' = openFds ?t"
  proof (rule conn_do_ok[OF c t ob])
    fix b b' assume b: "?f b = Inr b'" "b = fst (the (shape ?t ?n))"
    have eq: "b = client_callbacks s (TcpConnection fd (cl_network env ?n))" using b(2) by (simp add: registered_shape)
    show "conn_inv b' \<and> progress b b'" unfolding eq by (rule client_establish_ok[OF e(3,4) cc(1-3) b(1)[unfolded eq]])
  qed
  have same: "running ?t = running s" "cops ?t = cops s" "attempts ?t = attempts s" "cl_connector ?t = cl_connector s" "cl_lifetime ?t = cl_lifetime s"
    "cl_phase ?t = Ph_Connected" "openFds ?t = insert fd (openFds s)" "cl_gen ?t = cl_gen s" "cl_tasks ?t = cl_tasks s"
    "fixedAddress ?t = fixedAddress s"
    by (simp_all add: registered_def Let_def)
  note od = op_okD[OF conjunct1[OF d], unfolded same]
  have "after_calls ?t s' w = after_calls s s' w" "extends ?t s' = extends s s'" by (simp_all add: after_calls_def extends_def same)
  then have ext: "link_inv (after_calls s s' w) s'" "extends s s'" using od(1,2) by simp_all
  have "answers a w s s'" unfolding answers_def
    by (intro conjI impI ext od(3) conjunct1[OF conjunct2[OF d]] od(5)[OF cur(1,2)]) (use od(4)[OF a(1)] in blast)
  moreover have "cl_connector s' = Some a \<longrightarrow> (cl_phase s' = Ph_Connected \<or> cl_phase s' = Ph_Idle) \<and>
      fixedAddress s' = fixedAddress s \<and> (QAdvance (cl_gen s') a \<in> set (cl_tasks s') \<longleftrightarrow> QAdvance (cl_gen s) a \<in> set (cl_tasks s))"
    using od(4)[of a] a(1) by (auto simp: kept_def same)
  ultimately show ?thesis using d same(7) by simp
qed

section \<open>Events of the running connector\<close>

lemma same_obj_inv:
  assumes "same_conns s s'" "obj_inv s"
  shows "obj_inv s'"
proof -
  have m: "moved n False s s'" for n by (rule moved_same[OF assms(1)])
  have sh: "shape s' = shape s" "cl_connection s' = cl_connection s" "cl_lifetime s' = cl_lifetime s"
    using m by (simp_all add: moved_def)
  have "conns_inv s' = conns_inv s" unfolding conns_inv_def sh ..
  then show ?thesis using assms(2) moved_books[OF m] sh(3) by (simp add: obj_inv_def)
qed

definition event_phase :: "cevent \<Rightarrow> client \<Rightarrow> connectPhase" where
  "event_phase e s =
     (if is_failure e \<and> fixedAddress s = None then if nextCandidate s = length (candidates s) then Ph_Idle else cl_phase s
      else if is_failure e then Ph_Idle
      else if e = ConnectAttempt \<or> e = RetryScheduled then Ph_Connecting else cl_phase s)"

definition event_tasks :: "nat \<Rightarrow> cevent \<Rightarrow> client \<Rightarrow> cltask list" where
  "event_tasks a e s = (if is_failure e \<and> fixedAddress s = None then cl_tasks s @ [QAdvance (cl_gen s) a] else cl_tasks s)"

definition noted :: "nat \<Rightarrow> cevent \<Rightarrow> client \<Rightarrow> client" where
  "noted a e s = s\<lparr>cl_phase := event_phase e s, cl_tasks := event_tasks a e s\<rparr>"

lemma handleConnectorEvent_noted: "handleConnectorEvent env a e s = fold do_capi (connector_hook env (noted a e s) e) (noted a e s)"
proof -
  have r: "s\<lparr>cl_phase := cl_phase s, cl_tasks := ts\<rparr> = s\<lparr>cl_tasks := ts\<rparr>" "s\<lparr>cl_phase := p, cl_tasks := cl_tasks s\<rparr> = s\<lparr>cl_phase := p\<rparr>" for ts p
    by (cases s; simp)+
  have "noted a e s = (if is_failure e \<and> fixedAddress s = None
               then let s = (if nextCandidate s = length (candidates s) then s\<lparr>cl_phase := Ph_Idle\<rparr> else s)
                    in queue_task (QAdvance (cl_gen s) a) s
               else if is_failure e then s\<lparr>cl_phase := Ph_Idle\<rparr>
               else if e = ConnectAttempt \<or> e = RetryScheduled then s\<lparr>cl_phase := Ph_Connecting\<rparr>
               else s)"
    by (simp add: noted_def event_phase_def event_tasks_def queue_task_def Let_def r)
  then show ?thesis by (simp add: handleConnectorEvent_def Let_def)
qed

lemma event_phase_kinds: "cl_phase s \<noteq> Ph_Connected \<Longrightarrow> cl_phase s \<noteq> Ph_Resolving \<Longrightarrow> event_phase e s \<noteq> Ph_Connected \<and> event_phase e s \<noteq> Ph_Resolving"
  by (simp add: event_phase_def)

lemma noted_link:
  assumes "link_inv w s" "running s = Some a" "cl_connector s = Some a" "cl_phase s \<noteq> Ph_Connected"
  shows "link_inv w (noted a e s)"
proof -
  note i = link_invD[OF assms(1)]
  have nr: "cl_phase s \<noteq> Ph_Resolving" using i(2) assms(3) by (auto simp: phase_inv_def)
  note k = event_phase_kinds[OF assms(4) nr, of e]
  have "phase_inv (noted a e s)"
    using i(2) assms(3,4) k resolve_other[of "cl_phase s" "cl_gen s" "resolving s" "event_phase e s"] nr
    by (simp add: phase_inv_def noted_def)
  moreover have "advance_inv (length (attempts s)) (event_tasks a e s)"
    using i(4,5) assms(2) by (auto simp: advance_inv_def running_inv_def event_tasks_def)
  ultimately show ?thesis using i(1,3,4) assms(2,3) by (simp add: link_inv_def current_inv_def running_inv_def noted_def)
qed

lemma on_event_ok:
  fixes env :: client_env and e :: cevent
  assumes inv: "link_inv w s" "obj_inv s" and cur: "running s = Some a" "cl_connector s = Some a" "cl_phase s \<noteq> Ph_Connected"
  defines "s' \<equiv> on_event env a e s"
  shows "answers a w s s'" "openFds s' = openFds s" "fixedAddress s' = fixedAddress s"
    "cl_connector s' = Some a \<Longrightarrow> cl_phase s' = event_phase e s \<and> cl_gen s' = cl_gen s \<and>
      (\<forall>g b. QAdvance g b \<in> set (cl_tasks s') \<longleftrightarrow> QAdvance g b \<in> set (event_tasks a e s))"
proof -
  let ?t = "noted a e s"
  note i = link_invD[OF inv(1)]
  have p: "cl_lifetime s" using i(2) cur(2) by (auto simp: phase_inv_def)
  have a: "a < length (attempts s)" "at_gen (attempts s ! a) = cl_gen s" using i(3) cur(2) by (auto simp: current_inv_def)
  have s': "s' = fold do_capi (connector_hook env ?t e) ?t"
    using p a cur(2) by (simp add: s'_def on_event_def handleConnectorEvent_noted)
  have same: "running ?t = running s" "cops ?t = cops s" "attempts ?t = attempts s" "cl_connector ?t = cl_connector s" "cl_lifetime ?t = cl_lifetime s"
    "cl_phase ?t = event_phase e s" "cl_gen ?t = cl_gen s" "cl_tasks ?t = event_tasks a e s"
    by (simp_all add: noted_def)
  have op: "op_ok w ?t s'" unfolding s' by (rule capis_op[OF noted_link[OF inv(1) cur]]) (simp add: same p)
  have "doomed (event_tasks a e s) = doomed (cl_tasks s)" by (simp add: event_tasks_def)
  then have "same_conns s ?t" by (simp add: same_conns_def noted_def)
  then have sc: "same_conns s s'" unfolding s' by (rule same_conns_trans[OF _ same_capis])
  then show "openFds s' = openFds s" "fixedAddress s' = fixedAddress s" by (simp_all add: same_conns_def)
  note od = op_okD[OF op, unfolded same]
  have "after_calls ?t s' w = after_calls s s' w" "extends ?t s' = extends s s'" by (simp_all add: after_calls_def extends_def same)
  then have ext: "link_inv (after_calls s s' w) s'" "extends s s'" using od(1,2) by simp_all
  show "answers a w s s'" unfolding answers_def
    by (intro conjI impI ext od(3) same_obj_inv[OF sc inv(2)] od(5)[OF cur(1,2)]) (use od(4)[OF a(1)] in blast)
  have nc: "event_phase e s \<noteq> Ph_Connected" using cur(3) by (simp add: event_phase_def)
  assume "cl_connector s' = Some a"
  then have "kept ?t s'" using od(4)[OF a(1)] by blast
  then show "cl_phase s' = event_phase e s \<and> cl_gen s' = cl_gen s \<and>
      (\<forall>g b. QAdvance g b \<in> set (cl_tasks s') \<longleftrightarrow> QAdvance g b \<in> set (event_tasks a e s))"
    using nc by (simp add: kept_def same)
qed

end
