(* ===== verification/Tcp_Client_Run.thy ===== *)
theory Tcp_Client_Run
  imports Tcp_Client_Proofs
begin

text \<open>
  Steps of the connectors of a client, the invariant over all events, and the properties of a client: it keeps one connection, it never
  waits for nothing, and every descriptor has one owner.
\<close>

section \<open>Steps of a connector\<close>

text \<open>Which channel a connector has after its operations.\<close>

definition chan_le :: "connector \<Rightarrow> connector \<Rightarrow> bool" where
  "chan_le w w' \<longleftrightarrow> cchannel w' = None \<or> cchannel w' = cchannel w"

lemma chan_le_refl [simp]: "chan_le w w"
  by (simp add: chan_le_def)

lemma chan_le_trans: "chan_le u v \<Longrightarrow> chan_le v w \<Longrightarrow> chan_le u w"
  by (auto simp: chan_le_def)

lemma stop_chan: "cchannel (Connector_Model.stop w) = None"
  by (simp add: Connector_Model.stop_def Let_def removeAndResetChannel_def Connector_Model.queueInLoop_def sockets_close_def split: option.split)

lemma start_chan: "cchannel (Connector_Model.start w) = cchannel w"
  by (simp add: Connector_Model.start_def Let_def Connector_Model.queueInLoop_def)

lemma cop_chan: "chan_le w (do_cop c w)"
  by (cases c) (simp_all add: chan_le_def stop_chan start_chan restart_def Let_def)

lemma cops_chan: "chan_le w (fold do_cop cs w)"
  by (induction cs arbitrary: w) (auto intro: chan_le_trans[OF cop_chan])

lemma emitEvent_chan: "chan_le w (emitEvent ecb e w)"
  using cops_chan[of "w\<lparr>emitted := emitted w @ [e]\<rparr>"] by (simp add: emitEvent_def Let_def chan_le_def)

lemma scheduleRetry_chan: "chan_le w (scheduleRetry ecb gen w)"
  unfolding scheduleRetry_def runAfter_def Let_def prod.case by (rule chan_le_trans[OF _ emitEvent_chan]) (simp add: chan_le_def)

lemma fail_chan: "chan_le w (Connector_Model.fail ecb fd e gen r w)"
proof -
  let ?w = "(sockets_close fd (cancelTimers w))\<lparr>cphase_of := CIdle\<rparr>"
  have "chan_le w ?w" by (simp add: chan_le_def sockets_close_def)
  then have "chan_le w (emitEvent ecb e ?w)" by (rule chan_le_trans[OF _ emitEvent_chan])
  then show ?thesis using chan_le_trans[OF _ scheduleRetry_chan] by (simp add: Connector_Model.fail_def Let_def)
qed

definition created_fds :: "Connector_Model.conn_event \<Rightarrow> int set" where
  "created_fds e = (case e of Connector_Model.EvTask (Inr fd) err \<Rightarrow> {fd} | _ \<Rightarrow> {})"

lemma startInLoop_chan:
  "chan_le w (startInLoop ecb created err gen w) \<or> (\<exists>fd g. created = Inr fd \<and> cchannel (startInLoop ecb created err gen w) = Some (fd, g))"
proof -
  define v where "v = emitEvent ecb ConnectAttempt (w\<lparr>cphase_of := Connecting\<rparr>)"
  have v: "chan_le w v" using emitEvent_chan[of "w\<lparr>cphase_of := Connecting\<rparr>" ecb ConnectAttempt] by (simp add: v_def chan_le_def)
  have f: "chan_le w (Connector_Model.fail ecb fd e g r v)" for fd e g r by (rule chan_le_trans[OF v fail_chan])
  have f': "chan_le w (Connector_Model.fail ecb fd e g r (v\<lparr>openFds := X\<rparr>))" for fd e g r X
    by (rule chan_le_trans[OF _ fail_chan]) (use v in \<open>simp add: chan_le_def\<close>)
  have c: "cchannel (connecting fd g u) = Some (fd, g)" for fd g u by (simp add: connecting_def runAfter_def Let_def)
  show ?thesis using v f f' c by (simp add: startInLoop_def v_def[symmetric] Let_def split: sum.split)
qed

lemma removed_chan: "cchannel (snd (removeAndResetChannel w)) = None"
  by (simp add: removeAndResetChannel_def Connector_Model.queueInLoop_def split: option.split)

lemma chan_none: "chan_le w w' \<Longrightarrow> cchannel w = None \<Longrightarrow> cchannel w' = None"
  by (simp add: chan_le_def)

lemma handleWrite_chan:
  assumes "generation w = gen" "cphase_of w = Connecting"
  shows "cchannel (Connector_Model.handleWrite ecb ncb err l p gen w) = None"
proof -
  obtain sock v where v: "removeAndResetChannel (cancelTimers w) = (sock, v)" by fastforce
  have n: "cchannel v = None" using removed_chan[of "cancelTimers w"] v by simp
  have f: "cchannel (Connector_Model.fail ecb sock e gen True v) = None" for e by (rule chan_none[OF fail_chan n])
  have e: "cchannel (emitEvent ecb ConnectSuccess (v\<lparr>cphase_of := Connected\<rparr>)) = None" by (rule chan_none[OF emitEvent_chan]) (simp add: n)
  have d: "cchannel (Socket_dtor fd u) = cchannel u" for fd and u :: connector by (simp add: Socket_dtor_def sockets_close_def)
  have c: "cchannel u = None \<Longrightarrow> cchannel (fold do_cop cs u) = None" for cs and u :: connector by (rule chan_none[OF cops_chan])
  show ?thesis using assms v f e d c by (simp add: Connector_Model.handleWrite_def Let_def split: option.split prod.split)
qed

lemma conn_step_chan:
  assumes "Connector_Model.cinv {} w" "event_ok e"
  shows "openFds (conn_step ecb ncb e w) \<subseteq> openFds w \<union> created_fds e"
proof -
  have "Connector_Model.cinv {} (conn_step ecb ncb e w)" using conn_step_ok[OF assms, of ecb ncb] by (auto simp: step_ok_def)
  then have o: "openFds (conn_step ecb ncb e w) = chan_fds (conn_step ecb ncb e w)" "openFds w = chan_fds w"
    using assms(1) by (simp_all add: Connector_Model.cinv_def cinv0_def fds_inv_def)
  have le: "chan_le w w' \<Longrightarrow> chan_fds w' \<subseteq> chan_fds w" for w w' by (auto simp: chan_le_def chan_fds_def)
  have "chan_le w (conn_step ecb ncb e w) \<or> (\<exists>fd g. fd \<in> created_fds e \<and> cchannel (conn_step ecb ncb e w) = Some (fd, g))"
  proof (cases e)
    case (EvTask created err)
    have st: "chan_le w (startInLoop ecb created err g (w\<lparr>ctasks := ts\<rparr>)) \<or>
        (\<exists>fd h. fd \<in> created_fds e \<and> cchannel (startInLoop ecb created err g (w\<lparr>ctasks := ts\<rparr>)) = Some (fd, h))" for g ts
      using startInLoop_chan[of "w\<lparr>ctasks := ts\<rparr>" ecb created err g] EvTask by (auto simp: chan_le_def created_fds_def)
    show ?thesis
    proof (cases "ctasks w")
      case (Cons t ts)
      then show ?thesis using EvTask st by (cases t) (simp_all add: chan_le_def)
    qed (simp add: EvTask)
  next
    case (EvWrite g err l p)
    then show ?thesis using handleWrite_chan[of w g ecb ncb err l p] by (auto simp: chan_le_def Connector_Model.handleWrite_def)
  next
    case (EvError g)
    obtain sock v where v: "removeAndResetChannel w = (sock, v)" by fastforce
    have "cchannel (Connector_Model.fail ecb sock ConnectFailed g True v) = None"
      by (rule chan_none[OF fail_chan]) (use removed_chan[of w] v in simp)
    then show ?thesis using EvError v by (simp add: Connector_Model.handleError_def chan_le_def)
  next
    case (EvTimer i)
    have r: "chan_le w (retry_callback g (w\<lparr>ctimers := m\<rparr>))" for g m by (simp add: retry_callback_def chan_le_def start_chan)
    have t: "chan_le w (handleConnectTimeout ecb g (w\<lparr>ctimers := m\<rparr>))" for g m
    proof -
      obtain sock v where v: "removeAndResetChannel (w\<lparr>ctimers := m, connectTimeoutTimerId := 0\<rparr>) = (sock, v)" by fastforce
      have "cchannel (Connector_Model.fail ecb sock ConnectTimeout g True v) = None"
        by (rule chan_none[OF fail_chan]) (use removed_chan[of "w\<lparr>ctimers := m, connectTimeoutTimerId := 0\<rparr>"] v in simp)
      then show ?thesis using v by (simp add: handleConnectTimeout_def chan_le_def)
    qed
    show ?thesis using EvTimer r t by (auto split: option.split ctimer.split)
  qed (simp add: cop_chan)
  then show ?thesis unfolding o using le by (auto simp: chan_fds_def)
qed

text \<open>A connector that waits for its start has the functor queued.\<close>

lemma idle_queued [simp]: "cphase_of w \<noteq> StartQueued \<Longrightarrow> queued w"
  by (simp add: queued_def)

lemma start_queued: "queued w \<Longrightarrow> queued (Connector_Model.start w)"
  by (auto simp: queued_def Connector_Model.start_def Let_def Connector_Model.queueInLoop_def)

lemma cop_queued: "queued w \<Longrightarrow> queued (do_cop c w)"
  by (cases c) (simp_all add: start_queued restart_def Let_def)

lemma cops_queued: "queued w \<Longrightarrow> queued (fold do_cop cs w)"
  by (induction cs arbitrary: w) (simp_all add: cop_queued)

lemma emitEvent_queued: "queued w \<Longrightarrow> queued (emitEvent ecb e w)"
  by (simp add: emitEvent_def Let_def) (rule cops_queued, simp add: queued_def)

lemma scheduleRetry_queued: "queued (scheduleRetry ecb gen w)"
  unfolding scheduleRetry_def runAfter_def Let_def prod.case by (rule emitEvent_queued) simp

lemma fail_queued: "queued (Connector_Model.fail ecb fd e gen b w)"
  using emitEvent_queued[of "(sockets_close fd (cancelTimers w))\<lparr>cphase_of := CIdle\<rparr>" ecb e]
  by (simp add: Connector_Model.fail_def Let_def scheduleRetry_queued)

lemma startInLoop_queued:
  assumes "queued w" "ctasks w = QStart g # ts"
  shows "queued (startInLoop ecb created err g (w\<lparr>ctasks := ts\<rparr>))"
proof (cases "generation w = g \<and> cphase_of w = StartQueued")
  case True
  let ?v = "emitEvent ecb ConnectAttempt (w\<lparr>ctasks := ts, cphase_of := Connecting\<rparr>)"
  have v: "queued ?v" by (rule emitEvent_queued) simp
  have c: "queued (connecting fd g (?v\<lparr>openFds := X\<rparr>))" if "cphase_of ?v = Connecting" for fd X
    by (rule idle_queued) (simp add: connecting_def runAfter_def Let_def that)
  show ?thesis using True v c fail_queued unfolding startInLoop_def Let_def by (simp split: sum.split)
next
  case False
  then have "queued (w\<lparr>ctasks := ts\<rparr>)" using assms by (auto simp: queued_def)
  then show ?thesis using False by (auto simp: startInLoop_def)
qed

lemma handleWrite_queued: "queued w \<Longrightarrow> queued (Connector_Model.handleWrite ecb ncb err l p gen w)"
proof -
  assume w: "queued w"
  obtain sock v where v: "removeAndResetChannel (cancelTimers w) = (sock, v)" by fastforce
  let ?u = "emitEvent ecb ConnectSuccess (v\<lparr>cphase_of := Connected\<rparr>)"
  have u: "queued ?u" by (rule emitEvent_queued) simp
  have d: "queued u \<Longrightarrow> queued (Socket_dtor fd u)" for fd and u :: connector by (simp add: queued_def Socket_dtor_def sockets_close_def)
  have c: "queued (fold do_cop cs (?u\<lparr>openFds := X, handed := h\<rparr>))" for cs X h by (rule cops_queued) (use u in \<open>simp add: queued_def\<close>)
  have i: "queued (Socket_dtor fd (?u\<lparr>cphase_of := CIdle\<rparr>))" for fd by (rule d) simp
  show ?thesis using w v d[OF u] d[OF c] i fail_queued
    by (auto simp: Connector_Model.handleWrite_def Let_def split: option.split prod.split)
qed

lemma conn_step_queued:
  assumes "queued w"
  shows "queued (conn_step ecb ncb ev w)"
proof (cases ev)
  case (EvTask created err)
  show ?thesis
  proof (cases "ctasks w")
    case (Cons t ts)
    show ?thesis
    proof (cases t)
      case (QStart g)
      then show ?thesis using startInLoop_queued[OF assms, of g ts] EvTask Cons by simp
    next
      case (QRetire fd)
      then show ?thesis using assms EvTask Cons by (auto simp: queued_def)
    qed
  qed (simp add: EvTask assms)
next
  case (EvWrite g err l p)
  then show ?thesis using handleWrite_queued[OF assms] by simp
next
  case (EvError g)
  then show ?thesis using assms fail_queued by (simp add: Connector_Model.handleError_def split: prod.split)
next
  case (EvTimer i)
  have w: "queued (w\<lparr>ctimers := m\<rparr>)" for m using assms by (simp add: queued_def)
  have r: "queued (retry_callback g (w\<lparr>ctimers := m\<rparr>))" for g m
    using w by (auto simp: retry_callback_def intro: start_queued)
  have t: "queued (handleConnectTimeout ecb g (w\<lparr>ctimers := m\<rparr>))" for g m
    using w fail_queued by (simp add: handleConnectTimeout_def split: prod.split)
  show ?thesis using EvTimer assms r t by (auto split: option.split ctimer.split)
next
  case (EvOp c)
  then show ?thesis using cop_queued[OF assms] by simp
qed

text \<open>Calls that the client makes on the running connector are stops.\<close>

lemma stops:
  "emitted ((do_cop OpStop ^^ k) w) = emitted w" "generation ((do_cop OpStop ^^ k) w) = generation w + k"
  "k \<noteq> 0 \<Longrightarrow> cphase_of ((do_cop OpStop ^^ k) w) = CIdle" "retryEnabled ((do_cop OpStop ^^ k) w) = retryEnabled w"
proof -
  have g: "generation (Connector_Model.stop w) = Suc (generation w)" "retryEnabled (Connector_Model.stop w) = retryEnabled w" for w
    by (simp_all add: Connector_Model.stop_def Let_def removeAndResetChannel_def Connector_Model.queueInLoop_def sockets_close_def split: option.split)
  show "retryEnabled ((do_cop OpStop ^^ k) w) = retryEnabled w" by (induction k) (simp_all add: g)
  show "emitted ((do_cop OpStop ^^ k) w) = emitted w" by (induction k) (simp_all add: stop_emitted)
  show "generation ((do_cop OpStop ^^ k) w) = generation w + k" by (induction k) (simp_all add: g)
  show "k \<noteq> 0 \<Longrightarrow> cphase_of ((do_cop OpStop ^^ k) w) = CIdle" by (cases k) simp_all
qed

lemma after_calls_cases:
  assumes "extends s s'"
  shows "emitted (after_calls s s' w) = emitted w" "retryEnabled (after_calls s s' w) = retryEnabled w"
    "cops s' = cops s \<Longrightarrow> after_calls s s' w = w"
    "cops s' \<noteq> cops s \<Longrightarrow> cphase_of (after_calls s s' w) = CIdle \<and> generation w < generation (after_calls s s' w)"
proof -
  obtain k where k: "cops s' = cops s @ replicate k OpStop" using assms by (auto simp: extends_def)
  then have w: "after_calls s s' w = (do_cop OpStop ^^ k) w" by (simp add: after_calls_def)
  show "emitted (after_calls s s' w) = emitted w" "retryEnabled (after_calls s s' w) = retryEnabled w" by (simp_all add: w stops)
  show "cops s' = cops s \<Longrightarrow> after_calls s s' w = w" by simp
  show "cops s' \<noteq> cops s \<Longrightarrow> cphase_of (after_calls s s' w) = CIdle \<and> generation w < generation (after_calls s s' w)"
    using k by (simp add: w stops)
qed

text \<open>Connector \<open>a\<close> is in the middle of a step that began in client state \<open>s0\<close> with \<open>n\<close> events; \<open>s\<close> is the state of the client now.\<close>

definition runs :: "client_env \<Rightarrow> nat \<Rightarrow> client \<Rightarrow> nat \<Rightarrow> connector \<Rightarrow> client \<Rightarrow> bool" where
  "runs env a s0 n w s \<longleftrightarrow> n \<le> length (emitted w) \<and> fold (on_event env a) (drop n (emitted w)) s0 = s \<and>
     link_inv w s \<and> obj_inv s \<and> running s = Some a \<and> extends s0 s \<and> openFds s = openFds s0 \<and>
     fixedAddress s = fixedAddress s0 \<and> (fixedAddress s0 = None \<longrightarrow> \<not> retryEnabled w)"

lemma runsD:
  assumes "runs env a s0 n w s"
  shows "n \<le> length (emitted w)" "fold (on_event env a) (drop n (emitted w)) s0 = s" "link_inv w s" "obj_inv s" "running s = Some a"
    "extends s0 s" "openFds s = openFds s0" "fixedAddress s = fixedAddress s0" "fixedAddress s0 = None \<Longrightarrow> \<not> retryEnabled w"
  using assms by (simp_all add: runs_def)

lemma runs_frame:
  assumes "runs env a s0 n w s" "cl_connector s = Some a" "emitted w' = emitted w" "retryEnabled w' = retryEnabled w"
  shows "runs env a s0 n w' s"
proof -
  have "link_inv w' s" using runsD(3,5)[OF assms(1)] assms(2) by (simp add: link_inv_def running_inv_def)
  then show ?thesis using assms(1,3,4) by (simp add: runs_def)
qed

lemma runs_phase:
  assumes "runs env a s0 n w s" "emitted w' = emitted w" "cphase_of w' = cphase_of w" "retryEnabled w' = retryEnabled w"
  shows "runs env a s0 n w' s"
proof -
  have "link_inv w' s" using runsD(3)[OF assms(1)] assms(3) by (simp add: link_inv_def running_inv_def)
  then show ?thesis using assms(1,2,4) by (simp add: runs_def)
qed

text \<open>The client detached the connector: it is stopped and has a new generation.\<close>

definition detached :: "nat \<Rightarrow> connector \<Rightarrow> connector \<Rightarrow> client \<Rightarrow> bool" where
  "detached a w w' s' \<longleftrightarrow> cl_connector s' \<noteq> Some a \<and> cphase_of w' = CIdle \<and> generation w < generation w'"

lemma emit_runs:
  fixes e :: cevent
  assumes r: "runs env a s0 n w s" and cur: "cl_connector s = Some a" "cl_phase s \<noteq> Ph_Connected"
  defines "w' \<equiv> emitEvent (event_calls env a s0 n) e w" and "s' \<equiv> on_event env a e s"
  shows "runs env a s0 n w' s'"
    "detached a w w' s' \<or> cl_connector s' = Some a \<and> w' = w\<lparr>emitted := emitted w @ [e]\<rparr> \<and> cl_phase s' = event_phase e s \<and>
       cl_gen s' = cl_gen s \<and> (\<forall>g b. QAdvance g b \<in> set (cl_tasks s') \<longleftrightarrow> QAdvance g b \<in> set (event_tasks a e s))"
proof -
  let ?w = "w\<lparr>emitted := emitted w @ [e]\<rparr>"
  note d = runsD[OF r]
  have l: "link_inv ?w s" using d(3) by (simp add: link_inv_def running_inv_def)
  note ev = on_event_ok[OF l d(4,5) cur, of env e, folded s'_def]
  have an: "link_inv (after_calls s s' ?w) s'" "extends s s'" "obj_inv s'" "cl_connector s' = Some a \<Longrightarrow> cops s' = cops s"
    "cl_connector s' \<noteq> Some a \<Longrightarrow> cops s' \<noteq> cops s"
    using ev(1) by (simp_all add: answers_def)
  have "fold (on_event env a) (butlast (drop n (emitted ?w))) s0 = s" using d(1,2) by (simp add: butlast_append)
  then have w': "w' = after_calls s s' ?w"
    by (simp add: w'_def emitEvent_def Let_def event_calls_def after_calls_def s'_def)
  note ac = after_calls_cases[OF an(2), of ?w, folded w']
  show "runs env a s0 n w' s'"
    using d an ac(1,2) ev(2,3) extends_trans[OF d(6) an(2)] unfolding runs_def w'[symmetric] by (simp add: s'_def extends_def)
  show "detached a w w' s' \<or> cl_connector s' = Some a \<and> w' = w\<lparr>emitted := emitted w @ [e]\<rparr> \<and> cl_phase s' = event_phase e s \<and>
       cl_gen s' = cl_gen s \<and> (\<forall>g b. QAdvance g b \<in> set (cl_tasks s') \<longleftrightarrow> QAdvance g b \<in> set (event_tasks a e s))"
  proof (cases "cl_connector s' = Some a")
    case True
    then show ?thesis using ev(4) ac(3) an(4) by blast
  next
    case False
    then show ?thesis using ac(4) an(5) by (simp add: detached_def)
  qed
qed

text \<open>The step is over, and phase and connector fit again.\<close>

definition settled :: "client_env \<Rightarrow> nat \<Rightarrow> client \<Rightarrow> nat \<Rightarrow> connector \<Rightarrow> bool" where
  "settled env a s0 n w \<longleftrightarrow> (\<exists>s. runs env a s0 n w s \<and>
     (cl_connector s = Some a \<longrightarrow> matches (cl_phase s) w (QAdvance (cl_gen s) a \<in> set (cl_tasks s))))"

lemma settledI: "runs env a s0 n w s \<Longrightarrow> (cl_connector s = Some a \<Longrightarrow> matches (cl_phase s) w (QAdvance (cl_gen s) a \<in> set (cl_tasks s))) \<Longrightarrow>
    settled env a s0 n w"
  unfolding settled_def by blast

lemma detached_settled: "runs env a s0 n w' s \<Longrightarrow> detached a w w' s \<Longrightarrow> settled env a s0 n w'"
  by (rule settledI) (auto simp: detached_def)

lemma emitted_cancelTimers [simp]: "emitted (cancelTimers w) = emitted w"
  by (simp add: cancelTimers_def Let_def)

lemma scheduleRetry_settled:
  assumes r: "runs env a s0 n w s" and cur: "cl_connector s = Some a" "cl_phase s \<noteq> Ph_Connected" and q: "QAdvance (cl_gen s) a \<notin> set (cl_tasks s)"
  shows "settled env a s0 n (scheduleRetry (event_calls env a s0 n) gen w)"
proof -
  obtain w1 where w1: "scheduleRetry (event_calls env a s0 n) gen w = emitEvent (event_calls env a s0 n) RetryScheduled w1"
    "emitted w1 = emitted w" "cphase_of w1 = RetryWaiting" "retryEnabled w1 = retryEnabled w"
    by (simp add: scheduleRetry_def runAfter_def Let_def)
  have r1: "runs env a s0 n w1 s" by (rule runs_frame[OF r cur(1) w1(2,4)])
  note e = emit_runs[OF r1 cur, of RetryScheduled, folded w1(1)]
  have ph: "event_phase RetryScheduled s = Ph_Connecting" "event_tasks a RetryScheduled s = cl_tasks s"
    by (simp_all add: event_phase_def event_tasks_def is_failure_def)
  show ?thesis
    by (rule settledI[OF e(1)]) (use e(2) ph w1(3) q in \<open>auto simp: detached_def matches_def\<close>)
qed

lemma fail_settled:
  assumes r: "runs env a s0 n w s" and cur: "cl_connector s = Some a" "cl_phase s = Ph_Connecting" and g: "generation w = gen" and e: "is_failure e"
    and q: "QAdvance (cl_gen s) a \<notin> set (cl_tasks s)"
  shows "settled env a s0 n (Connector_Model.fail (event_calls env a s0 n) fd e gen b w)"
proof -
  define w1 where "w1 = (sockets_close fd (cancelTimers w))\<lparr>cphase_of := CIdle\<rparr>"
  have w1: "emitted w1 = emitted w" "generation w1 = gen" "cphase_of w1 = CIdle" "retryEnabled w1 = retryEnabled w"
    using g by (simp_all add: w1_def sockets_close_def)
  have r1: "runs env a s0 n w1 s" by (rule runs_frame[OF r cur(1) w1(1,4)])
  define w2 where "w2 = emitEvent (event_calls env a s0 n) e w1"
  define s2 where "s2 = on_event env a e s"
  have nc: "cl_phase s \<noteq> Ph_Connected" using cur(2) by simp
  note em = emit_runs[OF r1 cur(1) nc, of e, folded w2_def s2_def]
  have f: "Connector_Model.fail (event_calls env a s0 n) fd e gen b w =
      (if generation w2 = gen \<and> cphase_of w2 = CIdle \<and> retryEnabled w2 \<and> b then scheduleRetry (event_calls env a s0 n) gen w2 else w2)"
    by (simp add: Connector_Model.fail_def w2_def w1_def Let_def)
  show ?thesis
  proof (cases "cl_connector s2 = Some a")
    case False
    then have d: "detached a w1 w2 s2" using em(2) by blast
    then show ?thesis using detached_settled[OF em(1) d] w1(2) unfolding f by (simp add: detached_def)
  next
    case True
    then have k: "w2 = w1\<lparr>emitted := emitted w1 @ [e]\<rparr>" "cl_phase s2 = event_phase e s" "cl_gen s2 = cl_gen s"
      "\<And>g b. QAdvance g b \<in> set (cl_tasks s2) \<longleftrightarrow> QAdvance g b \<in> set (event_tasks a e s)"
      using em(2) by (auto simp: detached_def)
    have nc2: "cl_phase s2 \<noteq> Ph_Connected" using k(2) cur(2) e by (simp add: event_phase_def)
    have "matches (cl_phase s2) w2 (QAdvance (cl_gen s2) a \<in> set (cl_tasks s2))"
      using k e w1(3) q cur(2) by (cases "fixedAddress s") (auto simp: matches_def event_phase_def event_tasks_def)
    then have "settled env a s0 n w2" by (intro settledI[OF em(1)])
    moreover have "QAdvance (cl_gen s2) a \<notin> set (cl_tasks s2)" if "retryEnabled w2"
      using that runsD(8,9)[OF em(1)] runsD(8)[OF r] k(3,4) q by (auto simp: event_tasks_def)
    ultimately show ?thesis using scheduleRetry_settled[OF em(1) True nc2] unfolding f by simp
  qed
qed

lemma startInLoop_settled:
  assumes r: "runs env a s0 n w s" and cur: "cl_connector s = Some a" "cl_phase s = Ph_Connecting"
    and m: "matches (cl_phase s) w (QAdvance (cl_gen s) a \<in> set (cl_tasks s))"
  shows "settled env a s0 n (startInLoop (event_calls env a s0 n) created err gen w)"
proof (cases "generation w \<noteq> gen \<or> cphase_of w \<noteq> StartQueued")
  case True
  then show ?thesis using settledI[OF r m] by (simp add: startInLoop_def)
next
  case False
  define w1 where "w1 = w\<lparr>cphase_of := Connecting\<rparr>"
  have q: "QAdvance (cl_gen s) a \<notin> set (cl_tasks s)" using m False by (auto simp: matches_def)
  have r1: "runs env a s0 n w1 s" by (rule runs_frame[OF r cur(1)]) (simp_all add: w1_def)
  define w2 where "w2 = emitEvent (event_calls env a s0 n) ConnectAttempt w1"
  define s2 where "s2 = on_event env a ConnectAttempt s"
  have nc: "cl_phase s \<noteq> Ph_Connected" using cur(2) by simp
  note em = emit_runs[OF r1 cur(1) nc, of ConnectAttempt, folded w2_def s2_def]
  have run: "startInLoop (event_calls env a s0 n) created err gen w =
      (if generation w2 \<noteq> gen \<or> cphase_of w2 \<noteq> Connecting then w2
       else case created of Inl e \<Rightarrow> Connector_Model.fail (event_calls env a s0 n) kInvalidSocket ConnectFailed gen (isConnectRetryable e) w2
          | Inr fd \<Rightarrow> (let w3 = w2\<lparr>openFds := insert fd (openFds w2)\<rparr> in
              if err = 0 \<or> isInProgress err \<or> isInterrupted err then connecting fd gen w3
              else Connector_Model.fail (event_calls env a s0 n) fd ConnectFailed gen (isConnectRetryable err) w3))"
    using False unfolding startInLoop_def w2_def w1_def Let_def by simp
  show ?thesis
  proof (cases "cl_connector s2 = Some a")
    case False
    then have d: "detached a w1 w2 s2" using em(2) by blast
    then have "cphase_of w2 \<noteq> Connecting" by (simp add: detached_def)
    then show ?thesis using detached_settled[OF em(1) d] unfolding run by simp
  next
    case True
    then have k: "w2 = w1\<lparr>emitted := emitted w1 @ [ConnectAttempt]\<rparr>" "cl_phase s2 = Ph_Connecting" "QAdvance (cl_gen s2) a \<notin> set (cl_tasks s2)"
      using em(2) q by (auto simp: detached_def event_phase_def event_tasks_def is_failure_def)
    have g: "generation w2 = gen" "cphase_of w2 = Connecting" using k(1) False by (simp_all add: w1_def)
    have f: "is_failure ConnectFailed" by (simp add: is_failure_def)
    have r3: "runs env a s0 n (w2\<lparr>openFds := X\<rparr>) s2" for X by (rule runs_frame[OF em(1) True]) simp_all
    have fail: "settled env a s0 n (Connector_Model.fail (event_calls env a s0 n) fd ConnectFailed gen b (w2\<lparr>openFds := X\<rparr>))" for fd b X
      by (rule fail_settled[OF r3 True k(2) _ f k(3)]) (simp add: g)
    have fail0: "settled env a s0 n (Connector_Model.fail (event_calls env a s0 n) fd ConnectFailed gen b w2)" for fd b
      by (rule fail_settled[OF em(1) True k(2) g(1) f k(3)])
    have c: "emitted (connecting fd gen u) = emitted u" "cphase_of (connecting fd gen u) = cphase_of u" "retryEnabled (connecting fd gen u) = retryEnabled u" for fd u
      by (simp_all add: connecting_def runAfter_def Let_def)
    have "settled env a s0 n (connecting fd gen (w2\<lparr>openFds := X\<rparr>))" for fd X
      by (rule settledI[OF runs_frame[OF em(1) True]]) (use k(2,3) g(2) in \<open>simp_all add: c matches_def\<close>)
    then show ?thesis using fail fail0 g unfolding run by (simp add: Let_def split: sum.split)
  qed
qed

text \<open>Nothing but the new-connection callback hands out descriptors, and calls do not emit events.\<close>

lemma cop_quiet: "handed (do_cop c w) = handed w" "emitted (do_cop c w) = emitted w"
proof -
  have "handed (Connector_Model.stop w) = handed w" "handed (Connector_Model.start w) = handed w" "emitted (Connector_Model.start w) = emitted w" for w
    by (simp_all add: Connector_Model.stop_def Connector_Model.start_def Let_def removeAndResetChannel_def Connector_Model.queueInLoop_def
        sockets_close_def split: option.split)
  then show "handed (do_cop c w) = handed w" "emitted (do_cop c w) = emitted w"
    by (cases c; simp add: restart_def Let_def stop_emitted)+
qed

lemma cops_quiet: "handed (fold do_cop cs w) = handed w" "emitted (fold do_cop cs w) = emitted w"
  by (induction cs arbitrary: w) (simp_all add: cop_quiet)

lemma handed_fail: "handed (emitEvent ecb e w) = handed w" "handed (scheduleRetry ecb gen w) = handed w" "handed (Connector_Model.fail ecb fd e gen b w) = handed w"
proof -
  show em: "handed (emitEvent ecb e w) = handed w" for e w by (simp add: emitEvent_def Let_def cops_quiet)
  show sr: "handed (scheduleRetry ecb gen w) = handed w" for w by (simp add: scheduleRetry_def runAfter_def Let_def em)
  show "handed (Connector_Model.fail ecb fd e gen b w) = handed w" by (simp add: Connector_Model.fail_def Let_def em sr sockets_close_def)
qed

lemma removed_quiet:
  assumes "removeAndResetChannel w = (sock, v)"
  shows "emitted v = emitted w" "handed v = handed w" "generation v = generation w" "retryEnabled v = retryEnabled w"
  using assms by (auto simp: removeAndResetChannel_def Connector_Model.queueInLoop_def split: option.splits)

text \<open>What a step of the current connector comes to: it is settled, or it hands a descriptor to the client.\<close>

definition hands_over :: "client_env \<Rightarrow> nat \<Rightarrow> client \<Rightarrow> nat \<Rightarrow> connector \<Rightarrow> connector \<Rightarrow> int \<Rightarrow> bool" where
  "hands_over env a s0 n w w' fd \<longleftrightarrow> (\<exists>v s. runs env a s0 n v s \<and> cl_connector s = Some a \<and> cl_phase s = Ph_Connecting \<and> cphase_of v = Connected \<and> QAdvance (cl_gen s) a \<notin> set (cl_tasks s) \<and>
     handed w' = handed w @ [fd] \<and> w' = fold do_cop (connected_calls env a s0 n v fd) v)"

lemma handleWrite_settled:
  fixes err :: int and l p :: sockaddr and gen :: nat
  assumes r: "runs env a s0 n w s" and cur: "cl_connector s = Some a" "cl_phase s = Ph_Connecting"
    and m: "matches (cl_phase s) w (QAdvance (cl_gen s) a \<in> set (cl_tasks s))"
  defines "w' \<equiv> Connector_Model.handleWrite (event_calls env a s0 n) (Some (connected_calls env a s0 n)) err l p gen w"
  shows "settled env a s0 n w' \<and> handed w' = handed w \<or> (\<exists>fd. hands_over env a s0 n w w' fd)"
proof (cases "generation w \<noteq> gen \<or> cphase_of w \<noteq> Connecting")
  case True
  then show ?thesis using settledI[OF r m] by (simp add: w'_def Connector_Model.handleWrite_def)
next
  case False
  obtain sock v where v: "removeAndResetChannel (cancelTimers w) = (sock, v)" by fastforce
  note q = removed_quiet[OF v]
  have q': "emitted v = emitted w" "handed v = handed w" "generation v = gen" "retryEnabled v = retryEnabled w" using q False by simp_all
  have nq: "QAdvance (cl_gen s) a \<notin> set (cl_tasks s)" using m False by (auto simp: matches_def)
  have rv: "runs env a s0 n v s" by (rule runs_frame[OF r cur(1) q'(1,4)])
  define w1 where "w1 = v\<lparr>cphase_of := Connected\<rparr>"
  define w2 where "w2 = emitEvent (event_calls env a s0 n) ConnectSuccess w1"
  have w': "w' = (if err \<noteq> 0 then Connector_Model.fail (event_calls env a s0 n) sock ConnectFailed gen True v
      else if selfConnect l p then Connector_Model.fail (event_calls env a s0 n) sock SelfConnectDetected gen True v
      else if generation w2 \<noteq> gen \<or> cphase_of w2 \<noteq> Connected then Socket_dtor sock w2
      else let w3 = w2\<lparr>openFds := openFds w2 - {sock}, handed := handed w2 @ [sock]\<rparr>
           in fold do_cop (connected_calls env a s0 n w3 sock) w3)"
    using False v unfolding w'_def Connector_Model.handleWrite_def w1_def w2_def Let_def by (simp add: releaseFd_def)
  have fail: "settled env a s0 n (Connector_Model.fail (event_calls env a s0 n) sock e gen True v)" if "is_failure e" for e
    by (rule fail_settled[OF rv cur q'(3) that nq])
  have "runs env a s0 n w1 s" by (rule runs_frame[OF rv cur(1)]) (simp_all add: w1_def)
  note em = emit_runs[OF this cur(1), of ConnectSuccess, folded w2_def, simplified cur(2)]
  define s2 where "s2 = on_event env a ConnectSuccess s"
  have em1: "runs env a s0 n w2 s2" using em(1) by (simp add: s2_def)
  have d: "emitted (Socket_dtor fd u) = emitted u" "cphase_of (Socket_dtor fd u) = cphase_of u" "retryEnabled (Socket_dtor fd u) = retryEnabled u" for fd and u :: connector
    by (simp_all add: Socket_dtor_def sockets_close_def)
  show ?thesis
  proof (cases "err \<noteq> 0 \<or> selfConnect l p")
    case True
    then show ?thesis using fail[of ConnectFailed] fail[of SelfConnectDetected] q'(2) unfolding w' by (auto simp: is_failure_def handed_fail)
  next
    case ok: False
    show ?thesis
    proof (cases "cl_connector s2 = Some a")
      case c: True
      then have k: "w2 = w1\<lparr>emitted := emitted w1 @ [ConnectSuccess]\<rparr>" "cl_phase s2 = Ph_Connecting" "QAdvance (cl_gen s2) a \<notin> set (cl_tasks s2)"
        using em(2) cur(2) nq by (auto simp: detached_def event_phase_def event_tasks_def is_failure_def s2_def)
      then have g: "generation w2 = gen" "cphase_of w2 = Connected" "handed w2 = handed w" using q' by (simp_all add: w1_def)
      let ?w3 = "w2\<lparr>openFds := openFds w2 - {sock}, handed := handed w2 @ [sock]\<rparr>"
      have "runs env a s0 n ?w3 s2" by (rule runs_frame[OF em1 c]) simp_all
      moreover have "w' = fold do_cop (connected_calls env a s0 n ?w3 sock) ?w3" using ok g unfolding w' by (simp add: Let_def)
      ultimately have "hands_over env a s0 n w w' sock"
        unfolding hands_over_def using c k(2,3) g(2,3) by (intro exI[of _ ?w3] exI[of _ s2]) (simp add: cops_quiet)
      then show ?thesis by blast
    next
      case c: False
      then have dt: "detached a w1 w2 s2" using em(2) by (auto simp: s2_def)
      then have "w' = Socket_dtor sock w2" using ok q'(3) unfolding w' by (simp add: detached_def)
      moreover have "runs env a s0 n (Socket_dtor sock w2) s2"
        by (rule runs_phase[OF em1 d])
      moreover have "handed w2 = handed w" using q' by (simp add: w2_def w1_def handed_fail)
      ultimately show ?thesis using c settledI[of env a s0 n "Socket_dtor sock w2" s2] by simp
    qed
  qed
qed

lemma handleError_settled:
  assumes r: "runs env a s0 n w s" and cur: "cl_connector s = Some a" "cl_phase s = Ph_Connecting"
    and m: "matches (cl_phase s) w (QAdvance (cl_gen s) a \<in> set (cl_tasks s))"
  shows "settled env a s0 n (Connector_Model.handleError (event_calls env a s0 n) gen w) \<and>
    handed (Connector_Model.handleError (event_calls env a s0 n) gen w) = handed w"
proof (cases "generation w \<noteq> gen \<or> cphase_of w \<noteq> Connecting")
  case True
  then show ?thesis using settledI[OF r m] by (simp add: Connector_Model.handleError_def)
next
  case False
  obtain sock v where v: "removeAndResetChannel w = (sock, v)" by fastforce
  note q = removed_quiet[OF v]
  have "settled env a s0 n (Connector_Model.fail (event_calls env a s0 n) sock ConnectFailed gen True v)"
    by (rule fail_settled[OF runs_frame[OF r cur(1) q(1,4)] cur]) (use False q(3) m in \<open>simp_all add: is_failure_def matches_def\<close>)
  then show ?thesis using False v q(2) by (simp add: Connector_Model.handleError_def handed_fail)
qed

lemma handleConnectTimeout_settled:
  assumes r: "runs env a s0 n w s" and cur: "cl_connector s = Some a" "cl_phase s = Ph_Connecting"
    and m: "matches (cl_phase s) w (QAdvance (cl_gen s) a \<in> set (cl_tasks s))"
  shows "settled env a s0 n (handleConnectTimeout (event_calls env a s0 n) gen w) \<and>
    handed (handleConnectTimeout (event_calls env a s0 n) gen w) = handed w"
proof (cases "generation w \<noteq> gen \<or> cphase_of w \<noteq> Connecting")
  case True
  then show ?thesis using settledI[OF r m] by (simp add: handleConnectTimeout_def)
next
  case False
  obtain sock v where v: "removeAndResetChannel (w\<lparr>connectTimeoutTimerId := 0\<rparr>) = (sock, v)" by fastforce
  note q = removed_quiet[OF v]
  have e: "emitted v = emitted w" "handed v = handed w" "retryEnabled v = retryEnabled w" using q by simp_all
  have "settled env a s0 n (Connector_Model.fail (event_calls env a s0 n) sock ConnectTimeout gen True v)"
    by (rule fail_settled[OF runs_frame[OF r cur(1) e(1,3)] cur]) (use False q(3) m in \<open>simp_all add: is_failure_def matches_def\<close>)
  then show ?thesis using False v e(2) by (simp add: handleConnectTimeout_def handed_fail)
qed

lemma retry_settled:
  assumes r: "runs env a s0 n w s" and cur: "cl_connector s = Some a" "cl_phase s = Ph_Connecting"
    and m: "matches (cl_phase s) w (QAdvance (cl_gen s) a \<in> set (cl_tasks s))"
  shows "settled env a s0 n (retry_callback gen w) \<and> handed (retry_callback gen w) = handed w"
proof (cases "generation w \<noteq> gen \<or> cphase_of w \<noteq> RetryWaiting")
  case True
  then show ?thesis using settledI[OF r m] by (simp add: retry_callback_def)
next
  case False
  let ?w = "retry_callback gen w"
  have w: "emitted ?w = emitted w" "handed ?w = handed w" "cphase_of ?w = StartQueued" "retryEnabled ?w = retryEnabled w"
    using False by (simp_all add: retry_callback_def Connector_Model.start_def Let_def Connector_Model.queueInLoop_def)
  have "settled env a s0 n ?w" by (rule settledI[OF runs_frame[OF r cur(1) w(1,4)]]) (use cur(2) w(3) m False in \<open>auto simp: matches_def\<close>)
  then show ?thesis using w(2) by simp
qed

lemma matches_frame: "cphase_of w' = cphase_of w \<Longrightarrow> matches ph w' b = matches ph w b"
  by (simp add: matches_def)

text \<open>The current connector, while the client is connecting.\<close>

lemma busy_step:
  assumes r: "runs env a s0 n w s" and cur: "cl_connector s = Some a" "cl_phase s = Ph_Connecting"
    and m: "matches (cl_phase s) w (QAdvance (cl_gen s) a \<in> set (cl_tasks s))" and ev: "\<forall>c. ev \<noteq> EvOp c"
  defines "w' \<equiv> conn_step (event_calls env a s0 n) (Some (connected_calls env a s0 n)) ev w"
  shows "settled env a s0 n w' \<and> handed w' = handed w \<or> (\<exists>fd. hands_over env a s0 n w w' fd)"
proof -
  have same: "settled env a s0 n w" by (rule settledI[OF r m])
  have f: "runs env a s0 n (w\<lparr>ctasks := ts\<rparr>) s" "runs env a s0 n (w\<lparr>ctimers := tm\<rparr>) s" for ts tm
    by (rule runs_frame[OF r cur(1)]; simp)+
  have mf: "matches (cl_phase s) (w\<lparr>ctasks := ts\<rparr>) (QAdvance (cl_gen s) a \<in> set (cl_tasks s))"
    "matches (cl_phase s) (w\<lparr>ctimers := tm\<rparr>) (QAdvance (cl_gen s) a \<in> set (cl_tasks s))" for ts tm
    using m by (simp_all add: matches_def)
  show ?thesis
  proof (cases ev)
    case (EvTask created err)
    show ?thesis
    proof (cases "ctasks w")
      case Nil
      then show ?thesis using EvTask same by (simp add: w'_def)
    next
      case (Cons t ts)
      show ?thesis
      proof (cases t)
        case (QStart g)
        then have w': "w' = startInLoop (event_calls env a s0 n) created err g (w\<lparr>ctasks := ts\<rparr>)" using EvTask Cons by (simp add: w'_def)
        have "handed w' = handed w" unfolding w' startInLoop_def Let_def by (auto simp: handed_fail connecting_def runAfter_def Let_def split: sum.split)
        then show ?thesis using startInLoop_settled[OF f(1) cur mf(1)] unfolding w' by blast
      next
        case (QRetire fd)
        then have "w' = w\<lparr>ctasks := ts\<rparr>" using EvTask Cons by (simp add: w'_def)
        then show ?thesis using settledI[OF f(1) mf(1)] by simp
      qed
    qed
  next
    case (EvWrite g err l p)
    then show ?thesis using handleWrite_settled[OF r cur m, of err l p g] by (simp add: w'_def)
  next
    case (EvError g)
    then show ?thesis using handleError_settled[OF r cur m, of g] by (simp add: w'_def)
  next
    case (EvTimer i)
    show ?thesis
    proof (cases "ctimers w i")
      case None
      then show ?thesis using EvTimer same by (simp add: w'_def)
    next
      case (Some x)
      obtain d t where x: "x = (d, t)" by fastforce
      show ?thesis
      proof (cases t)
        case (TRetry g)
        then show ?thesis using retry_settled[OF f(2) cur mf(2), where gen = g] EvTimer Some x by (simp add: w'_def)
      next
        case (TConnect g)
        then show ?thesis using handleConnectTimeout_settled[OF f(2) cur mf(2), where gen = g] EvTimer Some x by (simp add: w'_def)
      qed
    qed
  qed (use ev in simp)
qed

text \<open>A connector that is idle or connected does nothing on its own.\<close>

lemma silent_step:
  assumes inv: "Connector_Model.cinv {} w" and ph: "cphase_of w = CIdle \<or> cphase_of w = Connected" and ev: "\<forall>c. ev \<noteq> EvOp c"
  shows "emitted (conn_step ecb ncb ev w) = emitted w \<and> handed (conn_step ecb ncb ev w) = handed w \<and>
    cphase_of (conn_step ecb ncb ev w) = cphase_of w \<and> retryEnabled (conn_step ecb ncb ev w) = retryEnabled w \<and>
    Connector_Model.cinv {} (conn_step ecb ncb ev w)"
proof -
  have t: "timers_inv w" using inv by (simp add: Connector_Model.cinv_def cinv0_def)
  then have "retryTimerId w = 0" "connectTimeoutTimerId w = 0" using ph by (auto simp: timers_inv_def)
  then have tm: "ctimers w = Map.empty" using timers_inv_none[OF t] by simp
  have c: "Connector_Model.cinv {} (w\<lparr>ctasks := ts\<rparr>)" for ts using inv by (simp add: Connector_Model.cinv_def cinv0_def)
  show ?thesis
  proof (cases ev)
    case (EvTask created err)
    show ?thesis
    proof (cases "ctasks w")
      case (Cons t ts)
      then show ?thesis using EvTask c ph by (cases t) (auto simp: startInLoop_def)
    qed (simp add: EvTask inv)
  next
    case (EvWrite g err l p)
    then show ?thesis using inv ph by (auto simp: Connector_Model.handleWrite_def)
  next
    case (EvError g)
    then show ?thesis using inv ph by (auto simp: Connector_Model.handleError_def)
  next
    case (EvTimer i)
    then show ?thesis using inv tm by simp
  qed (use ev in simp)
qed

section \<open>The invariant of a client\<close>

definition fds_at :: "client \<Rightarrow> nat \<Rightarrow> int set" where
  "fds_at s a = (if a < length (attempts s) then openFds (at_conn (attempts s ! a)) else {})"

definition sep :: "client \<Rightarrow> bool" where
  "sep s \<longleftrightarrow> (\<forall>a b. a \<noteq> b \<longrightarrow> fds_at s a \<inter> fds_at s b = {}) \<and> (\<forall>a. fds_at s a \<inter> openFds s = {})"

definition client_inv :: "client \<Rightarrow> bool" where
  "client_inv s \<longleftrightarrow> running s = None \<and> (\<forall>w. link_inv w s) \<and> obj_inv s \<and> sep s"

lemma seps: "sep s \<Longrightarrow> fds_at s a \<inter> openFds s = {}"
  by (simp add: sep_def)

lemma sep_frame: "sep s \<Longrightarrow> attempts t = attempts s \<Longrightarrow> openFds t = openFds s \<Longrightarrow> sep t"
proof -
  assume a: "sep s" "attempts t = attempts s" "openFds t = openFds s"
  have "fds_at t = fds_at s" using a(2) by (simp add: fds_at_def fun_eq_iff)
  then show ?thesis using a(1,3) by (simp add: sep_def)
qed

lemma fds_at_all: "fds_at s a \<subseteq> all_fds s" "openFds s \<subseteq> all_fds s"
  by (auto simp: fds_at_def all_fds_def)

lemma grown_fds: "grown (attempts s) (attempts t) \<Longrightarrow> fds_at t a \<subseteq> fds_at s a"
  using grown_nth[of "attempts s" "attempts t" a] grown_beyond[of "attempts s" "attempts t" a]
  by (cases "a < length (attempts s)") (auto simp: fds_at_def older_def)

lemma sep_grown:
  assumes "sep s" "grown (attempts s) (attempts t)" "openFds t \<subseteq> openFds s"
  shows "sep t"
proof -
  have g: "fds_at t a \<subseteq> fds_at s a" for a by (rule grown_fds[OF assms(2)])
  show ?thesis unfolding sep_def
  proof (intro conjI allI impI)
    fix a b :: nat assume "a \<noteq> b"
    then have "fds_at s a \<inter> fds_at s b = {}" using assms(1) by (simp add: sep_def)
    then show "fds_at t a \<inter> fds_at t b = {}" using g[of a] g[of b] by blast
  next
    fix a
    have "fds_at s a \<inter> openFds s = {}" using assms(1) by (simp add: sep_def)
    then show "fds_at t a \<inter> openFds t = {}" using g[of a] assms(3) by blast
  qed
qed

definition put_back :: "nat \<Rightarrow> connector \<Rightarrow> client \<Rightarrow> client" where
  "put_back a w s = s\<lparr>attempts := (attempts s)[a := (attempts s ! a)\<lparr>at_conn := w\<rparr>], running := None, cops := []\<rparr>"

lemma sep_put_back:
  assumes s: "sep s" and g: "grown (attempts s) (attempts t)" and a: "a < length (attempts s)"
    and w: "openFds w \<subseteq> fds_at s a \<union> new" "new \<inter> all_fds s = {}"
    and o: "openFds t \<subseteq> openFds s \<union> given" "given \<subseteq> fds_at s a" "openFds w \<inter> given = {}"
  shows "sep (put_back a w t)"
proof -
  let ?u = "put_back a w t"
  have a': "a < length (attempts t)" using grown_nth[OF g a] by simp
  have me: "fds_at ?u a = openFds w" using a' by (simp add: fds_at_def put_back_def)
  have other: "fds_at ?u b \<subseteq> fds_at s b" if "b \<noteq> a" for b
  proof -
    have "fds_at ?u b = fds_at t b" using that by (simp add: fds_at_def put_back_def)
    then show ?thesis using grown_fds[OF g, of b] by simp
  qed
  have ou: "openFds ?u = openFds t" by (simp add: put_back_def)
  have sa: "fds_at s a \<inter> fds_at s b = {}" if "b \<noteq> a" for b using s that by (auto simp: sep_def)
  have so: "fds_at s b \<inter> openFds s = {}" for b using s by (simp add: sep_def)
  have nb: "new \<inter> fds_at s b = {}" "new \<inter> openFds s = {}" for b using w(2) fds_at_all[of s] by blast+
  have meb: "openFds w \<inter> fds_at ?u b = {}" if "b \<noteq> a" for b using w(1) other[OF that] sa[OF that] nb(1)[of b] by blast
  have meo: "openFds w \<inter> openFds t = {}" using w(1) o so[of a] nb(2) by blast
  have bo: "fds_at ?u b \<inter> openFds t = {}" if "b \<noteq> a" for b using other[OF that] o(1,2) so[of b] sa[OF that] by blast
  show ?thesis unfolding sep_def ou
  proof (intro conjI allI impI)
    fix b c :: nat assume n: "b \<noteq> c"
    show "fds_at ?u b \<inter> fds_at ?u c = {}"
    proof (cases "b = a \<or> c = a")
      case True
      then show ?thesis using meb[of b] meb[of c] me n by auto
    next
      case False
      have "fds_at s b \<inter> fds_at s c = {}" using s n by (simp add: sep_def)
      then show ?thesis using other[of b] other[of c] False by blast
    qed
  next
    fix b
    show "fds_at ?u b \<inter> openFds t = {}" using bo meo me by (cases "b = a") simp_all
  qed
qed

definition fits :: "nat \<Rightarrow> connector \<Rightarrow> client \<Rightarrow> bool" where
  "fits a w s \<longleftrightarrow> matches (cl_phase s) w (QAdvance (cl_gen s) a \<in> set (cl_tasks s)) \<and> (fixedAddress s = None \<longrightarrow> \<not> retryEnabled w)"

lemma current_fits: "current_inv s \<longleftrightarrow> (\<forall>a. cl_connector s = Some a \<longrightarrow> a < length (attempts s) \<and> at_gen (attempts s ! a) = cl_gen s \<and>
    (running s \<noteq> Some a \<longrightarrow> fits a (at_conn (attempts s ! a)) s))"
  by (simp add: current_inv_def fits_def)

lemma link_put_back:
  assumes l: "link_inv w s" and run: "running s = Some a" and c: "ready w"
    and m: "cl_connector s = Some a \<Longrightarrow> fits a w s"
  shows "link_inv v (put_back a w s)"
proof -
  note i = link_invD[OF l]
  have a: "a < length (attempts s)" "cl_connector s \<noteq> Some a \<Longrightarrow> cphase_of w = CIdle" using i(4) run by (auto simp: running_inv_def)
  have "attempts_inv None (cl_connector s) ((attempts s)[a := (attempts s ! a)\<lparr>at_conn := w\<rparr>])"
    unfolding attempts_inv_def
  proof (intro allI impI)
    fix b assume b: "b < length ((attempts s)[a := (attempts s ! a)\<lparr>at_conn := w\<rparr>])"
    show "ready (at_conn ((attempts s)[a := (attempts s ! a)\<lparr>at_conn := w\<rparr>] ! b)) \<and>
       (cl_connector s \<noteq> Some b \<longrightarrow> cphase_of (at_conn ((attempts s)[a := (attempts s ! a)\<lparr>at_conn := w\<rparr>] ! b)) = CIdle)"
      using i(1) run a c b by (cases "b = a") (simp_all add: attempts_inv_def)
  qed
  moreover have "current_inv (put_back a w s)" unfolding current_fits
  proof (intro allI impI)
    fix b assume "cl_connector (put_back a w s) = Some b"
    then have b: "cl_connector s = Some b" by (simp add: put_back_def)
    then have "b < length (attempts s)" "at_gen (attempts s ! b) = cl_gen s" "running s \<noteq> Some b \<longrightarrow> fits b (at_conn (attempts s ! b)) s"
      using i(3) by (simp_all add: current_fits)
    moreover have "fits b v (put_back a w s) = fits b v s" for v by (simp add: fits_def put_back_def)
    ultimately show "b < length (attempts (put_back a w s)) \<and> at_gen (attempts (put_back a w s) ! b) = cl_gen (put_back a w s) \<and>
       (running (put_back a w s) \<noteq> Some b \<longrightarrow> fits b (at_conn (attempts (put_back a w s) ! b)) (put_back a w s))"
      using b m run a(1) by (cases "b = a") (simp_all add: put_back_def)
  qed
  moreover have "phase_inv (put_back a w s)" using i(2) by (simp add: phase_inv_def put_back_def)
  ultimately show ?thesis using i(5) by (simp add: link_inv_def running_inv_def put_back_def)
qed

lemma obj_frame:
  assumes "cl_lifetime t = cl_lifetime s" "cl_connection t = cl_connection s" "cl_objects t = cl_objects s" "cl_tasks t = cl_tasks s"
    "cl_destroyed t = cl_destroyed s" "openFds t = openFds s" "badClose t = badClose s" "cl_assert t = cl_assert s"
    "cl_nextConnId t = cl_nextConnId s" "cl_name t = cl_name s" "fixedAddress t = fixedAddress s" "obj_inv s"
  shows "obj_inv t"
  by (rule same_obj_inv[OF _ assms(12)]) (use assms(1-11) in \<open>simp add: same_conns_def\<close>)

lemma loop_event_ok:
  assumes "loop_event s ev"
  shows "event_ok ev" "\<forall>c. ev \<noteq> EvOp c" "created_fds ev \<inter> all_fds s = {}"
proof -
  show "event_ok ev" "\<forall>c. ev \<noteq> EvOp c" "created_fds ev \<inter> all_fds s = {}"
    using assms by (cases "(s, ev)" rule: loop_event.cases; auto simp: event_ok_def created_fds_def split: sum.splits)+
qed

lemma client_invD:
  assumes "client_inv s"
  shows "running s = None" "link_inv w s" "obj_inv s" "sep s"
  using assms by (simp_all add: client_inv_def)

lemma put_back_inv:
  assumes "link_inv w t" "running t = Some a" "ready w" "obj_inv t"
    and "cl_connector t = Some a \<Longrightarrow> fits a w t" "sep (put_back a w t)"
  shows "client_inv (put_back a w t)"
proof -
  have "obj_inv (put_back a w t)" by (rule obj_frame[OF _ _ _ _ _ _ _ _ _ _ _ assms(4)]) (simp_all add: put_back_def)
  then show ?thesis using link_put_back[OF assms(1-3,5)] assms(6) by (simp add: client_inv_def put_back_def)
qed

lemma connector_step_settled:
  assumes inv: "client_inv s" and a: "a < length (attempts s)" and ev: "loop_event s ev"
    and w: "w' = conn_step ecb ncb ev (at_conn (attempts s ! a))" "ready w'"
    and t: "link_inv w' t" "obj_inv t" "running t = Some a" "grown (attempts s) (attempts t)" "openFds t = openFds s"
    and m: "cl_connector t = Some a \<Longrightarrow> fits a w' t"
  shows "client_inv (put_back a w' t)"
proof (rule put_back_inv[OF t(1,3) w(2) t(2) m])
  note i = client_invD[OF inv]
  note l = loop_event_ok[OF ev]
  have c: "Connector_Model.cinv {} (at_conn (attempts s ! a))" using link_invD(1)[OF i(2)] i(1) a by (simp add: attempts_inv_def ready_def)
  have "openFds w' \<subseteq> fds_at s a \<union> created_fds ev" using conn_step_chan[OF c l(1), of ecb ncb] a w(1) by (simp add: fds_at_def)
  then show "sep (put_back a w' t)" by (rule sep_put_back[OF i(4) t(4) a _ l(3), where given = "{}"]) (simp_all add: t(5))
qed

lemma connector_step_inv:
  assumes env: "env_ok env" and inv: "client_inv s" and a: "a < length (attempts s)" and ev: "loop_event s ev"
    and r: "connector_step env a ev s = Inr s'"
  shows "client_inv s'"
proof -
  note i = client_invD[OF inv]
  note l = loop_event_ok[OF ev]
  define w where "w = at_conn (attempts s ! a)"
  define n where "n = length (emitted w)"
  define s0 where "s0 = s\<lparr>running := Some a, cops := []\<rparr>"
  define ecb where "ecb = event_calls env a s0 n"
  define ncb where "ncb = connected_calls env a s0 n"
  define w' where "w' = conn_step ecb (Some ncb) ev w"
  have c: "Connector_Model.cinv {} w" "cl_connector s \<noteq> Some a \<Longrightarrow> cphase_of w = CIdle"
    using link_invD(1)[OF i(2)] i(1) a by (simp_all add: attempts_inv_def ready_def w_def)
  have qd: "queued w" using link_invD(1)[OF i(2)] i(1) a by (simp add: attempts_inv_def ready_def w_def)
  obtain hs where hs: "step_ok w hs w'" "hs \<noteq> [] \<Longrightarrow> \<exists>fd. hs = [fd] \<and> delivers ev w fd"
    using conn_step_ok[OF c(1) l(1), of ecb "Some ncb"] by (auto simp: w'_def)
  have c': "Connector_Model.cinv {} w'" "handed w' = handed w @ hs" using hs(1) by (simp_all add: step_ok_def)
  have rd: "ready w'" using c'(1) conn_step_queued[OF qd, of ecb "Some ncb" ev] by (simp add: ready_def w'_def)
  have run: "bind_res (case drop (length (handed w)) (handed w') of [] \<Rightarrow> Inr (fold (on_event env a) (drop n (emitted w')) s0)
      | fd # fds \<Rightarrow> on_connected env a fd (fold (on_event env a) (drop n (emitted w')) s0)) (\<lambda>t. Inr (put_back a w' t)) = Inr s'"
    unfolding w'_def ecb_def ncb_def s0_def n_def w_def put_back_def by (rule r[unfolded connector_step_def Let_def])
  have o0: "obj_inv s0" by (rule obj_frame[OF _ _ _ _ _ _ _ _ _ _ _ i(3)]) (simp_all add: s0_def)
  have l0: "link_inv w s0" if "cl_connector s = Some a \<or> cphase_of w = CIdle"
    using link_invD[OF i(2)] i(1) a that by (auto simp: link_inv_def attempts_inv_def phase_inv_def current_inv_def running_inv_def s0_def)
  show ?thesis
  proof (cases "cphase_of w = CIdle \<or> cphase_of w = Connected")
    case True
    then have q: "emitted w' = emitted w" "handed w' = handed w" "cphase_of w' = cphase_of w" "retryEnabled w' = retryEnabled w"
      using silent_step[OF c(1) True l(2), of ecb "Some ncb"] by (simp_all add: w'_def)
    have s': "s' = put_back a w' s0" using run q(1,2) by (simp add: n_def)
    have "link_inv w s0" using l0 c(2) by blast
    then have l1: "link_inv w' s0" using q(3) by (simp add: link_inv_def running_inv_def)
    have m: "cl_connector s0 = Some a \<Longrightarrow> fits a w' s0"
      using link_invD(3)[OF i(2)] i(1) matches_frame[OF q(3)] q(4) by (simp add: current_fits fits_def s0_def w_def)
    show ?thesis unfolding s'
      by (rule connector_step_settled[OF inv a ev w'_def[unfolded w_def] rd l1 o0 _ _ _ m]) (simp_all add: s0_def)
  next
    case False
    then have cur: "cl_connector s = Some a" using c(2) by blast
    have m: "matches (cl_phase s) w (QAdvance (cl_gen s) a \<in> set (cl_tasks s))"
      using link_invD(3)[OF i(2)] i(1) cur by (simp add: current_inv_def w_def)
    have ph: "cl_phase s = Ph_Connecting"
      using m False link_invD(2)[OF i(2)] cur by (cases "cl_phase s") (auto simp: matches_def phase_inv_def)
    have re: "fixedAddress s = None \<longrightarrow> \<not> retryEnabled w" using link_invD(3)[OF i(2)] i(1) cur by (simp add: current_inv_def w_def)
    have r0: "runs env a s0 n w s0" using l0 cur o0 re by (simp add: runs_def n_def s0_def)
    have "settled env a s0 n w' \<and> handed w' = handed w \<or> (\<exists>fd. hands_over env a s0 n w w' fd)"
      unfolding w'_def ecb_def ncb_def by (rule busy_step[OF r0 _ _ _ l(2)]) (use cur ph m in \<open>simp_all add: s0_def\<close>)
    then show ?thesis
    proof (elim disjE exE conjE)
      assume "settled env a s0 n w'" "handed w' = handed w"
      then obtain t where t: "runs env a s0 n w' t" "cl_connector t = Some a \<Longrightarrow> matches (cl_phase t) w' (QAdvance (cl_gen t) a \<in> set (cl_tasks t))"
        and h: "handed w' = handed w" unfolding settled_def by blast
      note d = runsD[OF t(1)]
      have s': "s' = put_back a w' t" using run h d(2) by simp
      have g: "grown (attempts s) (attempts t)" "openFds t = openFds s" using d(6,7) by (simp_all add: extends_def s0_def)
      have "fits a w' t" if "cl_connector t = Some a" using t(2)[OF that] d(8,9) by (simp add: fits_def)
      from connector_step_settled[OF inv a ev w'_def[unfolded w_def] rd d(3,4,5) g this] show ?thesis unfolding s' .
    next
      fix fd assume "hands_over env a s0 n w w' fd"
      then obtain v t where t: "runs env a s0 n v t" "cl_connector t = Some a" "cl_phase t = Ph_Connecting" "cphase_of v = Connected"
        "handed w' = handed w @ [fd]" "w' = fold do_cop (connected_calls env a s0 n v fd) v" "QAdvance (cl_gen t) a \<notin> set (cl_tasks t)"
        unfolding hands_over_def by blast
      note d = runsD[OF t(1)]
      have em: "emitted w' = emitted v" unfolding t(6) by (rule cops_quiet(2))
      have "bind_res (on_connected env a fd t) (\<lambda>t. Inr (put_back a w' t)) = Inr s'" using run t(5) d(2) em by simp
      then obtain t' where t': "on_connected env a fd t = Inr t'" "s' = put_back a w' t'" by (auto simp: bind_res_Inr)
      have "hs = [fd]" using c'(2) t(5) by simp
      then have dl: "delivers ev w fd" using hs(2) by simp
      have ch: "cchannel w = Some (fd, generation w)" "cphase_of w = Connecting" using dl by (auto simp: delivers_def)
      have fw: "openFds w = {fd}" "isValid fd" using c(1) ch(1) by (auto simp: Connector_Model.cinv_def cinv0_def fds_inv_def chan_fds_def)
      have at: "fds_at s a = {fd}" using a fw(1) by (simp add: fds_at_def w_def)
      have nfd: "fd \<notin> openFds t" using seps[OF i(4), of a] at d(7) by (simp add: s0_def)
      note oc = on_connected_ok[OF env d(3,4,5) t(2,3) nfd fw(2) t'(1)]
      then have an: "link_inv (after_calls t t' v) t'" "extends t t'" "obj_inv t'" "cl_connector t' = Some a \<Longrightarrow> cops t' = cops t"
        by (simp_all add: answers_def)
      have w2: "w' = after_calls t t' v" unfolding t(6) connected_calls_def d(2) by (simp add: t'(1) after_calls_def)
      have m': "fits a w' t'" if "cl_connector t' = Some a"
      proof -
        have k: "cl_phase t' = Ph_Connected \<or> cl_phase t' = Ph_Idle" "QAdvance (cl_gen t') a \<notin> set (cl_tasks t')" "fixedAddress t' = fixedAddress t"
          using oc that t(7) by auto
        have "w' = v" using an(4)[OF that] by (simp add: w2)
        then show ?thesis using k t(4) d(8,9) by (auto simp: fits_def matches_def)
      qed
      have none: "cchannel w' = None"
        using dl handleWrite_chan[of w "generation w" ecb "Some ncb" 0] by (auto simp: delivers_def w'_def)
      have ow: "openFds w' = {}" using c'(1) none by (simp add: Connector_Model.cinv_def cinv0_def fds_inv_def chan_fds_def)
      have g: "grown (attempts s) (attempts t')" using d(6) an(2) grown_trans by (auto simp: extends_def s0_def)
      have "sep (put_back a w' t')"
        by (rule sep_put_back[OF i(4) g a, where new = "{}" and given = "{fd}"]) (use ow oc d(7) at in \<open>simp_all add: s0_def\<close>)
      moreover have "running t' = Some a" using an(2) d(5) by (simp add: extends_def)
      ultimately show ?thesis unfolding t'(2) using put_back_inv[of w' t' a] an(1,3) rd m' w2 by simp
    qed
  qed
qed

text \<open>Operations outside the callbacks of connectors.\<close>

lemma client_shape_updates [simp]:
  "shape (s\<lparr>cl_destroyed := ds\<rparr>) = shape s" "shape (s\<lparr>cl_tasks := ts\<rparr>) = shape s" "shape (s\<lparr>cl_lifetime := b\<rparr>) = shape s"
  "shape (s\<lparr>cl_tlsContext := b\<rparr>) = shape s"
  by (simp_all add: shape_def fun_eq_iff)

lemma link_any: "running s = None \<Longrightarrow> link_inv w s \<Longrightarrow> link_inv v s"
  by (simp add: link_inv_def running_inv_def)

lemma op_inv:
  assumes op: "op_ok w s t" and run: "running s = None" and obj: "obj_inv t" and s: "sep s" and o: "openFds t \<subseteq> openFds s"
  shows "client_inv t"
proof -
  note d = op_okD[OF op]
  have r: "running t = None" "grown (attempts s) (attempts t)" using d(2) run by (simp_all add: extends_def)
  have "sep t" by (rule sep_grown[OF s r(2) o])
  then show ?thesis using r(1) obj link_any[OF r(1) d(1)] by (simp add: client_inv_def)
qed

lemma capi_inv: "client_inv s \<Longrightarrow> cl_lifetime s \<Longrightarrow> client_inv (do_capi c s)"
proof -
  assume i: "client_inv s" and l: "cl_lifetime s"
  have sc: "same_conns s (do_capi c s)" by (rule same_capi)
  show ?thesis by (rule op_inv[OF do_capi_op[OF client_invD(2)[OF i] l] client_invD(1)[OF i] same_obj_inv[OF sc client_invD(3)[OF i]] client_invD(4)[OF i]])
      (use sc in \<open>simp add: same_conns_def\<close>)
qed

lemma validate_retry: "options_validate (opts\<lparr>enableRetry := b\<rparr>) = options_validate opts"
  by (simp add: options_validate_def)

lemma startNextCandidate_op:
  assumes at: "attempts_inv (running s) (cl_connector s) (attempts s)" and rn: "running_inv w s"
    and ph: "phase_inv (s\<lparr>cl_phase := Ph_Idle, cl_connector := None\<rparr>)" and c: "cl_connect s" "cl_lifetime s" "cl_connection s = None"
    and ad: "advance_inv (length (attempts s)) (cl_tasks s)"
  shows "op_ok w s (startNextCandidate s)" "same_conns s (startNextCandidate s)"
proof -
  define t where "t = stop_previous (s\<lparr>cl_phase := Ph_Idle\<rparr>)"
  have same: "stop_previous s\<lparr>cl_phase := p\<rparr> = t\<lparr>cl_phase := p\<rparr>" for p
    by (simp add: t_def stop_previous_def call_connector_def split: option.split)
  have f: "nextCandidate t = nextCandidate s" "candidates t = candidates s" "connectorOptions t = connectorOptions s" "cl_phase t = Ph_Idle"
    "cl_connector t = None" "cl_connect t" "cl_lifetime t" "cl_connection t = None"
    using c by (simp_all add: t_def)
  have eq: "startNextCandidate s = (if nextCandidate t = length (candidates t) then t\<lparr>candidates := [], nextCandidate := 0\<rparr>
      else new_attempt ((connectorOptions t)\<lparr>enableRetry := False\<rparr>) ((t\<lparr>nextCandidate := nextCandidate t + 1\<rparr>)\<lparr>cl_phase := Ph_Connecting\<rparr>))"
  proof (cases "nextCandidate t = length (candidates t)")
    case True
    have "t\<lparr>candidates := [], nextCandidate := 0\<rparr> = (t\<lparr>cl_phase := Ph_Idle\<rparr>)\<lparr>candidates := [], nextCandidate := 0\<rparr>"
      using f(4) phase_same[of t Ph_Idle] by simp
    also have "\<dots> = (stop_previous s)\<lparr>candidates := [], nextCandidate := 0, cl_phase := Ph_Idle\<rparr>" unfolding same[symmetric] by simp
    finally show ?thesis using True f(1,2) by (simp add: startNextCandidate_def Let_def)
  next
    case False
    have "(t\<lparr>nextCandidate := nextCandidate t + 1\<rparr>)\<lparr>cl_phase := Ph_Connecting\<rparr> = (t\<lparr>cl_phase := Ph_Connecting\<rparr>)\<lparr>nextCandidate := nextCandidate s + 1\<rparr>"
      using f(1) by simp
    also have "\<dots> = (stop_previous s)\<lparr>cl_phase := Ph_Connecting, nextCandidate := nextCandidate s + 1\<rparr>" unfolding same[symmetric] by simp
    finally show ?thesis using False f(1-3) by (simp add: startNextCandidate_def Let_def new_attempt_def)
  qed
  have op: "op_ok w s t" unfolding t_def by (rule stop_previous_op[OF at rn ad]) (use ph in simp_all)
  note l = op_okD(1)[OF op]
  let ?u = "t\<lparr>nextCandidate := nextCandidate t + 1\<rparr>" and ?e = "t\<lparr>candidates := [], nextCandidate := 0\<rparr>"
  have pt: "phase_inv t" by (rule link_invD(2)[OF l])
  have le: "link_inv (after_calls s t w) ?e" using l by (simp add: link_inv_def phase_inv_def current_inv_def running_inv_def)
  have e: "op_ok (after_calls s t w) t ?e" using le f(5) by (simp add: op_ok_def extends_def)
  have lu: "link_inv (after_calls s t w) ?u" if "nextCandidate t \<noteq> length (candidates t)"
    using l that by (simp add: link_inv_def phase_inv_def current_inv_def running_inv_def)
  have u: "op_ok (after_calls s t w) t ?u" if "nextCandidate t \<noteq> length (candidates t)"
    using lu[OF that] f(5) by (simp add: op_ok_def extends_def)
  have v: "options_validate ((connectorOptions t)\<lparr>enableRetry := False\<rparr>) = Inr ()"
    using pt validate_retry[where opts = "connectorOptions t"] by (simp add: phase_inv_def)
  have n: "op_ok (after_calls s t w) ?u (new_attempt ((connectorOptions t)\<lparr>enableRetry := False\<rparr>) (?u\<lparr>cl_phase := Ph_Connecting\<rparr>))"
    if "nextCandidate t \<noteq> length (candidates t)"
    by (rule new_attempt_op[OF lu[OF that] _ v]) (use f in simp_all)
  show "op_ok w s (startNextCandidate s)"
  proof (cases "nextCandidate t = length (candidates t)")
    case True
    then show ?thesis using op_ok_trans[OF op e] unfolding eq by simp
  next
    case False
    have "after_calls t ?u v = v" for v by simp
    then have "op_ok (after_calls s t w) t (new_attempt ((connectorOptions t)\<lparr>enableRetry := False\<rparr>) (?u\<lparr>cl_phase := Ph_Connecting\<rparr>))"
      using op_ok_trans[OF u[OF False]] n[OF False] by simp
    then show ?thesis using op_ok_trans[OF op] False unfolding eq by simp
  qed
  have "same_conns s t" using same_stop_previous[of "s\<lparr>cl_phase := Ph_Idle\<rparr>"] by (simp add: same_conns_def t_def)
  then show "same_conns s (startNextCandidate s)"
    using same_new_attempt[of "?u\<lparr>cl_phase := Ph_Connecting\<rparr>" "(connectorOptions t)\<lparr>enableRetry := False\<rparr>"] unfolding eq new_attempt_def
    by (simp add: same_conns_def)
qed

lemma startNextCandidate_inv:
  assumes run: "running s = None" and at: "attempts_inv None (cl_connector s) (attempts s)"
    and ph: "phase_inv (s\<lparr>cl_phase := Ph_Idle, cl_connector := None\<rparr>)" and c: "cl_connect s" "cl_lifetime s" "cl_connection s = None"
    and o: "obj_inv s" "sep s" and ad: "advance_inv (length (attempts s)) (cl_tasks s)"
  shows "client_inv (startNextCandidate s)"
proof -
  have rn: "running_inv w s" for w using run by (simp add: running_inv_def)
  have at': "attempts_inv (running s) (cl_connector s) (attempts s)" using at run by simp
  note st = startNextCandidate_op[OF at' rn ph c ad]
  show ?thesis by (rule op_inv[OF st(1) run same_obj_inv[OF st(2) o(1)] o(2)]) (use st(2) in \<open>simp add: same_conns_def\<close>)
qed

lemma resolved_inv:
  assumes inv: "client_inv s" and i: "i < length (resolving s)"
  shows "client_inv (resolved (resolving s ! i) addrs (s\<lparr>resolving := take i (resolving s) @ drop (i + 1) (resolving s)\<rparr>))"
proof -
  let ?g = "resolving s ! i" and ?rs = "take i (resolving s) @ drop (i + 1) (resolving s)"
  let ?s = "s\<lparr>resolving := ?rs\<rparr>"
  note d = client_invD[OF inv]
  note l = link_invD[OF d(2)]
  have rs: "resolve_inv (cl_phase s) (cl_gen s) (resolving s)" using l(2) by (simp add: phase_inv_def)
  have sp: "resolving s = take i (resolving s) @ ?g # drop (i + 1) (resolving s)" using id_take_nth_drop[OF i] by simp
  have di: "distinct (take i (resolving s) @ ?g # drop (i + 1) (resolving s))" using rs sp by (simp add: resolve_inv_def)
  have sub: "set ?rs \<subseteq> set (resolving s)" using sp by (metis Un_iff list.set_intros(2) set_append subsetI)
  have gone: "?g \<notin> set ?rs" using di by simp
  have keep: "g \<in> set (resolving s) \<Longrightarrow> g \<noteq> ?g \<Longrightarrow> g \<in> set ?rs" for g using sp by (metis Un_iff set_ConsD set_append)
  have o: "obj_inv ?s" by (rule obj_frame[OF _ _ _ _ _ _ _ _ _ _ _ d(3)]) simp_all
  have se: "sep ?s" by (rule sep_frame[OF d(4)]) simp_all
  have dr: "distinct ?rs" "\<forall>g \<in> set ?rs. g \<le> cl_gen s" using di rs sub by (auto simp: resolve_inv_def)
  have same: "client_inv ?s" if "?g \<noteq> cl_gen s \<or> cl_phase s \<noteq> Ph_Resolving"
  proof -
    have "cl_gen s \<in> set ?rs \<longleftrightarrow> cl_gen s \<in> set (resolving s)" 
      using that keep[of "cl_gen s"] subsetD[OF sub, of "cl_gen s"] rs[unfolded resolve_inv_def] by metis
    then have "resolve_inv (cl_phase s) (cl_gen s) ?rs" unfolding resolve_inv_def using dr rs[unfolded resolve_inv_def] by blast
    then have "phase_inv ?s" using l(2) by (simp add: phase_inv_def)
    then show ?thesis using d(1) l o se by (simp add: client_inv_def link_inv_def current_inv_def running_inv_def)
  qed
  show ?thesis
  proof (cases "\<not> cl_lifetime s \<or> ?g \<noteq> cl_gen s \<or> \<not> cl_connect s")
    case True
    then have "?g \<noteq> cl_gen s \<or> cl_phase s \<noteq> Ph_Resolving" using l(2) by (auto simp: phase_inv_def)
    then show ?thesis using same True by (simp add: resolved_def)
  next
    case False
    then have ph: "cl_phase s = Ph_Resolving" using rs nth_mem[OF i] by (simp add: resolve_inv_def)
    have cn: "cl_connector s = None" "cl_connection s = None" using l(2) ph False by (auto simp: phase_inv_def)
    have ri: "resolve_inv Ph_Idle (cl_gen s) ?rs" using dr gone False by (simp add: resolve_inv_def)
    have pi: "phase_inv (?s\<lparr>cl_phase := Ph_Idle, candidates := as, nextCandidate := k\<rparr>)" if "k \<le> length as" for as k
      using l(2) ri cn ph that by (simp add: phase_inv_def)
    show ?thesis
    proof (cases addrs)
      case None
      have "phase_inv (?s\<lparr>cl_phase := Ph_Idle\<rparr>)" using l(2) ri cn ph by (simp add: phase_inv_def)
      moreover have "obj_inv (?s\<lparr>cl_phase := Ph_Idle\<rparr>)" by (rule obj_frame[OF _ _ _ _ _ _ _ _ _ _ _ d(3)]) simp_all
      moreover have "sep (?s\<lparr>cl_phase := Ph_Idle\<rparr>)" by (rule sep_frame[OF d(4)]) simp_all
      ultimately show ?thesis using None False d(1) l cn(1) by (simp add: resolved_def client_inv_def link_inv_def current_inv_def running_inv_def)
    next
      case (Some as)
      have "client_inv (startNextCandidate (?s\<lparr>candidates := as, nextCandidate := 0\<rparr>))"
      proof (rule startNextCandidate_inv)
        show "phase_inv ((?s\<lparr>candidates := as, nextCandidate := 0\<rparr>)\<lparr>cl_phase := Ph_Idle, cl_connector := None\<rparr>)"
          using pi[of 0 as] cn(1) by (simp add: phase_inv_def)
        show "obj_inv (?s\<lparr>candidates := as, nextCandidate := 0\<rparr>)" by (rule obj_frame[OF _ _ _ _ _ _ _ _ _ _ _ d(3)]) simp_all
        show "sep (?s\<lparr>candidates := as, nextCandidate := 0\<rparr>)" by (rule sep_frame[OF d(4)]) simp_all
      qed (use d(1) l(1,5) cn False in simp_all)
      then show ?thesis using Some False by (simp add: resolved_def)
    qed
  qed
qed

lemma env_exec: "env_ok env \<Longrightarrow> exec_ok (cl_exec env n)"
  by (simp add: env_ok_def)

lemma conn_do_inv:
  assumes inv: "client_inv s" and g: "good f" and r: "conn_do env n f s = Inr s'"
  shows "client_inv s'"
proof -
  note d = client_invD[OF inv]
  have c: "op_ok w s s' \<and> obj_inv s' \<and> openFds s' = openFds s" for w
    by (rule conn_do_ok[OF r d(2,3)]) (rule goodD[OF g])
  show ?thesis by (rule op_inv[OF conjunct1[OF c] d(1) _ d(4)]) (use c in auto)
qed

lemma stop_client_inv:
  assumes "client_inv s"
  shows "client_inv (stopInLoop s)"
proof -
  note d = client_invD[OF assms]
  show ?thesis
    by (rule op_inv[OF stopInLoop_op[OF d(2)] d(1) same_obj_inv[OF same_stopInLoop d(3)] d(4)])
      (use same_stopInLoop[of s] in \<open>simp add: same_conns_def\<close>)
qed

lemma disconnect_inv:
  assumes env: "env_ok env" and inv: "client_inv s" and r: "disconnectInLoop env s = Inr s'"
  shows "client_inv s'"
proof (cases "cl_connection (stopInLoop s)")
  case None
  then show ?thesis using r stop_client_inv[OF inv] by (simp add: disconnectInLoop_def Let_def)
next
  case (Some n)
  then have "conn_do env n (\<lambda>c. Inr (shutdown True c)) (stopInLoop s) = Inr s'" using r by (simp add: disconnectInLoop_def Let_def)
  from conn_do_inv[OF stop_client_inv[OF inv] shutdown_good this] show ?thesis .
qed

text \<open>A functor leaves the queue: the link stays if it is not the pending advance of the current attempt.\<close>

lemma pop_link:
  assumes l: "link_inv w s" and t: "cl_tasks s = t # ts" "\<And>a. cl_connector s = Some a \<Longrightarrow> t \<noteq> QAdvance (cl_gen s) a"
  shows "link_inv w (s\<lparr>cl_tasks := ts\<rparr>)"
proof -
  note i = link_invD[OF l]
  have "fits a v (s\<lparr>cl_tasks := ts\<rparr>) = fits a v s" if "cl_connector s = Some a" for a v using t(1) t(2)[OF that] by (auto simp: fits_def)
  then have "current_inv (s\<lparr>cl_tasks := ts\<rparr>)" using i(3) by (simp add: current_fits)
  moreover have "advance_inv (length (attempts s)) ts" by (rule advance_mono[OF i(5)]) (simp_all add: t(1))
  ultimately show ?thesis using i by (simp add: link_inv_def phase_inv_def running_inv_def)
qed

lemma pop_inv:
  assumes inv: "client_inv s" and t: "cl_tasks s = t # ts" "destroys t = []" "\<And>a. cl_connector s = Some a \<Longrightarrow> t \<noteq> QAdvance (cl_gen s) a"
  shows "client_inv (s\<lparr>cl_tasks := ts\<rparr>)"
proof -
  note d = client_invD[OF inv]
  have "same_conns s (s\<lparr>cl_tasks := ts\<rparr>)" using t(1,2) by (simp add: same_conns_def)
  then have o: "obj_inv (s\<lparr>cl_tasks := ts\<rparr>)" by (rule same_obj_inv[OF _ d(3)])
  have "sep (s\<lparr>cl_tasks := ts\<rparr>)" by (rule sep_frame[OF d(4)]) simp_all
  then show ?thesis using o d(1) pop_link[OF d(2) t(1,3)] by (simp add: client_inv_def)
qed

text \<open>Calls on an object that do not move its connection.\<close>

definition reshaped :: "client \<Rightarrow> client \<Rightarrow> bool" where
  "reshaped s s' \<longleftrightarrow> (\<forall>m fd. (\<exists>c. shape s' m = Some (c, fd)) \<longleftrightarrow> (\<exists>c. shape s m = Some (c, fd))) \<and> cl_destroyed s' = cl_destroyed s \<and>
     openFds s' = openFds s \<and> badClose s' = badClose s \<and> cl_assert s' = cl_assert s \<and> cl_nextConnId s' = cl_nextConnId s \<and>
     cl_name s' = cl_name s \<and> cl_lifetime s' = cl_lifetime s \<and> cl_connection s' = cl_connection s \<and> doomed (cl_tasks s') = doomed (cl_tasks s)"

lemma reshaped_trans: "reshaped s t \<Longrightarrow> reshaped t u \<Longrightarrow> reshaped s u"
  by (simp add: reshaped_def)

lemma reshaped_dom: "reshaped s s' \<Longrightarrow> dom (shape s') = dom (shape s)"
proof -
  assume "reshaped s s'"
  then have "(\<exists>fd c. shape s' m = Some (c, fd)) \<longleftrightarrow> (\<exists>fd c. shape s m = Some (c, fd))" for m by (simp add: reshaped_def)
  moreover have "(\<exists>fd c. x = Some (c, fd)) \<longleftrightarrow> x \<noteq> None" for x :: "(conn \<times> int) option" by (cases x) auto
  ultimately show ?thesis by (simp add: dom_def)
qed

lemma reshaped_fds: "reshaped s s' \<Longrightarrow> fds_acct s' = fds_acct s"
  by (simp add: reshaped_def fds_acct_def)

lemma moved_reshaped:
  assumes "cl_objects s n = Some x" "k_fd y = k_fd x" "moved n False (s\<lparr>cl_objects := (cl_objects s)(n \<mapsto> y)\<rparr>) s'"
  shows "reshaped s s'"
proof -
  have x: "shape s n = Some (k_conn x, k_fd x)" using assms(1) by (simp add: shape_def)
  have sh: "shape s' = (shape s)(n \<mapsto> (k_conn y, k_fd y))" using assms(3) by (simp add: moved_def shape_object)
  have "(\<exists>c. shape s' m = Some (c, fd)) \<longleftrightarrow> (\<exists>c. shape s m = Some (c, fd))" for m fd using x assms(2) by (auto simp: sh)
  then show ?thesis using assms(3) by (simp add: moved_def reshaped_def)
qed

lemma books_run: "books l (n # d) z ns objs \<Longrightarrow> books l d (z @ [n]) ns objs"
  by (auto simp: books_def)

lemma destroy_inv:
  assumes env: "env_ok env" and inv: "client_inv s" and t: "cl_tasks s = QDestroy n # ts"
    and r: "destroy_connection env n (s\<lparr>cl_tasks := ts\<rparr>) = Inr s'"
  shows "client_inv s'"
proof -
  let ?s = "s\<lparr>cl_tasks := ts\<rparr>"
  note d = client_invD[OF inv]
  obtain s2 where s2: "conn_do env n (connectDestroyed (cl_exec env n)) ?s = Inr s2" "s' = s2\<lparr>cl_destroyed := cl_destroyed s2 @ [n]\<rparr>"
    using r by (auto simp: destroy_connection_def bind_res_Inr)
  have ac: "acct s" "fds_acct s" using d(3) by (simp_all add: obj_inv_def)
  have bk: "books (live s) (n # doomed ts) (cl_destroyed s) (names s) (dom (shape s))" "\<not> cl_assert s" "1 \<le> cl_nextConnId s"
    using ac(1) t by (simp_all add: acct_def)
  have nl: "cl_lifetime s \<Longrightarrow> cl_connection s \<noteq> Some n" using bk(1) by (auto simp: books_def live_def)
  have l: "link_inv w ?s" for w by (rule pop_link[OF d(2) t]) simp
  have sh: "shape ?s = shape s" by (simp add: shape_def fun_eq_iff)
  have ci: "conns_inv ?s" if "cl_lifetime ?s" using d(3) that by (simp add: obj_inv_def conns_inv_def sh)
  have m: "op_ok w ?s s2 \<and> (cl_lifetime s2 \<longrightarrow> conns_inv s2) \<and> (\<exists>x y b. cl_objects ?s n = Some x \<and> k_fd y = k_fd x \<and>
      moved n b (?s\<lparr>cl_objects := (cl_objects ?s)(n \<mapsto> y)\<rparr>) s2 \<and> (b \<longrightarrow> cl_lifetime ?s))" for w
  proof (rule conn_do_moved[OF s2(1) l ci])
    fix c c' assume a: "shape ?s n \<noteq> None" "cl_lifetime ?s" "conn_inv c" "connectDestroyed (cl_exec env n) c = Inr c'" "c = fst (the (shape ?s n))"
    then obtain fd where "shape ?s n = Some (c, fd)" by auto
    from conns_invD[OF ci[OF a(2)] this] have "NClose \<in> set (called c)" using nl a(2) by simp
    then have "c_state c = kDisconnected" using a(3) by (auto simp: cinv_def notes_inv_def)
    then show "conn_inv c' \<and> progress c c'" using connectDestroyed_ok[OF env_exec[OF env] a(3) _ a(4)] by blast
  qed
  then obtain x y b where xy: "cl_objects ?s n = Some x" "k_fd y = k_fd x" "moved n b (?s\<lparr>cl_objects := (cl_objects ?s)(n \<mapsto> y)\<rparr>) s2" "b \<longrightarrow> cl_lifetime ?s"
    by blast
  have "\<not> b" using xy(3,4) nl by (auto simp: moved_def)
  then have rs: "reshaped ?s s2" using moved_reshaped[OF xy(1,2)] xy(3) by simp
  have fa: "fds_acct s2" using ac(2) reshaped_fds[OF rs] by (simp add: fds_acct_def sh)
  have sh2: "shape s' = shape s2" by (simp add: s2(2) shape_def fun_eq_iff)
  have parts: "live s' = live s" "doomed (cl_tasks s') = doomed ts" "cl_destroyed s' = cl_destroyed s @ [n]" "names s' = names s"
    "cl_assert s' = cl_assert s" "cl_nextConnId s' = cl_nextConnId s"
    using rs by (simp_all add: reshaped_def s2(2) live_def names_def)
  have dm: "dom (shape s') = dom (shape s)" using reshaped_dom[OF rs] by (simp add: sh2 sh)
  have "acct s'" unfolding acct_def parts dm using books_run[OF bk(1)] bk(2,3) by blast
  moreover have "fds_acct s'" using fa by (simp add: fds_acct_def sh2 s2(2))
  moreover have "cl_lifetime s' \<longrightarrow> conns_inv s'" using m by (simp add: conns_inv_def sh2 s2(2))
  ultimately have o: "obj_inv s'" by (simp add: obj_inv_def)
  have op: "op_ok w ?s s'" for w using m[of w] by (simp add: op_ok_def s2(2) extends_def kept_def after_calls_def)
  show ?thesis by (rule op_inv[OF op _ o sep_frame[OF d(4)]]) (use d(1) rs in \<open>simp_all add: s2(2) reshaped_def\<close>)
qed

text \<open>Without a client the callbacks do nothing.\<close>

lemma conn_do_dead:
  assumes "conn_do env n f s = Inr s'" "link_inv w s" "\<not> cl_lifetime s"
  shows "op_ok w s s' \<and> reshaped s s'"
proof -
  have "op_ok w s s' \<and> (cl_lifetime s' \<longrightarrow> conns_inv s') \<and> (\<exists>x y b. cl_objects s n = Some x \<and> k_fd y = k_fd x \<and>
      moved n b (s\<lparr>cl_objects := (cl_objects s)(n \<mapsto> y)\<rparr>) s' \<and> (b \<longrightarrow> cl_lifetime s))"
    by (rule conn_do_moved[OF assms(1,2)]) (use assms(3) in simp_all)
  then obtain x y b where xy: "op_ok w s s'" "cl_objects s n = Some x" "k_fd y = k_fd x"
    "moved n b (s\<lparr>cl_objects := (cl_objects s)(n \<mapsto> y)\<rparr>) s'" "b \<longrightarrow> cl_lifetime s" by blast
  then have "\<not> b" using assms(3) by simp
  then show ?thesis using xy moved_reshaped[OF xy(2,3)] by simp
qed

lemma books_last: "books [n] d z ns objs \<Longrightarrow> books [] d (z @ [n]) ns objs"
  by (auto simp: books_def)

lemma client_dtor_inv:
  assumes inv: "client_inv s" and life: "cl_lifetime s" and r: "client_dtor env s = Inr s'"
  shows "client_inv s'"
proof -
  define t where "t = stopInLoop s"
  define u where "u = t\<lparr>cl_lifetime := False\<rparr>"
  note d = client_invD[OF stop_client_inv[OF inv], folded t_def]
  note l = link_invD[OF d(2)]
  have tn: "cl_connector t = None" "cl_lifetime t" using same_stopInLoop[of s] life by (simp_all add: t_def stopInLoop_def Let_def same_conns_def)
  have ph: "cl_phase t = Ph_Idle \<or> cl_phase t = Ph_Connected" by (simp add: t_def stopInLoop_def Let_def)
  have lu: "link_inv w u" for w
  proof -
    have "phase_inv u" using l(2) tn ph by (auto simp: phase_inv_def u_def)
    then show ?thesis using l d(1) tn by (simp add: link_inv_def current_inv_def running_inv_def u_def)
  qed
  have su: "sep u" by (rule sep_frame[OF d(4)]) (simp_all add: u_def)
  have ac: "acct t" "fds_acct t" using d(3) by (simp_all add: obj_inv_def)
  have fu: "fds_acct u" using ac(2) by (simp add: fds_acct_def u_def)
  show ?thesis
  proof (cases "cl_connection t")
    case None
    have "acct u" using ac(1) tn None by (simp add: acct_def u_def live_def names_def)
    then have "client_inv u" using lu su fu d(1) by (simp add: client_inv_def obj_inv_def u_def)
    moreover have "s' = u" using r None by (simp add: client_dtor_def u_def t_def Let_def)
    ultimately show ?thesis by simp
  next
    case (Some n)
    then obtain v x where v: "conn_do env n (\<lambda>c. Inr (set_callback (SClose False) (set_callback (SConnection False) c))) u = Inr v"
      "conn_do env n (connectDestroyed (cl_exec env n)) v = Inr x" "s' = x\<lparr>cl_destroyed := cl_destroyed x @ [n]\<rparr>"
      using r by (auto simp: client_dtor_def u_def t_def Let_def destroy_connection_def bind_res_Inr)
    have uv: "op_ok w u v" "reshaped u v" for w using conn_do_dead[OF v(1) lu] by (simp_all add: u_def)
    have lv: "link_inv w v" "running v = None" for w
    proof -
      show rv: "running v = None" using op_okD(2)[OF uv(1)] d(1) by (simp add: extends_def u_def)
      show "link_inv w v" by (rule link_any[OF rv op_okD(1)[OF uv(1)]])
    qed
    have "\<not> cl_lifetime v" using uv(2) by (simp add: reshaped_def u_def)
    then have vx: "op_ok w v x" "reshaped v x" for w using conn_do_dead[OF v(2) lv(1)] by simp_all
    have ux: "reshaped u x" by (rule reshaped_trans[OF uv(2) vx(2)])
    have parts: "live s' = []" "doomed (cl_tasks s') = doomed (cl_tasks t)" "cl_destroyed s' = cl_destroyed t @ [n]" "names s' = names t"
      "cl_assert s' = cl_assert t" "cl_nextConnId s' = cl_nextConnId t"
      using ux by (simp_all add: reshaped_def v(3) live_def names_def u_def)
    have dm: "dom (shape s') = dom (shape t)" using reshaped_dom[OF ux] by (simp add: v(3) u_def)
    have lt: "live t = [n]" using Some tn(2) by (simp add: live_def)
    have "acct s'" unfolding acct_def parts dm using books_last ac(1) by (simp add: acct_def lt)
    moreover have "fds_acct s'" using reshaped_fds[OF ux] fu by (simp add: fds_acct_def v(3))
    moreover have "\<not> cl_lifetime s'" using ux by (simp add: reshaped_def v(3) u_def)
    ultimately have o: "obj_inv s'" by (simp add: obj_inv_def)
    have op: "op_ok w v s'" for w using vx(1)[of w] by (simp add: op_ok_def v(3) extends_def kept_def after_calls_def)
    have sv: "sep v" by (rule sep_grown[OF su]) (use op_okD(2)[OF uv(1)] uv(2) in \<open>simp_all add: extends_def reshaped_def\<close>)
    show ?thesis by (rule op_inv[OF op lv(2) o sv]) (use vx(2) in \<open>simp add: v(3) reshaped_def\<close>)
  qed
qed

lemma books_release: "books l d z ns objs \<Longrightarrow> n \<in> set z \<Longrightarrow> books l d z ns (objs - {n})"
  by (auto simp: books_def)

lemma client_release_inv:
  assumes inv: "client_inv s" and x: "cl_objects s n = Some x" "n \<in> set (cl_destroyed s)"
  shows "client_inv (Socket_dtor (k_fd x) (s\<lparr>cl_objects := (cl_objects s)(n := None)\<rparr>))"
proof -
  note d = client_invD[OF inv]
  let ?t = "Socket_dtor (k_fd x) (s\<lparr>cl_objects := (cl_objects s)(n := None)\<rparr>)"
  have ac: "acct s" "fds_acct s" using d(3) by (simp_all add: obj_inv_def)
  have sx: "shape s n = Some (k_conn x, k_fd x)" using x(1) by (simp add: shape_def)
  have fd: "k_fd x \<in> openFds s" "isValid (k_fd x)" using ac(2) sx by (auto simp: fds_acct_def)
  have t: "?t = s\<lparr>openFds := openFds s - {k_fd x}, cl_objects := (cl_objects s)(n := None)\<rparr>"
    using fd by (simp add: Socket_dtor_def sockets_close_def)
  have sh: "shape ?t = (shape s)(n := None)" by (simp add: t shape_def fun_eq_iff)
  have "acct ?t"
  proof -
    have "books (live s) (doomed (cl_tasks s)) (cl_destroyed s) (names s) (dom (shape s) - {n})"
      by (rule books_release) (use ac(1) x(2) in \<open>simp_all add: acct_def\<close>)
    moreover have "live ?t = live s" "doomed (cl_tasks ?t) = doomed (cl_tasks s)" "cl_destroyed ?t = cl_destroyed s" "names ?t = names s"
      "cl_assert ?t = cl_assert s" "cl_nextConnId ?t = cl_nextConnId s" "dom (shape ?t) = dom (shape s) - {n}"
      unfolding sh by (simp_all add: t live_def names_def)
    ultimately show ?thesis using ac(1) unfolding acct_def by simp
  qed
  moreover have "fds_acct ?t"
  proof -
    have one: "(\<exists>c. shape s m = Some (c, f)) \<Longrightarrow> (\<exists>c. shape s k = Some (c, f)) \<Longrightarrow> m = k" for m k f using ac(2) unfolding fds_acct_def by blast
    have e: "(\<exists>c. shape ?t m = Some (c, f)) \<longleftrightarrow> m \<noteq> n \<and> (\<exists>c. shape s m = Some (c, f))" for m f by (simp add: sh)
    have ot: "openFds ?t = openFds s - {k_fd x}" "badClose ?t = badClose s" by (simp_all add: t)
    have o: "openFds s = {f. \<exists>m c. shape s m = Some (c, f)}" using ac(2) by (simp add: fds_acct_def)
    have other: "f \<noteq> k_fd x" if "m \<noteq> n" "shape s m = Some (c, f)" for m c f using one[of m f n] that sx by blast
    have mine: "m \<noteq> n" if "f \<noteq> k_fd x" "shape s m = Some (c, f)" for m c f using that sx by auto
    have "openFds s - {k_fd x} = {f. \<exists>m. m \<noteq> n \<and> (\<exists>c. shape s m = Some (c, f))}"
      unfolding o using other mine by blast
    moreover have "\<forall>m k f. m \<noteq> n \<and> (\<exists>c. shape s m = Some (c, f)) \<longrightarrow> k \<noteq> n \<and> (\<exists>c. shape s k = Some (c, f)) \<longrightarrow> m = k" using one by blast
    moreover have "\<not> badClose s" "\<forall>f \<in> openFds s - {k_fd x}. isValid f" using ac(2) by (simp_all add: fds_acct_def)
    ultimately show ?thesis unfolding fds_acct_def e ot by blast
  qed
  moreover have "conns_inv ?t" if "cl_lifetime ?t"
  proof -
    have "conns_inv s" using d(3) that by (simp add: obj_inv_def t)
    then have "conn_inv c \<and> (cl_connection s = Some m \<longleftrightarrow> NClose \<notin> set (called c))" if "shape s m = Some (c, f)" for m c f
      using conns_invD that by blast
    then show ?thesis unfolding conns_inv_def sh by (simp add: t split: if_splits) blast
  qed
  ultimately have o: "obj_inv ?t" by (simp add: obj_inv_def)
  have "link_inv w ?t" for w using d(2) by (simp add: t)
  moreover have "sep ?t" by (rule sep_grown[OF d(4)]) (auto simp: t)
  ultimately show ?thesis using o d(1) by (simp add: client_inv_def) (simp add: t)
qed

lemma client_post_inv:
  assumes inv: "client_inv s" and t: "postable t"
  shows "client_inv (queue_task t s)"
proof -
  note d = client_invD[OF inv]
  have nt: "destroys t = []" "t \<noteq> QAdvance g a" for g a using t by (cases t rule: postable.cases; simp)+
  have l: "link_inv w (queue_task t s)" for w unfolding queue_task_def by (rule link_tasks[OF d(2)]) (use nt(2) in auto)
  have sc: "same_conns s (queue_task t s)" using nt(1) by (simp add: same_conns_def queue_task_def)
  have "sep (queue_task t s)" by (rule sep_frame[OF d(4)]) (simp_all add: queue_task_def)
  then show ?thesis using l same_obj_inv[OF sc d(3)] d(1) by (simp add: client_inv_def) (simp add: queue_task_def)
qed

lemma advance_task_inv:
  assumes inv: "client_inv s" and t: "cl_tasks s = QAdvance gen a # ts"
  shows "client_inv (if \<not> cl_lifetime s \<or> gen \<noteq> cl_gen s \<or> \<not> cl_connect s then s\<lparr>cl_tasks := ts\<rparr>
          else if cl_connector s \<noteq> Some a then s\<lparr>cl_tasks := ts\<rparr> else startNextCandidate (s\<lparr>cl_tasks := ts\<rparr>))"
proof (cases "cl_lifetime s \<and> gen = cl_gen s \<and> cl_connect s \<and> cl_connector s = Some a")
  case False
  note l = link_invD[OF client_invD(2)[OF inv]]
  have "client_inv (s\<lparr>cl_tasks := ts\<rparr>)"
    by (rule pop_inv[OF inv t]) (use False l(2) in \<open>auto simp: phase_inv_def\<close>)
  then show ?thesis using False by simp
next
  case True
  note d = client_invD[OF inv]
  note l = link_invD[OF d(2)]
  let ?s = "s\<lparr>cl_tasks := ts\<rparr>"
  have "matches (cl_phase s) (at_conn (attempts s ! a)) True" using l(3) d(1) True t by (simp add: current_inv_def)
  then have ph: "cl_phase s \<noteq> Ph_Connected" by (simp add: matches_def)
  have nr: "cl_phase s \<noteq> Ph_Resolving" using l(2) True by (auto simp: phase_inv_def)
  have cn: "cl_connection s = None" using l(2) ph True by (simp add: phase_inv_def)
  have "same_conns s ?s" using t by (simp add: same_conns_def)
  then have o: "obj_inv ?s" by (rule same_obj_inv[OF _ d(3)])
  have ri: "resolve_inv Ph_Idle (cl_gen s) (resolving s)" by (rule resolve_other[of "cl_phase s"]) (use l(2) nr in \<open>simp_all add: phase_inv_def\<close>)
  have "client_inv (startNextCandidate ?s)"
  proof (rule startNextCandidate_inv)
    show "phase_inv (?s\<lparr>cl_phase := Ph_Idle, cl_connector := None\<rparr>)" using l(2) ri cn ph by (simp add: phase_inv_def)
    show "sep ?s" by (rule sep_frame[OF d(4)]) simp_all
    show "advance_inv (length (attempts ?s)) (cl_tasks ?s)" using advance_mono[OF l(5), of "length (attempts s)" ts] t by simp
  qed (use d(1) l(1) True cn o in simp_all)
  then show ?thesis using True by simp
qed

lemma client_step_inv:
  assumes env: "env_ok env" and inv: "client_inv s" and r: "client_step env ev s = Inr s'"
  shows "client_inv s'"
proof (cases ev)
  case (ClApi c)
  then show ?thesis using r inv capi_inv[OF inv] by (auto split: if_splits)
next
  case ClDisconnect
  then show ?thesis using r inv disconnect_inv[OF env inv] by (auto split: if_splits)
next
  case (ClPost t)
  then show ?thesis using r inv client_post_inv[OF inv] by (auto split: if_splits)
next
  case ClTask
  show ?thesis
  proof (cases "cl_tasks s")
    case Nil
    then show ?thesis using ClTask r inv by simp
  next
    case (Cons t ts)
    then have run: "run_cltask env t (s\<lparr>cl_tasks := ts\<rparr>) = Inr s'" using ClTask r by simp
    have pop: "client_inv (s\<lparr>cl_tasks := ts\<rparr>)" if "destroys t = []" "\<And>g a. t \<noteq> QAdvance g a"
      by (rule pop_inv[OF inv Cons that(1)]) (use that(2) in blast)
    show ?thesis
    proof (cases t)
      case (QApi c)
      then have p: "client_inv (s\<lparr>cl_tasks := ts\<rparr>)" using pop by simp
      then show ?thesis using run QApi capi_inv[OF p, of c] by (simp split: if_splits)
    next
      case QDisconnect
      then have p: "client_inv (s\<lparr>cl_tasks := ts\<rparr>)" using pop by simp
      then show ?thesis using run QDisconnect disconnect_inv[OF env p] by (simp split: if_splits)
    next
      case (QReconnect g)
      then have p: "client_inv (s\<lparr>cl_tasks := ts\<rparr>)" using pop by simp
      then show ?thesis using run QReconnect capi_inv[OF p, of CConnect] by (simp split: if_splits)
    next
      case (QAdvance g a)
      have "s' = (if \<not> cl_lifetime s \<or> g \<noteq> cl_gen s \<or> \<not> cl_connect s then s\<lparr>cl_tasks := ts\<rparr>
          else if cl_connector s \<noteq> Some a then s\<lparr>cl_tasks := ts\<rparr> else startNextCandidate (s\<lparr>cl_tasks := ts\<rparr>))"
        using run QAdvance by (auto split: if_splits)
      then show ?thesis using advance_task_inv[OF inv, of g a ts] Cons QAdvance by simp
    next
      case (QDestroy n)
      then show ?thesis using destroy_inv[OF env inv, of n ts s'] run Cons by simp
    qed
  qed
next
  case (ClConnector a e)
  then show ?thesis using r inv connector_step_inv[OF env inv, of a e s'] by (auto split: if_splits)
next
  case (ClResolved i addrs)
  then show ?thesis using r inv resolved_inv[OF inv, of i addrs] by (auto split: if_splits)
next
  case (ClConn n e)
  then show ?thesis using r inv conn_do_inv[OF inv tcp_step_good[OF env_exec[OF env, of n]], of env n e s'] by (auto split: if_splits)
next
  case ClEnableSsl
  note d = client_invD[OF inv]
  have "obj_inv (s\<lparr>cl_tlsContext := True\<rparr>)" by (rule obj_frame[OF _ _ _ _ _ _ _ _ _ _ _ d(3)]) simp_all
  moreover have "sep (s\<lparr>cl_tlsContext := True\<rparr>)" by (rule sep_frame[OF d(4)]) simp_all
  ultimately show ?thesis using ClEnableSsl r d by (auto simp: client_inv_def)
next
  case (ClRelease n)
  then show ?thesis using r inv client_release_inv[OF inv, of n] by (auto split: option.splits if_splits)
next
  case ClDtor
  then show ?thesis using r inv client_dtor_inv[OF inv] by (auto split: if_splits)
qed

lemma client_run_inv: "env_ok env \<Longrightarrow> client_inv s \<Longrightarrow> client_run env es s = Inr s' \<Longrightarrow> client_inv s'"
proof (induction es arbitrary: s)
  case (Cons e es)
  obtain t where t: "client_step env e s = Inr t" "client_run env es t = Inr s'" using Cons.prems(3) by (auto simp: bind_res_Inr)
  from client_step_inv[OF Cons.prems(1,2) t(1)] show ?case by (rule Cons.IH[OF Cons.prems(1) _ t(2)])
qed simp

lemma client_members_inv:
  assumes "options_validate opts = Inr ()"
  shows "client_inv (client_members name b fixed opts)"
proof -
  let ?s = "client_members name b fixed opts"
  have sh: "shape ?s = Map.empty" by (simp add: shape_def client_members_def fun_eq_iff)
  have "link_inv w ?s" for w
    using assms by (simp add: link_inv_def attempts_inv_def phase_inv_def resolve_inv_def current_inv_def running_inv_def advance_inv_def client_members_def)
  moreover have "acct ?s" by (simp add: acct_def sh) (simp add: books_def live_def names_def client_members_def)
  moreover have "fds_acct ?s" by (simp add: fds_acct_def sh) (simp add: client_members_def)
  moreover have "conns_inv ?s" by (simp add: conns_inv_def sh)
  moreover have "sep ?s" by (simp add: sep_def fds_at_def client_members_def)
  moreover have "running ?s = None" by (simp add: client_members_def)
  ultimately show ?thesis by (simp add: client_inv_def obj_inv_def)
qed

definition new_client :: "client \<Rightarrow> bool" where
  "new_client s \<longleftrightarrow> (\<exists>addr name b opts. TcpClient addr name b opts = Inr s) \<or> (\<exists>name. s = TcpClient_hostname name)"

lemma new_client_inv: "new_client s \<Longrightarrow> client_inv s"
  by (auto simp: new_client_def TcpClient_def TcpClient_hostname_def bind_res_Inr client_members_inv options_validate_def ConnectorOptions_def split: if_splits)

lemma count_distinct: "distinct xs \<Longrightarrow> x \<in> set xs \<Longrightarrow> count_list xs x = 1"
  by (induction xs) (auto simp: count_list_0_iff)

lemma inactive_connector:
  assumes "Connector_Model.cinv {} w" "cphase_of w = CIdle \<or> cphase_of w = Connected"
  shows "cchannel w = None \<and> ctimers w = Map.empty"
proof
  have i: "fds_inv {} w" "timers_inv w" using assms(1) by (simp_all add: Connector_Model.cinv_def cinv0_def)
  show "cchannel w = None" using i(1) assms(2) by (cases "cchannel w") (auto simp: fds_inv_def)
  have "retryTimerId w = 0" "connectTimeoutTimerId w = 0" using i(2) assms(2) by (auto simp: timers_inv_def)
  then show "ctimers w = Map.empty" using timers_inv_none[OF i(2)] by simp
qed

section \<open>Reachable states\<close>

text \<open>An application: any callbacks through the interface of the connection, nested to any depth, that leave a connection alone
  while its TLS session is being set up; any hooks that call the client; fresh sockets.\<close>

definition application :: "client_env \<Rightarrow> bool" where
  "application env \<longleftrightarrow> (\<exists>user k. (\<forall>n. cl_exec env n = exec_at (user n) k) \<and> (\<forall>n c. user n (NTls HandshakeStarted) c = [])) \<and>
     (\<forall>n. wire (cl_network env n) = [] \<and> \<not> ssl (cl_network env n))"

definition client_reach :: "client_env \<Rightarrow> client \<Rightarrow> bool" where
  "client_reach env s \<longleftrightarrow> application env \<and> (\<exists>s0 es. new_client s0 \<and> client_run env es s0 = Inr s)"

lemma application_ok: "application env \<Longrightarrow> env_ok env"
proof -
  assume "application env"
  then obtain user k where u: "\<And>n. cl_exec env n = exec_at (user n) k" "\<And>n c. user n (NTls HandshakeStarted) c = []"
    and w: "\<And>n. wire (cl_network env n) = [] \<and> \<not> ssl (cl_network env n)" unfolding application_def by blast
  have "exec_at (user n) k (NTls HandshakeStarted) c = Inr c" for n c using u(2) by (cases k) simp_all
  then show ?thesis unfolding env_ok_def u(1) using exec_at_ok w by blast
qed

lemma client_reach_inv: "client_reach env s \<Longrightarrow> client_inv s"
  unfolding client_reach_def using client_run_inv[OF application_ok _ _] new_client_inv by blast

definition demo_client_env :: client_env where
  "demo_client_env = \<lparr>cl_exec = \<lambda>n. exec_at (\<lambda>nt c. []) 2, cl_network = \<lambda>n. demo_net, cl_tls_created = \<lambda>n. True,
     connector_hook = \<lambda>s e. [], connection_hook = \<lambda>n nt s. []\<rparr>"

definition demo_start_client :: client where
  "demo_start_client = client_members ''c'' False (Some (demo_addr 80)) ConnectorOptions"

definition demo_connecting :: "client_event list" where
  "demo_connecting = [ClApi CConnect, ClConnector 0 (Connector_Model.EvTask (Inr 5) EINPROGRESS)]"

lemma demo_application: "application demo_client_env"
  unfolding application_def demo_client_env_def by (auto simp: demo_net_def intro!: exI[of _ "\<lambda>n nt c. []"])

lemma demo_new_client: "new_client demo_start_client"
proof -
  have "TcpClient (demo_addr 80) ''c'' False ConnectorOptions = Inr demo_start_client"
    by (simp add: TcpClient_def options_validate_def ConnectorOptions_def demo_start_client_def)
  then show ?thesis unfolding new_client_def by blast
qed

lemma demo_client_reach: "client_run demo_client_env es demo_start_client = Inr s \<Longrightarrow> client_reach demo_client_env s"
  unfolding client_reach_def using demo_application demo_new_client by blast

lemmas client_eval = demo_start_client_def client_members_def demo_client_env_def connectInLoop_def Let_def stop_previous_def initConnector_def
  start_connector_def call_connector_def Connector_def options_validate_def ConnectorOptions_def Connector_Model.start_def
  Connector_Model.queueInLoop_def connector_step_def event_calls_def on_event_def handleConnectorEvent_def startInLoop_def emitEvent_def
  connecting_def isInProgress_def isValid_def kInvalidSocket_def all_fds_def is_failure_def

lemma demo_exec: "exec_at (\<lambda>nt c. []) 2 nt c = Inr c"
  by (simp add: numeral_2_eq_2)

definition demo_connector_now :: connector where
  "demo_connector_now = \<lparr>openFds = {5}, badClose = False, cphase_of = Connecting, generation = 1, retryEnabled = False,
     initialRetryDelay = 500000000, retryDelayMs = 500000000, maxRetryDelayMs = 30000000000, connectTimeout = 0, cchannel = Some (5, 1),
     retryTimerId = 0, connectTimeoutTimerId = 0, ctimers = Map.empty, nextTimer = 1, ctasks = [], emitted = [ConnectAttempt],
     handed = [], nullChannel = False\<rparr>"

definition demo_connecting_state :: client where
  "demo_connecting_state = demo_start_client\<lparr>cl_phase := Ph_Connecting, cl_gen := 1, cl_connect := True, cl_connector := Some 0,
     attempts := [\<lparr>at_conn = demo_connector_now, at_gen = 1\<rparr>]\<rparr>"

lemma demo_connecting_run: "client_run demo_client_env demo_connecting demo_start_client = Inr demo_connecting_state"
  by (simp add: demo_connecting_def client_eval demo_connecting_state_def demo_connector_now_def)

lemma demo_connecting_facts:
  "cl_phase demo_connecting_state = Ph_Connecting" "cl_connector demo_connecting_state = Some 0" "cl_lifetime demo_connecting_state"
  "attempts demo_connecting_state = [\<lparr>at_conn = demo_connector_now, at_gen = 1\<rparr>]" "cl_gen demo_connecting_state = 1" "cl_connect demo_connecting_state"
  "\<not> cl_tlsContext demo_connecting_state" "\<not> cl_tlsHook demo_connecting_state" "client_connName demo_connecting_state = ''c#1''" "openFds demo_connecting_state = {}"
  by (simp_all add: demo_connecting_state_def demo_start_client_def client_members_def client_connName_def to_string.simps digit_def)

text \<open>Establishing the connection of the demonstration: one notification.\<close>

lemma demo_establish:
  "\<exists>c. client_establish (exec_at (\<lambda>nt c. []) 2) False created (client_callbacks s (TcpConnection 5 demo_net)) = Inr c \<and>
     called c = [NConnected True] \<and> c_state c = kConnected \<and> cb_close (c_cbs c)"
  by (simp add: client_establish_def client_callbacks_def demo_exec demo_net_def call_user_def tcp_eval)

definition demo_event :: "Connector_Model.conn_event" where
  "demo_event = Connector_Model.EvWrite 1 0 (demo_addr 1) (demo_addr 2)"

lemma demo_connected_step:
  "\<exists>s c. client_step demo_client_env (ClConnector 0 demo_event) demo_connecting_state = Inr s \<and> cl_phase s = Ph_Connected \<and>
     cl_connection s = Some ''c#1'' \<and> openFds s = {5} \<and> cl_lifetime s \<and> cl_objects s = [''c#1'' \<mapsto> \<lparr>k_conn = c, k_fd = 5, k_gone = False\<rparr>] \<and>
     called c = [NConnected True] \<and> c_state c = kConnected \<and> cb_close (c_cbs c) \<and> \<not> cl_retry s \<and> cl_tasks s = []"
proof -
  let ?env = demo_client_env
  define s0 where "s0 = demo_connecting_state\<lparr>running := Some 0, cops := []\<rparr>"
  define s1 where "s1 = s0\<lparr>openFds := {5}, cl_nextConnId := cl_nextConnId s0 + 1\<rparr>"
  note f = demo_connecting_facts
  obtain c where c: "client_establish (exec_at (\<lambda>nt c. []) 2) False True (client_callbacks s1 (TcpConnection 5 demo_net)) = Inr c"
    "called c = [NConnected True]" "c_state c = kConnected" "cb_close (c_cbs c)" using demo_establish by blast
  let ?o = "\<lparr>k_conn = client_callbacks s1 (TcpConnection 5 demo_net), k_fd = 5, k_gone = False\<rparr>"
  define t where "t = s1\<lparr>cl_objects := [''c#1'' \<mapsto> \<lparr>k_conn = c, k_fd = 5, k_gone = False\<rparr>], cl_connection := Some ''c#1'',
     cl_phase := Ph_Connected, candidates := [], nextCandidate := 0\<rparr>"
  have n: "client_connName s0 = ''c#1''" "client_connName (s0\<lparr>openFds := X\<rparr>) = client_connName s0" for X
    using f(9) by (simp_all add: s0_def client_connName_def)
  have ob: "cl_objects s0 = Map.empty" "openFds s0 = {}" "\<not> cl_tlsContext s0" by (simp_all add: s0_def demo_connecting_state_def demo_start_client_def client_members_def)
  have ev: "on_event ?env 0 ConnectSuccess s0 = s0"
    using f by (simp add: on_event_def s0_def handleConnectorEvent_def is_failure_def demo_client_env_def)
  have cc: "called (client_callbacks s1 (TcpConnection 5 demo_net)) = []" by (simp add: client_callbacks_def Let_def TcpConnection_def)
  have g: "cl_lifetime s0" "at_gen (attempts s0 ! 0) = cl_gen s0" "cl_connect s0" "cl_connector s0 = Some 0" using f by (simp_all add: s0_def)
  have e: "cl_exec ?env m = exec_at (\<lambda>nt c. []) 2" "cl_network ?env m = demo_net" "cl_tls_created ?env m" "connection_hook ?env m nt x = []" for m nt x by (simp_all add: demo_client_env_def)
  have s1: "s0\<lparr>openFds := {5}, cl_nextConnId := Suc (cl_nextConnId s0)\<rparr> = s1" by (simp add: s1_def)
  have s1f: "\<not> cl_tlsContext s1" "cl_objects s1 = Map.empty" using ob by (simp_all add: s1_def)
  have oc: "on_connected ?env 0 5 s0 = Inr t"
    using c n(1) ob cc s1f
    by (simp add: on_connected_def g client_newConnection_def Let_def n(2) e s1 conn_do_def t_def set_gone_def)
  let ?w = demo_connector_now
  let ?ecb = "event_calls ?env 0 s0 1" and ?ncb = "connected_calls ?env 0 s0 1"
  let ?v = "?w\<lparr>cchannel := None, ctasks := [QRetire 5], cphase_of := Connected, emitted := [ConnectAttempt, ConnectSuccess]\<rparr>"
  have em: "?ecb ?v ConnectSuccess = []" by (simp add: event_calls_def ev)
  have nc: "?ncb (?v\<lparr>openFds := {}, handed := [5]\<rparr>) 5 = []"
    using oc by (simp add: connected_calls_def ev t_def s1_def)
  have st: "conn_step ?ecb (Some ?ncb) demo_event ?w = ?v\<lparr>openFds := {}, handed := [5]\<rparr>"
    using em nc by (simp add: demo_event_def Connector_Model.handleWrite_def demo_connector_now_def cancelTimers_def removeAndResetChannel_def
        Connector_Model.queueInLoop_def Let_def selfConnect_def demo_addr_def emitEvent_def releaseFd_def)
  have at: "attempts demo_connecting_state ! 0 = \<lparr>at_conn = ?w, at_gen = 1\<rparr>" by (simp add: f(4))
  have wf: "emitted ?w = [ConnectAttempt]" "handed ?w = []" by (simp_all add: demo_connector_now_def)
  have "connector_step ?env 0 demo_event demo_connecting_state = Inr (put_back 0 (?v\<lparr>openFds := {}, handed := [5]\<rparr>) t)"
    unfolding connector_step_def Let_def at attempt.simps wf list.size s0_def[symmetric]
    using st ev oc by (simp add: put_back_def)
  then have "client_step ?env (ClConnector 0 demo_event) demo_connecting_state = Inr (put_back 0 (?v\<lparr>openFds := {}, handed := [5]\<rparr>) t)"
    using f(4) by (simp add: demo_event_def)
  then show ?thesis using c by (intro exI[of _ "put_back 0 (?v\<lparr>openFds := {}, handed := [5]\<rparr>) t"] exI[of _ c])
    (simp add: put_back_def t_def s1_def s0_def demo_connecting_state_def demo_start_client_def client_members_def)
qed

lemma demo_connecting_reach: "client_reach demo_client_env demo_connecting_state"
  by (rule demo_client_reach[OF demo_connecting_run])

lemma demo_connected_reach:
  "\<exists>s. client_reach demo_client_env s \<and> cl_phase s = Ph_Connected \<and> cl_connection s = Some ''c#1'' \<and> openFds s = {5} \<and> cl_lifetime s"
proof -
  obtain s where s: "client_step demo_client_env (ClConnector 0 demo_event) demo_connecting_state = Inr s" "cl_phase s = Ph_Connected"
    "cl_connection s = Some ''c#1''" "openFds s = {5}" "cl_lifetime s" using demo_connected_step by blast
  have app: "client_run env (es @ [e]) s0 = bind_res (client_run env es s0) (client_step env e)" for env es e s0
    by (induction es arbitrary: s0) (auto simp: bind_res_def split: sum.split)
  have "client_run demo_client_env (demo_connecting @ [ClConnector 0 demo_event]) demo_start_client = Inr s"
    unfolding app demo_connecting_run using s(1) by (simp del: client_step.simps)
  from demo_client_reach[OF this] show ?thesis using s by blast
qed

section \<open>Properties\<close>

text \<open>C12. A client has one connection. In every state a client can reach, whatever its application does in the callbacks: every
  connection it ever made is in exactly one place, namely the member \<open>connection_\<close>, a queued \<open>connectDestroyed\<close>, or the
  destroyed ones; the member is the one connection whose close callback has not run; the client is in phase \<open>Connected\<close> exactly
  when it has a connection; and \<open>assert(connection_ == conn)\<close> in \<open>removeConnection\<close> never fails.\<close>

theorem client_single_connection:
  assumes "client_reach env s"
  shows "distinct (live s @ doomed (cl_tasks s) @ cl_destroyed s) \<and> set (live s @ doomed (cl_tasks s) @ cl_destroyed s) = set (names s) \<and>
    \<not> cl_assert s \<and>
    (cl_lifetime s \<longrightarrow> (cl_phase s = Ph_Connected \<longleftrightarrow> cl_connection s \<noteq> None) \<and>
      (\<forall>n x. cl_objects s n = Some x \<longrightarrow> (cl_connection s = Some n \<longleftrightarrow> NClose \<notin> set (called (k_conn x)))))"
proof -
  note d = client_invD[OF client_reach_inv[OF assms]]
  have a: "acct s" using d(3) by (simp add: obj_inv_def)
  have c: "(cl_connection s = Some n) = (NClose \<notin> set (called (k_conn x)))" if "cl_lifetime s" "cl_objects s n = Some x" for n x
  proof -
    have "conns_inv s" using d(3) that(1) by (simp add: obj_inv_def)
    moreover have "shape s n = Some (k_conn x, k_fd x)" using that(2) by (simp add: shape_def)
    ultimately show ?thesis using conns_invD by blast
  qed
  have p: "cl_lifetime s \<longrightarrow> (cl_phase s = Ph_Connected \<longleftrightarrow> cl_connection s \<noteq> None)" using link_invD(2)[OF d(2)] by (simp add: phase_inv_def)
  show ?thesis using a p c unfolding acct_def books_def by blast
qed

theorem client_single_connection_witness:
  "\<exists>s. client_reach demo_client_env s \<and> cl_connection s = Some ''c#1'' \<and> set (names s) = {''c#1''} \<union> set (doomed (cl_tasks s)) \<union> set (cl_destroyed s)"
proof -
  obtain s where s: "client_reach demo_client_env s" "cl_connection s = Some ''c#1''" "cl_lifetime s" using demo_connected_reach by blast
  have "live s = [''c#1'']" using s by (simp add: live_def)
  then have "set (names s) = {''c#1''} \<union> set (doomed (cl_tasks s)) \<union> set (cl_destroyed s)" using client_single_connection[OF s(1)] by auto
  then show ?thesis using s by blast
qed

text \<open>C13. A client never waits for nothing. In every reachable state: a client that is resolving has exactly one request of its generation
  outstanding at the resolver; a client that is connecting has a current connector, and that has its start functor queued, or its
  channel registered, or its retry timer armed, or (it has failed and) the step to the next candidate is queued. Conversely a
  connector that is not current is idle, and so is the current one of an idle client: it has no channel and no timer.\<close>

theorem client_never_stuck:
  assumes "client_reach env s"
  shows "(cl_phase s = Ph_Resolving \<longrightarrow> count_list (resolving s) (cl_gen s) = 1) \<and>
    (cl_phase s = Ph_Connecting \<longrightarrow> cl_connect s \<and> (\<exists>a w. cl_connector s = Some a \<and> a < length (attempts s) \<and> w = at_conn (attempts s ! a) \<and>
       (QStart (generation w) \<in> set (ctasks w) \<or> cchannel w \<noteq> None \<or> ctimers w (retryTimerId w) \<noteq> None \<or>
        QAdvance (cl_gen s) a \<in> set (cl_tasks s)))) \<and>
    (\<forall>a < length (attempts s). cl_connector s \<noteq> Some a \<or> cl_phase s = Ph_Idle \<longrightarrow>
       cchannel (at_conn (attempts s ! a)) = None \<and> ctimers (at_conn (attempts s ! a)) = Map.empty)"
proof (intro conjI impI allI)
  note d = client_invD[OF client_reach_inv[OF assms]]
  note l = link_invD[OF d(2)]
  have rd: "ready (at_conn (attempts s ! a))" "cl_connector s \<noteq> Some a \<Longrightarrow> cphase_of (at_conn (attempts s ! a)) = CIdle" if "a < length (attempts s)" for a
    using l(1) d(1) that by (simp_all add: attempts_inv_def)
  { assume "cl_phase s = Ph_Resolving"
    then have "cl_gen s \<in> set (resolving s)" "distinct (resolving s)" using l(2) by (simp_all add: phase_inv_def resolve_inv_def)
    then show "count_list (resolving s) (cl_gen s) = 1" by (simp add: count_distinct) }
  { assume ph: "cl_phase s = Ph_Connecting"
    then obtain a where a: "cl_connector s = Some a" using l(2) by (auto simp: phase_inv_def)
    show "cl_connect s" using l(2) a by (simp add: phase_inv_def)
    define w where "w = at_conn (attempts s ! a)"
    have al: "a < length (attempts s)" "matches Ph_Connecting w (QAdvance (cl_gen s) a \<in> set (cl_tasks s))"
      using l(3) d(1) a ph by (simp_all add: current_inv_def w_def)
    have c: "Connector_Model.cinv {} w" "queued w" using rd(1)[OF al(1)] by (simp_all add: ready_def w_def)
    have "QStart (generation w) \<in> set (ctasks w) \<or> cchannel w \<noteq> None \<or> ctimers w (retryTimerId w) \<noteq> None \<or> QAdvance (cl_gen s) a \<in> set (cl_tasks s)"
      using al(2) c by (auto simp: matches_def queued_def Connector_Model.cinv_def cinv0_def timers_inv_def)
    then show "\<exists>a w. cl_connector s = Some a \<and> a < length (attempts s) \<and> w = at_conn (attempts s ! a) \<and>
       (QStart (generation w) \<in> set (ctasks w) \<or> cchannel w \<noteq> None \<or> ctimers w (retryTimerId w) \<noteq> None \<or>
        QAdvance (cl_gen s) a \<in> set (cl_tasks s))"
      using a al(1) w_def by blast }
  { fix a assume a: "a < length (attempts s)" "cl_connector s \<noteq> Some a \<or> cl_phase s = Ph_Idle"
    have "cphase_of (at_conn (attempts s ! a)) = CIdle \<or> cphase_of (at_conn (attempts s ! a)) = Connected"
      using a rd(2)[OF a(1)] l(3) d(1) by (cases "cl_connector s = Some a") (auto simp: current_inv_def matches_def)
    then have "cchannel (at_conn (attempts s ! a)) = None \<and> ctimers (at_conn (attempts s ! a)) = Map.empty"
      using rd(1)[OF a(1)] inactive_connector by (simp add: ready_def)
    then show "cchannel (at_conn (attempts s ! a)) = None" "ctimers (at_conn (attempts s ! a)) = Map.empty" by simp_all }
qed

theorem client_never_stuck_witness:
  "cl_phase demo_connecting_state = Ph_Connecting \<and> cl_connect demo_connecting_state \<and> (\<exists>a. cl_connector demo_connecting_state = Some a)"
  using client_never_stuck[OF demo_connecting_reach] demo_connecting_facts(1) by blast

text \<open>Descriptors of a client. In every reachable state no descriptor was closed twice or without being owned, by the client or by any
  connector; the descriptors the client answers for are exactly those of its connection objects, each of one object; none of them is
  open in a connector, and no two connectors share one. After the destructor no connector has a descriptor.\<close>

theorem client_descriptors:
  assumes "client_reach env s"
  shows "\<not> badClose s \<and> openFds s = {k_fd x | n x. cl_objects s n = Some x} \<and>
    (\<forall>n m x y. cl_objects s n = Some x \<longrightarrow> cl_objects s m = Some y \<longrightarrow> k_fd x = k_fd y \<longrightarrow> n = m) \<and>
    (\<forall>a b. a \<noteq> b \<longrightarrow> fds_at s a \<inter> fds_at s b = {}) \<and> (\<forall>a. fds_at s a \<inter> openFds s = {}) \<and>
    (\<forall>a < length (attempts s). \<not> badClose (at_conn (attempts s ! a))) \<and> (\<not> cl_lifetime s \<longrightarrow> (\<forall>a. fds_at s a = {}))"
proof (intro conjI allI impI)
  note d = client_invD[OF client_reach_inv[OF assms]]
  note l = link_invD[OF d(2)]
  have f: "fds_acct s" using d(3) by (simp add: obj_inv_def)
  have sh: "(\<exists>c. shape s n = Some (c, fd)) \<longleftrightarrow> (\<exists>x. cl_objects s n = Some x \<and> k_fd x = fd)" for n fd by (auto simp: shape_def)
  show "\<not> badClose s" "openFds s = {k_fd x | n x. cl_objects s n = Some x}" using f unfolding fds_acct_def sh by auto
  fix n m x y assume "cl_objects s n = Some x" "cl_objects s m = Some y" "k_fd x = k_fd y"
  then show "n = m" using f unfolding fds_acct_def sh by metis
next
  note d = client_invD[OF client_reach_inv[OF assms]]
  note l = link_invD[OF d(2)]
  show "a \<noteq> b \<Longrightarrow> fds_at s a \<inter> fds_at s b = {}" for a b :: nat using d(4) by (simp add: sep_def)
  show "fds_at s a \<inter> openFds s = {}" for a by (rule seps[OF d(4)])
  have c: "Connector_Model.cinv {} (at_conn (attempts s ! a))" "cl_connector s \<noteq> Some a \<Longrightarrow> cphase_of (at_conn (attempts s ! a)) = CIdle"
    if "a < length (attempts s)" for a
    using l(1) d(1) that by (simp_all add: attempts_inv_def ready_def)
  show "\<not> badClose (at_conn (attempts s ! a))" if "a < length (attempts s)" for a
    using c(1)[OF that] by (simp add: Connector_Model.cinv_def cinv0_def fds_inv_def)
  show "fds_at s a = {}" if "\<not> cl_lifetime s" for a
  proof (cases "a < length (attempts s)")
    case True
    have "cl_connector s = None" using l(2) that by (simp add: phase_inv_def)
    then have "cchannel (at_conn (attempts s ! a)) = None" using inactive_connector[OF c(1)[OF True]] c(2)[OF True] by simp
    then show ?thesis using c(1)[OF True] True by (simp add: fds_at_def Connector_Model.cinv_def cinv0_def fds_inv_def chan_fds_def)
  qed (simp add: fds_at_def)
qed

theorem client_descriptors_witness:
  "\<exists>s. client_reach demo_client_env s \<and> openFds s = {5} \<and> (\<exists>n x. cl_objects s n = Some x \<and> k_fd x = 5)"
proof -
  obtain s where s: "client_reach demo_client_env s" "openFds s = {5}" using demo_connected_reach by blast
  have "openFds s = {k_fd x | n x. cl_objects s n = Some x}" using client_descriptors[OF s(1)] by blast
  then have "5 \<in> {k_fd x | n x. cl_objects s n = Some x}" using s(2) by blast
  then show ?thesis using s by auto
qed

end
