(* ===== verification/Cancel_Token.thy ===== *)
theory Cancel_Token
  imports Prelude "HOL-Library.Multiset"
begin

text \<open>
  \<^verbatim>\<open>coroutine/CancellationToken.h\<close>: sources, tokens and registrations.

  The shared \<open>CancellationState\<close>s are the list \<open>states\<close>; a token is an index into it (\<open>None\<close> for a token without
  state). Every call of \<open>registerCallback\<close> on a token with a state gets a ticket, which stands for the callback object and
  for the \<open>CancellationRegistration\<close> it returns; \<open>target\<close> is the state it was registered with and \<open>action\<close> what the callback
  does: user code, or \<open>source.cancel()\<close> for one made by \<open>LinkedCancellation::link\<close>.

  Any number of threads run at the same time, each with a stack of the calls it is in. A section under \<open>mutex\<close> and an atomic
  access are one step; between them every other thread may move. User code on top of a stack may make any call, so callbacks
  that register, reset or cancel again are included. \<open>issued\<close>, \<open>withdrawn\<close> and \<open>invoked\<close> are histories: all tickets, those
  whose callback a \<open>reset\<close> took out, and those whose callback was called.
\<close>

section \<open>State\<close>

record cancel_state =
  cancelled :: bool
  nextCallbackId :: nat
  callbacks :: "(nat \<times> nat) list"

definition CancellationState :: cancel_state where
  "CancellationState = \<lparr>cancelled = False, nextCallbackId = 1, callbacks = []\<rparr>"

datatype action = UserCode | CancelSource nat

text \<open>The calls on a stack: \<open>registerCallback\<close> before its section, \<open>cancel\<close> before the exchange, before the swap and in its loop
  (with the callbacks still to be called and the first exception), and a callback running user code.\<close>

datatype frame =
    FRegister nat
  | FCancel nat
  | FSwap nat
  | FLoop nat "nat list" "cpp_error option"
  | FBody nat

record cancel_world =
  states :: "cancel_state list"
  threads :: "frame list list"
  target :: "nat \<Rightarrow> nat"
  action_of :: "nat \<Rightarrow> action"
  registration :: "nat \<rightharpoonup> nat \<times> nat"
  issued :: "nat list"
  withdrawn :: "nat list"
  invoked :: "nat list"

section \<open>The sections\<close>

definition isCancellationRequested :: "nat option \<Rightarrow> cancel_world \<Rightarrow> bool" where
  "isCancellationRequested token w = (case token of None \<Rightarrow> False | Some s \<Rightarrow> cancelled (states w ! s))"

text \<open>\<open>registerCallback\<close> under the mutex: the identifier, or \<open>None\<close> for \<open>invokeImmediately\<close>.\<close>

definition register_section :: "nat \<Rightarrow> cancel_state \<Rightarrow> nat option \<times> cancel_state" where
  "register_section callback st =
     (if cancelled st then (None, st)
      else let callbackId = nextCallbackId st
           in (Some callbackId,
               st\<lparr>nextCallbackId := callbackId + 1, callbacks := callbacks st @ [(callbackId, callback)]\<rparr>))"

text \<open>\<open>cancelled.exchange(true)\<close>: the old value.\<close>

definition exchange_cancelled :: "cancel_state \<Rightarrow> bool \<times> cancel_state" where
  "exchange_cancelled st = (cancelled st, st\<lparr>cancelled := True\<rparr>)"

definition swap_callbacks :: "cancel_state \<Rightarrow> nat list \<times> cancel_state" where
  "swap_callbacks st = (map snd (callbacks st), st\<lparr>callbacks := []\<rparr>)"

definition extract_callback :: "nat \<Rightarrow> cancel_state \<Rightarrow> nat list \<times> cancel_state" where
  "extract_callback callbackId st =
     (map snd (filter (\<lambda>(i, c). i = callbackId) (callbacks st)),
      st\<lparr>callbacks := filter (\<lambda>(i, c). i \<noteq> callbackId) (callbacks st)\<rparr>)"

section \<open>Calls\<close>

text \<open>A call returns, with the exception it throws; the loop of \<open>cancel\<close> keeps the first one.\<close>

fun return :: "cpp_error option \<Rightarrow> frame list \<Rightarrow> frame list" where
  "return e (FLoop s ts failure # fs) = FLoop s ts (if failure = None then e else failure) # fs"
| "return e fs = fs"

fun invoke :: "action \<Rightarrow> nat \<Rightarrow> frame" where
  "invoke UserCode t = FBody t"
| "invoke (CancelSource s) t = FCancel s"

text \<open>User code is on top.\<close>

fun in_user_code :: "frame list \<Rightarrow> bool" where
  "in_user_code [] = True"
| "in_user_code (FBody t # fs) = True"
| "in_user_code fs = False"

definition set_stack :: "nat \<Rightarrow> frame list \<Rightarrow> cancel_world \<Rightarrow> cancel_world" where
  "set_stack i fs w = w\<lparr>threads := (threads w)[i := fs]\<rparr>"

definition set_state :: "nat \<Rightarrow> cancel_state \<Rightarrow> cancel_world \<Rightarrow> cancel_world" where
  "set_state s st w = w\<lparr>states := (states w)[s := st]\<rparr>"

text \<open>\<open>registerCallback\<close> is called: a new ticket. A token without state gives an empty registration at once.\<close>

definition registerCallback :: "nat \<Rightarrow> nat option \<Rightarrow> action \<Rightarrow> cancel_world \<Rightarrow> cancel_world" where
  "registerCallback i token a w =
     (case token of
        None \<Rightarrow> w
      | Some s \<Rightarrow>
          let t = length (issued w)
          in w\<lparr>threads := (threads w)[i := FRegister t # threads w ! i], issued := issued w @ [t],
               target := (target w)(t := s), action_of := (action_of w)(t := a)\<rparr>)"

text \<open>\<open>CancellationRegistration::reset\<close>; an empty registration has nothing to do.\<close>

definition reset :: "nat \<Rightarrow> cancel_world \<Rightarrow> cancel_world" where
  "reset t w =
     (case registration w t of
        None \<Rightarrow> w
      | Some (s, callbackId) \<Rightarrow>
          let (removed, st) = extract_callback callbackId (states w ! s)
          in (set_state s st w)\<lparr>registration := (registration w)(t := None), withdrawn := withdrawn w @ removed\<rparr>)"

text \<open>\<open>LinkedCancellation::link\<close> of the source \<open>s\<close> to a token.\<close>

definition link :: "nat \<Rightarrow> nat \<Rightarrow> nat option \<Rightarrow> cancel_world \<Rightarrow> cancel_world" where
  "link i s token w = registerCallback i token (CancelSource s) w"

section \<open>Steps\<close>

text \<open>User code makes a call, or creates a source. \<open>reset\<close> is one section.\<close>

inductive ucall :: "cancel_world \<Rightarrow> cancel_world \<Rightarrow> bool" where
  new_source: "ucall w (w\<lparr>states := states w @ [CancellationState]\<rparr>)"
| call_register:
    "i < length (threads w) \<Longrightarrow> in_user_code (threads w ! i) \<Longrightarrow> (\<forall>s. token = Some s \<longrightarrow> s < length (states w)) \<Longrightarrow>
     ucall w (registerCallback i token UserCode w)"
| call_link:
    "i < length (threads w) \<Longrightarrow> in_user_code (threads w ! i) \<Longrightarrow> (\<forall>p. token = Some p \<longrightarrow> p < length (states w)) \<Longrightarrow>
     s < length (states w) \<Longrightarrow> ucall w (link i s token w)"
| call_cancel:
    "i < length (threads w) \<Longrightarrow> in_user_code (threads w ! i) \<Longrightarrow> s < length (states w) \<Longrightarrow>
     ucall w (set_stack i (FCancel s # threads w ! i) w)"
| call_reset: "ucall w (reset t w)"

text \<open>A call in progress makes its next step, or a callback returns (\<open>e\<close> is what it throws).\<close>

inductive istep :: "cancel_world \<Rightarrow> cancel_world \<Rightarrow> bool" where
  stored:
    "i < length (threads w) \<Longrightarrow> threads w ! i = FRegister t # fs \<Longrightarrow> s = target w t \<Longrightarrow>
     register_section t (states w ! s) = (Some callbackId, st) \<Longrightarrow>
     istep w ((set_stack i (return None fs) (set_state s st w))\<lparr>registration := (registration w)(t \<mapsto> (s, callbackId))\<rparr>)"
| immediate:
    "i < length (threads w) \<Longrightarrow> threads w ! i = FRegister t # fs \<Longrightarrow>
     register_section t (states w ! target w t) = (None, st) \<Longrightarrow>
     istep w ((set_stack i (invoke (action_of w t) t # fs) w)\<lparr>invoked := invoked w @ [t]\<rparr>)"
| cancel_again:
    "i < length (threads w) \<Longrightarrow> threads w ! i = FCancel s # fs \<Longrightarrow> exchange_cancelled (states w ! s) = (True, st) \<Longrightarrow>
     istep w (set_stack i (return None fs) (set_state s st w))"
| cancel_first:
    "i < length (threads w) \<Longrightarrow> threads w ! i = FCancel s # fs \<Longrightarrow> exchange_cancelled (states w ! s) = (False, st) \<Longrightarrow>
     istep w (set_stack i (FSwap s # fs) (set_state s st w))"
| cancel_swap:
    "i < length (threads w) \<Longrightarrow> threads w ! i = FSwap s # fs \<Longrightarrow> swap_callbacks (states w ! s) = (ts, st) \<Longrightarrow>
     istep w (set_stack i (FLoop s ts None # fs) (set_state s st w))"
| cancel_next:
    "i < length (threads w) \<Longrightarrow> threads w ! i = FLoop s ts failure # fs \<Longrightarrow> t \<in> set ts \<Longrightarrow>
     istep w ((set_stack i (invoke (action_of w t) t # FLoop s (remove1 t ts) failure # fs) w)\<lparr>invoked := invoked w @ [t]\<rparr>)"
| cancel_return:
    "i < length (threads w) \<Longrightarrow> threads w ! i = FLoop s [] failure # fs \<Longrightarrow>
     istep w (set_stack i (return failure fs) w)"
| callback_return:
    "i < length (threads w) \<Longrightarrow> threads w ! i = FBody t # fs \<Longrightarrow>
     istep w (set_stack i (return e fs) w)"

definition cstep :: "cancel_world \<Rightarrow> cancel_world \<Rightarrow> bool" where
  "cstep w w' \<longleftrightarrow> ucall w w' \<or> istep w w'"

definition cancel_init :: "nat \<Rightarrow> cancel_world" where
  "cancel_init n = \<lparr>states = [], threads = replicate n [], target = (\<lambda>_. 0), action_of = (\<lambda>_. UserCode),
     registration = Map.empty, issued = [], withdrawn = [], invoked = []\<rparr>"

section \<open>Invariant\<close>

fun held :: "frame \<Rightarrow> nat list" where
  "held (FRegister t) = [t]"
| "held (FLoop s ts e) = ts"
| "held f = []"

definition stack_tickets :: "frame list \<Rightarrow> nat list" where
  "stack_tickets fs = concat (map held fs)"

definition stored_tickets :: "cancel_state \<Rightarrow> nat list" where
  "stored_tickets st = map snd (callbacks st)"

text \<open>Where a ticket can be.\<close>

definition places :: "cancel_world \<Rightarrow> nat multiset" where
  "places w = mset (concat (map stored_tickets (states w))) + mset (concat (map stack_tickets (threads w))) +
     mset (withdrawn w) + mset (invoked w)"

definition ids_ok :: "cancel_world \<Rightarrow> bool" where
  "ids_ok w \<longleftrightarrow>
     (\<forall>s < length (states w). \<forall>(i, t) \<in> set (callbacks (states w ! s)). i < nextCallbackId (states w ! s) \<and> target w t = s) \<and>
     (\<forall>t s i. registration w t = Some (s, i) \<longrightarrow>
        s < length (states w) \<and> i < nextCallbackId (states w ! s) \<and>
        (\<forall>t'. (i, t') \<in> set (callbacks (states w ! s)) \<longrightarrow> t' = t))"

fun frame_ok :: "cancel_world \<Rightarrow> frame \<Rightarrow> bool" where
  "frame_ok w (FRegister t) = (t \<in> set (issued w))"
| "frame_ok w (FCancel s) = (s < length (states w))"
| "frame_ok w (FSwap s) = (s < length (states w) \<and> cancelled (states w ! s))"
| "frame_ok w (FLoop s ts e) = (s < length (states w) \<and> cancelled (states w ! s) \<and> (\<forall>t \<in> set ts. target w t = s))"
| "frame_ok w (FBody t) = True"

definition frames_ok :: "cancel_world \<Rightarrow> bool" where
  "frames_ok w \<longleftrightarrow> (\<forall>fs \<in> set (threads w). \<forall>f \<in> set fs. frame_ok w f)"

definition on_stack :: "frame \<Rightarrow> cancel_world \<Rightarrow> bool" where
  "on_stack f w \<longleftrightarrow> (\<exists>fs \<in> set (threads w). f \<in> set fs)"

definition tickets_ok :: "cancel_world \<Rightarrow> bool" where
  "tickets_ok w \<longleftrightarrow> issued w = [0..<length (issued w)] \<and>
     (\<forall>t \<in> set (issued w). target w t < length (states w) \<and> (\<forall>s. action_of w t = CancelSource s \<longrightarrow> s < length (states w)))"

definition swap_ok :: "cancel_world \<Rightarrow> bool" where
  "swap_ok w \<longleftrightarrow> (\<forall>s < length (states w). cancelled (states w ! s) \<and> callbacks (states w ! s) \<noteq> [] \<longrightarrow> on_stack (FSwap s) w)"

definition called_ok :: "cancel_world \<Rightarrow> bool" where
  "called_ok w \<longleftrightarrow> (\<forall>t \<in> set (invoked w). cancelled (states w ! target w t) \<and>
     (\<forall>s. action_of w t = CancelSource s \<longrightarrow> cancelled (states w ! s) \<or> on_stack (FCancel s) w))"

definition cancel_inv :: "cancel_world \<Rightarrow> bool" where
  "cancel_inv w \<longleftrightarrow> mset (issued w) = places w \<and> tickets_ok w \<and> ids_ok w \<and> frames_ok w \<and> swap_ok w \<and> called_ok w"

lemma mset_concat_update:
  "i < length xs \<Longrightarrow> mset (concat (map f (xs[i := y]))) + mset (f (xs ! i)) = mset (concat (map f xs)) + mset (f y)"
proof (induction xs arbitrary: i)
  case (Cons x xs)
  then show ?case by (cases i) (auto simp: ac_simps)
qed simp

lemma stack_tickets_simps [simp]:
  "stack_tickets [] = []" "stack_tickets (f # fs) = held f @ stack_tickets fs" "stack_tickets (return e fs) = stack_tickets fs"
  by (simp_all add: stack_tickets_def) (induction e fs rule: return.induct, simp_all add: stack_tickets_def)

lemma held_invoke [simp]: "held (invoke a t) = []"
  by (cases a) simp_all

lemma return_frames:
  "FSwap s \<in> set (return e fs) \<longleftrightarrow> FSwap s \<in> set fs" "FCancel s \<in> set (return e fs) \<longleftrightarrow> FCancel s \<in> set fs"
  "(\<forall>f \<in> set (return e fs). frame_ok w f) \<longleftrightarrow> (\<forall>f \<in> set fs. frame_ok w f)"
  by (induction e fs rule: return.induct) auto

text \<open>Changing one stack and one state.\<close>

lemma places_stack:
  assumes "i < length (threads w)"
  shows "places (set_stack i fs w) + mset (stack_tickets (threads w ! i)) = places w + mset (stack_tickets fs)"
  using mset_concat_update[OF assms, of stack_tickets fs] by (simp add: places_def set_stack_def ac_simps)

lemma places_state:
  assumes "s < length (states w)"
  shows "places (set_state s st w) + mset (stored_tickets (states w ! s)) = places w + mset (stored_tickets st)"
  using mset_concat_update[OF assms, of stored_tickets st] by (simp add: places_def set_state_def ac_simps)

lemma on_stack_keep:
  assumes "i < length (threads w)" "on_stack f w" "f \<in> set (threads w ! i) \<Longrightarrow> f \<in> set fs"
  shows "on_stack f (set_stack i fs w)"
proof -
  obtain j where j: "j < length (threads w)" "f \<in> set (threads w ! j)" using assms(2) by (auto simp: on_stack_def in_set_conv_nth[of _ "threads w"])
  then have "f \<in> set ((threads w)[i := fs] ! j)" using assms(3) by (cases "i = j") auto
  then show ?thesis using j(1) by (force simp: on_stack_def set_stack_def in_set_conv_nth)
qed

lemma on_stack_new: "i < length (threads w) \<Longrightarrow> f \<in> set fs \<Longrightarrow> on_stack f (set_stack i fs w)"
  by (auto simp: on_stack_def set_stack_def set_update_memI)

lemma set_stack_simps [simp]:
  "states (set_stack i fs w) = states w" "target (set_stack i fs w) = target w" "action_of (set_stack i fs w) = action_of w"
  "registration (set_stack i fs w) = registration w" "issued (set_stack i fs w) = issued w"
  "withdrawn (set_stack i fs w) = withdrawn w" "invoked (set_stack i fs w) = invoked w"
  by (simp_all add: set_stack_def)

lemma set_state_simps [simp]:
  "threads (set_state s st w) = threads w" "target (set_state s st w) = target w" "action_of (set_state s st w) = action_of w"
  "registration (set_state s st w) = registration w" "issued (set_state s st w) = issued w"
  "withdrawn (set_state s st w) = withdrawn w" "invoked (set_state s st w) = invoked w"
  "states (set_state s st w) = (states w)[s := st]"
  by (simp_all add: set_state_def)

lemma frames_stack:
  assumes "frames_ok w" "\<forall>f \<in> set fs. frame_ok w f"
  shows "frames_ok (set_stack i fs w)"
proof -
  have "frame_ok (set_stack i fs w) f = frame_ok w f" for f by (cases f) simp_all
  then show ?thesis using assms set_update_subset_insert[of "threads w" i fs] unfolding frames_ok_def set_stack_def by auto
qed

lemma frame_mono:
  assumes "frame_ok w f" "set (issued w) \<subseteq> set (issued w')" "length (states w) \<le> length (states w')"
    and "\<And>s. s < length (states w) \<Longrightarrow> cancelled (states w ! s) \<Longrightarrow> cancelled (states w' ! s)"
    and "\<And>t. t \<in> set (held f) \<Longrightarrow> target w' t = target w t"
  shows "frame_ok w' f"
  using assms by (cases f) auto

lemma stack_issued:
  assumes "mset (issued w) = places w" "fs \<in> set (threads w)" "f \<in> set fs" "t \<in> set (held f)"
  shows "t \<in> set (issued w)"
proof -
  have "t \<in> set (concat (map stack_tickets (threads w)))" using assms(2-4) by (auto simp: stack_tickets_def)
  then have "t \<in># places w" by (simp add: places_def)
  then show ?thesis using assms(1) by (metis set_mset_mset)
qed

lemma frames_state:
  assumes "frames_ok w" "s < length (states w)" "cancelled (states w ! s) \<Longrightarrow> cancelled st"
  shows "frames_ok (set_state s st w)"
  unfolding frames_ok_def
proof (intro ballI)
  fix fs f assume f: "fs \<in> set (threads (set_state s st w))" "f \<in> set fs"
  show "frame_ok (set_state s st w) f"
    by (rule frame_mono[of w]) (use assms f in \<open>auto simp: frames_ok_def nth_list_update\<close>)
qed

lemma swap_stack:
  assumes "swap_ok w" "i < length (threads w)" "\<And>s. FSwap s \<in> set (threads w ! i) \<Longrightarrow> FSwap s \<in> set fs"
  shows "swap_ok (set_stack i fs w)"
  using assms on_stack_keep[OF assms(2)] unfolding swap_ok_def by simp

lemma called_stack:
  assumes "called_ok w" "i < length (threads w)"
    and "\<And>s. FCancel s \<in> set (threads w ! i) \<Longrightarrow> FCancel s \<in> set fs \<or> cancelled (states w ! s)"
  shows "called_ok (set_stack i fs w)"
  unfolding called_ok_def
proof (intro ballI conjI allI impI)
  fix t s assume t: "t \<in> set (invoked (set_stack i fs w))" "action_of (set_stack i fs w) t = CancelSource s"
  then have "cancelled (states w ! s) \<or> on_stack (FCancel s) w" using assms(1) by (auto simp: called_ok_def)
  then show "cancelled (states (set_stack i fs w) ! s) \<or> on_stack (FCancel s) (set_stack i fs w)"
    using assms(3)[of s] on_stack_keep[OF assms(2), of "FCancel s" fs] by auto
qed (use assms in \<open>auto simp: called_ok_def\<close>)

lemma called_state:
  assumes "called_ok w" "s < length (states w)" "cancelled (states w ! s) \<Longrightarrow> cancelled st"
  shows "called_ok (set_state s st w)"
proof -
  have "on_stack f (set_state s st w) = on_stack f w" for f by (simp add: on_stack_def)
  moreover have "cancelled (states w ! s') \<Longrightarrow> cancelled (states (set_state s st w) ! s')" for s'
    using assms by (cases "s = s'") auto
  ultimately show ?thesis using assms(1) unfolding called_ok_def by auto
qed

lemma on_stack_frame [simp]:
  "on_stack f (w\<lparr>registration := r\<rparr>) = on_stack f w" "on_stack f (w\<lparr>invoked := l\<rparr>) = on_stack f w"
  "on_stack f (w\<lparr>withdrawn := l\<rparr>) = on_stack f w" "on_stack f (w\<lparr>states := ss\<rparr>) = on_stack f w"
  "on_stack f (set_state s st w) = on_stack f w"
  by (simp_all add: on_stack_def)

lemma frame_ok_frame [simp]:
  "frame_ok (w\<lparr>registration := r\<rparr>) f = frame_ok w f" "frame_ok (w\<lparr>invoked := l\<rparr>) f = frame_ok w f"
  "frame_ok (w\<lparr>withdrawn := l\<rparr>) f = frame_ok w f" "frame_ok (set_stack i fs w) f = frame_ok w f"
  by (cases f, simp_all)+

lemma frames_frame [simp]:
  "frames_ok (w\<lparr>registration := r\<rparr>) = frames_ok w" "frames_ok (w\<lparr>invoked := l\<rparr>) = frames_ok w"
  "frames_ok (w\<lparr>withdrawn := l\<rparr>) = frames_ok w"
  by (simp_all add: frames_ok_def)

lemma part_frame [simp]:
  "tickets_ok (w\<lparr>registration := r\<rparr>) = tickets_ok w" "tickets_ok (w\<lparr>invoked := l\<rparr>) = tickets_ok w"
  "tickets_ok (w\<lparr>withdrawn := l\<rparr>) = tickets_ok w" "tickets_ok (set_stack i fs w) = tickets_ok w"
  "tickets_ok (set_state s st w) = tickets_ok w"
  "ids_ok (set_stack i fs w) = ids_ok w" "ids_ok (w\<lparr>invoked := l\<rparr>) = ids_ok w" "ids_ok (w\<lparr>withdrawn := l\<rparr>) = ids_ok w"
  "swap_ok (w\<lparr>registration := r\<rparr>) = swap_ok w" "swap_ok (w\<lparr>invoked := l\<rparr>) = swap_ok w" "swap_ok (w\<lparr>withdrawn := l\<rparr>) = swap_ok w"
  "called_ok (w\<lparr>registration := r\<rparr>) = called_ok w" "called_ok (w\<lparr>withdrawn := l\<rparr>) = called_ok w"
  "places (w\<lparr>registration := r\<rparr>) = places w"
  "places (w\<lparr>invoked := invoked w @ [t]\<rparr>) = add_mset t (places w)"
  "places (w\<lparr>withdrawn := withdrawn w @ ts\<rparr>) = mset ts + places w"
  by (simp_all add: tickets_ok_def ids_ok_def swap_ok_def called_ok_def places_def ac_simps)

section \<open>Every step keeps the invariant\<close>

lemma cancel_invD:
  assumes "cancel_inv w"
  shows "mset (issued w) = places w" "tickets_ok w" "ids_ok w" "frames_ok w" "swap_ok w" "called_ok w"
  using assms by (simp_all add: cancel_inv_def)

lemma place_issued: "mset (issued w) = places w \<Longrightarrow> t \<in># places w \<Longrightarrow> t \<in> set (issued w)"
  by (metis set_mset_mset)

lemma invoked_issued: "cancel_inv w \<Longrightarrow> t \<in> set (invoked w) \<Longrightarrow> t \<in> set (issued w)"
  by (rule place_issued) (simp_all add: cancel_inv_def places_def)

lemma stored_issued:
  assumes "cancel_inv w" "s < length (states w)" "(i, t) \<in> set (callbacks (states w ! s))"
  shows "t \<in> set (issued w)"
proof -
  have "t \<in> set (concat (map stored_tickets (states w)))"
    using assms(2,3) by (auto simp: stored_tickets_def intro!: bexI[of _ "states w ! s"] image_eqI[of _ _ "(i, t)"])
  then show ?thesis using assms(1) by (intro place_issued) (simp_all add: cancel_inv_def places_def)
qed

lemma fresh_ticket: "tickets_ok w \<Longrightarrow> length (issued w) \<notin> set (issued w)"
  unfolding tickets_ok_def by (metis atLeastLessThan_iff less_irrefl set_upt)

lemma ids_okI:
  assumes "\<And>s i t. s < length (states w) \<Longrightarrow> (i, t) \<in> set (callbacks (states w ! s)) \<Longrightarrow> i < nextCallbackId (states w ! s) \<and> target w t = s"
    and "\<And>t s i. registration w t = Some (s, i) \<Longrightarrow> s < length (states w) \<and> i < nextCallbackId (states w ! s)"
    and "\<And>t s i t'. registration w t = Some (s, i) \<Longrightarrow> (i, t') \<in> set (callbacks (states w ! s)) \<Longrightarrow> t' = t"
  shows "ids_ok w"
  unfolding ids_ok_def using assms by blast

lemma ids_okD:
  assumes "ids_ok w"
  shows "\<And>s i t. s < length (states w) \<Longrightarrow> (i, t) \<in> set (callbacks (states w ! s)) \<Longrightarrow> i < nextCallbackId (states w ! s) \<and> target w t = s"
    and "\<And>t s i. registration w t = Some (s, i) \<Longrightarrow> s < length (states w) \<and> i < nextCallbackId (states w ! s)"
    and "\<And>t s i t'. registration w t = Some (s, i) \<Longrightarrow> (i, t') \<in> set (callbacks (states w ! s)) \<Longrightarrow> t' = t"
  using assms unfolding ids_ok_def by blast+

lemma new_source_inv:
  assumes "cancel_inv w"
  shows "cancel_inv (w\<lparr>states := states w @ [CancellationState]\<rparr>)" (is "cancel_inv ?w")
proof -
  note inv = cancel_invD[OF assms]
  have t: "target w t < length (states w)" "\<forall>s. action_of w t = CancelSource s \<longrightarrow> s < length (states w)" if "t \<in> set (invoked w)" for t
    using inv(2) invoked_issued[OF assms that] by (auto simp: tickets_ok_def)
  have "mset (issued ?w) = places ?w" using inv(1) by (simp add: places_def stored_tickets_def CancellationState_def)
  moreover have "tickets_ok ?w" using inv(2) by (auto simp: tickets_ok_def less_SucI)
  moreover have "ids_ok ?w"
  proof (rule ids_okI)
    show "i < nextCallbackId (states ?w ! s) \<and> target ?w t = s"
      if "s < length (states ?w)" "(i, t) \<in> set (callbacks (states ?w ! s))" for s i t
      using ids_okD(1)[OF inv(3), of s i t] that by (cases "s < length (states w)") (auto simp: nth_append CancellationState_def)
    show "s < length (states ?w) \<and> i < nextCallbackId (states ?w ! s)" if "registration ?w t = Some (s, i)" for t s i
      using ids_okD(2)[OF inv(3), of t s i] that by (simp add: nth_append)
    show "t' = t" if "registration ?w t = Some (s, i)" "(i, t') \<in> set (callbacks (states ?w ! s))" for t s i t'
      using ids_okD(2,3)[OF inv(3), of t s i] that by (simp add: nth_append)
  qed
  moreover have "frames_ok ?w"
    unfolding frames_ok_def
  proof (intro ballI)
    fix fs f assume "fs \<in> set (threads ?w)" "f \<in> set fs"
    then have "frame_ok w f" using inv(4) unfolding frames_ok_def by simp
    then show "frame_ok ?w f" by (rule frame_mono) (simp_all add: nth_append)
  qed
  moreover have "swap_ok ?w" using inv(5) by (auto simp: swap_ok_def nth_append CancellationState_def)
  moreover have "called_ok ?w" using inv(6) t by (simp add: called_ok_def nth_append)
  ultimately show ?thesis by (simp add: cancel_inv_def)
qed

lemma register_inv:
  assumes "cancel_inv w" and i: "i < length (threads w)" and s: "s < length (states w)"
    and a: "\<And>p. a = CancelSource p \<Longrightarrow> p < length (states w)"
  shows "cancel_inv (registerCallback i (Some s) a w)" (is "cancel_inv ?w")
proof -
  note inv = cancel_invD[OF assms(1)]
  let ?t = "length (issued w)" and ?fs = "FRegister (length (issued w)) # threads w ! i"
  have new: "?t \<notin> set (issued w)" by (rule fresh_ticket[OF inv(2)])
  have w: "?w = (set_stack i ?fs w)\<lparr>issued := issued w @ [?t], target := (target w)(?t := s), action_of := (action_of w)(?t := a)\<rparr>"
    by (simp add: registerCallback_def Let_def set_stack_def)
  have th: "threads ?w = (threads w)[i := ?fs]" "states ?w = states w" "issued ?w = issued w @ [?t]" "invoked ?w = invoked w"
    by (simp_all add: registerCallback_def Let_def)
  have same: "t \<in> set (issued w) \<Longrightarrow> target ?w t = target w t \<and> action_of ?w t = action_of w t" for t
    using new by (auto simp: registerCallback_def Let_def)
  have "mset (issued ?w) = places ?w"
    using inv(1) places_stack[OF i, of ?fs] by (simp add: w places_def)
  moreover have "tickets_ok ?w" using inv(2) s a same by (simp add: tickets_ok_def th) (auto simp: registerCallback_def Let_def)
  moreover have "registration ?w = registration w" by (simp add: w)
  then have "ids_ok ?w"
    using ids_okD[OF inv(3)] same stored_issued[OF assms(1)] by (intro ids_okI) (simp_all only: th)
  moreover have "frames_ok ?w"
    unfolding frames_ok_def th
  proof (intro ballI)
    fix fs f assume f: "fs \<in> set ((threads w)[i := ?fs])" "f \<in> set fs"
    then have "fs = ?fs \<or> fs \<in> set (threads w)" using set_update_subset_insert[of "threads w" i ?fs] by blast
    then have "f = FRegister ?t \<or> f \<in> set (threads w ! i) \<or> fs \<in> set (threads w)" using f(2) by auto
    then consider "f = FRegister ?t" | fs where "fs \<in> set (threads w)" "f \<in> set fs" using f(2) nth_mem[OF i] by blast
    then show "frame_ok ?w f"
    proof cases
      case 2
      then have "frame_ok w f" using inv(4) unfolding frames_ok_def by blast
      then show ?thesis by (rule frame_mono) (use stack_issued[OF inv(1) 2] same th in auto)
    qed (simp add: th)
  qed
  moreover have "swap_ok ?w" using swap_stack[OF inv(5) i, of ?fs] by (simp add: w swap_ok_def on_stack_def)
  moreover have "called_ok ?w"
    using called_stack[OF inv(6) i, of ?fs] invoked_issued[OF assms(1)] new by (auto simp: w called_ok_def on_stack_def)
  ultimately show ?thesis by (simp add: cancel_inv_def)
qed

lemma stack_only_inv:
  assumes "cancel_inv w" and i: "i < length (threads w)"
    and t: "mset (stack_tickets fs) = mset (stack_tickets (threads w ! i))"
    and f: "\<forall>f \<in> set fs. frame_ok w f"
    and sw: "\<And>s. FSwap s \<in> set (threads w ! i) \<Longrightarrow> FSwap s \<in> set fs"
    and ca: "\<And>s. FCancel s \<in> set (threads w ! i) \<Longrightarrow> FCancel s \<in> set fs \<or> cancelled (states w ! s)"
  shows "cancel_inv (set_stack i fs w)"
  using cancel_invD[OF assms(1)] places_stack[OF i, of fs] t frames_stack[OF _ f] swap_stack[OF _ i sw] called_stack[OF _ i ca]
  by (simp add: cancel_inv_def)

lemma top_frames:
  assumes "frames_ok w" "i < length (threads w)" "threads w ! i = f # fs"
  shows "frame_ok w f" "\<forall>g \<in> set fs. frame_ok w g"
  using assms unfolding frames_ok_def by (metis list.set_intros nth_mem)+

text \<open>A callback is called: its ticket moves from the stack to \<open>invoked\<close>.\<close>

lemma invoke_inv:
  assumes "cancel_inv w" and i: "i < length (threads w)" and st: "threads w ! i = f # fs"
    and t: "mset (held f) = add_mset t (mset (stack_tickets gs))" and g: "\<forall>g \<in> set gs. frame_ok w g"
    and c: "cancelled (states w ! target w t)" and no: "\<And>s. f \<noteq> FSwap s" "\<And>s. f \<noteq> FCancel s"
  shows "cancel_inv ((set_stack i (invoke (action_of w t) t # gs @ fs) w)\<lparr>invoked := invoked w @ [t]\<rparr>)" (is "cancel_inv (?v\<lparr>invoked := _\<rparr>)")
proof -
  note inv = cancel_invD[OF assms(1)]
  let ?fs = "invoke (action_of w t) t # gs @ fs"
  have tk: "stack_tickets (gs @ fs) = stack_tickets gs @ stack_tickets fs" by (simp add: stack_tickets_def)
  have iss: "t \<in> set (issued w)"
    using stack_issued[OF inv(1) nth_mem[OF i], of f t] st t by (simp add: set_mset_mset[symmetric] del: set_mset_mset)
  have inok: "frame_ok w (invoke (action_of w t) t)" using inv(2) iss by (cases "action_of w t") (auto simp: tickets_ok_def)
  have fr: "frames_ok ?v" by (rule frames_stack[OF inv(4)]) (use inok g top_frames(2)[OF inv(4) i st] in auto)
  have sw: "swap_ok ?v" by (rule swap_stack[OF inv(5) i]) (use st no in auto)
  have ca: "called_ok ?v" by (rule called_stack[OF inv(6) i]) (use st no in auto)
  have p: "places ?v + mset (stack_tickets (threads w ! i)) = places w + mset (stack_tickets ?fs)" by (rule places_stack[OF i])
  have "add_mset t (places ?v) = places w" using p st t tk by simp
  moreover have "called_ok (?v\<lparr>invoked := invoked w @ [t]\<rparr>)"
    using ca c on_stack_new[OF i, of "FCancel _" ?fs] by (auto simp: called_ok_def)
  moreover have "places (?v\<lparr>invoked := invoked w @ [t]\<rparr>) = add_mset t (places ?v)" by (simp add: places_def)
  ultimately show ?thesis using inv fr sw by (simp add: cancel_inv_def)
qed

text \<open>A state is replaced: its new callbacks are among the old ones, and the tickets that leave go to a stack or to \<open>withdrawn\<close>.\<close>

lemma ids_state:
  assumes "ids_ok w" "s < length (states w)" "set (callbacks st) \<subseteq> set (callbacks (states w ! s))"
    and "nextCallbackId (states w ! s) \<le> nextCallbackId st"
  shows "ids_ok (set_state s st w)"
proof (rule ids_okI)
  have sub: "set (callbacks (states (set_state s st w) ! p)) \<subseteq> set (callbacks (states w ! p))" for p
    using assms(2,3) by (cases "p = s") auto
  have le: "nextCallbackId (states w ! p) \<le> nextCallbackId (states (set_state s st w) ! p)" for p
    using assms(2,4) by (cases "p = s") auto
  show "i < nextCallbackId (states (set_state s st w) ! p) \<and> target (set_state s st w) t = p"
    if "p < length (states (set_state s st w))" "(i, t) \<in> set (callbacks (states (set_state s st w) ! p))" for p i t
    using ids_okD(1)[OF assms(1), of p i t] that sub[of p] le[of p] by auto
  show "p < length (states (set_state s st w)) \<and> i < nextCallbackId (states (set_state s st w) ! p)"
    if "registration (set_state s st w) t = Some (p, i)" for t p i
    using ids_okD(2)[OF assms(1), of t p i] that le[of p] by auto
  show "t' = t" if "registration (set_state s st w) t = Some (p, i)" "(i, t') \<in> set (callbacks (states (set_state s st w) ! p))" for t p i t'
    using ids_okD(3)[OF assms(1), of t p i t'] that sub[of p] by auto
qed

lemma stored_inv:
  assumes "cancel_inv w" and i: "i < length (threads w)" and st: "threads w ! i = FRegister t # fs"
    and s: "s = target w t" and r: "register_section t (states w ! s) = (Some k, st')"
  shows "cancel_inv ((set_stack i (return None fs) (set_state s st' w))\<lparr>registration := (registration w)(t \<mapsto> (s, k))\<rparr>)"
    (is "cancel_inv (?v\<lparr>registration := _\<rparr>)")
proof -
  note inv = cancel_invD[OF assms(1)]
  have c: "\<not> cancelled (states w ! s)" and k: "k = nextCallbackId (states w ! s)"
    and st': "st' = (states w ! s)\<lparr>nextCallbackId := k + 1, callbacks := callbacks (states w ! s) @ [(k, t)]\<rparr>"
    using r by (auto simp: register_section_def Let_def split: if_splits)
  have "t \<in> set (issued w)" using top_frames(1)[OF inv(4) i st] by simp
  then have sl: "s < length (states w)" using inv(2) s by (auto simp: tickets_ok_def)
  let ?u = "set_state s st' w"
  have fu: "frames_ok ?u" by (rule frames_state[OF inv(4) sl]) (use c in simp)
  have iu: "i < length (threads ?u)" "threads ?u ! i = FRegister t # fs" using i st by simp_all
  have swu: "swap_ok ?u"
  proof -
    have "on_stack (FSwap p) w" if "p < length (states w)" "cancelled (states ?u ! p)" "callbacks (states ?u ! p) \<noteq> []" for p
    proof -
      have "p \<noteq> s" using that c st' sl by auto
      then show ?thesis using that inv(5) by (simp add: swap_ok_def)
    qed
    then show ?thesis by (simp add: swap_ok_def)
  qed
  have cau: "called_ok ?u" by (rule called_state[OF inv(6) sl]) (use c in simp)
  have "places ?u = add_mset t (places w)" using places_state[OF sl, of st'] by (simp add: stored_tickets_def st')
  moreover have "places ?v + mset (stack_tickets (threads ?u ! i)) = places ?u + mset (stack_tickets (return None fs))"
    by (rule places_stack[OF iu(1)])
  ultimately have pl: "places ?v = places w" using st by simp
  have fv: "frames_ok ?v"
    by (rule frames_stack[OF fu]) (use top_frames(2)[OF fu iu] in \<open>simp add: return_frames\<close>)
  have swv: "swap_ok ?v" by (rule swap_stack[OF swu iu(1)]) (use st in \<open>simp add: return_frames\<close>)
  have cav: "called_ok ?v" by (rule called_stack[OF cau iu(1)]) (use st in \<open>simp add: return_frames\<close>)
  let ?w = "?v\<lparr>registration := (registration w)(t \<mapsto> (s, k))\<rparr>"
  have sts: "states ?w ! p = (if p = s then st' else states w ! p)" for p using sl by simp
  have idv: "ids_ok ?w"
  proof (rule ids_okI)
    show "j < nextCallbackId (states ?w ! p) \<and> target ?w t' = p"
      if "p < length (states ?w)" "(j, t') \<in> set (callbacks (states ?w ! p))" for p j t'
      using ids_okD(1)[OF inv(3), of p j t'] that s k by (cases "p = s") (auto simp: sts st')
    show "p < length (states ?w) \<and> j < nextCallbackId (states ?w ! p)" if "registration ?w t' = Some (p, j)" for t' p j
      using ids_okD(2)[OF inv(3), of t' p j] that sl k by (cases "t' = t"; cases "p = s") (auto simp: sts st')
    show "t'' = t'" if "registration ?w t' = Some (p, j)" "(j, t'') \<in> set (callbacks (states ?w ! p))" for t' p j t''
    proof (cases "t' = t")
      case True
      then have "p = s" "j = k" using that(1) by auto
      then show ?thesis using True that(2) ids_okD(1)[OF inv(3) sl, of j t''] k sl by (auto simp: st')
    next
      case False
      then have r: "registration w t' = Some (p, j)" using that(1) by simp
      then have "j < nextCallbackId (states w ! p)" using ids_okD(2)[OF inv(3)] by blast
      then show ?thesis using ids_okD(3)[OF inv(3) r, of t''] that(2) k sl by (cases "p = s") (auto simp: st')
    qed
  qed
  then show ?thesis using inv pl fv swv cav by (simp add: cancel_inv_def)
qed

lemma reset_call_inv:
  assumes "cancel_inv w"
  shows "cancel_inv (reset t w)"
proof (cases "registration w t")
  case None
  then show ?thesis using assms by (simp add: reset_def)
next
  case (Some x)
  obtain s k where x: "x = (s, k)" by fastforce
  note inv = cancel_invD[OF assms]
  define st where "st = snd (extract_callback k (states w ! s))"
  define removed where "removed = fst (extract_callback k (states w ! s))"
  have sl: "s < length (states w)" using ids_okD(2)[OF inv(3)] Some x by blast
  have st: "cancelled st = cancelled (states w ! s)" "nextCallbackId st = nextCallbackId (states w ! s)"
    "set (callbacks st) \<subseteq> set (callbacks (states w ! s))" by (auto simp: st_def extract_callback_def)
  have all: "mset removed + mset (stored_tickets st) = mset (stored_tickets (states w ! s))"
    unfolding removed_def st_def stored_tickets_def extract_callback_def
    by (simp flip: image_mset_union mset_filter) (simp add: multiset_partition[symmetric] case_prod_unfold flip: mset_map)
  let ?u = "set_state s st w"
  have "reset t w = ?u\<lparr>registration := (registration w)(t := None), withdrawn := withdrawn w @ removed\<rparr>"
    using Some x by (simp add: reset_def st_def removed_def case_prod_unfold Let_def)
  moreover have "frames_ok ?u" by (rule frames_state[OF inv(4) sl]) (simp add: st)
  moreover have "called_ok ?u" by (rule called_state[OF inv(6) sl]) (simp add: st)
  moreover have "swap_ok ?u"
  proof -
    have "on_stack (FSwap p) w" if "p < length (states w)" "cancelled (states ?u ! p)" "callbacks (states ?u ! p) \<noteq> []" for p
    proof -
      have "cancelled (states w ! p)" "callbacks (states w ! p) \<noteq> []" using that st sl by (cases "p = s"; auto)+
      then show ?thesis using that(1) inv(5) by (simp add: swap_ok_def)
    qed
    then show ?thesis by (simp add: swap_ok_def)
  qed
  moreover have "ids_ok (?u\<lparr>registration := (registration w)(t := None)\<rparr>)"
  proof (rule ids_okI)
    note u = ids_okD[OF ids_state[OF inv(3) sl st(3)]]
    have r: "nextCallbackId (states w ! s) \<le> nextCallbackId st" by (simp add: st)
    let ?z = "?u\<lparr>registration := (registration w)(t := None)\<rparr>"
    show "j < nextCallbackId (states ?z ! p) \<and> target ?z t' = p"
      if "p < length (states ?z)" "(j, t') \<in> set (callbacks (states ?z ! p))" for p j t'
      using u(1)[OF r, of p j t'] that by simp
    show "p < length (states ?z) \<and> j < nextCallbackId (states ?z ! p)" if "registration ?z t' = Some (p, j)" for t' p j
      using u(2)[OF r, of t' p j] that by (cases "t' = t") simp_all
    show "t'' = t'" if "registration ?z t' = Some (p, j)" "(j, t'') \<in> set (callbacks (states ?z ! p))" for t' p j t''
      using u(3)[OF r, of t' p j t''] that by (cases "t' = t") simp_all
  qed
  moreover have "places (?u\<lparr>registration := (registration w)(t := None), withdrawn := withdrawn w @ removed\<rparr>) = places w"
  proof -
    have "places ?u + mset (stored_tickets (states w ! s)) = places w + mset (stored_tickets st)" by (rule places_state[OF sl])
    then have "places ?u + mset removed = places w" using all by (metis (no_types, lifting) add.assoc add_right_cancel)
    then show ?thesis by (simp add: places_def ac_simps)
  qed
  ultimately show ?thesis using inv by (simp add: cancel_inv_def)
qed

lemma exchange_again_inv:
  assumes "cancel_inv w" and i: "i < length (threads w)" and st: "threads w ! i = FCancel s # fs"
    and x: "exchange_cancelled (states w ! s) = (True, st')"
  shows "cancel_inv (set_stack i (return None fs) (set_state s st' w))"
proof -
  note inv = cancel_invD[OF assms(1)]
  have c: "cancelled (states w ! s)" "st' = states w ! s" using x by (auto simp: exchange_cancelled_def)
  then have eq: "set_state s st' w = w" by (simp add: set_state_def)
  show ?thesis
    unfolding eq by (rule stack_only_inv[OF assms(1) i]) (use top_frames(2)[OF inv(4) i st] st c in \<open>auto simp: return_frames\<close>)
qed

lemma exchange_first_inv:
  assumes "cancel_inv w" and i: "i < length (threads w)" and st: "threads w ! i = FCancel s # fs"
    and x: "exchange_cancelled (states w ! s) = (False, st')"
  shows "cancel_inv (set_stack i (FSwap s # fs) (set_state s st' w))" (is "cancel_inv ?v")
proof -
  note inv = cancel_invD[OF assms(1)]
  let ?u = "set_state s st' w"
  have st': "st' = (states w ! s)\<lparr>cancelled := True\<rparr>" using x by (simp add: exchange_cancelled_def)
  have sl: "s < length (states w)" using top_frames(1)[OF inv(4) i st] by simp
  have fu: "frames_ok ?u" by (rule frames_state[OF inv(4) sl]) (simp add: st')
  have iu: "i < length (threads ?u)" "threads ?u ! i = FCancel s # fs" using i st by simp_all
  have "places ?u = places w" using places_state[OF sl, of st'] by (simp add: stored_tickets_def st')
  then have "places ?v = places w" using places_stack[OF iu(1), of "FSwap s # fs"] st by simp
  moreover have "frames_ok ?v" by (rule frames_stack[OF fu]) (use top_frames(2)[OF fu iu] sl st' in simp)
  moreover have "ids_ok ?v" using ids_state[OF inv(3) sl, of st'] by (simp add: st')
  moreover have "called_ok ?v"
    by (rule called_stack[OF called_state[OF inv(6) sl] iu(1)]) (use st sl st' in auto)
  moreover have "on_stack (FSwap p) ?v" if "p < length (states w)" "cancelled (states ?v ! p)" "callbacks (states ?v ! p) \<noteq> []" for p
  proof (cases "p = s")
    case True
    then show ?thesis using on_stack_new[OF iu(1), of "FSwap s" "FSwap s # fs"] by simp
  next
    case False
    then have "on_stack (FSwap p) ?u" using that inv(5) by (simp add: swap_ok_def)
    then show ?thesis by (rule on_stack_keep[OF iu(1)]) (use st in simp)
  qed
  ultimately show ?thesis using inv by (simp add: cancel_inv_def swap_ok_def)
qed

lemma swap_inv:
  assumes "cancel_inv w" and i: "i < length (threads w)" and st: "threads w ! i = FSwap s # fs"
    and x: "swap_callbacks (states w ! s) = (ts, st')"
  shows "cancel_inv (set_stack i (FLoop s ts None # fs) (set_state s st' w))" (is "cancel_inv ?v")
proof -
  note inv = cancel_invD[OF assms(1)]
  let ?u = "set_state s st' w"
  have st': "st' = (states w ! s)\<lparr>callbacks := []\<rparr>" and ts: "ts = stored_tickets (states w ! s)"
    using x by (auto simp: swap_callbacks_def stored_tickets_def)
  have sl: "s < length (states w)" "cancelled (states w ! s)" using top_frames(1)[OF inv(4) i st] by simp_all
  have fu: "frames_ok ?u" by (rule frames_state[OF inv(4) sl(1)]) (simp add: st')
  have iu: "i < length (threads ?u)" "threads ?u ! i = FSwap s # fs" using i st by simp_all
  have "places ?u + mset ts = places w" using places_state[OF sl(1), of st'] by (simp add: ts stored_tickets_def st')
  moreover have "places ?v = places ?u + mset ts"
    using places_stack[OF iu(1), of "FLoop s ts None # fs"] st by simp
  moreover have tg: "\<forall>t \<in> set ts. target w t = s" using ids_okD(1)[OF inv(3) sl(1)] by (auto simp: ts stored_tickets_def)
  have "frames_ok ?v" by (rule frames_stack[OF fu]) (use top_frames(2)[OF fu iu] sl st' tg in simp)
  moreover have "ids_ok ?v" using ids_state[OF inv(3) sl(1), of st'] by (simp add: st')
  moreover have "called_ok ?v" by (rule called_stack[OF called_state[OF inv(6) sl(1)] iu(1)]) (use st st' in auto)
  moreover have "on_stack (FSwap p) ?v" if "p < length (states w)" "cancelled (states ?v ! p)" "callbacks (states ?v ! p) \<noteq> []" for p
  proof -
    have "p \<noteq> s" using that(3) sl st' by auto
    then have "on_stack (FSwap p) ?u" using that inv(5) by (simp add: swap_ok_def)
    then show ?thesis by (rule on_stack_keep[OF iu(1)]) (use st \<open>p \<noteq> s\<close> in simp)
  qed
  ultimately show ?thesis using inv by (simp add: cancel_inv_def swap_ok_def)
qed

lemma ucall_inv: "ucall w w' \<Longrightarrow> cancel_inv w \<Longrightarrow> cancel_inv w'"
proof (induction rule: ucall.induct)
  case (new_source w)
  then show ?case by (rule new_source_inv)
next
  case (call_register i w token)
  then show ?case using register_inv[of w i _ UserCode] by (cases token) (auto simp: registerCallback_def)
next
  case (call_link i w token s)
  then show ?case using register_inv[of w i _ "CancelSource s"] by (cases token) (auto simp: registerCallback_def link_def)
next
  case (call_cancel i w s)
  have "\<forall>f \<in> set (threads w ! i). frame_ok w f" using call_cancel by (auto simp: cancel_inv_def frames_ok_def)
  then show ?case using call_cancel by (intro stack_only_inv) simp_all
next
  case (call_reset w t)
  then show ?case by (rule reset_call_inv)
qed

lemma istep_inv: "istep w w' \<Longrightarrow> cancel_inv w \<Longrightarrow> cancel_inv w'"
proof (induction rule: istep.induct)
  case (stored i w t fs s k st)
  then show ?case by (intro stored_inv)
next
  case (immediate i w t fs st)
  then show ?case using invoke_inv[of w i "FRegister t" fs t "[]"] by (auto simp: register_section_def Let_def split: if_splits)
next
  case (cancel_again i w s fs st)
  then show ?case by (intro exchange_again_inv)
next
  case (cancel_first i w s fs st)
  then show ?case by (intro exchange_first_inv)
next
  case (cancel_swap i w s fs ts st)
  then show ?case by (intro swap_inv)
next
  case (cancel_next i w s ts failure fs t)
  have "frame_ok w (FLoop s ts failure)" using top_frames(1)[OF _ cancel_next(1,2)] cancel_invD(4)[OF cancel_next(4)] by blast
  then have "frame_ok w (FLoop s (remove1 t ts) failure)" "cancelled (states w ! target w t)"
    using cancel_next(3) notin_set_remove1[of _ ts t] by auto
  then show ?case using invoke_inv[of w i "FLoop s ts failure" fs t "[FLoop s (remove1 t ts) failure]"] cancel_next by simp
next
  case (cancel_return i w s failure fs)
  have "\<forall>f \<in> set fs. frame_ok w f" using top_frames(2)[OF _ cancel_return(1,2)] cancel_invD(4)[OF cancel_return(3)] by blast
  then show ?case using cancel_return by (intro stack_only_inv) (simp_all add: return_frames)
next
  case (callback_return i w t fs e)
  have "\<forall>f \<in> set fs. frame_ok w f" using top_frames(2)[OF _ callback_return(1,2)] cancel_invD(4)[OF callback_return(3)] by blast
  then show ?case using callback_return by (intro stack_only_inv) (simp_all add: return_frames)
qed

lemma cancel_init_inv: "cancel_inv (cancel_init n)"
proof -
  have "concat (replicate n []) = []" by (induction n) simp_all
  then show ?thesis
    by (auto simp: cancel_inv_def cancel_init_def places_def tickets_ok_def ids_ok_def frames_ok_def swap_ok_def called_ok_def map_replicate_const)
qed

definition cancel_reach :: "cancel_world \<Rightarrow> bool" where
  "cancel_reach w \<longleftrightarrow> (\<exists>n. cstep\<^sup>*\<^sup>* (cancel_init n) w)"

lemma cancel_reach_inv: "cancel_reach w \<Longrightarrow> cancel_inv w"
  unfolding cancel_reach_def
proof (elim exE)
  fix n assume "cstep\<^sup>*\<^sup>* (cancel_init n) w"
  then show "cancel_inv w" by (induction rule: rtranclp_induct) (auto simp: cstep_def intro: cancel_init_inv ucall_inv istep_inv)
qed

section \<open>Calls return\<close>

fun frame_work :: "frame \<Rightarrow> nat" where
  "frame_work (FRegister t) = 6"
| "frame_work (FCancel s) = 3"
| "frame_work (FSwap s) = 2"
| "frame_work (FLoop s ts e) = 1 + 5 * length ts"
| "frame_work (FBody t) = 1"

definition stack_work :: "frame list \<Rightarrow> nat" where
  "stack_work fs = sum_list (map frame_work fs)"

definition state_work :: "cancel_state \<Rightarrow> nat" where
  "state_work st = 5 * length (callbacks st)"

definition work :: "cancel_world \<Rightarrow> nat" where
  "work w = sum_list (map stack_work (threads w)) + sum_list (map state_work (states w))"

lemma work_stack: "i < length (threads w) \<Longrightarrow> work (set_stack i fs w) + stack_work (threads w ! i) = work w + stack_work fs"
  using sum_list_map_update[of i "threads w" stack_work fs] by (simp add: work_def set_stack_def)

lemma work_state: "s < length (states w) \<Longrightarrow> work (set_state s st w) + state_work (states w ! s) = work w + state_work st"
  using sum_list_map_update[of s "states w" state_work st] by (simp add: work_def set_state_def)

lemma work_frame [simp]: "work (w\<lparr>registration := r\<rparr>) = work w" "work (w\<lparr>invoked := l\<rparr>) = work w"
  by (simp_all add: work_def)

lemma stack_work_simps [simp]:
  "stack_work (f # fs) = frame_work f + stack_work fs" "stack_work (return e fs) = stack_work fs"
  by (simp_all add: stack_work_def) (induction e fs rule: return.induct, simp_all add: stack_work_def)

lemma invoke_work: "frame_work (invoke a t) \<le> 3"
  by (cases a) simp_all

text \<open>A step that changes the stack and one state.\<close>

lemma work_both:
  assumes "i < length (threads w)" "s < length (states w)"
  shows "work (set_stack i fs (set_state s st w)) + stack_work (threads w ! i) + state_work (states w ! s) =
    work w + stack_work fs + state_work st"
  using work_stack[of i "set_state s st w" fs] work_state[OF assms(2), of st] assms(1) by simp

lemma istep_work:
  assumes "istep w w'" "cancel_inv w"
  shows "work w' < work w"
  using assms
proof (induction rule: istep.induct)
  case (stored i w t fs s k st)
  have "t \<in> set (issued w)" using top_frames(1)[OF cancel_invD(4)[OF stored(5)] stored(1,2)] by simp
  then have "s < length (states w)" using cancel_invD(2)[OF stored(5)] stored(3) by (simp add: tickets_ok_def)
  from work_both[OF stored(1) this, of "return None fs" st] show ?case
    using stored by (auto simp: state_work_def register_section_def Let_def split: if_splits)
next
  case (immediate i w t fs st)
  then show ?case using work_stack[of i w "invoke (action_of w t) t # fs"] invoke_work[of "action_of w t" t] by simp
next
  case (cancel_again i w s fs st)
  have "s < length (states w)" using top_frames(1)[OF cancel_invD(4)[OF cancel_again(4)] cancel_again(1,2)] by simp
  from work_both[OF cancel_again(1) this, of "return None fs" st] show ?case
    using cancel_again by (auto simp: state_work_def exchange_cancelled_def)
next
  case (cancel_first i w s fs st)
  have "s < length (states w)" using top_frames(1)[OF cancel_invD(4)[OF cancel_first(4)] cancel_first(1,2)] by simp
  from work_both[OF cancel_first(1) this, of "FSwap s # fs" st] show ?case
    using cancel_first by (auto simp: state_work_def exchange_cancelled_def)
next
  case (cancel_swap i w s fs ts st)
  have "s < length (states w)" using top_frames(1)[OF cancel_invD(4)[OF cancel_swap(4)] cancel_swap(1,2)] by simp
  from work_both[OF cancel_swap(1) this, of "FLoop s ts None # fs" st] show ?case
    using cancel_swap by (auto simp: state_work_def swap_callbacks_def)
next
  case (cancel_next i w s ts failure fs t)
  obtain n where "length ts = Suc n" using cancel_next(3) by (cases ts) simp_all
  then show ?case
    using work_stack[OF cancel_next(1), of "invoke (action_of w t) t # FLoop s (remove1 t ts) failure # fs"] cancel_next
      invoke_work[of "action_of w t" t] by (simp add: length_remove1)
next
  case (cancel_return i w s failure fs)
  then show ?case using work_stack[OF cancel_return(1), of "return failure fs"] by simp
next
  case (callback_return i w t fs e)
  then show ?case using work_stack[OF callback_return(1), of "return e fs"] by simp
qed

lemma istep_possible:
  assumes "i < length (threads w)" "threads w ! i = f # fs"
  shows "\<exists>w'. istep w w' \<and> (\<forall>j. j \<noteq> i \<longrightarrow> threads w' ! j = threads w ! j)"
proof (cases f)
  case (FRegister t)
  obtain k st where r: "register_section t (states w ! target w t) = (k, st)" by fastforce
  show ?thesis
  proof (cases k)
    case None
    then show ?thesis using istep.immediate[OF assms(1)] assms(2) r FRegister by (fastforce simp: set_stack_def)
  next
    case (Some k)
    then show ?thesis using istep.stored[OF assms(1) _ refl] assms(2) r FRegister by (fastforce simp: set_stack_def set_state_def)
  qed
next
  case (FCancel s)
  obtain b st where "exchange_cancelled (states w ! s) = (b, st)" by fastforce
  then show ?thesis
    using istep.cancel_again[OF assms(1)] istep.cancel_first[OF assms(1)] assms(2) FCancel
    by (cases b) (fastforce simp: set_stack_def set_state_def)+
next
  case (FSwap s)
  obtain ts st where "swap_callbacks (states w ! s) = (ts, st)" by fastforce
  then show ?thesis using istep.cancel_swap[OF assms(1)] assms(2) FSwap by (fastforce simp: set_stack_def set_state_def)
next
  case (FLoop s ts e)
  show ?thesis
  proof (cases ts)
    case Nil
    then show ?thesis using istep.cancel_return[OF assms(1)] assms(2) FLoop by (fastforce simp: set_stack_def)
  next
    case (Cons t ts')
    then show ?thesis using istep.cancel_next[OF assms(1), of s ts e fs t] assms(2) FLoop by (fastforce simp: set_stack_def)
  qed
next
  case (FBody t)
  then show ?thesis using istep.callback_return[OF assms(1)] assms(2) by (fastforce simp: set_stack_def)
qed

section \<open>Example\<close>

lemma reach_step: "cancel_reach w \<Longrightarrow> cstep w w' \<Longrightarrow> cancel_reach w'"
  unfolding cancel_reach_def by (meson rtranclp.rtrancl_into_rtrancl)

definition demo_world :: "frame list \<Rightarrow> cancel_world" where
  "demo_world fs = \<lparr>states = [\<lparr>cancelled = True, nextCallbackId = 2, callbacks = []\<rparr>], threads = [fs],
     target = (\<lambda>_. 0), action_of = (\<lambda>_. UserCode), registration = [0 \<mapsto> (0, 1)], issued = [0], withdrawn = [], invoked = [0]\<rparr>"

text \<open>One thread creates a source, registers a callback and cancels; the callback throws.\<close>

lemma demo_reach_body: "cancel_reach (demo_world [FBody 0, FLoop 0 [] None])"
proof -
  let ?w = "\<lambda>st fs. \<lparr>states = [st], threads = [fs], target = \<lambda>_. 0, action_of = \<lambda>_. UserCode, registration = [0 \<mapsto> (0, 1)],
     issued = [0], withdrawn = [], invoked = []\<rparr>"
  let ?r = "\<lparr>states = [CancellationState], threads = [[FRegister 0]], target = \<lambda>_. 0, action_of = \<lambda>_. UserCode,
     registration = Map.empty, issued = [0], withdrawn = [], invoked = []\<rparr>"
  let ?s = "\<lambda>b cs. \<lparr>cancelled = b, nextCallbackId = 2, callbacks = cs\<rparr>"
  have "cancel_reach (cancel_init 1)" by (auto simp: cancel_reach_def)
  from reach_step[OF this, unfolded cstep_def, OF disjI1, OF new_source]
  have a: "cancel_reach ((cancel_init 1)\<lparr>states := [CancellationState]\<rparr>)" by (simp add: cancel_init_def)
  have "ucall ((cancel_init 1)\<lparr>states := [CancellationState]\<rparr>) (registerCallback 0 (Some 0) UserCode ((cancel_init 1)\<lparr>states := [CancellationState]\<rparr>))"
    by (rule call_register) (simp_all add: cancel_init_def)
  moreover have "registerCallback 0 (Some 0) UserCode ((cancel_init 1)\<lparr>states := [CancellationState]\<rparr>) = ?r"
    by (auto simp: cancel_init_def registerCallback_def Let_def)
  ultimately have b: "cancel_reach ?r" using reach_step[OF a] by (simp add: cstep_def)
  have "istep ?r (?w (?s False [(1, 0)]) [])"
    using stored[of 0 ?r 0 "[]" 0 1 "?s False [(1, 0)]"]
    by (simp add: register_section_def CancellationState_def set_stack_def set_state_def)
  then have c: "cancel_reach (?w (?s False [(1, 0)]) [])" using reach_step[OF b] by (simp add: cstep_def)
  have "ucall (?w (?s False [(1, 0)]) []) (?w (?s False [(1, 0)]) [FCancel 0])"
    using call_cancel[of 0 "?w (?s False [(1, 0)]) []" 0] by (simp add: set_stack_def)
  then have d: "cancel_reach (?w (?s False [(1, 0)]) [FCancel 0])" using reach_step[OF c] by (simp add: cstep_def)
  have "istep (?w (?s False [(1, 0)]) [FCancel 0]) (?w (?s True [(1, 0)]) [FSwap 0])"
    using cancel_first[of 0 "?w (?s False [(1, 0)]) [FCancel 0]" 0 "[]" "?s True [(1, 0)]"]
    by (simp add: exchange_cancelled_def set_stack_def set_state_def)
  then have e: "cancel_reach (?w (?s True [(1, 0)]) [FSwap 0])" using reach_step[OF d] by (simp add: cstep_def)
  have "istep (?w (?s True [(1, 0)]) [FSwap 0]) (?w (?s True []) [FLoop 0 [0] None])"
    using cancel_swap[of 0 "?w (?s True [(1, 0)]) [FSwap 0]" 0 "[]" "[0]" "?s True []"]
    by (simp add: swap_callbacks_def set_stack_def set_state_def)
  then have f: "cancel_reach (?w (?s True []) [FLoop 0 [0] None])" using reach_step[OF e] by (simp add: cstep_def)
  have "istep (?w (?s True []) [FLoop 0 [0] None]) (demo_world [FBody 0, FLoop 0 [] None])"
    using cancel_next[of 0 "?w (?s True []) [FLoop 0 [0] None]" 0 "[0]" None "[]" 0] by (simp add: set_stack_def demo_world_def)
  then show ?thesis using reach_step[OF f] by (simp add: cstep_def)
qed

lemma demo_reach_done: "cancel_reach (demo_world [])"
proof -
  let ?e = "Some (Runtime_error ''callback'')"
  have "istep (demo_world [FBody 0, FLoop 0 [] None]) (demo_world [FLoop 0 [] ?e])"
    using callback_return[of 0 "demo_world [FBody 0, FLoop 0 [] None]" 0 "[FLoop 0 [] None]" ?e]
    by (simp add: demo_world_def set_stack_def)
  then have "cancel_reach (demo_world [FLoop 0 [] ?e])" using reach_step[OF demo_reach_body] by (simp add: cstep_def)
  moreover have "istep (demo_world [FLoop 0 [] ?e]) (demo_world [])"
    using cancel_return[of 0 "demo_world [FLoop 0 [] ?e]" 0 ?e "[]"] by (simp add: demo_world_def set_stack_def)
  ultimately show ?thesis using reach_step by (simp add: cstep_def)
qed

section \<open>Properties\<close>

text \<open>C24. A registered callback is never lost and never called twice: in every reachable state its ticket is in exactly one place,
  one entry of the map of a state, one call in progress, the withdrawn ones or the invoked ones. It is called only when its
  token was cancelled, and an entry is only ever in the state it was registered with.\<close>

theorem callback_exactly_once:
  assumes "cancel_reach w" "t \<in> set (issued w)"
  shows "count_list (concat (map (\<lambda>st. map snd (callbacks st)) (states w)) @ concat (map stack_tickets (threads w)) @
      withdrawn w @ invoked w) t = 1 \<and>
    (t \<in> set (invoked w) \<longrightarrow> isCancellationRequested (Some (target w t)) w) \<and>
    (\<forall>s i. s < length (states w) \<and> (i, t) \<in> set (callbacks (states w ! s)) \<longrightarrow> target w t = s)"
proof -
  note inv = cancel_invD[OF cancel_reach_inv[OF assms(1)]]
  have "count (mset (issued w)) t = 1"
    using assms(2) inv(2) unfolding tickets_ok_def by (metis count_mset_0_iff distinct_count_atmost_1 distinct_upt)
  then have "count (places w) t = 1" using inv(1) by simp
  then have "count_list (concat (map (\<lambda>st. map snd (callbacks st)) (states w)) @ concat (map stack_tickets (threads w)) @
      withdrawn w @ invoked w) t = 1"
    by (simp add: places_def stored_tickets_def[abs_def] count_mset)
  then show ?thesis using inv(6) ids_okD(1)[OF inv(3)] by (auto simp: called_ok_def isCancellationRequested_def)
qed

theorem callback_exactly_once_witness:
  "cancel_reach (demo_world []) \<and> 0 \<in> set (issued (demo_world [])) \<and>
   count_list (concat (map (\<lambda>st. map snd (callbacks st)) (states (demo_world []))) @
     concat (map stack_tickets (threads (demo_world []))) @ withdrawn (demo_world []) @ invoked (demo_world [])) 0 = 1"
proof -
  have "0 \<in> set (issued (demo_world []))" by (simp add: demo_world_def)
  then show ?thesis using callback_exactly_once[OF demo_reach_done, of 0] demo_reach_done by blast
qed

text \<open>C27. Cancellation is complete: when no call is in progress, a cancelled source has no callback left, every callback registered
  with it was called or withdrawn by \<open>reset\<close>, also those registered while \<open>cancel\<close> was running or behind one that
  threw, and so every source linked to it is cancelled too.\<close>

theorem cancellation_complete:
  assumes "cancel_reach w" "\<forall>fs \<in> set (threads w). fs = []" "s < length (states w)" "isCancellationRequested (Some s) w"
  shows "callbacks (states w ! s) = [] \<and>
    (\<forall>t \<in> set (issued w). target w t = s \<longrightarrow> t \<in> set (invoked w) \<or> t \<in> set (withdrawn w)) \<and>
    (\<forall>t c. t \<in> set (invoked w) \<and> action_of w t = CancelSource c \<longrightarrow> isCancellationRequested (Some c) w)"
proof -
  have inv: "cancel_inv w" by (rule cancel_reach_inv[OF assms(1)])
  note i = cancel_invD[OF inv]
  have none: "\<not> on_stack f w" for f using assms(2) by (auto simp: on_stack_def)
  have c: "cancelled (states w ! p) \<Longrightarrow> p < length (states w) \<Longrightarrow> callbacks (states w ! p) = []" for p
    using i(5) none unfolding swap_ok_def by blast
  have cs: "callbacks (states w ! s) = []" using c assms(3,4) by (simp add: isCancellationRequested_def)
  have "t \<in> set (invoked w) \<or> t \<in> set (withdrawn w)" if t: "t \<in> set (issued w)" "target w t = s" for t
  proof -
    have "t \<in># places w" using t(1) i(1) by (metis set_mset_mset)
    moreover have "t \<notin> set (concat (map stack_tickets (threads w)))" using assms(2) by auto
    moreover have "t \<notin> set (concat (map stored_tickets (states w)))"
    proof
      assume "t \<in> set (concat (map stored_tickets (states w)))"
      then obtain p k where p: "p < length (states w)" "(k, t) \<in> set (callbacks (states w ! p))"
        by (auto simp: stored_tickets_def in_set_conv_nth[of _ "states w"])
      then have "p = s" using ids_okD(1)[OF i(3) p] t(2) by simp
      then show False using p(2) cs by simp
    qed
    ultimately show ?thesis by (auto simp: places_def)
  qed
  moreover have "cancelled (states w ! c)" if "t \<in> set (invoked w)" "action_of w t = CancelSource c" for t c
    using i(6) none that by (auto simp: called_ok_def)
  ultimately show ?thesis using cs by (auto simp: isCancellationRequested_def)
qed

theorem cancellation_complete_witness:
  "isCancellationRequested (Some 0) (demo_world []) \<and> callbacks (states (demo_world []) ! 0) = [] \<and> 0 \<in> set (invoked (demo_world []))"
proof -
  have h: "\<forall>fs \<in> set (threads (demo_world [])). fs = []" "0 < length (states (demo_world []))"
    "isCancellationRequested (Some 0) (demo_world [])" by (simp_all add: demo_world_def isCancellationRequested_def)
  show ?thesis using cancellation_complete[OF demo_reach_done h] h by (simp add: demo_world_def)
qed

text \<open>Calls return: a thread inside a call of the library can always move on, and every
  step of a call in progress lowers the outstanding work, so without further calls from callbacks all calls return.\<close>

theorem cancellation_calls_return:
  assumes "cancel_reach w"
  shows "(\<forall>i < length (threads w). threads w ! i \<noteq> [] \<longrightarrow>
      (\<exists>w'. istep w w' \<and> (\<forall>j. j \<noteq> i \<longrightarrow> threads w' ! j = threads w ! j))) \<and>
    (\<forall>w'. istep w w' \<longrightarrow> work w' < work w)"
  using istep_possible[of _ w] istep_work[OF _ cancel_reach_inv[OF assms]] by (metis list.exhaust)

theorem cancellation_calls_return_witness: "\<exists>w'. istep (demo_world [FBody 0, FLoop 0 [] None]) w' \<and> work w' < 2"
proof -
  let ?w = "demo_world [FBody 0, FLoop 0 [] None]"
  have w: "work ?w = 2" "0 < length (threads ?w)" "threads ?w ! 0 \<noteq> []"
    by (simp_all add: demo_world_def work_def state_work_def stack_work_def)
  then obtain w' where "istep ?w w'" using cancellation_calls_return[OF demo_reach_body] by blast
  then show ?thesis using cancellation_calls_return[OF demo_reach_body] w(1) by fastforce
qed

end
