(* ===== verification/Dns_Resolver.thy ===== *)
theory Dns_Resolver
  imports Socket_Ops
begin

unbundle bit_operations_syntax

text \<open>
  \<^verbatim>\<open>DnsResolver.cc\<close> and \<^verbatim>\<open>DnsResolverOptions.h\<close>: asynchronous name resolution by worker threads, with a cache.

  A request is one \<open>ResolveOperationState\<close>, known by its index in \<open>ops\<close>. Four kinds of threads work on it: the caller of
  \<open>resolve\<close>, a worker, the thread that cancels its token, and the thread of the target loop. Each has a program counter; an
  atomic access, a section under a mutex, a notification and a call of \<open>LoopHandle::queue\<close> are one step. A worker that finds the queue empty
  sleeps on \<open>queueCv_\<close> until it is notified. The token is modelled as far as the
  resolver sees it: it may be cancelled at any time, and the registered callback then runs once (\<open>Cancel_Token\<close>). A loop accepts functors
  until it is closed, and runs those it has accepted (\<open>Event_Loop\<close>). What \<open>getaddrinfo\<close> returns is an input of the step.

  \<open>delivered\<close> logs the calls of the user's callback, \<open>dropped\<close> the requests whose callback was released without
  a call, \<open>answers\<close> the usable addresses (of a known family and long enough) that \<open>getaddrinfo\<close> gave for a name.
\<close>

section \<open>Options and addresses\<close>

record dns_options =
  numWorkerThreads :: nat
  opt_cacheTtl :: int
  enableCacheOpt :: bool

definition DnsResolverOptions :: dns_options where
  "DnsResolverOptions = \<lparr>numWorkerThreads = 2, opt_cacheTtl = 60, enableCacheOpt = False\<rparr>"

definition dns_validate :: "dns_options \<Rightarrow> unit res" where
  "dns_validate opts =
     (if numWorkerThreads opts = 0 then Inl (Invalid_argument ''DnsResolverOptions: numWorkerThreads must be > 0'')
      else if enableCacheOpt opts \<and> opt_cacheTtl opts \<le> 0
        then Inl (Invalid_argument ''DnsResolverOptions: cacheTtl must be positive when cache is enabled'')
      else Inr ())"

definition htons :: "u16 \<Rightarrow> u16" where
  "htons p = push_bit 8 p OR drop_bit 8 p"

definition set_port :: "u16 \<Rightarrow> sockaddr \<Rightarrow> sockaddr" where
  "set_port p a = (if ss_family a = AF_INET \<or> ss_family a = AF_INET6 then a\<lparr>sin_port := p\<rparr> else a)"

text \<open>A node of the list that \<open>getaddrinfo\<close> returns: \<open>ai_addrlen\<close> is what it says about the size of the address.\<close>

record addrinfo =
  ai_family :: int
  ai_addrlen :: nat
  ai_addr :: sockaddr

definition sizeof_sockaddr_in :: nat where "sizeof_sockaddr_in = 16"
definition sizeof_sockaddr_in6 :: nat where "sizeof_sockaddr_in6 = 28"

definition usable :: "addrinfo \<Rightarrow> bool" where
  "usable p \<longleftrightarrow> ai_family p = AF_INET \<and> ai_addrlen p \<ge> sizeof_sockaddr_in \<or>
     ai_family p = AF_INET6 \<and> ai_addrlen p \<ge> sizeof_sockaddr_in6"

text \<open>The loop over the list: \<open>addresses\<close> and \<open>cacheAddrs\<close>.\<close>

definition collect_addresses :: "addrinfo list \<Rightarrow> sockaddr list \<times> sockaddr list" where
  "collect_addresses res =
     (map ai_addr (filter usable res), map (\<lambda>p. (ai_addr p)\<lparr>sin_port := 0\<rparr>) (filter usable res))"

section \<open>State\<close>

type_synonym resolve_result = "netError + sockaddr list"

datatype post_pc = PLoad resolve_result | PQueue resolve_result

datatype caller_pc = RToken | RRegister | RInstall | RCheck | RCache | REnqueue | RNotify | RPost post_pc | RDone

datatype cancel_pc = CIdle | CRegistered | CPost post_pc | CDone

record operation =
  op_host :: string
  op_port :: u16
  op_loop :: nat
  op_token :: bool
  op_requested :: bool
  op_completed :: bool
  op_callback :: bool
  op_registration :: bool
  op_caller :: caller_pc
  op_cancel :: cancel_pc

datatype worker_pc =
    WWait
  | WAsleep
  | WTaken nat
  | WStore nat resolve_result "sockaddr list"
  | WPost nat post_pc
  | WExit

record dns =
  ops :: "operation list"
  requestQueue :: "nat list"
  workers :: "worker_pc list"
  dns_stopping :: bool
  stop_notify :: bool
  cacheEnabled :: bool
  cacheTtl :: int
  cache :: "string \<rightharpoonup> sockaddr list \<times> int"
  clock :: int
  loop_open :: "nat \<Rightarrow> bool"
  loop_tasks :: "nat \<Rightarrow> (nat \<times> resolve_result) list"
  delivered :: "(nat \<times> resolve_result) list"
  dropped :: "nat list"
  answers :: "(string \<times> sockaddr list) list"

definition DnsResolver :: "dns_options \<Rightarrow> dns res" where
  "DnsResolver opts =
     bind_res (dns_validate opts) (\<lambda>_.
       Inr \<lparr>ops = [], requestQueue = [], workers = replicate (numWorkerThreads opts) WWait, dns_stopping = False, stop_notify = False,
            cacheEnabled = enableCacheOpt opts, cacheTtl = opt_cacheTtl opts, cache = Map.empty, clock = 0,
            loop_open = (\<lambda>_. True), loop_tasks = (\<lambda>_. []), delivered = [], dropped = [], answers = []\<rparr>)"

section \<open>Operations of a request\<close>

definition set_op :: "nat \<Rightarrow> operation \<Rightarrow> dns \<Rightarrow> dns" where
  "set_op n x d = d\<lparr>ops := (ops d)[n := x]\<rparr>"

text \<open>\<open>takeCallback\<close>: whether it gave the callback, and the request afterwards.\<close>

definition takeCallback :: "operation \<Rightarrow> bool \<times> operation" where
  "takeCallback x =
     (if op_completed x then (False, x)
      else (op_callback x, x\<lparr>op_completed := True, op_registration := False, op_callback := False\<rparr>))"

definition installRegistration :: "operation \<Rightarrow> operation" where
  "installRegistration x = (if \<not> op_completed x then x\<lparr>op_registration := True\<rparr> else x)"

definition deliver :: "nat \<Rightarrow> resolve_result \<Rightarrow> dns \<Rightarrow> dns" where
  "deliver n r d =
     (case takeCallback (ops d ! n) of
        (True, x) \<Rightarrow> (set_op n x d)\<lparr>delivered := delivered d @ [(n, r)]\<rparr>
      | (False, x) \<Rightarrow> set_op n x d)"

text \<open>\<open>post\<close> in two steps: the test of \<open>completed\<close>, then \<open>callbackHandle.queue\<close>, which a closed loop refuses.\<close>

fun post_step :: "nat \<Rightarrow> post_pc \<Rightarrow> dns \<Rightarrow> post_pc option \<times> dns" where
  "post_step n (PLoad r) d = (if op_completed (ops d ! n) then None else Some (PQueue r), d)"
| "post_step n (PQueue r) d =
     (let l = op_loop (ops d ! n)
      in (None,
          if loop_open d l then d\<lparr>loop_tasks := (loop_tasks d)(l := loop_tasks d l @ [(n, r)])\<rparr>
          else case takeCallback (ops d ! n) of
                 (b, x) \<Rightarrow> (set_op n x d)\<lparr>dropped := (if b then dropped d @ [n] else dropped d)\<rparr>))"

section \<open>resolve\<close>

definition new_operation :: "string \<Rightarrow> u16 \<Rightarrow> nat \<Rightarrow> bool \<Rightarrow> operation" where
  "new_operation hostname port callbackLoop token =
     \<lparr>op_host = hostname, op_port = port, op_loop = callbackLoop, op_token = token, op_requested = False, op_completed = False,
      op_callback = True, op_registration = False, op_caller = RToken, op_cancel = CIdle\<rparr>"

definition resolve :: "string \<Rightarrow> u16 \<Rightarrow> nat option \<Rightarrow> bool \<Rightarrow> bool \<Rightarrow> dns \<Rightarrow> dns res" where
  "resolve hostname port callbackLoop cb token d =
     (case callbackLoop of
        Some l \<Rightarrow>
          if cb then Inr (d\<lparr>ops := ops d @ [new_operation hostname port l token]\<rparr>)
          else Inl (Invalid_argument ''DnsResolver::resolve requires a loop and callback'')
      | None \<Rightarrow> Inl (Invalid_argument ''DnsResolver::resolve requires a loop and callback''))"

definition cache_lookup :: "string \<Rightarrow> u16 \<Rightarrow> dns \<Rightarrow> resolve_result option" where
  "cache_lookup hostname port d =
     (if \<not> cacheEnabled d then None
      else case cache d hostname of
             None \<Rightarrow> None
           | Some (addresses, expiry) \<Rightarrow>
               if expiry > clock d then Some (Inr (map (set_port (htons port)) addresses)) else None)"

text \<open>The next step of the caller; its last one, after a request was queued, is \<open>notify_one\<close> below.\<close>

fun caller_step :: "nat \<Rightarrow> dns \<Rightarrow> dns" where
  "caller_step n d =
     (let x = ops d ! n
      in case op_caller x of
           RToken \<Rightarrow>
             set_op n (x\<lparr>op_caller := (if op_token x \<and> op_requested x then RPost (PLoad (Inl OpCancelled))
                                       else if op_token x then RRegister else RCache)\<rparr>) d
         | RRegister \<Rightarrow>
             set_op n (x\<lparr>op_caller := RInstall,
                         op_cancel := (if op_requested x then CPost (PLoad (Inl OpCancelled)) else CRegistered)\<rparr>) d
         | RInstall \<Rightarrow> set_op n ((installRegistration x)\<lparr>op_caller := RCheck\<rparr>) d
         | RCheck \<Rightarrow> set_op n (x\<lparr>op_caller := (if op_completed x then RDone else RCache)\<rparr>) d
         | RCache \<Rightarrow>
             set_op n (x\<lparr>op_caller := (case cache_lookup (op_host x) (op_port x) d of
                                         Some r \<Rightarrow> RPost (PLoad r) | None \<Rightarrow> REnqueue)\<rparr>) d
         | REnqueue \<Rightarrow> (set_op n (x\<lparr>op_caller := RNotify\<rparr>) d)\<lparr>requestQueue := requestQueue d @ [n]\<rparr>
         | RNotify \<Rightarrow> d
         | RPost p \<Rightarrow>
             (case post_step n p d of
                (None, d) \<Rightarrow> set_op n ((ops d ! n)\<lparr>op_caller := RDone\<rparr>) d
              | (Some p, d) \<Rightarrow> set_op n ((ops d ! n)\<lparr>op_caller := RPost p\<rparr>) d)
         | RDone \<Rightarrow> d)"

text \<open>The cancellation callback. \<open>registerCallback\<close> runs it on the caller when the token is cancelled already: its post comes before
  \<open>installRegistration\<close>, which is covered because the two counters move independently.\<close>

fun cancel_step :: "nat \<Rightarrow> dns \<Rightarrow> dns" where
  "cancel_step n d =
     (let x = ops d ! n
      in case op_cancel x of
           CIdle \<Rightarrow> d
         | CRegistered \<Rightarrow> if op_requested x then set_op n (x\<lparr>op_cancel := CPost (PLoad (Inl OpCancelled))\<rparr>) d else d
         | CPost p \<Rightarrow>
             (case post_step n p d of
                (None, d) \<Rightarrow> set_op n ((ops d ! n)\<lparr>op_cancel := CDone\<rparr>) d
              | (Some p, d) \<Rightarrow> set_op n ((ops d ! n)\<lparr>op_cancel := CPost p\<rparr>) d)
         | CDone \<Rightarrow> d)"

section \<open>workerThread\<close>

definition set_worker :: "nat \<Rightarrow> worker_pc \<Rightarrow> dns \<Rightarrow> dns" where
  "set_worker w pc d = d\<lparr>workers := (workers d)[w := pc]\<rparr>"

definition getaddrinfo_result :: "addrinfo list option \<Rightarrow> resolve_result \<times> sockaddr list" where
  "getaddrinfo_result res =
     (case res of
        None \<Rightarrow> (Inl ResolveFailed, [])
      | Some ps \<Rightarrow>
          let (addresses, cacheAddrs) = collect_addresses ps
          in (if addresses \<noteq> [] then Inr addresses else Inl ResolveFailed, cacheAddrs))"

definition store_cache :: "string \<Rightarrow> sockaddr list \<Rightarrow> dns \<Rightarrow> dns" where
  "store_cache hostname cacheAddrs d =
     (if cacheEnabled d \<and> cacheAddrs \<noteq> [] then d\<lparr>cache := (cache d)(hostname \<mapsto> (cacheAddrs, clock d + cacheTtl d))\<rparr> else d)"

text \<open>A worker that finds the queue empty sleeps on \<open>queueCv_\<close>, and has no step of its own until it is woken.\<close>

fun worker_step :: "nat \<Rightarrow> addrinfo list option \<Rightarrow> dns \<Rightarrow> dns" where
  "worker_step w res d =
     (case workers d ! w of
        WWait \<Rightarrow>
          (case requestQueue d of
             [] \<Rightarrow> set_worker w (if dns_stopping d then WExit else WAsleep) d
           | n # ns \<Rightarrow> set_worker w (WTaken n) (d\<lparr>requestQueue := ns\<rparr>))
      | WAsleep \<Rightarrow> d
      | WTaken n \<Rightarrow>
          if op_completed (ops d ! n) then set_worker w WWait d
          else (case getaddrinfo_result res of
                  (r, cacheAddrs) \<Rightarrow>
                    set_worker w (WStore n r cacheAddrs)
                      (case r of Inr as \<Rightarrow> d\<lparr>answers := answers d @ [(op_host (ops d ! n), as)]\<rparr> | Inl _ \<Rightarrow> d))
      | WStore n r cacheAddrs \<Rightarrow> set_worker w (WPost n (PLoad r)) (store_cache (op_host (ops d ! n)) cacheAddrs d)
      | WPost n p \<Rightarrow>
          (case post_step n p d of
             (None, d) \<Rightarrow> set_worker w WWait d
           | (Some p, d) \<Rightarrow> set_worker w (WPost n p) d)
      | WExit \<Rightarrow> d)"

section \<open>Steps\<close>

definition enableCache :: "int \<Rightarrow> dns \<Rightarrow> dns" where
  "enableCache ttl d = d\<lparr>cacheTtl := ttl, cacheEnabled := True\<rparr>"

definition clearCache :: "dns \<Rightarrow> dns" where
  "clearCache d = d\<lparr>cache := Map.empty\<rparr>"

text \<open>\<open>queueCv_\<close>. \<open>notify_one\<close> ends the call that queued request \<open>n\<close>: one sleeping worker wakes, whichever, if any sleeps. The destructor
  sets \<open>stopping_\<close> and then wakes them all; it then joins them. A worker may also wake for no reason.\<close>

definition notify_one :: "nat \<Rightarrow> nat \<Rightarrow> dns \<Rightarrow> dns" where
  "notify_one n w d =
     (let d' = set_op n ((ops d ! n)\<lparr>op_caller := RDone\<rparr>) d
      in if op_caller (ops d ! n) \<noteq> RNotify then d
         else if WAsleep \<notin> set (workers d) then d'
         else if w < length (workers d) \<and> workers d ! w = WAsleep then set_worker w WWait d'
         else d)"

definition dns_stop :: "dns \<Rightarrow> dns" where
  "dns_stop d = d\<lparr>dns_stopping := True, stop_notify := True\<rparr>"

definition wake :: "worker_pc \<Rightarrow> worker_pc" where
  "wake pc = (if pc = WAsleep then WWait else pc)"

definition dns_notify_all :: "dns \<Rightarrow> dns" where
  "dns_notify_all d = (if stop_notify d then d\<lparr>workers := map wake (workers d), stop_notify := False\<rparr> else d)"

datatype dns_event =
    DResolve string u16 "nat option" bool bool
  | DCaller nat
  | DCancelRequest nat
  | DCancel nat
  | DWorker nat "addrinfo list option"
  | DLoop nat
  | DClose nat
  | DEnable int
  | DClear
  | DTick int
  | DStop
  | DNotify nat nat
  | DNotifyAll
  | DSpurious nat

fun dns_step :: "dns_event \<Rightarrow> dns \<Rightarrow> dns" where
  "dns_step (DResolve h p l cb token) d = (case resolve h p l cb token d of Inl _ \<Rightarrow> d | Inr d \<Rightarrow> d)"
| "dns_step (DCaller n) d = (if n < length (ops d) then caller_step n d else d)"
| "dns_step (DCancelRequest n) d =
     (if n < length (ops d) \<and> op_token (ops d ! n) then set_op n ((ops d ! n)\<lparr>op_requested := True\<rparr>) d else d)"
| "dns_step (DCancel n) d = (if n < length (ops d) then cancel_step n d else d)"
| "dns_step (DWorker w res) d = (if w < length (workers d) then worker_step w res d else d)"
| "dns_step (DLoop l) d =
     (case loop_tasks d l of
        [] \<Rightarrow> d
      | (n, r) # ts \<Rightarrow> deliver n r (d\<lparr>loop_tasks := (loop_tasks d)(l := ts)\<rparr>))"
| "dns_step (DClose l) d = d\<lparr>loop_open := (loop_open d)(l := False)\<rparr>"
| "dns_step (DEnable ttl) d = enableCache ttl d"
| "dns_step DClear d = clearCache d"
| "dns_step (DTick t) d = (if t \<ge> 0 then d\<lparr>clock := clock d + t\<rparr> else d)"
| "dns_step DStop d = dns_stop d"
| "dns_step (DNotify n w) d = (if n < length (ops d) then notify_one n w d else d)"
| "dns_step DNotifyAll d = dns_notify_all d"
| "dns_step (DSpurious w) d = (if w < length (workers d) then set_worker w (wake (workers d ! w)) d else d)"

definition dns_run :: "dns_event list \<Rightarrow> dns \<Rightarrow> dns" where
  "dns_run es d = fold dns_step es d"

section \<open>Invariant\<close>

fun post_result :: "post_pc \<Rightarrow> resolve_result" where
  "post_result (PLoad r) = r"
| "post_result (PQueue r) = r"

fun caller_results :: "caller_pc \<Rightarrow> resolve_result set" where
  "caller_results (RPost p) = {post_result p}"
| "caller_results _ = {}"

fun cancel_results :: "cancel_pc \<Rightarrow> resolve_result set" where
  "cancel_results (CPost p) = {post_result p}"
| "cancel_results _ = {}"

fun holds :: "worker_pc \<Rightarrow> nat option" where
  "holds (WTaken n) = Some n"
| "holds (WStore n r as) = Some n"
| "holds (WPost n p) = Some n"
| "holds _ = None"

fun worker_results :: "worker_pc \<Rightarrow> (nat \<times> resolve_result) set" where
  "worker_results (WStore n r as) = {(n, r)}"
| "worker_results (WPost n p) = {(n, post_result p)}"
| "worker_results _ = {}"

definition strip :: "sockaddr \<Rightarrow> sockaddr" where
  "strip a = a\<lparr>sin_port := 0\<rparr>"

text \<open>A result that may be given for a request.\<close>

definition result_ok :: "dns \<Rightarrow> nat \<Rightarrow> resolve_result \<Rightarrow> bool" where
  "result_ok d n r \<longleftrightarrow>
     (case r of
        Inl e \<Rightarrow> e = ResolveFailed \<or> e = OpCancelled \<and> op_requested (ops d ! n)
      | Inr as \<Rightarrow> as \<noteq> [] \<and> (\<exists>bs. (op_host (ops d ! n), bs) \<in> set (answers d) \<and> map strip as = map strip bs))"

definition in_flight :: "dns \<Rightarrow> (nat \<times> resolve_result) set" where
  "in_flight d = {(n, r). n < length (ops d) \<and> (r \<in> caller_results (op_caller (ops d ! n)) \<or> r \<in> cancel_results (op_cancel (ops d ! n)))} \<union>
     \<Union> (worker_results ` set (workers d)) \<union> (\<Union>l. set (loop_tasks d l)) \<union> set (delivered d)"

definition cache_ok :: "dns \<Rightarrow> bool" where
  "cache_ok d \<longleftrightarrow>
     (\<forall>h cs e. cache d h = Some (cs, e) \<longrightarrow> cs \<noteq> [] \<and> (\<exists>bs. (h, bs) \<in> set (answers d) \<and> cs = map strip bs)) \<and>
     (\<forall>n r cs. WStore n r cs \<in> set (workers d) \<and> cs \<noteq> [] \<longrightarrow>
        (\<exists>bs. (op_host (ops d ! n), bs) \<in> set (answers d) \<and> cs = map strip bs))"

definition results_ok :: "dns \<Rightarrow> bool" where
  "results_ok d \<longleftrightarrow> (\<forall>(n, r) \<in> in_flight d. n < length (ops d) \<and> result_ok d n r) \<and> cache_ok d"

definition ids_ok :: "dns \<Rightarrow> bool" where
  "ids_ok d \<longleftrightarrow> (\<forall>n \<in> set (requestQueue d). n < length (ops d)) \<and>
     (\<forall>pc \<in> set (workers d). \<forall>n. holds pc = Some n \<longrightarrow> n < length (ops d)) \<and>
     (\<forall>l n r. (n, r) \<in> set (loop_tasks d l) \<longrightarrow> n < length (ops d) \<and> op_loop (ops d ! n) = l)"

text \<open>Each request is answered once.\<close>

definition ended :: "dns \<Rightarrow> nat list" where
  "ended d = map fst (delivered d) @ dropped d"

definition once_ok :: "dns \<Rightarrow> bool" where
  "once_ok d \<longleftrightarrow> (\<forall>n. count_list (ended d) n = (if n < length (ops d) \<and> op_completed (ops d ! n) then 1 else 0)) \<and>
     (\<forall>x \<in> set (ops d). op_callback x \<longleftrightarrow> \<not> op_completed x) \<and>
     (\<forall>n \<in> set (dropped d). \<not> loop_open d (op_loop (ops d ! n)))"

text \<open>Somebody still works on a request.\<close>

definition queued_result :: "dns \<Rightarrow> nat \<Rightarrow> bool" where
  "queued_result d n \<longleftrightarrow> (\<exists>r. (n, r) \<in> set (loop_tasks d (op_loop (ops d ! n))))"

text \<open>The caller has not handed the request on.\<close>

fun calling :: "caller_pc \<Rightarrow> bool" where
  "calling RNotify = False"
| "calling RDone = False"
| "calling _ = True"

definition busy :: "dns \<Rightarrow> nat \<Rightarrow> bool" where
  "busy d n \<longleftrightarrow> calling (op_caller (ops d ! n)) \<or> n \<in> set (requestQueue d) \<or> Some n \<in> holds ` set (workers d) \<or>
     cancel_results (op_cancel (ops d ! n)) \<noteq> {} \<or> queued_result d n"

definition busy_ok :: "nat set \<Rightarrow> dns \<Rightarrow> bool" where
  "busy_ok N d \<longleftrightarrow> (\<forall>n < length (ops d). n \<notin> N \<and> \<not> op_completed (ops d ! n) \<longrightarrow> busy d n)"

text \<open>\<open>N\<close> are the requests in the hands of a step that is not finished.\<close>

definition dns_inv :: "nat set \<Rightarrow> dns \<Rightarrow> bool" where
  "dns_inv N d \<longleftrightarrow> ids_ok d \<and> results_ok d \<and> once_ok d \<and> busy_ok N d"

lemma dns_invD:
  assumes "dns_inv N d"
  shows "ids_ok d" "results_ok d" "once_ok d" "busy_ok N d"
  using assms by (simp_all add: dns_inv_def)

lemma set_op_simps [simp]:
  "ops (set_op n x d) = (ops d)[n := x]" "requestQueue (set_op n x d) = requestQueue d" "workers (set_op n x d) = workers d"
  "loop_tasks (set_op n x d) = loop_tasks d" "loop_open (set_op n x d) = loop_open d" "delivered (set_op n x d) = delivered d"
  "dropped (set_op n x d) = dropped d" "answers (set_op n x d) = answers d" "cache (set_op n x d) = cache d"
  "dns_stopping (set_op n x d) = dns_stopping d"
  by (simp_all add: set_op_def)

lemma set_worker_simps [simp]:
  "ops (set_worker w pc d) = ops d" "requestQueue (set_worker w pc d) = requestQueue d" "workers (set_worker w pc d) = (workers d)[w := pc]"
  "loop_tasks (set_worker w pc d) = loop_tasks d" "loop_open (set_worker w pc d) = loop_open d"
  "delivered (set_worker w pc d) = delivered d" "dropped (set_worker w pc d) = dropped d" "answers (set_worker w pc d) = answers d"
  "cache (set_worker w pc d) = cache d" "dns_stopping (set_worker w pc d) = dns_stopping d"
  by (simp_all add: set_worker_def)

text \<open>A request changes, but not in what identifies it.\<close>

definition same_op :: "operation \<Rightarrow> operation \<Rightarrow> bool" where
  "same_op x y \<longleftrightarrow> op_host x = op_host y \<and> op_loop x = op_loop y \<and> op_port x = op_port y \<and> op_token x = op_token y \<and>
     (op_requested x \<longrightarrow> op_requested y)"

lemma result_ok_mono:
  assumes "result_ok d n r" "same_op (ops d ! n) (ops e ! n)" "set (answers d) \<subseteq> set (answers e)"
  shows "result_ok e n r"
  using assms unfolding result_ok_def same_op_def by (auto split: sum.splits)

lemma nth_set_op: "n < length (ops d) \<Longrightarrow> ops (set_op n x d) ! m = (if m = n then x else ops d ! m)"
  by simp

lemma same_set_op: "n < length (ops d) \<Longrightarrow> same_op (ops d ! n) x \<Longrightarrow> same_op (ops d ! m) (ops (set_op n x d) ! m)"
  by (cases "m = n") (simp_all add: same_op_def)

lemma cache_mono:
  assumes "cache_ok d" "cache e = cache d" "set (workers e) \<subseteq> set (workers d)" "set (answers d) \<subseteq> set (answers e)"
    and "\<And>m. same_op (ops d ! m) (ops e ! m)"
  shows "cache_ok e"
  unfolding cache_ok_def
proof (intro conjI allI impI)
  fix h cs ex assume "cache e h = Some (cs, ex)"
  then have "cache d h = Some (cs, ex)" using assms(2) by simp
  then show "cs \<noteq> []" "\<exists>bs. (h, bs) \<in> set (answers e) \<and> cs = map strip bs" using assms(1,4) unfolding cache_ok_def by blast+
next
  fix n r cs assume a: "WStore n r cs \<in> set (workers e) \<and> cs \<noteq> []"
  then have "\<exists>bs. (op_host (ops d ! n), bs) \<in> set (answers d) \<and> cs = map strip bs" using assms(1,3) unfolding cache_ok_def by blast
  moreover have "op_host (ops e ! n) = op_host (ops d ! n)" using assms(5)[of n] by (simp add: same_op_def)
  ultimately show "\<exists>bs. (op_host (ops e ! n), bs) \<in> set (answers e) \<and> cs = map strip bs" using assms(4) by auto
qed

text \<open>The request \<open>n\<close> is replaced by \<open>x\<close>, which is as far as \<open>n\<close> was.\<close>

lemma inv_set_op:
  assumes inv: "dns_inv N d" and N: "N \<subseteq> {n}" and n: "n < length (ops d)" and same: "same_op (ops d ! n) x"
    and comp: "op_completed x = op_completed (ops d ! n)" "op_callback x = op_callback (ops d ! n)"
    and res: "\<And>r. r \<in> caller_results (op_caller x) \<union> cancel_results (op_cancel x) \<Longrightarrow> result_ok (set_op n x d) n r"
    and busy: "\<not> op_completed x \<Longrightarrow> busy (set_op n x d) n"
  shows "dns_inv {} (set_op n x d)" (is "dns_inv _ ?d")
proof -
  note i = dns_invD[OF inv]
  note so = same_set_op[OF n same]
  have "ids_ok ?d" using i(1) so unfolding ids_ok_def same_op_def by simp
  moreover have "results_ok ?d"
    unfolding results_ok_def
  proof (intro conjI ballI)
    fix q assume "q \<in> in_flight ?d"
    then obtain m r where q: "q = (m, r)" "(m, r) \<in> in_flight d \<or> m = n \<and> r \<in> caller_results (op_caller x) \<union> cancel_results (op_cancel x)"
      using n by (cases q) (auto simp: in_flight_def nth_list_update split: if_splits)
    have "m < length (ops d) \<and> result_ok ?d m r"
      using q(2)
    proof
      assume "(m, r) \<in> in_flight d"
      then have "m < length (ops d)" "result_ok d m r" using i(2) by (auto simp: results_ok_def)
      then show ?thesis using result_ok_mono[OF _ so, of m r] by simp
    qed (use res n in auto)
    then show "case q of (m, r) \<Rightarrow> m < length (ops ?d) \<and> result_ok ?d m r" by (simp add: q)
  next
    show "cache_ok ?d" by (rule cache_mono[of d]) (use i(2) so in \<open>simp_all add: results_ok_def\<close>)
  qed
  moreover have "once_ok ?d"
  proof -
    have "op_completed ((ops d)[n := x] ! m) = op_completed (ops d ! m)" for m using comp(1) n by (cases "m = n") simp_all
    moreover have "op_callback x \<longleftrightarrow> \<not> op_completed x" using i(3) comp n by (simp add: once_ok_def)
    then have "\<forall>y \<in> set ((ops d)[n := x]). op_callback y \<longleftrightarrow> \<not> op_completed y"
      using i(3) set_update_subset_insert[of "ops d" n x] by (auto simp: once_ok_def)
    moreover have "op_loop ((ops d)[n := x] ! m) = op_loop (ops d ! m)" for m using so[of m] by (simp add: same_op_def)
    ultimately show ?thesis using i(3) by (simp add: once_ok_def ended_def)
  qed
  moreover have "busy_ok {} ?d"
    unfolding busy_ok_def
  proof (intro allI impI)
    fix m assume m: "m < length (ops ?d)" "m \<notin> {} \<and> \<not> op_completed (ops ?d ! m)"
    show "busy ?d m"
    proof (cases "m = n")
      case False
      then show ?thesis using m i(4) N by (auto simp: busy_ok_def busy_def queued_result_def)
    qed (use m busy n in simp)
  qed
  ultimately show ?thesis by (simp add: dns_inv_def)
qed

lemma inv_set_worker:
  assumes inv: "dns_inv N d" and w: "w < length (workers d)" and N: "\<And>n. n \<in> N \<Longrightarrow> holds pc = Some n"
    and res: "\<And>n r. (n, r) \<in> worker_results pc \<Longrightarrow> result_ok d n r" and ids: "\<And>n. holds pc = Some n \<Longrightarrow> n < length (ops d)"
    and st: "\<And>n r cs. pc = WStore n r cs \<Longrightarrow> cs \<noteq> [] \<Longrightarrow> \<exists>bs. (op_host (ops d ! n), bs) \<in> set (answers d) \<and> cs = map strip bs"
    and busy: "\<And>n. holds (workers d ! w) = Some n \<Longrightarrow> holds pc \<noteq> Some n \<Longrightarrow> \<not> op_completed (ops d ! n) \<Longrightarrow> busy (set_worker w pc d) n"
  shows "dns_inv {} (set_worker w pc d)" (is "dns_inv _ ?d")
proof -
  note i = dns_invD[OF inv]
  have sub: "set (workers ?d) \<subseteq> insert pc (set (workers d))" using set_update_subset_insert[of "workers d" w pc] by simp
  have wr: "(n, r) \<in> worker_results pc \<Longrightarrow> holds pc = Some n" for n r by (cases pc) auto
  have "ids_ok ?d"
    using i(1) ids sub unfolding ids_ok_def by auto
  moreover have "results_ok ?d"
    unfolding results_ok_def
  proof (intro conjI ballI)
    fix q assume "q \<in> in_flight ?d"
    then have "q \<in> in_flight d \<union> worker_results pc" using sub by (auto simp: in_flight_def)
    moreover have "result_ok ?d m r = result_ok d m r" for m r by (simp add: result_ok_def split: sum.split)
    ultimately show "case q of (m, r) \<Rightarrow> m < length (ops ?d) \<and> result_ok ?d m r"
      using i(2) res ids wr by (cases q) (auto simp: results_ok_def)
  next
    have "cache_ok d" using i(2) by (simp add: results_ok_def)
    then show "cache_ok ?d" using st sub unfolding cache_ok_def by auto
  qed
  moreover have "once_ok ?d" using i(3) by (simp add: once_ok_def ended_def)
  moreover have "busy_ok {} ?d"
    unfolding busy_ok_def
  proof (intro allI impI)
    fix m assume m: "m < length (ops ?d)" "m \<notin> {} \<and> \<not> op_completed (ops ?d ! m)"
    have new: "holds pc = Some m \<Longrightarrow> Some m \<in> holds ` set (workers ?d)" using w by (metis image_eqI set_update_memI set_worker_simps(3))
    then have b: "busy d m \<or> busy ?d m" using i(4) m N by (auto simp: busy_ok_def busy_def)
    show "busy ?d m"
    proof (cases "holds (workers d ! w) = Some m \<and> holds pc \<noteq> Some m")
      case False
      have "Some m \<in> holds ` set (workers d) \<Longrightarrow> Some m \<in> holds ` set (workers ?d)"
      proof -
        assume "Some m \<in> holds ` set (workers d)"
        then obtain v where v: "v < length (workers d)" "holds (workers d ! v) = Some m" by (auto simp: in_set_conv_nth)
        then have "holds (workers ?d ! v) = Some m" using False w by (cases "v = w") simp_all
        then show ?thesis using v(1) by (metis image_eqI length_list_update nth_mem set_worker_simps(3))
      qed
      then show ?thesis using b new by (auto simp: busy_def queued_result_def)
    qed (use busy m in simp)
  qed
  ultimately show ?thesis by (simp add: dns_inv_def)
qed

lemma inv_mono: "dns_inv N d \<Longrightarrow> N \<subseteq> M \<Longrightarrow> dns_inv M d"
  by (auto simp: dns_inv_def busy_ok_def)

text \<open>The request is completed: its callback was called with \<open>r\<close>, or dropped.\<close>

definition completed_op :: "operation \<Rightarrow> operation" where
  "completed_op x = x\<lparr>op_completed := True, op_registration := False, op_callback := False\<rparr>"

lemma takeCallback_eq:
  assumes "once_ok d" "n < length (ops d)"
  shows "takeCallback (ops d ! n) = (if op_completed (ops d ! n) then (False, ops d ! n) else (True, completed_op (ops d ! n)))"
proof -
  have "op_callback (ops d ! n) \<longleftrightarrow> \<not> op_completed (ops d ! n)" using assms by (simp add: once_ok_def)
  then show ?thesis by (simp add: takeCallback_def completed_op_def)
qed

lemma inv_complete:
  assumes inv: "dns_inv N d" and N: "N \<subseteq> {n}" and n: "n < length (ops d)" and pend: "\<not> op_completed (ops d ! n)"
    and log: "dl = delivered d @ [(n, r)] \<and> dr = dropped d \<and> result_ok d n r \<or>
      dl = delivered d \<and> dr = dropped d @ [n] \<and> \<not> loop_open d (op_loop (ops d ! n))"
  shows "dns_inv {} ((set_op n (completed_op (ops d ! n)) d)\<lparr>delivered := dl, dropped := dr\<rparr>)" (is "dns_inv _ ?d")
proof -
  note i = dns_invD[OF inv]
  have so: "same_op (ops d ! m) (ops ?d ! m)" for m
    using same_set_op[OF n, of "completed_op (ops d ! n)" m] by (simp add: completed_op_def same_op_def)
  have pcs: "op_caller (ops ?d ! m) = op_caller (ops d ! m)" "op_cancel (ops ?d ! m) = op_cancel (ops d ! m)" for m
    using n by (cases "m = n"; simp add: completed_op_def)+
  have "ids_ok ?d" using i(1) so unfolding ids_ok_def same_op_def by simp
  moreover have "results_ok ?d"
    unfolding results_ok_def
  proof (intro conjI ballI)
    fix q assume "q \<in> in_flight ?d"
    then have "q \<in> in_flight d \<or> q = (n, r) \<and> result_ok d n r" using pcs log by (auto simp: in_flight_def)
    then show "case q of (m, r) \<Rightarrow> m < length (ops ?d) \<and> result_ok ?d m r"
      using i(2) n result_ok_mono[OF _ so] by (cases q) (auto simp: results_ok_def)
  next
    show "cache_ok ?d" by (rule cache_mono[of d]) (use i(2) so in \<open>simp_all add: results_ok_def\<close>)
  qed
  moreover have "once_ok ?d"
  proof -
    have "count_list (ended ?d) m = count_list (ended d) m + (if m = n then 1 else 0)" for m using log by (auto simp: ended_def)
    moreover have "op_completed (ops ?d ! m) \<longleftrightarrow> m = n \<or> op_completed (ops d ! m)" if "m < length (ops d)" for m
      using n that by (cases "m = n") (simp_all add: completed_op_def)
    moreover have "\<forall>y \<in> set (ops ?d). op_callback y \<longleftrightarrow> \<not> op_completed y"
      using i(3) set_update_subset_insert[of "ops d" n "completed_op (ops d ! n)"] by (auto simp: once_ok_def completed_op_def)
    moreover have "\<forall>m \<in> set dr. \<not> loop_open d (op_loop (ops ?d ! m))"
      using log i(3) so by (auto simp: once_ok_def same_op_def)
    ultimately show ?thesis using i(3) n pend by (simp add: once_ok_def)
  qed
  moreover have "busy_ok {} ?d"
    unfolding busy_ok_def
  proof (intro allI impI)
    fix m assume m: "m < length (ops ?d)" "m \<notin> {} \<and> \<not> op_completed (ops ?d ! m)"
    have "m \<noteq> n" using m n by (auto simp: completed_op_def)
    then show "busy ?d m" using m i(4) N by (auto simp: busy_ok_def busy_def queued_result_def)
  qed
  ultimately show ?thesis by (simp add: dns_inv_def)
qed

lemma inv_queue_task:
  assumes inv: "dns_inv {} d" and n: "n < length (ops d)" and r: "result_ok d n r" and l: "l = op_loop (ops d ! n)"
  shows "dns_inv {} (d\<lparr>loop_tasks := (loop_tasks d)(l := loop_tasks d l @ [(n, r)])\<rparr>)" (is "dns_inv _ ?d")
proof -
  note i = dns_invD[OF inv]
  have ro: "result_ok ?d = result_ok d" by (intro ext) (simp add: result_ok_def split: sum.split)
  have "ids_ok ?d" using i(1) n l by (fastforce simp: ids_ok_def)
  moreover have "in_flight ?d \<subseteq> insert (n, r) (in_flight d)" by (auto simp: in_flight_def split: if_splits)
  then have "results_ok ?d" using i(2) n r unfolding results_ok_def ro cache_ok_def by auto
  moreover have "once_ok ?d" using i(3) by (simp add: once_ok_def ended_def)
  moreover have "busy_ok {} ?d" using i(4) by (fastforce simp: busy_ok_def busy_def queued_result_def)
  ultimately show ?thesis by (simp add: dns_inv_def)
qed

lemma post_inv:
  assumes inv: "dns_inv {} d" and n: "n < length (ops d)" and r: "result_ok d n (post_result p)" and st: "post_step n p d = (q, d')"
  shows "dns_inv {} d' \<and> length (ops d') = length (ops d) \<and> workers d' = workers d \<and> same_op (ops d ! n) (ops d' ! n) \<and>
    op_caller (ops d' ! n) = op_caller (ops d ! n) \<and> op_cancel (ops d' ! n) = op_cancel (ops d ! n) \<and> answers d' = answers d \<and>
    (\<forall>p'. q = Some p' \<longrightarrow> post_result p' = post_result p) \<and> (q = None \<longrightarrow> op_completed (ops d' ! n) \<or> queued_result d' n)"
proof (cases p)
  case (PLoad s)
  then show ?thesis using st inv by (auto simp: same_op_def split: if_splits)
next
  case (PQueue s)
  let ?l = "op_loop (ops d ! n)"
  have once: "once_ok d" by (rule dns_invD[OF inv])
  show ?thesis
  proof (cases "loop_open d ?l")
    case True
    then have "q = None" "d' = d\<lparr>loop_tasks := (loop_tasks d)(?l := loop_tasks d ?l @ [(n, s)])\<rparr>"
      using st PQueue by (auto simp: Let_def)
    then show ?thesis using inv_queue_task[OF inv n _ refl, of s] r PQueue by (auto simp: same_op_def queued_result_def)
  next
    case False
    show ?thesis
    proof (cases "op_completed (ops d ! n)")
      case True
      then have "q = None" "d' = d" using st PQueue False takeCallback_eq[OF once n] by (auto simp: Let_def set_op_def)
      then show ?thesis using inv True by (simp add: same_op_def)
    next
      case pend: False
      then have "q = None" "d' = (set_op n (completed_op (ops d ! n)) d)\<lparr>delivered := delivered d, dropped := dropped d @ [n]\<rparr>"
        using st PQueue False takeCallback_eq[OF once n] by (auto simp: Let_def set_op_def)
      then show ?thesis using inv_complete[OF inv _ n pend] False n by (simp add: completed_op_def same_op_def)
    qed
  qed
qed

section \<open>Every step keeps the invariant\<close>

lemma set_op_same [simp]: "set_op n (ops d ! n) d = d"
  by (simp add: set_op_def)

lemma deliver_inv:
  assumes inv: "dns_inv {} d" and ts: "loop_tasks d l = (n, r) # ts"
  shows "dns_inv {} (deliver n r (d\<lparr>loop_tasks := (loop_tasks d)(l := ts)\<rparr>))" (is "dns_inv _ (deliver n r ?d)")
proof -
  note i = dns_invD[OF inv]
  have n: "n < length (ops d)" "op_loop (ops d ! n) = l" using i(1) ts unfolding ids_ok_def by (metis list.set_intros(1))+
  have ro: "result_ok ?d = result_ok d" by (intro ext) (simp add: result_ok_def split: sum.split)
  have "in_flight ?d \<subseteq> in_flight d" using ts by (auto simp: in_flight_def split: if_splits)
  then have res: "results_ok ?d" using i(2) unfolding results_ok_def ro cache_ok_def by auto
  have "(n, r) \<in> in_flight d" using ts by (auto simp: in_flight_def intro!: exI[of _ l])
  then have r: "result_ok d n r" using i(2) by (auto simp: results_ok_def)
  have sub: "(m, q) \<in> set (loop_tasks ?d k) \<Longrightarrow> (m, q) \<in> set (loop_tasks d k)" for m q k using ts by (cases "k = l") auto
  have "m < length (ops d) \<and> op_loop (ops d ! m) = k" if "(m, q) \<in> set (loop_tasks ?d k)" for m q k
    using sub[OF that] i(1) unfolding ids_ok_def by blast
  then have ids: "ids_ok ?d" using i(1) by (auto simp: ids_ok_def simp del: fun_upd_apply)
  have once: "once_ok ?d" using i(3) by (simp add: once_ok_def ended_def)
  have "busy ?d m" if "busy d m" "m \<noteq> n" for m
    using that ts unfolding busy_def queued_result_def by (cases "op_loop (ops d ! m) = l") auto
  then have "busy_ok {n} ?d" using i(4) by (simp add: busy_ok_def)
  then have inv': "dns_inv {n} ?d" using ids res once by (simp add: dns_inv_def)
  show ?thesis
  proof (cases "op_completed (ops d ! n)")
    case True
    then have "deliver n r ?d = ?d" using takeCallback_eq[OF once, of n] n by (simp add: deliver_def set_op_def)
    moreover have "busy_ok {} ?d" using True dns_invD(4)[OF inv'] by (auto simp: busy_ok_def)
    ultimately show ?thesis using inv' by (simp add: dns_inv_def)
  next
    case False
    then have "deliver n r ?d = (set_op n (completed_op (ops ?d ! n)) ?d)\<lparr>delivered := delivered ?d @ [(n, r)], dropped := dropped ?d\<rparr>"
      using takeCallback_eq[OF once, of n] n by (simp add: deliver_def set_op_def)
    then show ?thesis using inv_complete[OF inv', of n "delivered ?d @ [(n, r)]" r "dropped ?d"] n False r ro by simp
  qed
qed

lemma strip_simps [simp]: "strip (strip a) = strip a" "strip (set_port p a) = strip a" "strip (a\<lparr>sin_port := p\<rparr>) = strip a"
  by (simp_all add: strip_def set_port_def)

lemma cache_lookup_ok:
  assumes "cache_ok d" "cache_lookup (op_host (ops d ! n)) port d = Some r"
  shows "result_ok d n r"
proof -
  obtain cs e where c: "cache d (op_host (ops d ! n)) = Some (cs, e)" "r = Inr (map (set_port (htons port)) cs)"
    using assms(2) by (auto simp: cache_lookup_def split: if_splits option.splits)
  then obtain bs where "cs \<noteq> []" "(op_host (ops d ! n), bs) \<in> set (answers d)" "cs = map strip bs" using assms(1) unfolding cache_ok_def by blast
  then show ?thesis using c(2) by (auto simp: result_ok_def intro!: exI[of _ bs])
qed

lemma result_requested [simp]: "op_requested (ops d ! n) \<Longrightarrow> result_ok d n (Inl OpCancelled)"
  by (simp add: result_ok_def)

lemma result_set_op:
  assumes "n < length (ops d)" "result_ok d n r" "same_op (ops d ! n) x"
  shows "result_ok (set_op n x d) n r"
  by (rule result_ok_mono[OF assms(2)]) (use assms in simp_all)

lemma pc_results:
  assumes "dns_inv {} d" "n < length (ops d)" "r \<in> caller_results (op_caller (ops d ! n)) \<union> cancel_results (op_cancel (ops d ! n))"
  shows "result_ok d n r"
proof -
  have "(n, r) \<in> in_flight d" using assms(2,3) by (auto simp: in_flight_def)
  then show ?thesis using dns_invD(2)[OF assms(1)] by (auto simp: results_ok_def)
qed

text \<open>The caller moves to another position, and what it carries there is a good result.\<close>

lemma caller_move:
  assumes inv: "dns_inv {} d" and n: "n < length (ops d)"
    and x: "x = (ops d ! n)\<lparr>op_caller := pc, op_registration := b\<rparr> \<or> x = (ops d ! n)\<lparr>op_caller := pc\<rparr>"
    and pc: "\<And>r. r \<in> caller_results pc \<Longrightarrow> result_ok d n r"
    and bz: "\<not> calling pc \<Longrightarrow> \<not> op_completed (ops d ! n) \<Longrightarrow> n \<in> set (requestQueue d) \<or> queued_result d n"
  shows "dns_inv {} (set_op n x d)"
proof -
  have same: "same_op (ops d ! n) x" using x by (auto simp: same_op_def)
  have pcs: "op_caller x = pc" "op_cancel x = op_cancel (ops d ! n)" "op_loop x = op_loop (ops d ! n)" using x by auto
  show ?thesis
  proof (rule inv_set_op[OF inv _ n same])
    fix r assume "r \<in> caller_results (op_caller x) \<union> cancel_results (op_cancel x)"
    then have "result_ok d n r" using pc pc_results[OF inv n] pcs by auto
    then show "result_ok (set_op n x d) n r" by (rule result_set_op[OF n _ same])
  next
    assume "\<not> op_completed x"
    then have "\<not> op_completed (ops d ! n)" using x by auto
    then show "busy (set_op n x d) n" using bz pcs n by (cases "calling pc") (auto simp: busy_def queued_result_def)
  qed (use x in auto)
qed

lemma cancel_move:
  assumes inv: "dns_inv {} d" and n: "n < length (ops d)" and x: "x = (ops d ! n)\<lparr>op_cancel := pc\<rparr>"
    and pc: "\<And>r. r \<in> cancel_results pc \<Longrightarrow> result_ok d n r"
    and bz: "cancel_results pc = {} \<Longrightarrow> \<not> op_completed (ops d ! n) \<Longrightarrow> busy (d\<lparr>ops := (ops d)[n := x]\<rparr>) n"
  shows "dns_inv {} (set_op n x d)"
proof -
  have same: "same_op (ops d ! n) x" using x by (auto simp: same_op_def)
  show ?thesis
  proof (rule inv_set_op[OF inv _ n same])
    fix r assume "r \<in> caller_results (op_caller x) \<union> cancel_results (op_cancel x)"
    then have "result_ok d n r" using pc pc_results[OF inv n] x by auto
    then show "result_ok (set_op n x d) n r" by (rule result_set_op[OF n _ same])
  next
    assume "\<not> op_completed x"
    then show "busy (set_op n x d) n"
      using bz x n by (cases "cancel_results pc = {}") (auto simp: busy_def queued_result_def set_op_def)
  qed (use x in auto)
qed

lemma inv_enqueue: "dns_inv {} d \<Longrightarrow> n < length (ops d) \<Longrightarrow> dns_inv {} (d\<lparr>requestQueue := requestQueue d @ [n]\<rparr>)"
proof -
  assume inv: "dns_inv {} d" and n: "n < length (ops d)"
  let ?d = "d\<lparr>requestQueue := requestQueue d @ [n]\<rparr>"
  note i = dns_invD[OF inv]
  have ro: "result_ok ?d = result_ok d" by (intro ext) (simp add: result_ok_def split: sum.split)
  have "in_flight ?d = in_flight d" by (simp add: in_flight_def)
  then have "results_ok ?d" using i(2) unfolding results_ok_def ro cache_ok_def by auto
  moreover have "ids_ok ?d" using i(1) n by (auto simp: ids_ok_def)
  moreover have "once_ok ?d" using i(3) by (simp add: once_ok_def ended_def)
  moreover have "busy_ok {} ?d" using i(4) by (auto simp: busy_ok_def busy_def queued_result_def)
  ultimately show ?thesis by (simp add: dns_inv_def)
qed

lemma caller_step_inv:
  assumes inv: "dns_inv {} d" and n: "n < length (ops d)"
  shows "dns_inv {} (caller_step n d)"
proof (cases "op_caller (ops d ! n)")
  case RToken
  then show ?thesis using n by (auto simp: Let_def intro!: caller_move[OF inv n])
next
  case RRegister
  let ?x = "(ops d ! n)\<lparr>op_caller := RInstall, op_cancel := (if op_requested (ops d ! n) then CPost (PLoad (Inl OpCancelled)) else CRegistered)\<rparr>"
  have "dns_inv {} (set_op n ?x d)"
    by (rule inv_set_op[OF inv _ n]) (auto simp: same_op_def busy_def n intro: result_set_op[OF n] split: if_splits)
  then show ?thesis using RRegister by (simp add: Let_def)
next
  case RInstall
  have "dns_inv {} (set_op n ((installRegistration (ops d ! n))\<lparr>op_caller := RCheck\<rparr>) d)"
    by (rule caller_move[OF inv n, where b = True and pc = RCheck]) (auto simp: installRegistration_def)
  then show ?thesis using RInstall by (simp add: Let_def)
next
  case RCheck
  then show ?thesis using n by (auto simp: Let_def intro!: caller_move[OF inv n])
next
  case RCache
  have c: "cache_ok d" using dns_invD(2)[OF inv] by (simp add: results_ok_def)
  have "dns_inv {} (set_op n ((ops d ! n)\<lparr>op_caller := (case cache_lookup (op_host (ops d ! n)) (op_port (ops d ! n)) d of
      Some r \<Rightarrow> RPost (PLoad r) | None \<Rightarrow> REnqueue)\<rparr>) d)"
    by (rule caller_move[OF inv n disjI2, OF refl]) (use cache_lookup_ok[OF c] in \<open>auto split: option.splits\<close>)
  then show ?thesis using RCache by (simp add: Let_def)
next
  case REnqueue
  let ?d = "d\<lparr>requestQueue := requestQueue d @ [n]\<rparr>"
  have "dns_inv {} (set_op n ((ops ?d ! n)\<lparr>op_caller := RNotify\<rparr>) ?d)"
    by (rule caller_move[OF inv_enqueue[OF inv n]]) (use n in auto)
  moreover have "(set_op n x d)\<lparr>requestQueue := q\<rparr> = set_op n x (d\<lparr>requestQueue := q\<rparr>)" for x q by (cases d) (simp add: set_op_def)
  ultimately show ?thesis using REnqueue by (simp add: Let_def)
next
  case RNotify
  then show ?thesis using inv by (simp add: Let_def)
next
  case (RPost p)
  obtain q d' where st: "post_step n p d = (q, d')" by fastforce
  have r: "result_ok d n (post_result p)" using pc_results[OF inv n] RPost by simp
  note s = post_inv[OF inv n r st]
  have inv': "dns_inv {} d'" and n': "n < length (ops d')" using s n by auto
  have ok: "result_ok d' n (post_result p)" by (rule result_ok_mono[OF r]) (use s in auto)
  show ?thesis
  proof (cases q)
    case None
    have "dns_inv {} (set_op n ((ops d' ! n)\<lparr>op_caller := RDone\<rparr>) d')" by (rule caller_move[OF inv' n']) (use s None in auto)
    then show ?thesis using RPost st None by (simp add: Let_def)
  next
    case (Some p')
    have "dns_inv {} (set_op n ((ops d' ! n)\<lparr>op_caller := RPost p'\<rparr>) d')" by (rule caller_move[OF inv' n']) (use s Some ok in auto)
    then show ?thesis using RPost st Some by (simp add: Let_def)
  qed
next
  case RDone
  then show ?thesis using inv by (simp add: Let_def)
qed

lemma cancel_step_inv:
  assumes inv: "dns_inv {} d" and n: "n < length (ops d)"
  shows "dns_inv {} (cancel_step n d)"
proof (cases "op_cancel (ops d ! n)")
  case CRegistered
  have "dns_inv {} (set_op n ((ops d ! n)\<lparr>op_cancel := CPost (PLoad (Inl OpCancelled))\<rparr>) d)" if "op_requested (ops d ! n)"
    by (rule cancel_move[OF inv n refl]) (use that in auto)
  then show ?thesis using CRegistered inv by (simp add: Let_def)
next
  case (CPost p)
  obtain q d' where st: "post_step n p d = (q, d')" by fastforce
  have r: "result_ok d n (post_result p)" using pc_results[OF inv n] CPost by simp
  note s = post_inv[OF inv n r st]
  have inv': "dns_inv {} d'" and n': "n < length (ops d')" using s n by auto
  have ok: "result_ok d' n (post_result p)" by (rule result_ok_mono[OF r]) (use s in auto)
  show ?thesis
  proof (cases q)
    case None
    have "dns_inv {} (set_op n ((ops d' ! n)\<lparr>op_cancel := CDone\<rparr>) d')"
      by (rule cancel_move[OF inv' n' refl]) (use s None n' in \<open>auto simp: busy_def queued_result_def\<close>)
    then show ?thesis using CPost st None by (simp add: Let_def)
  next
    case (Some p')
    have "dns_inv {} (set_op n ((ops d' ! n)\<lparr>op_cancel := CPost p'\<rparr>) d')"
      by (rule cancel_move[OF inv' n' refl]) (use s Some ok in auto)
    then show ?thesis using CPost st Some by (simp add: Let_def)
  qed
qed (use inv in \<open>simp_all add: Let_def\<close>)

lemma getaddrinfo_result_cases:
  "getaddrinfo_result res = (r, cs) \<Longrightarrow> r = Inl ResolveFailed \<and> cs = [] \<or> (\<exists>as. r = Inr as \<and> as \<noteq> [] \<and> cs = map strip as)"
  by (auto simp: getaddrinfo_result_def collect_addresses_def strip_def split: option.splits if_splits)

lemma inv_answers: "dns_inv N d \<Longrightarrow> dns_inv N (d\<lparr>answers := answers d @ xs\<rparr>)"
proof -
  assume inv: "dns_inv N d"
  let ?d = "d\<lparr>answers := answers d @ xs\<rparr>"
  note i = dns_invD[OF inv]
  have "result_ok ?d n r" if "result_ok d n r" for n r by (rule result_ok_mono[OF that]) (simp_all add: same_op_def)
  moreover have "in_flight ?d = in_flight d" by (simp add: in_flight_def)
  moreover have "cache_ok ?d" by (rule cache_mono[of d]) (use i(2) in \<open>auto simp: results_ok_def same_op_def\<close>)
  ultimately have "results_ok ?d" using i(2) by (auto simp: results_ok_def)
  then show ?thesis using i by (simp add: dns_inv_def ids_ok_def once_ok_def ended_def busy_ok_def busy_def queued_result_def)
qed

lemma store_cache_inv:
  assumes inv: "dns_inv {} d" and cs: "cs \<noteq> [] \<Longrightarrow> \<exists>bs. (h, bs) \<in> set (answers d) \<and> cs = map strip bs"
  shows "dns_inv {} (store_cache h cs d)"
proof (cases "cacheEnabled d \<and> cs \<noteq> []")
  case True
  let ?d = "d\<lparr>cache := (cache d)(h \<mapsto> (cs, clock d + cacheTtl d))\<rparr>"
  note i = dns_invD[OF inv]
  have ro: "result_ok ?d = result_ok d" by (intro ext) (simp add: result_ok_def split: sum.split)
  have "in_flight ?d = in_flight d" by (simp add: in_flight_def)
  moreover have "cache_ok ?d" using i(2) True cs by (auto simp: results_ok_def cache_ok_def)
  ultimately have "results_ok ?d" using i(2) unfolding results_ok_def ro by simp
  then show ?thesis
    using i True by (simp add: store_cache_def dns_inv_def ids_ok_def once_ok_def ended_def busy_ok_def busy_def queued_result_def)
qed (use inv in \<open>auto simp: store_cache_def\<close>)

lemma store_cache_simps [simp]:
  "ops (store_cache h cs d) = ops d" "workers (store_cache h cs d) = workers d" "answers (store_cache h cs d) = answers d"
  by (simp_all add: store_cache_def)

lemma worker_holds:
  assumes "dns_inv {} d" "w < length (workers d)" "holds (workers d ! w) = Some n"
  shows "n < length (ops d)" "\<And>r. (n, r) \<in> worker_results (workers d ! w) \<Longrightarrow> result_ok d n r"
proof -
  show "n < length (ops d)" using dns_invD(1)[OF assms(1)] assms(2,3) by (auto simp: ids_ok_def)
  show "result_ok d n r" if "(n, r) \<in> worker_results (workers d ! w)" for r
  proof -
    have "(n, r) \<in> in_flight d" using that assms(2) by (auto simp: in_flight_def)
    then show ?thesis using dns_invD(2)[OF assms(1)] by (auto simp: results_ok_def)
  qed
qed

lemma worker_step_inv:
  assumes inv: "dns_inv {} d" and w: "w < length (workers d)"
  shows "dns_inv {} (worker_step w res d)"
proof (cases "workers d ! w")
  case WWait
  show ?thesis
  proof (cases "requestQueue d")
    case Nil
    have "dns_inv {} (set_worker w (if dns_stopping d then WExit else WAsleep) d)"
      by (rule inv_set_worker[OF inv w]) (use WWait in \<open>auto split: if_splits\<close>)
    then show ?thesis using WWait Nil by simp
  next
    case (Cons n ns)
    let ?d = "d\<lparr>requestQueue := ns\<rparr>"
    note i = dns_invD[OF inv]
    have ro: "result_ok ?d = result_ok d" by (intro ext) (simp add: result_ok_def split: sum.split)
    have "in_flight ?d = in_flight d" by (simp add: in_flight_def)
    then have "results_ok ?d" using i(2) unfolding results_ok_def ro cache_ok_def by auto
    moreover have "ids_ok ?d" using i(1) Cons by (auto simp: ids_ok_def)
    moreover have "once_ok ?d" using i(3) by (simp add: once_ok_def ended_def)
    moreover have "busy ?d m" if "busy d m" "m \<noteq> n" for m using that Cons by (auto simp: busy_def queued_result_def)
    then have "busy_ok {n} ?d" using i(4) by (simp add: busy_ok_def)
    ultimately have inv': "dns_inv {n} ?d" by (simp add: dns_inv_def)
    have n: "n < length (ops d)" using i(1) Cons by (simp add: ids_ok_def)
    have "dns_inv {} (set_worker w (WTaken n) ?d)"
      by (rule inv_set_worker[OF inv']) (use w n WWait in auto)
    then show ?thesis using WWait Cons by simp
  qed
next
  case (WTaken n)
  have n: "n < length (ops d)" using worker_holds(1)[OF inv w] WTaken by simp
  show ?thesis
  proof (cases "op_completed (ops d ! n)")
    case True
    have "dns_inv {} (set_worker w WWait d)" by (rule inv_set_worker[OF inv w]) (use WTaken True in auto)
    then show ?thesis using WTaken True by simp
  next
    case False
    obtain r cs where g: "getaddrinfo_result res = (r, cs)" by fastforce
    let ?xs = "case r of Inr as \<Rightarrow> [(op_host (ops d ! n), as)] | Inl _ \<Rightarrow> []"
    let ?d = "d\<lparr>answers := answers d @ ?xs\<rparr>"
    have eq: "worker_step w res d = set_worker w (WStore n r cs) ?d" using WTaken False g by (cases r) (simp_all add: set_worker_def)
    have ok: "result_ok ?d n r" "cs \<noteq> [] \<Longrightarrow> \<exists>bs. (op_host (ops ?d ! n), bs) \<in> set (answers ?d) \<and> cs = map strip bs"
      using getaddrinfo_result_cases[OF g] by (auto simp: result_ok_def)
    have "dns_inv {} (set_worker w (WStore n r cs) ?d)"
      by (rule inv_set_worker[OF inv_answers[OF inv]]) (use w n WTaken ok in auto)
    then show ?thesis by (simp only: eq)
  qed
next
  case (WStore n r cs)
  let ?d = "store_cache (op_host (ops d ! n)) cs d"
  have n: "n < length (ops d)" "result_ok d n r" using worker_holds[OF inv w, of n] WStore by auto
  have "WStore n r cs \<in> set (workers d)" using w WStore by (metis nth_mem)
  then have "cs \<noteq> [] \<Longrightarrow> \<exists>bs. (op_host (ops d ! n), bs) \<in> set (answers d) \<and> cs = map strip bs"
    using dns_invD(2)[OF inv] unfolding results_ok_def cache_ok_def by blast
  then have inv': "dns_inv {} ?d" by (rule store_cache_inv[OF inv])
  have ok: "result_ok ?d n r" by (rule result_ok_mono[OF n(2)]) (simp_all add: same_op_def)
  have "dns_inv {} (set_worker w (WPost n (PLoad r)) ?d)"
    by (rule inv_set_worker[OF inv']) (use w n WStore ok in auto)
  then show ?thesis using WStore by simp
next
  case (WPost n p)
  obtain q d' where st: "post_step n p d = (q, d')" by fastforce
  have n: "n < length (ops d)" and r: "result_ok d n (post_result p)" using worker_holds[OF inv w, of n] WPost by auto
  note s = post_inv[OF inv n r st]
  have inv': "dns_inv {} d'" and w': "w < length (workers d')" "workers d' ! w = WPost n p" "n < length (ops d')" using s w n WPost by auto
  have ok: "result_ok d' n (post_result p)" by (rule result_ok_mono[OF r]) (use s in auto)
  show ?thesis
  proof (cases q)
    case None
    have "dns_inv {} (set_worker w WWait d')"
      by (rule inv_set_worker[OF inv' w'(1)]) (use s None w' in \<open>auto simp: busy_def queued_result_def\<close>)
    then show ?thesis using WPost st None by simp
  next
    case (Some p')
    have "dns_inv {} (set_worker w (WPost n p') d')"
      by (rule inv_set_worker[OF inv' w'(1)]) (use s Some ok w' in auto)
    then show ?thesis using WPost st Some by simp
  qed
qed (use inv in simp_all)

lemma wake_simps [simp]: "holds (wake pc) = holds pc" "worker_results (wake pc) = worker_results pc"
  "wake pc = WStore n r cs \<longleftrightarrow> pc = WStore n r cs" "wake pc \<noteq> WAsleep" "WStore n r cs = wake pc \<longleftrightarrow> pc = WStore n r cs"
  by (auto simp: wake_def)

lemma wake_inv:
  assumes "dns_inv {} d" "w < length (workers d)"
  shows "dns_inv {} (set_worker w (wake (workers d ! w)) d)"
proof (cases "workers d ! w = WAsleep")
  case True
  show ?thesis by (rule inv_set_worker[OF assms]) (use True in \<open>auto simp: wake_def\<close>)
qed (use assms in \<open>simp add: wake_def set_worker_def\<close>)

lemma notify_one_inv:
  assumes inv: "dns_inv {} d" and n: "n < length (ops d)"
  shows "dns_inv {} (notify_one n w d)"
proof -
  let ?x = "(ops d ! n)\<lparr>op_caller := RDone\<rparr>"
  have s: "same_op (ops d ! n) ?x" by (simp add: same_op_def)
  have "dns_inv {} (set_op n ?x d)" if "op_caller (ops d ! n) = RNotify"
  proof (rule inv_set_op[OF inv _ n s])
    show "result_ok (set_op n ?x d) n r" if "r \<in> caller_results (op_caller ?x) \<union> cancel_results (op_cancel ?x)" for r
      by (rule result_set_op[OF n pc_results[OF inv n] s]) (use that in simp)
    show "busy (set_op n ?x d) n" if "\<not> op_completed ?x"
    proof -
      have "busy d n" using that dns_invD(4)[OF inv] n by (simp add: busy_ok_def)
      then show ?thesis using n \<open>op_caller (ops d ! n) = RNotify\<close> by (auto simp: busy_def queued_result_def)
    qed
  qed simp_all
  then show ?thesis using inv wake_inv[of "set_op n ?x d" w] by (auto simp: notify_one_def Let_def wake_def)
qed

lemma notify_all_inv:
  assumes inv: "dns_inv {} d"
  shows "dns_inv {} (dns_notify_all d)"
proof -
  let ?d = "d\<lparr>workers := map wake (workers d), stop_notify := False\<rparr>"
  note i = dns_invD[OF inv]
  have ro: "result_ok ?d = result_ok d" by (intro ext) (simp add: result_ok_def split: sum.split)
  have w: "holds ` set (map wake (workers d)) = holds ` set (workers d)"
    "\<Union> (worker_results ` set (map wake (workers d))) = \<Union> (worker_results ` set (workers d))"
    "WStore n r cs \<in> set (map wake (workers d)) \<longleftrightarrow> WStore n r cs \<in> set (workers d)" for n r cs
    by (auto simp: image_image image_iff)
  have "in_flight ?d = in_flight d" using w(2) by (simp add: in_flight_def)
  moreover have "cache_ok d" using i(2) by (simp add: results_ok_def)
  then have "cache_ok ?d" unfolding cache_ok_def using w(3) by (simp del: set_map) blast
  ultimately have "results_ok ?d" using i(2) unfolding results_ok_def ro by simp
  moreover have "ids_ok ?d" using i(1) by (auto simp: ids_ok_def)
  moreover have "busy_ok {} ?d" using i(4) w(1) by (simp add: busy_ok_def busy_def queued_result_def del: set_map)
  ultimately show ?thesis using inv i(3) by (simp add: dns_notify_all_def dns_inv_def once_ok_def ended_def)
qed

lemma new_op_inv:
  assumes inv: "dns_inv {} d"
  shows "dns_inv {} (d\<lparr>ops := ops d @ [new_operation h p l t]\<rparr>)" (is "dns_inv _ ?d")
proof -
  note i = dns_invD[OF inv]
  have old: "ops ?d ! m = ops d ! m" if "m < length (ops d)" for m using that by (simp add: nth_append)
  have new: "ops ?d ! length (ops d) = new_operation h p l t" by (simp add: nth_append)
  have rr: "caller_results (op_caller (new_operation h p l t)) = {}" "cancel_results (op_cancel (new_operation h p l t)) = {}"
    by (simp_all add: new_operation_def)
  have fl: "m < length (ops d) \<and> result_ok d m r" if "(m, r) \<in> in_flight ?d" for m r
  proof -
    have "(m, r) \<in> in_flight d" using that old new rr by (auto simp: in_flight_def nth_append less_Suc_eq split: if_splits)
    then show ?thesis using i(2) by (auto simp: results_ok_def)
  qed
  have "cache_ok ?d"
  proof -
    have "n < length (ops d)" if "WStore n r cs \<in> set (workers d)" for n r cs
      using i(1) that unfolding ids_ok_def by (metis holds.simps(2))
    then show ?thesis using i(2) by (auto simp: results_ok_def cache_ok_def nth_append)
  qed
  moreover have ro: "result_ok ?d m r" if "result_ok d m r" "m < length (ops d)" for m r
    by (rule result_ok_mono[OF that(1)]) (use that(2) in \<open>simp_all add: nth_append same_op_def\<close>)
  moreover have "m < length (ops ?d) \<and> result_ok ?d m r" if "(m, r) \<in> in_flight ?d" for m r using fl[OF that] ro[of m r] by simp
  ultimately have "results_ok ?d" unfolding results_ok_def by blast
  moreover have "ids_ok ?d" using i(1) unfolding ids_ok_def by (fastforce simp: nth_append less_SucI)
  moreover have "n < length (ops d)" if "n \<in> set (dropped d)" for n
  proof -
    have "count_list (ended d) n \<noteq> 0" using that by (simp add: ended_def count_list_0_iff)
    then show ?thesis using i(3) unfolding once_ok_def by metis
  qed
  then have "once_ok ?d"
    using i(3) unfolding once_ok_def
    by (auto simp: nth_append ended_def less_Suc_eq new_operation_def split: if_splits)
  moreover have "busy_ok {} ?d" using i(4) by (auto simp: busy_ok_def busy_def queued_result_def nth_append less_Suc_eq new_operation_def)
  ultimately show ?thesis by (simp add: dns_inv_def)
qed

lemma request_cancel_inv:
  assumes inv: "dns_inv {} d" and n: "n < length (ops d)"
  shows "dns_inv {} (set_op n ((ops d ! n)\<lparr>op_requested := True\<rparr>) d)"
proof (rule inv_set_op[OF inv _ n])
  let ?x = "(ops d ! n)\<lparr>op_requested := True\<rparr>"
  show s: "same_op (ops d ! n) ?x" by (simp add: same_op_def)
  show "result_ok (set_op n ?x d) n r" if "r \<in> caller_results (op_caller ?x) \<union> cancel_results (op_cancel ?x)" for r
    by (rule result_set_op[OF n pc_results[OF inv n] s]) (use that in simp)
  show "busy (set_op n ?x d) n" if "\<not> op_completed ?x"
    using that dns_invD(4)[OF inv] n by (simp add: busy_ok_def busy_def queued_result_def)
qed simp_all

lemma env_inv:
  assumes inv: "dns_inv {} d"
    and d: "e = d\<lparr>loop_open := (loop_open d)(l := False)\<rparr> \<or> e = enableCache ttl d \<or> e = clearCache d \<or> e = d\<lparr>clock := t\<rparr> \<or> e = dns_stop d"
  shows "dns_inv {} e"
proof -
  note i = dns_invD[OF inv]
  have f: "ops e = ops d" "workers e = workers d" "requestQueue e = requestQueue d" "loop_tasks e = loop_tasks d"
    "delivered e = delivered d" "dropped e = dropped d" "answers e = answers d"
    using d by (auto simp: enableCache_def clearCache_def dns_stop_def)
  have ro: "result_ok e = result_ok d" by (intro ext) (simp add: result_ok_def f split: sum.split)
  have "cache e = cache d \<or> cache e = Map.empty" using d by (auto simp: enableCache_def clearCache_def dns_stop_def)
  moreover have "cache_ok d" using i(2) by (simp add: results_ok_def)
  ultimately have "cache_ok e"
  proof (elim disjE)
    assume "cache_ok d" "cache e = cache d"
    then show ?thesis using cache_mono[of d e] by (simp add: f same_op_def)
  next
    assume a: "cache_ok d" and e: "cache e = Map.empty"
    from a[unfolded cache_ok_def, THEN conjunct2] show ?thesis unfolding cache_ok_def f e by (rule conjI[rotated]) simp
  qed
  moreover have "in_flight e = in_flight d" by (simp add: in_flight_def f)
  ultimately have "results_ok e" using i(2) unfolding results_ok_def ro by (simp add: f)
  moreover have "loop_open e m \<Longrightarrow> loop_open d m" for m
    using d by (auto simp: enableCache_def clearCache_def dns_stop_def split: if_splits)
  then have "once_ok e" using i(3) by (auto simp: once_ok_def ended_def f)
  ultimately show ?thesis using i by (simp add: dns_inv_def ids_ok_def busy_ok_def busy_def queued_result_def f)
qed

lemma dns_step_inv:
  assumes inv: "dns_inv {} d"
  shows "dns_inv {} (dns_step ev d)"
proof (cases ev)
  case (DResolve h p l cb t)
  then show ?thesis using inv new_op_inv[OF inv] by (auto simp: resolve_def split: option.split)
next
  case (DLoop l)
  show ?thesis
  proof (cases "loop_tasks d l")
    case (Cons a ts)
    obtain n r where "a = (n, r)" by fastforce
    then show ?thesis using deliver_inv[OF inv, of l n r ts] Cons DLoop by simp
  qed (use inv DLoop in simp)
next
  case (DClose l)
  then show ?thesis using env_inv[OF inv] by auto
next
  case (DEnable ttl)
  then show ?thesis using env_inv[OF inv, of "enableCache ttl d" 0 ttl] by simp
next
  case DClear
  then show ?thesis using env_inv[OF inv, of "clearCache d"] by simp
next
  case (DTick t)
  then show ?thesis using env_inv[OF inv] inv by auto
next
  case DStop
  then show ?thesis using env_inv[OF inv, of "dns_stop d"] by simp
qed (use inv caller_step_inv[OF inv] cancel_step_inv[OF inv] worker_step_inv[OF inv] request_cancel_inv[OF inv]
    wake_inv[OF inv] notify_one_inv[OF inv] notify_all_inv[OF inv] in \<open>auto simp del: caller_step.simps cancel_step.simps worker_step.simps\<close>)

lemma dns_run_inv: "dns_inv {} d \<Longrightarrow> dns_inv {} (dns_run es d)"
  unfolding dns_run_def by (induction es arbitrary: d) (simp_all add: dns_step_inv del: dns_step.simps)

lemma DnsResolver_inv: "DnsResolver opts = Inr d \<Longrightarrow> dns_inv {} d"
  by (auto simp: DnsResolver_def bind_res_Inr dns_inv_def ids_ok_def results_ok_def in_flight_def cache_ok_def once_ok_def ended_def
      busy_ok_def)

section \<open>Sleeping workers\<close>

text \<open>No notification is missed: requests wait only while a worker is awake or a call of \<open>resolve\<close> is about to notify one, and nobody
  sleeps once the destructor has notified.\<close>

definition queue_ok :: "dns \<Rightarrow> bool" where
  "queue_ok d \<longleftrightarrow> workers d \<noteq> [] \<and>
     (requestQueue d \<noteq> [] \<and> \<not> dns_stopping d \<longrightarrow> set (workers d) \<noteq> {WAsleep} \<or> (\<exists>x \<in> set (ops d). op_caller x = RNotify)) \<and>
     (\<not> dns_stopping d \<longrightarrow> WExit \<notin> set (workers d)) \<and> (dns_stopping d \<and> WAsleep \<in> set (workers d) \<longrightarrow> stop_notify d)"

text \<open>A step that does not touch the queue and the workers and notifies nobody.\<close>

lemma queue_ok_frame:
  assumes "queue_ok d" "workers e = workers d" "requestQueue e = requestQueue d" "dns_stopping e = dns_stopping d" "stop_notify e = stop_notify d"
    and "\<And>m. m < length (ops d) \<Longrightarrow> m < length (ops e) \<and> (op_caller (ops d ! m) = RNotify \<longrightarrow> op_caller (ops e ! m) = RNotify)"
  shows "queue_ok e"
proof -
  have "\<exists>x \<in> set (ops e). op_caller x = RNotify" if "\<exists>x \<in> set (ops d). op_caller x = RNotify"
    using that assms(6) by (metis in_set_conv_nth)
  then show ?thesis using assms(1-5) by (auto simp: queue_ok_def)
qed

lemma stop_notify_simps [simp]: "stop_notify (set_op n x d) = stop_notify d" "stop_notify (set_worker w pc d) = stop_notify d"
  by (simp_all add: set_op_def set_worker_def)

lemma takeCallback_caller: "op_caller (snd (takeCallback x)) = op_caller x"
  by (simp add: takeCallback_def)

lemma set_op_caller:
  "op_caller x = op_caller (ops d ! n) \<Longrightarrow> op_caller ((ops d)[n := x] ! m) = op_caller (ops d ! m)"
  by (cases "n < length (ops d)") (auto simp: nth_list_update list_update_beyond not_less)

lemma post_step_frame:
  assumes "post_step n p d = (q, e)"
  shows "workers e = workers d" "requestQueue e = requestQueue d" "dns_stopping e = dns_stopping d" "stop_notify e = stop_notify d"
    "length (ops e) = length (ops d)" "op_caller (ops e ! m) = op_caller (ops d ! m)"
  using assms takeCallback_caller[of "ops d ! n"]
  by (cases p; auto simp: Let_def set_op_caller split: if_splits prod.splits)+

lemma caller_step_queue:
  assumes "queue_ok d" "n < length (ops d)"
  shows "queue_ok (caller_step n d)"
proof (cases "op_caller (ops d ! n)")
  case REnqueue
  let ?x = "(ops d ! n)\<lparr>op_caller := RNotify\<rparr>"
  have "?x \<in> set ((ops d)[n := ?x])" using assms(2) by (rule set_update_memI)
  then have "\<exists>x \<in> set ((ops d)[n := ?x]). op_caller x = RNotify" by (rule rev_bexI) simp
  then show ?thesis using assms(1) REnqueue by (simp add: queue_ok_def Let_def)
next
  case (RPost p)
  obtain q e where st: "post_step n p d = (q, e)" by fastforce
  note f = post_step_frame[OF st]
  show ?thesis
    by (rule queue_ok_frame[OF assms(1)]) (use RPost st f assms(2) in \<open>auto simp: Let_def nth_list_update split: option.split\<close>)
next
  case RNotify
  then show ?thesis using assms by (simp add: Let_def)
qed (rule queue_ok_frame[OF assms(1)], use assms(2) in \<open>auto simp: Let_def nth_list_update\<close>)+

lemma cancel_step_queue:
  assumes "queue_ok d" "n < length (ops d)"
  shows "queue_ok (cancel_step n d)"
proof (cases "op_cancel (ops d ! n)")
  case (CPost p)
  obtain q e where st: "post_step n p d = (q, e)" by fastforce
  note f = post_step_frame[OF st]
  show ?thesis
    by (rule queue_ok_frame[OF assms(1)]) (use CPost st f assms(2) in \<open>auto simp: Let_def nth_list_update split: option.split\<close>)
qed (rule queue_ok_frame[OF assms(1)], use assms(2) in \<open>auto simp: Let_def nth_list_update\<close>)+

lemma queue_ok_worker:
  assumes "queue_ok d" "w < length (workers d)" "pc \<noteq> WAsleep" "pc = WExit \<Longrightarrow> dns_stopping d"
  shows "queue_ok (set_worker w pc d)"
proof -
  have "pc \<in> set ((workers d)[w := pc])" using assms(2) by (rule set_update_memI)
  then have "set ((workers d)[w := pc]) \<noteq> {WAsleep}" using assms(3) by auto
  then show ?thesis using assms set_update_subset_insert[of "workers d" w pc] by (auto simp: queue_ok_def)
qed

lemma worker_step_queue:
  assumes "queue_ok d" "w < length (workers d)"
  shows "queue_ok (worker_step w res d)"
proof (cases "workers d ! w")
  case WWait
  show ?thesis
  proof (cases "requestQueue d")
    case Nil
    have "set ((workers d)[w := WAsleep]) \<subseteq> insert WAsleep (set (workers d))" by (rule set_update_subset_insert)
    then have "queue_ok (set_worker w WAsleep d)" if "\<not> dns_stopping d" using assms(1) Nil that by (auto simp: queue_ok_def)
    then show ?thesis using WWait Nil queue_ok_worker[OF assms, of WExit] by simp
  next
    case (Cons n ns)
    have "queue_ok (d\<lparr>requestQueue := ns\<rparr>)" using assms(1) Cons by (auto simp: queue_ok_def)
    then show ?thesis using WWait Cons queue_ok_worker[of "d\<lparr>requestQueue := ns\<rparr>" w "WTaken n"] assms(2) by simp
  qed
next
  case (WTaken n)
  have q: "queue_ok (d\<lparr>answers := xs\<rparr>)" for xs by (rule queue_ok_frame[OF assms(1)]) simp_all
  show ?thesis
    using WTaken queue_ok_worker[OF assms] queue_ok_worker[OF q] assms by (auto split: prod.split sum.split)
next
  case (WStore n r cs)
  have "queue_ok (store_cache (op_host (ops d ! n)) cs d)" by (rule queue_ok_frame[OF assms(1)]) (simp_all add: store_cache_def)
  then show ?thesis using WStore queue_ok_worker[of "store_cache (op_host (ops d ! n)) cs d" w "WPost n (PLoad r)"] assms(2) by simp
next
  case (WPost n p)
  obtain q e where st: "post_step n p d = (q, e)" by fastforce
  have "queue_ok e" by (rule queue_ok_frame[OF assms(1)]) (use post_step_frame[OF st] in simp_all)
  then show ?thesis using WPost st post_step_frame(1)[OF st] queue_ok_worker[of e w] assms(2) by (auto split: option.split)
qed (use assms in simp_all)

lemma notify_one_queue:
  assumes "queue_ok d" "n < length (ops d)"
  shows "queue_ok (notify_one n w d)"
proof -
  let ?x = "(ops d ! n)\<lparr>op_caller := RDone\<rparr>"
  have "queue_ok (set_op n ?x d)" if "WAsleep \<notin> set (workers d)" using assms(1) that by (auto simp: queue_ok_def)
  moreover have "queue_ok (set_worker w WWait (set_op n ?x d))" if "w < length (workers d)"
  proof -
    have "WWait \<in> set ((workers d)[w := WWait])" using that by (rule set_update_memI)
    then have "set ((workers d)[w := WWait]) \<noteq> {WAsleep}" by auto
    then show ?thesis using assms(1) set_update_subset_insert[of "workers d" w WWait] by (auto simp: queue_ok_def)
  qed
  ultimately show ?thesis using assms(1) by (simp add: notify_one_def Let_def)
qed

lemma dns_step_queue:
  assumes q: "queue_ok d"
  shows "queue_ok (dns_step ev d)"
proof (cases ev)
  case (DResolve h p l cb t)
  have "queue_ok (d\<lparr>ops := ops d @ [x]\<rparr>)" for x by (rule queue_ok_frame[OF q]) (simp_all add: nth_append)
  then show ?thesis using DResolve q by (auto simp: resolve_def split: option.split)
next
  case (DLoop l)
  have "queue_ok (deliver n r (d\<lparr>loop_tasks := ts\<rparr>))" for n r ts
    by (rule queue_ok_frame[OF q]) (use takeCallback_caller[of "ops d ! n"] in \<open>auto simp: deliver_def set_op_caller split: prod.split bool.split\<close>)
  then show ?thesis using DLoop q by (auto split: list.split)
next
  case (DCancelRequest n)
  have "queue_ok (set_op n ((ops d ! n)\<lparr>op_requested := True\<rparr>) d)" by (rule queue_ok_frame[OF q]) (simp_all add: set_op_caller)
  then show ?thesis using DCancelRequest q by simp
next
  case DNotifyAll
  have "wake ` set (workers d) \<noteq> {WAsleep}" "WAsleep \<notin> wake ` set (workers d)" by (metis image_iff insertI1 wake_simps(4)) (metis image_iff wake_simps(4))
  moreover have "WExit \<in> wake ` set (workers d) \<Longrightarrow> WExit \<in> set (workers d)" by (auto simp: wake_def split: if_splits)
  ultimately show ?thesis using DNotifyAll q by (auto simp: dns_notify_all_def queue_ok_def)
next
  case (DSpurious w)
  have "workers d ! w = WExit \<Longrightarrow> w < length (workers d) \<Longrightarrow> dns_stopping d" using q nth_mem unfolding queue_ok_def by metis
  then show ?thesis using DSpurious q queue_ok_worker[OF q, of w "wake (workers d ! w)"] by (auto simp: wake_def)
qed (use q caller_step_queue[OF q] cancel_step_queue[OF q] worker_step_queue[OF q] notify_one_queue[OF q] in
    \<open>auto simp: enableCache_def clearCache_def dns_stop_def queue_ok_def simp del: caller_step.simps cancel_step.simps worker_step.simps\<close>)

lemma dns_run_queue: "queue_ok d \<Longrightarrow> queue_ok (dns_run es d)"
  unfolding dns_run_def by (induction es arbitrary: d) (simp_all add: dns_step_queue del: dns_step.simps)

lemma DnsResolver_queue: "DnsResolver opts = Inr d \<Longrightarrow> queue_ok d"
  by (auto simp: DnsResolver_def bind_res_Inr dns_validate_def queue_ok_def split: if_splits)

section \<open>Example\<close>

definition demo_addr :: sockaddr where
  "demo_addr = \<lparr>ss_family = AF_INET, sin_port = 80, sin_addr = [127, 0, 0, 1]\<rparr>"

definition demo_lookup :: "dns_event list" where
  "demo_lookup = [DWorker 0 None, DWorker 1 None, DResolve ''host'' 80 (Some 0) True True, DCaller 0, DCaller 0, DCaller 0, DCaller 0, DCaller 0, DCaller 0, DNotify 0 0,
     DWorker 0 None, DWorker 0 (Some [\<lparr>ai_family = AF_INET, ai_addrlen = 16, ai_addr = demo_addr\<rparr>]), DCancelRequest 0, DCancel 0, DCancel 0,
     DWorker 0 None, DWorker 0 None, DWorker 0 None, DCancel 0, DLoop 0, DLoop 0, DWorker 0 None]"

definition demo_dns :: dns where
  "demo_dns = (case DnsResolver DnsResolverOptions of Inr d \<Rightarrow> d)"

lemma demo_dns_eq: "DnsResolver DnsResolverOptions = Inr demo_dns"
  by (simp add: demo_dns_def DnsResolver_def DnsResolverOptions_def dns_validate_def)

lemmas dns_eval = dns_run_def demo_lookup_def demo_dns_def DnsResolver_def DnsResolverOptions_def dns_validate_def resolve_def
  new_operation_def set_op_def set_worker_def Let_def cache_lookup_def getaddrinfo_result_def collect_addresses_def usable_def
  sizeof_sockaddr_in_def sizeof_sockaddr_in6_def AF_INET_def AF_INET6_def store_cache_def deliver_def takeCallback_def
  installRegistration_def notify_one_def numeral_2_eq_2

text \<open>The address and the cancellation race; the address wins, and the cancellation has no effect.\<close>

lemma demo_dns_run:
  "\<exists>d. dns_run demo_lookup demo_dns = d \<and> delivered d = [(0, Inr [demo_addr])] \<and> dropped d = [] \<and> requestQueue d = [] \<and>
     workers d = [WAsleep, WAsleep] \<and> (\<forall>l. loop_tasks d l = []) \<and> length (ops d) = 1 \<and> op_caller (ops d ! 0) = RDone \<and>
     op_cancel (ops d ! 0) = CDone \<and> loop_open d 0 \<and> op_loop (ops d ! 0) = 0"
  by (simp add: dns_eval)

section \<open>Properties\<close>

text \<open>C25. A resolution is answered at most once, whatever the interleaving of its caller, the workers, a cancellation and the
  target loop. The callback gets addresses that \<open>getaddrinfo\<close> returned for the name (up to the port, which a cached entry takes
  from the request), or a failure, or \<open>Cancelled\<close> if cancellation was requested; it is dropped without a call only when the target
  loop is closed.\<close>

theorem resolve_answered_once:
  assumes "DnsResolver opts = Inr d0" "dns_run es d0 = d"
  shows "(\<forall>n. count_list (map fst (delivered d) @ dropped d) n \<le> 1) \<and>
    (\<forall>(n, r) \<in> set (delivered d). n < length (ops d) \<and>
       (case r of
          Inl e \<Rightarrow> e = ResolveFailed \<or> e = OpCancelled \<and> op_requested (ops d ! n)
        | Inr as \<Rightarrow> as \<noteq> [] \<and> (\<exists>bs. (op_host (ops d ! n), bs) \<in> set (answers d) \<and> map strip as = map strip bs))) \<and>
    (\<forall>n \<in> set (dropped d). \<not> loop_open d (op_loop (ops d ! n)))"
proof -
  have inv: "dns_inv {} d" using dns_run_inv[OF DnsResolver_inv[OF assms(1)], of es] assms(2) by simp
  have "set (delivered d) \<subseteq> in_flight d" by (auto simp: in_flight_def)
  then have "\<forall>(n, r) \<in> set (delivered d). n < length (ops d) \<and> result_ok d n r"
    using dns_invD(2)[OF inv] unfolding results_ok_def by blast
  then show ?thesis using dns_invD(3)[OF inv] by (simp add: once_ok_def ended_def result_ok_def)
qed

theorem resolve_answered_once_witness:
  "\<exists>d. dns_run demo_lookup demo_dns = d \<and> delivered d = [(0, Inr [demo_addr])] \<and> count_list (map fst (delivered d) @ dropped d) 0 \<le> 1"
  using resolve_answered_once[OF demo_dns_eq refl, of demo_lookup] demo_dns_run by blast

text \<open>C26. No request is lost: when nothing is in progress any more (no caller inside \<open>resolve\<close>, every worker asleep, gone or finding the
  queue empty, no cancellation being posted, the loops have run their functors), the queue is empty and every request was answered or dropped,
  exactly once, and one whose loop still accepts functors was answered. Requests are not left in the queue for sleeping
  workers (if the resolver is being destroyed, the queue has to be empty: its workers end, and calling \<open>resolve\<close> then is an error); and no worker sleeps on once the destructor has notified.\<close>

theorem resolve_completes:
  assumes "DnsResolver opts = Inr d0" "dns_run es d0 = d"
    and "\<forall>x \<in> set (ops d). op_caller x = RDone \<and> cancel_results (op_cancel x) = {}" "dns_stopping d \<longrightarrow> requestQueue d = []"
    and "\<forall>pc \<in> set (workers d). pc = WAsleep \<or> pc = WExit \<or> pc = WWait \<and> requestQueue d = []" "\<forall>l. loop_tasks d l = []" "n < length (ops d)"
  shows "requestQueue d = [] \<and> count_list (map fst (delivered d) @ dropped d) n = 1 \<and>
    (loop_open d (op_loop (ops d ! n)) \<longrightarrow> n \<in> set (map fst (delivered d))) \<and>
    (dns_stopping d \<and> \<not> stop_notify d \<longrightarrow> WAsleep \<notin> set (workers d))"
proof -
  have inv: "dns_inv {} d" using dns_run_inv[OF DnsResolver_inv[OF assms(1)], of es] assms(2) by simp
  have qok: "queue_ok d" using dns_run_queue[OF DnsResolver_queue[OF assms(1)], of es] assms(2) by simp
  have "ops d ! n \<in> set (ops d)" using assms(7) by simp
  then have c: "op_caller (ops d ! n) = RDone" "cancel_results (op_cancel (ops d ! n)) = {}" using assms(3) by blast+
  have q: "requestQueue d = []"
  proof (rule ccontr)
    assume a: "requestQueue d \<noteq> []"
    then have s: "\<not> dns_stopping d" "WExit \<notin> set (workers d)" "workers d \<noteq> []" using assms(4) qok by (auto simp: queue_ok_def)
    then have "set (workers d) \<subseteq> {WAsleep}" using assms(5) a by auto
    then have "set (workers d) = {WAsleep}" using s(3) by (metis set_empty subset_singletonD)
    moreover have "\<not> (\<exists>x \<in> set (ops d). op_caller x = RNotify)" using assms(3) by force
    ultimately show False using a s(1) qok unfolding queue_ok_def by blast
  qed
  have "Some n \<notin> holds ` set (workers d)" using assms(5) by fastforce
  then have "\<not> busy d n" using c q assms(6) by (simp add: busy_def queued_result_def)
  then have "op_completed (ops d ! n)" using dns_invD(4)[OF inv] assms(7) by (auto simp: busy_ok_def)
  then have c: "count_list (ended d) n = 1" using dns_invD(3)[OF inv] assms(7) by (simp add: once_ok_def)
  have "n \<in> set (ended d)" using c by (metis count_list_0_iff zero_neq_one)
  then show ?thesis using c q qok dns_invD(3)[OF inv] by (auto simp: ended_def once_ok_def queue_ok_def)
qed

theorem resolve_completes_witness:
  "\<exists>d. dns_run demo_lookup demo_dns = d \<and> length (ops d) = 1 \<and> requestQueue d = [] \<and> 0 \<in> set (map fst (delivered d))"
proof -
  obtain d where d: "dns_run demo_lookup demo_dns = d" "requestQueue d = []" "workers d = [WAsleep, WAsleep]" "\<forall>l. loop_tasks d l = []"
    "length (ops d) = 1" "op_caller (ops d ! 0) = RDone" "op_cancel (ops d ! 0) = CDone" "loop_open d 0" "op_loop (ops d ! 0) = 0"
    using demo_dns_run by blast
  have "\<forall>x \<in> set (ops d). op_caller x = RDone \<and> cancel_results (op_cancel x) = {}"
    using d(5-7) by (auto simp: in_set_conv_nth)
  moreover have "\<forall>pc \<in> set (workers d). pc = WAsleep \<or> pc = WExit \<or> pc = WWait \<and> requestQueue d = []" using d(3) by simp
  ultimately show ?thesis using resolve_completes[OF demo_dns_eq d(1) _ _ _ d(4), of 0] d by simp
qed

end
