(* ===== verification/Awaitable.thy ===== *)
theory Awaitable
  imports Prelude
begin

text \<open>
  What an awaitable of \<^verbatim>\<open>mini/coroutine\<close> promises to the coroutine that awaits it, as an interface: the coroutine was
  suspended by \<open>await_suspend\<close> before it is resumed, and it is resumed at most once for one \<open>co_await\<close>. The awaitables of
  \<^verbatim>\<open>WhenAll.h\<close>, \<^verbatim>\<open>WhenAny.h\<close>, \<^verbatim>\<open>SleepAwaitable.h\<close> and \<^verbatim>\<open>ResolveAwaitable.h\<close> are instances of it; \<open>Coro_Task\<close> relies on
  this promise, because \<open>ResumeHandle::resume\<close> checks that the frame exists but not at which \<open>co_await\<close> it is suspended.

  The theory also has the facts on lists of wrapper states that \<open>When_All\<close> and \<open>When_Any\<close> share.
\<close>

section \<open>The contract\<close>

locale awaitable =
  fixes step :: "'s \<Rightarrow> 's \<Rightarrow> bool"
    and initial :: "'s \<Rightarrow> bool"
    and inv :: "'s \<Rightarrow> bool"
    and armed :: "'s \<Rightarrow> bool"
    and resumes :: "'s \<Rightarrow> nat"
  assumes inv_initial: "initial s \<Longrightarrow> inv s \<and> resumes s = 0"
    and inv_step: "inv s \<Longrightarrow> step s s' \<Longrightarrow> inv s'"
    and resumes_step: "inv s \<Longrightarrow> step s s' \<Longrightarrow> resumes s \<le> resumes s'"
    and at_most_once: "inv s \<Longrightarrow> resumes s \<le> 1"
    and only_armed: "inv s \<Longrightarrow> resumes s \<noteq> 0 \<Longrightarrow> armed s"
begin

lemma run_keeps: "step\<^sup>*\<^sup>* s s' \<Longrightarrow> inv s \<Longrightarrow> inv s' \<and> resumes s \<le> resumes s'"
  by (induction rule: rtranclp_induct) (auto dest: inv_step resumes_step intro: order_trans)

lemma reach_inv: "initial s \<Longrightarrow> step\<^sup>*\<^sup>* s s' \<Longrightarrow> inv s'"
  using run_keeps inv_initial by blast

lemma resumed_stays: "initial s \<Longrightarrow> step\<^sup>*\<^sup>* s s' \<Longrightarrow> step\<^sup>*\<^sup>* s' s'' \<Longrightarrow> resumes s' = 1 \<Longrightarrow> resumes s'' = 1"
  using run_keeps[of s' s''] reach_inv[of s s'] at_most_once[of s''] by simp

lemma resumed_once:
  assumes "initial s" "step\<^sup>*\<^sup>* s s'"
  shows "resumes s' \<le> 1 \<and> (resumes s' = 1 \<longrightarrow> armed s')"
  using reach_inv[OF assms] at_most_once only_armed by simp

end

section \<open>Wrapper states\<close>

text \<open>How a sub-task ends.\<close>

datatype 'v outcome = Returned 'v | Threw cpp_error

definition count_if :: "('a \<Rightarrow> bool) \<Rightarrow> 'a list \<Rightarrow> nat" where
  "count_if P xs = length (filter P xs)"

lemma count_if_update:
  "i < length xs \<Longrightarrow> count_if P (xs[i := y]) + of_bool (P (xs ! i)) = count_if P xs + of_bool (P y)"
proof (induction xs arbitrary: i)
  case (Cons x xs)
  then show ?case by (cases i) (auto simp: count_if_def)
qed simp

lemma count_if_zero: "count_if P xs = 0 \<longleftrightarrow> (\<forall>i < length xs. \<not> P (xs ! i))"
  by (auto simp: count_if_def filter_empty_conv all_set_conv_all_nth)

lemma count_if_le: "count_if P xs \<le> length xs"
  by (simp add: count_if_def)

lemma count_if_Nil [simp]: "count_if P [] = 0"
  by (simp add: count_if_def)

lemma count_if_replicate [simp]: "count_if P (replicate n x) = (if P x then n else 0)"
  by (simp add: count_if_def filter_replicate)

end
