(* ===== verification/When_All.thy ===== *)
theory When_All
  imports Awaitable
begin

text \<open>
  \<^verbatim>\<open>coroutine/WhenAll.h\<close>: \<open>whenAll\<close> waits for all its sub-tasks and resumes the awaiting coroutine.

  The wrapper coroutines may run on any threads. A step is one access to the shared block: the compare-exchange and the store
  of \<open>captureException\<close>, the \<open>emplace\<close> of a result, the \<open>fetch_sub\<close> of \<open>onComplete\<close> and the resumption are separate steps, with
  steps of other wrappers between them. What a sub-task does (it returns, throws, or is never finished) and whether moving a result
  throws are choices of the environment. The \<open>void\<close> overload (\<open>WhenAllVoidState\<close>, \<open>whenAllVoidWrapper\<close>) has no results; the
  flag \<open>is_void\<close> selects it. Frames, gates and \<open>joinChain\<close> are in \<open>Coro_Task\<close>.
\<close>

section \<open>State\<close>

record 'v whenAllState =
  remaining :: nat
  parent :: bool
  exceptionCaptured :: bool
  firstException :: "cpp_error option"
  results :: "'v option list"

definition WhenAllState :: "nat \<Rightarrow> 'v whenAllState" where
  "WhenAllState count = \<lparr>remaining = count, parent = False, exceptionCaptured = False, firstException = None,
     results = replicate count None\<rparr>"

text \<open>Where a wrapper coroutine is.\<close>

datatype 'v wpc =
    Created
  | Awaiting
  | Emplacing 'v
  | Capturing cpp_error
  | Storing cpp_error
  | Completing
  | Resuming
  | Finished

text \<open>The awaitable with its wrappers. \<open>launching\<close> is \<open>None\<close> before \<open>await_suspend\<close>, then the number of wrappers it has detached.
  \<open>resumes\<close> counts the calls of \<open>parent.resume()\<close>; \<open>outcomes\<close> (how each wrapper ended) and \<open>first\<close> (the wrapper that captured the
  exception) are histories.\<close>

record 'v whenAll =
  state :: "'v whenAllState"
  is_void :: bool
  wrappers :: "'v wpc list"
  launching :: "nat option"
  resumes :: nat
  outcomes :: "'v outcome option list"
  first :: "nat option"

definition WhenAllAwaitable :: "bool \<Rightarrow> nat \<Rightarrow> 'v whenAll" where
  "WhenAllAwaitable void n = \<lparr>state = WhenAllState n, is_void = void, wrappers = replicate n Created, launching = None,
     resumes = 0, outcomes = replicate n None, first = None\<rparr>"

section \<open>Operations\<close>

text \<open>\<open>captureException\<close>: the compare-exchange (true when it succeeds) and the store.\<close>

definition capture_cas :: "'v whenAllState \<Rightarrow> bool \<times> 'v whenAllState" where
  "capture_cas s = (if exceptionCaptured s then (False, s) else (True, s\<lparr>exceptionCaptured := True\<rparr>))"

definition capture_store :: "cpp_error \<Rightarrow> 'v whenAllState \<Rightarrow> 'v whenAllState" where
  "capture_store e s = s\<lparr>firstException := Some e\<rparr>"

text \<open>\<open>onComplete\<close>: true for the last one.\<close>

definition complete_sub :: "'v whenAllState \<Rightarrow> bool \<times> 'v whenAllState" where
  "complete_sub s = (remaining s = 1, s\<lparr>remaining := szsub (remaining s) 1\<rparr>)"

definition emplace_result :: "nat \<Rightarrow> 'v \<Rightarrow> 'v whenAllState \<Rightarrow> 'v whenAllState" where
  "emplace_result i v s = s\<lparr>results := (results s)[i := Some v]\<rparr>"

definition await_ready :: "'v whenAll \<Rightarrow> bool" where
  "await_ready w = (length (wrappers w) = 0)"

text \<open>\<open>await_suspend\<close> before its loop.\<close>

definition await_suspend :: "'v whenAll \<Rightarrow> 'v whenAll" where
  "await_suspend w = w\<lparr>state := (state w)\<lparr>parent := True\<rparr>, launching := Some 0\<rparr>"

text \<open>\<open>extractResults\<close>; reading an empty \<open>optional\<close> is undefined.\<close>

definition extractResults :: "'v whenAllState \<Rightarrow> 'v list res" where
  "extractResults s = (if None \<in> set (results s) then Inl Out_of_bounds else Inr (map the (results s)))"

definition await_resume :: "'v whenAll \<Rightarrow> 'v list res" where
  "await_resume w =
     (case firstException (state w) of
        Some e \<Rightarrow> Inl e
      | None \<Rightarrow> if is_void w then Inr [] else extractResults (state w))"

section \<open>Steps\<close>

definition set_wrapper :: "nat \<Rightarrow> 'v wpc \<Rightarrow> 'v whenAll \<Rightarrow> 'v whenAll" where
  "set_wrapper i p w = w\<lparr>wrappers := (wrappers w)[i := p]\<rparr>"

definition note_outcome :: "nat \<Rightarrow> 'v outcome \<Rightarrow> 'v whenAll \<Rightarrow> 'v whenAll" where
  "note_outcome i out w = w\<lparr>outcomes := (outcomes w)[i := Some out]\<rparr>"

text \<open>The statements of \<open>whenAllWrapper\<close> that the library itself runs, one access each.\<close>

fun whenAllWrapper :: "nat \<Rightarrow> 'v whenAll \<Rightarrow> 'v whenAll option" where
  "whenAllWrapper i w =
     (case wrappers w ! i of
        Emplacing v \<Rightarrow>
          Some (note_outcome i (Returned v) (set_wrapper i Completing (w\<lparr>state := emplace_result i v (state w)\<rparr>)))
      | Capturing e \<Rightarrow>
          (let (won, s) = capture_cas (state w)
           in if won then Some (set_wrapper i (Storing e) (w\<lparr>state := s, first := Some i\<rparr>))
              else Some (set_wrapper i Completing w))
      | Storing e \<Rightarrow> Some (set_wrapper i Completing (w\<lparr>state := capture_store e (state w)\<rparr>))
      | Completing \<Rightarrow>
          (let (last, s) = complete_sub (state w)
           in Some (set_wrapper i (if last then Resuming else Finished) (w\<lparr>state := s\<rparr>)))
      | Resuming \<Rightarrow> Some (set_wrapper i Finished (w\<lparr>resumes := resumes w + of_bool (parent (state w))\<rparr>))
      | _ \<Rightarrow> None)"

text \<open>What the sub-task or the move of its result does.\<close>

inductive env_step :: "nat \<Rightarrow> 'v whenAll \<Rightarrow> 'v whenAll \<Rightarrow> bool" where
  returns_value: "wrappers w ! i = Awaiting \<Longrightarrow> \<not> is_void w \<Longrightarrow> env_step i w (set_wrapper i (Emplacing v) w)"
| returns_void: "wrappers w ! i = Awaiting \<Longrightarrow> is_void w \<Longrightarrow>
    env_step i w (note_outcome i (Returned v) (set_wrapper i Completing w))"
| throws: "wrappers w ! i = Awaiting \<Longrightarrow> env_step i w (note_outcome i (Threw e) (set_wrapper i (Capturing e) w))"
| move_throws: "wrappers w ! i = Emplacing v \<Longrightarrow> env_step i w (note_outcome i (Threw e) (set_wrapper i (Capturing e) w))"

text \<open>The awaiting coroutine suspends and detaches the wrappers in order; a wrapper or its sub-task moves.\<close>

inductive all_step :: "'v whenAll \<Rightarrow> 'v whenAll \<Rightarrow> bool" where
  suspend: "launching w = None \<Longrightarrow> \<not> await_ready w \<Longrightarrow> all_step w (await_suspend w)"
| detach: "launching w = Some k \<Longrightarrow> k < length (wrappers w) \<Longrightarrow>
    all_step w (set_wrapper k Awaiting (w\<lparr>launching := Some (k + 1)\<rparr>))"
| wrapper: "i < length (wrappers w) \<Longrightarrow> whenAllWrapper i w = Some w' \<Longrightarrow> all_step w w'"
| env: "i < length (wrappers w) \<Longrightarrow> env_step i w w' \<Longrightarrow> all_step w w'"

definition all_initial :: "'v whenAll \<Rightarrow> bool" where
  "all_initial w \<longleftrightarrow> (\<exists>void n. n < SIZE_MOD \<and> w = WhenAllAwaitable void n)"

definition all_reach :: "'v whenAll \<Rightarrow> bool" where
  "all_reach w \<longleftrightarrow> (\<exists>w0. all_initial w0 \<and> all_step\<^sup>*\<^sup>* w0 w)"

section \<open>Invariant\<close>

fun counted :: "'v wpc \<Rightarrow> bool" where
  "counted Resuming = True"
| "counted Finished = True"
| "counted _ = False"

text \<open>What is known of one wrapper: its outcome, the stored result and the captured exception.\<close>

definition past_capture :: "'v whenAll \<Rightarrow> nat \<Rightarrow> bool" where
  "past_capture w i \<longleftrightarrow>
     (\<exists>v. outcomes w ! i = Some (Returned v) \<and> (is_void w \<or> results (state w) ! i = Some v)) \<or>
     (\<exists>e. outcomes w ! i = Some (Threw e) \<and> exceptionCaptured (state w))"

fun wrapper_ok :: "'v whenAll \<Rightarrow> nat \<Rightarrow> 'v wpc \<Rightarrow> bool" where
  "wrapper_ok w i Created = (outcomes w ! i = None)"
| "wrapper_ok w i Awaiting = (outcomes w ! i = None)"
| "wrapper_ok w i (Emplacing v) = (outcomes w ! i = None \<and> \<not> is_void w)"
| "wrapper_ok w i (Capturing e) = (outcomes w ! i = Some (Threw e))"
| "wrapper_ok w i (Storing e) = (outcomes w ! i = Some (Threw e) \<and> first w = Some i)"
| "wrapper_ok w i _ = past_capture w i"

definition wrappers_ok :: "'v whenAll \<Rightarrow> bool" where
  "wrappers_ok w \<longleftrightarrow> (\<forall>i < length (wrappers w). wrapper_ok w i (wrappers w ! i))"

definition launch_ok :: "'v whenAll \<Rightarrow> bool" where
  "launch_ok w \<longleftrightarrow> parent (state w) = (launching w \<noteq> None) \<and>
     (\<forall>i < length (wrappers w). wrappers w ! i = Created \<longleftrightarrow> (case launching w of None \<Rightarrow> True | Some k \<Rightarrow> k \<le> i)) \<and>
     (\<forall>k. launching w = Some k \<longrightarrow> k \<le> length (wrappers w) \<and> wrappers w \<noteq> [])"

definition first_ok :: "'v whenAll \<Rightarrow> bool" where
  "first_ok w \<longleftrightarrow>
     (case first w of
        None \<Rightarrow> \<not> exceptionCaptured (state w) \<and> firstException (state w) = None
      | Some i \<Rightarrow> exceptionCaptured (state w) \<and> i < length (wrappers w) \<and>
          (\<exists>e. outcomes w ! i = Some (Threw e) \<and>
             (wrappers w ! i = Storing e \<and> firstException (state w) = None \<or>
              wrappers w ! i \<in> {Completing, Resuming, Finished} \<and> firstException (state w) = Some e)))"

definition count_ok :: "'v whenAll \<Rightarrow> bool" where
  "count_ok w \<longleftrightarrow> remaining (state w) = count_if (Not \<circ> counted) (wrappers w) \<and>
     length (wrappers w) < SIZE_MOD \<and>
     resumes w + count_if (\<lambda>p. p = Resuming) (wrappers w) =
       of_bool (remaining (state w) = 0 \<and> wrappers w \<noteq> [])"

definition all_inv :: "'v whenAll \<Rightarrow> bool" where
  "all_inv w \<longleftrightarrow> length (outcomes w) = length (wrappers w) \<and> length (results (state w)) = length (wrappers w) \<and>
     launch_ok w \<and> count_ok w \<and> first_ok w \<and> wrappers_ok w"

lemma all_invD:
  assumes "all_inv w"
  shows "length (outcomes w) = length (wrappers w)" "length (results (state w)) = length (wrappers w)"
    "launch_ok w" "count_ok w" "first_ok w" "wrappers_ok w"
  using assms by (simp_all add: all_inv_def)

lemma all_invI:
  assumes "length (outcomes w) = length (wrappers w)" "length (results (state w)) = length (wrappers w)"
    "launch_ok w" "count_ok w" "first_ok w" "wrappers_ok w"
  shows "all_inv w"
  using assms by (simp add: all_inv_def)

lemmas access_defs = set_wrapper_def note_outcome_def emplace_result_def capture_cas_def capture_store_def complete_sub_def

lemma initial_inv: "all_initial w \<Longrightarrow> all_inv w \<and> resumes w = 0"
  by (auto simp: all_initial_def all_inv_def WhenAllAwaitable_def WhenAllState_def launch_ok_def count_ok_def first_ok_def
      wrappers_ok_def)

text \<open>A wrapper is not affected by the moves of the others.\<close>

lemma wrapper_ok_frame:
  assumes "wrapper_ok w j p" "outcomes w' ! j = outcomes w ! j" "results (state w') ! j = results (state w) ! j"
    "is_void w' = is_void w" "exceptionCaptured (state w) \<longrightarrow> exceptionCaptured (state w')"
    "first w = Some j \<longrightarrow> first w' = Some j"
  shows "wrapper_ok w' j p"
  using assms by (cases p) (auto simp: past_capture_def)

lemma wrappers_ok_update:
  assumes "wrappers_ok w" "wrappers w' = (wrappers w)[i := p]" "i < length (wrappers w)" "wrapper_ok w' i p"
    "\<And>j. j \<noteq> i \<Longrightarrow> outcomes w' ! j = outcomes w ! j \<and> results (state w') ! j = results (state w) ! j"
    "is_void w' = is_void w" "exceptionCaptured (state w) \<longrightarrow> exceptionCaptured (state w')"
    "\<And>j. first w = Some j \<Longrightarrow> first w' = Some j"
  shows "wrappers_ok w'"
  unfolding wrappers_ok_def
proof (intro allI impI)
  fix j assume j: "j < length (wrappers w')"
  show "wrapper_ok w' j (wrappers w' ! j)"
  proof (cases "j = i")
    case True
    then show ?thesis using assms(2-4) by simp
  next
    case False
    then have "wrapper_ok w j (wrappers w ! j)" using assms(1,2) j by (simp add: wrappers_ok_def)
    from wrapper_ok_frame[OF this, of w'] show ?thesis using False assms(2,5-8) by auto
  qed
qed

lemma launch_ok_update:
  assumes "launch_ok w" "i < length (wrappers w)" "wrappers w ! i \<noteq> Created" "p \<noteq> Created"
    "wrappers w' = (wrappers w)[i := p]" "launching w' = launching w" "parent (state w') = parent (state w)"
  shows "launch_ok w'"
  using assms by (auto simp: launch_ok_def nth_list_update)

text \<open>A move that does not complete the wrapper leaves the counts alone.\<close>

lemma count_ok_update:
  assumes "count_ok w" "i < length (wrappers w)" "\<not> counted (wrappers w ! i)" "\<not> counted p"
    "wrappers w' = (wrappers w)[i := p]" "remaining (state w') = remaining (state w)" "resumes w' = resumes w"
  shows "count_ok w'"
proof -
  have "wrappers w ! i \<noteq> Resuming" "p \<noteq> Resuming" using assms(3,4) by auto
  then show ?thesis
    using assms count_if_update[OF assms(2), of "Not \<circ> counted" p] count_if_update[OF assms(2), of "\<lambda>p. p = Resuming" p]
    by (auto simp: count_ok_def)
qed

lemma count_ok_complete:
  assumes "count_ok w" "i < length (wrappers w)" "wrappers w ! i = Completing" "complete_sub (state w) = (b, s)"
  shows "count_ok (set_wrapper i (if b then Resuming else Finished) (w\<lparr>state := s\<rparr>))"
proof -
  let ?p = "if b then Resuming else Finished"
  have c: "count_if (Not \<circ> counted) ((wrappers w)[i := ?p]) + 1 = count_if (Not \<circ> counted) (wrappers w)"
    using count_if_update[OF assms(2), of "Not \<circ> counted" ?p] assms(3) by simp
  have r: "count_if (\<lambda>p. p = Resuming) ((wrappers w)[i := ?p]) = count_if (\<lambda>p. p = Resuming) (wrappers w) + of_bool b"
    using count_if_update[OF assms(2), of "\<lambda>p. p = Resuming" ?p] assms(3) by simp
  have "count_if (Not \<circ> counted) (wrappers w) \<le> length (wrappers w)" by (rule count_if_le)
  then have "szsub (remaining (state w)) 1 = remaining (state w) - 1"
    using assms(1) c by (intro szsub_exact) (auto simp: count_ok_def)
  then show ?thesis using assms c r by (auto simp: count_ok_def complete_sub_def set_wrapper_def)
qed

lemma count_ok_resume:
  assumes "count_ok w" "i < length (wrappers w)" "wrappers w ! i = Resuming" "parent (state w)"
  shows "count_ok (set_wrapper i Finished (w\<lparr>resumes := resumes w + of_bool (parent (state w))\<rparr>))"
  using assms count_if_update[OF assms(2), of "Not \<circ> counted" Finished] count_if_update[OF assms(2), of "\<lambda>p. p = Resuming" Finished]
  by (auto simp: count_ok_def set_wrapper_def of_bool_def split: if_splits)

text \<open>The captured exception is not affected by a wrapper that did not capture it, nor by one that only completes.\<close>

lemma first_ok_other:
  assumes "first_ok w" "first w \<noteq> Some i" "wrappers w' = (wrappers w)[i := p]" "first w' = first w"
    "exceptionCaptured (state w') = exceptionCaptured (state w)" "firstException (state w') = firstException (state w)"
    "\<And>j. j \<noteq> i \<Longrightarrow> outcomes w' ! j = outcomes w ! j"
  shows "first_ok w'"
  using assms by (auto simp: first_ok_def split: option.splits)

lemma first_ok_completing:
  assumes "first_ok w" "i < length (wrappers w)" "wrappers w ! i \<in> {Completing, Resuming}" "p \<in> {Resuming, Finished}"
    "wrappers w' = (wrappers w)[i := p]" "first w' = first w" "exceptionCaptured (state w') = exceptionCaptured (state w)"
    "firstException (state w') = firstException (state w)" "outcomes w' = outcomes w"
  shows "first_ok w'"
proof (cases "first w = Some i")
  case True
  then show ?thesis using assms by (auto simp: first_ok_def split: option.splits)
next
  case False
  from first_ok_other[OF assms(1) this assms(5-8)] show ?thesis using assms(9) by simp
qed

lemma not_first:
  assumes "first_ok w" "wrappers w ! i \<in> {Created, Awaiting} \<or> (\<exists>v. wrappers w ! i = Emplacing v) \<or> (\<exists>e. wrappers w ! i = Capturing e)"
  shows "first w \<noteq> Some i"
  using assms by (auto simp: first_ok_def)

text \<open>A move of wrapper \<open>i\<close> to a state before its completion.\<close>

lemma all_inv_move:
  assumes inv: "all_inv w" and i: "i < length (wrappers w)" "\<not> counted (wrappers w ! i)" "\<not> counted p"
    and notC: "wrappers w ! i \<noteq> Created" "p \<noteq> Created"
    and w': "wrappers w' = (wrappers w)[i := p]" "launching w' = launching w" "parent (state w') = parent (state w)"
      "remaining (state w') = remaining (state w)" "resumes w' = resumes w" "is_void w' = is_void w"
    and len: "length (outcomes w') = length (outcomes w)" "length (results (state w')) = length (results (state w))"
    and first: "first_ok w'" "exceptionCaptured (state w) \<longrightarrow> exceptionCaptured (state w')" "\<And>j. first w = Some j \<Longrightarrow> first w' = Some j"
    and ok: "wrapper_ok w' i p" "\<And>j. j \<noteq> i \<Longrightarrow> outcomes w' ! j = outcomes w ! j \<and> results (state w') ! j = results (state w) ! j"
  shows "all_inv w'"
proof (rule all_invI)
  note d = all_invD[OF inv]
  show "launch_ok w'" by (rule launch_ok_update[OF d(3) i(1) notC w'(1-3)])
  show "count_ok w'" by (rule count_ok_update[OF d(4) i w'(1,4,5)])
  show "first_ok w'" by (rule first(1))
  show "wrappers_ok w'" by (rule wrappers_ok_update[OF d(6) w'(1) i(1) ok(1) _ w'(6) first(2,3)]) (use ok(2) in auto)
  show "length (outcomes w') = length (wrappers w')" "length (results (state w')) = length (wrappers w')"
    using d(1,2) len w'(1) by simp_all
qed

lemma env_step_inv:
  assumes "env_step i w w'" "all_inv w" "i < length (wrappers w)"
  shows "all_inv w' \<and> resumes w' = resumes w"
proof -
  note d = all_invD[OF assms(2)]
  have li: "i < length (outcomes w)" using d(1) assms(3) by simp
  have ok: "wrapper_ok w i (wrappers w ! i)" using d(6) assms(3) by (simp add: wrappers_ok_def)
  from assms(1) show ?thesis
  proof cases
    case (returns_value v)
    have nf: "first w \<noteq> Some i" using not_first[OF d(5)] returns_value by auto
    have "all_inv w'"
      by (rule all_inv_move[OF assms(2,3), of "Emplacing v"])
        (use returns_value ok in \<open>simp_all add: set_wrapper_def first_ok_other[OF d(5) nf]\<close>)
    then show ?thesis using returns_value by (simp add: set_wrapper_def)
  next
    case (returns_void v)
    have nf: "first w \<noteq> Some i" using not_first[OF d(5)] returns_void by auto
    have "all_inv w'"
      by (rule all_inv_move[OF assms(2,3), of Completing])
        (use returns_void li in \<open>simp_all add: access_defs past_capture_def first_ok_other[OF d(5) nf]\<close>)
    then show ?thesis using returns_void by (simp add: access_defs)
  next
    case (throws e)
    have nf: "first w \<noteq> Some i" using not_first[OF d(5)] throws by auto
    have "all_inv w'"
      by (rule all_inv_move[OF assms(2,3), of "Capturing e"])
        (use throws li in \<open>simp_all add: access_defs first_ok_other[OF d(5) nf]\<close>)
    then show ?thesis using throws by (simp add: access_defs)
  next
    case (move_throws v e)
    have nf: "first w \<noteq> Some i" using not_first[OF d(5)] move_throws by auto
    have "all_inv w'"
      by (rule all_inv_move[OF assms(2,3), of "Capturing e"])
        (use move_throws li in \<open>simp_all add: access_defs first_ok_other[OF d(5) nf]\<close>)
    then show ?thesis using move_throws by (simp add: access_defs)
  qed
qed

text \<open>A move of wrapper \<open>i\<close> from its completion on.\<close>

lemma all_inv_complete:
  assumes inv: "all_inv w" and i: "i < length (wrappers w)" "wrappers w ! i \<in> {Completing, Resuming}" "p \<in> {Resuming, Finished}"
    and w': "wrappers w' = (wrappers w)[i := p]" "launching w' = launching w" "parent (state w') = parent (state w)"
      "first w' = first w" "exceptionCaptured (state w') = exceptionCaptured (state w)"
      "firstException (state w') = firstException (state w)" "outcomes w' = outcomes w"
      "results (state w') = results (state w)" "is_void w' = is_void w"
    and count: "count_ok w'"
  shows "all_inv w'"
proof (rule all_invI)
  note d = all_invD[OF inv]
  have "past_capture w i" using d(6) i(1,2) by (auto simp: wrappers_ok_def)
  then have "wrapper_ok w' i p" using i(3) w' by (auto simp: past_capture_def)
  then show "wrappers_ok w'" by (intro wrappers_ok_update[OF d(6) w'(1) i(1)]) (use w' in simp_all)
  show "launch_ok w'" by (rule launch_ok_update[OF d(3) i(1) _ _ w'(1-3)]) (use i in auto)
  show "first_ok w'" by (rule first_ok_completing[OF d(5) i w'(1,4-7)])
  show "count_ok w'" by (rule count)
  show "length (outcomes w') = length (wrappers w')" "length (results (state w')) = length (wrappers w')"
    using d(1,2) w' by simp_all
qed

lemma wrapper_inv:
  assumes "whenAllWrapper i w = Some w'" "all_inv w" "i < length (wrappers w)"
  shows "all_inv w' \<and> resumes w \<le> resumes w'"
proof -
  note d = all_invD[OF assms(2)]
  have li: "i < length (outcomes w)" "i < length (results (state w))" using d(1,2) assms(3) by simp_all
  have ok: "wrapper_ok w i (wrappers w ! i)" using d(6) assms(3) by (simp add: wrappers_ok_def)
  show ?thesis
  proof (cases "wrappers w ! i")
    case (Emplacing v)
    have nf: "first w \<noteq> Some i" using not_first[OF d(5)] Emplacing by auto
    have w': "w' = note_outcome i (Returned v) (set_wrapper i Completing (w\<lparr>state := emplace_result i v (state w)\<rparr>))"
      using assms(1) Emplacing by simp
    have "all_inv w'"
      by (rule all_inv_move[OF assms(2,3), of Completing])
        (use Emplacing li in \<open>simp_all add: w' access_defs past_capture_def first_ok_other[OF d(5) nf]\<close>)
    then show ?thesis by (simp add: w' access_defs)
  next
    case (Capturing e)
    have nf: "first w \<noteq> Some i" using not_first[OF d(5)] Capturing by auto
    show ?thesis
    proof (cases "exceptionCaptured (state w)")
      case True
      have w': "w' = set_wrapper i Completing w" using assms(1) Capturing True by (simp add: capture_cas_def)
      have "all_inv w'"
        by (rule all_inv_move[OF assms(2,3), of Completing])
          (use Capturing True ok in \<open>simp_all add: w' access_defs past_capture_def first_ok_other[OF d(5) nf]\<close>)
      then show ?thesis by (simp add: w' access_defs)
    next
      case False
      have n: "first w = None" "firstException (state w) = None"
        using d(5) False by (auto simp: first_ok_def split: option.splits)
      have w': "w' = set_wrapper i (Storing e) (w\<lparr>state := (state w)\<lparr>exceptionCaptured := True\<rparr>, first := Some i\<rparr>)"
        using assms(1) Capturing False by (simp add: capture_cas_def)
      have "all_inv w'"
        by (rule all_inv_move[OF assms(2,3), of "Storing e"])
          (use Capturing False ok n assms(3) in \<open>simp_all add: w' access_defs first_ok_def\<close>)
      then show ?thesis by (simp add: w' access_defs)
    qed
  next
    case (Storing e)
    have f: "first w = Some i" "outcomes w ! i = Some (Threw e)" using ok Storing by simp_all
    then have c: "exceptionCaptured (state w)" using d(5) by (simp add: first_ok_def)
    have w': "w' = set_wrapper i Completing (w\<lparr>state := capture_store e (state w)\<rparr>)" using assms(1) Storing by simp
    have "all_inv w'"
      by (rule all_inv_move[OF assms(2,3), of Completing])
        (use Storing f c assms(3) in \<open>simp_all add: w' access_defs past_capture_def first_ok_def\<close>)
    then show ?thesis by (simp add: w' access_defs)
  next
    case Completing
    obtain b t where cs: "complete_sub (state w) = (b, t)" by fastforce
    have w': "w' = set_wrapper i (if b then Resuming else Finished) (w\<lparr>state := t\<rparr>)" using assms(1) Completing cs by simp
    have t: "t = (state w)\<lparr>remaining := szsub (remaining (state w)) 1\<rparr>" using cs by (simp add: complete_sub_def)
    have "all_inv w'"
      by (rule all_inv_complete[OF assms(2,3), of "if b then Resuming else Finished"])
        (use Completing count_ok_complete[OF d(4) assms(3) Completing cs] in \<open>simp_all add: w' t set_wrapper_def\<close>)
    then show ?thesis by (simp add: w' set_wrapper_def)
  next
    case Resuming
    have "parent (state w)" using d(3) assms(3) Resuming by (auto simp: launch_ok_def split: option.splits)
    note c = count_ok_resume[OF d(4) assms(3) Resuming this]
    have w': "w' = set_wrapper i Finished (w\<lparr>resumes := resumes w + of_bool (parent (state w))\<rparr>)" using assms(1) Resuming by simp
    have "all_inv w'"
      by (rule all_inv_complete[OF assms(2,3), of Finished]) (use Resuming c in \<open>simp_all add: w' set_wrapper_def\<close>)
    then show ?thesis by (simp add: w' set_wrapper_def)
  qed (use assms(1) in simp_all)
qed

lemma all_step_inv:
  assumes "all_step w w'" "all_inv w"
  shows "all_inv w' \<and> resumes w \<le> resumes w'"
  using assms
proof (induction rule: all_step.induct)
  case (suspend w)
  note d = all_invD[OF suspend(3)]
  have "all_inv (await_suspend w)"
  proof (rule all_invI)
    show "wrappers_ok (await_suspend w)" unfolding wrappers_ok_def
      using d(6) by (auto simp: await_suspend_def wrappers_ok_def intro: wrapper_ok_frame)
  qed (use d suspend(1,2) in \<open>auto simp: await_suspend_def await_ready_def launch_ok_def count_ok_def first_ok_def split: option.splits\<close>)
  then show ?case by (simp add: await_suspend_def)
next
  case (detach w k)
  note d = all_invD[OF detach(3)]
  let ?w = "set_wrapper k Awaiting (w\<lparr>launching := Some (k + 1)\<rparr>)"
  have c: "wrappers w ! k = Created" using d(3) detach(1,2) by (auto simp: launch_ok_def)
  have nf: "first w \<noteq> Some k" using not_first[OF d(5)] c by auto
  have "outcomes w ! k = None" using d(6) detach(2) c unfolding wrappers_ok_def by (metis wrapper_ok.simps(1))
  then have "wrappers_ok ?w"
    by (intro wrappers_ok_update[OF d(6), of _ k Awaiting]) (use detach in \<open>simp_all add: set_wrapper_def\<close>)
  moreover have "count_ok ?w"
    by (rule count_ok_update[OF d(4) detach(2), of Awaiting]) (use c in \<open>simp_all add: set_wrapper_def\<close>)
  moreover have "first_ok ?w"
    by (rule first_ok_other[OF d(5) nf, of _ Awaiting]) (simp_all add: set_wrapper_def)
  moreover have "launch_ok ?w"
    using d(3) detach(1,2) by (auto simp: launch_ok_def set_wrapper_def nth_list_update)
  ultimately have "all_inv ?w" using d(1,2) by (intro all_invI) (simp_all add: set_wrapper_def)
  then show ?case by (simp add: set_wrapper_def)
next
  case (wrapper i w w')
  then show ?case using wrapper_inv by blast
next
  case (env i w w')
  then show ?case using env_step_inv by (metis order_refl)
qed

interpretation when_all: awaitable all_step all_initial all_inv "\<lambda>w. launching w \<noteq> None" resumes
proof
  fix w w' :: "'v whenAll"
  show "all_initial w \<Longrightarrow> all_inv w \<and> resumes w = 0" by (rule initial_inv)
  show "all_inv w \<Longrightarrow> all_step w w' \<Longrightarrow> all_inv w'" "all_inv w \<Longrightarrow> all_step w w' \<Longrightarrow> resumes w \<le> resumes w'"
    using all_step_inv by blast+
  assume inv: "all_inv w"
  show "resumes w \<le> 1" using all_invD(4)[OF inv] by (auto simp: count_ok_def of_bool_def split: if_splits)
  show "resumes w \<noteq> 0 \<Longrightarrow> launching w \<noteq> None"
  proof -
    assume "resumes w \<noteq> 0"
    then have "count_if (Not \<circ> counted) (wrappers w) = 0 \<and> wrappers w \<noteq> []"
      using all_invD(4)[OF inv] by (auto simp: count_ok_def of_bool_def split: if_splits)
    then have "0 < length (wrappers w)" "counted (wrappers w ! 0)" by (auto simp: count_if_zero)
    then have "0 < length (wrappers w)" "wrappers w ! 0 \<noteq> Created" by auto
    then show ?thesis using all_invD(3)[OF inv] by (auto simp: launch_ok_def split: option.splits)
  qed
qed

lemma all_reach_inv: "all_reach w \<Longrightarrow> all_inv w"
  unfolding all_reach_def using when_all.reach_inv by blast

section \<open>Progress\<close>

fun rank :: "'v wpc \<Rightarrow> nat" where
  "rank Created = 7"
| "rank Awaiting = 6"
| "rank (Emplacing v) = 5"
| "rank (Capturing e) = 4"
| "rank (Storing e) = 3"
| "rank Completing = 2"
| "rank Resuming = 1"
| "rank Finished = 0"

definition all_work :: "'v whenAll \<Rightarrow> nat" where
  "all_work w = sum_list (map rank (wrappers w)) + of_bool (launching w = None)"

lemma work_move:
  assumes "i < length (wrappers w)" "wrappers w' = (wrappers w)[i := p]" "rank p < rank (wrappers w ! i)"
    "launching w' = None \<longrightarrow> launching w = None"
  shows "all_work w' < all_work w"
  using sum_list_map_update[OF assms(1), of rank p] assms(2-4) by (auto simp: all_work_def)

lemma all_step_work:
  assumes "all_step w w'" "all_inv w"
  shows "all_work w' < all_work w"
  using assms
proof (induction rule: all_step.induct)
  case (suspend w)
  then show ?case by (simp add: all_work_def await_suspend_def)
next
  case (detach w k)
  then have "wrappers w ! k = Created" using all_invD(3)[OF detach(3)] by (auto simp: launch_ok_def)
  then show ?case by (intro work_move[OF detach(2), of _ Awaiting]) (simp_all add: set_wrapper_def)
next
  case (wrapper i w w')
  have "\<exists>p. wrappers w' = (wrappers w)[i := p] \<and> rank p < rank (wrappers w ! i) \<and> launching w' = launching w"
    using wrapper(2) by (cases "wrappers w ! i") (auto simp: access_defs split: if_splits)
  then show ?case using work_move[OF wrapper(1)] by metis
next
  case (env i w w')
  have "\<exists>p. wrappers w' = (wrappers w)[i := p] \<and> rank p < rank (wrappers w ! i) \<and> launching w' = launching w"
    using env(2) by cases (force simp: access_defs)+
  then show ?case using work_move[OF env(1)] by metis
qed

lemma wrapper_enabled:
  "whenAllWrapper i w = None \<longleftrightarrow> wrappers w ! i \<in> {Created, Awaiting, Finished}"
  by (cases "wrappers w ! i") (auto split: prod.splits)

lemma all_finished_resumed:
  assumes "all_inv w" "wrappers w \<noteq> []" "\<forall>i < length (wrappers w). wrappers w ! i = Finished"
  shows "resumes w = 1"
proof -
  have "count_if (Not \<circ> counted) (wrappers w) = 0" "count_if (\<lambda>p. p = Resuming) (wrappers w) = 0"
    using assms(3) by (simp_all add: count_if_zero)
  then show ?thesis using all_invD(4)[OF assms(1)] assms(2) by (simp add: count_ok_def)
qed

lemma resumed_all_finished:
  assumes "all_inv w" "resumes w = 1" "i < length (wrappers w)"
  shows "wrappers w ! i = Finished"
proof -
  have "count_if (Not \<circ> counted) (wrappers w) = 0" "count_if (\<lambda>p. p = Resuming) (wrappers w) = 0"
    using all_invD(4)[OF assms(1)] assms(2) by (auto simp: count_ok_def of_bool_def split: if_splits)
  then have "counted (wrappers w ! i)" "wrappers w ! i \<noteq> Resuming" using assms(3) by (auto simp: count_if_zero)
  then show ?thesis by (cases "wrappers w ! i") auto
qed

text \<open>When every wrapper is past its capture, what \<open>await_resume\<close> finds is decided by the outcomes.\<close>

lemma await_resume_outcomes:
  assumes "all_inv w" "\<forall>i < length (wrappers w). wrappers w ! i = Finished"
  shows "first w = None \<and> (\<exists>vs. outcomes w = map (\<lambda>v. Some (Returned v)) vs \<and> await_resume w = Inr (if is_void w then [] else vs)) \<or>
    (\<exists>i e. first w = Some i \<and> i < length (wrappers w) \<and> outcomes w ! i = Some (Threw e) \<and> await_resume w = Inl e)"
proof (cases "first w")
  case (Some i)
  then show ?thesis using all_invD(5)[OF assms(1)] assms(2) by (auto simp: first_ok_def await_resume_def)
next
  case None
  note d = all_invD[OF assms(1)]
  have no: "\<not> exceptionCaptured (state w)" "firstException (state w) = None" using d(5) None by (simp_all add: first_ok_def)
  have "past_capture w i" if "i < length (wrappers w)" for i
    using d(6) assms(2) that unfolding wrappers_ok_def by (metis wrapper_ok.simps(8))
  then have "\<forall>i < length (wrappers w). \<exists>v. outcomes w ! i = Some (Returned v) \<and> (is_void w \<or> results (state w) ! i = Some v)"
    using no by (auto simp: past_capture_def)
  then obtain f where f: "\<forall>i < length (wrappers w). outcomes w ! i = Some (Returned (f i)) \<and> (is_void w \<or> results (state w) ! i = Some (f i))"
    by metis
  let ?vs = "map f [0..<length (wrappers w)]"
  have o: "outcomes w = map (\<lambda>v. Some (Returned v)) ?vs" by (rule nth_equalityI) (use d(1) f in auto)
  have "results (state w) = map Some ?vs" if "\<not> is_void w" by (rule nth_equalityI) (use d(2) f that in auto)
  then have "await_resume w = Inr (if is_void w then [] else ?vs)"
    using no by (auto simp: await_resume_def extractResults_def image_iff o_def)
  then show ?thesis using None o by blast
qed

section \<open>Example\<close>

lemma all_reach_step: "all_reach w \<Longrightarrow> all_step w w' \<Longrightarrow> all_reach w'"
  unfolding all_reach_def by (meson rtranclp.rtrancl_into_rtrancl)

text \<open>Two sub-tasks: the second throws before the first returns, and the first completes last.\<close>

definition demo_all :: "nat \<Rightarrow> bool \<Rightarrow> nat wpc \<Rightarrow> nat wpc \<Rightarrow> nat \<Rightarrow> nat whenAll" where
  "demo_all left done0 p0 p1 k = \<lparr>state = \<lparr>remaining = left, parent = True, exceptionCaptured = True,
      firstException = Some (Runtime_error ''b''), results = [if done0 then Some 5 else None, None]\<rparr>,
     is_void = False, wrappers = [p0, p1], launching = Some 2, resumes = k,
     outcomes = [if done0 then Some (Returned 5) else None, Some (Threw (Runtime_error ''b''))], first = Some 1\<rparr>"

lemma demo_all_thrown: "all_reach (demo_all 2 False Awaiting Completing 0)"
proof -
  let ?e = "Runtime_error ''b''"
  let ?s = "\<lambda>c f. \<lparr>remaining = 2, parent = True, exceptionCaptured = c, firstException = f, results = [None, None]\<rparr>"
  let ?w = "\<lambda>s p0 p1 l os f. \<lparr>state = s, is_void = False, wrappers = [p0, p1], launching = l, resumes = 0,
     outcomes = os, first = f\<rparr> :: nat whenAll"
  have "all_initial (WhenAllAwaitable False 2 :: nat whenAll)" unfolding all_initial_def
    by (intro exI[of _ False] exI[of _ 2]) (simp add: SIZE_MOD_def)
  then have "all_reach (WhenAllAwaitable False 2 :: nat whenAll)" unfolding all_reach_def by blast
  from all_reach_step[OF this suspend]
  have "all_reach (?w (?s False None) Created Created (Some 0) [None, None] None)"
    by (simp add: WhenAllAwaitable_def WhenAllState_def await_ready_def await_suspend_def numeral_2_eq_2)
  from all_reach_step[OF this detach[of _ 0]]
  have "all_reach (?w (?s False None) Awaiting Created (Some 1) [None, None] None)" by (simp add: set_wrapper_def)
  from all_reach_step[OF this detach[of _ 1]]
  have "all_reach (?w (?s False None) Awaiting Awaiting (Some 2) [None, None] None)" by (simp add: set_wrapper_def numeral_2_eq_2)
  from all_reach_step[OF this env[of 1, OF _ throws[of _ _ ?e]]]
  have "all_reach (?w (?s False None) Awaiting (Capturing ?e) (Some 2) [None, Some (Threw ?e)] None)" by (simp add: access_defs)
  from all_reach_step[OF this wrapper[of 1]]
  have "all_reach (?w (?s True None) Awaiting (Storing ?e) (Some 2) [None, Some (Threw ?e)] (Some 1))" by (simp add: access_defs)
  from all_reach_step[OF this wrapper[of 1]]
  show ?thesis by (simp add: access_defs demo_all_def)
qed

lemma demo_all_last: "all_reach (demo_all 1 True Completing Finished 0)"
proof -
  from all_reach_step[OF demo_all_thrown wrapper[of 1]]
  have "all_reach (demo_all 1 False Awaiting Finished 0)" by (simp add: access_defs demo_all_def szsub_def SIZE_MOD_def)
  from all_reach_step[OF this env[of 0, OF _ returns_value[of _ _ 5]]]
  have "all_reach (demo_all 1 False (Emplacing 5) Finished 0)" by (simp add: access_defs demo_all_def)
  from all_reach_step[OF this wrapper[of 0]]
  show ?thesis by (simp add: access_defs demo_all_def)
qed

lemma demo_all_done: "all_reach (demo_all 0 True Finished Finished 1)"
proof -
  from all_reach_step[OF demo_all_last wrapper[of 0]]
  have "all_reach (demo_all 0 True Resuming Finished 0)" by (simp add: access_defs demo_all_def szsub_def SIZE_MOD_def)
  from all_reach_step[OF this wrapper[of 0]]
  show ?thesis by (simp add: access_defs demo_all_def)
qed

section \<open>Properties\<close>

text \<open>C18. \<open>whenAll\<close> resumes the awaiting coroutine at most once, and only when every sub-task has ended, however the wrappers
  interleave. It then finds the values of all sub-tasks in the order of the arguments when none threw, and otherwise the exception
  of the sub-task that captured first; no result slot is read empty.\<close>

theorem whenAll_joins:
  assumes "all_reach w"
  shows "resumes w \<le> 1 \<and>
    (resumes w = 1 \<longrightarrow>
       (\<forall>i < length (wrappers w). wrappers w ! i = Finished) \<and>
       (first w = None \<and> (\<exists>vs. outcomes w = map (\<lambda>v. Some (Returned v)) vs \<and> await_resume w = Inr (if is_void w then [] else vs)) \<or>
        (\<exists>i e. first w = Some i \<and> i < length (wrappers w) \<and> outcomes w ! i = Some (Threw e) \<and> await_resume w = Inl e)))"
proof -
  have inv: "all_inv w" by (rule all_reach_inv[OF assms])
  have "resumes w \<le> 1" by (rule when_all.at_most_once[OF inv])
  then show ?thesis using resumed_all_finished[OF inv] await_resume_outcomes[OF inv] by blast
qed

theorem whenAll_joins_witness:
  "all_reach (demo_all 0 True Finished Finished 1) \<and> await_resume (demo_all 0 True Finished Finished 1) = Inl (Runtime_error ''b'')"
proof -
  have "resumes (demo_all 0 True Finished Finished 1) = 1" by (simp add: demo_all_def)
  then show ?thesis using whenAll_joins[OF demo_all_done] demo_all_done by (auto simp: demo_all_def)
qed

text \<open>C19. \<open>whenAll\<close> does not lose a completion: every step lowers the outstanding work, and once the wrappers are launched and no
  sub-task is pending, either a wrapper has a step to make or the awaiting coroutine was resumed.\<close>

theorem whenAll_completes:
  assumes "all_reach w"
  shows "(\<forall>w'. all_step w w' \<longrightarrow> all_work w' < all_work w) \<and>
    (launching w = Some (length (wrappers w)) \<and> (\<forall>i < length (wrappers w). wrappers w ! i \<noteq> Awaiting) \<longrightarrow>
       resumes w = 1 \<or> (\<exists>i < length (wrappers w). \<exists>w'. whenAllWrapper i w = Some w'))"
proof -
  have inv: "all_inv w" by (rule all_reach_inv[OF assms])
  have "resumes w = 1" if l: "launching w = Some (length (wrappers w))" "\<forall>i < length (wrappers w). wrappers w ! i \<noteq> Awaiting"
    and stuck: "\<not> (\<exists>i < length (wrappers w). \<exists>w'. whenAllWrapper i w = Some w')"
  proof (rule all_finished_resumed[OF inv])
    have lo: "wrappers w \<noteq> []" "\<forall>i < length (wrappers w). wrappers w ! i \<noteq> Created"
      using all_invD(3)[OF inv] l(1) by (auto simp: launch_ok_def)
    then show "wrappers w \<noteq> []" by simp
    have "\<forall>i < length (wrappers w). whenAllWrapper i w = None" using stuck by (metis not_Some_eq)
    then show "\<forall>i < length (wrappers w). wrappers w ! i = Finished" unfolding wrapper_enabled using lo(2) l(2) by fast
  qed
  then show ?thesis using all_step_work[OF _ inv] by blast
qed

theorem whenAll_completes_witness:
  "\<exists>i w'. whenAllWrapper i (demo_all 1 True Completing Finished 0) = Some w' \<and> all_work w' < 2"
proof -
  let ?w = "demo_all 1 True Completing Finished 0"
  have two: "length (wrappers ?w) = 2" "all_work ?w = 2" by (simp_all add: demo_all_def all_work_def)
  have "launching ?w = Some (length (wrappers ?w)) \<and> (\<forall>i < length (wrappers ?w). wrappers ?w ! i \<noteq> Awaiting)"
    by (simp add: demo_all_def less_Suc_eq numeral_2_eq_2)
  moreover have "resumes ?w \<noteq> 1" by (simp add: demo_all_def)
  ultimately obtain i w' where i: "i < length (wrappers ?w)" "whenAllWrapper i ?w = Some w'"
    using whenAll_completes[OF demo_all_last] by blast
  then have "all_work w' < all_work ?w" using whenAll_completes[OF demo_all_last] wrapper[OF i] by blast
  then show ?thesis using i(2) two(2) by (intro exI conjI) simp_all
qed

end
