(* ===== verification/When_Any.thy ===== *)
theory When_Any
  imports Awaitable
begin

text \<open>
  \<^verbatim>\<open>coroutine/WhenAny.h\<close>: \<open>whenAny\<close> resumes the awaiting coroutine when the first of its sub-tasks ends and cancels the others.

  As in \<open>When_All\<close>, a step is one access to the shared block, and the wrappers interleave freely. A sub-task ends as the environment
  chooses, in particular a loser may end because its token was cancelled. The second argument of \<open>whenAnyWrapper\<close> is the exception that
  moving the value or \<open>CancellationSource::cancel\<close> throws, if any. Cancelling a source sets its flag before it calls back
  (\<open>Cancel_Token\<close>), so the flag of a source is set even when its callbacks throw. The flag \<open>is_void\<close> selects the \<open>void\<close> overload.
\<close>

section \<open>Linked tokens\<close>

text \<open>\<open>LinkedCancellation\<close>: its own source is cancelled when one of the tokens it was linked to is. A token without state is
  \<open>None\<close>.\<close>

record 't linkedCancellation =
  linked :: bool
  registrations :: "'t list"

definition LinkedCancellation :: "'t linkedCancellation" where
  "LinkedCancellation = \<lparr>linked = False, registrations = []\<rparr>"

definition link_token :: "'t option \<Rightarrow> 't linkedCancellation \<Rightarrow> 't linkedCancellation" where
  "link_token token lc =
     (case token of None \<Rightarrow> lc | Some t \<Rightarrow> lc\<lparr>linked := True, registrations := registrations lc @ [t]\<rparr>)"

definition linked_requested :: "('t \<Rightarrow> bool) \<Rightarrow> 't linkedCancellation \<Rightarrow> bool" where
  "linked_requested requested lc = list_ex requested (registrations lc)"

section \<open>State\<close>

text \<open>The token a task came with, and the one of the source that cancels it when it loses.\<close>

datatype any_token = TaskToken nat | SourceToken nat

record 'v whenAnyState =
  any_done :: bool
  any_parent :: bool
  winnerIndex :: nat
  winnerValue :: "'v option"
  winnerException :: "cpp_error option"
  cancellationSources :: "bool list"
  linkedCancellations :: "any_token linkedCancellation list"

datatype 'v apc =
    ACreated
  | AAwaiting
  | ATrying "'v outcome"
  | AWon "'v outcome"
  | AKeeping "'v outcome"
  | ACancelling nat
  | AResuming
  | AFinished

record 'v whenAny =
  any_state :: "'v whenAnyState"
  any_void :: bool
  any_wrappers :: "'v apc list"
  any_launching :: "nat option"
  any_resumes :: nat
  any_outcomes :: "'v outcome option list"
  winner :: "nat option"
  faults :: "cpp_error list"

text \<open>The constructor, given which tasks have a token: the links in the order it makes them.\<close>

definition linked_task :: "bool \<Rightarrow> nat \<Rightarrow> any_token linkedCancellation" where
  "linked_task has_token i =
     link_token (Some (SourceToken i)) (link_token (if has_token then Some (TaskToken i) else None) LinkedCancellation)"

definition WhenAnyState :: "bool list \<Rightarrow> 'v whenAnyState" where
  "WhenAnyState tokens = \<lparr>any_done = False, any_parent = False, winnerIndex = 0, winnerValue = None, winnerException = None,
     cancellationSources = replicate (length tokens) False,
     linkedCancellations = map (\<lambda>i. linked_task (tokens ! i) i) [0..<length tokens]\<rparr>"

definition WhenAnyAwaitable :: "bool \<Rightarrow> bool list \<Rightarrow> 'v whenAny" where
  "WhenAnyAwaitable void tokens = \<lparr>any_state = WhenAnyState tokens, any_void = void,
     any_wrappers = replicate (length tokens) ACreated, any_launching = None, any_resumes = 0,
     any_outcomes = replicate (length tokens) None, winner = None, faults = []\<rparr>"

section \<open>Operations\<close>

text \<open>\<open>tryWin\<close>: the compare-exchange and the store of the index.\<close>

definition tryWin :: "'v whenAnyState \<Rightarrow> bool \<times> 'v whenAnyState" where
  "tryWin s = (if any_done s then (False, s) else (True, s\<lparr>any_done := True\<rparr>))"

definition store_index :: "nat \<Rightarrow> 'v whenAnyState \<Rightarrow> 'v whenAnyState" where
  "store_index i s = s\<lparr>winnerIndex := i\<rparr>"

text \<open>The winner keeps its outcome; moving a value may throw \<open>fault\<close>. A \<open>void\<close> task has no value.\<close>

definition keep_outcome :: "bool \<Rightarrow> cpp_error option \<Rightarrow> 'v outcome \<Rightarrow> 'v whenAnyState \<Rightarrow> 'v whenAnyState" where
  "keep_outcome void fault out s =
     (case out of
        Threw e \<Rightarrow> s\<lparr>winnerException := Some e\<rparr>
      | Returned v \<Rightarrow>
          if void then s
          else case fault of None \<Rightarrow> s\<lparr>winnerValue := Some v\<rparr> | Some e \<Rightarrow> s\<lparr>winnerException := Some e\<rparr>)"

text \<open>One iteration of \<open>cancelLosers\<close>, with the exception that \<open>cancel\<close> throws.\<close>

definition cancel_loser :: "nat \<Rightarrow> nat \<Rightarrow> cpp_error option \<Rightarrow> 'v whenAnyState \<Rightarrow> 'v whenAnyState" where
  "cancel_loser i win fault s =
     (if i \<noteq> win
      then s\<lparr>cancellationSources := (cancellationSources s)[i := True],
             winnerException := (if winnerException s = None then fault else winnerException s)\<rparr>
      else s)"

definition any_await_ready :: "'v whenAny \<Rightarrow> bool" where
  "any_await_ready w = False"

definition any_await_suspend :: "'v whenAny \<Rightarrow> 'v whenAny" where
  "any_await_suspend w = w\<lparr>any_state := (any_state w)\<lparr>any_parent := True\<rparr>, any_launching := Some 0\<rparr>"

text \<open>\<open>WhenAnyResult\<close>: the index, with the value unless the tasks are \<open>void\<close>; reading an empty \<open>optional\<close> is undefined.\<close>

definition any_await_resume :: "'v whenAny \<Rightarrow> (nat \<times> 'v option) res" where
  "any_await_resume w =
     (case winnerException (any_state w) of
        Some e \<Rightarrow> Inl e
      | None \<Rightarrow>
          if any_void w then Inr (winnerIndex (any_state w), None)
          else case winnerValue (any_state w) of
                 None \<Rightarrow> Inl Out_of_bounds
               | Some v \<Rightarrow> Inr (winnerIndex (any_state w), Some v))"

text \<open>The token of sub-task \<open>i\<close> is cancelled; \<open>own\<close> says which of the tokens that the tasks came with are.\<close>

definition task_cancelled :: "(nat \<Rightarrow> bool) \<Rightarrow> 'v whenAny \<Rightarrow> nat \<Rightarrow> bool" where
  "task_cancelled own w i =
     linked_requested (\<lambda>t. case t of TaskToken j \<Rightarrow> own j | SourceToken j \<Rightarrow> cancellationSources (any_state w) ! j)
       (linkedCancellations (any_state w) ! i)"

section \<open>Steps\<close>

definition set_any :: "nat \<Rightarrow> 'v apc \<Rightarrow> 'v whenAnyState \<Rightarrow> 'v whenAny \<Rightarrow> 'v whenAny" where
  "set_any i p s w = w\<lparr>any_state := s, any_wrappers := (any_wrappers w)[i := p]\<rparr>"

definition note_fault :: "bool \<Rightarrow> cpp_error option \<Rightarrow> 'v whenAny \<Rightarrow> 'v whenAny" where
  "note_fault relevant fault w = w\<lparr>faults := faults w @ (if relevant then case fault of None \<Rightarrow> [] | Some e \<Rightarrow> [e] else [])\<rparr>"

text \<open>\<open>whenAnyValueWrapper\<close> and \<open>whenAnyVoidWrapper\<close> after the \<open>co_await\<close>, one access at a time.\<close>

fun whenAnyWrapper :: "nat \<Rightarrow> cpp_error option \<Rightarrow> 'v whenAny \<Rightarrow> 'v whenAny option" where
  "whenAnyWrapper i fault w =
     (case any_wrappers w ! i of
        ATrying out \<Rightarrow>
          (let (won, s) = tryWin (any_state w)
           in if won then Some ((set_any i (AWon out) s w)\<lparr>winner := Some i\<rparr>)
              else Some (set_any i AFinished s w))
      | AWon out \<Rightarrow> Some (set_any i (AKeeping out) (store_index i (any_state w)) w)
      | AKeeping out \<Rightarrow>
          Some (note_fault (case out of Returned v \<Rightarrow> \<not> any_void w | Threw e \<Rightarrow> False) fault
            (set_any i (ACancelling 0) (keep_outcome (any_void w) fault out (any_state w)) w))
      | ACancelling j \<Rightarrow>
          if j < length (any_wrappers w)
          then Some (note_fault (j \<noteq> i) fault (set_any i (ACancelling (j + 1)) (cancel_loser j i fault (any_state w)) w))
          else Some (set_any i AResuming (any_state w) w)
      | AResuming \<Rightarrow>
          Some ((set_any i AFinished (any_state w) w)\<lparr>any_resumes := any_resumes w + of_bool (any_parent (any_state w))\<rparr>)
      | _ \<Rightarrow> None)"

inductive any_step :: "'v whenAny \<Rightarrow> 'v whenAny \<Rightarrow> bool" where
  any_suspend: "any_launching w = None \<Longrightarrow> any_wrappers w \<noteq> [] \<Longrightarrow> any_step w (any_await_suspend w)"
| any_detach: "any_launching w = Some k \<Longrightarrow> k < length (any_wrappers w) \<Longrightarrow>
    any_step w ((set_any k AAwaiting (any_state w) w)\<lparr>any_launching := Some (k + 1)\<rparr>)"
| sub_ends: "i < length (any_wrappers w) \<Longrightarrow> any_wrappers w ! i = AAwaiting \<Longrightarrow>
    any_step w ((set_any i (ATrying out) (any_state w) w)\<lparr>any_outcomes := (any_outcomes w)[i := Some out]\<rparr>)"
| any_wrapper: "i < length (any_wrappers w) \<Longrightarrow> whenAnyWrapper i fault w = Some w' \<Longrightarrow> any_step w w'"

definition any_initial :: "'v whenAny \<Rightarrow> bool" where
  "any_initial w \<longleftrightarrow> (\<exists>void tokens. w = WhenAnyAwaitable void tokens)"

definition any_reach :: "'v whenAny \<Rightarrow> bool" where
  "any_reach w \<longleftrightarrow> (\<exists>w0. any_initial w0 \<and> any_step\<^sup>*\<^sup>* w0 w)"

section \<open>Invariant\<close>

text \<open>Where the winner may be and what the block then holds: the index, the outcome, the sources cancelled so far.\<close>

definition kept :: "'v whenAny \<Rightarrow> nat \<Rightarrow> bool" where
  "kept w i \<longleftrightarrow> winnerIndex (any_state w) = i \<and>
     (\<exists>out. any_outcomes w ! i = Some out \<and>
        (case out of
           Threw e \<Rightarrow> winnerException (any_state w) = Some e
         | Returned v \<Rightarrow>
             winnerException (any_state w) = (case faults w of [] \<Rightarrow> None | e # _ \<Rightarrow> Some e) \<and>
             (any_void w \<or> winnerException (any_state w) \<noteq> None \<or> winnerValue (any_state w) = Some v)))"

definition sources_cancelled :: "'v whenAny \<Rightarrow> nat \<Rightarrow> nat \<Rightarrow> bool" where
  "sources_cancelled w i k \<longleftrightarrow>
     (\<forall>j < length (any_wrappers w). cancellationSources (any_state w) ! j \<longleftrightarrow> j \<noteq> i \<and> j < k)"

definition untouched :: "'v whenAny \<Rightarrow> bool" where
  "untouched w \<longleftrightarrow> winnerException (any_state w) = None \<and> faults w = []"

fun winner_ok :: "'v whenAny \<Rightarrow> nat \<Rightarrow> 'v apc \<Rightarrow> bool" where
  "winner_ok w i (AWon out) = (any_outcomes w ! i = Some out \<and> untouched w \<and> sources_cancelled w i 0 \<and> any_resumes w = 0)"
| "winner_ok w i (AKeeping out) = (any_outcomes w ! i = Some out \<and> untouched w \<and> sources_cancelled w i 0 \<and> any_resumes w = 0 \<and>
     winnerIndex (any_state w) = i)"
| "winner_ok w i (ACancelling k) = (kept w i \<and> sources_cancelled w i k \<and> any_resumes w = 0)"
| "winner_ok w i AResuming = (kept w i \<and> sources_cancelled w i (length (any_wrappers w)) \<and> any_resumes w = 0)"
| "winner_ok w i AFinished = (kept w i \<and> sources_cancelled w i (length (any_wrappers w)) \<and> any_resumes w = 1)"
| "winner_ok w i _ = False"

fun racing_ok :: "'v whenAny \<Rightarrow> nat \<Rightarrow> 'v apc \<Rightarrow> bool" where
  "racing_ok w i ACreated = (any_outcomes w ! i = None)"
| "racing_ok w i AAwaiting = (any_outcomes w ! i = None)"
| "racing_ok w i (ATrying out) = (any_outcomes w ! i = Some out)"
| "racing_ok w i AFinished = (winner w \<noteq> None)"
| "racing_ok w i _ = False"

definition any_launch_ok :: "'v whenAny \<Rightarrow> bool" where
  "any_launch_ok w \<longleftrightarrow> any_parent (any_state w) = (any_launching w \<noteq> None) \<and>
     (\<forall>i < length (any_wrappers w). any_wrappers w ! i = ACreated \<longleftrightarrow> (case any_launching w of None \<Rightarrow> True | Some k \<Rightarrow> k \<le> i)) \<and>
     (\<forall>k. any_launching w = Some k \<longrightarrow> k \<le> length (any_wrappers w))"

definition race_ok :: "'v whenAny \<Rightarrow> bool" where
  "race_ok w \<longleftrightarrow> any_done (any_state w) = (winner w \<noteq> None) \<and>
     (\<forall>i < length (any_wrappers w). winner w \<noteq> Some i \<longrightarrow> racing_ok w i (any_wrappers w ! i)) \<and>
     (case winner w of
        None \<Rightarrow> untouched w \<and> any_resumes w = 0 \<and> (\<forall>j < length (any_wrappers w). \<not> cancellationSources (any_state w) ! j)
      | Some i \<Rightarrow> i < length (any_wrappers w) \<and> winner_ok w i (any_wrappers w ! i))"

definition any_inv :: "'v whenAny \<Rightarrow> bool" where
  "any_inv w \<longleftrightarrow> length (any_outcomes w) = length (any_wrappers w) \<and>
     length (cancellationSources (any_state w)) = length (any_wrappers w) \<and>
     (\<exists>tokens. length tokens = length (any_wrappers w) \<and>
        linkedCancellations (any_state w) = map (\<lambda>i. linked_task (tokens ! i) i) [0..<length tokens]) \<and>
     any_launch_ok w \<and> race_ok w"

lemma any_invD:
  assumes "any_inv w"
  shows "length (any_outcomes w) = length (any_wrappers w)" "length (cancellationSources (any_state w)) = length (any_wrappers w)"
    "\<exists>tokens. length tokens = length (any_wrappers w) \<and>
        linkedCancellations (any_state w) = map (\<lambda>i. linked_task (tokens ! i) i) [0..<length tokens]"
    "any_launch_ok w" "race_ok w"
  using assms by (simp_all add: any_inv_def)

lemma any_initial_inv: "any_initial w \<Longrightarrow> any_inv w \<and> any_resumes w = 0"
  by (auto simp: any_initial_def any_inv_def WhenAnyAwaitable_def WhenAnyState_def any_launch_ok_def race_ok_def untouched_def
      sources_cancelled_def intro!: exI)

lemmas any_defs = set_any_def note_fault_def tryWin_def store_index_def keep_outcome_def cancel_loser_def

lemma kept_frame:
  "any_outcomes w' ! i = any_outcomes w ! i \<Longrightarrow> any_state w' = any_state w \<Longrightarrow> faults w' = faults w \<Longrightarrow> any_void w' = any_void w \<Longrightarrow>
   kept w' i = kept w i"
  unfolding kept_def by (simp only:)

lemma winner_ok_frame:
  assumes "winner_ok w k p" "any_outcomes w' ! k = any_outcomes w ! k" "any_state w' = any_state w" "faults w' = faults w"
    "any_void w' = any_void w" "any_resumes w' = any_resumes w" "length (any_wrappers w') = length (any_wrappers w)"
  shows "winner_ok w' k p"
proof -
  have "untouched w' = untouched w" "kept w' k = kept w k" "sources_cancelled w' k n = sources_cancelled w k n" for n
    using kept_frame[OF assms(2-5)] by (simp_all add: untouched_def sources_cancelled_def assms(2-))
  then show ?thesis using assms by (cases p) simp_all
qed

lemma racing_ok_frame:
  assumes "racing_ok w k p" "any_outcomes w' ! k = any_outcomes w ! k" "winner w \<noteq> None \<longrightarrow> winner w' \<noteq> None"
  shows "racing_ok w' k p"
  using assms by (cases p) auto

text \<open>A move of a wrapper that has not won, and one of the winner.\<close>

lemma race_ok_racing:
  assumes "race_ok w" "winner w \<noteq> Some i" "any_wrappers w' = (any_wrappers w)[i := p]" "racing_ok w' i p"
    "winner w' = winner w" "any_state w' = any_state w" "faults w' = faults w" "any_void w' = any_void w" "any_resumes w' = any_resumes w"
    "\<And>j. j \<noteq> i \<Longrightarrow> any_outcomes w' ! j = any_outcomes w ! j"
  shows "race_ok w'"
proof -
  have "racing_ok w' j (any_wrappers w' ! j)" if "j < length (any_wrappers w')" "winner w' \<noteq> Some j" for j
  proof (cases "j = i")
    case True
    then show ?thesis using assms(3,4) that by simp
  next
    case False
    then show ?thesis using assms that racing_ok_frame[of w j "any_wrappers w ! j" w'] by (auto simp: race_ok_def)
  qed
  moreover have "case winner w' of
        None \<Rightarrow> untouched w' \<and> any_resumes w' = 0 \<and> (\<forall>j < length (any_wrappers w'). \<not> cancellationSources (any_state w') ! j)
      | Some k \<Rightarrow> k < length (any_wrappers w') \<and> winner_ok w' k (any_wrappers w' ! k)"
  proof (cases "winner w")
    case None
    then show ?thesis using assms by (auto simp: race_ok_def untouched_def)
  next
    case (Some k)
    then have k: "k \<noteq> i" "k < length (any_wrappers w)" "winner_ok w k (any_wrappers w ! k)" using assms(1,2) by (auto simp: race_ok_def)
    then show ?thesis using Some assms winner_ok_frame[OF k(3), of w'] by simp
  qed
  ultimately show ?thesis using assms by (simp add: race_ok_def)
qed

lemma race_ok_winner:
  assumes "race_ok w" "winner w = Some i" "any_wrappers w' = (any_wrappers w)[i := p]" "winner_ok w' i p"
    "winner w' = winner w" "any_done (any_state w') = any_done (any_state w)" "any_outcomes w' = any_outcomes w"
  shows "race_ok w'"
proof -
  have "racing_ok w' j (any_wrappers w' ! j)" if "j < length (any_wrappers w')" "winner w' \<noteq> Some j" for j
    using assms that racing_ok_frame[of w j "any_wrappers w ! j" w'] by (auto simp: race_ok_def)
  moreover have "i < length (any_wrappers w)" using assms(1,2) by (simp add: race_ok_def)
  ultimately show ?thesis using assms by (simp add: race_ok_def)
qed

text \<open>The first compare-exchange decides the race.\<close>

lemma race_ok_wins:
  assumes "race_ok w" "i < length (any_wrappers w)" "any_wrappers w ! i = ATrying out" "winner w = None"
  shows "race_ok ((set_any i (AWon out) ((any_state w)\<lparr>any_done := True\<rparr>) w)\<lparr>winner := Some i\<rparr>)" (is "race_ok ?w")
proof -
  have "racing_ok ?w j (any_wrappers ?w ! j)" if "j < length (any_wrappers ?w)" "winner ?w \<noteq> Some j" for j
    using assms that racing_ok_frame[of w j "any_wrappers w ! j" ?w] by (auto simp: race_ok_def set_any_def)
  moreover have "racing_ok w i (ATrying out)" using assms unfolding race_ok_def by (metis option.discI)
  moreover have "untouched w \<and> any_resumes w = 0 \<and> (\<forall>j < length (any_wrappers w). \<not> cancellationSources (any_state w) ! j)"
    using assms(1,4) by (simp add: race_ok_def)
  ultimately show ?thesis using assms(2) by (simp add: race_ok_def set_any_def untouched_def sources_cancelled_def)
qed

lemma any_launch_ok_update:
  assumes "any_launch_ok w" "i < length (any_wrappers w)" "any_wrappers w ! i \<noteq> ACreated" "p \<noteq> ACreated"
    "any_wrappers w' = (any_wrappers w)[i := p]" "any_launching w' = any_launching w" "any_parent (any_state w') = any_parent (any_state w)"
  shows "any_launch_ok w'"
  using assms by (auto simp: any_launch_ok_def nth_list_update)

lemma any_inv_move:
  assumes "any_inv w" "i < length (any_wrappers w)" "any_wrappers w ! i \<noteq> ACreated" "p \<noteq> ACreated"
    "any_wrappers w' = (any_wrappers w)[i := p]" "any_launching w' = any_launching w" "any_parent (any_state w') = any_parent (any_state w)"
    "length (any_outcomes w') = length (any_outcomes w)"
    "length (cancellationSources (any_state w')) = length (cancellationSources (any_state w))"
    "linkedCancellations (any_state w') = linkedCancellations (any_state w)" "race_ok w'"
  shows "any_inv w'"
  using any_launch_ok_update[OF _ assms(2-7)] assms(1,5,8-11) by (simp add: any_inv_def)

lemma not_winner:
  assumes "race_ok w" "any_wrappers w ! i \<in> {ACreated, AAwaiting} \<or> (\<exists>out. any_wrappers w ! i = ATrying out)"
  shows "winner w \<noteq> Some i"
  using assms by (auto simp: race_ok_def)

lemma is_winner:
  assumes "race_ok w" "i < length (any_wrappers w)"
    "(\<exists>out. any_wrappers w ! i = AWon out) \<or> (\<exists>out. any_wrappers w ! i = AKeeping out) \<or> (\<exists>k. any_wrappers w ! i = ACancelling k) \<or>
     any_wrappers w ! i = AResuming"
  shows "winner w = Some i" "winner_ok w i (any_wrappers w ! i)"
proof -
  show w: "winner w = Some i"
  proof (rule ccontr)
    assume "winner w \<noteq> Some i"
    then have "racing_ok w i (any_wrappers w ! i)" using assms(1,2) by (simp add: race_ok_def)
    then show False using assms(3) by auto
  qed
  show "winner_ok w i (any_wrappers w ! i)" using assms(1) w by (simp add: race_ok_def)
qed

text \<open>Keeping the outcome, and one more source cancelled.\<close>

lemma kept_outcome:
  assumes "any_outcomes w ! i = Some out" "untouched w" "winnerIndex (any_state w) = i"
  shows "kept (note_fault (case out of Returned v \<Rightarrow> \<not> any_void w | Threw e \<Rightarrow> False) fault
    (set_any i p (keep_outcome (any_void w) fault out (any_state w)) w)) i"
  using assms by (cases out; cases fault) (auto simp: kept_def untouched_def any_defs)

lemma kept_cancel:
  assumes "kept w i"
  shows "kept (note_fault (j \<noteq> i) fault (set_any i p (cancel_loser j i fault (any_state w)) w)) i"
proof -
  obtain out where out: "any_outcomes w ! i = Some out" using assms by (auto simp: kept_def)
  show ?thesis
    using assms out by (cases out; cases fault; cases "faults w") (auto simp: kept_def any_defs)
qed

lemma sources_cancel:
  assumes "sources_cancelled w i j" "length (cancellationSources (any_state w)) = length (any_wrappers w)" "j < length (any_wrappers w)"
  shows "sources_cancelled (note_fault b fault (set_any i p (cancel_loser j i fault (any_state w)) w)) i (Suc j)"
  using assms by (auto simp: sources_cancelled_def any_defs nth_list_update less_Suc_eq)

lemma any_wrapper_inv:
  assumes "whenAnyWrapper i fault w = Some w'" "any_inv w" "i < length (any_wrappers w)"
  shows "any_inv w' \<and> any_resumes w \<le> any_resumes w'"
proof -
  note d = any_invD[OF assms(2)]
  show ?thesis
  proof (cases "any_wrappers w ! i")
    case (ATrying out)
    have nw: "winner w \<noteq> Some i" using not_winner[OF d(5)] ATrying by blast
    show ?thesis
    proof (cases "any_done (any_state w)")
      case True
      have w': "w' = set_any i AFinished (any_state w) w" using assms(1) ATrying True by (simp add: tryWin_def)
      have "winner w \<noteq> None" using d(5) True by (simp add: race_ok_def)
      then have "race_ok w'" by (intro race_ok_racing[OF d(5) nw, of _ AFinished]) (simp_all add: w' set_any_def)
      then have "any_inv w'"
        by (intro any_inv_move[OF assms(2,3), of AFinished]) (use ATrying in \<open>simp_all add: w' set_any_def\<close>)
      then show ?thesis by (simp add: w' set_any_def)
    next
      case False
      have n: "winner w = None" using d(5) False by (simp add: race_ok_def)
      have w': "w' = (set_any i (AWon out) ((any_state w)\<lparr>any_done := True\<rparr>) w)\<lparr>winner := Some i\<rparr>"
        using assms(1) ATrying False by (simp add: tryWin_def)
      have "any_inv w'"
        by (rule any_inv_move[OF assms(2,3), of "AWon out"])
          (use ATrying race_ok_wins[OF d(5) assms(3) ATrying n] in \<open>simp_all add: w' set_any_def\<close>)
      then show ?thesis by (simp add: w' set_any_def)
    qed
  next
    case (AWon out)
    have w: "winner w = Some i" "winner_ok w i (AWon out)" using is_winner[OF d(5) assms(3)] AWon by auto
    have w': "w' = set_any i (AKeeping out) (store_index i (any_state w)) w" using assms(1) AWon by simp
    have "winner_ok w' i (AKeeping out)" using w(2) by (simp add: w' any_defs untouched_def sources_cancelled_def)
    then have "race_ok w'" by (intro race_ok_winner[OF d(5) w(1), of w' "AKeeping out"]) (simp_all add: w' any_defs)
    then have "any_inv w'" by (intro any_inv_move[OF assms(2,3), of "AKeeping out"]) (use AWon in \<open>simp_all add: w' any_defs\<close>)
    then show ?thesis by (simp add: w' any_defs)
  next
    case (AKeeping out)
    have w: "winner w = Some i" "winner_ok w i (AKeeping out)" using is_winner[OF d(5) assms(3)] AKeeping by auto
    have w': "w' = note_fault (case out of Returned v \<Rightarrow> \<not> any_void w | Threw e \<Rightarrow> False) fault
        (set_any i (ACancelling 0) (keep_outcome (any_void w) fault out (any_state w)) w)" using assms(1) AKeeping by simp
    have same: "any_wrappers w' = (any_wrappers w)[i := ACancelling 0]" "winner w' = winner w" "any_outcomes w' = any_outcomes w"
      "any_launching w' = any_launching w" "any_resumes w' = any_resumes w" "any_done (any_state w') = any_done (any_state w)"
      "any_parent (any_state w') = any_parent (any_state w)" "cancellationSources (any_state w') = cancellationSources (any_state w)"
      "linkedCancellations (any_state w') = linkedCancellations (any_state w)"
      by (simp_all add: w' any_defs split: outcome.split option.split)
    have "kept w' i" unfolding w' by (rule kept_outcome) (use w(2) in simp_all)
    then have "winner_ok w' i (ACancelling 0)" using w(2) same by (simp add: sources_cancelled_def)
    then have "race_ok w'" by (intro race_ok_winner[OF d(5) w(1) same(1)]) (simp_all add: same)
    then have "any_inv w'" by (intro any_inv_move[OF assms(2,3), of "ACancelling 0"]) (use AKeeping in \<open>simp_all add: same\<close>)
    then show ?thesis by (simp add: same)
  next
    case (ACancelling j)
    have w: "winner w = Some i" "winner_ok w i (ACancelling j)" using is_winner[OF d(5) assms(3)] ACancelling by auto
    show ?thesis
    proof (cases "j < length (any_wrappers w)")
      case True
      have w': "w' = note_fault (j \<noteq> i) fault (set_any i (ACancelling (Suc j)) (cancel_loser j i fault (any_state w)) w)"
        using assms(1) ACancelling True by simp
      have same: "any_wrappers w' = (any_wrappers w)[i := ACancelling (Suc j)]" "winner w' = winner w" "any_outcomes w' = any_outcomes w"
        "any_launching w' = any_launching w" "any_resumes w' = any_resumes w" "any_done (any_state w') = any_done (any_state w)"
        "any_parent (any_state w') = any_parent (any_state w)"
        "length (cancellationSources (any_state w')) = length (cancellationSources (any_state w))"
        "linkedCancellations (any_state w') = linkedCancellations (any_state w)"
        by (simp_all add: w' any_defs)
      have "kept w' i" unfolding w' by (rule kept_cancel) (use w(2) in simp)
      moreover have "sources_cancelled w' i (Suc j)" unfolding w' by (rule sources_cancel[OF _ d(2) True]) (use w(2) in simp)
      ultimately have "winner_ok w' i (ACancelling (Suc j))" using w(2) same(5) by simp
      then have "race_ok w'" by (intro race_ok_winner[OF d(5) w(1) same(1)]) (simp_all add: same)
      then have "any_inv w'" by (intro any_inv_move[OF assms(2,3), of "ACancelling (Suc j)"]) (use ACancelling in \<open>simp_all add: same\<close>)
      then show ?thesis by (simp add: same)
    next
      case False
      have w': "w' = set_any i AResuming (any_state w) w" using assms(1) ACancelling False by simp
      have "kept w' i" using w(2) kept_frame[of w' i w] by (simp add: w' set_any_def)
      then have "winner_ok w' i AResuming" using w(2) False by (auto simp: w' set_any_def sources_cancelled_def)
      then have "race_ok w'" by (intro race_ok_winner[OF d(5) w(1), of w' "AResuming"]) (simp_all add: w' set_any_def)
      then have "any_inv w'" by (intro any_inv_move[OF assms(2,3), of AResuming]) (use ACancelling in \<open>simp_all add: w' set_any_def\<close>)
      then show ?thesis by (simp add: w' set_any_def)
    qed
  next
    case AResuming
    have w: "winner w = Some i" "winner_ok w i AResuming" using is_winner[OF d(5) assms(3)] AResuming by auto
    have p: "any_parent (any_state w)" using d(4) assms(3) AResuming by (auto simp: any_launch_ok_def split: option.splits)
    have w': "w' = (set_any i AFinished (any_state w) w)\<lparr>any_resumes := 1\<rparr>" using assms(1) AResuming p w(2) by simp
    have "kept w' i" using w(2) kept_frame[of w' i w] by (simp add: w' set_any_def)
    then have "winner_ok w' i AFinished" using w(2) by (auto simp: w' set_any_def sources_cancelled_def)
    then have "race_ok w'" by (intro race_ok_winner[OF d(5) w(1), of w' "AFinished"]) (simp_all add: w' set_any_def)
    then have "any_inv w'" by (intro any_inv_move[OF assms(2,3), of AFinished]) (use AResuming in \<open>simp_all add: w' set_any_def\<close>)
    then show ?thesis using w(2) by (simp add: w' set_any_def)
  qed (use assms(1) in simp_all)
qed

lemma any_step_inv:
  assumes "any_step w w'" "any_inv w"
  shows "any_inv w' \<and> any_resumes w \<le> any_resumes w'"
  using assms
proof (induction rule: any_step.induct)
  case (any_suspend w)
  note d = any_invD[OF any_suspend(3)]
  let ?w = "any_await_suspend w"
  have "winner w = None"
  proof (rule ccontr)
    assume "winner w \<noteq> None"
    then obtain k where "k < length (any_wrappers w)" "winner_ok w k (any_wrappers w ! k)" using d(5) by (auto simp: race_ok_def)
    moreover have "any_wrappers w ! k = ACreated" using d(4) any_suspend(1) calculation(1) by (simp add: any_launch_ok_def)
    ultimately show False by simp
  qed
  then have "race_ok ?w" using d(5) racing_ok_frame[of w _ _ ?w] by (auto simp: race_ok_def any_await_suspend_def untouched_def)
  moreover have "any_launch_ok ?w" using d(4) any_suspend(1) by (auto simp: any_launch_ok_def any_await_suspend_def)
  ultimately show ?case using d(1-3) by (simp add: any_inv_def any_await_suspend_def)
next
  case (any_detach w k)
  note d = any_invD[OF any_detach(3)]
  let ?w = "(set_any k AAwaiting (any_state w) w)\<lparr>any_launching := Some (k + 1)\<rparr>"
  have c: "any_wrappers w ! k = ACreated" using d(4) any_detach(1,2) by (auto simp: any_launch_ok_def)
  have nw: "winner w \<noteq> Some k" using not_winner[OF d(5)] c by blast
  then have "racing_ok w k ACreated" using d(5) any_detach(2) c unfolding race_ok_def by metis
  then have "race_ok ?w" by (intro race_ok_racing[OF d(5) nw, of _ AAwaiting]) (simp_all add: set_any_def)
  moreover have "any_launch_ok ?w"
    using d(4) any_detach(1,2) by (auto simp: any_launch_ok_def set_any_def nth_list_update)
  ultimately show ?case using d(1-3) by (simp add: any_inv_def set_any_def)
next
  case (sub_ends i w out)
  note d = any_invD[OF sub_ends(3)]
  let ?w = "(set_any i (ATrying out) (any_state w) w)\<lparr>any_outcomes := (any_outcomes w)[i := Some out]\<rparr>"
  have nw: "winner w \<noteq> Some i" using not_winner[OF d(5)] sub_ends(2) by blast
  have "race_ok ?w" by (rule race_ok_racing[OF d(5) nw, of _ "ATrying out"]) (use sub_ends d(1) in \<open>simp_all add: set_any_def\<close>)
  then have "any_inv ?w"
    by (intro any_inv_move[OF sub_ends(3,1), of "ATrying out"]) (use sub_ends in \<open>simp_all add: set_any_def\<close>)
  then show ?case by (simp add: set_any_def)
next
  case (any_wrapper i w fault w')
  then show ?case using any_wrapper_inv by blast
qed

interpretation when_any: awaitable any_step any_initial any_inv "\<lambda>w. any_launching w \<noteq> None" any_resumes
proof
  fix w w' :: "'v whenAny"
  show "any_initial w \<Longrightarrow> any_inv w \<and> any_resumes w = 0" by (rule any_initial_inv)
  show "any_inv w \<Longrightarrow> any_step w w' \<Longrightarrow> any_inv w'" "any_inv w \<Longrightarrow> any_step w w' \<Longrightarrow> any_resumes w \<le> any_resumes w'"
    using any_step_inv by blast+
  assume inv: "any_inv w"
  note d = any_invD[OF inv]
  show "any_resumes w \<le> 1"
  proof (cases "winner w")
    case None
    then show ?thesis using d(5) by (simp add: race_ok_def)
  next
    case (Some i)
    then have "winner_ok w i (any_wrappers w ! i)" using d(5) by (simp add: race_ok_def)
    then show ?thesis by (cases "any_wrappers w ! i") simp_all
  qed
  show "any_resumes w \<noteq> 0 \<Longrightarrow> any_launching w \<noteq> None"
  proof -
    assume "any_resumes w \<noteq> 0"
    then obtain i where "winner w = Some i" using d(5) by (auto simp: race_ok_def split: option.splits)
    then have i: "i < length (any_wrappers w)" "winner_ok w i (any_wrappers w ! i)" using d(5) by (simp_all add: race_ok_def)
    then have "any_wrappers w ! i \<noteq> ACreated" by auto
    then show ?thesis using d(4) i(1) by (auto simp: any_launch_ok_def split: option.splits)
  qed
qed

lemma any_reach_inv: "any_reach w \<Longrightarrow> any_inv w"
  unfolding any_reach_def using when_any.reach_inv by blast

section \<open>Progress\<close>

fun any_rank :: "nat \<Rightarrow> 'v apc \<Rightarrow> nat" where
  "any_rank n ACreated = n + 7"
| "any_rank n AAwaiting = n + 6"
| "any_rank n (ATrying out) = n + 5"
| "any_rank n (AWon out) = n + 4"
| "any_rank n (AKeeping out) = n + 3"
| "any_rank n (ACancelling k) = n - k + 2"
| "any_rank n AResuming = 1"
| "any_rank n AFinished = 0"

definition any_work :: "'v whenAny \<Rightarrow> nat" where
  "any_work w = sum_list (map (any_rank (length (any_wrappers w))) (any_wrappers w)) + of_bool (any_launching w = None)"

lemma any_work_move:
  assumes "i < length (any_wrappers w)" "any_wrappers w' = (any_wrappers w)[i := p]"
    "any_rank (length (any_wrappers w)) p < any_rank (length (any_wrappers w)) (any_wrappers w ! i)"
    "any_launching w' = None \<longrightarrow> any_launching w = None"
  shows "any_work w' < any_work w"
  using sum_list_map_update[OF assms(1), of "any_rank (length (any_wrappers w))" p] assms(2-4) by (auto simp: any_work_def)

lemma any_step_work:
  assumes "any_step w w'" "any_inv w"
  shows "any_work w' < any_work w"
  using assms
proof (induction rule: any_step.induct)
  case (any_suspend w)
  then show ?case by (simp add: any_work_def any_await_suspend_def)
next
  case (any_detach w k)
  then have "any_wrappers w ! k = ACreated" using any_invD(4)[OF any_detach(3)] by (auto simp: any_launch_ok_def)
  then show ?case by (intro any_work_move[OF any_detach(2), of _ AAwaiting]) (simp_all add: set_any_def)
next
  case (sub_ends i w out)
  then show ?case by (intro any_work_move[OF sub_ends(1), of _ "ATrying out"]) (simp_all add: set_any_def)
next
  case (any_wrapper i w fault w')
  let ?n = "length (any_wrappers w)"
  have "\<exists>p. any_wrappers w' = (any_wrappers w)[i := p] \<and> any_rank ?n p < any_rank ?n (any_wrappers w ! i) \<and>
      any_launching w' = any_launching w"
    using any_wrapper(2) by (cases "any_wrappers w ! i") (auto simp: set_any_def note_fault_def tryWin_def split: if_splits)
  then show ?case using any_work_move[OF any_wrapper(1)] by metis
qed

lemma any_wrapper_enabled:
  "whenAnyWrapper i fault w = None \<longleftrightarrow> any_wrappers w ! i \<in> {ACreated, AAwaiting, AFinished}"
  by (cases "any_wrappers w ! i") (auto split: prod.splits)

text \<open>The token of a sub-task is cancelled by its source or by the token it came with.\<close>

lemma task_cancelled_iff:
  assumes "any_inv w" "i < length (any_wrappers w)"
  shows "cancellationSources (any_state w) ! i \<Longrightarrow> task_cancelled own w i"
    "\<not> own i \<Longrightarrow> task_cancelled own w i = cancellationSources (any_state w) ! i"
proof -
  obtain tokens where "linkedCancellations (any_state w) ! i = linked_task (tokens ! i) i"
    using any_invD(3)[OF assms(1)] assms(2) by auto
  then show "cancellationSources (any_state w) ! i \<Longrightarrow> task_cancelled own w i"
    "\<not> own i \<Longrightarrow> task_cancelled own w i = cancellationSources (any_state w) ! i"
    by (auto simp: task_cancelled_def linked_requested_def linked_task_def link_token_def LinkedCancellation_def)
qed

lemma kept_result:
  assumes "kept w i"
  shows "\<exists>out. any_outcomes w ! i = Some out \<and>
    any_await_resume w = (case out of Threw e \<Rightarrow> Inl e
      | Returned v \<Rightarrow> (case faults w of [] \<Rightarrow> Inr (i, if any_void w then None else Some v) | e # es \<Rightarrow> Inl e))"
  using assms unfolding kept_def any_await_resume_def by (auto split: outcome.splits list.splits)

section \<open>Example\<close>

lemma any_reach_step: "any_reach w \<Longrightarrow> any_step w w' \<Longrightarrow> any_reach w'"
  unfolding any_reach_def by (meson rtranclp.rtrancl_into_rtrancl)

text \<open>Two sub-tasks; the second one ends first, with the value 9.\<close>

definition demo_any :: "bool \<Rightarrow> nat option \<Rightarrow> bool \<Rightarrow> nat apc \<Rightarrow> nat apc \<Rightarrow> nat \<Rightarrow> nat whenAny" where
  "demo_any won v c0 p0 p1 k = \<lparr>any_state = \<lparr>any_done = won, any_parent = True, winnerIndex = (if v = None then 0 else 1),
      winnerValue = v, winnerException = None, cancellationSources = [c0, False],
      linkedCancellations = [linked_task True 0, linked_task False 1]\<rparr>,
     any_void = False, any_wrappers = [p0, p1], any_launching = Some 2, any_resumes = k,
     any_outcomes = [None, Some (Returned 9)], winner = (if won then Some 1 else None), faults = []\<rparr>"

lemma demo_any_ended: "any_reach (demo_any False None False AAwaiting (ATrying (Returned 9)) 0)"
proof -
  let ?s = "\<lambda>b. \<lparr>any_done = False, any_parent = b, winnerIndex = 0, winnerValue = None, winnerException = None,
      cancellationSources = [False, False], linkedCancellations = [linked_task True 0, linked_task False 1]\<rparr>"
  let ?w = "\<lambda>b p0 p1 l. \<lparr>any_state = ?s b, any_void = False, any_wrappers = [p0, p1], any_launching = l, any_resumes = 0,
     any_outcomes = [None, None], winner = None, faults = []\<rparr> :: nat whenAny"
  have i: "?w False ACreated ACreated None = WhenAnyAwaitable False [True, False]"
    by (simp add: WhenAnyAwaitable_def WhenAnyState_def numeral_2_eq_2)
  have "any_reach (?w False ACreated ACreated None)" unfolding any_reach_def any_initial_def i by blast
  from any_reach_step[OF this any_suspend]
  have "any_reach (?w True ACreated ACreated (Some 0))" by (simp add: any_await_suspend_def)
  from any_reach_step[OF this any_detach[of _ 0]]
  have "any_reach (?w True AAwaiting ACreated (Some 1))" by (simp add: set_any_def)
  from any_reach_step[OF this any_detach[of _ 1]]
  have "any_reach (?w True AAwaiting AAwaiting (Some 2))" by (simp add: set_any_def numeral_2_eq_2)
  from any_reach_step[OF this sub_ends[of 1 _ "Returned 9"]]
  show ?thesis by (simp add: set_any_def demo_any_def)
qed

lemma demo_any_done: "any_reach (demo_any True (Some 9) True AAwaiting AFinished 1)"
proof -
  from any_reach_step[OF demo_any_ended any_wrapper[of 1 _ None]]
  have "any_reach (demo_any True None False AAwaiting (AWon (Returned 9)) 0)" by (simp add: any_defs demo_any_def)
  from any_reach_step[OF any_reach_step[OF this any_wrapper[of 1 _ None]] any_wrapper[of 1 _ None]]
  have "any_reach (demo_any True (Some 9) False AAwaiting (ACancelling 0) 0)" by (simp add: any_defs demo_any_def)
  from any_reach_step[OF any_reach_step[OF this any_wrapper[of 1 _ None]] any_wrapper[of 1 _ None]]
  have "any_reach (demo_any True (Some 9) True AAwaiting (ACancelling 2) 0)" by (simp add: any_defs demo_any_def numeral_2_eq_2)
  from any_reach_step[OF any_reach_step[OF this any_wrapper[of 1 _ None]] any_wrapper[of 1 _ None]]
  show ?thesis by (simp add: any_defs demo_any_def)
qed

section \<open>Properties\<close>

text \<open>C17. \<open>whenAny\<close> has one winner: the awaiting coroutine is resumed at most once, after the tokens of all other sub-tasks were
  cancelled and with the token of the winner left alone. It finds the index and the value of the winner, or the exception it threw;
  an exception thrown while its value was moved or while a loser was cancelled replaces a value (the first one, never the
  exception of the winner). What a loser returns or throws has no effect.\<close>

theorem whenAny_single_winner:
  assumes "any_reach w"
  shows "any_resumes w \<le> 1 \<and>
    (any_resumes w = 1 \<longrightarrow>
       (\<exists>i out. winner w = Some i \<and> i < length (any_wrappers w) \<and> any_outcomes w ! i = Some out \<and>
          (\<forall>j < length (any_wrappers w). j \<noteq> i \<longrightarrow> task_cancelled own w j) \<and> task_cancelled (\<lambda>_. False) w i = False \<and>
          any_await_resume w = (case out of Threw e \<Rightarrow> Inl e
            | Returned v \<Rightarrow> (case faults w of [] \<Rightarrow> Inr (i, if any_void w then None else Some v) | e # es \<Rightarrow> Inl e))))"
proof -
  have inv: "any_inv w" by (rule any_reach_inv[OF assms])
  note d = any_invD[OF inv]
  have "\<exists>i out. winner w = Some i \<and> i < length (any_wrappers w) \<and> any_outcomes w ! i = Some out \<and>
      (\<forall>j < length (any_wrappers w). j \<noteq> i \<longrightarrow> task_cancelled own w j) \<and> task_cancelled (\<lambda>_. False) w i = False \<and>
      any_await_resume w = (case out of Threw e \<Rightarrow> Inl e
        | Returned v \<Rightarrow> (case faults w of [] \<Rightarrow> Inr (i, if any_void w then None else Some v) | e # es \<Rightarrow> Inl e))"
    if r: "any_resumes w = 1"
  proof -
    obtain i where i: "winner w = Some i" "i < length (any_wrappers w)" "winner_ok w i (any_wrappers w ! i)"
      using d(5) r by (auto simp: race_ok_def split: option.splits)
    have k: "kept w i" "sources_cancelled w i (length (any_wrappers w))" using i(3) r by (cases "any_wrappers w ! i"; simp)+
    have "\<forall>j < length (any_wrappers w). j \<noteq> i \<longrightarrow> task_cancelled own w j"
      using k(2) task_cancelled_iff(1)[OF inv] by (auto simp: sources_cancelled_def)
    moreover have "task_cancelled (\<lambda>_. False) w i = False"
      using k(2) i(2) task_cancelled_iff(2)[OF inv i(2), of "\<lambda>_. False"] by (auto simp: sources_cancelled_def)
    ultimately show ?thesis using kept_result[OF k(1)] i(1,2) by blast
  qed
  then show ?thesis using when_any.at_most_once[OF inv] by blast
qed

theorem whenAny_single_winner_witness:
  "any_reach (demo_any True (Some 9) True AAwaiting AFinished 1) \<and>
   any_await_resume (demo_any True (Some 9) True AAwaiting AFinished 1) = Inr (1, Some 9)"
proof -
  let ?w = "demo_any True (Some 9) True AAwaiting AFinished 1"
  have w: "any_resumes ?w = 1" "winner ?w = Some 1" "any_outcomes ?w ! 1 = Some (Returned 9)" "faults ?w = []" "\<not> any_void ?w"
    by (simp_all add: demo_any_def)
  then show ?thesis using whenAny_single_winner[OF demo_any_done, of "\<lambda>_. False"] demo_any_done by simp
qed

text \<open>\<open>whenAny\<close> does not lose the race: every step lowers the outstanding work, and once a sub-task has ended either a wrapper has a
  step to make, whatever exceptions are thrown, or the awaiting coroutine was resumed.\<close>

theorem whenAny_completes:
  assumes "any_reach w"
  shows "(\<forall>w'. any_step w w' \<longrightarrow> any_work w' < any_work w) \<and>
    ((\<exists>i < length (any_wrappers w). any_outcomes w ! i \<noteq> None) \<longrightarrow>
       any_resumes w = 1 \<or> (\<forall>fault. \<exists>i < length (any_wrappers w). \<exists>w'. whenAnyWrapper i fault w = Some w'))"
proof -
  have inv: "any_inv w" by (rule any_reach_inv[OF assms])
  note d = any_invD[OF inv]
  have "any_resumes w = 1" if i: "i < length (any_wrappers w)" "any_outcomes w ! i \<noteq> None"
    and stuck: "\<not> (\<exists>i < length (any_wrappers w). \<exists>w'. whenAnyWrapper i fault w = Some w')" for i fault
  proof -
    have all: "any_wrappers w ! j \<in> {ACreated, AAwaiting, AFinished}" if "j < length (any_wrappers w)" for j
      using stuck that any_wrapper_enabled[of j fault w] by (metis not_Some_eq)
    have "winner w \<noteq> None"
    proof
      assume n: "winner w = None"
      then have "racing_ok w i (any_wrappers w ! i)" using d(5) i(1) by (simp add: race_ok_def)
      then show False using all[OF i(1)] i(2) n by auto
    qed
    then obtain k where k: "winner w = Some k" "k < length (any_wrappers w)" "winner_ok w k (any_wrappers w ! k)"
      using d(5) by (auto simp: race_ok_def)
    then show ?thesis using all[OF k(2)] by auto
  qed
  then show ?thesis using any_step_work[OF _ inv] by blast
qed

theorem whenAny_completes_witness:
  "\<exists>i w'. whenAnyWrapper i None (demo_any False None False AAwaiting (ATrying (Returned 9)) 0) = Some w' \<and> any_work w' < 15"
proof -
  let ?w = "demo_any False None False AAwaiting (ATrying (Returned 9)) 0"
  have w: "any_work ?w = 15" "1 < length (any_wrappers ?w)" "any_outcomes ?w ! 1 \<noteq> None" "any_resumes ?w \<noteq> 1"
    by (simp_all add: demo_any_def any_work_def)
  then obtain i w' where i: "i < length (any_wrappers ?w)" "whenAnyWrapper i None ?w = Some w'"
    using whenAny_completes[OF demo_any_ended] by blast
  then have "any_work w' < any_work ?w" using whenAny_completes[OF demo_any_ended] any_wrapper[OF i] by blast
  then show ?thesis using i(2) w(1) by (intro exI conjI) simp_all
qed

end
