(* ===== verification/Sleep_Resolve.thy ===== *)
theory Sleep_Resolve
  imports Awaitable
begin

text \<open>
  \<^verbatim>\<open>coroutine/SleepAwaitable.h\<close> and \<^verbatim>\<open>coroutine/ResolveAwaitable.h\<close>: waiting for a timer and for a name resolution.

  The functors an awaitable posts, its timer and its callbacks run on the owner loop, one after the other; the token may be cancelled by
  another thread at any moment. The state of one awaitable is modelled together with what the other components hold for it: functors in
  the queue of the loop, the timer (\<open>Timer_Queue\<close> shows that a cancelled timer does not run), the callback registered with the token
  (\<open>Cancel_Token\<close>: \<open>reset\<close> takes it out unless \<open>cancel\<close> already did, and then it is still called), and for a resolution the
  request of the resolver, whose callback is delivered once (\<open>Dns_Resolver\<close>). The owner loop outlives its awaitables.
\<close>

section \<open>Sleep\<close>

datatype sleepPhase = SUnarmed | SPending | SExpired | SCancelled | SAbandoned

record sleepState =
  s_handle :: bool
  s_timerId :: bool
  s_phase :: sleepPhase
  s_registration :: bool

text \<open>\<open>s_alive\<close>: the awaitable exists. \<open>arming\<close>, \<open>cancels\<close>: queued functors. \<open>timer\<close>: its timer is in the timer queue.
  \<open>in_flight\<close>: its callback was taken by a \<open>cancel\<close> of the token and is still to be called.\<close>

record sleep =
  s_state :: sleepState
  s_alive :: bool
  s_token :: bool
  s_requested :: bool
  arming :: bool
  cancels :: nat
  timer :: bool
  in_flight :: bool
  s_resumes :: nat

text \<open>The token of the awaitable, or else the one of the promise.\<close>

definition effective_token :: "'t option \<Rightarrow> 't option \<Rightarrow> 't option" where
  "effective_token token promise = (case token of None \<Rightarrow> promise | Some t \<Rightarrow> Some t)"

definition SleepAwaitable :: "bool \<Rightarrow> bool \<Rightarrow> bool \<Rightarrow> sleep res" where
  "SleepAwaitable loop token requested =
     (if \<not> loop then Inl (Invalid_argument ''asyncSleep requires an EventLoop'')
      else Inr \<lparr>s_state = \<lparr>s_handle = False, s_timerId = False, s_phase = SUnarmed, s_registration = False\<rparr>, s_alive = True,
             s_token = token, s_requested = requested \<and> token, arming = False, cancels = 0, timer = False, in_flight = False,
             s_resumes = 0\<rparr>)"

text \<open>\<open>registerCallback\<close> with the token: stored, or called at once when the token is cancelled; \<open>registration.reset()\<close> and
  \<open>loop->cancel(timerId)\<close>.\<close>

definition queue_cancelled :: "sleep \<Rightarrow> sleep" where
  "queue_cancelled w = w\<lparr>cancels := cancels w + 1\<rparr>"

definition s_register :: "sleep \<Rightarrow> sleep" where
  "s_register w =
     (if s_requested w then queue_cancelled w else w\<lparr>s_state := (s_state w)\<lparr>s_registration := True\<rparr>\<rparr>)"

definition s_release :: "sleep \<Rightarrow> sleep" where
  "s_release w = w\<lparr>s_state := (s_state w)\<lparr>s_registration := False, s_timerId := False\<rparr>,
     timer := (timer w \<and> \<not> s_timerId (s_state w))\<rparr>"

definition resume_handle :: "sleep \<Rightarrow> sleep" where
  "resume_handle w = w\<lparr>s_state := (s_state w)\<lparr>s_handle := False\<rparr>, s_resumes := s_resumes w + of_bool (s_handle (s_state w))\<rparr>"

definition s_complete :: "sleepPhase \<Rightarrow> sleep \<Rightarrow> sleep" where
  "s_complete outcome w =
     (if s_phase (s_state w) \<noteq> SPending then w
      else resume_handle (s_release (w\<lparr>s_state := (s_state w)\<lparr>s_phase := outcome\<rparr>\<rparr>)))"

text \<open>The arming functor. \<open>raced\<close>: the token is cancelled between the check and the registration.\<close>

definition run_arming :: "bool \<Rightarrow> sleep \<Rightarrow> sleep" where
  "run_arming raced w =
     (if s_phase (s_state w) \<noteq> SPending then w
      else if s_token w \<and> s_requested w then queue_cancelled w
      else let w = (if s_token w then s_register (w\<lparr>s_requested := raced\<rparr>) else w)
           in w\<lparr>s_state := (s_state w)\<lparr>s_timerId := True\<rparr>, timer := True\<rparr>)"

definition s_await_ready :: "sleep \<Rightarrow> bool" where
  "s_await_ready w = False"

text \<open>\<open>runInLoop\<close> runs the functor at once on the loop thread and queues it elsewhere.\<close>

definition s_await_suspend :: "bool \<Rightarrow> bool \<Rightarrow> sleep \<Rightarrow> sleep res" where
  "s_await_suspend in_loop raced w =
     (if s_phase (s_state w) \<noteq> SUnarmed then Inl (Logic_error ''SleepAwaitable can only be awaited once'')
      else let w = w\<lparr>s_state := (s_state w)\<lparr>s_handle := True, s_phase := SPending\<rparr>\<rparr>
           in Inr (if in_loop then run_arming raced w else w\<lparr>arming := True\<rparr>))"

definition s_await_resume :: "sleep \<Rightarrow> netError + unit" where
  "s_await_resume w = (if s_phase (s_state w) = SCancelled then Inl OpCancelled else Inr ())"

definition s_cancel :: "sleep \<Rightarrow> sleep" where
  "s_cancel w = queue_cancelled w"

text \<open>The destructor.\<close>

definition s_abandon :: "sleep \<Rightarrow> sleep" where
  "s_abandon w =
     (if s_phase (s_state w) \<noteq> SPending then w
      else s_release (w\<lparr>s_state := (s_state w)\<lparr>s_phase := SAbandoned, s_handle := False\<rparr>\<rparr>))"

text \<open>The shared state lives as long as the awaitable or one of the functors that hold it; the registered callback holds it weakly.\<close>

definition state_alive :: "sleep \<Rightarrow> bool" where
  "state_alive w \<longleftrightarrow> s_alive w \<or> arming w \<or> cancels w > 0 \<or> timer w"

definition run_callback :: "sleep \<Rightarrow> sleep" where
  "run_callback w = (if state_alive w then queue_cancelled w else w)"

inductive sleep_step :: "sleep \<Rightarrow> sleep \<Rightarrow> bool" where
  s_suspend: "s_alive w \<Longrightarrow> s_await_suspend in_loop raced w = Inr w' \<Longrightarrow> sleep_step w w'"
| s_arm: "arming w \<Longrightarrow> sleep_step w (run_arming raced (w\<lparr>arming := False\<rparr>))"
| s_timer: "timer w \<Longrightarrow> sleep_step w (s_complete SExpired (w\<lparr>timer := False\<rparr>))"
| s_run_cancel: "cancels w > 0 \<Longrightarrow> sleep_step w (s_complete SCancelled (w\<lparr>cancels := cancels w - 1\<rparr>))"
| s_token_cancel: "s_token w \<Longrightarrow>
    sleep_step w (w\<lparr>s_requested := True, s_state := (s_state w)\<lparr>s_registration := False\<rparr>,
      in_flight := in_flight w \<or> s_registration (s_state w)\<rparr>)"
| s_callback: "in_flight w \<Longrightarrow>
    sleep_step w (run_callback (w\<lparr>in_flight := False\<rparr>))"
| s_user_cancel: "s_alive w \<Longrightarrow> sleep_step w (s_cancel w)"
| s_destroy: "s_alive w \<Longrightarrow> sleep_step w ((s_abandon w)\<lparr>s_alive := False\<rparr>)"

definition sleep_initial :: "sleep \<Rightarrow> bool" where
  "sleep_initial w \<longleftrightarrow> (\<exists>token requested. SleepAwaitable True token requested = Inr w)"

definition sleep_reach :: "sleep \<Rightarrow> bool" where
  "sleep_reach w \<longleftrightarrow> (\<exists>w0. sleep_initial w0 \<and> sleep_step\<^sup>*\<^sup>* w0 w)"

subsection \<open>Invariant\<close>

definition pending_ok :: "sleep \<Rightarrow> bool" where
  "pending_ok w \<longleftrightarrow> s_handle (s_state w) \<and> s_alive w \<and> (arming w \<or> cancels w > 0 \<or> timer w) \<and>
     (arming w \<longrightarrow> \<not> timer w \<and> \<not> s_registration (s_state w)) \<and>
     (s_token w \<and> \<not> arming w \<longrightarrow> s_registration (s_state w) \<or> in_flight w \<or> cancels w > 0)"

definition sleep_inv :: "sleep \<Rightarrow> bool" where
  "sleep_inv w \<longleftrightarrow>
     (s_phase (s_state w) = SPending \<longrightarrow> pending_ok w) \<and>
     (s_phase (s_state w) \<noteq> SPending \<longrightarrow> \<not> timer w \<and> \<not> s_registration (s_state w) \<and> \<not> s_handle (s_state w)) \<and>
     (s_phase (s_state w) = SUnarmed \<longrightarrow> \<not> arming w) \<and>
     (s_requested w \<longrightarrow> s_token w \<and> \<not> s_registration (s_state w)) \<and>
     s_timerId (s_state w) = timer w \<and>
     s_resumes w = of_bool (s_phase (s_state w) = SExpired \<or> s_phase (s_state w) = SCancelled)"

lemmas sleep_defs = queue_cancelled_def s_register_def s_release_def resume_handle_def s_complete_def run_arming_def
  s_await_suspend_def s_cancel_def s_abandon_def state_alive_def pending_ok_def

lemma sleep_initial_inv: "sleep_initial w \<Longrightarrow> sleep_inv w \<and> s_resumes w = 0"
  by (auto simp: sleep_initial_def SleepAwaitable_def sleep_inv_def)

lemma arming_inv:
  assumes "pending_ok (w\<lparr>arming := True\<rparr>)" "s_phase (s_state w) = SPending" "\<not> arming w" "\<not> s_registration (s_state w)" "\<not> timer w"
    "\<not> s_timerId (s_state w)" "s_requested w \<longrightarrow> s_token w" "s_resumes w = 0"
  shows "sleep_inv (run_arming raced w) \<and> s_resumes (run_arming raced w) = 0"
  using assms by (cases raced; cases "s_requested w"; cases "s_token w") (simp_all add: sleep_inv_def sleep_defs Let_def)

lemma complete_inv:
  assumes "s_phase (s_state w) = SPending \<Longrightarrow> s_handle (s_state w)" "timer w \<longrightarrow> s_timerId (s_state w)" "outcome \<in> {SExpired, SCancelled}"
    "s_phase (s_state w) \<noteq> SPending \<Longrightarrow> sleep_inv w" "s_phase (s_state w) = SPending \<Longrightarrow> s_resumes w = 0" "s_requested w \<longrightarrow> s_token w"
  shows "sleep_inv (s_complete outcome w) \<and> s_resumes w \<le> s_resumes (s_complete outcome w)"
proof (cases "s_phase (s_state w) = SPending")
  case True
  then show ?thesis using assms by (auto simp: sleep_inv_def sleep_defs)
next
  case False
  then show ?thesis using assms by (simp add: s_complete_def)
qed

lemma sleep_step_inv:
  assumes "sleep_step w w'" "sleep_inv w"
  shows "sleep_inv w' \<and> s_resumes w \<le> s_resumes w'"
  using assms
proof (induction rule: sleep_step.induct)
  case (s_suspend w in_loop raced w')
  let ?w = "w\<lparr>s_state := (s_state w)\<lparr>s_handle := True, s_phase := SPending\<rparr>\<rparr>"
  have u: "s_phase (s_state w) = SUnarmed" and w': "w' = (if in_loop then run_arming raced ?w else ?w\<lparr>arming := True\<rparr>)"
    using s_suspend(2) by (auto simp: s_await_suspend_def Let_def split: if_splits)
  have p: "pending_ok (?w\<lparr>arming := True\<rparr>)" using s_suspend(1,3) u by (simp add: sleep_inv_def pending_ok_def)
  show ?case
  proof (cases in_loop)
    case True
    have "sleep_inv (run_arming raced ?w) \<and> s_resumes (run_arming raced ?w) = 0"
      by (rule arming_inv[OF p]) (use s_suspend(3) u in \<open>simp_all add: sleep_inv_def\<close>)
    then show ?thesis using w' True s_suspend(3) u by (simp add: sleep_inv_def)
  next
    case False
    then show ?thesis using w' p s_suspend(3) u by (simp add: sleep_inv_def)
  qed
next
  case (s_arm w raced)
  show ?case
  proof (cases "s_phase (s_state w) = SPending")
    case True
    have "sleep_inv (run_arming raced (w\<lparr>arming := False\<rparr>)) \<and> s_resumes (run_arming raced (w\<lparr>arming := False\<rparr>)) = 0"
      by (rule arming_inv) (use s_arm True in \<open>simp_all add: sleep_inv_def pending_ok_def\<close>)
    then show ?thesis using s_arm(2) True by (simp add: sleep_inv_def)
  next
    case False
    then show ?thesis using s_arm(2) by (simp add: run_arming_def sleep_inv_def)
  qed
next
  case (s_timer w)
  then have "s_phase (s_state w) = SPending" by (auto simp: sleep_inv_def)
  then have "sleep_inv (s_complete SExpired (w\<lparr>timer := False\<rparr>)) \<and> s_resumes (w\<lparr>timer := False\<rparr>) \<le> s_resumes (s_complete SExpired (w\<lparr>timer := False\<rparr>))"
    using s_timer by (intro complete_inv) (auto simp: sleep_inv_def pending_ok_def)
  then show ?case by simp
next
  case (s_run_cancel w)
  let ?w = "w\<lparr>cancels := cancels w - 1\<rparr>"
  have "sleep_inv (s_complete SCancelled ?w) \<and> s_resumes ?w \<le> s_resumes (s_complete SCancelled ?w)"
    using s_run_cancel by (intro complete_inv) (auto simp: sleep_inv_def pending_ok_def)
  then show ?case by simp
next
  case (s_token_cancel w)
  then show ?case by (auto simp: sleep_inv_def pending_ok_def)
next
  case (s_callback w)
  show ?case
  proof (cases "s_phase (s_state w) = SPending")
    case True
    then have "s_alive w" using s_callback(2) by (simp add: sleep_inv_def pending_ok_def)
    then show ?thesis
      using s_callback True by (simp add: sleep_inv_def pending_ok_def run_callback_def state_alive_def queue_cancelled_def)
  next
    case False
    then show ?thesis
      using s_callback by (cases "state_alive (w\<lparr>in_flight := False\<rparr>)") (simp_all add: sleep_inv_def run_callback_def queue_cancelled_def)
  qed
next
  case (s_user_cancel w)
  then show ?case by (cases "s_phase (s_state w) = SPending") (simp_all add: sleep_inv_def pending_ok_def s_cancel_def queue_cancelled_def)
next
  case (s_destroy w)
  then show ?case
    by (cases "s_phase (s_state w) = SPending") (simp_all add: sleep_inv_def pending_ok_def s_abandon_def s_release_def)
qed

interpretation sleep_awaitable: awaitable sleep_step sleep_initial sleep_inv "\<lambda>w. s_phase (s_state w) \<noteq> SUnarmed" s_resumes
proof
  fix w w' :: sleep
  show "sleep_initial w \<Longrightarrow> sleep_inv w \<and> s_resumes w = 0" by (rule sleep_initial_inv)
  show "sleep_inv w \<Longrightarrow> sleep_step w w' \<Longrightarrow> sleep_inv w'" "sleep_inv w \<Longrightarrow> sleep_step w w' \<Longrightarrow> s_resumes w \<le> s_resumes w'"
    using sleep_step_inv by blast+
  show "sleep_inv w \<Longrightarrow> s_resumes w \<le> 1" "sleep_inv w \<Longrightarrow> s_resumes w \<noteq> 0 \<Longrightarrow> s_phase (s_state w) \<noteq> SUnarmed"
    by (cases "s_phase (s_state w)"; simp add: sleep_inv_def)+
qed

lemma sleep_reach_inv: "sleep_reach w \<Longrightarrow> sleep_inv w"
  unfolding sleep_reach_def using sleep_awaitable.reach_inv by blast

lemma sleep_reach_step: "sleep_reach w \<Longrightarrow> sleep_step w w' \<Longrightarrow> sleep_reach w'"
  unfolding sleep_reach_def by (meson rtranclp.rtrancl_into_rtrancl)

section \<open>Resolution\<close>

datatype resolvePhase = RUnarmed | RPending | RCompleted | RAbandoned

type_synonym 'a resolveResult = "netError + 'a list"

text \<open>\<open>lifetimeCancellation\<close>: its source was cancelled. \<open>tokenLink\<close>: the link callback is registered with the token.\<close>

record 'a resolveState =
  r_handle :: bool
  r_result :: "'a resolveResult"
  r_phase :: resolvePhase
  lifetimeCancellation :: bool
  tokenLink :: bool

text \<open>\<open>request\<close>: the resolver still owes the callback. \<open>r_in_flight\<close>: the link callback was taken by a \<open>cancel\<close> of the token.\<close>

record 'a resolve =
  r_state :: "'a resolveState"
  r_alive :: bool
  r_token :: bool
  r_requested :: bool
  request :: bool
  r_in_flight :: bool
  r_resumes :: nat

definition ResolveAwaitable :: "bool \<Rightarrow> bool \<Rightarrow> bool \<Rightarrow> bool \<Rightarrow> 'a resolve res" where
  "ResolveAwaitable resolver loop token requested =
     (if \<not> resolver \<or> \<not> loop then Inl (Invalid_argument ''asyncResolve requires a resolver and EventLoop'')
      else Inr \<lparr>r_state = \<lparr>r_handle = False, r_result = Inl ResolveFailed, r_phase = RUnarmed, lifetimeCancellation = False,
                tokenLink = False\<rparr>,
             r_alive = True, r_token = token, r_requested = requested \<and> token, request = False, r_in_flight = False, r_resumes = 0\<rparr>)"

definition cancel_lifetime :: "'a resolve \<Rightarrow> 'a resolve" where
  "cancel_lifetime w = w\<lparr>r_state := (r_state w)\<lparr>lifetimeCancellation := True\<rparr>\<rparr>"

text \<open>The token is linked: stored, or called at once.\<close>

definition link_lifetime :: "'a resolve \<Rightarrow> 'a resolve" where
  "link_lifetime w =
     (if \<not> r_token w then w
      else if r_requested w then cancel_lifetime w
      else w\<lparr>r_state := (r_state w)\<lparr>tokenLink := True\<rparr>\<rparr>)"

definition r_await_ready :: "'a resolve \<Rightarrow> bool" where
  "r_await_ready w = False"

definition r_await_suspend :: "'a resolve \<Rightarrow> 'a resolve res" where
  "r_await_suspend w =
     (if r_phase (r_state w) \<noteq> RUnarmed then Inl (Logic_error ''ResolveAwaitable can only be awaited once'')
      else let w = link_lifetime w
           in Inr (w\<lparr>r_state := (r_state w)\<lparr>r_handle := True, r_phase := RPending\<rparr>, request := True\<rparr>))"

text \<open>The callback given to the resolver.\<close>

definition r_deliver :: "'a resolveResult \<Rightarrow> 'a resolve \<Rightarrow> 'a resolve" where
  "r_deliver addrs w =
     (if r_phase (r_state w) = RPending
      then w\<lparr>r_state := (r_state w)\<lparr>r_phase := RCompleted, r_result := addrs, tokenLink := False, r_handle := False\<rparr>,
             r_resumes := r_resumes w + of_bool (r_handle (r_state w))\<rparr>
      else w)"

definition r_await_resume :: "'a resolve \<Rightarrow> 'a resolveResult res" where
  "r_await_resume w =
     (if r_phase (r_state w) \<noteq> RCompleted then Inl (Logic_error ''resolve result requested before completion'')
      else Inr (r_result (r_state w)))"

definition r_abandon :: "'a resolve \<Rightarrow> 'a resolve" where
  "r_abandon w =
     (if r_phase (r_state w) \<noteq> RPending then w
      else cancel_lifetime (w\<lparr>r_state := (r_state w)\<lparr>r_phase := RAbandoned, r_handle := False, tokenLink := False\<rparr>\<rparr>))"

inductive resolve_step :: "'a resolve \<Rightarrow> 'a resolve \<Rightarrow> bool" where
  r_suspend: "r_alive w \<Longrightarrow> r_await_suspend w = Inr w' \<Longrightarrow> resolve_step w w'"
| r_answer: "request w \<Longrightarrow> resolve_step w (r_deliver addrs (w\<lparr>request := False\<rparr>))"
| r_token_cancel: "r_token w \<Longrightarrow>
    resolve_step w (w\<lparr>r_requested := True, r_state := (r_state w)\<lparr>tokenLink := False\<rparr>,
      r_in_flight := r_in_flight w \<or> tokenLink (r_state w)\<rparr>)"
| r_link_callback: "r_in_flight w \<Longrightarrow> resolve_step w (cancel_lifetime (w\<lparr>r_in_flight := False\<rparr>))"
| r_destroy: "r_alive w \<Longrightarrow> resolve_step w ((r_abandon w)\<lparr>r_alive := False\<rparr>)"

definition resolve_initial :: "'a resolve \<Rightarrow> bool" where
  "resolve_initial w \<longleftrightarrow> (\<exists>token requested. ResolveAwaitable True True token requested = Inr w)"

definition resolve_reach :: "'a resolve \<Rightarrow> bool" where
  "resolve_reach w \<longleftrightarrow> (\<exists>w0. resolve_initial w0 \<and> resolve_step\<^sup>*\<^sup>* w0 w)"

subsection \<open>Invariant\<close>

definition resolve_inv :: "'a resolve \<Rightarrow> bool" where
  "resolve_inv w \<longleftrightarrow>
     r_handle (r_state w) = (r_phase (r_state w) = RPending) \<and>
     (r_phase (r_state w) = RPending \<longrightarrow> request w \<and> r_alive w \<and>
        (r_token w \<longrightarrow> tokenLink (r_state w) \<or> r_in_flight w \<or> lifetimeCancellation (r_state w))) \<and>
     (r_phase (r_state w) \<noteq> RPending \<longrightarrow> \<not> tokenLink (r_state w)) \<and>
     (r_phase (r_state w) = RUnarmed \<or> r_phase (r_state w) = RCompleted \<longrightarrow> \<not> request w) \<and>
     (r_phase (r_state w) = RAbandoned \<longrightarrow> lifetimeCancellation (r_state w)) \<and>
     (r_requested w \<longrightarrow> r_token w \<and> \<not> tokenLink (r_state w)) \<and>
     r_resumes w = of_bool (r_phase (r_state w) = RCompleted)"

lemmas resolve_defs = cancel_lifetime_def link_lifetime_def r_deliver_def r_abandon_def

lemma resolve_initial_inv: "resolve_initial w \<Longrightarrow> resolve_inv w \<and> r_resumes w = 0"
  by (auto simp: resolve_initial_def ResolveAwaitable_def resolve_inv_def)

lemma resolve_step_inv:
  assumes "resolve_step w w'" "resolve_inv w"
  shows "resolve_inv w' \<and> r_resumes w \<le> r_resumes w'"
  using assms
proof (induction rule: resolve_step.induct)
  case (r_suspend w w')
  then have u: "r_phase (r_state w) = RUnarmed" by (auto simp: r_await_suspend_def split: if_splits)
  then have w': "w' = (link_lifetime w)\<lparr>r_state := (r_state (link_lifetime w))\<lparr>r_handle := True, r_phase := RPending\<rparr>, request := True\<rparr>"
    using r_suspend(2) by (auto simp: r_await_suspend_def Let_def split: if_splits)
  show ?case
    using r_suspend(1,3) u by (cases "r_token w"; cases "r_requested w") (simp_all add: w' resolve_inv_def resolve_defs)
next
  case (r_answer w addrs)
  then show ?case by (cases "r_phase (r_state w)") (simp_all add: resolve_inv_def resolve_defs)
next
  case (r_token_cancel w)
  then show ?case by (cases "r_phase (r_state w)") (auto simp: resolve_inv_def)
next
  case (r_link_callback w)
  then show ?case by (cases "r_phase (r_state w)") (simp_all add: resolve_inv_def resolve_defs)
next
  case (r_destroy w)
  then show ?case by (cases "r_phase (r_state w)") (simp_all add: resolve_inv_def resolve_defs)
qed

interpretation resolve_awaitable: awaitable resolve_step resolve_initial resolve_inv "\<lambda>w. r_phase (r_state w) \<noteq> RUnarmed" r_resumes
proof
  fix w w' :: "'a resolve"
  show "resolve_initial w \<Longrightarrow> resolve_inv w \<and> r_resumes w = 0" by (rule resolve_initial_inv)
  show "resolve_inv w \<Longrightarrow> resolve_step w w' \<Longrightarrow> resolve_inv w'" "resolve_inv w \<Longrightarrow> resolve_step w w' \<Longrightarrow> r_resumes w \<le> r_resumes w'"
    using resolve_step_inv by blast+
  show "resolve_inv w \<Longrightarrow> r_resumes w \<le> 1" "resolve_inv w \<Longrightarrow> r_resumes w \<noteq> 0 \<Longrightarrow> r_phase (r_state w) \<noteq> RUnarmed"
    by (simp_all add: resolve_inv_def of_bool_def split: if_splits)
qed

lemma resolve_reach_inv: "resolve_reach w \<Longrightarrow> resolve_inv w"
  unfolding resolve_reach_def using resolve_awaitable.reach_inv by blast

lemma resolve_reach_step: "resolve_reach w \<Longrightarrow> resolve_step w w' \<Longrightarrow> resolve_reach w'"
  unfolding resolve_reach_def by (meson rtranclp.rtrancl_into_rtrancl)

text \<open>A settled awaitable stays as it is.\<close>

lemma sleep_settled:
  assumes "sleep_step\<^sup>*\<^sup>* w w'" "s_phase (s_state w) \<notin> {SUnarmed, SPending}"
  shows "s_phase (s_state w') = s_phase (s_state w) \<and> s_resumes w' = s_resumes w"
  using assms(1)
proof (induction rule: rtranclp_induct)
  case (step u v)
  have u: "s_phase (s_state u) \<noteq> SUnarmed" "s_phase (s_state u) \<noteq> SPending" using step.IH assms(2) by auto
  have "s_phase (s_state v) = s_phase (s_state u) \<and> s_resumes v = s_resumes u"
    using step.hyps(2) u
    by cases (simp_all add: s_await_suspend_def run_arming_def s_complete_def run_callback_def s_cancel_def queue_cancelled_def s_abandon_def)
  then show ?case using step.IH by simp
qed simp

lemma resolve_settled:
  assumes "resolve_step\<^sup>*\<^sup>* w w'" "r_phase (r_state w) \<notin> {RUnarmed, RPending}"
  shows "r_phase (r_state w') = r_phase (r_state w) \<and> r_resumes w' = r_resumes w \<and> r_result (r_state w') = r_result (r_state w)"
  using assms(1)
proof (induction rule: rtranclp_induct)
  case (step u v)
  have u: "r_phase (r_state u) \<noteq> RUnarmed" "r_phase (r_state u) \<noteq> RPending" using step.IH assms(2) by auto
  have "r_phase (r_state v) = r_phase (r_state u) \<and> r_resumes v = r_resumes u \<and> r_result (r_state v) = r_result (r_state u)"
    using step.hyps(2) u by cases (simp_all add: r_await_suspend_def resolve_defs)
  then show ?case using step.IH by simp
qed simp

text \<open>What moves a pending sleep on does so.\<close>

lemma sleep_moves:
  assumes "sleep_inv w" "s_phase (s_state w) = SPending"
  shows "s_resumes (s_complete outcome w) = 1" "s_phase (s_state (s_complete outcome w)) = outcome"
  using assms by (simp_all add: s_complete_def resume_handle_def s_release_def sleep_inv_def pending_ok_def)

section \<open>Examples\<close>

text \<open>A sleep armed on the loop thread, with a token.\<close>

definition demo_sleep :: "sleepPhase \<Rightarrow> bool \<Rightarrow> nat \<Rightarrow> bool \<Rightarrow> nat \<Rightarrow> sleep" where
  "demo_sleep p requested n flight k = \<lparr>s_state = \<lparr>s_handle = (p = SPending), s_timerId = (p = SPending), s_phase = p,
      s_registration = (p = SPending \<and> \<not> requested)\<rparr>,
     s_alive = True, s_token = True, s_requested = requested, arming = False, cancels = n, timer = (p = SPending),
     in_flight = flight, s_resumes = k\<rparr>"

lemma demo_sleep_pending: "sleep_reach (demo_sleep SPending False 0 False 0)"
proof -
  have "sleep_initial (demo_sleep SUnarmed False 0 False 0)"
    unfolding sleep_initial_def by (intro exI[of _ True] exI[of _ False]) (simp add: SleepAwaitable_def demo_sleep_def)
  then have "sleep_reach (demo_sleep SUnarmed False 0 False 0)" unfolding sleep_reach_def by blast
  from sleep_reach_step[OF this s_suspend[of _ True False]]
  show ?thesis by (simp add: demo_sleep_def s_await_suspend_def run_arming_def s_register_def)
qed

lemma demo_sleep_cancelled: "sleep_reach (demo_sleep SCancelled True 0 False 1)"
proof -
  from sleep_reach_step[OF demo_sleep_pending s_token_cancel]
  have "sleep_reach (demo_sleep SPending True 0 True 0)" by (simp add: demo_sleep_def)
  from sleep_reach_step[OF this s_callback]
  have "sleep_reach (demo_sleep SPending True 1 False 0)"
    by (simp add: demo_sleep_def run_callback_def state_alive_def queue_cancelled_def)
  from sleep_reach_step[OF this s_run_cancel]
  show ?thesis by (simp add: demo_sleep_def s_complete_def resume_handle_def s_release_def)
qed

definition demo_resolve :: "resolvePhase \<Rightarrow> nat resolveResult \<Rightarrow> nat \<Rightarrow> nat resolve" where
  "demo_resolve p addrs k = \<lparr>r_state = \<lparr>r_handle = (p = RPending), r_result = addrs, r_phase = p, lifetimeCancellation = False,
      tokenLink = False\<rparr>,
     r_alive = True, r_token = False, r_requested = False, request = (p = RPending), r_in_flight = False, r_resumes = k\<rparr>"

lemma demo_resolve_done: "resolve_reach (demo_resolve RCompleted (Inr [7]) 1)"
proof -
  have "resolve_initial (demo_resolve RUnarmed (Inl ResolveFailed) 0)"
    unfolding resolve_initial_def by (intro exI[of _ False]) (simp add: ResolveAwaitable_def demo_resolve_def)
  then have "resolve_reach (demo_resolve RUnarmed (Inl ResolveFailed) 0)" unfolding resolve_reach_def by blast
  from resolve_reach_step[OF this r_suspend]
  have "resolve_reach (demo_resolve RPending (Inl ResolveFailed) 0)"
    by (simp add: demo_resolve_def r_await_suspend_def link_lifetime_def)
  from resolve_reach_step[OF this r_answer[of _ "Inr [7]"]]
  show ?thesis by (simp add: demo_resolve_def r_deliver_def)
qed

section \<open>Properties\<close>

text \<open>C21. A sleep resumes its coroutine exactly when it expires or is cancelled, once, and never after the awaitable was destroyed while
  pending; then and whenever it is not pending, its timer, its registration with the token and the handle are released, and
  nothing that happens later changes the outcome.\<close>

theorem sleep_resumes_once:
  assumes "sleep_reach w"
  shows "s_resumes w = of_bool (s_phase (s_state w) = SExpired \<or> s_phase (s_state w) = SCancelled) \<and>
    (s_phase (s_state w) \<noteq> SPending \<longrightarrow> \<not> timer w \<and> \<not> s_registration (s_state w) \<and> \<not> s_handle (s_state w)) \<and>
    (s_phase (s_state w) \<in> {SExpired, SCancelled, SAbandoned} \<and> sleep_step\<^sup>*\<^sup>* w w' \<longrightarrow>
       s_phase (s_state w') = s_phase (s_state w) \<and> s_resumes w' = s_resumes w)"
  using sleep_reach_inv[OF assms] sleep_settled[of w w'] unfolding sleep_inv_def by fastforce

theorem sleep_resumes_once_witness:
  "sleep_reach (demo_sleep SCancelled True 0 False 1) \<and> s_resumes (demo_sleep SCancelled True 0 False 1) = 1 \<and>
   s_await_resume (demo_sleep SCancelled True 0 False 1) = Inl OpCancelled"
proof -
  have "s_phase (s_state (demo_sleep SCancelled True 0 False 1)) = SCancelled" by (simp add: demo_sleep_def)
  then show ?thesis using sleep_resumes_once[OF demo_sleep_cancelled] demo_sleep_cancelled by (simp add: s_await_resume_def)
qed

text \<open>C22. A pending sleep is never forgotten: its arming functor, a cancellation or its timer is outstanding, the timer and a
  cancellation resume it, and once armed, a request to cancel its token reaches it (the callback is about to run or the cancellation is
  queued), also when the request raced with the arming.\<close>

theorem sleep_never_forgotten:
  assumes "sleep_reach w" "s_phase (s_state w) = SPending"
  shows "(arming w \<or> cancels w > 0 \<or> timer w) \<and>
    (s_requested w \<and> \<not> arming w \<longrightarrow> in_flight w \<or> cancels w > 0) \<and>
    (outcome \<in> {SExpired, SCancelled} \<longrightarrow>
       s_resumes (s_complete outcome w) = 1 \<and> s_await_resume (s_complete outcome w) = (if outcome = SCancelled then Inl OpCancelled else Inr ()))"
proof -
  note inv = sleep_reach_inv[OF assms(1)]
  have p: "pending_ok w" "s_requested w \<longrightarrow> s_token w \<and> \<not> s_registration (s_state w)" using inv assms(2) by (simp_all add: sleep_inv_def)
  then have "(arming w \<or> cancels w > 0 \<or> timer w) \<and> (s_requested w \<and> \<not> arming w \<longrightarrow> in_flight w \<or> cancels w > 0)"
    unfolding pending_ok_def by satx
  then show ?thesis using sleep_moves[OF inv assms(2), of outcome] by (simp add: s_await_resume_def)
qed

theorem sleep_never_forgotten_witness:
  "sleep_reach (demo_sleep SPending False 0 False 0) \<and> s_resumes (s_complete SExpired (demo_sleep SPending False 0 False 0)) = 1"
proof -
  have "s_phase (s_state (demo_sleep SPending False 0 False 0)) = SPending" by (simp add: demo_sleep_def)
  from sleep_never_forgotten[OF demo_sleep_pending this, of SExpired] show ?thesis using demo_sleep_pending by simp
qed

text \<open>C23. A resolution resumes its coroutine once, when the resolver answers, with that answer; an awaitable destroyed while pending is never
  resumed and has cancelled the request of the resolver. While it is pending the answer is outstanding, and a request to
  cancel its token is passed on to the resolver.\<close>

theorem resolve_resumes_once:
  assumes "resolve_reach w"
  shows "r_resumes w = of_bool (r_phase (r_state w) = RCompleted) \<and>
    (r_phase (r_state w) = RPending \<longrightarrow> request w \<and> (r_requested w \<longrightarrow> r_in_flight w \<or> lifetimeCancellation (r_state w)) \<and>
       r_await_resume (r_deliver addrs w) = Inr addrs \<and> r_resumes (r_deliver addrs w) = 1) \<and>
    (r_phase (r_state w) = RAbandoned \<longrightarrow> lifetimeCancellation (r_state w)) \<and>
    (r_phase (r_state w) \<in> {RCompleted, RAbandoned} \<and> resolve_step\<^sup>*\<^sup>* w w' \<longrightarrow>
       r_resumes w' = r_resumes w \<and> r_await_resume w' = r_await_resume w)"
proof -
  have inv: "resolve_inv w" by (rule resolve_reach_inv[OF assms])
  have "r_resumes w' = r_resumes w \<and> r_await_resume w' = r_await_resume w"
    if "r_phase (r_state w) \<in> {RCompleted, RAbandoned}" "resolve_step\<^sup>*\<^sup>* w w'"
    using resolve_settled[OF that(2)] that(1) by (auto simp: r_await_resume_def)
  moreover have "r_await_resume (r_deliver addrs w) = Inr addrs \<and> r_resumes (r_deliver addrs w) = 1" if "r_phase (r_state w) = RPending"
    using inv that by (simp add: r_await_resume_def r_deliver_def resolve_inv_def)
  ultimately show ?thesis using inv unfolding resolve_inv_def by blast
qed

theorem resolve_resumes_once_witness:
  "resolve_reach (demo_resolve RCompleted (Inr [7]) 1) \<and> r_resumes (demo_resolve RCompleted (Inr [7]) 1) = 1"
  using resolve_resumes_once[OF demo_resolve_done] demo_resolve_done by (simp add: demo_resolve_def)

end
