(* ===== verification/Timed_Race.thy ===== *)
theory Timed_Race
  imports When_Any Sleep_Resolve
begin

text \<open>
  \<^verbatim>\<open>coroutine/Timeout.h\<close>: \<open>withTimeout\<close> races an operation against a sleep with \<open>whenAny\<close>.

  The tokens involved are the one set on the operation, the one inherited from the awaiting coroutine and, once \<open>whenAny\<close> has linked
  the wrapper task of the operation, the token of that wrapper. The race itself is the model of \<open>When_Any\<close> with sub-task 0 for
  \<open>prepareTimedOperation\<close> and sub-task 1 for \<open>timeoutResultTask\<close>, which awaits a sleep of the model \<open>Sleep_Resolve\<close>: the race and the
  sleep take their steps in any order, tied at three points. The sleep starts once \<open>whenAny\<close> has started its task; its token is the
  one that \<open>whenAny\<close> linked to that task; and the task returns what the sleep makes of it. The operation may return, throw or never end, and
  the timer task may throw instead of sleeping (no loop, no memory).
\<close>

section \<open>The two tasks\<close>

datatype timed_token = OperationToken | InheritedToken | WrapperToken

text \<open>\<open>timeoutResultTask\<close>: the value it returns when its sleep has resumed.\<close>

definition timeoutResultTask :: "netError + unit \<Rightarrow> netError + 'a" where
  "timeoutResultTask result = (case result of Inl e \<Rightarrow> Inl e | Inr _ \<Rightarrow> Inl TimedOut)"

text \<open>\<open>prepareTimedOperation\<close> before it awaits the operation: the token the operation then has.\<close>

definition prepareTimedOperation :: "bool \<Rightarrow> bool \<Rightarrow> bool \<Rightarrow> timed_token linkedCancellation option" where
  "prepareTimedOperation operation inherited wrapperToken =
     (let lc = link_token (if wrapperToken then Some WrapperToken else None)
           (link_token (if inherited then Some InheritedToken else None)
             (link_token (if operation then Some OperationToken else None) LinkedCancellation))
      in if linked lc then Some lc else None)"

text \<open>\<open>withTimeout\<close> up to the \<open>co_await\<close>: the wrapper of the operation has no token of its own, the timer has the inherited one.\<close>

definition withTimeout :: "bool \<Rightarrow> (netError + 'a) whenAny" where
  "withTimeout inherited = WhenAnyAwaitable False [False, inherited]"

text \<open>And after it: the value of the winner, or the exception.\<close>

definition withTimeout_result :: "(netError + 'a) whenAny \<Rightarrow> (netError + 'a) res" where
  "withTimeout_result w = bind_res (any_await_resume w) (\<lambda>(index, v). case v of None \<Rightarrow> Inl Out_of_bounds | Some r \<Rightarrow> Inr r)"

text \<open>A cancellation request reaches the operation: by its token, by the inherited one, or because it lost the race.\<close>

definition operation_cancelled :: "bool \<Rightarrow> bool \<Rightarrow> (timed_token \<Rightarrow> bool) \<Rightarrow> (netError + 'a) whenAny \<Rightarrow> bool" where
  "operation_cancelled operation inherited requested w =
     (case prepareTimedOperation operation inherited True of
        None \<Rightarrow> operation \<and> requested OperationToken
      | Some lc \<Rightarrow> linked_requested (\<lambda>t. if t = WrapperToken then task_cancelled (\<lambda>_. False) w 0 else requested t) lc)"

section \<open>Runs\<close>

text \<open>\<open>timer_sleep\<close>: the awaitable of the timer task, once it exists. \<open>inherited_requested\<close>: the inherited token was cancelled.\<close>

record 'a timed =
  race :: "(netError + 'a) whenAny"
  timer_sleep :: "sleep option"
  inherited_requested :: bool

definition timed_start :: "bool \<Rightarrow> 'a timed" where
  "timed_start inherited = \<lparr>race = withTimeout inherited, timer_sleep = None, inherited_requested = False\<rparr>"

text \<open>The token of the timer task is cancelled: by the inherited token, if there is one, or because the task lost the race.\<close>

definition timer_requested :: "'a timed \<Rightarrow> bool" where
  "timer_requested t = task_cancelled (\<lambda>_. inherited_requested t) (race t) 1"

definition end_timer :: "(netError + 'a) outcome \<Rightarrow> 'a timed \<Rightarrow> 'a timed" where
  "end_timer out t = t\<lparr>race := (set_any 1 (ATrying out) (any_state (race t)) (race t))\<lparr>any_outcomes := (any_outcomes (race t))[1 := Some out]\<rparr>\<rparr>"

text \<open>Nothing but its token cancels the sleep: nobody calls \<open>cancel\<close> on the awaitable of the timer task.\<close>

definition timer_sleep_step :: "bool \<Rightarrow> sleep \<Rightarrow> sleep \<Rightarrow> bool" where
  "timer_sleep_step requested s s' \<longleftrightarrow> sleep_step s s' \<and> (s_requested s' \<longrightarrow> s_requested s \<or> requested) \<and>
     (cancels s < cancels s' \<longrightarrow> s_requested s')"

inductive timed_step :: "'a timed \<Rightarrow> 'a timed \<Rightarrow> bool" where
  t_race: "any_step (race t) w \<Longrightarrow> any_outcomes w ! 1 = any_outcomes (race t) ! 1 \<Longrightarrow> timed_step t (t\<lparr>race := w\<rparr>)"
| t_inherited: "timed_step t (t\<lparr>inherited_requested := True\<rparr>)"
| t_sleep_begins: "any_wrappers (race t) ! 1 = AAwaiting \<Longrightarrow> timer_sleep t = None \<Longrightarrow>
    SleepAwaitable True True (timer_requested t) = Inr s \<Longrightarrow> timed_step t (t\<lparr>timer_sleep := Some s\<rparr>)"
| t_sleep: "timer_sleep t = Some s \<Longrightarrow> timer_sleep_step (timer_requested t) s s' \<Longrightarrow> timed_step t (t\<lparr>timer_sleep := Some s'\<rparr>)"
| t_timer_ends: "any_wrappers (race t) ! 1 = AAwaiting \<Longrightarrow> timer_sleep t = Some s \<Longrightarrow> s_resumes s = 1 \<Longrightarrow>
    timed_step t (end_timer (Returned (timeoutResultTask (s_await_resume s))) t)"
| t_timer_throws: "any_wrappers (race t) ! 1 = AAwaiting \<Longrightarrow> timed_step t (end_timer (Threw e) t)"

definition timed_reach :: "bool \<Rightarrow> 'a timed \<Rightarrow> bool" where
  "timed_reach inherited t \<longleftrightarrow> timed_step\<^sup>*\<^sup>* (timed_start inherited) t"

section \<open>Invariant\<close>

definition race_reach :: "bool \<Rightarrow> (netError + 'a) whenAny \<Rightarrow> bool" where
  "race_reach inherited w \<longleftrightarrow> any_step\<^sup>*\<^sup>* (withTimeout inherited) w"

lemma race_any_reach: "race_reach inherited w \<Longrightarrow> any_reach w"
  unfolding race_reach_def any_reach_def any_initial_def withTimeout_def by blast

lemma race_reach_step: "race_reach inherited w \<Longrightarrow> any_step w w' \<Longrightarrow> race_reach inherited w'"
  unfolding race_reach_def by (meson rtranclp.rtrancl_into_rtrancl)

lemma any_step_keeps:
  "any_step w w' \<Longrightarrow> length (any_wrappers w') = length (any_wrappers w) \<and> any_void w' = any_void w \<and>
     linkedCancellations (any_state w') = linkedCancellations (any_state w) \<and>
     length (cancellationSources (any_state w')) = length (cancellationSources (any_state w)) \<and>
     (\<forall>j. cancellationSources (any_state w) ! j \<longrightarrow> cancellationSources (any_state w') ! j)"
proof (induction rule: any_step.induct)
  case (any_wrapper i w fault w')
  have "xs ! j \<Longrightarrow> xs[k := True] ! j" for xs :: "bool list" and j k
    by (cases "k < length xs") (auto simp: nth_list_update list_update_beyond not_less)
  then show ?case using any_wrapper by (cases "any_wrappers w ! i") (auto simp: any_defs split: if_splits outcome.splits option.splits)
qed (simp_all add: set_any_def any_await_suspend_def)

lemma race_two:
  assumes "race_reach inherited w"
  shows "length (any_wrappers w) = 2 \<and> \<not> any_void w \<and> linkedCancellations (any_state w) ! 1 = linked_task inherited 1"
  using assms unfolding race_reach_def
  by (induction rule: rtranclp_induct) (simp_all add: withTimeout_def WhenAnyAwaitable_def WhenAnyState_def any_step_keeps)

lemma race_timer_requested:
  assumes "race_reach inherited w"
  shows "task_cancelled own w 1 \<longleftrightarrow> inherited \<and> own 1 \<or> cancellationSources (any_state w) ! 1"
  using race_two[OF assms] by (auto simp: task_cancelled_def linked_requested_def linked_task_def link_token_def LinkedCancellation_def)

text \<open>What cancels the sleep was asked for, and a sleep that ended keeps its outcome.\<close>

definition asked_ok :: "sleep \<Rightarrow> bool" where
  "asked_ok s \<longleftrightarrow> sleep_inv s \<and> (cancels s > 0 \<or> in_flight s \<or> s_phase (s_state s) = SCancelled \<longrightarrow> s_requested s)"

lemma asked_ok_step:
  assumes "timer_sleep_step requested s s'" "asked_ok s"
  shows "asked_ok s'"
proof -
  have st: "sleep_step s s'" and c: "cancels s < cancels s' \<longrightarrow> s_requested s'" using assms(1) by (simp_all add: timer_sleep_step_def)
  have "sleep_inv s'" using sleep_step_inv[OF st] assms(2) by (simp add: asked_ok_def)
  moreover have "cancels s' > 0 \<or> in_flight s' \<or> s_phase (s_state s') = SCancelled \<longrightarrow> s_requested s'"
    using st c assms(2) by (induction rule: sleep_step.induct) (auto simp: asked_ok_def sleep_defs run_callback_def Let_def split: if_splits)
  ultimately show ?thesis by (simp add: asked_ok_def)
qed

lemma sleep_ended_step:
  assumes "sleep_step s s'" "sleep_inv s" "s_resumes s = 1"
  shows "s_resumes s' = 1 \<and> s_phase (s_state s') = s_phase (s_state s)"
proof -
  have "s_phase (s_state s) = SExpired \<or> s_phase (s_state s) = SCancelled"
    using assms(2,3) by (cases "s_phase (s_state s)") (simp_all add: sleep_inv_def)
  with assms(1) show ?thesis using assms(3)
    by (induction rule: sleep_step.induct) (auto simp: sleep_defs run_callback_def Let_def split: if_splits)
qed

definition timed_inv :: "bool \<Rightarrow> 'a timed \<Rightarrow> bool" where
  "timed_inv inherited t \<longleftrightarrow> race_reach inherited (race t) \<and>
     (\<forall>s. timer_sleep t = Some s \<longrightarrow> asked_ok s \<and>
        (s_requested s \<longrightarrow> inherited \<and> inherited_requested t \<or> cancellationSources (any_state (race t)) ! 1)) \<and>
     (\<forall>r. any_outcomes (race t) ! 1 = Some (Returned r) \<longrightarrow>
        (\<exists>s. timer_sleep t = Some s \<and> s_resumes s = 1 \<and> r = timeoutResultTask (s_await_resume s)))"

lemma timed_inv_start: "timed_inv inherited (timed_start inherited)"
  by (simp add: timed_inv_def timed_start_def race_reach_def withTimeout_def WhenAnyAwaitable_def)

lemma end_timer_step:
  assumes "race_reach inherited (race t)" "any_wrappers (race t) ! 1 = AAwaiting"
  shows "any_step (race t) (race (end_timer out t))" "any_outcomes (race (end_timer out t)) ! 1 = Some out"
    "cancellationSources (any_state (race (end_timer out t))) = cancellationSources (any_state (race t))"
    "timer_sleep (end_timer out t) = timer_sleep t" "inherited_requested (end_timer out t) = inherited_requested t"
proof -
  have l: "length (any_wrappers (race t)) = 2" "length (any_outcomes (race t)) = 2"
    using race_two[OF assms(1)] any_invD(1)[OF any_reach_inv[OF race_any_reach[OF assms(1)]]] by simp_all
  show "any_step (race t) (race (end_timer out t))" using sub_ends[of 1 "race t" out] assms(2) l(1) by (simp add: end_timer_def)
  show "any_outcomes (race (end_timer out t)) ! 1 = Some out"
    "cancellationSources (any_state (race (end_timer out t))) = cancellationSources (any_state (race t))"
    "timer_sleep (end_timer out t) = timer_sleep t" "inherited_requested (end_timer out t) = inherited_requested t"
    using l(2) by (simp_all add: end_timer_def set_any_def)
qed

lemma timed_inv_step: "timed_step t t' \<Longrightarrow> timed_inv inherited t \<Longrightarrow> timed_inv inherited t'"
proof (induction rule: timed_step.induct)
  case (t_race t w)
  then show ?case using race_reach_step[OF _ t_race(1)] any_step_keeps[OF t_race(1)] by (auto simp: timed_inv_def)
next
  case (t_inherited t)
  then show ?case by (auto simp: timed_inv_def)
next
  case (t_sleep_begins t s)
  have "sleep_inv s" using t_sleep_begins(3) sleep_initial_inv unfolding sleep_initial_def by blast
  moreover have "s_requested s = timer_requested t" "cancels s = 0" "\<not> in_flight s" "s_phase (s_state s) = SUnarmed"
    using t_sleep_begins(3) by (auto simp: SleepAwaitable_def)
  moreover have "race_reach inherited (race t)" using t_sleep_begins(4) by (simp add: timed_inv_def)
  ultimately show ?case
    using t_sleep_begins(2,4) race_timer_requested by (auto simp: timed_inv_def asked_ok_def timer_requested_def)
next
  case (t_sleep t s s')
  have r: "race_reach inherited (race t)" and s: "asked_ok s" "s_requested s \<longrightarrow> inherited \<and> inherited_requested t \<or> cancellationSources (any_state (race t)) ! 1"
    using t_sleep(1,3) by (auto simp: timed_inv_def)
  have st: "sleep_step s s'" "s_requested s' \<longrightarrow> s_requested s \<or> timer_requested t" using t_sleep(2) by (simp_all add: timer_sleep_step_def)
  have "s_requested s' \<longrightarrow> inherited \<and> inherited_requested t \<or> cancellationSources (any_state (race t)) ! 1"
    using st(2) s(2) race_timer_requested[OF r] by (auto simp: timer_requested_def)
  moreover have "s_resumes s' = 1 \<and> s_await_resume s' = s_await_resume s" if "s_resumes s = 1"
    using sleep_ended_step[OF st(1) _ that] s(1) by (simp add: asked_ok_def s_await_resume_def)
  ultimately show ?case using t_sleep(1,3) asked_ok_step[OF t_sleep(2) s(1)] by (auto simp: timed_inv_def)
next
  case (t_timer_ends t s)
  then have r: "race_reach inherited (race t)" by (simp add: timed_inv_def)
  note e = end_timer_step[OF r t_timer_ends(1)]
  show ?case using t_timer_ends(2-4) e(2-5) race_reach_step[OF r e(1)] by (simp add: timed_inv_def)
next
  case (t_timer_throws t err)
  then have r: "race_reach inherited (race t)" by (simp add: timed_inv_def)
  note e = end_timer_step[OF r t_timer_throws(1)]
  show ?case using t_timer_throws(2) e(2-5) race_reach_step[OF r e(1)] by (simp add: timed_inv_def)
qed

lemma timed_reach_inv: "timed_reach inherited t \<Longrightarrow> timed_inv inherited t"
  unfolding timed_reach_def by (induction rule: rtranclp_induct) (auto intro: timed_inv_start timed_inv_step)

lemma operation_cancelled_iff:
  "operation_cancelled operation inherited requested w \<longleftrightarrow>
     operation \<and> requested OperationToken \<or> inherited \<and> requested InheritedToken \<or> task_cancelled (\<lambda>_. False) w 0"
  by (cases operation; cases inherited)
    (auto simp: operation_cancelled_def prepareTimedOperation_def link_token_def LinkedCancellation_def linked_requested_def Let_def)

text \<open>What the awaiting coroutine finds when it is resumed, by the index of the winner.\<close>

lemma resumed_winner:
  assumes "any_inv w" "any_resumes w = 1"
  obtains i where "winner w = Some i" "i < length (any_wrappers w)" "kept w i" "sources_cancelled w i (length (any_wrappers w))"
proof -
  obtain i where i: "winner w = Some i" "i < length (any_wrappers w)" "winner_ok w i (any_wrappers w ! i)"
    using any_invD(5)[OF assms(1)] assms(2) by (auto simp: race_ok_def split: option.splits)
  have "kept w i" "sources_cancelled w i (length (any_wrappers w))" using i(3) assms(2) by (cases "any_wrappers w ! i"; simp)+
  then show ?thesis using that i by blast
qed

lemma race_winner:
  assumes "race_reach inherited w" "any_resumes w = 1"
  obtains i out where "winner w = Some i" "i = 0 \<or> i = 1" "any_outcomes w ! i = Some out"
    "withTimeout_result w = (case out of Threw e \<Rightarrow> Inl e | Returned r \<Rightarrow> (case faults w of [] \<Rightarrow> Inr r | e # _ \<Rightarrow> Inl e))"
    "cancellationSources (any_state w) ! 0 = (i = 1)" "cancellationSources (any_state w) ! 1 = (i = 0)"
proof -
  have inv: "any_inv w" by (rule any_reach_inv[OF race_any_reach[OF assms(1)]])
  note two = race_two[OF assms(1)]
  obtain i where i: "winner w = Some i" "i < length (any_wrappers w)" "kept w i" "sources_cancelled w i (length (any_wrappers w))"
    by (rule resumed_winner[OF inv assms(2)])
  obtain out where out: "any_outcomes w ! i = Some out"
    "any_await_resume w = (case out of Threw e \<Rightarrow> Inl e
      | Returned v \<Rightarrow> (case faults w of [] \<Rightarrow> Inr (i, if any_void w then None else Some v) | e # es \<Rightarrow> Inl e))"
    using kept_result[OF i(3)] by blast
  have r: "withTimeout_result w = (case out of Threw e \<Rightarrow> Inl e | Returned r \<Rightarrow> (case faults w of [] \<Rightarrow> Inr r | e # _ \<Rightarrow> Inl e))"
    using out(2) two by (cases out; cases "faults w") (simp_all add: withTimeout_result_def)
  have "cancellationSources (any_state w) ! 0 = (0 \<noteq> i)" "cancellationSources (any_state w) ! 1 = (1 \<noteq> i)"
    using i(4) two unfolding sources_cancelled_def by simp_all
  moreover have "i = 0 \<or> i = 1" using i(2) two by auto
  ultimately show ?thesis using that[OF i(1) _ out(1) r] by auto
qed

text \<open>What a timer task that ended with a value tells of its sleep, when it was not cancelled by losing.\<close>

lemma timer_result:
  assumes "timed_inv inherited t" "any_outcomes (race t) ! 1 = Some (Returned r)" "\<not> cancellationSources (any_state (race t)) ! 1"
  shows "\<exists>s. timer_sleep t = Some s \<and> s_resumes s = 1 \<and>
    (s_phase (s_state s) = SExpired \<and> r = Inl TimedOut \<or>
     s_phase (s_state s) = SCancelled \<and> r = Inl OpCancelled \<and> inherited \<and> inherited_requested t)"
proof -
  obtain s where s: "timer_sleep t = Some s" "s_resumes s = 1" "r = timeoutResultTask (s_await_resume s)"
    using assms(1,2) by (auto simp: timed_inv_def)
  have a: "asked_ok s" "s_requested s \<longrightarrow> inherited \<and> inherited_requested t" using assms(1,3) s(1) by (auto simp: timed_inv_def)
  then show ?thesis using s
    by (cases "s_phase (s_state s)") (simp_all add: asked_ok_def sleep_inv_def s_await_resume_def timeoutResultTask_def)
qed

section \<open>Example\<close>

lemma timed_reach_step: "timed_reach b t \<Longrightarrow> timed_step t t' \<Longrightarrow> timed_reach b t'"
  unfolding timed_reach_def by (meson rtranclp.rtrancl_into_rtrancl)

text \<open>The timer expires first.\<close>

definition demo_race :: "bool \<Rightarrow> nat \<Rightarrow> bool \<Rightarrow> bool \<Rightarrow> (netError + nat) apc \<Rightarrow> nat \<Rightarrow> (netError + nat) whenAny" where
  "demo_race won index val c0 p k = \<lparr>any_state = \<lparr>any_done = won, any_parent = True, winnerIndex = index,
      winnerValue = (if val then Some (Inl TimedOut) else None), winnerException = None, cancellationSources = [c0, False],
      linkedCancellations = [linked_task False 0, linked_task False 1]\<rparr>,
     any_void = False, any_wrappers = [AAwaiting, p], any_launching = Some 2, any_resumes = k,
     any_outcomes = [None, if p = AAwaiting then None else Some (Returned (Inl TimedOut))],
     winner = (if won then Some 1 else None), faults = []\<rparr>"

definition demo_timed :: "(netError + nat) whenAny \<Rightarrow> sleep option \<Rightarrow> nat timed" where
  "demo_timed w s = \<lparr>race = w, timer_sleep = s, inherited_requested = False\<rparr>"

lemma demo_race_step:
  assumes "timed_reach b (demo_timed w s)" "any_step w w'" "any_outcomes w' ! 1 = any_outcomes w ! 1"
  shows "timed_reach b (demo_timed w' s)"
  using timed_reach_step[OF assms(1) t_race] assms(2,3) by (simp add: demo_timed_def)

lemma demo_timed_started: "timed_reach False (demo_timed (demo_race False 0 False False AAwaiting 0) None)"
proof -
  let ?s = "\<lambda>b. \<lparr>any_done = False, any_parent = b, winnerIndex = 0, winnerValue = None, winnerException = None,
      cancellationSources = [False, False], linkedCancellations = [linked_task False 0, linked_task False 1]\<rparr>"
  let ?w = "\<lambda>b p0 p1 l. \<lparr>any_state = ?s b, any_void = False, any_wrappers = [p0, p1], any_launching = l, any_resumes = 0,
     any_outcomes = [None, None], winner = None, faults = []\<rparr> :: (netError + nat) whenAny"
  have "timed_reach False (demo_timed (?w False ACreated ACreated None) None)"
    unfolding timed_reach_def
    by (simp add: timed_start_def demo_timed_def withTimeout_def WhenAnyAwaitable_def WhenAnyState_def numeral_2_eq_2)
  from demo_race_step[OF this any_suspend]
  have "timed_reach False (demo_timed (?w True ACreated ACreated (Some 0)) None)" by (simp add: any_await_suspend_def)
  from demo_race_step[OF this any_detach[of _ 0]]
  have "timed_reach False (demo_timed (?w True AAwaiting ACreated (Some 1)) None)" by (simp add: set_any_def)
  from demo_race_step[OF this any_detach[of _ 1]]
  show ?thesis by (simp add: set_any_def numeral_2_eq_2 demo_race_def)
qed

lemma demo_timed_ended:
  "timed_reach False (demo_timed (demo_race False 0 False False (ATrying (Returned (Inl TimedOut))) 0) (Some (demo_sleep SExpired False 0 False 1)))"
proof -
  let ?w = "demo_race False 0 False False AAwaiting 0"
  have a: "any_wrappers ?w ! 1 = AAwaiting" "\<not> timer_requested (demo_timed ?w s)" for s
    by (simp_all add: demo_race_def demo_timed_def timer_requested_def task_cancelled_def linked_task_def linked_requested_def
      link_token_def LinkedCancellation_def)
  have "timed_step (demo_timed ?w None) (demo_timed ?w (Some (demo_sleep SUnarmed False 0 False 0)))"
    using t_sleep_begins[of "demo_timed ?w None" "demo_sleep SUnarmed False 0 False 0"] a
    by (simp add: demo_timed_def SleepAwaitable_def demo_sleep_def)
  note b = timed_reach_step[OF demo_timed_started this]
  have "sleep_step (demo_sleep SUnarmed False 0 False 0) (demo_sleep SPending False 0 False 0)"
    by (rule s_suspend[of _ True False]) (simp_all add: demo_sleep_def s_await_suspend_def run_arming_def s_register_def)
  then have "timed_step (demo_timed ?w (Some (demo_sleep SUnarmed False 0 False 0))) (demo_timed ?w (Some (demo_sleep SPending False 0 False 0)))"
    using t_sleep[of "demo_timed ?w (Some (demo_sleep SUnarmed False 0 False 0))"]
    by (simp add: demo_timed_def timer_sleep_step_def) (simp add: demo_sleep_def)
  note c = timed_reach_step[OF b this]
  have "sleep_step (demo_sleep SPending False 0 False 0) (demo_sleep SExpired False 0 False 1)"
    using s_timer[of "demo_sleep SPending False 0 False 0"] by (simp add: demo_sleep_def s_complete_def resume_handle_def s_release_def)
  then have "timed_step (demo_timed ?w (Some (demo_sleep SPending False 0 False 0))) (demo_timed ?w (Some (demo_sleep SExpired False 0 False 1)))"
    using t_sleep[of "demo_timed ?w (Some (demo_sleep SPending False 0 False 0))"]
    by (simp add: demo_timed_def timer_sleep_step_def) (simp add: demo_sleep_def)
  note d = timed_reach_step[OF c this]
  have e: "s_resumes (demo_sleep SExpired False 0 False 1) = 1" "s_await_resume (demo_sleep SExpired False 0 False 1) = Inr ()"
    by (simp_all add: demo_sleep_def s_await_resume_def)
  from timed_reach_step[OF d t_timer_ends[of _ "demo_sleep SExpired False 0 False 1"]] a(1) e
  show ?thesis by (simp add: demo_timed_def end_timer_def timeoutResultTask_def) (simp add: demo_race_def set_any_def)
qed

definition demo_timed_out :: "nat timed" where
  "demo_timed_out = demo_timed (demo_race True 1 True True AFinished 1) (Some (demo_sleep SExpired False 0 False 1))"

lemma demo_timed_done: "timed_reach False demo_timed_out"
proof -
  let ?o = "Returned (Inl TimedOut) :: (netError + nat) outcome" and ?s = "Some (demo_sleep SExpired False 0 False 1)"
  note two_steps = demo_race_step[OF demo_race_step[OF _ any_wrapper[of 1 _ None]] any_wrapper[of 1 _ None]]
  from two_steps[OF demo_timed_ended]
  have "timed_reach False (demo_timed (demo_race True 1 False False (AKeeping ?o) 0) ?s)" by (simp add: any_defs demo_race_def)
  from two_steps[OF this]
  have "timed_reach False (demo_timed (demo_race True 1 True True (ACancelling 1) 0) ?s)" by (simp add: any_defs demo_race_def)
  from two_steps[OF this]
  have "timed_reach False (demo_timed (demo_race True 1 True True AResuming 0) ?s)" by (simp add: any_defs demo_race_def numeral_2_eq_2)
  from demo_race_step[OF this any_wrapper[of 1 _ None]] show ?thesis by (simp add: any_defs demo_race_def demo_timed_out_def)
qed

section \<open>Properties\<close>

text \<open>C20. When \<open>withTimeout\<close> resumes, either the operation ended first, the timer task has been cancelled and the operation has not been
  cancelled by the race; or the timer task ended first and a cancellation request has reached the operation. In the second case, unless
  the timer task threw, its sleep has ended: it expired and the value is \<open>TimedOut\<close>, or it was cancelled, which only the inherited token can
  have done, and the value is \<open>Cancelled\<close>. The result is what the first one to end returned or threw; a value is replaced by the first
  exception that moving it, or a callback run by the cancellation of the other task, has thrown.\<close>

theorem withTimeout_outcome:
  assumes "timed_reach inherited t" "any_resumes (race t) = 1"
  shows "\<exists>out.
    (winner (race t) = Some 0 \<and> any_outcomes (race t) ! 0 = Some out \<and> timer_requested t \<and>
       (\<forall>requested. operation_cancelled operation inherited requested (race t) \<longleftrightarrow>
          operation \<and> requested OperationToken \<or> inherited \<and> requested InheritedToken) \<or>
     winner (race t) = Some 1 \<and> any_outcomes (race t) ! 1 = Some out \<and>
       (\<forall>requested. operation_cancelled operation inherited requested (race t)) \<and>
       (case out of Threw e \<Rightarrow> True
        | Returned r \<Rightarrow> \<exists>s. timer_sleep t = Some s \<and> s_resumes s = 1 \<and>
            (s_phase (s_state s) = SExpired \<and> r = Inl TimedOut \<or>
             s_phase (s_state s) = SCancelled \<and> r = Inl OpCancelled \<and> inherited \<and> inherited_requested t))) \<and>
    withTimeout_result (race t) =
      (case out of Threw e \<Rightarrow> Inl e | Returned r \<Rightarrow> (case faults (race t) of [] \<Rightarrow> Inr r | e # _ \<Rightarrow> Inl e))"
proof -
  have inv: "timed_inv inherited t" by (rule timed_reach_inv[OF assms(1)])
  then have r: "race_reach inherited (race t)" by (simp add: timed_inv_def)
  obtain i out where i: "winner (race t) = Some i" "i = 0 \<or> i = 1" "any_outcomes (race t) ! i = Some out"
    "withTimeout_result (race t) =
      (case out of Threw e \<Rightarrow> Inl e | Returned r \<Rightarrow> (case faults (race t) of [] \<Rightarrow> Inr r | e # _ \<Rightarrow> Inl e))"
    "cancellationSources (any_state (race t)) ! 0 = (i = 1)" "cancellationSources (any_state (race t)) ! 1 = (i = 0)"
    by (rule race_winner[OF r assms(2)])
  have l: "0 < length (any_wrappers (race t))" using race_two[OF r] by simp
  have c: "task_cancelled (\<lambda>_. False) (race t) 0 = (i = 1)"
    using task_cancelled_iff(2)[OF any_reach_inv[OF race_any_reach[OF r]] l, of "\<lambda>_. False"] i(5) by simp
  show ?thesis
  proof (cases "i = 0")
    case True
    have "timer_requested t" using i(6) True race_timer_requested[OF r] by (simp add: timer_requested_def)
    then show ?thesis using True i c by (auto simp: operation_cancelled_iff)
  next
    case False
    have "case out of Threw e \<Rightarrow> True
        | Returned r \<Rightarrow> \<exists>s. timer_sleep t = Some s \<and> s_resumes s = 1 \<and>
            (s_phase (s_state s) = SExpired \<and> r = Inl TimedOut \<or>
             s_phase (s_state s) = SCancelled \<and> r = Inl OpCancelled \<and> inherited \<and> inherited_requested t)"
      using timer_result[OF inv] False i(2,3,6) by (cases out) auto
    then show ?thesis using False i c by (auto simp: operation_cancelled_iff)
  qed
qed

theorem withTimeout_outcome_witness:
  "timed_reach False demo_timed_out \<and> withTimeout_result (race demo_timed_out) = Inr (Inl TimedOut) \<and>
   operation_cancelled False False (\<lambda>_. False) (race demo_timed_out)"
proof -
  have "any_resumes (race demo_timed_out) = 1" "faults (race demo_timed_out) = []" "winner (race demo_timed_out) = Some 1"
    "any_outcomes (race demo_timed_out) ! 1 = Some (Returned (Inl TimedOut))"
    by (simp_all add: demo_timed_out_def demo_timed_def demo_race_def)
  then show ?thesis using withTimeout_outcome[OF demo_timed_done, of False] demo_timed_done by auto
qed

end
