(* ===== verification/Coro_Task.thy ===== *)
theory Coro_Task
  imports Awaitable "HOL-Library.Multiset"
begin

text \<open>
  \<^verbatim>\<open>coroutine/Task.h\<close> and \<^verbatim>\<open>coroutine/ResumeHandle.h\<close>: coroutine frames, their owners and the gates that serialise them.

  A frame is a number; frames are never reused. \<open>frames\<close> holds the promise of each together with where its body is, \<open>controls\<close> its
  \<open>FrameControl\<close>, \<open>executions\<close> the counters of the \<open>FrameGate\<close>s (a frame makes the gate with its own number). Every thread has a stack of
  activations: the calls of \<open>resume\<close> it is in, each with the gate whose mutex and counter it holds and the coroutine that runs
  in it, which symmetric transfer changes; none while the call is inside \<open>await_suspend\<close> of an awaitable, when the coroutine is
  already suspended. A call that would block on the mutex of a gate is a step that cannot be made yet.

  What bodies do is free: a running body, and code outside coroutines, may create tasks, start, detach, await or destroy the
  ones they have, suspend on an awaitable, be resumed through its handle (once, the contract \<open>awaitable\<close>), return or throw. The
  \<open>Task\<close> objects are the list \<open>tasks\<close> of the frames they own; local \<open>Task\<close> variables of a destroyed frame are destroyed by steps
  of their own. The contract of \<open>ResumeHandle.h\<close>, that a task is adopted only while its chain is not executing, is a condition of the step.
  \<open>bad\<close> records undefined behaviour, \<open>terminated\<close> a call of \<open>std::terminate\<close>.
\<close>

section \<open>State\<close>

datatype startState = Lazy | Started

text \<open>Where a body is: at its initial suspension, running, suspended on an awaitable or on a task, at its final suspension.\<close>

datatype place = AtStart | Running | AtExternal | AtTask | AtEnd

record 'v promise =
  exists :: bool
  place :: place
  startState :: startState
  stored_value :: "'v option"
  exception :: "cpp_error option"
  continuation :: "nat option"
  detached :: bool
  awaiting :: "nat option"

record control =
  c_handle :: bool
  gate :: nat
  children :: "nat list"

text \<open>\<open>handles\<close>: the \<open>ResumeHandle\<close>s that awaitables hold. \<open>launched\<close>: the wrappers that a combinator has joined and not yet detached.
  \<open>started\<close> and \<open>delivered\<close> (awaiting frame, awaited frame, outcome) are histories.\<close>

record 'v coro =
  frame_count :: nat
  frames :: "nat \<Rightarrow> 'v promise"
  controls :: "nat \<Rightarrow> control"
  executions :: "nat \<Rightarrow> nat"
  stacks :: "(nat \<times> nat option) list list"
  tasks :: "nat list"
  launched :: "nat list"
  handles :: "nat list"
  terminated :: bool
  bad :: bool
  started :: "nat list"
  delivered :: "(nat \<times> nat \<times> 'v outcome) list"

definition TaskPromise :: "'v promise" where
  "TaskPromise = \<lparr>exists = True, place = AtStart, startState = Lazy, stored_value = None, exception = None, continuation = None,
     detached = False, awaiting = None\<rparr>"

definition FrameControl :: "nat \<Rightarrow> control" where
  "FrameControl g = \<lparr>c_handle = True, gate = g, children = []\<rparr>"

definition upd_frame :: "nat \<Rightarrow> ('v promise \<Rightarrow> 'v promise) \<Rightarrow> 'v coro \<Rightarrow> 'v coro" where
  "upd_frame f h w = w\<lparr>frames := (frames w)(f := h (frames w f))\<rparr>"

definition upd_control :: "nat \<Rightarrow> (control \<Rightarrow> control) \<Rightarrow> 'v coro \<Rightarrow> 'v coro" where
  "upd_control f h w = w\<lparr>controls := (controls w)(f := h (controls w f))\<rparr>"

definition gate_of :: "'v coro \<Rightarrow> nat \<Rightarrow> nat" where
  "gate_of w f = gate (controls w f)"

definition finished :: "'v coro \<Rightarrow> nat \<Rightarrow> bool" where
  "finished w f \<longleftrightarrow> place (frames w f) = AtEnd"

section \<open>Gates\<close>

text \<open>A control is gone when its frame is and no handle holds it.\<close>

definition expired :: "'v coro \<Rightarrow> nat \<Rightarrow> bool" where
  "expired w c \<longleftrightarrow> \<not> exists (frames w c) \<and> c \<notin> set (handles w)"

definition link_count :: "'v coro \<Rightarrow> nat" where
  "link_count w = (\<Sum>p \<leftarrow> [0..<frame_count w]. length (children (controls w p)))"

text \<open>\<open>FrameControl::adoptGate\<close>, to a depth that the number of links bounds (\<open>adoptGate_gates\<close>).\<close>

fun adoptGate :: "nat \<Rightarrow> nat \<Rightarrow> nat \<Rightarrow> 'v coro \<Rightarrow> 'v coro" where
  "adoptGate 0 g c w = w"
| "adoptGate (Suc n) g c w =
     fold (\<lambda>child w. if expired w child then w else adoptGate n g child w) (children (controls w c))
       (upd_control c (\<lambda>x. x\<lparr>gate := g\<rparr>) w)"

definition linkChild :: "nat \<Rightarrow> nat \<Rightarrow> 'v coro \<Rightarrow> 'v coro" where
  "linkChild parent child w =
     (let w = upd_control parent (\<lambda>x. x\<lparr>children := filter (\<lambda>c. \<not> expired w c) (children x)\<rparr>) w;
          w = adoptGate (Suc (link_count w)) (gate_of w parent) child w
      in upd_control parent (\<lambda>x. x\<lparr>children := children x @ [child]\<rparr>) w)"

text \<open>The mutex of gate \<open>g\<close> is not held by another thread than \<open>i\<close>.\<close>

definition lock_free :: "nat \<Rightarrow> nat \<Rightarrow> 'v coro \<Rightarrow> bool" where
  "lock_free i g w \<longleftrightarrow> list_all (\<lambda>j. j = i \<or> g \<notin> fst ` set (stacks w ! j)) [0..<length (stacks w)]"

section \<open>Resuming and destroying frames\<close>

text \<open>\<open>FrameExecution\<close> and \<open>coroutine_handle::resume\<close> of a frame suspended at \<open>p\<close>.\<close>

definition enter :: "nat \<Rightarrow> place \<Rightarrow> nat \<Rightarrow> 'v coro \<Rightarrow> 'v coro" where
  "enter i p f w =
     (let g = gate_of w f
      in (upd_frame f (\<lambda>x. x\<lparr>place := Running\<rparr>) w)
           \<lparr>stacks := (stacks w)[i := (g, Some f) # stacks w ! i], executions := (executions w)(g := executions w g + 1),
            bad := bad w \<or> \<not> exists (frames w f) \<or> place (frames w f) \<noteq> p\<rparr>)"

text \<open>The activation on top of the stack of \<open>i\<close> returns.\<close>

definition leave :: "nat \<Rightarrow> 'v coro \<Rightarrow> 'v coro" where
  "leave i w =
     (case stacks w ! i of
        [] \<Rightarrow> w
      | (g, f) # st \<Rightarrow> w\<lparr>stacks := (stacks w)[i := st], executions := (executions w)(g := executions w g - 1)\<rparr>)"

text \<open>\<open>coroutine_handle::destroy\<close> up to the awaiter that the frame may hold.\<close>

definition free_frame :: "nat \<Rightarrow> 'v coro \<Rightarrow> 'v coro" where
  "free_frame f w =
     (upd_frame f (\<lambda>x. x\<lparr>exists := False, awaiting := None\<rparr>) (upd_control f (\<lambda>x. x\<lparr>c_handle := False\<rparr>) w))
       \<lparr>bad := bad w \<or> \<not> exists (frames w f) \<or> place (frames w f) = Running\<rparr>"

definition live_frames :: "'v coro \<Rightarrow> nat set" where
  "live_frames w = {f. f < frame_count w \<and> exists (frames w f)}"

lemma live_frames_code [code]: "live_frames w = set (filter (\<lambda>f. exists (frames w f)) [0..<frame_count w])"
  by (auto simp: live_frames_def)

lemma free_frame_live: "live_frames (free_frame f w) = live_frames w - {f}"
  by (auto simp: live_frames_def free_frame_def upd_frame_def upd_control_def)

lemma finite_live [simp]: "finite (live_frames w)"
  by (simp add: live_frames_def)

text \<open>\<open>destroyFrame\<close>: with the frame goes the awaiter in it, and with that the frame it owns. Destroying a frame that does not exist is
  undefined.\<close>

function destroyFrame :: "nat \<Rightarrow> 'v coro \<Rightarrow> 'v coro" where
  "destroyFrame f w =
     (if executions w (gate_of w f) \<noteq> 0 \<and> \<not> finished w f then w\<lparr>terminated := True\<rparr>
      else if f \<notin> live_frames w then w\<lparr>bad := True\<rparr>
      else case awaiting (frames w f) of
             None \<Rightarrow> free_frame f w
           | Some c \<Rightarrow> destroyFrame c (free_frame f w))"
  by pat_completeness auto
termination
proof (relation "measure (\<lambda>(f, w). card (live_frames w))", goal_cases)
  case (2 f w c)
  then have "card (live_frames w - {f}) < card (live_frames w)" by (intro card_Diff1_less) auto
  then show ?case by (simp add: free_frame_live)
qed simp

declare destroyFrame.simps [simp del]

section \<open>Operations of a task\<close>

definition try_start :: "nat \<Rightarrow> 'v coro \<Rightarrow> bool \<times> 'v coro" where
  "try_start f w =
     (if startState (frames w f) = Started then (False, w)
      else (True, (upd_frame f (\<lambda>x. x\<lparr>startState := Started\<rparr>) w)\<lparr>started := started w @ [f]\<rparr>))"

text \<open>Calling a coroutine function: \<open>get_return_object\<close> and \<open>initial_suspend\<close>.\<close>

definition new_task :: "'v coro \<Rightarrow> 'v coro" where
  "new_task w =
     (let f = frame_count w
      in w\<lparr>frame_count := f + 1, frames := (frames w)(f := TaskPromise), controls := (controls w)(f := FrameControl f),
           executions := (executions w)(f := 0), tasks := tasks w @ [f]\<rparr>)"

definition task_start :: "nat \<Rightarrow> nat \<Rightarrow> 'v coro \<Rightarrow> 'v coro res" where
  "task_start i f w =
     (if finished w f then Inr w
      else let (first, w) = try_start f w
           in if first then Inr (enter i AtStart f w) else Inl (Logic_error ''cannot start an already-started Task''))"

text \<open>\<open>detach\<close> after the \<open>Task\<close> has given up its frame.\<close>

definition task_detach :: "nat \<Rightarrow> nat \<Rightarrow> 'v coro \<Rightarrow> 'v coro" where
  "task_detach i f w =
     (if finished w f then destroyFrame f w
      else let (first, w) = try_start f (upd_frame f (\<lambda>x. x\<lparr>detached := True\<rparr>) w)
           in if first then enter i AtStart f w else w)"

text \<open>\<open>TaskPromise::value\<close> and \<open>Task::result\<close>.\<close>

definition promise_value :: "'v promise \<Rightarrow> 'v res" where
  "promise_value x =
     (case exception x of
        Some e \<Rightarrow> Inl e
      | None \<Rightarrow> (case stored_value x of None \<Rightarrow> Inl (Logic_error ''task value is not ready'') | Some v \<Rightarrow> Inr v))"

definition task_result :: "nat option \<Rightarrow> 'v coro \<Rightarrow> 'v res" where
  "task_result f w =
     (case f of
        None \<Rightarrow> Inl (Logic_error ''task result requested before completion'')
      | Some f \<Rightarrow>
          if \<not> finished w f then Inl (Logic_error ''task result requested before completion'')
          else promise_value (frames w f))"

definition task_done :: "nat option \<Rightarrow> 'v coro \<Rightarrow> bool" where
  "task_done f w = (case f of None \<Rightarrow> True | Some f \<Rightarrow> finished w f)"

definition outcome_of :: "'v promise \<Rightarrow> 'v outcome" where
  "outcome_of x = (case promise_value x of Inl e \<Rightarrow> Threw e | Inr v \<Rightarrow> Returned v)"

section \<open>Awaiting a task\<close>

text \<open>\<open>await_resume\<close> in the body of \<open>p\<close>, and the end of the awaiter.\<close>

definition await_done :: "nat \<Rightarrow> nat \<Rightarrow> 'v coro \<Rightarrow> 'v coro" where
  "await_done p c w = (destroyFrame c w)\<lparr>delivered := delivered w @ [(p, c, outcome_of (frames w c))]\<rparr>"

text \<open>Symmetric transfer on the stack of \<open>i\<close> to a frame suspended at \<open>q\<close>.\<close>

definition transfer :: "nat \<Rightarrow> place \<Rightarrow> nat \<Rightarrow> 'v coro \<Rightarrow> 'v coro" where
  "transfer i q f w =
     (case stacks w ! i of
        [] \<Rightarrow> w
      | (g, old) # st \<Rightarrow>
          (upd_frame f (\<lambda>x. x\<lparr>place := Running\<rparr>) w)
            \<lparr>stacks := (stacks w)[i := (g, Some f) # st], bad := bad w \<or> \<not> exists (frames w f) \<or> place (frames w f) \<noteq> q\<rparr>)"

text \<open>\<open>co_await std::move(task)\<close> in the body of \<open>f\<close>, which runs on thread \<open>i\<close>: \<open>await_ready\<close>, \<open>await_suspend\<close>.\<close>

definition await_task :: "nat \<Rightarrow> nat \<Rightarrow> nat \<Rightarrow> 'v coro \<Rightarrow> 'v coro" where
  "await_task i f c w =
     (if finished w c then await_done f c w
      else let w = linkChild f c w;
               w = upd_frame f (\<lambda>x. x\<lparr>place := AtTask, awaiting := Some c\<rparr>) w;
               (first, w) = try_start c (upd_frame c (\<lambda>x. x\<lparr>continuation := Some f\<rparr>) w)
           in if first then transfer i AtStart c w else leave i w)"

text \<open>The body of \<open>f\<close> suspends on another awaitable: its \<open>await_suspend\<close> is called and \<open>borrowResume\<close> makes a handle.\<close>

definition await_external :: "nat \<Rightarrow> nat \<Rightarrow> 'v coro \<Rightarrow> 'v coro" where
  "await_external i f w =
     (case stacks w ! i of
        [] \<Rightarrow> w
      | (g, old) # st \<Rightarrow>
          (upd_frame f (\<lambda>x. x\<lparr>place := AtExternal\<rparr>) w)\<lparr>handles := handles w @ [f], stacks := (stacks w)[i := (g, None) # st]\<rparr>)"

text \<open>\<open>return_value\<close> or \<open>unhandled_exception\<close>, then \<open>FinalAwaiter::await_suspend\<close>.\<close>

definition body_ends :: "nat \<Rightarrow> nat \<Rightarrow> 'v outcome \<Rightarrow> 'v coro \<Rightarrow> 'v coro" where
  "body_ends i f out w =
     (let w = upd_frame f (\<lambda>x. (case out of Returned v \<Rightarrow> x\<lparr>stored_value := Some v\<rparr> | Threw e \<Rightarrow> x\<lparr>exception := Some e\<rparr>)\<lparr>place := AtEnd\<rparr>) w
      in case continuation (frames w f) of
           Some p \<Rightarrow> await_done p f (upd_frame p (\<lambda>x. x\<lparr>awaiting := None\<rparr>) (transfer i AtTask p w))
         | None \<Rightarrow> leave i (if detached (frames w f) then free_frame f w else w))"

text \<open>\<open>ResumeHandle::resume\<close>.\<close>

definition resume_handle :: "nat \<Rightarrow> nat \<Rightarrow> 'v coro \<Rightarrow> 'v coro" where
  "resume_handle i f w =
     (if \<not> c_handle (controls w f) \<or> finished w f then w else enter i AtExternal f w)"

section \<open>Steps\<close>

definition disown :: "nat \<Rightarrow> 'v coro \<Rightarrow> 'v coro" where
  "disown f w = w\<lparr>tasks := remove1 f (tasks w)\<rparr>"

definition runs :: "nat \<Rightarrow> nat \<Rightarrow> 'v coro \<Rightarrow> bool" where
  "runs i f w \<longleftrightarrow> (case stacks w ! i of [] \<Rightarrow> False | (g, x) # _ \<Rightarrow> x = Some f)"

definition quiescent :: "nat \<Rightarrow> 'v coro \<Rightarrow> bool" where
  "quiescent c w \<longleftrightarrow> executions w (gate_of w c) = 0"

inductive coro_step :: "nat \<Rightarrow> 'v coro \<Rightarrow> 'v coro \<Rightarrow> bool" where
  create: "coro_step i w (new_task w)"
| start: "f \<in> set (tasks w) \<Longrightarrow> lock_free i (gate_of w f) w \<Longrightarrow> task_start i f w = Inr w' \<Longrightarrow> coro_step i w w'"
| detach_task: "f \<in> set (tasks w) \<Longrightarrow> lock_free i (gate_of w f) w \<Longrightarrow> coro_step i w (task_detach i f (disown f w))"
| destroy_task: "f \<in> set (tasks w) \<Longrightarrow> lock_free i (gate_of w f) w \<Longrightarrow> coro_step i w (destroyFrame f (disown f w))"
| await: "runs i f w \<Longrightarrow> c \<in> set (tasks w) \<Longrightarrow> lock_free i (gate_of w c) w \<Longrightarrow> finished w c \<or> quiescent c w \<Longrightarrow>
    coro_step i w (await_task i f c (disown c w))"
| joinChain: "runs i f w \<Longrightarrow> c \<in> set (tasks w) \<Longrightarrow> startState (frames w c) = Lazy \<Longrightarrow> quiescent c w \<Longrightarrow>
    coro_step i w (linkChild f c ((disown c w)\<lparr>launched := launched w @ [c]\<rparr>))"
| launch: "c \<in> set (launched w) \<Longrightarrow> lock_free i (gate_of w c) w \<Longrightarrow>
    coro_step i w (task_detach i c (w\<lparr>launched := remove1 c (launched w)\<rparr>))"
| suspend: "runs i f w \<Longrightarrow> coro_step i w (await_external i f w)"
| suspended: "stacks w ! i = (g, None) # st \<Longrightarrow> coro_step i w (leave i w)"
| ends: "runs i f w \<Longrightarrow> coro_step i w (body_ends i f out w)"
| resume: "f \<in> set (handles w) \<Longrightarrow> lock_free i (gate_of w f) w \<Longrightarrow>
    coro_step i w (resume_handle i f (w\<lparr>handles := remove1 f (handles w)\<rparr>))"

text \<open>Some thread moves, unless the program was terminated.\<close>

definition cstep :: "'v coro \<Rightarrow> 'v coro \<Rightarrow> bool" where
  "cstep w w' \<longleftrightarrow> \<not> terminated w \<and> (\<exists>i < length (stacks w). coro_step i w w')"

definition coro_init :: "nat \<Rightarrow> 'v coro" where
  "coro_init n = \<lparr>frame_count = 0, frames = (\<lambda>_. TaskPromise\<lparr>exists := False\<rparr>), controls = (\<lambda>_. (FrameControl 0)\<lparr>c_handle := False\<rparr>),
     executions = (\<lambda>_. 0), stacks = replicate n [], tasks = [], launched = [], handles = [], terminated = False, bad = False,
     started = [], delivered = []\<rparr>"

definition coro_reach :: "'v coro \<Rightarrow> bool" where
  "coro_reach w \<longleftrightarrow> (\<exists>n. cstep\<^sup>*\<^sup>* (coro_init n) w)"

section \<open>Invariant\<close>

definition running :: "'v coro \<Rightarrow> nat set" where
  "running w = {f. f \<in> live_frames w \<and> place (frames w f) = Running}"

text \<open>Activations: their coroutines are the running frames, each once, under their gates; the counters are right; no gate is held by two
  threads.\<close>

definition acts :: "'v coro \<Rightarrow> (nat \<times> nat option) multiset" where
  "acts w = mset (concat (stacks w))"

definition acts_ok :: "'v coro \<Rightarrow> bool" where
  "acts_ok w \<longleftrightarrow>
     filter_mset (\<lambda>(g, x). x \<noteq> None) (acts w) = image_mset (\<lambda>f. (gate_of w f, Some f)) (mset_set (running w)) \<and>
     (\<forall>g. executions w g = count (image_mset fst (acts w)) g)"

definition locks_ok :: "'v coro \<Rightarrow> bool" where
  "locks_ok w \<longleftrightarrow> (\<forall>i < length (stacks w). fst ` set (stacks w ! i) \<subseteq> {..<frame_count w}) \<and>
     (\<forall>i < length (stacks w). \<forall>j < length (stacks w). i \<noteq> j \<longrightarrow> fst ` set (stacks w ! i) \<inter> fst ` set (stacks w ! j) = {})"

text \<open>Links of controls: a frame is linked once, and it shares the gate of the frame that linked it.\<close>

definition links_ok :: "'v coro \<Rightarrow> bool" where
  "links_ok w \<longleftrightarrow> (\<forall>f < frame_count w. gate_of w f < frame_count w) \<and>
     (\<forall>p c. c \<in> set (children (controls w p)) \<longrightarrow> p < frame_count w \<and> c < frame_count w \<and> c \<notin> set (tasks w) \<and>
        (\<forall>q. c \<in> set (children (controls w q)) \<longrightarrow> q = p) \<and> (\<not> expired w c \<longrightarrow> gate_of w c = gate_of w p))"

text \<open>Owners. \<open>orphan\<close> is the frame that \<open>destroyFrame\<close> is about to destroy.\<close>

definition awaited :: "'v coro \<Rightarrow> nat \<Rightarrow> bool" where
  "awaited w c \<longleftrightarrow> (\<exists>p \<in> live_frames w. awaiting (frames w p) = Some c)"

definition frame_ok :: "nat option \<Rightarrow> 'v coro \<Rightarrow> nat \<Rightarrow> bool" where
  "frame_ok orphan w f \<longleftrightarrow>
     (if orphan = Some f then f \<notin> set (tasks w) \<and> f \<notin> set (launched w)
      else if f \<in> set (tasks w) then f \<notin> set (launched w) \<and> \<not> detached (frames w f) \<and> continuation (frames w f) = None
      else if f \<in> set (launched w) then place (frames w f) = AtStart \<and> \<not> detached (frames w f) \<and> continuation (frames w f) = None
      else if detached (frames w f) then place (frames w f) \<notin> {AtStart, AtEnd} \<and> continuation (frames w f) = None
      else place (frames w f) \<notin> {AtStart, AtEnd} \<and>
        (\<exists>p \<in> live_frames w. continuation (frames w f) = Some p \<and> awaiting (frames w p) = Some f))"

definition await_ok :: "'v coro \<Rightarrow> nat \<Rightarrow> bool" where
  "await_ok w p \<longleftrightarrow>
     (awaiting (frames w p) \<noteq> None) = (place (frames w p) = AtTask) \<and>
     (\<forall>c. awaiting (frames w p) = Some c \<longrightarrow> c \<in> live_frames w \<and> continuation (frames w c) = Some p \<and> c \<notin> set (tasks w) \<and>
        c \<notin> set (launched w) \<and> \<not> detached (frames w c) \<and> c \<in> set (children (controls w p)))"

definition owners_ok :: "nat option \<Rightarrow> 'v coro \<Rightarrow> bool" where
  "owners_ok orphan w \<longleftrightarrow>
     distinct (tasks w) \<and> distinct (launched w) \<and> set (tasks w) \<subseteq> live_frames w \<and> set (launched w) \<subseteq> live_frames w \<and>
     (\<forall>f \<in> live_frames w. frame_ok orphan w f \<and> await_ok w f \<and> c_handle (controls w f) \<and>
        (startState (frames w f) = Lazy) = (place (frames w f) = AtStart) \<and>
        (place (frames w f) = AtExternal) = (f \<in> set (handles w))) \<and>
     (\<forall>x. orphan = Some x \<longrightarrow> x \<in> live_frames w \<and> \<not> awaited w x)"

definition handles_ok :: "'v coro \<Rightarrow> bool" where
  "handles_ok w \<longleftrightarrow> distinct (handles w) \<and> set (handles w) \<subseteq> {..<frame_count w} \<and>
     (\<forall>f. f < frame_count w \<and> \<not> exists (frames w f) \<longrightarrow> \<not> c_handle (controls w f)) \<and>
     (\<forall>f. frame_count w \<le> f \<longrightarrow> \<not> exists (frames w f))"

definition history_ok :: "'v coro \<Rightarrow> bool" where
  "history_ok w \<longleftrightarrow> distinct (started w) \<and> set (started w) \<subseteq> {..<frame_count w} \<and>
     (\<forall>f \<in> live_frames w. f \<in> set (started w) \<longleftrightarrow> startState (frames w f) = Started) \<and>
     distinct (map (\<lambda>(p, c, out). c) (delivered w)) \<and>
     (\<forall>(p, c, out) \<in> set (delivered w). c < frame_count w \<and> place (frames w c) = AtEnd \<and> \<not> exists (frames w c) \<and> out = outcome_of (frames w c))"

definition coro_inv :: "nat option \<Rightarrow> 'v coro \<Rightarrow> bool" where
  "coro_inv orphan w \<longleftrightarrow> acts_ok w \<and> locks_ok w \<and> links_ok w \<and> owners_ok orphan w \<and> handles_ok w \<and> history_ok w"

definition safe :: "'v coro \<Rightarrow> bool" where
  "safe w \<longleftrightarrow> \<not> bad w \<and> (terminated w \<or> coro_inv None w)"

section \<open>Adoption\<close>

definition links :: "'v coro \<Rightarrow> (nat \<times> nat) set" where
  "links w = {(p, c). c \<in> set (children (controls w p)) \<and> \<not> expired w c}"

definition set_gates :: "nat \<Rightarrow> nat set \<Rightarrow> 'v coro \<Rightarrow> 'v coro" where
  "set_gates g D w = w\<lparr>controls := (\<lambda>d. if d \<in> D then (controls w d)\<lparr>gate := g\<rparr> else controls w d)\<rparr>"

lemma set_gates_simps [simp]:
  "links (set_gates g D w) = links w" "expired (set_gates g D w) = expired w"
  "children (controls (set_gates g D w) c) = children (controls w c)" "set_gates g D (set_gates g E w) = set_gates g (D \<union> E) w"
  "set_gates g {} w = w" "upd_control c (\<lambda>x. x\<lparr>gate := g\<rparr>) w = set_gates g {c} w"
  by (auto simp: links_def set_gates_def expired_def upd_control_def fun_eq_iff split: if_splits)

definition within :: "nat \<Rightarrow> 'v coro \<Rightarrow> nat \<Rightarrow> nat set" where
  "within n w c = {d. \<exists>k < n. (c, d) \<in> links w ^^ k}"

lemma within_set_gates [simp]: "within n (set_gates g D w) = within n w"
  by (simp add: within_def fun_eq_iff)

lemma within_Suc: "within (Suc n) w c = insert c (\<Union>child \<in> {x. (c, x) \<in> links w}. within n w child)"
proof -
  have "d \<in> within (Suc n) w c \<longleftrightarrow> d = c \<or> (\<exists>child. (c, child) \<in> links w \<and> d \<in> within n w child)" for d
  proof
    assume "d \<in> within (Suc n) w c"
    then obtain k where k: "k < Suc n" "(c, d) \<in> links w ^^ k" by (auto simp: within_def)
    show "d = c \<or> (\<exists>child. (c, child) \<in> links w \<and> d \<in> within n w child)"
    proof (cases k)
      case (Suc m)
      then have "(c, d) \<in> links w O links w ^^ m" using k(2) by (simp add: relpow_commute)
      then show ?thesis using k(1) Suc by (auto simp: within_def)
    qed (use k in simp)
  next
    assume "d = c \<or> (\<exists>child. (c, child) \<in> links w \<and> d \<in> within n w child)"
    then show "d \<in> within (Suc n) w c"
    proof
      assume "d = c"
      then show ?thesis unfolding within_def by (auto intro!: exI[of _ 0])
    next
      assume "\<exists>child. (c, child) \<in> links w \<and> d \<in> within n w child"
      then obtain child k where k: "(c, child) \<in> links w" "k < n" "(child, d) \<in> links w ^^ k" by (auto simp: within_def)
      then have "(c, d) \<in> links w ^^ Suc k" by (metis relpow_Suc_I2)
      then show ?thesis using k(2) unfolding within_def by blast
    qed
  qed
  then show ?thesis by blast
qed

lemma adoptGate_within: "adoptGate n g c w = set_gates g (within n w c) w"
proof (induction n arbitrary: c w)
  case 0
  then show ?case by (simp add: within_def)
next
  case (Suc n)
  let ?f = "\<lambda>child w. if expired w child then w else adoptGate n g child w"
  have "fold ?f cs (set_gates g D w) = set_gates g (D \<union> (\<Union>child \<in> {x \<in> set cs. \<not> expired w x}. within n w child)) w" for cs D
  proof (induction cs arbitrary: D)
    case (Cons x cs)
    show ?case
    proof (cases "expired w x")
      case True
      then have "{y \<in> set (x # cs). \<not> expired w y} = {y \<in> set cs. \<not> expired w y}" by auto
      then show ?thesis using Cons.IH[of D] True by simp
    next
      case False
      then have e: "{y \<in> set (x # cs). \<not> expired w y} = insert x {y \<in> set cs. \<not> expired w y}" by auto
      have "fold ?f (x # cs) (set_gates g D w) = fold ?f cs (set_gates g (within n w x \<union> D) w)" using False Suc.IH by simp
      also have "\<dots> = set_gates g (D \<union> (\<Union>child \<in> {y \<in> set (x # cs). \<not> expired w y}. within n w child)) w"
        unfolding Cons.IH e by (rule arg_cong[of _ _ "\<lambda>D. set_gates g D w"]) blast
      finally show ?thesis .
    qed
  qed simp
  from this[of "children (controls w c)" "{c}"] show ?case by (simp add: within_Suc links_def)
qed

lemma links_card: 
  assumes "links_ok w"
  shows "finite (links w)" "card (links w) \<le> link_count w"
proof -
  let ?S = "\<lambda>p. Pair p ` set (children (controls w p))"
  have sub: "links w \<subseteq> (\<Union>p \<in> {0..<frame_count w}. ?S p)" 
  proof clarify
    fix p c assume "(p, c) \<in> links w"
    then have "c \<in> set (children (controls w p))" "p < frame_count w" using assms unfolding links_def links_ok_def by blast+
    then show "(p, c) \<in> (\<Union>p \<in> {0..<frame_count w}. ?S p)" by auto
  qed
  then show "finite (links w)" by (rule finite_subset) simp
  have "card (links w) \<le> card (\<Union>p \<in> {0..<frame_count w}. ?S p)" using sub by (intro card_mono) simp_all
  also have "\<dots> \<le> (\<Sum>p \<in> {0..<frame_count w}. card (?S p))" by (intro card_UN_le) simp
  also have "\<dots> \<le> (\<Sum>p \<in> {0..<frame_count w}. length (children (controls w p)))"
  proof (rule sum_mono)
    fix p
    have "card (?S p) \<le> card (set (children (controls w p)))" by (rule card_image_le) simp
    then show "card (?S p) \<le> length (children (controls w p))" using card_length[of "children (controls w p)"] by linarith
  qed
  finally show "card (links w) \<le> link_count w" by (simp add: link_count_def interv_sum_list_conv_sum_set_nat)
qed

text \<open>The depth is enough: the whole chain of the child is adopted, and more depth changes nothing.\<close>

lemma adoptGate_gates:
  assumes "links_ok w" "link_count w < n"
  shows "adoptGate n g c w = set_gates g ((links w)\<^sup>* `` {c}) w"
proof -
  have "(links w)\<^sup>* = (\<Union>k \<in> {k. k \<le> card (links w)}. links w ^^ k)"
    by (rule rtrancl_finite_eq_relpow[OF links_card(1)[OF assms(1)]])
  moreover have "k < n" if "k \<le> card (links w)" for k using links_card(2)[OF assms(1)] assms(2) that by linarith
  ultimately have "(links w)\<^sup>* `` {c} \<subseteq> within n w c" unfolding within_def by blast
  moreover have "within n w c \<subseteq> (links w)\<^sup>* `` {c}" unfolding within_def rtrancl_is_UN_relpow by blast
  ultimately have "within n w c = (links w)\<^sup>* `` {c}" by blast
  then show ?thesis by (simp add: adoptGate_within)
qed

text \<open>What else happens does not disturb the links.\<close>

lemma links_ok_frame:
  assumes ok: "links_ok w" and ch: "\<And>p. set (children (controls w' p)) \<subseteq> set (children (controls w p))"
    and n: "frame_count w \<le> frame_count w'" and t: "\<And>c. c < frame_count w \<Longrightarrow> c \<in> set (tasks w') \<Longrightarrow> c \<in> set (tasks w)"
    and e: "\<And>c. c < frame_count w \<Longrightarrow> expired w c \<Longrightarrow> expired w' c"
    and g: "\<And>c. c < frame_count w \<Longrightarrow> gate_of w' c = gate_of w c"
    and new: "\<And>c. frame_count w \<le> c \<Longrightarrow> c < frame_count w' \<Longrightarrow> gate_of w' c < frame_count w'"
  shows "links_ok w'"
  unfolding links_ok_def
proof (intro conjI allI impI)
  show "gate_of w' f < frame_count w'" if "f < frame_count w'" for f
  proof (cases "f < frame_count w")
    case True
    then have "gate_of w f < frame_count w" using ok by (simp add: links_ok_def)
    then show ?thesis using g[OF True] n by simp
  qed (use new that in simp)
next
  fix p c assume "c \<in> set (children (controls w' p))"
  then have c: "c \<in> set (children (controls w p))" using ch by blast
  have o: "p < frame_count w" "c < frame_count w" "c \<notin> set (tasks w)" "\<not> expired w c \<longrightarrow> gate_of w c = gate_of w p"
    "\<And>q. c \<in> set (children (controls w q)) \<Longrightarrow> q = p" using ok c unfolding links_ok_def by blast+
  have "\<not> expired w' c \<longrightarrow> gate_of w' c = gate_of w' p" using o(4) e[OF o(2)] g[OF o(1)] g[OF o(2)] by auto
  then show "\<not> expired w' c \<Longrightarrow> gate_of w' c = gate_of w' p" by blast
  show "p < frame_count w'" "c < frame_count w'" "c \<notin> set (tasks w')" using o(1-3) n t by auto
  show "q = p" if "c \<in> set (children (controls w' q))" for q using o(5) ch that by blast
qed

text \<open>A chain has one gate.\<close>

lemma chain_gate:
  assumes "links_ok w" "(c, d) \<in> (links w)\<^sup>*"
  shows "gate_of w d = gate_of w c"
  using assms(2)
proof (induction rule: rtrancl_induct)
  case (step d e)
  then have "e \<in> set (children (controls w d))" "\<not> expired w e" by (auto simp: links_def)
  then have "gate_of w e = gate_of w d" using assms(1) unfolding links_ok_def by blast
  then show ?case using step.IH by simp
qed simp

lemma running_gate:
  assumes "acts_ok w" "f \<in> running w"
  shows "executions w (gate_of w f) \<noteq> 0"
proof -
  have "finite (running w)" by (rule finite_subset[OF _ finite_live[of w]]) (auto simp: running_def)
  then have "(gate_of w f, Some f) \<in># filter_mset (\<lambda>(g, x). x \<noteq> None) (acts w)"
    using assms unfolding acts_ok_def by auto
  then have "gate_of w f \<in># image_mset fst (acts w)" by force
  then show ?thesis using assms(1) by (simp add: acts_ok_def)
qed

definition adopted :: "nat \<Rightarrow> nat \<Rightarrow> 'v coro \<Rightarrow> nat \<Rightarrow> control" where
  "adopted p c w d =
     (let x = (if d \<in> (links w)\<^sup>* `` {c} then (controls w d)\<lparr>gate := gate_of w p\<rparr> else controls w d)
      in if d = p then x\<lparr>children := filter (\<lambda>c. \<not> expired w c) (children x) @ [c]\<rparr> else x)"

lemma linkChild_adopted:
  assumes "links_ok w"
  shows "linkChild p c w = w\<lparr>controls := adopted p c w\<rparr>"
proof -
  let ?w = "upd_control p (\<lambda>x. x\<lparr>children := filter (\<lambda>c. \<not> expired w c) (children x)\<rparr>) w"
  have e: "expired ?w = expired w" by (simp add: expired_def upd_control_def fun_eq_iff)
  have l: "links ?w = links w" unfolding links_def e by (auto simp: upd_control_def split: if_splits)
  have sub: "set (children (controls ?w q)) \<subseteq> set (children (controls w q))" "gate_of ?w = gate_of w" "frame_count ?w = frame_count w"
    "tasks ?w = tasks w" for q by (auto simp: upd_control_def gate_of_def)
  then have "links_ok ?w" by (intro links_ok_frame[OF assms]) (simp_all add: e)
  from adoptGate_gates[OF this, of "Suc (link_count ?w)"]
  have "linkChild p c w = upd_control p (\<lambda>x. x\<lparr>children := children x @ [c]\<rparr>) (set_gates (gate_of w p) ((links w)\<^sup>* `` {c}) ?w)"
    unfolding linkChild_def Let_def l sub(2) by simp
  also have "\<dots> = w\<lparr>controls := adopted p c w\<rparr>"
    (is "?r = _")
  proof (rule coro.equality)
    have "controls ?r d = adopted p c w d" for d by (simp add: upd_control_def set_gates_def adopted_def Let_def)
    then show "controls ?r = controls (w\<lparr>controls := adopted p c w\<rparr>)" by (simp add: fun_eq_iff)
  qed (simp_all add: upd_control_def set_gates_def)
  finally show ?thesis .
qed

lemma adopted_fields:
  "c_handle (adopted p c w d) = c_handle (controls w d)"
  "children (adopted p c w d) = (if d = p then filter (\<lambda>c. \<not> expired w c) (children (controls w d)) @ [c] else children (controls w d))"
  "gate (adopted p c w d) = (if d \<in> (links w)\<^sup>* `` {c} then gate_of w p else gate_of w d)"
  by (simp_all add: adopted_def gate_of_def Let_def)

lemma linkChild_links:
  assumes ok: "links_ok w" and c: "c < frame_count w" "c \<notin> set (tasks w)" "\<And>q. c \<notin> set (children (controls w q))"
    and p: "p < frame_count w" "p \<notin> (links w)\<^sup>* `` {c}"
  shows "links_ok (linkChild p c w)"
  unfolding linkChild_adopted[OF ok] links_ok_def
proof (rule conjI)
  have "gate (adopted p c w f) < frame_count w" if "f < frame_count w" for f
    using ok that p(1) by (simp add: adopted_fields links_ok_def)
  then show "\<forall>f < frame_count (w\<lparr>controls := adopted p c w\<rparr>). gate_of (w\<lparr>controls := adopted p c w\<rparr>) f < frame_count (w\<lparr>controls := adopted p c w\<rparr>)"
    by (simp add: gate_of_def)
  show "\<forall>q d. d \<in> set (children (controls (w\<lparr>controls := adopted p c w\<rparr>) q)) \<longrightarrow>
      q < frame_count (w\<lparr>controls := adopted p c w\<rparr>) \<and> d < frame_count (w\<lparr>controls := adopted p c w\<rparr>) \<and>
      d \<notin> set (tasks (w\<lparr>controls := adopted p c w\<rparr>)) \<and>
      (\<forall>q'. d \<in> set (children (controls (w\<lparr>controls := adopted p c w\<rparr>) q')) \<longrightarrow> q' = q) \<and>
      (\<not> expired (w\<lparr>controls := adopted p c w\<rparr>) d \<longrightarrow> gate_of (w\<lparr>controls := adopted p c w\<rparr>) d = gate_of (w\<lparr>controls := adopted p c w\<rparr>) q)"
  proof (intro allI impI)
  let ?w = "w\<lparr>controls := adopted p c w\<rparr>" and ?D = "(links w)\<^sup>* `` {c}"
  have ch: "d \<in> set (children (controls ?w q)) \<Longrightarrow> d \<in> set (children (controls w q)) \<or> q = p \<and> d = c" for q d
    by (auto simp: adopted_fields split: if_splits)
  fix q d assume d: "d \<in> set (children (controls ?w q))"
  have "gate_of ?w d = gate_of ?w q" if ne: "\<not> expired w d"
  proof (cases "d \<in> set (children (controls w q))")
    case True
    then have qd: "(q, d) \<in> links w" "d \<noteq> c" using ne c(3) by (auto simp: links_def)
    have "d \<in> ?D \<longleftrightarrow> q \<in> ?D"
    proof
      assume "d \<in> ?D"
      then obtain r where r: "(c, r) \<in> (links w)\<^sup>*" "(r, d) \<in> links w" using qd(2) by (auto elim: rtranclE)
      then have "r = q" using ok True unfolding links_def links_ok_def by blast
      then show "q \<in> ?D" using r by simp
    next
      assume "q \<in> ?D"
      then show "d \<in> ?D" using qd(1) by (auto intro: rtrancl.rtrancl_into_rtrancl)
    qed
    moreover have "gate_of w d = gate_of w q" using ok True ne unfolding links_ok_def by blast
    ultimately show ?thesis by (simp add: gate_of_def[of ?w] adopted_fields)
  next
    case False
    then have "q = p" "d = c" using ch[OF d] by simp_all
    then show ?thesis using p(2) by (simp add: gate_of_def[of ?w] adopted_fields)
  qed
  moreover have "expired ?w = expired w" by (simp add: expired_def fun_eq_iff)
  moreover have "q' = q" if "d \<in> set (children (controls ?w q'))" for q'
    using ch[OF d] ch[OF that] c(3) ok unfolding links_ok_def by blast
  moreover have "q < frame_count w \<and> d < frame_count w \<and> d \<notin> set (tasks w)"
    using ch[OF d] c(1,2) p(1) ok unfolding links_ok_def by blast
  ultimately show "q < frame_count ?w \<and> d < frame_count ?w \<and> d \<notin> set (tasks ?w) \<and>
      (\<forall>q'. d \<in> set (children (controls ?w q')) \<longrightarrow> q' = q) \<and> (\<not> expired ?w d \<longrightarrow> gate_of ?w d = gate_of ?w q)"
    by (metis (no_types, lifting) coro.select_convs(1,6) coro.update_convs(3) coro.surjective)
  qed
qed

text \<open>Adoption under the contract: a running frame links a quiescent one; no running frame changes its gate.\<close>

lemma adoption_gates:
  assumes "links_ok w" "acts_ok w" "p \<in> running w" "quiescent c w"
  shows "p \<notin> (links w)\<^sup>* `` {c}" "f \<in> running w \<Longrightarrow> gate (adopted p c w f) = gate_of w f"
proof -
  have n: "f \<notin> (links w)\<^sup>* `` {c}" if "f \<in> running w" for f
  proof
    assume "f \<in> (links w)\<^sup>* `` {c}"
    then have "gate_of w f = gate_of w c" using chain_gate[OF assms(1)] by blast
    then show False using running_gate[OF assms(2) that] assms(4) by (simp add: quiescent_def)
  qed
  then show "p \<notin> (links w)\<^sup>* `` {c}" using assms(3) by blast
  show "f \<in> running w \<Longrightarrow> gate (adopted p c w f) = gate_of w f" using n by (simp add: adopted_fields)
qed

end
