(* ===== verification/Coro_Proofs.thy ===== *)
theory Coro_Proofs
  imports Coro_Task
begin

text \<open>
  The invariant of the coroutine frames of \<open>Coro_Task\<close> and the properties that follow from it: no frame is resumed or destroyed
  wrongly, every frame has one owner, and a chain of awaiting frames is run by one thread at a time.
\<close>

section \<open>Activations\<close>

lemma finite_running [simp]: "finite (running w)"
  by (rule finite_subset[OF _ finite_live[of w]]) (auto simp: running_def)

lemma mset_concat_push: "i < length xs \<Longrightarrow> mset (concat (xs[i := x # xs ! i])) = add_mset x (mset (concat xs))"
proof (induction xs arbitrary: i)
  case (Cons y ys)
  then show ?case by (cases i) auto
qed simp

lemma acts_push:
  "i < length (stacks w) \<Longrightarrow> stacks w' = (stacks w)[i := x # stacks w ! i] \<Longrightarrow> acts w' = add_mset x (acts w)"
  by (simp add: acts_def mset_concat_push)

lemma acts_pop:
  assumes "i < length (stacks w)" "stacks w ! i = x # st" "stacks w' = (stacks w)[i := st]"
  shows "acts w = add_mset x (acts w')"
proof -
  have "(stacks w')[i := x # stacks w' ! i] = stacks w" using assms by (metis list_update_id list_update_overwrite nth_list_update_eq)
  then show ?thesis using mset_concat_push[of i "stacks w'" x] assms(1,3) by (simp add: acts_def)
qed

abbreviation has_frame :: "nat \<times> nat option \<Rightarrow> bool" where
  "has_frame \<equiv> \<lambda>(g, x). x \<noteq> None"

lemma acts_okD:
  assumes "acts_ok w"
  shows "filter_mset has_frame (acts w) = image_mset (\<lambda>f. (gate_of w f, Some f)) (mset_set (running w))"
    "executions w g = count (image_mset fst (acts w)) g"
  using assms by (simp_all add: acts_ok_def)

lemma acts_mem:
  assumes "acts_ok w" "(g, Some f) \<in># acts w"
  shows "f \<in> running w \<and> gate_of w f = g"
proof -
  have "(g, Some f) \<in># filter_mset has_frame (acts w)" using assms(2) by simp
  then show ?thesis unfolding acts_okD(1)[OF assms(1)] by auto
qed

lemma image_gates:
  "(\<And>f. f \<in> S \<Longrightarrow> gate_of w' f = gate_of w f) \<Longrightarrow>
   image_mset (\<lambda>f. (gate_of w' f, Some f)) (mset_set S) = image_mset (\<lambda>f. (gate_of w f, Some f)) (mset_set S)"
  by (cases "finite S") (auto intro: image_mset_cong)

lemma acts_ok_enter:
  assumes "acts_ok w" "i < length (stacks w)" "f \<notin> running w" "running w' = insert f (running w)"
    "stacks w' = (stacks w)[i := (gate_of w f, Some f) # stacks w ! i]" "\<And>h. gate_of w' h = gate_of w h"
    "executions w' = (executions w)(gate_of w f := executions w (gate_of w f) + 1)"
  shows "acts_ok w'"
proof -
  note a = acts_push[OF assms(2,5)]
  have "mset_set (running w') = add_mset f (mset_set (running w))" using assms(3,4) by simp
  then show ?thesis
    using acts_okD[OF assms(1)] assms(6,7) by (simp add: acts_ok_def a)
qed

lemma acts_ok_leave:
  assumes "acts_ok w" "i < length (stacks w)" "stacks w ! i = (g, x) # st" "running w' = running w - set_option x"
    "stacks w' = (stacks w)[i := st]" "\<And>h. h \<in> running w' \<Longrightarrow> gate_of w' h = gate_of w h"
    "executions w' = (executions w)(g := executions w g - 1)"
  shows "acts_ok w'"
proof -
  note a = acts_pop[OF assms(2,3,5)]
  note gates = image_gates[of "running w'" w' w, OF assms(6)]
  have e: "executions w' h = count (image_mset fst (acts w')) h" for h
    using acts_okD(2)[OF assms(1), of h] assms(7) by (cases "h = g") (simp_all add: a)
  show ?thesis
  proof (cases x)
    case None
    then show ?thesis using acts_okD(1)[OF assms(1)] assms(4) gates e by (simp add: acts_ok_def a)
  next
    case (Some f)
    have f: "f \<in> running w" "gate_of w f = g" using acts_mem[OF assms(1), of g f] Some a by simp_all
    have "mset_set (running w) = add_mset f (mset_set (running w'))"
      using f(1) assms(4) Some by (simp add: mset_set.remove)
    then show ?thesis using acts_okD(1)[OF assms(1)] gates e Some f(2) by (simp add: acts_ok_def a)
  qed
qed

text \<open>The coroutine of the top activation changes.\<close>

lemma acts_ok_replace:
  assumes "acts_ok w" "i < length (stacks w)" "stacks w ! i = (g, Some f) # st" "running w' = set_option y \<union> (running w - {f})"
    "stacks w' = (stacks w)[i := (g, y) # st]" "\<And>h. h \<in> running w' \<Longrightarrow> gate_of w' h = (if y = Some h then g else gate_of w h)"
    "executions w' = executions w" "\<And>c. y = Some c \<Longrightarrow> c \<notin> running w"
  shows "acts_ok w'"
proof -
  let ?u = "w\<lparr>stacks := (stacks w)[i := st]\<rparr>"
  have a: "acts w = add_mset (g, Some f) (acts ?u)" by (rule acts_pop[OF assms(2,3)]) simp
  have a': "acts w' = add_mset (g, y) (acts ?u)" by (rule acts_push[of i]) (use assms(2,5) in simp_all)
  have f: "f \<in> running w" "gate_of w f = g" using acts_mem[OF assms(1), of g f] a by simp_all
  have "mset_set (running w) = add_mset f (mset_set (running w - {f}))" using f(1) by (simp add: mset_set.remove)
  then have u: "filter_mset has_frame (acts ?u) = image_mset (\<lambda>f. (gate_of w f, Some f)) (mset_set (running w - {f}))"
    using acts_okD(1)[OF assms(1)] f(2) by (simp add: a)
  also have "\<dots> = image_mset (\<lambda>f. (gate_of w' f, Some f)) (mset_set (running w - {f}))"
    using assms(4,6,8) by (intro image_gates[symmetric]) auto
  finally have u': "filter_mset has_frame (acts ?u) = image_mset (\<lambda>f. (gate_of w' f, Some f)) (mset_set (running w - {f}))" .
  have e: "executions w' h = count (image_mset fst (acts w')) h" for h
    using acts_okD(2)[OF assms(1), of h] assms(7) by (simp add: a a')
  show ?thesis
  proof (cases y)
    case None
    then show ?thesis using u' e assms(4) by (simp add: acts_ok_def a')
  next
    case (Some c)
    then have "mset_set (running w') = add_mset c (mset_set (running w - {f}))" "gate_of w' c = g" using assms(4,6,8) by simp_all
    then show ?thesis using u' e Some by (simp add: acts_ok_def a')
  qed
qed

lemma acts_ok_same:
  assumes "acts_ok w" "stacks w' = stacks w" "running w' = running w" "\<And>h. h \<in> running w \<Longrightarrow> gate_of w' h = gate_of w h"
    "executions w' = executions w"
  shows "acts_ok w'"
  using assms(1) image_gates[of "running w" w' w] assms(2-5) by (simp add: acts_ok_def acts_def)

section \<open>Locks\<close>

lemma locks_ok_push:
  assumes "locks_ok w" "lock_free i g w" "stacks w' = (stacks w)[i := (g, x) # stacks w ! i]" "g < frame_count w" "frame_count w' = frame_count w"
  shows "locks_ok w'"
proof -
  have free: "g \<notin> fst ` set (stacks w ! j)" if "j < length (stacks w)" "j \<noteq> i" for j
    using assms(2) that by (auto simp: lock_free_def list_all_iff)
  show ?thesis
    unfolding locks_ok_def
  proof (intro conjI allI impI)
    show "fst ` set (stacks w' ! j) \<subseteq> {..<frame_count w'}" if "j < length (stacks w')" for j
      using assms that by (cases "j = i") (simp_all add: locks_ok_def)
    fix k j assume kj: "k < length (stacks w')" "j < length (stacks w')" "k \<noteq> j"
    have "fst ` set (stacks w ! k) \<inter> fst ` set (stacks w ! j) = {}" using assms(1,3) kj by (simp add: locks_ok_def)
    then show "fst ` set (stacks w' ! k) \<inter> fst ` set (stacks w' ! j) = {}"
      using assms(3) kj free by (cases "k = i"; cases "j = i") simp_all
  qed
qed

lemma locks_ok_shrink:
  assumes "locks_ok w" "length (stacks w') = length (stacks w)" "frame_count w \<le> frame_count w'"
    "\<And>j. j < length (stacks w) \<Longrightarrow> fst ` set (stacks w' ! j) \<subseteq> fst ` set (stacks w ! j)"
  shows "locks_ok w'"
  unfolding locks_ok_def
proof (intro conjI allI impI)
  show "fst ` set (stacks w' ! j) \<subseteq> {..<frame_count w'}" if "j < length (stacks w')" for j
  proof -
    have "fst ` set (stacks w' ! j) \<subseteq> {..<frame_count w}" using assms(1,2) assms(4)[of j] that by (simp add: locks_ok_def) (meson order_trans)
    then show ?thesis using assms(3) by fastforce
  qed
  fix k j assume kj: "k < length (stacks w')" "j < length (stacks w')" "k \<noteq> j"
  then have "fst ` set (stacks w ! k) \<inter> fst ` set (stacks w ! j) = {}" using assms(1,2) by (simp add: locks_ok_def)
  then show "fst ` set (stacks w' ! k) \<inter> fst ` set (stacks w' ! j) = {}"
    using Int_mono[OF assms(4)[of k] assms(4)[of j]] assms(2) kj by simp
qed

lemma locks_ok_top:
  assumes "locks_ok w" "i < length (stacks w)" "stacks w ! i = (g, x) # st" "stacks w' = (stacks w)[i := st']" "fst ` set st' \<subseteq> insert g (fst ` set st)"
    "frame_count w' = frame_count w"
  shows "locks_ok w'"
proof (rule locks_ok_shrink[OF assms(1)])
  show "length (stacks w') = length (stacks w)" "frame_count w \<le> frame_count w'" by (simp_all add: assms(4,6))
  show "fst ` set (stacks w' ! j) \<subseteq> fst ` set (stacks w ! j)" if "j < length (stacks w)" for j
    using assms(2,3,5) that by (cases "j = i") (simp_all add: assms(4))
qed

section \<open>Owners\<close>

lemma frame_ok_same:
  assumes "frame_ok x w f" "f \<in> set (tasks w') \<longleftrightarrow> f \<in> set (tasks w)" "f \<in> set (launched w') \<longleftrightarrow> f \<in> set (launched w)"
    "detached (frames w' f) = detached (frames w f)" "continuation (frames w' f) = continuation (frames w f)"
    "place (frames w' f) = place (frames w f) \<or>
     f \<notin> set (launched w) \<and> place (frames w' f) \<noteq> AtStart \<and> (place (frames w' f) = AtEnd \<longrightarrow> f \<in> set (tasks w) \<or> x = Some f)"
    "\<And>p. p \<in> live_frames w \<Longrightarrow> continuation (frames w f) = Some p \<Longrightarrow> awaiting (frames w p) = Some f \<Longrightarrow>
       p \<in> live_frames w' \<and> awaiting (frames w' p) = Some f"
  shows "frame_ok x w' f"
  using assms(1) assms(2-6) assms(7) unfolding frame_ok_def by (auto split: if_splits)

lemma await_ok_same:
  assumes "await_ok w p" "awaiting (frames w' p) = awaiting (frames w p)"
    "place (frames w' p) = AtTask \<longleftrightarrow> place (frames w p) = AtTask"
    "\<And>c. awaiting (frames w p) = Some c \<Longrightarrow> c \<in> live_frames w' \<and> continuation (frames w' c) = continuation (frames w c) \<and>
       detached (frames w' c) = detached (frames w c) \<and> (c \<in> set (tasks w') \<longrightarrow> c \<in> set (tasks w)) \<and>
       (c \<in> set (launched w') \<longrightarrow> c \<in> set (launched w)) \<and>
       (c \<in> set (children (controls w p)) \<longrightarrow> c \<in> set (children (controls w' p)))"
  shows "await_ok w' p"
  using assms unfolding await_ok_def by auto

lemma owners_okD:
  assumes "owners_ok x w"
  shows "distinct (tasks w)" "distinct (launched w)" "set (tasks w) \<subseteq> live_frames w" "set (launched w) \<subseteq> live_frames w"
    "\<And>y. x = Some y \<Longrightarrow> y \<in> live_frames w \<and> \<not> awaited w y"
    "\<And>f. f \<in> live_frames w \<Longrightarrow> frame_ok x w f \<and> await_ok w f \<and> c_handle (controls w f) \<and>
       (startState (frames w f) = Lazy) = (place (frames w f) = AtStart) \<and> (place (frames w f) = AtExternal) = (f \<in> set (handles w))"
  using assms unfolding owners_ok_def by blast+

lemma owners_ok_same:
  assumes "frames w' = frames w" "controls w' = controls w" "frame_count w' = frame_count w" "tasks w' = tasks w"
    "launched w' = launched w" "handles w' = handles w"
  shows "owners_ok x w' = owners_ok x w"
  unfolding owners_ok_def frame_ok_def await_ok_def awaited_def live_frames_def assms by (rule refl)

text \<open>A move that only changes where one frame is.\<close>

lemma owners_ok_place:
  assumes ok: "owners_ok x w" and f: "f \<in> live_frames w" "f \<notin> set (launched w)" "place (frames w f) \<noteq> AtTask"
    and w': "\<And>h. h \<noteq> f \<Longrightarrow> frames w' h = frames w h" "frame_count w' = frame_count w" "tasks w' = tasks w" "launched w' = launched w"
      "\<And>h. c_handle (controls w' h) = c_handle (controls w h) \<and> children (controls w' h) = children (controls w h)"
    and f': "exists (frames w' f)" "detached (frames w' f) = detached (frames w f)" "continuation (frames w' f) = continuation (frames w f)"
      "awaiting (frames w' f) = awaiting (frames w f)" "startState (frames w' f) = Started"
      "place (frames w' f) \<notin> {AtStart, AtTask}" "place (frames w' f) = AtEnd \<Longrightarrow> f \<in> set (tasks w) \<or> x = Some f"
    and h: "\<And>h. h \<noteq> f \<Longrightarrow> h \<in> set (handles w') \<longleftrightarrow> h \<in> set (handles w)" "place (frames w' f) = AtExternal \<longleftrightarrow> f \<in> set (handles w')"
  shows "owners_ok x w'"
proof -
  note d = owners_okD[OF ok]
  have live: "live_frames w' = live_frames w" using w'(1,2) f f'(1) unfolding live_frames_def by (metis (lifting) mem_Collect_eq)
  have aw: "awaiting (frames w' h) = awaiting (frames w h)" "continuation (frames w' h) = continuation (frames w h)"
    "detached (frames w' h) = detached (frames w h)" for h using w'(1) f'(2-4) by (cases "h = f"; simp)+
  have pl: "place (frames w' h) = place (frames w h) \<or> h \<notin> set (launched w) \<and> place (frames w' h) \<noteq> AtStart \<and>
      (place (frames w' h) = AtEnd \<longrightarrow> h \<in> set (tasks w) \<or> x = Some h)" for h
    using w'(1) f(2) f'(6,7) by (cases "h = f") auto
  have at: "place (frames w' h) = AtTask \<longleftrightarrow> place (frames w h) = AtTask" for h using w'(1) f(3) f'(6) by (cases "h = f") auto
  have "frame_ok x w' h \<and> await_ok w' h \<and> c_handle (controls w' h) \<and>
      (startState (frames w' h) = Lazy) = (place (frames w' h) = AtStart) \<and> (place (frames w' h) = AtExternal) = (h \<in> set (handles w'))"
    if hl: "h \<in> live_frames w" for h
  proof (intro conjI)
    show "frame_ok x w' h"
      by (rule frame_ok_same[of x w]) (use d(6)[OF hl] w'(3,4) aw pl live in simp_all)
    show "await_ok w' h"
    proof (rule await_ok_same[of w])
      show "await_ok w h" using d(6)[OF hl] by blast
      show "awaiting (frames w' h) = awaiting (frames w h)" by (rule aw(1))
      show "place (frames w' h) = AtTask \<longleftrightarrow> place (frames w h) = AtTask" by (rule at)
    qed (use d(6)[OF hl] w'(3-5) aw live in \<open>simp_all add: await_ok_def\<close>)
    show "c_handle (controls w' h)" using d(6)[OF hl] w'(5) by simp
    show "(startState (frames w' h) = Lazy) = (place (frames w' h) = AtStart)" "(place (frames w' h) = AtExternal) = (h \<in> set (handles w'))"
      using d(6)[OF hl] w'(1)[of h] f'(5,6) h by (cases "h = f"; simp)+
  qed
  moreover have "awaited w' = awaited w" by (simp add: awaited_def fun_eq_iff live aw)
  ultimately show ?thesis using ok live w'(3,4) unfolding owners_ok_def by simp
qed

lemma owners_okI:
  assumes "distinct (tasks w)" "distinct (launched w)" "set (tasks w) \<subseteq> live_frames w" "set (launched w) \<subseteq> live_frames w"
    "\<And>f. f \<in> live_frames w \<Longrightarrow> frame_ok x w f" "\<And>f. f \<in> live_frames w \<Longrightarrow> await_ok w f"
    "\<And>f. f \<in> live_frames w \<Longrightarrow> c_handle (controls w f) \<and> (startState (frames w f) = Lazy) = (place (frames w f) = AtStart) \<and>
       (place (frames w f) = AtExternal) = (f \<in> set (handles w))"
    "\<And>y. x = Some y \<Longrightarrow> y \<in> live_frames w \<and> \<not> awaited w y"
  shows "owners_ok x w"
  using assms unfolding owners_ok_def by blast

text \<open>A frame that a \<open>Task\<close> or the locals of a combinator own is awaited by none.\<close>

lemma owned_free:
  assumes "owners_ok None w" "f \<in> set (tasks w) \<union> set (launched w)"
  shows "f \<in> live_frames w" "\<not> awaited w f" "\<not> detached (frames w f)" "continuation (frames w f) = None"
    "f \<in> set (tasks w) \<Longrightarrow> f \<notin> set (launched w)"
proof -
  note d = owners_okD[OF assms(1)]
  show l: "f \<in> live_frames w" using d(3,4) assms(2) by blast
  have fo: "frame_ok None w f" using d(6)[OF l] by blast
  then show c: "\<not> detached (frames w f)" "continuation (frames w f) = None" "f \<in> set (tasks w) \<Longrightarrow> f \<notin> set (launched w)"
    using assms(2) by (auto simp: frame_ok_def split: if_splits)
  show "\<not> awaited w f"
  proof
    assume "awaited w f"
    then obtain p where "p \<in> live_frames w" "awaiting (frames w p) = Some f" by (auto simp: awaited_def)
    then have "continuation (frames w f) = Some p" using d(6)[of p] by (simp add: await_ok_def)
    then show False using c(2) by simp
  qed
qed

lemma owners_ok_orphan:
  assumes "owners_ok None w" "f \<in> set (tasks w)"
  shows "owners_ok (Some f) (disown f w)"
proof (rule owners_okI)
  note d = owners_okD[OF assms(1)] and o = owned_free[OF assms(1), of f]
  let ?w = "disown f w"
  have same: "live_frames ?w = live_frames w" "awaited ?w = awaited w" "set (tasks ?w) = set (tasks w) - {f}" "launched ?w = launched w"
    "frames ?w = frames w" "controls ?w = controls w" "handles ?w = handles w"
    using d(1) by (simp_all add: disown_def live_frames_def awaited_def fun_eq_iff)
  show "distinct (tasks ?w)" "distinct (launched ?w)" "set (tasks ?w) \<subseteq> live_frames ?w" "set (launched ?w) \<subseteq> live_frames ?w"
    using d(1-4) same by (auto simp: disown_def)
  show "y \<in> live_frames ?w \<and> \<not> awaited ?w y" if "Some f = Some y" for y using o assms(2) that same(1,2) by simp
  fix h assume "h \<in> live_frames ?w"
  then have h: "h \<in> live_frames w" using same(1) by simp
  show "await_ok ?w h" by (rule await_ok_same[of w]) (use d(6)[OF h] same in \<open>simp_all add: await_ok_def\<close>)
  show "c_handle (controls ?w h) \<and> (startState (frames ?w h) = Lazy) = (place (frames ?w h) = AtStart) \<and>
      (place (frames ?w h) = AtExternal) = (h \<in> set (handles ?w))" using d(6)[OF h] same by simp
  show "frame_ok (Some f) ?w h"
  proof (cases "h = f")
    case True
    then show ?thesis using o assms(2) same by (simp add: frame_ok_def)
  next
    case False
    have "frame_ok None w h" using d(6)[OF h] by blast
    then have "frame_ok (Some f) w h" using False by (simp add: frame_ok_def)
    then show ?thesis by (rule frame_ok_same) (use False same in simp_all)
  qed
qed

lemma owners_ok_free:
  assumes ok: "owners_ok (Some f) w"
  shows "owners_ok (awaiting (frames w f)) (free_frame f w)"
proof (rule owners_okI)
  note d = owners_okD[OF ok]
  let ?w = "free_frame f w"
  have f: "f \<in> live_frames w" "\<not> awaited w f" "f \<notin> set (tasks w)" "f \<notin> set (launched w)"
    using d(5) d(6)[of f] by (auto simp: frame_ok_def)
  have same: "live_frames ?w = live_frames w - {f}" "tasks ?w = tasks w" "launched ?w = launched w" "handles ?w = handles w"
    "\<And>h. h \<noteq> f \<Longrightarrow> frames ?w h = frames w h \<and> controls ?w h = controls w h"
    by (simp_all add: free_frame_live) (simp_all add: free_frame_def upd_frame_def upd_control_def)
  show "distinct (tasks ?w)" "distinct (launched ?w)" "set (tasks ?w) \<subseteq> live_frames ?w" "set (launched ?w) \<subseteq> live_frames ?w"
    using d(1-4) same f by auto
  have child: "y \<in> live_frames w \<and> y \<noteq> f \<and> continuation (frames w y) = Some f \<and> y \<notin> set (tasks w) \<and> y \<notin> set (launched w) \<and>
      \<not> detached (frames w y)" if "awaiting (frames w f) = Some y" for y
  proof -
    have "await_ok w f" using d(6)[OF f(1)] by blast
    moreover have "y \<noteq> f" using f(1,2) that by (auto simp: awaited_def)
    ultimately show ?thesis using that by (simp add: await_ok_def)
  qed
  show "y \<in> live_frames ?w \<and> \<not> awaited ?w y" if y: "awaiting (frames w f) = Some y" for y
  proof -
    have "p = f" if "p \<in> live_frames w" "awaiting (frames w p) = Some y" for p
      using d(6)[OF that(1)] that(2) child[OF y] by (simp add: await_ok_def)
    then show ?thesis using child[OF y] same by (auto simp: awaited_def)
  qed
  fix h assume "h \<in> live_frames ?w"
  then have h: "h \<in> live_frames w" "h \<noteq> f" using same(1) by simp_all
  have nf: "awaiting (frames w h) \<noteq> Some f" using f(2) h(1) by (auto simp: awaited_def)
  show "await_ok ?w h"
    by (rule await_ok_same[of w]) (use d(6)[OF h(1)] same h(2) nf in \<open>auto simp: await_ok_def\<close>)
  show "c_handle (controls ?w h) \<and> (startState (frames ?w h) = Lazy) = (place (frames ?w h) = AtStart) \<and>
      (place (frames ?w h) = AtExternal) = (h \<in> set (handles ?w))" using d(6)[OF h(1)] same h(2) by simp
  have old: "frame_ok (Some f) w h" using d(6)[OF h(1)] by blast
  show "frame_ok (awaiting (frames w f)) ?w h"
  proof (cases "awaiting (frames w f) = Some h")
    case True
    then show ?thesis using child[OF True] same h(2) by (simp add: frame_ok_def)
  next
    case False
    then have "frame_ok (awaiting (frames w f)) w h" using old h(2) by (simp add: frame_ok_def)
    moreover have "p \<noteq> f" if "awaiting (frames w p) = Some h" for p using False that by auto
    ultimately show ?thesis by (elim frame_ok_same) (use same h(2) in auto)
  qed
qed

section \<open>Destroying\<close>

lemma coro_invD:
  assumes "coro_inv x w"
  shows "acts_ok w" "locks_ok w" "links_ok w" "owners_ok x w" "handles_ok w" "history_ok w"
  using assms by (simp_all add: coro_inv_def)

lemma coro_invI:
  assumes "acts_ok w" "locks_ok w" "links_ok w" "owners_ok x w" "handles_ok w" "history_ok w"
  shows "coro_inv x w"
  using assms by (simp add: coro_inv_def)

lemma locks_ok_same: "locks_ok w \<Longrightarrow> stacks w' = stacks w \<Longrightarrow> frame_count w \<le> frame_count w' \<Longrightarrow> locks_ok w'"
  by (rule locks_ok_shrink[of w]) (assumption, simp, assumption, simp only: order_refl)

lemma outcome_of_same:
  "stored_value y = stored_value x \<Longrightarrow> exception y = exception x \<Longrightarrow> outcome_of y = outcome_of x"
  unfolding outcome_of_def promise_value_def by (simp only:)

text \<open>A step that starts no frame and delivers nothing.\<close>

lemma history_ok_same:
  assumes "history_ok w" "started w' = started w" "delivered w' = delivered w" "frame_count w \<le> frame_count w'"
    "\<And>f. f \<in> live_frames w' \<Longrightarrow> f \<in> live_frames w \<and> startState (frames w' f) = startState (frames w f)"
    "\<And>c. c < frame_count w \<Longrightarrow> \<not> exists (frames w c) \<Longrightarrow> \<not> exists (frames w' c) \<and> place (frames w' c) = place (frames w c) \<and>
       stored_value (frames w' c) = stored_value (frames w c) \<and> exception (frames w' c) = exception (frames w c)"
  shows "history_ok w'"
proof -
  have "c < frame_count w' \<and> place (frames w' c) = AtEnd \<and> \<not> exists (frames w' c) \<and> out = outcome_of (frames w' c)"
    if m: "(p, c, out) \<in> set (delivered w')" for p c out
  proof -
    have c: "c < frame_count w" "place (frames w c) = AtEnd" "\<not> exists (frames w c)" "out = outcome_of (frames w c)"
      using assms(1,3) m unfolding history_ok_def by fastforce+
    then show ?thesis using assms(4) assms(6)[OF c(1,3)] outcome_of_same[of "frames w' c" "frames w c"] by simp
  qed
  moreover have "set (started w') \<subseteq> {..<frame_count w'}" using assms(1,2,4) unfolding history_ok_def by fastforce
  moreover have "f \<in> set (started w') \<longleftrightarrow> startState (frames w' f) = Started" if "f \<in> live_frames w'" for f
    using assms(1,2) assms(5)[OF that] unfolding history_ok_def by simp
  ultimately show ?thesis using assms(1-3) unfolding history_ok_def by auto
qed

lemma free_frame_inv:
  assumes inv: "coro_inv (Some f) w" and p: "place (frames w f) \<noteq> Running"
  shows "coro_inv (awaiting (frames w f)) (free_frame f w)" "bad (free_frame f w) = bad w"
proof -
  note d = coro_invD[OF inv]
  let ?w = "free_frame f w"
  have f: "f \<in> live_frames w" using owners_okD(5)[OF d(4)] by blast
  have frames: "place (frames ?w h) = place (frames w h)" "stored_value (frames ?w h) = stored_value (frames w h)"
    "exception (frames ?w h) = exception (frames w h)" "startState (frames ?w h) = startState (frames w h)"
    "exists (frames ?w h) = (h \<noteq> f \<and> exists (frames w h))" "c_handle (controls ?w h) = (h \<noteq> f \<and> c_handle (controls w h))"
    "children (controls ?w h) = children (controls w h)" "gate_of ?w h = gate_of w h" for h
    by (simp_all add: free_frame_def upd_frame_def upd_control_def gate_of_def)
  have rest: "stacks ?w = stacks w" "executions ?w = executions w" "frame_count ?w = frame_count w" "tasks ?w = tasks w"
    "handles ?w = handles w" "started ?w = started w" "delivered ?w = delivered w"
    by (simp_all add: free_frame_def upd_frame_def upd_control_def)
  have run: "running ?w = running w" using p by (auto simp: running_def free_frame_live frames)
  show "coro_inv (awaiting (frames w f)) ?w"
  proof (rule coro_invI)
    show "acts_ok ?w" by (rule acts_ok_same[OF d(1)]) (simp_all add: rest run frames)
    show "locks_ok ?w" by (rule locks_ok_same[OF d(2)]) (simp_all add: rest)
    show "links_ok ?w" by (rule links_ok_frame[OF d(3)]) (auto simp: frames rest expired_def)
    show "owners_ok (awaiting (frames w f)) ?w" by (rule owners_ok_free[OF d(4)])
    show "handles_ok ?w" using d(5) unfolding handles_ok_def rest frames by auto
    show "history_ok ?w" by (rule history_ok_same[OF d(6)]) (simp_all add: rest frames free_frame_live)
  qed
  show "bad ?w = bad w" using f p by (simp add: free_frame_def live_frames_def)
qed

text \<open>\<open>destroyFrame\<close> of a frame without owner: it and what it awaits are gone, unless the chain is executing and \<open>std::terminate\<close> is
  called.\<close>

lemma destroyFrame_inv:
  assumes "coro_inv (Some f) w" "\<not> bad w" "\<not> terminated w"
  shows "safe (destroyFrame f w) \<and> (finished w f \<and> awaiting (frames w f) = None \<longrightarrow> destroyFrame f w = free_frame f w)"
  using assms
proof (induction f w rule: destroyFrame.induct)
  case (1 f w)
  note d = coro_invD[OF "1.prems"(1)]
  have f: "f \<in> live_frames w" using owners_okD(5)[OF d(4)] by blast
  show ?case
  proof (cases "executions w (gate_of w f) \<noteq> 0 \<and> \<not> finished w f")
    case True
    then have "destroyFrame f w = w\<lparr>terminated := True\<rparr>" by (subst destroyFrame.simps) simp
    then show ?thesis using True "1.prems"(2) by (simp add: safe_def)
  next
    case False
    have p: "place (frames w f) \<noteq> Running"
    proof
      assume r: "place (frames w f) = Running"
      then have "executions w (gate_of w f) \<noteq> 0" using running_gate[OF d(1), of f] f by (simp add: running_def)
      then show False using False r by (simp add: finished_def)
    qed
    note fr = free_frame_inv[OF "1.prems"(1) p]
    have nt: "\<not> terminated (free_frame f w)" "\<not> bad (free_frame f w)"
      using "1.prems"(2,3) fr(2) by (simp_all add: free_frame_def upd_frame_def upd_control_def)
    show ?thesis
    proof (cases "awaiting (frames w f)")
      case None
      then have "destroyFrame f w = free_frame f w" using f False by (subst destroyFrame.simps) auto
      then show ?thesis using fr(1) nt None by (simp add: safe_def)
    next
      case (Some c)
      then have "destroyFrame f w = destroyFrame c (free_frame f w)" using f False by (subst destroyFrame.simps) auto
      then show ?thesis using "1.IH"[OF False _ Some] f fr(1) nt Some by simp
    qed
  qed
qed

section \<open>Resuming\<close>

lemma not_started [simp]: "x \<noteq> Started \<longleftrightarrow> x = Lazy"
  by (cases x) simp_all

text \<open>Frames and controls stay; only where frames are, and who holds handles and tasks, may change.\<close>

definition same_frames :: "'v coro \<Rightarrow> 'v coro \<Rightarrow> bool" where
  "same_frames w w' \<longleftrightarrow> frame_count w' = frame_count w \<and> controls w' = controls w \<and>
     (\<forall>f. exists (frames w' f) = exists (frames w f)) \<and> set (tasks w') \<subseteq> set (tasks w) \<and>
     (\<forall>f. f \<in> set (handles w') \<longrightarrow> f \<in> set (handles w) \<or> exists (frames w f))"

lemma same_framesD:
  assumes "same_frames w w'"
  shows "live_frames w' = live_frames w" "gate_of w' = gate_of w" "links_ok w \<Longrightarrow> links_ok w'"
proof -
  show "live_frames w' = live_frames w" using assms by (simp add: same_frames_def live_frames_def)
  show g: "gate_of w' = gate_of w" using assms by (simp add: same_frames_def gate_of_def fun_eq_iff)
  show "links_ok w'" if "links_ok w"
    by (rule links_ok_frame[OF that]) (use assms g in \<open>auto simp: same_frames_def expired_def\<close>)
qed

lemma enter_inv:
  assumes ok: "acts_ok w" "locks_ok w" "links_ok w" and i: "i < length (stacks w)" "lock_free i (gate_of w f) w"
    and f: "f \<in> live_frames w" "place (frames w f) \<noteq> Running"
    and w': "same_frames w w'" "stacks w' = (stacks w)[i := (gate_of w f, Some f) # stacks w ! i]"
      "executions w' = (executions w)(gate_of w f := executions w (gate_of w f) + 1)"
      "place (frames w' f) = Running" "\<And>h. h \<noteq> f \<Longrightarrow> place (frames w' h) = place (frames w h)"
  shows "acts_ok w' \<and> locks_ok w' \<and> links_ok w'"
proof (intro conjI)
  note s = same_framesD[OF w'(1)]
  have "h \<in> running w' \<longleftrightarrow> h \<in> insert f (running w)" for h
    using f(1) w'(4) w'(5)[of h] by (cases "h = f") (simp_all add: running_def s(1))
  then have "running w' = insert f (running w)" by blast
  moreover have "f \<notin> running w" using f(2) by (simp add: running_def)
  ultimately show "acts_ok w'" using acts_ok_enter[OF ok(1) i(1)] w'(2,3) s(2) by metis
  have "gate_of w f < frame_count w" using f(1) ok(3) by (simp add: live_frames_def links_ok_def)
  then show "locks_ok w'" by (rule locks_ok_push[OF ok(2) i(2) w'(2)]) (use w'(1) in \<open>simp add: same_frames_def\<close>)
  show "links_ok w'" by (rule s(3)[OF ok(3)])
qed

lemma handles_ok_same:
  assumes "handles_ok w" "frame_count w' = frame_count w" "\<And>f. exists (frames w' f) = exists (frames w f)"
    "\<And>f. c_handle (controls w' f) = c_handle (controls w f)" "distinct (handles w')" "set (handles w') \<subseteq> {..<frame_count w}"
  shows "handles_ok w'"
  using assms by (simp add: handles_ok_def)

lemma history_ok_start:
  assumes "history_ok w" "f \<in> live_frames w" "startState (frames w f) = Lazy" "started w' = started w @ [f]"
    "delivered w' = delivered w" "frame_count w' = frame_count w" "live_frames w' = live_frames w"
    "startState (frames w' f) = Started" "\<And>h. h \<noteq> f \<Longrightarrow> startState (frames w' h) = startState (frames w h)"
    "\<And>h. h \<notin> live_frames w \<Longrightarrow> frames w' h = frames w h"
  shows "history_ok w'"
proof -
  have live: "c \<notin> live_frames w" if "(p, c, out) \<in> set (delivered w)" for p c out
    using assms(1) that unfolding history_ok_def live_frames_def by fastforce
  have "f \<notin> set (started w)" using assms(1-3) by (auto simp: history_ok_def)
  then have "distinct (started w')" "set (started w') \<subseteq> {..<frame_count w'}"
    using assms(1,2,4,6) unfolding history_ok_def by (auto simp: live_frames_def)
  moreover have "\<forall>h \<in> live_frames w'. h \<in> set (started w') \<longleftrightarrow> startState (frames w' h) = Started"
  proof
    fix h assume "h \<in> live_frames w'"
    then show "h \<in> set (started w') \<longleftrightarrow> startState (frames w' h) = Started"
      using assms(1,4,7,8) assms(9)[of h] unfolding history_ok_def by (cases "h = f") simp_all
  qed
  moreover have "\<forall>(p, c, out) \<in> set (delivered w'). c < frame_count w' \<and> place (frames w' c) = AtEnd \<and> \<not> exists (frames w' c) \<and>
      out = outcome_of (frames w' c)"
    using assms(1,5,6,10) live unfolding history_ok_def by fastforce
  ultimately show ?thesis using assms(1,5) unfolding history_ok_def by simp
qed

lemma task_start_inv:
  assumes inv: "coro_inv None w" and f: "f \<in> set (tasks w)" and i: "i < length (stacks w)" "lock_free i (gate_of w f) w"
    and st: "task_start i f w = Inr w'"
  shows "coro_inv None w' \<and> bad w' = bad w"
proof (cases "finished w f")
  case True
  then show ?thesis using st inv by (simp add: task_start_def)
next
  case False
  note d = coro_invD[OF inv] and o = owned_free[OF coro_invD(4)[OF inv], of f]
  have fl: "f \<in> live_frames w" "f \<notin> set (launched w)" using o f by simp_all
  have lazy: "startState (frames w f) = Lazy" and w': "w' = enter i AtStart f ((upd_frame f (\<lambda>x. x\<lparr>startState := Started\<rparr>) w)\<lparr>started := started w @ [f]\<rparr>)"
    using st False by (auto simp: task_start_def try_start_def split: if_splits)
  have start: "place (frames w f) = AtStart" using owners_okD(6)[OF d(4) fl(1)] lazy by simp
  have frames: "frames w' = (frames w)(f := (frames w f)\<lparr>startState := Started, place := Running\<rparr>)"
    by (simp add: w' enter_def upd_frame_def gate_of_def Let_def)
  have rest: "stacks w' = (stacks w)[i := (gate_of w f, Some f) # stacks w ! i]" "controls w' = controls w" "handles w' = handles w"
    "executions w' = (executions w)(gate_of w f := executions w (gate_of w f) + 1)" "frame_count w' = frame_count w" "tasks w' = tasks w"
    "launched w' = launched w" "started w' = started w @ [f]" "delivered w' = delivered w" "bad w' = bad w"
    using fl(1) start by (simp_all add: w' enter_def upd_frame_def gate_of_def Let_def live_frames_def)
  have same: "same_frames w w'" by (simp add: same_frames_def frames rest)
  have "acts_ok w' \<and> locks_ok w' \<and> links_ok w'"
    by (rule enter_inv[OF d(1-3) i fl(1)]) (use start same in \<open>simp_all add: frames rest\<close>)
  moreover have "owners_ok None w'"
    by (rule owners_ok_place[OF d(4) fl])
      (use fl(1) start owners_okD(6)[OF d(4) fl(1)] in \<open>simp_all add: frames rest live_frames_def\<close>)
  moreover have "handles_ok w'"
    by (rule handles_ok_same[OF d(5)]) (use d(5) in \<open>auto simp: frames rest handles_ok_def\<close>)
  moreover have "history_ok w'"
    by (rule history_ok_start[OF d(6) fl(1) lazy])
      (use same_framesD(1)[OF same] fl(1) in \<open>auto simp: frames rest\<close>)
  ultimately show ?thesis using rest(10) by (simp add: coro_inv_def)
qed

lemma dead_handle:
  assumes "handles_ok w" "f \<in> set (handles w)" "c_handle (controls w f)"
  shows "f \<in> live_frames w"
  using assms unfolding handles_ok_def live_frames_def by blast

lemma resume_handle_inv:
  assumes inv: "coro_inv None w" and f: "f \<in> set (handles w)" and i: "i < length (stacks w)" "lock_free i (gate_of w f) w"
  shows "coro_inv None (resume_handle i f (w\<lparr>handles := remove1 f (handles w)\<rparr>)) \<and>
    bad (resume_handle i f (w\<lparr>handles := remove1 f (handles w)\<rparr>)) = bad w" (is "coro_inv None ?w \<and> _")
proof -
  note d = coro_invD[OF inv]
  have hs: "distinct (handles w)" "set (remove1 f (handles w)) = set (handles w) - {f}" "set (handles w) \<subseteq> {..<frame_count w}"
    using d(5) by (simp_all add: handles_ok_def)
  show ?thesis
  proof (cases "c_handle (controls w f)")
    case True
    have fl: "f \<in> live_frames w" by (rule dead_handle[OF d(5) f True])
    have ext: "place (frames w f) = AtExternal" using owners_okD(6)[OF d(4) fl] f by simp
    have st: "startState (frames w f) = Started" using owners_okD(6)[OF d(4) fl] ext by (cases "startState (frames w f)") simp_all
    have nl: "f \<notin> set (launched w)"
    proof
      assume "f \<in> set (launched w)"
      then show False using owners_okD(6)[OF d(4) fl] ext by (auto simp: frame_ok_def split: if_splits)
    qed
    have w': "?w = enter i AtExternal f (w\<lparr>handles := remove1 f (handles w)\<rparr>)"
      using True ext by (simp add: resume_handle_def finished_def)
    have frames: "frames ?w = (frames w)(f := (frames w f)\<lparr>place := Running\<rparr>)"
      by (simp add: w' enter_def upd_frame_def gate_of_def Let_def)
    have rest: "stacks ?w = (stacks w)[i := (gate_of w f, Some f) # stacks w ! i]" "controls ?w = controls w"
      "handles ?w = remove1 f (handles w)" "executions ?w = (executions w)(gate_of w f := executions w (gate_of w f) + 1)"
      "frame_count ?w = frame_count w" "tasks ?w = tasks w" "launched ?w = launched w" "started ?w = started w"
      "delivered ?w = delivered w" "bad ?w = bad w"
      using fl ext by (simp_all add: w' enter_def upd_frame_def gate_of_def Let_def live_frames_def)
    have same: "same_frames w ?w" using hs(2) by (simp add: same_frames_def frames rest)
    have "acts_ok ?w \<and> locks_ok ?w \<and> links_ok ?w"
      by (rule enter_inv[OF d(1-3) i fl]) (use ext same in \<open>simp_all add: frames rest\<close>)
    moreover have "owners_ok None ?w"
      by (rule owners_ok_place[OF d(4) fl nl]) (use fl ext st hs(2) in \<open>simp_all add: frames rest live_frames_def\<close>)
    moreover have "handles_ok ?w"
      by (rule handles_ok_same[OF d(5)]) (use hs in \<open>auto simp: frames rest\<close>)
    moreover have "history_ok ?w"
      by (rule history_ok_same[OF d(6)]) (use same_framesD(1)[OF same] fl in \<open>auto simp: frames rest live_frames_def\<close>)
    ultimately show ?thesis using rest(10) by (simp add: coro_inv_def)
  next
    case False
    then have w': "?w = w\<lparr>handles := remove1 f (handles w)\<rparr>" by (simp add: resume_handle_def)
    have dead: "f \<notin> live_frames w" using owners_okD(6)[OF d(4)] False by blast
    have same: "same_frames w ?w" using hs(2) by (simp add: same_frames_def w')
    note s = same_framesD[OF same]
    have "acts_ok ?w" by (rule acts_ok_same[OF d(1)]) (simp_all add: w' s(1) running_def live_frames_def gate_of_def)
    moreover have "locks_ok ?w" by (rule locks_ok_same[OF d(2)]) (simp_all add: w')
    moreover have "links_ok ?w" by (rule s(3)[OF d(3)])
    moreover have "owners_ok None ?w"
    proof (rule owners_okI)
      note o = owners_okD[OF d(4)]
      show "distinct (tasks ?w)" "distinct (launched ?w)" "set (tasks ?w) \<subseteq> live_frames ?w" "set (launched ?w) \<subseteq> live_frames ?w"
        using o(1-4) s(1) by (simp_all add: w')
      fix h assume "h \<in> live_frames ?w"
      then have h: "h \<in> live_frames w" "h \<noteq> f" using s(1) dead by auto
      show "frame_ok None ?w h" by (rule frame_ok_same[of None w]) (use o(6)[OF h(1)] s(1) in \<open>simp_all add: w'\<close>)
      show "await_ok ?w h" by (rule await_ok_same[of w]) (use o(6)[OF h(1)] s(1) in \<open>simp_all add: w' await_ok_def\<close>)
      show "c_handle (controls ?w h) \<and> (startState (frames ?w h) = Lazy) = (place (frames ?w h) = AtStart) \<and>
          (place (frames ?w h) = AtExternal) = (h \<in> set (handles ?w))" using o(6)[OF h(1)] h(2) hs(2) by (simp add: w')
    qed simp
    moreover have "handles_ok ?w" by (rule handles_ok_same[OF d(5)]) (use hs in \<open>auto simp: w'\<close>)
    moreover have "history_ok ?w" by (rule history_ok_same[OF d(6)]) (use s(1) in \<open>simp_all add: w'\<close>)
    ultimately show ?thesis by (simp add: coro_inv_def w')
  qed
qed

lemma top_runs:
  assumes "runs i f w" "acts_ok w" "i < length (stacks w)"
  obtains g st where "stacks w ! i = (g, Some f) # st" "f \<in> running w" "gate_of w f = g"
proof -
  obtain g st where s: "stacks w ! i = (g, Some f) # st" using assms(1) by (auto simp: runs_def split: list.splits)
  have "(g, Some f) \<in># acts w" using s assms(3) by (force simp: acts_def in_set_conv_nth[of "stacks w ! i"] dest: nth_mem)
  then show ?thesis using acts_mem[OF assms(2)] that s by blast
qed

lemma await_external_inv:
  assumes inv: "coro_inv None w" and r: "runs i f w" and i: "i < length (stacks w)"
  shows "coro_inv None (await_external i f w) \<and> bad (await_external i f w) = bad w" (is "coro_inv None ?w \<and> _")
proof -
  note d = coro_invD[OF inv]
  obtain g st where s: "stacks w ! i = (g, Some f) # st" "f \<in> running w" "gate_of w f = g" by (rule top_runs[OF r d(1) i])
  have fl: "f \<in> live_frames w" "place (frames w f) = Running" using s(2) by (simp_all add: running_def)
  note o = owners_okD(6)[OF d(4) fl(1)]
  have nh: "f \<notin> set (handles w)" using o fl(2) by simp
  have st: "startState (frames w f) = Started" using o fl(2) by (cases "startState (frames w f)") simp_all
  have nl: "f \<notin> set (launched w)" using o fl(2) by (auto simp: frame_ok_def split: if_splits)
  have frames: "frames ?w = (frames w)(f := (frames w f)\<lparr>place := AtExternal\<rparr>)" by (simp add: await_external_def s(1) upd_frame_def)
  have rest: "stacks ?w = (stacks w)[i := (g, None) # st]" "controls ?w = controls w" "handles ?w = handles w @ [f]"
    "executions ?w = executions w" "frame_count ?w = frame_count w" "tasks ?w = tasks w" "launched ?w = launched w"
    "started ?w = started w" "delivered ?w = delivered w" "bad ?w = bad w"
    by (simp_all add: await_external_def s(1) upd_frame_def)
  have same: "same_frames w ?w" using fl(1) by (auto simp: same_frames_def frames rest live_frames_def)
  note sf = same_framesD[OF same]
  have run: "running ?w = running w - {f}" by (auto simp: running_def sf(1) frames)
  have "acts_ok ?w" by (rule acts_ok_replace[OF d(1) i s(1) _ rest(1)]) (simp_all add: run rest sf(2))
  moreover have "locks_ok ?w"
    by (rule locks_ok_top[OF d(2) i s(1) rest(1)]) (simp_all add: rest)
  moreover have "owners_ok None ?w"
    by (rule owners_ok_place[OF d(4) fl(1) nl]) (use fl st nh in \<open>auto simp: frames rest live_frames_def\<close>)
  moreover have "handles_ok ?w"
    by (rule handles_ok_same[OF d(5)]) (use d(5) nh fl(1) in \<open>auto simp: frames rest handles_ok_def live_frames_def\<close>)
  moreover have "history_ok ?w"
    by (rule history_ok_same[OF d(6)]) (use sf(1) fl in \<open>auto simp: frames rest live_frames_def\<close>)
  ultimately show ?thesis using sf(3)[OF d(3)] rest(10) by (simp add: coro_inv_def)
qed

lemma leave_idle_inv:
  assumes inv: "coro_inv None w" and s: "stacks w ! i = (g, None) # st" and i: "i < length (stacks w)"
  shows "coro_inv None (leave i w) \<and> bad (leave i w) = bad w" (is "coro_inv None ?w \<and> _")
proof -
  note d = coro_invD[OF inv]
  have w': "?w = w\<lparr>stacks := (stacks w)[i := st], executions := (executions w)(g := executions w g - 1)\<rparr>" by (simp add: leave_def s)
  have same: "same_frames w ?w" by (simp add: same_frames_def w')
  note sf = same_framesD[OF same]
  have "acts_ok ?w" by (rule acts_ok_leave[OF d(1) i s]) (use sf in \<open>simp_all add: w' running_def live_frames_def gate_of_def\<close>)
  moreover have "locks_ok ?w" by (rule locks_ok_top[OF d(2) i s, of _ st]) (auto simp: w')
  moreover have "owners_ok None ?w"
    using d(4) owners_ok_same[of ?w w] by (simp add: w')
  moreover have "handles_ok ?w" using d(5) by (simp add: w' handles_ok_def)
  moreover have "history_ok ?w" using d(6) by (simp add: w' history_ok_def live_frames_def)
  ultimately show ?thesis using sf(3)[OF d(3)] by (simp add: coro_inv_def) (simp add: w')
qed

section \<open>Creating, detaching and joining\<close>

lemma new_task_inv:
  assumes inv: "coro_inv None w"
  shows "coro_inv None (new_task w)" (is "coro_inv None ?w")
proof (rule coro_invI)
  note d = coro_invD[OF inv]
  note o = owners_okD[OF d(4)]
  let ?n = "frame_count w"
  have frames: "frames ?w = (frames w)(?n := TaskPromise)" "controls ?w = (controls w)(?n := FrameControl ?n)"
    by (simp_all add: new_task_def Let_def)
  have rest: "frame_count ?w = Suc ?n" "executions ?w = (executions w)(?n := 0)" "stacks ?w = stacks w" "tasks ?w = tasks w @ [?n]"
    "launched ?w = launched w" "handles ?w = handles w" "started ?w = started w" "delivered ?w = delivered w"
    by (simp_all add: new_task_def Let_def)
  have live: "live_frames ?w = insert ?n (live_frames w)" "?n \<notin> live_frames w"
    by (auto simp: live_frames_def frames rest TaskPromise_def less_Suc_eq)
  have less: "f < ?n" if "f \<in> live_frames w" for f using that by (simp add: live_frames_def)
  have gates: "gate_of ?w f = gate_of w f" if "f < ?n" for f using that by (simp add: gate_of_def frames)
  have run: "running ?w = running w" using live less by (auto simp: running_def frames TaskPromise_def)
  have "fst ` set (stacks w ! i) \<subseteq> {..<?n}" if "i < length (stacks w)" for i using d(2) that by (simp add: locks_ok_def)
  then have "fst ` set_mset (acts w) \<subseteq> {..<?n}" by (fastforce simp: acts_def in_set_conv_nth[of _ "stacks w"])
  then have "count (image_mset fst (acts w)) ?n = 0" by (auto simp: count_eq_zero_iff)
  then have "executions ?w = executions w" using acts_okD(2)[OF d(1), of ?n] by (auto simp: rest fun_eq_iff)
  then show "acts_ok ?w"
    by (intro acts_ok_same[OF d(1)]) (use run less in \<open>auto simp: rest running_def gates\<close>)
  show "locks_ok ?w" by (rule locks_ok_same[OF d(2)]) (simp_all add: rest)
  have "c \<notin> set (children (controls w ?n))" for c using d(3) unfolding links_ok_def by blast
  then have unlinked: "set (children (controls w ?n)) = {}" by (simp add: set_eq_iff)
  show "links_ok ?w"
    by (rule links_ok_frame[OF d(3)])
      (use gates unlinked in \<open>auto simp: frames rest expired_def FrameControl_def gate_of_def split: if_splits\<close>)
  show "handles_ok ?w"
    using d(5) unfolding handles_ok_def by (auto simp: frames rest TaskPromise_def less_Suc_eq)
  have ns: "?n \<notin> set (started w)" using d(6) by (auto simp: history_ok_def)
  have "\<forall>f \<in> live_frames ?w. f \<in> set (started ?w) \<longleftrightarrow> startState (frames ?w f) = Started"
    using d(6) ns live less by (auto simp: history_ok_def frames rest TaskPromise_def)
  moreover have "\<forall>(p, c, out) \<in> set (delivered ?w). c < frame_count ?w \<and> place (frames ?w c) = AtEnd \<and> \<not> exists (frames ?w c) \<and>
      out = outcome_of (frames ?w c)"
    using d(6) unfolding history_ok_def by (fastforce simp: frames rest)
  ultimately show "history_ok ?w" using d(6) unfolding history_ok_def by (auto simp: rest)
  show "owners_ok None ?w"
  proof (rule owners_okI)
    show "distinct (tasks ?w)" "distinct (launched ?w)" "set (tasks ?w) \<subseteq> live_frames ?w" "set (launched ?w) \<subseteq> live_frames ?w"
      using o(1-4) live by (auto simp: rest)
    have nh: "?n \<notin> set (handles w)" using d(5) by (auto simp: handles_ok_def)
    fix h assume "h \<in> live_frames ?w"
    then consider "h = ?n" | "h \<in> live_frames w" "h \<noteq> ?n" using live by blast
    then have "frame_ok None ?w h \<and> await_ok ?w h \<and> c_handle (controls ?w h) \<and>
      (startState (frames ?w h) = Lazy) = (place (frames ?w h) = AtStart) \<and> (place (frames ?w h) = AtExternal) = (h \<in> set (handles ?w))"
    proof cases
      case 1
      then show ?thesis using o(4) live(2) nh
        by (auto simp: frame_ok_def await_ok_def frames rest TaskPromise_def FrameControl_def)
    next
      case 2
      have "frame_ok None ?w h"
        by (rule frame_ok_same[of None w]) (use o(6)[OF 2(1)] 2(2) live less in \<open>auto simp: frames rest\<close>)
      moreover have "await_ok ?w h"
        by (rule await_ok_same[of w]) (use o(6)[OF 2(1)] 2(2) live less in \<open>auto simp: frames rest await_ok_def\<close>)
      ultimately show ?thesis using o(6)[OF 2(1)] 2(2) by (simp add: frames rest)
    qed
    then show "frame_ok None ?w h" "await_ok ?w h" "c_handle (controls ?w h) \<and>
      (startState (frames ?w h) = Lazy) = (place (frames ?w h) = AtStart) \<and> (place (frames ?w h) = AtExternal) = (h \<in> set (handles ?w))"
      by blast+
  qed simp
qed

text \<open>A frame goes from its \<open>Task\<close>, or from the locals of a combinator, to itself.\<close>

lemma owners_ok_detach:
  assumes ok: "owners_ok None w" and f: "f \<in> set (tasks w) \<union> set (launched w)"
    and w': "\<And>h. h \<noteq> f \<Longrightarrow> frames w' h = frames w h" "frame_count w' = frame_count w" "controls w' = controls w" "handles w' = handles w"
      "set (tasks w') = set (tasks w) - {f}" "set (launched w') = set (launched w) - {f}" "distinct (tasks w')" "distinct (launched w')"
    and f': "exists (frames w' f)" "detached (frames w' f)" "continuation (frames w' f) = continuation (frames w f)"
      "awaiting (frames w' f) = awaiting (frames w f)" "startState (frames w' f) = Started" "place (frames w' f) \<notin> {AtStart, AtEnd}"
      "place (frames w f) = AtStart \<and> place (frames w' f) = Running \<or> place (frames w' f) = place (frames w f)"
  shows "owners_ok None w'"
proof (rule owners_okI)
  note d = owners_okD[OF ok] and o = owned_free[OF ok f]
  have live: "live_frames w' = live_frames w"
  proof -
    have "exists (frames w' h) = exists (frames w h)" for h using w'(1)[of h] f'(1) o(1) by (cases "h = f") (simp_all add: live_frames_def)
    then show ?thesis using w'(2) by (simp add: live_frames_def)
  qed
  show "distinct (tasks w')" "distinct (launched w')" "set (tasks w') \<subseteq> live_frames w'" "set (launched w') \<subseteq> live_frames w'"
    using d(3,4) w'(5-8) live by auto
  have aw: "awaiting (frames w' h) = awaiting (frames w h)" "continuation (frames w' h) = continuation (frames w h)" for h
    using w'(1) f'(3,4) by (cases "h = f"; simp)+
  have fo: "await_ok w f" using d(6)[OF o(1)] by blast
  have at: "place (frames w' h) = AtTask \<longleftrightarrow> place (frames w h) = AtTask" "place (frames w' h) = AtExternal \<longleftrightarrow> place (frames w h) = AtExternal" for h
    using w'(1) f'(7) by (cases "h = f"; auto)+
  fix h assume "h \<in> live_frames w'"
  then have h: "h \<in> live_frames w" using live by simp
  have nf: "awaiting (frames w h) \<noteq> Some f" using o(2) h by (auto simp: awaited_def)
  show "await_ok w' h"
  proof (rule await_ok_same[of w])
    show "await_ok w h" using d(6)[OF h] by blast
    show "awaiting (frames w' h) = awaiting (frames w h)" by (rule aw)
    show "place (frames w' h) = AtTask \<longleftrightarrow> place (frames w h) = AtTask" by (rule at)
    fix c assume c: "awaiting (frames w h) = Some c"
    then have "c \<noteq> f" "c \<in> live_frames w" using nf d(6)[OF h] by (auto simp: await_ok_def)
    then show "c \<in> live_frames w' \<and> continuation (frames w' c) = continuation (frames w c) \<and> detached (frames w' c) = detached (frames w c) \<and>
       (c \<in> set (tasks w') \<longrightarrow> c \<in> set (tasks w)) \<and> (c \<in> set (launched w') \<longrightarrow> c \<in> set (launched w)) \<and>
       (c \<in> set (children (controls w h)) \<longrightarrow> c \<in> set (children (controls w' h)))"
      using w' live by simp
  qed
  show "c_handle (controls w' h) \<and> (startState (frames w' h) = Lazy) = (place (frames w' h) = AtStart) \<and>
      (place (frames w' h) = AtExternal) = (h \<in> set (handles w'))"
  proof (cases "h = f")
    case True
    then show ?thesis using d(6)[OF h] w'(3,4) f'(5,6) at(2)[of f] by simp
  next
    case False
    then show ?thesis using d(6)[OF h] w'(1,3,4) by simp
  qed
  show "frame_ok None w' h"
  proof (cases "h = f")
    case True
    then show ?thesis using o(4) f' w'(5,6) by (simp add: frame_ok_def)
  next
    case False
    have "frame_ok None w h" using d(6)[OF h] by blast
    then show ?thesis by (rule frame_ok_same) (use False w' aw live in simp_all)
  qed
qed simp

text \<open>\<open>task_detach\<close> of a frame that is not finished.\<close>

lemma detach_inv:
  assumes inv: "coro_inv None w" and f: "f \<in> set (tasks w) \<union> set (launched w)" and nd: "\<not> finished w f"
    and i: "i < length (stacks w)" "lock_free i (gate_of w f) w"
    and v: "v = w\<lparr>tasks := remove1 f (tasks w), launched := remove1 f (launched w)\<rparr>"
  shows "coro_inv None (task_detach i f v) \<and> bad (task_detach i f v) = bad w" (is "coro_inv None ?w \<and> _")
proof -
  note d = coro_invD[OF inv]
  note o = owned_free[OF d(4) f] and q = owners_okD[OF d(4)]
  have sets: "set (tasks v) = set (tasks w) - {f}" "set (launched v) = set (launched w) - {f}" "distinct (tasks v)" "distinct (launched v)"
    using q(1,2) by (simp_all add: v)
  have nd': "\<not> finished v f" using nd by (simp add: v finished_def)
  note pf = q(6)[OF o(1)]
  show ?thesis
  proof (cases "startState (frames w f) = Lazy")
    case True
    then have start: "place (frames w f) = AtStart" using pf by simp
    have w': "?w = enter i AtStart f ((upd_frame f (\<lambda>x. x\<lparr>startState := Started\<rparr>) (upd_frame f (\<lambda>x. x\<lparr>detached := True\<rparr>) v))\<lparr>started := started w @ [f]\<rparr>)"
      using True nd' by (simp add: task_detach_def try_start_def v upd_frame_def)
    have frames: "frames ?w = (frames w)(f := (frames w f)\<lparr>detached := True, startState := Started, place := Running\<rparr>)"
      unfolding w' by (simp add: v enter_def upd_frame_def gate_of_def Let_def)
    have rest: "stacks ?w = (stacks w)[i := (gate_of w f, Some f) # stacks w ! i]" "controls ?w = controls w" "handles ?w = handles w"
      "executions ?w = (executions w)(gate_of w f := executions w (gate_of w f) + 1)" "frame_count ?w = frame_count w"
      "tasks ?w = tasks v" "launched ?w = launched v" "started ?w = started w @ [f]" "delivered ?w = delivered w" "bad ?w = bad w"
      unfolding w' using o(1) start by (simp_all add: v enter_def upd_frame_def gate_of_def Let_def live_frames_def)
    have same: "same_frames w ?w" using sets(1) by (simp add: same_frames_def frames rest)
    have "acts_ok ?w \<and> locks_ok ?w \<and> links_ok ?w"
      by (rule enter_inv[OF d(1-3) i o(1)]) (use start same in \<open>simp_all add: frames rest\<close>)
    moreover have "owners_ok None ?w"
      by (rule owners_ok_detach[OF d(4) f]) (use o(1) start sets in \<open>simp_all add: frames rest live_frames_def\<close>)
    moreover have "handles_ok ?w" by (rule handles_ok_same[OF d(5)]) (use d(5) in \<open>auto simp: frames rest handles_ok_def\<close>)
    moreover have "history_ok ?w"
      by (rule history_ok_start[OF d(6) o(1) True]) (use same_framesD(1)[OF same] o(1) in \<open>auto simp: frames rest\<close>)
    ultimately show ?thesis using rest(10) by (simp add: coro_inv_def)
  next
    case False
    then have st: "startState (frames w f) = Started" by (cases "startState (frames w f)") simp_all
    have pl: "place (frames w f) \<notin> {AtStart, AtEnd}" using pf st nd by (auto simp: finished_def)
    have w': "?w = upd_frame f (\<lambda>x. x\<lparr>detached := True\<rparr>) v"
      using st nd' by (simp add: task_detach_def try_start_def v upd_frame_def)
    have frames: "frames ?w = (frames w)(f := (frames w f)\<lparr>detached := True\<rparr>)" unfolding w' by (simp add: v upd_frame_def)
    have rest: "stacks ?w = stacks w" "controls ?w = controls w" "handles ?w = handles w" "executions ?w = executions w"
      "frame_count ?w = frame_count w" "tasks ?w = tasks v" "launched ?w = launched v" "started ?w = started w" "delivered ?w = delivered w"
      "bad ?w = bad w" unfolding w' by (simp_all add: v upd_frame_def)
    have same: "same_frames w ?w" using sets(1) by (simp add: same_frames_def frames rest)
    note s = same_framesD[OF same]
    have "acts_ok ?w" by (rule acts_ok_same[OF d(1)]) (auto simp: rest running_def s frames)
    moreover have "locks_ok ?w" by (rule locks_ok_same[OF d(2)]) (simp_all add: rest)
    moreover have "owners_ok None ?w"
      by (rule owners_ok_detach[OF d(4) f]) (use o(1) pl st sets in \<open>simp_all add: frames rest live_frames_def\<close>)
    moreover have "handles_ok ?w" by (rule handles_ok_same[OF d(5)]) (use d(5) in \<open>auto simp: frames rest handles_ok_def\<close>)
    moreover have "history_ok ?w" by (rule history_ok_same[OF d(6)]) (use s(1) in \<open>auto simp: frames rest\<close>)
    ultimately show ?thesis using s(3)[OF d(3)] rest(10) by (simp add: coro_inv_def)
  qed
qed

text \<open>A running frame \<open>f\<close> adopts a quiescent task.\<close>

lemma adoption:
  assumes inv: "coro_inv None w" and f: "f \<in> running w" and c: "c \<in> set (tasks w)" "quiescent c w"
    and u: "frames u = frames w" "controls u = controls w" "stacks u = stacks w" "executions u = executions w"
      "frame_count u = frame_count w" "handles u = handles w" "tasks u = remove1 c (tasks w)"
  shows "linkChild f c u = u\<lparr>controls := adopted f c u\<rparr>" "links_ok (u\<lparr>controls := adopted f c u\<rparr>)"
    "\<And>h. h \<in> running w \<Longrightarrow> gate (adopted f c u h) = gate_of w h" "gate (adopted f c u c) = gate_of w f" "c \<noteq> f"
proof -
  note d = coro_invD[OF inv]
  have dist: "distinct (tasks w)" by (rule owners_okD(1)[OF d(4)])
  have eq: "gate_of u = gate_of w" "running u = running w" "expired u = expired w" "acts u = acts w"
    using u by (simp_all add: gate_of_def running_def live_frames_def expired_def acts_def fun_eq_iff)
  have ok: "links_ok u" by (rule links_ok_frame[OF d(3)]) (use u eq dist in simp_all)
  have a: "acts_ok u" using d(1) u eq by (simp add: acts_ok_def)
  have q: "quiescent c u" "f \<in> running u" using c(2) f u(4) eq by (simp_all add: quiescent_def)
  note g = adoption_gates[OF ok a q(2,1)]
  have cl: "c < frame_count u" "c \<notin> set (tasks u)" "\<And>q. c \<notin> set (children (controls u q))"
  proof -
    show "c < frame_count u" using owners_okD(3)[OF d(4)] c(1) u(5) by (auto simp: live_frames_def)
    show "c \<notin> set (tasks u)" using dist u(7) by simp
    show "c \<notin> set (children (controls u q))" for q using d(3) c(1) u(2) unfolding links_ok_def by metis
  qed
  have fl: "f < frame_count u" using f u(5) by (simp add: running_def live_frames_def)
  show e: "linkChild f c u = u\<lparr>controls := adopted f c u\<rparr>" by (rule linkChild_adopted[OF ok])
  show "links_ok (u\<lparr>controls := adopted f c u\<rparr>)" using linkChild_links[OF ok cl fl g(1)] e by simp
  show "gate (adopted f c u h) = gate_of w h" if "h \<in> running w" for h using g(2)[of h] that eq by simp
  show "gate (adopted f c u c) = gate_of w f" using eq(1) by (simp add: adopted_fields)
  show "c \<noteq> f" using running_gate[OF d(1) f] c(2) by (auto simp: quiescent_def)
qed

lemma join_inv:
  assumes inv: "coro_inv None w" and r: "runs i f w" and i: "i < length (stacks w)"
    and c: "c \<in> set (tasks w)" "startState (frames w c) = Lazy" "quiescent c w"
  shows "coro_inv None (linkChild f c ((disown c w)\<lparr>launched := launched w @ [c]\<rparr>)) \<and>
    bad (linkChild f c ((disown c w)\<lparr>launched := launched w @ [c]\<rparr>)) = bad w"
proof -
  note d = coro_invD[OF inv]
  note q = owners_okD[OF d(4)] and o = owned_free[OF d(4), of c]
  obtain g st where s: "stacks w ! i = (g, Some f) # st" "f \<in> running w" "gate_of w f = g" by (rule top_runs[OF r d(1) i])
  let ?u = "(disown c w)\<lparr>launched := launched w @ [c]\<rparr>"
  have u: "frames ?u = frames w" "controls ?u = controls w" "stacks ?u = stacks w" "executions ?u = executions w"
    "frame_count ?u = frame_count w" "handles ?u = handles w" "tasks ?u = remove1 c (tasks w)" by (simp_all add: disown_def)
  note a = adoption[OF inv s(2) c(1,3) u]
  let ?w = "?u\<lparr>controls := adopted f c ?u\<rparr>"
  have rest: "frames ?w = frames w" "controls ?w = adopted f c ?u" "stacks ?w = stacks w" "executions ?w = executions w"
    "frame_count ?w = frame_count w" "handles ?w = handles w" "tasks ?w = remove1 c (tasks w)" "launched ?w = launched w @ [c]"
    "started ?w = started w" "delivered ?w = delivered w" "bad ?w = bad w" by (simp_all add: disown_def)
  have live: "live_frames ?w = live_frames w" by (simp add: live_frames_def rest)
  have cl: "c \<in> live_frames w" "c \<notin> set (launched w)" using o c(1) by simp_all
  have start: "place (frames w c) = AtStart" using q(6)[OF cl(1)] c(2) by simp
  have handle: "c_handle (controls ?w h) = c_handle (controls w h)" for h by (simp add: rest adopted_fields u(2))
  have "acts_ok ?w" by (rule acts_ok_same[OF d(1)]) (use a(3) in \<open>simp_all add: rest running_def live gate_of_def\<close>)
  moreover have "locks_ok ?w" by (rule locks_ok_same[OF d(2)]) (simp_all add: rest)
  moreover have "handles_ok ?w" by (rule handles_ok_same[OF d(5)]) (use d(5) handle in \<open>simp_all add: rest handles_ok_def\<close>)
  moreover have "history_ok ?w" by (rule history_ok_same[OF d(6)]) (use live in \<open>simp_all add: rest\<close>)
  moreover have "owners_ok None ?w"
  proof (rule owners_okI)
    show "distinct (tasks ?w)" "distinct (launched ?w)" "set (tasks ?w) \<subseteq> live_frames ?w" "set (launched ?w) \<subseteq> live_frames ?w"
      unfolding live using q(1-4) cl by (auto simp: rest)
    fix h assume "h \<in> live_frames ?w"
    then have h: "h \<in> live_frames w" using live by simp
    have nc: "awaiting (frames w h) \<noteq> Some c" using o(2) c(1) h by (auto simp: awaited_def)
    have nf: "awaiting (frames w f) = None" using q(6)[of f] s(2) by (simp add: running_def await_ok_def)
    show "await_ok ?w h"
      by (rule await_ok_same[of w]) (use q(6)[OF h] nc nf live in \<open>auto simp: rest await_ok_def adopted_fields u(2)\<close>)
    show "c_handle (controls ?w h) \<and> (startState (frames ?w h) = Lazy) = (place (frames ?w h) = AtStart) \<and>
        (place (frames ?w h) = AtExternal) = (h \<in> set (handles ?w))" unfolding handle rest(1,6) using q(6)[OF h] by blast
    show "frame_ok None ?w h"
    proof (cases "h = c")
      case True
      then show ?thesis using o c(1) q(1) start by (simp add: frame_ok_def rest)
    next
      case False
      have "frame_ok None w h" using q(6)[OF h] by blast
      then show ?thesis by (rule frame_ok_same) (use False live q(1) in \<open>simp_all add: rest\<close>)
    qed
  qed simp
  ultimately have "coro_inv None ?w" using a(2) by (simp add: coro_inv_def)
  then show ?thesis using a(1) rest(11) by simp
qed

section \<open>Awaiting\<close>

lemma disown_inv:
  assumes inv: "coro_inv None w" and c: "c \<in> set (tasks w)"
  shows "coro_inv (Some c) (disown c w)"
proof (rule coro_invI)
  note d = coro_invD[OF inv]
  let ?u = "disown c w"
  have same: "same_frames w ?u" by (simp add: same_frames_def disown_def set_remove1_subset)
  show "acts_ok ?u" using d(1) by (simp add: disown_def acts_ok_def acts_def running_def live_frames_def gate_of_def)
  show "locks_ok ?u" by (rule locks_ok_same[OF d(2)]) (simp_all add: disown_def)
  show "links_ok ?u" by (rule same_framesD(3)[OF same d(3)])
  show "owners_ok (Some c) ?u" by (rule owners_ok_orphan[OF d(4) c])
  show "handles_ok ?u" using d(5) by (simp add: handles_ok_def disown_def)
  show "history_ok ?u" using d(6) by (simp add: history_ok_def disown_def live_frames_def)
qed

lemma owners_ok_await:
  assumes ok: "owners_ok None w" and f: "f \<in> live_frames w" "place (frames w f) = Running" and c: "c \<in> set (tasks w)" "c \<noteq> f"
    and w': "\<And>h. h \<noteq> f \<Longrightarrow> h \<noteq> c \<Longrightarrow> frames w' h = frames w h" "frame_count w' = frame_count w" "handles w' = handles w"
      "tasks w' = remove1 c (tasks w)" "launched w' = launched w" "\<And>h. c_handle (controls w' h) = c_handle (controls w h)"
      "\<And>h. h \<noteq> f \<Longrightarrow> children (controls w' h) = children (controls w h)" "c \<in> set (children (controls w' f))"
    and f': "frames w' f = (frames w f)\<lparr>place := AtTask, awaiting := Some c\<rparr>"
    and c': "frames w' c = (frames w c)\<lparr>continuation := Some f, startState := Started, place := p\<rparr>" "p \<notin> {AtStart, AtEnd}"
      "place (frames w c) = AtStart \<and> p = Running \<or> p = place (frames w c)"
  shows "owners_ok None w'"
proof (rule owners_okI)
  note q = owners_okD[OF ok] and o = owned_free[OF ok, of c]
  have cl: "c \<in> live_frames w" "\<not> awaited w c" "\<not> detached (frames w c)" "continuation (frames w c) = None" "c \<notin> set (launched w)"
    using o c(1) by simp_all
  have live: "live_frames w' = live_frames w"
  proof -
    have "exists (frames w' h) = exists (frames w h)" for h using w'(1)[of h] f' c' by (cases "h = f"; cases "h = c") simp_all
    then show ?thesis using w'(2) by (simp add: live_frames_def)
  qed
  have ts: "set (tasks w') = set (tasks w) - {c}" using q(1) w'(4) by simp
  show "distinct (tasks w')" "distinct (launched w')" "set (tasks w') \<subseteq> live_frames w'" "set (launched w') \<subseteq> live_frames w'"
    unfolding live using q(1-4) w'(4,5) by (auto simp: ts)
  have nf: "awaiting (frames w f) = None" using q(6)[OF f(1)] f(2) by (simp add: await_ok_def)
  have aw: "awaiting (frames w' h) = awaiting (frames w h)" if "h \<noteq> f" for h using w'(1)[OF that] c' by (cases "h = c") simp_all
  have co: "continuation (frames w' h) = continuation (frames w h)" if "h \<noteq> c" for h using w'(1)[OF _ that] f' by (cases "h = f") simp_all
  have de: "detached (frames w' h) = detached (frames w h)" for h using w'(1)[of h] f' c' by (cases "h = f"; cases "h = c") simp_all
  have nl: "f \<notin> set (launched w)" using q(6)[OF f(1)] f(2) by (auto simp: frame_ok_def split: if_splits)
  fix h assume "h \<in> live_frames w'"
  then have h: "h \<in> live_frames w" using live by simp
  have nc: "awaiting (frames w h) \<noteq> Some c" using cl(2) h by (auto simp: awaited_def)
  have old: "frame_ok None w h" "await_ok w h" using q(6)[OF h] by blast+
  show "await_ok w' h"
  proof (cases "h = f")
    case True
    then show ?thesis using f' c(2) c'(1) cl w'(5,8) live ts by (simp add: await_ok_def)
  next
    case False
    have "place (frames w' h) = AtTask \<longleftrightarrow> place (frames w h) = AtTask" using w'(1)[OF False] c' by (cases "h = c") auto
    then show ?thesis
      by (rule await_ok_same[OF old(2) aw[OF False]])
        (use old(2) nc co de live ts w'(5) w'(7)[OF False] in \<open>auto simp: await_ok_def\<close>)
  qed
  show "c_handle (controls w' h) \<and> (startState (frames w' h) = Lazy) = (place (frames w' h) = AtStart) \<and>
      (place (frames w' h) = AtExternal) = (h \<in> set (handles w'))"
  proof -
    consider "h = f" | "h = c" | "h \<noteq> f" "h \<noteq> c" by blast
    then show ?thesis
    proof cases
      case 1
      then show ?thesis using q(6)[OF f(1)] f(2) w'(3,6) f' by simp
    next
      case 2
      have "p = AtExternal \<longleftrightarrow> place (frames w c) = AtExternal" using c'(3) by auto
      then show ?thesis using 2 q(6)[OF cl(1)] w'(3,6) c'(1,2) by simp
    next
      case 3
      then show ?thesis using q(6)[OF h] w'(1)[OF 3] w'(3,6) by simp
    qed
  qed
  show "frame_ok None w' h"
  proof (cases "h = c")
    case True
    have "\<exists>p \<in> live_frames w'. continuation (frames w' c) = Some p \<and> awaiting (frames w' p) = Some c"
      using f(1) f' c'(1) live by (intro bexI[of _ f]) simp_all
    then show ?thesis using True cl c' ts w'(5) by (simp add: frame_ok_def)
  next
    case False
    have "p \<noteq> f" if "awaiting (frames w p) = Some h" for p using nf that by auto
    moreover have "place (frames w' h) = place (frames w h) \<or> h \<notin> set (launched w) \<and> place (frames w' h) \<noteq> AtStart \<and>
        (place (frames w' h) = AtEnd \<longrightarrow> h \<in> set (tasks w))" using w'(1)[OF _ False] f' nl by (cases "h = f") simp_all
    ultimately show ?thesis
      by (intro frame_ok_same[OF old(1)]) (use False aw co de live ts w'(5) in auto)
  qed
qed simp

text \<open>The result of a finished frame is delivered and the frame destroyed.\<close>

lemma await_done_inv:
  assumes inv: "coro_inv (Some c) w" and c: "finished w c" and ok: "\<not> bad w" "\<not> terminated w"
  shows "coro_inv None (await_done p c w) \<and> \<not> bad (await_done p c w) \<and> \<not> terminated (await_done p c w)"
proof -
  note d = coro_invD[OF inv]
  have cl: "c \<in> live_frames w" using owners_okD(5)[OF d(4)] by blast
  have pl: "place (frames w c) = AtEnd" using c by (simp add: finished_def)
  have na: "awaiting (frames w c) = None" using owners_okD(6)[OF d(4) cl] pl by (simp add: await_ok_def)
  let ?u = "free_frame c w" and ?w = "await_done p c w"
  have e: "?w = ?u\<lparr>delivered := delivered w @ [(p, c, outcome_of (frames w c))]\<rparr>"
    using destroyFrame_inv[OF inv ok] c na by (simp add: await_done_def)
  have u: "coro_inv None ?u" "bad ?u = bad w" using free_frame_inv[OF inv] pl na by simp_all
  note du = coro_invD[OF u(1)]
  have fr: "frames ?u = (frames w)(c := (frames w c)\<lparr>exists := False, awaiting := None\<rparr>)" "frame_count ?u = frame_count w"
    "delivered ?u = delivered w" "started ?u = started w" "terminated ?u = terminated w"
    by (simp_all add: free_frame_def upd_frame_def upd_control_def)
  have "c \<noteq> c'" if "(p', c', out) \<in> set (delivered w)" for p' c' out
    using d(6) cl that unfolding history_ok_def live_frames_def by fastforce
  then have "c \<notin> (\<lambda>(p, c, out). c) ` set (delivered w)" by force
  moreover have "outcome_of ((frames w c)\<lparr>exists := False, awaiting := None\<rparr>) = outcome_of (frames w c)"
    by (rule outcome_of_same) simp_all
  ultimately have "history_ok ?w"
    using du(6) cl pl unfolding history_ok_def e by (auto simp: fr live_frames_def)
  moreover have "acts_ok ?w = acts_ok ?u" "locks_ok ?w = locks_ok ?u" "links_ok ?w = links_ok ?u" "handles_ok ?w = handles_ok ?u"
    unfolding e by (simp_all add: acts_ok_def acts_def running_def live_frames_def gate_of_def locks_ok_def links_ok_def expired_def handles_ok_def)
  moreover have "owners_ok None ?w = owners_ok None ?u" by (rule owners_ok_same) (simp_all add: e)
  ultimately show ?thesis using du u(2) ok by (simp add: coro_inv_def) (simp add: e fr)
qed

lemma await_task_inv:
  assumes inv: "coro_inv None w" and r: "runs i f w" and i: "i < length (stacks w)"
    and c: "c \<in> set (tasks w)" "finished w c \<or> quiescent c w" and ok: "\<not> bad w" "\<not> terminated w"
  shows "coro_inv None (await_task i f c (disown c w)) \<and> \<not> bad (await_task i f c (disown c w))"
proof (cases "finished w c")
  case True
  have u: "coro_inv (Some c) (disown c w)" by (rule disown_inv[OF inv c(1)])
  have f: "finished (disown c w) c" "\<not> bad (disown c w)" "\<not> terminated (disown c w)"
    using True ok by (simp_all add: disown_def finished_def)
  then show ?thesis using await_done_inv[OF u f, of f] by (simp add: await_task_def)
next
  case False
  note d = coro_invD[OF inv]
  note q = owners_okD[OF d(4)] and o = owned_free[OF d(4), of c]
  obtain g st where s: "stacks w ! i = (g, Some f) # st" "f \<in> running w" "gate_of w f = g" by (rule top_runs[OF r d(1) i])
  have qc: "quiescent c w" using c(2) False by blast
  let ?u = "disown c w"
  have u: "frames ?u = frames w" "controls ?u = controls w" "stacks ?u = stacks w" "executions ?u = executions w"
    "frame_count ?u = frame_count w" "handles ?u = handles w" "tasks ?u = remove1 c (tasks w)" by (simp_all add: disown_def)
  note a = adoption[OF inv s(2) c(1) qc u]
  have fl: "f \<in> live_frames w" "place (frames w f) = Running" using s(2) by (simp_all add: running_def)
  have cl: "c \<in> live_frames w" using o c(1) by simp
  have cn: "c \<notin> running w" using running_gate[OF d(1), of c] qc by (auto simp: quiescent_def)
  define v where "v = upd_frame c (\<lambda>x. x\<lparr>continuation := Some f\<rparr>) (upd_frame f (\<lambda>x. x\<lparr>place := AtTask, awaiting := Some c\<rparr>) (?u\<lparr>controls := adopted f c ?u\<rparr>))"
  have v: "frames v = (frames w)(f := (frames w f)\<lparr>place := AtTask, awaiting := Some c\<rparr>, c := (frames w c)\<lparr>continuation := Some f\<rparr>)"
    "controls v = adopted f c ?u" "stacks v = stacks w" "executions v = executions w" "frame_count v = frame_count w"
    "handles v = handles w" "tasks v = remove1 c (tasks w)" "launched v = launched w" "started v = started w"
    "delivered v = delivered w" "bad v = bad w"
    using a(5) by (simp_all add: v_def upd_frame_def disown_def)
  have w0: "await_task i f c ?u = (let (first, w) = try_start c v in if first then transfer i AtStart c w else leave i w)"
    using False a(1) by (simp add: await_task_def v_def finished_def disown_def Let_def)
  have links: "links_ok w'" if "controls w' = adopted f c ?u" "tasks w' = tasks v" "frame_count w' = frame_count w" "handles w' = handles w"
    "\<And>h. exists (frames w' h) = exists (frames w h)" for w' :: "'a coro"
    by (rule links_ok_frame[OF a(2)]) (use that v(7) in \<open>simp_all add: gate_of_def expired_def links_ok_def[of "?u\<lparr>controls := adopted f c ?u\<rparr>"] disown_def\<close>)
  have handle: "c_handle (adopted f c ?u h) = c_handle (controls w h)" "h \<noteq> f \<Longrightarrow> children (adopted f c ?u h) = children (controls w h)"
    "c \<in> set (children (adopted f c ?u f))" for h by (simp_all add: adopted_fields u(2))
  show ?thesis
  proof (cases "startState (frames w c) = Lazy")
    case True
    have start: "place (frames w c) = AtStart" using q(6)[OF cl] True by simp
    let ?w = "await_task i f c ?u"
    have w': "?w = transfer i AtStart c ((upd_frame c (\<lambda>x. x\<lparr>startState := Started\<rparr>) v)\<lparr>started := started v @ [c]\<rparr>)"
      using w0 True a(5) by (simp add: try_start_def v(1))
    have frames: "frames ?w = (frames w)(f := (frames w f)\<lparr>place := AtTask, awaiting := Some c\<rparr>,
        c := (frames w c)\<lparr>continuation := Some f, startState := Started, place := Running\<rparr>)"
      unfolding w' using s(1) a(5) by (simp add: transfer_def upd_frame_def v)
    have rest: "controls ?w = adopted f c ?u" "stacks ?w = (stacks w)[i := (g, Some c) # st]" "executions ?w = executions w"
      "frame_count ?w = frame_count w" "handles ?w = handles w" "tasks ?w = tasks v" "launched ?w = launched w"
      "started ?w = started w @ [c]" "delivered ?w = delivered w" "bad ?w = bad w"
      unfolding w' using s(1) a(5) start cl by (simp_all add: transfer_def upd_frame_def v live_frames_def)
    have live: "live_frames ?w = live_frames w" by (auto simp: live_frames_def frames rest)
    have run: "running ?w = insert c (running w - {f})" using cl by (auto simp: running_def live frames)
    have "acts_ok ?w"
      by (rule acts_ok_replace[OF d(1) i s(1) _ rest(2)]) (use a(3,4) s(3) cn in \<open>auto simp: run rest gate_of_def\<close>)
    moreover have "locks_ok ?w" by (rule locks_ok_top[OF d(2) i s(1) rest(2)]) (simp_all add: rest)
    moreover have "links_ok ?w" by (rule links) (auto simp: rest frames)
    moreover have "owners_ok None ?w"
      by (rule owners_ok_await[OF d(4) fl c(1) a(5), of _ Running]) (use a(5) start handle in \<open>simp_all add: frames rest v\<close>)
    moreover have "handles_ok ?w"
      by (rule handles_ok_same[OF d(5)]) (use d(5) handle in \<open>auto simp: frames rest handles_ok_def\<close>)
    moreover have "history_ok ?w"
      by (rule history_ok_start[OF d(6) cl True]) (use live cl fl a(5) in \<open>auto simp: frames rest\<close>)
    ultimately show ?thesis using rest(10) ok by (simp add: coro_inv_def)
  next
    case False
    then have st: "startState (frames w c) = Started" by (cases "startState (frames w c)") simp_all
    have pl: "place (frames w c) \<notin> {AtStart, AtEnd}" using q(6)[OF cl] st \<open>\<not> finished w c\<close> by (auto simp: finished_def)
    let ?w = "await_task i f c ?u"
    have w': "?w = leave i v" using w0 st a(5) by (simp add: try_start_def v(1))
    have frames: "frames ?w = (frames w)(f := (frames w f)\<lparr>place := AtTask, awaiting := Some c\<rparr>, c := (frames w c)\<lparr>continuation := Some f\<rparr>)"
      unfolding w' using s(1) by (simp add: leave_def v)
    have rest: "controls ?w = adopted f c ?u" "stacks ?w = (stacks w)[i := st]" "executions ?w = (executions w)(g := executions w g - 1)"
      "frame_count ?w = frame_count w" "handles ?w = handles w" "tasks ?w = tasks v" "launched ?w = launched w"
      "started ?w = started w" "delivered ?w = delivered w" "bad ?w = bad w"
      unfolding w' using s(1) by (simp_all add: leave_def v)
    have live: "live_frames ?w = live_frames w" by (auto simp: live_frames_def frames rest)
    have run: "running ?w = running w - {f}" using cn a(5) by (auto simp: running_def live frames split: if_splits)
    have "acts_ok ?w"
      by (rule acts_ok_leave[OF d(1) i s(1) _ rest(2)]) (use a(3) in \<open>simp_all add: run rest gate_of_def\<close>)
    moreover have "locks_ok ?w" by (rule locks_ok_top[OF d(2) i s(1) rest(2)]) (simp_all add: rest subset_insertI)
    moreover have "links_ok ?w" by (rule links) (auto simp: rest frames)
    moreover have "owners_ok None ?w"
      by (rule owners_ok_await[OF d(4) fl c(1) a(5), of _ "place (frames w c)"]) (use a(5) pl st handle in \<open>simp_all add: frames rest v\<close>)
    moreover have "handles_ok ?w"
      by (rule handles_ok_same[OF d(5)]) (use d(5) handle in \<open>auto simp: frames rest handles_ok_def\<close>)
    moreover have "history_ok ?w"
      by (rule history_ok_same[OF d(6)]) (use live cl fl in \<open>auto simp: frames rest live_frames_def\<close>)
    ultimately show ?thesis using rest(10) ok by (simp add: coro_inv_def)
  qed
qed

section \<open>The end of a body\<close>

lemma owners_ok_detached:
  assumes "owners_ok None w" "f \<in> live_frames w" "detached (frames w f)"
  shows "owners_ok (Some f) w"
proof (rule owners_okI)
  note q = owners_okD[OF assms(1)]
  show "distinct (tasks w)" "distinct (launched w)" "set (tasks w) \<subseteq> live_frames w" "set (launched w) \<subseteq> live_frames w" using q(1-4) by simp_all
  have nf: "f \<notin> set (tasks w)" "f \<notin> set (launched w)" using q(6)[OF assms(2)] assms(3) by (auto simp: frame_ok_def split: if_splits)
  have "\<not> awaited w f"
  proof
    assume "awaited w f"
    then obtain p where "p \<in> live_frames w" "awaiting (frames w p) = Some f" by (auto simp: awaited_def)
    then show False using q(6)[of p] assms(3) by (simp add: await_ok_def)
  qed
  then show "y \<in> live_frames w \<and> \<not> awaited w y" if "Some f = Some y" for y using assms(2) that by simp
  fix h assume h: "h \<in> live_frames w"
  have "frame_ok None w h" using q(6)[OF h] by blast
  then show "frame_ok (Some f) w h" using nf by (cases "h = f") (simp_all add: frame_ok_def)
  show "await_ok w h" "c_handle (controls w h) \<and> (startState (frames w h) = Lazy) = (place (frames w h) = AtStart) \<and>
      (place (frames w h) = AtExternal) = (h \<in> set (handles w))" using q(6)[OF h] by blast+
qed

text \<open>The continuation resumes: the frame it awaited is without owner.\<close>

lemma owners_ok_continue:
  assumes ok: "owners_ok None w" and f: "f \<in> live_frames w" "place (frames w f) = Running" and p: "p \<in> live_frames w" "awaiting (frames w p) = Some f"
    and w': "\<And>h. h \<noteq> f \<Longrightarrow> h \<noteq> p \<Longrightarrow> frames w' h = frames w h" "frame_count w' = frame_count w" "handles w' = handles w"
      "tasks w' = tasks w" "launched w' = launched w" "controls w' = controls w"
    and p': "frames w' p = (frames w p)\<lparr>place := Running, awaiting := None\<rparr>"
    and f': "exists (frames w' f)" "place (frames w' f) = AtEnd" "startState (frames w' f) = startState (frames w f)"
      "awaiting (frames w' f) = awaiting (frames w f)" "continuation (frames w' f) = continuation (frames w f)"
      "detached (frames w' f) = detached (frames w f)"
  shows "owners_ok (Some f) w'"
proof (rule owners_okI)
  note q = owners_okD[OF ok]
  have pf: "p \<noteq> f" "place (frames w p) = AtTask" "f \<notin> set (tasks w)" "f \<notin> set (launched w)" "continuation (frames w f) = Some p"
    using q(6)[OF p(1)] p(2) f(2) by (auto simp: await_ok_def)
  have nf: "awaiting (frames w f) = None" using q(6)[OF f(1)] f(2) by (simp add: await_ok_def)
  have live: "live_frames w' = live_frames w"
  proof -
    have "exists (frames w' h) = exists (frames w h)" for h
      using w'(1)[of h] p' f'(1) f(1) by (cases "h = f"; cases "h = p") (simp_all add: live_frames_def)
    then show ?thesis using w'(2) by (simp add: live_frames_def)
  qed
  show "distinct (tasks w')" "distinct (launched w')" "set (tasks w') \<subseteq> live_frames w'" "set (launched w') \<subseteq> live_frames w'"
    unfolding live using q(1-4) w'(4,5) by simp_all
  have aw: "awaiting (frames w' h) = awaiting (frames w h)" if "h \<noteq> p" for h using w'(1)[OF _ that] f'(4) by (cases "h = f") simp_all
  have same: "continuation (frames w' h) = continuation (frames w h)" "detached (frames w' h) = detached (frames w h)" for h
    using w'(1)[of h] p' f'(5,6) by (cases "h = f"; cases "h = p"; simp)+
  have uniq: "h = p" if "h \<in> live_frames w" "awaiting (frames w h) = Some f" for h
    using q(6)[OF that(1)] that(2) pf(5) by (simp add: await_ok_def)
  have "\<not> awaited w' f"
  proof
    assume "awaited w' f"
    then obtain r where r: "r \<in> live_frames w" "awaiting (frames w' r) = Some f" unfolding awaited_def live by blast
    have "r \<noteq> p" using r(2) p' by auto
    then have "awaiting (frames w r) = Some f" using aw r(2) by simp
    then show False using uniq[OF r(1)] \<open>r \<noteq> p\<close> by blast
  qed
  then show "y \<in> live_frames w' \<and> \<not> awaited w' y" if "Some f = Some y" for y using f(1) live that by simp
  fix h assume "h \<in> live_frames w'"
  then have h: "h \<in> live_frames w" using live by simp
  have old: "frame_ok None w h" "await_ok w h" using q(6)[OF h] by blast+
  have nl: "p \<notin> set (launched w)" using q(6)[OF p(1)] pf(2) by (auto simp: frame_ok_def split: if_splits)
  show "await_ok w' h"
  proof (cases "h = p")
    case True
    then show ?thesis using p' by (simp add: await_ok_def)
  next
    case False
    have "place (frames w' h) = AtTask \<longleftrightarrow> place (frames w h) = AtTask" using w'(1)[OF _ False] f'(2) f(2) by (cases "h = f") simp_all
    then show ?thesis
      by (rule await_ok_same[OF old(2) aw[OF False]]) (use old(2) same live w'(4-6) in \<open>simp_all add: await_ok_def\<close>)
  qed
  show "c_handle (controls w' h) \<and> (startState (frames w' h) = Lazy) = (place (frames w' h) = AtStart) \<and>
      (place (frames w' h) = AtExternal) = (h \<in> set (handles w'))"
  proof -
    consider "h = f" | "h = p" | "h \<noteq> f" "h \<noteq> p" by blast
    then show ?thesis
    proof cases
      case 1
      then show ?thesis using q(6)[OF f(1)] f(2) w'(3,6) f'(2,3) by simp
    next
      case 2
      then show ?thesis using q(6)[OF p(1)] pf(2) w'(3,6) p' by simp
    next
      case 3
      then show ?thesis using q(6)[OF h] w'(1)[OF 3] w'(3,6) by simp
    qed
  qed
  show "frame_ok (Some f) w' h"
  proof (cases "h = f")
    case True
    then show ?thesis using pf w'(4,5) by (simp add: frame_ok_def)
  next
    case False
    show ?thesis
    proof (rule frame_ok_same[of "Some f" w])
      show "frame_ok (Some f) w h" using old(1) False by (simp add: frame_ok_def)
      show "place (frames w' h) = place (frames w h) \<or> h \<notin> set (launched w) \<and> place (frames w' h) \<noteq> AtStart \<and>
          (place (frames w' h) = AtEnd \<longrightarrow> h \<in> set (tasks w) \<or> Some f = Some h)"
        using w'(1)[OF False] p' nl by (cases "h = p") simp_all
      fix r assume r: "r \<in> live_frames w" "awaiting (frames w r) = Some h"
      have "r \<noteq> p" using r(2) p(2) False by auto
      then show "r \<in> live_frames w' \<and> awaiting (frames w' r) = Some h" using r aw live by simp
    qed (simp_all add: w'(4,5) same)
  qed
qed

text \<open>The promise of a body that ends.\<close>

definition ended :: "'v outcome \<Rightarrow> 'v promise \<Rightarrow> 'v promise" where
  "ended out x = (case out of Returned v \<Rightarrow> x\<lparr>stored_value := Some v\<rparr> | Threw e \<Rightarrow> x\<lparr>exception := Some e\<rparr>)\<lparr>place := AtEnd\<rparr>"

lemma ended_fields [simp]:
  "exists (ended out x) = exists x" "place (ended out x) = AtEnd" "startState (ended out x) = startState x"
  "awaiting (ended out x) = awaiting x" "continuation (ended out x) = continuation x" "detached (ended out x) = detached x"
  by (cases out; simp add: ended_def)+

lemma body_ends_inv:
  assumes inv: "coro_inv None w" and r: "runs i f w" and i: "i < length (stacks w)" and ok: "\<not> bad w" "\<not> terminated w"
  shows "coro_inv None (body_ends i f out w) \<and> \<not> bad (body_ends i f out w)"
proof -
  note d = coro_invD[OF inv]
  note q = owners_okD[OF d(4)]
  obtain g st where s: "stacks w ! i = (g, Some f) # st" "f \<in> running w" "gate_of w f = g" by (rule top_runs[OF r d(1) i])
  have fl: "f \<in> live_frames w" "place (frames w f) = Running" using s(2) by (simp_all add: running_def)
  have sf: "startState (frames w f) = Started" using q(6)[OF fl(1)] fl(2) by (cases "startState (frames w f)") simp_all
  have nl: "f \<notin> set (launched w)" using q(6)[OF fl(1)] fl(2) by (auto simp: frame_ok_def split: if_splits)
  have nh: "f \<notin> set (handles w)" using q(6)[OF fl(1)] fl(2) by simp
  define v where "v = w\<lparr>frames := (frames w)(f := ended out (frames w f))\<rparr>"
  have e: "body_ends i f out w = (case continuation (frames w f) of
        Some p \<Rightarrow> await_done p f (upd_frame p (\<lambda>x. x\<lparr>awaiting := None\<rparr>) (transfer i AtTask p v))
      | None \<Rightarrow> leave i (if detached (frames w f) then free_frame f v else v))"
  proof -
    have v: "upd_frame f (\<lambda>x. (case out of Returned v \<Rightarrow> x\<lparr>stored_value := Some v\<rparr> | Threw e \<Rightarrow> x\<lparr>exception := Some e\<rparr>)\<lparr>place := AtEnd\<rparr>) w = v"
      by (simp add: v_def upd_frame_def ended_def)
    have fv: "continuation (frames v f) = continuation (frames w f)" "detached (frames v f) = detached (frames w f)" by (simp_all add: v_def)
    show ?thesis unfolding body_ends_def Let_def v fv by (rule refl)
  qed
  show ?thesis
  proof (cases "continuation (frames w f)")
    case (Some p)
    have no: "f \<notin> set (tasks w)" "\<not> detached (frames w f)"
      using q(6)[OF fl(1)] Some by (auto simp: frame_ok_def split: if_splits)
    then have p: "p \<in> live_frames w" "awaiting (frames w p) = Some f"
      using q(6)[OF fl(1)] Some nl by (auto simp: frame_ok_def)
    have pf: "p \<noteq> f" "place (frames w p) = AtTask" "f \<in> set (children (controls w p))"
      using q(6)[OF p(1)] p(2) fl(2) by (auto simp: await_ok_def)
    have gp: "gate_of w p = g" using d(3) pf(3) fl(1) s(3) unfolding links_ok_def by (metis (no_types, lifting) expired_def live_frames_def mem_Collect_eq)
    let ?u = "upd_frame p (\<lambda>x. x\<lparr>awaiting := None\<rparr>) (transfer i AtTask p v)"
    have frames: "frames ?u = (frames w)(f := ended out (frames w f), p := (frames w p)\<lparr>place := Running, awaiting := None\<rparr>)"
      using s(1) pf(1) by (simp add: transfer_def upd_frame_def v_def)
    have rest: "controls ?u = controls w" "stacks ?u = (stacks w)[i := (g, Some p) # st]" "executions ?u = executions w"
      "frame_count ?u = frame_count w" "handles ?u = handles w" "tasks ?u = tasks w" "launched ?u = launched w"
      "started ?u = started w" "delivered ?u = delivered w" "bad ?u = bad w" "terminated ?u = terminated w"
      using s(1) pf p by (simp_all add: transfer_def upd_frame_def v_def live_frames_def)
    have same: "same_frames w ?u" by (simp add: same_frames_def frames rest)
    note sm = same_framesD[OF same]
    have run: "running ?u = insert p (running w - {f})" using p(1) pf(1) by (auto simp: running_def sm(1) frames)
    have "p \<notin> running w" using pf(2) by (simp add: running_def)
    then have "acts_ok ?u"
      by (intro acts_ok_replace[OF d(1) i s(1) _ rest(2)]) (use gp in \<open>auto simp: run rest sm(2)\<close>)
    moreover have "locks_ok ?u" by (rule locks_ok_top[OF d(2) i s(1) rest(2)]) (simp_all add: rest)
    moreover have "owners_ok (Some f) ?u"
      by (rule owners_ok_continue[OF d(4) fl p]) (use pf(1) fl(1) in \<open>simp_all add: frames rest live_frames_def\<close>)
    moreover have "handles_ok ?u" by (rule handles_ok_same[OF d(5)]) (use d(5) in \<open>auto simp: frames rest handles_ok_def\<close>)
    moreover have "history_ok ?u"
      by (rule history_ok_same[OF d(6)]) (use sm(1) fl(1) p(1) in \<open>auto simp: frames rest live_frames_def\<close>)
    ultimately have "coro_inv (Some f) ?u" using sm(3)[OF d(3)] by (simp add: coro_inv_def)
    moreover have "finished ?u f" using pf(1) by (simp add: finished_def frames)
    ultimately have "coro_inv None (await_done p f ?u) \<and> \<not> bad (await_done p f ?u)" using await_done_inv[of f ?u p] ok rest(10,11) by simp
    then show ?thesis using e Some by simp
  next
    case None
    let ?u = "leave i v"
    have frames: "frames ?u = (frames w)(f := ended out (frames w f))" using s(1) by (simp add: leave_def v_def)
    have rest: "controls ?u = controls w" "stacks ?u = (stacks w)[i := st]" "executions ?u = (executions w)(g := executions w g - 1)"
      "frame_count ?u = frame_count w" "handles ?u = handles w" "tasks ?u = tasks w" "launched ?u = launched w"
      "started ?u = started w" "delivered ?u = delivered w" "bad ?u = bad w" "terminated ?u = terminated w"
      using s(1) by (simp_all add: leave_def v_def)
    have same: "same_frames w ?u" by (simp add: same_frames_def frames rest)
    note sm = same_framesD[OF same]
    have run: "running ?u = running w - {f}" by (auto simp: running_def sm(1) frames)
    have a: "acts_ok ?u" by (rule acts_ok_leave[OF d(1) i s(1) _ rest(2)]) (use sm(2) in \<open>simp_all add: run rest\<close>)
    have l: "locks_ok ?u" by (rule locks_ok_top[OF d(2) i s(1) rest(2)]) (simp_all add: rest subset_insertI)
    have h: "handles_ok ?u" by (rule handles_ok_same[OF d(5)]) (use d(5) in \<open>auto simp: frames rest handles_ok_def\<close>)
    have hi: "history_ok ?u" by (rule history_ok_same[OF d(6)]) (use sm(1) fl(1) in \<open>auto simp: frames rest live_frames_def\<close>)
    note pieces = a l sm(3)[OF d(3)] h hi
    have own: "owners_ok x ?u" if "owners_ok x w" "f \<in> set (tasks w) \<or> x = Some f" for x
      by (rule owners_ok_place[OF that(1) fl(1) nl]) (use fl sf nh that(2) in \<open>simp_all add: frames rest live_frames_def\<close>)
    show ?thesis
    proof (cases "detached (frames w f)")
      case True
      have inv': "coro_inv (Some f) ?u" using pieces own[OF owners_ok_detached[OF d(4) fl(1) True]] by (simp add: coro_inv_def)
      have c: "leave i (free_frame f v) = free_frame f ?u"
        using s(1) by (simp add: leave_def free_frame_def upd_frame_def upd_control_def v_def)
      have "awaiting (frames ?u f) = None" using q(6)[OF fl(1)] fl(2) by (simp add: frames await_ok_def)
      then have "coro_inv None (free_frame f ?u) \<and> bad (free_frame f ?u) = bad ?u"
        using free_frame_inv[OF inv'] by (simp add: frames)
      then show ?thesis using e None True c ok rest(10) by simp
    next
      case False
      then have "f \<in> set (tasks w)" using q(6)[OF fl(1)] None nl by (auto simp: frame_ok_def split: if_splits)
      then have "coro_inv None ?u" using pieces own[OF d(4)] by (simp add: coro_inv_def)
      then show ?thesis using e None False ok rest(10) by simp
    qed
  qed
qed

section \<open>Every step\<close>

lemma destroy_task_inv:
  assumes "coro_inv None w" "f \<in> set (tasks w)" "\<not> bad w" "\<not> terminated w"
  shows "safe (destroyFrame f (disown f w))"
  using destroyFrame_inv[OF disown_inv[OF assms(1,2)]] assms(3,4) by (simp add: disown_def)

lemma coro_step_safe:
  assumes "coro_step i w w'" "coro_inv None w" "\<not> bad w" "\<not> terminated w" "i < length (stacks w)"
  shows "safe w'"
  using assms
proof (induction rule: coro_step.induct)
  case (create i w)
  have "bad (new_task w) = bad w" by (simp add: new_task_def Let_def)
  then show ?case using new_task_inv[OF create(1)] create(2) by (simp add: safe_def)
next
  case (start f w i w')
  then show ?case using task_start_inv[OF start(4,1,7,2,3)] by (simp add: safe_def)
next
  case (detach_task f w i)
  note o = owned_free[OF coro_invD(4)[OF detach_task(3)], of f]
  show ?case
  proof (cases "finished w f")
    case True
    then have "finished (disown f w) f" by (simp add: finished_def disown_def)
    then show ?thesis using destroy_task_inv[OF detach_task(3,1,4,5)] by (simp add: task_detach_def)
  next
    case False
    have "f \<notin> set (launched w)" using o(5) detach_task(1) by simp
    then have "disown f w = w\<lparr>tasks := remove1 f (tasks w), launched := remove1 f (launched w)\<rparr>"
      by (simp add: disown_def remove1_idem)
    then show ?thesis using detach_inv[OF detach_task(3) _ False detach_task(6,2)] detach_task(1,4) by (simp add: safe_def)
  qed
next
  case (destroy_task f w i)
  then show ?case using destroy_task_inv by blast
next
  case (await i f w c)
  then show ?case using await_task_inv[OF await(5,1) await(8,2,4)] by (simp add: safe_def)
next
  case (joinChain i f w c)
  then show ?case using join_inv[OF joinChain(5,1) joinChain(8,2,3,4)] by (simp add: safe_def)
next
  case (launch c w i)
  note o = owned_free[OF coro_invD(4)[OF launch(3)], of c]
  have l: "c \<in> live_frames w" "c \<notin> set (tasks w)" using o(1,5) launch(1) by auto
  then have "place (frames w c) = AtStart"
    using owners_okD(6)[OF coro_invD(4)[OF launch(3)] l(1)] launch(1) by (simp add: frame_ok_def)
  then have nf: "\<not> finished w c" by (simp add: finished_def)
  have "w\<lparr>launched := remove1 c (launched w)\<rparr> = w\<lparr>tasks := remove1 c (tasks w), launched := remove1 c (launched w)\<rparr>"
    using l(2) by (simp add: remove1_idem)
  then show ?case using detach_inv[OF launch(3) _ nf launch(6,2)] launch(1,4) by (simp add: safe_def)
next
  case (suspend i f w)
  then show ?case using await_external_inv[OF suspend(2,1,5)] by (simp add: safe_def)
next
  case (suspended w i g st)
  then show ?case using leave_idle_inv[OF suspended(2,1,5)] by (simp add: safe_def)
next
  case (ends i f w out)
  then show ?case using body_ends_inv[OF ends(2,1) ends(5,3,4), of out] by (simp add: safe_def)
next
  case (resume f w i)
  then show ?case using resume_handle_inv[OF resume(3,1,6,2)] by (simp add: safe_def)
qed

lemma init_safe: "safe (coro_init n :: 'v coro)"
proof -
  let ?w = "coro_init n :: 'v coro"
  have a: "acts ?w = {#}" "live_frames ?w = {}" "executions ?w = (\<lambda>_. 0)" "tasks ?w = []" "launched ?w = []" "\<not> bad ?w"
    by (simp_all add: acts_def live_frames_def coro_init_def)
  then have "acts_ok ?w" "owners_ok None ?w" by (simp_all add: acts_ok_def running_def owners_ok_def)
  moreover have "links_ok ?w" "locks_ok ?w" "handles_ok ?w" by (simp_all add: links_ok_def locks_ok_def handles_ok_def coro_init_def FrameControl_def)
  moreover have "history_ok ?w" using a(2) by (simp add: history_ok_def) (simp add: coro_init_def)
  ultimately show ?thesis using a(6) by (simp add: safe_def coro_inv_def)
qed

lemma cstep_safe: "safe w \<Longrightarrow> cstep w w' \<Longrightarrow> safe w'"
  using coro_step_safe unfolding cstep_def safe_def by blast

lemma coro_reach_safe: "coro_reach w \<Longrightarrow> safe w"
  unfolding coro_reach_def
proof (elim exE)
  fix n assume "cstep\<^sup>*\<^sup>* (coro_init n) w"
  then show "safe w" by (induction rule: rtranclp_induct) (auto intro: init_safe cstep_safe)
qed

section \<open>Example\<close>

text \<open>One thread: frame 0 is started, awaits frame 1, which returns 5.\<close>

definition demo_tasks :: "nat coro" where
  "demo_tasks = new_task (new_task (coro_init 1))"

definition demo_started :: "nat coro" where
  "demo_started = (case task_start 0 0 demo_tasks of Inr w \<Rightarrow> w | Inl _ \<Rightarrow> demo_tasks)"

definition demo_awaiting :: "nat coro" where
  "demo_awaiting = await_task 0 0 1 (disown 1 demo_started)"

definition demo_resumed :: "nat coro" where
  "demo_resumed = body_ends 0 1 (Returned 5) demo_awaiting"

lemma coro_reach_step: "coro_reach w \<Longrightarrow> \<not> terminated w \<Longrightarrow> i < length (stacks w) \<Longrightarrow> coro_step i w w' \<Longrightarrow> coro_reach w'"
  unfolding coro_reach_def cstep_def by (metis (mono_tags, lifting) rtranclp.rtrancl_into_rtrancl)

lemma demo_started_facts: "\<not> terminated demo_started" "length (stacks demo_started) = 1" "runs 0 0 demo_started"
  "1 \<in> set (tasks demo_started)" "lock_free 0 (gate_of demo_started 1) demo_started" "quiescent 1 demo_started"
  by code_simp+

lemma demo_awaiting_facts: "\<not> terminated demo_awaiting" "length (stacks demo_awaiting) = 1" "runs 0 1 demo_awaiting"
  "tasks demo_awaiting = [0]" "awaiting (frames demo_awaiting 0) = Some 1" "gate_of demo_awaiting 1 = 0"
  by code_simp+

lemma demo_resumed_facts: "\<not> terminated demo_resumed" "delivered demo_resumed = [(0, 1, Returned 5)]" "runs 0 0 demo_resumed"
  "exists (frames demo_resumed 1) = False" "frame_count demo_resumed = 2" "exists (frames demo_resumed 0)"
  by code_simp+

lemma demo_awaiting_reach: "coro_reach demo_awaiting"
proof -
  have r0: "coro_reach (coro_init 1 :: nat coro)" unfolding coro_reach_def by blast
  have "coro_reach (new_task (coro_init 1) :: nat coro)"
    by (rule coro_reach_step[OF r0 _ _ create[of 0]]) code_simp+
  then have r1: "coro_reach demo_tasks" unfolding demo_tasks_def by (rule coro_reach_step[OF _ _ _ create[of 0]]) code_simp+
  have st: "task_start 0 0 demo_tasks = Inr demo_started"
    by (simp add: demo_started_def task_start_def try_start_def demo_tasks_def new_task_def coro_init_def Let_def finished_def TaskPromise_def)
  have "coro_step 0 demo_tasks demo_started" by (rule coro_step.start[OF _ _ st]) code_simp+
  then have "coro_reach demo_started" by (rule coro_reach_step[OF r1, rotated 2]) code_simp+
  then show ?thesis
    unfolding demo_awaiting_def
    by (rule coro_reach_step[of _ 0]) (use demo_started_facts in \<open>auto intro!: await\<close>)
qed

lemma demo_resumed_reach: "coro_reach demo_resumed"
  unfolding demo_resumed_def
  by (rule coro_reach_step[OF demo_awaiting_reach, of 0]) (use demo_awaiting_facts in \<open>auto intro!: ends\<close>)

section \<open>Properties\<close>

lemma coro_reach_inv: "coro_reach w \<Longrightarrow> \<not> terminated w \<Longrightarrow> coro_inv None w"
  using coro_reach_safe unfolding safe_def by blast

text \<open>C14. Coroutine frames are used safely, whatever bodies and threads do: no frame is resumed that was destroyed, is running, or is suspended
  somewhere else than the resumption expects, and none is destroyed twice or while it runs. Every body is started at most once; the
  outcome of an awaited frame is delivered to the awaiting one at most once, as the body left it, and the frame is then gone.\<close>

theorem coro_frames_safe:
  assumes "coro_reach w"
  shows "\<not> bad w \<and>
    (terminated w \<or>
     distinct (started w) \<and> distinct (map (\<lambda>(p, c, out). c) (delivered w)) \<and>
     (\<forall>(p, c, out) \<in> set (delivered w). \<not> exists (frames w c) \<and> place (frames w c) = AtEnd \<and> out = outcome_of (frames w c)))"
proof -
  have "safe w" by (rule coro_reach_safe[OF assms])
  then show ?thesis using coro_invD(6)[of None w] unfolding safe_def history_ok_def by fast
qed

theorem coro_frames_safe_witness: "coro_reach demo_resumed \<and> \<not> bad demo_resumed \<and> \<not> exists (frames demo_resumed 1)"
  using coro_frames_safe[OF demo_resumed_reach] demo_resumed_reach demo_resumed_facts by simp

text \<open>C15. Every frame that exists has exactly one owner: a \<open>Task\<close>, the locals of a combinator that is about to start it, the frame that awaits it
  and is suspended at it, or itself when it was detached and has not ended. So a frame that ended is freed unless its
  \<open>Task\<close> still keeps it, and nothing is leaked or shared.\<close>

theorem coro_ownership:
  assumes "coro_reach w" "\<not> terminated w" "f \<in> live_frames w"
  shows "length (filter (\<lambda>b. b) [f \<in> set (tasks w), f \<in> set (launched w), detached (frames w f),
      \<exists>p \<in> live_frames w. awaiting (frames w p) = Some f \<and> place (frames w p) = AtTask]) = 1 \<and>
    distinct (tasks w) \<and> (\<exists>\<^sub>\<le>\<^sub>1p. p \<in> live_frames w \<and> awaiting (frames w p) = Some f) \<and>
    (place (frames w f) = AtEnd \<longrightarrow> f \<in> set (tasks w))"
proof -
  have inv: "owners_ok None w" using coro_invD(4)[OF coro_reach_inv[OF assms(1,2)]] .
  note q = owners_okD[OF inv]
  have fo: "frame_ok None w f" using q(6)[OF assms(3)] by blast
  have aw: "continuation (frames w f) = Some p \<and> f \<notin> set (tasks w) \<and> f \<notin> set (launched w) \<and> \<not> detached (frames w f) \<and> place (frames w p) = AtTask"
    if "p \<in> live_frames w" "awaiting (frames w p) = Some f" for p using q(6)[OF that(1)] that(2) by (simp add: await_ok_def)
  have one: "\<exists>\<^sub>\<le>\<^sub>1p. p \<in> live_frames w \<and> awaiting (frames w p) = Some f"
  proof (rule Uniq_I)
    fix p r assume "p \<in> live_frames w \<and> awaiting (frames w p) = Some f" "r \<in> live_frames w \<and> awaiting (frames w r) = Some f"
    then show "p = r" using aw[of p] aw[of r] by simp
  qed
  have "(\<exists>p \<in> live_frames w. awaiting (frames w p) = Some f \<and> place (frames w p) = AtTask) \<longleftrightarrow>
      f \<notin> set (tasks w) \<and> f \<notin> set (launched w) \<and> \<not> detached (frames w f)"
    using fo aw unfolding frame_ok_def by (metis option.distinct(1))
  then show ?thesis using fo one q(1) by (auto simp: frame_ok_def split: if_splits)
qed

theorem coro_ownership_witness:
  "coro_reach demo_awaiting \<and> 1 \<in> live_frames demo_awaiting \<and>
   (\<exists>\<^sub>\<le>\<^sub>1p. p \<in> live_frames demo_awaiting \<and> awaiting (frames demo_awaiting p) = Some 1)"
proof -
  have "1 \<in> live_frames demo_awaiting" by code_simp
  then show ?thesis using coro_ownership[OF demo_awaiting_reach demo_awaiting_facts(1), of 1] demo_awaiting_reach by blast
qed

text \<open>C16. A chain of frames is run by one thread at a time: frames linked by awaiting or by a combinator share a gate, a frame that runs holds
  its gate, and two threads never hold the same gate. The counter of a gate is the number of activations that hold it, so
  \<open>destroyFrame\<close> calls \<open>std::terminate\<close> exactly when it is asked to destroy an unfinished frame of an executing chain.\<close>

theorem coro_chain_exclusive:
  assumes "coro_reach w" "\<not> terminated w"
  shows "(\<forall>p c. (p, c) \<in> (links w)\<^sup>* \<longrightarrow> gate_of w c = gate_of w p) \<and>
    (\<forall>p \<in> live_frames w. \<forall>c. awaiting (frames w p) = Some c \<longrightarrow> (p, c) \<in> links w) \<and>
    (\<forall>i j g f. i < length (stacks w) \<and> j < length (stacks w) \<and> (g, Some f) \<in> set (stacks w ! i) \<longrightarrow>
       gate_of w f = g \<and> (i \<noteq> j \<longrightarrow> g \<notin> fst ` set (stacks w ! j))) \<and>
    (\<forall>g. executions w g = count_list (map fst (concat (stacks w))) g)"
proof -
  note d = coro_invD[OF coro_reach_inv[OF assms]]
  have "(p, c) \<in> links w" if "p \<in> live_frames w" "awaiting (frames w p) = Some c" for p c
    using owners_okD(6)[OF d(4) that(1)] that(2) by (auto simp: await_ok_def links_def expired_def live_frames_def)
  moreover have "gate_of w f = g \<and> (i \<noteq> j \<longrightarrow> g \<notin> fst ` set (stacks w ! j))"
    if ij: "i < length (stacks w)" "j < length (stacks w)" and m: "(g, Some f) \<in> set (stacks w ! i)" for i j g f
  proof -
    have "(g, Some f) \<in># acts w" using ij(1) m by (auto simp: acts_def intro: nth_mem)
    moreover have "g \<in> fst ` set (stacks w ! i)" using m by force
    moreover have "i \<noteq> j \<longrightarrow> fst ` set (stacks w ! i) \<inter> fst ` set (stacks w ! j) = {}" using d(2) ij by (simp add: locks_ok_def)
    ultimately show ?thesis using acts_mem[OF d(1)] by blast
  qed
  moreover have "executions w g = count_list (map fst (concat (stacks w))) g" for g
    using acts_okD(2)[OF d(1), of g] by (metis acts_def count_mset mset_map)
  ultimately show ?thesis using chain_gate[OF d(3)] by blast
qed

theorem coro_chain_exclusive_witness:
  "coro_reach demo_awaiting \<and> gate_of demo_awaiting 1 = gate_of demo_awaiting 0 \<and> executions demo_awaiting 0 = 1"
proof -
  note t = coro_chain_exclusive[OF demo_awaiting_reach demo_awaiting_facts(1)]
  have "0 \<in> live_frames demo_awaiting" by code_simp
  then have "(0, 1) \<in> links demo_awaiting" using t demo_awaiting_facts(5) by blast
  then have "gate_of demo_awaiting 1 = gate_of demo_awaiting 0" using t by blast
  moreover have "count_list (map fst (concat (stacks demo_awaiting))) 0 = 1" by code_simp
  ultimately show ?thesis using t demo_awaiting_reach by simp
qed

end
