(* ===== verification/Spec2Isabelle.thy ===== *)
theory Spec2Isabelle
  imports Packet_Framer Inet_Address Event_Loop Tcp_Server_Proofs Tcp_Client_Run Cancel_Token Dns_Resolver When_All Timed_Race Coro_Proofs
begin

text \<open>
  Verification of mini-trantor, a reactor-style TCP library in C++ (\<^verbatim>\<open>src/mini\<close>).

  \<^bold>\<open>The program.\<close> A thread runs an \<^verbatim>\<open>EventLoop\<close>: it polls descriptors, dispatches the events of \<^verbatim>\<open>Channel\<close>s, fires the
  timers of its \<^verbatim>\<open>TimerQueue\<close> and runs functors that any thread may queue. A \<^verbatim>\<open>TcpConnection\<close> lives on one loop; it
  reads and writes its descriptor through a \<^verbatim>\<open>ConnectionTransport\<close> (plain or TLS) and two \<^verbatim>\<open>Buffer\<close>s, pauses reading by a
  \<^verbatim>\<open>ConnectionBackpressureController\<close>, and resumes coroutines by a \<^verbatim>\<open>ConnectionAwaiterRegistry\<close>. A \<^verbatim>\<open>TcpServer\<close> accepts
  connections with an \<^verbatim>\<open>Acceptor\<close> on its base loop and hands them to the loops of an \<^verbatim>\<open>EventLoopThreadPool\<close>, whose workers are
  \<^verbatim>\<open>EventLoopThread\<close>s; a \<^verbatim>\<open>TcpClient\<close> resolves names with a
  \<^verbatim>\<open>DnsResolver\<close>, connects with a \<^verbatim>\<open>Connector\<close> per attempt and reconnects. Coroutines are \<^verbatim>\<open>Task\<close>s; they await each other, sleeps, resolutions and
  the events of a connection, are combined by \<^verbatim>\<open>whenAll\<close>, \<^verbatim>\<open>whenAny\<close> and \<^verbatim>\<open>withTimeout\<close>, and are cancelled through
  \<^verbatim>\<open>CancellationToken\<close>s. \<^verbatim>\<open>PacketFramer\<close> turns the byte stream into frames.

  \<^bold>\<open>Theories and sources.\<close>
  \<^item> \<open>Prelude\<close>: failures as values (\<open>cpp_error\<close>, \<open>res\<close>), \<open>size_t\<close> arithmetic that wraps, raw storage.
  \<^item> \<open>Byte_Buffer\<close> (\<^verbatim>\<open>net/Buffer\<close>): the vector with its two indexes. The class invariant, the refinement to a FIFO of
    bytes (locale \<open>byte_fifo\<close>), \<open>readFd\<close> with its overflow buffer, and the wrap of \<open>writerIndex_ + len\<close>.
  \<^item> \<open>Packet_Framer\<close> (\<^verbatim>\<open>net/framing\<close>): frame format and incremental decoder. Both round trips, batches, bounds of every
    read, and the truncation of a length beyond 32 bits.
  \<^item> \<open>Timer_Queue\<close> (\<^verbatim>\<open>net/TimerQueue\<close>, \<^verbatim>\<open>net/TimerId.h\<close>): both indexes over shared timer objects. Consistency, exactly the due
    timers fire, and in the log of a run no timer fires after it was cancelled, wherever the call was made.
  \<^item> \<open>Channel_Poller\<close> (\<^verbatim>\<open>net/Channel\<close>, \<^verbatim>\<open>net/Poller\<close>, \<^verbatim>\<open>net/poller\<close>, dispatch of \<^verbatim>\<open>net/EventLoop\<close>): channels on a heap, two back ends.
    The locale \<open>poller\<close> is what the loop relies on; \<open>select\<close> and (over the laws of \<open>epoll_ctl\<close>, locale \<open>epoll_kernel\<close>)
    \<open>epoll\<close> implement it. Dispatch never follows the pointer of a removed channel.
  \<^item> \<open>Event_Loop\<close> (\<^verbatim>\<open>net/EventLoop\<close>, \<^verbatim>\<open>net/LoopHandle\<close>, \<^verbatim>\<open>net/platform/Wakeup_linux\<close>): the task queue under interleaving of the owner
    and any number of posting threads. No lost wake-up, FIFO, what a handle accepts runs.
  \<^item> \<open>Loop_Thread\<close> (\<^verbatim>\<open>net/EventLoopThread\<close>): worker and controller as program counters over the shared state, with sleeping and notification on the
    condition variable. \<open>startLoop\<close> and \<open>stop\<close> return (no notification is missed, a step is always possible, a bound decreases),
    \<open>loop_\<close> never dangles.
  \<^item> \<open>Thread_Pool\<close> (\<^verbatim>\<open>net/EventLoopThreadPool\<close>): all-or-nothing start, rotation, refusal of re-entrant calls.
  \<^item> \<open>Socket_Ops\<close> (\<^verbatim>\<open>net/Socket\<close>, \<^verbatim>\<open>net/platform/SocketsOps_linux\<close>): error classes and the table of open descriptors.
  \<^item> \<open>Inet_Address\<close> (\<^verbatim>\<open>net/InetAddress\<close>): the bytes of \<open>sockaddr_storage\<close> read and written at the offsets of both address
    structures, over \<open>inet_pton\<close> and \<open>inet_ntop\<close> as parameters (\<open>inet_text\<close>, which the concrete \<open>ref_pton\<close> and \<open>ref_ntop\<close> satisfy).
    Construction refines \<open>denotes\<close>, the text round trip, every access stays in the storage.
  \<^item> \<open>Connector_Model\<close> (\<^verbatim>\<open>net/Connector\<close>, \<^verbatim>\<open>net/ConnectorOptions.h\<close>): attempts with retry, backoff and timeout under re-entrant
    callbacks. Descriptors and timers are accounted for, \<open>stop\<close> silences, hand-over is exclusive.
  \<^item> \<open>Owned_Channel\<close>, \<open>Backpressure\<close>, \<open>Awaiter_Registry\<close>, \<open>Transport\<close> (\<^verbatim>\<open>net/detail\<close>): the collaborators of a connection; the first
    is justified by two lemmas of the locale \<open>poller\<close>, the transport by the locale \<open>stream_writer\<close>.
  \<^item> \<open>Tcp_Connection\<close>, \<open>Tcp_Connection_Proofs\<close> (\<^verbatim>\<open>net/TcpConnection\<close>, \<^verbatim>\<open>net/detail/ConnectionCallbackDispatcher\<close>): the connection with
    all its entry points and re-entrant user code. Integrity of the byte stream, flow control, one close,
    graceful shutdown.
  \<^item> \<open>Tcp_Server\<close>, \<open>Tcp_Server_Proofs\<close> (\<^verbatim>\<open>net/TcpServer\<close>, \<^verbatim>\<open>net/Acceptor\<close>, \<^verbatim>\<open>net/TcpServerOptions.h\<close>): the server over the models of
    the connection and of the pool, with the functors it queues in each loop. Responsibility for connections,
    descriptors, completion of both stops, idle timers.
  \<^item> \<open>Tcp_Client\<close>, \<open>Tcp_Client_Proofs\<close>, \<open>Tcp_Client_Run\<close> (\<^verbatim>\<open>net/TcpClient\<close>, \<^verbatim>\<open>net/TcpClientOptions.h\<close>): the client over the models of
    the connector and of the connection, whose callbacks re-enter it. One connection at a time, no waiting for nothing,
    every descriptor has one owner.
  \<^item> \<open>Cancel_Token\<close> (\<^verbatim>\<open>coroutine/CancellationToken.h\<close>): sources, tokens, registrations and links under interleaving, with callbacks
    that re-enter and throw. A callback runs exactly once or is withdrawn, cancellation is complete, calls return.
  \<^item> \<open>Dns_Resolver\<close> (\<^verbatim>\<open>net/DnsResolver\<close>, \<^verbatim>\<open>net/DnsResolverOptions.h\<close>): callers, workers, cancellation and the loops of the callers as
    interleaved steps, with the cache and the condition variable of the workers. A request is answered at most once, and when
    everybody sleeps exactly once.
  \<^item> \<open>Awaitable\<close>: the locale \<open>awaitable\<close>, what an awaitable promises to the coroutine that awaits it (resumed at most once, after it was
    suspended); the four theories below interpret it and \<open>Coro_Task\<close> relies on it.
  \<^item> \<open>When_All\<close>, \<open>When_Any\<close> (\<^verbatim>\<open>coroutine/WhenAll.h\<close>, \<^verbatim>\<open>coroutine/WhenAny.h\<close>): the combinators, one step per access to the shared block,
    with the wrappers on any threads. The results in order or the first exception; one winner and cancelled losers; no completion
    is lost.
  \<^item> \<open>Sleep_Resolve\<close> (\<^verbatim>\<open>coroutine/SleepAwaitable.h\<close>, \<^verbatim>\<open>coroutine/ResolveAwaitable.h\<close>) and \<open>Timed_Race\<close> (\<^verbatim>\<open>coroutine/Timeout.h\<close>): the
    awaitables with what the loop, the token and the resolver hold for them, and the race of an operation against a sleep, the two
    stepping together.
    Resumed once, never after destruction, never forgotten; what a timeout returns and cancels.
  \<^item> \<open>Coro_Task\<close>, \<open>Coro_Proofs\<close> (\<^verbatim>\<open>coroutine/Task.h\<close>, \<^verbatim>\<open>coroutine/ResumeHandle.h\<close>): frames with their promises, controls and gates, and
    threads with stacks of activations. Frames are used safely, have one owner, and a chain runs on one thread at a time.

  \<^bold>\<open>How it is modelled.\<close> A class is a record with its fields, a member function a definition on it; fields outside the
  class that a claim speaks of (open descriptors, queued functors, logs of callbacks) are added to the record. Exceptions,
  \<open>LOG_FATAL\<close> and undefined behaviour are \<open>Inl\<close> values or flags. What comes from outside is universally quantified: answers
  of system calls and of OpenSSL are sequences or arguments of the event that makes the call, user callbacks are
  the calls of the public interface they make. Nested callbacks are run by \<open>exec_at user k\<close>, which cuts off below depth \<open>k\<close>;
  the theorems hold for every \<open>k\<close>, so for every finite nesting. Threads interleave as steps, a section under one mutex being
  one step. Loops are structural or carry a termination proof; the only other fuel is the depth of \<open>adoptGate\<close>, one more than the
  number of links, which \<open>adoptGate_gates\<close> shows to be enough.

  \<^bold>\<open>Not modelled.\<close> The Windows back end
  (\<^verbatim>\<open>SocketsOps_win\<close>), \<^verbatim>\<open>TlsContext\<close> (configuration of OpenSSL), \<^verbatim>\<open>SignalWatcher\<close> and \<^verbatim>\<open>Logger\<close> are thin layers over
  the operating system. Callbacks that throw out of the loop, and user code that throws inside a connection, are not modelled.
\<close>

end
